(* ===== verification/Prelude.thy ===== *)
theory Prelude
  imports Main "HOL-Library.Word"
begin

unbundle bit_operations_syntax

text \<open>
  Shared vocabulary of the development.  Machine integers keep the width the C++ code gives
  them; an address (\<open>uintptr_t\<close>) is a 64-bit word.  An operation that the code leaves
  undefined (an out-of-range array access, a dereference of a null or freed pointer, a violated
  \<open>cilksan_assert\<close>) returns \<^term>\<open>None\<close>, so every such path is a branch of the
  model.  The generic lemmas on lists and words used by several components are here.
\<close>

type_synonym u8 = "8 word"
type_synonym u16 = "16 word"
type_synonym u32 = "32 word"
type_synonym u64 = "64 word"

text \<open>A CSI id is an \<open>int64_t\<close>; it is kept as its 64-bit pattern and read with
  \<^term>\<open>sint\<close> where the code compares it as a signed number.\<close>

type_synonym csi_id_t = u64

definition UNKNOWN_CSI_ID :: csi_id_t where
  "UNKNOWN_CSI_ID = - 1"

named_theorems wf_intros "introduction of well-formedness invariants"
named_theorems op_defs "definitions of the operations of a component"

subsection \<open>Array cells\<close>

text \<open>Reading and writing one cell of an allocated array; \<^term>\<open>None\<close> out of bounds.\<close>

definition arr_get :: "'a list \<Rightarrow> nat \<Rightarrow> 'a option" where
  "arr_get xs i = (if i < length xs then Some (xs ! i) else None)"

definition arr_set :: "'a list \<Rightarrow> nat \<Rightarrow> 'a \<Rightarrow> 'a list option" where
  "arr_set xs i v = (if i < length xs then Some (xs[i := v]) else None)"

lemma arr_get_Some [simp]: "i < length xs \<Longrightarrow> arr_get xs i = Some (xs ! i)"
  by (simp add: arr_get_def)

lemma arr_set_Some [simp]: "i < length xs \<Longrightarrow> arr_set xs i v = Some (xs[i := v])"
  by (simp add: arr_set_def)

lemma arr_get_eq_Some_iff: "arr_get xs i = Some v \<longleftrightarrow> i < length xs \<and> v = xs ! i"
  by (auto simp: arr_get_def)

lemma take_Suc_snoc: "i < length xs \<Longrightarrow> take (Suc i) xs = take i xs @ [xs ! i]"
  by (simp add: take_Suc_conv_app_nth)

lemma take_list_update_last:
  "i < length xs \<Longrightarrow> take (Suc i) (xs[i := v]) = take i xs @ [v]"
  by (simp add: take_Suc_conv_app_nth)

lemma butlast_take_Suc: "i < length xs \<Longrightarrow> butlast (take (Suc i) xs) = take i xs"
  by (simp add: take_Suc_conv_app_nth)

lemma last_take_Suc: "i < length xs \<Longrightarrow> last (take (Suc i) xs) = xs ! i"
  by (simp add: take_Suc_conv_app_nth)

lemma length_filter_update:
  assumes "i < length xs"
  shows "length (filter P (xs[i := v])) + (if P (xs ! i) then 1 else 0) =
    length (filter P xs) + (if P v then 1 else 0)"
proof -
  have "length (filter P xs) = length (filter P (take i xs @ xs ! i # drop (Suc i) xs))"
    using assms by (simp add: id_take_nth_drop [symmetric])
  with assms show ?thesis by (simp add: upd_conv_take_nth_drop)
qed

text \<open>Every element repeated the same number of times.\<close>

lemma nth_concat_replicate:
  "i < r * length xs \<Longrightarrow> concat (map (\<lambda>d. replicate r (f d)) xs) ! i = f (xs ! (i div r))"
proof (induction xs arbitrary: i)
  case (Cons x xs)
  have r: "0 < r" using Cons.prems by (cases r) auto
  show ?case
  proof (cases "i < r")
    case False
    then have "i div r = Suc ((i - r) div r)" using r by (simp add: le_div_geq)
    with False Cons show ?thesis by (simp add: nth_append)
  qed (simp add: nth_append)
qed simp

lemma length_concat_replicate: "length (concat (map (\<lambda>d. replicate r (f d)) xs)) = r * length xs"
  by (induction xs) simp_all

lemma filter_concat_replicate:
  "length (filter P (concat (map (\<lambda>d. replicate r (f d)) xs))) = r * length (filter (P \<circ> f) xs)"
  by (induction xs) (simp_all add: algebra_simps filter_replicate)

subsection \<open>Words\<close>

lemma unat_Suc_word:
  fixes x y :: "'a::len word"
  assumes "unat x < unat y"
  shows "unat (x + 1) = Suc (unat x)"
proof -
  have "unat y < 2 ^ LENGTH('a)" by (rule unsigned_less)
  with assms have "Suc (unat x) < 2 ^ LENGTH('a)" by linarith
  then show ?thesis by (simp add: unat_word_ariths)
qed

lemma unat_minus_one_word:
  fixes x :: "'a::len word"
  assumes "0 < unat x"
  shows "unat (x - 1) = unat x - 1"
  using assms by (metis unat_0 unat_minus_one less_irrefl)

lemma bit_word_imp_less: "bit (x :: 'a::len word) n \<Longrightarrow> n < LENGTH('a)"
  by (rule bit_imp_le_length)

subsection \<open>Lists sorted strictly increasing\<close>

lemma sorted_wrt_less_distinct:
  "sorted_wrt (<) (xs :: 'a::linorder list) \<Longrightarrow> distinct xs"
  by (induction xs) auto

lemma sorted_wrt_less_hd_le:
  "sorted_wrt (<) (x # xs) \<Longrightarrow> y \<in> set (x # xs) \<Longrightarrow> (x :: 'a::linorder) \<le> y"
  by auto

lemma sorted_wrt_less_unique:
  assumes "sorted_wrt (<) (xs :: 'a::linorder list)" "sorted_wrt (<) ys" "set xs = set ys"
  shows "xs = ys"
  using assms strict_sorted_equal by blast

end
