(* ===== verification/AddrMap.thy ===== *)
theory AddrMap
  imports Prelude
begin

text \<open>
  The two-level table \<open>AddrMap_t\<close> of \<open>cilksan/addrmap.h\<close>, a partial map from addresses
  to data: a top-level table of pages, each page with one datum and one valid bit per byte.  The
  locale \<open>map_iface\<close> states what its users (the lock registry, the table of allocation sizes)
  rely on.
\<close>

subsection \<open>Pages\<close>

definition LG_PAGE_SIZE :: nat where "LG_PAGE_SIZE = 24"
definition LG_TABLE_SIZE :: nat where "LG_TABLE_SIZE = 48 - LG_PAGE_SIZE"
definition BYTE_MASK :: u64 where "BYTE_MASK = push_bit LG_PAGE_SIZE 1 - 1"

definition AddrMap_byte :: "u64 \<Rightarrow> u64" where
  "AddrMap_byte addr = addr AND BYTE_MASK"

definition AddrMap_page :: "u64 \<Rightarrow> u64" where
  "AddrMap_page addr = drop_bit LG_PAGE_SIZE addr"

definition LG_VALID_WORD_SIZE :: nat where "LG_VALID_WORD_SIZE = 6"
definition VALID_WORD_SIZE :: u64 where "VALID_WORD_SIZE = push_bit LG_VALID_WORD_SIZE 1"
definition VALID_BIT_MASK :: u64 where "VALID_BIT_MASK = VALID_WORD_SIZE - 1"
definition VALID_WORD_MASK :: u64 where "VALID_WORD_MASK = NOT VALID_BIT_MASK"
definition VALID_WORD_IDX :: u64 where
  "VALID_WORD_IDX = VALID_WORD_MASK XOR NOT (push_bit LG_PAGE_SIZE 1 - 1)"

definition validWord :: "u64 \<Rightarrow> u64" where
  "validWord addr = drop_bit LG_VALID_WORD_SIZE (addr AND VALID_WORD_IDX)"

definition validBit :: "u64 \<Rightarrow> u64" where
  "validBit addr = addr AND VALID_BIT_MASK"

text \<open>
  The array \<open>Valid\<close> of 64-bit words and the array \<open>Bytes\<close>, indexed by words; every index
  the operations form is inside (\<open>validWord_bound\<close>, \<open>AddrMap_byte_bound\<close>).  A fresh page comes
  from \<open>mmap\<close>, with zeroed valid bits and unspecified data \<open>d\<close>.
\<close>

record 'd AddrPage_t =
  pg_Valid :: "u64 \<Rightarrow> u64"
  pg_Bytes :: "u64 \<Rightarrow> 'd"

definition AddrPage_new :: "(u64 \<Rightarrow> 'd) \<Rightarrow> 'd AddrPage_t" where
  "AddrPage_new d = \<lparr>pg_Valid = (\<lambda>_. 0), pg_Bytes = d\<rparr>"

definition AddrPage_isValid :: "'d AddrPage_t \<Rightarrow> u64 \<Rightarrow> bool" where
  "AddrPage_isValid P byteaddr \<longleftrightarrow>
     pg_Valid P (validWord byteaddr) AND push_bit (unat (validBit byteaddr)) 1 \<noteq> 0"

definition AddrPage_setValid :: "u64 \<Rightarrow> 'd AddrPage_t \<Rightarrow> 'd AddrPage_t" where
  "AddrPage_setValid byteaddr P =
     P\<lparr>pg_Valid := (pg_Valid P)(validWord byteaddr :=
        pg_Valid P (validWord byteaddr) OR push_bit (unat (validBit byteaddr)) 1)\<rparr>"

definition AddrPage_clearValid :: "u64 \<Rightarrow> 'd AddrPage_t \<Rightarrow> 'd AddrPage_t" where
  "AddrPage_clearValid byteaddr P =
     P\<lparr>pg_Valid := (pg_Valid P)(validWord byteaddr :=
        pg_Valid P (validWord byteaddr) AND NOT (push_bit (unat (validBit byteaddr)) 1))\<rparr>"

subsection \<open>The table\<close>

text \<open>
  The top-level table has \<open>2^24\<close> entries; an address of 2^48 or more indexes outside it, and
  every operation on such an address is \<^term>\<open>None\<close>.
\<close>

type_synonym 'd AddrMap_t = "u64 \<Rightarrow> 'd AddrPage_t option"

definition AddrMap_new :: "'d AddrMap_t" where
  "AddrMap_new = (\<lambda>_. None)"

definition AddrMap_getPage :: "'d AddrMap_t \<Rightarrow> u64 \<Rightarrow> 'd AddrPage_t option option" where
  "AddrMap_getPage T addr =
     (if AddrMap_page addr < push_bit LG_TABLE_SIZE 1 then Some (T (AddrMap_page addr)) else None)"

definition AddrMap_getOrCreatePage ::
  "(u64 \<Rightarrow> 'd) \<Rightarrow> 'd AddrMap_t \<Rightarrow> u64 \<Rightarrow> ('d AddrPage_t \<times> 'd AddrMap_t) option" where
  "AddrMap_getOrCreatePage d T addr =
     (case AddrMap_getPage T addr of
        None \<Rightarrow> None
      | Some (Some P) \<Rightarrow> Some (P, T)
      | Some None \<Rightarrow> let P = AddrPage_new d in Some (P, T(AddrMap_page addr := Some P)))"

definition AddrMap_contains :: "'d AddrMap_t \<Rightarrow> u64 \<Rightarrow> bool option" where
  "AddrMap_contains T addr =
     (case AddrMap_getPage T addr of
        None \<Rightarrow> None
      | Some (Some P) \<Rightarrow> Some (AddrPage_isValid P (AddrMap_byte addr))
      | Some None \<Rightarrow> Some False)"

definition AddrMap_get :: "'d AddrMap_t \<Rightarrow> u64 \<Rightarrow> 'd option option" where
  "AddrMap_get T addr =
     (case AddrMap_getPage T addr of
        None \<Rightarrow> None
      | Some (Some P) \<Rightarrow>
          Some (if AddrPage_isValid P (AddrMap_byte addr)
                then Some (pg_Bytes P (AddrMap_byte addr)) else None)
      | Some None \<Rightarrow> Some None)"

definition AddrMap_insert ::
  "(u64 \<Rightarrow> 'd) \<Rightarrow> u64 \<Rightarrow> 'd \<Rightarrow> 'd AddrMap_t \<Rightarrow> 'd AddrMap_t option" where
  "AddrMap_insert d addr data T =
     (case AddrMap_getOrCreatePage d T addr of
        None \<Rightarrow> None
      | Some (P, T) \<Rightarrow>
          let P = P\<lparr>pg_Bytes := (pg_Bytes P)(AddrMap_byte addr := data)\<rparr>;
              P = AddrPage_setValid (AddrMap_byte addr) P
          in Some (T(AddrMap_page addr := Some P)))"

definition AddrMap_remove :: "u64 \<Rightarrow> 'd AddrMap_t \<Rightarrow> 'd AddrMap_t option" where
  "AddrMap_remove addr T =
     (case AddrMap_getPage T addr of
        None \<Rightarrow> None
      | Some (Some P) \<Rightarrow>
          Some (T(AddrMap_page addr := Some (AddrPage_clearValid (AddrMap_byte addr) P)))
      | Some None \<Rightarrow> Some T)"

subsection \<open>Index arithmetic\<close>

definition addr_ok :: "u64 \<Rightarrow> bool" where
  "addr_ok addr \<longleftrightarrow> AddrMap_page addr < push_bit LG_TABLE_SIZE 1"

lemmas addr_consts = LG_PAGE_SIZE_def LG_TABLE_SIZE_def BYTE_MASK_def LG_VALID_WORD_SIZE_def
  VALID_WORD_SIZE_def VALID_BIT_MASK_def VALID_WORD_MASK_def VALID_WORD_IDX_def

lemma AddrMap_byte_take_bit: "AddrMap_byte addr = take_bit 24 addr"
  by (simp add: AddrMap_byte_def addr_consts take_bit_eq_mask mask_eq_exp_minus_1)

lemma page_byte_inj:
  "AddrMap_page a = AddrMap_page b \<Longrightarrow> AddrMap_byte a = AddrMap_byte b \<Longrightarrow> a = b"
  unfolding AddrMap_byte_take_bit AddrMap_page_def LG_PAGE_SIZE_def
  by (metis bits_ident)

lemma validBit_take_bit: "validBit b = take_bit 6 b"
  by (simp add: validBit_def addr_consts take_bit_eq_mask mask_eq_exp_minus_1)

lemma validWord_drop_bit: "validWord (AddrMap_byte a) = drop_bit 6 (AddrMap_byte a)"
proof -
  have "VALID_WORD_IDX = 0xFFFFC0" by (simp add: addr_consts)
  moreover have "AddrMap_byte a AND 0xFFFFC0 = push_bit 6 (drop_bit 6 (AddrMap_byte a))"
  proof -
    have "(0xFFFFC0 :: u64) = push_bit 6 (mask 18)" by (simp add: mask_eq_exp_minus_1)
    then show ?thesis
      unfolding AddrMap_byte_take_bit by (auto simp: bit_eq_iff bit_simps)
  qed
  ultimately show ?thesis
    by (simp add: validWord_def LG_VALID_WORD_SIZE_def)
       (auto simp: bit_eq_iff bit_simps AddrMap_byte_take_bit)
qed

lemma validWord_bit_inj:
  assumes "validWord (AddrMap_byte a) = validWord (AddrMap_byte b)"
    and "validBit (AddrMap_byte a) = validBit (AddrMap_byte b)"
  shows "AddrMap_byte a = AddrMap_byte b"
  using assms unfolding validWord_drop_bit validBit_take_bit by (metis bits_ident)

lemma validBit_less: "unat (validBit b) < 64"
  using take_bit_nat_less_exp [of 6 "unat b"]
  by (simp add: validBit_take_bit unsigned_take_bit_eq)

lemma isValid_bit:
  "AddrPage_isValid P b \<longleftrightarrow> bit (pg_Valid P (validWord b)) (unat (validBit b))"
  by (simp add: AddrPage_isValid_def bit_iff_and_push_bit_not_eq_0)

lemma validBit_unat_eq: "unat (validBit a) = unat (validBit b) \<longleftrightarrow> validBit a = validBit b"
  by (simp add: word_unat_eq_iff)

lemma isValid_setValid:
  "AddrPage_isValid (AddrPage_setValid (AddrMap_byte a) P) (AddrMap_byte b) \<longleftrightarrow>
     AddrMap_byte b = AddrMap_byte a \<or> AddrPage_isValid P (AddrMap_byte b)"
proof (cases "AddrMap_byte b = AddrMap_byte a")
  case True
  then show ?thesis
    using validBit_less [of "AddrMap_byte a"]
    by (simp add: isValid_bit AddrPage_setValid_def bit_simps)
next
  case False
  then have "validWord (AddrMap_byte b) \<noteq> validWord (AddrMap_byte a) \<or>
      validBit (AddrMap_byte b) \<noteq> validBit (AddrMap_byte a)"
    using validWord_bit_inj [of b a] by blast
  then show ?thesis using False
    by (auto simp: isValid_bit AddrPage_setValid_def bit_simps validBit_unat_eq)
qed

lemma isValid_clearValid:
  "AddrPage_isValid (AddrPage_clearValid (AddrMap_byte a) P) (AddrMap_byte b) \<longleftrightarrow>
     AddrMap_byte b \<noteq> AddrMap_byte a \<and> AddrPage_isValid P (AddrMap_byte b)"
proof (cases "AddrMap_byte b = AddrMap_byte a")
  case True
  then show ?thesis
    using validBit_less [of "AddrMap_byte a"]
    by (simp add: isValid_bit AddrPage_clearValid_def bit_simps)
next
  case False
  then have "validWord (AddrMap_byte b) \<noteq> validWord (AddrMap_byte a) \<or>
      validBit (AddrMap_byte b) \<noteq> validBit (AddrMap_byte a)"
    using validWord_bit_inj [of b a] by blast
  then show ?thesis using False validBit_less [of "AddrMap_byte b"]
    by (auto simp: isValid_bit AddrPage_clearValid_def bit_simps validBit_unat_eq)
qed

lemma isValid_update_Bytes [simp]:
  "AddrPage_isValid (P\<lparr>pg_Bytes := f\<rparr>) b = AddrPage_isValid P b"
  by (simp add: AddrPage_isValid_def)

lemma isValid_new [simp]: "\<not> AddrPage_isValid (AddrPage_new d) b"
  by (simp add: AddrPage_isValid_def AddrPage_new_def)

lemma pg_Bytes_valid [simp]:
  "pg_Bytes (AddrPage_setValid b P) = pg_Bytes P" "pg_Bytes (AddrPage_clearValid b P) = pg_Bytes P"
  by (simp_all add: AddrPage_setValid_def AddrPage_clearValid_def)

text \<open>Every index is inside its array: 2^18 valid words and 2^24 data per page.\<close>

lemma AddrMap_byte_bound: "unat (AddrMap_byte a) < 2 ^ 24"
  using take_bit_nat_less_exp [of 24 "unat a"]
  by (simp add: AddrMap_byte_take_bit unsigned_take_bit_eq)

lemma validWord_bound: "unat (validWord (AddrMap_byte a)) < 2 ^ 24 div 64"
  using AddrMap_byte_bound [of a]
  by (simp add: validWord_drop_bit drop_bit_eq_div unat_div div_less_iff_less_mult)

subsection \<open>The abstract map\<close>

definition AddrMap_lookup :: "'d AddrMap_t \<Rightarrow> u64 \<Rightarrow> 'd option" where
  "AddrMap_lookup T addr =
     (case T (AddrMap_page addr) of
        None \<Rightarrow> None
      | Some P \<Rightarrow> if AddrPage_isValid P (AddrMap_byte addr)
                  then Some (pg_Bytes P (AddrMap_byte addr)) else None)"

lemma AddrMap_get_lookup: "addr_ok a \<Longrightarrow> AddrMap_get T a = Some (AddrMap_lookup T a)"
  by (simp add: AddrMap_get_def AddrMap_getPage_def addr_ok_def AddrMap_lookup_def
      split: option.splits)

lemma AddrMap_contains_lookup:
  "addr_ok a \<Longrightarrow> AddrMap_contains T a = Some (AddrMap_lookup T a \<noteq> None)"
  by (simp add: AddrMap_contains_def AddrMap_getPage_def addr_ok_def AddrMap_lookup_def
      split: option.splits)

lemma AddrMap_not_ok:
  assumes "\<not> addr_ok a"
  shows "AddrMap_get T a = None" "AddrMap_contains T a = None" "AddrMap_insert d a v T = None"
    "AddrMap_remove a T = None"
  using assms
  by (simp_all add: AddrMap_get_def AddrMap_contains_def AddrMap_insert_def AddrMap_remove_def
      AddrMap_getOrCreatePage_def AddrMap_getPage_def addr_ok_def)

lemma AddrMap_lookup_new [simp]: "AddrMap_lookup AddrMap_new a = None"
  by (simp add: AddrMap_lookup_def AddrMap_new_def)

lemma AddrMap_lookup_upd:
  "AddrMap_lookup (T(AddrMap_page a := Some P)) b =
     (if AddrMap_page b = AddrMap_page a
      then if AddrPage_isValid P (AddrMap_byte b) then Some (pg_Bytes P (AddrMap_byte b)) else None
      else AddrMap_lookup T b)"
  by (simp add: AddrMap_lookup_def)

lemma AddrMap_getOrCreatePage_lookup:
  assumes "addr_ok a"
  shows "\<exists>P T'. AddrMap_getOrCreatePage d T a = Some (P, T') \<and>
    T' (AddrMap_page a) = Some P \<and> AddrMap_lookup T' = AddrMap_lookup T"
proof (cases "T (AddrMap_page a)")
  case (Some P)
  with assms show ?thesis
    by (auto simp: AddrMap_getOrCreatePage_def AddrMap_getPage_def addr_ok_def)
next
  case None
  let ?T = "T(AddrMap_page a := Some (AddrPage_new d))"
  have "AddrMap_lookup ?T b = AddrMap_lookup T b" for b
    using None by (simp add: AddrMap_lookup_def)
  then have "AddrMap_lookup ?T = AddrMap_lookup T" by (rule ext)
  moreover have "AddrMap_getOrCreatePage d T a = Some (AddrPage_new d, ?T)"
    using None assms
    by (simp add: AddrMap_getOrCreatePage_def AddrMap_getPage_def addr_ok_def Let_def)
  ultimately show ?thesis by simp
qed

lemma AddrMap_insert_lookup:
  assumes "addr_ok a"
  shows "\<exists>T'. AddrMap_insert d a v T = Some T' \<and> AddrMap_lookup T' = (AddrMap_lookup T)(a := Some v)"
proof -
  obtain P T1 where c: "AddrMap_getOrCreatePage d T a = Some (P, T1)"
    and T1: "T1 (AddrMap_page a) = Some P" and l1: "AddrMap_lookup T = AddrMap_lookup T1"
    using AddrMap_getOrCreatePage_lookup [OF assms, of d T] by metis
  let ?P = "AddrPage_setValid (AddrMap_byte a) (P\<lparr>pg_Bytes := (pg_Bytes P)(AddrMap_byte a := v)\<rparr>)"
  have "AddrMap_lookup (T1(AddrMap_page a := Some ?P)) b = ((AddrMap_lookup T1)(a := Some v)) b" for b
  proof (cases "AddrMap_page b = AddrMap_page a")
    case True
    then show ?thesis
      using T1 page_byte_inj [of b a]
      by (cases "b = a") (auto simp: AddrMap_lookup_upd isValid_setValid AddrMap_lookup_def [of T1])
  qed (auto simp: AddrMap_lookup_upd)
  then have "AddrMap_lookup (T1(AddrMap_page a := Some ?P)) = (AddrMap_lookup T)(a := Some v)"
    by (simp add: fun_eq_iff l1)
  then show ?thesis using c by (simp add: AddrMap_insert_def Let_def)
qed

lemma AddrMap_remove_lookup:
  assumes "addr_ok a"
  shows "\<exists>T'. AddrMap_remove a T = Some T' \<and> AddrMap_lookup T' = (AddrMap_lookup T)(a := None)"
proof (cases "T (AddrMap_page a)")
  case None
  then have "AddrMap_lookup T a = None" by (simp add: AddrMap_lookup_def)
  with None assms show ?thesis
    by (auto simp: AddrMap_remove_def AddrMap_getPage_def addr_ok_def fun_eq_iff)
next
  case (Some P)
  let ?T = "T(AddrMap_page a := Some (AddrPage_clearValid (AddrMap_byte a) P))"
  have "AddrMap_lookup ?T b = ((AddrMap_lookup T)(a := None)) b" for b
  proof (cases "AddrMap_page b = AddrMap_page a")
    case True
    then show ?thesis
      using Some page_byte_inj [of b a]
      by (cases "b = a") (auto simp: AddrMap_lookup_upd isValid_clearValid AddrMap_lookup_def [of T])
  qed (auto simp: AddrMap_lookup_upd)
  then have "AddrMap_lookup ?T = (AddrMap_lookup T)(a := None)" by (simp add: fun_eq_iff)
  then show ?thesis
    using Some assms by (simp add: AddrMap_remove_def AddrMap_getPage_def addr_ok_def)
qed

subsection \<open>The interface of a map\<close>

locale map_iface =
  fixes look :: "'m \<Rightarrow> 'k \<Rightarrow> 'v option"
    and get :: "'m \<Rightarrow> 'k \<Rightarrow> 'v option option"
    and has :: "'m \<Rightarrow> 'k \<Rightarrow> bool option"
    and ins :: "'k \<Rightarrow> 'v \<Rightarrow> 'm \<Rightarrow> 'm option"
    and rem :: "'k \<Rightarrow> 'm \<Rightarrow> 'm option"
    and ok :: "'k \<Rightarrow> bool"
  assumes get_law: "ok k \<Longrightarrow> get m k = Some (look m k)"
    and has_law: "ok k \<Longrightarrow> has m k = Some (look m k \<noteq> None)"
    and ins_law: "ok k \<Longrightarrow> \<exists>m'. ins k v m = Some m' \<and> look m' = (look m)(k := Some v)"
    and rem_law: "ok k \<Longrightarrow> \<exists>m'. rem k m = Some m' \<and> look m' = (look m)(k := None)"
begin

lemma ins_Some: "ok k \<Longrightarrow> ins k v m = Some m' \<Longrightarrow> look m' = (look m)(k := Some v)"
  using ins_law [of k v m] by auto

lemma rem_Some: "ok k \<Longrightarrow> rem k m = Some m' \<Longrightarrow> look m' = (look m)(k := None)"
  using rem_law [of k m] by auto

lemma get_ins_same: "ok k \<Longrightarrow> ins k v m = Some m' \<Longrightarrow> get m' k = Some (Some v)"
  by (simp add: get_law ins_Some)

lemma get_ins_other: "ok k \<Longrightarrow> ok k' \<Longrightarrow> k' \<noteq> k \<Longrightarrow> ins k v m = Some m' \<Longrightarrow> get m' k' = get m k'"
  by (simp add: get_law ins_Some)

lemma has_rem_same: "ok k \<Longrightarrow> rem k m = Some m' \<Longrightarrow> has m' k = Some False"
  by (simp add: has_law rem_Some)

lemma rem_ins_fresh:
  assumes "ok k" "look m k = None" "ins k v m = Some m'" "rem k m' = Some m''"
  shows "look m'' = look m"
proof -
  have "look m'' = ((look m)(k := Some v))(k := None)"
    using assms by (simp add: ins_Some rem_Some)
  then show ?thesis using assms(2) by (simp add: fun_upd_idem_iff)
qed

end

interpretation am: map_iface AddrMap_lookup AddrMap_get AddrMap_contains "AddrMap_insert d"
  AddrMap_remove addr_ok
  for d
  by unfold_locales
     (simp_all add: AddrMap_get_lookup AddrMap_contains_lookup AddrMap_insert_lookup
       AddrMap_remove_lookup)

end
