(* ===== verification/RaceInfo.thy ===== *)
theory RaceInfo
  imports Prelude "HOL-Library.Product_Lexorder"
begin

text \<open>
  The identifiers and the deduplication of races (\<open>cilksan/race_info.h\<close>, and \<open>report_race\<close> of
  \<open>cilksan/print_addr.cpp\<close>): typed CSI ids, frame ids, the locations of accesses, and the multimap of
  the distinct races found so far.  \<open>MAType_t\<close> and \<open>CallType_t\<close> are C++ enumerations with the
  underlying type \<open>uint8_t\<close> into which the code casts arbitrary bytes, so they are bytes here, with
  a constant for each enumerator; \<open>RaceType_t\<close> is only built from its enumerators.
\<close>

subsection \<open>Enumerations\<close>

datatype RaceType_t = RW_RACE | WW_RACE | WR_RACE

type_synonym MAType_t = u8

definition RW :: MAType_t where "RW = 0"
definition FNRW :: MAType_t where "FNRW = 1"
definition ALLOC :: MAType_t where "ALLOC = 2"
definition FREE :: MAType_t where "FREE = 3"
definition REALLOC :: MAType_t where "REALLOC = 4"
definition STACK_FREE :: MAType_t where "STACK_FREE = 5"
definition UNKNOWN :: MAType_t where "UNKNOWN = 255"

lemmas MAType_defs = RW_def FNRW_def ALLOC_def FREE_def REALLOC_def STACK_FREE_def UNKNOWN_def

type_synonym CallType_t = u8

definition CALL :: CallType_t where "CALL = 0"
definition SPAWN :: CallType_t where "SPAWN = 1"
definition LOOP :: CallType_t where "LOOP = 2"

fun flipRaceType :: "RaceType_t \<Rightarrow> RaceType_t" where
  "flipRaceType RW_RACE = WR_RACE"
| "flipRaceType WW_RACE = WW_RACE"
| "flipRaceType WR_RACE = RW_RACE"

lemma flipRaceType_flip [simp]: "flipRaceType (flipRaceType t) = t"
  by (cases t) simp_all

lemma flipRaceType_eq_iff: "t = flipRaceType t' \<longleftrightarrow> t' = flipRaceType t"
  by (cases t; cases t') simp_all

subsection \<open>Typed ids\<close>

datatype typed_id_t = TypedID (typed_id: csi_id_t)

definition TYPE_SHIFT :: nat where "TYPE_SHIFT = 48"
definition ID_MASK :: csi_id_t where "ID_MASK = push_bit TYPE_SHIFT 1 - 1"
definition UNKNOWN_TYPED_ID :: csi_id_t where "UNKNOWN_TYPED_ID = UNKNOWN_CSI_ID AND ID_MASK"

definition typed_id_make :: "u8 \<Rightarrow> csi_id_t \<Rightarrow> typed_id_t" where
  "typed_id_make type i = TypedID (push_bit TYPE_SHIFT (ucast type) OR i)"

text \<open>The right shift of the signed \<open>typed_id\<close> is arithmetic; the cast to the enumeration keeps
  the low byte.\<close>

definition typed_id_getType :: "typed_id_t \<Rightarrow> u8" where
  "typed_id_getType t = ucast (signed_drop_bit TYPE_SHIFT (typed_id t))"

definition typed_id_getID :: "typed_id_t \<Rightarrow> csi_id_t" where
  "typed_id_getID t = typed_id t AND ID_MASK"

definition typed_id_isUnknownID :: "typed_id_t \<Rightarrow> bool" where
  "typed_id_isUnknownID t \<longleftrightarrow> UNKNOWN_TYPED_ID = typed_id_getID t"

definition typed_id_setUnknown :: "typed_id_t \<Rightarrow> typed_id_t" where
  "typed_id_setUnknown t = TypedID UNKNOWN_TYPED_ID"

text \<open>The order of typed ids is the order of the signed 64-bit values.\<close>

instantiation typed_id_t :: linorder
begin

definition less_eq_typed_id_t :: "typed_id_t \<Rightarrow> typed_id_t \<Rightarrow> bool" where
  "a \<le> b \<longleftrightarrow> sint (typed_id a) \<le> sint (typed_id b)"

definition less_typed_id_t :: "typed_id_t \<Rightarrow> typed_id_t \<Rightarrow> bool" where
  "a < b \<longleftrightarrow> sint (typed_id a) < sint (typed_id b)"

instance
proof
  fix x y :: typed_id_t
  assume "x \<le> y" "y \<le> x"
  then have "sint (typed_id x) = sint (typed_id y)" by (simp add: less_eq_typed_id_t_def)
  then show "x = y" by (intro typed_id_t.expand) (rule signed_word_eqI)
qed (auto simp: less_eq_typed_id_t_def less_typed_id_t_def)

end

text \<open>An id that fits in the low 48 bits, as the code assumes of CSI ids.\<close>

definition id_ok :: "csi_id_t \<Rightarrow> bool" where
  "id_ok i \<longleftrightarrow> drop_bit 48 i = 0"

lemma id_ok_bit: "id_ok i \<Longrightarrow> bit i n \<Longrightarrow> n < 48"
proof (rule ccontr)
  assume "id_ok i" "bit i n" "\<not> n < 48"
  then have "bit (drop_bit 48 i) (n - 48)" by (simp add: bit_drop_bit_eq)
  with \<open>id_ok i\<close> show False by (simp add: id_ok_def)
qed

lemma ID_MASK_mask: "ID_MASK = mask 48"
  by (simp add: ID_MASK_def TYPE_SHIFT_def mask_eq_exp_minus_1)

lemma typed_id_getID_make: "id_ok i \<Longrightarrow> typed_id_getID (typed_id_make t i) = i"
  by (rule bit_word_eqI)
     (auto simp: typed_id_getID_def typed_id_make_def ID_MASK_mask TYPE_SHIFT_def bit_simps
       dest: id_ok_bit)

lemma typed_id_getType_make: "id_ok i \<Longrightarrow> typed_id_getType (typed_id_make t i) = t"
  by (rule bit_word_eqI)
     (auto simp: typed_id_getType_def typed_id_make_def TYPE_SHIFT_def bit_simps min_def
       dest: id_ok_bit bit_imp_le_length)

lemma typed_id_make_inject:
  "id_ok i \<Longrightarrow> id_ok i' \<Longrightarrow> typed_id_make t i = typed_id_make t' i' \<longleftrightarrow> t = t' \<and> i = i'"
  by (metis typed_id_getID_make typed_id_getType_make)

lemma typed_id_make_unknown: "typed_id_make t UNKNOWN_CSI_ID = TypedID UNKNOWN_CSI_ID"
  by (simp add: typed_id_make_def UNKNOWN_CSI_ID_def)

lemma typed_id_make_not_unknown: "id_ok i \<Longrightarrow> typed_id_make t i \<noteq> TypedID UNKNOWN_CSI_ID"
proof
  assume i: "id_ok i" and "typed_id_make t i = TypedID UNKNOWN_CSI_ID"
  then have "bit (push_bit 48 (ucast t) OR i) 63"
    by (simp add: typed_id_make_def UNKNOWN_CSI_ID_def TYPE_SHIFT_def)
  then show False using id_ok_bit [OF i, of 63] by (auto simp: bit_simps dest: bit_imp_le_length)
qed

subsection \<open>Frame ids\<close>

datatype CallID_t = CallID (call_typed_id: typed_id_t)

definition CallID_default :: CallID_t where
  "CallID_default = CallID (typed_id_make CALL UNKNOWN_TYPED_ID)"

definition CallID_make :: "CallType_t \<Rightarrow> csi_id_t \<Rightarrow> CallID_t" where
  "CallID_make type i = CallID (typed_id_make type i)"

definition CallID_getType :: "CallID_t \<Rightarrow> CallType_t" where
  "CallID_getType c = typed_id_getType (call_typed_id c)"

definition CallID_getID :: "CallID_t \<Rightarrow> csi_id_t" where
  "CallID_getID c = typed_id_getID (call_typed_id c)"

definition CallID_isUnknownID :: "CallID_t \<Rightarrow> bool" where
  "CallID_isUnknownID c \<longleftrightarrow> typed_id_isUnknownID (call_typed_id c)"

subsection \<open>Access locations and races\<close>

text \<open>The call stack of a location is the address of its last node (0 for \<open>nullptr\<close>), which the
  theory \<open>CallStack\<close> gives a meaning.\<close>

record AccessLoc_t =
  acc_loc :: csi_id_t
  acc_type :: MAType_t
  acc_call_stack :: u64

definition AccessLoc_default :: AccessLoc_t where
  "AccessLoc_default = \<lparr>acc_loc = UNKNOWN_CSI_ID, acc_type = UNKNOWN, acc_call_stack = 0\<rparr>"

definition AccessLoc_isValid :: "AccessLoc_t \<Rightarrow> bool" where
  "AccessLoc_isValid l \<longleftrightarrow> acc_loc l \<noteq> UNKNOWN_CSI_ID"

definition AccessLoc_less :: "AccessLoc_t \<Rightarrow> AccessLoc_t \<Rightarrow> bool" where
  "AccessLoc_less a b \<longleftrightarrow>
     sint (acc_loc a) < sint (acc_loc b) \<or> (acc_loc a = acc_loc b \<and> acc_type a < acc_type b)"

record RaceInfo_t =
  ri_first_acc :: typed_id_t
  ri_second_acc :: typed_id_t
  ri_alloc_id :: csi_id_t
  ri_addr :: u64
  ri_type :: RaceType_t

definition RaceInfo_make ::
  "AccessLoc_t \<Rightarrow> AccessLoc_t \<Rightarrow> AccessLoc_t \<Rightarrow> u64 \<Rightarrow> RaceType_t \<Rightarrow> RaceInfo_t" where
  "RaceInfo_make f s a addr t =
     \<lparr>ri_first_acc = typed_id_make (acc_type f) (acc_loc f),
      ri_second_acc = typed_id_make (acc_type s) (acc_loc s),
      ri_alloc_id = acc_loc a, ri_addr = addr, ri_type = t\<rparr>"

definition is_equivalent_race :: "RaceInfo_t \<Rightarrow> RaceInfo_t \<Rightarrow> bool" where
  "is_equivalent_race r other \<longleftrightarrow>
     ((ri_first_acc r = ri_first_acc other \<and> ri_second_acc r = ri_second_acc other \<and>
       ri_type r = ri_type other) \<or>
      (ri_first_acc r = ri_second_acc other \<and> ri_second_acc r = ri_first_acc other \<and>
       ri_type r = flipRaceType (ri_type other))) \<and>
     ri_alloc_id r = ri_alloc_id other"

lemma is_equivalent_race_refl [simp]: "is_equivalent_race r r"
  by (simp add: is_equivalent_race_def)

lemma is_equivalent_race_sym: "is_equivalent_race r s \<Longrightarrow> is_equivalent_race s r"
  unfolding is_equivalent_race_def by (metis flipRaceType_flip)

lemma is_equivalent_race_trans:
  "is_equivalent_race r s \<Longrightarrow> is_equivalent_race s t \<Longrightarrow> is_equivalent_race r t"
  unfolding is_equivalent_race_def by (metis flipRaceType_flip)

subsection \<open>Reporting a race\<close>

text \<open>
  \<open>races_found\<close> is an unordered multimap: for each key, the races inserted under it, in insertion
  order here (the order within a key does not matter to the search).  The state keeps the races whose
  report was printed, in order.
\<close>

record RaceReport_t =
  races_found :: "u64 \<Rightarrow> RaceInfo_t list"
  duplicated_races :: u32
  races_printed :: "RaceInfo_t list"

definition RaceReport_new :: RaceReport_t where
  "RaceReport_new = \<lparr>races_found = (\<lambda>_. []), duplicated_races = 0, races_printed = []\<rparr>"

definition race_key :: "AccessLoc_t \<Rightarrow> AccessLoc_t \<Rightarrow> u64" where
  "race_key f s = (if AccessLoc_less f s then acc_loc f else acc_loc s)"

definition report_race ::
  "AccessLoc_t \<Rightarrow> AccessLoc_t \<Rightarrow> AccessLoc_t \<Rightarrow> u64 \<Rightarrow> RaceType_t \<Rightarrow> RaceReport_t \<Rightarrow> RaceReport_t"
where
  "report_race first_inst second_inst alloc_inst addr race_type R =
     (let key = race_key first_inst second_inst;
          race = RaceInfo_make first_inst second_inst alloc_inst addr race_type
      in if list_ex (\<lambda>in_map. is_equivalent_race race in_map) (races_found R key)
         then R\<lparr>duplicated_races := duplicated_races R + 1\<rparr>
         else R\<lparr>races_printed := races_printed R @ [race],
                races_found := (races_found R)(key := races_found R key @ [race])\<rparr>)"

definition report_race_no_alloc ::
  "AccessLoc_t \<Rightarrow> AccessLoc_t \<Rightarrow> u64 \<Rightarrow> RaceType_t \<Rightarrow> RaceReport_t \<Rightarrow> RaceReport_t" where
  "report_race_no_alloc f s addr t R = report_race f s AccessLoc_default addr t R"

text \<open>A location as the tool builds it: an id of at most 48 bits, or the unknown location.\<close>

definition loc_ok :: "AccessLoc_t \<Rightarrow> bool" where
  "loc_ok l \<longleftrightarrow> id_ok (acc_loc l) \<or> acc_loc l = UNKNOWN_CSI_ID"

definition loc_tid :: "AccessLoc_t \<Rightarrow> typed_id_t" where
  "loc_tid l = typed_id_make (acc_type l) (acc_loc l)"

lemma loc_tid_eq_acc_loc: "loc_ok a \<Longrightarrow> loc_ok b \<Longrightarrow> loc_tid a = loc_tid b \<Longrightarrow> acc_loc a = acc_loc b"
  unfolding loc_ok_def loc_tid_def
  by (metis typed_id_make_inject typed_id_make_not_unknown typed_id_make_unknown)

text \<open>The key is the least of the two ids, whatever the tie-breaking on types.\<close>

lemma race_key_min:
  "race_key f s = (if sint (acc_loc f) < sint (acc_loc s) then acc_loc f else acc_loc s)"
  by (auto simp: race_key_def AccessLoc_less_def)

lemma race_key_commute: "race_key f s = race_key s f"
  by (auto simp: race_key_min) (metis linorder_neqE_linordered_idom signed_word_eqI)

text \<open>Equivalent races have the same key, so looking only under the key of the new race finds every
  equivalent one: this settles the \<open>TODO\<close> in \<open>report_race\<close>.\<close>

lemma equivalent_race_key:
  assumes "loc_ok f" "loc_ok s" "loc_ok f'" "loc_ok s'"
    and "is_equivalent_race (RaceInfo_make f s a x t) (RaceInfo_make f' s' a' x' t')"
  shows "race_key f s = race_key f' s'"
proof -
  have "(loc_tid f = loc_tid f' \<and> loc_tid s = loc_tid s') \<or>
        (loc_tid f = loc_tid s' \<and> loc_tid s = loc_tid f')"
    using assms(5) by (auto simp: is_equivalent_race_def RaceInfo_make_def loc_tid_def)
  then consider "acc_loc f = acc_loc f'" "acc_loc s = acc_loc s'"
    | "acc_loc f = acc_loc s'" "acc_loc s = acc_loc f'"
    using assms loc_tid_eq_acc_loc by metis
  then show ?thesis
  proof cases
    case 1
    then show ?thesis by (simp add: race_key_min)
  next
    case 2
    then have "race_key f s = race_key s' f'" by (simp add: race_key_min)
    then show ?thesis by (simp add: race_key_commute)
  qed
qed

text \<open>
  The invariant of the report: every race in the map is filed under the key of the two locations it
  was built from, and no two races printed are equivalent.
\<close>

definition race_filed :: "u64 \<Rightarrow> RaceInfo_t \<Rightarrow> bool" where
  "race_filed k r \<longleftrightarrow> (\<exists>f s a x t. loc_ok f \<and> loc_ok s \<and> r = RaceInfo_make f s a x t \<and> k = race_key f s)"

lemma race_filedI:
  "loc_ok f \<Longrightarrow> loc_ok s \<Longrightarrow> race_filed (race_key f s) (RaceInfo_make f s a x t)"
  unfolding race_filed_def by blast

definition RaceReport_wf :: "RaceReport_t \<Rightarrow> bool" where
  "RaceReport_wf R \<longleftrightarrow>
     (\<forall>k. \<forall>r \<in> set (races_found R k). race_filed k r) \<and>
     set (races_printed R) = (\<Union>k. set (races_found R k)) \<and>
     pairwise (\<lambda>r s. \<not> is_equivalent_race r s) (set (races_printed R)) \<and>
     distinct (races_printed R)"

lemma RaceReport_wf_new [wf_intros]: "RaceReport_wf RaceReport_new"
  by (simp add: RaceReport_wf_def RaceReport_new_def)

lemma RaceReport_wf_dup [simp]: "RaceReport_wf (R\<lparr>duplicated_races := n\<rparr>) = RaceReport_wf R"
  by (simp add: RaceReport_wf_def)

lemma race_filed_equiv_key:
  "race_filed k r \<Longrightarrow> race_filed k' r' \<Longrightarrow> is_equivalent_race r r' \<Longrightarrow> k = k'"
  unfolding race_filed_def using equivalent_race_key by blast

text \<open>A race is printed exactly when no equivalent race was printed before, under any key.\<close>

lemma report_race_found_iff:
  fixes a x t
  assumes "RaceReport_wf R" "loc_ok f" "loc_ok s"
  defines "r \<equiv> RaceInfo_make f s a x t"
  shows "list_ex (is_equivalent_race r) (races_found R (race_key f s)) \<longleftrightarrow>
    (\<exists>r' \<in> set (races_printed R). is_equivalent_race r r')"
proof -
  have "race_filed (race_key f s) r" unfolding r_def using assms(2,3) by (rule race_filedI)
  then show ?thesis
    using assms(1) race_filed_equiv_key unfolding RaceReport_wf_def list_ex_iff
    by (auto; metis)
qed

lemma report_race_wf [wf_intros]:
  assumes "RaceReport_wf R" "loc_ok f" "loc_ok s"
  shows "RaceReport_wf (report_race f s a x t R)"
proof -
  let ?r = "RaceInfo_make f s a x t"
  have filed: "race_filed (race_key f s) ?r" using assms(2,3) by (rule race_filedI)
  show ?thesis
  proof (cases "\<exists>r' \<in> set (races_printed R). is_equivalent_race ?r r'")
    case True
    then have "list_ex (is_equivalent_race ?r) (races_found R (race_key f s))"
      using report_race_found_iff [OF assms] by blast
    then have "report_race f s a x t R = R\<lparr>duplicated_races := duplicated_races R + 1\<rparr>"
      by (simp add: report_race_def Let_def)
    then show ?thesis
      using assms(1) by simp
  next
    case False
    then have no: "\<not> list_ex (is_equivalent_race ?r) (races_found R (race_key f s))"
      using report_race_found_iff [OF assms] by blast
    have new: "?r \<notin> set (races_printed R)" using False by auto
    have pw: "pairwise (\<lambda>r s. \<not> is_equivalent_race r s) (insert ?r (set (races_printed R)))"
      using assms(1) False
      by (auto simp: RaceReport_wf_def pairwise_insert dest: is_equivalent_race_sym)
    show ?thesis
      using assms(1) no new pw filed
      by (auto simp: report_race_def RaceReport_wf_def Let_def split: if_splits)
  qed
qed

end
