(* ===== verification/RefCount.thy ===== *)
theory RefCount
  imports Prelude
begin

text \<open>
  Reference counting on a heap of nodes that each point to at most one parent, the discipline that
  the call-stack nodes and the disjoint-set nodes share: the count of a live node is the number of
  nodes that point to it plus the number of references \<open>ext\<close> held from outside the heap.  The locale
  \<open>refcounted\<close> shows that each elementary step keeps this invariant, and what it does to \<open>ext\<close>.
\<close>

definition rc_kids :: "('n \<Rightarrow> 'a option) \<Rightarrow> ('a \<rightharpoonup> 'n) \<Rightarrow> 'a \<Rightarrow> 'a set" where
  "rc_kids par h a = {b. \<exists>m. h b = Some m \<and> par m = Some a}"

definition rc_inv :: "('n \<Rightarrow> 'a option) \<Rightarrow> ('n \<Rightarrow> int) \<Rightarrow> ('a \<rightharpoonup> 'n) \<Rightarrow> ('a \<Rightarrow> nat) \<Rightarrow> bool" where
  "rc_inv par rc h ext \<longleftrightarrow>
     (\<forall>a n. h a = Some n \<longrightarrow> rc n = int (card (rc_kids par h a)) + int (ext a)) \<and>
     (\<forall>a. 0 < ext a \<or> rc_kids par h a \<noteq> {} \<longrightarrow> h a \<noteq> None)"

text \<open>The number of outside references, changed at one address (an optional one).\<close>

definition ext_inc :: "'a option \<Rightarrow> ('a \<Rightarrow> nat) \<Rightarrow> 'a \<Rightarrow> nat" where
  "ext_inc p ext = (case p of None \<Rightarrow> ext | Some a \<Rightarrow> ext(a := Suc (ext a)))"

definition ext_dec :: "'a option \<Rightarrow> ('a \<Rightarrow> nat) \<Rightarrow> 'a \<Rightarrow> nat" where
  "ext_dec p ext = (case p of None \<Rightarrow> ext | Some a \<Rightarrow> ext(a := ext a - 1))"

lemma ext_inc_simps [simp]:
  "ext_inc None ext = ext" "ext_inc (Some a) ext = ext(a := Suc (ext a))"
  by (simp_all add: ext_inc_def)

lemma ext_dec_simps [simp]:
  "ext_dec None ext = ext" "ext_dec (Some a) ext = ext(a := ext a - 1)"
  by (simp_all add: ext_dec_def)

lemma ext_inc_apply: "ext_inc p ext a = ext a + (if p = Some a then 1 else 0)"
  by (cases p) auto

locale refcounted =
  fixes par :: "'n \<Rightarrow> ('a::finite) option"
    and rc :: "'n \<Rightarrow> int"
    and set_rc :: "int \<Rightarrow> 'n \<Rightarrow> 'n"
  assumes par_set_rc: "par (set_rc k n) = par n"
    and rc_set_rc: "rc (set_rc k n) = k"
begin

lemma inv_rc: "rc_inv par rc h ext \<Longrightarrow> h a = Some n \<Longrightarrow> rc n = int (card (rc_kids par h a)) + int (ext a)"
  by (simp add: rc_inv_def)

lemma inv_nonneg: "rc_inv par rc h ext \<Longrightarrow> h a = Some n \<Longrightarrow> 0 \<le> rc n"
  by (simp add: inv_rc)

lemma inv_dead:
  assumes "rc_inv par rc h ext" "h a = None"
  shows "ext a = 0" "rc_kids par h a = {}"
  using assms unfolding rc_inv_def by (metis not_gr0, metis)

lemma inv_ext_live: "rc_inv par rc h ext \<Longrightarrow> 0 < ext a \<Longrightarrow> \<exists>n. h a = Some n \<and> 0 < rc n"
  by (cases "h a") (auto simp: inv_rc inv_dead)

lemma inv_ext_le: "rc_inv par rc h ext \<Longrightarrow> h a = Some n \<Longrightarrow> int (ext a) \<le> rc n"
  by (simp add: inv_rc)

lemma inv_zero:
  assumes "rc_inv par rc h ext" "h a = Some n" "rc n = 0"
  shows "rc_kids par h a = {}" "ext a = 0"
proof -
  have "card (rc_kids par h a) = 0" "ext a = 0"
    using inv_rc [OF assms(1,2)] assms(3) by linarith+
  then show "rc_kids par h a = {}" "ext a = 0" by simp_all
qed

lemma inv_par_live:
  assumes "rc_inv par rc h ext" "h b = Some m" "par m = Some p"
  shows "\<exists>n. h p = Some n \<and> 0 < rc n"
proof -
  have b: "b \<in> rc_kids par h p" using assms by (auto simp: rc_kids_def)
  then obtain n where "h p = Some n" using assms(1) by (auto simp: rc_inv_def)
  moreover have "0 < card (rc_kids par h p)" using b by (auto simp: card_gt_0_iff)
  ultimately show ?thesis using inv_rc [OF assms(1)] by fastforce
qed

lemma kids_set_rc: "h a = Some n \<Longrightarrow> rc_kids par (h(a \<mapsto> set_rc k n)) b = rc_kids par h b"
  by (auto simp: rc_kids_def par_set_rc)

lemma kids_same_par:
  "h a = Some n \<Longrightarrow> par n' = par n \<Longrightarrow> rc_kids par (h(a \<mapsto> n')) b = rc_kids par h b"
  by (auto simp: rc_kids_def)

lemma kids_remove: "h a = Some n \<Longrightarrow> rc_kids par (h(a := None)) b = rc_kids par h b - {a}"
  by (auto simp: rc_kids_def)

lemma kids_set_par:
  "rc_kids par (h(a \<mapsto> n')) b =
     (if par n' = Some b then insert a (rc_kids par h b) else rc_kids par h b - {a})"
  by (auto simp: rc_kids_def)

lemma inv_inc:
  assumes "rc_inv par rc h ext" "h a = Some n"
  shows "rc_inv par rc (h(a \<mapsto> set_rc (rc n + 1) n)) (ext(a := Suc (ext a)))"
  using assms unfolding rc_inv_def by (auto simp: kids_set_rc rc_set_rc)

lemma inv_dec:
  assumes "rc_inv par rc h ext" "h a = Some n" "0 < ext a"
  shows "rc_inv par rc (h(a \<mapsto> set_rc (rc n - 1) n)) (ext(a := ext a - 1))"
  using assms unfolding rc_inv_def by (auto simp: kids_set_rc rc_set_rc)

text \<open>A change that keeps the count and the parent of a node.\<close>

lemma inv_upd:
  assumes "rc_inv par rc h ext" "h a = Some n" "par n' = par n" "rc n' = rc n"
  shows "rc_inv par rc (h(a \<mapsto> n')) ext"
  using assms unfolding rc_inv_def by (auto simp: kids_same_par)

text \<open>A node leaves its parent: the reference it held becomes an outside one.\<close>

lemma inv_unlink:
  assumes inv: "rc_inv par rc h ext" and a: "h a = Some n" and n': "par n' = None" "rc n' = rc n"
  shows "rc_inv par rc (h(a \<mapsto> n')) (ext_inc (par n) ext)"
proof -
  have kids: "rc_kids par (h(a \<mapsto> n')) b = rc_kids par h b - {a}" for b
    using n' by (simp add: kids_set_par)
  have mem: "a \<in> rc_kids par h b \<longleftrightarrow> par n = Some b" for b using a by (auto simp: rc_kids_def)
  have card: "card (rc_kids par h b - {a}) + (if par n = Some b then 1 else 0) =
      card (rc_kids par h b)" for b
  proof (cases "par n = Some b")
    case True
    then have "a \<in> rc_kids par h b" by (simp add: mem)
    then have "0 < card (rc_kids par h b)" by (auto simp: card_gt_0_iff)
    with \<open>a \<in> rc_kids par h b\<close> True show ?thesis by (simp add: card_Diff_singleton)
  next
    case False
    then have "a \<notin> rc_kids par h b" by (simp add: mem)
    with False show ?thesis by simp
  qed
  show ?thesis
    unfolding rc_inv_def kids
  proof (intro conjI allI impI)
    fix b m assume "(h(a \<mapsto> n')) b = Some m"
    then obtain m0 where "h b = Some m0" "rc m = rc m0"
      using a n' by (auto split: if_splits)
    then show "rc m = int (card (rc_kids par h b - {a})) + int (ext_inc (par n) ext b)"
      using inv_rc [OF inv, of b m0] card [of b] by (simp add: ext_inc_apply split: if_splits)
  next
    fix b assume "0 < ext_inc (par n) ext b \<or> rc_kids par h b - {a} \<noteq> {}"
    then have "0 < ext b \<or> par n = Some b \<or> rc_kids par h b \<noteq> {}"
      by (auto simp: ext_inc_apply split: if_splits)
    then show "(h(a \<mapsto> n')) b \<noteq> None"
      using inv inv_par_live [OF inv a, of b] by (auto simp: rc_inv_def)
  qed
qed

text \<open>A root takes over an outside reference and becomes a child.\<close>

lemma inv_link:
  assumes inv: "rc_inv par rc h ext" and a: "h a = Some n" "par n = None"
    and n': "par n' = Some p" "rc n' = rc n" and p: "0 < ext p"
  shows "rc_inv par rc (h(a \<mapsto> n')) (ext(p := ext p - 1))"
proof -
  have kids: "rc_kids par (h(a \<mapsto> n')) b = (if b = p then insert a (rc_kids par h b) else rc_kids par h b)"
    for b using n' a by (auto simp: rc_kids_def)
  have mem: "a \<notin> rc_kids par h b" for b using a by (auto simp: rc_kids_def)
  obtain m where m: "h p = Some m" using inv_ext_live [OF inv p] by blast
  show ?thesis
    unfolding rc_inv_def kids
  proof (intro conjI allI impI)
    fix b m assume "(h(a \<mapsto> n')) b = Some m"
    then obtain m0 where "h b = Some m0" "rc m = rc m0"
      using a n' by (auto split: if_splits)
    then show "rc m = int (card (if b = p then insert a (rc_kids par h b) else rc_kids par h b)) +
        int ((ext(p := ext p - 1)) b)"
      using inv_rc [OF inv, of b m0] p mem [of b] by (auto simp: of_nat_diff)
  next
    fix b assume "0 < (ext(p := ext p - 1)) b \<or>
      (if b = p then insert a (rc_kids par h b) else rc_kids par h b) \<noteq> {}"
    then show "(h(a \<mapsto> n')) b \<noteq> None"
      using inv p m by (auto simp: rc_inv_def split: if_splits)
  qed
qed

text \<open>A node without references and without parent is removed.\<close>

lemma inv_remove:
  assumes "rc_inv par rc h ext" "h a = Some n" "rc n = 0" "par n = None"
  shows "rc_inv par rc (h(a := None)) ext"
proof -
  have "rc_kids par (h(a := None)) b = rc_kids par h b" for b
    using assms(2,4) by (auto simp: rc_kids_def)
  then show ?thesis
    using assms inv_zero [OF assms(1-3)] unfolding rc_inv_def by (auto split: if_splits)
qed

text \<open>A new root, not yet referenced.\<close>

lemma inv_new:
  assumes "rc_inv par rc h ext" "h a = None" "rc n = 0" "par n = None"
  shows "rc_inv par rc (h(a \<mapsto> n)) ext"
proof -
  have "rc_kids par (h(a \<mapsto> n)) b = rc_kids par h b" for b
    using assms(2,4) by (auto simp: rc_kids_def)
  moreover have "ext a = 0" "rc_kids par h a = {}"
    using inv_dead [OF assms(1,2)] by simp_all
  ultimately show ?thesis using assms unfolding rc_inv_def by auto
qed

end

text \<open>The sum of the counts, which bounds the number of cascading deletions.\<close>

definition rc_sum :: "('n \<Rightarrow> int) \<Rightarrow> ('a::finite \<rightharpoonup> 'n) \<Rightarrow> nat" where
  "rc_sum rc h = (\<Sum>a\<in>UNIV. case h a of None \<Rightarrow> 0 | Some n \<Rightarrow> nat (rc n))"

lemma rc_sum_less:
  assumes "\<And>a. (case h' a of None \<Rightarrow> 0 | Some n \<Rightarrow> nat (rc n)) \<le> (case h a of None \<Rightarrow> 0 | Some n \<Rightarrow> nat (rc n))"
    and "(case h' p of None \<Rightarrow> 0 | Some n \<Rightarrow> nat (rc n)) < (case h p of None \<Rightarrow> 0 | Some n \<Rightarrow> nat (rc n))"
  shows "rc_sum rc h' < rc_sum rc h"
  unfolding rc_sum_def by (rule sum_strict_mono_ex1) (use assms in auto)

end
