(* ===== verification/CallStack.thy ===== *)
theory CallStack
  imports RaceInfo RefCount
begin

text \<open>
  The call stack of \<open>cilksan/race_info.h\<close>: a singly linked list of reference-counted nodes, shared
  between the running call stack and the locations saved with races.  A heap maps addresses to
  nodes; address 0 is \<open>nullptr\<close>.  Freed nodes go to the free list of \<open>operator delete\<close> (linked
  through \<open>prev\<close>; here the list of their addresses), and \<open>cs_os\<close> are the addresses that the
  system's \<open>operator new\<close> will return.  Counts are \<open>int64_t\<close> whose overflow the language
  leaves undefined; they are integers here.  An access to a node that is not allocated, or a violated
  assertion, is \<^term>\<open>None\<close>.
\<close>

record call_stack_node_t =
  csn_id :: CallID_t
  csn_prev :: u64
  csn_ref_count :: int

record call_stack_heap =
  cs_nodes :: "u64 \<rightharpoonup> call_stack_node_t"
  cs_free_list :: "u64 list"
  cs_os :: "u64 list"

definition cs_upd :: "u64 \<Rightarrow> call_stack_node_t \<Rightarrow> call_stack_heap \<Rightarrow> call_stack_heap" where
  "cs_upd a n S = S\<lparr>cs_nodes := (cs_nodes S)(a \<mapsto> n)\<rparr>"

subsection \<open>Nodes\<close>

definition csn_operator_new :: "call_stack_heap \<Rightarrow> (u64 \<times> call_stack_heap) option" where
  "csn_operator_new S =
     (case cs_free_list S of
        new_node # fl \<Rightarrow> Some (new_node, S\<lparr>cs_free_list := fl\<rparr>)
      | [] \<Rightarrow> (case cs_os S of
          [] \<Rightarrow> None
        | new_node # os \<Rightarrow> Some (new_node, S\<lparr>cs_os := os\<rparr>)))"

definition csn_operator_delete :: "u64 \<Rightarrow> call_stack_heap \<Rightarrow> call_stack_heap" where
  "csn_operator_delete a S =
     S\<lparr>cs_nodes := (cs_nodes S)(a := None), cs_free_list := a # cs_free_list S\<rparr>"

definition csn_add_ref :: "u64 \<Rightarrow> int \<Rightarrow> call_stack_heap \<Rightarrow> call_stack_heap option" where
  "csn_add_ref a k S =
     (case cs_nodes S a of
        None \<Rightarrow> None
      | Some n \<Rightarrow> Some (cs_upd a (n\<lparr>csn_ref_count := csn_ref_count n + k\<rparr>) S))"

definition csn_new :: "CallID_t \<Rightarrow> u64 \<Rightarrow> call_stack_heap \<Rightarrow> (u64 \<times> call_stack_heap) option" where
  "csn_new i prev S =
     (case csn_operator_new S of
        None \<Rightarrow> None
      | Some (a, S) \<Rightarrow>
          let S = cs_upd a \<lparr>csn_id = i, csn_prev = prev, csn_ref_count = 1\<rparr> S
          in if prev = 0 then Some (a, S) else map_option (Pair a) (csn_add_ref prev 1 S))"

text \<open>
  \<open>delete\<close>: the destructor releases the reference to the previous node, deleting it in turn when
  that was the last one, then the memory goes to the free list.
\<close>

function csn_delete :: "u64 \<Rightarrow> call_stack_heap \<Rightarrow> call_stack_heap option" where
  "csn_delete a S =
     (case cs_nodes S a of
        None \<Rightarrow> None
      | Some n \<Rightarrow>
          if csn_ref_count n \<noteq> 0 then None
          else if csn_prev n = 0 then Some (csn_operator_delete a S)
          else
            let old_prev = csn_prev n; S = cs_upd a (n\<lparr>csn_prev := 0\<rparr>) S
            in (case cs_nodes S old_prev of
                  None \<Rightarrow> None
                | Some m \<Rightarrow>
                    if \<not> 0 < csn_ref_count m then None
                    else
                      let m = m\<lparr>csn_ref_count := csn_ref_count m - 1\<rparr>; S = cs_upd old_prev m S
                      in if csn_ref_count m = 0
                         then map_option (csn_operator_delete a) (csn_delete old_prev S)
                         else Some (csn_operator_delete a S)))"
  by pat_completeness auto

termination
proof (relation "measure (\<lambda>(a, S). rc_sum csn_ref_count (cs_nodes S))", goal_cases)
  case 1
  then show ?case by simp
next
  case (2 a S n p S' m m' S'')
  let ?f = "\<lambda>h b. case h b of None \<Rightarrow> 0 | Some n \<Rightarrow> nat (csn_ref_count n)"
  have ne: "p \<noteq> a" using 2 by (auto simp: cs_upd_def)
  with 2 have m: "cs_nodes S p = Some m" and pos: "0 < csn_ref_count m"
    by (auto simp: cs_upd_def)
  have "?f (cs_nodes S'') b \<le> ?f (cs_nodes S) b" for b
    using 2 ne m by (auto simp: cs_upd_def)
  moreover have "?f (cs_nodes S'') p < ?f (cs_nodes S) p"
    using 2 ne m pos by (auto simp: cs_upd_def)
  ultimately show ?case by (simp add: rc_sum_less)
qed

declare csn_delete.simps [simp del]

text \<open>Dropping one reference, deleting the node when it was the last one.\<close>

definition csn_dec_ref :: "u64 \<Rightarrow> call_stack_heap \<Rightarrow> call_stack_heap option" where
  "csn_dec_ref a S =
     (case cs_nodes S a of
        None \<Rightarrow> None
      | Some n \<Rightarrow>
          if \<not> 0 < csn_ref_count n then None
          else
            let n = n\<lparr>csn_ref_count := csn_ref_count n - 1\<rparr>; S = cs_upd a n S
            in if csn_ref_count n = 0 then csn_delete a S else Some S)"

subsection \<open>Call stacks\<close>

text \<open>A \<open>call_stack_t\<close> is the address of its last node, \<open>tail\<close>.\<close>

definition call_stack_copy :: "u64 \<Rightarrow> call_stack_heap \<Rightarrow> (u64 \<times> call_stack_heap) option" where
  "call_stack_copy copy_tail S =
     (if copy_tail = 0 then Some (0, S) else map_option (Pair copy_tail) (csn_add_ref copy_tail 1 S))"

definition call_stack_destroy :: "u64 \<Rightarrow> call_stack_heap \<Rightarrow> call_stack_heap option" where
  "call_stack_destroy tail S = (if tail = 0 then Some S else csn_dec_ref tail S)"

definition call_stack_tailMatches :: "u64 \<Rightarrow> CallID_t \<Rightarrow> call_stack_heap \<Rightarrow> bool option" where
  "call_stack_tailMatches tail i S = map_option (\<lambda>n. csn_id n = i) (cs_nodes S tail)"

definition call_stack_assign :: "u64 \<Rightarrow> u64 \<Rightarrow> call_stack_heap \<Rightarrow> (u64 \<times> call_stack_heap) option" where
  "call_stack_assign tail copy_tail S =
     (let old_tail = tail; tail = copy_tail
      in case (if tail = 0 then Some S else csn_add_ref tail 1 S) of
           None \<Rightarrow> None
         | Some S \<Rightarrow> map_option (Pair tail) (if old_tail = 0 then Some S else csn_dec_ref old_tail S))"

text \<open>The move assignment takes the tail of the moved-from stack and leaves it there too.\<close>

definition call_stack_move_assign ::
  "u64 \<Rightarrow> u64 \<Rightarrow> call_stack_heap \<Rightarrow> (u64 \<times> call_stack_heap) option" where
  "call_stack_move_assign tail move_tail S =
     map_option (Pair move_tail) (if tail = 0 then Some S else csn_dec_ref tail S)"

definition call_stack_push :: "CallID_t \<Rightarrow> u64 \<Rightarrow> call_stack_heap \<Rightarrow> (u64 \<times> call_stack_heap) option" where
  "call_stack_push i tail S =
     (case csn_new i tail S of
        None \<Rightarrow> None
      | Some (new_node, S) \<Rightarrow>
          (case cs_nodes S new_node of
             None \<Rightarrow> None
           | Some n \<Rightarrow>
               if csn_prev n = 0 then Some (new_node, S)
               else (case cs_nodes S (csn_prev n) of
                  None \<Rightarrow> None
                | Some m \<Rightarrow>
                    if \<not> 1 < csn_ref_count m then None
                    else map_option (Pair new_node) (csn_add_ref (csn_prev n) (- 1) S))))"

definition call_stack_pop :: "u64 \<Rightarrow> call_stack_heap \<Rightarrow> (u64 \<times> call_stack_heap) option" where
  "call_stack_pop tail S =
     (if tail = 0 then None
      else case cs_nodes S tail of
        None \<Rightarrow> None
      | Some old_node \<Rightarrow>
          let new_tail = csn_prev old_node
          in case (if new_tail = 0 then Some S else csn_add_ref new_tail 1 S) of
               None \<Rightarrow> None
             | Some S \<Rightarrow> map_option (Pair new_tail) (csn_dec_ref tail S))"

text \<open>\<open>size\<close> walks the list; the walk is bounded by the number of addresses.\<close>

partial_function (option) call_stack_size_from :: "u64 \<Rightarrow> int \<Rightarrow> call_stack_heap \<Rightarrow> int option" where
  "call_stack_size_from node n S =
     (if node = 0 then Some n
      else case cs_nodes S node of
        None \<Rightarrow> None
      | Some m \<Rightarrow> call_stack_size_from (csn_prev m) (n + 1) S)"

definition call_stack_size :: "u64 \<Rightarrow> call_stack_heap \<Rightarrow> int option" where
  "call_stack_size tail S = call_stack_size_from tail 0 S"

text \<open>\<open>record_call\<close> and \<open>record_call_return\<close> of \<open>cilksan_internal.h\<close>: the tool's own call
  stack.\<close>

definition record_call :: "csi_id_t \<Rightarrow> CallType_t \<Rightarrow> u64 \<Rightarrow> call_stack_heap \<Rightarrow> (u64 \<times> call_stack_heap) option"
where
  "record_call i ty call_stack S = call_stack_push (CallID_make ty i) call_stack S"

definition record_call_return ::
  "csi_id_t \<Rightarrow> CallType_t \<Rightarrow> u64 \<Rightarrow> call_stack_heap \<Rightarrow> (u64 \<times> call_stack_heap) option" where
  "record_call_return i ty call_stack S =
     (case call_stack_tailMatches call_stack (CallID_make ty i) S of
        Some True \<Rightarrow> call_stack_pop call_stack S
      | _ \<Rightarrow> None)"

subsection \<open>References held by access locations\<close>

definition AccessLoc_inc_ref_count ::
  "int \<Rightarrow> AccessLoc_t \<Rightarrow> call_stack_heap \<Rightarrow> (int \<times> call_stack_heap) option" where
  "AccessLoc_inc_ref_count count l S =
     (if acc_call_stack l = 0 then Some (0, S)
      else case csn_add_ref (acc_call_stack l) count S of
        None \<Rightarrow> None
      | Some S \<Rightarrow> map_option (\<lambda>n. (csn_ref_count n, S)) (cs_nodes S (acc_call_stack l)))"

definition AccessLoc_dec_ref_count ::
  "int \<Rightarrow> AccessLoc_t \<Rightarrow> call_stack_heap \<Rightarrow> (int \<times> AccessLoc_t \<times> call_stack_heap) option" where
  "AccessLoc_dec_ref_count count l S =
     (if acc_call_stack l = 0 then Some (0, l, S)
      else case cs_nodes S (acc_call_stack l) of
        None \<Rightarrow> None
      | Some n \<Rightarrow>
          if \<not> count \<le> csn_ref_count n then None
          else
            let n = n\<lparr>csn_ref_count := csn_ref_count n - count\<rparr>; S = cs_upd (acc_call_stack l) n S
            in if csn_ref_count n = 0
               then map_option (\<lambda>S. (0, l\<lparr>acc_call_stack := 0\<rparr>, S)) (csn_delete (acc_call_stack l) S)
               else Some (csn_ref_count n, l, S))"

definition AccessLoc_invalidate ::
  "AccessLoc_t \<Rightarrow> call_stack_heap \<Rightarrow> (AccessLoc_t \<times> call_stack_heap) option" where
  "AccessLoc_invalidate l S =
     (case AccessLoc_dec_ref_count 1 l S of
        None \<Rightarrow> None
      | Some (_, l, S) \<Rightarrow> Some (l\<lparr>acc_call_stack := 0, acc_loc := UNKNOWN_CSI_ID\<rparr>, S))"

definition AccessLoc_make ::
  "csi_id_t \<Rightarrow> MAType_t \<Rightarrow> u64 \<Rightarrow> call_stack_heap \<Rightarrow> (AccessLoc_t \<times> call_stack_heap) option" where
  "AccessLoc_make i t cs S =
     map_option (\<lambda>(tail, S). (\<lparr>acc_loc = i, acc_type = t, acc_call_stack = tail\<rparr>, S))
       (call_stack_copy cs S)"

definition AccessLoc_copy :: "AccessLoc_t \<Rightarrow> call_stack_heap \<Rightarrow> (AccessLoc_t \<times> call_stack_heap) option" where
  "AccessLoc_copy l S = AccessLoc_make (acc_loc l) (acc_type l) (acc_call_stack l) S"

text \<open>The move constructor overwrites the tail; the moved-from location keeps its own.\<close>

definition AccessLoc_move :: "AccessLoc_t \<Rightarrow> AccessLoc_t" where
  "AccessLoc_move l = \<lparr>acc_loc = acc_loc l, acc_type = acc_type l, acc_call_stack = acc_call_stack l\<rparr>"

definition AccessLoc_destroy :: "AccessLoc_t \<Rightarrow> call_stack_heap \<Rightarrow> call_stack_heap option" where
  "AccessLoc_destroy l S = call_stack_destroy (acc_call_stack l) S"

subsection \<open>The lists on the heap\<close>

primrec cs_chain :: "(u64 \<rightharpoonup> call_stack_node_t) \<Rightarrow> u64 \<Rightarrow> CallID_t list \<Rightarrow> bool" where
  "cs_chain h a [] \<longleftrightarrow> a = 0"
| "cs_chain h a (i # is) \<longleftrightarrow>
     a \<noteq> 0 \<and> (case h a of None \<Rightarrow> False | Some n \<Rightarrow> csn_id n = i \<and> cs_chain h (csn_prev n) is)"

definition csn_par :: "call_stack_node_t \<Rightarrow> u64 option" where
  "csn_par n = (if csn_prev n = 0 then None else Some (csn_prev n))"

definition csn_set_rc :: "int \<Rightarrow> call_stack_node_t \<Rightarrow> call_stack_node_t" where
  "csn_set_rc k n = n\<lparr>csn_ref_count := k\<rparr>"

lemma csn_par_upd [simp]: "csn_par (n\<lparr>csn_ref_count := k\<rparr>) = csn_par n"
  by (simp add: csn_par_def)

interpretation csn: refcounted csn_par csn_ref_count csn_set_rc
  by unfold_locales (simp_all add: csn_set_rc_def)

text \<open>
  \<open>cs_inv S ext\<close>: the counts are right for the outside references \<open>ext\<close>, and the allocator's
  addresses are not in use.  \<open>cs_wf\<close> adds that every node is referenced and starts a list.
\<close>

definition cs_inv :: "call_stack_heap \<Rightarrow> (u64 \<Rightarrow> nat) \<Rightarrow> bool" where
  "cs_inv S ext \<longleftrightarrow>
     rc_inv csn_par csn_ref_count (cs_nodes S) ext \<and> cs_nodes S 0 = None \<and>
     distinct (cs_free_list S @ cs_os S) \<and> 0 \<notin> set (cs_free_list S @ cs_os S) \<and>
     (\<forall>a \<in> set (cs_free_list S @ cs_os S). cs_nodes S a = None)"

definition cs_wf :: "call_stack_heap \<Rightarrow> (u64 \<Rightarrow> nat) \<Rightarrow> bool" where
  "cs_wf S ext \<longleftrightarrow>
     cs_inv S ext \<and>
     (\<forall>a n. cs_nodes S a = Some n \<longrightarrow> 0 < csn_ref_count n \<and> (\<exists>ids. cs_chain (cs_nodes S) a ids))"

text \<open>\<open>cs_sub h' h\<close>: the nodes of \<open>h'\<close> are in \<open>h\<close>, with the same id and the same predecessor.\<close>

definition cs_sub :: "(u64 \<rightharpoonup> call_stack_node_t) \<Rightarrow> (u64 \<rightharpoonup> call_stack_node_t) \<Rightarrow> bool" where
  "cs_sub h' h \<longleftrightarrow>
     (\<forall>a n'. h' a = Some n' \<longrightarrow> (\<exists>n. h a = Some n \<and> csn_id n' = csn_id n \<and> csn_prev n' = csn_prev n))"

lemma cs_sub_refl [simp]: "cs_sub h h"
  by (simp add: cs_sub_def)

lemma cs_sub_trans: "cs_sub h2 h1 \<Longrightarrow> cs_sub h1 h \<Longrightarrow> cs_sub h2 h"
  unfolding cs_sub_def by metis

lemma cs_subD:
  assumes "cs_sub h' h" "h' a = Some n'" "h a = Some n"
  shows "csn_id n' = csn_id n" "csn_prev n' = csn_prev n"
  using assms unfolding cs_sub_def by (metis option.inject)+

lemma cs_sub_remove: "cs_sub h' h \<Longrightarrow> cs_sub (h'(a := None)) (h(a := None))"
  unfolding cs_sub_def by simp

lemma cs_chain_fun: "cs_chain h a is \<Longrightarrow> cs_chain h a js \<Longrightarrow> is = js"
proof (induction "is" arbitrary: a js)
  case Nil
  then show ?case by (cases js) auto
next
  case (Cons i "is")
  then show ?case by (cases js) (auto split: option.splits)
qed

lemma cs_chain_sub:
  assumes "rc_inv csn_par csn_ref_count h' ext" "cs_sub h' h"
  shows "cs_chain h a ids \<Longrightarrow> a = 0 \<or> h' a \<noteq> None \<Longrightarrow> cs_chain h' a ids"
proof (induction ids arbitrary: a)
  case Nil
  then show ?case by simp
next
  case (Cons i ids)
  then obtain n n' where n: "a \<noteq> 0" "h a = Some n" "csn_id n = i" "cs_chain h (csn_prev n) ids"
    and n': "h' a = Some n'"
    by (auto split: option.splits)
  have eq: "csn_id n' = csn_id n" "csn_prev n' = csn_prev n"
    using cs_subD [OF assms(2) n' n(2)] by simp_all
  have "csn_prev n = 0 \<or> h' (csn_prev n) \<noteq> None"
  proof (cases "csn_prev n = 0")
    case False
    then have "csn_par n' = Some (csn_prev n)" by (simp add: csn_par_def eq)
    from csn.inv_par_live [OF assms(1) n' this] show ?thesis by auto
  qed simp
  with Cons.IH n n' eq show ?case by simp
qed

lemma cs_chain_ext: "(\<And>b. h b \<noteq> None \<Longrightarrow> h' b = h b) \<Longrightarrow> cs_chain h a ids \<Longrightarrow> cs_chain h' a ids"
proof (induction ids arbitrary: a)
  case (Cons i ids)
  then obtain n where n: "a \<noteq> 0" "h a = Some n" "csn_id n = i" "cs_chain h (csn_prev n) ids"
    by (auto split: option.splits)
  then have "h' a = Some n" using Cons.prems(1) [of a] by simp
  then show ?case using Cons n by simp
qed simp

lemma cs_invD: "cs_inv S ext \<Longrightarrow> rc_inv csn_par csn_ref_count (cs_nodes S) ext"
  by (simp add: cs_inv_def)

lemma cs_inv_live_nonzero: "cs_inv S ext \<Longrightarrow> cs_nodes S a = Some n \<Longrightarrow> a \<noteq> 0"
  by (auto simp: cs_inv_def)

lemma cs_inv_upd:
  assumes "cs_inv S ext" "cs_nodes S a = Some n"
    and "rc_inv csn_par csn_ref_count ((cs_nodes S)(a \<mapsto> n')) ext'"
  shows "cs_inv (cs_upd a n' S) ext'"
  using assms unfolding cs_inv_def cs_upd_def by auto

lemma cs_nodes_upd [simp]: "cs_nodes (cs_upd a n S) = (cs_nodes S)(a \<mapsto> n)"
  by (simp add: cs_upd_def)

lemma cs_nodes_operator_delete [simp]:
  "cs_nodes (csn_operator_delete a S) = (cs_nodes S)(a := None)"
  by (simp add: csn_operator_delete_def)

lemma cs_inv_operator_delete:
  assumes "cs_inv S ext" "cs_nodes S a = Some n" "csn_ref_count n = 0" "csn_prev n = 0"
  shows "cs_inv (csn_operator_delete a S) ext"
proof -
  have "rc_inv csn_par csn_ref_count ((cs_nodes S)(a := None)) ext"
    using assms by (intro csn.inv_remove) (auto simp: cs_inv_def csn_par_def)
  then show ?thesis
    using assms unfolding cs_inv_def csn_operator_delete_def by auto
qed

text \<open>
  Deleting a node whose count is 0 never touches freed memory, keeps the invariant for the same
  outside references, and changes no node that stays.
\<close>

lemma csn_delete_ok:
  assumes "cs_inv S ext" "cs_nodes S a = Some n" "csn_ref_count n = 0"
  shows "\<exists>S'. csn_delete a S = Some S' \<and> cs_inv S' ext \<and> cs_nodes S' a = None \<and>
    cs_sub (cs_nodes S') (cs_nodes S) \<and>
    (\<forall>b m. b \<noteq> a \<longrightarrow> cs_nodes S b = Some m \<longrightarrow> csn_ref_count m = 0 \<longrightarrow> cs_nodes S' b = Some m) \<and>
    (\<forall>b m. cs_nodes S' b = Some m \<longrightarrow> csn_ref_count m = 0 \<longrightarrow> cs_nodes S b = Some m)"
  using assms
proof (induction a S arbitrary: n rule: csn_delete.induct)
  case (1 a S)
  note inv = cs_invD [OF 1(2)]
  show ?case
  proof (cases "csn_prev n = 0")
    case True
    then show ?thesis
      using 1 cs_inv_operator_delete [OF 1(2-4) True]
      by (auto simp: csn_delete.simps [of a] cs_sub_def split: if_splits)
  next
    case False
    define p where "p = csn_prev n"
    let ?n = "n\<lparr>csn_prev := 0\<rparr>"
    let ?S1 = "cs_upd a ?n S"
    have par: "csn_par n = Some p" using False by (simp add: csn_par_def p_def)
    have inv1: "rc_inv csn_par csn_ref_count (cs_nodes ?S1) (ext_inc (Some p) ext)"
      using csn.inv_unlink [OF inv 1(3), of ?n] by (simp add: csn_par_def p_def False)
    obtain m where m: "cs_nodes S p = Some m" and mpos: "0 < csn_ref_count m"
      using csn.inv_par_live [OF inv 1(3) par] by blast
    have ne: "p \<noteq> a" using m mpos 1(3,4) by auto
    let ?m = "m\<lparr>csn_ref_count := csn_ref_count m - 1\<rparr>"
    let ?S2 = "cs_upd p ?m ?S1"
    have m1: "cs_nodes ?S1 p = Some m" using m ne by simp
    have cs1: "cs_inv ?S1 (ext_inc (Some p) ext)"
      using cs_inv_upd [OF 1(2,3), of ?n] inv1 by simp
    have "0 < ext_inc (Some p) ext p" "(ext_inc (Some p) ext)(p := ext_inc (Some p) ext p - 1) = ext"
      by simp_all
    note inv2 = csn.inv_dec [OF inv1 m1 this(1), unfolded csn_set_rc_def this(2)]
    have cs2: "cs_inv ?S2 ext" by (rule cs_inv_upd [OF cs1 m1 inv2])
    have a2: "cs_nodes ?S2 a = Some ?n" using ne by simp
    have sub2: "cs_sub ((cs_nodes ?S2)(a := None)) (cs_nodes S)"
      using m by (auto simp: cs_sub_def)
    show ?thesis
    proof (cases "csn_ref_count ?m = 0")
      case True
      have "\<exists>S3. csn_delete p ?S2 = Some S3 \<and> cs_inv S3 ext \<and> cs_nodes S3 p = None \<and>
        cs_sub (cs_nodes S3) (cs_nodes ?S2) \<and>
        (\<forall>b m. b \<noteq> p \<longrightarrow> cs_nodes ?S2 b = Some m \<longrightarrow> csn_ref_count m = 0 \<longrightarrow> cs_nodes S3 b = Some m) \<and>
        (\<forall>b m. cs_nodes S3 b = Some m \<longrightarrow> csn_ref_count m = 0 \<longrightarrow> cs_nodes ?S2 b = Some m)"
      proof (rule 1(1) [of n p ?S1 m ?m ?S2 ?m])
        show "cs_inv ?S2 ext" by (rule cs2)
      qed (use 1(3,4) False m1 mpos True in \<open>simp_all add: p_def\<close>)
      then obtain S3 where S3: "csn_delete p ?S2 = Some S3" "cs_inv S3 ext" "cs_nodes S3 p = None"
        "cs_sub (cs_nodes S3) (cs_nodes ?S2)"
        and keep: "\<And>b m. b \<noteq> p \<Longrightarrow> cs_nodes ?S2 b = Some m \<Longrightarrow> csn_ref_count m = 0 \<Longrightarrow> cs_nodes S3 b = Some m"
        and zero: "\<And>b m. cs_nodes S3 b = Some m \<Longrightarrow> csn_ref_count m = 0 \<Longrightarrow> cs_nodes ?S2 b = Some m"
        by blast
      have a3: "cs_nodes S3 a = Some ?n" using keep [of a ?n] a2 ne 1(4) by simp
      have res: "csn_delete a S = Some (csn_operator_delete a S3)"
        using 1(3,4) False m1 mpos True S3(1)
        by (simp add: csn_delete.simps [of a] p_def Let_def)
      have inv': "cs_inv (csn_operator_delete a S3) ext"
        using cs_inv_operator_delete [OF S3(2) a3] 1(4) by simp
      have "cs_sub ((cs_nodes S3)(a := None)) ((cs_nodes ?S2)(a := None))"
        by (rule cs_sub_remove [OF S3(4)])
      then have sub': "cs_sub ((cs_nodes S3)(a := None)) (cs_nodes S)"
        using sub2 cs_sub_trans by blast
      have k1: "cs_nodes S3 b = Some k" if "b \<noteq> a" "cs_nodes S b = Some k" "csn_ref_count k = 0" for b k
        using keep [of b k] that m mpos by (cases "b = p") auto
      have k2: "cs_nodes S b = Some k"
        if "b \<noteq> a" "cs_nodes S3 b = Some k" "csn_ref_count k = 0" for b k
        using zero [OF that(2,3)] S3(3) that by (auto split: if_splits)
      show ?thesis
      proof (intro exI conjI allI impI)
        show "csn_delete a S = Some (csn_operator_delete a S3)" by (rule res)
        show "cs_inv (csn_operator_delete a S3) ext" by (rule inv')
        show "cs_sub (cs_nodes (csn_operator_delete a S3)) (cs_nodes S)" using sub' by simp
      next
        fix b k assume "b \<noteq> a" "cs_nodes S b = Some k" "csn_ref_count k = 0"
        then show "cs_nodes (csn_operator_delete a S3) b = Some k" using k1 [of b k] by simp
      next
        fix b k assume "cs_nodes (csn_operator_delete a S3) b = Some k" "csn_ref_count k = 0"
        then show "cs_nodes S b = Some k" using k2 [of b k] by (cases "b = a") simp_all
      qed simp
    next
      case False': False
      have res: "csn_delete a S = Some (csn_operator_delete a ?S2)"
        using 1(3,4) False m1 mpos False'
        by (simp add: csn_delete.simps [of a] p_def Let_def)
      have "cs_inv (csn_operator_delete a ?S2) ext"
        using cs_inv_operator_delete [OF cs2 a2] 1(4) by simp
      show ?thesis
      proof (intro exI conjI allI impI)
        show "csn_delete a S = Some (csn_operator_delete a ?S2)" by (rule res)
        show "cs_inv (csn_operator_delete a ?S2) ext" by fact
        show "cs_sub (cs_nodes (csn_operator_delete a ?S2)) (cs_nodes S)" using sub2 by simp
      qed (use mpos m False' in \<open>auto split: if_splits\<close>)
    qed
  qed
qed

subsection \<open>Operations on well-formed heaps\<close>

text \<open>The optional reference of a pointer.\<close>

definition cs_ref :: "u64 \<Rightarrow> u64 option" where
  "cs_ref a = (if a = 0 then None else Some a)"

lemma cs_ref_simps [simp]: "cs_ref 0 = None" "a \<noteq> 0 \<Longrightarrow> cs_ref a = Some a"
  by (simp_all add: cs_ref_def)

text \<open>\<open>cs_keeps S S'\<close>: the lists of the nodes that stay are unchanged.\<close>

definition cs_keeps :: "call_stack_heap \<Rightarrow> call_stack_heap \<Rightarrow> bool" where
  "cs_keeps S S' \<longleftrightarrow>
     (\<forall>b ids. (b = 0 \<or> cs_nodes S' b \<noteq> None) \<longrightarrow> cs_chain (cs_nodes S) b ids \<longrightarrow>
        cs_chain (cs_nodes S') b ids)"

lemma cs_keeps_refl [simp]: "cs_keeps S S"
  by (simp add: cs_keeps_def)

lemma cs_keepsD:
  "cs_keeps S S' \<Longrightarrow> cs_nodes S' b \<noteq> None \<Longrightarrow> cs_chain (cs_nodes S) b ids \<Longrightarrow>
     cs_chain (cs_nodes S') b ids"
  by (simp add: cs_keeps_def)

lemma cs_keeps_trans:
  assumes "cs_keeps S S1" "cs_keeps S1 S2" "\<And>b. cs_nodes S b \<noteq> None \<Longrightarrow> cs_nodes S1 b \<noteq> None"
  shows "cs_keeps S S2"
  unfolding cs_keeps_def
proof (intro allI impI)
  fix b ids assume b: "b = 0 \<or> cs_nodes S2 b \<noteq> None" and ch: "cs_chain (cs_nodes S) b ids"
  show "cs_chain (cs_nodes S2) b ids"
  proof (cases "b = 0")
    case True
    then show ?thesis using ch by (cases ids) auto
  next
    case False
    have "cs_nodes S b \<noteq> None" using ch False by (cases ids) (auto split: option.splits)
    then have "cs_chain (cs_nodes S1) b ids" using cs_keepsD [OF assms(1) _ ch] assms(3) by blast
    then show ?thesis using assms(2) b unfolding cs_keeps_def by blast
  qed
qed

lemma cs_wf_ext_live: "cs_wf S ext \<Longrightarrow> 0 < ext a \<Longrightarrow> \<exists>n. cs_nodes S a = Some n \<and> a \<noteq> 0"
  using csn.inv_ext_live [of "cs_nodes S" ext a] by (auto simp: cs_wf_def cs_inv_def)

lemma cs_wf_chain: "cs_wf S ext \<Longrightarrow> cs_nodes S a = Some n \<Longrightarrow> \<exists>ids. cs_chain (cs_nodes S) a ids"
  by (auto simp: cs_wf_def)

lemma cs_wf_sub:
  assumes "cs_wf S ext" "cs_inv S' ext'" "cs_sub (cs_nodes S') (cs_nodes S)"
    and "\<And>b m. cs_nodes S' b = Some m \<Longrightarrow> 0 < csn_ref_count m"
  shows "cs_wf S' ext' \<and> cs_keeps S S'"
proof -
  have k: "cs_keeps S S'"
    unfolding cs_keeps_def using cs_chain_sub [OF cs_invD [OF assms(2)] assms(3)] by blast
  moreover have "\<exists>ids. cs_chain (cs_nodes S') a ids" if a: "cs_nodes S' a = Some n" for a n
  proof -
    obtain n0 where "cs_nodes S a = Some n0" using a assms(3) by (auto simp: cs_sub_def)
    then obtain ids where "cs_chain (cs_nodes S) a ids" using cs_wf_chain [OF assms(1)] by blast
    then show ?thesis using cs_keepsD [OF k] a by blast
  qed
  ultimately show ?thesis using assms(2,4) unfolding cs_wf_def by blast
qed

lemma csn_add_ref_ok:
  assumes wf: "cs_wf S ext" and n: "cs_nodes S a = Some n"
  shows "\<exists>S'. csn_add_ref a 1 S = Some S' \<and> cs_wf S' (ext_inc (Some a) ext) \<and> cs_keeps S S' \<and>
    cs_keeps S' S \<and> dom (cs_nodes S') = dom (cs_nodes S)"
proof -
  let ?n = "n\<lparr>csn_ref_count := csn_ref_count n + 1\<rparr>"
  let ?S = "cs_upd a ?n S"
  have inv: "cs_inv S ext" using wf by (simp add: cs_wf_def)
  have inv': "cs_inv ?S (ext_inc (Some a) ext)"
    using cs_inv_upd [OF inv n csn.inv_inc [OF cs_invD [OF inv] n, unfolded csn_set_rc_def]] by simp
  have sub: "cs_sub (cs_nodes ?S) (cs_nodes S)" "cs_sub (cs_nodes S) (cs_nodes ?S)"
    using n by (auto simp: cs_sub_def)
  have pos: "0 < csn_ref_count m" if "cs_nodes ?S b = Some m" for b m
    using that wf n by (fastforce simp: cs_wf_def split: if_splits)
  have "cs_wf ?S (ext_inc (Some a) ext) \<and> cs_keeps S ?S"
    by (rule cs_wf_sub [OF wf inv' sub(1)]) (rule pos)
  moreover have "cs_keeps ?S S"
    unfolding cs_keeps_def using cs_chain_sub [OF cs_invD [OF inv] sub(2)] by blast
  ultimately show ?thesis using n by (auto simp: csn_add_ref_def)
qed

lemma csn_dec_ref_ok:
  assumes wf: "cs_wf S ext" and a: "0 < ext a"
  shows "\<exists>S'. csn_dec_ref a S = Some S' \<and> cs_wf S' (ext_dec (Some a) ext) \<and> cs_keeps S S'"
proof -
  obtain n where n: "cs_nodes S a = Some n" using cs_wf_ext_live [OF wf a] by blast
  have npos: "0 < csn_ref_count n" using wf n by (simp add: cs_wf_def)
  let ?n = "n\<lparr>csn_ref_count := csn_ref_count n - 1\<rparr>"
  let ?S = "cs_upd a ?n S"
  have inv: "cs_inv S ext" using wf by (simp add: cs_wf_def)
  have inv': "cs_inv ?S (ext_dec (Some a) ext)"
    using cs_inv_upd [OF inv n csn.inv_dec [OF cs_invD [OF inv] n a, unfolded csn_set_rc_def]] by simp
  have sub: "cs_sub (cs_nodes ?S) (cs_nodes S)" using n by (auto simp: cs_sub_def)
  have pos: "0 < csn_ref_count m" if "cs_nodes ?S b = Some m" "b \<noteq> a" for b m
    using that wf by (auto simp: cs_wf_def)
  show ?thesis
  proof (cases "csn_ref_count n = 1")
    case True
    then have "csn_ref_count ?n = 0" by simp
    moreover have "cs_nodes ?S a = Some ?n" by simp
    ultimately obtain S' where S': "csn_delete a ?S = Some S'" "cs_inv S' (ext_dec (Some a) ext)"
      "cs_nodes S' a = None" "cs_sub (cs_nodes S') (cs_nodes ?S)"
      "\<And>b m. cs_nodes S' b = Some m \<Longrightarrow> csn_ref_count m = 0 \<Longrightarrow> cs_nodes ?S b = Some m"
      using csn_delete_ok [OF inv'] by blast
    have "0 < csn_ref_count m" if "cs_nodes S' b = Some m" for b m
    proof -
      have "b \<noteq> a" using that S'(3) by auto
      moreover have "0 \<le> csn_ref_count m" using csn.inv_nonneg [OF cs_invD [OF S'(2)] that] .
      ultimately show ?thesis using S'(5) [OF that] pos by fastforce
    qed
    then have "cs_wf S' (ext_dec (Some a) ext) \<and> cs_keeps S S'"
      using cs_wf_sub [OF wf S'(2) cs_sub_trans [OF S'(4) sub]] by blast
    then show ?thesis using n S'(1) True by (auto simp: csn_dec_ref_def Let_def)
  next
    case False
    then have "0 < csn_ref_count m" if "cs_nodes ?S b = Some m" for b m
      using that npos pos [of b m] by (cases "b = a") auto
    then have "cs_wf ?S (ext_dec (Some a) ext) \<and> cs_keeps S ?S"
      using cs_wf_sub [OF wf inv' sub] by blast
    then show ?thesis using n npos False by (auto simp: csn_dec_ref_def Let_def)
  qed
qed

lemma call_stack_destroy_ok:
  assumes "cs_wf S ext" "tail = 0 \<or> 0 < ext tail"
  shows "\<exists>S'. call_stack_destroy tail S = Some S' \<and> cs_wf S' (ext_dec (cs_ref tail) ext) \<and> cs_keeps S S'"
  using assms csn_dec_ref_ok [of S ext tail]
  by (cases "tail = 0") (auto simp: call_stack_destroy_def)

lemma call_stack_copy_ok:
  assumes "cs_wf S ext" "tail = 0 \<or> 0 < ext tail"
  shows "\<exists>S'. call_stack_copy tail S = Some (tail, S') \<and> cs_wf S' (ext_inc (cs_ref tail) ext) \<and>
    cs_keeps S S'"
  using assms csn_add_ref_ok [of S ext tail] cs_wf_ext_live [of S ext tail]
  by (cases "tail = 0") (auto simp: call_stack_copy_def)

text \<open>Assigning a stack releases the old list and takes a reference to the new one, also when both
  are the same stack.\<close>

lemma call_stack_assign_ok:
  assumes wf: "cs_wf S ext" and t: "tail = 0 \<or> 0 < ext tail" and c: "copy = 0 \<or> 0 < ext copy"
  shows "\<exists>S'. call_stack_assign tail copy S = Some (copy, S') \<and>
    cs_wf S' (ext_dec (cs_ref tail) (ext_inc (cs_ref copy) ext)) \<and> cs_keeps S S'"
proof -
  obtain S1 where S1: "(if copy = 0 then Some S else csn_add_ref copy 1 S) = Some S1"
    "cs_wf S1 (ext_inc (cs_ref copy) ext)" "cs_keeps S S1" "cs_keeps S1 S"
    using csn_add_ref_ok [OF wf, of copy] cs_wf_ext_live [OF wf, of copy] wf c
    by (cases "copy = 0") auto
  have t1: "tail = 0 \<or> 0 < ext_inc (cs_ref copy) ext tail" using t by (auto simp: ext_inc_apply)
  obtain S2 where S2: "(if tail = 0 then Some S1 else csn_dec_ref tail S1) = Some S2"
    "cs_wf S2 (ext_dec (cs_ref tail) (ext_inc (cs_ref copy) ext))" "cs_keeps S1 S2"
    using csn_dec_ref_ok [OF S1(2), of tail] S1(2) t1 by (cases "tail = 0") auto
  have dom: "cs_nodes S1 b \<noteq> None \<longleftrightarrow> cs_nodes S b \<noteq> None" for b
    using S1(1) by (auto simp: csn_add_ref_def split: if_splits option.splits)
  have k: "cs_keeps S S2"
    using cs_keeps_trans [OF S1(3) S2(3)] dom by blast
  have "call_stack_assign tail copy S = Some (copy, S2)"
    using S1(1) S2(1) unfolding call_stack_assign_def Let_def by simp
  then show ?thesis using S2(2) k by blast
qed

text \<open>
  A push allocates a node that was not in use, so every list already saved keeps its frames, and the
  new stack is the old one with the frame in front; the reference to the old tail moves into the new
  node.
\<close>

lemma csn_operator_new_ok:
  assumes "cs_inv S ext" "cs_free_list S @ cs_os S \<noteq> []"
  shows "\<exists>a S1. csn_operator_new S = Some (a, S1) \<and> a \<noteq> 0 \<and> cs_nodes S a = None \<and>
    cs_nodes S1 = cs_nodes S \<and> a \<notin> set (cs_free_list S1 @ cs_os S1) \<and> cs_inv S1 ext"
  using assms
  by (cases "cs_free_list S"; cases "cs_os S")
     (auto simp: csn_operator_new_def cs_inv_def)

lemma call_stack_push_ok:
  assumes wf: "cs_wf S ext" and t: "tail = 0 \<or> 0 < ext tail"
    and mem: "cs_free_list S @ cs_os S \<noteq> []"
  shows "\<exists>a S'. call_stack_push i tail S = Some (a, S') \<and> a \<noteq> 0 \<and> cs_nodes S a = None \<and>
    cs_wf S' (ext_inc (Some a) (ext_dec (cs_ref tail) ext)) \<and> cs_keeps S S' \<and>
    (\<forall>ids. cs_chain (cs_nodes S) tail ids \<longrightarrow> cs_chain (cs_nodes S') a (i # ids))"
proof -
  have inv: "cs_inv S ext" using wf by (simp add: cs_wf_def)
  obtain a S1 where a: "csn_operator_new S = Some (a, S1)" "a \<noteq> 0" "cs_nodes S a = None"
    and S1: "cs_nodes S1 = cs_nodes S" "a \<notin> set (cs_free_list S1 @ cs_os S1)" "cs_inv S1 ext"
    using csn_operator_new_ok [OF inv mem] by blast
  let ?n = "\<lparr>csn_id = i, csn_prev = tail, csn_ref_count = 1\<rparr>"
  let ?S = "cs_upd a ?n S1"
  have tl: "tail = 0 \<or> (tail \<noteq> a \<and> (\<exists>m. cs_nodes S tail = Some m \<and> 0 < csn_ref_count m))"
    using t csn.inv_ext_live [OF cs_invD [OF inv], of tail] a(3) by auto
  have run: "call_stack_push i tail S = Some (a, ?S)"
  proof (cases "tail = 0")
    case True
    then show ?thesis using a S1 by (simp add: call_stack_push_def csn_new_def Let_def)
  next
    case False
    then obtain m where m: "cs_nodes S tail = Some m" "0 < csn_ref_count m" "tail \<noteq> a"
      using tl by blast
    then show ?thesis using False a S1
      by (simp add: call_stack_push_def csn_new_def csn_add_ref_def Let_def cs_upd_def fun_upd_twist
          fun_upd_idem)
  qed
  let ?h = "(cs_nodes S)(a \<mapsto> ?n)"
  have ea: "ext a = 0" using csn.inv_dead [OF cs_invD [OF inv] a(3)] by simp
  have rc: "rc_inv csn_par csn_ref_count ?h (ext_inc (Some a) (ext_dec (cs_ref tail) ext))"
  proof -
    let ?new = "\<lparr>csn_id = i, csn_prev = 0, csn_ref_count = 0\<rparr>"
    let ?h1 = "(cs_nodes S)(a \<mapsto> ?new\<lparr>csn_ref_count := 1\<rparr>)"
    have "rc_inv csn_par csn_ref_count ((cs_nodes S)(a \<mapsto> ?new)) ext"
      using csn.inv_new [OF cs_invD [OF inv] a(3), of ?new] by (simp add: csn_par_def)
    from csn.inv_inc [OF this, of a ?new]
    have h1: "rc_inv csn_par csn_ref_count ?h1 (ext_inc (Some a) ext)"
      by (simp add: csn_set_rc_def)
    show ?thesis
    proof (cases "tail = 0")
      case True
      then show ?thesis using h1 by simp
    next
      case False
      then have tp: "0 < ext_inc (Some a) ext tail" and ne: "tail \<noteq> a" using t tl by simp_all
      have "rc_inv csn_par csn_ref_count (?h1(a \<mapsto> ?n))
          ((ext_inc (Some a) ext)(tail := ext_inc (Some a) ext tail - 1))"
        by (rule csn.inv_link [OF h1 fun_upd_same _ _ _ tp]) (use False in \<open>simp_all add: csn_par_def\<close>)
      then show ?thesis using False ne by (simp add: fun_upd_twist)
    qed
  qed
  have ch: "cs_chain ?h b ids" if "cs_chain (cs_nodes S) b ids" for b ids
    using cs_chain_ext [of "cs_nodes S" ?h b ids] a(3) that by force
  have cons: "cs_chain ?h a (i # ids)" if "cs_chain (cs_nodes S) tail ids" for ids
    using ch [OF that] a(2) by simp
  have "cs_wf ?S (ext_inc (Some a) (ext_dec (cs_ref tail) ext))"
  proof -
    have "cs_inv ?S (ext_inc (Some a) (ext_dec (cs_ref tail) ext))"
      using S1 a rc by (auto simp: cs_inv_def cs_upd_def)
    moreover have "\<exists>ids. cs_chain (cs_nodes S) tail ids"
      using tl cs_wf_chain [OF wf] by (metis cs_chain.simps(1))
    ultimately show ?thesis
      using wf S1 ch cons unfolding cs_wf_def by (auto; metis)
  qed
  then show ?thesis using run a S1(1) ch cons by (auto simp: cs_keeps_def)
qed

text \<open>A pop gives the stack without its last frame; the popped frame stays on the heap exactly when
  another reference still reaches it.\<close>

lemma call_stack_pop_ok:
  assumes wf: "cs_wf S ext" and t: "0 < ext tail" and ch: "cs_chain (cs_nodes S) tail (i # ids)"
  shows "\<exists>p S'. call_stack_pop tail S = Some (p, S') \<and>
    cs_wf S' (ext_dec (Some tail) (ext_inc (cs_ref p) ext)) \<and> cs_keeps S S' \<and>
    cs_chain (cs_nodes S') p ids"
proof -
  obtain n where n: "tail \<noteq> 0" "cs_nodes S tail = Some n" "cs_chain (cs_nodes S) (csn_prev n) ids"
    using ch by (auto split: option.splits)
  let ?p = "csn_prev n"
  have inv: "cs_inv S ext" using wf by (simp add: cs_wf_def)
  have p: "?p = 0 \<or> (\<exists>m. cs_nodes S ?p = Some m)"
    using csn.inv_par_live [OF cs_invD [OF inv] n(2), of ?p] by (cases "?p = 0") (auto simp: csn_par_def)
  obtain S1 where S1: "(if ?p = 0 then Some S else csn_add_ref ?p 1 S) = Some S1"
    "cs_wf S1 (ext_inc (cs_ref ?p) ext)" "cs_keeps S S1" "dom (cs_nodes S1) = dom (cs_nodes S)"
    using csn_add_ref_ok [OF wf, of ?p] wf p by (cases "?p = 0") auto
  obtain S2 where S2: "csn_dec_ref tail S1 = Some S2"
    "cs_wf S2 (ext_dec (Some tail) (ext_inc (cs_ref ?p) ext))" "cs_keeps S1 S2"
    using csn_dec_ref_ok [OF S1(2), of tail] t by (auto simp: ext_inc_apply)
  have k: "cs_keeps S S2" using cs_keeps_trans [OF S1(3) S2(3)] S1(4) by (auto simp: dom_def)
  have "?p = 0 \<or> cs_nodes S2 ?p \<noteq> None"
  proof (cases "?p = 0")
    case False
    have "?p \<noteq> tail"
    proof
      assume "?p = tail"
      then have "cs_chain (cs_nodes S) tail ids" using n(3) by simp
      then show False using cs_chain_fun [OF ch] by fastforce
    qed
    then have "0 < ext_dec (Some tail) (ext_inc (cs_ref ?p) ext) ?p" using False by simp
    then show ?thesis using cs_wf_ext_live [OF S2(2)] by fastforce
  qed simp
  then have "cs_chain (cs_nodes S2) ?p ids" using k n(3) unfolding cs_keeps_def by blast
  moreover have "call_stack_pop tail S = Some (?p, S2)"
    using n S1(1) S2(1) by (simp add: call_stack_pop_def Let_def)
  ultimately show ?thesis using S2(2) k by blast
qed

lemma call_stack_size_from_chain:
  "cs_chain (cs_nodes S) tail ids \<Longrightarrow> call_stack_size_from tail k S = Some (k + int (length ids))"
proof (induction ids arbitrary: tail k)
  case Nil
  then show ?case by (subst call_stack_size_from.simps) simp
next
  case (Cons i ids)
  then show ?case
    by (subst call_stack_size_from.simps) (auto split: option.splits)
qed

lemma call_stack_size_chain:
  "cs_chain (cs_nodes S) tail ids \<Longrightarrow> call_stack_size tail S = Some (int (length ids))"
  by (simp add: call_stack_size_def call_stack_size_from_chain)

end
