(* ===== verification/Hypertable.thy ===== *)
theory Hypertable
  imports Prelude "HOL-Library.Monad_Syntax"
begin

text \<open>
  The table of reducer views of \<open>cilksan/hypertable.h\<close>: an array scanned linearly while it is small,
  then a hash table with ordered linear probing and tombstones.  Keys and hashes are words;
  \<open>occupancy\<close> and \<open>ins_rm_count\<close> are \<open>int32_t\<close> whose overflow the language leaves undefined, and are
  integers here.  An access outside the array of buckets is \<^term>\<open>None\<close>.
\<close>

type_synonym index_t = u32

definition KEY_EMPTY :: u64 where "KEY_EMPTY = 0"
definition KEY_DELETED :: u64 where "KEY_DELETED = NOT 0"

definition is_empty :: "u64 \<Rightarrow> bool" where "is_empty key \<longleftrightarrow> key = KEY_EMPTY"
definition is_tombstone :: "u64 \<Rightarrow> bool" where "is_tombstone key \<longleftrightarrow> key = KEY_DELETED"
definition is_valid :: "u64 \<Rightarrow> bool" where "is_valid key \<longleftrightarrow> \<not> is_empty key \<and> \<not> is_tombstone key"

text \<open>A bucket; \<open>value\<close> is the \<open>reducer_base\<close>, a view and its reduce function.\<close>

record 'v bucket =
  b_key :: u64
  b_hash :: index_t
  b_value :: 'v

definition make_tombstone :: "'v bucket \<Rightarrow> 'v bucket" where
  "make_tombstone b = b\<lparr>b_key := KEY_DELETED\<rparr>"

record 'v hyper_table =
  ht_capacity :: index_t
  ht_occupancy :: int
  ht_ins_rm_count :: int
  ht_buckets :: "'v bucket list"

subsection \<open>Hashes and probes\<close>

definition ht_salt :: u64 where "ht_salt = 0x96b9af4f6a40de92"

definition ht_hash :: "u64 \<Rightarrow> index_t" where
  "ht_hash key_in =
     (let x = key_in XOR ht_salt;
          low_mask = push_bit 32 1 - 1;
          v = (x AND low_mask) * drop_bit 32 x
      in ucast ((v AND low_mask) XOR drop_bit 32 v))"

definition get_table_entry :: "index_t \<Rightarrow> u64 \<Rightarrow> index_t" where
  "get_table_entry capacity key = ht_hash key AND (capacity - 1)"

definition inc_index :: "index_t \<Rightarrow> index_t \<Rightarrow> index_t" where
  "inc_index i capacity = (let i = i + 1 in if i = capacity then 0 else i)"

definition continue_probe :: "index_t \<Rightarrow> index_t \<Rightarrow> index_t \<Rightarrow> bool" where
  "continue_probe tgt hash idx \<longleftrightarrow> idx - tgt \<le> idx - hash"

definition LOAD_FACTOR_CONSTANT :: int where "LOAD_FACTOR_CONSTANT = 16"
definition MIN_CAPACITY :: index_t where "MIN_CAPACITY = 4"
definition MIN_HT_CAPACITY :: index_t where "MIN_HT_CAPACITY = 8"
definition MIN_REBUILD_OP_COUNT :: int where "MIN_REBUILD_OP_COUNT = 8"

definition is_overloaded :: "int \<Rightarrow> int \<Rightarrow> bool" where
  "is_overloaded occupancy capacity \<longleftrightarrow>
     occupancy > (LOAD_FACTOR_CONSTANT - 1) * capacity div LOAD_FACTOR_CONSTANT"

definition is_underloaded :: "int \<Rightarrow> int \<Rightarrow> bool" where
  "is_underloaded occupancy capacity \<longleftrightarrow>
     capacity > uint MIN_CAPACITY \<and>
     occupancy \<le> (LOAD_FACTOR_CONSTANT div 2 - 1) * capacity div LOAD_FACTOR_CONSTANT"

definition time_to_rebuild :: "int \<Rightarrow> int \<Rightarrow> bool" where
  "time_to_rebuild ins_rm_count capacity \<longleftrightarrow>
     ins_rm_count > MIN_REBUILD_OP_COUNT \<and>
     ins_rm_count > capacity div (4 * LOAD_FACTOR_CONSTANT)"

text \<open>The array of empty buckets \<open>e\<close>, with a tombstone after each run of 32 entries in a hash table.\<close>

primrec graveyard :: "nat \<Rightarrow> nat \<Rightarrow> 'v bucket \<Rightarrow> 'v bucket list" where
  "graveyard 0 tombstone_idx e = []"
| "graveyard (Suc n) tombstone_idx e =
     (if tombstone_idx = 32 then make_tombstone e # graveyard n (tombstone_idx - 32) e
      else e # graveyard n (Suc tombstone_idx) e)"

definition empty_bucket :: "'v \<Rightarrow> 'v bucket" where
  "empty_bucket v = \<lparr>b_key = KEY_EMPTY, b_hash = 0, b_value = v\<rparr>"

definition bucket_array_create :: "'v \<Rightarrow> index_t \<Rightarrow> 'v bucket list" where
  "bucket_array_create v array_size =
     (if array_size < MIN_HT_CAPACITY then replicate (unat array_size) (empty_bucket v)
      else graveyard (unat array_size) 0 (empty_bucket v))"

definition hyper_table_new :: "'v \<Rightarrow> 'v hyper_table" where
  "hyper_table_new v =
     \<lparr>ht_capacity = MIN_CAPACITY, ht_occupancy = 0, ht_ins_rm_count = 0,
      ht_buckets = bucket_array_create v MIN_CAPACITY\<rparr>"

subsection \<open>Finding a key\<close>

text \<open>A find returns the index of the bucket, or none.\<close>

primrec find_linear :: "nat \<Rightarrow> u64 \<Rightarrow> 'v hyper_table \<Rightarrow> nat option option" where
  "find_linear 0 key T = Some None"
| "find_linear (Suc i) key T =
     do {
       b \<leftarrow> arr_get (ht_buckets T) i;
       if b_key b = key then Some (Some i) else find_linear i key T
     }"

partial_function (option) find_hash_loop ::
  "index_t \<Rightarrow> index_t \<Rightarrow> u64 \<Rightarrow> 'v hyper_table \<Rightarrow> nat option option" where
  "find_hash_loop tgt i key T =
     do {
       b \<leftarrow> arr_get (ht_buckets T) (unat i);
       if key = b_key b then Some (Some (unat i))
       else if is_empty (b_key b) then Some None
       else if is_tombstone (b_key b) \<or> continue_probe tgt (b_hash b) i then
         (let i = inc_index i (ht_capacity T)
          in if i \<noteq> tgt then find_hash_loop tgt i key T else Some None)
       else Some None
     }"

definition find_hash :: "u64 \<Rightarrow> 'v hyper_table \<Rightarrow> nat option option" where
  "find_hash key T =
     (let tgt = get_table_entry (ht_capacity T) key in find_hash_loop tgt tgt key T)"

definition ht_find :: "u64 \<Rightarrow> 'v hyper_table \<Rightarrow> nat option option" where
  "ht_find key T =
     (if ht_capacity T < MIN_HT_CAPACITY then find_linear (nat (ht_occupancy T)) key T
      else find_hash key T)"

subsection \<open>Inserting a bucket\<close>

definition ht_put :: "nat \<Rightarrow> 'v bucket \<Rightarrow> 'v hyper_table \<Rightarrow> 'v hyper_table option" where
  "ht_put i b T = map_option (\<lambda>bs. T\<lparr>ht_buckets := bs\<rparr>) (arr_set (ht_buckets T) i b)"

text \<open>Storing a bucket in a free entry counts it.\<close>

definition ht_put_new :: "index_t \<Rightarrow> 'v bucket \<Rightarrow> 'v hyper_table \<Rightarrow> 'v hyper_table option" where
  "ht_put_new i b T =
     map_option (\<lambda>T. T\<lparr>ht_occupancy := ht_occupancy T + 1, ht_ins_rm_count := ht_ins_rm_count T + 1\<rparr>)
       (ht_put (unat i) b T)"

text \<open>The end of a run of tombstones.\<close>

partial_function (option) tomb_run ::
  "index_t \<Rightarrow> index_t \<Rightarrow> 'v hyper_table \<Rightarrow> (index_t \<times> 'v bucket) option" where
  "tomb_run probe_end next_i T =
     do {
       b \<leftarrow> arr_get (ht_buckets T) (unat next_i);
       if next_i \<noteq> probe_end \<and> is_tombstone (b_key b)
       then tomb_run probe_end (inc_index next_i (ht_capacity T)) T
       else Some (next_i, b)
     }"

text \<open>The probe for the place of \<open>b\<close>: it returns the finished table, or the occupied index where the
  bucket has to go.\<close>

partial_function (option) insert_probe ::
  "index_t \<Rightarrow> index_t \<Rightarrow> 'v bucket \<Rightarrow> 'v hyper_table \<Rightarrow> ('v hyper_table + index_t) option" where
  "insert_probe tgt i b T =
     do {
       c \<leftarrow> arr_get (ht_buckets T) (unat i);
       if b_key b = b_key c then map_option Inl (ht_put (unat i) (c\<lparr>b_value := b_value b\<rparr>) T)
       else if is_empty (b_key c) then map_option Inl (ht_put_new i b T)
       else if is_tombstone (b_key c) then
         do {
           (next_i, e) \<leftarrow> tomb_run tgt (inc_index i (ht_capacity T)) T;
           if is_empty (b_key e) \<or> next_i = tgt \<or> \<not> continue_probe tgt (b_hash e) next_i
           then map_option Inl (ht_put_new i b T)
           else if next_i \<noteq> tgt then insert_probe tgt next_i b T
           else Some (Inr next_i)
         }
       else if continue_probe tgt (b_hash c) i then
         (let i = inc_index i (ht_capacity T)
          in if i \<noteq> tgt then insert_probe tgt i b T else Some (Inr i))
       else Some (Inr i)
     }"

text \<open>Shifting the buckets from \<open>i\<close> on by one, up to a free entry; without one the assertion that the
  insertion has succeeded fails.\<close>

partial_function (option) insert_shift ::
  "index_t \<Rightarrow> index_t \<Rightarrow> 'v bucket \<Rightarrow> 'v hyper_table \<Rightarrow> (bool \<times> 'v hyper_table) option" where
  "insert_shift insert_tgt i b T =
     do {
       c \<leftarrow> arr_get (ht_buckets T) (unat i);
       if \<not> is_valid (b_key c) then map_option (Pair True) (ht_put_new i b T)
       else do {
         T \<leftarrow> ht_put (unat i) b T;
         let i = inc_index i (ht_capacity T);
         if i \<noteq> insert_tgt then insert_shift insert_tgt i c T else None
       }
     }"

definition insert_hash :: "'v bucket \<Rightarrow> 'v hyper_table \<Rightarrow> (bool \<times> 'v hyper_table) option" where
  "insert_hash b T =
     (let tgt = get_table_entry (ht_capacity T) (b_key b); b = b\<lparr>b_hash := tgt\<rparr>
      in do {
        c \<leftarrow> arr_get (ht_buckets T) (unat tgt);
        if is_empty (b_key c) then map_option (Pair True) (ht_put_new tgt b T)
        else do {
          r \<leftarrow> insert_probe tgt tgt b T;
          (case r of Inl T \<Rightarrow> Some (True, T) | Inr i \<Rightarrow> insert_shift i i b T)
        }
      })"

primrec insert_linear :: "nat \<Rightarrow> nat \<Rightarrow> 'v bucket \<Rightarrow> 'v hyper_table \<Rightarrow> 'v hyper_table option" where
  "insert_linear 0 i b T =
     map_option (\<lambda>T. T\<lparr>ht_occupancy := ht_occupancy T + 1\<rparr>) (ht_put i b T)"
| "insert_linear (Suc k) i b T =
     do {
       c \<leftarrow> arr_get (ht_buckets T) i;
       if b_key c = b_key b then ht_put i b T else insert_linear k (Suc i) b T
     }"

text \<open>
  \<open>rebuild\<close> inserts every valid bucket of the old array into a new one, with the insertion \<open>ins\<close>;
  \<open>insert\<close> may rebuild first.  The recursion between them is bounded by \<open>fuel\<close>, the depth: an
  insertion into a rebuilt table does not rebuild again, so depth 2 is enough.
\<close>

primrec rebuild_loop ::
  "('v bucket \<Rightarrow> 'v hyper_table \<Rightarrow> (bool \<times> 'v hyper_table) option) \<Rightarrow> 'v bucket list \<Rightarrow>
     'v hyper_table \<Rightarrow> 'v hyper_table option" where
  "rebuild_loop ins [] T = Some T"
| "rebuild_loop ins (b # bs) T =
     (if is_valid (b_key b)
      then do {
        (success, T) \<leftarrow> ins b T;
        if success then rebuild_loop ins bs T else None
      }
      else rebuild_loop ins bs T)"

definition rebuild ::
  "'v \<Rightarrow> ('v bucket \<Rightarrow> 'v hyper_table \<Rightarrow> (bool \<times> 'v hyper_table) option) \<Rightarrow> index_t \<Rightarrow>
     'v hyper_table \<Rightarrow> 'v hyper_table option" where
  "rebuild v ins new_capacity T =
     do {
       T' \<leftarrow> rebuild_loop ins (ht_buckets T)
         (T\<lparr>ht_buckets := bucket_array_create v new_capacity, ht_capacity := new_capacity,
            ht_occupancy := 0, ht_ins_rm_count := - ht_occupancy T\<rparr>);
       if ht_occupancy T' = ht_occupancy T then Some T' else None
     }"

primrec ht_insert :: "'v \<Rightarrow> nat \<Rightarrow> 'v bucket \<Rightarrow> 'v hyper_table \<Rightarrow> (bool \<times> 'v hyper_table) option" where
  "ht_insert v 0 b T = None"
| "ht_insert v (Suc fuel) b T =
     (if ht_capacity T < MIN_HT_CAPACITY \<and> ht_occupancy T < uint (ht_capacity T)
      then map_option (Pair True) (insert_linear (nat (ht_occupancy T)) 0 b T)
      else do {
        T \<leftarrow> (if ht_capacity T < MIN_HT_CAPACITY
               then rebuild v (ht_insert v fuel) (ht_capacity T * 2) T else Some T);
        T \<leftarrow> (if is_overloaded (ht_occupancy T) (uint (ht_capacity T))
               then rebuild v (ht_insert v fuel) (ht_capacity T * 2) T
               else if time_to_rebuild (ht_ins_rm_count T) (uint (ht_capacity T))
               then rebuild v (ht_insert v fuel) (ht_capacity T) T
               else Some T);
        insert_hash b T
      })"

definition INSERT_FUEL :: nat where "INSERT_FUEL = 2"

subsection \<open>Removing and clearing\<close>

text \<open>The linear removal: the index \<open>i\<close> is scanned, \<open>k\<close> entries remain.\<close>

primrec remove_linear :: "nat \<Rightarrow> nat \<Rightarrow> u64 \<Rightarrow> 'v hyper_table \<Rightarrow> (bool \<times> 'v hyper_table) option" where
  "remove_linear 0 i key T = Some (False, T)"
| "remove_linear (Suc k) i key T =
     do {
       c \<leftarrow> arr_get (ht_buckets T) i;
       if b_key c = key
       then do {
         let last = nat (ht_occupancy T) - 1;
         l \<leftarrow> arr_get (ht_buckets T) last;
         T \<leftarrow> (if i = last then Some T else ht_put i l T);
         T \<leftarrow> ht_put last (l\<lparr>b_key := KEY_EMPTY\<rparr>) T;
         Some (True, T\<lparr>ht_occupancy := ht_occupancy T - 1\<rparr>)
       }
       else remove_linear k (Suc i) key T
     }"

definition ht_remove :: "'v \<Rightarrow> u64 \<Rightarrow> 'v hyper_table \<Rightarrow> (bool \<times> 'v hyper_table) option" where
  "ht_remove v key T =
     (if ht_capacity T < MIN_HT_CAPACITY then remove_linear (nat (ht_occupancy T)) 0 key T
      else do {
        entry \<leftarrow> ht_find key T;
        (case entry of
           None \<Rightarrow> Some (False, T)
         | Some i \<Rightarrow> do {
             b \<leftarrow> arr_get (ht_buckets T) i;
             T \<leftarrow> ht_put i (make_tombstone b) T;
             let T = T\<lparr>ht_occupancy := ht_occupancy T - 1, ht_ins_rm_count := ht_ins_rm_count T + 1\<rparr>;
             T \<leftarrow> (if is_underloaded (ht_occupancy T) (uint (ht_capacity T))
                    then rebuild v (ht_insert v INSERT_FUEL) (ht_capacity T div 2) T
                    else if time_to_rebuild (ht_ins_rm_count T) (uint (ht_capacity T))
                    then rebuild v (ht_insert v INSERT_FUEL) (ht_capacity T) T
                    else Some T);
             Some (True, T)
           })
      })"

primrec clear_linear :: "nat \<Rightarrow> 'v hyper_table \<Rightarrow> 'v hyper_table option" where
  "clear_linear 0 T = Some T"
| "clear_linear (Suc i) T =
     do {
       T \<leftarrow> clear_linear i T;
       b \<leftarrow> arr_get (ht_buckets T) i;
       ht_put i (b\<lparr>b_key := KEY_EMPTY\<rparr>) T
     }"

definition ht_clear :: "'v \<Rightarrow> 'v hyper_table \<Rightarrow> 'v hyper_table option" where
  "ht_clear v T =
     (if \<not> ht_occupancy T > 0 then None
      else if ht_capacity T = MIN_CAPACITY
      then map_option (\<lambda>T. T\<lparr>ht_occupancy := 0\<rparr>) (clear_linear (nat (ht_occupancy T)) T)
      else Some (T\<lparr>ht_buckets := bucket_array_create v MIN_CAPACITY, ht_capacity := MIN_CAPACITY,
                   ht_occupancy := 0, ht_ins_rm_count := 0\<rparr>))"

subsection \<open>The unsigned comparison of the probe\<close>

text \<open>The number of steps from index \<open>a\<close> to index \<open>i\<close> in a circular array of \<open>c\<close> entries.\<close>

definition hdist :: "nat \<Rightarrow> nat \<Rightarrow> nat \<Rightarrow> nat" where
  "hdist c a i = (if a \<le> i then i - a else i + c - a)"

lemma hdist_less: "a < c \<Longrightarrow> i < c \<Longrightarrow> hdist c a i < c"
  by (auto simp: hdist_def)

lemma hdist_self [simp]: "hdist c a a = 0"
  by (simp add: hdist_def)

lemma hdist_add: "a < c \<Longrightarrow> d < c \<Longrightarrow> hdist c a ((a + d) mod c) = d"
  by (cases "a + d < c") (auto simp: hdist_def mod_if)

lemma add_hdist: "a < c \<Longrightarrow> i < c \<Longrightarrow> (a + hdist c a i) mod c = i"
  by (simp add: hdist_def mod_if)

lemma unat_diff_index:
  fixes i a :: index_t
  shows "unat (i - a) = (if unat a \<le> unat i then unat i - unat a else unat i + 2 ^ 32 - unat a)"
  by (simp add: unat_sub_if_size word_size)

text \<open>
  The comment of \<open>continue_probe\<close> justifies the bit trick in four cases.  For indices below the
  capacity they all say: the probe continues exactly when the target is not farther from its home than
  the element it meets.
\<close>

lemma continue_probe_hdist:
  assumes "unat tgt < c" "unat h < c" "unat i < c" "c \<le> 2 ^ 31"
  shows "continue_probe tgt h i \<longleftrightarrow> hdist c (unat tgt) (unat i) \<le> hdist c (unat h) (unat i)"
  using assms
  by (auto simp: continue_probe_def word_le_nat_alt unat_diff_index hdist_def)

lemma unat_index_less: "unat (i :: index_t) < 2 ^ 32"
  using unsigned_less [of i, where 'a = nat] by simp

lemma continue_probe_cases:
  shows "tgt \<le> i \<Longrightarrow> h \<le> i \<Longrightarrow> continue_probe tgt h i \<longleftrightarrow> \<not> tgt < h"
    and "i < tgt \<Longrightarrow> i < h \<Longrightarrow> continue_probe tgt h i \<longleftrightarrow> \<not> tgt < h"
    and "tgt \<le> i \<Longrightarrow> i < h \<Longrightarrow> continue_probe tgt h i"
    and "i < tgt \<Longrightarrow> h \<le> i \<Longrightarrow> \<not> continue_probe tgt h i"
  using unat_index_less [of tgt] unat_index_less [of h] unat_index_less [of i]
  by (auto simp: continue_probe_def word_le_nat_alt word_less_nat_alt unat_diff_index)

lemma unat_inc_index:
  assumes "unat i < unat c"
  shows "unat (inc_index i c) = (unat i + 1) mod unat c"
proof -
  have s: "unat (i + 1) = Suc (unat i)" using unat_Suc_word [OF assms] .
  show ?thesis
  proof (cases "i + 1 = c")
    case True
    then have "unat c = Suc (unat i)" using s by simp
    then show ?thesis using True by (simp add: inc_index_def Let_def)
  next
    case False
    then have "Suc (unat i) < unat c" using assms s by (simp add: word_unat_eq_iff)
    then show ?thesis using False s by (simp add: inc_index_def Let_def)
  qed
qed

subsection \<open>The invariant of the hash table\<close>

text \<open>
  Between the home of an entry and the entry there is no empty entry, and every valid entry is at least
  as far from its own home as the probe is at that point.  This is what lets a probe stop early.
\<close>

definition ht_entry :: "'v hyper_table \<Rightarrow> nat \<Rightarrow> 'v bucket" where
  "ht_entry T i = ht_buckets T ! i"

definition ht_cap :: "'v hyper_table \<Rightarrow> nat" where
  "ht_cap T = unat (ht_capacity T)"

definition ht_pass :: "'v hyper_table \<Rightarrow> nat \<Rightarrow> nat \<Rightarrow> bool" where
  "ht_pass T j e \<longleftrightarrow>
     \<not> is_empty (b_key (ht_entry T j)) \<and>
     (is_valid (b_key (ht_entry T j)) \<longrightarrow> e \<le> hdist (ht_cap T) (unat (b_hash (ht_entry T j))) j)"

definition ht_hash_inv :: "'v hyper_table \<Rightarrow> bool" where
  "ht_hash_inv T \<longleftrightarrow>
     length (ht_buckets T) = ht_cap T \<and> (\<exists>k. 3 \<le> k \<and> k \<le> 31 \<and> ht_cap T = 2 ^ k) \<and>
     (\<forall>i < ht_cap T. is_valid (b_key (ht_entry T i)) \<longrightarrow>
        b_hash (ht_entry T i) = get_table_entry (ht_capacity T) (b_key (ht_entry T i)) \<and>
        (\<forall>e < hdist (ht_cap T) (unat (b_hash (ht_entry T i))) i.
           ht_pass T ((unat (b_hash (ht_entry T i)) + e) mod ht_cap T) e)) \<and>
     (\<forall>i < ht_cap T. \<forall>j < ht_cap T. is_valid (b_key (ht_entry T i)) \<longrightarrow>
        b_key (ht_entry T i) = b_key (ht_entry T j) \<longrightarrow> i = j)"

lemma get_table_entry_less:
  assumes "unat c = 2 ^ k" "k \<le> 31"
  shows "unat (get_table_entry c key) < unat c"
proof -
  have "c = of_nat (unat c)" by simp
  then have "c = 2 ^ k" unfolding assms(1) by simp
  then have "c - 1 = mask k" by (simp add: mask_eq_decr_exp)
  then have "get_table_entry c key = take_bit k (ht_hash key)"
    by (simp add: get_table_entry_def take_bit_eq_mask)
  then have "unat (get_table_entry c key) = take_bit k (unat (ht_hash key))"
    by (simp add: unsigned_take_bit_eq)
  also have "\<dots> < 2 ^ k" by simp
  finally show ?thesis using assms(1) by simp
qed

lemma ht_hash_invD:
  assumes "ht_hash_inv T"
  shows "length (ht_buckets T) = ht_cap T" "ht_cap T \<le> 2 ^ 31" "0 < ht_cap T"
    "unat (get_table_entry (ht_capacity T) key) < ht_cap T"
proof -
  obtain k where k: "3 \<le> k" "k \<le> 31" "ht_cap T = 2 ^ k" using assms by (auto simp: ht_hash_inv_def)
  show "length (ht_buckets T) = ht_cap T" using assms by (simp add: ht_hash_inv_def)
  show "ht_cap T \<le> 2 ^ 31" using k power_increasing [of k 31 "2 :: nat"] by simp
  show "0 < ht_cap T" using k by simp
  show "unat (get_table_entry (ht_capacity T) key) < ht_cap T"
    using get_table_entry_less [of "ht_capacity T" k] k by (simp add: ht_cap_def)
qed

lemma ht_hash_inv_entry:
  assumes "ht_hash_inv T" "i < ht_cap T" "is_valid (b_key (ht_entry T i))"
  shows "b_hash (ht_entry T i) = get_table_entry (ht_capacity T) (b_key (ht_entry T i))"
    "e < hdist (ht_cap T) (unat (b_hash (ht_entry T i))) i \<Longrightarrow>
       ht_pass T ((unat (b_hash (ht_entry T i)) + e) mod ht_cap T) e"
  using assms by (auto simp: ht_hash_inv_def)

text \<open>The answer of a find: the index of the key, when it is in the table.\<close>

definition ht_index :: "'v hyper_table \<Rightarrow> u64 \<Rightarrow> nat option" where
  "ht_index T key = List.find (\<lambda>i. b_key (ht_entry T i) = key) [0..<ht_cap T]"

lemma ht_index_Some:
  assumes "ht_hash_inv T" "is_valid key" "i < ht_cap T" "b_key (ht_entry T i) = key"
  shows "ht_index T key = Some i"
proof -
  obtain j where j: "ht_index T key = Some j"
    using assms(3,4) by (cases "ht_index T key") (auto simp: ht_index_def find_None_iff)
  then have "j < ht_cap T" "b_key (ht_entry T j) = key"
    by (auto simp: ht_index_def find_Some_iff)
  then have "i = j" using assms by (auto simp: ht_hash_inv_def)
  then show ?thesis using j by simp
qed

lemma ht_index_None:
  "(\<And>i. i < ht_cap T \<Longrightarrow> b_key (ht_entry T i) \<noteq> key) \<Longrightarrow> ht_index T key = None"
  by (auto simp: ht_index_def find_None_iff)

text \<open>
  The probe from the home of the key finds it, or reports that it is absent, and ends: the loop at
  distance \<open>d\<close>, where no earlier entry was the key and all of them let the probe pass.
\<close>

lemma find_hash_loop_ok:
  assumes inv: "ht_hash_inv T" and key: "is_valid key"
    and tgt: "tgt = get_table_entry (ht_capacity T) key"
  shows "d < ht_cap T \<Longrightarrow> unat i = (unat tgt + d) mod ht_cap T \<Longrightarrow>
    (\<forall>e < d. b_key (ht_entry T ((unat tgt + e) mod ht_cap T)) \<noteq> key) \<Longrightarrow>
    find_hash_loop tgt i key T = Some (ht_index T key)"
proof (induction "ht_cap T - d" arbitrary: d i rule: less_induct)
  case less
  let ?c = "ht_cap T"
  note I = ht_hash_invD [OF inv]
  have tc: "unat tgt < ?c" using I(4) tgt by simp
  have ic: "unat i < ?c" using less.prems(2) I(3) by simp
  let ?b = "ht_entry T (unat i)"
  have get: "arr_get (ht_buckets T) (unat i) = Some ?b" using ic I(1) by (simp add: ht_entry_def)
  have dist: "hdist ?c (unat tgt) (unat i) = d" using hdist_add [OF tc less.prems(1)] less.prems(2) by simp
  have step: "find_hash_loop tgt i key T =
     (if key = b_key ?b then Some (Some (unat i))
      else if is_empty (b_key ?b) then Some None
      else if is_tombstone (b_key ?b) \<or> continue_probe tgt (b_hash ?b) i then
        (if inc_index i (ht_capacity T) \<noteq> tgt
         then find_hash_loop tgt (inc_index i (ht_capacity T)) key T else Some None)
      else Some None)"
    using get by (subst find_hash_loop.simps) (simp add: Let_def)
  text \<open>An entry with the key further on is reached through entries that let the probe pass.\<close>
  have ahead: "d < dm \<and> ht_pass T (unat i) d"
    if m: "m < ?c" "b_key (ht_entry T m) = key" "b_key ?b \<noteq> key" "dm = hdist ?c (unat tgt) m" for m dm
  proof -
    have mt: "b_hash (ht_entry T m) = tgt" using ht_hash_inv_entry(1) [OF inv m(1)] key m(2) tgt by simp
    have md: "(unat tgt + dm) mod ?c = m" using add_hdist [OF tc m(1)] m(4) by simp
    have "\<not> dm < d" using less.prems(3) md m(2) by auto
    moreover have "dm \<noteq> d" using md m(2,3) less.prems(2) by auto
    ultimately have lt: "d < dm" by simp
    then have "ht_pass T ((unat tgt + d) mod ?c) d"
      using ht_hash_inv_entry(2) [OF inv m(1), of d] key m(2,4) mt by simp
    then show ?thesis using lt less.prems(2) by simp
  qed
  show ?case
  proof (cases "b_key ?b = key")
    case True
    then show ?thesis using step ht_index_Some [OF inv key ic True] by simp
  next
    case False
    show ?thesis
    proof (cases "ht_pass T (unat i) d")
      case nopass: False
      then have absent: "ht_index T key = None" using ahead False by (intro ht_index_None) blast
      show ?thesis
      proof (cases "is_empty (b_key ?b)")
        case True
        then show ?thesis using step absent False by simp
      next
        case ne: False
        then have v: "is_valid (b_key ?b)" and far: "\<not> d \<le> hdist ?c (unat (b_hash ?b)) (unat i)"
          using nopass by (auto simp: ht_pass_def)
        have hc: "unat (b_hash ?b) < ?c" using ht_hash_inv_entry(1) [OF inv ic v] I(4) by simp
        have "\<not> continue_probe tgt (b_hash ?b) i"
          using continue_probe_hdist [OF tc hc ic I(2)] far dist by simp
        then show ?thesis using step absent False ne v by (simp add: is_valid_def)
      qed
    next
      case pass: True
      then have ne: "\<not> is_empty (b_key ?b)" by (simp add: ht_pass_def)
      have go: "is_tombstone (b_key ?b) \<or> continue_probe tgt (b_hash ?b) i"
      proof (cases "is_valid (b_key ?b)")
        case True
        have hc: "unat (b_hash ?b) < ?c" using ht_hash_inv_entry(1) [OF inv ic True] I(4) by simp
        then show ?thesis
          using continue_probe_hdist [OF tc hc ic I(2)] pass True dist by (simp add: ht_pass_def)
      next
        case False
        then show ?thesis using ne by (simp add: is_valid_def)
      qed
      let ?i = "inc_index i (ht_capacity T)"
      have ui: "unat ?i = (unat tgt + Suc d) mod ?c"
        using unat_inc_index [of i "ht_capacity T"] ic less.prems(2) by (simp add: ht_cap_def mod_simps)
      have none: "b_key (ht_entry T ((unat tgt + e) mod ?c)) \<noteq> key" if "e < Suc d" for e
        using that less.prems(2,3) False by (cases "e = d") auto
      show ?thesis
      proof (cases "Suc d < ?c")
        case True
        have "?i \<noteq> tgt"
        proof
          assume "?i = tgt"
          then have "hdist ?c (unat tgt) ((unat tgt + Suc d) mod ?c) = 0" using ui by simp
          then show False using hdist_add [OF tc True] by simp
        qed
        moreover have "find_hash_loop tgt ?i key T = Some (ht_index T key)"
          using less.hyps [OF _ True ui] none True by auto
        ultimately show ?thesis using step False ne go by simp
      next
        case last: False
        then have "Suc d = ?c" using less.prems(1) by simp
        then have "?i = tgt" using ui tc by (simp add: word_unat_eq_iff)
        moreover have "ht_index T key = None"
        proof (rule ht_index_None)
          fix m assume m: "m < ?c"
          have "hdist ?c (unat tgt) m < Suc d" using hdist_less [OF tc m] \<open>Suc d = ?c\<close> by simp
          then show "b_key (ht_entry T m) \<noteq> key" using none add_hdist [OF tc m] by metis
        qed
        ultimately show ?thesis using step False ne go by simp
      qed
    qed
  qed
qed

lemma find_hash_ok:
  assumes "ht_hash_inv T" "is_valid key"
  shows "find_hash key T = Some (ht_index T key)"
  using find_hash_loop_ok [OF assms refl, of 0] ht_hash_invD(3,4) [OF assms(1)]
  by (simp add: find_hash_def Let_def)

end
