(* ===== verification/DisjointSet.thy ===== *)
theory DisjointSet
  imports RefCount
begin

text \<open>
  The disjoint-set forest of \<open>cilksan/disjointset.h\<close>: nodes with a tagged pointer that is either the
  parent or the bag of the set, union by rank, path compression with a work list, and reference
  counts that free a node, and then the chain of its parents, when nothing refers to it.  The heap
  maps addresses to nodes; 0 is \<open>nullptr\<close>.  The data of a node (the template parameter) is
  opaque: its destructor is not part of this theory.
\<close>

subsection \<open>The tagged pointer \<open>ParentOrBag_t\<close>\<close>

definition BAG_DATA_MASK :: u64 where "BAG_DATA_MASK = 3"
definition IS_BAG_MASK :: u64 where "IS_BAG_MASK = 1"
definition SBAG_DATA :: u64 where "SBAG_DATA = 1"
definition PBAG_DATA :: u64 where "PBAG_DATA = 3"

lemmas tag_defs = BAG_DATA_MASK_def IS_BAG_MASK_def SBAG_DATA_def PBAG_DATA_def

definition pob_set :: "u64 \<Rightarrow> u64 \<Rightarrow> u64" where
  "pob_set bag_data ptr = bag_data OR ptr"

definition pob_isBag :: "u64 \<Rightarrow> bool" where "pob_isBag p \<longleftrightarrow> p AND IS_BAG_MASK \<noteq> 0"
definition pob_isSBag :: "u64 \<Rightarrow> bool" where "pob_isSBag p \<longleftrightarrow> p AND BAG_DATA_MASK = SBAG_DATA"
definition pob_isPBag :: "u64 \<Rightarrow> bool" where "pob_isPBag p \<longleftrightarrow> p AND BAG_DATA_MASK = PBAG_DATA"
definition pob_isParent :: "u64 \<Rightarrow> bool" where "pob_isParent p \<longleftrightarrow> \<not> p AND IS_BAG_MASK \<noteq> 0"

definition pob_getParent :: "u64 \<Rightarrow> u64 option" where
  "pob_getParent p = (if p AND BAG_DATA_MASK = 0 then Some p else None)"

definition pob_getBag :: "u64 \<Rightarrow> u64" where "pob_getBag p = p AND NOT BAG_DATA_MASK"
definition pob_getSBag :: "u64 \<Rightarrow> u64" where "pob_getSBag p = p AND NOT BAG_DATA_MASK"
definition pob_getPBag :: "u64 \<Rightarrow> u64" where "pob_getPBag p = p AND NOT BAG_DATA_MASK"

definition pob_setParent :: "u64 \<Rightarrow> u64" where "pob_setParent a = pob_set 0 a"
definition pob_setSBag :: "u64 \<Rightarrow> u64" where "pob_setSBag a = pob_set SBAG_DATA a"
definition pob_setPBag :: "u64 \<Rightarrow> u64" where "pob_setPBag a = pob_set PBAG_DATA a"

lemmas pob_defs = pob_set_def pob_isBag_def pob_isSBag_def pob_isPBag_def pob_isParent_def
  pob_getParent_def pob_getBag_def pob_getSBag_def pob_getPBag_def pob_setParent_def
  pob_setSBag_def pob_setPBag_def tag_defs

text \<open>Pointers to nodes and bags are aligned, so their two low bits are free for the tag.\<close>

definition aligned4 :: "u64 \<Rightarrow> bool" where
  "aligned4 a \<longleftrightarrow> a AND 3 = 0"

lemma bit_3_iff: "bit (3 :: u64) n \<longleftrightarrow> n = 0 \<or> n = Suc 0"
proof -
  have "(3 :: u64) = mask 2" by (simp add: mask_eq_exp_minus_1)
  then show ?thesis by (simp only: bit_mask_iff) auto
qed

lemma aligned4_bit:
  assumes "aligned4 a"
  shows "bit a n \<Longrightarrow> n \<noteq> 0" "bit a n \<Longrightarrow> n \<noteq> Suc 0"
proof -
  have "\<not> bit (a AND 3) n" for n using assms by (simp add: aligned4_def)
  then have "\<not> (bit a n \<and> (n = 0 \<or> n = Suc 0))"
    by (simp only: bit_and_iff bit_3_iff not_False_eq_True)
  then show "bit a n \<Longrightarrow> n \<noteq> 0" "bit a n \<Longrightarrow> n \<noteq> Suc 0" by simp_all
qed

lemma aligned4_or:
  assumes "aligned4 a"
  shows "(t OR a) AND 3 = t AND 3" "(t OR a) AND 1 = t AND 1"
    "t AND NOT 3 = 0 \<Longrightarrow> (t OR a) AND NOT 3 = a"
proof -
  note bit = aligned4_bit [OF assms]
  show "(t OR a) AND 3 = t AND 3"
    by (rule bit_word_eqI) (simp only: bit_and_iff bit_or_iff bit_3_iff, blast dest: bit)
  show "(t OR a) AND 1 = t AND 1"
    by (rule bit_word_eqI) (simp only: bit_and_iff bit_or_iff bit_1_iff, blast dest: bit)
  assume t: "t AND NOT 3 = 0"
  have "\<not> bit t n" if "n < 64" "n \<noteq> 0" "n \<noteq> Suc 0" for n
  proof -
    have "\<not> bit (t AND NOT 3) n" unfolding t by simp
    then show ?thesis using that by (simp only: bit_and_iff bit_not_iff bit_3_iff) simp
  qed
  then show "(t OR a) AND NOT 3 = a"
    by (intro bit_word_eqI)
       (simp only: bit_and_iff bit_or_iff bit_not_iff bit_3_iff, auto dest: bit)
qed

lemma pob_setParent_roundtrip:
  assumes "aligned4 a"
  shows "pob_isParent (pob_setParent a)" "\<not> pob_isBag (pob_setParent a)"
    "pob_getParent (pob_setParent a) = Some a"
  using aligned4_or [OF assms, of 0] assms by (simp_all add: pob_defs aligned4_def)

lemma pob_setSBag_roundtrip:
  assumes "aligned4 a"
  shows "pob_isBag (pob_setSBag a)" "pob_isSBag (pob_setSBag a)" "\<not> pob_isPBag (pob_setSBag a)"
    "pob_getBag (pob_setSBag a) = a" "pob_getSBag (pob_setSBag a) = a"
  using aligned4_or [OF assms, of 1] by (simp_all add: pob_defs)

lemma pob_setPBag_roundtrip:
  assumes "aligned4 a"
  shows "pob_isBag (pob_setPBag a)" "pob_isPBag (pob_setPBag a)" "\<not> pob_isSBag (pob_setPBag a)"
    "pob_getBag (pob_setPBag a) = a" "pob_getPBag (pob_setPBag a) = a"
  using aligned4_or [OF assms, of 3] by (simp_all add: pob_defs)

subsection \<open>The work list \<open>List_t\<close>\<close>

record DSList_t =
  dsl_length :: nat
  dsl_list :: "u64 list"
  dsl_capacity :: nat

definition DSList_new :: DSList_t where
  "DSList_new = \<lparr>dsl_length = 0, dsl_list = replicate 128 0, dsl_capacity = 128\<rparr>"

definition DSList_unlock :: "DSList_t \<Rightarrow> DSList_t" where
  "DSList_unlock L = L\<lparr>dsl_length := 0\<rparr>"

definition DSList_push :: "u64 \<Rightarrow> DSList_t \<Rightarrow> DSList_t option" where
  "DSList_push obj L =
     (let L = (if dsl_length L = dsl_capacity L
               then L\<lparr>dsl_capacity := dsl_capacity L * 2,
                      dsl_list := dsl_list L @ replicate (dsl_capacity L) 0\<rparr>
               else L)
      in case arr_set (dsl_list L) (dsl_length L) obj of
           None \<Rightarrow> None
         | Some xs \<Rightarrow> Some (L\<lparr>dsl_list := xs, dsl_length := dsl_length L + 1\<rparr>))"

definition DSList_elems :: "DSList_t \<Rightarrow> u64 list" where
  "DSList_elems L = take (dsl_length L) (dsl_list L)"

definition DSList_wf :: "DSList_t \<Rightarrow> bool" where
  "DSList_wf L \<longleftrightarrow>
     dsl_length L \<le> dsl_capacity L \<and> length (dsl_list L) = dsl_capacity L \<and> 0 < dsl_capacity L"

lemma DSList_wf_new: "DSList_wf DSList_new" "DSList_elems DSList_new = []"
  by (simp_all add: DSList_wf_def DSList_new_def DSList_elems_def)

lemma DSList_unlock_wf:
  "DSList_wf L \<Longrightarrow> DSList_wf (DSList_unlock L) \<and> DSList_elems (DSList_unlock L) = []"
  by (simp add: DSList_wf_def DSList_unlock_def DSList_elems_def)

lemma DSList_push_elems:
  assumes "DSList_wf L"
  shows "\<exists>L'. DSList_push x L = Some L' \<and> DSList_wf L' \<and> DSList_elems L' = DSList_elems L @ [x]"
  using assms
  by (auto simp: DSList_push_def DSList_wf_def DSList_elems_def Let_def take_list_update_last)

subsection \<open>Nodes\<close>

record 'd DisjointSet_t =
  ds_parent_or_bag :: u64
  ds_data :: 'd
  ds_rank :: u64
  ds_ref_count :: int

type_synonym 'd ds_heap = "u64 \<rightharpoonup> 'd DisjointSet_t"

definition ds_isRoot :: "'d DisjointSet_t \<Rightarrow> bool" where
  "ds_isRoot n = pob_isBag (ds_parent_or_bag n)"

text \<open>
  \<open>dec_ref_count\<close> and the destructor it runs when the count reaches 0: the node ceases to exist, and
  its reference to the parent is released.  The assertion that the count suffices is a guard.
\<close>

function ds_dec_ref_count :: "u64 \<Rightarrow> int \<Rightarrow> 'd ds_heap \<Rightarrow> 'd ds_heap option" where
  "ds_dec_ref_count a count h =
     (case h a of
        None \<Rightarrow> None
      | Some n \<Rightarrow>
          if \<not> count \<le> ds_ref_count n then None
          else
            let n = n\<lparr>ds_ref_count := ds_ref_count n - count\<rparr>
            in if ds_ref_count n = 0
               then let h = h(a := None)
                    in if ds_isRoot n then Some h
                       else (case pob_getParent (ds_parent_or_bag n) of
                               None \<Rightarrow> None
                             | Some p \<Rightarrow> ds_dec_ref_count p 1 h)
               else Some (h(a \<mapsto> n)))"
  by pat_completeness auto

termination
proof (relation "measure (\<lambda>(a, count, h). card (dom h))", goal_cases)
  case 1
  then show ?case by simp
next
  case (2 a count h n n' h' p)
  then have "dom h' \<subset> dom h" by auto
  then show ?case by (simp add: psubset_card_mono)
qed

declare ds_dec_ref_count.simps [simp del]

definition ds_inc_ref_count :: "u64 \<Rightarrow> int \<Rightarrow> 'd ds_heap \<Rightarrow> 'd ds_heap option" where
  "ds_inc_ref_count a count h =
     (case h a of
        None \<Rightarrow> None
      | Some n \<Rightarrow> Some (h(a \<mapsto> n\<lparr>ds_ref_count := ds_ref_count n + count\<rparr>)))"

text \<open>A new node with the pointer to its bag; \<open>new\<close> returned the address \<open>a\<close>.\<close>

definition ds_new :: "u64 \<Rightarrow> u64 \<Rightarrow> 'd \<Rightarrow> 'd ds_heap \<Rightarrow> 'd ds_heap option" where
  "ds_new a pob data h =
     (if h a \<noteq> None \<or> a = 0 \<or> \<not> aligned4 a then None
      else Some (h(a \<mapsto> \<lparr>ds_parent_or_bag = pob, ds_data = data, ds_rank = 0, ds_ref_count = 0\<rparr>)))"

definition ds_set_pob :: "u64 \<Rightarrow> u64 \<Rightarrow> 'd ds_heap \<Rightarrow> 'd ds_heap option" where
  "ds_set_pob a pob h =
     (case h a of None \<Rightarrow> None | Some n \<Rightarrow> Some (h(a \<mapsto> n\<lparr>ds_parent_or_bag := pob\<rparr>)))"

definition ds_set_sbag :: "u64 \<Rightarrow> u64 \<Rightarrow> 'd ds_heap \<Rightarrow> 'd ds_heap option" where
  "ds_set_sbag a bag h = ds_set_pob a (pob_setSBag bag) h"

definition ds_set_pbag :: "u64 \<Rightarrow> u64 \<Rightarrow> 'd ds_heap \<Rightarrow> 'd ds_heap option" where
  "ds_set_pbag a bag h = ds_set_pob a (pob_setPBag bag) h"

definition internal_set_parent :: "u64 \<Rightarrow> u64 \<Rightarrow> 'd ds_heap \<Rightarrow> 'd ds_heap option" where
  "internal_set_parent this that h =
     (case h this of
        None \<Rightarrow> None
      | Some n \<Rightarrow>
          let old_parent = ds_parent_or_bag n;
              h = h(this \<mapsto> n\<lparr>ds_parent_or_bag := pob_setParent that\<rparr>)
          in case ds_inc_ref_count that 1 h of
               None \<Rightarrow> None
             | Some h \<Rightarrow>
                 (case pob_getParent old_parent of
                    None \<Rightarrow> None
                  | Some old_djs \<Rightarrow> ds_dec_ref_count old_djs 1 h))"

definition root_set_parent :: "u64 \<Rightarrow> u64 \<Rightarrow> 'd ds_heap \<Rightarrow> 'd ds_heap option" where
  "root_set_parent this that h =
     (case h this of
        None \<Rightarrow> None
      | Some n \<Rightarrow>
          if pob_isParent (ds_parent_or_bag n) then None
          else ds_inc_ref_count that 1 (h(this \<mapsto> n\<lparr>ds_parent_or_bag := pob_setParent that\<rparr>)))"

definition ds_link :: "u64 \<Rightarrow> u64 \<Rightarrow> 'd ds_heap \<Rightarrow> (u64 \<times> 'd ds_heap) option" where
  "ds_link this that h =
     (case (h this, h that) of
        (Some m, Some n) \<Rightarrow>
          if ds_rank m > ds_rank n then map_option (Pair this) (root_set_parent that this h)
          else
            (case root_set_parent this that h of
               None \<Rightarrow> None
             | Some h \<Rightarrow>
                 if ds_rank m = ds_rank n
                 then (case h that of
                         None \<Rightarrow> None
                       | Some n \<Rightarrow> Some (that, h(that \<mapsto> n\<lparr>ds_rank := ds_rank n + 1\<rparr>)))
                 else Some (that, h))
      | _ \<Rightarrow> None)"

subsection \<open>Finding the representative\<close>

text \<open>The loop that climbs to the root and saves every node whose parent is not the root.\<close>

partial_function (option) find_set_climb ::
  "u64 \<Rightarrow> 'd ds_heap \<Rightarrow> DSList_t \<Rightarrow> (u64 \<times> DSList_t) option" where
  "find_set_climb node h L =
     (case h node of
        None \<Rightarrow> None
      | Some n \<Rightarrow>
          if \<not> pob_isParent (ds_parent_or_bag n) then Some (node, L)
          else case pob_getParent (ds_parent_or_bag n) of
            None \<Rightarrow> None
          | Some node' \<Rightarrow>
              (case h node' of
                 None \<Rightarrow> None
               | Some n' \<Rightarrow>
                   if pob_isParent (ds_parent_or_bag n')
                   then (case DSList_push node L of
                           None \<Rightarrow> None
                         | Some L \<Rightarrow> find_set_climb node' h L)
                   else find_set_climb node' h L))"

text \<open>The loop that compresses the path, from the last saved node to the first: the indices below
  \<open>i\<close> remain.\<close>

primrec find_set_compress :: "nat \<Rightarrow> u64 \<Rightarrow> DSList_t \<Rightarrow> 'd ds_heap \<Rightarrow> 'd ds_heap option" where
  "find_set_compress 0 root L h = Some h"
| "find_set_compress (Suc i) root L h =
     (case arr_get (dsl_list L) i of
        None \<Rightarrow> None
      | Some p \<Rightarrow>
          (case internal_set_parent p root h of
             None \<Rightarrow> None
           | Some h \<Rightarrow> find_set_compress i root L h))"

definition find_set :: "u64 \<Rightarrow> 'd ds_heap \<Rightarrow> DSList_t \<Rightarrow> (u64 \<times> 'd ds_heap \<times> DSList_t) option" where
  "find_set this h L =
     (case h this of
        None \<Rightarrow> None
      | Some n \<Rightarrow>
          if ds_isRoot n then Some (this, h, L)
          else case pob_getParent (ds_parent_or_bag n) of
            None \<Rightarrow> None
          | Some parent \<Rightarrow>
              (case h parent of
                 None \<Rightarrow> None
               | Some m \<Rightarrow>
                   if ds_isRoot m then Some (parent, h, L)
                   else
                     (case find_set_climb this h L of
                        None \<Rightarrow> None
                      | Some (node, L) \<Rightarrow>
                          (case find_set_compress (dsl_length L) node L h of
                             None \<Rightarrow> None
                           | Some h \<Rightarrow> Some (node, h, DSList_unlock L)))))"

definition ds_root_pob :: "u64 \<Rightarrow> 'd ds_heap \<Rightarrow> DSList_t \<Rightarrow> (u64 \<times> 'd ds_heap \<times> DSList_t) option" where
  "ds_root_pob this h L =
     (case find_set this h L of
        None \<Rightarrow> None
      | Some (r, h, L) \<Rightarrow> map_option (\<lambda>n. (ds_parent_or_bag n, h, L)) (h r))"

definition ds_get_bag :: "u64 \<Rightarrow> 'd ds_heap \<Rightarrow> DSList_t \<Rightarrow> (u64 \<times> 'd ds_heap \<times> DSList_t) option" where
  "ds_get_bag this h L = map_option (\<lambda>(p, r). (pob_getBag p, r)) (ds_root_pob this h L)"

definition ds_is_sbag :: "u64 \<Rightarrow> 'd ds_heap \<Rightarrow> DSList_t \<Rightarrow> (bool \<times> 'd ds_heap \<times> DSList_t) option" where
  "ds_is_sbag this h L = map_option (\<lambda>(p, r). (pob_isSBag p, r)) (ds_root_pob this h L)"

definition ds_is_pbag :: "u64 \<Rightarrow> 'd ds_heap \<Rightarrow> DSList_t \<Rightarrow> (bool \<times> 'd ds_heap \<times> DSList_t) option" where
  "ds_is_pbag this h L = map_option (\<lambda>(p, r). (pob_isPBag p, r)) (ds_root_pob this h L)"

definition ds_get_sbag_or_null ::
  "u64 \<Rightarrow> 'd ds_heap \<Rightarrow> DSList_t \<Rightarrow> (u64 \<times> 'd ds_heap \<times> DSList_t) option" where
  "ds_get_sbag_or_null this h L =
     map_option (\<lambda>(p, r). (if pob_isSBag p then pob_getSBag p else 0, r)) (ds_root_pob this h L)"

definition ds_get_data :: "u64 \<Rightarrow> 'd ds_heap \<Rightarrow> 'd option" where
  "ds_get_data this h = map_option ds_data (h this)"

definition ds_combine ::
  "u64 \<Rightarrow> u64 \<Rightarrow> 'd ds_heap \<Rightarrow> DSList_t \<Rightarrow> (u64 \<times> 'd ds_heap \<times> DSList_t) option" where
  "ds_combine this that h L =
     (case find_set this h L of
        None \<Rightarrow> None
      | Some (r1, h, L) \<Rightarrow>
          (case find_set that h L of
             None \<Rightarrow> None
           | Some (r2, h, L) \<Rightarrow>
               if r1 = r2 then None
               else map_option (\<lambda>(r, h). (r, h, L)) (ds_link r1 r2 h)))"

subsection \<open>The invariant of the forest\<close>

definition ds_par :: "'d DisjointSet_t \<Rightarrow> u64 option" where
  "ds_par n = (if ds_isRoot n then None else Some (ds_parent_or_bag n))"

definition ds_set_rc :: "int \<Rightarrow> 'd DisjointSet_t \<Rightarrow> 'd DisjointSet_t" where
  "ds_set_rc k n = n\<lparr>ds_ref_count := k\<rparr>"

lemma isParent_isBag [simp]: "pob_isParent p \<longleftrightarrow> \<not> pob_isBag p"
  by (simp add: pob_isParent_def pob_isBag_def)

lemma ds_isRoot_par: "ds_isRoot n \<longleftrightarrow> ds_par n = None"
  by (simp add: ds_par_def)

lemma ds_par_upd [simp]:
  "ds_par (n\<lparr>ds_ref_count := k\<rparr>) = ds_par n" "ds_par (n\<lparr>ds_rank := x\<rparr>) = ds_par n"
  by (simp_all add: ds_par_def ds_isRoot_def)

lemma ds_par_SomeD: "ds_par n = Some p \<Longrightarrow> ds_parent_or_bag n = p \<and> \<not> pob_isBag (ds_parent_or_bag n)"
  by (simp add: ds_par_def ds_isRoot_def split: if_splits)

interpretation djs: refcounted ds_par ds_ref_count ds_set_rc
  by unfold_locales (simp_all add: ds_set_rc_def)

text \<open>
  \<open>ds_inv h ext\<close>: the counts are right for the outside references \<open>ext\<close>; every node is aligned and
  referenced, and its rank is less than its parent's.
\<close>

definition ds_inv :: "'d ds_heap \<Rightarrow> (u64 \<Rightarrow> nat) \<Rightarrow> bool" where
  "ds_inv h ext \<longleftrightarrow>
     rc_inv ds_par ds_ref_count h ext \<and>
     (\<forall>a n. h a = Some n \<longrightarrow> a \<noteq> 0 \<and> aligned4 a \<and> 0 < ds_ref_count n \<and>
        (\<forall>p m. ds_par n = Some p \<longrightarrow> h p = Some m \<longrightarrow> ds_rank n < ds_rank m))"

lemma ds_invD: "ds_inv h ext \<Longrightarrow> rc_inv ds_par ds_ref_count h ext"
  by (simp add: ds_inv_def)

lemma ds_inv_node:
  assumes "ds_inv h ext" "h a = Some n"
  shows "a \<noteq> 0" "aligned4 a" "0 < ds_ref_count n"
  using assms by (simp_all add: ds_inv_def)

lemma ds_inv_rank: "ds_inv h ext \<Longrightarrow> h a = Some n \<Longrightarrow> ds_par n = Some p \<Longrightarrow> h p = Some m \<Longrightarrow> ds_rank n < ds_rank m"
  by (simp add: ds_inv_def)

lemma ds_inv_par:
  assumes "ds_inv h ext" "h a = Some n" "ds_par n = Some p"
  shows "\<exists>m. h p = Some m" "pob_getParent (ds_parent_or_bag n) = Some p"
proof -
  obtain m where m: "h p = Some m" using djs.inv_par_live [OF ds_invD [OF assms(1)] assms(2,3)] by blast
  then show "\<exists>m. h p = Some m" by blast
  have "aligned4 p" using ds_inv_node [OF assms(1) m] by simp
  then show "pob_getParent (ds_parent_or_bag n) = Some p"
    using ds_par_SomeD [OF assms(3)] by (simp add: pob_getParent_def aligned4_def BAG_DATA_MASK_def)
qed

lemma ds_inv_ext_live: "ds_inv h ext \<Longrightarrow> 0 < ext a \<Longrightarrow> \<exists>n. h a = Some n"
  using djs.inv_ext_live ds_invD by blast

text \<open>\<open>ds_rep h a r\<close>: \<open>r\<close> is the root above \<open>a\<close>.\<close>

inductive ds_rep :: "'d ds_heap \<Rightarrow> u64 \<Rightarrow> u64 \<Rightarrow> bool" for h where
  root: "h a = Some n \<Longrightarrow> ds_par n = None \<Longrightarrow> ds_rep h a a"
| step: "h a = Some n \<Longrightarrow> ds_par n = Some p \<Longrightarrow> ds_rep h p r \<Longrightarrow> ds_rep h a r"

inductive_cases ds_repE: "ds_rep h a r"

lemma ds_rep_root: "ds_rep h a r \<Longrightarrow> \<exists>n. h r = Some n \<and> ds_par n = None"
  by (induction rule: ds_rep.induct) auto

lemma ds_rep_fun: "ds_rep h a r \<Longrightarrow> ds_rep h a s \<Longrightarrow> r = s"
proof (induction arbitrary: s rule: ds_rep.induct)
  case (root a n)
  then show ?case by (auto elim: ds_repE)
next
  case (step a n p r)
  from step.prems step.hyps have "ds_rep h p s" by (auto elim: ds_repE)
  then show ?case by (rule step.IH)
qed

lemma ds_rep_live: "ds_rep h a r \<Longrightarrow> \<exists>n. h a = Some n"
  by (auto elim: ds_repE)

lemma ds_rep_step_iff: "h a = Some n \<Longrightarrow> ds_par n = Some p \<Longrightarrow> ds_rep h a r \<longleftrightarrow> ds_rep h p r"
  by (auto elim: ds_repE intro: ds_rep.intros)

lemma ds_rep_ex:
  assumes "ds_inv h ext"
  shows "h a = Some n \<Longrightarrow> \<exists>r. ds_rep h a r"
proof (induction "2 ^ 64 - unat (ds_rank n)" arbitrary: a n rule: less_induct)
  case less
  show ?case
  proof (cases "ds_par n")
    case None
    then show ?thesis using less.prems ds_rep.root by blast
  next
    case (Some p)
    obtain m where m: "h p = Some m" using ds_inv_par [OF assms less.prems Some] by blast
    have "ds_rank n < ds_rank m" using ds_inv_rank [OF assms less.prems Some m] .
    then have "unat (ds_rank n) < unat (ds_rank m)" by (simp add: word_less_nat_alt)
    moreover have "unat (ds_rank m) < 2 ^ 64" using unsigned_less [of "ds_rank m"] by simp
    ultimately have "2 ^ 64 - unat (ds_rank m) < 2 ^ 64 - unat (ds_rank n)" by linarith
    from less.hyps [OF this m] obtain r where "ds_rep h p r" by blast
    then show ?thesis using ds_rep.step [of h a n p r] less.prems Some by blast
  qed
qed

lemma ds_rep_rank:
  assumes "ds_inv h ext"
  shows "ds_rep h a r \<Longrightarrow> h a = Some n \<Longrightarrow> h r = Some m \<Longrightarrow> a \<noteq> r \<Longrightarrow> ds_rank n < ds_rank m"
proof (induction arbitrary: n rule: ds_rep.induct)
  case (root a n')
  then show ?case by simp
next
  case (step a n' p r)
  obtain k where k: "h p = Some k" using ds_rep_live [OF step.hyps(3)] by blast
  have "ds_rank n < ds_rank k" using ds_inv_rank [OF assms step.prems(1)] step k by simp
  then show ?case using step.IH [OF k step.prems(2)] k step.prems by (cases "p = r") auto
qed

text \<open>
  \<open>ds_refines h h'\<close>: each node of \<open>h'\<close> is a node of \<open>h\<close>, at most moved under its own representative,
  with other counts.  Such a change keeps every representative, and every root keeps its bag.
\<close>

definition ds_refines :: "'d ds_heap \<Rightarrow> 'd ds_heap \<Rightarrow> bool" where
  "ds_refines h h' \<longleftrightarrow>
     (\<forall>b n'. h' b = Some n' \<longrightarrow>
        (\<exists>n. h b = Some n \<and> ds_data n' = ds_data n \<and> ds_rank n' = ds_rank n \<and>
           (ds_parent_or_bag n' = ds_parent_or_bag n \<or>
            (\<exists>r. ds_par n \<noteq> None \<and> ds_rep h b r \<and> ds_par n' = Some r))))"

lemma ds_refines_refl [simp]: "ds_refines h h"
  by (simp add: ds_refines_def)

lemma ds_par_pob: "ds_parent_or_bag n' = ds_parent_or_bag n \<Longrightarrow> ds_par n' = ds_par n"
  by (simp add: ds_par_def ds_isRoot_def)

lemma ds_refinesD:
  assumes "ds_refines h h'" "h' b = Some n'"
  obtains n where "h b = Some n" "ds_data n' = ds_data n" "ds_rank n' = ds_rank n"
    "ds_par n' = None \<longleftrightarrow> ds_par n = None"
    "ds_parent_or_bag n' = ds_parent_or_bag n \<or>
      (\<exists>r. ds_par n \<noteq> None \<and> ds_rep h b r \<and> ds_par n' = Some r)"
  using assms unfolding ds_refines_def by (metis ds_par_pob option.distinct(1))

lemma ds_rep_refines:
  assumes inv: "rc_inv ds_par ds_ref_count h' ext" and ref: "ds_refines h h'"
  shows "ds_rep h b s \<Longrightarrow> h' b \<noteq> None \<Longrightarrow> ds_rep h' b s"
proof (induction rule: ds_rep.induct)
  case (root a n)
  then obtain n' where n': "h' a = Some n'" by blast
  from ds_refinesD [OF ref this] root have "ds_par n' = None" by (metis option.inject)
  then show ?case using n' ds_rep.root by blast
next
  case (step a n p s)
  then obtain n' where n': "h' a = Some n'" by blast
  from ds_refinesD [OF ref this] step.hyps(1)
  consider "ds_parent_or_bag n' = ds_parent_or_bag n" | r where "ds_rep h a r" "ds_par n' = Some r"
    by (metis option.inject)
  then show ?case
  proof cases
    case 1
    then have par: "ds_par n' = Some p" using step.hyps(2) ds_par_pob by metis
    then have "h' p \<noteq> None" using djs.inv_par_live [OF inv n'] by blast
    then have "ds_rep h' p s" by (rule step.IH)
    then show ?thesis using n' par by (blast intro: ds_rep.step)
  next
    case 2
    have "ds_rep h a s" using step.hyps by (blast intro: ds_rep.step)
    then have rs: "r = s" using ds_rep_fun 2(1) by blast
    obtain m where m: "h s = Some m" "ds_par m = None"
      using ds_rep_root [OF step.hyps(3)] by blast
    obtain m' where m': "h' s = Some m'"
      using djs.inv_par_live [OF inv n' 2(2)] rs by blast
    from ds_refinesD [OF ref m'] m have "ds_par m' = None" by (metis option.inject)
    then have "ds_rep h' s s" using m' ds_rep.root by blast
    then show ?thesis using n' 2(2) rs by (blast intro: ds_rep.step)
  qed
qed

lemma ds_refines_trans:
  assumes "ds_inv h ext" "ds_inv h' ext'" "ds_refines h h'" "ds_refines h' h''"
  shows "ds_refines h h''"
  unfolding ds_refines_def
proof (intro allI impI)
  fix b n'' assume n'': "h'' b = Some n''"
  obtain n' where n': "h' b = Some n'" "ds_data n'' = ds_data n'" "ds_rank n'' = ds_rank n'"
    "ds_parent_or_bag n'' = ds_parent_or_bag n' \<or>
      (\<exists>r. ds_par n' \<noteq> None \<and> ds_rep h' b r \<and> ds_par n'' = Some r)"
    using ds_refinesD [OF assms(4) n''] by metis
  obtain n where n: "h b = Some n" "ds_data n' = ds_data n" "ds_rank n' = ds_rank n"
    "ds_par n' = None \<longleftrightarrow> ds_par n = None"
    "ds_parent_or_bag n' = ds_parent_or_bag n \<or>
      (\<exists>r. ds_par n \<noteq> None \<and> ds_rep h b r \<and> ds_par n' = Some r)"
    using ds_refinesD [OF assms(3) n'(1)] by metis
  have rep: "ds_rep h b r" if "ds_rep h' b r" for r
  proof -
    obtain s where s: "ds_rep h b s" using ds_rep_ex [OF assms(1) n(1)] by blast
    then have "ds_rep h' b s"
      using ds_rep_refines [OF ds_invD [OF assms(2)] assms(3)] n'(1) by blast
    then show ?thesis using ds_rep_fun [OF that] s by blast
  qed
  have "ds_parent_or_bag n'' = ds_parent_or_bag n \<or>
      (\<exists>r. ds_par n \<noteq> None \<and> ds_rep h b r \<and> ds_par n'' = Some r)"
    using n'(4) n(4,5) rep ds_par_pob [of n'' n'] by metis
  then show "\<exists>n. h b = Some n \<and> ds_data n'' = ds_data n \<and> ds_rank n'' = ds_rank n \<and>
      (ds_parent_or_bag n'' = ds_parent_or_bag n \<or>
       (\<exists>r. ds_par n \<noteq> None \<and> ds_rep h b r \<and> ds_par n'' = Some r))"
    using n n' by auto
qed

subsection \<open>Reference counts\<close>

text \<open>\<open>ds_sub h h'\<close>: the nodes of \<open>h'\<close> are nodes of \<open>h\<close>, with other counts.\<close>

definition ds_sub :: "'d ds_heap \<Rightarrow> 'd ds_heap \<Rightarrow> bool" where
  "ds_sub h h' \<longleftrightarrow>
     (\<forall>b n'. h' b = Some n' \<longrightarrow> (\<exists>n. h b = Some n \<and> n' = n\<lparr>ds_ref_count := ds_ref_count n'\<rparr>))"

lemma ds_subE:
  assumes "ds_sub h h'" "h' b = Some n'"
  obtains n k where "h b = Some n" "n' = n\<lparr>ds_ref_count := k\<rparr>"
  using assms unfolding ds_sub_def by metis

lemma ds_sub_refines: "ds_sub h h' \<Longrightarrow> ds_refines h h'"
  unfolding ds_refines_def by (auto elim!: ds_subE)

lemma ds_sub_trans:
  assumes "ds_sub h h'" "ds_sub h' h''"
  shows "ds_sub h h''"
  unfolding ds_sub_def
proof (intro allI impI)
  fix b n'' assume "h'' b = Some n''"
  then obtain n' k where n': "h' b = Some n'" "n'' = n'\<lparr>ds_ref_count := k\<rparr>"
    using ds_subE [OF assms(2)] by blast
  moreover obtain n j where "h b = Some n" "n' = n\<lparr>ds_ref_count := j\<rparr>"
    using ds_subE [OF assms(1) n'(1)] by blast
  ultimately show "\<exists>n. h b = Some n \<and> n'' = n\<lparr>ds_ref_count := ds_ref_count n''\<rparr>" by simp
qed

lemma ds_inv_sub:
  assumes "ds_inv h ext" "ds_sub h h'" "rc_inv ds_par ds_ref_count h' ext'"
    and pos: "\<And>b n. h' b = Some n \<Longrightarrow> 0 < ds_ref_count n"
  shows "ds_inv h' ext'"
  unfolding ds_inv_def
proof (intro conjI allI impI)
  fix a n assume a: "h' a = Some n"
  then obtain n0 k where n0: "h a = Some n0" "n = n0\<lparr>ds_ref_count := k\<rparr>"
    using ds_subE [OF assms(2)] by blast
  show "a \<noteq> 0" "aligned4 a" using ds_inv_node [OF assms(1) n0(1)] by simp_all
  show "0 < ds_ref_count n" using pos [OF a] .
  fix p m assume p: "ds_par n = Some p" "h' p = Some m"
  then obtain m0 j where m0: "h p = Some m0" "m = m0\<lparr>ds_ref_count := j\<rparr>"
    using ds_subE [OF assms(2)] by blast
  show "ds_rank n < ds_rank m" using ds_inv_rank [OF assms(1) n0(1) _ m0(1)] n0 m0 p by simp
qed (rule assms(3))

lemma ds_inc_ref_count_ok:
  assumes inv: "ds_inv h ext" and a: "h a = Some n"
  shows "\<exists>h'. ds_inc_ref_count a 1 h = Some h' \<and> ds_inv h' (ext_inc (Some a) ext) \<and> ds_sub h h' \<and>
    ds_sub h' h \<and> dom h' = dom h"
proof -
  let ?h = "h(a \<mapsto> n\<lparr>ds_ref_count := ds_ref_count n + 1\<rparr>)"
  have sub: "ds_sub h ?h" "ds_sub ?h h" using a by (auto simp: ds_sub_def)
  have "0 < ds_ref_count m" if "?h b = Some m" for b m
    using that ds_inv_node(3) [OF inv, of b] ds_inv_node(3) [OF inv a] by (cases "b = a") auto
  then have "ds_inv ?h (ext_inc (Some a) ext)"
    using ds_inv_sub [OF inv sub(1)] djs.inv_inc [OF ds_invD [OF inv] a] by (simp add: ds_set_rc_def)
  then show ?thesis using sub a by (auto simp: ds_inc_ref_count_def)
qed

text \<open>
  Releasing a reference held from outside never touches freed memory: it frees the nodes that
  nothing refers to any more, and keeps the rest.
\<close>

lemma ds_dec_ref_count_ok:
  "count = 1 \<Longrightarrow> ds_inv h ext \<Longrightarrow> 0 < ext a \<Longrightarrow>
    \<exists>h'. ds_dec_ref_count a count h = Some h' \<and> ds_inv h' (ext_dec (Some a) ext) \<and> ds_sub h h'"
proof (induction a count h arbitrary: ext rule: ds_dec_ref_count.induct)
  case (1 a count h)
  note inv = 1(3)
  obtain n where n: "h a = Some n" using ds_inv_ext_live [OF inv 1(4)] by blast
  have npos: "0 < ds_ref_count n" using ds_inv_node [OF inv n] by simp
  let ?n = "n\<lparr>ds_ref_count := ds_ref_count n - 1\<rparr>"
  let ?h = "h(a \<mapsto> ?n)"
  have rc: "rc_inv ds_par ds_ref_count ?h (ext_dec (Some a) ext)"
    using djs.inv_dec [OF ds_invD [OF inv] n 1(4)] by (simp add: ds_set_rc_def)
  have others: "0 < ds_ref_count m" if "h b = Some m" for b m using ds_inv_node [OF inv that] by simp
  show ?case
  proof (cases "ds_ref_count n = 1")
    case False
    have "ds_inv ?h (ext_dec (Some a) ext)"
      using False npos others
      by (intro ds_inv_sub [OF inv _ rc]) (auto simp: ds_sub_def n split: if_splits)
    moreover have "ds_dec_ref_count a count h = Some ?h"
      using False npos n 1(2) by (simp add: ds_dec_ref_count.simps [of a] Let_def)
    moreover have "ds_sub h ?h" using n by (auto simp: ds_sub_def)
    ultimately show ?thesis by blast
  next
    case True
    let ?h' = "h(a := None)"
    have sub: "ds_sub h ?h'" by (auto simp: ds_sub_def)
    have zero: "ds_ref_count ?n = 0" using True by simp
    have pos: "0 < ds_ref_count m" if "?h' b = Some m" for b m
      using that others by (auto split: if_splits)
    show ?thesis
    proof (cases "ds_par n")
      case None
      have "rc_inv ds_par ds_ref_count ?h' (ext_dec (Some a) ext)"
        using djs.inv_remove [OF rc, of a ?n] None zero by simp
      then have "ds_inv ?h' (ext_dec (Some a) ext)"
        by (rule ds_inv_sub [OF inv sub]) (rule pos)
      moreover have "ds_dec_ref_count a count h = Some ?h'"
        using True n None 1(2) by (simp add: ds_dec_ref_count.simps [of a] Let_def ds_isRoot_def
            flip: ds_isRoot_par)
      ultimately show ?thesis using sub by blast
    next
      case (Some p)
      have gp: "pob_getParent (ds_parent_or_bag n) = Some p" and "\<not> ds_isRoot n"
        using ds_inv_par [OF inv n Some] Some by (simp_all add: ds_isRoot_par)
      let ?m = "?n\<lparr>ds_parent_or_bag := 1\<rparr>"
      have mp: "ds_par ?m = None"
        by (simp add: ds_par_def ds_isRoot_def pob_isBag_def IS_BAG_MASK_def)
      have "rc_inv ds_par ds_ref_count (h(a \<mapsto> ?m)) (ext_inc (Some p) (ext_dec (Some a) ext))"
        using djs.inv_unlink [OF rc, of a ?n ?m] Some mp by simp
      then have rc': "rc_inv ds_par ds_ref_count ?h' (ext_inc (Some p) (ext_dec (Some a) ext))"
        using djs.inv_remove [of "h(a \<mapsto> ?m)" _ a ?m] mp zero by simp
      have inv': "ds_inv ?h' (ext_inc (Some p) (ext_dec (Some a) ext))"
        by (rule ds_inv_sub [OF inv sub rc']) (rule pos)
      have "\<exists>h''. ds_dec_ref_count p 1 ?h' = Some h'' \<and>
          ds_inv h'' (ext_dec (Some p) (ext_inc (Some p) (ext_dec (Some a) ext))) \<and> ds_sub ?h' h''"
      proof (rule 1(1) [of n ?n ?h' p])
        show "ds_inv ?h' (ext_inc (Some p) (ext_dec (Some a) ext))" by (rule inv')
        show "h a = Some n" by (rule n)
      qed (use npos True gp \<open>\<not> ds_isRoot n\<close> 1(2) in \<open>simp_all add: ds_isRoot_def\<close>)
      moreover have "ext_dec (Some p) (ext_inc (Some p) (ext_dec (Some a) ext)) = ext_dec (Some a) ext"
        by auto
      ultimately obtain h'' where h'': "ds_dec_ref_count p 1 ?h' = Some h''"
        "ds_inv h'' (ext_dec (Some a) ext)" "ds_sub ?h' h''" by auto
      have "ds_dec_ref_count a count h = Some h''"
        using True n gp \<open>\<not> ds_isRoot n\<close> h''(1) 1(2)
        by (simp add: ds_dec_ref_count.simps [of a] Let_def ds_isRoot_def)
      then show ?thesis using h'' ds_sub_trans [OF sub] by blast
    qed
  qed
qed

subsection \<open>Path compression\<close>

lemma internal_set_parent_ok:
  assumes inv: "ds_inv h ext" and p: "h p = Some n" and q: "ds_par n = Some q" and rep: "ds_rep h p r"
  shows "\<exists>h'. internal_set_parent p r h = Some h' \<and> ds_inv h' ext \<and> ds_refines h h' \<and>
    (\<forall>b n'. b \<noteq> p \<longrightarrow> h' b = Some n' \<longrightarrow> (\<exists>n. h b = Some n \<and> ds_par n' = ds_par n))"
proof -
  obtain m where m: "h r = Some m" "ds_par m = None" using ds_rep_root [OF rep] by blast
  have pr: "p \<noteq> r" using m p q by auto
  have rank: "ds_rank n < ds_rank m" using ds_rep_rank [OF inv rep p m(1) pr] .
  have al: "aligned4 r" using ds_inv_node [OF inv m(1)] by simp
  let ?n = "n\<lparr>ds_parent_or_bag := pob_setParent r\<rparr>"
  let ?m = "m\<lparr>ds_ref_count := ds_ref_count m + 1\<rparr>"
  let ?h2 = "h(p \<mapsto> ?n, r \<mapsto> ?m)"
  have np: "ds_par ?n = Some r"
    using pob_setParent_roundtrip [OF al]
    by (simp add: ds_par_def ds_isRoot_def pob_setParent_def pob_set_def)
  have rc2: "rc_inv ds_par ds_ref_count ?h2 (ext_inc (Some q) ext)"
  proof -
    let ?u = "n\<lparr>ds_parent_or_bag := 1\<rparr>"
    have up: "ds_par ?u = None" by (simp add: ds_par_def ds_isRoot_def pob_isBag_def IS_BAG_MASK_def)
    have "rc_inv ds_par ds_ref_count (h(p \<mapsto> ?u)) (ext_inc (Some q) ext)"
      using djs.inv_unlink [OF ds_invD [OF inv] p up] q by simp
    from djs.inv_inc [OF this, of r m] m(1) pr
    have h1: "rc_inv ds_par ds_ref_count (h(p \<mapsto> ?u, r \<mapsto> ?m)) (ext_inc (Some r) (ext_inc (Some q) ext))"
      by (simp add: ds_set_rc_def)
    have pos: "0 < ext_inc (Some r) (ext_inc (Some q) ext) r"
      and e: "(ext_inc (Some r) (ext_inc (Some q) ext))
        (r := ext_inc (Some r) (ext_inc (Some q) ext) r - 1) = ext_inc (Some q) ext"
      by auto
    have hp: "(h(p \<mapsto> ?u, r \<mapsto> ?m)) p = Some ?u" using pr by simp
    have "rc_inv ds_par ds_ref_count (h(p \<mapsto> ?u, r \<mapsto> ?m, p \<mapsto> ?n)) (ext_inc (Some q) ext)"
      by (subst e [symmetric], rule djs.inv_link [OF h1 hp up np _ pos]) simp
    then show ?thesis using pr by (simp add: fun_upd_twist [of p r])
  qed
  have inv2: "ds_inv ?h2 (ext_inc (Some q) ext)"
    unfolding ds_inv_def
  proof (intro conjI allI impI)
    fix a k assume a: "?h2 a = Some k"
    then obtain k0 where k0: "h a = Some k0" "ds_rank k = ds_rank k0" "ds_ref_count k0 \<le> ds_ref_count k"
      using p m by (auto split: if_splits)
    show "a \<noteq> 0" "aligned4 a" "0 < ds_ref_count k"
      using ds_inv_node [OF inv k0(1)] k0 by simp_all
    fix b j assume b: "ds_par k = Some b" "?h2 b = Some j"
    obtain j0 where j0: "h b = Some j0" "ds_rank j = ds_rank j0"
      using b(2) p m by (auto split: if_splits)
    show "ds_rank k < ds_rank j"
    proof (cases "a = p")
      case True
      then have "k = ?n" using a pr by simp
      then have "b = r" using b(1) np by simp
      then show ?thesis using rank k0 j0 True p m by simp
    next
      case False
      then have "ds_par k0 = Some b" using a b(1) k0 m by (auto split: if_splits)
      then show ?thesis using ds_inv_rank [OF inv k0(1) _ j0(1)] k0 j0 by simp
    qed
  qed (rule rc2)
  have "0 < ext_inc (Some q) ext q" by simp
  then obtain h' where h': "ds_dec_ref_count q 1 ?h2 = Some h'"
    "ds_inv h' (ext_dec (Some q) (ext_inc (Some q) ext))" "ds_sub ?h2 h'"
    using ds_dec_ref_count_ok [OF refl inv2] by blast
  have e: "ext_dec (Some q) (ext_inc (Some q) ext) = ext" by auto
  have run: "internal_set_parent p r h = Some h'"
    using p q m pr h'(1) ds_inv_par(2) [OF inv p q]
    by (simp add: internal_set_parent_def Let_def ds_inc_ref_count_def)
  have loc: "\<exists>k0. h b = Some k0 \<and> ds_data k = ds_data k0 \<and> ds_rank k = ds_rank k0 \<and>
      ((b \<noteq> p \<and> ds_parent_or_bag k = ds_parent_or_bag k0) \<or> (b = p \<and> ds_par k = Some r))"
    if k: "h' b = Some k" for b k
  proof -
    obtain j i where j: "?h2 b = Some j" "k = j\<lparr>ds_ref_count := i\<rparr>" using ds_subE [OF h'(3) k] by blast
    show ?thesis
    proof (cases "b = p")
      case True
      then have "k = ?n\<lparr>ds_ref_count := i\<rparr>" using j pr by simp
      then show ?thesis using True p np by simp
    next
      case False
      then show ?thesis using j m by (cases "b = r") auto
    qed
  qed
  have "ds_refines h h'"
    unfolding ds_refines_def
  proof (intro allI impI)
    fix b k assume "h' b = Some k"
    from loc [OF this] show "\<exists>n. h b = Some n \<and> ds_data k = ds_data n \<and> ds_rank k = ds_rank n \<and>
           (ds_parent_or_bag k = ds_parent_or_bag n \<or>
            (\<exists>r. ds_par n \<noteq> None \<and> ds_rep h b r \<and> ds_par k = Some r))"
      using p q rep by fastforce
  qed
  moreover have "\<exists>n. h b = Some n \<and> ds_par k = ds_par n" if "b \<noteq> p" "h' b = Some k" for b k
    using loc [OF that(2)] that(1) ds_par_pob by blast
  ultimately show ?thesis using run h'(2) unfolding e by blast
qed

text \<open>The nodes \<open>xs\<close> from \<open>a\<close>, each the child of the next, and the parent \<open>b\<close> of the last.\<close>

primrec ds_chain :: "'d ds_heap \<Rightarrow> u64 \<Rightarrow> u64 list \<Rightarrow> u64 \<Rightarrow> bool" where
  "ds_chain h a [] b \<longleftrightarrow> a = b"
| "ds_chain h a (x # xs) b \<longleftrightarrow>
     x = a \<and> (case h a of None \<Rightarrow> False
              | Some n \<Rightarrow> (case ds_par n of None \<Rightarrow> False | Some p \<Rightarrow> ds_chain h p xs b))"

lemma ds_chain_snoc:
  "ds_chain h a (xs @ [y]) b \<longleftrightarrow>
     ds_chain h a xs y \<and> (\<exists>n. h y = Some n \<and> ds_par n = Some b)"
  by (induction xs arbitrary: a) (auto split: option.splits)

lemma ds_chain_mem:
  "ds_chain h a xs b \<Longrightarrow> ds_rep h a r \<Longrightarrow> x \<in> set xs \<Longrightarrow>
     ds_rep h x r \<and> (\<exists>n. h x = Some n \<and> ds_par n \<noteq> None)"
  by (induction xs arbitrary: a) (auto split: option.splits simp: ds_rep_step_iff)

lemma ds_chain_rank:
  assumes inv: "ds_inv h ext"
  shows "ds_chain h a xs b \<Longrightarrow> x \<in> set xs \<Longrightarrow> h x = Some n \<Longrightarrow> h b = Some m \<Longrightarrow> ds_rank n < ds_rank m"
proof (induction xs arbitrary: b m rule: rev_induct)
  case (snoc y xs)
  then obtain k where y: "ds_chain h a xs y" "h y = Some k" "ds_par k = Some b"
    by (auto simp: ds_chain_snoc)
  have "ds_rank k < ds_rank m" using ds_inv_rank [OF inv y(2,3)] snoc.prems by simp
  then show ?case using snoc y by (cases "x = y") (auto intro: less_trans)
qed simp

lemma ds_chain_keep:
  assumes rc: "rc_inv ds_par ds_ref_count h' ext"
    and same: "\<And>b n'. b \<noteq> p \<Longrightarrow> h' b = Some n' \<Longrightarrow> \<exists>n. h b = Some n \<and> ds_par n' = ds_par n"
  shows "ds_chain h a xs b \<Longrightarrow> p \<notin> set xs \<Longrightarrow> h' a \<noteq> None \<Longrightarrow> ds_chain h' a xs b"
proof (induction xs arbitrary: a)
  case (Cons x xs)
  then obtain n q where n: "x = a" "h a = Some n" "ds_par n = Some q" "ds_chain h q xs b"
    by (auto split: option.splits)
  obtain n' where n': "h' a = Some n'" using Cons.prems by blast
  have par: "ds_par n' = Some q" using same [OF _ n'] n Cons.prems by auto
  have "h' q \<noteq> None" using djs.inv_par_live [OF rc n' par] by blast
  then have "ds_chain h' q xs b" using Cons.IH n Cons.prems by auto
  then show ?case using n n' par by simp
qed simp

lemma find_set_climb_ok:
  assumes inv: "ds_inv h ext"
  shows "ds_rep h a r \<Longrightarrow> DSList_wf L \<Longrightarrow>
    \<exists>xs b L'. find_set_climb a h L = Some (r, L') \<and> DSList_wf L' \<and>
      DSList_elems L' = DSList_elems L @ xs \<and> ds_chain h a xs b"
proof (induction arbitrary: L rule: ds_rep.induct)
  case (root a n)
  then have "find_set_climb a h L = Some (a, L)"
    by (subst find_set_climb.simps) (simp add: ds_isRoot_def flip: ds_isRoot_par)
  moreover have "ds_chain h a [] a" by simp
  ultimately show ?case using root.prems append_Nil2 by blast
next
  case (step a n p r)
  obtain k where k: "h p = Some k" using ds_rep_live [OF step.hyps(3)] by blast
  have gp: "pob_getParent (ds_parent_or_bag n) = Some p" "pob_isParent (ds_parent_or_bag n)"
    using ds_inv_par(2) [OF inv step.hyps(1,2)] ds_par_SomeD [OF step.hyps(2)] by auto
  show ?case
  proof (cases "ds_par k")
    case None
    then have "p = r" using step.hyps(3) k by (auto elim: ds_repE)
    have np: "\<not> pob_isParent (ds_parent_or_bag k)"
      using None by (simp add: ds_isRoot_def flip: ds_isRoot_par)
    then have "find_set_climb a h L = Some (r, L)"
      using gp step.hyps(1) k \<open>p = r\<close>
      by (subst find_set_climb.simps, subst find_set_climb.simps) simp
    moreover have "ds_chain h a [] a" by simp
    ultimately show ?thesis using step.prems append_Nil2 by blast
  next
    case (Some q)
    then have np: "pob_isParent (ds_parent_or_bag k)" using ds_par_SomeD [OF Some] by auto
    obtain L1 where L1: "DSList_push a L = Some L1" "DSList_wf L1"
      "DSList_elems L1 = DSList_elems L @ [a]"
      using DSList_push_elems [OF step.prems] by blast
    obtain xs b L' where IH: "find_set_climb p h L1 = Some (r, L')" "DSList_wf L'"
      "DSList_elems L' = DSList_elems L1 @ xs" "ds_chain h p xs b"
      using step.IH [OF L1(2)] by blast
    have "find_set_climb a h L = Some (r, L')"
      using gp step.hyps(1) k np L1(1) IH(1) by (subst find_set_climb.simps) simp
    moreover have "ds_chain h a (a # xs) b" using step.hyps IH(4) by simp
    moreover have "DSList_elems L' = DSList_elems L @ (a # xs)" using IH(3) L1(3) by simp
    ultimately show ?thesis using IH(2) by blast
  qed
qed

lemma find_set_compress_ok:
  assumes a: "0 < ext a"
  shows "i \<le> length (dsl_list L) \<Longrightarrow> ds_inv h ext \<Longrightarrow> ds_chain h a (take i (dsl_list L)) b \<Longrightarrow>
    ds_rep h a r \<Longrightarrow>
    \<exists>h'. find_set_compress i r L h = Some h' \<and> ds_inv h' ext \<and> ds_refines h h'"
proof (induction i arbitrary: h b)
  case 0
  then show ?case by simp
next
  case (Suc i)
  define p where "p = dsl_list L ! i"
  have i: "i < length (dsl_list L)" using Suc.prems by simp
  have ch: "ds_chain h a (take i (dsl_list L) @ [p]) b"
    using Suc.prems(3) i by (simp add: take_Suc_conv_app_nth p_def)
  then obtain n where chp: "ds_chain h a (take i (dsl_list L)) p" and n: "h p = Some n" "ds_par n = Some b"
    by (auto simp: ds_chain_snoc)
  have rep: "ds_rep h p r" using ds_chain_mem [OF ch Suc.prems(4), of p] by simp
  obtain h1 where h1: "internal_set_parent p r h = Some h1" "ds_inv h1 ext" "ds_refines h h1"
    "\<forall>b n'. b \<noteq> p \<longrightarrow> h1 b = Some n' \<longrightarrow> (\<exists>n. h b = Some n \<and> ds_par n' = ds_par n)"
    using internal_set_parent_ok [OF Suc.prems(2) n rep] by blast
  have "p \<notin> set (take i (dsl_list L))" using ds_chain_rank [OF Suc.prems(2) chp _ n(1) n(1)] by auto
  moreover have live: "h1 a \<noteq> None" using ds_inv_ext_live [OF h1(2) a] by simp
  ultimately have ch1: "ds_chain h1 a (take i (dsl_list L)) p"
    using ds_chain_keep [OF ds_invD [OF h1(2)], of p h] h1(4) chp by blast
  have rep1: "ds_rep h1 a r"
    using ds_rep_refines [OF ds_invD [OF h1(2)] h1(3) Suc.prems(4) live] .
  obtain h' where h': "find_set_compress i r L h1 = Some h'" "ds_inv h' ext" "ds_refines h1 h'"
    using Suc.IH [OF _ h1(2) ch1 rep1] i by auto
  have "find_set_compress (Suc i) r L h = Some h'" using i h1(1) h'(1) by (simp add: p_def)
  then show ?case using h' ds_refines_trans [OF Suc.prems(2) h1(2,3) h'(3)] by blast
qed

text \<open>
  \<open>find_set\<close> returns the representative, ends, never touches freed memory even though it frees nodes
  on the way, and leaves every remaining node with the representative it had.
\<close>

lemma find_set_ok:
  assumes inv: "ds_inv h ext" and a: "0 < ext a" and L: "DSList_wf L" "DSList_elems L = []"
  shows "\<exists>r h' L'. find_set a h L = Some (r, h', L') \<and> ds_rep h a r \<and> ds_inv h' ext \<and>
    ds_refines h h' \<and> DSList_wf L' \<and> DSList_elems L' = []"
proof -
  obtain n where n: "h a = Some n" using ds_inv_ext_live [OF inv a] by blast
  obtain r where rep: "ds_rep h a r" using ds_rep_ex [OF inv n] by blast
  show ?thesis
  proof (cases "ds_par n")
    case None
    then have "r = a" using rep n by (auto elim: ds_repE)
    moreover have "find_set a h L = Some (a, h, L)"
      using n None by (simp add: find_set_def ds_isRoot_par)
    ultimately show ?thesis using rep inv L by auto
  next
    case (Some p)
    obtain k where k: "h p = Some k" using ds_inv_par [OF inv n Some] by blast
    note gp = ds_inv_par(2) [OF inv n Some]
    show ?thesis
    proof (cases "ds_isRoot k")
      case True
      then have "ds_rep h p p" using k ds_rep.root by (metis ds_isRoot_par)
      then have "r = p" using rep n Some ds_rep_fun ds_rep_step_iff by metis
      moreover have "find_set a h L = Some (p, h, L)"
        using n Some gp k True by (simp add: find_set_def ds_isRoot_par)
      ultimately show ?thesis using rep inv L by auto
    next
      case False
      obtain xs b L' where c: "find_set_climb a h L = Some (r, L')" "DSList_wf L'"
        "DSList_elems L' = xs" "ds_chain h a xs b"
        using find_set_climb_ok [OF inv rep L(1)] L(2) by auto
      have "dsl_length L' \<le> length (dsl_list L')" using c(2) by (simp add: DSList_wf_def)
      then obtain h' where h': "find_set_compress (dsl_length L') r L' h = Some h'" "ds_inv h' ext"
        "ds_refines h h'"
        using find_set_compress_ok [of ext a "dsl_length L'" L' h b r] a inv c rep
        by (auto simp: DSList_elems_def)
      have "find_set a h L = Some (r, h', DSList_unlock L')"
        using n Some gp k False c(1) h'(1) by (auto simp: find_set_def ds_isRoot_par)
      then show ?thesis using rep h' DSList_unlock_wf [OF c(2)] by blast
    qed
  qed
qed

lemma ds_rep_refines_iff:
  assumes "ds_inv h ext" "ds_inv h' ext'" "ds_refines h h'" "h' b \<noteq> None"
  shows "ds_rep h' b s \<longleftrightarrow> ds_rep h b s"
proof -
  obtain n' where "h' b = Some n'" using assms(4) by blast
  then obtain n where n: "h b = Some n" using ds_refinesD [OF assms(3)] by metis
  obtain t where t: "ds_rep h b t" using ds_rep_ex [OF assms(1) n] by blast
  then have "ds_rep h' b t" using ds_rep_refines [OF ds_invD [OF assms(2)] assms(3)] assms(4) by blast
  then show ?thesis using t ds_rep_fun by blast
qed

subsection \<open>Union\<close>

text \<open>The heap after linking root \<open>c\<close> under root \<open>r\<close>, whose rank becomes \<open>k\<close>.\<close>

lemma ds_link_core:
  assumes inv: "ds_inv h ext" and c: "h c = Some m" "ds_par m = None" and r: "h r = Some n" "ds_par n = None"
    and ne: "c \<noteq> r" and k: "ds_rank m < k" "ds_rank n \<le> k"
  defines "h' \<equiv> h(c \<mapsto> m\<lparr>ds_parent_or_bag := pob_setParent r\<rparr>,
    r \<mapsto> n\<lparr>ds_ref_count := ds_ref_count n + 1, ds_rank := k\<rparr>)"
  shows "ds_inv h' ext"
    and "ds_rep h x s \<Longrightarrow> ds_rep h' x (if s = c then r else s)"
    and "h' x = Some n' \<Longrightarrow> \<exists>n. h x = Some n \<and> ds_data n' = ds_data n \<and>
      (ds_par n' = None \<longrightarrow> ds_parent_or_bag n' = ds_parent_or_bag n)"
proof -
  let ?m = "m\<lparr>ds_parent_or_bag := pob_setParent r\<rparr>"
  let ?n = "n\<lparr>ds_ref_count := ds_ref_count n + 1, ds_rank := k\<rparr>"
  have al: "aligned4 r" using ds_inv_node [OF inv r(1)] by simp
  have mp: "ds_par ?m = Some r"
    using pob_setParent_roundtrip [OF al]
    by (simp add: ds_par_def ds_isRoot_def pob_setParent_def pob_set_def)
  have rc: "rc_inv ds_par ds_ref_count h' ext"
  proof -
    let ?i = "n\<lparr>ds_ref_count := ds_ref_count n + 1\<rparr>"
    have h1: "rc_inv ds_par ds_ref_count (h(r \<mapsto> ?i)) (ext_inc (Some r) ext)"
      using djs.inv_inc [OF ds_invD [OF inv] r(1)] by (simp add: ds_set_rc_def)
    have h2: "rc_inv ds_par ds_ref_count (h(r \<mapsto> ?i, r \<mapsto> ?n)) (ext_inc (Some r) ext)"
      by (rule djs.inv_upd [OF h1 fun_upd_same]) simp_all
    have hc: "(h(r \<mapsto> ?i, r \<mapsto> ?n)) c = Some m" using c ne by simp
    have e: "(ext_inc (Some r) ext)(r := ext_inc (Some r) ext r - 1) = ext" by simp
    have "rc_inv ds_par ds_ref_count (h(r \<mapsto> ?i, r \<mapsto> ?n, c \<mapsto> ?m)) ext"
      by (subst e [symmetric], rule djs.inv_link [OF h2 hc c(2) mp]) simp_all
    then show ?thesis using ne by (simp add: h'_def fun_upd_twist [of c r])
  qed
  show inv': "ds_inv h' ext"
    unfolding ds_inv_def
  proof (intro conjI allI impI)
    fix a j assume a: "h' a = Some j"
    then obtain j0 where j0: "h a = Some j0" "ds_ref_count j0 \<le> ds_ref_count j"
      "ds_rank j0 \<le> ds_rank j" "ds_rank j = ds_rank j0 \<or> a = r"
      using c r ne k by (auto simp: h'_def split: if_splits)
    show "a \<noteq> 0" "aligned4 a" "0 < ds_ref_count j" using ds_inv_node [OF inv j0(1)] j0(2) by simp_all
    fix b i assume b: "ds_par j = Some b" "h' b = Some i"
    then obtain i0 where i0: "h b = Some i0" "ds_rank i0 \<le> ds_rank i"
      using c r ne k by (auto simp: h'_def split: if_splits)
    show "ds_rank j < ds_rank i"
    proof (cases "a = c")
      case True
      then have "j = ?m" using a ne by (simp add: h'_def)
      then have "b = r" using b(1) mp by simp
      then have "i = ?n" using b(2) by (simp add: h'_def)
      then have "ds_rank i = k" by simp
      then show ?thesis using k(1) \<open>j = ?m\<close> by simp
    next
      case False
      have "a \<noteq> r" using a b(1) r(2) by (auto simp: h'_def)
      then have "j = j0" using a False j0(1) by (simp add: h'_def)
      then show ?thesis using ds_inv_rank [OF inv j0(1) _ i0(1)] b(1) i0(2) by auto
    qed
  qed (rule rc)
  show "\<exists>n. h x = Some n \<and> ds_data n' = ds_data n \<and>
      (ds_par n' = None \<longrightarrow> ds_parent_or_bag n' = ds_parent_or_bag n)" if "h' x = Some n'"
  proof (cases "x = c")
    case True
    then have "n' = ?m" using that ne by (simp add: h'_def)
    then show ?thesis using True c mp by simp
  next
    case False
    then show ?thesis using that r by (cases "x = r") (auto simp: h'_def)
  qed
  have rr: "ds_rep h' r r" using r by (intro ds_rep.root [of h' r ?n]) (simp_all add: h'_def)
  show "ds_rep h' x (if s = c then r else s)" if "ds_rep h x s"
    using that
  proof (induction rule: ds_rep.induct)
    case (root a j)
    show ?case
    proof (cases "a = c")
      case True
      have "ds_rep h' c r" by (rule ds_rep.step [of h' c ?m r]) (use ne mp rr in \<open>simp_all add: h'_def\<close>)
      then show ?thesis using True by simp
    next
      case False
      show ?thesis
      proof (cases "a = r")
        case True
        then show ?thesis using rr ne by simp
      next
        case ar: False
        then have "h' a = Some j" using root False by (simp add: h'_def)
        then show ?thesis using root False ds_rep.root by auto
      qed
    qed
  next
    case (step a j p s)
    have "a \<noteq> c" "a \<noteq> r" using step c r by auto
    then have "h' a = Some j" using step by (simp add: h'_def)
    then show ?case using step ds_rep.step by fast
  qed
qed

text \<open>
  \<open>link\<close> makes one of two roots the parent of the other; it merges the two sets and changes no other.
  The rank does not overflow while every rank is below the largest 64-bit value.
\<close>

lemma ds_link_ok:
  assumes inv: "ds_inv h ext" and a: "h a = Some m" "ds_par m = None" and b: "h b = Some n" "ds_par n = None"
    and ne: "a \<noteq> b" and bound: "ds_rank n < - 1"
  shows "\<exists>r h'. ds_link a b h = Some (r, h') \<and> r \<in> {a, b} \<and> ds_inv h' ext \<and> dom h' = dom h \<and>
    (\<forall>x s. ds_rep h x s \<longrightarrow> ds_rep h' x (if s \<in> {a, b} then r else s)) \<and>
    (\<forall>x. x \<noteq> a \<longrightarrow> x \<noteq> b \<longrightarrow> h' x = h x) \<and>
    (\<forall>x n'. h' x = Some n' \<longrightarrow> (\<exists>n. h x = Some n \<and> ds_data n' = ds_data n \<and>
       (ds_par n' = None \<longrightarrow> ds_parent_or_bag n' = ds_parent_or_bag n)))"
proof -
  have nr: "\<not> pob_isParent (ds_parent_or_bag m)" "\<not> pob_isParent (ds_parent_or_bag n)"
    using a b by (simp_all add: ds_isRoot_def flip: ds_isRoot_par)
  have suc: "ds_rank n < ds_rank n + 1" "ds_rank n \<le> ds_rank n + 1"
    using unat_Suc_word [of "ds_rank n" "- 1"] bound
    by (simp_all add: word_less_nat_alt word_le_nat_alt)
  show ?thesis
  proof (cases "ds_rank m > ds_rank n")
    case True
    let ?h = "h(b \<mapsto> n\<lparr>ds_parent_or_bag := pob_setParent a\<rparr>,
        a \<mapsto> m\<lparr>ds_ref_count := ds_ref_count m + 1, ds_rank := ds_rank m\<rparr>)"
    note core = ds_link_core [OF inv b a ne [symmetric] True order_refl]
    have "ds_link a b h = Some (a, ?h)"
      using a b ne nr True by (simp add: ds_link_def root_set_parent_def ds_inc_ref_count_def)
    moreover have "ds_rep ?h x (if s \<in> {a, b} then a else s)" if "ds_rep h x s" for x s
      using core(2) [OF that] by (cases "s = a"; cases "s = b") simp_all
    moreover have "dom ?h = dom h" "\<forall>x. x \<noteq> a \<longrightarrow> x \<noteq> b \<longrightarrow> ?h x = h x" using a b by auto
    ultimately show ?thesis using core(1,3) by blast
  next
    case False
    let ?k = "if ds_rank m = ds_rank n then ds_rank n + 1 else ds_rank n"
    have k: "ds_rank m < ?k" "ds_rank n \<le> ?k" using False suc by auto
    let ?h = "h(a \<mapsto> m\<lparr>ds_parent_or_bag := pob_setParent b\<rparr>,
        b \<mapsto> n\<lparr>ds_ref_count := ds_ref_count n + 1, ds_rank := ?k\<rparr>)"
    note core = ds_link_core [OF inv a b ne k]
    have "ds_link a b h = Some (b, ?h)"
      using a b ne nr False by (simp add: ds_link_def root_set_parent_def ds_inc_ref_count_def)
    moreover have "ds_rep ?h x (if s \<in> {a, b} then b else s)" if "ds_rep h x s" for x s
      using core(2) [OF that] by (cases "s = a"; cases "s = b") simp_all
    moreover have "dom ?h = dom h" "\<forall>x. x \<noteq> a \<longrightarrow> x \<noteq> b \<longrightarrow> ?h x = h x" using a b by auto
    ultimately show ?thesis using core(1,3) by blast
  qed
qed

definition ds_ranks_ok :: "'d ds_heap \<Rightarrow> bool" where
  "ds_ranks_ok h \<longleftrightarrow> (\<forall>a n. h a = Some n \<longrightarrow> ds_rank n < - 1)"

lemma ds_ranks_ok_refines: "ds_refines h h' \<Longrightarrow> ds_ranks_ok h \<Longrightarrow> ds_ranks_ok h'"
  unfolding ds_ranks_ok_def by (metis ds_refinesD)

text \<open>
  \<open>combine\<close> of two nodes in different sets unites exactly these two sets: every node that remains
  has its old representative, or the new one when it was in one of the two.
\<close>

lemma ds_combine_ok:
  assumes inv: "ds_inv h ext" and a: "0 < ext a" and b: "0 < ext b"
    and ra: "ds_rep h a ra" and rb: "ds_rep h b rb" and ne: "ra \<noteq> rb"
    and bound: "ds_ranks_ok h" and L: "DSList_wf L" "DSList_elems L = []"
  shows "\<exists>r h' L'. ds_combine a b h L = Some (r, h', L') \<and> r \<in> {ra, rb} \<and> ds_inv h' ext \<and>
    (\<forall>x s. ds_rep h x s \<longrightarrow> h' x \<noteq> None \<longrightarrow> ds_rep h' x (if s \<in> {ra, rb} then r else s)) \<and>
    (\<forall>x n'. h' x = Some n' \<longrightarrow> (\<exists>n. h x = Some n \<and> ds_data n' = ds_data n \<and>
       (ds_par n' = None \<longrightarrow> ds_parent_or_bag n' = ds_parent_or_bag n))) \<and>
    DSList_wf L' \<and> DSList_elems L' = []"
proof -
  obtain h1 L1 where f1: "find_set a h L = Some (ra, h1, L1)" "ds_inv h1 ext" "ds_refines h h1"
    "DSList_wf L1" "DSList_elems L1 = []"
    using find_set_ok [OF inv a L] ra ds_rep_fun by metis
  have "h1 b \<noteq> None" using ds_inv_ext_live [OF f1(2) b] by simp
  then have rb1: "ds_rep h1 b rb" using ds_rep_refines_iff [OF inv f1(2,3)] rb by blast
  obtain h2 L2 where f2: "find_set b h1 L1 = Some (rb, h2, L2)" "ds_inv h2 ext" "ds_refines h1 h2"
    "DSList_wf L2" "DSList_elems L2 = []"
    using find_set_ok [OF f1(2) b f1(4,5)] rb1 ds_rep_fun by metis
  have ref: "ds_refines h h2" using ds_refines_trans [OF inv f1(2,3) f2(3)] .
  note iff = ds_rep_refines_iff [OF inv f2(2) ref]
  have "h2 a \<noteq> None" "h2 b \<noteq> None" using ds_inv_ext_live [OF f2(2)] a b by auto
  then have "ds_rep h2 a ra" "ds_rep h2 b rb" using iff ra rb by blast+
  then obtain m n where m: "h2 ra = Some m" "ds_par m = None" and n: "h2 rb = Some n" "ds_par n = None"
    using ds_rep_root by metis
  have "ds_rank n < - 1" using ds_ranks_ok_refines [OF ref bound] n by (simp add: ds_ranks_ok_def)
  then obtain r h' where l: "ds_link ra rb h2 = Some (r, h')" "r \<in> {ra, rb}" "ds_inv h' ext"
    "dom h' = dom h2" "\<And>x s. ds_rep h2 x s \<Longrightarrow> ds_rep h' x (if s \<in> {ra, rb} then r else s)"
    and data: "\<And>x n'. h' x = Some n' \<Longrightarrow> \<exists>n. h2 x = Some n \<and> ds_data n' = ds_data n \<and>
      (ds_par n' = None \<longrightarrow> ds_parent_or_bag n' = ds_parent_or_bag n)"
    using ds_link_ok [OF f2(2) m n ne] by blast
  have run: "ds_combine a b h L = Some (r, h', L2)"
    using f1(1) f2(1) l(1) ne by (simp add: ds_combine_def)
  have reps: "ds_rep h' x (if s \<in> {ra, rb} then r else s)" if "ds_rep h x s" "h' x \<noteq> None" for x s
  proof -
    have "h2 x \<noteq> None" using that(2) l(4) by blast
    then show ?thesis using l(5) iff that(1) by blast
  qed
  have "\<exists>n. h x = Some n \<and> ds_data n' = ds_data n \<and>
      (ds_par n' = None \<longrightarrow> ds_parent_or_bag n' = ds_parent_or_bag n)" if x: "h' x = Some n'" for x n'
  proof -
    obtain k where k: "h2 x = Some k" "ds_data n' = ds_data k"
      "ds_par n' = None \<longrightarrow> ds_parent_or_bag n' = ds_parent_or_bag k"
      using data [OF x] by (elim exE conjE)
    obtain j where j: "h x = Some j" "ds_data k = ds_data j"
      "ds_parent_or_bag k = ds_parent_or_bag j \<or>
        (\<exists>r. ds_par j \<noteq> None \<and> ds_rep h x r \<and> ds_par k = Some r)"
      by (rule ds_refinesD [OF ref k(1)]) (rule that)
    then have "ds_par k = None \<longrightarrow> ds_parent_or_bag k = ds_parent_or_bag j" by auto
    have "ds_par k = None" if "ds_par n' = None" using k(3) ds_par_pob that by metis
    then show ?thesis using k j \<open>ds_par k = None \<longrightarrow> _\<close> by simp
  qed
  then show ?thesis using run l(2,3) reps f2(4,5) by blast
qed

end
