(* ===== verification/SPBags.thy ===== *)
theory SPBags
  imports DisjointSet "HOL-Library.Monad_Syntax"
begin

text \<open>
  The S-bags and P-bags of \<open>cilksan/spbag.h\<close>: a bag owns the set of the disjoint-set node \<open>_ds\<close>, and
  packs its type (the top bit) and, for an S-bag, a 16-bit version into a 64-bit payload.  The state
  holds the two heaps, the work list of \<open>find_set\<close>, and the addresses that the allocators of bags
  and nodes will return, in order (an address can come back after it was freed).  The build without
  debugging is modelled, in which \<open>get_func_id\<close> returns 0.
\<close>

type_synonym version_t = u16

record SPBag_t =
  bag_ds :: u64
  bag_payload :: u64

record 'd sp_state =
  sp_ds :: "'d ds_heap"
  sp_bags :: "u64 \<rightharpoonup> SPBag_t"
  sp_list :: DSList_t
  sp_new :: "u64 list"

subsection \<open>The payload\<close>

definition BAG_TYPE_SHIFT :: nat where "BAG_TYPE_SHIFT = 63"
definition BAG_TYPE_MASK :: u64 where "BAG_TYPE_MASK = push_bit BAG_TYPE_SHIFT 1"
definition VERSION_END_SHIFT :: nat where "VERSION_END_SHIFT = 16"
definition VERSION_MASK :: u64 where "VERSION_MASK = push_bit VERSION_END_SHIFT 1 - 1"

datatype BagType_t = SBag | PBag

primrec BagType_val :: "BagType_t \<Rightarrow> u64" where
  "BagType_val SBag = 0"
| "BagType_val PBag = 1"

definition SPBag_init :: "BagType_t \<Rightarrow> SPBag_t" where
  "SPBag_init type = \<lparr>bag_ds = 0, bag_payload = push_bit BAG_TYPE_SHIFT (BagType_val type)\<rparr>"

definition getAvailablePayload :: "SPBag_t \<Rightarrow> u64" where
  "getAvailablePayload B = bag_payload B AND NOT BAG_TYPE_MASK"

definition is_SBag :: "SPBag_t \<Rightarrow> bool" where
  "is_SBag B \<longleftrightarrow> bag_payload B AND BAG_TYPE_MASK = push_bit BAG_TYPE_SHIFT (BagType_val SBag)"

definition is_PBag :: "SPBag_t \<Rightarrow> bool" where
  "is_PBag B \<longleftrightarrow> bag_payload B AND BAG_TYPE_MASK = push_bit BAG_TYPE_SHIFT (BagType_val PBag)"

definition SBag_get_version :: "SPBag_t \<Rightarrow> version_t" where
  "SBag_get_version B = ucast (getAvailablePayload B AND VERSION_MASK)"

definition SBag_inc_version :: "SPBag_t \<Rightarrow> bool \<times> SPBag_t" where
  "SBag_inc_version B =
     (let new_version = (ucast (getAvailablePayload B AND VERSION_MASK) :: version_t) + 1
      in (0 \<noteq> new_version,
          B\<lparr>bag_payload := (bag_payload B AND NOT VERSION_MASK) OR ucast new_version\<rparr>))"

lemma bit_BAG_TYPE_MASK: "bit BAG_TYPE_MASK n \<longleftrightarrow> n = 63"
  unfolding BAG_TYPE_MASK_def BAG_TYPE_SHIFT_def
  by (simp only: bit_push_bit_iff bit_1_iff) auto

lemma bag_type_bit: "bag_payload B AND BAG_TYPE_MASK = (if bit (bag_payload B) 63 then BAG_TYPE_MASK else 0)"
  by (rule bit_word_eqI) (auto simp: bit_BAG_TYPE_MASK bit_and_iff)

lemma BAG_TYPE_MASK_nonzero: "BAG_TYPE_MASK \<noteq> 0"
  by (simp add: BAG_TYPE_MASK_def BAG_TYPE_SHIFT_def)

lemma is_SBag_bit: "is_SBag B \<longleftrightarrow> \<not> bit (bag_payload B) 63"
  using BAG_TYPE_MASK_nonzero by (simp add: is_SBag_def bag_type_bit)

lemma is_PBag_bit: "is_PBag B \<longleftrightarrow> bit (bag_payload B) 63"
  using BAG_TYPE_MASK_nonzero
  by (simp add: is_PBag_def bag_type_bit) (simp add: BAG_TYPE_MASK_def)

lemma bit_VERSION_MASK: "bit VERSION_MASK n \<longleftrightarrow> n < 16"
proof -
  have m: "VERSION_MASK = mask 16"
    by (simp add: VERSION_MASK_def VERSION_END_SHIFT_def mask_eq_exp_minus_1)
  show ?thesis unfolding m Word.bit_mask_iff by simp
qed

lemma SBag_get_version_eq: "SBag_get_version B = ucast (bag_payload B)"
  by (rule bit_word_eqI)
     (simp add: SBag_get_version_def getAvailablePayload_def bit_simps bit_VERSION_MASK bit_BAG_TYPE_MASK)

text \<open>Incrementing the version adds 1 modulo \<open>2^16\<close>, says whether it wrapped, and changes nothing else
  of the payload: an S-bag stays an S-bag.\<close>

lemma SBag_inc_version_ok:
  "SBag_get_version (snd (SBag_inc_version B)) = SBag_get_version B + 1"
  "fst (SBag_inc_version B) \<longleftrightarrow> SBag_get_version B \<noteq> - 1"
  "is_SBag (snd (SBag_inc_version B)) = is_SBag B"
  "bag_ds (snd (SBag_inc_version B)) = bag_ds B"
proof -
  let ?v = "(ucast (getAvailablePayload B AND VERSION_MASK) :: version_t) + 1"
  have v: "?v = SBag_get_version B + 1" by (simp add: SBag_get_version_def)
  have p: "bag_payload (snd (SBag_inc_version B)) = (bag_payload B AND NOT VERSION_MASK) OR ucast ?v"
    by (simp add: SBag_inc_version_def Let_def)
  show "SBag_get_version (snd (SBag_inc_version B)) = SBag_get_version B + 1"
    unfolding SBag_get_version_eq p v [unfolded SBag_get_version_eq]
    by (rule bit_word_eqI) (simp add: bit_simps bit_VERSION_MASK)
  show "fst (SBag_inc_version B) \<longleftrightarrow> SBag_get_version B \<noteq> - 1"
    unfolding SBag_inc_version_def Let_def v
    by (auto simp: eq_neg_iff_add_eq_0)
  show "is_SBag (snd (SBag_inc_version B)) = is_SBag B"
    unfolding is_SBag_bit p by (auto simp: bit_simps bit_VERSION_MASK dest: bit_imp_le_length)
  show "bag_ds (snd (SBag_inc_version B)) = bag_ds B"
    by (simp add: SBag_inc_version_def Let_def)
qed

subsection \<open>Operations on the heaps\<close>

definition sp_get_bag :: "u64 \<Rightarrow> 'd sp_state \<Rightarrow> SPBag_t option" where
  "sp_get_bag b S = sp_bags S b"

definition sp_put_bag :: "u64 \<Rightarrow> SPBag_t \<Rightarrow> 'd sp_state \<Rightarrow> 'd sp_state" where
  "sp_put_bag b B S = S\<lparr>sp_bags := (sp_bags S)(b \<mapsto> B)\<rparr>"

definition sp_inc_ref :: "u64 \<Rightarrow> 'd sp_state \<Rightarrow> 'd sp_state option" where
  "sp_inc_ref a S = map_option (\<lambda>h. S\<lparr>sp_ds := h\<rparr>) (ds_inc_ref_count a 1 (sp_ds S))"

definition sp_dec_ref :: "u64 \<Rightarrow> 'd sp_state \<Rightarrow> 'd sp_state option" where
  "sp_dec_ref a S = map_option (\<lambda>h. S\<lparr>sp_ds := h\<rparr>) (ds_dec_ref_count a 1 (sp_ds S))"

definition spbag_set_ds :: "u64 \<Rightarrow> u64 \<Rightarrow> 'd sp_state \<Rightarrow> 'd sp_state option" where
  "spbag_set_ds b ds S =
     do {
       B \<leftarrow> sp_bags S b;
       if ds = bag_ds B then Some S
       else do {
         S \<leftarrow> sp_inc_ref ds S;
         S \<leftarrow> (if bag_ds B \<noteq> 0 then sp_dec_ref (bag_ds B) S else Some S);
         Some (sp_put_bag b (B\<lparr>bag_ds := ds\<rparr>) S)
       }
     }"

definition spbag_combine :: "u64 \<Rightarrow> u64 \<Rightarrow> 'd sp_state \<Rightarrow> 'd sp_state option" where
  "spbag_combine this that S =
     do {
       B \<leftarrow> sp_bags S this;
       C \<leftarrow> sp_bags S that;
       if bag_ds C = 0 then Some S
       else if bag_ds B = 0 then do {
         S \<leftarrow> sp_inc_ref (bag_ds C) S;
         Some (sp_put_bag this (B\<lparr>bag_ds := bag_ds C\<rparr>) S)
       }
       else do {
         (r, h, L) \<leftarrow> ds_combine (bag_ds B) (bag_ds C) (sp_ds S) (sp_list S);
         spbag_set_ds this r (S\<lparr>sp_ds := h, sp_list := L\<rparr>)
       }
     }"

text \<open>The two overriding methods: when the node of the bag changed, the new root is told its bag.\<close>

definition SBag_combine :: "u64 \<Rightarrow> u64 \<Rightarrow> 'd sp_state \<Rightarrow> 'd sp_state option" where
  "SBag_combine this that S =
     do {
       old \<leftarrow> sp_bags S this;
       S \<leftarrow> spbag_combine this that S;
       B \<leftarrow> sp_bags S this;
       if bag_ds B \<noteq> bag_ds old
       then map_option (\<lambda>h. S\<lparr>sp_ds := h\<rparr>) (ds_set_sbag (bag_ds B) this (sp_ds S))
       else Some S
     }"

definition PBag_combine :: "u64 \<Rightarrow> u64 \<Rightarrow> 'd sp_state \<Rightarrow> 'd sp_state option" where
  "PBag_combine this that S =
     do {
       old \<leftarrow> sp_bags S this;
       S \<leftarrow> spbag_combine this that S;
       B \<leftarrow> sp_bags S this;
       if bag_ds B \<noteq> bag_ds old
       then map_option (\<lambda>h. S\<lparr>sp_ds := h\<rparr>) (ds_set_pbag (bag_ds B) this (sp_ds S))
       else Some S
     }"

text \<open>\<open>delete\<close> of a bag: the destructor releases the reference to the node.\<close>

definition spbag_delete :: "u64 \<Rightarrow> 'd sp_state \<Rightarrow> 'd sp_state option" where
  "spbag_delete b S =
     do {
       B \<leftarrow> sp_bags S b;
       S \<leftarrow> (if bag_ds B \<noteq> 0 then sp_dec_ref (bag_ds B) S else Some S);
       Some (S\<lparr>sp_bags := (sp_bags S)(b := None)\<rparr>)
     }"

text \<open>An allocation takes the next address, which must be free, aligned and not null.\<close>

definition sp_alloc :: "'d sp_state \<Rightarrow> (u64 \<times> 'd sp_state) option" where
  "sp_alloc S =
     (case sp_new S of
        [] \<Rightarrow> None
      | a # as \<Rightarrow>
          if a = 0 \<or> \<not> aligned4 a \<or> sp_ds S a \<noteq> None \<or> sp_bags S a \<noteq> None then None
          else Some (a, S\<lparr>sp_new := as\<rparr>))"

text \<open>\<open>createNewSBag\<close> and \<open>createNewPBag\<close> of \<open>frame_data.h\<close>, with the constructor of the node, which
  tells the bag its node.\<close>

definition createNewSBag :: "'d \<Rightarrow> 'd sp_state \<Rightarrow> (u64 \<times> 'd sp_state) option" where
  "createNewSBag call_stack S =
     do {
       (b, S) \<leftarrow> sp_alloc S;
       let S = sp_put_bag b (SPBag_init SBag) S;
       (a, S) \<leftarrow> sp_alloc S;
       h \<leftarrow> ds_new a (pob_setSBag b) call_stack (sp_ds S);
       S \<leftarrow> spbag_set_ds b a (S\<lparr>sp_ds := h\<rparr>);
       Some (b, S)
     }"

definition createNewPBag :: "'d sp_state \<Rightarrow> (u64 \<times> 'd sp_state) option" where
  "createNewPBag S =
     do {
       (b, S) \<leftarrow> sp_alloc S;
       Some (b, sp_put_bag b (SPBag_init PBag) S)
     }"

definition sp_get_sbag_or_null :: "u64 \<Rightarrow> 'd sp_state \<Rightarrow> (u64 \<times> 'd sp_state) option" where
  "sp_get_sbag_or_null a S =
     map_option (\<lambda>(b, h, L). (b, S\<lparr>sp_ds := h, sp_list := L\<rparr>))
       (ds_get_sbag_or_null a (sp_ds S) (sp_list S))"

subsection \<open>The invariant of bags and nodes\<close>

definition opt_ptr :: "u64 \<Rightarrow> u64 option" where
  "opt_ptr a = (if a = 0 then None else Some a)"

definition bag_refs :: "(u64 \<rightharpoonup> SPBag_t) \<Rightarrow> u64 \<Rightarrow> nat" where
  "bag_refs bags a = (if a = 0 then 0 else card {b. \<exists>B. bags b = Some B \<and> bag_ds B = a})"

text \<open>All outside references to a node: those of the bags, and \<open>ext\<close> of everything else.\<close>

definition bag_ext :: "(u64 \<Rightarrow> nat) \<Rightarrow> (u64 \<rightharpoonup> SPBag_t) \<Rightarrow> u64 \<Rightarrow> nat" where
  "bag_ext ext bags a = ext a + bag_refs bags a"

lemma bag_refs_pos: "bags b = Some B \<Longrightarrow> bag_ds B \<noteq> 0 \<Longrightarrow> 0 < bag_refs bags (bag_ds B)"
  by (auto simp: bag_refs_def card_gt_0_iff)

lemma bag_ext_del:
  assumes b: "bags b = Some B"
  shows "bag_ext ext (bags(b := None)) = ext_dec (opt_ptr (bag_ds B)) (bag_ext ext bags)"
proof
  fix a
  let ?R = "{b. \<exists>B. bags b = Some B \<and> bag_ds B = a}"
  have "{c. \<exists>B. (bags(b := None)) c = Some B \<and> bag_ds B = a} = ?R - {b}" by auto
  moreover have "b \<in> ?R \<longleftrightarrow> bag_ds B = a" using b by auto
  ultimately have r: "bag_refs (bags(b := None)) a = bag_refs bags a - (if bag_ds B = a \<and> a \<noteq> 0 then 1 else 0)"
    by (auto simp: bag_refs_def card_Diff_singleton_if)
  show "bag_ext ext (bags(b := None)) a = ext_dec (opt_ptr (bag_ds B)) (bag_ext ext bags) a"
    using bag_refs_pos [of bags b B] b r by (auto simp: bag_ext_def opt_ptr_def)
qed

lemma bag_ext_put_None:
  assumes b: "bags b = None"
  shows "bag_ext ext (bags(b \<mapsto> B)) = ext_inc (opt_ptr (bag_ds B)) (bag_ext ext bags)"
proof
  fix a
  let ?R = "{b. \<exists>B. bags b = Some B \<and> bag_ds B = a}"
  have "{c. \<exists>C. (bags(b \<mapsto> B)) c = Some C \<and> bag_ds C = a} =
      (if bag_ds B = a then insert b ?R else ?R)" using b by auto
  moreover have "b \<notin> ?R" using b by auto
  ultimately have "bag_refs (bags(b \<mapsto> B)) a = bag_refs bags a + (if bag_ds B = a \<and> a \<noteq> 0 then 1 else 0)"
    by (simp add: bag_refs_def)
  then show "bag_ext ext (bags(b \<mapsto> B)) a = ext_inc (opt_ptr (bag_ds B)) (bag_ext ext bags) a"
    by (auto simp: bag_ext_def opt_ptr_def)
qed

lemma bag_ext_put:
  assumes "bags b = Some B"
  shows "bag_ext ext (bags(b \<mapsto> B')) =
    ext_inc (opt_ptr (bag_ds B')) (ext_dec (opt_ptr (bag_ds B)) (bag_ext ext bags))"
  using bag_ext_put_None [of "bags(b := None)" b ext B'] bag_ext_del [of bags b B ext] assms by simp

lemma ext_inc_dec: "0 < ext a \<Longrightarrow> ext_inc (Some b) (ext_dec (Some a) ext) = ext_dec (Some a) (ext_inc (Some b) ext)"
  by (auto simp: fun_eq_iff)

definition sp_inv :: "'d sp_state \<Rightarrow> (u64 \<Rightarrow> nat) \<Rightarrow> bool" where
  "sp_inv S ext \<longleftrightarrow>
     ds_inv (sp_ds S) (bag_ext ext (sp_bags S)) \<and> DSList_wf (sp_list S) \<and>
     DSList_elems (sp_list S) = [] \<and>
     (\<forall>b B. sp_bags S b = Some B \<longrightarrow> b \<noteq> 0 \<and> aligned4 b)"

lemma sp_invD:
  assumes "sp_inv S ext"
  shows "ds_inv (sp_ds S) (bag_ext ext (sp_bags S))" "DSList_wf (sp_list S)"
    "DSList_elems (sp_list S) = []" "sp_bags S b = Some B \<Longrightarrow> b \<noteq> 0 \<and> aligned4 b"
  using assms by (simp_all add: sp_inv_def)

lemma sp_inv_bag_live:
  assumes "sp_inv S ext" "sp_bags S b = Some B" "bag_ds B \<noteq> 0"
  shows "0 < bag_ext ext (sp_bags S) (bag_ds B)" "\<exists>n. sp_ds S (bag_ds B) = Some n"
proof -
  show p: "0 < bag_ext ext (sp_bags S) (bag_ds B)"
    using bag_refs_pos [of "sp_bags S" b B, OF assms(2,3)] by (simp add: bag_ext_def)
  show "\<exists>n. sp_ds S (bag_ds B) = Some n" using ds_inv_ext_live [OF sp_invD(1) [OF assms(1)] p] .
qed

text \<open>\<open>sp_in S x p\<close>: node \<open>x\<close> is in the set whose root carries the tagged bag pointer \<open>p\<close>.\<close>

definition sp_in :: "'d sp_state \<Rightarrow> u64 \<Rightarrow> u64 \<Rightarrow> bool" where
  "sp_in S x p \<longleftrightarrow> (\<exists>r n. ds_rep (sp_ds S) x r \<and> sp_ds S r = Some n \<and> ds_parent_or_bag n = p)"

definition bag_tag :: "u64 \<Rightarrow> SPBag_t \<Rightarrow> u64" where
  "bag_tag b B = (if is_SBag B then pob_setSBag b else pob_setPBag b)"

text \<open>A bag that is empty, or whose node is a root that points back to it.\<close>

definition sp_owns :: "'d sp_state \<Rightarrow> u64 \<Rightarrow> bool" where
  "sp_owns S b \<longleftrightarrow>
     (\<exists>B. sp_bags S b = Some B \<and>
        (bag_ds B = 0 \<or> (\<exists>n. sp_ds S (bag_ds B) = Some n \<and> ds_par n = None \<and>
           ds_parent_or_bag n = bag_tag b B)))"

lemma sp_in_rep:
  assumes "ds_rep (sp_ds S) x r" "sp_ds S r = Some n"
  shows "sp_in S x p \<longleftrightarrow> ds_parent_or_bag n = p"
proof
  assume "sp_in S x p"
  then obtain s m where s: "ds_rep (sp_ds S) x s" "sp_ds S s = Some m" "ds_parent_or_bag m = p"
    by (auto simp: sp_in_def)
  have "s = r" using ds_rep_fun [OF s(1) assms(1)] .
  then show "ds_parent_or_bag n = p" using s assms(2) by simp
qed (use assms in \<open>auto simp: sp_in_def\<close>)

lemma sp_in_fun: "sp_in S x p \<Longrightarrow> sp_in S x q \<Longrightarrow> p = q"
  unfolding sp_in_def using ds_rep_fun by fastforce

lemma sp_in_ex: "sp_inv S ext \<Longrightarrow> sp_ds S x = Some n \<Longrightarrow> \<exists>p. sp_in S x p"
  unfolding sp_in_def using ds_rep_ex [OF sp_invD(1)] ds_rep_root by blast

lemma bag_tag_inj: "aligned4 b \<Longrightarrow> aligned4 c \<Longrightarrow> bag_tag b B = bag_tag c C \<Longrightarrow> b = c"
  by (metis bag_tag_def pob_setPBag_roundtrip(4) pob_setSBag_roundtrip(4))

lemma bag_tag_isBag: "aligned4 b \<Longrightarrow> pob_isBag (bag_tag b B)"
  by (simp add: bag_tag_def pob_setSBag_roundtrip(1) pob_setPBag_roundtrip(1))

text \<open>Telling a root its bag.\<close>

lemma ds_set_pob_ok:
  assumes inv: "ds_inv h ext" and a: "h a = Some n" "ds_par n = None" and p: "pob_isBag p"
  shows "\<exists>h'. ds_set_pob a p h = Some h' \<and> ds_inv h' ext \<and> dom h' = dom h \<and>
    (\<forall>x r. ds_rep h x r \<longrightarrow> ds_rep h' x r) \<and>
    h' = h(a \<mapsto> n\<lparr>ds_parent_or_bag := p\<rparr>)"
proof -
  let ?n = "n\<lparr>ds_parent_or_bag := p\<rparr>"
  let ?h = "h(a \<mapsto> ?n)"
  have np: "ds_par ?n = None" using p by (simp add: ds_par_def ds_isRoot_def)
  have same: "\<exists>j0. h b = Some j0 \<and> ds_par j = ds_par j0 \<and> ds_rank j = ds_rank j0 \<and>
      ds_ref_count j = ds_ref_count j0" if "?h b = Some j" for b j
    using that a np by (cases "b = a") auto
  have "rc_inv ds_par ds_ref_count ?h ext"
    by (rule djs.inv_upd [OF ds_invD [OF inv] a(1)]) (simp_all add: np a(2))
  then have "ds_inv ?h ext"
    unfolding ds_inv_def
  proof (intro conjI allI impI)
    fix b j assume b: "?h b = Some j"
    then obtain j0 where j0: "h b = Some j0" "ds_par j = ds_par j0" "ds_rank j = ds_rank j0"
      "ds_ref_count j = ds_ref_count j0" using same by blast
    show "b \<noteq> 0" "aligned4 b" "0 < ds_ref_count j" using ds_inv_node [OF inv j0(1)] j0(4) by simp_all
    fix q i assume q: "ds_par j = Some q" "?h q = Some i"
    then obtain i0 where "h q = Some i0" "ds_rank i = ds_rank i0" using same by blast
    then show "ds_rank j < ds_rank i" using ds_inv_rank [OF inv j0(1)] q j0 by simp
  qed
  moreover have "ds_rep ?h x r" if "ds_rep h x r" for x r
    using that
  proof (induction rule: ds_rep.induct)
    case (root b j)
    then show ?case using np by (cases "b = a") (auto intro: ds_rep.root)
  next
    case (step b j q r)
    then have "b \<noteq> a" using a by auto
    then have "?h b = Some j" using step by simp
    then show ?case using ds_rep.step [of ?h b j q r] step by blast
  qed
  ultimately show ?thesis using a by (auto simp: ds_set_pob_def)
qed

lemma spbag_set_ds_ok:
  assumes inv: "sp_inv S ext" and b: "sp_bags S b = Some B" and d: "sp_ds S d = Some n"
  shows "\<exists>S'. spbag_set_ds b d S = Some S' \<and> sp_inv S' ext \<and> ds_sub (sp_ds S) (sp_ds S') \<and>
    sp_bags S' = (sp_bags S)(b \<mapsto> B\<lparr>bag_ds := d\<rparr>) \<and> sp_new S' = sp_new S"
proof (cases "d = bag_ds B")
  case True
  then have "spbag_set_ds b d S = Some S" using b by (simp add: spbag_set_ds_def)
  moreover have "(sp_bags S)(b \<mapsto> B\<lparr>bag_ds := d\<rparr>) = sp_bags S" using True b by auto
  moreover have "ds_sub (sp_ds S) (sp_ds S)" by (auto simp: ds_sub_def)
  ultimately show ?thesis using inv by auto
next
  case False
  note I = sp_invD [OF inv]
  let ?e = "bag_ext ext (sp_bags S)"
  let ?B = "B\<lparr>bag_ds := d\<rparr>"
  have d0: "d \<noteq> 0" using ds_inv_node [OF I(1) d] by simp
  obtain h1 where h1: "ds_inc_ref_count d 1 (sp_ds S) = Some h1" "ds_inv h1 (ext_inc (Some d) ?e)"
    "ds_sub (sp_ds S) h1" using ds_inc_ref_count_ok [OF I(1) d] by blast
  show ?thesis
  proof (cases "bag_ds B = 0")
    case True
    let ?S = "sp_put_bag b ?B (S\<lparr>sp_ds := h1\<rparr>)"
    have "bag_ext ext ((sp_bags S)(b \<mapsto> ?B)) = ext_inc (Some d) ?e"
      using bag_ext_put [of "sp_bags S" b B ext ?B] b True d0 by (simp add: opt_ptr_def)
    then have "sp_inv ?S ext" using inv h1(2) b by (auto simp: sp_inv_def sp_put_bag_def)
    moreover have "spbag_set_ds b d S = Some ?S"
      using False True b h1(1) by (simp add: spbag_set_ds_def sp_inc_ref_def)
    ultimately show ?thesis using h1(3) by (auto simp: sp_put_bag_def)
  next
    case B0: False
    have pos: "0 < ?e (bag_ds B)" using sp_inv_bag_live [OF inv b B0] by simp
    then have "0 < ext_inc (Some d) ?e (bag_ds B)" by simp
    then obtain h2 where h2: "ds_dec_ref_count (bag_ds B) 1 h1 = Some h2"
      "ds_inv h2 (ext_dec (Some (bag_ds B)) (ext_inc (Some d) ?e))" "ds_sub h1 h2"
      using ds_dec_ref_count_ok [OF refl h1(2)] by blast
    let ?S = "sp_put_bag b ?B (S\<lparr>sp_ds := h2\<rparr>)"
    have "bag_ext ext ((sp_bags S)(b \<mapsto> ?B)) = ext_dec (Some (bag_ds B)) (ext_inc (Some d) ?e)"
      using bag_ext_put [of "sp_bags S" b B ext ?B] b B0 d0 ext_inc_dec [of ?e "bag_ds B" d] pos
      by (simp add: opt_ptr_def)
    then have "sp_inv ?S ext" using inv h2(2) b by (auto simp: sp_inv_def sp_put_bag_def)
    moreover have "spbag_set_ds b d S = Some ?S"
      using False B0 b h1(1) h2(1) by (simp add: spbag_set_ds_def sp_inc_ref_def sp_dec_ref_def)
    ultimately show ?thesis using ds_sub_trans [OF h1(3) h2(3)] by (auto simp: sp_put_bag_def)
  qed
qed

lemma sp_in_sub:
  assumes "sp_inv S ext" "sp_inv S' ext'" "ds_sub (sp_ds S) (sp_ds S')" "sp_ds S' x \<noteq> None"
  shows "sp_in S' x p \<longleftrightarrow> sp_in S x p"
proof -
  note ref = ds_sub_refines [OF assms(3)]
  obtain n where "sp_ds S' x = Some n" using assms(4) by blast
  then obtain r where r: "ds_rep (sp_ds S') x r" using ds_rep_ex [OF sp_invD(1) [OF assms(2)]] by blast
  obtain m where m: "sp_ds S' r = Some m" using ds_rep_root [OF r] by blast
  obtain k j where k: "sp_ds S r = Some k" "m = k\<lparr>ds_ref_count := j\<rparr>" using ds_subE [OF assms(3) m] by blast
  have rS: "ds_rep (sp_ds S) x r"
    using ds_rep_refines_iff [OF sp_invD(1) [OF assms(1)] sp_invD(1) [OF assms(2)] ref assms(4)] r by blast
  have "sp_in S' x p \<longleftrightarrow> ds_parent_or_bag m = p"
    by (rule sp_in_rep [OF r m])
  moreover have "sp_in S x p \<longleftrightarrow> ds_parent_or_bag k = p"
    by (rule sp_in_rep [OF rS k(1)])
  ultimately show ?thesis using k by simp
qed

text \<open>Deleting a bag releases its node and leaves every other node in its set.\<close>

lemma spbag_delete_ok:
  assumes inv: "sp_inv S ext" and b: "sp_bags S b = Some B"
  shows "\<exists>S'. spbag_delete b S = Some S' \<and> sp_inv S' ext \<and> ds_sub (sp_ds S) (sp_ds S') \<and>
    sp_bags S' = (sp_bags S)(b := None) \<and> sp_new S' = sp_new S"
proof (cases "bag_ds B = 0")
  case True
  have "bag_ext ext ((sp_bags S)(b := None)) = bag_ext ext (sp_bags S)"
    using bag_ext_del [of "sp_bags S" b B ext] b True by (simp add: opt_ptr_def)
  then have "sp_inv (S\<lparr>sp_bags := (sp_bags S)(b := None)\<rparr>) ext"
    using inv by (auto simp: sp_inv_def)
  moreover have "ds_sub (sp_ds S) (sp_ds S)" by (auto simp: ds_sub_def)
  ultimately show ?thesis using b True by (simp add: spbag_delete_def)
next
  case False
  have pos: "0 < bag_ext ext (sp_bags S) (bag_ds B)" using sp_inv_bag_live [OF inv b False] by simp
  obtain h where h: "ds_dec_ref_count (bag_ds B) 1 (sp_ds S) = Some h"
    "ds_inv h (ext_dec (Some (bag_ds B)) (bag_ext ext (sp_bags S)))" "ds_sub (sp_ds S) h"
    using ds_dec_ref_count_ok [OF refl sp_invD(1) [OF inv] pos] by blast
  have "bag_ext ext ((sp_bags S)(b := None)) = ext_dec (Some (bag_ds B)) (bag_ext ext (sp_bags S))"
    using bag_ext_del [of "sp_bags S" b B ext] b False by (simp add: opt_ptr_def)
  then have "sp_inv (S\<lparr>sp_ds := h, sp_bags := (sp_bags S)(b := None)\<rparr>) ext"
    using inv h(2) by (auto simp: sp_inv_def)
  then show ?thesis using b False h(1,3) by (simp add: spbag_delete_def sp_dec_ref_def)
qed

subsection \<open>Combining bags\<close>

text \<open>The common part of the two \<open>combine\<close> methods: the sets of the two bags become one set, with
  root \<open>r\<close>, which the bag now points to.\<close>

definition sp_united :: "u64 \<Rightarrow> SPBag_t \<Rightarrow> SPBag_t \<Rightarrow> 'd sp_state \<Rightarrow> 'd sp_state \<Rightarrow> bool" where
  "sp_united r B C S S' \<longleftrightarrow>
     (\<forall>x s m. sp_ds S' x \<noteq> None \<longrightarrow> ds_rep (sp_ds S) x s \<longrightarrow> sp_ds S s = Some m \<longrightarrow>
       (if s \<in> {bag_ds B, bag_ds C} then ds_rep (sp_ds S') x r
        else \<exists>m'. s \<noteq> r \<and> ds_rep (sp_ds S') x s \<and> sp_ds S' s = Some m' \<and>
          ds_parent_or_bag m' = ds_parent_or_bag m))"

lemma sp_unitedD:
  assumes "sp_united r B C S S'" "sp_ds S' x \<noteq> None" "ds_rep (sp_ds S) x s" "sp_ds S s = Some m"
  shows "s \<in> {bag_ds B, bag_ds C} \<Longrightarrow> ds_rep (sp_ds S') x r"
    "s \<notin> {bag_ds B, bag_ds C} \<Longrightarrow> \<exists>m'. s \<noteq> r \<and> ds_rep (sp_ds S') x s \<and> sp_ds S' s = Some m' \<and>
          ds_parent_or_bag m' = ds_parent_or_bag m"
  using assms unfolding sp_united_def by (metis (no_types, lifting))+

lemma spbag_combine_ok:
  assumes inv: "sp_inv S ext" and ne: "this \<noteq> that"
    and B: "sp_bags S this = Some B" "sp_owns S this"
    and C: "sp_bags S that = Some C" "sp_owns S that" "bag_ds C \<noteq> 0"
    and ranks: "ds_ranks_ok (sp_ds S)"
  shows "\<exists>S' r n. spbag_combine this that S = Some S' \<and> sp_inv S' ext \<and>
    sp_bags S' = (sp_bags S)(this \<mapsto> B\<lparr>bag_ds := r\<rparr>) \<and> sp_new S' = sp_new S \<and>
    sp_ds S' r = Some n \<and> ds_par n = None \<and> (r = bag_ds B \<longrightarrow> ds_parent_or_bag n = bag_tag this B) \<and>
    sp_united r B C S S'"
proof -
  note I = sp_invD [OF inv]
  let ?e = "bag_ext ext (sp_bags S)"
  obtain nc where nc: "sp_ds S (bag_ds C) = Some nc" "ds_par nc = None"
    "ds_parent_or_bag nc = bag_tag that C" using C by (auto simp: sp_owns_def)
  have repC: "ds_rep (sp_ds S) (bag_ds C) (bag_ds C)" using nc by (blast intro: ds_rep.root)
  show ?thesis
  proof (cases "bag_ds B = 0")
    case True
    obtain S' where S': "spbag_set_ds this (bag_ds C) S = Some S'" "sp_inv S' ext"
      "ds_sub (sp_ds S) (sp_ds S')" "sp_bags S' = (sp_bags S)(this \<mapsto> B\<lparr>bag_ds := bag_ds C\<rparr>)"
      "sp_new S' = sp_new S"
      using spbag_set_ds_ok [OF inv B(1) nc(1)] by blast
    have run: "spbag_combine this that S = Some S'"
      using S'(1) B C(1,3) True by (simp add: spbag_combine_def spbag_set_ds_def)
    note ref = ds_sub_refines [OF S'(3)]
    note iff = ds_rep_refines_iff [OF I(1) sp_invD(1) [OF S'(2)] ref]
    obtain n where n: "sp_ds S' (bag_ds C) = Some n"
      using sp_inv_bag_live(2) [OF S'(2), of this] S'(4) C(3) by auto
    have np: "ds_par n = None" using ds_subE [OF S'(3) n] nc by (metis ds_par_upd(1) option.inject)
    have "\<exists>m'. s \<noteq> bag_ds C \<and> ds_rep (sp_ds S') x s \<and> sp_ds S' s = Some m' \<and>
          ds_parent_or_bag m' = ds_parent_or_bag m"
      if x: "sp_ds S' x \<noteq> None" "ds_rep (sp_ds S) x s" "sp_ds S s = Some m" "s \<noteq> bag_ds C" for x s m
    proof -
      have r: "ds_rep (sp_ds S') x s" using iff x by blast
      then obtain m' where m': "sp_ds S' s = Some m'" using ds_rep_root by blast
      obtain k j where "sp_ds S s = Some k" "m' = k\<lparr>ds_ref_count := j\<rparr>" using ds_subE [OF S'(3) m'] by blast
      then show ?thesis using r m' x by simp
    qed
    moreover have "ds_rep (sp_ds S') x (bag_ds C)"
      if "sp_ds S' x \<noteq> None" "ds_rep (sp_ds S) x (bag_ds C)" for x using iff that by blast
    moreover have "s \<noteq> 0" if "sp_ds S s = Some m" for s m using ds_inv_node(1) [OF I(1) that] .
    ultimately have "sp_united (bag_ds C) B C S S'" unfolding sp_united_def using True by auto
    moreover have "bag_ds C \<noteq> bag_ds B" using True C(3) by simp
    ultimately show ?thesis using run S'(2,4,5) n np by blast
  next
    case False
    obtain nb where nb: "sp_ds S (bag_ds B) = Some nb" "ds_par nb = None"
      "ds_parent_or_bag nb = bag_tag this B" using B False by (auto simp: sp_owns_def)
    have repB: "ds_rep (sp_ds S) (bag_ds B) (bag_ds B)" using nb by (blast intro: ds_rep.root)
    have dne: "bag_ds B \<noteq> bag_ds C"
      using nb nc ne bag_tag_inj I(4) [OF B(1)] I(4) [OF C(1)] by auto
    obtain r h L where c: "ds_combine (bag_ds B) (bag_ds C) (sp_ds S) (sp_list S) = Some (r, h, L)"
      and r: "r \<in> {bag_ds B, bag_ds C}" and hinv: "ds_inv h ?e"
      and reps: "\<And>x s. ds_rep (sp_ds S) x s \<Longrightarrow> h x \<noteq> None \<Longrightarrow>
          ds_rep h x (if s \<in> {bag_ds B, bag_ds C} then r else s)"
      and data: "\<And>x n'. h x = Some n' \<Longrightarrow> \<exists>n. sp_ds S x = Some n \<and> ds_data n' = ds_data n \<and>
          (ds_par n' = None \<longrightarrow> ds_parent_or_bag n' = ds_parent_or_bag n)"
      and L: "DSList_wf L" "DSList_elems L = []"
      using ds_combine_ok [OF I(1) sp_inv_bag_live(1) [OF inv B(1) False]
          sp_inv_bag_live(1) [OF inv C(1,3)] repB repC dne ranks I(2,3)] by blast
    let ?S1 = "S\<lparr>sp_ds := h, sp_list := L\<rparr>"
    have inv1: "sp_inv ?S1 ext" using inv hinv L by (auto simp: sp_inv_def)
    have liveB: "h (bag_ds B) \<noteq> None" using sp_inv_bag_live(2) [OF inv1, of this B] B False by simp
    have "ds_rep h (bag_ds B) r" using reps [OF repB liveB] by simp
    then obtain n1 where n1: "h r = Some n1" "ds_par n1 = None" using ds_rep_root by blast
    obtain S' where S': "spbag_set_ds this r ?S1 = Some S'" "sp_inv S' ext"
      "ds_sub h (sp_ds S')" "sp_bags S' = (sp_bags S)(this \<mapsto> B\<lparr>bag_ds := r\<rparr>)" "sp_new S' = sp_new S"
      using spbag_set_ds_ok [OF inv1, of this B r n1] B n1 by auto
    have run: "spbag_combine this that S = Some S'"
      using S'(1) B C(1,3) False c by (simp add: spbag_combine_def)
    have r0: "r \<noteq> 0" using r False C(3) by auto
    obtain n where n: "sp_ds S' r = Some n"
      using sp_inv_bag_live(2) [OF S'(2), of this] S'(4) r0 by auto
    obtain j where j: "n = n1\<lparr>ds_ref_count := j\<rparr>" using ds_subE [OF S'(3) n] n1 by (metis option.inject)
    have pobB: "ds_parent_or_bag n = bag_tag this B" if "r = bag_ds B"
      using data [OF n1(1)] n1(2) nb that j by auto
    note iff = ds_rep_refines_iff [OF hinv sp_invD(1) [OF S'(2)] ds_sub_refines [OF S'(3)]]
    have "if s \<in> {bag_ds B, bag_ds C} then ds_rep (sp_ds S') x r
        else \<exists>m'. s \<noteq> r \<and> ds_rep (sp_ds S') x s \<and> sp_ds S' s = Some m' \<and>
          ds_parent_or_bag m' = ds_parent_or_bag m"
      if x: "sp_ds S' x \<noteq> None" "ds_rep (sp_ds S) x s" "sp_ds S s = Some m" for x s m
    proof -
      have hx: "h x \<noteq> None" using x(1) S'(3) ds_subE by (metis option.exhaust_sel option.distinct(1))
      have rx: "ds_rep (sp_ds S') x (if s \<in> {bag_ds B, bag_ds C} then r else s)"
        using iff [OF x(1)] reps [OF x(2) hx] by blast
      show ?thesis
      proof (cases "s \<in> {bag_ds B, bag_ds C}")
        case False
        then have rs: "ds_rep (sp_ds S') x s" "s \<noteq> r" using rx r by auto
        then obtain m' where m': "sp_ds S' s = Some m'" "ds_par m' = None" using ds_rep_root by blast
        obtain k i where k: "h s = Some k" "m' = k\<lparr>ds_ref_count := i\<rparr>" using ds_subE [OF S'(3) m'(1)] by blast
        have "ds_parent_or_bag k = ds_parent_or_bag m" using data [OF k(1)] x(3) m'(2) k(2) by auto
        then show ?thesis using rs m' k(2) False by auto
      qed (use rx in auto)
    qed
    then have "sp_united r B C S S'" unfolding sp_united_def by blast
    moreover have "ds_par n = None" using n1(2) j by simp
    ultimately show ?thesis using run S'(2,4,5) n pobB by blast
  qed
qed

text \<open>
  The effect of the two \<open>combine\<close> methods on the partition: every node of the two sets is now in this
  bag, every other node is in the bag it was in, and the bag owns its set.  \<open>sp_merged\<close> states this.
\<close>

definition sp_merged :: "u64 \<Rightarrow> SPBag_t \<Rightarrow> SPBag_t \<Rightarrow> 'd sp_state \<Rightarrow> 'd sp_state \<Rightarrow> bool" where
  "sp_merged this B C S S' \<longleftrightarrow>
     (\<forall>x s m. sp_ds S' x \<noteq> None \<longrightarrow> ds_rep (sp_ds S) x s \<longrightarrow> sp_ds S s = Some m \<longrightarrow>
        sp_in S' x (if s \<in> {bag_ds B, bag_ds C} then bag_tag this B else ds_parent_or_bag m) \<and>
        (s \<notin> {bag_ds B, bag_ds C} \<longrightarrow> ds_rep (sp_ds S') x s)) \<and>
     (\<exists>r. sp_bags S' = (sp_bags S)(this \<mapsto> B\<lparr>bag_ds := r\<rparr>) \<and>
        (\<forall>x s. sp_ds S' x \<noteq> None \<longrightarrow> ds_rep (sp_ds S) x s \<longrightarrow> s \<in> {bag_ds B, bag_ds C} \<longrightarrow>
           ds_rep (sp_ds S') x r)) \<and> sp_owns S' this \<and> sp_new S' = sp_new S"

lemma spbag_retag_ok:
  assumes inv: "sp_inv S' ext" and B: "sp_bags S this = Some B"
    and S': "sp_bags S' = (sp_bags S)(this \<mapsto> B\<lparr>bag_ds := r\<rparr>)" "sp_new S' = sp_new S"
      "sp_ds S' r = Some n" "ds_par n = None" "r = bag_ds B \<longrightarrow> ds_parent_or_bag n = bag_tag this B"
    and reps: "sp_united r B C S S'"
  shows "\<exists>S2. (if r \<noteq> bag_ds B
      then map_option (\<lambda>h. S'\<lparr>sp_ds := h\<rparr>) (ds_set_pob r (bag_tag this B) (sp_ds S')) else Some S') = Some S2 \<and>
    sp_inv S2 ext \<and> sp_merged this B C S S2"
proof -
  note I = sp_invD [OF inv]
  let ?h = "(sp_ds S')(r \<mapsto> n\<lparr>ds_parent_or_bag := bag_tag this B\<rparr>)"
  let ?S2 = "S'\<lparr>sp_ds := ?h\<rparr>"
  have al: "aligned4 this" using I(4) [of this] S'(1) by auto
  obtain h where h: "ds_set_pob r (bag_tag this B) (sp_ds S') = Some h"
    "ds_inv h (bag_ext ext (sp_bags S'))" "dom h = dom (sp_ds S')"
    "\<forall>x s. ds_rep (sp_ds S') x s \<longrightarrow> ds_rep h x s" "h = ?h"
    using ds_set_pob_ok [OF I(1) S'(3,4) bag_tag_isBag [OF al, of B]] by blast
  have run: "(if r \<noteq> bag_ds B
      then map_option (\<lambda>h. S'\<lparr>sp_ds := h\<rparr>) (ds_set_pob r (bag_tag this B) (sp_ds S')) else Some S') = Some ?S2"
  proof (cases "r = bag_ds B")
    case True
    then have "n\<lparr>ds_parent_or_bag := bag_tag this B\<rparr> = n" using S'(5) by simp
    then have "?h = sp_ds S'" using S'(3) by auto
    then show ?thesis using True by simp
  next
    case False
    then show ?thesis using h(1,5) by simp
  qed
  have inv2: "sp_inv ?S2 ext" using inv h(2) unfolding h(5) by (auto simp: sp_inv_def)
  have "sp_in ?S2 x (if s \<in> {bag_ds B, bag_ds C} then bag_tag this B else ds_parent_or_bag m) \<and>
      (s \<notin> {bag_ds B, bag_ds C} \<longrightarrow> ds_rep (sp_ds ?S2) x s)"
    if x: "sp_ds ?S2 x \<noteq> None" "ds_rep (sp_ds S) x s" "sp_ds S s = Some m" for x s m
  proof -
    have live: "sp_ds S' x \<noteq> None" using x(1) S'(3) by (auto split: if_splits)
    show ?thesis
    proof (cases "s \<in> {bag_ds B, bag_ds C}")
      case True
      then have "ds_rep (sp_ds S') x r" by (rule sp_unitedD(1) [OF reps live x(2,3)])
      then have "ds_rep ?h x r" using h(4,5) by blast
      then have "sp_in ?S2 x (bag_tag this B)" by (simp add: sp_in_rep)
      then show ?thesis using True by simp
    next
      case False
      then obtain m' where m': "s \<noteq> r" "ds_rep (sp_ds S') x s" "sp_ds S' s = Some m'"
        "ds_parent_or_bag m' = ds_parent_or_bag m"
        using sp_unitedD(2) [OF reps live x(2,3)] by blast
      then have "ds_rep ?h x s" using h(4,5) by blast
      moreover from this have "sp_in ?S2 x (ds_parent_or_bag m)" using m' by (simp add: sp_in_rep)
      ultimately show ?thesis using False by simp
    qed
  qed
  moreover have "ds_rep (sp_ds ?S2) x r"
    if x: "sp_ds ?S2 x \<noteq> None" "ds_rep (sp_ds S) x s" "s \<in> {bag_ds B, bag_ds C}" for x s
  proof -
    have live: "sp_ds S' x \<noteq> None" using x(1) S'(3) by (auto split: if_splits)
    obtain m where "sp_ds S s = Some m" using ds_rep_root [OF x(2)] by blast
    then have "ds_rep (sp_ds S') x r" by (rule sp_unitedD(1) [OF reps live x(2) _ x(3)])
    then show ?thesis using h(4,5) by simp
  qed
  moreover have "sp_owns ?S2 this"
    using S'(1) bag_tag_isBag [OF al, of B]
    by (simp add: sp_owns_def bag_tag_def is_SBag_def ds_par_def ds_isRoot_def)
  ultimately have "sp_merged this B C S ?S2"
    unfolding sp_merged_def using S'(1,2) by (intro conjI exI [of _ r]) auto
  then show ?thesis using run inv2 by blast
qed

lemma SBag_combine_ok:
  assumes inv: "sp_inv S ext" and ne: "this \<noteq> that"
    and B: "sp_bags S this = Some B" "sp_owns S this" "is_SBag B"
    and C: "sp_bags S that = Some C" "sp_owns S that" "bag_ds C \<noteq> 0"
    and ranks: "ds_ranks_ok (sp_ds S)"
  shows "\<exists>S'. SBag_combine this that S = Some S' \<and> sp_inv S' ext \<and> sp_merged this B C S S'"
proof -
  obtain S1 r n where S1: "spbag_combine this that S = Some S1" "sp_inv S1 ext"
    "sp_bags S1 = (sp_bags S)(this \<mapsto> B\<lparr>bag_ds := r\<rparr>)" "sp_new S1 = sp_new S" "sp_ds S1 r = Some n"
    "ds_par n = None" "r = bag_ds B \<longrightarrow> ds_parent_or_bag n = bag_tag this B"
    "sp_united r B C S S1"
    using spbag_combine_ok [OF inv ne B(1,2) C ranks] by blast
  have "SBag_combine this that S = (if r \<noteq> bag_ds B
      then map_option (\<lambda>h. S1\<lparr>sp_ds := h\<rparr>) (ds_set_pob r (bag_tag this B) (sp_ds S1)) else Some S1)"
    using B S1(1,3) by (simp add: SBag_combine_def ds_set_sbag_def bag_tag_def)
  then show ?thesis using spbag_retag_ok [OF S1(2) B(1) S1(3-8)] by simp
qed

lemma PBag_combine_ok:
  assumes inv: "sp_inv S ext" and ne: "this \<noteq> that"
    and B: "sp_bags S this = Some B" "sp_owns S this" "is_PBag B"
    and C: "sp_bags S that = Some C" "sp_owns S that" "bag_ds C \<noteq> 0"
    and ranks: "ds_ranks_ok (sp_ds S)"
  shows "\<exists>S'. PBag_combine this that S = Some S' \<and> sp_inv S' ext \<and> sp_merged this B C S S'"
proof -
  obtain S1 r n where S1: "spbag_combine this that S = Some S1" "sp_inv S1 ext"
    "sp_bags S1 = (sp_bags S)(this \<mapsto> B\<lparr>bag_ds := r\<rparr>)" "sp_new S1 = sp_new S" "sp_ds S1 r = Some n"
    "ds_par n = None" "r = bag_ds B \<longrightarrow> ds_parent_or_bag n = bag_tag this B"
    "sp_united r B C S S1"
    using spbag_combine_ok [OF inv ne B(1,2) C ranks] by blast
  have "\<not> is_SBag B" using B(3) by (simp add: is_SBag_bit is_PBag_bit)
  then have "PBag_combine this that S = (if r \<noteq> bag_ds B
      then map_option (\<lambda>h. S1\<lparr>sp_ds := h\<rparr>) (ds_set_pob r (bag_tag this B) (sp_ds S1)) else Some S1)"
    using B S1(1,3) by (simp add: PBag_combine_def ds_set_pbag_def bag_tag_def)
  then show ?thesis using spbag_retag_ok [OF S1(2) B(1) S1(3-8)] by simp
qed

text \<open>Every other bag still owns its set after a merge.\<close>

lemma sp_merged_owns:
  assumes S: "sp_inv S ext" and S': "sp_inv S' ext'" and m: "sp_merged this B C S S'"
    and t1: "sp_bags S this = Some B" "sp_owns S this" and t2: "sp_bags S that = Some C" "sp_owns S that"
    and b: "sp_owns S b" "b \<noteq> that" "b \<noteq> this" and C0: "bag_ds C \<noteq> 0"
  shows "sp_owns S' b"
proof -
  obtain D where D: "sp_bags S b = Some D" using b by (auto simp: sp_owns_def)
  have D': "sp_bags S' b = Some D" using m b(3) D by (auto simp: sp_merged_def)
  show ?thesis
  proof (cases "bag_ds D = 0")
    case True
    then show ?thesis using D' by (simp add: sp_owns_def)
  next
    case False
    then obtain n where n: "sp_ds S (bag_ds D) = Some n" "ds_par n = None" "ds_parent_or_bag n = bag_tag b D"
      using b(1) D by (auto simp: sp_owns_def)
    have other: "bag_ds D \<noteq> bag_ds E" if E: "sp_bags S c = Some E" "sp_owns S c" "b \<noteq> c" for c E
    proof
      assume eq: "bag_ds D = bag_ds E"
      then have "bag_tag b D = bag_tag c E" using n E(1,2) False by (auto simp: sp_owns_def)
      then show False using bag_tag_inj sp_invD(4) [OF S D] sp_invD(4) [OF S E(1)] E(3) by blast
    qed
    have rep: "ds_rep (sp_ds S) (bag_ds D) (bag_ds D)" using n by (blast intro: ds_rep.root)
    have live: "sp_ds S' (bag_ds D) \<noteq> None" using sp_inv_bag_live(2) [OF S' D' False] by blast
    have "bag_ds D \<notin> {bag_ds B, bag_ds C}" using other [OF t1 b(3)] other [OF t2 b(2)] by simp
    then have r: "ds_rep (sp_ds S') (bag_ds D) (bag_ds D)" "sp_in S' (bag_ds D) (ds_parent_or_bag n)"
      using m live rep n(1) unfolding sp_merged_def by (auto split: if_splits)
    then obtain n' where n': "sp_ds S' (bag_ds D) = Some n'" "ds_par n' = None" using ds_rep_root by blast
    then show ?thesis using D' r sp_in_rep [OF r(1) n'(1)] n(3) by (auto simp: sp_owns_def)
  qed
qed

text \<open>A new S-bag owns the set of its one new node.\<close>

lemma sp_alloc_ok:
  assumes "sp_alloc S = Some (a, S')"
  shows "a \<noteq> 0" "aligned4 a" "sp_ds S a = None" "sp_bags S a = None" "sp_ds S' = sp_ds S"
    "sp_bags S' = sp_bags S" "sp_list S' = sp_list S" "sp_new S = a # sp_new S'"
  using assms by (auto simp: sp_alloc_def split: list.splits if_splits)

lemma sp_inv_fields:
  "sp_ds S' = sp_ds S \<Longrightarrow> sp_bags S' = sp_bags S \<Longrightarrow> sp_list S' = sp_list S \<Longrightarrow> sp_inv S' ext = sp_inv S ext"
  by (simp add: sp_inv_def)

lemma sp_put_new_bag_ok:
  assumes "sp_inv S ext" "sp_bags S b = None" "b \<noteq> 0" "aligned4 b" "bag_ds B = 0"
  shows "sp_inv (sp_put_bag b B S) ext"
proof -
  have "bag_ext ext ((sp_bags S)(b \<mapsto> B)) = bag_ext ext (sp_bags S)"
    using bag_ext_put_None [of "sp_bags S" b ext B] assms by (simp add: opt_ptr_def)
  then show ?thesis using assms by (auto simp: sp_inv_def sp_put_bag_def)
qed

lemma createNewPBag_ok:
  assumes inv: "sp_inv S ext" and c: "createNewPBag S = Some (b, S')"
  shows "sp_inv S' ext" "sp_bags S b = None" "sp_bags S' = (sp_bags S)(b \<mapsto> SPBag_init PBag)"
    "sp_ds S' = sp_ds S" "sp_owns S' b"
proof -
  obtain S1 where S1: "sp_alloc S = Some (b, S1)" "S' = sp_put_bag b (SPBag_init PBag) S1"
    using c by (auto simp: createNewPBag_def bind_eq_Some_conv)
  note A = sp_alloc_ok [OF S1(1)]
  have "sp_inv S1 ext" using inv A by (simp add: sp_inv_def)
  then show "sp_inv S' ext"
    using S1(2) A by (auto intro!: sp_put_new_bag_ok simp: SPBag_init_def)
  show "sp_bags S b = None" "sp_bags S' = (sp_bags S)(b \<mapsto> SPBag_init PBag)" "sp_ds S' = sp_ds S"
    "sp_owns S' b"
    using A S1(2) by (simp_all add: sp_put_bag_def sp_owns_def SPBag_init_def)
qed

text \<open>References from outside, with those of the bags.\<close>

lemma bag_ext_inc: "bag_ext (ext_inc p ext) bags = ext_inc p (bag_ext ext bags)"
  by (auto simp: bag_ext_def ext_inc_apply)

lemma bag_ext_dec: "0 < ext a \<Longrightarrow> bag_ext (ext_dec (Some a) ext) bags = ext_dec (Some a) (bag_ext ext bags)"
  by (auto simp: bag_ext_def fun_eq_iff)

end
