(* ===== verification/Frames.thy ===== *)
theory Frames
  imports SPBags
begin

text \<open>
  The frames of \<open>cilksan/frame_data.h\<close>: the entry and frame type packed into a byte, the S-bag, the
  array of P-bags (one for each sync region), the iteration bag of a loop frame, and the bits that say
  in which continuations the frame is.  A frame holds the addresses of its bags; 0 is \<open>nullptr\<close>,
  and a null array of P-bags is \<^term>\<open>None\<close>.
\<close>

subsection \<open>\<open>EntryFrameType\<close>\<close>

type_synonym EntryFrameType = u8

definition SPAWNER :: EntryFrameType where "SPAWNER = 1"
definition HELPER :: EntryFrameType where "HELPER = 2"
definition DETACHER :: EntryFrameType where "DETACHER = 3"
definition ENTRY_MASK :: EntryFrameType where "ENTRY_MASK = 3"
definition SHADOW_FRAME :: EntryFrameType where "SHADOW_FRAME = 4"
definition FULL_FRAME :: EntryFrameType where "FULL_FRAME = 8"
definition LOOP_FRAME :: EntryFrameType where "LOOP_FRAME = 12"
definition FRAME_MASK :: EntryFrameType where "FRAME_MASK = 12"
definition SPAWNER_SHADOW_FRAME :: EntryFrameType where
  "SPAWNER_SHADOW_FRAME = SPAWNER OR SHADOW_FRAME"
definition DETACHER_SHADOW_FRAME :: EntryFrameType where
  "DETACHER_SHADOW_FRAME = DETACHER OR SHADOW_FRAME"

definition isSpawner :: "EntryFrameType \<Rightarrow> bool" where "isSpawner e \<longleftrightarrow> e AND SPAWNER = SPAWNER"
definition isHelper :: "EntryFrameType \<Rightarrow> bool" where "isHelper e \<longleftrightarrow> e AND HELPER = HELPER"
definition isDetacher :: "EntryFrameType \<Rightarrow> bool" where "isDetacher e \<longleftrightarrow> e AND DETACHER = DETACHER"
definition isShadowFrame :: "EntryFrameType \<Rightarrow> bool" where
  "isShadowFrame e \<longleftrightarrow> e AND SHADOW_FRAME = SHADOW_FRAME"
definition isFullFrame :: "EntryFrameType \<Rightarrow> bool" where
  "isFullFrame e \<longleftrightarrow> e AND FULL_FRAME = FULL_FRAME"
definition isLoopFrame :: "EntryFrameType \<Rightarrow> bool" where
  "isLoopFrame e \<longleftrightarrow> e AND LOOP_FRAME = LOOP_FRAME"

definition setSpawner :: "EntryFrameType \<Rightarrow> EntryFrameType" where
  "setSpawner e = (e AND NOT ENTRY_MASK) OR SPAWNER"
definition setHelper :: "EntryFrameType \<Rightarrow> EntryFrameType" where
  "setHelper e = (e AND NOT ENTRY_MASK) OR HELPER"
definition setDetacher :: "EntryFrameType \<Rightarrow> EntryFrameType" where
  "setDetacher e = (e AND NOT ENTRY_MASK) OR DETACHER"
definition setShadowFrame :: "EntryFrameType \<Rightarrow> EntryFrameType" where
  "setShadowFrame e = (e AND NOT FRAME_MASK) OR SHADOW_FRAME"
definition setFullFrame :: "EntryFrameType \<Rightarrow> EntryFrameType" where
  "setFullFrame e = (e AND NOT FRAME_MASK) OR FULL_FRAME"
definition setLoopFrame :: "EntryFrameType \<Rightarrow> EntryFrameType" where
  "setLoopFrame e = (e AND NOT FRAME_MASK) OR LOOP_FRAME"

lemmas eft_defs = SPAWNER_def HELPER_def DETACHER_def ENTRY_MASK_def SHADOW_FRAME_def FULL_FRAME_def
  LOOP_FRAME_def FRAME_MASK_def isSpawner_def isHelper_def isDetacher_def isShadowFrame_def
  isFullFrame_def isLoopFrame_def setSpawner_def setHelper_def setDetacher_def setShadowFrame_def
  setFullFrame_def setLoopFrame_def

subsection \<open>Frames\<close>

record FrameData_t =
  Sbag_used :: bool
  Iterbag_used :: bool
  frame_data :: EntryFrameType
  InContin :: u8
  ParentContin :: u32
  num_Pbags :: u32
  Sbag :: u64
  Pbags :: "u64 list option"
  Iterbag :: u64
  reducer_views :: u64

text \<open>The value-initialised frame of \<open>new FrameData_t[n]()\<close>.\<close>

definition FrameData_default :: FrameData_t where
  "FrameData_default =
     \<lparr>Sbag_used = False, Iterbag_used = False, frame_data = 0, InContin = 0, ParentContin = 0,
      num_Pbags = 0, Sbag = 0, Pbags = None, Iterbag = 0, reducer_views = 0\<rparr>"

definition delete_if :: "u64 \<Rightarrow> 'd sp_state \<Rightarrow> 'd sp_state option" where
  "delete_if b S = (if b \<noteq> 0 then spbag_delete b S else Some S)"

definition set_sbag :: "u64 \<Rightarrow> FrameData_t \<Rightarrow> 'd sp_state \<Rightarrow> (FrameData_t \<times> 'd sp_state) option" where
  "set_sbag that f S =
     do {
       S \<leftarrow> delete_if (Sbag f) S;
       Some (f\<lparr>Sbag := that, Sbag_used := False\<rparr>, S)
     }"

definition set_pbag :: "nat \<Rightarrow> u64 \<Rightarrow> FrameData_t \<Rightarrow> 'd sp_state \<Rightarrow> (FrameData_t \<times> 'd sp_state) option"
where
  "set_pbag idx that f S =
     (if \<not> idx < unat (num_Pbags f) then None
      else do {
        ps \<leftarrow> Pbags f;
        p \<leftarrow> arr_get ps idx;
        S \<leftarrow> delete_if p S;
        Some (f\<lparr>Pbags := Some (ps[idx := that])\<rparr>, S)
      })"

definition set_iterbag :: "u64 \<Rightarrow> FrameData_t \<Rightarrow> 'd sp_state \<Rightarrow> (FrameData_t \<times> 'd sp_state) option" where
  "set_iterbag that f S =
     do {
       S \<leftarrow> delete_if (Iterbag f) S;
       Some (f\<lparr>Iterbag := that, Iterbag_used := False\<rparr>, S)
     }"

text \<open>The loop of \<open>clear_pbag_array\<close> over the indices from \<open>i\<close>, \<open>k\<close> of them remaining.\<close>

primrec clear_pbags_loop ::
  "nat \<Rightarrow> nat \<Rightarrow> FrameData_t \<Rightarrow> 'd sp_state \<Rightarrow> (FrameData_t \<times> 'd sp_state) option" where
  "clear_pbags_loop 0 i f S = Some (f, S)"
| "clear_pbags_loop (Suc k) i f S =
     do { (f, S) \<leftarrow> set_pbag i 0 f S; clear_pbags_loop k (Suc i) f S }"

definition clear_pbag_array :: "FrameData_t \<Rightarrow> 'd sp_state \<Rightarrow> (FrameData_t \<times> 'd sp_state) option" where
  "clear_pbag_array f S =
     (if Pbags f = None then Some (f, S)
      else do {
        (f, S) \<leftarrow> clear_pbags_loop (unat (num_Pbags f)) 0 f S;
        Some (f\<lparr>Pbags := None, num_Pbags := 0\<rparr>, S)
      })"

definition make_pbag_array ::
  "u32 \<Rightarrow> FrameData_t \<Rightarrow> 'd sp_state \<Rightarrow> (FrameData_t \<times> 'd sp_state) option" where
  "make_pbag_array num_pbags f S =
     do {
       (f, S) \<leftarrow> clear_pbag_array f S;
       Some (f\<lparr>Pbags := Some (replicate (unat num_pbags) 0), num_Pbags := num_pbags\<rparr>, S)
     }"

definition copy_pbag_array ::
  "u32 \<Rightarrow> u64 list option \<Rightarrow> FrameData_t \<Rightarrow> 'd sp_state \<Rightarrow> (FrameData_t \<times> 'd sp_state) option" where
  "copy_pbag_array n ps f S =
     do {
       (f, S) \<leftarrow> clear_pbag_array f S;
       Some (f\<lparr>Pbags := ps, num_Pbags := n\<rparr>, S)
     }"

definition set_parent_continuation :: "u32 \<Rightarrow> FrameData_t \<Rightarrow> FrameData_t" where
  "set_parent_continuation c f = f\<lparr>ParentContin := c\<rparr>"

definition frame_reset :: "FrameData_t \<Rightarrow> 'd sp_state \<Rightarrow> (FrameData_t \<times> 'd sp_state) option" where
  "frame_reset f S =
     do {
       (f, S) \<leftarrow> set_sbag 0 f S;
       (f, S) \<leftarrow> clear_pbag_array f S;
       (f, S) \<leftarrow> set_iterbag 0 f S;
       Some (set_parent_continuation 0 (f\<lparr>InContin := 0\<rparr>), S)
     }"

definition init_new_function ::
  "u64 \<Rightarrow> FrameData_t \<Rightarrow> 'd sp_state \<Rightarrow> (FrameData_t \<times> 'd sp_state) option" where
  "init_new_function sbag f S =
     (if Pbags f \<noteq> None \<or> num_Pbags f \<noteq> 0 then None else set_sbag sbag f S)"

definition in_continuation :: "FrameData_t \<Rightarrow> bool" where
  "in_continuation f \<longleftrightarrow> InContin f \<noteq> 0"

definition enter_loop_continuation :: "FrameData_t \<Rightarrow> FrameData_t" where
  "enter_loop_continuation f = f\<lparr>InContin := InContin f OR 1\<rparr>"

definition exit_loop_continuation :: "FrameData_t \<Rightarrow> FrameData_t" where
  "exit_loop_continuation f = f\<lparr>InContin := InContin f AND NOT 1\<rparr>"

definition enter_continuation :: "nat \<Rightarrow> FrameData_t \<Rightarrow> FrameData_t option" where
  "enter_continuation sync_reg f =
     (if \<not> sync_reg < 7 then None
      else Some (f\<lparr>InContin := InContin f OR push_bit sync_reg 2\<rparr>))"

definition exit_continuation :: "nat \<Rightarrow> FrameData_t \<Rightarrow> FrameData_t option" where
  "exit_continuation sync_reg f =
     (if \<not> sync_reg < 7 then None
      else Some (f\<lparr>InContin := InContin f AND NOT (push_bit sync_reg 2)\<rparr>))"

definition is_loop_frame :: "FrameData_t \<Rightarrow> bool" where
  "is_loop_frame f \<longleftrightarrow> isLoopFrame (frame_data f)"

definition create_iterbag :: "FrameData_t \<Rightarrow> 'd sp_state \<Rightarrow> (FrameData_t \<times> 'd sp_state) option" where
  "create_iterbag f S =
     (if \<not> is_loop_frame f then None
      else do {
        B \<leftarrow> sp_bags S (Sbag f);
        data \<leftarrow> ds_get_data (bag_ds B) (sp_ds S);
        (newIterbag, S) \<leftarrow> createNewSBag data S;
        set_iterbag newIterbag f S
      })"

definition frame_inc_version :: "FrameData_t \<Rightarrow> 'd sp_state \<Rightarrow> (bool \<times> 'd sp_state) option" where
  "frame_inc_version f S =
     (if Iterbag f = 0 then None
      else do {
        B \<leftarrow> sp_bags S (Iterbag f);
        let (ok, B) = SBag_inc_version B;
        Some (ok, sp_put_bag (Iterbag f) B S)
      })"

definition check_parallel_iter :: "u64 \<Rightarrow> version_t \<Rightarrow> FrameData_t \<Rightarrow> 'd sp_state \<Rightarrow> bool option" where
  "check_parallel_iter LCA version f S =
     (if \<not> is_loop_frame f then Some False
      else if LCA \<noteq> Iterbag f then Some False
      else map_option (\<lambda>B. version < SBag_get_version B) (sp_bags S LCA))"

definition getSbagForAccess :: "FrameData_t \<Rightarrow> u64 \<times> FrameData_t" where
  "getSbagForAccess f =
     (if \<not> is_loop_frame f then (Sbag f, f\<lparr>Sbag_used := True\<rparr>)
      else (Iterbag f, f\<lparr>Iterbag_used := True\<rparr>))"

text \<open>The move assignment: the moved-from frame keeps only its type.\<close>

definition frame_move :: "FrameData_t \<Rightarrow> FrameData_t \<times> FrameData_t" where
  "frame_move that = (that, FrameData_default\<lparr>frame_data := frame_data that\<rparr>)"

subsection \<open>The type byte and the continuation bits\<close>

lemma bit_u8_consts:
  "bit (3 :: u8) n \<longleftrightarrow> n = 0 \<or> n = 1" "bit (12 :: u8) n \<longleftrightarrow> n = 2 \<or> n = 3"
proof -
  have "(3 :: u8) = mask 2" "(12 :: u8) = push_bit 2 (mask 2)" by (simp_all add: mask_eq_exp_minus_1)
  then show "bit (3 :: u8) n \<longleftrightarrow> n = 0 \<or> n = 1" "bit (12 :: u8) n \<longleftrightarrow> n = 2 \<or> n = 3"
    by (simp_all only: bit_push_bit_iff Word.bit_mask_iff) auto
qed

text \<open>Setting the entry type leaves the frame type alone, and the other way round.\<close>

lemma set_entry_keeps_frame:
  "setSpawner e AND FRAME_MASK = e AND FRAME_MASK"
  "setHelper e AND FRAME_MASK = e AND FRAME_MASK"
  "setDetacher e AND FRAME_MASK = e AND FRAME_MASK"
  "setSpawner e AND ENTRY_MASK = SPAWNER" "setHelper e AND ENTRY_MASK = HELPER"
  "setDetacher e AND ENTRY_MASK = DETACHER"
  by (simp_all add: eft_defs bit.conj_disj_distrib2 and.assoc)

lemma set_frame_keeps_entry:
  "setShadowFrame e AND ENTRY_MASK = e AND ENTRY_MASK"
  "setFullFrame e AND ENTRY_MASK = e AND ENTRY_MASK"
  "setLoopFrame e AND ENTRY_MASK = e AND ENTRY_MASK"
  "setShadowFrame e AND FRAME_MASK = SHADOW_FRAME" "setFullFrame e AND FRAME_MASK = FULL_FRAME"
  "setLoopFrame e AND FRAME_MASK = LOOP_FRAME"
  by (simp_all add: eft_defs bit.conj_disj_distrib2 and.assoc)

lemma isLoopFrame_setLoopFrame: "isLoopFrame (setLoopFrame e)" "isDetacher (setLoopFrame e) = isDetacher e"
  using set_frame_keeps_entry(3,6) [of e] by (simp_all add: eft_defs)

text \<open>The bits of \<open>InContin\<close>: bit 0 for the loop continuation, bit \<open>s + 1\<close> for sync region \<open>s\<close>.\<close>

lemma bit_contin_mask:
  assumes "s < 7" "n < 8"
  shows "bit (push_bit s (2 :: u8)) n \<longleftrightarrow> n = Suc s"
  using assms by (simp only: bit_push_bit_iff bit_2_iff) auto

lemma bit_InContin:
  assumes "enter_continuation s f = Some f'" "n < 8"
  shows "bit (InContin f') n \<longleftrightarrow> bit (InContin f) n \<or> n = Suc s"
proof -
  have s: "s < 7" "InContin f' = InContin f OR push_bit s 2"
    using assms(1) by (auto simp: enter_continuation_def split: if_splits)
  show ?thesis unfolding s(2) bit_or_iff using bit_contin_mask [OF s(1) assms(2)] by blast
qed

lemma bit_InContin_exit:
  assumes "exit_continuation s f = Some f'" "n < 8"
  shows "bit (InContin f') n \<longleftrightarrow> bit (InContin f) n \<and> n \<noteq> Suc s"
proof -
  have s: "s < 7" "InContin f' = InContin f AND NOT (push_bit s 2)"
    using assms(1) by (auto simp: exit_continuation_def split: if_splits)
  show ?thesis unfolding s(2) bit_and_iff bit_not_iff
    using bit_contin_mask [OF s(1) assms(2)] assms(2) by auto
qed

text \<open>The continuations that a frame is in: 0 is the loop's, \<open>s + 1\<close> is sync region \<open>s\<close>'s.\<close>

definition contins :: "FrameData_t \<Rightarrow> nat set" where
  "contins f = {n. bit (InContin f) n}"

lemma contins_8: "n \<in> contins f \<Longrightarrow> n < 8"
  using bit_imp_le_length [of "InContin f" n] by (simp add: contins_def)

lemma contins_eqI: "(\<And>n. n < 8 \<Longrightarrow> n \<in> contins f \<longleftrightarrow> n \<in> A) \<Longrightarrow> (\<And>n. n \<in> A \<Longrightarrow> n < 8) \<Longrightarrow> contins f = A"
  using contins_8 [of _ f] by blast

lemma contins_enter: "enter_continuation s f = Some f' \<Longrightarrow> contins f' = insert (Suc s) (contins f)"
proof -
  assume e: "enter_continuation s f = Some f'"
  then have "Suc s < 8" by (simp add: enter_continuation_def split: if_splits)
  then show ?thesis using bit_InContin [OF e] contins_8 [of _ f]
    by (intro contins_eqI) (auto simp: contins_def)
qed

lemma contins_exit: "exit_continuation s f = Some f' \<Longrightarrow> contins f' = contins f - {Suc s}"
  using bit_InContin_exit [of s f f'] contins_8 [of _ f] by (intro contins_eqI) (auto simp: contins_def)

lemma contins_loop:
  "contins (enter_loop_continuation f) = insert 0 (contins f)"
  "contins (exit_loop_continuation f) = contins f - {0}"
  by (auto simp: contins_def enter_loop_continuation_def exit_loop_continuation_def bit_simps bit_1_iff
      dest: bit_imp_le_length)

lemma in_continuation_contins: "in_continuation f \<longleftrightarrow> contins f \<noteq> {}"
  unfolding in_continuation_def contins_def using bit_eqI [of "InContin f" 0] by auto

end
