(* ===== verification/Reducers.thy ===== *)
theory Reducers
  imports Hypertable Frames
begin

text \<open>
  The tables of reducer views of \<open>cilksan/reducers.cpp\<close> and \<open>cilksan_internal.h\<close>: a frame points to a
  \<open>hyper_table\<close> of views, two tables are merged by calling the reduce functions of the program, and a
  lookup creates a view on demand.  The tables live in a heap of their own; the memory \<open>'m\<close> of the
  program and its functions (reduce, identity, \<open>malloc\<close>, \<open>free\<close>) are parameters of the model, grouped in
  \<open>user_code\<close>.  The views that were freed, for which the tool then calls \<open>mark_free\<close>, are returned in
  order.
\<close>

record reducer_base =
  rb_view :: u64
  rb_reduce_fn :: u64

definition reducer_base_default :: reducer_base where
  "reducer_base_default = \<lparr>rb_view = 0, rb_reduce_fn = 0\<rparr>"

type_synonym reducer_table = "reducer_base hyper_table"

text \<open>\<open>uc_reduce fn left right\<close> and \<open>uc_identity fn view\<close> run a function of the program.\<close>

record 'm user_code =
  uc_reduce :: "u64 \<Rightarrow> u64 \<Rightarrow> u64 \<Rightarrow> 'm \<Rightarrow> 'm"
  uc_identity :: "u64 \<Rightarrow> u64 \<Rightarrow> 'm \<Rightarrow> 'm"
  uc_malloc :: "u64 \<Rightarrow> 'm \<Rightarrow> u64 \<times> 'm"
  uc_free :: "u64 \<Rightarrow> 'm \<Rightarrow> 'm"

record 'm rv_state =
  rv_tables :: "u64 \<rightharpoonup> reducer_table"
  rv_mem :: 'm
  rv_new :: "u64 list"

definition rv_put :: "u64 \<Rightarrow> reducer_table \<Rightarrow> 'm rv_state \<Rightarrow> 'm rv_state" where
  "rv_put t T R = R\<lparr>rv_tables := (rv_tables R)(t \<mapsto> T)\<rparr>"

definition rv_delete :: "u64 \<Rightarrow> 'm rv_state \<Rightarrow> 'm rv_state option" where
  "rv_delete t R =
     (if rv_tables R t = None then None else Some (R\<lparr>rv_tables := (rv_tables R)(t := None)\<rparr>))"

text \<open>\<open>new hyper_table\<close>, at the next address that the allocator returns.\<close>

definition rv_new_table :: "'m rv_state \<Rightarrow> (u64 \<times> 'm rv_state) option" where
  "rv_new_table R =
     (case rv_new R of
        [] \<Rightarrow> None
      | t # ts \<Rightarrow>
          if t = 0 \<or> rv_tables R t \<noteq> None then None
          else Some (t, rv_put t (hyper_table_new reducer_base_default) (R\<lparr>rv_new := ts\<rparr>)))"

subsection \<open>Merging two tables\<close>

text \<open>The loop over the buckets of the source table: \<open>T\<close> is the destination, \<open>m\<close> the memory of the
  program.  When the destination is the left table its view is reduced into, and otherwise the view of
  the source, which then replaces it.\<close>

primrec merge_loop ::
  "'m user_code \<Rightarrow> bool \<Rightarrow> reducer_base bucket list \<Rightarrow> reducer_table \<Rightarrow> 'm \<Rightarrow>
     (reducer_table \<times> 'm \<times> u64 list) option" where
  "merge_loop U left_dst [] T m = Some (T, m, [])"
| "merge_loop U left_dst (b # bs) T m =
     (if \<not> is_valid (b_key b) then merge_loop U left_dst bs T m
      else do {
        dst_bucket \<leftarrow> ht_find (b_key b) T;
        (case dst_bucket of
           None \<Rightarrow> do {
             (success, T) \<leftarrow> ht_insert reducer_base_default INSERT_FUEL b T;
             merge_loop U left_dst bs T m
           }
         | Some i \<Rightarrow> do {
             c \<leftarrow> arr_get (ht_buckets T) i;
             let dst_rb = b_value c;
             let v = rb_view (b_value b);
             (if left_dst
              then do {
                let m = uc_free U v (uc_reduce U (rb_reduce_fn dst_rb) (rb_view dst_rb) v m);
                (T, m, freed) \<leftarrow> merge_loop U left_dst bs T m;
                Some (T, m, v # freed)
              }
              else do {
                let m = uc_free U (rb_view dst_rb) (uc_reduce U (rb_reduce_fn dst_rb) v (rb_view dst_rb) m);
                T \<leftarrow> ht_put i (c\<lparr>b_value := dst_rb\<lparr>rb_view := v\<rparr>\<rparr>) T;
                (T, m, freed) \<leftarrow> merge_loop U left_dst bs T m;
                Some (T, m, rb_view dst_rb # freed)
              })
           })
      })"

definition merge_two_hyper_tables ::
  "'m user_code \<Rightarrow> u64 \<Rightarrow> u64 \<Rightarrow> 'm rv_state \<Rightarrow> (u64 \<times> u64 list \<times> 'm rv_state) option" where
  "merge_two_hyper_tables U left right R =
     (if left = 0 then Some (right, [], R)
      else if right = 0 then Some (left, [], R)
      else do {
        L \<leftarrow> rv_tables R left;
        Rt \<leftarrow> rv_tables R right;
        (if ht_occupancy L = 0 then map_option (\<lambda>R. (right, [], R)) (rv_delete left R)
         else if ht_occupancy Rt = 0 then map_option (\<lambda>R. (left, [], R)) (rv_delete right R)
         else do {
           let left_dst = (ht_occupancy L \<ge> ht_occupancy Rt);
           let (src, dst) = (if left_dst then (right, left) else (left, right));
           S \<leftarrow> rv_tables R src;
           D \<leftarrow> rv_tables R dst;
           let src_capacity = (if ht_capacity S < MIN_HT_CAPACITY then nat (ht_occupancy S)
                               else unat (ht_capacity S));
           (D, m, freed) \<leftarrow> merge_loop U left_dst (take src_capacity (ht_buckets S)) D (rv_mem R);
           R \<leftarrow> rv_delete src (rv_put dst D (R\<lparr>rv_mem := m\<rparr>));
           Some (dst, freed, R)
         })
      })"

text \<open>\<open>set_or_merge_reducer_views\<close> and \<open>get_or_create_reducer_views\<close> of \<open>frame_data.h\<close>.\<close>

definition set_or_merge_reducer_views ::
  "'m user_code \<Rightarrow> u64 \<Rightarrow> FrameData_t \<Rightarrow> 'm rv_state \<Rightarrow> (FrameData_t \<times> u64 list \<times> 'm rv_state) option" where
  "set_or_merge_reducer_views U right_table f R =
     map_option (\<lambda>(t, freed, R). (f\<lparr>reducer_views := t\<rparr>, freed, R))
       (merge_two_hyper_tables U (reducer_views f) right_table R)"

definition frame_get_or_create_reducer_views ::
  "FrameData_t \<Rightarrow> 'm rv_state \<Rightarrow> (u64 \<times> FrameData_t \<times> 'm rv_state) option" where
  "frame_get_or_create_reducer_views f R =
     (if reducer_views f = 0
      then map_option (\<lambda>(t, R). (t, f\<lparr>reducer_views := t\<rparr>, R)) (rv_new_table R)
      else Some (reducer_views f, f, R))"

subsection \<open>Reducing into the leftmost views\<close>

text \<open>
  The loop of \<open>reduce_local_views\<close> over the buckets: it returns whether the table holds leftmost views,
  and the views that were reduced and freed, with their keys.  The keys are pushed to a vector of
  \<open>int32_t\<close>, which keeps their low 32 bits.
\<close>

primrec reduce_loop ::
  "'m user_code \<Rightarrow> reducer_base bucket list \<Rightarrow> 'm \<Rightarrow> bool \<times> (u64 \<times> u32) list \<times> 'm" where
  "reduce_loop U [] m = (False, [], m)"
| "reduce_loop U (b # bs) m =
     (if \<not> is_valid (b_key b) then reduce_loop U bs m
      else if b_key b = rb_view (b_value b)
      then (let (_, removed, m) = reduce_loop U bs m in (True, removed, m))
      else
        let v = rb_view (b_value b);
            m = uc_free U v (uc_reduce U (rb_reduce_fn (b_value b)) (b_key b) v m);
            (holds, removed, m) = reduce_loop U bs m
        in (holds, (v, ucast (b_key b)) # removed, m))"

text \<open>The loop that removes the reduced views: the vector holds keys, but the code uses them as indices
  into the array of buckets; an index outside the array is \<^term>\<open>None\<close>.\<close>

primrec remove_keys_loop :: "u32 list \<Rightarrow> reducer_table \<Rightarrow> reducer_table option" where
  "remove_keys_loop [] T = Some T"
| "remove_keys_loop (k # ks) T =
     do {
       b \<leftarrow> (if sint k < 0 then None else arr_get (ht_buckets T) (nat (sint k)));
       (_, T) \<leftarrow> ht_remove reducer_base_default (b_key b) T;
       remove_keys_loop ks T
     }"

definition reduce_leftmost ::
  "'m user_code \<Rightarrow> u64 \<Rightarrow> 'm rv_state \<Rightarrow> (u64 \<times> u64 list \<times> 'm rv_state) option" where
  "reduce_leftmost U t R =
     do {
       T \<leftarrow> rv_tables R t;
       let (holdsLeftmostViews, removed, m) = reduce_loop U (take (unat (ht_capacity T)) (ht_buckets T)) (rv_mem R);
       let R = R\<lparr>rv_mem := m\<rparr>;
       (if \<not> holdsLeftmostViews then map_option (\<lambda>R. (0, map fst removed, R)) (rv_delete t R)
        else do {
          T \<leftarrow> remove_keys_loop (map snd removed) T;
          Some (t, map fst removed, rv_put t T R)
        })
     }"

subsection \<open>Views on demand\<close>

definition reducer_lookup :: "u64 \<Rightarrow> u64 \<Rightarrow> 'm rv_state \<Rightarrow> u64 option" where
  "reducer_lookup t key R =
     do {
       T \<leftarrow> rv_tables R t;
       b \<leftarrow> ht_find key T;
       (case b of
          None \<Rightarrow> Some 0
        | Some i \<Rightarrow> do {
            c \<leftarrow> arr_get (ht_buckets T) i;
            if key = b_key c then Some (rb_view (b_value c)) else None
          })
     }"

definition rv_insert :: "u64 \<Rightarrow> u64 \<Rightarrow> u64 \<Rightarrow> u64 \<Rightarrow> 'm rv_state \<Rightarrow> (bool \<times> 'm rv_state) option" where
  "rv_insert t key view reduce R =
     do {
       T \<leftarrow> rv_tables R t;
       (success, T) \<leftarrow> ht_insert reducer_base_default INSERT_FUEL
         \<lparr>b_key = key, b_hash = 0, b_value = \<lparr>rb_view = view, rb_reduce_fn = reduce\<rparr>\<rparr> T;
       Some (success, rv_put t T R)
     }"

definition rv_remove :: "u64 \<Rightarrow> u64 \<Rightarrow> 'm rv_state \<Rightarrow> 'm rv_state option" where
  "rv_remove t key R =
     do {
       T \<leftarrow> rv_tables R t;
       (_, T) \<leftarrow> ht_remove reducer_base_default key T;
       Some (rv_put t T R)
     }"

end
