(* ===== verification/Stats.thy ===== *)
theory Stats
  imports Prelude
begin

text \<open>
  The statistics of \<open>cilksan_internal.h\<close>: how many accesses of each size were checked, in total, in the
  current strand, and at most in one strand.  A \<open>std::unordered_map\<close> from sizes to counts is a partial
  map; the counts are 64-bit.
\<close>

type_synonym size_map = "u64 \<rightharpoonup> u64"

record stats_t =
  collect_stats :: bool
  strand_count :: u64
  total_reads_checked :: u64
  total_writes_checked :: u64
  num_reads_checked :: size_map
  num_writes_checked :: size_map
  max_num_reads_checked :: size_map
  max_num_writes_checked :: size_map
  strand_num_reads_checked :: size_map
  strand_num_writes_checked :: size_map

definition stats_init :: "bool \<Rightarrow> stats_t" where
  "stats_init collect =
     \<lparr>collect_stats = collect, strand_count = 0, total_reads_checked = 0, total_writes_checked = 0,
      num_reads_checked = Map.empty, num_writes_checked = Map.empty,
      max_num_reads_checked = Map.empty, max_num_writes_checked = Map.empty,
      strand_num_reads_checked = Map.empty, strand_num_writes_checked = Map.empty\<rparr>"

text \<open>\<open>if (!m.count(k)) m.insert(\{k, 0\}); ++m[k];\<close>\<close>

definition count_size :: "u64 \<Rightarrow> size_map \<Rightarrow> size_map" where
  "count_size k m =
     (let m = (if m k = None then m(k \<mapsto> 0) else m)
      in case m k of None \<Rightarrow> m | Some n \<Rightarrow> m(k \<mapsto> n + 1))"

definition collect_read_stat :: "u64 \<Rightarrow> stats_t \<Rightarrow> stats_t" where
  "collect_read_stat mem_size s =
     s\<lparr>total_reads_checked := total_reads_checked s + 1,
       num_reads_checked := count_size mem_size (num_reads_checked s),
       strand_num_reads_checked := count_size mem_size (strand_num_reads_checked s)\<rparr>"

definition collect_write_stat :: "u64 \<Rightarrow> stats_t \<Rightarrow> stats_t" where
  "collect_write_stat mem_size s =
     s\<lparr>total_writes_checked := total_writes_checked s + 1,
       num_writes_checked := count_size mem_size (num_writes_checked s),
       strand_num_writes_checked := count_size mem_size (strand_num_writes_checked s)\<rparr>"

text \<open>The loop over the entries of the strand: each size has one entry, so the loop acts on each size
  alone.\<close>

definition max_sizes :: "size_map \<Rightarrow> size_map \<Rightarrow> size_map" where
  "max_sizes strand mx =
     (\<lambda>k. case strand k of
            None \<Rightarrow> mx k
          | Some n \<Rightarrow> (case mx k of None \<Rightarrow> Some n | Some m \<Rightarrow> if m < n then Some n else Some m))"

definition update_strand_stats :: "stats_t \<Rightarrow> stats_t" where
  "update_strand_stats s =
     (if \<not> collect_stats s then s
      else s\<lparr>strand_count := strand_count s + 1,
             max_num_reads_checked := max_sizes (strand_num_reads_checked s) (max_num_reads_checked s),
             strand_num_reads_checked := Map.empty,
             max_num_writes_checked := max_sizes (strand_num_writes_checked s) (max_num_writes_checked s),
             strand_num_writes_checked := Map.empty\<rparr>)"

text \<open>The count of a size, 0 when it has no entry.\<close>

definition size_count :: "size_map \<Rightarrow> u64 \<Rightarrow> u64" where
  "size_count m k = (case m k of None \<Rightarrow> 0 | Some n \<Rightarrow> n)"

lemma size_count_count: "size_count (count_size k m) j = (if j = k then size_count m k + 1 else size_count m j)"
  by (auto simp: size_count_def count_size_def Let_def)

lemma size_count_max: "size_count (max_sizes s m) k = max (size_count s k) (size_count m k)"
  by (auto simp: size_count_def max_sizes_def max_def split: option.splits)

text \<open>
  A run is the list of its strands, each the list of the sizes it reads; the statistics after the run
  hold, for each size, the largest number of reads in one strand (as long as no count overflows).
\<close>

definition strand_reads :: "u64 list \<Rightarrow> stats_t \<Rightarrow> stats_t" where
  "strand_reads sizes s = update_strand_stats (fold collect_read_stat sizes s)"

lemma fold_collect_read:
  "size_count (strand_num_reads_checked (fold collect_read_stat sizes s)) k =
     size_count (strand_num_reads_checked s) k + of_nat (count_list sizes k)"
  "max_num_reads_checked (fold collect_read_stat sizes s) = max_num_reads_checked s"
  "collect_stats (fold collect_read_stat sizes s) = collect_stats s"
  "total_reads_checked (fold collect_read_stat sizes s) = total_reads_checked s + of_nat (length sizes)"
  by (induction sizes arbitrary: s) (auto simp: collect_read_stat_def size_count_count)

lemma run_max_reads:
  assumes c: "collect_stats s" and z: "strand_num_reads_checked s = Map.empty"
    and fit: "\<forall>xs \<in> set strands. length xs < 2 ^ 64"
  shows "unat (size_count (max_num_reads_checked (fold strand_reads strands s)) k) =
    Max (insert (unat (size_count (max_num_reads_checked s) k)) ((\<lambda>xs. count_list xs k) ` set strands))"
  using assms
proof (induction strands arbitrary: s)
  case (Cons xs strands)
  let ?s = "strand_reads xs s"
  have c': "collect_stats ?s" "strand_num_reads_checked ?s = Map.empty"
    using Cons.prems(1) by (simp_all add: strand_reads_def update_strand_stats_def fold_collect_read)
  have le: "count_list xs k \<le> length xs" by (rule count_le_length)
  have "(of_nat (count_list xs k) :: u64) = size_count (strand_num_reads_checked (fold collect_read_stat xs s)) k"
    using Cons.prems(2) unfolding fold_collect_read by (simp add: size_count_def)
  then have "size_count (max_num_reads_checked ?s) k =
      max (of_nat (count_list xs k)) (size_count (max_num_reads_checked s) k)"
    using Cons.prems(1)
    by (simp add: strand_reads_def update_strand_stats_def fold_collect_read size_count_max)
  moreover have "unat (of_nat (count_list xs k) :: u64) = count_list xs k"
    using le Cons.prems(3) by (simp add: unsigned_of_nat take_bit_nat_eq_self)
  ultimately have m: "unat (size_count (max_num_reads_checked ?s) k) =
      max (count_list xs k) (unat (size_count (max_num_reads_checked s) k))"
    by (simp add: max_def word_le_nat_alt)
  have "unat (size_count (max_num_reads_checked (fold strand_reads strands ?s)) k) =
      Max (insert (unat (size_count (max_num_reads_checked ?s) k)) ((\<lambda>xs. count_list xs k) ` set strands))"
    using Cons.IH [OF c'] Cons.prems(3) by simp
  also have "\<dots> = Max (insert (unat (size_count (max_num_reads_checked s) k))
      (insert (count_list xs k) ((\<lambda>xs. count_list xs k) ` set strands)))"
    unfolding m by (cases "strands = []") (simp_all add: max.assoc max.left_commute)
  finally show ?case by simp
qed simp

end
