(* ===== verification/ShadowLine.thy ===== *)
theory ShadowLine
  imports Prelude "HOL-Library.Monad_Syntax"
begin

text \<open>
  The address arithmetic, the chunks and the lines of the shadow memory
  (\<open>SimpleDictionary\<close> in \<open>cilksan/simple_shadow_mem.h\<close>).  A line covers 512 bytes by an array of
  entries of \<open>2^LgGrainsize\<close> bytes each, allocated lazily, refined to a smaller grainsize on demand
  and coalesced again.  The template parameters \<open>LineDataMethods\<close> and \<open>LineDataSetFn\<close> are a record of
  methods and a function on entries; reference counts of entries are not part of this theory.
\<close>

subsection \<open>Addresses\<close>

definition SD_LG_LINE_SIZE :: nat where "SD_LG_LINE_SIZE = 9"
definition SD_LG_PAGE_SIZE :: nat where "SD_LG_PAGE_SIZE = 30 - SD_LG_LINE_SIZE"
definition SD_LG_TABLE_SIZE :: nat where "SD_LG_TABLE_SIZE = 48 - SD_LG_PAGE_SIZE - SD_LG_LINE_SIZE"
definition SD_LINE_SIZE :: u64 where "SD_LINE_SIZE = push_bit SD_LG_LINE_SIZE 1"
definition SD_PAGE_OFF :: u64 where "SD_PAGE_OFF = push_bit (SD_LG_PAGE_SIZE + SD_LG_LINE_SIZE) 1"
definition SD_BYTE_MASK :: u64 where "SD_BYTE_MASK = SD_LINE_SIZE - 1"
definition SD_LINE_MASK :: u64 where "SD_LINE_MASK = NOT SD_BYTE_MASK"
definition SD_PAGE_MASK :: u64 where "SD_PAGE_MASK = NOT (SD_PAGE_OFF - 1)"
definition SD_LINE_IDX_MASK :: u64 where "SD_LINE_IDX_MASK = SD_LINE_MASK XOR SD_PAGE_MASK"

lemmas sd_consts = SD_LG_LINE_SIZE_def SD_LG_PAGE_SIZE_def SD_LG_TABLE_SIZE_def SD_LINE_SIZE_def
  SD_PAGE_OFF_def SD_BYTE_MASK_def SD_LINE_MASK_def SD_PAGE_MASK_def SD_LINE_IDX_MASK_def

definition sd_byte :: "u64 \<Rightarrow> u64" where "sd_byte addr = addr AND SD_BYTE_MASK"
definition sd_line :: "u64 \<Rightarrow> u64" where
  "sd_line addr = drop_bit SD_LG_LINE_SIZE (addr AND SD_LINE_IDX_MASK)"
definition sd_page :: "u64 \<Rightarrow> u64" where
  "sd_page addr = drop_bit (SD_LG_PAGE_SIZE + SD_LG_LINE_SIZE) addr"

definition alignByPrevGrainsize :: "u64 \<Rightarrow> nat \<Rightarrow> u64" where
  "alignByPrevGrainsize addr lgGrainsize =
     (let grainsize = push_bit lgGrainsize 1; mask = NOT (grainsize - 1) in addr AND mask)"

definition alignByNextGrainsize :: "u64 \<Rightarrow> nat \<Rightarrow> u64" where
  "alignByNextGrainsize addr lgGrainsize =
     (let grainsize = push_bit lgGrainsize 1; mask = NOT (grainsize - 1)
      in (addr + grainsize) AND mask)"

definition isLineStart :: "u64 \<Rightarrow> bool" where "isLineStart addr \<longleftrightarrow> sd_byte addr = 0"
definition isPageStart :: "u64 \<Rightarrow> bool" where "isPageStart addr \<longleftrightarrow> addr AND NOT SD_PAGE_MASK = 0"

subsection \<open>Chunks\<close>

record Chunk_t =
  ck_addr :: u64
  ck_size :: u64

definition Chunk :: "u64 \<Rightarrow> u64 \<Rightarrow> Chunk_t" where
  "Chunk a s = \<lparr>ck_addr = a, ck_size = s\<rparr>"

definition Chunk_isEmpty :: "Chunk_t \<Rightarrow> bool" where "Chunk_isEmpty c \<longleftrightarrow> 0 = ck_size c"

definition Chunk_next :: "nat \<Rightarrow> Chunk_t \<Rightarrow> Chunk_t" where
  "Chunk_next lgGrainsize c =
     (let nextAddr = alignByNextGrainsize (ck_addr c) lgGrainsize;
          chunkSize = nextAddr - ck_addr c
      in if chunkSize > ck_size c then Chunk nextAddr 0 else Chunk nextAddr (ck_size c - chunkSize))"

definition Chunk_withinLine :: "Chunk_t \<Rightarrow> bool" where
  "Chunk_withinLine c \<longleftrightarrow> ck_addr c + ck_size c < alignByNextGrainsize (ck_addr c) SD_LG_LINE_SIZE"

definition Chunk_endAddrForLine :: "Chunk_t \<Rightarrow> u64" where
  "Chunk_endAddrForLine c =
     (if \<not> Chunk_withinLine c then alignByNextGrainsize (ck_addr c) SD_LG_LINE_SIZE - 1
      else ck_addr c + ck_size c)"

text \<open>\<open>__builtin_ctzl\<close>, the number of trailing zeros; undefined on 0.\<close>

definition word_ctz :: "u64 \<Rightarrow> nat" where
  "word_ctz x = length (takeWhile (\<lambda>i. \<not> bit x i) [0..<64])"

definition ctzl :: "u64 \<Rightarrow> nat option" where
  "ctzl x = (if x = 0 then None else Some (word_ctz x))"

definition Chunk_getLgGrainsize :: "Chunk_t \<Rightarrow> nat option" where
  "Chunk_getLgGrainsize c =
     do {
       l \<leftarrow> ctzl (ck_addr c);
       let lgGrainsize = min l SD_LG_LINE_SIZE;
       if ck_size c \<ge> SD_LINE_SIZE then Some lgGrainsize
       else if Chunk_withinLine c then
         do { e \<leftarrow> ctzl (ck_addr c + ck_size c); Some (min e lgGrainsize) }
       else Some lgGrainsize
     }"

subsection \<open>Lines\<close>

record 'a DataMethods =
  dm_default :: 'a
  dm_isValid :: "'a \<Rightarrow> bool"
  dm_invalidate :: "'a \<Rightarrow> 'a"
  dm_eq :: "'a \<Rightarrow> 'a \<Rightarrow> bool"

record 'a Line_t =
  ln_LgGrainsize :: nat
  ln_NumNonNullEls :: nat
  ln_Data :: "'a list option"

text \<open>The number of entries of a line of the given grainsize.\<close>

definition line_num_data :: "nat \<Rightarrow> nat" where
  "line_num_data lg = 2 ^ SD_LG_LINE_SIZE div 2 ^ lg"

definition Line_new :: "'a Line_t" where
  "Line_new = \<lparr>ln_LgGrainsize = SD_LG_LINE_SIZE, ln_NumNonNullEls = 0, ln_Data = None\<rparr>"

definition Line_isEmpty :: "'a Line_t \<Rightarrow> bool" where
  "Line_isEmpty L \<longleftrightarrow> ln_NumNonNullEls L = 0"

definition Line_isMaterialized :: "'a Line_t \<Rightarrow> bool" where
  "Line_isMaterialized L \<longleftrightarrow> ln_Data L \<noteq> None"

definition Line_incNumNonNullEls :: "'a Line_t \<Rightarrow> 'a Line_t" where
  "Line_incNumNonNullEls L = L\<lparr>ln_NumNonNullEls := ln_NumNonNullEls L + 1\<rparr>"

definition Line_decNumNonNullEls :: "'a Line_t \<Rightarrow> 'a Line_t option" where
  "Line_decNumNonNullEls L =
     (if Line_isEmpty L then None else Some (L\<lparr>ln_NumNonNullEls := ln_NumNonNullEls L - 1\<rparr>))"

definition Line_materialize :: "'a DataMethods \<Rightarrow> 'a Line_t \<Rightarrow> 'a Line_t option" where
  "Line_materialize M L =
     (if Line_isMaterialized L then None
      else Some (L\<lparr>ln_Data := Some (replicate (line_num_data (ln_LgGrainsize L)) (dm_default M))\<rparr>))"

definition Line_materialize_if :: "'a DataMethods \<Rightarrow> 'a Line_t \<Rightarrow> 'a Line_t option" where
  "Line_materialize_if M L = (if Line_isMaterialized L then Some L else Line_materialize M L)"

text \<open>The replication of the entries; only valid entries are copied into the new array.\<close>

definition refine_data :: "'a DataMethods \<Rightarrow> nat \<Rightarrow> 'a list \<Rightarrow> 'a list" where
  "refine_data M replFactor data =
     concat (map (\<lambda>d. replicate replFactor (if dm_isValid M d then d else dm_default M)) data)"

definition Line_refine :: "'a DataMethods \<Rightarrow> nat \<Rightarrow> 'a Line_t \<Rightarrow> 'a Line_t option" where
  "Line_refine M newLgGrainsize L =
     (if \<not> newLgGrainsize < ln_LgGrainsize L then None
      else (case ln_Data L of
          None \<Rightarrow> Some (L\<lparr>ln_LgGrainsize := newLgGrainsize\<rparr>)
        | Some data \<Rightarrow>
            if Line_isEmpty L
            then Some (L\<lparr>ln_Data := Some (replicate (line_num_data newLgGrainsize) (dm_default M)),
                         ln_LgGrainsize := newLgGrainsize\<rparr>)
            else
              let replFactor = 2 ^ ln_LgGrainsize L div 2 ^ newLgGrainsize
              in Some (L\<lparr>ln_Data := Some (refine_data M replFactor data),
                         ln_NumNonNullEls := ln_NumNonNullEls L * replFactor,
                         ln_LgGrainsize := newLgGrainsize\<rparr>)))"

definition Line_reset :: "'a Line_t \<Rightarrow> 'a Line_t" where
  "Line_reset L =
     (let L = (if Line_isMaterialized L then L\<lparr>ln_Data := None, ln_NumNonNullEls := 0\<rparr> else L)
      in L\<lparr>ln_LgGrainsize := SD_LG_LINE_SIZE\<rparr>)"

definition Line_getIdx :: "u64 \<Rightarrow> 'a Line_t \<Rightarrow> nat" where
  "Line_getIdx byte L = unat (drop_bit (ln_LgGrainsize L) byte)"

definition Line_at :: "nat \<Rightarrow> 'a Line_t \<Rightarrow> 'a option" where
  "Line_at idx L = do { data \<leftarrow> ln_Data L; arr_get data idx }"

definition Line_put :: "nat \<Rightarrow> 'a \<Rightarrow> 'a Line_t \<Rightarrow> 'a Line_t option" where
  "Line_put idx v L =
     do { data \<leftarrow> ln_Data L; data \<leftarrow> arr_set data idx v; Some (L\<lparr>ln_Data := Some data\<rparr>) }"

text \<open>Setting one entry, counting it when it becomes valid.\<close>

definition Line_set_entry :: "'a DataMethods \<Rightarrow> ('a \<Rightarrow> 'a) \<Rightarrow> nat \<Rightarrow> 'a Line_t \<Rightarrow> 'a Line_t option" where
  "Line_set_entry M SetFn idx L =
     do {
       d \<leftarrow> Line_at idx L;
       let L = (if \<not> dm_isValid M d then Line_incNumNonNullEls L else L);
       Line_put idx (SetFn d) L
     }"

subsection \<open>\<open>set\<close>, \<open>insert\<close> and \<open>clear\<close>\<close>

partial_function (option) Line_set_loop ::
  "'a DataMethods \<Rightarrow> ('a \<Rightarrow> 'a) \<Rightarrow> nat \<Rightarrow> 'a Line_t \<Rightarrow> Chunk_t \<Rightarrow> ('a Line_t \<times> Chunk_t) option" where
  "Line_set_loop M SetFn AccessedLgGrainsize L Accessed =
     do {
       L \<leftarrow> Line_set_entry M SetFn (Line_getIdx (sd_byte (ck_addr Accessed)) L) L;
       let Accessed = Chunk_next AccessedLgGrainsize Accessed;
       if Chunk_isEmpty Accessed then Some (L, Accessed)
       else if \<not> isLineStart (ck_addr Accessed)
       then Line_set_loop M SetFn AccessedLgGrainsize L Accessed
       else Some (L, Accessed)
     }"

definition Line_fit :: "'a DataMethods \<Rightarrow> nat \<Rightarrow> 'a Line_t \<Rightarrow> ('a Line_t \<times> nat) option" where
  "Line_fit M AccessedLgGrainsize L =
     (let LgGrainsize = ln_LgGrainsize L
      in if LgGrainsize > AccessedLgGrainsize
         then map_option (\<lambda>L. (L, AccessedLgGrainsize)) (Line_refine M AccessedLgGrainsize L)
         else Some (L, min LgGrainsize AccessedLgGrainsize))"

definition Line_set ::
  "'a DataMethods \<Rightarrow> ('a \<Rightarrow> 'a) \<Rightarrow> 'a Line_t \<Rightarrow> Chunk_t \<Rightarrow> ('a Line_t \<times> Chunk_t) option" where
  "Line_set M SetFn L Accessed =
     do {
       AccessedLgGrainsize \<leftarrow> Chunk_getLgGrainsize Accessed;
       if AccessedLgGrainsize = SD_LG_LINE_SIZE then
         do {
           let L = (if ln_LgGrainsize L \<noteq> SD_LG_LINE_SIZE then Line_reset L else L);
           L \<leftarrow> Line_materialize_if M L;
           L \<leftarrow> Line_set_entry M SetFn 0 L;
           Some (L, Chunk_next AccessedLgGrainsize Accessed)
         }
       else
         do {
           (L, AccessedLgGrainsize) \<leftarrow> Line_fit M AccessedLgGrainsize L;
           L \<leftarrow> Line_materialize_if M L;
           Line_set_loop M SetFn AccessedLgGrainsize L Accessed
         }
     }"

partial_function (option) Line_insert_loop ::
  "'a DataMethods \<Rightarrow> ('a \<Rightarrow> 'a) \<Rightarrow> 'a \<Rightarrow> nat \<Rightarrow> 'a Line_t \<Rightarrow> Chunk_t \<Rightarrow> ('a Line_t \<times> Chunk_t) option" where
  "Line_insert_loop M SetFn Previous AccessedLgGrainsize L Accessed =
     do {
       L \<leftarrow> Line_set_entry M SetFn (Line_getIdx (sd_byte (ck_addr Accessed)) L) L;
       let Accessed = Chunk_next AccessedLgGrainsize Accessed;
       if Chunk_isEmpty Accessed \<or> isLineStart (ck_addr Accessed) then Some (L, Accessed)
       else do {
         e \<leftarrow> Line_at (Line_getIdx (sd_byte (ck_addr Accessed)) L) L;
         if \<not> dm_isValid M e \<or> (dm_isValid M Previous \<and> dm_eq M Previous e)
         then Line_insert_loop M SetFn Previous AccessedLgGrainsize L Accessed
         else Some (L, Accessed)
       }
     }"

definition Line_insert ::
  "'a DataMethods \<Rightarrow> ('a \<Rightarrow> 'a) \<Rightarrow> nat \<Rightarrow> 'a Line_t \<Rightarrow> Chunk_t \<Rightarrow> ('a Line_t \<times> Chunk_t) option" where
  "Line_insert M SetFn PrevIdx L Accessed =
     do {
       AccessedLgGrainsize \<leftarrow> Chunk_getLgGrainsize Accessed;
       L \<leftarrow> Line_materialize_if M L;
       if AccessedLgGrainsize = SD_LG_LINE_SIZE \<and> ln_LgGrainsize L = SD_LG_LINE_SIZE then
         do {
           L \<leftarrow> Line_set_entry M SetFn 0 L;
           Some (L, Chunk_next AccessedLgGrainsize Accessed)
         }
       else
         do {
           (L, AccessedLgGrainsize) \<leftarrow> Line_fit M AccessedLgGrainsize L;
           Previous \<leftarrow> Line_at PrevIdx L;
           Line_insert_loop M SetFn Previous AccessedLgGrainsize L Accessed
         }
     }"

partial_function (option) Line_clear_loop ::
  "'a DataMethods \<Rightarrow> nat \<Rightarrow> 'a Line_t \<Rightarrow> Chunk_t \<Rightarrow> ('a Line_t \<times> Chunk_t) option" where
  "Line_clear_loop M AccessedLgGrainsize L Accessed =
     do {
       let idx = Line_getIdx (sd_byte (ck_addr Accessed)) L;
       d \<leftarrow> Line_at idx L;
       (L, Accessed) \<leftarrow>
         (if dm_isValid M d
          then do {
            L \<leftarrow> Line_put idx (dm_invalidate M d) L;
            L \<leftarrow> Line_decNumNonNullEls L;
            if Line_isEmpty L
            then Some (if ln_LgGrainsize L \<noteq> SD_LG_LINE_SIZE then Line_reset L else L,
                       Chunk_next SD_LG_LINE_SIZE Accessed)
            else Some (L, Chunk_next AccessedLgGrainsize Accessed)
          }
          else Some (L, Chunk_next AccessedLgGrainsize Accessed));
       if \<not> Chunk_isEmpty Accessed \<and> \<not> isLineStart (ck_addr Accessed)
       then Line_clear_loop M AccessedLgGrainsize L Accessed
       else Some (L, Accessed)
     }"

definition Line_clear ::
  "'a DataMethods \<Rightarrow> 'a Line_t \<Rightarrow> Chunk_t \<Rightarrow> ('a Line_t \<times> Chunk_t) option" where
  "Line_clear M L Accessed =
     do {
       AccessedLgGrainsize \<leftarrow> Chunk_getLgGrainsize Accessed;
       if SD_LG_LINE_SIZE = AccessedLgGrainsize
       then Some (if \<not> Line_isEmpty L then Line_reset L else L,
                  Chunk_next AccessedLgGrainsize Accessed)
       else do {
         (L, AccessedLgGrainsize) \<leftarrow> Line_fit M AccessedLgGrainsize L;
         if Line_isEmpty L then Some (L, Chunk_next SD_LG_LINE_SIZE Accessed)
         else Line_clear_loop M AccessedLgGrainsize L Accessed
       }
     }"


subsection \<open>Facts on the address arithmetic\<close>

lemma and_not_mask_unat:
  "unat ((x :: u64) AND NOT (push_bit n 1 - 1)) = unat x - unat x mod 2 ^ n" if "n < 64"
proof -
  have m: "push_bit n 1 - 1 = (mask n :: u64)" by (simp add: mask_eq_exp_minus_1 push_bit_eq_mult)
  have "x AND NOT (mask n) = push_bit n (drop_bit n x)"
    by (rule bit_eqI) (auto simp: bit_simps)
  also have "\<dots> = x - take_bit n x"
    using bits_ident [of n x] by (simp add: eq_diff_eq)
  finally have "x AND NOT (mask n) = x - take_bit n x" .
  moreover have "take_bit n x \<le> x"
    unfolding word_le_nat_alt unsigned_take_bit_eq by (simp add: take_bit_eq_mod)
  ultimately show ?thesis
    unfolding m using unat_sub [of "take_bit n x" x]
    by (simp only: unsigned_take_bit_eq) (simp only: take_bit_eq_mod)
qed

lemma alignByPrev_unat:
  "lg < 64 \<Longrightarrow> unat (alignByPrevGrainsize a lg) = unat a - unat a mod 2 ^ lg"
  by (simp only: alignByPrevGrainsize_def Let_def and_not_mask_unat)

lemma alignByNext_unat:
  assumes "lg < 64" "unat a + 2 ^ lg < 2 ^ 64"
  shows "unat (alignByNextGrainsize a lg) = (unat a div 2 ^ lg + 1) * 2 ^ lg"
proof -
  have p: "unat (push_bit lg 1 :: u64) = 2 ^ lg"
  proof -
    have "unat (push_bit lg 1 :: u64) = take_bit 64 (push_bit lg 1 :: nat)"
      by (simp only: unsigned_push_bit_eq unsigned_1) simp
    moreover have "(2::nat) ^ lg < 2 ^ 64" using assms(1) by (rule power_strict_increasing) simp
    ultimately show ?thesis by (simp only: push_bit_eq_mult take_bit_eq_mod) simp
  qed
  have s: "unat (a + push_bit lg 1) = unat a + 2 ^ lg"
    using assms(2) p by (subst unat_word_ariths) simp
  have "unat a + 2 ^ lg - (unat a + 2 ^ lg) mod 2 ^ lg = (unat a div 2 ^ lg + 1) * 2 ^ lg"
    using div_mult_mod_eq [of "unat a" "2 ^ lg"]
    unfolding mod_add_self2 add_mult_distrib by linarith
  then show ?thesis
    using assms(1) by (simp only: alignByNextGrainsize_def Let_def and_not_mask_unat s)
qed

lemma sd_byte_unat: "unat (sd_byte a) = unat a mod 512"
proof -
  have "SD_BYTE_MASK = mask 9" by (simp add: sd_consts mask_eq_exp_minus_1)
  then have "sd_byte a = take_bit 9 a" by (simp add: sd_byte_def take_bit_eq_mask)
  then have "unat (sd_byte a) = take_bit 9 (unat a)" by (simp only: unsigned_take_bit_eq)
  then show ?thesis by (simp add: take_bit_eq_mod)
qed

lemma Line_getIdx_byte: "Line_getIdx (sd_byte a) L = unat a mod 512 div 2 ^ ln_LgGrainsize L"
  by (simp only: Line_getIdx_def unat_drop_bit_eq) (simp only: drop_bit_eq_div sd_byte_unat)

lemma isLineStart_iff: "isLineStart a \<longleftrightarrow> 512 dvd unat a"
  by (simp add: isLineStart_def unat_eq_zero [symmetric] sd_byte_unat dvd_eq_mod_eq_0 del: unat_eq_zero)

text \<open>A chunk in the 48-bit address range: none of the sums of the code wraps.\<close>

definition chunk_ok :: "Chunk_t \<Rightarrow> bool" where
  "chunk_ok c \<longleftrightarrow> unat (ck_addr c) + unat (ck_size c) < 2 ^ 63"

lemma unat_add_63: "unat (a::u64) + unat b < 2 ^ 63 \<Longrightarrow> unat (a + b) = unat a + unat b"
  by (simp add: unat_word_ariths)

lemma Chunk_withinLine_iff:
  assumes "chunk_ok c"
  shows "Chunk_withinLine c \<longleftrightarrow>
    unat (ck_addr c) + unat (ck_size c) < (unat (ck_addr c) div 512 + 1) * 512"
proof -
  have "unat (ck_addr c + ck_size c) = unat (ck_addr c) + unat (ck_size c)"
    using assms by (intro unat_add_63) (simp add: chunk_ok_def)
  moreover have "unat (alignByNextGrainsize (ck_addr c) 9) = (unat (ck_addr c) div 512 + 1) * 512"
    using assms alignByNext_unat [of 9 "ck_addr c"] by (simp add: chunk_ok_def)
  ultimately show ?thesis
    by (simp add: Chunk_withinLine_def SD_LG_LINE_SIZE_def word_less_nat_alt)
qed

lemma Chunk_next_unat:
  assumes "chunk_ok c" "lg \<le> 30"
  shows "unat (ck_addr (Chunk_next lg c)) = (unat (ck_addr c) div 2 ^ lg + 1) * 2 ^ lg"
    and "unat (ck_size (Chunk_next lg c)) =
      unat (ck_addr c) + unat (ck_size c) - (unat (ck_addr c) div 2 ^ lg + 1) * 2 ^ lg"
proof -
  let ?a = "unat (ck_addr c)" and ?s = "unat (ck_size c)" and ?n = "alignByNextGrainsize (ck_addr c) lg"
  have "(2::nat) ^ lg \<le> 2 ^ 30" using assms(2) by (rule power_increasing) simp
  then have n: "unat ?n = (?a div 2 ^ lg + 1) * 2 ^ lg"
    using assms by (intro alignByNext_unat) (auto simp: chunk_ok_def)
  have le: "?a \<le> unat ?n"
    unfolding n by (metis add.commute less_imp_le_nat mult.commute dividend_less_times_div
        plus_1_eq_Suc mult_Suc_right zero_less_numeral zero_less_power)
  have d: "unat (?n - ck_addr c) = unat ?n - ?a"
    using le by (simp add: unat_sub_if_size word_le_nat_alt)
  show "unat (ck_addr (Chunk_next lg c)) = (?a div 2 ^ lg + 1) * 2 ^ lg"
    by (simp add: Chunk_next_def Chunk_def Let_def n)
  have "?s - (unat ?n - ?a) = ?a + ?s - unat ?n" using le by linarith
  moreover have "ck_size c < ?n - ck_addr c \<or> unat (ck_size c - (?n - ck_addr c)) = ?s - (unat ?n - ?a)"
    using unat_sub_if_size [of "ck_size c" "?n - ck_addr c"] d
    by (auto simp: word_less_nat_alt simp del: unat_sub_if')
  ultimately show "unat (ck_size (Chunk_next lg c)) = ?a + ?s - (?a div 2 ^ lg + 1) * 2 ^ lg"
    unfolding n [symmetric]
    by (auto simp: Chunk_next_def Chunk_def Let_def word_less_nat_alt d)
qed

lemma Chunk_next_ok:
  assumes "chunk_ok c" "lg \<le> 30" "\<not> Chunk_isEmpty (Chunk_next lg c)"
  shows "chunk_ok (Chunk_next lg c)"
  using assms(1,3) Chunk_next_unat [OF assms(1,2)]
  by (simp add: chunk_ok_def Chunk_isEmpty_def flip: unat_eq_zero)


lemma word_ctz_dvd:
  assumes "x \<noteq> 0"
  shows "2 ^ n dvd unat x \<longleftrightarrow> n \<le> word_ctz x"
proof -
  obtain i where i: "i < 64" "bit x i"
  proof -
    have "\<exists>i. bit x i" using assms by (auto simp: bit_eq_iff)
    then show ?thesis using that bit_word_imp_less [of x] by auto
  qed
  define c where "c = word_ctz x"
  have tw: "takeWhile (\<lambda>i. \<not> bit x i) [0..<64] = [0..<c]"
    unfolding c_def word_ctz_def
    by (metis take_upt takeWhile_eq_take add_0 length_takeWhile_le length_upt diff_zero)
  have zeros: "\<not> bit x j" if "j < c" for j
    using that tw set_takeWhileD [of j "\<lambda>i. \<not> bit x i" "[0..<64]"] by auto
  have c64: "c < 64"
    using zeros i by (meson linorder_not_less less_le_trans)
  have one: "bit x c"
    using nth_length_takeWhile [of "\<lambda>i. \<not> bit x i" "[0..<64]"] c64 tw by simp
  have "2 ^ n dvd unat x \<longleftrightarrow> take_bit n x = 0"
    by (simp only: dvd_eq_mod_eq_0 flip: take_bit_eq_mod unsigned_take_bit_eq unat_eq_zero)
  also have "\<dots> \<longleftrightarrow> (\<forall>j<n. \<not> bit x j)"
    using bit_word_imp_less [of x] by (simp add: bit_eq_iff bit_take_bit_iff) blast
  also have "\<dots> \<longleftrightarrow> n \<le> c"
    using one zeros by (meson linorder_not_less less_le_trans)
  finally show ?thesis unfolding c_def .
qed

text \<open>The grainsize of an access divides its start and, when it ends in the same line, its end.\<close>

lemma Chunk_getLgGrainsize_ok:
  assumes "chunk_ok c" "ck_addr c \<noteq> 0" "ck_size c \<noteq> 0"
  obtains lg where "Chunk_getLgGrainsize c = Some lg" "lg \<le> 9" "2 ^ lg dvd unat (ck_addr c)"
    "Chunk_withinLine c \<Longrightarrow> 2 ^ lg dvd unat (ck_addr c) + unat (ck_size c)"
proof -
  let ?a = "unat (ck_addr c)" and ?s = "unat (ck_size c)"
  define l where "l = min (word_ctz (ck_addr c)) 9"
  have l: "l \<le> 9" "2 ^ l dvd ?a"
    by (simp_all add: l_def word_ctz_dvd [OF assms(2)])
  have sum: "unat (ck_addr c + ck_size c) = ?a + ?s"
    using assms(1) by (intro unat_add_63) (simp add: chunk_ok_def)
  have nz: "ck_addr c + ck_size c \<noteq> 0"
    using sum assms(2) by (metis add_is_0 unat_0 unat_eq_zero)
  have big: "\<not> Chunk_withinLine c" if "SD_LINE_SIZE \<le> ck_size c"
  proof -
    have "512 \<le> ?s" using that by (simp add: SD_LINE_SIZE_def SD_LG_LINE_SIZE_def word_le_nat_alt)
    then show ?thesis using Chunk_withinLine_iff [OF assms(1)] by simp
  qed
  show thesis
  proof (cases "Chunk_withinLine c")
    case True
    let ?e = "word_ctz (ck_addr c + ck_size c)"
    have "Chunk_getLgGrainsize c = Some (min ?e l)"
      using True big assms(2) nz
      by (auto simp: Chunk_getLgGrainsize_def ctzl_def l_def SD_LG_LINE_SIZE_def Let_def)
    moreover have "2 ^ min ?e l dvd ?a + ?s"
      using word_ctz_dvd [OF nz, of "min ?e l"] by (simp add: sum)
    moreover have "2 ^ min ?e l dvd ?a"
      by (simp add: l_def word_ctz_dvd [OF assms(2)])
    ultimately show ?thesis using l(1) that by simp
  next
    case False
    then have "Chunk_getLgGrainsize c = Some l"
      using assms(2) by (simp add: Chunk_getLgGrainsize_def ctzl_def l_def SD_LG_LINE_SIZE_def Let_def)
    then show ?thesis using l False that by blast
  qed
qed


subsection \<open>What a line stores for each byte\<close>

text \<open>
  The invariant of a line: the entries cover 512 bytes, and the counter is the number of valid
  ones.  \<open>Line_view\<close> is what the line says of a byte, \<^term>\<open>None\<close> where no valid entry covers it.
\<close>

definition Line_ok :: "'a DataMethods \<Rightarrow> 'a Line_t \<Rightarrow> bool" where
  "Line_ok M L \<longleftrightarrow> ln_LgGrainsize L \<le> SD_LG_LINE_SIZE \<and>
     (case ln_Data L of None \<Rightarrow> ln_NumNonNullEls L = 0
      | Some d \<Rightarrow> length d = 2 ^ (SD_LG_LINE_SIZE - ln_LgGrainsize L) \<and>
          ln_NumNonNullEls L = length (filter (dm_isValid M) d))"

definition Line_view :: "'a DataMethods \<Rightarrow> 'a Line_t \<Rightarrow> nat \<Rightarrow> 'a option" where
  "Line_view M L b = (case ln_Data L of None \<Rightarrow> None
     | Some d \<Rightarrow> let e = d ! (b div 2 ^ ln_LgGrainsize L) in if dm_isValid M e then Some e else None)"

lemma line_num_data_eq: "lg \<le> SD_LG_LINE_SIZE \<Longrightarrow> line_num_data lg = 2 ^ (SD_LG_LINE_SIZE - lg)"
  by (simp add: line_num_data_def power_diff)

lemma Line_idx_bound:
  assumes "(b::nat) < 512" "lg \<le> SD_LG_LINE_SIZE"
  shows "b div 2 ^ lg < 2 ^ (SD_LG_LINE_SIZE - lg)"
proof -
  have "(512::nat) = 2 ^ (9 - lg) * 2 ^ lg"
    using assms(2) by (simp add: SD_LG_LINE_SIZE_def flip: power_add)
  then show ?thesis
    using assms(1) by (simp add: SD_LG_LINE_SIZE_def less_mult_imp_div_less)
qed

lemma Line_new_ok [wf_intros]: "Line_ok M Line_new"
  by (simp add: Line_ok_def Line_new_def)

lemma Line_new_view: "Line_view M Line_new b = None"
  by (simp add: Line_view_def Line_new_def)

lemma Line_isEmpty_view:
  assumes "Line_ok M L" "Line_isEmpty L" "b < 512"
  shows "Line_view M L b = None"
proof (cases "ln_Data L")
  case (Some d)
  then have "filter (dm_isValid M) d = []" "length d = 2 ^ (SD_LG_LINE_SIZE - ln_LgGrainsize L)"
    using assms by (simp_all add: Line_ok_def Line_isEmpty_def)
  then show ?thesis
    using assms Some Line_idx_bound [OF assms(3), of "ln_LgGrainsize L"]
    by (auto simp: Line_view_def Let_def Line_ok_def filter_empty_conv)
qed (simp add: Line_view_def)

lemma Line_reset_ok:
  assumes "Line_ok M L"
  shows "Line_ok M (Line_reset L)" "Line_view M (Line_reset L) b = None"
    "ln_LgGrainsize (Line_reset L) = SD_LG_LINE_SIZE" "Line_isEmpty (Line_reset L)"
  using assms by (auto simp: Line_ok_def Line_reset_def Line_view_def Line_isMaterialized_def
      Line_isEmpty_def Let_def split: option.splits)

lemma Line_materialize_if_ok:
  assumes "Line_ok M L" "\<not> dm_isValid M (dm_default M)"
  obtains L' where "Line_materialize_if M L = Some L'" "Line_ok M L'" "Line_isMaterialized L'"
    "ln_LgGrainsize L' = ln_LgGrainsize L" "\<And>b. b < 512 \<Longrightarrow> Line_view M L' b = Line_view M L b"
proof (cases "Line_isMaterialized L")
  case True
  then show ?thesis using assms that by (simp add: Line_materialize_if_def)
next
  case False
  define L' where
    "L' = L\<lparr>ln_Data := Some (replicate (line_num_data (ln_LgGrainsize L)) (dm_default M))\<rparr>"
  have "Line_ok M L'"
    using assms False by (simp add: L'_def Line_ok_def line_num_data_eq Line_isMaterialized_def)
  moreover have "Line_view M L' b = Line_view M L b" if "b < 512" for b
    using assms False Line_idx_bound [OF that, of "ln_LgGrainsize L"]
    by (simp add: L'_def Line_view_def Line_ok_def line_num_data_eq Line_isMaterialized_def)
  ultimately show ?thesis
    using False that by (simp add: Line_materialize_if_def Line_materialize_def L'_def Line_isMaterialized_def)
qed

text \<open>Refining a line changes neither the invariant nor what it says of any byte.\<close>

lemma Line_refine_ok:
  assumes "Line_ok M L" "new < ln_LgGrainsize L" "\<not> dm_isValid M (dm_default M)"
  obtains L' where "Line_refine M new L = Some L'" "Line_ok M L'" "ln_LgGrainsize L' = new"
    "\<And>b. b < 512 \<Longrightarrow> Line_view M L' b = Line_view M L b"
proof (cases "ln_Data L")
  case None
  then show ?thesis
    using assms that [of "L\<lparr>ln_LgGrainsize := new\<rparr>"]
    by (simp add: Line_refine_def Line_ok_def Line_view_def)
next
  case (Some d)
  let ?lg = "ln_LgGrainsize L"
  have lg: "?lg \<le> SD_LG_LINE_SIZE" "length d = 2 ^ (SD_LG_LINE_SIZE - ?lg)"
    "ln_NumNonNullEls L = length (filter (dm_isValid M) d)"
    using assms(1) Some by (simp_all add: Line_ok_def)
  show ?thesis
  proof (cases "Line_isEmpty L")
    case True
    define L' where "L' = L\<lparr>ln_Data := Some (replicate (line_num_data new) (dm_default M)),
        ln_LgGrainsize := new\<rparr>"
    have ok: "Line_ok M L'"
      using assms True lg(1) by (simp add: L'_def Line_ok_def line_num_data_eq Line_isEmpty_def)
    have "Line_isEmpty L'" using True by (simp add: L'_def Line_isEmpty_def)
    then have "Line_view M L' b = Line_view M L b" if "b < 512" for b
      using Line_isEmpty_view [OF assms(1) True that] Line_isEmpty_view [OF ok _ that] by simp
    then show ?thesis
      using that ok assms(2) Some True by (simp add: Line_refine_def L'_def)
  next
    case False
    let ?r = "2 ^ ?lg div 2 ^ new :: nat"
    have r: "?r = 2 ^ (?lg - new)" using assms(2) by (simp add: power_diff)
    define L' where "L' = L\<lparr>ln_Data := Some (refine_data M ?r d),
        ln_NumNonNullEls := ln_NumNonNullEls L * ?r, ln_LgGrainsize := new\<rparr>"
    have flt: "filter (dm_isValid M \<circ> (\<lambda>d. if dm_isValid M d then d else dm_default M)) d =
        filter (dm_isValid M) d"
      using assms(3) by (intro filter_cong) auto
    have len: "length (refine_data M ?r d) = 2 ^ (SD_LG_LINE_SIZE - new)"
      using assms(2) lg by (simp add: refine_data_def length_concat_replicate r flip: power_add)
    have ok: "Line_ok M L'"
      using assms(2) lg len
      by (simp add: L'_def Line_ok_def refine_data_def filter_concat_replicate flt)
    have "Line_view M L' b = Line_view M L b" if "b < 512" for b
    proof -
      have "b div 2 ^ new < ?r * length d"
        using Line_idx_bound [OF that, of new] assms(2) lg by (simp add: r flip: power_add)
      then have "refine_data M ?r d ! (b div 2 ^ new) =
          (let e = d ! (b div 2 ^ new div ?r) in if dm_isValid M e then e else dm_default M)"
        unfolding refine_data_def by (subst nth_concat_replicate) (auto simp: Let_def)
      moreover have "b div 2 ^ new div ?r = b div 2 ^ ?lg"
        using assms(2) by (simp add: r div_mult2_eq [symmetric] flip: power_add)
      ultimately show ?thesis
        using assms(3) Some by (simp add: Line_view_def L'_def Let_def)
    qed
    then show ?thesis
      using that ok assms(2) Some False by (simp add: Line_refine_def L'_def Let_def)
  qed
qed


lemma Line_set_entry_ok:
  assumes "Line_ok M L" "Line_isMaterialized L" "b0 < 512" "i = b0 div 2 ^ ln_LgGrainsize L"
    and valid: "\<And>d. dm_isValid M (f d)"
  obtains L' e where "Line_set_entry M f i L = Some L'" "Line_ok M L'" "Line_isMaterialized L'"
    "ln_LgGrainsize L' = ln_LgGrainsize L"
    "\<And>b. b < 512 \<Longrightarrow>
       Line_view M L' b = (if b div 2 ^ ln_LgGrainsize L = i then Some (f e) else Line_view M L b)"
proof -
  let ?lg = "ln_LgGrainsize L"
  obtain d where d: "ln_Data L = Some d" using assms(2) by (auto simp: Line_isMaterialized_def)
  have lg: "?lg \<le> SD_LG_LINE_SIZE" "length d = 2 ^ (SD_LG_LINE_SIZE - ?lg)"
    "ln_NumNonNullEls L = length (filter (dm_isValid M) d)"
    using assms(1) d by (simp_all add: Line_ok_def)
  have i: "i < length d" using Line_idx_bound [OF assms(3) lg(1)] assms(4) lg(2) by simp
  define L' where "L' = L\<lparr>ln_Data := Some (d[i := f (d ! i)]),
      ln_NumNonNullEls := length (filter (dm_isValid M) (d[i := f (d ! i)]))\<rparr>"
  have "Line_set_entry M f i L = Some L'"
    using length_filter_update [OF i, of "dm_isValid M" "f (d ! i)"] lg(3) d i valid
    by (simp add: Line_set_entry_def Line_at_def Line_put_def Line_incNumNonNullEls_def L'_def
        split: if_splits)
  moreover have "Line_ok M L'" "Line_isMaterialized L'" "ln_LgGrainsize L' = ?lg"
    using lg by (simp_all add: L'_def Line_ok_def Line_isMaterialized_def)
  moreover have "Line_view M L' b = (if b div 2 ^ ?lg = i then Some (f (d ! i)) else Line_view M L b)" for b
    using i d valid by (auto simp: L'_def Line_view_def Let_def nth_list_update)
  ultimately show ?thesis using that by blast
qed

text \<open>
  What an operation on a line leaves of the access: the part behind the end of the line, which
  starts at the next line when it is not empty.
\<close>

definition chunk_after_line :: "Chunk_t \<Rightarrow> Chunk_t \<Rightarrow> bool" where
  "chunk_after_line c c' \<longleftrightarrow>
     (let e = (unat (ck_addr c) div 512 + 1) * 512; r = unat (ck_addr c) + unat (ck_size c) - e
      in unat (ck_size c') = r \<and> (r \<noteq> 0 \<longrightarrow> unat (ck_addr c') = e))"

text \<open>The bytes of the line that an access covers.\<close>

definition chunk_covers :: "Chunk_t \<Rightarrow> nat \<Rightarrow> bool" where
  "chunk_covers c b \<longleftrightarrow> unat (ck_addr c) mod 512 \<le> b \<and> b < unat (ck_addr c) mod 512 + unat (ck_size c)"

text \<open>The alignment of an access to the grainsize of the line that it is performed on.\<close>

definition chunk_aligned :: "nat \<Rightarrow> Chunk_t \<Rightarrow> bool" where
  "chunk_aligned g c \<longleftrightarrow> chunk_ok c \<and> ck_size c \<noteq> 0 \<and> g \<le> 9 \<and> 2 ^ g dvd unat (ck_addr c) \<and>
     (Chunk_withinLine c \<longrightarrow> 2 ^ g dvd unat (ck_addr c) + unat (ck_size c))"

lemma pow_dvd_512: "g \<le> 9 \<Longrightarrow> (2::nat) ^ g dvd 512"
  using le_imp_power_dvd [of g 9 "2::nat"] by simp

lemma dvd_next_le: "(p::nat) dvd a \<Longrightarrow> p dvd b \<Longrightarrow> a < b \<Longrightarrow> a + p \<le> b"
  by (metis add.commute dvd_diff_nat dvd_imp_le le_diff_conv2 less_imp_le_nat zero_less_diff)

lemma line_end_eq: "(a div 512 + 1) * 512 + a mod 512 = a + (512::nat)"
  by (simp add: algebra_simps)

lemma in_line_div:
  assumes "x < (512::nat)"
  shows "(x + k * 512) div 512 = k" "(x + k * 512) mod 512 = x"
  using assms by simp_all

text \<open>One step over a line: it stays in the line, stops at its end, or exhausts the access.\<close>

lemma chunk_aligned_step:
  assumes "chunk_aligned g c"
  shows "2 ^ g \<le> unat (ck_size c)"
    and "unat (ck_addr (Chunk_next g c)) = unat (ck_addr c) + 2 ^ g"
    and "unat (ck_size (Chunk_next g c)) = unat (ck_size c) - 2 ^ g"
    and "unat (ck_addr c) mod 512 + 2 ^ g \<le> 512"
proof -
  let ?a = "unat (ck_addr c)" and ?s = "unat (ck_size c)"
  have ok: "chunk_ok c" "g \<le> 9" "2 ^ g dvd ?a" and s: "0 < ?s"
    using assms by (auto simp: chunk_aligned_def unat_gt_0)
  have q: "(?a div 2 ^ g + 1) * 2 ^ g = ?a + 2 ^ g"
    using ok(3) by simp
  show m: "?a mod 512 + 2 ^ g \<le> 512"
    using pow_dvd_512 [OF ok(2)] ok(3) by (intro dvd_next_le) (auto simp: dvd_mod)
  show le: "2 ^ g \<le> ?s"
  proof (rule ccontr)
    assume lt: "\<not> 2 ^ g \<le> ?s"
    have "?a + ?s < (?a div 512 + 1) * 512" using lt m line_end_eq [of ?a] by linarith
    then have "2 ^ g dvd ?a + ?s"
      using assms Chunk_withinLine_iff [OF ok(1)] by (simp add: chunk_aligned_def)
    then have "2 ^ g dvd ?s" using ok(3) by (simp add: dvd_add_right_iff)
    then show False using lt s by (simp add: dvd_imp_le)
  qed
  show "unat (ck_addr (Chunk_next g c)) = ?a + 2 ^ g"
    using Chunk_next_unat(1) [OF ok(1), of g] ok(2) unfolding q by simp
  show "unat (ck_size (Chunk_next g c)) = ?s - 2 ^ g"
    using Chunk_next_unat(2) [OF ok(1), of g] ok(2) unfolding q by simp
qed

lemma chunk_aligned_next:
  assumes "chunk_aligned g c" "\<not> Chunk_isEmpty (Chunk_next g c)" "\<not> isLineStart (ck_addr (Chunk_next g c))"
  shows "chunk_aligned g (Chunk_next g c)"
    and "unat (ck_addr (Chunk_next g c)) div 512 = unat (ck_addr c) div 512"
    and "unat (ck_addr (Chunk_next g c)) mod 512 = unat (ck_addr c) mod 512 + 2 ^ g"
proof -
  let ?c = "Chunk_next g c" and ?a = "unat (ck_addr c)"
  note st = chunk_aligned_step [OF assms(1)]
  have ok: "chunk_ok c" "g \<le> 9" "2 ^ g dvd ?a"
    using assms(1) by (auto simp: chunk_aligned_def)
  have ok': "chunk_ok ?c" using Chunk_next_ok [OF ok(1) _ assms(2)] ok(2) by simp
  have "?a mod 512 + 2 ^ g \<noteq> 512"
  proof
    assume "?a mod 512 + 2 ^ g = 512"
    then have "?a + 2 ^ g = (?a div 512 + 1) * 512" using line_end_eq [of ?a] by linarith
    then show False using assms(3) by (metis dvd_triv_right isLineStart_iff st(2))
  qed
  with st(4) have lt: "?a mod 512 + 2 ^ g < 512" by simp
  have e: "?a + 2 ^ g = (?a mod 512 + 2 ^ g) + ?a div 512 * 512"
    using div_mult_mod_eq [of ?a 512] by linarith
  show d: "unat (ck_addr ?c) div 512 = ?a div 512"
    unfolding st(2) unfolding e by (rule in_line_div(1) [OF lt])
  show "unat (ck_addr ?c) mod 512 = ?a mod 512 + 2 ^ g"
    unfolding st(2) unfolding e by (rule in_line_div(2) [OF lt])
  have sum: "unat (ck_addr ?c) + unat (ck_size ?c) = ?a + unat (ck_size c)"
    using st by simp
  have "Chunk_withinLine ?c = Chunk_withinLine c"
    unfolding Chunk_withinLine_iff [OF ok(1)] Chunk_withinLine_iff [OF ok'] d sum ..
  then show "chunk_aligned g ?c"
    unfolding chunk_aligned_def sum
    using assms(1,2) ok' ok st(2) by (simp add: chunk_aligned_def Chunk_isEmpty_def)
qed


lemma chunk_aligned_stop:
  assumes "chunk_aligned g c" "Chunk_isEmpty (Chunk_next g c) \<or> isLineStart (ck_addr (Chunk_next g c))"
  shows "chunk_after_line c (Chunk_next g c)"
    and "unat (ck_size c) \<le> 2 ^ g \<or> 512 \<le> unat (ck_addr c) mod 512 + 2 ^ g"
proof -
  let ?m = "unat (ck_addr c) mod 512"
  note st = chunk_aligned_step [OF assms(1)]
  have "unat (ck_size c) = 2 ^ g \<or> ?m + 2 ^ g = 512"
  proof (cases "Chunk_isEmpty (Chunk_next g c)")
    case True
    then show ?thesis using st(1,3) by (simp add: Chunk_isEmpty_def flip: unat_eq_zero)
  next
    case False
    then have "512 dvd unat (ck_addr c) + 2 ^ g" using assms(2) by (simp add: isLineStart_iff st)
    then show ?thesis
      using st(4) by (metis add_gr_0 dvd_imp_le dvd_imp_mod_0 le_antisym mod_add_left_eq
          mod_greater_zero_iff_not_dvd zero_less_numeral zero_less_power)
  qed
  then show "chunk_after_line c (Chunk_next g c)"
    and "unat (ck_size c) \<le> 2 ^ g \<or> 512 \<le> ?m + 2 ^ g"
    using line_end_eq [of "unat (ck_addr c)"] st unfolding chunk_after_line_def Let_def by linarith+
qed

text \<open>The bytes that the first step over a line covers.\<close>

lemma chunk_aligned_idx:
  assumes "chunk_aligned g c"
  shows "b div 2 ^ g = unat (ck_addr c) mod 512 div 2 ^ g \<longleftrightarrow>
    unat (ck_addr c) mod 512 \<le> b \<and> b < unat (ck_addr c) mod 512 + 2 ^ g"
proof -
  let ?m = "unat (ck_addr c) mod 512"
  have "2 ^ g dvd ?m"
    using assms pow_dvd_512 by (auto simp: chunk_aligned_def dvd_mod)
  then obtain k where k: "?m = 2 ^ g * k" by (rule dvdE)
  show ?thesis
    unfolding k using div_nat_eqI [of "2 ^ g" k b]
    by (auto simp: algebra_simps dividend_less_times_div)
qed

text \<open>
  The contract of an operation that stores in a line: every byte that the access covers gets the
  value of the set function, every other byte keeps what it had.
\<close>

definition stores_covered ::
  "'a DataMethods \<Rightarrow> ('a \<Rightarrow> 'a) \<Rightarrow> Chunk_t \<Rightarrow> 'a Line_t \<Rightarrow> 'a Line_t \<Rightarrow> bool" where
  "stores_covered M f c L L' \<longleftrightarrow> (\<forall>b < 512.
     if chunk_covers c b then (\<exists>e. Line_view M L' b = Some (f e))
     else Line_view M L' b = Line_view M L b)"

lemma Line_set_loop_ok:
  assumes "Line_ok M L" "Line_isMaterialized L" "chunk_aligned (ln_LgGrainsize L) c"
    and valid: "\<And>d. dm_isValid M (f d)"
  shows "\<exists>L' c'. Line_set_loop M f (ln_LgGrainsize L) L c = Some (L', c') \<and> Line_ok M L' \<and>
    chunk_after_line c c' \<and> stores_covered M f c L L'"
  using assms(1-3)
proof (induction "512 - unat (ck_addr c) mod 512" arbitrary: L c rule: less_induct)
  case less
  let ?g = "ln_LgGrainsize L" and ?m = "unat (ck_addr c) mod 512"
  let ?c = "Chunk_next ?g c"
  note st = chunk_aligned_step [OF less.prems(3)]
  have idx: "Line_getIdx (sd_byte (ck_addr c)) L = ?m div 2 ^ ?g"
    by (simp only: Line_getIdx_byte)
  have "?m < 512" by simp
  from Line_set_entry_ok [where f = f, OF less.prems(1,2) this idx valid] obtain L1 e where
    L1: "Line_set_entry M f (Line_getIdx (sd_byte (ck_addr c)) L) L = Some L1" "Line_ok M L1"
      "Line_isMaterialized L1" "ln_LgGrainsize L1 = ?g" and
    v1: "\<And>b. b < 512 \<Longrightarrow> Line_view M L1 b =
       (if b div 2 ^ ?g = Line_getIdx (sd_byte (ck_addr c)) L then Some (f e) else Line_view M L b)"
    by blast
  have v1': "Line_view M L1 b = (if ?m \<le> b \<and> b < ?m + 2 ^ ?g then Some (f e) else Line_view M L b)"
    if "b < 512" for b
    unfolding v1 [OF that] idx chunk_aligned_idx [OF less.prems(3)] ..
  have unfold: "Line_set_loop M f ?g L c =
     (if Chunk_isEmpty ?c then Some (L1, ?c)
      else if \<not> isLineStart (ck_addr ?c) then Line_set_loop M f ?g L1 ?c else Some (L1, ?c))"
    by (subst Line_set_loop.simps) (simp add: L1(1) Let_def)
  show ?case
  proof (cases "Chunk_isEmpty ?c \<or> isLineStart (ck_addr ?c)")
    case True
    note stop = chunk_aligned_stop [OF less.prems(3) True]
    have "stores_covered M f c L L1"
      using v1' stop(2) st(1) by (auto simp: stores_covered_def chunk_covers_def)
    then show ?thesis using True unfold L1 stop(1) by auto
  next
    case False
    then have "\<not> Chunk_isEmpty ?c" "\<not> isLineStart (ck_addr ?c)" by simp_all
    note nx = chunk_aligned_next [OF less.prems(3) this]
    have "\<exists>L' c'. Line_set_loop M f (ln_LgGrainsize L1) L1 ?c = Some (L', c') \<and> Line_ok M L' \<and>
        chunk_after_line ?c c' \<and> stores_covered M f ?c L1 L'"
    proof (rule less.hyps)
      show "512 - unat (ck_addr ?c) mod 512 < 512 - ?m" unfolding nx(3) by (simp add: diff_less_mono2)
    qed (use L1 nx in auto)
    then obtain L' c' where L': "Line_set_loop M f ?g L1 ?c = Some (L', c')" "Line_ok M L'"
      "chunk_after_line ?c c'" "stores_covered M f ?c L1 L'"
      unfolding L1(4) by blast
    have "chunk_after_line c c'"
      using L'(3) st unfolding chunk_after_line_def Let_def nx(2) by simp
    moreover have "stores_covered M f c L L'"
      unfolding stores_covered_def
    proof (intro allI impI)
      fix b :: nat assume b: "b < 512"
      have cov: "chunk_covers c b \<longleftrightarrow> (?m \<le> b \<and> b < ?m + 2 ^ ?g) \<or> chunk_covers ?c b"
        unfolding chunk_covers_def nx(3) st(3) using st(1) by auto
      show "if chunk_covers c b then \<exists>e. Line_view M L' b = Some (f e)
        else Line_view M L' b = Line_view M L b"
        using L'(4) v1' [OF b] b cov unfolding stores_covered_def by (metis (full_types))
    qed
    ultimately show ?thesis using False unfold L' by auto
  qed
qed


lemma chunk_after_line_next:
  assumes "chunk_ok c"
  shows "chunk_after_line c (Chunk_next SD_LG_LINE_SIZE c)"
  using Chunk_next_unat [OF assms, of 9]
  by (simp add: chunk_after_line_def SD_LG_LINE_SIZE_def Let_def)

lemma chunk_aligned_9_covers:
  assumes "chunk_aligned 9 c" "b < 512"
  shows "chunk_covers c b"
proof -
  have "unat (ck_addr c) mod 512 = 0"
    using assms(1) by (simp add: chunk_aligned_def mod_eq_0_iff_dvd)
  then show ?thesis
    using chunk_aligned_step(1) [OF assms(1)] assms(2) by (simp add: chunk_covers_def)
qed

text \<open>The grainsize that an access and the line agree on: the smaller of the two.\<close>

lemma Line_fit_ok:
  assumes "Line_ok M L" "\<not> dm_isValid M (dm_default M)" "chunk_aligned lg c"
  obtains L' where "Line_fit M lg L = Some (L', ln_LgGrainsize L')" "Line_ok M L'"
    "chunk_aligned (ln_LgGrainsize L') c" "\<And>b. b < 512 \<Longrightarrow> Line_view M L' b = Line_view M L b"
proof (cases "lg < ln_LgGrainsize L")
  case True
  then obtain L' where "Line_refine M lg L = Some L'" "Line_ok M L'" "ln_LgGrainsize L' = lg"
    "\<And>b. b < 512 \<Longrightarrow> Line_view M L' b = Line_view M L b"
    using Line_refine_ok [OF assms(1) _ assms(2)] by blast
  then show ?thesis using True assms(3) that by (simp add: Line_fit_def)
next
  case False
  then have "chunk_aligned (ln_LgGrainsize L) c"
    using assms(3) power_le_dvd [of 2 lg _ "ln_LgGrainsize L"] by (auto simp: chunk_aligned_def)
  then show ?thesis using False assms(1) that by (simp add: Line_fit_def min_def)
qed

lemma chunk_getLg_aligned:
  assumes "chunk_ok c" "ck_addr c \<noteq> 0" "\<not> Chunk_isEmpty c"
  obtains lg where "Chunk_getLgGrainsize c = Some lg" "chunk_aligned lg c"
proof -
  have "ck_size c \<noteq> 0" using assms(3) by (simp add: Chunk_isEmpty_def)
  from Chunk_getLgGrainsize_ok [OF assms(1,2) this] show ?thesis
    using that assms(1) \<open>ck_size c \<noteq> 0\<close> by (metis chunk_aligned_def)
qed

lemma Line_set_ok:
  assumes "Line_ok M L" "\<not> dm_isValid M (dm_default M)" "\<And>d. dm_isValid M (f d)"
    "chunk_ok c" "ck_addr c \<noteq> 0" "\<not> Chunk_isEmpty c"
  shows "\<exists>L' c'. Line_set M f L c = Some (L', c') \<and> Line_ok M L' \<and>
    chunk_after_line c c' \<and> stores_covered M f c L L'"
proof -
  obtain lg where lg: "Chunk_getLgGrainsize c = Some lg" "chunk_aligned lg c"
    using chunk_getLg_aligned [OF assms(4-6)] by blast
  show ?thesis
  proof (cases "lg = SD_LG_LINE_SIZE")
    case True
    define L0 where "L0 = (if ln_LgGrainsize L \<noteq> SD_LG_LINE_SIZE then Line_reset L else L)"
    have L0: "Line_ok M L0" "ln_LgGrainsize L0 = SD_LG_LINE_SIZE"
      using Line_reset_ok [OF assms(1)] assms(1) by (auto simp: L0_def)
    obtain L1 where L1: "Line_materialize_if M L0 = Some L1" "Line_ok M L1" "Line_isMaterialized L1"
      "ln_LgGrainsize L1 = SD_LG_LINE_SIZE"
      using Line_materialize_if_ok [OF L0(1) assms(2)] L0(2) by metis
    obtain L2 e where L2: "Line_set_entry M f 0 L1 = Some L2" "Line_ok M L2"
      "\<And>b. b < 512 \<Longrightarrow> Line_view M L2 b =
         (if b div 2 ^ ln_LgGrainsize L1 = 0 then Some (f e) else Line_view M L1 b)"
      by (rule Line_set_entry_ok [where f = f and i = 0 and ?b0.0 = 0, OF L1(2,3)]) (auto simp: assms(3))
    have "chunk_aligned 9 c" using lg(2) True by (simp add: SD_LG_LINE_SIZE_def)
    then have "stores_covered M f c L L2"
      using chunk_aligned_9_covers L2(3) L1(4) by (auto simp: stores_covered_def SD_LG_LINE_SIZE_def)
    then show ?thesis
      using L1(1) L2(1,2) lg(1) True chunk_after_line_next [OF assms(4)]
      by (simp add: Line_set_def Let_def L0_def)
  next
    case False
    obtain L1 where L1: "Line_fit M lg L = Some (L1, ln_LgGrainsize L1)" "Line_ok M L1"
      "chunk_aligned (ln_LgGrainsize L1) c" "\<And>b. b < 512 \<Longrightarrow> Line_view M L1 b = Line_view M L b"
      using Line_fit_ok [OF assms(1,2) lg(2)] by blast
    obtain L2 where L2: "Line_materialize_if M L1 = Some L2" "Line_ok M L2" "Line_isMaterialized L2"
      "ln_LgGrainsize L2 = ln_LgGrainsize L1" "\<And>b. b < 512 \<Longrightarrow> Line_view M L2 b = Line_view M L1 b"
      using Line_materialize_if_ok [OF L1(2) assms(2)] by metis
    have "chunk_aligned (ln_LgGrainsize L2) c" using L1(3) L2(4) by simp
    from Line_set_loop_ok [where f = f, OF L2(2,3) this assms(3)] obtain L3 c' where
      L3: "Line_set_loop M f (ln_LgGrainsize L1) L2 c = Some (L3, c')" "Line_ok M L3"
        "chunk_after_line c c'" "stores_covered M f c L2 L3"
      unfolding L2(4) by blast
    have "stores_covered M f c L L3"
      using L3(4) L1(4) L2(5) by (simp add: stores_covered_def)
    then show ?thesis
      using False lg(1) L1(1) L2(1) L3 by (simp add: Line_set_def)
  qed
qed

subsection \<open>Clearing\<close>

definition clears_covered :: "'a DataMethods \<Rightarrow> Chunk_t \<Rightarrow> 'a Line_t \<Rightarrow> 'a Line_t \<Rightarrow> bool" where
  "clears_covered M c L L' \<longleftrightarrow> (\<forall>b < 512.
     Line_view M L' b = (if chunk_covers c b then None else Line_view M L b))"


text \<open>One step of the loop of \<open>clear\<close>: the entry of the current address becomes invalid.\<close>

lemma Line_clear_entry_ok:
  assumes "Line_ok M L" "Line_isMaterialized L" "b0 < 512" "i = b0 div 2 ^ ln_LgGrainsize L"
    and inv: "\<And>d. \<not> dm_isValid M (dm_invalidate M d)"
  obtains d where "Line_at i L = Some d"
    "\<not> dm_isValid M d \<Longrightarrow> b < 512 \<Longrightarrow> b div 2 ^ ln_LgGrainsize L = i \<Longrightarrow> Line_view M L b = None"
    "dm_isValid M d \<Longrightarrow> \<exists>L1. (do { L \<leftarrow> Line_put i (dm_invalidate M d) L; Line_decNumNonNullEls L }) = Some L1 \<and>
      Line_ok M L1 \<and> Line_isMaterialized L1 \<and> ln_LgGrainsize L1 = ln_LgGrainsize L \<and>
      (\<forall>b < 512. Line_view M L1 b =
         (if b div 2 ^ ln_LgGrainsize L = i then None else Line_view M L b))"
proof -
  let ?lg = "ln_LgGrainsize L"
  obtain d where d: "ln_Data L = Some d" using assms(2) by (auto simp: Line_isMaterialized_def)
  have lg: "?lg \<le> SD_LG_LINE_SIZE" "length d = 2 ^ (SD_LG_LINE_SIZE - ?lg)"
    "ln_NumNonNullEls L = length (filter (dm_isValid M) d)"
    using assms(1) d by (simp_all add: Line_ok_def)
  have i: "i < length d" using Line_idx_bound [OF assms(3) lg(1)] assms(4) lg(2) by simp
  have at: "Line_at i L = Some (d ! i)" using i d by (simp add: Line_at_def)
  define L1 where "L1 = L\<lparr>ln_Data := Some (d[i := dm_invalidate M (d ! i)]),
      ln_NumNonNullEls := length (filter (dm_isValid M) (d[i := dm_invalidate M (d ! i)]))\<rparr>"
  have "(do { L \<leftarrow> Line_put i (dm_invalidate M (d ! i)) L; Line_decNumNonNullEls L }) = Some L1"
    if "dm_isValid M (d ! i)"
    using length_filter_update [OF i, of "dm_isValid M" "dm_invalidate M (d ! i)"] lg(3) d i inv that
    by (simp add: Line_put_def Line_decNumNonNullEls_def Line_isEmpty_def L1_def)
       (metis Zero_not_Suc list.size(3))
  moreover have "Line_ok M L1" "Line_isMaterialized L1" "ln_LgGrainsize L1 = ?lg"
    using lg by (simp_all add: L1_def Line_ok_def Line_isMaterialized_def)
  moreover have "Line_view M L1 b = (if b div 2 ^ ?lg = i then None else Line_view M L b)" for b
    using i d inv by (auto simp: L1_def Line_view_def Let_def nth_list_update)
  moreover have "Line_view M L b = None" if "\<not> dm_isValid M (d ! i)" "b div 2 ^ ?lg = i" for b
    using that d by (simp add: Line_view_def Let_def)
  ultimately show ?thesis using that [OF at] by blast
qed

lemma Line_clear_loop_ok:
  assumes "Line_ok M L" "Line_isMaterialized L" "chunk_aligned (ln_LgGrainsize L) c"
    and inv: "\<And>d. \<not> dm_isValid M (dm_invalidate M d)"
  shows "\<exists>L' c'. Line_clear_loop M (ln_LgGrainsize L) L c = Some (L', c') \<and> Line_ok M L' \<and>
    chunk_after_line c c' \<and> clears_covered M c L L'"
  using assms(1-3)
proof (induction "512 - unat (ck_addr c) mod 512" arbitrary: L c rule: less_induct)
  case less
  let ?g = "ln_LgGrainsize L" and ?m = "unat (ck_addr c) mod 512"
  let ?c = "Chunk_next ?g c" and ?i = "Line_getIdx (sd_byte (ck_addr c)) L"
  note st = chunk_aligned_step [OF less.prems(3)]
  have cok: "chunk_ok c" using less.prems(3) by (simp add: chunk_aligned_def)
  obtain d where d: "Line_at ?i L = Some d"
    "\<And>b. \<not> dm_isValid M d \<Longrightarrow> b < 512 \<Longrightarrow> b div 2 ^ ?g = ?i \<Longrightarrow> Line_view M L b = None"
    "dm_isValid M d \<Longrightarrow> \<exists>L1. (do { L \<leftarrow> Line_put ?i (dm_invalidate M d) L; Line_decNumNonNullEls L }) = Some L1 \<and>
      Line_ok M L1 \<and> Line_isMaterialized L1 \<and> ln_LgGrainsize L1 = ?g \<and>
      (\<forall>b < 512. Line_view M L1 b = (if b div 2 ^ ?g = ?i then None else Line_view M L b))"
    using Line_clear_entry_ok [OF less.prems(1,2) _ Line_getIdx_byte inv, of "ck_addr c"] 
    by (metis mod_less_divisor zero_less_numeral)
  define L1 where "L1 = (if dm_isValid M d
    then the (do { L \<leftarrow> Line_put ?i (dm_invalidate M d) L; Line_decNumNonNullEls L }) else L)"
  have L1: "Line_ok M L1" "Line_isMaterialized L1" "ln_LgGrainsize L1 = ?g" and
    step: "dm_isValid M d \<Longrightarrow> (do { L \<leftarrow> Line_put ?i (dm_invalidate M d) L; Line_decNumNonNullEls L }) = Some L1" and
    v1: "\<And>b. b < 512 \<Longrightarrow> Line_view M L1 b = (if ?m \<le> b \<and> b < ?m + 2 ^ ?g then None else Line_view M L b)"
  proof -
    show "Line_ok M L1" "Line_isMaterialized L1" "ln_LgGrainsize L1 = ?g"
      using d(3) less.prems by (auto simp: L1_def)
    show "(do { L \<leftarrow> Line_put ?i (dm_invalidate M d) L; Line_decNumNonNullEls L }) = Some L1" if "dm_isValid M d"
      using d(3) [OF that] that unfolding L1_def by auto
    show "Line_view M L1 b = (if ?m \<le> b \<and> b < ?m + 2 ^ ?g then None else Line_view M L b)" if "b < 512" for b
      using d(2) [OF _ that] d(3) that
      unfolding chunk_aligned_idx [OF less.prems(3), symmetric] Line_getIdx_byte L1_def by auto
  qed
  show ?case
  proof (cases "dm_isValid M d \<and> Line_isEmpty L1")
    case True
    define L2 where "L2 = (if ln_LgGrainsize L1 \<noteq> SD_LG_LINE_SIZE then Line_reset L1 else L1)"
    have r: "Line_clear_loop M ?g L c = Some (L2, Chunk_next SD_LG_LINE_SIZE c)"
    proof -
      have "isLineStart (ck_addr (Chunk_next SD_LG_LINE_SIZE c))"
        using Chunk_next_unat(1) [OF cok, of 9] by (simp add: isLineStart_iff SD_LG_LINE_SIZE_def)
      moreover obtain La where "Line_put ?i (dm_invalidate M d) L = Some La" "Line_decNumNonNullEls La = Some L1"
        using step True by (auto simp: bind_eq_Some_conv)
      ultimately show ?thesis
        using True by (subst Line_clear_loop.simps) (simp add: d(1) Let_def L2_def)
    qed
    have e2: "Line_ok M L2" "Line_isEmpty L2"
      using True L1(1) Line_reset_ok [OF L1(1)] by (auto simp: L2_def)
    have "Line_view M L b = None" if "b < 512" "\<not> chunk_covers c b" for b
      using v1 [OF that(1)] Line_isEmpty_view [OF L1(1) _ that(1)] True that(2) st(1)
      by (auto simp: chunk_covers_def split: if_splits)
    then have "clears_covered M c L L2"
      using Line_isEmpty_view [OF e2] by (simp add: clears_covered_def)
    then show ?thesis using r e2 chunk_after_line_next [OF cok] by blast
  next
    case False
    have unfold: "Line_clear_loop M ?g L c =
        (if \<not> Chunk_isEmpty ?c \<and> \<not> isLineStart (ck_addr ?c) then Line_clear_loop M ?g L1 ?c
         else Some (L1, ?c))"
    proof (cases "dm_isValid M d")
      case True
      then obtain La where "Line_put ?i (dm_invalidate M d) L = Some La" "Line_decNumNonNullEls La = Some L1"
        using step by (auto simp: bind_eq_Some_conv)
      then show ?thesis
        using True False by (subst Line_clear_loop.simps) (simp add: d(1) Let_def)
    next
      case False
      then show ?thesis by (subst Line_clear_loop.simps) (simp add: d(1) Let_def L1_def)
    qed
    show ?thesis
    proof (cases "\<not> Chunk_isEmpty ?c \<and> \<not> isLineStart (ck_addr ?c)")
      case True
      note nx = chunk_aligned_next [OF less.prems(3) conjunct1 [OF True] conjunct2 [OF True]]
      have "\<exists>L' c'. Line_clear_loop M (ln_LgGrainsize L1) L1 ?c = Some (L', c') \<and> Line_ok M L' \<and>
          chunk_after_line ?c c' \<and> clears_covered M ?c L1 L'"
      proof (rule less.hyps)
        show "512 - unat (ck_addr ?c) mod 512 < 512 - ?m" unfolding nx(3) by (simp add: diff_less_mono2)
      qed (use L1 nx in auto)
      then obtain L' c' where L': "Line_clear_loop M ?g L1 ?c = Some (L', c')" "Line_ok M L'"
        "chunk_after_line ?c c'" "clears_covered M ?c L1 L'"
        unfolding L1(3) by blast
      have "chunk_after_line c c'"
        using L'(3) st unfolding chunk_after_line_def Let_def nx(2) by simp
      moreover have "clears_covered M c L L'"
        using L'(4) v1 st(1) unfolding clears_covered_def chunk_covers_def nx(3) st(3) by auto
      ultimately show ?thesis using True unfold L' by auto
    next
      case False
      have "chunk_after_line c ?c"
        and "(?m + unat (ck_size c) \<le> ?m + 2 ^ ?g) \<or> 512 \<le> ?m + 2 ^ ?g"
        using chunk_aligned_stop [OF less.prems(3)] False by auto
      moreover from this(2) have "clears_covered M c L L1"
        using v1 st(1) by (auto simp: clears_covered_def chunk_covers_def)
      ultimately show ?thesis using False unfold L1 by auto
    qed
  qed
qed

lemma Line_clear_ok:
  assumes "Line_ok M L" "\<not> dm_isValid M (dm_default M)" "\<And>d. \<not> dm_isValid M (dm_invalidate M d)"
    "chunk_ok c" "ck_addr c \<noteq> 0" "\<not> Chunk_isEmpty c"
  shows "\<exists>L' c'. Line_clear M L c = Some (L', c') \<and> Line_ok M L' \<and>
    chunk_after_line c c' \<and> clears_covered M c L L'"
proof -
  obtain lg where lg: "Chunk_getLgGrainsize c = Some lg" "chunk_aligned lg c"
    using chunk_getLg_aligned [OF assms(4-6)] by blast
  note after = chunk_after_line_next [OF assms(4)]
  show ?thesis
  proof (cases "lg = SD_LG_LINE_SIZE")
    case True
    have "chunk_aligned 9 c" using lg(2) True by (simp add: SD_LG_LINE_SIZE_def)
    then have "clears_covered M c L (if \<not> Line_isEmpty L then Line_reset L else L)"
      using chunk_aligned_9_covers Line_isEmpty_view [OF assms(1)] Line_reset_ok(2) [OF assms(1)]
      by (auto simp: clears_covered_def)
    then show ?thesis
      using lg(1) True after Line_reset_ok(1) [OF assms(1)] assms(1)
      by (auto simp: Line_clear_def)
  next
    case False
    obtain L1 where L1: "Line_fit M lg L = Some (L1, ln_LgGrainsize L1)" "Line_ok M L1"
      "chunk_aligned (ln_LgGrainsize L1) c" "\<And>b. b < 512 \<Longrightarrow> Line_view M L1 b = Line_view M L b"
      using Line_fit_ok [OF assms(1,2) lg(2)] by blast
    show ?thesis
    proof (cases "Line_isEmpty L1")
      case True
      then have "clears_covered M c L L1"
        using Line_isEmpty_view [OF L1(2)] L1(4) by (simp add: clears_covered_def)
      then show ?thesis using True False lg(1) L1 after by (auto simp: Line_clear_def)
    next
      case nonempty: False
      then have "Line_isMaterialized L1"
        using L1(2) by (auto simp: Line_ok_def Line_isEmpty_def Line_isMaterialized_def split: option.splits)
      from Line_clear_loop_ok [OF L1(2) this L1(3) assms(3)] L1(4) show ?thesis
        using False nonempty lg(1) L1(1) by (auto simp: Line_clear_def clears_covered_def)
    qed
  qed
qed

end
