(* ===== verification/ShadowDict.thy ===== *)
theory ShadowDict
  imports ShadowLine
begin

text \<open>
  The two-level tables of the shadow memory (\<open>SimpleDictionary\<close> in \<open>cilksan/simple_shadow_mem.h\<close>):
  pages of lines, and the iterators that query and update them.  A pointer to a page is its index in
  the table, a pointer to a line the pair of the page index and the line index; a null pointer is
  \<^term>\<open>None\<close>.  The scans may run over any number of pages and lines, so they are partial functions;
  the lemmas prove that they end.  The model is generic in the entries, as the code is: the code uses
  it for memory accesses and for lists of lockers.
\<close>

subsection \<open>Pages and tables\<close>

record 'a LPage_t =
  pg_lines :: "u64 \<Rightarrow> 'a Line_t"

type_synonym ('a, 'm) Table_t = "u64 \<Rightarrow> ('a, 'm) LPage_t_scheme option"

definition getPage :: "('a, 'm) Table_t \<Rightarrow> u64 \<Rightarrow> ('a, 'm) LPage_t_scheme option option" where
  "getPage T idx = (if unat idx < 2 ^ SD_LG_TABLE_SIZE then Some (T idx) else None)"

definition setPage ::
  "u64 \<Rightarrow> ('a, 'm) LPage_t_scheme \<Rightarrow> ('a, 'm) Table_t \<Rightarrow> ('a, 'm) Table_t option" where
  "setPage idx P T = (if unat idx < 2 ^ SD_LG_TABLE_SIZE then Some (T(idx := Some P)) else None)"

type_synonym line_ptr = "u64 \<times> u64"

definition deref_line :: "('a, 'm) Table_t \<Rightarrow> line_ptr option \<Rightarrow> 'a Line_t option" where
  "deref_line T lp = (case lp of None \<Rightarrow> None
     | Some (p, l) \<Rightarrow> map_option (\<lambda>P. pg_lines P l) (T p))"

definition store_line :: "('a, 'm) Table_t \<Rightarrow> line_ptr option \<Rightarrow> 'a Line_t \<Rightarrow> ('a, 'm) Table_t option" where
  "store_line T lp L = (case lp of None \<Rightarrow> None
     | Some (p, l) \<Rightarrow> map_option (\<lambda>P. T(p := Some (P\<lparr>pg_lines := (pg_lines P)(l := L)\<rparr>))) (T p))"

subsection \<open>Entries\<close>

record Entry_t =
  en_Address :: u64
  en_Page :: "u64 option"

definition Entry_empty :: Entry_t where "Entry_empty = \<lparr>en_Address = 0, en_Page = None\<rparr>"

definition page_ptr :: "('a, 'm) Table_t \<Rightarrow> u64 \<Rightarrow> u64 option option" where
  "page_ptr T idx = map_option (map_option (\<lambda>P. idx)) (getPage T idx)"

definition Entry_at :: "('a, 'm) Table_t \<Rightarrow> u64 \<Rightarrow> Entry_t option" where
  "Entry_at T addr =
     map_option (\<lambda>p. \<lparr>en_Address = addr, en_Page = p\<rparr>) (page_ptr T (sd_page addr))"

text \<open>The entry of a line for a byte, as a pointer that is null when there is no valid one; the outer
  option is an access to an array that is not there.\<close>

definition Line_get :: "'a DataMethods \<Rightarrow> u64 \<Rightarrow> 'a Line_t \<Rightarrow> 'a option option" where
  "Line_get M addr L =
     (if Line_isEmpty L then Some None
      else do {
        d \<leftarrow> Line_at (Line_getIdx (sd_byte addr) L) L;
        Some (if dm_isValid M d then Some d else None)
      })"

definition Entry_get :: "'a DataMethods \<Rightarrow> ('a, 'm) Table_t \<Rightarrow> Entry_t \<Rightarrow> 'a option option" where
  "Entry_get M T e =
     (case en_Page e of None \<Rightarrow> Some None
      | Some p \<Rightarrow> do {
          L \<leftarrow> deref_line T (Some (p, sd_line (en_Address e)));
          Line_get M (en_Address e) L
        })"

subsection \<open>Query iterators\<close>

record Iter_t =
  it_Accessed :: Chunk_t
  it_Page :: "u64 option"
  it_Line :: "line_ptr option"
  it_Entry :: Entry_t

definition it_isEnd :: "Iter_t \<Rightarrow> bool" where
  "it_isEnd I \<longleftrightarrow> Chunk_isEmpty (it_Accessed I)"

definition it_getAddress :: "Iter_t \<Rightarrow> u64" where
  "it_getAddress I = ck_addr (it_Accessed I)"

text \<open>\<open>nextPage\<close> of a query iterator: the next page that is there; false at the end of the access.\<close>

partial_function (option) q_nextPage_loop ::
  "('a, 'm) Table_t \<Rightarrow> Iter_t \<Rightarrow> (bool \<times> Iter_t) option" where
  "q_nextPage_loop T I =
     (if it_Page I \<noteq> None then Some (True, I)
      else
        let A = Chunk_next (SD_LG_PAGE_SIZE + SD_LG_LINE_SIZE) (it_Accessed I)
        in if Chunk_isEmpty A then Some (False, I\<lparr>it_Accessed := A\<rparr>)
           else do {
             p \<leftarrow> page_ptr T (sd_page (ck_addr A));
             q_nextPage_loop T (I\<lparr>it_Accessed := A, it_Page := p\<rparr>)
           })"

definition q_nextPage :: "('a, 'm) Table_t \<Rightarrow> Iter_t \<Rightarrow> (bool \<times> Iter_t) option" where
  "q_nextPage T I =
     (if it_isEnd I then None
      else do {
        p \<leftarrow> page_ptr T (sd_page (ck_addr (it_Accessed I)));
        q_nextPage_loop T (I\<lparr>it_Page := p\<rparr>)
      })"

text \<open>The line that the iterator is at: \<open>&(*Page)[line(Accessed.addr)]\<close>.\<close>

definition it_at_line :: "Iter_t \<Rightarrow> Iter_t option" where
  "it_at_line I = map_option (\<lambda>p. I\<lparr>it_Line := Some (p, sd_line (ck_addr (it_Accessed I)))\<rparr>) (it_Page I)"

partial_function (option) q_nextLine_loop ::
  "('a, 'm) Table_t \<Rightarrow> Iter_t \<Rightarrow> (bool \<times> Iter_t) option" where
  "q_nextLine_loop T I =
     do {
       L \<leftarrow> deref_line T (it_Line I);
       if \<not> Line_isEmpty L then Some (True, I)
       else
         let A = Chunk_next SD_LG_LINE_SIZE (it_Accessed I); I = I\<lparr>it_Accessed := A\<rparr>
         in if Chunk_isEmpty A then Some (False, I)
            else do {
              (ok, I) \<leftarrow> (if isPageStart (ck_addr A) then q_nextPage T I else Some (True, I));
              if \<not> ok then Some (False, I)
              else do { I \<leftarrow> it_at_line I; q_nextLine_loop T I }
            }
     }"

definition q_nextLine :: "('a, 'm) Table_t \<Rightarrow> Iter_t \<Rightarrow> (bool \<times> Iter_t) option" where
  "q_nextLine T I =
     (if it_isEnd I \<or> it_Page I = None then None
      else do { I \<leftarrow> it_at_line I; q_nextLine_loop T I })"

definition Query_iterator :: "('a, 'm) Table_t \<Rightarrow> Chunk_t \<Rightarrow> Iter_t option" where
  "Query_iterator T Accessed =
     (let I = \<lparr>it_Accessed = Accessed, it_Page = None, it_Line = None, it_Entry = Entry_empty\<rparr>
      in if Chunk_isEmpty Accessed then Some I
         else do {
           (ok, I) \<leftarrow> q_nextPage T I;
           if \<not> ok then Some I
           else do {
             (ok, I) \<leftarrow> q_nextLine T I;
             if \<not> ok then Some I
             else do {
               e \<leftarrow> Entry_at T (ck_addr (it_Accessed I));
               Some (I\<lparr>it_Entry := e\<rparr>)
             }
           }
         })"

definition q_get :: "'a DataMethods \<Rightarrow> ('a, 'm) Table_t \<Rightarrow> Iter_t \<Rightarrow> 'a option option" where
  "q_get M T I =
     (if it_isEnd I then Some None
      else do { L \<leftarrow> deref_line T (it_Line I); Line_get M (ck_addr (it_Accessed I)) L })"

text \<open>Moving on after the chunk \<open>A\<close> has been set: the updates of page, line and entry that end the
  body of \<open>next\<close>; false when the scan is over.\<close>

definition q_advance :: "('a, 'm) Table_t \<Rightarrow> Iter_t \<Rightarrow> (bool \<times> Iter_t) option" where
  "q_advance T I =
     do {
       (ok, I) \<leftarrow> (if isPageStart (ck_addr (it_Accessed I)) then q_nextPage T I else Some (True, I));
       if \<not> ok then Some (False, I)
       else do {
         (ok, I) \<leftarrow> (if isLineStart (ck_addr (it_Accessed I)) then q_nextLine T I else Some (True, I));
         if \<not> ok then Some (False, I)
         else do {
           e \<leftarrow> Entry_at T (ck_addr (it_Accessed I));
           Some (True, I\<lparr>it_Entry := e\<rparr>)
         }
       }
     }"

partial_function (option) q_next_loop ::
  "'a DataMethods \<Rightarrow> ('a, 'm) Table_t \<Rightarrow> 'a option \<Rightarrow> Iter_t \<Rightarrow> Iter_t option" where
  "q_next_loop M T PrevData I =
     do {
       L \<leftarrow> deref_line T (it_Line I);
       let A = Chunk_next (if Line_isEmpty L then SD_LG_LINE_SIZE else ln_LgGrainsize L) (it_Accessed I);
       let I = I\<lparr>it_Accessed := A\<rparr>;
       if Chunk_isEmpty A then Some I
       else do {
         (ok, I) \<leftarrow> q_advance T I;
         if \<not> ok then Some I
         else do {
           EntryData \<leftarrow> Entry_get M T (it_Entry I);
           (case EntryData of
              None \<Rightarrow> q_next_loop M T PrevData I
            | Some e \<Rightarrow>
                (case PrevData of
                   Some p \<Rightarrow> if dm_eq M p e then q_next_loop M T PrevData I else Some I
                 | None \<Rightarrow> Some I))
         }
       }
     }"

definition q_next :: "'a DataMethods \<Rightarrow> ('a, 'm) Table_t \<Rightarrow> Iter_t \<Rightarrow> Iter_t option" where
  "q_next M T I =
     (if it_isEnd I then None
      else do { PrevData \<leftarrow> Entry_get M T (it_Entry I); q_next_loop M T PrevData I })"


subsection \<open>Update iterators\<close>

text \<open>The page and the line of the current address, which may be null.\<close>

definition u_nextPage :: "('a, 'm) Table_t \<Rightarrow> Iter_t \<Rightarrow> Iter_t option" where
  "u_nextPage T I =
     (if it_isEnd I then None
      else map_option (\<lambda>p. I\<lparr>it_Page := p\<rparr>) (page_ptr T (sd_page (ck_addr (it_Accessed I)))))"

definition u_nextLine :: "Iter_t \<Rightarrow> (bool \<times> Iter_t) option" where
  "u_nextLine I =
     (if it_isEnd I then None
      else if it_Page I = None then Some (False, I\<lparr>it_Line := None\<rparr>)
      else map_option (\<lambda>I. (True, I)) (it_at_line I))"

definition Update_iterator :: "('a, 'm) Table_t \<Rightarrow> Chunk_t \<Rightarrow> Iter_t option" where
  "Update_iterator T Accessed =
     (let I = \<lparr>it_Accessed = Accessed, it_Page = None, it_Line = None, it_Entry = Entry_empty\<rparr>
      in if Chunk_isEmpty Accessed then Some I
         else do {
           I \<leftarrow> u_nextPage T I;
           (_, I) \<leftarrow> u_nextLine I;
           e \<leftarrow> Entry_at T (ck_addr (it_Accessed I));
           Some (I\<lparr>it_Entry := e\<rparr>)
         })"

definition u_get :: "'a DataMethods \<Rightarrow> ('a, 'm) Table_t \<Rightarrow> Iter_t \<Rightarrow> 'a option option" where
  "u_get M T I =
     (if it_isEnd I \<or> it_Page I = None then Some None
      else do { L \<leftarrow> deref_line T (it_Line I); Line_get M (ck_addr (it_Accessed I)) L })"

partial_function (option) u_next_loop ::
  "'a DataMethods \<Rightarrow> ('a, 'm) Table_t \<Rightarrow> 'a option \<Rightarrow> Iter_t \<Rightarrow> Iter_t option" where
  "u_next_loop M T PrevData I =
     do {
       L \<leftarrow> deref_line T (it_Line I);
       let A = Chunk_next (ln_LgGrainsize L) (it_Accessed I);
       let I = I\<lparr>it_Accessed := A\<rparr>;
       if Chunk_isEmpty A then Some I
       else do {
         I \<leftarrow> (if isPageStart (ck_addr A) then u_nextPage T I else Some I);
         (ok, I) \<leftarrow> (if isLineStart (ck_addr A) then u_nextLine I else Some (True, I));
         if \<not> ok then Some I
         else do {
           e \<leftarrow> Entry_at T (ck_addr A);
           EntryData \<leftarrow> Entry_get M T e;
           let I = I\<lparr>it_Entry := e\<rparr>;
           (case (EntryData, PrevData) of
              (Some d, Some q) \<Rightarrow> if dm_eq M q d then u_next_loop M T PrevData I else Some I
            | _ \<Rightarrow> Some I)
         }
       }
     }"

definition u_next :: "'a DataMethods \<Rightarrow> ('a, 'm) Table_t \<Rightarrow> Iter_t \<Rightarrow> Iter_t option" where
  "u_next M T I =
     (if it_isEnd I \<or> it_Page I = None \<or> it_Line I = None then None
      else do { PrevData \<leftarrow> Entry_get M T (it_Entry I); u_next_loop M T PrevData I })"

text \<open>Creating the page of the current address when there is none; \<open>P0\<close> is a new page.\<close>

definition u_ensurePage ::
  "('a, 'm) LPage_t_scheme \<Rightarrow> ('a, 'm) Table_t \<Rightarrow> Iter_t \<Rightarrow> (('a, 'm) Table_t \<times> Iter_t) option" where
  "u_ensurePage P0 T I =
     (if it_Page I \<noteq> None then Some (T, I)
      else do {
        let idx = sd_page (ck_addr (it_Accessed I));
        T \<leftarrow> setPage idx P0 T;
        I \<leftarrow> it_at_line (I\<lparr>it_Page := Some idx\<rparr>);
        Some (T, I)
      })"

text \<open>The page and the line for the rest of the access, after an operation on a line.\<close>

definition u_advance :: "('a, 'm) Table_t \<Rightarrow> Iter_t \<Rightarrow> Iter_t option" where
  "u_advance T I =
     do {
       I \<leftarrow> (if isPageStart (ck_addr (it_Accessed I)) then u_nextPage T I else Some I);
       (if isLineStart (ck_addr (it_Accessed I)) then map_option snd (u_nextLine I) else Some I)
     }"

partial_function (option) u_set ::
  "'a DataMethods \<Rightarrow> ('a, 'm) LPage_t_scheme \<Rightarrow> ('a \<Rightarrow> 'a) \<Rightarrow> ('a, 'm) Table_t \<Rightarrow> Iter_t \<Rightarrow>
   (('a, 'm) Table_t \<times> Iter_t) option" where
  "u_set M P0 SetFn T I =
     do {
       (T, I) \<leftarrow> u_ensurePage P0 T I;
       L \<leftarrow> deref_line T (it_Line I);
       (L, A) \<leftarrow> Line_set M SetFn L (it_Accessed I);
       T \<leftarrow> store_line T (it_Line I) L;
       let I = I\<lparr>it_Accessed := A\<rparr>;
       if Chunk_isEmpty A then Some (T, I)
       else do { I \<leftarrow> u_advance T I; u_set M P0 SetFn T I }
     }"

partial_function (option) u_insert_loop ::
  "'a DataMethods \<Rightarrow> ('a, 'm) LPage_t_scheme \<Rightarrow> ('a \<Rightarrow> 'a) \<Rightarrow> 'a \<Rightarrow> ('a, 'm) Table_t \<Rightarrow> Iter_t \<Rightarrow>
   (('a, 'm) Table_t \<times> Iter_t) option" where
  "u_insert_loop M P0 SetFn Previous T I =
     do {
       (T, I) \<leftarrow> u_ensurePage P0 T I;
       L \<leftarrow> deref_line T (it_Line I);
       (L, A) \<leftarrow> Line_insert M SetFn (Line_getIdx (sd_byte (ck_addr (it_Accessed I))) L) L (it_Accessed I);
       T \<leftarrow> store_line T (it_Line I) L;
       let I = I\<lparr>it_Accessed := A\<rparr>;
       if Chunk_isEmpty A then Some (T, I)
       else do {
         I \<leftarrow> u_advance T I;
         e \<leftarrow> Entry_at T (ck_addr A);
         EntryData \<leftarrow> Entry_get M T e;
         let I = I\<lparr>it_Entry := e\<rparr>;
         (case EntryData of
            None \<Rightarrow> u_insert_loop M P0 SetFn Previous T I
          | Some d \<Rightarrow>
              if dm_isValid M Previous \<and> dm_eq M Previous d
              then u_insert_loop M P0 SetFn Previous T I else Some (T, I))
       }
     }"

definition u_insert ::
  "'a DataMethods \<Rightarrow> ('a, 'm) LPage_t_scheme \<Rightarrow> ('a \<Rightarrow> 'a) \<Rightarrow> ('a, 'm) Table_t \<Rightarrow> Iter_t \<Rightarrow>
   (('a, 'm) Table_t \<times> Iter_t) option" where
  "u_insert M P0 SetFn T I =
     do {
       p \<leftarrow> Entry_get M T (it_Entry I);
       u_insert_loop M P0 SetFn (case p of Some d \<Rightarrow> d | None \<Rightarrow> dm_default M) T I
     }"

text \<open>\<open>nextNonNullPage\<close> and \<open>nextNonNullLine\<close> have the code of the methods of query iterators.\<close>

definition u_nextNonNullPage :: "('a, 'm) Table_t \<Rightarrow> Iter_t \<Rightarrow> (bool \<times> Iter_t) option" where
  "u_nextNonNullPage = q_nextPage"

definition u_nextNonNullLine :: "('a, 'm) Table_t \<Rightarrow> Iter_t \<Rightarrow> (bool \<times> Iter_t) option" where
  "u_nextNonNullLine = q_nextLine"

partial_function (option) u_clear ::
  "'a DataMethods \<Rightarrow> ('a, 'm) Table_t \<Rightarrow> Iter_t \<Rightarrow> (('a, 'm) Table_t \<times> Iter_t) option" where
  "u_clear M T I =
     do {
       (ok, I) \<leftarrow> u_nextNonNullPage T I;
       if \<not> ok then Some (T, I)
       else do {
         (ok, I) \<leftarrow> u_nextNonNullLine T I;
         if \<not> ok then Some (T, I)
         else do {
           L \<leftarrow> deref_line T (it_Line I);
           (L, A) \<leftarrow> Line_clear M L (it_Accessed I);
           T \<leftarrow> store_line T (it_Line I) L;
           let I = I\<lparr>it_Accessed := A\<rparr>;
           if Chunk_isEmpty A then Some (T, I) else u_clear M T I
         }
       }
     }"

end
