(* ===== verification/ShadowView.thy ===== *)
theory ShadowView
  imports ShadowDict
begin

text \<open>
  What the tables of the shadow memory say of each byte, and the proof that query iterators visit all
  of it: an iterator skips only bytes without a valid entry and bytes whose entry equals the one it
  has just shown.
\<close>

subsection \<open>Page and line of an address\<close>

lemma sd_page_unat: "unat (sd_page a) = unat a div 2 ^ 30"
  by (simp only: sd_page_def unat_drop_bit_eq)
     (simp add: SD_LG_PAGE_SIZE_def SD_LG_LINE_SIZE_def drop_bit_eq_div)

lemma bit_SD_LINE_IDX_MASK: "bit SD_LINE_IDX_MASK n \<longleftrightarrow> 9 \<le> n \<and> n < 30"
proof -
  have "SD_BYTE_MASK = mask 9" "SD_PAGE_OFF - 1 = mask 30"
    by (simp_all add: sd_consts mask_eq_exp_minus_1)
  then have e: "SD_LINE_IDX_MASK = NOT (mask 9) XOR NOT (mask 30)"
    by (simp only: SD_LINE_IDX_MASK_def SD_LINE_MASK_def SD_PAGE_MASK_def)
  show ?thesis unfolding e by (auto simp: bit_simps)
qed

lemma sd_line_take: "sd_line a = take_bit 21 (drop_bit 9 a)"
  by (rule bit_eqI)
     (auto simp: sd_line_def SD_LG_LINE_SIZE_def bit_simps bit_SD_LINE_IDX_MASK)

lemma sd_line_unat: "unat (sd_line a) = unat a div 512 mod 2 ^ 21"
  by (simp only: sd_line_take unsigned_take_bit_eq unat_drop_bit_eq)
     (simp add: take_bit_eq_mod drop_bit_eq_div)

lemma isPageStart_iff: "isPageStart a \<longleftrightarrow> 2 ^ 30 dvd unat a"
proof -
  have "NOT SD_PAGE_MASK = mask 30" by (simp add: sd_consts mask_eq_exp_minus_1)
  then have "isPageStart a \<longleftrightarrow> take_bit 30 a = 0"
    by (simp add: isPageStart_def take_bit_eq_mask)
  also have "\<dots> \<longleftrightarrow> take_bit 30 (unat a) = 0"
    by (simp only: word_unat_eq_iff unsigned_take_bit_eq unsigned_0)
  finally show ?thesis by (simp add: take_bit_eq_mod dvd_eq_mod_eq_0)
qed

lemma pageStart_lineStart: "isPageStart a \<Longrightarrow> isLineStart a"
  unfolding isPageStart_iff isLineStart_iff by (rule dvd_trans [of _ "2 ^ 30"]) simp_all

lemma same_line:
  assumes "unat a div 512 = unat b div 512"
  shows "sd_page a = sd_page b" "sd_line a = sd_line b"
proof -
  have "unat a div 2 ^ 30 = unat a div 512 div 2 ^ 21" for a :: u64
    by (simp only: div_mult2_eq [symmetric]) simp
  then show "sd_page a = sd_page b"
    unfolding word_unat_eq_iff sd_page_unat using assms by metis
  show "sd_line a = sd_line b"
    unfolding word_unat_eq_iff sd_line_unat using assms by simp
qed

subsection \<open>The view of a table\<close>

definition tb_line :: "('a, 'm) Table_t \<Rightarrow> u64 \<Rightarrow> 'a Line_t option" where
  "tb_line T a = deref_line T (Some (sd_page a, sd_line a))"

definition tb_ok :: "'a DataMethods \<Rightarrow> ('a, 'm) Table_t \<Rightarrow> bool" where
  "tb_ok M T \<longleftrightarrow> (\<forall>p P l. T p = Some P \<longrightarrow> Line_ok M (pg_lines P l))"

definition tb_view :: "'a DataMethods \<Rightarrow> ('a, 'm) Table_t \<Rightarrow> u64 \<Rightarrow> 'a option" where
  "tb_view M T a = (case tb_line T a of None \<Rightarrow> None | Some L \<Rightarrow> Line_view M L (unat a mod 512))"

lemma tb_line_ok: "tb_ok M T \<Longrightarrow> tb_line T a = Some L \<Longrightarrow> Line_ok M L"
  by (auto simp: tb_ok_def tb_line_def deref_line_def)

lemma tb_line_same: "unat a div 512 = unat b div 512 \<Longrightarrow> tb_line T a = tb_line T b"
  using same_line [of a b] by (simp add: tb_line_def)

lemma tb_line_page: "T (sd_page a) = Some P \<Longrightarrow> tb_line T a = Some (pg_lines P (sd_line a))"
  by (simp add: tb_line_def deref_line_def)

lemma tb_view_page_None: "T (sd_page a) = None \<Longrightarrow> tb_view M T a = None"
  by (simp add: tb_view_def tb_line_def deref_line_def)

lemma tb_view_line_empty:
  "tb_ok M T \<Longrightarrow> tb_line T a = Some L \<Longrightarrow> Line_isEmpty L \<Longrightarrow> tb_view M T a = None"
  using Line_isEmpty_view [of M L "unat a mod 512"] tb_line_ok [of M T a L] by (simp add: tb_view_def)

text \<open>Reading the entry of an address gives the view.\<close>

lemma Line_get_view:
  assumes "Line_ok M L"
  shows "Line_get M a L = Some (Line_view M L (unat a mod 512))"
proof (cases "Line_isEmpty L")
  case True
  then show ?thesis using assms by (simp add: Line_get_def Line_isEmpty_view)
next
  case False
  then obtain d where d: "ln_Data L = Some d"
    using assms by (auto simp: Line_ok_def Line_isEmpty_def split: option.splits)
  have "unat a mod 512 div 2 ^ ln_LgGrainsize L < length d"
    using assms d Line_idx_bound [of "unat a mod 512" "ln_LgGrainsize L"] by (simp add: Line_ok_def)
  then show ?thesis
    using False d by (simp add: Line_get_def Line_at_def Line_getIdx_byte Line_view_def Let_def)
qed

text \<open>One entry of a line says the same of all its bytes.\<close>

lemma Line_view_entry:
  "(b::nat) div 2 ^ ln_LgGrainsize L = c div 2 ^ ln_LgGrainsize L \<Longrightarrow> Line_view M L b = Line_view M L c"
  by (cases "ln_Data L") (simp_all add: Line_view_def)

subsection \<open>Moving along an access\<close>

text \<open>An access in the 48-bit address space.\<close>

definition chunk48 :: "Chunk_t \<Rightarrow> bool" where
  "chunk48 c \<longleftrightarrow> unat (ck_addr c) + unat (ck_size c) \<le> 2 ^ 48"

text \<open>\<open>chunk_to c c'\<close>: \<open>c'\<close> is a later part of the access \<open>c\<close>, up to its end.\<close>

definition chunk_to :: "Chunk_t \<Rightarrow> Chunk_t \<Rightarrow> bool" where
  "chunk_to c c' \<longleftrightarrow> unat (ck_addr c) \<le> unat (ck_addr c') \<and>
     unat (ck_size c') = unat (ck_addr c) + unat (ck_size c) - unat (ck_addr c')"

text \<open>The addresses that lie between the two.\<close>

definition skipped :: "Chunk_t \<Rightarrow> Chunk_t \<Rightarrow> u64 \<Rightarrow> bool" where
  "skipped c c' a \<longleftrightarrow> unat (ck_addr c) \<le> unat a \<and> unat a < unat (ck_addr c') \<and>
     unat a < unat (ck_addr c) + unat (ck_size c)"

lemma Chunk_isEmpty_unat: "Chunk_isEmpty c \<longleftrightarrow> unat (ck_size c) = 0"
  unfolding Chunk_isEmpty_def unat_eq_zero by (rule eq_commute)

lemma chunk48_ok: "chunk48 c \<Longrightarrow> chunk_ok c"
proof -
  have "(2::nat) ^ 48 < 2 ^ 63" by (rule power_strict_increasing) simp_all
  then show "chunk48 c \<Longrightarrow> chunk_ok c"
    unfolding chunk48_def chunk_ok_def by (rule le_less_trans [rotated])
qed

lemma chunk_to_refl [simp]: "chunk_to c c" by (simp add: chunk_to_def)

lemma chunk_to_trans: "chunk_to c c' \<Longrightarrow> chunk_to c' c'' \<Longrightarrow> \<not> Chunk_isEmpty c' \<Longrightarrow> chunk_to c c''"
  by (auto simp: chunk_to_def Chunk_isEmpty_unat)

lemma chunk_to_48: "chunk_to c c' \<Longrightarrow> chunk48 c \<Longrightarrow> \<not> Chunk_isEmpty c' \<Longrightarrow> chunk48 c'"
  by (auto simp: chunk_to_def chunk48_def Chunk_isEmpty_unat)

lemma skipped_refl [simp]: "\<not> skipped c c a" by (auto simp: skipped_def)

lemma skipped_trans:
  "chunk_to c c' \<Longrightarrow> chunk_to c' c'' \<Longrightarrow> \<not> Chunk_isEmpty c' \<Longrightarrow>
    skipped c c'' a \<longleftrightarrow> skipped c c' a \<or> skipped c' c'' a"
  by (auto simp: chunk_to_def skipped_def Chunk_isEmpty_unat)

lemma next_grain_gt: "(a::nat) < (a div 2 ^ g + 1) * 2 ^ g"
  by (metis add.commute dividend_less_times_div mult.commute mult_Suc_right plus_1_eq_Suc zero_less_numeral zero_less_power)

lemma Chunk_next_to:
  assumes "chunk48 c" "g \<le> 30"
  shows "chunk_to c (Chunk_next g c)" "unat (ck_addr c) < unat (ck_addr (Chunk_next g c))"
proof -
  note n = Chunk_next_unat [OF chunk48_ok [OF assms(1)] assms(2)]
  show "unat (ck_addr c) < unat (ck_addr (Chunk_next g c))" unfolding n by (rule next_grain_gt)
  then show "chunk_to c (Chunk_next g c)" unfolding chunk_to_def n by simp
qed

lemma chunk_to_size_less:
  "chunk_to c c' \<Longrightarrow> unat (ck_addr c) < unat (ck_addr c') \<Longrightarrow> \<not> Chunk_isEmpty c \<Longrightarrow>
    unat (ck_size c') < unat (ck_size c)"
  by (simp add: chunk_to_def Chunk_isEmpty_unat)

text \<open>The addresses skipped by one step of grainsize \<open>g\<close> lie in the same grain.\<close>

lemma skipped_next_grain:
  assumes "chunk48 c" "g \<le> 30" "skipped c (Chunk_next g c) a"
  shows "unat a div 2 ^ g = unat (ck_addr c) div 2 ^ g"
proof -
  have l: "unat (ck_addr c) \<le> unat a" "unat a < (unat (ck_addr c) div 2 ^ g + 1) * 2 ^ g"
    using assms(3) unfolding skipped_def Chunk_next_unat [OF chunk48_ok [OF assms(1)] assms(2)] by auto
  have "unat a div 2 ^ g < unat (ck_addr c) div 2 ^ g + 1"
    using l(2) by (rule less_mult_imp_div_less)
  moreover have "unat (ck_addr c) div 2 ^ g \<le> unat a div 2 ^ g" using l(1) by (rule div_le_mono)
  ultimately show ?thesis by simp
qed

lemma same_grain_line:
  assumes "(a::nat) div 2 ^ g = b div 2 ^ g" "g \<le> 9"
  shows "a div 512 = b div 512" "a mod 512 div 2 ^ g = b mod 512 div 2 ^ g"
proof -
  have p: "(512::nat) = 2 ^ g * 2 ^ (9 - g)" using assms(2) by (simp flip: power_add)
  show d: "a div 512 = b div 512" unfolding p div_mult2_eq using assms(1) by simp
  have "x mod 512 div 2 ^ g = x div 2 ^ g - x div 512 * 2 ^ (9 - g)" for x :: nat
  proof -
    have "x mod 512 div 2 ^ g = x div 2 ^ g mod 2 ^ (9 - g)"
      unfolding p mod_mult2_eq by simp
    also have "\<dots> = x div 2 ^ g - x div 2 ^ g div 2 ^ (9 - g) * 2 ^ (9 - g)"
      by (simp only: minus_div_mult_eq_mod)
    finally show ?thesis unfolding p div_mult2_eq .
  qed
  then show "a mod 512 div 2 ^ g = b mod 512 div 2 ^ g" using assms(1) d by simp
qed


text \<open>A step that does not reach a boundary stays in the same block.\<close>

lemma next_same_block:
  assumes "chunk48 c" "g \<le> m" "m \<le> 30" "\<not> 2 ^ m dvd unat (ck_addr (Chunk_next g c))"
  shows "unat (ck_addr (Chunk_next g c)) div 2 ^ m = unat (ck_addr c) div 2 ^ m"
proof -
  let ?q = "unat (ck_addr c) div 2 ^ g"
  have n: "unat (ck_addr (Chunk_next g c)) = (?q + 1) * 2 ^ g"
    using Chunk_next_unat(1) [OF chunk48_ok [OF assms(1)], of g] assms(2,3) by simp
  have p: "(2::nat) ^ m = 2 ^ g * 2 ^ (m - g)" using assms(2) by (simp flip: power_add)
  have "\<not> 2 ^ (m - g) dvd ?q + 1"
    using assms(4) unfolding n p by (metis dvd_refl mult.commute mult_dvd_mono)
  then have "(?q + 1) div 2 ^ (m - g) = ?q div 2 ^ (m - g)" by (simp add: div_Suc dvd_eq_mod_eq_0)
  then show ?thesis unfolding n p div_mult2_eq by simp
qed

lemma next_same_page:
  assumes "chunk48 c" "g \<le> 30" "\<not> isPageStart (ck_addr (Chunk_next g c))"
  shows "sd_page (ck_addr (Chunk_next g c)) = sd_page (ck_addr c)"
  using next_same_block [OF assms(1,2) order_refl] assms(3)
  unfolding isPageStart_iff word_unat_eq_iff sd_page_unat by simp

lemma next_same_line:
  assumes "chunk48 c" "g \<le> 9" "\<not> isLineStart (ck_addr (Chunk_next g c))"
  shows "unat (ck_addr (Chunk_next g c)) div 512 = unat (ck_addr c) div 512"
  using next_same_block [OF assms(1,2)] assms(3) unfolding isLineStart_iff by simp

subsection \<open>Query iterators\<close>

lemma page_ptr_48:
  assumes "chunk48 c" "\<not> Chunk_isEmpty c"
  shows "page_ptr T (sd_page (ck_addr c)) =
    Some (map_option (\<lambda>P. sd_page (ck_addr c)) (T (sd_page (ck_addr c))))"
proof -
  have "unat (ck_addr c) < 2 ^ 18 * 2 ^ 30"
    using assms by (simp add: chunk48_def Chunk_isEmpty_unat)
  then have "unat (sd_page (ck_addr c)) < 2 ^ 18"
    unfolding sd_page_unat by (rule less_mult_imp_div_less)
  then show ?thesis
    by (simp add: page_ptr_def getPage_def SD_LG_TABLE_SIZE_def SD_LG_PAGE_SIZE_def SD_LG_LINE_SIZE_def)
qed

lemma Entry_at_48:
  assumes "chunk48 c" "\<not> Chunk_isEmpty c"
  shows "Entry_at T (ck_addr c) = Some \<lparr>en_Address = ck_addr c,
    en_Page = map_option (\<lambda>P. sd_page (ck_addr c)) (T (sd_page (ck_addr c)))\<rparr>"
  using page_ptr_48 [OF assms] by (simp add: Entry_at_def)

lemma Entry_get_view:
  assumes "tb_ok M T"
  shows "Entry_get M T \<lparr>en_Address = a, en_Page = map_option (\<lambda>P. sd_page a) (T (sd_page a))\<rparr> =
    Some (tb_view M T a)"
proof (cases "T (sd_page a)")
  case None
  then show ?thesis by (simp add: Entry_get_def tb_view_page_None)
next
  case (Some P)
  have "Line_ok M (pg_lines P (sd_line a))" using assms Some by (simp add: tb_ok_def)
  then show ?thesis
    using Some by (simp add: Entry_get_def tb_view_def tb_line_page deref_line_def Line_get_view)
qed

text \<open>What the scans establish: only bytes without an entry were skipped.\<close>

definition q_skips :: "'a DataMethods \<Rightarrow> ('a, 'm) Table_t \<Rightarrow> Chunk_t \<Rightarrow> Chunk_t \<Rightarrow> bool" where
  "q_skips M T c c' \<longleftrightarrow> chunk_to c c' \<and> (\<forall>a. skipped c c' a \<longrightarrow> tb_view M T a = None)"

lemma q_skips_refl [simp]: "q_skips M T c c" by (simp add: q_skips_def)

lemma q_skips_trans:
  "q_skips M T c c' \<Longrightarrow> q_skips M T c' c'' \<Longrightarrow> \<not> Chunk_isEmpty c' \<Longrightarrow> q_skips M T c c''"
  unfolding q_skips_def using chunk_to_trans skipped_trans by metis

lemma q_skips_page:
  assumes "chunk48 c" "T (sd_page (ck_addr c)) = None"
  shows "q_skips M T c (Chunk_next (SD_LG_PAGE_SIZE + SD_LG_LINE_SIZE) c)"
proof -
  have g: "SD_LG_PAGE_SIZE + SD_LG_LINE_SIZE = 30" by (simp add: sd_consts)
  have "tb_view M T a = None" if "skipped c (Chunk_next 30 c) a" for a
  proof -
    have "sd_page a = sd_page (ck_addr c)"
      using skipped_next_grain [OF assms(1) _ that] by (simp only: word_unat_eq_iff sd_page_unat)
    then show ?thesis using assms(2) by (simp add: tb_view_page_None)
  qed
  then show ?thesis using Chunk_next_to(1) [OF assms(1)] unfolding g q_skips_def by blast
qed

lemma q_skips_line:
  assumes "chunk48 c" "tb_ok M T" "tb_line T (ck_addr c) = Some L" "Line_isEmpty L"
  shows "q_skips M T c (Chunk_next SD_LG_LINE_SIZE c)"
proof -
  have "tb_view M T a = None" if "skipped c (Chunk_next 9 c) a" for a
  proof -
    have "unat a div 512 = unat (ck_addr c) div 512"
      using skipped_next_grain [OF assms(1) _ that] by simp
    then have "tb_line T a = Some L" using tb_line_same assms(3) by metis
    then show ?thesis using tb_view_line_empty assms by blast
  qed
  then show ?thesis
    using Chunk_next_to(1) [OF assms(1)] unfolding SD_LG_LINE_SIZE_def q_skips_def by simp
qed

text \<open>The iterator is at a page that is there.\<close>

definition it_on_page :: "('a, 'm) Table_t \<Rightarrow> Iter_t \<Rightarrow> bool" where
  "it_on_page T I \<longleftrightarrow> \<not> it_isEnd I \<and> chunk48 (it_Accessed I) \<and>
     it_Page I = Some (sd_page (it_getAddress I)) \<and> T (sd_page (it_getAddress I)) \<noteq> None"

definition it_on_line :: "('a, 'm) Table_t \<Rightarrow> Iter_t \<Rightarrow> bool" where
  "it_on_line T I \<longleftrightarrow> it_on_page T I \<and>
     it_Line I = Some (sd_page (it_getAddress I), sd_line (it_getAddress I)) \<and>
     (\<exists>L. tb_line T (it_getAddress I) = Some L \<and> \<not> Line_isEmpty L)"

lemma q_nextPage_loop_ok:
  assumes "chunk48 (it_Accessed I)" "\<not> it_isEnd I"
    "it_Page I = map_option (\<lambda>P. sd_page (it_getAddress I)) (T (sd_page (it_getAddress I)))"
  shows "\<exists>ok I'. q_nextPage_loop T I = Some (ok, I') \<and> q_skips M T (it_Accessed I) (it_Accessed I') \<and>
    (if ok then it_on_page T I' else it_isEnd I') \<and>
    (it_Accessed I' = it_Accessed I \<or> isPageStart (it_getAddress I')) \<and> it_Line I' = it_Line I"
  using assms
proof (induction "unat (ck_size (it_Accessed I))" arbitrary: I rule: less_induct)
  case less
  let ?c = "it_Accessed I" and ?g = "SD_LG_PAGE_SIZE + SD_LG_LINE_SIZE"
  let ?A = "Chunk_next ?g ?c"
  have g: "?g \<le> 30" by (simp add: sd_consts)
  show ?case
  proof (cases "it_Page I")
    case (Some p)
    then have "it_on_page T I" using less.prems by (auto simp: it_on_page_def)
    then show ?thesis using Some by (subst q_nextPage_loop.simps) auto
  next
    case None
    then have "T (sd_page (ck_addr ?c)) = None" using less.prems(3) by (simp add: it_getAddress_def)
    note sk = q_skips_page [where M = M and T = T and c = ?c, OF less.prems(1) this]
    note nx = Chunk_next_to [OF less.prems(1) g]
    have st: "isPageStart (ck_addr ?A)"
      using Chunk_next_unat(1) [OF chunk48_ok [OF less.prems(1)] g] by (simp add: isPageStart_iff sd_consts)
    show ?thesis
    proof (cases "Chunk_isEmpty ?A")
      case True
      then show ?thesis
        using None sk st by (subst q_nextPage_loop.simps) (auto simp: Let_def it_isEnd_def it_getAddress_def)
    next
      case False
      define J where "J = I\<lparr>it_Accessed := ?A,
        it_Page := map_option (\<lambda>P. sd_page (ck_addr ?A)) (T (sd_page (ck_addr ?A)))\<rparr>"
      have A48: "chunk48 ?A" using chunk_to_48 [OF nx(1) less.prems(1) False] .
      have step: "q_nextPage_loop T I = q_nextPage_loop T J"
        using None False page_ptr_48 [OF A48 False, of T]
        by (subst q_nextPage_loop.simps) (simp add: Let_def J_def)
      have "unat (ck_size ?A) < unat (ck_size ?c)"
        using chunk_to_size_less [OF nx] less.prems(2) by (simp add: it_isEnd_def)
      then obtain ok I' where r: "q_nextPage_loop T J = Some (ok, I')" "q_skips M T ?A (it_Accessed I')"
        "if ok then it_on_page T I' else it_isEnd I'"
        "it_Accessed I' = ?A \<or> isPageStart (it_getAddress I')" "it_Line I' = it_Line I"
        using less.hyps [of J] A48 False by (auto simp: J_def it_isEnd_def it_getAddress_def)
      have "isPageStart (it_getAddress I')" using r(4) st by (auto simp: it_getAddress_def)
      then show ?thesis using step r q_skips_trans [OF sk r(2) False] by auto
    qed
  qed
qed

lemma q_nextPage_ok:
  assumes "chunk48 (it_Accessed I)" "\<not> it_isEnd I"
  shows "\<exists>ok I'. q_nextPage T I = Some (ok, I') \<and> q_skips M T (it_Accessed I) (it_Accessed I') \<and>
    (if ok then it_on_page T I' else it_isEnd I') \<and>
    (it_Accessed I' = it_Accessed I \<or> isPageStart (it_getAddress I')) \<and> it_Line I' = it_Line I"
proof -
  define J where "J = I\<lparr>it_Page := map_option (\<lambda>P. sd_page (it_getAddress I)) (T (sd_page (it_getAddress I)))\<rparr>"
  have "\<not> Chunk_isEmpty (it_Accessed I)" using assms(2) by (simp add: it_isEnd_def)
  then have "q_nextPage T I = q_nextPage_loop T J"
    using assms page_ptr_48 [OF assms(1), of T] by (simp add: q_nextPage_def J_def it_getAddress_def)
  then show ?thesis
    using q_nextPage_loop_ok [of J T M] assms by (simp add: J_def it_isEnd_def it_getAddress_def)
qed


lemma it_at_line_ok:
  assumes "it_on_page T I"
  shows "\<exists>J L. it_at_line I = Some J \<and> it_on_page T J \<and> it_Accessed J = it_Accessed I \<and>
    it_Line J = Some (sd_page (it_getAddress I), sd_line (it_getAddress I)) \<and>
    tb_line T (it_getAddress I) = Some L"
  using assms by (auto simp: it_on_page_def it_at_line_def it_isEnd_def it_getAddress_def tb_line_page)

lemma q_nextLine_loop_ok:
  assumes "tb_ok M T" "it_on_page T I"
    "it_Line I = Some (sd_page (it_getAddress I), sd_line (it_getAddress I))"
  shows "\<exists>ok I'. q_nextLine_loop T I = Some (ok, I') \<and> q_skips M T (it_Accessed I) (it_Accessed I') \<and>
    (if ok then it_on_line T I' else it_isEnd I')"
  using assms(2,3)
proof (induction "unat (ck_size (it_Accessed I))" arbitrary: I rule: less_induct)
  case less
  let ?c = "it_Accessed I" let ?A = "Chunk_next SD_LG_LINE_SIZE ?c"
  have c48: "chunk48 ?c" "\<not> Chunk_isEmpty ?c" using less.prems(1) by (simp_all add: it_on_page_def it_isEnd_def)
  obtain L where L: "tb_line T (it_getAddress I) = Some L" using it_at_line_ok [OF less.prems(1)] by blast
  have d: "deref_line T (it_Line I) = Some L" using L less.prems(2) by (simp add: tb_line_def)
  show ?case
  proof (cases "Line_isEmpty L")
    case False
    then have "it_on_line T I" using less.prems L by (simp add: it_on_line_def)
    then show ?thesis using d False by (subst q_nextLine_loop.simps) auto
  next
    case True
    have sk: "q_skips M T ?c ?A" using q_skips_line [OF c48(1) assms(1) _ True] L by (simp add: it_getAddress_def)
    have g: "SD_LG_LINE_SIZE \<le> 30" by (simp add: SD_LG_LINE_SIZE_def)
    note nx = Chunk_next_to [OF c48(1) g]
    define J where "J = I\<lparr>it_Accessed := ?A\<rparr>"
    show ?thesis
    proof (cases "Chunk_isEmpty ?A")
      case ended: True
      then show ?thesis using d True sk by (subst q_nextLine_loop.simps) (auto simp: Let_def it_isEnd_def)
    next
      case False
      have A48: "chunk48 ?A" using chunk_to_48 [OF nx(1) c48(1) False] .
      have smaller: "unat (ck_size ?A) < unat (ck_size ?c)" using chunk_to_size_less [OF nx c48(2)] .
      have J: "\<not> it_isEnd J" "chunk48 (it_Accessed J)" using False A48 by (simp_all add: J_def it_isEnd_def)
      obtain ok K where K: "(if isPageStart (ck_addr ?A) then q_nextPage T J else Some (True, J)) = Some (ok, K)"
        "q_skips M T ?A (it_Accessed K)" "if ok then it_on_page T K else it_isEnd K"
      proof (cases "isPageStart (ck_addr ?A)")
        case True
        then show ?thesis using that q_nextPage_ok [OF J(2,1), of T M] by (auto simp: J_def)
      next
        case False
        have "sd_page (ck_addr ?A) = sd_page (ck_addr ?c)"
          using next_same_page [OF c48(1) _ False] by (simp add: SD_LG_LINE_SIZE_def)
        then have "it_on_page T J" using less.prems(1) J by (simp add: it_on_page_def J_def it_getAddress_def)
        then show ?thesis using that False by (simp add: J_def)
      qed
      have unfold: "q_nextLine_loop T I =
          (if \<not> ok then Some (False, K) else do { I \<leftarrow> it_at_line K; q_nextLine_loop T I })"
        using d True False K(1) [unfolded J_def]
        by (subst q_nextLine_loop.simps) (cases "isPageStart (ck_addr ?A)"; simp add: Let_def)
      show ?thesis
      proof (cases ok)
        case False
        then show ?thesis using unfold K(2,3) q_skips_trans [OF sk K(2)] \<open>\<not> Chunk_isEmpty ?A\<close> by auto
      next
        case True
        then have Kp: "it_on_page T K" using K(3) by simp
        then obtain N where N: "it_at_line K = Some N" "it_on_page T N" "it_Accessed N = it_Accessed K"
          "it_Line N = Some (sd_page (it_getAddress K), sd_line (it_getAddress K))"
          using it_at_line_ok by blast
        have "unat (ck_size (it_Accessed N)) < unat (ck_size ?c)"
          using smaller K(2) N(3) by (auto simp: q_skips_def chunk_to_def)
        then obtain ok' I' where r: "q_nextLine_loop T N = Some (ok', I')"
          "q_skips M T (it_Accessed K) (it_Accessed I')" "if ok' then it_on_line T I' else it_isEnd I'"
          using less.hyps [of N] N by (auto simp: it_getAddress_def)
        have "\<not> Chunk_isEmpty (it_Accessed K)" using Kp by (simp add: it_on_page_def it_isEnd_def)
        then have "q_skips M T ?c (it_Accessed I')"
          using q_skips_trans [OF q_skips_trans [OF sk K(2)] r(2)] \<open>\<not> Chunk_isEmpty ?A\<close> by blast
        then show ?thesis using unfold True N(1) r by auto
      qed
    qed
  qed
qed

lemma q_nextLine_ok:
  assumes "tb_ok M T" "it_on_page T I"
  shows "\<exists>ok I'. q_nextLine T I = Some (ok, I') \<and> q_skips M T (it_Accessed I) (it_Accessed I') \<and>
    (if ok then it_on_line T I' else it_isEnd I')"
proof -
  obtain J where J: "it_at_line I = Some J" "it_on_page T J" "it_Accessed J = it_Accessed I"
    "it_Line J = Some (sd_page (it_getAddress I), sd_line (it_getAddress I))"
    using it_at_line_ok [OF assms(2)] by blast
  have "q_nextLine T I = q_nextLine_loop T J"
    using assms(2) J(1) by (simp add: q_nextLine_def it_on_page_def)
  then show ?thesis using q_nextLine_loop_ok [OF assms(1) J(2)] J(3,4) by (simp add: it_getAddress_def)
qed

text \<open>An iterator between two steps: at the end, or at a line with entries and with its entry up to date.\<close>

definition q_ok :: "('a, 'm) Table_t \<Rightarrow> Iter_t \<Rightarrow> bool" where
  "q_ok T I \<longleftrightarrow> it_isEnd I \<or>
     (it_on_line T I \<and> it_Entry I = \<lparr>en_Address = it_getAddress I,
        en_Page = map_option (\<lambda>P. sd_page (it_getAddress I)) (T (sd_page (it_getAddress I)))\<rparr>)"


lemma q_ok_get:
  assumes "tb_ok M T" "q_ok T I" "\<not> it_isEnd I"
  shows "q_get M T I = Some (tb_view M T (it_getAddress I))"
    "Entry_get M T (it_Entry I) = Some (tb_view M T (it_getAddress I))"
proof -
  obtain L where "tb_line T (it_getAddress I) = Some L"
    "it_Line I = Some (sd_page (it_getAddress I), sd_line (it_getAddress I))"
    using assms(2,3) by (auto simp: q_ok_def it_on_line_def)
  then show "q_get M T I = Some (tb_view M T (it_getAddress I))"
    using assms tb_line_ok [OF assms(1), of "it_getAddress I" L] Line_get_view [of M L]
    by (simp add: q_get_def tb_line_def tb_view_def) (simp add: it_getAddress_def)
  show "Entry_get M T (it_Entry I) = Some (tb_view M T (it_getAddress I))"
    using assms Entry_get_view [OF assms(1)] by (simp add: q_ok_def)
qed

lemma with_entry_ok:
  assumes "it_on_line T I"
  shows "Entry_at T (it_getAddress I) = Some \<lparr>en_Address = it_getAddress I,
      en_Page = map_option (\<lambda>P. sd_page (it_getAddress I)) (T (sd_page (it_getAddress I)))\<rparr>"
    and "q_ok T (I\<lparr>it_Entry := \<lparr>en_Address = it_getAddress I,
      en_Page = map_option (\<lambda>P. sd_page (it_getAddress I)) (T (sd_page (it_getAddress I)))\<rparr>\<rparr>)"
  using assms Entry_at_48 [of "it_Accessed I" T]
  by (simp_all add: q_ok_def it_on_line_def it_on_page_def it_isEnd_def it_getAddress_def)

text \<open>The updates of page, line and entry that end a step.\<close>

lemma q_nextLine_entry_ok:
  assumes "tb_ok M T" "it_on_page T I"
  shows "\<exists>ok I'. (do {
      (ok, I) \<leftarrow> q_nextLine T I;
      if \<not> ok then Some (False, I)
      else do { e \<leftarrow> Entry_at T (ck_addr (it_Accessed I)); Some (True, I\<lparr>it_Entry := e\<rparr>) }
    }) = Some (ok, I') \<and> q_skips M T (it_Accessed I) (it_Accessed I') \<and> q_ok T I' \<and> (ok \<longleftrightarrow> \<not> it_isEnd I')"
proof -
  obtain ok J where J: "q_nextLine T I = Some (ok, J)" "q_skips M T (it_Accessed I) (it_Accessed J)"
    "if ok then it_on_line T J else it_isEnd J"
    using q_nextLine_ok [OF assms] by blast
  show ?thesis
  proof (cases ok)
    case True
    then have on: "it_on_line T J" using J(3) by simp
    then have "\<not> it_isEnd J" by (simp add: it_on_line_def it_on_page_def)
    then show ?thesis
      using with_entry_ok [OF on] J(1,2) True by (auto simp: it_getAddress_def it_isEnd_def)
  next
    case False
    then show ?thesis using J by (auto simp: q_ok_def)
  qed
qed

lemma q_advance_ok:
  assumes "tb_ok M T" "\<not> it_isEnd I" "chunk48 (it_Accessed I)"
    "\<not> isLineStart (it_getAddress I) \<Longrightarrow> it_on_line T I"
    "\<not> isPageStart (it_getAddress I) \<Longrightarrow> it_on_page T I"
  shows "\<exists>ok I'. q_advance T I = Some (ok, I') \<and> q_skips M T (it_Accessed I) (it_Accessed I') \<and> q_ok T I' \<and>
    (ok \<longleftrightarrow> \<not> it_isEnd I')"
proof (cases "isPageStart (it_getAddress I)")
  case True
  obtain ok K where K: "q_nextPage T I = Some (ok, K)" "q_skips M T (it_Accessed I) (it_Accessed K)"
    "if ok then it_on_page T K else it_isEnd K"
    "it_Accessed K = it_Accessed I \<or> isPageStart (it_getAddress K)"
    using q_nextPage_ok [OF assms(3,2), of T M] by blast
  show ?thesis
  proof (cases ok)
    case False
    then show ?thesis using K True by (auto simp: q_advance_def it_getAddress_def q_ok_def)
  next
    case ok: True
    then have on: "it_on_page T K" using K(3) by simp
    have "isLineStart (it_getAddress K)"
      using K(4) True pageStart_lineStart by (auto simp: it_getAddress_def)
    moreover have "\<not> Chunk_isEmpty (it_Accessed K)" using on by (simp add: it_on_page_def it_isEnd_def)
    ultimately show ?thesis
      using q_nextLine_entry_ok [OF assms(1) on] K(1) True ok q_skips_trans [OF K(2)]
      by (auto simp: q_advance_def it_getAddress_def split_beta) 
  qed
next
  case False
  show ?thesis
  proof (cases "isLineStart (it_getAddress I)")
    case True
    then show ?thesis
      using q_nextLine_entry_ok [OF assms(1) assms(5) [OF False]] False
      by (auto simp: q_advance_def it_getAddress_def split_beta)
  next
    case nl: False
    then show ?thesis
      using with_entry_ok [OF assms(4) [OF nl]] False assms(2)
      by (auto simp: q_advance_def it_getAddress_def it_isEnd_def)
  qed
qed


text \<open>What \<open>next\<close> may pass over: bytes without an entry, bytes that say what the current one says, and
  bytes with an entry that equals the previous entry.\<close>

definition next_passes ::
  "'a DataMethods \<Rightarrow> ('a, 'm) Table_t \<Rightarrow> 'a option \<Rightarrow> 'a option \<Rightarrow> u64 \<Rightarrow> bool" where
  "next_passes M T pd cur a \<longleftrightarrow> tb_view M T a = None \<or> tb_view M T a = cur \<or>
     (\<exists>q e. pd = Some q \<and> tb_view M T a = Some e \<and> dm_eq M q e)"

lemma tb_view_same_entry:
  assumes "tb_ok M T" "tb_line T b = Some L" "unat a div 2 ^ ln_LgGrainsize L = unat b div 2 ^ ln_LgGrainsize L"
  shows "tb_view M T a = tb_view M T b"
proof -
  have "ln_LgGrainsize L \<le> 9" using tb_line_ok [OF assms(1,2)] by (simp add: Line_ok_def SD_LG_LINE_SIZE_def)
  note g = same_grain_line [OF assms(3) this]
  have "tb_line T a = Some L" using tb_line_same [OF g(1)] assms(2) by metis
  then show ?thesis using assms(2) Line_view_entry [OF g(2)] by (simp add: tb_view_def)
qed

lemma q_next_loop_ok:
  assumes "tb_ok M T" "it_on_line T I"
  shows "\<exists>I'. q_next_loop M T pd I = Some I' \<and> chunk_to (it_Accessed I) (it_Accessed I') \<and> q_ok T I' \<and>
    unat (it_getAddress I) < unat (it_getAddress I') \<and>
    (\<forall>a. skipped (it_Accessed I) (it_Accessed I') a \<longrightarrow>
       next_passes M T pd (tb_view M T (it_getAddress I)) a)"
  using assms(2)
proof (induction "unat (ck_size (it_Accessed I))" arbitrary: I rule: less_induct)
  case less
  let ?c = "it_Accessed I"
  have c48: "chunk48 ?c" "\<not> Chunk_isEmpty ?c" using less.prems
    by (simp_all add: it_on_line_def it_on_page_def it_isEnd_def)
  obtain L where L: "tb_line T (ck_addr ?c) = Some L" "\<not> Line_isEmpty L"
    using less.prems by (auto simp: it_on_line_def it_getAddress_def)
  then have d: "deref_line T (it_Line I) = Some L"
    using less.prems by (simp add: it_on_line_def tb_line_def it_getAddress_def)
  let ?g = "ln_LgGrainsize L"
  have g: "?g \<le> 9" using tb_line_ok [OF assms(1) L(1)] by (simp add: Line_ok_def SD_LG_LINE_SIZE_def)
  then have g30: "?g \<le> 30" by simp
  let ?A = "Chunk_next ?g ?c"
  define J where "J = I\<lparr>it_Accessed := ?A\<rparr>"
  note nx = Chunk_next_to [OF c48(1) g30]
  have same: "tb_view M T a = tb_view M T (ck_addr ?c)" if "skipped ?c ?A a" for a
    using tb_view_same_entry [OF assms(1) L(1)] skipped_next_grain [OF c48(1) g30 that] by blast
  show ?case
  proof (cases "Chunk_isEmpty ?A")
    case True
    then have "q_next_loop M T pd I = Some J"
      using d L(2) by (subst q_next_loop.simps) (simp add: Let_def J_def)
    moreover have "q_ok T J" using True by (simp add: q_ok_def it_isEnd_def J_def)
    ultimately show ?thesis
      using nx same by (auto simp: J_def it_getAddress_def next_passes_def)
  next
    case False
    have J: "\<not> it_isEnd J" "chunk48 (it_Accessed J)"
      using False chunk_to_48 [OF nx(1) c48(1) False] by (simp_all add: J_def it_isEnd_def)
    have pg: "it_on_page T J" if "\<not> isPageStart (it_getAddress J)"
      using that less.prems J next_same_page [OF c48(1) g30]
      by (simp add: it_on_line_def it_on_page_def J_def it_getAddress_def)
    have ln: "it_on_line T J" if nl: "\<not> isLineStart (it_getAddress J)"
    proof -
      have b: "unat (ck_addr ?A) div 512 = unat (ck_addr ?c) div 512"
        using next_same_line [OF c48(1) g] nl by (simp add: J_def it_getAddress_def)
      have "it_on_page T J" using pg pageStart_lineStart nl by blast
      then show ?thesis
        using less.prems L tb_line_same [OF b, of T] same_line [OF b]
        by (simp add: it_on_line_def J_def it_getAddress_def)
    qed
    obtain ok K where K: "q_advance T J = Some (ok, K)" "q_skips M T ?A (it_Accessed K)" "q_ok T K"
      "ok \<longleftrightarrow> \<not> it_isEnd K"
      using q_advance_ok [OF assms(1) J ln pg] by (auto simp: J_def)
    have ck: "chunk_to ?c (it_Accessed K)"
      using chunk_to_trans [OF nx(1) _ False] K(2) by (simp add: q_skips_def)
    have lt: "unat (ck_addr ?c) < unat (ck_addr (it_Accessed K))"
      using nx(2) K(2) by (auto simp: q_skips_def chunk_to_def)
    have sk: "next_passes M T pd (tb_view M T (ck_addr ?c)) a" if "skipped ?c (it_Accessed K) a" for a
    proof -
      have "chunk_to ?A (it_Accessed K)" using K(2) by (simp add: q_skips_def)
      then have "skipped ?c ?A a \<or> skipped ?A (it_Accessed K) a"
        using skipped_trans [OF nx(1) _ False] that by blast
      then show ?thesis using same K(2) by (auto simp: next_passes_def q_skips_def)
    qed
    show ?thesis
    proof (cases "ok \<and> (\<forall>e. tb_view M T (it_getAddress K) = Some e \<longrightarrow> (\<exists>q. pd = Some q \<and> dm_eq M q e))")
      case False
      then have "q_next_loop M T pd I = Some K"
        using d L(2) K \<open>\<not> Chunk_isEmpty ?A\<close> q_ok_get(2) [OF assms(1) K(3)]
        by (subst q_next_loop.simps) (auto simp: Let_def J_def split: option.splits)
      then show ?thesis using ck lt sk K(3) by (auto simp: it_getAddress_def)
    next
      case True
      then have ne: "\<not> it_isEnd K" and on: "it_on_line T K" using K(3,4) by (auto simp: q_ok_def)
      have step: "q_next_loop M T pd I = q_next_loop M T pd K"
        using d L(2) K(1) True \<open>\<not> Chunk_isEmpty ?A\<close> q_ok_get(2) [OF assms(1) K(3) ne]
        by (subst q_next_loop.simps) (auto simp: Let_def J_def split: option.splits)
      have "unat (ck_size (it_Accessed K)) < unat (ck_size ?c)"
        using chunk_to_size_less [OF ck lt c48(2)] .
      then obtain I' where I': "q_next_loop M T pd K = Some I'" "chunk_to (it_Accessed K) (it_Accessed I')"
        "q_ok T I'" "unat (it_getAddress K) < unat (it_getAddress I')"
        "\<And>a. skipped (it_Accessed K) (it_Accessed I') a \<Longrightarrow>
           next_passes M T pd (tb_view M T (it_getAddress K)) a"
        using less.hyps [OF _ on] by blast
      have Kne: "\<not> Chunk_isEmpty (it_Accessed K)" using ne by (simp add: it_isEnd_def)
      have "next_passes M T pd (tb_view M T (ck_addr ?c)) a" if "skipped ?c (it_Accessed I') a" for a
      proof -
        have "skipped ?c (it_Accessed K) a \<or> skipped (it_Accessed K) (it_Accessed I') a"
          using skipped_trans [OF ck I'(2) Kne] that by blast
        then show ?thesis
        proof
          assume "skipped (it_Accessed K) (it_Accessed I') a"
          then have "next_passes M T pd (tb_view M T (it_getAddress K)) a" by (rule I'(5))
          then show ?thesis using True by (cases "tb_view M T (it_getAddress K)") (auto simp: next_passes_def)
        qed (rule sk)
      qed
      then show ?thesis
        using step I' chunk_to_trans [OF ck I'(2) Kne] lt by (auto simp: it_getAddress_def)
    qed
  qed
qed

lemma q_next_ok:
  assumes "tb_ok M T" "q_ok T I" "\<not> it_isEnd I"
  shows "\<exists>I'. q_next M T I = Some I' \<and> chunk_to (it_Accessed I) (it_Accessed I') \<and> q_ok T I' \<and>
    unat (it_getAddress I) < unat (it_getAddress I') \<and>
    (\<forall>a. skipped (it_Accessed I) (it_Accessed I') a \<longrightarrow>
       next_passes M T (tb_view M T (it_getAddress I)) (tb_view M T (it_getAddress I)) a)"
proof -
  have "it_on_line T I" using assms(2,3) by (simp add: q_ok_def)
  then show ?thesis
    using q_next_loop_ok [OF assms(1), of I "tb_view M T (it_getAddress I)"] q_ok_get(2) [OF assms] assms(3)
    by (simp add: q_next_def)
qed

lemma Query_iterator_ok:
  assumes "tb_ok M T" "chunk48 c"
  shows "\<exists>I. Query_iterator T c = Some I \<and> q_skips M T c (it_Accessed I) \<and> q_ok T I"
proof (cases "Chunk_isEmpty c")
  case True
  then show ?thesis by (simp add: Query_iterator_def q_ok_def it_isEnd_def)
next
  case False
  define I where "I = \<lparr>it_Accessed = c, it_Page = None, it_Line = None, it_Entry = Entry_empty\<rparr>"
  have "chunk48 (it_Accessed I)" "\<not> it_isEnd I" using False assms(2) by (simp_all add: I_def it_isEnd_def)
  from q_nextPage_ok [OF this, of T M] obtain ok K where K: "q_nextPage T I = Some (ok, K)"
    "q_skips M T c (it_Accessed K)" "if ok then it_on_page T K else it_isEnd K"
    by (auto simp: I_def)
  show ?thesis
  proof (cases ok)
    case False
    then show ?thesis using K \<open>\<not> Chunk_isEmpty c\<close> by (simp add: Query_iterator_def I_def q_ok_def)
  next
    case True
    then have on: "it_on_page T K" using K(3) by simp
    obtain ok' J where J: "q_nextLine T K = Some (ok', J)" "q_skips M T (it_Accessed K) (it_Accessed J)"
      "if ok' then it_on_line T J else it_isEnd J"
      using q_nextLine_ok [OF assms(1) on] by blast
    have "\<not> Chunk_isEmpty (it_Accessed K)" using on by (simp add: it_on_page_def it_isEnd_def)
    then have sk: "q_skips M T c (it_Accessed J)" using q_skips_trans [OF K(2) J(2)] by blast
    show ?thesis
    proof (cases ok')
      case False
      then show ?thesis using K(1) J sk True \<open>\<not> Chunk_isEmpty c\<close>
        by (simp add: Query_iterator_def I_def q_ok_def)
    next
      case ok': True
      then have on: "it_on_line T J" using J(3) by simp
      show ?thesis
        using with_entry_ok [OF on] K(1) J(1) sk True ok' \<open>\<not> Chunk_isEmpty c\<close>
        by (simp add: Query_iterator_def I_def it_getAddress_def)
    qed
  qed
qed


subsection \<open>Clearing and setting a range\<close>

definition in_chunk :: "Chunk_t \<Rightarrow> u64 \<Rightarrow> bool" where
  "in_chunk c a \<longleftrightarrow> unat (ck_addr c) \<le> unat a \<and> unat a < unat (ck_addr c) + unat (ck_size c)"

lemma in_chunk_to:
  "chunk_to c c' \<Longrightarrow> in_chunk c a \<longleftrightarrow> skipped c c' a \<or> in_chunk c' a"
  by (auto simp: in_chunk_def chunk_to_def skipped_def)

lemma in_chunk_empty: "Chunk_isEmpty c \<Longrightarrow> \<not> in_chunk c a"
  by (simp add: in_chunk_def Chunk_isEmpty_unat)

lemma same_block_range:
  assumes "(n::nat) div m = k div m"
  shows "(k \<le> n \<and> n < k + s) = (k mod m \<le> n mod m \<and> n mod m < k mod m + s)"
proof -
  have "n = n div m * m + n mod m" "k = n div m * m + k mod m"
    using assms div_mult_mod_eq [of n m] div_mult_mod_eq [of k m] by auto
  then obtain q where "n = q + n mod m" "k = q + k mod m" by blast
  then show ?thesis by linarith
qed

lemma in_chunk_line:
  assumes "unat a div 512 = unat (ck_addr c) div 512"
  shows "in_chunk c a \<longleftrightarrow> chunk_covers c (unat a mod 512)"
  unfolding in_chunk_def chunk_covers_def using same_block_range [OF assms] .

lemma chunk_after_line_to:
  assumes "chunk_after_line c c'"
  shows "in_chunk c a \<longleftrightarrow>
      (unat a div 512 = unat (ck_addr c) div 512 \<and> in_chunk c a) \<or> (\<not> Chunk_isEmpty c' \<and> in_chunk c' a)"
    and "\<not> Chunk_isEmpty c' \<Longrightarrow> chunk_to c c' \<and> ck_addr c' \<noteq> 0 \<and> isLineStart (ck_addr c') \<and>
      unat (ck_addr c) < unat (ck_addr c')"
proof -
  let ?q = "unat (ck_addr c) div 512" and ?e = "unat (ck_addr c) + unat (ck_size c)"
  have s: "unat (ck_size c') = ?e - (?q + 1) * 512"
    and a: "unat (ck_size c') \<noteq> 0 \<Longrightarrow> unat (ck_addr c') = (?q + 1) * 512"
    using assms by (auto simp: chunk_after_line_def Let_def)
  have lt: "unat (ck_addr c) < (?q + 1) * 512" using next_grain_gt [of _ 9] by simp
  show "\<not> Chunk_isEmpty c' \<Longrightarrow> chunk_to c c' \<and> ck_addr c' \<noteq> 0 \<and> isLineStart (ck_addr c') \<and>
      unat (ck_addr c) < unat (ck_addr c')"
    using s a lt by (auto simp: chunk_to_def Chunk_isEmpty_unat isLineStart_iff)
  have line: "unat a div 512 = ?q" if "unat (ck_addr c) \<le> unat a" "unat a < (?q + 1) * 512"
    using that less_mult_imp_div_less [OF that(2)] div_le_mono [OF that(1), of 512] by simp
  have off: "unat a < (?q + 1) * 512" if "unat a div 512 = ?q"
    using next_grain_gt [of "unat a" 9] that by simp
  show "in_chunk c a \<longleftrightarrow>
      (unat a div 512 = ?q \<and> in_chunk c a) \<or> (\<not> Chunk_isEmpty c' \<and> in_chunk c' a)"
  proof (cases "unat a < (?q + 1) * 512")
    case True
    then show ?thesis using line s a lt by (auto simp: in_chunk_def Chunk_isEmpty_unat)
  next
    case False
    then have "unat a div 512 \<noteq> ?q" using off by blast
    then show ?thesis using False s a lt by (auto simp: in_chunk_def Chunk_isEmpty_unat)
  qed
qed

lemma page_line_inj:
  assumes "sd_page a = sd_page b" "sd_line a = sd_line b"
  shows "unat a div 512 = unat b div 512"
proof -
  have d: "x div 512 = x div 2 ^ 30 * 2 ^ 21 + x div 512 mod 2 ^ 21" for x :: nat
  proof -
    have "x div 2 ^ 30 = x div 512 div 2 ^ 21" by (simp only: div_mult2_eq [symmetric]) simp
    then show ?thesis using div_mult_mod_eq [of "x div 512" "2 ^ 21"] by simp
  qed
  have "unat a div 2 ^ 30 = unat b div 2 ^ 30" "unat a div 512 mod 2 ^ 21 = unat b div 512 mod 2 ^ 21"
    using assms by (simp_all only: sd_page_unat [symmetric] sd_line_unat [symmetric])
  then show ?thesis using d [of "unat a"] d [of "unat b"] by argo
qed

text \<open>Storing a line changes the view of its own addresses only.\<close>

lemma store_line_ok:
  assumes "tb_ok M T" "T (sd_page a) = Some P" "Line_ok M L"
  shows "\<exists>T'. store_line T (Some (sd_page a, sd_line a)) L = Some T' \<and> tb_ok M T' \<and>
    (\<forall>p. T' p = None \<longleftrightarrow> T p = None) \<and>
    (\<forall>b. tb_view M T' b =
       (if unat b div 512 = unat a div 512 then Line_view M L (unat b mod 512) else tb_view M T b))"
proof -
  define T' where "T' = T(sd_page a := Some (P\<lparr>pg_lines := (pg_lines P)(sd_line a := L)\<rparr>))"
  have "tb_view M T' b =
      (if unat b div 512 = unat a div 512 then Line_view M L (unat b mod 512) else tb_view M T b)" for b
  proof (cases "unat b div 512 = unat a div 512")
    case True
    then show ?thesis using same_line [OF True] by (simp add: tb_view_def tb_line_def deref_line_def T'_def)
  next
    case False
    then have "\<not> (sd_page b = sd_page a \<and> sd_line b = sd_line a)" using page_line_inj by blast
    then have "tb_line T' b = tb_line T b"
      using assms(2) by (cases "sd_page b = sd_page a") (auto simp: tb_line_def deref_line_def T'_def)
    then show ?thesis using False by (simp add: tb_view_def)
  qed
  moreover have "tb_ok M T'" using assms by (auto simp: tb_ok_def T'_def)
  moreover have "store_line T (Some (sd_page a, sd_line a)) L = Some T'"
    using assms(2) by (simp add: store_line_def T'_def)
  moreover have "\<forall>p. T' p = None \<longleftrightarrow> T p = None" using assms(2) by (auto simp: T'_def)
  ultimately show ?thesis by blast
qed

definition clears_range :: "'a DataMethods \<Rightarrow> Chunk_t \<Rightarrow> ('a, 'm) Table_t \<Rightarrow> ('a, 'm) Table_t \<Rightarrow> bool" where
  "clears_range M c T T' \<longleftrightarrow> (\<forall>a. tb_view M T' a = (if in_chunk c a then None else tb_view M T a))"

lemma clears_range_skips:
  "q_skips M T c c' \<Longrightarrow> clears_range M c' T T' \<Longrightarrow> clears_range M c T T'"
  unfolding clears_range_def q_skips_def using in_chunk_to by metis

lemma u_clear_ok:
  assumes M: "\<not> dm_isValid M (dm_default M)" "\<And>d. \<not> dm_isValid M (dm_invalidate M d)"
    and T: "tb_ok M T" and c: "chunk48 (it_Accessed I)" "ck_addr (it_Accessed I) \<noteq> 0" "\<not> it_isEnd I"
  shows "\<exists>T' I'. u_clear M T I = Some (T', I') \<and> tb_ok M T' \<and> clears_range M (it_Accessed I) T T'"
  using T c
proof (induction "unat (ck_size (it_Accessed I))" arbitrary: I T rule: less_induct)
  case less
  let ?c = "it_Accessed I"
  obtain ok K where K: "q_nextPage T I = Some (ok, K)" "q_skips M T ?c (it_Accessed K)"
    "if ok then it_on_page T K else it_isEnd K"
    using q_nextPage_ok [OF less.prems(2,4), of T M] by blast
  show ?case
  proof (cases ok)
    case False
    then have "clears_range M (it_Accessed K) T T"
      using K(3) in_chunk_empty by (simp add: clears_range_def it_isEnd_def)
    then show ?thesis
      using K False clears_range_skips [OF K(2)] less.prems(1)
      by (subst u_clear.simps) (simp add: u_nextNonNullPage_def)
  next
    case True
    then have on: "it_on_page T K" using K(3) by simp
    then have Kne: "\<not> Chunk_isEmpty (it_Accessed K)" by (simp add: it_on_page_def it_isEnd_def)
    obtain ok' J where J: "q_nextLine T K = Some (ok', J)" "q_skips M T (it_Accessed K) (it_Accessed J)"
      "if ok' then it_on_line T J else it_isEnd J"
      using q_nextLine_ok [OF less.prems(1) on] by blast
    have sk: "q_skips M T ?c (it_Accessed J)" using q_skips_trans [OF K(2) J(2) Kne] .
    show ?thesis
    proof (cases ok')
      case False
      then have "clears_range M (it_Accessed J) T T"
        using J(3) in_chunk_empty by (simp add: clears_range_def it_isEnd_def)
      then show ?thesis
        using K J False True clears_range_skips [OF sk] less.prems(1)
        by (subst u_clear.simps) (simp add: u_nextNonNullPage_def u_nextNonNullLine_def)
    next
      case ok': True
      let ?j = "it_Accessed J"
      have onl: "it_on_line T J" using J(3) ok' by simp
      then obtain L where L: "tb_line T (ck_addr ?j) = Some L" and j: "chunk48 ?j" "\<not> Chunk_isEmpty ?j"
        and Pn: "T (sd_page (ck_addr ?j)) \<noteq> None"
        and lp: "it_Line J = Some (sd_page (ck_addr ?j), sd_line (ck_addr ?j))"
        by (auto simp: it_on_line_def it_on_page_def it_isEnd_def it_getAddress_def)
      have j0: "ck_addr ?j \<noteq> 0"
        using sk less.prems(3) by (auto simp: q_skips_def chunk_to_def simp flip: unat_eq_zero)
      obtain L' c' where L': "Line_clear M L ?j = Some (L', c')" "Line_ok M L'" "chunk_after_line ?j c'"
        "clears_covered M ?j L L'"
        using Line_clear_ok [OF tb_line_ok [OF less.prems(1) L] M chunk48_ok [OF j(1)] j0 j(2)] by blast
      obtain P where P: "T (sd_page (ck_addr ?j)) = Some P" using Pn by blast
      obtain T1 where T1: "store_line T (it_Line J) L' = Some T1" "tb_ok M T1"
        "\<And>b. tb_view M T1 b = (if unat b div 512 = unat (ck_addr ?j) div 512
           then Line_view M L' (unat b mod 512) else tb_view M T b)"
        using store_line_ok [OF less.prems(1) P L'(2)] lp by auto
      have v1: "tb_view M T1 b = (if unat b div 512 = unat (ck_addr ?j) div 512 \<and> in_chunk ?j b
          then None else tb_view M T b)" for b
      proof (cases "unat b div 512 = unat (ck_addr ?j) div 512")
        case True
        then have "tb_view M T b = Line_view M L (unat b mod 512)"
          using tb_line_same [OF True, of T] L by (simp add: tb_view_def)
        then show ?thesis
          using T1(3) [of b] True in_chunk_line [OF True] L'(4) by (simp add: clears_covered_def)
      qed (simp add: T1(3))
      note after = chunk_after_line_to [OF L'(3)]
      define N where "N = J\<lparr>it_Accessed := c'\<rparr>"
      have step: "u_clear M T I = (if Chunk_isEmpty c' then Some (T1, N) else u_clear M T1 N)"
        using K(1) J(1) True ok' L lp L'(1) T1(1)
        by (subst u_clear.simps)
           (simp add: u_nextNonNullPage_def u_nextNonNullLine_def tb_line_def N_def Let_def)
      show ?thesis
      proof (cases "Chunk_isEmpty c'")
        case True
        then have "clears_range M ?j T T1" using v1 after(1) by (simp add: clears_range_def)
        then show ?thesis using step True T1(2) clears_range_skips [OF sk] by auto
      next
        case False
        note c' = after(2) [OF False]
        have "unat (ck_size c') < unat (ck_size ?c)"
        proof -
          have "unat (ck_size c') < unat (ck_size ?j)" using c' chunk_to_size_less j(2) by blast
          then show ?thesis using sk by (auto simp: q_skips_def chunk_to_def)
        qed
        moreover have "chunk48 c'" using c' chunk_to_48 j(1) False by blast
        ultimately obtain T' I' where r: "u_clear M T1 N = Some (T', I')" "tb_ok M T'" "clears_range M c' T1 T'"
          using less.hyps [of N T1] T1(2) c' False by (auto simp: N_def it_isEnd_def)
        have "clears_range M ?j T T'"
          unfolding clears_range_def
        proof
          fix b
          show "tb_view M T' b = (if in_chunk ?j b then None else tb_view M T b)"
            using r(3) v1 [of b] after(1) [of b] False by (auto simp: clears_range_def)
        qed
        then show ?thesis using step False r clears_range_skips [OF sk] by auto
      qed
    qed
  qed
qed


text \<open>An update iterator between two steps: page and line of the current address, possibly null.\<close>

definition u_ok :: "('a, 'm) Table_t \<Rightarrow> Iter_t \<Rightarrow> bool" where
  "u_ok T I \<longleftrightarrow> \<not> it_isEnd I \<and> chunk48 (it_Accessed I) \<and>
     it_Page I = map_option (\<lambda>P. sd_page (it_getAddress I)) (T (sd_page (it_getAddress I))) \<and>
     (it_Page I \<noteq> None \<longrightarrow> it_Line I = Some (sd_page (it_getAddress I), sd_line (it_getAddress I)))"

text \<open>A new page has no entries.\<close>

definition page_fresh :: "'a DataMethods \<Rightarrow> ('a, 'm) LPage_t_scheme \<Rightarrow> bool" where
  "page_fresh M P \<longleftrightarrow> (\<forall>l. Line_ok M (pg_lines P l) \<and> (\<forall>b. Line_view M (pg_lines P l) b = None))"

lemma u_ensurePage_ok:
  assumes "page_fresh M P0" "tb_ok M T" "u_ok T I"
  shows "\<exists>T' I' P. u_ensurePage P0 T I = Some (T', I') \<and> tb_ok M T' \<and> T' (sd_page (it_getAddress I)) = Some P \<and>
    it_Accessed I' = it_Accessed I \<and> it_Line I' = Some (sd_page (it_getAddress I), sd_line (it_getAddress I)) \<and>
    it_Entry I' = it_Entry I \<and> it_Page I' = Some (sd_page (it_getAddress I)) \<and>
    (\<forall>a. tb_view M T' a = tb_view M T a)"
proof (cases "it_Page I")
  case (Some p)
  then show ?thesis using assms by (auto simp: u_ensurePage_def u_ok_def)
next
  case None
  let ?p = "sd_page (it_getAddress I)"
  define T' where "T' = T(?p := Some P0)"
  have Tp: "T ?p = None" using None assms(3) by (simp add: u_ok_def)
  have c: "chunk48 (it_Accessed I)" "\<not> Chunk_isEmpty (it_Accessed I)"
    using assms(3) by (simp_all add: u_ok_def it_isEnd_def)
  have sp: "setPage ?p P0 T = Some T'"
    using page_ptr_48 [OF c, of T] by (auto simp: page_ptr_def getPage_def setPage_def it_getAddress_def T'_def split: if_splits)
  have "tb_view M T' a = tb_view M T a" for a
  proof (cases "sd_page a = ?p")
    case True
    then show ?thesis using Tp assms(1)
      by (simp add: tb_view_def tb_line_def deref_line_def T'_def page_fresh_def)
  qed (simp add: tb_view_def tb_line_def deref_line_def T'_def)
  moreover have "tb_ok M T'" using assms(1,2) by (simp add: tb_ok_def T'_def page_fresh_def)
  moreover have "T' ?p = Some P0" by (simp add: T'_def)
  ultimately show ?thesis
    using None sp by (simp add: u_ensurePage_def Let_def it_at_line_def it_getAddress_def)
qed

lemma u_nextPage_48:
  assumes "chunk48 (it_Accessed I)" "\<not> it_isEnd I"
  shows "u_nextPage T I =
    Some (I\<lparr>it_Page := map_option (\<lambda>P. sd_page (it_getAddress I)) (T (sd_page (it_getAddress I)))\<rparr>)"
  using page_ptr_48 [OF assms(1), of T] assms(2) by (simp add: u_nextPage_def it_getAddress_def it_isEnd_def)

lemma u_advance_ok:
  assumes "\<not> it_isEnd I" "chunk48 (it_Accessed I)" "isLineStart (it_getAddress I)"
    and page: "\<not> isPageStart (it_getAddress I) \<Longrightarrow>
      it_Page I = map_option (\<lambda>P. sd_page (it_getAddress I)) (T (sd_page (it_getAddress I)))"
  shows "\<exists>I'. u_advance T I = Some I' \<and> it_Accessed I' = it_Accessed I \<and> u_ok T I'"
proof -
  define J where "J = I\<lparr>it_Page := map_option (\<lambda>P. sd_page (it_getAddress I)) (T (sd_page (it_getAddress I)))\<rparr>"
  have "(if isPageStart (it_getAddress I) then u_nextPage T I else Some I) = Some J"
    using u_nextPage_48 [OF assms(2,1), of T] page by (auto simp: J_def)
  then have "u_advance T I = map_option snd (u_nextLine J)"
    using assms(3) by (simp add: u_advance_def it_getAddress_def J_def)
  moreover have "\<exists>I'. map_option snd (u_nextLine J) = Some I' \<and> it_Accessed I' = it_Accessed I \<and> u_ok T I'"
    using assms(1,2)
    by (cases "T (sd_page (it_getAddress I))")
       (auto simp: J_def u_nextLine_def it_at_line_def u_ok_def it_isEnd_def it_getAddress_def)
  ultimately show ?thesis by simp
qed

lemma Update_iterator_ok:
  assumes "chunk48 c" "\<not> Chunk_isEmpty c"
  shows "\<exists>I. Update_iterator T c = Some I \<and> it_Accessed I = c \<and> u_ok T I \<and>
    it_Entry I = \<lparr>en_Address = ck_addr c, en_Page = map_option (\<lambda>P. sd_page (ck_addr c)) (T (sd_page (ck_addr c)))\<rparr>"
  using assms page_ptr_48 [OF assms, of T] Entry_at_48 [OF assms, of T]
  by (cases "T (sd_page (ck_addr c))")
     (simp_all add: Update_iterator_def u_nextPage_def u_nextLine_def it_at_line_def u_ok_def it_isEnd_def
       it_getAddress_def)

definition sets_range :: "'a DataMethods \<Rightarrow> ('a \<Rightarrow> 'a) \<Rightarrow> Chunk_t \<Rightarrow> ('a, 'm) Table_t \<Rightarrow> ('a, 'm) Table_t \<Rightarrow> bool" where
  "sets_range M f c T T' \<longleftrightarrow> (\<forall>a. if in_chunk c a then \<exists>e. tb_view M T' a = Some (f e)
     else tb_view M T' a = tb_view M T a)"

lemma u_set_ok:
  assumes M: "\<not> dm_isValid M (dm_default M)" "\<And>d. dm_isValid M (f d)" "page_fresh M P0"
    and T: "tb_ok M T" and I: "u_ok T I" "it_getAddress I \<noteq> 0"
  shows "\<exists>T' I'. u_set M P0 f T I = Some (T', I') \<and> tb_ok M T' \<and> sets_range M f (it_Accessed I) T T'"
  using T I
proof (induction "unat (ck_size (it_Accessed I))" arbitrary: I T rule: less_induct)
  case less
  let ?c = "it_Accessed I" and ?a = "it_getAddress I"
  have c: "chunk48 ?c" "\<not> Chunk_isEmpty ?c" using less.prems(2) by (simp_all add: u_ok_def it_isEnd_def)
  obtain T0 J P where J: "u_ensurePage P0 T I = Some (T0, J)" "tb_ok M T0" "T0 (sd_page ?a) = Some P"
    "it_Accessed J = ?c" "it_Line J = Some (sd_page ?a, sd_line ?a)" "it_Page J = Some (sd_page ?a)"
    "\<And>a. tb_view M T0 a = tb_view M T a"
    using u_ensurePage_ok [OF M(3) less.prems(1,2)] by blast
  obtain L where L: "tb_line T0 ?a = Some L" using J(3) tb_line_page by metis
  obtain L' c' where L': "Line_set M f L ?c = Some (L', c')" "Line_ok M L'" "chunk_after_line ?c c'"
    "stores_covered M f ?c L L'"
    using Line_set_ok [where f = f, OF tb_line_ok [OF J(2) L] M(1,2) chunk48_ok [OF c(1)] _ c(2)] less.prems(3)
    by (auto simp: it_getAddress_def)
  obtain T1 where T1: "store_line T0 (it_Line J) L' = Some T1" "tb_ok M T1"
    "\<And>p. T1 p = None \<longleftrightarrow> T0 p = None"
    "\<And>b. tb_view M T1 b = (if unat b div 512 = unat ?a div 512
       then Line_view M L' (unat b mod 512) else tb_view M T0 b)"
    using store_line_ok [OF J(2,3) L'(2)] J(5) by auto
  have v1: "if unat b div 512 = unat ?a div 512 \<and> in_chunk ?c b then \<exists>e. tb_view M T1 b = Some (f e)
      else tb_view M T1 b = tb_view M T b" for b
  proof (cases "unat b div 512 = unat ?a div 512")
    case True
    then have "tb_view M T0 b = Line_view M L (unat b mod 512)"
      using tb_line_same [OF True, of T0] L by (simp add: tb_view_def)
    then show ?thesis
      using T1(4) [of b] True in_chunk_line [of b ?c] L'(4) J(7)
      by (auto simp: stores_covered_def it_getAddress_def)
  qed (simp add: T1(4) J(7))
  note after = chunk_after_line_to [OF L'(3)]
  define N where "N = J\<lparr>it_Accessed := c'\<rparr>"
  have step: "u_set M P0 f T I =
      (if Chunk_isEmpty c' then Some (T1, N) else do { I \<leftarrow> u_advance T1 N; u_set M P0 f T1 I })"
    using J(1,4,5) L L'(1) T1(1) by (subst u_set.simps) (simp add: tb_line_def N_def Let_def)
  show ?case
  proof (cases "Chunk_isEmpty c'")
    case True
    then have "sets_range M f ?c T T1"
      using v1 after(1) by (auto simp: sets_range_def it_getAddress_def)
    then show ?thesis using step True T1(2) by auto
  next
    case False
    note c' = after(2) [OF False]
    have c'48: "chunk48 c'" using c' chunk_to_48 c(1) False by blast
    have page: "it_Page N = map_option (\<lambda>P. sd_page (it_getAddress N)) (T1 (sd_page (it_getAddress N)))"
      if np: "\<not> isPageStart (it_getAddress N)"
    proof -
      have e: "ck_addr c' = ck_addr (Chunk_next 9 ?c)" unfolding word_unat_eq_iff
        using L'(3) False Chunk_next_unat(1) [OF chunk48_ok [OF c(1)], of 9]
        by (auto simp: chunk_after_line_def Chunk_isEmpty_unat Let_def)
      then have "sd_page (ck_addr c') = sd_page (ck_addr ?c)"
        using next_same_page [OF c(1), of 9] np by (simp add: N_def it_getAddress_def)
      moreover have "T1 (sd_page ?a) \<noteq> None" using T1(3) J(3) by simp
      ultimately show ?thesis using J(6) by (auto simp: N_def it_getAddress_def)
    qed
    have "isLineStart (it_getAddress N)" using c' by (simp add: N_def it_getAddress_def)
    from u_advance_ok [where I = N and T = T1, OF _ _ this page] obtain K where K: "u_advance T1 N = Some K" "it_Accessed K = c'" "u_ok T1 K"
      using c'48 False by (auto simp: N_def it_isEnd_def)
    have "unat (ck_size c') < unat (ck_size ?c)" using c' chunk_to_size_less c(2) by blast
    then obtain T' I' where r: "u_set M P0 f T1 K = Some (T', I')" "tb_ok M T'" "sets_range M f c' T1 T'"
      using less.hyps [of K T1] T1(2) K c' by (auto simp: it_getAddress_def)
    have "sets_range M f ?c T T'"
      unfolding sets_range_def
    proof
      fix b
      show "if in_chunk ?c b then \<exists>e. tb_view M T' b = Some (f e) else tb_view M T' b = tb_view M T b"
        using r(3) v1 [of b] after(1) [of b] False
        by (cases "in_chunk c' b") (auto simp: sets_range_def it_getAddress_def split: if_splits)
    qed
    then show ?thesis using step False K(1) r by auto
  qed
qed

end
