(* ===== verification/MemoryAccess.thy ===== *)
theory MemoryAccess
  imports Frames RaceInfo
begin

text \<open>
  \<open>MemoryAccess_t\<close> of \<open>cilksan/dictionary.h\<close>: what the shadow memory keeps of the last access to a
  location.  \<open>ver_func\<close> packs a pointer to the disjoint-set node of the accessing function (48 bits) with
  the version of its S-bag (16 bits); \<open>ver_acc_id\<close> packs a CSI id (44 bits) with the type of the
  access (4 bits).  The operations that change reference counts thread the state of \<open>SPBags\<close>.
\<close>

definition MA_VERSION_SHIFT :: nat where "MA_VERSION_SHIFT = 8 * (8 - 2)"
definition MA_TYPE_SHIFT :: nat where "MA_TYPE_SHIFT = MA_VERSION_SHIFT - 4"
definition MA_ID_MASK :: csi_id_t where "MA_ID_MASK = push_bit MA_TYPE_SHIFT 1 - 1"
definition MA_TYPE_MASK :: csi_id_t where
  "MA_TYPE_MASK = (push_bit MA_VERSION_SHIFT 1 - 1) AND NOT MA_ID_MASK"
definition UNKNOWN_CSI_ACC_ID :: csi_id_t where "UNKNOWN_CSI_ACC_ID = UNKNOWN_CSI_ID AND MA_ID_MASK"
definition PTR_MASK :: u64 where "PTR_MASK = push_bit MA_VERSION_SHIFT 1 - 1"

record MemoryAccess_t =
  ver_func :: u64
  ver_acc_id :: csi_id_t

definition makeTypedID :: "csi_id_t \<Rightarrow> MAType_t \<Rightarrow> csi_id_t" where
  "makeTypedID acc_id type = (acc_id AND MA_ID_MASK) OR push_bit MA_TYPE_SHIFT (ucast type)"

definition getFuncFromVerFunc :: "MemoryAccess_t \<Rightarrow> u64" where
  "getFuncFromVerFunc ma = ver_func ma AND PTR_MASK"

definition getVersionFromVerFunc :: "MemoryAccess_t \<Rightarrow> version_t" where
  "getVersionFromVerFunc ma = ucast (drop_bit MA_VERSION_SHIFT (ver_func ma))"

definition makeVerFunc :: "u64 \<Rightarrow> version_t \<Rightarrow> u64" where
  "makeVerFunc func version = func OR push_bit MA_VERSION_SHIFT (ucast version)"

definition clearVerFunc :: "MemoryAccess_t \<Rightarrow> MemoryAccess_t" where
  "clearVerFunc ma = ma\<lparr>ver_func := 0\<rparr>"

definition haveVerFunc :: "MemoryAccess_t \<Rightarrow> bool" where
  "haveVerFunc ma \<longleftrightarrow> 0 \<noteq> ver_func ma"

definition MemoryAccess_default :: MemoryAccess_t where
  "MemoryAccess_default = \<lparr>ver_func = 0, ver_acc_id = UNKNOWN_CSI_ACC_ID\<rparr>"

definition MemoryAccess_new ::
  "u64 \<Rightarrow> version_t \<Rightarrow> csi_id_t \<Rightarrow> MAType_t \<Rightarrow> 'd sp_state \<Rightarrow> (MemoryAccess_t \<times> 'd sp_state) option" where
  "MemoryAccess_new func version acc_id type S =
     do {
       S \<leftarrow> (if func \<noteq> 0 then sp_inc_ref func S else Some S);
       Some (\<lparr>ver_func = makeVerFunc func version, ver_acc_id = makeTypedID acc_id type\<rparr>, S)
     }"

definition MemoryAccess_copy :: "MemoryAccess_t \<Rightarrow> 'd sp_state \<Rightarrow> (MemoryAccess_t \<times> 'd sp_state) option" where
  "MemoryAccess_copy cp S =
     do {
       S \<leftarrow> (if haveVerFunc cp then sp_inc_ref (getFuncFromVerFunc cp) S else Some S);
       Some (\<lparr>ver_func = ver_func cp, ver_acc_id = ver_acc_id cp\<rparr>, S)
     }"

definition MemoryAccess_destroy :: "MemoryAccess_t \<Rightarrow> 'd sp_state \<Rightarrow> (MemoryAccess_t \<times> 'd sp_state) option" where
  "MemoryAccess_destroy ma S =
     (if haveVerFunc ma
      then map_option (\<lambda>S. (clearVerFunc ma, S)) (sp_dec_ref (getFuncFromVerFunc ma) S)
      else Some (ma, S))"

definition MA_isValid :: "MemoryAccess_t \<Rightarrow> bool" where
  "MA_isValid ma \<longleftrightarrow> haveVerFunc ma"

definition MA_invalidate :: "MemoryAccess_t \<Rightarrow> 'd sp_state \<Rightarrow> (MemoryAccess_t \<times> 'd sp_state) option" where
  "MA_invalidate ma S =
     do {
       S \<leftarrow> (if haveVerFunc ma then sp_dec_ref (getFuncFromVerFunc ma) S else Some S);
       Some ((clearVerFunc ma)\<lparr>ver_acc_id := UNKNOWN_CSI_ACC_ID\<rparr>, S)
     }"

definition getAccID :: "MemoryAccess_t \<Rightarrow> csi_id_t" where
  "getAccID ma =
     (if ver_acc_id ma AND MA_ID_MASK = UNKNOWN_CSI_ACC_ID then UNKNOWN_CSI_ID
      else ver_acc_id ma AND MA_ID_MASK)"

definition getAccType :: "MemoryAccess_t \<Rightarrow> MAType_t" where
  "getAccType ma =
     (if ver_acc_id ma AND MA_ID_MASK = UNKNOWN_CSI_ACC_ID then UNKNOWN
      else ucast (drop_bit MA_TYPE_SHIFT (ver_acc_id ma AND MA_TYPE_MASK)))"

text \<open>\<open>set\<close>: the version is only stored together with a new function.\<close>

definition MA_set ::
  "u64 \<Rightarrow> version_t \<Rightarrow> csi_id_t \<Rightarrow> MAType_t \<Rightarrow> MemoryAccess_t \<Rightarrow> 'd sp_state \<Rightarrow>
   (MemoryAccess_t \<times> 'd sp_state) option" where
  "MA_set func version acc_id type ma S =
     do {
       let this_func = getFuncFromVerFunc ma;
       (ma, S) \<leftarrow>
         (if this_func \<noteq> func
          then do {
            S \<leftarrow> (if func \<noteq> 0 then sp_inc_ref func S else Some S);
            S \<leftarrow> (if this_func \<noteq> 0 then sp_dec_ref this_func S else Some S);
            Some (ma\<lparr>ver_func := makeVerFunc func version\<rparr>, S)
          }
          else Some (ma, S));
       Some (ma\<lparr>ver_acc_id := makeTypedID acc_id type\<rparr>, S)
     }"

definition MA_assign ::
  "MemoryAccess_t \<Rightarrow> MemoryAccess_t \<Rightarrow> 'd sp_state \<Rightarrow> (MemoryAccess_t \<times> 'd sp_state) option" where
  "MA_assign cp ma S =
     do {
       (ma, S) \<leftarrow>
         (if ver_func ma \<noteq> ver_func cp
          then do {
            S \<leftarrow> (if haveVerFunc cp then sp_inc_ref (getFuncFromVerFunc cp) S else Some S);
            S \<leftarrow> (if haveVerFunc ma then sp_dec_ref (getFuncFromVerFunc ma) S else Some S);
            Some (ma\<lparr>ver_func := ver_func cp\<rparr>, S)
          }
          else Some (ma, S));
       Some (ma\<lparr>ver_acc_id := ver_acc_id cp\<rparr>, S)
     }"

definition MA_move_assign ::
  "MemoryAccess_t \<Rightarrow> MemoryAccess_t \<Rightarrow> 'd sp_state \<Rightarrow> (MemoryAccess_t \<times> 'd sp_state) option" where
  "MA_move_assign mv ma S =
     do {
       S \<leftarrow> (if haveVerFunc ma then sp_dec_ref (getFuncFromVerFunc ma) S else Some S);
       Some (ma\<lparr>ver_func := ver_func mv, ver_acc_id := ver_acc_id mv\<rparr>, S)
     }"

definition MA_eq :: "MemoryAccess_t \<Rightarrow> MemoryAccess_t \<Rightarrow> bool" where
  "MA_eq a b \<longleftrightarrow> ver_func a = ver_func b"

definition previousAccessInParallel ::
  "MemoryAccess_t \<Rightarrow> FrameData_t \<Rightarrow> 'd sp_state \<Rightarrow> (bool \<times> 'd sp_state) option" where
  "previousAccessInParallel PrevAccess f S =
     do {
       let func = ver_func PrevAccess AND PTR_MASK;
       let version = ucast (drop_bit MA_VERSION_SHIFT (ver_func PrevAccess));
       (LCASbagOrNull, S) \<leftarrow> sp_get_sbag_or_null func S;
       if LCASbagOrNull = 0 then Some (True, S)
       else do {
         p \<leftarrow> check_parallel_iter LCASbagOrNull version f S;
         Some (p, S)
       }
     }"

subsection \<open>The packed fields\<close>

lemma ma_masks: "PTR_MASK = mask 48" "MA_ID_MASK = mask 44" "MA_VERSION_SHIFT = 48" "MA_TYPE_SHIFT = 44"
  by (simp_all add: PTR_MASK_def MA_VERSION_SHIFT_def MA_ID_MASK_def MA_TYPE_SHIFT_def mask_eq_exp_minus_1)

lemma bit_MA_TYPE_MASK: "bit MA_TYPE_MASK n \<longleftrightarrow> 44 \<le> n \<and> n < 48"
proof -
  have "push_bit MA_VERSION_SHIFT 1 - 1 = (mask 48 :: csi_id_t)"
    by (simp add: MA_VERSION_SHIFT_def mask_eq_exp_minus_1)
  then have e: "MA_TYPE_MASK = mask 48 AND NOT (mask 44)"
    by (simp only: MA_TYPE_MASK_def ma_masks(2))
  show ?thesis unfolding e by (auto simp: bit_simps)
qed

text \<open>A user-space pointer fits in the 48 bits of the function, a CSI id in the 44 bits of the id; the
  all-ones id is the unknown one.\<close>

definition ptr48 :: "u64 \<Rightarrow> bool" where "ptr48 p \<longleftrightarrow> take_bit 48 p = p"

definition id44 :: "csi_id_t \<Rightarrow> bool" where "id44 i \<longleftrightarrow> take_bit 44 i = i \<and> i \<noteq> mask 44"

lemma ver_func_roundtrip:
  assumes "ptr48 p"
  shows "makeVerFunc p v AND PTR_MASK = p"
    "ucast (drop_bit MA_VERSION_SHIFT (makeVerFunc p v)) = v"
proof -
  have b: "n < 48" if "bit p n" for n
    using that assms by (metis bit_take_bit_iff ptr48_def)
  show "makeVerFunc p v AND PTR_MASK = p"
    by (rule bit_eqI) (auto simp: makeVerFunc_def ma_masks bit_simps dest: b)
  show "ucast (drop_bit MA_VERSION_SHIFT (makeVerFunc p v)) = v"
    by (rule bit_eqI) (auto simp: makeVerFunc_def ma_masks bit_simps dest: b bit_word_imp_less)
qed

lemma makeVerFunc_nonzero: "p \<noteq> 0 \<Longrightarrow> makeVerFunc p v \<noteq> 0"
  by (metis makeVerFunc_def or_eq_0_iff)

lemma typed_id_roundtrip:
  assumes "id44 i" "take_bit 4 t = t"
  shows "getAccID \<lparr>ver_func = vf, ver_acc_id = makeTypedID i t\<rparr> = i"
    "getAccType \<lparr>ver_func = vf, ver_acc_id = makeTypedID i t\<rparr> = t"
proof -
  have bi: "n < 44" if "bit i n" for n
    using that assms(1) by (metis bit_take_bit_iff id44_def)
  have bt: "n < 4" if "bit t n" for n
    using that assms(2) by (metis bit_take_bit_iff)
  have m: "makeTypedID i t AND MA_ID_MASK = i"
    by (rule bit_eqI) (auto simp: makeTypedID_def ma_masks bit_simps dest: bi)
  have u: "UNKNOWN_CSI_ACC_ID = mask 44"
    by (rule bit_eqI) (auto simp: UNKNOWN_CSI_ACC_ID_def UNKNOWN_CSI_ID_def ma_masks bit_simps)
  have ne: "i \<noteq> UNKNOWN_CSI_ACC_ID" using assms(1) u by (simp add: id44_def)
  show "getAccID \<lparr>ver_func = vf, ver_acc_id = makeTypedID i t\<rparr> = i"
    using m ne by (simp add: getAccID_def)
  have "ucast (drop_bit MA_TYPE_SHIFT (makeTypedID i t AND MA_TYPE_MASK)) = t"
    by (rule bit_eqI)
       (auto simp: makeTypedID_def ma_masks bit_MA_TYPE_MASK bit_simps dest: bi bt bit_word_imp_less)
  then show "getAccType \<lparr>ver_func = vf, ver_acc_id = makeTypedID i t\<rparr> = t"
    using m ne by (simp add: getAccType_def)
qed

lemma typed_id_unknown:
  "getAccID \<lparr>ver_func = vf, ver_acc_id = makeTypedID UNKNOWN_CSI_ID t\<rparr> = UNKNOWN_CSI_ID"
  "getAccType \<lparr>ver_func = vf, ver_acc_id = makeTypedID UNKNOWN_CSI_ID t\<rparr> = UNKNOWN"
proof -
  have m: "makeTypedID UNKNOWN_CSI_ID t AND MA_ID_MASK = UNKNOWN_CSI_ACC_ID"
    by (rule bit_eqI)
       (auto simp: makeTypedID_def UNKNOWN_CSI_ACC_ID_def UNKNOWN_CSI_ID_def ma_masks bit_simps)
  show "getAccID \<lparr>ver_func = vf, ver_acc_id = makeTypedID UNKNOWN_CSI_ID t\<rparr> = UNKNOWN_CSI_ID"
    "getAccType \<lparr>ver_func = vf, ver_acc_id = makeTypedID UNKNOWN_CSI_ID t\<rparr> = UNKNOWN"
    using m by (simp_all add: getAccID_def getAccType_def)
qed


subsection \<open>Is a previous access in parallel?\<close>

text \<open>\<open>sp_same_sets S S'\<close>: the two states have the same bags and put every node that the second still has
  in the same set.\<close>

definition sp_same_sets :: "'d sp_state \<Rightarrow> 'd sp_state \<Rightarrow> bool" where
  "sp_same_sets S S' \<longleftrightarrow> sp_bags S' = sp_bags S \<and> sp_new S' = sp_new S \<and>
     (\<forall>x p. sp_ds S' x \<noteq> None \<longrightarrow> sp_ds S x \<noteq> None \<and> (sp_in S' x p \<longleftrightarrow> sp_in S x p))"

lemma sp_refines_same_sets:
  assumes S: "sp_inv S ext" and S': "sp_inv S' ext'" and ref: "ds_refines (sp_ds S) (sp_ds S')"
    and eq: "sp_bags S' = sp_bags S" "sp_new S' = sp_new S"
  shows "sp_same_sets S S'"
proof -
  have "sp_ds S x \<noteq> None \<and> (sp_in S' x p \<longleftrightarrow> sp_in S x p)" if x: "sp_ds S' x \<noteq> None" for x p
  proof -
    obtain n' where n': "sp_ds S' x = Some n'" using x by blast
    obtain n where n: "sp_ds S x = Some n" using ds_refinesD [OF ref n'] by blast
    obtain r where r': "ds_rep (sp_ds S') x r" using ds_rep_ex [OF sp_invD(1) [OF S'] n'] by blast
    then have r: "ds_rep (sp_ds S) x r"
      using ds_rep_refines_iff [OF sp_invD(1) [OF S] sp_invD(1) [OF S'] ref x] by simp
    obtain m' where m': "sp_ds S' r = Some m'" "ds_par m' = None" using ds_rep_root [OF r'] by blast
    obtain m where m: "sp_ds S r = Some m" "ds_par m = None" using ds_rep_root [OF r] by blast
    have "ds_parent_or_bag m' = ds_parent_or_bag m"
      using ref m' m unfolding ds_refines_def by (metis option.inject)
    then show ?thesis using sp_in_rep [OF r m(1)] sp_in_rep [OF r' m'(1)] n by simp
  qed
  then show ?thesis using eq by (simp add: sp_same_sets_def)
qed

lemma sp_get_sbag_or_null_ok:
  assumes inv: "sp_inv S ext" and a: "0 < bag_ext ext (sp_bags S) a" and p: "sp_in S a p"
  shows "\<exists>S'. sp_get_sbag_or_null a S = Some (if pob_isSBag p then pob_getSBag p else 0, S') \<and>
    sp_inv S' ext \<and> sp_same_sets S S' \<and> ds_refines (sp_ds S) (sp_ds S')"
proof -
  note I = sp_invD [OF inv]
  obtain r h L where f: "find_set a (sp_ds S) (sp_list S) = Some (r, h, L)" "ds_rep (sp_ds S) a r"
    "ds_inv h (bag_ext ext (sp_bags S))" "ds_refines (sp_ds S) h" "DSList_wf L" "DSList_elems L = []"
    using find_set_ok [OF I(1) a I(2,3)] by blast
  define S' where "S' = S\<lparr>sp_ds := h, sp_list := L\<rparr>"
  have inv': "sp_inv S' ext" using inv f by (auto simp: sp_inv_def S'_def)
  have same: "sp_same_sets S S'"
    by (rule sp_refines_same_sets [OF inv inv']) (simp_all add: S'_def f(4))
  have ha: "h a \<noteq> None" using ds_inv_ext_live [OF f(3) a] by simp
  have "ds_rep h a r"
    using ds_rep_refines_iff [OF I(1) f(3,4) ha] f(2) by simp
  then obtain m where m: "h r = Some m" using ds_rep_root by blast
  have "sp_in S' a p" using same ha p by (simp add: sp_same_sets_def S'_def)
  then have "ds_parent_or_bag m = p"
    using sp_in_rep [of S' a r m p] \<open>ds_rep h a r\<close> m by (simp add: S'_def)
  then show ?thesis
    using f(1,4) m inv' same
    by (simp add: sp_get_sbag_or_null_def ds_get_sbag_or_null_def ds_root_pob_def S'_def)
qed

text \<open>
  The SP-bags query: the previous access is in parallel exactly when its function is now in a P-bag,
  or in the S-bag of the iterations of the current loop frame with an older version.
\<close>

lemma previousAccessInParallel_refines:
  assumes inv: "sp_inv S ext" and live: "0 < bag_ext ext (sp_bags S) (getFuncFromVerFunc ma)"
    and b: "sp_bags S b = Some B" and s: "sp_in S (getFuncFromVerFunc ma) (bag_tag b B)"
  shows "\<exists>S'. previousAccessInParallel ma f S =
      Some (is_PBag B \<or> (is_loop_frame f \<and> b = Iterbag f \<and> getVersionFromVerFunc ma < SBag_get_version B), S') \<and>
    sp_inv S' ext \<and> sp_same_sets S S' \<and> ds_refines (sp_ds S) (sp_ds S')"
proof -
  have b0: "b \<noteq> 0" "aligned4 b" using sp_invD(4) [OF inv b] by simp_all
  obtain S' where S': "sp_get_sbag_or_null (getFuncFromVerFunc ma) S =
      Some (if pob_isSBag (bag_tag b B) then pob_getSBag (bag_tag b B) else 0, S')"
    "sp_inv S' ext" "sp_same_sets S S'" "ds_refines (sp_ds S) (sp_ds S')"
    using sp_get_sbag_or_null_ok [OF inv live s] by blast
  have b': "sp_bags S' b = Some B" using S'(3) b by (simp add: sp_same_sets_def)
  have PS: "is_PBag B \<longleftrightarrow> \<not> is_SBag B" by (simp add: is_PBag_bit is_SBag_bit)
  have g: "sp_get_sbag_or_null (ver_func ma AND PTR_MASK) S = Some (if is_SBag B then b else 0, S')"
    using S'(1) pob_setSBag_roundtrip [OF b0(2)] pob_setPBag_roundtrip [OF b0(2)]
    by (simp add: bag_tag_def getFuncFromVerFunc_def)
  have "previousAccessInParallel ma f S =
      Some (is_PBag B \<or> (is_loop_frame f \<and> b = Iterbag f \<and> getVersionFromVerFunc ma < SBag_get_version B), S')"
    using b0(1) b' PS
    by (cases "b = Iterbag f")
       (auto simp: previousAccessInParallel_def g check_parallel_iter_def getVersionFromVerFunc_def Let_def)
  then show ?thesis using S'(2-4) by blast
qed

lemma previousAccessInParallel_ok:
  assumes inv: "sp_inv S ext" and live: "0 < bag_ext ext (sp_bags S) (getFuncFromVerFunc ma)"
    and b: "sp_bags S b = Some B" and s: "sp_in S (getFuncFromVerFunc ma) (bag_tag b B)"
  shows "\<exists>S'. previousAccessInParallel ma f S =
      Some (is_PBag B \<or> (is_loop_frame f \<and> b = Iterbag f \<and> getVersionFromVerFunc ma < SBag_get_version B), S') \<and>
    sp_inv S' ext \<and> sp_same_sets S S'"
  using previousAccessInParallel_refines [OF assms] by blast

subsection \<open>Reference counts of the stored functions\<close>

text \<open>The reference that an access holds.\<close>

definition ma_ref :: "MemoryAccess_t \<Rightarrow> u64 option" where
  "ma_ref ma = opt_ptr (getFuncFromVerFunc ma)"

lemma sp_ds_update_inv:
  "sp_inv S ext \<Longrightarrow> ds_inv h (bag_ext ext' (sp_bags S)) \<Longrightarrow> sp_inv (S\<lparr>sp_ds := h\<rparr>) ext'"
  by (simp add: sp_inv_def)

lemma sp_inc_ref_ok:
  assumes inv: "sp_inv S ext" and a: "sp_ds S a = Some n"
  shows "\<exists>S'. sp_inc_ref a S = Some S' \<and> sp_inv S' (ext_inc (Some a) ext) \<and> sp_same_sets S S' \<and>
    dom (sp_ds S') = dom (sp_ds S)"
proof -
  obtain h where h: "ds_inc_ref_count a 1 (sp_ds S) = Some h"
    "ds_inv h (ext_inc (Some a) (bag_ext ext (sp_bags S)))" "ds_sub (sp_ds S) h" "dom h = dom (sp_ds S)"
    using ds_inc_ref_count_ok [OF sp_invD(1) [OF inv] a] by blast
  have i: "sp_inv (S\<lparr>sp_ds := h\<rparr>) (ext_inc (Some a) ext)"
    using h(2) by (intro sp_ds_update_inv [OF inv]) (simp only: bag_ext_inc)
  have "sp_same_sets S (S\<lparr>sp_ds := h\<rparr>)"
    by (rule sp_refines_same_sets [OF inv i]) (simp_all add: ds_sub_refines h(3))
  then show ?thesis using h i by (simp add: sp_inc_ref_def)
qed

lemma sp_dec_ref_ok:
  assumes inv: "sp_inv S ext" and a: "0 < ext a"
  shows "\<exists>S'. sp_dec_ref a S = Some S' \<and> sp_inv S' (ext_dec (Some a) ext) \<and> sp_same_sets S S'"
proof -
  have "0 < bag_ext ext (sp_bags S) a" using a by (simp add: bag_ext_def)
  then obtain h where h: "ds_dec_ref_count a 1 (sp_ds S) = Some h"
    "ds_inv h (ext_dec (Some a) (bag_ext ext (sp_bags S)))" "ds_sub (sp_ds S) h"
    using ds_dec_ref_count_ok [OF refl sp_invD(1) [OF inv]] by blast
  have i: "sp_inv (S\<lparr>sp_ds := h\<rparr>) (ext_dec (Some a) ext)"
    using h(2) bag_ext_dec [of ext a "sp_bags S"] a by (intro sp_ds_update_inv [OF inv]) simp
  have "sp_same_sets S (S\<lparr>sp_ds := h\<rparr>)"
    by (rule sp_refines_same_sets [OF inv i]) (simp_all add: ds_sub_refines h(3))
  then show ?thesis using h i by (simp add: sp_dec_ref_def)
qed

lemma sp_same_sets_trans:
  "sp_same_sets S S' \<Longrightarrow> sp_same_sets S' S'' \<Longrightarrow> sp_same_sets S S''"
  unfolding sp_same_sets_def by metis

lemma sp_same_sets_refl [simp]: "sp_same_sets S S"
  by (simp add: sp_same_sets_def)

text \<open>
  \<open>set\<close> moves the reference of the entry from its old function to the new one, and stores id and
  type; the version is stored exactly when the function changes.
\<close>

lemma MA_set_ok:
  assumes inv: "sp_inv S (ext_inc (ma_ref ma) ext)" and f: "sp_ds S func = Some n" "ptr48 func"
  shows "\<exists>ma' S'. MA_set func version acc_id type ma S = Some (ma', S') \<and>
    sp_inv S' (ext_inc (Some func) ext) \<and> sp_same_sets S S' \<and>
    getFuncFromVerFunc ma' = func \<and> ver_acc_id ma' = makeTypedID acc_id type \<and>
    getVersionFromVerFunc ma' = (if getFuncFromVerFunc ma = func then getVersionFromVerFunc ma else version)"
proof -
  have f0: "func \<noteq> 0" using ds_inv_node [OF sp_invD(1) [OF inv] f(1)] by simp
  let ?old = "getFuncFromVerFunc ma"
  show ?thesis
  proof (cases "?old = func")
    case True
    then show ?thesis
      using inv f0 by (simp add: MA_set_def ma_ref_def opt_ptr_def getFuncFromVerFunc_def getVersionFromVerFunc_def)
  next
    case False
    define ma' where "ma' = ma\<lparr>ver_func := makeVerFunc func version, ver_acc_id := makeTypedID acc_id type\<rparr>"
    have ma': "getFuncFromVerFunc ma' = func" "getVersionFromVerFunc ma' = version"
      "ver_acc_id ma' = makeTypedID acc_id type"
      using ver_func_roundtrip [OF f(2)]
      by (simp_all add: ma'_def getFuncFromVerFunc_def getVersionFromVerFunc_def)
    obtain S1 where S1: "sp_inc_ref func S = Some S1" "sp_inv S1 (ext_inc (Some func) (ext_inc (ma_ref ma) ext))"
      "sp_same_sets S S1" using sp_inc_ref_ok [OF inv f(1)] by blast
    show ?thesis
    proof (cases "?old = 0")
      case True
      then have "sp_inv S1 (ext_inc (Some func) ext)" using S1(2) by (simp add: ma_ref_def opt_ptr_def)
      then show ?thesis
        using S1 ma' False True f0 by (simp add: MA_set_def Let_def ma'_def)
    next
      case nz: False
      then have r: "ma_ref ma = Some ?old" by (simp add: ma_ref_def opt_ptr_def)
      have "0 < ext_inc (Some func) (ext_inc (Some ?old) ext) ?old" by simp
      from sp_dec_ref_ok [OF S1(2) [unfolded r] this] obtain S2 where S2: "sp_dec_ref ?old S1 = Some S2"
        "sp_inv S2 (ext_dec (Some ?old) (ext_inc (Some func) (ext_inc (Some ?old) ext)))" "sp_same_sets S1 S2"
        by blast
      have "ext_dec (Some ?old) (ext_inc (Some func) (ext_inc (Some ?old) ext)) = ext_inc (Some func) ext"
        by (auto simp: fun_eq_iff)
      then have "sp_inv S2 (ext_inc (Some func) ext)" using S2(2) by simp
      then show ?thesis
        using S1 S2 ma' False nz f0 sp_same_sets_trans [OF S1(3) S2(3)]
        by (simp add: MA_set_def Let_def ma'_def)
    qed
  qed
qed

end
