(* ===== verification/LockSets.thy ===== *)
theory LockSets
  imports Prelude
begin

text \<open>
  Lock sets, \<open>class LockSet_t\<close> of \<open>cilksan/locksets.h\<close>: the growable sorted array of
  lock ids (\<open>insert\<close>, \<open>remove\<close>), the one-pass comparison \<open>intersect\<close> of two lock
  sets and the comparison operators used to sort lockers.
\<close>

subsection \<open>The array of lock ids\<close>

type_synonym LockID_t = u64

text \<open>
  \<open>ls_IDs\<close> holds the allocated cells (its length is \<open>capacity\<close>); the set is the prefix of
  length \<open>end\<close>.  \<open>new LockID_t[n]\<close> leaves the cells uninitialised, so the operations that
  allocate take the content \<open>g\<close> of fresh cells as an argument.  Every constructor allocates
  the array, and only the destructor sets it to null.
\<close>

record LockSet_t =
  ls_IDs :: "LockID_t list"
  ls_end :: nat
  ls_capacity :: nat

definition LockSet_new :: "(nat \<Rightarrow> LockID_t) \<Rightarrow> LockSet_t" where
  "LockSet_new g = \<lparr>ls_IDs = map g [0..<1], ls_end = 0, ls_capacity = 1\<rparr>"

definition LockSet_resize :: "(nat \<Rightarrow> LockID_t) \<Rightarrow> nat \<Rightarrow> LockSet_t \<Rightarrow> LockSet_t" where
  "LockSet_resize g new_capacity ls =
     (let oldIDs = ls_IDs ls;
          copy_end = (if ls_capacity ls > new_capacity then new_capacity else ls_capacity ls)
      in ls\<lparr>ls_IDs := take copy_end oldIDs @ map g [copy_end..<new_capacity],
            ls_capacity := new_capacity\<rparr>)"

definition LockSet_copy :: "(nat \<Rightarrow> LockID_t) \<Rightarrow> LockSet_t \<Rightarrow> LockSet_t" where
  "LockSet_copy g cp =
     \<lparr>ls_IDs = take (ls_end cp) (ls_IDs cp) @ map g [ls_end cp..<ls_capacity cp],
      ls_end = ls_end cp, ls_capacity = ls_capacity cp\<rparr>"

definition LockSet_isEmpty :: "LockSet_t \<Rightarrow> bool" where
  "LockSet_isEmpty ls \<longleftrightarrow> 0 = ls_end ls"

definition LockSet_size :: "LockSet_t \<Rightarrow> nat" where
  "LockSet_size ls = ls_end ls"

text \<open>The scan \<open>while (i < end && IDs[i] < lock_id) ++i\<close> of \<open>insert\<close> and \<open>remove\<close>.\<close>

function LockSet_scan :: "LockID_t list \<Rightarrow> nat \<Rightarrow> LockID_t \<Rightarrow> nat \<Rightarrow> nat" where
  "LockSet_scan IDs e lock_id i =
     (if i < e \<and> IDs ! i < lock_id then LockSet_scan IDs e lock_id (Suc i) else i)"
  by pat_completeness auto
termination by (relation "measure (\<lambda>(IDs, e, l, i). e - i)") auto

text \<open>\<open>for (j = end; j > i; --j) IDs[j] = IDs[j-1]\<close>\<close>

fun shift_up :: "nat \<Rightarrow> nat \<Rightarrow> 'a list \<Rightarrow> 'a list" where
  "shift_up i 0 IDs = IDs"
| "shift_up i (Suc j) IDs =
     (if Suc j > i then shift_up i j (IDs[Suc j := IDs ! j]) else IDs)"

text \<open>\<open>for (j = i; j < end - 1; ++j) IDs[j] = IDs[j+1]\<close>\<close>

function shift_down :: "nat \<Rightarrow> nat \<Rightarrow> 'a list \<Rightarrow> 'a list" where
  "shift_down e j IDs =
     (if j < e - 1 then shift_down e (Suc j) (IDs[j := IDs ! Suc j]) else IDs)"
  by pat_completeness auto
termination by (relation "measure (\<lambda>(e, j, IDs). e - j)") auto

declare LockSet_scan.simps [simp del] shift_down.simps [simp del]

definition LockSet_insert :: "(nat \<Rightarrow> LockID_t) \<Rightarrow> LockID_t \<Rightarrow> LockSet_t \<Rightarrow> LockSet_t" where
  "LockSet_insert g new_lock_id ls =
     (let ls = (if ls_end ls = ls_capacity ls then LockSet_resize g (2 * ls_capacity ls) ls else ls);
          i = LockSet_scan (ls_IDs ls) (ls_end ls) new_lock_id 0
      in if i < ls_end ls \<and> ls_IDs ls ! i = new_lock_id then ls
         else ls\<lparr>ls_IDs := (shift_up i (ls_end ls) (ls_IDs ls))[i := new_lock_id],
                ls_end := Suc (ls_end ls)\<rparr>)"

text \<open>
  \<open>remove\<close> returns whether it printed its warning and the updated set.  It compares
  \<open>IDs[i]\<close> without testing \<open>i < end\<close>, which reads outside the array when the scan ends at
  the capacity, and on an empty set its loop bound \<open>end - 1\<close> wraps around; both are
  \<^term>\<open>None\<close>.  When the id is not in the set the code only warns and still removes a cell.
\<close>

definition LockSet_remove :: "LockID_t \<Rightarrow> LockSet_t \<Rightarrow> (bool \<times> LockSet_t) option" where
  "LockSet_remove lock_id ls =
     (let i = LockSet_scan (ls_IDs ls) (ls_end ls) lock_id 0
      in case arr_get (ls_IDs ls) i of
           None \<Rightarrow> None
         | Some v \<Rightarrow>
             if ls_end ls = 0 then None
             else Some (v \<noteq> lock_id,
                        ls\<lparr>ls_IDs := shift_down (ls_end ls) i (ls_IDs ls),
                           ls_end := ls_end ls - 1\<rparr>))"

subsection \<open>The invariant and the abstract set\<close>

definition ls_list :: "LockSet_t \<Rightarrow> LockID_t list" where
  "ls_list ls = take (ls_end ls) (ls_IDs ls)"

definition ls_set :: "LockSet_t \<Rightarrow> LockID_t set" where
  "ls_set ls = set (ls_list ls)"

definition LockSet_wf :: "LockSet_t \<Rightarrow> bool" where
  "LockSet_wf ls \<longleftrightarrow> length (ls_IDs ls) = ls_capacity ls \<and> ls_end ls \<le> ls_capacity ls
      \<and> 1 \<le> ls_capacity ls \<and> sorted_wrt (<) (ls_list ls)"

lemma LockSet_new_wf: "LockSet_wf (LockSet_new g)" "ls_set (LockSet_new g) = {}"
  by (simp_all add: LockSet_new_def LockSet_wf_def ls_list_def ls_set_def)

lemma ls_list_copy: "LockSet_wf cp \<Longrightarrow> ls_list (LockSet_copy g cp) = ls_list cp"
  by (auto simp: LockSet_copy_def LockSet_wf_def ls_list_def)

lemma LockSet_copy_wf: "LockSet_wf cp \<Longrightarrow> LockSet_wf (LockSet_copy g cp)"
  using ls_list_copy [of cp g] by (auto simp: LockSet_copy_def LockSet_wf_def)

lemma length_ls_list: "LockSet_wf ls \<Longrightarrow> length (ls_list ls) = ls_end ls"
  by (simp add: LockSet_wf_def ls_list_def)

lemma LockSet_isEmpty_iff: "LockSet_wf ls \<Longrightarrow> LockSet_isEmpty ls \<longleftrightarrow> ls_set ls = {}"
  using length_ls_list [of ls] by (auto simp: LockSet_isEmpty_def ls_set_def)

lemma scan_bounds:
  "i \<le> e \<Longrightarrow> i \<le> LockSet_scan IDs e x i \<and> LockSet_scan IDs e x i \<le> e"
proof (induction IDs e x i rule: LockSet_scan.induct)
  case (1 IDs e x i)
  then show ?case by (subst (1 2) LockSet_scan.simps) auto
qed

lemma scan_below:
  "i \<le> k \<Longrightarrow> k < LockSet_scan IDs e x i \<Longrightarrow> IDs ! k < x"
proof (induction IDs e x i rule: LockSet_scan.induct)
  case (1 IDs e x i)
  then show ?case
    by (cases "k = i") (auto simp: LockSet_scan.simps [of IDs e x i] split: if_splits)
qed

lemma scan_stop:
  "LockSet_scan IDs e x i < e \<Longrightarrow> x \<le> IDs ! LockSet_scan IDs e x i"
proof (induction IDs e x i rule: LockSet_scan.induct)
  case (1 IDs e x i)
  then show ?case
    by (auto simp: LockSet_scan.simps [of IDs e x i] split: if_splits)
qed

lemma length_shift_up [simp]: "length (shift_up i j xs) = length xs"
  by (induction i j xs rule: shift_up.induct) auto

lemma length_shift_down [simp]: "length (shift_down e j xs) = length xs"
proof (induction e j xs rule: shift_down.induct)
  case (1 e j xs)
  then show ?case by (subst shift_down.simps) simp
qed

lemma nth_shift_up:
  "j < length xs \<Longrightarrow> k < length xs \<Longrightarrow>
   shift_up i j xs ! k = (if i < k \<and> k \<le> j then xs ! (k - 1) else xs ! k)"
proof (induction i j xs rule: shift_up.induct)
  case (1 i IDs)
  then show ?case by auto
next
  case (2 i j IDs)
  then show ?case by (auto simp: nth_list_update le_Suc_eq)
qed

lemma nth_shift_down:
  "e \<le> length xs \<Longrightarrow> k < length xs \<Longrightarrow>
   shift_down e j xs ! k = (if j \<le> k \<and> k < e - 1 then xs ! Suc k else xs ! k)"
proof (induction e j xs rule: shift_down.induct)
  case (1 e j xs)
  then show ?case
    by (subst shift_down.simps) (cases "k = j"; auto simp: nth_list_update not_le less_Suc_eq_le)
qed

text \<open>The list after the insertion at position \<open>i\<close>, and after the removal of position \<open>i\<close>.\<close>

lemma take_shift_up_insert:
  assumes "i \<le> e" "e < length xs"
  shows "take (Suc e) ((shift_up i e xs)[i := x]) = take i xs @ x # drop i (take e xs)"
proof (rule nth_equalityI)
  show "length (take (Suc e) ((shift_up i e xs)[i := x])) = length (take i xs @ x # drop i (take e xs))"
    using assms by auto
next
  fix k assume "k < length (take (Suc e) ((shift_up i e xs)[i := x]))"
  then have k: "k \<le> e" "k < length xs" using assms by auto
  show "take (Suc e) ((shift_up i e xs)[i := x]) ! k = (take i xs @ x # drop i (take e xs)) ! k"
    using assms k by (auto simp: nth_list_update nth_shift_up nth_append nth_Cons' not_less)
qed

lemma take_shift_down_remove:
  assumes "i < e" "e \<le> length xs"
  shows "take (e - 1) (shift_down e i xs) = take i xs @ drop (Suc i) (take e xs)"
proof (rule nth_equalityI)
  show "length (take (e - 1) (shift_down e i xs)) = length (take i xs @ drop (Suc i) (take e xs))"
    using assms by auto
next
  fix k assume "k < length (take (e - 1) (shift_down e i xs))"
  then have k: "k < e - 1" "k < length xs" by auto
  show "take (e - 1) (shift_down e i xs) ! k = (take i xs @ drop (Suc i) (take e xs)) ! k"
    using assms k by (auto simp: nth_shift_down nth_append)
qed

subsection \<open>insert and remove on the abstract set\<close>

lemma LockSet_resize_wf:
  assumes "LockSet_wf ls"
  shows "LockSet_wf (LockSet_resize g (2 * ls_capacity ls) ls)"
    and "ls_list (LockSet_resize g (2 * ls_capacity ls) ls) = ls_list ls"
    and "ls_end (LockSet_resize g (2 * ls_capacity ls) ls) = ls_end ls"
  using assms by (auto simp: LockSet_resize_def LockSet_wf_def ls_list_def Let_def)

lemma sorted_insert_at:
  fixes x :: "'a::linorder"
  assumes s: "sorted_wrt (<) xs" and i: "i \<le> length xs"
    and lo: "\<And>k. k < i \<Longrightarrow> xs ! k < x" and hi: "i < length xs \<Longrightarrow> x < xs ! i"
  shows "sorted_wrt (<) (take i xs @ x # drop i xs)"
proof -
  have st: "sorted_wrt (<) (take i xs)" and sd: "sorted_wrt (<) (drop i xs)"
    and cross: "\<And>a b. a \<in> set (take i xs) \<Longrightarrow> b \<in> set (drop i xs) \<Longrightarrow> a < b"
    using s append_take_drop_id [of i xs] sorted_wrt_append [of "(<)" "take i xs" "drop i xs"]
    by auto
  have low: "\<And>a. a \<in> set (take i xs) \<Longrightarrow> a < x"
    using lo i by (auto simp: in_set_conv_nth)
  have high: "x < b" if b: "b \<in> set (drop i xs)" for b
  proof -
    from b have ii: "i < length xs" by (cases "i < length xs") auto
    then have dr: "drop i xs = xs ! i # drop (Suc i) xs" by (simp add: Cons_nth_drop_Suc)
    with sd b have "xs ! i \<le> b" by auto
    with hi [OF ii] show ?thesis by simp
  qed
  show ?thesis
    using st sd cross low high by (auto simp: sorted_wrt_append)
qed

text \<open>
  What \<open>insert\<close> does to the list: unchanged when the id is there, else the id goes in at the
  place the scan found.
\<close>

lemma LockSet_insert_list:
  assumes wf: "LockSet_wf ls"
  shows "LockSet_wf (LockSet_insert g x ls)
    \<and> ls_set (LockSet_insert g x ls) = insert x (ls_set ls)"
proof -
  define l where "l = (if ls_end ls = ls_capacity ls then LockSet_resize g (2 * ls_capacity ls) ls else ls)"
  have wl: "LockSet_wf l" and ll: "ls_list l = ls_list ls"
    using wf by (auto simp: l_def LockSet_resize_wf)
  have room: "ls_end l < ls_capacity l"
    using wf by (auto simp: l_def LockSet_wf_def LockSet_resize_def Let_def)
  define i where "i = LockSet_scan (ls_IDs l) (ls_end l) x 0"
  have ile: "i \<le> ls_end l" unfolding i_def using scan_bounds [of 0 "ls_end l"] by simp
  have len: "length (ls_IDs l) = ls_capacity l" using wl by (simp add: LockSet_wf_def)
  have low: "ls_list l ! k < x" if "k < i" for k
  proof -
    have "ls_IDs l ! k < x" using that unfolding i_def by (intro scan_below [of 0]) auto
    then show ?thesis using that ile by (simp add: ls_list_def)
  qed
  have stop: "x \<le> ls_list l ! i" if "i < ls_end l"
    using that scan_stop unfolding i_def ls_list_def by simp
  have n: "length (ls_list l) = ls_end l" using wl by (rule length_ls_list)
  show ?thesis
  proof (cases "i < ls_end l \<and> ls_IDs l ! i = x")
    case True
    then have "LockSet_insert g x ls = l"
      by (simp add: LockSet_insert_def Let_def l_def [symmetric] i_def [symmetric])
    moreover have "x \<in> ls_set l"
      using True n nth_mem [of i "ls_list l"] by (simp add: ls_set_def ls_list_def)
    ultimately show ?thesis using wl ll by (auto simp: ls_set_def)
  next
    case False
    let ?r = "l\<lparr>ls_IDs := (shift_up i (ls_end l) (ls_IDs l))[i := x], ls_end := Suc (ls_end l)\<rparr>"
    have r: "LockSet_insert g x ls = ?r"
      unfolding LockSet_insert_def Let_def l_def [symmetric] i_def [symmetric]
      using False by (rule if_not_P)
    have lr: "ls_list ?r = take i (ls_list l) @ x # drop i (ls_list l)"
      using take_shift_up_insert [of i "ls_end l" "ls_IDs l" x] ile room len
      by (simp add: ls_list_def)
    have hi: "x < ls_list l ! i" if "i < length (ls_list l)"
      using that stop n False by (auto simp: ls_list_def order_less_le)
    have "sorted_wrt (<) (ls_list ?r)"
      unfolding lr using wl ile n low hi by (intro sorted_insert_at) (auto simp: LockSet_wf_def)
    moreover have "set (ls_list ?r) = insert x (set (ls_list l))"
      unfolding lr using append_take_drop_id [of i "ls_list l"]
      by (metis Un_insert_right set_append list.simps(15))
    ultimately show ?thesis
      using room len ll wl unfolding r by (auto simp: LockSet_wf_def ls_set_def)
  qed
qed

lemmas LockSet_insert_wf = LockSet_insert_list [THEN conjunct1]
lemmas LockSet_insert_set = LockSet_insert_list [THEN conjunct2]

lemma sorted_remove_nth:
  assumes "sorted_wrt R xs" "i < length xs"
  shows "sorted_wrt R (take i xs @ drop (Suc i) xs)"
proof -
  have "sorted_wrt R (take i xs @ xs ! i # drop (Suc i) xs)"
    using assms id_take_nth_drop [of i xs] by simp
  then show ?thesis by (simp add: sorted_wrt_append)
qed

text \<open>Removing an id of the set: no warning, and exactly that id goes.\<close>

lemma LockSet_remove_list:
  assumes wf: "LockSet_wf ls" and i: "i = LockSet_scan (ls_IDs ls) (ls_end ls) x 0" "i < ls_end ls"
  shows "LockSet_remove x ls = Some (ls_list ls ! i \<noteq> x,
      ls\<lparr>ls_IDs := shift_down (ls_end ls) i (ls_IDs ls), ls_end := ls_end ls - 1\<rparr>)"
    and "ls_list (ls\<lparr>ls_IDs := shift_down (ls_end ls) i (ls_IDs ls), ls_end := ls_end ls - 1\<rparr>)
      = take i (ls_list ls) @ drop (Suc i) (ls_list ls)"
    and "LockSet_wf (ls\<lparr>ls_IDs := shift_down (ls_end ls) i (ls_IDs ls), ls_end := ls_end ls - 1\<rparr>)"
proof -
  let ?r = "ls\<lparr>ls_IDs := shift_down (ls_end ls) i (ls_IDs ls), ls_end := ls_end ls - 1\<rparr>"
  have len: "length (ls_IDs ls) = ls_capacity ls" "ls_end ls \<le> ls_capacity ls"
    "sorted_wrt (<) (ls_list ls)" using wf by (auto simp: LockSet_wf_def)
  show "LockSet_remove x ls = Some (ls_list ls ! i \<noteq> x, ?r)"
    using len i by (auto simp: LockSet_remove_def Let_def ls_list_def)
  show lr: "ls_list ?r = take i (ls_list ls) @ drop (Suc i) (ls_list ls)"
    using take_shift_down_remove [of i "ls_end ls" "ls_IDs ls"] i len by (simp add: ls_list_def)
  have "sorted_wrt (<) (take i (ls_list ls) @ drop (Suc i) (ls_list ls))"
    using len(3) i length_ls_list [OF wf] by (intro sorted_remove_nth) auto
  then show "LockSet_wf ?r"
    using wf len i lr by (auto simp: LockSet_wf_def)
qed

lemma scan_finds:
  assumes wf: "LockSet_wf ls" and x: "x \<in> ls_set ls"
  shows "LockSet_scan (ls_IDs ls) (ls_end ls) x 0 < ls_end ls"
    and "ls_list ls ! LockSet_scan (ls_IDs ls) (ls_end ls) x 0 = x"
proof -
  let ?i = "LockSet_scan (ls_IDs ls) (ls_end ls) x 0"
  obtain p where p: "p < ls_end ls" "ls_list ls ! p = x"
    using x length_ls_list [OF wf] by (auto simp: ls_set_def in_set_conv_nth)
  have ip: "?i \<le> p"
  proof (rule ccontr)
    assume "\<not> ?i \<le> p"
    then have "ls_IDs ls ! p < x"
      by (intro scan_below [of 0 p "ls_IDs ls" "ls_end ls" x]) auto
    with p show False by (simp add: ls_list_def)
  qed
  then show lt: "?i < ls_end ls" using p by simp
  have xi: "x \<le> ls_list ls ! ?i" using scan_stop [OF lt] lt by (simp add: ls_list_def)
  have "?i = p"
  proof (rule ccontr)
    assume "?i \<noteq> p"
    with ip have "?i < p" by simp
    then have "ls_list ls ! ?i < ls_list ls ! p"
      using wf p length_ls_list [OF wf] by (intro sorted_wrt_nth_less [of "(<)" "ls_list ls"]) (auto simp: LockSet_wf_def)
    with xi p show False by simp
  qed
  with p show "ls_list ls ! ?i = x" by simp
qed

lemma distinct_remove_nth:
  assumes "distinct xs" "i < length xs"
  shows "set (take i xs @ drop (Suc i) xs) = set xs - {xs ! i}"
proof -
  have "xs = take i xs @ xs ! i # drop (Suc i) xs" using assms(2) by (rule id_take_nth_drop)
  then have "distinct (take i xs @ xs ! i # drop (Suc i) xs)"
    and "set xs = insert (xs ! i) (set (take i xs) \<union> set (drop (Suc i) xs))"
    using assms(1) by (metis, metis Un_insert_right set_append list.simps(15))
  then show ?thesis by auto
qed

lemma LockSet_remove_member:
  assumes wf: "LockSet_wf ls" and x: "x \<in> ls_set ls"
  shows "\<exists>r. LockSet_remove x ls = Some (False, r) \<and> LockSet_wf r \<and> ls_set r = ls_set ls - {x}"
proof -
  let ?i = "LockSet_scan (ls_IDs ls) (ls_end ls) x 0"
  note f = scan_finds [OF wf x]
  note r = LockSet_remove_list [OF wf refl f(1)]
  have "distinct (ls_list ls)" using wf by (auto simp: LockSet_wf_def sorted_wrt_less_distinct)
  then have "set (take ?i (ls_list ls) @ drop (Suc ?i) (ls_list ls)) = ls_set ls - {x}"
    using distinct_remove_nth [of "ls_list ls" ?i] f length_ls_list [OF wf] by (simp add: ls_set_def)
  then show ?thesis using r f by (auto simp: ls_set_def)
qed

text \<open>
  Removing an id that is not in the set, while some greater id is: the code warns and removes
  the least id above it.
\<close>

lemma LockSet_remove_absent:
  assumes wf: "LockSet_wf ls" and x: "x \<notin> ls_set ls" and y: "y \<in> ls_set ls" "x < y"
  shows "\<exists>r z. LockSet_remove x ls = Some (True, r) \<and> LockSet_wf r \<and> z \<in> ls_set ls \<and> x < z
    \<and> (\<forall>w \<in> ls_set ls. x < w \<longrightarrow> z \<le> w) \<and> ls_set r = ls_set ls - {z}"
proof -
  let ?i = "LockSet_scan (ls_IDs ls) (ls_end ls) x 0"
  have below: "w < x" if "w = ls_list ls ! k" "k < ?i" "k < ls_end ls" for w k
    using that scan_below [of 0 k "ls_IDs ls" "ls_end ls" x] by (simp add: ls_list_def)
  have n: "length (ls_list ls) = ls_end ls" using wf by (rule length_ls_list)
  have lt: "?i < ls_end ls"
  proof (rule ccontr)
    assume "\<not> ?i < ls_end ls"
    then have "w < x" if "w \<in> ls_set ls" for w
      using that below n by (auto simp: ls_set_def in_set_conv_nth)
    with y show False by fastforce
  qed
  let ?z = "ls_list ls ! ?i"
  have zin: "?z \<in> ls_set ls" using lt n by (simp add: ls_set_def)
  have xz: "x < ?z"
    using scan_stop [OF lt] lt zin x by (auto simp: ls_list_def order_less_le)
  have least: "?z \<le> w" if w: "w \<in> ls_set ls" "x < w" for w
  proof -
    obtain k where k: "k < ls_end ls" "w = ls_list ls ! k"
      using w n by (auto simp: ls_set_def in_set_conv_nth)
    with w below [of w k] have "?i \<le> k" by (metis leI order_less_asym)
    then show ?thesis
      using wf k n sorted_wrt_nth_less [of "(<)" "ls_list ls" ?i k]
      by (cases "?i = k") (auto simp: LockSet_wf_def intro: less_imp_le)
  qed
  note r = LockSet_remove_list [OF wf refl lt]
  have "distinct (ls_list ls)" using wf by (auto simp: LockSet_wf_def sorted_wrt_less_distinct)
  then have "set (take ?i (ls_list ls) @ drop (Suc ?i) (ls_list ls)) = ls_set ls - {?z}"
    using distinct_remove_nth [of "ls_list ls" ?i] lt n by (simp add: ls_set_def)
  then show ?thesis
    using r xz zin least by (intro exI conjI) (auto simp: ls_set_def)
qed

subsection \<open>intersect\<close>

type_synonym IntersectionResult_t = u8

definition EMPTY :: IntersectionResult_t where "EMPTY = 0"
definition NONEMPTY :: IntersectionResult_t where "NONEMPTY = 1"
definition L_SUBSET_OF_R :: IntersectionResult_t where "L_SUBSET_OF_R = 2"
definition L_SUPERSET_OF_R :: IntersectionResult_t where "L_SUPERSET_OF_R = 4"
definition L_EQUAL_R :: IntersectionResult_t where "L_EQUAL_R = L_SUBSET_OF_R OR L_SUPERSET_OF_R"

lemmas result_defs = EMPTY_def NONEMPTY_def L_SUBSET_OF_R_def L_SUPERSET_OF_R_def L_EQUAL_R_def

text \<open>
  The two inner \<open>while\<close> loops are the same loop with the roles of the lock sets swapped and
  another flag cleared: advance in \<open>xs\<close> past the locks below \<open>bnd\<close>, clearing \<open>flag\<close>
  for each, and return early (\<^term>\<open>Inl\<close>) when only \<^term>\<open>NONEMPTY\<close> is left.
\<close>

function intersect_advance ::
  "IntersectionResult_t \<Rightarrow> LockID_t list \<Rightarrow> LockID_t \<Rightarrow> nat \<Rightarrow> IntersectionResult_t
   \<Rightarrow> IntersectionResult_t + nat \<times> IntersectionResult_t" where
  "intersect_advance flag xs bnd i result =
     (if i < length xs \<and> xs ! i < bnd
      then let result = result AND NOT flag
           in if NONEMPTY = result then Inl result
              else intersect_advance flag xs bnd (Suc i) result
      else Inr (i, result))"
  by pat_completeness auto
termination by (relation "measure (\<lambda>(f, xs, b, i, r). length xs - i)") auto

declare intersect_advance.simps [simp del]

lemma intersect_advance_Inr:
  "intersect_advance flag xs bnd i r = Inr (j, r') \<Longrightarrow>
   i \<le> j \<and> (i < length xs \<and> xs ! i < bnd \<longrightarrow> i < j) \<and> (j < length xs \<longrightarrow> \<not> xs ! j < bnd)
   \<and> (i \<le> length xs \<longrightarrow> j \<le> length xs)"
proof (induction flag xs bnd i r rule: intersect_advance.induct)
  case (1 flag xs bnd i r)
  then show ?case
    by (fastforce simp: intersect_advance.simps [of flag xs bnd i r] Let_def split: if_splits)
qed

text \<open>One round of the \<open>do { \<dots> } while (Li < Lsize && Ri < Rsize)\<close> loop.\<close>

definition intersect_round ::
  "LockID_t list \<Rightarrow> LockID_t list \<Rightarrow> nat \<Rightarrow> nat \<Rightarrow> IntersectionResult_t
   \<Rightarrow> IntersectionResult_t + nat \<times> nat \<times> IntersectionResult_t" where
  "intersect_round L R Li Ri result =
     (case (if Ri < length R then intersect_advance L_SUBSET_OF_R L (R ! Ri) Li result
            else Inr (Li, result)) of
        Inl r \<Rightarrow> Inl r
      | Inr (Li, result) \<Rightarrow>
          (case (if Li < length L then intersect_advance L_SUPERSET_OF_R R (L ! Li) Ri result
                 else Inr (Ri, result)) of
             Inl r \<Rightarrow> Inl r
           | Inr (Ri, result) \<Rightarrow>
               if Li < length L \<and> Ri < length R \<and> L ! Li = R ! Ri
               then let result = result OR NONEMPTY
                    in if NONEMPTY = result then Inl result
                       else Inr (Suc Li, Suc Ri, result)
               else Inr (Li, Ri, result)))"

lemma intersect_round_progress:
  assumes r: "intersect_round L R Li Ri result = Inr (Li', Ri', result')"
    and in_range: "Li' < length L" "Ri' < length R"
  shows "(length L - Li') + (length R - Ri') < (length L - Li) + (length R - Ri)"
proof -
  from r obtain Li1 r1 where
    L: "(if Ri < length R then intersect_advance L_SUBSET_OF_R L (R ! Ri) Li result
         else Inr (Li, result)) = Inr (Li1, r1)"
    by (auto simp: intersect_round_def split: sum.splits prod.splits)
  from r L obtain Ri1 r2 where
    R: "(if Li1 < length L then intersect_advance L_SUPERSET_OF_R R (L ! Li1) Ri r1
         else Inr (Ri, r1)) = Inr (Ri1, r2)"
    by (auto simp: intersect_round_def split: sum.splits prod.splits)
  have m: "Li \<le> Li1" "Ri \<le> Ri1"
    using L R by (auto dest: intersect_advance_Inr split: if_splits)
  have fin: "(Li', Ri') = (Suc Li1, Suc Ri1) \<or> (Li', Ri') = (Li1, Ri1) \<and> L ! Li1 \<noteq> R ! Ri1"
    using r L R in_range by (auto simp: intersect_round_def Let_def split: if_splits)
  then have rng: "Li1 < length L" "Ri1 < length R" using in_range by auto
  then have l: "intersect_advance L_SUBSET_OF_R L (R ! Ri) Li result = Inr (Li1, r1)"
    and r': "intersect_advance L_SUPERSET_OF_R R (L ! Li1) Ri r1 = Inr (Ri1, r2)"
    using L R m by auto
  have stop: "\<not> L ! Li1 < R ! Ri" "\<not> R ! Ri1 < L ! Li1" "R ! Ri < L ! Li1 \<longrightarrow> Ri < Ri1"
    using intersect_advance_Inr [OF l] intersect_advance_Inr [OF r'] rng m by auto
  from fin show ?thesis
  proof
    assume "(Li', Ri') = (Suc Li1, Suc Ri1)"
    then show ?thesis using m rng by auto
  next
    assume e: "(Li', Ri') = (Li1, Ri1) \<and> L ! Li1 \<noteq> R ! Ri1"
    then have "Ri < Ri1" using stop m by (metis le_neq_implies_less linorder_neqE)
    then show ?thesis using e m rng by auto
  qed
qed

function intersect_loop ::
  "LockID_t list \<Rightarrow> LockID_t list \<Rightarrow> nat \<Rightarrow> nat \<Rightarrow> IntersectionResult_t \<Rightarrow> IntersectionResult_t" where
  "intersect_loop L R Li Ri result =
     (case intersect_round L R Li Ri result of
        Inl r \<Rightarrow> r
      | Inr (Li', Ri', result') \<Rightarrow>
          if Li' < length L \<and> Ri' < length R then intersect_loop L R Li' Ri' result' else result')"
  by pat_completeness auto
termination
  by (relation "measure (\<lambda>(L, R, Li, Ri, r). (length L - Li) + (length R - Ri))")
     (auto dest: intersect_round_progress)

declare intersect_loop.simps [simp del]

definition LockSet_intersect :: "LockSet_t \<Rightarrow> LockSet_t \<Rightarrow> IntersectionResult_t" where
  "LockSet_intersect LHS RHS =
     (if LockSet_isEmpty LHS \<or> LockSet_isEmpty RHS then EMPTY
      else intersect_loop (ls_list LHS) (ls_list RHS) 0 0 L_EQUAL_R)"

text \<open>
  A reference definition: a merge of the two sorted lists, one lock per step.
\<close>

fun intersect_merge ::
  "LockID_t list \<Rightarrow> LockID_t list \<Rightarrow> IntersectionResult_t \<Rightarrow> IntersectionResult_t" where
  "intersect_merge [] ys r = r"
| "intersect_merge (x # xs) [] r = r"
| "intersect_merge (x # xs) (y # ys) r =
     (if x < y then
        (let r' = r AND NOT L_SUBSET_OF_R
         in if NONEMPTY = r' then r' else intersect_merge xs (y # ys) r')
      else if y < x then
        (let r' = r AND NOT L_SUPERSET_OF_R
         in if NONEMPTY = r' then r' else intersect_merge (x # xs) ys r')
      else
        (let r' = r OR NONEMPTY
         in if NONEMPTY = r' then r' else intersect_merge xs ys r'))"

lemma intersect_merge_Nil2 [simp]: "intersect_merge xs [] r = r"
  by (cases xs) auto

lemma advance_L_merge:
  "intersect_merge (drop i L) (y # ys) r =
   (case intersect_advance L_SUBSET_OF_R L y i r of
      Inl r' \<Rightarrow> r' | Inr (j, r') \<Rightarrow> intersect_merge (drop j L) (y # ys) r')"
proof (induction "length L - i" arbitrary: i r)
  case 0
  then show ?case by (simp add: intersect_advance.simps)
next
  case (Suc n)
  then have i: "i < length L" by simp
  then have d: "drop i L = L ! i # drop (Suc i) L" by (rule Cons_nth_drop_Suc [symmetric])
  have n: "n = length L - Suc i" using Suc(2) by simp
  show ?case
    using i d Suc(1) [OF n]
    by (auto simp: intersect_advance.simps [of L_SUBSET_OF_R L y i r] Let_def)
qed

lemma advance_R_merge:
  "intersect_merge (x # xs) (drop i R) r =
   (case intersect_advance L_SUPERSET_OF_R R x i r of
      Inl r' \<Rightarrow> r' | Inr (j, r') \<Rightarrow> intersect_merge (x # xs) (drop j R) r')"
proof (induction "length R - i" arbitrary: i r)
  case 0
  then show ?case by (simp add: intersect_advance.simps)
next
  case (Suc n)
  then have i: "i < length R" by simp
  then have d: "drop i R = R ! i # drop (Suc i) R" by (rule Cons_nth_drop_Suc [symmetric])
  have n: "n = length R - Suc i" using Suc(2) by simp
  show ?case
    using i d Suc(1) [OF n]
    by (cases "x < R ! i")
       (auto simp: intersect_advance.simps [of L_SUPERSET_OF_R R x i r] Let_def)
qed

lemma intersect_round_merge:
  assumes "Li < length L" "Ri < length R"
  shows "intersect_merge (drop Li L) (drop Ri R) r =
    (case intersect_round L R Li Ri r of
       Inl r' \<Rightarrow> r' | Inr (Li', Ri', r') \<Rightarrow> intersect_merge (drop Li' L) (drop Ri' R) r')"
proof -
  have dR: "drop Ri R = R ! Ri # drop (Suc Ri) R"
    using assms by (simp add: Cons_nth_drop_Suc)
  show ?thesis
  proof (cases "intersect_advance L_SUBSET_OF_R L (R ! Ri) Li r")
    case (Inl a)
    then show ?thesis
      using assms dR advance_L_merge [of Li L "R ! Ri" "drop (Suc Ri) R" r]
      by (simp add: intersect_round_def)
  next
    case (Inr b)
    then obtain Li1 r1 where adv: "intersect_advance L_SUBSET_OF_R L (R ! Ri) Li r = Inr (Li1, r1)"
      by (cases b) auto
    have 1: "intersect_merge (drop Li L) (drop Ri R) r
        = intersect_merge (drop Li1 L) (drop Ri R) r1"
      using dR adv advance_L_merge [of Li L "R ! Ri" "drop (Suc Ri) R" r] by simp
    show ?thesis
    proof (cases "Li1 < length L")
      case False
      then show ?thesis using assms 1 adv by (simp add: intersect_round_def)
    next
      case True
      then have dL: "drop Li1 L = L ! Li1 # drop (Suc Li1) L" by (simp add: Cons_nth_drop_Suc)
      note 2 = advance_R_merge [of "L ! Li1" "drop (Suc Li1) L" Ri R r1]
      show ?thesis
      proof (cases "intersect_advance L_SUPERSET_OF_R R (L ! Li1) Ri r1")
        case (Inl a)
        then show ?thesis using assms 1 2 adv True dL by (simp add: intersect_round_def)
      next
        case (Inr b)
        then obtain Ri1 r2 where
          adv2: "intersect_advance L_SUPERSET_OF_R R (L ! Li1) Ri r1 = Inr (Ri1, r2)"
          by (cases b) auto
        have 3: "intersect_merge (drop Li L) (drop Ri R) r
            = intersect_merge (L ! Li1 # drop (Suc Li1) L) (drop Ri1 R) r2"
          using 1 2 adv2 dL by simp
        show ?thesis
        proof (cases "Ri1 < length R \<and> L ! Li1 = R ! Ri1")
          case False
          then show ?thesis using assms adv adv2 True 3 dL by (auto simp: intersect_round_def)
        next
          case eq: True
          then have "drop Ri1 R = L ! Li1 # drop (Suc Ri1) R" by (simp add: Cons_nth_drop_Suc)
          then show ?thesis
            using assms adv adv2 True 3 eq by (simp add: intersect_round_def Let_def)
        qed
      qed
    qed
  qed
qed

lemma intersect_loop_merge:
  "Li < length L \<Longrightarrow> Ri < length R \<Longrightarrow>
   intersect_loop L R Li Ri r = intersect_merge (drop Li L) (drop Ri R) r"
proof (induction L R Li Ri r rule: intersect_loop.induct)
  case (1 L R Li Ri r)
  show ?case
  proof (cases "intersect_round L R Li Ri r")
    case (Inl a)
    then show ?thesis
      using intersect_round_merge [OF 1(2,3), of r] by (simp add: intersect_loop.simps)
  next
    case (Inr b)
    obtain Li' Ri' r' where b: "b = (Li', Ri', r')" by (cases b) auto
    show ?thesis
    proof (cases "Li' < length L \<and> Ri' < length R")
      case True
      then show ?thesis
        using 1(1) [OF Inr b [symmetric] refl True] Inr b intersect_round_merge [OF 1(2,3), of r]
        by (simp add: intersect_loop.simps [of L R Li Ri r])
    next
      case False
      then have "intersect_merge (drop Li' L) (drop Ri' R) r' = r'" by auto
      then show ?thesis
        using False Inr b intersect_round_merge [OF 1(2,3), of r]
        by (auto simp: intersect_loop.simps [of L R Li Ri r])
    qed
  qed
qed

subsection \<open>What intersect computes\<close>

definition result_of :: "bool \<Rightarrow> bool \<Rightarrow> bool \<Rightarrow> IntersectionResult_t" where
  "result_of common sbs spr =
     (if common then NONEMPTY else 0) OR (if sbs then L_SUBSET_OF_R else 0)
     OR (if spr then L_SUPERSET_OF_R else 0)"

lemma result_of_simps [simp]:
  "result_of c sbs spr AND NOT L_SUBSET_OF_R = result_of c False spr"
  "result_of c sbs spr AND NOT L_SUPERSET_OF_R = result_of c sbs False"
  "result_of c sbs spr OR NONEMPTY = result_of True sbs spr"
  "NONEMPTY = result_of c sbs spr \<longleftrightarrow> c \<and> \<not> sbs \<and> \<not> spr"
  "EMPTY = result_of c sbs spr \<longleftrightarrow> \<not> c \<and> \<not> sbs \<and> \<not> spr"
  "result_of c sbs spr = EMPTY \<longleftrightarrow> \<not> c \<and> \<not> sbs \<and> \<not> spr"
  "result_of c sbs spr AND L_SUBSET_OF_R \<noteq> 0 \<longleftrightarrow> sbs"
  "result_of c sbs spr AND L_SUPERSET_OF_R \<noteq> 0 \<longleftrightarrow> spr"
  by (cases c; cases sbs; cases spr; simp add: result_of_def result_defs)+

lemma L_EQUAL_R_result_of: "L_EQUAL_R = result_of False True True"
  by (simp add: result_of_def result_defs)

text \<open>
  \<open>below_or_in xs ys\<close>: every lock of \<open>xs\<close> is in \<open>ys\<close> or lies above all of \<open>ys\<close>.  The
  loop stops when one of the sets is exhausted, so it never inspects the locks above.
\<close>

definition in_or_above :: "LockID_t set \<Rightarrow> LockID_t set \<Rightarrow> bool" where
  "in_or_above X Y \<longleftrightarrow> (\<forall>x \<in> X. x \<in> Y \<or> (\<forall>y \<in> Y. y < x))"

lemma in_or_above_empty [simp]: "in_or_above {} Y" "in_or_above X {}"
  by (auto simp: in_or_above_def)

lemma in_or_above_less1:
  assumes "x < y" "\<forall>z \<in> Y. y < z" "\<forall>z \<in> X. x < z"
  shows "\<not> in_or_above (insert x X) (insert y Y)"
    and "in_or_above (insert y Y) (insert x X) = in_or_above (insert y Y) X"
  using assms unfolding in_or_above_def by (fastforce, (intro iffI ballI; fastforce))

lemma in_or_above_eq:
  assumes "\<forall>z \<in> Y. x < z" "\<forall>z \<in> X. x < z"
  shows "in_or_above (insert x X) (insert x Y) = in_or_above X Y"
  using assms unfolding in_or_above_def by (intro iffI ballI; fastforce)

lemma intersect_merge_result:
  "sorted_wrt (<) xs \<Longrightarrow> sorted_wrt (<) ys \<Longrightarrow>
   intersect_merge xs ys (result_of c sbs spr) =
     result_of (c \<or> set xs \<inter> set ys \<noteq> {})
       (sbs \<and> in_or_above (set xs) (set ys)) (spr \<and> in_or_above (set ys) (set xs))"
proof (induction xs ys "result_of c sbs spr" arbitrary: c sbs spr rule: intersect_merge.induct)
  case (3 x xs y ys)
  have X: "\<forall>z \<in> set xs. x < z" and Y: "\<forall>z \<in> set ys. y < z"
    and sx: "sorted_wrt (<) xs" and sy: "sorted_wrt (<) ys"
    using 3(4,5) by auto
  consider "x < y" | "y < x" | "x = y" by force
  then show ?case
  proof cases
    case 1
    have d: "(set (x # xs) \<inter> set (y # ys) \<noteq> {}) = (set xs \<inter> set (y # ys) \<noteq> {})"
      using 1 Y by auto
    note io = in_or_above_less1 [OF 1 Y X]
    show ?thesis
    proof (cases "c \<and> \<not> spr")
      case True
      then show ?thesis using 1 io by (auto simp: Let_def)
    next
      case False
      then have "intersect_merge xs (y # ys) (result_of c False spr) =
          result_of (c \<or> set xs \<inter> set (y # ys) \<noteq> {})
            (False \<and> in_or_above (set xs) (set (y # ys))) (spr \<and> in_or_above (set (y # ys)) (set xs))"
        using 1 3(4,5) by (intro 3(1) [OF 1 result_of_simps(1) [symmetric]]) (auto simp: Let_def)
      then show ?thesis using 1 False io d by (simp add: Let_def)
    qed
  next
    case 2
    have d: "(set (x # xs) \<inter> set (y # ys) \<noteq> {}) = (set (x # xs) \<inter> set ys \<noteq> {})"
      using 2 X by auto
    note io = in_or_above_less1 [OF 2 X Y]
    have nl: "\<not> x < y" using 2 by simp
    show ?thesis
    proof (cases "c \<and> \<not> sbs")
      case True
      then show ?thesis using 2 io by (auto simp: Let_def)
    next
      case False
      then have "intersect_merge (x # xs) ys (result_of c sbs False) =
          result_of (c \<or> set (x # xs) \<inter> set ys \<noteq> {})
            (sbs \<and> in_or_above (set (x # xs)) (set ys)) (False \<and> in_or_above (set ys) (set (x # xs)))"
        using 2 3(4,5) by (intro 3(2) [OF nl 2 result_of_simps(2) [symmetric]]) (auto simp: Let_def)
      then show ?thesis using 2 nl False io d by (simp add: Let_def)
    qed
  next
    case eq: 3
    have nl: "\<not> x < y" "\<not> y < x" using eq by auto
    have Y': "\<forall>z \<in> set ys. x < z" using Y eq by simp
    note io = in_or_above_eq [OF Y' X] in_or_above_eq [OF X Y']
    show ?thesis
    proof (cases "sbs \<or> spr")
      case False
      then show ?thesis using eq by (simp add: Let_def)
    next
      case True
      then have "intersect_merge xs ys (result_of True sbs spr) =
          result_of (True \<or> set xs \<inter> set ys \<noteq> {})
            (sbs \<and> in_or_above (set xs) (set ys)) (spr \<and> in_or_above (set ys) (set xs))"
        using eq 3(4,5) by (intro 3(3) [OF nl result_of_simps(3) [symmetric]]) (auto simp: Let_def)
      then show ?thesis using eq True io by (auto simp: Let_def)
    qed
  qed
qed auto

lemma LockSet_intersect_result:
  assumes "LockSet_wf L" "LockSet_wf R"
  shows "LockSet_intersect L R =
    (if ls_set L = {} \<or> ls_set R = {} then EMPTY
     else result_of (ls_set L \<inter> ls_set R \<noteq> {})
            (in_or_above (ls_set L) (ls_set R)) (in_or_above (ls_set R) (ls_set L)))"
proof (cases "ls_set L = {} \<or> ls_set R = {}")
  case True
  then show ?thesis using assms by (simp add: LockSet_intersect_def LockSet_isEmpty_iff)
next
  case False
  then have ne: "0 < length (ls_list L)" "0 < length (ls_list R)" by (auto simp: ls_set_def)
  have "sorted_wrt (<) (ls_list L)" "sorted_wrt (<) (ls_list R)"
    using assms by (auto simp: LockSet_wf_def)
  then show ?thesis
    using False assms intersect_loop_merge [OF ne, of L_EQUAL_R]
      intersect_merge_result [of "ls_list L" "ls_list R" False True True]
    by (simp add: LockSet_intersect_def LockSet_isEmpty_iff L_EQUAL_R_result_of ls_set_def)
qed

subsection \<open>The comparison operators\<close>

text \<open>\<open>operator<\<close> and \<open>operator==\<close>, with their index loops over the two arrays.\<close>

function LockSet_less_loop :: "LockID_t list \<Rightarrow> LockID_t list \<Rightarrow> nat \<Rightarrow> nat \<Rightarrow> bool" where
  "LockSet_less_loop L R Li Ri =
     (if Li < length L \<and> Ri < length R then
        (if L ! Li < R ! Ri then True
         else if L ! Li > R ! Ri then False
         else LockSet_less_loop L R (Suc Li) (Suc Ri))
      else length L < length R)"
  by pat_completeness auto
termination by (relation "measure (\<lambda>(L, R, Li, Ri). length L - Li)") auto

function LockSet_eq_loop :: "LockID_t list \<Rightarrow> LockID_t list \<Rightarrow> nat \<Rightarrow> nat \<Rightarrow> bool" where
  "LockSet_eq_loop L R Li Ri =
     (if Li < length L \<and> Ri < length R then
        (if L ! Li \<noteq> R ! Ri then False else LockSet_eq_loop L R (Suc Li) (Suc Ri))
      else length L = length R)"
  by pat_completeness auto
termination by (relation "measure (\<lambda>(L, R, Li, Ri). length L - Li)") auto

declare LockSet_less_loop.simps [simp del] LockSet_eq_loop.simps [simp del]

definition LockSet_less :: "LockSet_t \<Rightarrow> LockSet_t \<Rightarrow> bool" where
  "LockSet_less L R =
     (if LockSet_isEmpty L then \<not> LockSet_isEmpty R
      else if LockSet_isEmpty R then False
      else LockSet_less_loop (ls_list L) (ls_list R) 0 0)"

definition LockSet_eq :: "LockSet_t \<Rightarrow> LockSet_t \<Rightarrow> bool" where
  "LockSet_eq L R =
     (if LockSet_isEmpty L \<or> LockSet_isEmpty R then LockSet_isEmpty L \<and> LockSet_isEmpty R
      else LockSet_eq_loop (ls_list L) (ls_list R) 0 0)"

lemma LockSet_less_loop_lex:
  "i \<le> length L \<Longrightarrow> i \<le> length R \<Longrightarrow>
   LockSet_less_loop L R i i \<longleftrightarrow> ord_class.lexordp (drop i L) (drop i R)"
proof (induction "length L - i" arbitrary: i)
  case 0
  then show ?case by (auto simp: LockSet_less_loop.simps [of L R i i] not_less_iff_gr_or_eq)
next
  case (Suc n)
  then have i: "i < length L" and n: "n = length L - Suc i" by auto
  have dL: "drop i L = L ! i # drop (Suc i) L" using i by (simp add: Cons_nth_drop_Suc)
  show ?case
  proof (cases "i < length R")
    case False
    then have "i = length R" using Suc(4) by simp
    then show ?thesis
      using i by (auto simp: LockSet_less_loop.simps [of L R "length R" "length R"])
  next
    case True
    then have dR: "drop i R = R ! i # drop (Suc i) R" by (simp add: Cons_nth_drop_Suc)
    show ?thesis
      using Suc(1) [OF n] i True dL dR by (auto simp: LockSet_less_loop.simps [of L R i i])
  qed
qed

lemma LockSet_eq_loop_iff:
  "i \<le> length L \<Longrightarrow> i \<le> length R \<Longrightarrow> LockSet_eq_loop L R i i \<longleftrightarrow> drop i L = drop i R"
proof (induction "length L - i" arbitrary: i)
  case 0
  then show ?case by (auto simp: LockSet_eq_loop.simps [of L R i i])
next
  case (Suc n)
  then have i: "i < length L" and n: "n = length L - Suc i" by auto
  have dL: "drop i L = L ! i # drop (Suc i) L" using i by (simp add: Cons_nth_drop_Suc)
  show ?case
  proof (cases "i < length R")
    case False
    then have "i = length R" using Suc(4) by simp
    then show ?thesis
      using i by (auto simp: LockSet_eq_loop.simps [of L R "length R" "length R"])
  next
    case True
    then have dR: "drop i R = R ! i # drop (Suc i) R" by (simp add: Cons_nth_drop_Suc)
    show ?thesis
      using Suc(1) [OF n] i True dL dR by (auto simp: LockSet_eq_loop.simps [of L R i i])
  qed
qed

lemma ls_list_Nil_iff: "LockSet_wf L \<Longrightarrow> LockSet_isEmpty L \<longleftrightarrow> ls_list L = []"
  using LockSet_isEmpty_iff [of L] by (simp add: ls_set_def)

lemma LockSet_less_lex:
  "LockSet_wf L \<Longrightarrow> LockSet_wf R \<Longrightarrow> LockSet_less L R \<longleftrightarrow> ord_class.lexordp (ls_list L) (ls_list R)"
  using LockSet_less_loop_lex [of 0 "ls_list L" "ls_list R"]
  by (cases "ls_list L"; cases "ls_list R") (auto simp: LockSet_less_def ls_list_Nil_iff)

lemma LockSet_eq_list:
  "LockSet_wf L \<Longrightarrow> LockSet_wf R \<Longrightarrow> LockSet_eq L R \<longleftrightarrow> ls_list L = ls_list R"
  using LockSet_eq_loop_iff [of 0 "ls_list L" "ls_list R"]
  by (auto simp: LockSet_eq_def ls_list_Nil_iff)

lemma LockSet_eq_set:
  "LockSet_wf L \<Longrightarrow> LockSet_wf R \<Longrightarrow> LockSet_eq L R \<longleftrightarrow> ls_set L = ls_set R"
  using LockSet_eq_list sorted_wrt_less_unique [of "ls_list L" "ls_list R"]
  by (auto simp: LockSet_wf_def ls_set_def)

end
