(* ===== verification/ShadowMem.thy ===== *)
theory ShadowMem
  imports ShadowView MemoryAccess LockSets
begin

text \<open>
  \<open>SimpleDictionary\<close> and \<open>SimpleShadowMem\<close> of \<open>cilksan/simple_shadow_mem.h\<close> over the tables of
  \<open>ShadowDict\<close>: the occupancy bits of a page, the lockers of \<open>cilksan/locksets.h\<close> and the routines that
  check an access for races and record it.  During one access the frame and the SP-bags do not change
  (only paths are compressed, see \<open>previousAccessInParallel_ok\<close>), so the routines take the answer of
  \<open>previousAccessInParallel\<close> as a predicate on accesses; the function node \<open>ds\<close> and the version of the
  accessing S-bag are arguments.  The calls of \<open>report_race\<close> are returned as a list of reports.
  Reference counts of the stored accesses are not threaded here; \<open>MemoryAccess\<close> treats them.
\<close>

subsection \<open>The entries\<close>

definition MALineMethods :: "MemoryAccess_t DataMethods" where
  "MALineMethods = \<lparr>dm_default = MemoryAccess_default, dm_isValid = MA_isValid,
     dm_invalidate = (\<lambda>MA. (clearVerFunc MA)\<lparr>ver_acc_id := UNKNOWN_CSI_ACC_ID\<rparr>), dm_eq = MA_eq\<rparr>"

text \<open>\<open>MASetFn\<close>: the fields that \<open>MemoryAccess_t::set\<close> stores.\<close>

definition MASetFn :: "u64 \<Rightarrow> version_t \<Rightarrow> csi_id_t \<Rightarrow> MAType_t \<Rightarrow> MemoryAccess_t \<Rightarrow> MemoryAccess_t" where
  "MASetFn func version acc_id type MA =
     (if getFuncFromVerFunc MA \<noteq> func then MA\<lparr>ver_func := makeVerFunc func version\<rparr> else MA)
       \<lparr>ver_acc_id := makeTypedID acc_id type\<rparr>"

record Locker_t =
  lk_access :: MemoryAccess_t
  lk_lockset :: LockSet_t

type_synonym LockerList_t = "Locker_t list"

definition Locker_eq :: "Locker_t \<Rightarrow> Locker_t \<Rightarrow> bool" where
  "Locker_eq a b \<longleftrightarrow> MA_eq (lk_access a) (lk_access b) \<and> LockSet_eq (lk_lockset a) (lk_lockset b)"

definition Locker_less :: "Locker_t \<Rightarrow> Locker_t \<Rightarrow> bool" where
  "Locker_less a b \<longleftrightarrow>
     (let thisFunc = getFuncFromVerFunc (lk_access a); thatFunc = getFuncFromVerFunc (lk_access b)
      in thisFunc < thatFunc \<or> (thisFunc = thatFunc \<and> LockSet_less (lk_lockset a) (lk_lockset b)))"

fun LockerList_eq :: "LockerList_t \<Rightarrow> LockerList_t \<Rightarrow> bool" where
  "LockerList_eq (a # as) (b # bs) \<longleftrightarrow> Locker_eq a b \<and> LockerList_eq as bs"
| "LockerList_eq as bs \<longleftrightarrow> as = [] \<and> bs = []"

fun LockerList_insert :: "Locker_t \<Rightarrow> LockerList_t \<Rightarrow> LockerList_t" where
  "LockerList_insert locker [] = [locker]"
| "LockerList_insert locker (current # rest) =
     (if Locker_less current locker then current # LockerList_insert locker rest
      else locker # current # rest)"

definition LockerLineMethods :: "LockerList_t DataMethods" where
  "LockerLineMethods = \<lparr>dm_default = [], dm_isValid = (\<lambda>LL. LL \<noteq> []), dm_invalidate = (\<lambda>LL. []),
     dm_eq = LockerList_eq\<rparr>"

text \<open>
  The answer of \<open>previousAccessInParallel\<close>, which fails when a node is not there or the search for a bag does
  not end.  A valid access is asked about.
\<close>

type_synonym query = "MemoryAccess_t \<Rightarrow> bool option"

definition in_parallel :: "query \<Rightarrow> MemoryAccess_t \<Rightarrow> bool option" where
  "in_parallel par PA = (if MA_isValid PA then par PA else Some False)"

text \<open>The scan of \<open>LockerSetFn\<close>: lockers made redundant are spliced out; the flag says whether the new
  locker is redundant.  It is the set function of an insertion and cannot fail here: no answer counts as
  not in parallel.\<close>

fun LockerSetFn_scan :: "query \<Rightarrow> LockSet_t \<Rightarrow> LockerList_t \<Rightarrow> LockerList_t \<times> bool" where
  "LockerSetFn_scan par lockset [] = ([], False)"
| "LockerSetFn_scan par lockset (locker # rest) =
     (let result = LockSet_intersect (lk_lockset locker) lockset;
          (rest, redundant) = LockerSetFn_scan par lockset rest
      in if par (lk_access locker) \<noteq> Some True
         then (if result AND L_SUPERSET_OF_R \<noteq> 0 then (rest, redundant) else (locker # rest, redundant))
         else (locker # rest, redundant \<or> result AND L_SUBSET_OF_R \<noteq> 0))"

definition LockerSetFn ::
  "(nat \<Rightarrow> LockID_t) \<Rightarrow> query \<Rightarrow> u64 \<Rightarrow> version_t \<Rightarrow> LockSet_t \<Rightarrow> csi_id_t \<Rightarrow> MAType_t \<Rightarrow>
   LockerList_t \<Rightarrow> LockerList_t" where
  "LockerSetFn g par ds version lockset acc_id type LL =
     (let (LL, redundant) = LockerSetFn_scan par lockset LL
      in if redundant then LL
         else LockerList_insert
           \<lparr>lk_access = \<lparr>ver_func = makeVerFunc ds version, ver_acc_id = makeTypedID acc_id type\<rparr>,
            lk_lockset = LockSet_copy g lockset\<rparr> LL)"

subsection \<open>The dictionary\<close>

record Page_t = "MemoryAccess_t LPage_t" +
  pg_occupancy :: "u64 \<Rightarrow> u64"

type_synonym LockerPage_t = "LockerList_t LPage_t"

record Dict_t =
  sd_Table :: "u64 \<Rightarrow> Page_t option"
  sd_LockerTable :: "u64 \<Rightarrow> LockerPage_t option"
  sd_TouchedWords :: "u64 list"
  sd_AllocatedPages :: "u64 list"
  sd_LockerTableUsed :: bool

definition Dict_new :: Dict_t where
  "Dict_new = \<lparr>sd_Table = (\<lambda>_. None), sd_LockerTable = (\<lambda>_. None), sd_TouchedWords = [],
     sd_AllocatedPages = [], sd_LockerTableUsed = False\<rparr>"

definition Page_new :: Page_t where
  "Page_new = \<lparr>pg_lines = (\<lambda>_. Line_new), pg_occupancy = (\<lambda>_. 0)\<rparr>"

definition LockerPage_new :: LockerPage_t where
  "LockerPage_new = \<lparr>pg_lines = (\<lambda>_. Line_new)\<rparr>"

subsection \<open>Occupancy\<close>

definition LG_OCCUPANCY_WORD_SIZE :: nat where "LG_OCCUPANCY_WORD_SIZE = 6"
definition LG_OCCUPANCY_PAGE_SIZE :: nat where "LG_OCCUPANCY_PAGE_SIZE = SD_LG_PAGE_SIZE + SD_LG_LINE_SIZE"
definition OCCUPANCY_WORD_SIZE :: u64 where "OCCUPANCY_WORD_SIZE = push_bit LG_OCCUPANCY_WORD_SIZE 1"
definition OCCUPANCY_BIT_MASK :: u64 where "OCCUPANCY_BIT_MASK = OCCUPANCY_WORD_SIZE - 1"
definition OCCUPANCY_WORD_MASK :: u64 where "OCCUPANCY_WORD_MASK = NOT OCCUPANCY_BIT_MASK"
definition OCCUPANCY_WORD_IDX :: u64 where
  "OCCUPANCY_WORD_IDX = OCCUPANCY_WORD_MASK XOR NOT (push_bit LG_OCCUPANCY_PAGE_SIZE 1 - 1)"

definition occupancyWord :: "u64 \<Rightarrow> u64" where
  "occupancyWord addr = drop_bit LG_OCCUPANCY_WORD_SIZE (addr AND OCCUPANCY_WORD_IDX)"

definition occupancyWordStartBit :: "u64 \<Rightarrow> u64" where
  "occupancyWordStartBit addr = addr AND OCCUPANCY_BIT_MASK"

definition nextOccupancyWord :: "Chunk_t \<Rightarrow> Chunk_t" where
  "nextOccupancyWord Accessed =
     (let nextAddr = alignByNextGrainsize (ck_addr Accessed) LG_OCCUPANCY_WORD_SIZE;
          chunkSize = nextAddr - ck_addr Accessed
      in if chunkSize > ck_size Accessed then Chunk nextAddr 0
         else Chunk nextAddr (ck_size Accessed - chunkSize))"

definition occupancy_mask :: "Chunk_t \<Rightarrow> u64" where
  "occupancy_mask Accessed =
     push_bit (unat (occupancyWordStartBit (ck_addr Accessed)))
       (if ck_size Accessed \<ge> OCCUPANCY_WORD_SIZE then - 1
        else push_bit (unat (ck_size Accessed)) 1 - 1)"

text \<open>\<open>Page_t::setOccupied\<close>: the page, the accessed chunk that is left, the touched words and the result.\<close>

partial_function (option) Page_setOccupied ::
  "bool \<Rightarrow> Page_t \<Rightarrow> Chunk_t \<Rightarrow> u64 list \<Rightarrow> (bool \<times> Page_t \<times> Chunk_t \<times> u64 list) option" where
  "Page_setOccupied found P Accessed TouchedWords =
     (if Chunk_isEmpty Accessed then Some (found, P, Accessed, TouchedWords)
      else
        let addr = ck_addr Accessed; mask = occupancy_mask Accessed;
            current = pg_occupancy P (occupancyWord addr);
            TouchedWords = (if 0 = current then TouchedWords @ [addr] else TouchedWords);
            found = (if NOT current AND mask \<noteq> 0 then True else found);
            P = P\<lparr>pg_occupancy := (pg_occupancy P)(occupancyWord addr := current OR mask)\<rparr>;
            Accessed = nextOccupancyWord Accessed
        in if isPageStart (ck_addr Accessed) then Some (found, P, Accessed, TouchedWords)
           else Page_setOccupied found P Accessed TouchedWords)"

definition Page_clear :: "u64 \<Rightarrow> Page_t \<Rightarrow> Page_t" where
  "Page_clear wordAddr P = P\<lparr>pg_occupancy := (pg_occupancy P)(occupancyWord wordAddr := 0)\<rparr>"

text \<open>Getting the page of an address for its occupancy, allocating it when it is not there.\<close>

definition Dict_ensurePage :: "u64 \<Rightarrow> Dict_t \<Rightarrow> (bool \<times> Page_t \<times> Dict_t) option" where
  "Dict_ensurePage addr D =
     do {
       p \<leftarrow> getPage (sd_Table D) (sd_page addr);
       (case p of
          Some P \<Rightarrow> Some (False, P, D)
        | None \<Rightarrow> Some (True, Page_new,
            D\<lparr>sd_AllocatedPages := sd_AllocatedPages D @ [sd_page addr],
              sd_Table := (sd_Table D)(sd_page addr := Some Page_new)\<rparr>))
     }"

partial_function (option) Dict_setOccupied_loop :: "bool \<Rightarrow> Chunk_t \<Rightarrow> Dict_t \<Rightarrow> (bool \<times> Dict_t) option" where
  "Dict_setOccupied_loop found Accessed D =
     (if Chunk_isEmpty Accessed then Some (found, D)
      else do {
        (fresh, P, D) \<leftarrow> Dict_ensurePage (ck_addr Accessed) D;
        (f, P, Accessed', TW) \<leftarrow> Page_setOccupied False P Accessed (sd_TouchedWords D);
        Dict_setOccupied_loop (found \<or> fresh \<or> f) Accessed'
          (D\<lparr>sd_Table := (sd_Table D)(sd_page (ck_addr Accessed) := Some P), sd_TouchedWords := TW\<rparr>)
      })"

definition Dict_setOccupied :: "u64 \<Rightarrow> u64 \<Rightarrow> Dict_t \<Rightarrow> (bool \<times> Dict_t) option" where
  "Dict_setOccupied addr mem_size D = Dict_setOccupied_loop False (Chunk addr mem_size) D"

text \<open>The fast path allocates the page; the method of the page returns true before it does anything.\<close>

definition Page_setOccupiedFast :: "u64 \<Rightarrow> u64 \<Rightarrow> u64 list \<Rightarrow> Page_t \<Rightarrow> bool \<times> Page_t \<times> u64 list" where
  "Page_setOccupiedFast addr mem_size TouchedWords P = (True, P, TouchedWords)"

definition Dict_setOccupiedFast :: "u64 \<Rightarrow> u64 \<Rightarrow> Dict_t \<Rightarrow> (bool \<times> Dict_t) option" where
  "Dict_setOccupiedFast addr mem_size D =
     do {
       (_, P, D) \<leftarrow> Dict_ensurePage addr D;
       let (r, P, TW) = Page_setOccupiedFast addr mem_size (sd_TouchedWords D) P;
       Some (r, D\<lparr>sd_Table := (sd_Table D)(sd_page addr := Some P), sd_TouchedWords := TW\<rparr>)
     }"

primrec clearOccupied_words :: "u64 list \<Rightarrow> (u64 \<Rightarrow> Page_t option) \<Rightarrow> (u64 \<Rightarrow> Page_t option) option" where
  "clearOccupied_words [] T = Some T"
| "clearOccupied_words (w # ws) T =
     do {
       p \<leftarrow> getPage T (sd_page w);
       P \<leftarrow> p;
       clearOccupied_words ws (T(sd_page w := Some (Page_clear w P)))
     }"

definition Dict_clearOccupied :: "Dict_t \<Rightarrow> Dict_t option" where
  "Dict_clearOccupied D =
     map_option (\<lambda>T. D\<lparr>sd_Table := T, sd_TouchedWords := []\<rparr>)
       (clearOccupied_words (sd_TouchedWords D) (sd_Table D))"

definition Dict_freePages :: "Dict_t \<Rightarrow> Dict_t" where
  "Dict_freePages D =
     D\<lparr>sd_TouchedWords := [], sd_AllocatedPages := [],
       sd_Table := fold (\<lambda>Addr T. T(Addr := None)) (sd_AllocatedPages D) (sd_Table D)\<rparr>"


subsection \<open>Operations of the dictionary\<close>

definition Dict_find :: "u64 \<Rightarrow> Dict_t \<Rightarrow> MemoryAccess_t option option" where
  "Dict_find addr D =
     do {
       QI \<leftarrow> Query_iterator (sd_Table D) (Chunk addr 1);
       q_get MALineMethods (sd_Table D) QI
     }"

definition Dict_set ::
  "u64 \<Rightarrow> u64 \<Rightarrow> u64 \<Rightarrow> version_t \<Rightarrow> csi_id_t \<Rightarrow> MAType_t \<Rightarrow> Dict_t \<Rightarrow> Dict_t option" where
  "Dict_set addr s func version acc_id type D =
     do {
       UI \<leftarrow> Update_iterator (sd_Table D) (Chunk addr s);
       (T, UI) \<leftarrow> u_set MALineMethods Page_new (MASetFn func version acc_id type) (sd_Table D) UI;
       Some (D\<lparr>sd_Table := T\<rparr>)
     }"

definition Dict_clear :: "u64 \<Rightarrow> u64 \<Rightarrow> Dict_t \<Rightarrow> Dict_t option" where
  "Dict_clear addr s D =
     do {
       UI \<leftarrow> Update_iterator (sd_Table D) (Chunk addr s);
       (T, UI) \<leftarrow> u_clear MALineMethods (sd_Table D) UI;
       let D = D\<lparr>sd_Table := T\<rparr>;
       if sd_LockerTableUsed D
       then do {
         DRUI \<leftarrow> Update_iterator (sd_LockerTable D) (Chunk addr s);
         (LT, DRUI) \<leftarrow> u_clear LockerLineMethods (sd_LockerTable D) DRUI;
         Some (D\<lparr>sd_LockerTable := LT\<rparr>)
       }
       else Some D
     }"

definition lgMemSize :: "u64 \<Rightarrow> nat option" where
  "lgMemSize mem_size =
     (if mem_size = 1 then Some 0 else if mem_size = 2 then Some 1 else if mem_size = 4 then Some 2
      else if mem_size = 8 then Some 3 else if mem_size = 16 then Some 4 else if mem_size = 32 then Some 5
      else ctzl mem_size)"

definition getLine :: "u64 \<Rightarrow> Dict_t \<Rightarrow> MemoryAccess_t Line_t option option" where
  "getLine addr D =
     map_option (map_option (\<lambda>P. pg_lines P (sd_line addr))) (getPage (sd_Table D) (sd_page addr))"

definition getLineMustExist :: "u64 \<Rightarrow> u64 \<Rightarrow> Dict_t \<Rightarrow> (MemoryAccess_t Line_t \<times> Dict_t) option" where
  "getLineMustExist addr mem_size D =
     do {
       AccessLgGrainsize \<leftarrow> lgMemSize mem_size;
       l \<leftarrow> getLine addr D;
       Line \<leftarrow> l;
       if ln_LgGrainsize Line > AccessLgGrainsize
       then do {
         Line \<leftarrow> Line_refine MALineMethods AccessLgGrainsize Line;
         T \<leftarrow> store_line (sd_Table D) (Some (sd_page addr, sd_line addr)) Line;
         Some (Line, D\<lparr>sd_Table := T\<rparr>)
       }
       else Some (Line, D)
     }"

subsection \<open>Checking for determinacy races\<close>

text \<open>A call of \<open>CilkSanImpl.report_race\<close>: the previous access, the current one, the allocation of the
  address if one is known, and the kind of race.\<close>

record Report_t =
  rp_prev :: MemoryAccess_t
  rp_acc_id :: csi_id_t
  rp_type :: MAType_t
  rp_alloc :: "MemoryAccess_t option"
  rp_addr :: u64
  rp_race :: RaceType_t

record Shadow_t =
  sm_Reads :: Dict_t
  sm_Writes :: Dict_t
  sm_Allocs :: Dict_t

definition Shadow_new :: Shadow_t where
  "Shadow_new = \<lparr>sm_Reads = Dict_new, sm_Writes = Dict_new, sm_Allocs = Dict_new\<rparr>"

definition Shadow_freePages :: "Shadow_t \<Rightarrow> Shadow_t" where
  "Shadow_freePages S = S\<lparr>sm_Reads := Dict_freePages (sm_Reads S), sm_Writes := Dict_freePages (sm_Writes S)\<rparr>"

definition Shadow_setOccupied :: "bool \<Rightarrow> u64 \<Rightarrow> u64 \<Rightarrow> Shadow_t \<Rightarrow> (bool \<times> Shadow_t) option" where
  "Shadow_setOccupied is_read addr mem_size S =
     (if is_read
      then map_option (\<lambda>(r, D). (r, S\<lparr>sm_Reads := D\<rparr>)) (Dict_setOccupied addr mem_size (sm_Reads S))
      else map_option (\<lambda>(r, D). (r, S\<lparr>sm_Writes := D\<rparr>)) (Dict_setOccupied addr mem_size (sm_Writes S)))"

definition Shadow_setOccupiedFast :: "bool \<Rightarrow> u64 \<Rightarrow> u64 \<Rightarrow> Shadow_t \<Rightarrow> (bool \<times> Shadow_t) option" where
  "Shadow_setOccupiedFast is_read addr mem_size S =
     (if is_read
      then map_option (\<lambda>(r, D). (r, S\<lparr>sm_Reads := D\<rparr>)) (Dict_setOccupiedFast addr mem_size (sm_Reads S))
      else map_option (\<lambda>(r, D). (r, S\<lparr>sm_Writes := D\<rparr>)) (Dict_setOccupiedFast addr mem_size (sm_Writes S)))"

definition Shadow_clearOccupied :: "Shadow_t \<Rightarrow> Shadow_t option" where
  "Shadow_clearOccupied S =
     do {
       R \<leftarrow> Dict_clearOccupied (sm_Reads S);
       W \<leftarrow> Dict_clearOccupied (sm_Writes S);
       Some (S\<lparr>sm_Reads := R, sm_Writes := W\<rparr>)
     }"

definition race_type :: "bool \<Rightarrow> bool \<Rightarrow> RaceType_t" where
  "race_type prev_read is_read = (if prev_read then RW_RACE else if is_read then WR_RACE else WW_RACE)"

definition mk_report ::
  "Shadow_t \<Rightarrow> csi_id_t \<Rightarrow> MAType_t \<Rightarrow> MemoryAccess_t \<Rightarrow> u64 \<Rightarrow> RaceType_t \<Rightarrow> Report_t option" where
  "mk_report S acc_id type prev addr race =
     map_option (\<lambda>al. \<lparr>rp_prev = prev, rp_acc_id = acc_id, rp_type = type, rp_alloc = al, rp_addr = addr,
       rp_race = race\<rparr>) (Dict_find addr (sm_Allocs S))"

partial_function (option) check_race ::
  "Shadow_t \<Rightarrow> query \<Rightarrow> csi_id_t \<Rightarrow> MAType_t \<Rightarrow> RaceType_t \<Rightarrow>
   (u64 \<Rightarrow> Page_t option) \<Rightarrow> Iter_t \<Rightarrow> Report_t list option" where
  "check_race S par acc_id type race T QI =
     (if it_isEnd QI then Some []
      else do {
        PrevAccess \<leftarrow> q_get MALineMethods T QI;
        rs \<leftarrow> (case PrevAccess of
            Some PA \<Rightarrow>
              do {
                p \<leftarrow> in_parallel par PA;
                if p then map_option (\<lambda>r. [r]) (mk_report S acc_id type PA (it_getAddress QI) race) else Some []
              }
          | None \<Rightarrow> Some []);
        QI \<leftarrow> q_next MALineMethods T QI;
        rest \<leftarrow> check_race S par acc_id type race T QI;
        Some (rs @ rest)
      })"

definition check_race_with_prev_read ::
  "query \<Rightarrow> csi_id_t \<Rightarrow> MAType_t \<Rightarrow> u64 \<Rightarrow> u64 \<Rightarrow> Shadow_t \<Rightarrow> Report_t list option" where
  "check_race_with_prev_read par acc_id type addr mem_size S =
     do {
       QI \<leftarrow> Query_iterator (sd_Table (sm_Reads S)) (Chunk addr mem_size);
       check_race S par acc_id type (race_type True False) (sd_Table (sm_Reads S)) QI
     }"

definition check_race_with_prev_write ::
  "bool \<Rightarrow> query \<Rightarrow> csi_id_t \<Rightarrow> MAType_t \<Rightarrow> u64 \<Rightarrow> u64 \<Rightarrow> Shadow_t \<Rightarrow> Report_t list option" where
  "check_race_with_prev_write is_read par acc_id type addr mem_size S =
     do {
       QI \<leftarrow> Query_iterator (sd_Table (sm_Writes S)) (Chunk addr mem_size);
       check_race S par acc_id type (race_type False is_read) (sd_Table (sm_Writes S)) QI
     }"

text \<open>\<open>update\<close>; the arguments \<open>ds\<close> and \<open>version\<close> are those of \<open>f->getSbagForAccess()\<close>.\<close>

partial_function (option) update ::
  "query \<Rightarrow> u64 \<Rightarrow> version_t \<Rightarrow> csi_id_t \<Rightarrow> MAType_t \<Rightarrow> (u64 \<Rightarrow> Page_t option) \<Rightarrow> Iter_t \<Rightarrow>
   (u64 \<Rightarrow> Page_t option) option" where
  "update par ds version acc_id type T UI =
     (if it_isEnd UI then Some T
      else do {
        PrevAccess \<leftarrow> u_get MALineMethods T UI;
        (T, UI) \<leftarrow>
          (case PrevAccess of
             Some PA \<Rightarrow>
               do {
                 p \<leftarrow> in_parallel par PA;
                 if \<not> p then u_insert MALineMethods Page_new (MASetFn ds version acc_id type) T UI
                 else map_option (\<lambda>UI. (T, UI)) (u_next MALineMethods T UI)
               }
           | None \<Rightarrow> u_insert MALineMethods Page_new (MASetFn ds version acc_id type) T UI);
        update par ds version acc_id type T UI
      })"

definition update_with_read ::
  "query \<Rightarrow> u64 \<Rightarrow> version_t \<Rightarrow> csi_id_t \<Rightarrow> MAType_t \<Rightarrow> u64 \<Rightarrow> u64 \<Rightarrow> Shadow_t \<Rightarrow> Shadow_t option" where
  "update_with_read par ds version acc_id type addr mem_size S =
     do {
       let R = sm_Reads S;
       UI \<leftarrow> Update_iterator (sd_Table R) (Chunk addr mem_size);
       T \<leftarrow> update par ds version acc_id type (sd_Table R) UI;
       Some (S\<lparr>sm_Reads := R\<lparr>sd_Table := T\<rparr>\<rparr>)
     }"

partial_function (option) check_and_update_write_loop ::
  "Shadow_t \<Rightarrow> query \<Rightarrow> u64 \<Rightarrow> version_t \<Rightarrow> csi_id_t \<Rightarrow> MAType_t \<Rightarrow>
   (u64 \<Rightarrow> Page_t option) \<Rightarrow> Iter_t \<Rightarrow> ((u64 \<Rightarrow> Page_t option) \<times> Report_t list) option" where
  "check_and_update_write_loop S par ds version acc_id type T UI =
     (if it_isEnd UI then Some (T, [])
      else do {
        PrevAccess \<leftarrow> u_get MALineMethods T UI;
        (T, UI, rs) \<leftarrow>
          (case PrevAccess of
             Some PA \<Rightarrow>
               do {
                 p \<leftarrow> in_parallel par PA;
                 if p
                 then do {
                   r \<leftarrow> mk_report S acc_id type PA (it_getAddress UI) WW_RACE;
                   UI \<leftarrow> u_next MALineMethods T UI;
                   Some (T, UI, [r])
                 }
                 else map_option (\<lambda>(T, UI). (T, UI, []))
                   (u_insert MALineMethods Page_new (MASetFn ds version acc_id type) T UI)
               }
           | None \<Rightarrow> map_option (\<lambda>(T, UI). (T, UI, []))
               (u_insert MALineMethods Page_new (MASetFn ds version acc_id type) T UI));
        (T, rest) \<leftarrow> check_and_update_write_loop S par ds version acc_id type T UI;
        Some (T, rs @ rest)
      })"

definition check_and_update_write ::
  "query \<Rightarrow> u64 \<Rightarrow> version_t \<Rightarrow> csi_id_t \<Rightarrow> MAType_t \<Rightarrow> u64 \<Rightarrow> u64 \<Rightarrow> Shadow_t \<Rightarrow>
   (Shadow_t \<times> Report_t list) option" where
  "check_and_update_write par ds version acc_id type addr mem_size S =
     do {
       let W = sm_Writes S;
       UI \<leftarrow> Update_iterator (sd_Table W) (Chunk addr mem_size);
       (T, rs) \<leftarrow> check_and_update_write_loop S par ds version acc_id type (sd_Table W) UI;
       Some (S\<lparr>sm_Writes := W\<lparr>sd_Table := T\<rparr>\<rparr>, rs)
     }"


subsection \<open>The fast paths\<close>

text \<open>\<open>(1 << line->getLgGrainsize()) != (unsigned)mem_size\<close>\<close>

definition grain_differs :: "'a Line_t \<Rightarrow> u64 \<Rightarrow> bool" where
  "grain_differs L mem_size \<longleftrightarrow> (push_bit (ln_LgGrainsize L) 1 :: u32) \<noteq> ucast mem_size"

text \<open>The check of the other dictionary: its entry for the address is valid and in parallel.\<close>

definition fast_check ::
  "Shadow_t \<Rightarrow> query \<Rightarrow> csi_id_t \<Rightarrow> MAType_t \<Rightarrow> u64 \<Rightarrow> RaceType_t \<Rightarrow>
   MemoryAccess_t Line_t \<Rightarrow> Report_t list option" where
  "fast_check S par acc_id type addr race L =
     do {
       ma \<leftarrow> Line_at (Line_getIdx (sd_byte addr) L) L;
       p \<leftarrow> in_parallel par ma;
       if p then map_option (\<lambda>r. [r]) (mk_report S acc_id type ma addr race) else Some []
     }"

text \<open>Recording the access in its own dictionary; the entry is returned when it was valid and in
  parallel, in which case nothing is stored.\<close>

definition fast_update ::
  "query \<Rightarrow> u64 \<Rightarrow> version_t \<Rightarrow> csi_id_t \<Rightarrow> MAType_t \<Rightarrow> u64 \<Rightarrow>
   MemoryAccess_t Line_t \<Rightarrow> (MemoryAccess_t Line_t \<times> MemoryAccess_t option) option" where
  "fast_update par ds version acc_id type addr L =
     do {
       L \<leftarrow> Line_materialize_if MALineMethods L;
       let idx = Line_getIdx (sd_byte addr) L;
       ma \<leftarrow> Line_at idx L;
       if \<not> MA_isValid ma
       then map_option (\<lambda>L. (L, None)) (Line_put idx (MASetFn ds version acc_id type ma) (Line_incNumNonNullEls L))
       else do {
         p \<leftarrow> par ma;
         if p then Some (L, Some ma)
         else map_option (\<lambda>L. (L, None)) (Line_put idx (MASetFn ds version acc_id type ma) L)
       }
     }"

definition put_line :: "u64 \<Rightarrow> MemoryAccess_t Line_t \<Rightarrow> Dict_t \<Rightarrow> Dict_t option" where
  "put_line addr L D =
     map_option (\<lambda>T. D\<lparr>sd_Table := T\<rparr>) (store_line (sd_Table D) (Some (sd_page addr, sd_line addr)) L)"

definition check_read_fast ::
  "query \<Rightarrow> u64 \<Rightarrow> version_t \<Rightarrow> csi_id_t \<Rightarrow> MAType_t \<Rightarrow> u64 \<Rightarrow> u64 \<Rightarrow> Shadow_t \<Rightarrow>
   (Shadow_t \<times> Report_t list) option" where
  "check_read_fast par ds version acc_id type addr mem_size S =
     do {
       write_line \<leftarrow> getLine addr (sm_Writes S);
       let need_check = (case write_line of None \<Rightarrow> False | Some L \<Rightarrow> \<not> Line_isEmpty L);
       (need_check, rs1) \<leftarrow>
         (case write_line of
            Some L \<Rightarrow>
              if need_check \<and> grain_differs L mem_size
              then map_option (\<lambda>rs. (False, rs)) (check_race_with_prev_write True par acc_id type addr mem_size S)
              else Some (need_check, [])
          | None \<Rightarrow> Some (need_check, []));
       (read_line, R) \<leftarrow> getLineMustExist addr mem_size (sm_Reads S);
       let S = S\<lparr>sm_Reads := R\<rparr>;
       S \<leftarrow>
         (if grain_differs read_line mem_size
          then update_with_read par ds version acc_id type addr mem_size S
          else do {
            (read_line, _) \<leftarrow> fast_update par ds version acc_id type addr read_line;
            R \<leftarrow> put_line addr read_line (sm_Reads S);
            Some (S\<lparr>sm_Reads := R\<rparr>)
          });
       rs2 \<leftarrow>
         (case write_line of
            Some L \<Rightarrow> if need_check then fast_check S par acc_id type addr WR_RACE L else Some []
          | None \<Rightarrow> Some []);
       Some (S, rs1 @ rs2)
     }"

definition check_write_fast ::
  "query \<Rightarrow> u64 \<Rightarrow> version_t \<Rightarrow> csi_id_t \<Rightarrow> MAType_t \<Rightarrow> u64 \<Rightarrow> u64 \<Rightarrow> Shadow_t \<Rightarrow>
   (Shadow_t \<times> Report_t list) option" where
  "check_write_fast par ds version acc_id type addr mem_size S =
     do {
       read_line \<leftarrow> getLine addr (sm_Reads S);
       let need_read_check = (case read_line of None \<Rightarrow> False | Some L \<Rightarrow> \<not> Line_isEmpty L);
       (need_read_check, rs1) \<leftarrow>
         (case read_line of
            Some L \<Rightarrow>
              if need_read_check \<and> grain_differs L mem_size
              then map_option (\<lambda>rs. (False, rs)) (check_race_with_prev_read par acc_id type addr mem_size S)
              else Some (need_read_check, [])
          | None \<Rightarrow> Some (need_read_check, []));
       (write_line, W) \<leftarrow> getLineMustExist addr mem_size (sm_Writes S);
       let S = S\<lparr>sm_Writes := W\<rparr>;
       (S, rs2) \<leftarrow>
         (if grain_differs write_line mem_size
          then check_and_update_write par ds version acc_id type addr mem_size S
          else do {
            (write_line, prev) \<leftarrow> fast_update par ds version acc_id type addr write_line;
            rs \<leftarrow> (case prev of
                Some ma \<Rightarrow> map_option (\<lambda>r. [r]) (mk_report S acc_id type ma addr WW_RACE)
              | None \<Rightarrow> Some []);
            W \<leftarrow> put_line addr write_line (sm_Writes S);
            Some (S\<lparr>sm_Writes := W\<rparr>, rs)
          });
       rs3 \<leftarrow>
         (case read_line of
            Some L \<Rightarrow> if need_read_check then fast_check S par acc_id type addr RW_RACE L else Some []
          | None \<Rightarrow> Some []);
       Some (S, rs1 @ rs2 @ rs3)
     }"

subsection \<open>Checking for data races\<close>

text \<open>\<open>dataRaceWithPreviousAccesses\<close>\<close>

fun dataRaceWithPreviousAccesses :: "query \<Rightarrow> LockSet_t \<Rightarrow> LockerList_t \<Rightarrow> bool option" where
  "dataRaceWithPreviousAccesses par LS [] = Some False"
| "dataRaceWithPreviousAccesses par LS (locker # rest) =
     do {
       p \<leftarrow> par (lk_access locker);
       if p \<and> EMPTY = LockSet_intersect (lk_lockset locker) LS then Some True
       else dataRaceWithPreviousAccesses par LS rest
     }"

text \<open>The previous accesses of an address are none, or one of them races.\<close>

definition lockers_race :: "query \<Rightarrow> LockSet_t \<Rightarrow> LockerList_t option \<Rightarrow> bool option" where
  "lockers_race par LS PrevAccesses =
     (case PrevAccesses of None \<Rightarrow> Some True
      | Some LL \<Rightarrow> if LL = [] then Some True else dataRaceWithPreviousAccesses par LS LL)"

text \<open>The inner loop over the lockers of the addresses \<open>[StartAddr, EndAddr)\<close> that the previous access
  \<open>PA\<close> covers.\<close>

partial_function (option) check_lockers ::
  "Shadow_t \<Rightarrow> query \<Rightarrow> LockSet_t \<Rightarrow> csi_id_t \<Rightarrow> MAType_t \<Rightarrow> RaceType_t \<Rightarrow> MemoryAccess_t \<Rightarrow>
   (u64 \<Rightarrow> LockerPage_t option) \<Rightarrow> Iter_t \<Rightarrow> Report_t list option" where
  "check_lockers S par LS acc_id type race PA LT LQI =
     (if it_isEnd LQI then Some []
      else do {
        PrevAccesses \<leftarrow> q_get LockerLineMethods LT LQI;
        p \<leftarrow> lockers_race par LS PrevAccesses;
        rs \<leftarrow> (if p
               then map_option (\<lambda>r. [r]) (mk_report S acc_id type PA (it_getAddress LQI) race)
               else Some []);
        LQI \<leftarrow> q_next LockerLineMethods LT LQI;
        rest \<leftarrow> check_lockers S par LS acc_id type race PA LT LQI;
        Some (rs @ rest)
      })"

partial_function (option) check_data_race ::
  "Shadow_t \<Rightarrow> query \<Rightarrow> LockSet_t \<Rightarrow> csi_id_t \<Rightarrow> MAType_t \<Rightarrow> RaceType_t \<Rightarrow>
   Dict_t \<Rightarrow> Iter_t \<Rightarrow> Report_t list option" where
  "check_data_race S par LS acc_id type race D QI =
     (if it_isEnd QI then Some []
      else do {
        PrevAccess \<leftarrow> q_get MALineMethods (sd_Table D) QI;
        (QI, rs) \<leftarrow>
          (case PrevAccess of
             Some PA \<Rightarrow>
               do {
                 p \<leftarrow> in_parallel par PA;
                 if p
                 then do {
                   let StartAddr = it_getAddress QI;
                   QI \<leftarrow> q_next MALineMethods (sd_Table D) QI;
                   let EndAddr = it_getAddress QI;
                   if \<not> EndAddr > StartAddr then None
                   else do {
                     LQI \<leftarrow> Query_iterator (sd_LockerTable D) (Chunk StartAddr (EndAddr - StartAddr));
                     rs \<leftarrow> check_lockers S par LS acc_id type race PA (sd_LockerTable D) LQI;
                     Some (QI, rs)
                   }
                 }
                 else map_option (\<lambda>QI. (QI, [])) (q_next MALineMethods (sd_Table D) QI)
               }
           | None \<Rightarrow> map_option (\<lambda>QI. (QI, [])) (q_next MALineMethods (sd_Table D) QI));
        rest \<leftarrow> check_data_race S par LS acc_id type race D QI;
        Some (rs @ rest)
      })"

definition check_data_race_with_prev_read ::
  "query \<Rightarrow> LockSet_t \<Rightarrow> csi_id_t \<Rightarrow> MAType_t \<Rightarrow> u64 \<Rightarrow> u64 \<Rightarrow> Shadow_t \<Rightarrow> Report_t list option" where
  "check_data_race_with_prev_read par LS acc_id type addr mem_size S =
     do {
       QI \<leftarrow> Query_iterator (sd_Table (sm_Reads S)) (Chunk addr mem_size);
       check_data_race S par LS acc_id type (race_type True False) (sm_Reads S) QI
     }"

definition check_data_race_with_prev_write ::
  "bool \<Rightarrow> query \<Rightarrow> LockSet_t \<Rightarrow> csi_id_t \<Rightarrow> MAType_t \<Rightarrow> u64 \<Rightarrow> u64 \<Rightarrow> Shadow_t \<Rightarrow>
   Report_t list option" where
  "check_data_race_with_prev_write is_read par LS acc_id type addr mem_size S =
     do {
       QI \<leftarrow> Query_iterator (sd_Table (sm_Writes S)) (Chunk addr mem_size);
       check_data_race S par LS acc_id type (race_type False is_read) (sm_Writes S) QI
     }"

text \<open>\<open>update_lockers\<close>: the set function \<open>SetFn\<close> is a \<open>LockerSetFn\<close>.\<close>

partial_function (option) update_lockers ::
  "(LockerList_t \<Rightarrow> LockerList_t) \<Rightarrow> (u64 \<Rightarrow> LockerPage_t option) \<Rightarrow> Iter_t \<Rightarrow>
   (u64 \<Rightarrow> LockerPage_t option) option" where
  "update_lockers SetFn LT UI =
     (if it_isEnd UI then Some LT
      else do {
        (LT, UI) \<leftarrow> u_insert LockerLineMethods LockerPage_new SetFn LT UI;
        update_lockers SetFn LT UI
      })"

text \<open>Storing the locker table after an update of the range \<open>[addr, addr+s)\<close>; \<open>setPage\<close> notes that the
  table is used when a page of the range was created.\<close>

definition put_lockers :: "u64 \<Rightarrow> u64 \<Rightarrow> (u64 \<Rightarrow> LockerPage_t option) \<Rightarrow> Dict_t \<Rightarrow> Dict_t" where
  "put_lockers addr s LT D =
     D\<lparr>sd_LockerTable := LT,
       sd_LockerTableUsed := (sd_LockerTableUsed D \<or>
         list_ex (\<lambda>i. sd_LockerTable D (of_nat i) = None \<and> LT (of_nat i) \<noteq> None)
           [unat (sd_page addr)..<Suc (unat (sd_page (addr + s)))])\<rparr>"

definition update_lockers_range ::
  "(LockerList_t \<Rightarrow> LockerList_t) \<Rightarrow> u64 \<Rightarrow> u64 \<Rightarrow> Dict_t \<Rightarrow> Dict_t option" where
  "update_lockers_range SetFn addr s D =
     do {
       UI \<leftarrow> Update_iterator (sd_LockerTable D) (Chunk addr s);
       LT \<leftarrow> update_lockers SetFn (sd_LockerTable D) UI;
       Some (put_lockers addr s LT D)
     }"

definition update_lockers_with_read ::
  "(LockerList_t \<Rightarrow> LockerList_t) \<Rightarrow> u64 \<Rightarrow> u64 \<Rightarrow> Shadow_t \<Rightarrow> Shadow_t option" where
  "update_lockers_with_read SetFn addr mem_size S =
     map_option (\<lambda>D. S\<lparr>sm_Reads := D\<rparr>) (update_lockers_range SetFn addr mem_size (sm_Reads S))"

partial_function (option) check_update_lockers ::
  "Shadow_t \<Rightarrow> query \<Rightarrow> LockSet_t \<Rightarrow> (LockerList_t \<Rightarrow> LockerList_t) \<Rightarrow> csi_id_t \<Rightarrow> MAType_t \<Rightarrow>
   MemoryAccess_t \<Rightarrow> (u64 \<Rightarrow> LockerPage_t option) \<Rightarrow> Iter_t \<Rightarrow>
   ((u64 \<Rightarrow> LockerPage_t option) \<times> Report_t list) option" where
  "check_update_lockers S par LS SetFn acc_id type PA LT LUI =
     (if it_isEnd LUI then Some (LT, [])
      else do {
        PrevAccesses \<leftarrow> u_get LockerLineMethods LT LUI;
        p \<leftarrow> lockers_race par LS PrevAccesses;
        rs \<leftarrow> (if p
               then map_option (\<lambda>r. [r]) (mk_report S acc_id type PA (it_getAddress LUI) WW_RACE)
               else Some []);
        (LT, LUI) \<leftarrow> u_insert LockerLineMethods LockerPage_new SetFn LT LUI;
        (LT, rest) \<leftarrow> check_update_lockers S par LS SetFn acc_id type PA LT LUI;
        Some (LT, rs @ rest)
      })"

partial_function (option) check_data_race_and_update_write_loop ::
  "Shadow_t \<Rightarrow> query \<Rightarrow> LockSet_t \<Rightarrow> (LockerList_t \<Rightarrow> LockerList_t) \<Rightarrow>
   u64 \<Rightarrow> version_t \<Rightarrow> csi_id_t \<Rightarrow> MAType_t \<Rightarrow> Dict_t \<Rightarrow> Iter_t \<Rightarrow> (Dict_t \<times> Report_t list) option" where
  "check_data_race_and_update_write_loop S par LS SetFn ds version acc_id type W UI =
     (if it_isEnd UI then Some (W, [])
      else do {
        PrevAccess \<leftarrow> u_get MALineMethods (sd_Table W) UI;
        let StartAddr = it_getAddress UI;
        (W, UI, rs) \<leftarrow>
          (case PrevAccess of
             Some PA \<Rightarrow>
               do {
                 p \<leftarrow> in_parallel par PA;
                 if p
                 then do {
                   UI \<leftarrow> u_next MALineMethods (sd_Table W) UI;
                   let EndAddr = it_getAddress UI;
                   if \<not> EndAddr > StartAddr then None
                   else do {
                     LUI \<leftarrow> Update_iterator (sd_LockerTable W) (Chunk StartAddr (EndAddr - StartAddr));
                     (LT, rs) \<leftarrow> check_update_lockers S par LS SetFn acc_id type PA (sd_LockerTable W) LUI;
                     Some (put_lockers StartAddr (EndAddr - StartAddr) LT W, UI, rs)
                   }
                 }
                 else do {
                   (T, UI) \<leftarrow> u_insert MALineMethods Page_new (MASetFn ds version acc_id type) (sd_Table W) UI;
                   let EndAddr = it_getAddress UI;
                   if \<not> EndAddr > StartAddr then None
                   else do {
                     W \<leftarrow> update_lockers_range SetFn StartAddr (EndAddr - StartAddr) (W\<lparr>sd_Table := T\<rparr>);
                     Some (W, UI, [])
                   }
                 }
               }
           | None \<Rightarrow> do {
               (T, UI) \<leftarrow> u_insert MALineMethods Page_new (MASetFn ds version acc_id type) (sd_Table W) UI;
               let EndAddr = it_getAddress UI;
               if \<not> EndAddr > StartAddr then None
               else do {
                 W \<leftarrow> update_lockers_range SetFn StartAddr (EndAddr - StartAddr) (W\<lparr>sd_Table := T\<rparr>);
                 Some (W, UI, [])
               }
             });
        (W, rest) \<leftarrow> check_data_race_and_update_write_loop S par LS SetFn ds version acc_id type W UI;
        Some (W, rs @ rest)
      })"

definition check_data_race_and_update_write ::
  "query \<Rightarrow> LockSet_t \<Rightarrow> (LockerList_t \<Rightarrow> LockerList_t) \<Rightarrow> u64 \<Rightarrow> version_t \<Rightarrow> csi_id_t \<Rightarrow>
   MAType_t \<Rightarrow> u64 \<Rightarrow> u64 \<Rightarrow> Shadow_t \<Rightarrow> (Shadow_t \<times> Report_t list) option" where
  "check_data_race_and_update_write par LS SetFn ds version acc_id type addr mem_size S =
     do {
       UI \<leftarrow> Update_iterator (sd_Table (sm_Writes S)) (Chunk addr mem_size);
       (W, rs) \<leftarrow> check_data_race_and_update_write_loop S par LS SetFn ds version acc_id type (sm_Writes S) UI;
       Some (S\<lparr>sm_Writes := W\<rparr>, rs)
     }"

subsection \<open>Allocations\<close>

definition Shadow_clear :: "u64 \<Rightarrow> u64 \<Rightarrow> Shadow_t \<Rightarrow> Shadow_t option" where
  "Shadow_clear start s S =
     do {
       R \<leftarrow> Dict_clear start s (sm_Reads S);
       W \<leftarrow> Dict_clear start s (sm_Writes S);
       Some (S\<lparr>sm_Reads := R, sm_Writes := W\<rparr>)
     }"

definition Shadow_record_alloc ::
  "u64 \<Rightarrow> version_t \<Rightarrow> u64 \<Rightarrow> u64 \<Rightarrow> csi_id_t \<Rightarrow> Shadow_t \<Rightarrow> Shadow_t option" where
  "Shadow_record_alloc ds version start s alloca_id S =
     map_option (\<lambda>D. S\<lparr>sm_Allocs := D\<rparr>) (Dict_set start s ds version alloca_id ALLOC (sm_Allocs S))"

definition Shadow_record_free ::
  "u64 \<Rightarrow> version_t \<Rightarrow> u64 \<Rightarrow> u64 \<Rightarrow> csi_id_t \<Rightarrow> MAType_t \<Rightarrow> Shadow_t \<Rightarrow> Shadow_t option" where
  "Shadow_record_free ds version start s free_id type S =
     do {
       A \<leftarrow> Dict_clear start s (sm_Allocs S);
       W \<leftarrow> Dict_set start s ds version free_id type (sm_Writes S);
       Some (S\<lparr>sm_Allocs := A, sm_Writes := W\<rparr>)
     }"

definition Shadow_clear_alloc :: "u64 \<Rightarrow> u64 \<Rightarrow> Shadow_t \<Rightarrow> Shadow_t option" where
  "Shadow_clear_alloc start s S =
     map_option (\<lambda>D. S\<lparr>sm_Allocs := D\<rparr>) (Dict_clear start s (sm_Allocs S))"

end
