(* ===== verification/Containers.thy ===== *)
theory Containers
  imports Prelude
begin

text \<open>
  The growable stack \<open>Stack_t\<close> of \<open>cilksan/stack.h\<close> and the growable vector
  \<open>Vector_t\<close> of \<open>cilksan/vector.h\<close>, each with the array it allocates, its capacity
  and its head index.  The locale \<open>stack_iface\<close> states what the users of a stack rely on.
\<close>

subsection \<open>Stack\_t\<close>

text \<open>
  The array \<open>_stack\<close> is the list of its cells, so its length is the number of allocated
  cells.  \<open>new STACK_DATA_T[n]\<close> fills the array with default-constructed elements, the
  argument \<open>d\<close> of the operations that allocate.
\<close>

record 'a Stack_t =
  stk_stack :: "'a list"
  stk_capacity :: u32
  stk_head :: u32

definition Stack_DEFAULT_CAPACITY :: u32 where
  "Stack_DEFAULT_CAPACITY = 128"

definition Stack_new :: "'a \<Rightarrow> 'a Stack_t" where
  "Stack_new d = \<lparr>stk_stack = replicate (unat Stack_DEFAULT_CAPACITY) d,
                  stk_capacity = Stack_DEFAULT_CAPACITY, stk_head = 0\<rparr>"

definition Stack_resize :: "'a \<Rightarrow> u32 \<Rightarrow> 'a Stack_t \<Rightarrow> 'a Stack_t" where
  "Stack_resize d new_capacity s =
     (let old_stack = stk_stack s;
          copy_end = (if stk_capacity s > new_capacity then new_capacity else stk_capacity s)
      in s\<lparr>stk_stack := take (unat copy_end) old_stack
                         @ replicate (unat new_capacity - unat copy_end) d,
           stk_capacity := new_capacity\<rparr>)"

definition Stack_double_cap :: "'a \<Rightarrow> 'a Stack_t \<Rightarrow> 'a Stack_t" where
  "Stack_double_cap d s = Stack_resize d (stk_capacity s * 2) s"

definition Stack_halve_cap :: "'a \<Rightarrow> 'a Stack_t \<Rightarrow> 'a Stack_t" where
  "Stack_halve_cap d s = Stack_resize d (stk_capacity s div 2) s"

definition Stack_push :: "'a \<Rightarrow> 'a Stack_t \<Rightarrow> 'a Stack_t" where
  "Stack_push d s =
     (let s = s\<lparr>stk_head := stk_head s + 1\<rparr>
      in if stk_head s = stk_capacity s then Stack_double_cap d s else s)"

definition Stack_set_head :: "'a \<Rightarrow> 'a Stack_t \<Rightarrow> 'a Stack_t" where
  "Stack_set_head v s = s\<lparr>stk_stack := (stk_stack s)[unat (stk_head s) := v]\<rparr>"

definition Stack_push_back :: "'a \<Rightarrow> 'a \<Rightarrow> 'a Stack_t \<Rightarrow> 'a Stack_t" where
  "Stack_push_back d v s = Stack_set_head v (Stack_push d s)"

definition Stack_back :: "'a Stack_t \<Rightarrow> 'a option" where
  "Stack_back s = arr_get (stk_stack s) (unat (stk_head s))"

definition Stack_from_back :: "u32 \<Rightarrow> 'a Stack_t \<Rightarrow> 'a option" where
  "Stack_from_back i s = arr_get (stk_stack s) (unat (stk_head s - i))"

definition Stack_pop :: "'a \<Rightarrow> 'a Stack_t \<Rightarrow> 'a Stack_t" where
  "Stack_pop d s =
     (let s = s\<lparr>stk_head := stk_head s - 1\<rparr>
      in if stk_capacity s > Stack_DEFAULT_CAPACITY \<and> stk_head s < stk_capacity s div 2
         then Stack_halve_cap d s else s)"

definition Stack_ancestor :: "u32 \<Rightarrow> 'a Stack_t \<Rightarrow> 'a option" where
  "Stack_ancestor i s =
     (if i \<le> stk_head s \<and> stk_head s < stk_capacity s
      then arr_get (stk_stack s) (unat (stk_head s - i)) else None)"

definition Stack_at :: "u32 \<Rightarrow> 'a Stack_t \<Rightarrow> 'a option" where
  "Stack_at i s =
     (if i \<le> stk_head s \<and> stk_head s < stk_capacity s
      then arr_get (stk_stack s) (unat i) else None)"

definition Stack_size :: "'a Stack_t \<Rightarrow> u32" where
  "Stack_size s = stk_head s + 1"

text \<open>
  The abstraction: the entries from the oldest (index 0) to the head.  The invariant: the
  capacity is the length of the array, a power of two times the default, and the head is inside.
\<close>

definition Stack_contents :: "'a Stack_t \<Rightarrow> 'a list" where
  "Stack_contents s = take (Suc (unat (stk_head s))) (stk_stack s)"

definition Stack_wf :: "'a Stack_t \<Rightarrow> bool" where
  "Stack_wf s \<longleftrightarrow> length (stk_stack s) = unat (stk_capacity s)
      \<and> unat (stk_head s) < unat (stk_capacity s)
      \<and> (\<exists>k \<le> 24. unat (stk_capacity s) = 128 * 2 ^ k)"

text \<open>There is room for one more entry as long as the capacity does not pass \<open>2^31\<close>.\<close>

definition Stack_room :: "'a Stack_t \<Rightarrow> bool" where
  "Stack_room s \<longleftrightarrow> unat (stk_head s) + 1 < 2 ^ 31"

subsection \<open>The interface of a stack\<close>

locale stack_iface =
  fixes contents :: "'s \<Rightarrow> 'a list"
    and push_val :: "'a \<Rightarrow> 's \<Rightarrow> 's"
    and pop_top :: "'s \<Rightarrow> 's"
    and top_val :: "'s \<Rightarrow> 'a option"
    and inv :: "'s \<Rightarrow> bool"
    and room :: "'s \<Rightarrow> bool"
  assumes contents_push: "inv s \<Longrightarrow> room s \<Longrightarrow> contents (push_val a s) = contents s @ [a]"
    and contents_pop: "inv s \<Longrightarrow> 1 < length (contents s) \<Longrightarrow> contents (pop_top s) = butlast (contents s)"
    and top_last: "inv s \<Longrightarrow> top_val s = Some (last (contents s))"
    and contents_ne: "inv s \<Longrightarrow> contents s \<noteq> []"
    and inv_push: "inv s \<Longrightarrow> room s \<Longrightarrow> inv (push_val a s)"
    and inv_pop: "inv s \<Longrightarrow> 1 < length (contents s) \<Longrightarrow> inv (pop_top s)"
begin

lemma top_push: "inv s \<Longrightarrow> room s \<Longrightarrow> top_val (push_val a s) = Some a"
  by (simp add: top_last inv_push contents_push)

lemma pop_push_contents:
  assumes "inv s" "room s"
  shows "contents (pop_top (push_val a s)) = contents s"
  using assms contents_ne [of s] by (simp add: contents_pop inv_push contents_push)

lemma pop_push_inv: "inv s \<Longrightarrow> room s \<Longrightarrow> inv (pop_top (push_val a s))"
  using contents_ne [of s] by (simp add: inv_pop inv_push contents_push)

lemma pop_push_top: "inv s \<Longrightarrow> room s \<Longrightarrow> top_val (pop_top (push_val a s)) = top_val s"
  by (simp add: top_last pop_push_inv pop_push_contents)

text \<open>Two matched pushes and pops, as the hooks of function entry and exit make them.\<close>

lemma pop2_push2_contents:
  assumes "inv s" "room s" "room (push_val a s)"
  shows "contents (pop_top (pop_top (push_val b (push_val a s)))) = contents s"
    and "inv (pop_top (pop_top (push_val b (push_val a s))))"
proof -
  let ?t = "pop_top (push_val b (push_val a s))"
  have inv_t: "inv ?t" using assms by (simp add: pop_push_inv inv_push)
  have cont_t: "contents ?t = contents s @ [a]"
    using assms by (simp add: pop_push_contents inv_push contents_push)
  show "contents (pop_top ?t) = contents s"
    using inv_t cont_t contents_ne [OF assms(1)] by (simp add: contents_pop)
  show "inv (pop_top ?t)"
    using inv_t cont_t contents_ne [OF assms(1)] by (simp add: inv_pop)
qed

end

subsection \<open>Stack\_t keeps its invariant and implements the interface\<close>

lemmas Stack_defs =
  Stack_push_def Stack_set_head_def Stack_push_back_def Stack_pop_def Stack_back_def
  Stack_double_cap_def Stack_halve_cap_def Stack_resize_def Let_def

lemma Stack_new_wf: "Stack_wf (Stack_new d)"
  by (auto simp: Stack_wf_def Stack_new_def Stack_DEFAULT_CAPACITY_def intro: exI [of _ 0])

lemma Stack_contents_new: "Stack_contents (Stack_new d) = [d]"
  by (simp add: Stack_contents_def Stack_new_def Stack_DEFAULT_CAPACITY_def)

lemma Stack_push_contents:
  assumes wf: "Stack_wf s" and room: "Stack_room s"
  shows "Stack_wf (Stack_push d s)"
    and "unat (stk_head (Stack_push d s)) = Suc (unat (stk_head s))"
    and "take (unat (stk_head (Stack_push d s))) (stk_stack (Stack_push d s)) = Stack_contents s"
proof -
  let ?h = "unat (stk_head s)" and ?c = "unat (stk_capacity s)"
  from wf obtain k where len: "length (stk_stack s) = ?c" and h: "?h < ?c"
    and k: "k \<le> 24" "?c = 128 * 2 ^ k"
    by (auto simp: Stack_wf_def)
  have h1: "unat (stk_head s + 1) = Suc ?h" using h by (rule unat_Suc_word)
  have sel: "stk_head s + 1 = stk_capacity s \<longleftrightarrow> Suc ?h = ?c"
    using h1 by (metis word_unat_eq_iff)
  have "Stack_wf (Stack_push d s) \<and> unat (stk_head (Stack_push d s)) = Suc ?h \<and>
    take (Suc ?h) (stk_stack (Stack_push d s)) = Stack_contents s"
  proof (cases "Suc ?h = ?c")
    case False
    then show ?thesis
      using len h h1 k sel by (auto simp: Stack_defs Stack_wf_def Stack_contents_def)
  next
    case True
    have k23: "k < 24"
    proof (rule ccontr)
      assume "\<not> k < 24"
      with k have "?c = 2 ^ 31" by simp
      with True room show False by (simp add: Stack_room_def)
    qed
    then have "(2::nat) ^ k \<le> 2 ^ 23" by (intro power_increasing) auto
    then have c2: "unat (stk_capacity s * 2) = 2 * ?c"
      using k by (simp add: unat_word_ariths)
    have notgt: "\<not> stk_capacity s > stk_capacity s * 2"
      using c2 by (simp add: word_less_nat_alt)
    have "Stack_wf (Stack_push d s)"
      using len h1 sel True c2 notgt k k23
      by (auto simp: Stack_defs Stack_wf_def intro!: exI [of _ "Suc k"])
    moreover have "take (Suc ?h) (stk_stack (Stack_push d s)) = Stack_contents s"
      using len h1 sel True c2 notgt by (simp add: Stack_defs Stack_contents_def)
    moreover have "unat (stk_head (Stack_push d s)) = Suc ?h"
      using h1 sel True by (simp add: Stack_defs)
    ultimately show ?thesis by blast
  qed
  then show "Stack_wf (Stack_push d s)"
    and "unat (stk_head (Stack_push d s)) = Suc ?h"
    and "take (unat (stk_head (Stack_push d s))) (stk_stack (Stack_push d s)) = Stack_contents s"
    by simp_all
qed

lemma Stack_set_head_wf: "Stack_wf s \<Longrightarrow> Stack_wf (Stack_set_head v s)"
  by (auto simp: Stack_wf_def Stack_set_head_def)

lemma Stack_set_head_contents:
  "Stack_wf s \<Longrightarrow> Stack_contents (Stack_set_head v s) = butlast (Stack_contents s) @ [v]"
  by (auto simp: Stack_wf_def Stack_set_head_def Stack_contents_def take_list_update_last
      butlast_take_Suc)

lemma Stack_push_back_contents:
  assumes "Stack_wf s" "Stack_room s"
  shows "Stack_contents (Stack_push_back d v s) = Stack_contents s @ [v]"
proof -
  let ?t = "Stack_push d s"
  have t: "Stack_wf ?t" "take (unat (stk_head ?t)) (stk_stack ?t) = Stack_contents s"
    using Stack_push_contents [OF assms, of d] by auto
  then have "butlast (Stack_contents ?t) = Stack_contents s"
    by (simp add: Stack_contents_def Stack_wf_def butlast_take_Suc)
  with t show ?thesis by (simp add: Stack_push_back_def Stack_set_head_contents)
qed

lemma Stack_pop_wf_contents:
  assumes wf: "Stack_wf s" and ne: "0 < unat (stk_head s)"
  shows "Stack_wf (Stack_pop d s)"
    and "Stack_contents (Stack_pop d s) = butlast (Stack_contents s)"
proof -
  let ?h = "unat (stk_head s)" and ?c = "unat (stk_capacity s)"
  from wf obtain k where len: "length (stk_stack s) = ?c" and h: "?h < ?c"
    and k: "k \<le> 24" "?c = 128 * 2 ^ k"
    by (auto simp: Stack_wf_def)
  have h1: "unat (stk_head s - 1) = ?h - 1" using ne by (rule unat_minus_one_word)
  have d2: "unat (stk_capacity s div 2) = ?c div 2" by (simp add: unat_div)
  have "Stack_wf (Stack_pop d s) \<and> Stack_contents (Stack_pop d s) = take ?h (stk_stack s)"
  proof (cases "stk_capacity s > Stack_DEFAULT_CAPACITY \<and> stk_head s - 1 < stk_capacity s div 2")
    case False
    then show ?thesis
      using len h h1 k ne by (auto simp: Stack_defs Stack_wf_def Stack_contents_def)
  next
    case True
    then have gt: "128 < ?c" and lt: "?h - 1 < ?c div 2"
      using h1 d2 by (simp_all add: Stack_DEFAULT_CAPACITY_def word_less_nat_alt)
    obtain j where j: "k = Suc j" using gt k by (cases k) auto
    have c2: "?c div 2 = 128 * 2 ^ j" using k j by simp
    have sel: "stk_capacity s > stk_capacity s div 2"
      using d2 gt by (simp add: word_less_nat_alt)
    have "Stack_wf (Stack_pop d s)"
      using True sel len h1 d2 lt c2 k j
      by (auto simp: Stack_defs Stack_wf_def intro!: exI [of _ j])
    moreover have "Stack_contents (Stack_pop d s) = take ?h (stk_stack s)"
      using True sel len h1 d2 lt ne by (auto simp: Stack_defs Stack_contents_def min_def)
    ultimately show ?thesis by blast
  qed
  moreover have "butlast (Stack_contents s) = take ?h (stk_stack s)"
    using len h by (simp add: Stack_contents_def butlast_take_Suc)
  ultimately show "Stack_wf (Stack_pop d s)"
    and "Stack_contents (Stack_pop d s) = butlast (Stack_contents s)"
    by simp_all
qed

lemma length_Stack_contents: "Stack_wf s \<Longrightarrow> length (Stack_contents s) = Suc (unat (stk_head s))"
  by (auto simp: Stack_contents_def Stack_wf_def)

lemma Stack_back_last: "Stack_wf s \<Longrightarrow> Stack_back s = Some (last (Stack_contents s))"
  by (auto simp: Stack_wf_def Stack_contents_def Stack_back_def last_take_Suc)

interpretation stk: stack_iface Stack_contents "Stack_push_back d" "Stack_pop d" Stack_back
  Stack_wf Stack_room
  for d
proof unfold_locales
  fix s :: "'a Stack_t" and a :: 'a
  assume wf: "Stack_wf s"
  show "Stack_contents s \<noteq> []" using wf length_Stack_contents [OF wf] by auto
  show "Stack_back s = Some (last (Stack_contents s))" using wf by (rule Stack_back_last)
  show "Stack_wf (Stack_push_back d a s)" if "Stack_room s"
    using wf that by (simp add: Stack_push_back_def Stack_set_head_wf Stack_push_contents)
  show "Stack_contents (Stack_push_back d a s) = Stack_contents s @ [a]" if "Stack_room s"
    using wf that by (rule Stack_push_back_contents)
  assume "1 < length (Stack_contents s)"
  then have "0 < unat (stk_head s)" using length_Stack_contents [OF wf] by simp
  with wf show "Stack_wf (Stack_pop d s)"
    and "Stack_contents (Stack_pop d s) = butlast (Stack_contents s)"
    by (simp_all add: Stack_pop_wf_contents)
qed

lemma Stack_ancestor_nth:
  assumes "Stack_wf s" "unat i \<le> unat (stk_head s)"
  shows "Stack_ancestor i s = Some (rev (Stack_contents s) ! unat i)"
proof -
  let ?h = "unat (stk_head s)"
  have le: "i \<le> stk_head s" using assms(2) by (simp add: word_le_nat_alt)
  have sub: "unat (stk_head s - i) = ?h - unat i" using le by (rule unat_sub)
  have len: "length (stk_stack s) = unat (stk_capacity s)" "?h < unat (stk_capacity s)"
    using assms(1) by (auto simp: Stack_wf_def)
  have "rev (Stack_contents s) ! unat i = Stack_contents s ! (?h - unat i)"
    using assms length_Stack_contents [OF assms(1)] by (simp add: rev_nth)
  also have "\<dots> = stk_stack s ! (?h - unat i)"
    using assms(2) by (simp add: Stack_contents_def)
  finally show ?thesis
    using le sub len by (simp add: Stack_ancestor_def word_less_nat_alt)
qed

lemma Stack_at_nth:
  assumes "Stack_wf s" "unat i \<le> unat (stk_head s)"
  shows "Stack_at i s = Some (Stack_contents s ! unat i)"
  using assms by (auto simp: Stack_at_def Stack_wf_def Stack_contents_def word_le_nat_alt
      word_less_nat_alt)

subsection \<open>Vector\_t\<close>

text \<open>
  The vector keeps its capacity and head as \<open>int64_t\<close>, the head starting at -1.  Reading
  \<open>at\<close> out of range violates its assertion.
\<close>

record 'a Vector_t =
  vec_vector :: "'a list"
  vec_capacity :: int
  vec_head :: int

definition Vector_DEFAULT_CAPACITY :: int where
  "Vector_DEFAULT_CAPACITY = 8"

definition Vector_new :: "'a \<Rightarrow> 'a Vector_t" where
  "Vector_new d = \<lparr>vec_vector = replicate (nat Vector_DEFAULT_CAPACITY) d,
                   vec_capacity = Vector_DEFAULT_CAPACITY, vec_head = - 1\<rparr>"

definition Vector_resize :: "'a \<Rightarrow> int \<Rightarrow> 'a Vector_t \<Rightarrow> 'a Vector_t" where
  "Vector_resize d new_capacity v =
     (let old_vector = vec_vector v;
          copy_end = (if vec_capacity v > new_capacity then new_capacity else vec_capacity v)
      in v\<lparr>vec_vector := take (nat copy_end) old_vector
                          @ replicate (nat new_capacity - nat copy_end) d,
           vec_capacity := new_capacity\<rparr>)"

definition Vector_double_cap :: "'a \<Rightarrow> 'a Vector_t \<Rightarrow> 'a Vector_t" where
  "Vector_double_cap d v = Vector_resize d (vec_capacity v * 2) v"

definition Vector_isEmpty :: "'a Vector_t \<Rightarrow> bool" where
  "Vector_isEmpty v \<longleftrightarrow> vec_head v \<ge> 0"

definition Vector_size :: "'a Vector_t \<Rightarrow> int" where
  "Vector_size v = vec_head v + 1"

definition Vector_clear :: "'a \<Rightarrow> 'a Vector_t \<Rightarrow> 'a Vector_t" where
  "Vector_clear d v = \<lparr>vec_vector = replicate (nat Vector_DEFAULT_CAPACITY) d,
                       vec_capacity = Vector_DEFAULT_CAPACITY, vec_head = - 1\<rparr>"

definition Vector_push_back :: "'a \<Rightarrow> 'a \<Rightarrow> 'a Vector_t \<Rightarrow> 'a Vector_t" where
  "Vector_push_back d x v =
     (let v = v\<lparr>vec_head := vec_head v + 1\<rparr>;
          v = (if vec_head v = vec_capacity v then Vector_double_cap d v else v)
      in v\<lparr>vec_vector := (vec_vector v)[nat (vec_head v) := x]\<rparr>)"

definition Vector_at :: "int \<Rightarrow> 'a Vector_t \<Rightarrow> 'a option" where
  "Vector_at i v =
     (if 0 \<le> i \<and> i \<le> vec_head v \<and> vec_head v < vec_capacity v
      then arr_get (vec_vector v) (nat i) else None)"

text \<open>\<open>begin()\<close> to \<open>end()\<close>: the elements a range-for loop visits.\<close>

definition Vector_elems :: "'a Vector_t \<Rightarrow> 'a list" where
  "Vector_elems v = take (nat (vec_head v + 1)) (vec_vector v)"

definition Vector_wf :: "'a Vector_t \<Rightarrow> bool" where
  "Vector_wf v \<longleftrightarrow> int (length (vec_vector v)) = vec_capacity v \<and> - 1 \<le> vec_head v
     \<and> vec_head v < vec_capacity v \<and> 8 \<le> vec_capacity v"

lemmas Vector_defs = Vector_push_back_def Vector_double_cap_def Vector_resize_def
  Vector_clear_def Vector_new_def Vector_DEFAULT_CAPACITY_def Let_def

lemma Vector_new_elems: "Vector_wf (Vector_new d) \<and> Vector_elems (Vector_new d) = []"
  by (simp add: Vector_wf_def Vector_elems_def Vector_defs)

lemma Vector_clear_elems: "Vector_wf (Vector_clear d v) \<and> Vector_elems (Vector_clear d v) = []"
  by (simp add: Vector_wf_def Vector_elems_def Vector_defs)

lemma Vector_push_back_elems:
  assumes wf: "Vector_wf v"
  shows "Vector_wf (Vector_push_back d x v)"
    and "Vector_elems (Vector_push_back d x v) = Vector_elems v @ [x]"
proof -
  define w where "w = (if vec_head v + 1 = vec_capacity v
    then Vector_double_cap d (v\<lparr>vec_head := vec_head v + 1\<rparr>) else v\<lparr>vec_head := vec_head v + 1\<rparr>)"
  have r: "Vector_push_back d x v = w\<lparr>vec_vector := (vec_vector w)[nat (vec_head w) := x]\<rparr>"
    by (simp add: Vector_push_back_def w_def Let_def)
  have w: "Vector_wf w" "vec_head w = vec_head v + 1"
    "take (nat (vec_head v + 1)) (vec_vector w) = Vector_elems v"
    using wf by (auto simp: w_def Vector_wf_def Vector_elems_def Vector_double_cap_def
        Vector_resize_def Let_def)
  then have n: "nat (vec_head w) < length (vec_vector w)" "nat (vec_head w + 1) = Suc (nat (vec_head w))"
    using wf by (auto simp: Vector_wf_def)
  show "Vector_wf (Vector_push_back d x v)" using w by (simp add: r Vector_wf_def)
  show "Vector_elems (Vector_push_back d x v) = Vector_elems v @ [x]"
    using w n by (simp add: r Vector_elems_def take_list_update_last)
qed

lemma Vector_size_elems: "Vector_wf v \<Longrightarrow> Vector_size v = int (length (Vector_elems v))"
  by (auto simp: Vector_wf_def Vector_elems_def Vector_size_def min_def)

lemma Vector_at_nth:
  "Vector_wf v \<Longrightarrow> Vector_at i v =
     (if 0 \<le> i \<and> i < Vector_size v then Some (Vector_elems v ! nat i) else None)"
  by (auto simp: Vector_wf_def Vector_elems_def Vector_size_def Vector_at_def)

text \<open>\<open>isEmpty\<close> answers the opposite of its comment.\<close>

lemma Vector_isEmpty_elems: "Vector_wf v \<Longrightarrow> Vector_isEmpty v \<longleftrightarrow> Vector_elems v \<noteq> []"
  by (auto simp: Vector_wf_def Vector_elems_def Vector_isEmpty_def)

end
