(* ===== verification/Cilksan.thy ===== *)
theory Cilksan
  imports Reducers Stats ShadowMem AddrMap Containers
begin

text \<open>
  The tool itself, \<open>CilkSanImpl_t\<close> of \<open>cilksan/cilksan_internal.h\<close> and \<open>cilksan.cpp\<close>: its state, the
  handlers of control-flow events (function entry and exit, detach, continuation, loop iterations, sync)
  and of memory events.  The call stack is kept as the list that \<open>CallStack\<close> shows its chain of nodes to
  be, and a node of the disjoint sets stores a copy of it.  Calls of \<open>report_race\<close> append to
  \<open>cs_reports\<close>.  The references that the shadow memory holds to nodes are not counted by the handlers of
  memory events; \<open>ControlFlow\<close> treats them as events of their own.
\<close>

record 'm cilksan =
  cs_frame_id :: u64
  cs_frame_stack :: "FrameData_t Stack_t"
  cs_call_stack :: "CallID_t list"
  cs_sp_stack :: "u64 Stack_t"
  cs_start_new_loop :: bool
  cs_check_atomics :: bool
  cs_lockset_empty :: bool
  cs_lockset :: LockSet_t
  cs_shadow :: Shadow_t
  cs_malloc_sizes :: "u64 AddrMap_t"
  cs_sp :: "CallID_t list sp_state"
  cs_rv :: "'m rv_state"
  cs_stats :: stats_t
  cs_reports :: "Report_t list"
  cs_stack_low :: u64
  cs_stack_high :: u64

subsection \<open>Frames on the stack\<close>

definition cs_ancestor :: "u32 \<Rightarrow> 'm cilksan \<Rightarrow> FrameData_t option" where
  "cs_ancestor i S = Stack_ancestor i (cs_frame_stack S)"

definition cs_put_frame :: "u32 \<Rightarrow> FrameData_t \<Rightarrow> 'm cilksan \<Rightarrow> 'm cilksan" where
  "cs_put_frame i f S =
     S\<lparr>cs_frame_stack := (cs_frame_stack S)\<lparr>stk_stack :=
         (stk_stack (cs_frame_stack S))[unat (stk_head (cs_frame_stack S) - i) := f]\<rparr>\<rparr>"

text \<open>A method of the \<open>i\<close>-th frame from the head, which also works on the bags.\<close>

definition on_frame ::
  "u32 \<Rightarrow> (FrameData_t \<Rightarrow> CallID_t list sp_state \<Rightarrow> (FrameData_t \<times> CallID_t list sp_state) option) \<Rightarrow>
     'm cilksan \<Rightarrow> 'm cilksan option" where
  "on_frame i act S =
     do {
       f \<leftarrow> cs_ancestor i S;
       (f, B) \<leftarrow> act f (cs_sp S);
       Some (cs_put_frame i f (S\<lparr>cs_sp := B\<rparr>))
     }"

definition on_bags ::
  "(CallID_t list sp_state \<Rightarrow> CallID_t list sp_state option) \<Rightarrow> 'm cilksan \<Rightarrow> 'm cilksan option" where
  "on_bags act S = map_option (\<lambda>B. S\<lparr>cs_sp := B\<rparr>) (act (cs_sp S))"

definition on_shadow :: "(Shadow_t \<Rightarrow> Shadow_t option) \<Rightarrow> 'm cilksan \<Rightarrow> 'm cilksan option" where
  "on_shadow act S = map_option (\<lambda>sh. S\<lparr>cs_shadow := sh\<rparr>) (act (cs_shadow S))"

definition record_call_id :: "csi_id_t \<Rightarrow> CallType_t \<Rightarrow> 'm cilksan \<Rightarrow> 'm cilksan" where
  "record_call_id i ty S = S\<lparr>cs_call_stack := CallID_make ty i # cs_call_stack S\<rparr>"

definition record_call_return_id :: "csi_id_t \<Rightarrow> CallType_t \<Rightarrow> 'm cilksan \<Rightarrow> 'm cilksan option" where
  "record_call_return_id i ty S =
     (case cs_call_stack S of
        [] \<Rightarrow> None
      | c # cs \<Rightarrow> if c = CallID_make ty i then Some (S\<lparr>cs_call_stack := cs\<rparr>) else None)"

text \<open>The P-bag \<open>idx\<close> of a frame, created when needed.\<close>

definition ensure_pbag :: "u32 \<Rightarrow> nat \<Rightarrow> 'm cilksan \<Rightarrow> (u64 \<times> 'm cilksan) option" where
  "ensure_pbag i idx S =
     do {
       f \<leftarrow> cs_ancestor i S;
       ps \<leftarrow> Pbags f;
       p \<leftarrow> arr_get ps idx;
       if p = 0
       then do {
         (p, B) \<leftarrow> createNewPBag (cs_sp S);
         S \<leftarrow> on_frame i (set_pbag idx p) (S\<lparr>cs_sp := B\<rparr>);
         Some (p, S)
       }
       else Some (p, S)
     }"

text \<open>The P-bags of a frame, as the loops over \<open>num_Pbags\<close> read them.\<close>

definition frame_pbags :: "FrameData_t \<Rightarrow> u64 list option" where
  "frame_pbags f =
     (case Pbags f of
        None \<Rightarrow> Some []
      | Some ps \<Rightarrow>
          if unat (num_Pbags f) \<le> length ps then Some (take (unat (num_Pbags f)) ps) else None)"

text \<open>The two loops that combine the P-bags of a child into one of its parent: with and without the
  test for a null pointer.\<close>

primrec combine_pbags :: "u64 \<Rightarrow> u64 list \<Rightarrow> 'd sp_state \<Rightarrow> 'd sp_state option" where
  "combine_pbags p [] B = Some B"
| "combine_pbags p (q # qs) B =
     do { B \<leftarrow> (if q \<noteq> 0 then PBag_combine p q B else Some B); combine_pbags p qs B }"

primrec combine_all_pbags :: "u64 \<Rightarrow> u64 list \<Rightarrow> 'd sp_state \<Rightarrow> 'd sp_state option" where
  "combine_all_pbags p [] B = Some B"
| "combine_all_pbags p (q # qs) B = do { B \<leftarrow> PBag_combine p q B; combine_all_pbags p qs B }"

definition merge_bag_from_returning_child :: "bool \<Rightarrow> u32 \<Rightarrow> 'm cilksan \<Rightarrow> 'm cilksan option" where
  "merge_bag_from_returning_child returning_from_detach parent_sync_reg S =
     do {
       parent \<leftarrow> cs_ancestor 1 S;
       child \<leftarrow> cs_ancestor 0 S;
       S \<leftarrow>
         (if Sbag parent = 0 \<or> Sbag child = 0 then None
          else if returning_from_detach
          then do {
            (p, S) \<leftarrow> ensure_pbag 1 (unat parent_sync_reg) S;
            S \<leftarrow> (if Sbag_used child then on_bags (PBag_combine p (Sbag child)) S else Some S);
            qs \<leftarrow> frame_pbags child;
            on_bags (combine_pbags p qs) S
          }
          else do {
            S \<leftarrow> (if Sbag_used child
                   then do {
                     S \<leftarrow> on_bags (SBag_combine (Sbag parent) (Sbag child)) S;
                     parent \<leftarrow> cs_ancestor 1 S;
                     Some (cs_put_frame 1 (parent\<lparr>Sbag_used := True\<rparr>) S)
                   }
                   else Some S);
            qs \<leftarrow> frame_pbags child;
            if list_ex (\<lambda>q. q \<noteq> 0) qs
            then do {
              (p, S) \<leftarrow> ensure_pbag 1 (unat parent_sync_reg) S;
              on_bags (combine_all_pbags p qs) S
            }
            else Some S
          });
       S \<leftarrow> on_frame 0 (set_sbag 0) S;
       on_frame 0 clear_pbag_array S
     }"

definition start_new_function :: "u32 \<Rightarrow> 'm cilksan \<Rightarrow> 'm cilksan option" where
  "start_new_function num_sync_reg S =
     do {
       let S = S\<lparr>cs_frame_id := cs_frame_id S + 1,
                 cs_frame_stack := Stack_push FrameData_default (cs_frame_stack S)\<rparr>;
       parent \<leftarrow> cs_ancestor 1 S;
       child \<leftarrow> cs_ancestor 0 S;
       if Sbag child \<noteq> 0 \<or> Pbags child \<noteq> None \<or> num_Pbags child \<noteq> 0 then None
       else do {
         (child_sbag, B) \<leftarrow> createNewSBag (cs_call_stack S) (cs_sp S);
         S \<leftarrow> on_frame 0 (init_new_function child_sbag) (S\<lparr>cs_sp := B\<rparr>);
         child \<leftarrow> cs_ancestor 0 S;
         let child =
           (if in_continuation parent then set_parent_continuation 1 child
            else if ParentContin parent > 0 then set_parent_continuation (ParentContin parent + 1) child
            else set_parent_continuation 0 child);
         if in_continuation child \<or> reducer_views child \<noteq> 0 then None
         else do {
           let S = cs_put_frame 0 child S;
           if num_sync_reg > 0 then on_frame 0 (make_pbag_array num_sync_reg) S else Some S
         }
       }
     }"

definition exit_function :: "'m cilksan \<Rightarrow> 'm cilksan option" where
  "exit_function S =
     do {
       S \<leftarrow> on_frame 0 frame_reset S;
       Some (S\<lparr>cs_frame_stack := Stack_pop FrameData_default (cs_frame_stack S)\<rparr>)
     }"

definition enter_cilk_function :: "u32 \<Rightarrow> 'm cilksan \<Rightarrow> 'm cilksan option" where
  "enter_cilk_function num_sync_reg S = start_new_function num_sync_reg S"

definition leave_cilk_function :: "u32 \<Rightarrow> 'm cilksan \<Rightarrow> 'm cilksan option" where
  "leave_cilk_function sync_reg S =
     do { S \<leftarrow> merge_bag_from_returning_child False sync_reg S; exit_function S }"

definition return_from_detach :: "u32 \<Rightarrow> 'm cilksan \<Rightarrow> 'm cilksan option" where
  "return_from_detach sync_reg S =
     do {
       f \<leftarrow> cs_ancestor 0 S;
       if \<not> isDetacher (frame_data f) then None
       else do { S \<leftarrow> merge_bag_from_returning_child True sync_reg S; exit_function S }
     }"

definition complete_sync :: "u32 \<Rightarrow> 'm cilksan \<Rightarrow> 'm cilksan option" where
  "complete_sync sync_reg S =
     do {
       f \<leftarrow> cs_ancestor 0 S;
       if \<not> sync_reg < num_Pbags f then None
       else do {
         ps \<leftarrow> Pbags f;
         p \<leftarrow> arr_get ps (unat sync_reg);
         if p \<noteq> 0
         then do {
           S \<leftarrow> on_bags (SBag_combine (Sbag f) p) S;
           let S = cs_put_frame 0 (f\<lparr>Sbag_used := True\<rparr>) S;
           on_frame 0 (set_pbag (unat sync_reg) 0) S
         }
         else Some S
       }
     }"

subsection \<open>Shadow memory and allocations\<close>

definition clear_shadow_memory :: "u64 \<Rightarrow> u64 \<Rightarrow> 'm cilksan \<Rightarrow> 'm cilksan option" where
  "clear_shadow_memory start s S = (if s = 0 then Some S else on_shadow (Shadow_clear start s) S)"

definition clear_alloc :: "u64 \<Rightarrow> u64 \<Rightarrow> 'm cilksan \<Rightarrow> 'm cilksan option" where
  "clear_alloc start s S = (if s = 0 then Some S else on_shadow (Shadow_clear_alloc start s) S)"

text \<open>The values of the bytes of a new page of \<open>malloc_sizes\<close> are not initialised: \<open>g\<close>.\<close>

definition mark_alloc :: "(u64 \<Rightarrow> u64) \<Rightarrow> u64 \<Rightarrow> u64 \<Rightarrow> 'm cilksan \<Rightarrow> 'm cilksan option" where
  "mark_alloc g addr s S =
     do {
       c \<leftarrow> AddrMap_contains (cs_malloc_sizes S) addr;
       M \<leftarrow> (if c then AddrMap_remove addr (cs_malloc_sizes S) else Some (cs_malloc_sizes S));
       M \<leftarrow> AddrMap_insert g addr s M;
       clear_shadow_memory addr s (S\<lparr>cs_malloc_sizes := M\<rparr>)
     }"

definition mark_free :: "u64 \<Rightarrow> 'm cilksan \<Rightarrow> 'm cilksan option" where
  "mark_free ptr S =
     do {
       s \<leftarrow> AddrMap_get (cs_malloc_sizes S) ptr;
       c \<leftarrow> AddrMap_contains (cs_malloc_sizes S) ptr;
       if c
       then do {
         s \<leftarrow> s;
         S \<leftarrow> clear_alloc ptr s S;
         clear_shadow_memory ptr s S
       }
       else Some S
     }"

primrec mark_frees :: "u64 list \<Rightarrow> 'm cilksan \<Rightarrow> 'm cilksan option" where
  "mark_frees [] S = Some S"
| "mark_frees (v # vs) S = do { S \<leftarrow> mark_free v S; mark_frees vs S }"

subsection \<open>Reducer views\<close>

definition reduce_local_views :: "'m user_code \<Rightarrow> 'm cilksan \<Rightarrow> 'm cilksan option" where
  "reduce_local_views U S =
     do {
       f \<leftarrow> cs_ancestor 0 S;
       let t = reducer_views f;
       if t = 0 then Some S
       else do {
         let parent_contin = ParentContin f;
         if parent_contin > 0
         then do {
           a \<leftarrow> cs_ancestor parent_contin S;
           (a, freed, R) \<leftarrow> set_or_merge_reducer_views U t a (cs_rv S);
           S \<leftarrow> mark_frees freed (cs_put_frame parent_contin a (S\<lparr>cs_rv := R\<rparr>));
           Some (cs_put_frame 0 (f\<lparr>reducer_views := 0\<rparr>) S)
         }
         else do {
           (t, freed, R) \<leftarrow> reduce_leftmost U t (cs_rv S);
           S \<leftarrow> mark_frees freed (S\<lparr>cs_rv := R\<rparr>);
           Some (cs_put_frame 0 (f\<lparr>reducer_views := t\<rparr>) S)
         }
       }
     }"

text \<open>Whether the current strand could have been stolen, and the table of views it uses.\<close>

definition stealable :: "'m cilksan \<Rightarrow> bool option" where
  "stealable S = map_option (\<lambda>f. in_continuation f \<or> ParentContin f > 0) (cs_ancestor 0 S)"

definition cs_get_reducer_views :: "'m cilksan \<Rightarrow> u64 option" where
  "cs_get_reducer_views S =
     do {
       f \<leftarrow> cs_ancestor 0 S;
       if in_continuation f then Some (reducer_views f)
       else if ParentContin f = 0 then Some 0
       else map_option reducer_views (cs_ancestor (ParentContin f) S)
     }"

definition cs_get_or_create_reducer_views :: "'m cilksan \<Rightarrow> (u64 \<times> 'm cilksan) option" where
  "cs_get_or_create_reducer_views S =
     do {
       f \<leftarrow> cs_ancestor 0 S;
       i \<leftarrow> (if in_continuation f then Some 0
              else if ParentContin f > 0 then Some (ParentContin f) else None);
       a \<leftarrow> cs_ancestor i S;
       (t, a, R) \<leftarrow> frame_get_or_create_reducer_views a (cs_rv S);
       Some (t, cs_put_frame i a (S\<lparr>cs_rv := R\<rparr>))
     }"

definition create_reducer_view ::
  "'m user_code \<Rightarrow> (u64 \<Rightarrow> u64) \<Rightarrow> u64 \<Rightarrow> u64 \<Rightarrow> u64 \<Rightarrow> u64 \<Rightarrow> u64 \<Rightarrow> 'm cilksan \<Rightarrow> (u64 \<times> 'm cilksan) option" where
  "create_reducer_view U g t key s identity reduce S =
     do {
       let R = cs_rv S;
       let (new_view, m) = uc_malloc U s (rv_mem R);
       S \<leftarrow> mark_alloc g new_view s (S\<lparr>cs_rv := R\<lparr>rv_mem := m\<rparr>\<rparr>);
       let R = cs_rv S;
       let R = R\<lparr>rv_mem := uc_identity U identity new_view (rv_mem R)\<rparr>;
       (success, R) \<leftarrow> rv_insert t key new_view reduce R;
       if success then Some (new_view, S\<lparr>cs_rv := R\<rparr>) else None
     }"

subsection \<open>The function and the version of an access\<close>

text \<open>\<open>getSbagForAccess\<close> of the topmost frame, the function node of that bag and its version.\<close>

definition access_node :: "'m cilksan \<Rightarrow> (u64 \<times> version_t \<times> 'm cilksan) option" where
  "access_node S =
     do {
       f \<leftarrow> cs_ancestor 0 S;
       let (sbag, f) = getSbagForAccess f;
       B \<leftarrow> sp_bags (cs_sp S) sbag;
       Some (bag_ds B, SBag_get_version B, cs_put_frame 0 f S)
     }"

text \<open>\<open>previousAccessInParallel\<close> with the topmost frame.\<close>

definition access_in_parallel :: "MemoryAccess_t \<Rightarrow> 'm cilksan \<Rightarrow> (bool \<times> 'm cilksan) option" where
  "access_in_parallel ma S =
     do {
       f \<leftarrow> cs_ancestor 0 S;
       (par, B) \<leftarrow> previousAccessInParallel ma f (cs_sp S);
       Some (par, S\<lparr>cs_sp := B\<rparr>)
     }"

subsection \<open>Control-flow events\<close>

definition in_loop :: "'m cilksan \<Rightarrow> bool option" where
  "in_loop S = map_option (\<lambda>f. isLoopFrame (frame_data f)) (cs_ancestor 0 S)"

definition handle_loop :: "'m cilksan \<Rightarrow> bool option" where
  "handle_loop S = map_option (\<lambda>l. l \<or> cs_start_new_loop S) (in_loop S)"

definition is_local_synced :: "'m cilksan \<Rightarrow> bool option" where
  "is_local_synced S =
     do {
       f \<leftarrow> cs_ancestor 0 S;
       if isLoopFrame (frame_data f) then Some False
       else map_option (list_all (\<lambda>p. p = 0)) (frame_pbags f)
     }"

definition end_strand :: "'m cilksan \<Rightarrow> 'm cilksan option" where
  "end_strand S =
     on_shadow Shadow_clearOccupied (S\<lparr>cs_stats := update_strand_stats (cs_stats S)\<rparr>)"

definition set_frame_data :: "EntryFrameType \<Rightarrow> 'm cilksan \<Rightarrow> 'm cilksan option" where
  "set_frame_data e S = map_option (\<lambda>f. cs_put_frame 0 (f\<lparr>frame_data := e\<rparr>) S) (cs_ancestor 0 S)"

definition do_enter :: "u32 \<Rightarrow> 'm cilksan \<Rightarrow> 'm cilksan option" where
  "do_enter num_sync_reg S =
     do { S \<leftarrow> enter_cilk_function num_sync_reg S; set_frame_data SPAWNER_SHADOW_FRAME S }"

definition do_enter_helper :: "u32 \<Rightarrow> 'm cilksan \<Rightarrow> 'm cilksan option" where
  "do_enter_helper num_sync_reg S =
     do { S \<leftarrow> enter_cilk_function num_sync_reg S; set_frame_data DETACHER_SHADOW_FRAME S }"

definition do_detach :: "'m cilksan \<Rightarrow> 'm cilksan option" where
  "do_detach S = end_strand S"

definition do_detach_continue :: "'m user_code \<Rightarrow> u32 \<Rightarrow> 'm cilksan \<Rightarrow> 'm cilksan option" where
  "do_detach_continue U sync_reg S =
     do {
       S \<leftarrow> reduce_local_views U S;
       S \<leftarrow> end_strand S;
       f \<leftarrow> cs_ancestor 0 S;
       f \<leftarrow> enter_continuation (unat sync_reg) f;
       Some (cs_put_frame 0 f S)
     }"

definition do_loop_begin :: "'m cilksan \<Rightarrow> 'm cilksan" where
  "do_loop_begin S = S\<lparr>cs_start_new_loop := True\<rparr>"

definition do_loop_iteration_begin :: "u32 \<Rightarrow> 'm cilksan \<Rightarrow> 'm cilksan option" where
  "do_loop_iteration_begin num_sync_reg S =
     (if cs_start_new_loop S
      then do {
        S \<leftarrow> do_enter_helper (if num_sync_reg > 0 then num_sync_reg else 1) S;
        func \<leftarrow> cs_ancestor 0 S;
        S \<leftarrow> set_frame_data (setLoopFrame (frame_data func)) S;
        S \<leftarrow> on_frame 0 create_iterbag S;
        S \<leftarrow> do_detach S;
        Some (S\<lparr>cs_start_new_loop := False\<rparr>)
      }
      else do {
        l \<leftarrow> in_loop S;
        if \<not> l then None
        else do {
          S \<leftarrow> end_strand S;
          f \<leftarrow> cs_ancestor 0 S;
          Some (cs_put_frame 0 (enter_loop_continuation f) S)
        }
      })"

definition do_loop_iteration_end :: "'m user_code \<Rightarrow> 'm cilksan \<Rightarrow> 'm cilksan option" where
  "do_loop_iteration_end U S =
     do {
       S \<leftarrow> reduce_local_views U S;
       S \<leftarrow> end_strand S;
       f \<leftarrow> cs_ancestor 0 S;
       let S = cs_put_frame 0 (exit_loop_continuation f) S;
       l \<leftarrow> in_loop S;
       if \<not> l then None
       else do {
         (my_pbag, S) \<leftarrow> ensure_pbag 0 0 S;
         func \<leftarrow> cs_ancestor 0 S;
         S \<leftarrow> (if Sbag_used func
                then do {
                  S \<leftarrow> on_bags (PBag_combine my_pbag (Sbag func)) S;
                  (b, B) \<leftarrow> createNewSBag (cs_call_stack S) (cs_sp S);
                  on_frame 0 (set_sbag b) (S\<lparr>cs_sp := B\<rparr>)
                }
                else Some S);
         func \<leftarrow> cs_ancestor 0 S;
         (ok, B) \<leftarrow> frame_inc_version func (cs_sp S);
         let S = S\<lparr>cs_sp := B\<rparr>;
         if \<not> ok \<and> Iterbag_used func
         then do {
           S \<leftarrow> on_bags (PBag_combine my_pbag (Iterbag func)) S;
           on_frame 0 create_iterbag S
         }
         else Some S
       }
     }"

definition do_leave :: "u32 \<Rightarrow> 'm cilksan \<Rightarrow> 'm cilksan option" where
  "do_leave sync_reg S =
     do {
       f \<leftarrow> cs_ancestor 0 S;
       if \<not> Stack_size (cs_frame_stack S) > 1 then None
       else if isDetacher (frame_data f) then return_from_detach sync_reg S
       else leave_cilk_function sync_reg S
     }"

definition do_loop_end :: "u32 \<Rightarrow> 'm cilksan \<Rightarrow> 'm cilksan option" where
  "do_loop_end sync_reg S =
     do {
       l \<leftarrow> in_loop S;
       if \<not> l then None
       else do {
         (my_pbag, S) \<leftarrow> ensure_pbag 0 0 S;
         func \<leftarrow> cs_ancestor 0 S;
         S \<leftarrow> (if Iterbag_used func then on_bags (PBag_combine my_pbag (Iterbag func)) S else Some S);
         S \<leftarrow> on_frame 0 (set_iterbag 0) S;
         do_leave sync_reg S
       }
     }"

definition do_sync :: "'m user_code \<Rightarrow> u32 \<Rightarrow> 'm cilksan \<Rightarrow> 'm cilksan option" where
  "do_sync U sync_reg S =
     do {
       S \<leftarrow> end_strand S;
       S \<leftarrow> reduce_local_views U S;
       S \<leftarrow> complete_sync sync_reg S;
       f \<leftarrow> cs_ancestor 0 S;
       f \<leftarrow> exit_continuation (unat sync_reg) f;
       Some (cs_put_frame 0 f S)
     }"

subsection \<open>Initialization\<close>

text \<open>
  The state that \<open>init\<close> sets up: the stack has one frame, with an S-bag.  The addresses \<open>new\<close> that the
  allocators will return, the tables of reducer views \<open>R\<close>, what the array
  of the lock set holds before it is set, the two environment settings and the bounds of the program's
  stack are given.
\<close>

definition cilksan_init ::
  "u64 list \<Rightarrow> 'm rv_state \<Rightarrow> (nat \<Rightarrow> LockID_t) \<Rightarrow> bool \<Rightarrow> bool \<Rightarrow> u64 \<Rightarrow> u64 \<Rightarrow> 'm cilksan option" where
  "cilksan_init new R g stats atomics low high =
     do {
       let S = \<lparr>cs_frame_id = 0, cs_frame_stack = Stack_new FrameData_default, cs_call_stack = [],
                cs_sp_stack = Stack_new 0, cs_start_new_loop = False, cs_check_atomics = atomics,
                cs_lockset_empty = True, cs_lockset = LockSet_new g, cs_shadow = Shadow_new, cs_malloc_sizes = AddrMap_new,
                cs_sp = \<lparr>sp_ds = Map.empty, sp_bags = Map.empty, sp_list = DSList_new, sp_new = new\<rparr>,
                cs_rv = R, cs_stats = stats_init stats, cs_reports = [], cs_stack_low = low, cs_stack_high = high\<rparr>;
       (sbag, B) \<leftarrow> createNewSBag (cs_call_stack S) (cs_sp S);
       on_frame 0 (set_sbag sbag) (S\<lparr>cs_sp := B\<rparr>)
     }"

end
