(* ===== verification/CilksanMem.thy ===== *)
theory CilksanMem
  imports Cilksan
begin

text \<open>
  The handlers of memory events of \<open>CilkSanImpl_t\<close> (\<open>cilksan.cpp\<close>, \<open>cilksan_internal.h\<close>): checks of reads
  and writes on the slow path, the fast path and under locks, allocations and frees, the locks that are
  held, and the part of the program's stack that each frame uses.
\<close>

text \<open>
  The routines of the shadow memory take \<open>previousAccessInParallel\<close> for the topmost frame as a function; it has
  no answer when it fails, and then the routine that asks fails.  Asking compresses paths in the disjoint
  sets and changes nothing else (\<open>previousAccessInParallel_ok\<close>), so that the bags are kept as they are here.
\<close>

definition cs_par :: "'m cilksan \<Rightarrow> query" where
  "cs_par S ma = map_option fst (access_in_parallel ma S)"

definition add_reports :: "Report_t list \<Rightarrow> 'm cilksan \<Rightarrow> 'm cilksan" where
  "add_reports rs S = S\<lparr>cs_reports := cs_reports S @ rs\<rparr>"

subsection \<open>Determinacy races\<close>

definition check_races_and_update_with_read :: "csi_id_t \<Rightarrow> MAType_t \<Rightarrow> u64 \<Rightarrow> u64 \<Rightarrow> 'm cilksan \<Rightarrow> 'm cilksan option" where
  "check_races_and_update_with_read acc_id type addr mem_size S =
     do {
       (ds, version, S) \<leftarrow> access_node S;
       sh \<leftarrow> update_with_read (cs_par S) ds version acc_id type addr mem_size (cs_shadow S);
       rs \<leftarrow> check_race_with_prev_write True (cs_par S) acc_id type addr mem_size sh;
       Some (add_reports rs (S\<lparr>cs_shadow := sh\<rparr>))
     }"

definition check_races_and_update_with_write :: "csi_id_t \<Rightarrow> MAType_t \<Rightarrow> u64 \<Rightarrow> u64 \<Rightarrow> 'm cilksan \<Rightarrow> 'm cilksan option" where
  "check_races_and_update_with_write acc_id type addr mem_size S =
     do {
       (ds, version, S) \<leftarrow> access_node S;
       (sh, ww) \<leftarrow> check_and_update_write (cs_par S) ds version acc_id type addr mem_size (cs_shadow S);
       rr \<leftarrow> check_race_with_prev_read (cs_par S) acc_id type addr mem_size sh;
       Some (add_reports (ww @ rr) (S\<lparr>cs_shadow := sh\<rparr>))
     }"

definition check_races_and_update :: "bool \<Rightarrow> csi_id_t \<Rightarrow> MAType_t \<Rightarrow> u64 \<Rightarrow> u64 \<Rightarrow> 'm cilksan \<Rightarrow> 'm cilksan option" where
  "check_races_and_update is_read acc_id type addr mem_size S =
     do {
       (found, sh) \<leftarrow> Shadow_setOccupied is_read addr mem_size (cs_shadow S);
       let S = S\<lparr>cs_shadow := sh\<rparr>;
       if \<not> found then Some S
       else if is_read then check_races_and_update_with_read acc_id type addr mem_size S
       else check_races_and_update_with_write acc_id type addr mem_size S
     }"

text \<open>The fast paths ask for the bag of the access only where they store it: on the slow path, in an entry
  that is not valid, and over an access in series.\<close>

definition fast_stores :: "query \<Rightarrow> u64 \<Rightarrow> u64 \<Rightarrow> Dict_t \<Rightarrow> bool" where
  "fast_stores par addr mem_size D =
     (case getLineMustExist addr mem_size D of
        None \<Rightarrow> True
      | Some (L, _) \<Rightarrow> grain_differs L mem_size \<or>
          (case Line_at (Line_getIdx (sd_byte addr) L) L of
             None \<Rightarrow> True
           | Some ma \<Rightarrow> in_parallel par ma \<noteq> Some True))"

definition check_races_and_update_fast :: "bool \<Rightarrow> csi_id_t \<Rightarrow> MAType_t \<Rightarrow> u64 \<Rightarrow> u64 \<Rightarrow> 'm cilksan \<Rightarrow> 'm cilksan option" where
  "check_races_and_update_fast is_read acc_id type addr mem_size S =
     do {
       (ds, version, S1) \<leftarrow> access_node S;
       let sh = cs_shadow S;
       let stored = fast_stores (cs_par S) addr mem_size (if is_read then sm_Reads sh else sm_Writes sh);
       (sh, rs) \<leftarrow>
         (if is_read then check_read_fast (cs_par S) ds version acc_id type addr mem_size sh
          else check_write_fast (cs_par S) ds version acc_id type addr mem_size sh);
       Some (add_reports rs ((if stored then S1 else S)\<lparr>cs_shadow := sh\<rparr>))
     }"

text \<open>\<open>record_mem_helper\<close>: an alignment of 0 means that it is not known.\<close>

definition LG_SMALL_ACCESS_SIZE :: nat where "LG_SMALL_ACCESS_SIZE = SD_LG_LINE_SIZE"

definition record_mem_helper ::
  "bool \<Rightarrow> MAType_t \<Rightarrow> csi_id_t \<Rightarrow> u64 \<Rightarrow> u64 \<Rightarrow> u32 \<Rightarrow> 'm cilksan \<Rightarrow> 'm cilksan option" where
  "record_mem_helper is_read type acc_id addr mem_size alignment S =
     (if mem_size = 0 then Some S
      else if alignment \<noteq> 0 \<and> mem_size \<le> ucast alignment \<and> alignment \<le> push_bit LG_SMALL_ACCESS_SIZE 1
      then do {
        (found, sh) \<leftarrow> Shadow_setOccupiedFast is_read addr mem_size (cs_shadow S);
        let S = S\<lparr>cs_shadow := sh\<rparr>;
        if found then check_races_and_update_fast is_read acc_id type addr mem_size S else Some S
      }
      else check_races_and_update is_read acc_id type addr mem_size S)"

subsection \<open>Data races\<close>

text \<open>The set function of the lockers asks for the bag of the access itself.  \<open>g\<close>: what the array of the
  copied lock set holds before it is set.\<close>

definition check_data_races_and_update_with_read ::
  "(nat \<Rightarrow> LockID_t) \<Rightarrow> csi_id_t \<Rightarrow> MAType_t \<Rightarrow> u64 \<Rightarrow> u64 \<Rightarrow> LockSet_t \<Rightarrow> 'm cilksan \<Rightarrow> 'm cilksan option" where
  "check_data_races_and_update_with_read g acc_id type addr mem_size LS S =
     do {
       (ds, version, S) \<leftarrow> access_node S;
       sh \<leftarrow> update_with_read (cs_par S) ds version acc_id type addr mem_size (cs_shadow S);
       sh \<leftarrow> update_lockers_with_read (LockerSetFn g (cs_par S) ds version LS acc_id type) addr mem_size sh;
       rs \<leftarrow> check_data_race_with_prev_write True (cs_par S) LS acc_id type addr mem_size sh;
       Some (add_reports rs (S\<lparr>cs_shadow := sh\<rparr>))
     }"

definition check_data_races_and_update_with_write ::
  "(nat \<Rightarrow> LockID_t) \<Rightarrow> csi_id_t \<Rightarrow> MAType_t \<Rightarrow> u64 \<Rightarrow> u64 \<Rightarrow> LockSet_t \<Rightarrow> 'm cilksan \<Rightarrow> 'm cilksan option" where
  "check_data_races_and_update_with_write g acc_id type addr mem_size LS S =
     do {
       (ds, version, S) \<leftarrow> access_node S;
       (sh, ww) \<leftarrow> check_data_race_and_update_write (cs_par S) LS (LockerSetFn g (cs_par S) ds version LS acc_id type)
         ds version acc_id type addr mem_size (cs_shadow S);
       rr \<leftarrow> check_data_race_with_prev_read (cs_par S) LS acc_id type addr mem_size sh;
       Some (add_reports (ww @ rr) (S\<lparr>cs_shadow := sh\<rparr>))
     }"

definition check_data_races_and_update ::
  "(nat \<Rightarrow> LockID_t) \<Rightarrow> bool \<Rightarrow> csi_id_t \<Rightarrow> MAType_t \<Rightarrow> u64 \<Rightarrow> u64 \<Rightarrow> LockSet_t \<Rightarrow> 'm cilksan \<Rightarrow> 'm cilksan option" where
  "check_data_races_and_update g is_read acc_id type addr mem_size LS S =
     do {
       (found, sh) \<leftarrow> Shadow_setOccupied is_read addr mem_size (cs_shadow S);
       let S = S\<lparr>cs_shadow := sh\<rparr>;
       if \<not> found then Some S
       else if is_read then check_data_races_and_update_with_read g acc_id type addr mem_size LS S
       else check_data_races_and_update_with_write g acc_id type addr mem_size LS S
     }"

definition record_locked_mem_helper ::
  "(nat \<Rightarrow> LockID_t) \<Rightarrow> bool \<Rightarrow> MAType_t \<Rightarrow> csi_id_t \<Rightarrow> u64 \<Rightarrow> u64 \<Rightarrow> u32 \<Rightarrow> 'm cilksan \<Rightarrow> 'm cilksan option" where
  "record_locked_mem_helper g is_read type acc_id addr mem_size alignment S =
     (if mem_size = 0 then Some S
      else check_data_races_and_update g is_read acc_id type addr mem_size (cs_lockset S) S)"

subsection \<open>The stack of the program\<close>

definition cs_is_on_stack :: "u64 \<Rightarrow> 'm cilksan \<Rightarrow> bool" where
  "cs_is_on_stack addr S \<longleftrightarrow> addr \<le> cs_stack_high S \<and> addr \<ge> cs_stack_low S"

definition push_stack_frame :: "u64 \<Rightarrow> u64 \<Rightarrow> 'm cilksan \<Rightarrow> 'm cilksan" where
  "push_stack_frame bp sp S =
     S\<lparr>cs_sp_stack := Stack_push_back 0 sp (Stack_push_back 0 bp (cs_sp_stack S))\<rparr>"

definition advance_stack_frame :: "u64 \<Rightarrow> 'm cilksan \<Rightarrow> 'm cilksan option" where
  "advance_stack_frame addr S =
     map_option (\<lambda>low. if addr < low then S\<lparr>cs_sp_stack := Stack_set_head addr (cs_sp_stack S)\<rparr> else S)
       (Stack_back (cs_sp_stack S))"

definition pop_stack_frame :: "'m cilksan \<Rightarrow> 'm cilksan option" where
  "pop_stack_frame S =
     do {
       low_stack \<leftarrow> Stack_back (cs_sp_stack S);
       let S = S\<lparr>cs_sp_stack := Stack_pop 0 (cs_sp_stack S)\<rparr>;
       high_stack \<leftarrow> Stack_back (cs_sp_stack S);
       let S = S\<lparr>cs_sp_stack := Stack_pop 0 (cs_sp_stack S)\<rparr>;
       if \<not> low_stack \<le> high_stack then None
       else do {
         S \<leftarrow> clear_shadow_memory low_stack (high_stack - low_stack) S;
         clear_alloc low_stack (high_stack - low_stack) S
       }
     }"

subsection \<open>Locks\<close>

definition do_acquire_lock :: "(nat \<Rightarrow> LockID_t) \<Rightarrow> LockID_t \<Rightarrow> 'm cilksan \<Rightarrow> 'm cilksan" where
  "do_acquire_lock g lock_id S =
     S\<lparr>cs_lockset := LockSet_insert g lock_id (cs_lockset S), cs_lockset_empty := False\<rparr>"

definition do_release_lock :: "LockID_t \<Rightarrow> 'm cilksan \<Rightarrow> 'm cilksan option" where
  "do_release_lock lock_id S =
     do {
       (_, LS) \<leftarrow> LockSet_remove lock_id (cs_lockset S);
       Some (S\<lparr>cs_lockset := LS, cs_lockset_empty := LockSet_isEmpty LS\<rparr>)
     }"

definition locks_held :: "'m cilksan \<Rightarrow> bool" where
  "locks_held S \<longleftrightarrow> \<not> cs_lockset_empty S"

subsection \<open>Memory events\<close>

definition record_free ::
  "(nat \<Rightarrow> LockID_t) \<Rightarrow> u64 \<Rightarrow> u64 \<Rightarrow> csi_id_t \<Rightarrow> MAType_t \<Rightarrow> 'm cilksan \<Rightarrow> 'm cilksan option" where
  "record_free g addr mem_size acc_id type S =
     (if mem_size = 0 then Some S
      else if locks_held S then check_data_races_and_update g False acc_id type addr mem_size (cs_lockset S) S
      else check_races_and_update False acc_id type addr mem_size S)"

definition restore_stack :: "(nat \<Rightarrow> LockID_t) \<Rightarrow> csi_id_t \<Rightarrow> u64 \<Rightarrow> 'm cilksan \<Rightarrow> 'm cilksan option" where
  "restore_stack g call_id addr S =
     do {
       current_stack \<leftarrow> Stack_back (cs_sp_stack S);
       if addr > current_stack
       then do {
         S \<leftarrow> record_free g current_stack (addr - current_stack) call_id STACK_FREE S;
         Some (S\<lparr>cs_sp_stack := Stack_set_head addr (cs_sp_stack S)\<rparr>)
       }
       else Some S
     }"

definition collect_stat :: "bool \<Rightarrow> u64 \<Rightarrow> 'm cilksan \<Rightarrow> 'm cilksan" where
  "collect_stat is_read mem_size S =
     (if collect_stats (cs_stats S)
      then S\<lparr>cs_stats := (if is_read then collect_read_stat else collect_write_stat) mem_size (cs_stats S)\<rparr>
      else S)"

text \<open>What \<open>do_read\<close>, \<open>do_write\<close> and their locked versions do before they check the access.\<close>

definition access_prologue :: "bool \<Rightarrow> u64 \<Rightarrow> u64 \<Rightarrow> 'm cilksan \<Rightarrow> 'm cilksan option" where
  "access_prologue is_read addr mem_size S =
     (let S = collect_stat is_read mem_size S
      in if cs_is_on_stack addr S then advance_stack_frame addr S else Some S)"

definition do_read :: "MAType_t \<Rightarrow> csi_id_t \<Rightarrow> u64 \<Rightarrow> u64 \<Rightarrow> u32 \<Rightarrow> 'm cilksan \<Rightarrow> 'm cilksan option" where
  "do_read type load_id addr mem_size alignment S =
     do { S \<leftarrow> access_prologue True addr mem_size S; record_mem_helper True type load_id addr mem_size alignment S }"

definition do_write :: "MAType_t \<Rightarrow> csi_id_t \<Rightarrow> u64 \<Rightarrow> u64 \<Rightarrow> u32 \<Rightarrow> 'm cilksan \<Rightarrow> 'm cilksan option" where
  "do_write type store_id addr mem_size alignment S =
     do { S \<leftarrow> access_prologue False addr mem_size S; record_mem_helper False type store_id addr mem_size alignment S }"

definition do_locked_read ::
  "(nat \<Rightarrow> LockID_t) \<Rightarrow> MAType_t \<Rightarrow> csi_id_t \<Rightarrow> u64 \<Rightarrow> u64 \<Rightarrow> u32 \<Rightarrow> 'm cilksan \<Rightarrow> 'm cilksan option" where
  "do_locked_read g type load_id addr mem_size alignment S =
     do { S \<leftarrow> access_prologue True addr mem_size S; record_locked_mem_helper g True type load_id addr mem_size alignment S }"

definition do_locked_write ::
  "(nat \<Rightarrow> LockID_t) \<Rightarrow> MAType_t \<Rightarrow> csi_id_t \<Rightarrow> u64 \<Rightarrow> u64 \<Rightarrow> u32 \<Rightarrow> 'm cilksan \<Rightarrow> 'm cilksan option" where
  "do_locked_write g type store_id addr mem_size alignment S =
     do { S \<leftarrow> access_prologue False addr mem_size S; record_locked_mem_helper g False type store_id addr mem_size alignment S }"

text \<open>An atomic operation holds a lock of its own while it is checked; \<open>lockset_empty\<close> is not touched.\<close>

definition do_atomic_read ::
  "(nat \<Rightarrow> LockID_t) \<Rightarrow> csi_id_t \<Rightarrow> u64 \<Rightarrow> u64 \<Rightarrow> u32 \<Rightarrow> LockID_t \<Rightarrow> 'm cilksan \<Rightarrow> 'm cilksan option" where
  "do_atomic_read g load_id addr len alignment atomic_lock_id S =
     (if cs_check_atomics S
      then do {
        S \<leftarrow> do_locked_read g RW load_id addr len alignment (S\<lparr>cs_lockset := LockSet_insert g atomic_lock_id (cs_lockset S)\<rparr>);
        (_, LS) \<leftarrow> LockSet_remove atomic_lock_id (cs_lockset S);
        Some (S\<lparr>cs_lockset := LS\<rparr>)
      }
      else do_read RW load_id addr len alignment S)"

definition do_atomic_write ::
  "(nat \<Rightarrow> LockID_t) \<Rightarrow> csi_id_t \<Rightarrow> u64 \<Rightarrow> u64 \<Rightarrow> u32 \<Rightarrow> LockID_t \<Rightarrow> 'm cilksan \<Rightarrow> 'm cilksan option" where
  "do_atomic_write g store_id addr len alignment atomic_lock_id S =
     (if cs_check_atomics S
      then do {
        S \<leftarrow> do_locked_write g RW store_id addr len alignment (S\<lparr>cs_lockset := LockSet_insert g atomic_lock_id (cs_lockset S)\<rparr>);
        (_, LS) \<leftarrow> LockSet_remove atomic_lock_id (cs_lockset S);
        Some (S\<lparr>cs_lockset := LS\<rparr>)
      }
      else do_write RW store_id addr len alignment S)"

definition record_alloc :: "u64 \<Rightarrow> u64 \<Rightarrow> csi_id_t \<Rightarrow> 'm cilksan \<Rightarrow> 'm cilksan option" where
  "record_alloc start s alloca_id S =
     (if s = 0 then Some S
      else do {
        (ds, version, S) \<leftarrow> access_node S;
        on_shadow (Shadow_record_alloc ds version start s alloca_id) S
      })"

subsection \<open>The end of the program\<close>

text \<open>The loops of \<open>deinit\<close> that return from the functions still on the stack, syncing all regions first;
  what they print is left out.  The number of frames is the fuel: every round pops one.\<close>

fun sync_all :: "'m user_code \<Rightarrow> nat list \<Rightarrow> 'm cilksan \<Rightarrow> 'm cilksan option" where
  "sync_all U [] S = Some S"
| "sync_all U (r # rs) S = do { S \<leftarrow> do_sync U (of_nat r) S; sync_all U rs S }"

fun leave_all :: "'m user_code \<Rightarrow> nat \<Rightarrow> 'm cilksan \<Rightarrow> 'm cilksan option" where
  "leave_all U n S =
     (if \<not> Stack_size (cs_frame_stack S) > 1 then Some S
      else case n of
        0 \<Rightarrow> None
      | Suc n \<Rightarrow>
          do {
            f \<leftarrow> cs_ancestor 0 S;
            S \<leftarrow> (case Pbags f of Some _ \<Rightarrow> sync_all U [0..<unat (num_Pbags f)] S | None \<Rightarrow> Some S);
            S \<leftarrow> do_leave 0 S;
            leave_all U n S
          })"

text \<open>Then the shadow memory is deleted and the last frame is reset and popped.\<close>

definition deinit :: "'m user_code \<Rightarrow> 'm cilksan \<Rightarrow> 'm cilksan option" where
  "deinit U S =
     do {
       S \<leftarrow> leave_all U (unat (Stack_size (cs_frame_stack S))) S;
       S \<leftarrow> on_frame 0 frame_reset S;
       Some (S\<lparr>cs_frame_stack := Stack_pop FrameData_default (cs_frame_stack S), cs_shadow := Shadow_new\<rparr>)
     }"

end
