(* ===== verification/Driver.thy ===== *)
theory Driver
  imports CilksanMem
begin

text \<open>
  The hooks that the compiler inserts into the program for Cilksan (\<open>cilksan/driver.cpp\<close>, \<open>driver.h\<close>,
  \<open>checking.h\<close>): the global state of the driver around the tool, the hooks of control flow, of loads and
  stores and of memory allocation.  The record \<open>hook_env\<close> holds what a hook takes from outside its
  arguments: the return address, the time of the replay debugger, the environment variables, and the
  values that fresh memory holds.
\<close>

subsection \<open>The state of the driver\<close>

type_synonym MAAP_t = u8

definition MAAP_NoAccess :: MAAP_t where "MAAP_NoAccess = 0"
definition MAAP_Mod :: MAAP_t where "MAAP_Mod = 1"
definition MAAP_Ref :: MAAP_t where "MAAP_Ref = 2"
definition MAAP_ModRef :: MAAP_t where "MAAP_ModRef = MAAP_Mod OR MAAP_Ref"
definition MAAP_NoAlias :: MAAP_t where "MAAP_NoAlias = 4"

definition checkMAAP :: "MAAP_t \<Rightarrow> MAAP_t \<Rightarrow> bool" where
  "checkMAAP val flag \<longleftrightarrow> val AND flag \<noteq> 0"

text \<open>The tables from CSI ids to program counters; the length of a table is its \<open>total\<close> of ids.\<close>

record pc_tables =
  call_pc :: "u64 list"
  spawn_pc :: "u64 list"
  loop_pc :: "u64 list"
  load_pc :: "u64 list"
  store_pc :: "u64 list"
  alloca_pc :: "u64 list"
  allocfn_pc :: "u64 list"
  allocfn_prop :: "u8 list"
  free_pc :: "u64 list"

record 'm driver =
  dr_cs :: "'m cilksan"
  CILKSAN_INITIALIZED :: bool
  instrumentation :: bool
  checking_disabled :: int
  first_call :: bool
  is_running_under_rr :: bool
  parallel_execution :: "u8 Stack_t"
  spbags_frame_skipped :: "bool Stack_t"
  uncilkified_low :: u64
  uncilkified_high :: u64
  switched_stack :: "u8 Stack_t"
  MAAPs :: "(csi_id_t \<times> MAAP_t) Stack_t"
  MAAP_counts :: "u32 Stack_t"
  pcs :: pc_tables

record hook_env =
  he_pc :: u64
  he_rr_time :: csi_id_t
  he_stats_var :: "string option"
  he_atomics_var :: "string option"
  he_locks :: "nat \<Rightarrow> LockID_t"
  he_sizes :: "u64 \<Rightarrow> u64"

definition DEFAULT_STACK_SIZE :: u64 where "DEFAULT_STACK_SIZE = push_bit 21 1"
definition atomic_lock_id :: LockID_t where "atomic_lock_id = 0"

definition on_tool :: "('m cilksan \<Rightarrow> 'm cilksan option) \<Rightarrow> 'm driver \<Rightarrow> 'm driver option" where
  "on_tool act H = map_option (\<lambda>S. H\<lparr>dr_cs := S\<rparr>) (act (dr_cs H))"

text \<open>The program counter of an id is recorded at its first use.\<close>

definition record_pc :: "csi_id_t \<Rightarrow> u64 \<Rightarrow> u64 list \<Rightarrow> u64 list option" where
  "record_pc i pc table =
     map_option (\<lambda>old. if old = 0 then table[unat i := pc] else table) (arr_get table (unat i))"

subsection \<open>Enabling and disabling checks\<close>

definition enable_instrumentation :: "'m driver \<Rightarrow> 'm driver" where
  "enable_instrumentation H = H\<lparr>instrumentation := True\<rparr>"

definition disable_instrumentation :: "'m driver \<Rightarrow> 'm driver" where
  "disable_instrumentation H = H\<lparr>instrumentation := False\<rparr>"

definition should_check :: "'m driver \<Rightarrow> bool" where
  "should_check H \<longleftrightarrow> instrumentation H \<and> checking_disabled H = 0"

definition enable_checking :: "'m driver \<Rightarrow> 'm driver option" where
  "enable_checking H =
     (let H = H\<lparr>checking_disabled := checking_disabled H - 1\<rparr>
      in if checking_disabled H \<ge> 0 then Some H else None)"

definition disable_checking :: "'m driver \<Rightarrow> 'm driver option" where
  "disable_checking H =
     (if checking_disabled H \<ge> 0 then Some (H\<lparr>checking_disabled := checking_disabled H + 1\<rparr>) else None)"

definition cilksan_enable_checking :: "'m driver \<Rightarrow> 'm driver option" where
  "cilksan_enable_checking H =
     (let H = H\<lparr>checking_disabled := checking_disabled H - 1\<rparr>
      in if checking_disabled H \<ge> 0 then Some H else None)"

definition cilksan_disable_checking :: "'m driver \<Rightarrow> 'm driver option" where
  "cilksan_disable_checking H =
     (if checking_disabled H \<ge> 0 then Some (H\<lparr>checking_disabled := checking_disabled H + 1\<rparr>) else None)"

definition cilksan_is_checking_enabled :: "'m driver \<Rightarrow> bool" where
  "cilksan_is_checking_enabled H \<longleftrightarrow> checking_disabled H = 0"

definition cilksan_should_check :: "'m driver \<Rightarrow> bool" where
  "cilksan_should_check H \<longleftrightarrow> CILKSAN_INITIALIZED H \<and> should_check H"

definition is_execution_parallel :: "'m driver \<Rightarrow> bool option" where
  "is_execution_parallel H = map_option (\<lambda>p. p \<noteq> 0) (Stack_back (parallel_execution H))"

text \<open>The hook \<open>act\<close> of a library call: nothing happens unless the tool is initialized and checks are on;
  then the program counter of the call is recorded.\<close>

definition START_HOOK ::
  "hook_env \<Rightarrow> csi_id_t \<Rightarrow> ('m driver \<Rightarrow> 'm driver option) \<Rightarrow> 'm driver \<Rightarrow> 'm driver option" where
  "START_HOOK env call_id act H =
     (if \<not> CILKSAN_INITIALIZED H \<or> \<not> should_check H then Some H
      else do { t \<leftarrow> record_pc call_id (he_pc env) (call_pc (pcs H)); act (H\<lparr>pcs := (pcs H)\<lparr>call_pc := t\<rparr>\<rparr>) })"

subsection \<open>Pointer arguments of calls\<close>

definition csan_set_MAAP :: "MAAP_t \<Rightarrow> csi_id_t \<Rightarrow> 'm driver \<Rightarrow> 'm driver" where
  "csan_set_MAAP val i H =
     (if \<not> should_check H then H else H\<lparr>MAAPs := Stack_push_back (0, 0) (i, val) (MAAPs H)\<rparr>)"

definition csan_get_MAAP :: "csi_id_t \<Rightarrow> u32 \<Rightarrow> 'm driver \<Rightarrow> MAAP_t option" where
  "csan_get_MAAP i idx H =
     (if \<not> should_check H then Some MAAP_NoAccess
      else do {
        MAAP_count \<leftarrow> Stack_back (MAAP_counts H);
        if idx \<ge> MAAP_count then Some MAAP_ModRef
        else do {
          MAAP \<leftarrow> Stack_ancestor idx (MAAPs H);
          if fst MAAP = i then Some (snd MAAP) else Some MAAP_ModRef
        }
      })"

primrec pop_MAAPs :: "nat \<Rightarrow> 'm driver \<Rightarrow> 'm driver" where
  "pop_MAAPs 0 H = H"
| "pop_MAAPs (Suc n) H = pop_MAAPs n (H\<lparr>MAAPs := Stack_pop (0, 0) (MAAPs H)\<rparr>)"

text \<open>A hook with pointer arguments takes them off one by one, as far as the caller has set them.\<close>

definition take_MAAP :: "u32 \<Rightarrow> 'm driver \<Rightarrow> (MAAP_t \<times> 'm driver) option" where
  "take_MAAP MAAP_count H =
     (if MAAP_count > 0
      then do {
        m \<leftarrow> Stack_back (MAAPs H);
        Some (snd m, H\<lparr>MAAPs := Stack_pop (0, 0) (MAAPs H)\<rparr>)
      }
      else Some (MAAP_ModRef, H))"

text \<open>The checks of a call that reads or writes \<open>len\<close> bytes at \<open>ptr\<close>.\<close>

definition check_read_bytes ::
  "hook_env \<Rightarrow> csi_id_t \<Rightarrow> MAAP_t \<Rightarrow> u64 \<Rightarrow> u64 \<Rightarrow> 'm driver \<Rightarrow> 'm driver option" where
  "check_read_bytes env call_id MAAPVal ptr len H =
     (if checkMAAP MAAPVal MAAP_Mod
      then if locks_held (dr_cs H)
        then on_tool (do_locked_read (he_locks env) FNRW call_id ptr len 0) H
        else on_tool (do_read FNRW call_id ptr len 0) H
      else Some H)"

definition check_write_bytes ::
  "hook_env \<Rightarrow> csi_id_t \<Rightarrow> MAAP_t \<Rightarrow> u64 \<Rightarrow> u64 \<Rightarrow> 'm driver \<Rightarrow> 'm driver option" where
  "check_write_bytes env call_id MAAPVal ptr len H =
     (if checkMAAP MAAPVal MAAP_Ref
      then if locks_held (dr_cs H)
        then on_tool (do_locked_write (he_locks env) FNRW call_id ptr len 0) H
        else on_tool (do_write FNRW call_id ptr len 0) H
      else Some H)"

subsection \<open>Initialization\<close>

text \<open>\<open>init\<close> of the tool, called at the entry of the first function; the environment variables may turn
  statistics and the checks of atomic operations on or off.\<close>

definition CilkSanImpl_init :: "string option \<Rightarrow> string option \<Rightarrow> 'm cilksan \<Rightarrow> 'm cilksan option" where
  "CilkSanImpl_init stats_var atomics_var S =
     do {
       let S = (case stats_var of
           Some e \<Rightarrow> if e \<noteq> ''0'' then S\<lparr>cs_stats := (cs_stats S)\<lparr>collect_stats := True\<rparr>\<rparr> else S
         | None \<Rightarrow> S);
       let S = (case atomics_var of Some e \<Rightarrow> S\<lparr>cs_check_atomics := (e \<noteq> ''0'')\<rparr> | None \<Rightarrow> S);
       if Stack_size (cs_frame_stack S) \<noteq> 1 then None
       else do {
         let S = S\<lparr>cs_shadow := Shadow_new\<rparr>;
         (sbag, B) \<leftarrow> createNewSBag (cs_call_stack S) (cs_sp S);
         on_frame 0 (set_sbag sbag) (S\<lparr>cs_sp := B\<rparr>)
       }
     }"

text \<open>The tool and the driver when the program starts.  Given are the addresses that the allocators will
  return, the tables of reducer views, what the array of the lock set holds, and the bounds of the stack.\<close>

definition cilksan_new :: "u64 list \<Rightarrow> 'm rv_state \<Rightarrow> (nat \<Rightarrow> LockID_t) \<Rightarrow> u64 \<Rightarrow> u64 \<Rightarrow> 'm cilksan" where
  "cilksan_new new R g low high =
     \<lparr>cs_frame_id = 0, cs_frame_stack = Stack_new FrameData_default, cs_call_stack = [],
      cs_sp_stack = Stack_new 0, cs_start_new_loop = False, cs_check_atomics = True,
      cs_lockset_empty = True, cs_lockset = LockSet_new g, cs_shadow = Shadow_new, cs_malloc_sizes = AddrMap_new,
      cs_sp = \<lparr>sp_ds = Map.empty, sp_bags = Map.empty, sp_list = DSList_new, sp_new = new\<rparr>,
      cs_rv = R, cs_stats = stats_init False, cs_reports = [], cs_stack_low = low, cs_stack_high = high\<rparr>"

definition driver_new :: "'m cilksan \<Rightarrow> 'm driver" where
  "driver_new S =
     \<lparr>dr_cs = S, CILKSAN_INITIALIZED = True, instrumentation = False, checking_disabled = 0, first_call = True,
      is_running_under_rr = False, parallel_execution = Stack_new 0, spbags_frame_skipped = Stack_new False,
      uncilkified_low = -1, uncilkified_high = 0, switched_stack = Stack_new 0, MAAPs = Stack_new (0, 0),
      MAAP_counts = Stack_new 0,
      pcs = \<lparr>call_pc = [], spawn_pc = [], loop_pc = [], load_pc = [], store_pc = [], alloca_pc = [],
             allocfn_pc = [], allocfn_prop = [], free_pc = []\<rparr>\<rparr>"

record instrumentation_counts_t =
  num_call :: csi_id_t
  num_detach :: csi_id_t
  num_loop :: csi_id_t
  num_load :: csi_id_t
  num_store :: csi_id_t
  num_alloca :: csi_id_t
  num_allocfn :: csi_id_t
  num_free :: csi_id_t

text \<open>A table grows by \<open>extra_cap\<close> zero entries; \<open>realloc\<close> to a negative size is an error.\<close>

definition grow_table :: "'a \<Rightarrow> csi_id_t \<Rightarrow> 'a list \<Rightarrow> 'a list option" where
  "grow_table d extra_cap table =
     (let new_cap = sint (of_nat (length table) + extra_cap)
      in if new_cap < 0 then None
         else Some (take (nat new_cap) table @ replicate (nat new_cap - length table) d))"

definition grow_pc_table :: "csi_id_t \<Rightarrow> u64 list \<Rightarrow> u64 list option" where
  "grow_pc_table extra_cap table = (if extra_cap \<noteq> 0 then grow_table 0 extra_cap table else Some table)"

definition csan_unit_init :: "instrumentation_counts_t \<Rightarrow> 'm driver \<Rightarrow> 'm driver option" where
  "csan_unit_init counts H =
     do {
       let T = pcs H;
       call \<leftarrow> grow_pc_table (num_call counts) (call_pc T);
       spawn \<leftarrow> grow_pc_table (num_detach counts) (spawn_pc T);
       loop \<leftarrow> grow_pc_table (num_loop counts) (loop_pc T);
       load \<leftarrow> grow_pc_table (num_load counts) (load_pc T);
       store \<leftarrow> grow_pc_table (num_store counts) (store_pc T);
       alloca \<leftarrow> grow_pc_table (num_alloca counts) (alloca_pc T);
       props \<leftarrow> (if num_allocfn counts \<noteq> 0 then grow_table (-1) (num_allocfn counts) (allocfn_prop T)
                   else Some (allocfn_prop T));
       allocfn \<leftarrow> grow_pc_table (num_allocfn counts) (allocfn_pc T);
       fr \<leftarrow> grow_pc_table (num_free counts) (free_pc T);
       Some (H\<lparr>pcs := \<lparr>call_pc = call, spawn_pc = spawn, loop_pc = loop, load_pc = load, store_pc = store,
                  alloca_pc = alloca, allocfn_pc = allocfn, allocfn_prop = props, free_pc = fr\<rparr>\<rparr>)
     }"

subsection \<open>Control flow\<close>

record func_prop_t =
  fp_num_sync_reg :: u8
  fp_may_spawn :: bool

record task_prop_t =
  tp_is_tapir_loop_body :: bool
  tp_num_sync_reg :: u8

record detach_continue_prop_t =
  dp_is_unwind :: bool
  dp_for_tapir_loop_body :: bool

text \<open>Entering a stack of its own: the bounds of the previous one are kept.\<close>

definition handle_stack_switch :: "u64 \<Rightarrow> u64 \<Rightarrow> 'm driver \<Rightarrow> 'm driver" where
  "handle_stack_switch bp sp H =
     (let S = dr_cs H
      in H\<lparr>uncilkified_high := cs_stack_high S, uncilkified_low := cs_stack_low S,
           dr_cs := S\<lparr>cs_stack_high := (if bp - sp > DEFAULT_STACK_SIZE then sp else bp), cs_stack_low := sp\<rparr>\<rparr>)"

definition push_switched :: "u8 \<Rightarrow> 'm driver \<Rightarrow> 'm driver" where
  "push_switched b H = H\<lparr>switched_stack := Stack_push_back 0 b (switched_stack H)\<rparr>"

definition func_stack :: "u64 \<Rightarrow> u64 \<Rightarrow> 'm driver \<Rightarrow> u64 \<times> 'm driver" where
  "func_stack bp sp H =
     (let low = cs_stack_low (dr_cs H); S = dr_cs H
      in if bp - sp > DEFAULT_STACK_SIZE \<or> (low > sp \<and> low - sp > DEFAULT_STACK_SIZE)
         then (if bp - sp > DEFAULT_STACK_SIZE then sp else bp, push_switched 1 (handle_stack_switch bp sp H))
         else let S = (if cs_stack_high S < bp then S\<lparr>cs_stack_high := bp\<rparr> else S);
                  S = (if cs_stack_low S > sp then S\<lparr>cs_stack_low := sp\<rparr> else S)
              in (bp, push_switched 0 (H\<lparr>dr_cs := S\<rparr>)))"

definition task_stack :: "u64 \<Rightarrow> u64 \<Rightarrow> 'm driver \<Rightarrow> u64 \<times> 'm driver" where
  "task_stack bp sp H =
     (let low = cs_stack_low (dr_cs H)
      in if low > sp
         then if low - sp > DEFAULT_STACK_SIZE
              then (if bp - sp > DEFAULT_STACK_SIZE then sp else bp, push_switched 1 (handle_stack_switch bp sp H))
              else (bp, push_switched 0 (H\<lparr>dr_cs := (dr_cs H)\<lparr>cs_stack_low := sp\<rparr>\<rparr>))
         else (bp, push_switched 0 H))"

definition leave_stack :: "'m driver \<Rightarrow> 'm driver option" where
  "leave_stack H =
     do {
       switched \<leftarrow> Stack_back (switched_stack H);
       let H = (if switched \<noteq> 0
                then H\<lparr>dr_cs := (dr_cs H)\<lparr>cs_stack_high := uncilkified_high H, cs_stack_low := uncilkified_low H\<rparr>\<rparr>
                else H);
       Some (H\<lparr>switched_stack := Stack_pop 0 (switched_stack H)\<rparr>)
     }"

text \<open>The parallel-execution state of a callee: a copy to return to at a sync, and one that detaches update.\<close>

definition push_pe :: "'m driver \<Rightarrow> 'm driver option" where
  "push_pe H =
     do {
       current_pe \<leftarrow> Stack_back (parallel_execution H);
       let H = H\<lparr>parallel_execution := Stack_push_back 0 current_pe (parallel_execution H)\<rparr>;
       Some (H\<lparr>parallel_execution := Stack_push_back 0 current_pe (parallel_execution H)\<rparr>)
     }"

definition pop_pe :: "'m driver \<Rightarrow> 'm driver" where
  "pop_pe H =
     (let H = H\<lparr>parallel_execution := Stack_pop 0 (parallel_execution H)\<rparr>
      in H\<lparr>parallel_execution := Stack_pop 0 (parallel_execution H)\<rparr>)"

definition start_tool :: "hook_env \<Rightarrow> 'm driver \<Rightarrow> 'm driver option" where
  "start_tool env H =
     (if first_call H
      then do {
        H \<leftarrow> on_tool (CilkSanImpl_init (he_stats_var env) (he_atomics_var env)) (H\<lparr>first_call := False\<rparr>);
        let H = enable_instrumentation H;
        let H = H\<lparr>parallel_execution := Stack_push_back 0 0 (parallel_execution H)\<rparr>;
        Some (H\<lparr>MAAP_counts := Stack_push_back 0 0 (MAAP_counts H)\<rparr>)
      }
      else Some H)"

definition csan_func_entry :: "hook_env \<Rightarrow> csi_id_t \<Rightarrow> u64 \<Rightarrow> u64 \<Rightarrow> func_prop_t \<Rightarrow> 'm driver \<Rightarrow> 'm driver option" where
  "csan_func_entry env func_id bp sp prop H =
     (if \<not> CILKSAN_INITIALIZED H then Some H
      else do {
        H \<leftarrow> start_tool env H;
        if \<not> should_check H then Some H
        else do {
          let (bp, H) = func_stack bp sp H;
          H \<leftarrow> push_pe H;
          let H = H\<lparr>dr_cs := push_stack_frame bp sp (dr_cs H)\<rparr>;
          skip \<leftarrow> (if fp_may_spawn prop then Some False else is_local_synced (dr_cs H));
          let H = H\<lparr>spbags_frame_skipped := Stack_push_back False skip (spbags_frame_skipped H)\<rparr>;
          if skip then Some (enable_instrumentation H)
          else do {
            H \<leftarrow> on_tool (do_enter (ucast (fp_num_sync_reg prop))) H;
            Some (enable_instrumentation H)
          }
        }
      })"

definition csan_func_exit :: "csi_id_t \<Rightarrow> csi_id_t \<Rightarrow> 'm driver \<Rightarrow> 'm driver option" where
  "csan_func_exit func_exit_id func_id H =
     (if \<not> CILKSAN_INITIALIZED H then Some H
      else if \<not> should_check H then Some H
      else do {
        skipped \<leftarrow> Stack_back (spbags_frame_skipped H);
        H \<leftarrow> (if \<not> skipped then on_tool (do_leave 0) H else Some H);
        let H = H\<lparr>spbags_frame_skipped := Stack_pop False (spbags_frame_skipped H)\<rparr>;
        let H = pop_pe H;
        H \<leftarrow> on_tool pop_stack_frame H;
        leave_stack H
      })"

definition csan_before_loop :: "hook_env \<Rightarrow> csi_id_t \<Rightarrow> bool \<Rightarrow> 'm driver \<Rightarrow> 'm driver option" where
  "csan_before_loop env loop_id is_tapir_loop H =
     (if \<not> is_tapir_loop then Some H
      else if \<not> should_check H then Some H
      else do {
        t \<leftarrow> record_pc loop_id (he_pc env) (loop_pc (pcs H));
        let H = H\<lparr>pcs := (pcs H)\<lparr>loop_pc := t\<rparr>\<rparr>;
        let H = H\<lparr>dr_cs := record_call_id loop_id LOOP (dr_cs H)\<rparr>;
        H \<leftarrow> push_pe H;
        Some (H\<lparr>dr_cs := do_loop_begin (dr_cs H)\<rparr>)
      })"

definition csan_after_loop :: "csi_id_t \<Rightarrow> u32 \<Rightarrow> bool \<Rightarrow> 'm driver \<Rightarrow> 'm driver option" where
  "csan_after_loop loop_id sync_reg is_tapir_loop H =
     (if \<not> is_tapir_loop then Some H
      else if \<not> should_check H then Some H
      else do {
        H \<leftarrow> on_tool (do_loop_end sync_reg) H;
        let H = pop_pe H;
        on_tool (record_call_return_id loop_id LOOP) H
      })"

definition csan_before_call :: "hook_env \<Rightarrow> csi_id_t \<Rightarrow> csi_id_t \<Rightarrow> u32 \<Rightarrow> 'm driver \<Rightarrow> 'm driver option" where
  "csan_before_call env call_id func_id MAAP_count H =
     (if \<not> should_check H then Some H
      else do {
        t \<leftarrow> record_pc call_id (he_pc env) (call_pc (pcs H));
        let H = H\<lparr>pcs := (pcs H)\<lparr>call_pc := t\<rparr>\<rparr>;
        let H = H\<lparr>MAAP_counts := Stack_push_back 0 MAAP_count (MAAP_counts H)\<rparr>;
        Some (H\<lparr>dr_cs := record_call_id call_id CALL (dr_cs H)\<rparr>)
      })"

definition csan_after_call :: "csi_id_t \<Rightarrow> csi_id_t \<Rightarrow> u32 \<Rightarrow> 'm driver \<Rightarrow> 'm driver option" where
  "csan_after_call call_id func_id MAAP_count H =
     (if \<not> should_check H then Some H
      else do {
        count \<leftarrow> Stack_back (MAAP_counts H);
        if MAAP_count \<noteq> count then None
        else do {
          let H = pop_MAAPs (unat MAAP_count) H;
          let H = H\<lparr>MAAP_counts := Stack_pop 0 (MAAP_counts H)\<rparr>;
          on_tool (record_call_return_id call_id CALL) H
        }
      })"

text \<open>\<open>parallel_execution.back()\<close> as a reference.\<close>

definition set_pe :: "u8 \<Rightarrow> 'm driver \<Rightarrow> 'm driver" where
  "set_pe p H = H\<lparr>parallel_execution := Stack_set_head p (parallel_execution H)\<rparr>"

definition csan_detach :: "hook_env \<Rightarrow> csi_id_t \<Rightarrow> u32 \<Rightarrow> bool \<Rightarrow> 'm driver \<Rightarrow> 'm driver option" where
  "csan_detach env detach_id sync_reg for_tapir_loop_body H =
     (if \<not> should_check H then Some H
      else do {
        t \<leftarrow> record_pc detach_id (he_pc env) (spawn_pc (pcs H));
        let H = set_pe 1 (H\<lparr>pcs := (pcs H)\<lparr>spawn_pc := t\<rparr>\<rparr>);
        Some (if \<not> for_tapir_loop_body then H\<lparr>dr_cs := record_call_id detach_id SPAWN (dr_cs H)\<rparr> else H)
      })"

definition csan_task :: "csi_id_t \<Rightarrow> csi_id_t \<Rightarrow> u64 \<Rightarrow> u64 \<Rightarrow> task_prop_t \<Rightarrow> 'm driver \<Rightarrow> 'm driver option" where
  "csan_task task_id detach_id bp sp prop H =
     (if \<not> should_check H then Some H
      else do {
        let (bp, H) = task_stack bp sp H;
        let H = H\<lparr>dr_cs := push_stack_frame bp sp (dr_cs H)\<rparr>;
        loop \<leftarrow> (if tp_is_tapir_loop_body prop then handle_loop (dr_cs H) else Some False);
        if loop then on_tool (do_loop_iteration_begin (ucast (tp_num_sync_reg prop))) H
        else do {
          H \<leftarrow> push_pe H;
          H \<leftarrow> on_tool (do_enter_helper (ucast (tp_num_sync_reg prop))) H;
          on_tool do_detach H
        }
      })"

definition csan_task_exit ::
  "'m user_code \<Rightarrow> csi_id_t \<Rightarrow> csi_id_t \<Rightarrow> csi_id_t \<Rightarrow> u32 \<Rightarrow> bool \<Rightarrow> 'm driver \<Rightarrow> 'm driver option" where
  "csan_task_exit U task_exit_id task_id detach_id sync_reg is_tapir_loop_body H =
     (if \<not> should_check H then Some H
      else do {
        loop \<leftarrow> (if is_tapir_loop_body then handle_loop (dr_cs H) else Some False);
        H \<leftarrow> (if loop then on_tool (do_loop_iteration_end U) H
               else map_option pop_pe (on_tool (do_leave sync_reg) H));
        H \<leftarrow> on_tool pop_stack_frame H;
        leave_stack H
      })"

definition csan_detach_continue ::
  "'m user_code \<Rightarrow> csi_id_t \<Rightarrow> csi_id_t \<Rightarrow> u32 \<Rightarrow> detach_continue_prop_t \<Rightarrow> 'm driver \<Rightarrow> 'm driver option" where
  "csan_detach_continue U detach_continue_id detach_id sync_reg prop H =
     (if \<not> should_check H then Some H
      else do {
        H \<leftarrow> (if dp_is_unwind prop then on_tool (do_sync U sync_reg) H else Some H);
        if \<not> dp_for_tapir_loop_body prop
        then do {
          H \<leftarrow> on_tool (record_call_return_id detach_id SPAWN) H;
          on_tool (do_detach_continue U sync_reg) H
        }
        else Some H
      })"

definition csan_sync :: "'m user_code \<Rightarrow> csi_id_t \<Rightarrow> u32 \<Rightarrow> 'm driver \<Rightarrow> 'm driver option" where
  "csan_sync U sync_id sync_reg H =
     (if \<not> CILKSAN_INITIALIZED H then Some H
      else if \<not> should_check H then Some H
      else do {
        H \<leftarrow> on_tool (do_sync U sync_reg) H;
        synced \<leftarrow> is_local_synced (dr_cs H);
        if synced
        then do { p \<leftarrow> Stack_from_back 1 (parallel_execution H); Some (set_pe p H) }
        else Some H
      })"

text \<open>\<open>RunningUnderRR\<close> is given; the number of workers, which is also set, is outside of the model.\<close>

definition init_internal :: "hook_env \<Rightarrow> bool \<Rightarrow> 'm driver \<Rightarrow> 'm driver" where
  "init_internal env rr H =
     (let H = H\<lparr>is_running_under_rr := rr\<rparr>
      in if is_running_under_rr H \<and> sint (he_rr_time env) < 0 then H\<lparr>is_running_under_rr := False\<rparr> else H)"

definition csan_init :: "hook_env \<Rightarrow> bool \<Rightarrow> 'm driver \<Rightarrow> 'm driver" where
  "csan_init env rr H = init_internal env rr H"

subsection \<open>Loads and stores\<close>

record access_prop_t =
  ap_alignment :: u8
  ap_is_atomic :: bool
  ap_is_thread_local :: bool

text \<open>Under the replay debugger an access is identified by its time.\<close>

definition access_id :: "hook_env \<Rightarrow> csi_id_t \<Rightarrow> 'm driver \<Rightarrow> csi_id_t" where
  "access_id env i H = (if is_running_under_rr H then he_rr_time env else i)"

definition csan_load :: "hook_env \<Rightarrow> csi_id_t \<Rightarrow> u64 \<Rightarrow> u32 \<Rightarrow> access_prop_t \<Rightarrow> 'm driver \<Rightarrow> 'm driver option" where
  "csan_load env load_id addr s prop H =
     (if \<not> CILKSAN_INITIALIZED H then Some H
      else if \<not> should_check H then Some H
      else do {
        par \<leftarrow> is_execution_parallel H;
        if \<not> par then Some H
        else do {
          t \<leftarrow> record_pc load_id (he_pc env) (load_pc (pcs H));
          let H = H\<lparr>pcs := (pcs H)\<lparr>load_pc := t\<rparr>\<rparr>;
          let load_id = access_id env load_id H;
          let sz = scast s;
          let al = ucast (ap_alignment prop);
          if ap_is_atomic prop \<or> ap_is_thread_local prop
          then on_tool (do_atomic_read (he_locks env) load_id addr sz al atomic_lock_id) H
          else if locks_held (dr_cs H) then on_tool (do_locked_read (he_locks env) RW load_id addr sz al) H
          else on_tool (do_read RW load_id addr sz al) H
        }
      })"

definition csan_large_load :: "hook_env \<Rightarrow> csi_id_t \<Rightarrow> u64 \<Rightarrow> u64 \<Rightarrow> access_prop_t \<Rightarrow> 'm driver \<Rightarrow> 'm driver option" where
  "csan_large_load env load_id addr s prop H =
     (if \<not> CILKSAN_INITIALIZED H then Some H
      else if \<not> should_check H then Some H
      else do {
        par \<leftarrow> is_execution_parallel H;
        if \<not> par then Some H
        else do {
          t \<leftarrow> record_pc load_id (he_pc env) (load_pc (pcs H));
          let H = H\<lparr>pcs := (pcs H)\<lparr>load_pc := t\<rparr>\<rparr>;
          let load_id = access_id env load_id H;
          let al = ucast (ap_alignment prop);
          if ap_is_atomic prop \<or> ap_is_thread_local prop
          then on_tool (do_atomic_read (he_locks env) load_id addr s al atomic_lock_id) H
          else if locks_held (dr_cs H) then on_tool (do_locked_read (he_locks env) RW load_id addr s al) H
          else on_tool (do_read RW load_id addr s al) H
        }
      })"

definition csan_store :: "hook_env \<Rightarrow> csi_id_t \<Rightarrow> u64 \<Rightarrow> u32 \<Rightarrow> access_prop_t \<Rightarrow> 'm driver \<Rightarrow> 'm driver option" where
  "csan_store env store_id addr s prop H =
     (if \<not> CILKSAN_INITIALIZED H then Some H
      else if \<not> should_check H then Some H
      else do {
        par \<leftarrow> is_execution_parallel H;
        if \<not> par then Some H
        else do {
          t \<leftarrow> record_pc store_id (he_pc env) (store_pc (pcs H));
          let H = H\<lparr>pcs := (pcs H)\<lparr>store_pc := t\<rparr>\<rparr>;
          let store_id = access_id env store_id H;
          let sz = scast s;
          let al = ucast (ap_alignment prop);
          if ap_is_atomic prop \<or> ap_is_thread_local prop
          then on_tool (do_atomic_write (he_locks env) store_id addr sz al atomic_lock_id) H
          else if locks_held (dr_cs H) then on_tool (do_locked_write (he_locks env) RW store_id addr sz al) H
          else on_tool (do_write RW store_id addr sz al) H
        }
      })"

definition csan_large_store :: "hook_env \<Rightarrow> csi_id_t \<Rightarrow> u64 \<Rightarrow> u64 \<Rightarrow> access_prop_t \<Rightarrow> 'm driver \<Rightarrow> 'm driver option" where
  "csan_large_store env store_id addr s prop H =
     (if \<not> CILKSAN_INITIALIZED H then Some H
      else if \<not> should_check H then Some H
      else do {
        par \<leftarrow> is_execution_parallel H;
        if \<not> par then Some H
        else do {
          t \<leftarrow> record_pc store_id (he_pc env) (store_pc (pcs H));
          let H = H\<lparr>pcs := (pcs H)\<lparr>store_pc := t\<rparr>\<rparr>;
          let store_id = access_id env store_id H;
          let al = ucast (ap_alignment prop);
          if ap_is_atomic prop \<or> ap_is_thread_local prop
          then on_tool (do_atomic_write (he_locks env) store_id addr s al atomic_lock_id) H
          else if locks_held (dr_cs H) then on_tool (do_locked_write (he_locks env) RW store_id addr s al) H
          else on_tool (do_write RW store_id addr s al) H
        }
      })"

subsection \<open>Allocations\<close>

definition sizes_insert :: "hook_env \<Rightarrow> u64 \<Rightarrow> u64 \<Rightarrow> 'm cilksan \<Rightarrow> 'm cilksan option" where
  "sizes_insert env addr s S =
     map_option (\<lambda>M. S\<lparr>cs_malloc_sizes := M\<rparr>) (AddrMap_insert (he_sizes env) addr s (cs_malloc_sizes S))"

definition sizes_remove :: "u64 \<Rightarrow> 'm cilksan \<Rightarrow> 'm cilksan option" where
  "sizes_remove addr S = map_option (\<lambda>M. S\<lparr>cs_malloc_sizes := M\<rparr>) (AddrMap_remove addr (cs_malloc_sizes S))"

definition csi_after_alloca :: "hook_env \<Rightarrow> csi_id_t \<Rightarrow> u64 \<Rightarrow> u64 \<Rightarrow> 'm driver \<Rightarrow> 'm driver option" where
  "csi_after_alloca env alloca_id addr s H =
     (if \<not> CILKSAN_INITIALIZED H then Some H
      else do {
        let H = (if cs_stack_low (dr_cs H) > addr then H\<lparr>dr_cs := (dr_cs H)\<lparr>cs_stack_low := addr\<rparr>\<rparr> else H);
        t \<leftarrow> record_pc alloca_id (he_pc env) (alloca_pc (pcs H));
        let H = H\<lparr>pcs := (pcs H)\<lparr>alloca_pc := t\<rparr>\<rparr>;
        H \<leftarrow> on_tool (record_alloc addr s (2 * alloca_id)) H;
        H \<leftarrow> on_tool (clear_shadow_memory addr s) H;
        on_tool (advance_stack_frame addr) H
      })"

text \<open>What all hooks of allocation functions record of their call site.\<close>

definition record_allocfn :: "hook_env \<Rightarrow> csi_id_t \<Rightarrow> u8 \<Rightarrow> 'm driver \<Rightarrow> 'm driver option" where
  "record_allocfn env allocfn_id prop H =
     do {
       t \<leftarrow> record_pc allocfn_id (he_pc env) (allocfn_pc (pcs H));
       ty \<leftarrow> arr_get (allocfn_prop (pcs H)) (unat allocfn_id);
       let ps = (if ty = -1 then (allocfn_prop (pcs H))[unat allocfn_id := prop] else allocfn_prop (pcs H));
       Some (H\<lparr>pcs := (pcs H)\<lparr>allocfn_pc := t, allocfn_prop := ps\<rparr>\<rparr>)
     }"

text \<open>A block of \<open>s\<close> bytes is allocated.\<close>

definition new_block :: "hook_env \<Rightarrow> csi_id_t \<Rightarrow> u64 \<Rightarrow> u64 \<Rightarrow> 'm cilksan \<Rightarrow> 'm cilksan option" where
  "new_block env i addr s S =
     do { S \<leftarrow> sizes_insert env addr s S; S \<leftarrow> record_alloc addr s i S; clear_shadow_memory addr s S }"

text \<open>A part of a block is freed: outside of checked parallel code its shadow is cleared.\<close>

definition free_bytes ::
  "hook_env \<Rightarrow> bool \<Rightarrow> u64 \<Rightarrow> u64 \<Rightarrow> csi_id_t \<Rightarrow> MAType_t \<Rightarrow> 'm cilksan \<Rightarrow> 'm cilksan option" where
  "free_bytes env quiet addr s i type S =
     (if quiet then do { S \<leftarrow> clear_alloc addr s S; clear_shadow_memory addr s S }
      else record_free (he_locks env) addr s i type S)"

definition quiet_free :: "'m driver \<Rightarrow> bool option" where
  "quiet_free H = (if \<not> should_check H then Some True else map_option Not (is_execution_parallel H))"

definition csan_after_allocfn ::
  "hook_env \<Rightarrow> csi_id_t \<Rightarrow> u64 \<Rightarrow> u64 \<Rightarrow> u64 \<Rightarrow> u64 \<Rightarrow> u8 \<Rightarrow> 'm driver \<Rightarrow> 'm driver option" where
  "csan_after_allocfn env allocfn_id addr s num oldaddr prop H =
     (if \<not> CILKSAN_INITIALIZED H then Some H
      else do {
        H \<leftarrow> record_allocfn env allocfn_id prop H;
        let new_size = s * num;
        if oldaddr \<noteq> 0
        then do {
          old \<leftarrow> AddrMap_get (cs_malloc_sizes (dr_cs H)) oldaddr;
          if oldaddr \<noteq> addr
          then do {
            H \<leftarrow> (if new_size > 0
                   then on_tool (\<lambda>S. do {
                          S \<leftarrow> record_alloc addr new_size (2 * allocfn_id + 1) S;
                          S \<leftarrow> clear_shadow_memory addr new_size S;
                          sizes_insert env addr new_size S }) H
                   else Some H);
            c \<leftarrow> AddrMap_contains (cs_malloc_sizes (dr_cs H)) oldaddr;
            if c
            then do {
              old_size \<leftarrow> old;
              q \<leftarrow> quiet_free H;
              H \<leftarrow> on_tool (free_bytes env q oldaddr old_size allocfn_id REALLOC) H;
              on_tool (sizes_remove oldaddr) H
            }
            else Some H
          }
          else do {
            c \<leftarrow> AddrMap_contains (cs_malloc_sizes (dr_cs H)) oldaddr;
            H \<leftarrow>
              (if c
               then do {
                 old_size \<leftarrow> old;
                 H \<leftarrow>
                   (if old_size < new_size then on_tool (clear_shadow_memory (addr + old_size) (new_size - old_size)) H
                    else if old_size > new_size
                    then do {
                      q \<leftarrow> quiet_free H;
                      on_tool (free_bytes env q (oldaddr + new_size) (old_size - new_size) allocfn_id REALLOC) H
                    }
                    else Some H);
                 H \<leftarrow> on_tool (record_alloc addr new_size (2 * allocfn_id + 1)) H;
                 on_tool (sizes_remove addr) H
               }
               else do {
                 H \<leftarrow> on_tool (record_alloc addr new_size (2 * allocfn_id + 1)) H;
                 on_tool (clear_shadow_memory addr new_size) H
               });
            on_tool (sizes_insert env addr new_size) H
          }
        }
        else if s = 0 then Some H
        else on_tool (new_block env (2 * allocfn_id + 1) addr new_size) H
      })"

text \<open>\<open>block\<close>: the pointer that \<open>posix_memalign\<close> stored at its argument.\<close>

definition csan_alloc_posix_memalign ::
  "hook_env \<Rightarrow> csi_id_t \<Rightarrow> u8 \<Rightarrow> u64 \<Rightarrow> u64 \<Rightarrow> 'm driver \<Rightarrow> 'm driver option" where
  "csan_alloc_posix_memalign env allocfn_id prop block s H =
     (if \<not> CILKSAN_INITIALIZED H then Some H
      else do {
        H \<leftarrow> record_allocfn env allocfn_id prop H;
        if s = 0 then Some H
        else on_tool (new_block env (2 * allocfn_id + 1) block s) H
      })"

text \<open>\<open>content\<close>: the first character of the new block, which the code takes for its address.\<close>

definition csan_alloc_memalign ::
  "hook_env \<Rightarrow> csi_id_t \<Rightarrow> u8 \<Rightarrow> u8 \<Rightarrow> u64 \<Rightarrow> 'm driver \<Rightarrow> 'm driver option" where
  "csan_alloc_memalign env allocfn_id prop content s H =
     (if \<not> CILKSAN_INITIALIZED H then Some H
      else do {
        H \<leftarrow> record_allocfn env allocfn_id prop H;
        if s = 0 then Some H
        else on_tool (new_block env (2 * allocfn_id + 1) (scast content) s) H
      })"

definition check_alloc_read :: "hook_env \<Rightarrow> csi_id_t \<Rightarrow> MAAP_t \<Rightarrow> u64 \<Rightarrow> u64 \<Rightarrow> 'm driver \<Rightarrow> 'm driver option" where
  "check_alloc_read env allocfn_id MAAPVal ptr len H =
     do {
       par \<leftarrow> (if should_check H then is_execution_parallel H else Some False);
       if par \<and> checkMAAP MAAPVal MAAP_Mod
       then if locks_held (dr_cs H)
         then on_tool (do_locked_read (he_locks env) ALLOC allocfn_id ptr len 0) H
         else on_tool (do_read ALLOC allocfn_id ptr len 0) H
       else Some H
     }"

definition check_alloc_write :: "hook_env \<Rightarrow> csi_id_t \<Rightarrow> MAAP_t \<Rightarrow> u64 \<Rightarrow> u64 \<Rightarrow> 'm driver \<Rightarrow> 'm driver option" where
  "check_alloc_write env allocfn_id MAAPVal ptr len H =
     do {
       par \<leftarrow> (if should_check H then is_execution_parallel H else Some False);
       if par \<and> checkMAAP MAAPVal MAAP_Mod
       then if locks_held (dr_cs H)
         then on_tool (do_locked_write (he_locks env) ALLOC allocfn_id ptr len 0) H
         else on_tool (do_write ALLOC allocfn_id ptr len 0) H
       else Some H
     }"

text \<open>\<open>len\<close>: the length of the string, \<open>strlen\<close> of the argument or of the result.\<close>

definition csan_alloc_strdup ::
  "hook_env \<Rightarrow> csi_id_t \<Rightarrow> u32 \<Rightarrow> u8 \<Rightarrow> u64 \<Rightarrow> u64 \<Rightarrow> u64 \<Rightarrow> 'm driver \<Rightarrow> 'm driver option" where
  "csan_alloc_strdup env allocfn_id MAAP_count prop result str len H =
     (if \<not> CILKSAN_INITIALIZED H then Some H
      else do {
        H \<leftarrow> record_allocfn env allocfn_id prop H;
        (str_MAAPVal, H) \<leftarrow> take_MAAP MAAP_count H;
        if result = 0 then Some H
        else do {
          let sz = len + 1;
          H \<leftarrow> check_alloc_read env allocfn_id str_MAAPVal str sz H;
          H \<leftarrow> on_tool (new_block env (2 * allocfn_id + 1) result sz) H;
          check_alloc_write env allocfn_id str_MAAPVal result sz H
        }
      })"

definition csan_alloc_strndup ::
  "hook_env \<Rightarrow> csi_id_t \<Rightarrow> u32 \<Rightarrow> u8 \<Rightarrow> u64 \<Rightarrow> u64 \<Rightarrow> u64 \<Rightarrow> 'm driver \<Rightarrow> 'm driver option" where
  "csan_alloc_strndup env allocfn_id MAAP_count prop result str len H =
     (if \<not> CILKSAN_INITIALIZED H then Some H
      else do {
        H \<leftarrow> record_allocfn env allocfn_id prop H;
        (str_MAAPVal, H) \<leftarrow> take_MAAP MAAP_count H;
        if result = 0 then Some H
        else do {
          let result_size = len + 1;
          H \<leftarrow> check_alloc_read env allocfn_id str_MAAPVal str result_size H;
          H \<leftarrow> on_tool (new_block env (2 * allocfn_id + 1) result result_size) H;
          check_alloc_write env allocfn_id str_MAAPVal result result_size H
        }
      })"

definition csan_after_free :: "hook_env \<Rightarrow> csi_id_t \<Rightarrow> u64 \<Rightarrow> 'm driver \<Rightarrow> 'm driver option" where
  "csan_after_free env free_id ptr H =
     (if \<not> CILKSAN_INITIALIZED H then Some H
      else if \<not> should_check H then on_tool (mark_free ptr) H
      else do {
        t \<leftarrow> record_pc free_id (he_pc env) (free_pc (pcs H));
        let H = H\<lparr>pcs := (pcs H)\<lparr>free_pc := t\<rparr>\<rparr>;
        old \<leftarrow> AddrMap_get (cs_malloc_sizes (dr_cs H)) ptr;
        c \<leftarrow> AddrMap_contains (cs_malloc_sizes (dr_cs H)) ptr;
        if c
        then do {
          s \<leftarrow> old;
          par \<leftarrow> is_execution_parallel H;
          H \<leftarrow> on_tool (free_bytes env (\<not> par) ptr s free_id FREE) H;
          on_tool (sizes_remove ptr) H
        }
        else Some H
      })"

text \<open>Without dynamic interposers the guard objects of these two do nothing.\<close>

definition cilksan_record_alloc :: "hook_env \<Rightarrow> u64 \<Rightarrow> u64 \<Rightarrow> 'm driver \<Rightarrow> 'm driver option" where
  "cilksan_record_alloc env addr s H = on_tool (mark_alloc (he_sizes env) addr s) H"

definition cilksan_record_free :: "u64 \<Rightarrow> 'm driver \<Rightarrow> 'm driver option" where
  "cilksan_record_free ptr H = on_tool (mark_free ptr) H"

subsection \<open>Wrapped routines of the runtime\<close>

text \<open>\<open>ptr\<close> is what the wrapped routine returns, \<open>run\<close> the hooks that it calls.\<close>

definition cilkrts_internal_merge_two_rmaps :: "('m driver \<Rightarrow> 'm driver option) \<Rightarrow> 'm driver \<Rightarrow> 'm driver option" where
  "cilkrts_internal_merge_two_rmaps run H =
     do { H \<leftarrow> disable_checking H; H \<leftarrow> run H; enable_checking H }"

definition wrap_cilkrts_internal_merge_two_rmaps ::
  "('m driver \<Rightarrow> 'm driver option) \<Rightarrow> 'm driver \<Rightarrow> 'm driver option" where
  "wrap_cilkrts_internal_merge_two_rmaps run H =
     do { H \<leftarrow> disable_checking H; H \<leftarrow> cilkrts_internal_merge_two_rmaps run H; enable_checking H }"

definition cilkrts_hyper_alloc :: "hook_env \<Rightarrow> u64 \<Rightarrow> u64 \<Rightarrow> 'm driver \<Rightarrow> 'm driver option" where
  "cilkrts_hyper_alloc env ptr bytes H = on_tool (new_block env 0 ptr bytes) H"

definition wrap_cilkrts_hyper_alloc :: "hook_env \<Rightarrow> u64 \<Rightarrow> u64 \<Rightarrow> 'm driver \<Rightarrow> 'm driver option" where
  "wrap_cilkrts_hyper_alloc env ptr bytes H =
     do { H \<leftarrow> cilkrts_hyper_alloc env ptr bytes H; on_tool (new_block env 0 ptr bytes) H }"

definition cilkrts_hyper_dealloc :: "u64 \<Rightarrow> u64 \<Rightarrow> 'm driver \<Rightarrow> 'm driver option" where
  "cilkrts_hyper_dealloc view s H =
     do {
       c \<leftarrow> AddrMap_contains (cs_malloc_sizes (dr_cs H)) view;
       if c
       then on_tool (\<lambda>S. do { S \<leftarrow> clear_alloc view s S; S \<leftarrow> clear_shadow_memory view s S; sizes_remove view S }) H
       else Some H
     }"

definition wrap_cilkrts_hyper_dealloc :: "u64 \<Rightarrow> u64 \<Rightarrow> 'm driver \<Rightarrow> 'm driver option" where
  "wrap_cilkrts_hyper_dealloc view s H =
     do {
       c \<leftarrow> AddrMap_contains (cs_malloc_sizes (dr_cs H)) view;
       H \<leftarrow>
         (if c
          then on_tool (\<lambda>S. do { S \<leftarrow> clear_alloc view s S; S \<leftarrow> clear_shadow_memory view s S; sizes_remove view S }) H
          else Some H);
       cilkrts_hyper_dealloc view s H
     }"

subsection \<open>The end of the program\<close>

definition csan_destroy :: "'m user_code \<Rightarrow> 'm driver \<Rightarrow> 'm driver option" where
  "csan_destroy U H =
     do {
       H \<leftarrow> disable_checking (disable_instrumentation H);
       H \<leftarrow> on_tool (deinit U) H;
       Some (H\<lparr>pcs := \<lparr>call_pc = [], spawn_pc = [], loop_pc = [], load_pc = [], store_pc = [], alloca_pc = [],
                  allocfn_pc = [], allocfn_prop = [], free_pc = []\<rparr>\<rparr>)
     }"

definition CilkSanImpl_destroy :: "'m user_code \<Rightarrow> 'm driver \<Rightarrow> 'm driver option" where
  "CilkSanImpl_destroy U H = map_option (\<lambda>H. H\<lparr>CILKSAN_INITIALIZED := False\<rparr>) (csan_destroy U H)"

end
