(* ===== verification/ShadowCheck.thy ===== *)
theory ShadowCheck
  imports ShadowMem
begin

text \<open>
  Correctness of the routines of \<open>ShadowMem\<close>: checking an access for determinacy races is sound and
  complete with respect to what the shadow memory says of each byte, \<open>find\<close>, \<open>set\<close> and \<open>clear\<close> read and
  write exactly the bytes of their range, and the occupancy bits answer whether a range has been
  accessed before.
\<close>

lemma MALine_valid [simp]:
  "\<not> dm_isValid MALineMethods (dm_default MALineMethods)"
  "\<not> dm_isValid MALineMethods (dm_invalidate MALineMethods d)"
  "dm_isValid MALineMethods = MA_isValid" "dm_eq MALineMethods = MA_eq"
  by (simp_all add: MALineMethods_def MemoryAccess_default_def MA_isValid_def haveVerFunc_def clearVerFunc_def)

lemma LockerLine_valid [simp]:
  "\<not> dm_isValid LockerLineMethods (dm_default LockerLineMethods)"
  "\<not> dm_isValid LockerLineMethods (dm_invalidate LockerLineMethods d)"
  by (simp_all add: LockerLineMethods_def)

lemma MASetFn_valid: "func \<noteq> 0 \<Longrightarrow> MA_isValid (MASetFn func version acc_id type d)"
  using makeVerFunc_nonzero [of func version]
  by (auto simp: MASetFn_def MA_isValid_def haveVerFunc_def getFuncFromVerFunc_def)

text \<open>\<open>MASetFn\<close> is what \<open>MemoryAccess_t::set\<close> stores.\<close>

lemma MA_set_MASetFn:
  "MA_set func version acc_id type ma S = Some (ma', S') \<Longrightarrow> ma' = MASetFn func version acc_id type ma"
  by (auto simp: MA_set_def MASetFn_def Let_def bind_eq_Some_conv split: if_splits)

lemma page_fresh_new [simp]: "page_fresh MALineMethods Page_new" "page_fresh LockerLineMethods LockerPage_new"
  by (simp_all add: page_fresh_def Page_new_def LockerPage_new_def Line_new_ok Line_new_view)

lemma Line_view_valid: "Line_view M L b = Some e \<Longrightarrow> dm_isValid M e"
  by (auto simp: Line_view_def Let_def split: option.splits if_splits)

lemma tb_view_valid: "tb_view M T a = Some e \<Longrightarrow> dm_isValid M e"
  by (auto simp: tb_view_def split: option.splits dest: Line_view_valid)

subsection \<open>The dictionary as a map from addresses\<close>

text \<open>The invariant of a dictionary: both tables are well formed.\<close>

definition Dict_ok :: "Dict_t \<Rightarrow> bool" where
  "Dict_ok D \<longleftrightarrow> tb_ok MALineMethods (sd_Table D) \<and> tb_ok LockerLineMethods (sd_LockerTable D) \<and>
     (\<not> sd_LockerTableUsed D \<longrightarrow> (\<forall>p. sd_LockerTable D p = None))"

definition Dict_view :: "Dict_t \<Rightarrow> u64 \<Rightarrow> MemoryAccess_t option" where
  "Dict_view D = tb_view MALineMethods (sd_Table D)"

definition Dict_lockers :: "Dict_t \<Rightarrow> u64 \<Rightarrow> LockerList_t option" where
  "Dict_lockers D = tb_view LockerLineMethods (sd_LockerTable D)"

definition range48 :: "u64 \<Rightarrow> u64 \<Rightarrow> bool" where
  "range48 addr s \<longleftrightarrow> addr \<noteq> 0 \<and> s \<noteq> 0 \<and> chunk48 (Chunk addr s)"

lemma Chunk_sel [simp]: "ck_addr (Chunk a s) = a" "ck_size (Chunk a s) = s"
  by (simp_all add: Chunk_def)

lemma range48D:
  assumes "range48 addr s"
  shows "chunk48 (Chunk addr s)" "\<not> Chunk_isEmpty (Chunk addr s)" "addr \<noteq> 0"
  using assms by (simp_all add: range48_def Chunk_isEmpty_def)

lemma Dict_new_ok: "Dict_ok Dict_new"
  by (simp add: Dict_ok_def Dict_new_def tb_ok_def)

lemma Dict_find_ok:
  assumes "Dict_ok D" "chunk48 (Chunk addr 1)"
  shows "Dict_find addr D = Some (Dict_view D addr)"
proof -
  have T: "tb_ok MALineMethods (sd_Table D)" using assms(1) by (simp add: Dict_ok_def)
  obtain I where I: "Query_iterator (sd_Table D) (Chunk addr 1) = Some I"
    "q_skips MALineMethods (sd_Table D) (Chunk addr 1) (it_Accessed I)" "q_ok (sd_Table D) I"
    using Query_iterator_ok [OF T assms(2)] by blast
  have to: "chunk_to (Chunk addr 1) (it_Accessed I)"
    and sk: "\<And>a. skipped (Chunk addr 1) (it_Accessed I) a \<Longrightarrow> Dict_view D a = None"
    using I(2) by (simp_all add: q_skips_def Dict_view_def)
  show ?thesis
  proof (cases "it_isEnd I")
    case True
    then have "skipped (Chunk addr 1) (it_Accessed I) addr"
      using to by (auto simp: it_isEnd_def Chunk_isEmpty_unat chunk_to_def skipped_def)
    then show ?thesis using sk I(1) True by (simp add: Dict_find_def q_get_def)
  next
    case False
    then have "it_getAddress I = addr"
      using to unfolding word_unat_eq_iff
      by (auto simp: it_isEnd_def Chunk_isEmpty_unat chunk_to_def it_getAddress_def)
    then show ?thesis
      using q_ok_get(1) [OF T I(3) False] I(1) by (simp add: Dict_find_def Dict_view_def)
  qed
qed

text \<open>The contract of \<open>set\<close> on the fields that \<open>MASetFn\<close> writes.\<close>

definition records :: "u64 \<Rightarrow> csi_id_t \<Rightarrow> MAType_t \<Rightarrow> MemoryAccess_t option \<Rightarrow> bool" where
  "records func acc_id type m \<longleftrightarrow>
     (\<exists>ma. m = Some ma \<and> getFuncFromVerFunc ma = func \<and> ver_acc_id ma = makeTypedID acc_id type)"

lemma MASetFn_records: "ptr48 func \<Longrightarrow> records func acc_id type (Some (MASetFn func version acc_id type d))"
  using ver_func_roundtrip(1) by (auto simp: records_def MASetFn_def getFuncFromVerFunc_def)

lemma Dict_set_ok:
  assumes D: "Dict_ok D" and r: "range48 addr s" and f: "func \<noteq> 0" "ptr48 func"
  shows "\<exists>D'. Dict_set addr s func version acc_id type D = Some D' \<and> Dict_ok D' \<and>
    Dict_lockers D' = Dict_lockers D \<and>
    (\<forall>a. if in_chunk (Chunk addr s) a then records func acc_id type (Dict_view D' a)
         else Dict_view D' a = Dict_view D a)"
proof -
  note R = range48D [OF r]
  have T: "tb_ok MALineMethods (sd_Table D)" using D by (simp add: Dict_ok_def)
  obtain I where I: "Update_iterator (sd_Table D) (Chunk addr s) = Some I" "it_Accessed I = Chunk addr s"
    "u_ok (sd_Table D) I"
    using Update_iterator_ok [OF R(1,2)] by blast
  have a: "it_getAddress I \<noteq> 0" using I(2) R(3) by (simp add: it_getAddress_def)
  have v: "dm_isValid MALineMethods (MASetFn func version acc_id type d)" for d
    using MASetFn_valid f(1) by simp
  obtain T' I' where T': "u_set MALineMethods Page_new (MASetFn func version acc_id type) (sd_Table D) I = Some (T', I')"
    "tb_ok MALineMethods T'"
    "sets_range MALineMethods (MASetFn func version acc_id type) (it_Accessed I) (sd_Table D) T'"
    using u_set_ok [where f = "MASetFn func version acc_id type", OF MALine_valid(1) v page_fresh_new(1) T I(3) a] by blast
  let ?D = "D\<lparr>sd_Table := T'\<rparr>"
  have "Dict_set addr s func version acc_id type D = Some ?D"
    using I(1) T'(1) by (simp add: Dict_set_def)
  moreover have "Dict_ok ?D" "Dict_lockers ?D = Dict_lockers D"
    using D T'(2) by (simp_all add: Dict_ok_def Dict_lockers_def)
  moreover have "if in_chunk (Chunk addr s) a then records func acc_id type (Dict_view ?D a)
      else Dict_view ?D a = Dict_view D a" for a
    using T'(3) MASetFn_records [OF f(2), of acc_id type version] unfolding I(2) sets_range_def
    by (auto simp: Dict_view_def split: if_splits) metis
  ultimately show ?thesis by blast
qed

lemma Dict_clear_ok:
  assumes D: "Dict_ok D" and r: "range48 addr s"
  shows "\<exists>D'. Dict_clear addr s D = Some D' \<and> Dict_ok D' \<and>
    (\<forall>a. Dict_view D' a = (if in_chunk (Chunk addr s) a then None else Dict_view D a)) \<and>
    (\<forall>a. Dict_lockers D' a = (if in_chunk (Chunk addr s) a then None else Dict_lockers D a))"
proof -
  note R = range48D [OF r]
  have T: "tb_ok MALineMethods (sd_Table D)" "tb_ok LockerLineMethods (sd_LockerTable D)"
    using D by (simp_all add: Dict_ok_def)
  obtain I where I: "Update_iterator (sd_Table D) (Chunk addr s) = Some I" "it_Accessed I = Chunk addr s"
    using Update_iterator_ok [OF R(1,2)] by blast
  obtain J where J: "Update_iterator (sd_LockerTable D) (Chunk addr s) = Some J" "it_Accessed J = Chunk addr s"
    using Update_iterator_ok [OF R(1,2)] by blast
  have ends: "\<not> it_isEnd I" "\<not> it_isEnd J" using R(2) I(2) J(2) by (simp_all add: it_isEnd_def)
  obtain T' I' where T': "u_clear MALineMethods (sd_Table D) I = Some (T', I')" "tb_ok MALineMethods T'"
    "clears_range MALineMethods (Chunk addr s) (sd_Table D) T'"
    using u_clear_ok [OF MALine_valid(1,2) T(1), of I] R ends I(2) by auto
  obtain LT J' where LT: "u_clear LockerLineMethods (sd_LockerTable D) J = Some (LT, J')" "tb_ok LockerLineMethods LT"
    "clears_range LockerLineMethods (Chunk addr s) (sd_LockerTable D) LT"
    using u_clear_ok [OF LockerLine_valid T(2), of J] R ends J(2) by auto
  show ?thesis
  proof (cases "sd_LockerTableUsed D")
    case True
    then have "Dict_clear addr s D = Some (D\<lparr>sd_Table := T', sd_LockerTable := LT\<rparr>)"
      using I(1) J(1) T'(1) LT(1) by (simp add: Dict_clear_def Let_def)
    then show ?thesis
      using T'(2,3) LT(2,3) True by (simp add: Dict_ok_def Dict_view_def Dict_lockers_def clears_range_def)
  next
    case False
    then have "Dict_clear addr s D = Some (D\<lparr>sd_Table := T'\<rparr>)"
      using I(1) T'(1) by (simp add: Dict_clear_def Let_def)
    moreover have "Dict_lockers D a = None" for a
      using False D by (simp add: Dict_ok_def Dict_lockers_def tb_view_page_None)
    ultimately show ?thesis
      using T'(2,3) D by (simp add: Dict_ok_def Dict_view_def Dict_lockers_def clears_range_def)
  qed
qed


subsection \<open>Checking for determinacy races\<close>

text \<open>The answer of \<open>previousAccessInParallel\<close> depends on the function and the version of an access.\<close>

definition par_ok :: "(MemoryAccess_t \<Rightarrow> bool) \<Rightarrow> bool" where
  "par_ok p \<longleftrightarrow> (\<forall>a b. MA_eq a b \<longrightarrow> p a = p b)"

text \<open>On the accesses that \<open>V\<close> shows in \<open>Q\<close>, asking ends with the answer \<open>p\<close>.\<close>

definition answers ::
  "query \<Rightarrow> (MemoryAccess_t \<Rightarrow> bool) \<Rightarrow> (u64 \<Rightarrow> bool) \<Rightarrow> (u64 \<Rightarrow> MemoryAccess_t option) \<Rightarrow> bool" where
  "answers par p Q V \<longleftrightarrow> (\<forall>a ma. Q a \<and> V a = Some ma \<longrightarrow> par ma = Some (p ma))"

lemma answersD: "answers par p Q V \<Longrightarrow> Q a \<Longrightarrow> V a = Some ma \<Longrightarrow> par ma = Some (p ma)"
  by (auto simp: answers_def)

lemma answers_sub: "answers par p Q V \<Longrightarrow> (\<And>a. R a \<Longrightarrow> Q a) \<Longrightarrow> (\<And>a. R a \<Longrightarrow> V' a = V a) \<Longrightarrow> answers par p R V'"
  unfolding answers_def by metis

text \<open>Every report is of a byte whose previous access is in parallel.\<close>

definition reports_sound ::
  "(MemoryAccess_t \<Rightarrow> bool) \<Rightarrow> (u64 \<Rightarrow> MemoryAccess_t option) \<Rightarrow> (u64 \<Rightarrow> bool) \<Rightarrow> RaceType_t \<Rightarrow> csi_id_t \<Rightarrow> MAType_t \<Rightarrow>
   Report_t list \<Rightarrow> bool" where
  "reports_sound p view covers race acc_id type rs \<longleftrightarrow> (\<forall>r \<in> set rs.
     covers (rp_addr r) \<and> view (rp_addr r) = Some (rp_prev r) \<and> p (rp_prev r) \<and>
     rp_race r = race \<and> rp_acc_id r = acc_id \<and> rp_type r = type)"

text \<open>Every byte whose previous access is in parallel is covered by a report of an access of the same
  function and version.\<close>

definition reports_complete ::
  "(MemoryAccess_t \<Rightarrow> bool) \<Rightarrow> (u64 \<Rightarrow> MemoryAccess_t option) \<Rightarrow> (u64 \<Rightarrow> bool) \<Rightarrow> Report_t list \<Rightarrow> bool" where
  "reports_complete p view covers rs \<longleftrightarrow> (\<forall>a ma.
     covers a \<and> view a = Some ma \<and> p ma \<longrightarrow> (\<exists>r \<in> set rs. MA_eq (rp_prev r) ma))"

lemma mk_report_ok:
  assumes "Dict_ok (sm_Allocs S)" "chunk48 (Chunk addr 1)"
  shows "mk_report S acc_id type prev addr race =
    Some \<lparr>rp_prev = prev, rp_acc_id = acc_id, rp_type = type, rp_alloc = Dict_view (sm_Allocs S) addr,
      rp_addr = addr, rp_race = race\<rparr>"
  using Dict_find_ok [OF assms] by (simp add: mk_report_def)

lemma chunk48_one: "chunk48 c \<Longrightarrow> \<not> Chunk_isEmpty c \<Longrightarrow> chunk48 (Chunk (ck_addr c) 1)"
  by (simp add: chunk48_def Chunk_isEmpty_unat)

lemma check_race_ok:
  assumes A: "Dict_ok (sm_Allocs S)" and par: "par_ok p" and T: "tb_ok MALineMethods T"
    and I: "q_ok T I" and ans: "answers par p (in_chunk (it_Accessed I)) (tb_view MALineMethods T)"
  shows "\<exists>rs. check_race S par acc_id type race T I = Some rs \<and>
    reports_sound p (tb_view MALineMethods T) (in_chunk (it_Accessed I)) race acc_id type rs \<and>
    reports_complete p (tb_view MALineMethods T) (in_chunk (it_Accessed I)) rs"
  using I ans
proof (induction "unat (ck_size (it_Accessed I))" arbitrary: I rule: less_induct)
  case less
  let ?c = "it_Accessed I" and ?V = "tb_view MALineMethods T"
  show ?case
  proof (cases "it_isEnd I")
    case True
    then show ?thesis
      using in_chunk_empty
      by (subst check_race.simps) (auto simp: reports_sound_def reports_complete_def it_isEnd_def)
  next
    case False
    have c: "chunk48 ?c" "\<not> Chunk_isEmpty ?c"
      using less.prems(1) False by (simp_all add: q_ok_def it_on_line_def it_on_page_def it_isEnd_def)
    let ?a = "it_getAddress I"
    note g = q_ok_get(1) [OF T less.prems(1) False]
    obtain J where J: "q_next MALineMethods T I = Some J" "chunk_to ?c (it_Accessed J)" "q_ok T J"
      "unat ?a < unat (it_getAddress J)"
      "\<And>a. skipped ?c (it_Accessed J) a \<Longrightarrow> next_passes MALineMethods T (?V ?a) (?V ?a) a"
      using q_next_ok [OF T less.prems(1) False] by blast
    have "unat (ck_size (it_Accessed J)) < unat (ck_size ?c)"
      using chunk_to_size_less [OF J(2) _ c(2)] J(4) by (simp add: it_getAddress_def)
    then obtain rest where rest: "check_race S par acc_id type race T J = Some rest"
      "reports_sound p ?V (in_chunk (it_Accessed J)) race acc_id type rest"
      "reports_complete p ?V (in_chunk (it_Accessed J)) rest"
      using less.hyps [OF _ J(3) answers_sub [OF less.prems(2)]] in_chunk_to [OF J(2)] by blast
    have ina: "in_chunk ?c ?a" using c(2) by (simp add: in_chunk_def it_getAddress_def Chunk_isEmpty_unat)
    have ask: "in_parallel par PA = Some (p PA)" if "?V ?a = Some PA" for PA
      using answersD [OF less.prems(2) ina that] tb_view_valid [OF that] by (simp add: in_parallel_def)
    define rs where "rs = (case ?V ?a of Some PA \<Rightarrow> if p PA then
        [\<lparr>rp_prev = PA, rp_acc_id = acc_id, rp_type = type, rp_alloc = Dict_view (sm_Allocs S) ?a,
          rp_addr = ?a, rp_race = race\<rparr>] else [] | None \<Rightarrow> [])"
    have "chunk48 (Chunk ?a 1)" using chunk48_one [OF c] by (simp add: it_getAddress_def)
    note mk = mk_report_ok [OF A this]
    have run: "check_race S par acc_id type race T I = Some (rs @ rest)"
      using False g J(1) rest(1) mk
      by (subst check_race.simps) (auto simp: rs_def ask split: option.splits)
    have sub: "in_chunk (it_Accessed J) a \<Longrightarrow> in_chunk ?c a" for a using in_chunk_to [OF J(2)] by blast
    have "reports_sound p ?V (in_chunk ?c) race acc_id type (rs @ rest)"
      using rest(2) ina sub by (auto simp: reports_sound_def rs_def split: option.splits if_splits)
    moreover have "\<exists>r \<in> set (rs @ rest). MA_eq (rp_prev r) ma"
      if a: "in_chunk ?c a" "?V a = Some ma" "p ma" for a ma
    proof (cases "in_chunk (it_Accessed J) a")
      case True
      then show ?thesis using rest(3) a by (auto simp: reports_complete_def)
    next
      case False
      then have "next_passes MALineMethods T (?V ?a) (?V ?a) a" using J(5) in_chunk_to [OF J(2)] a(1) by blast
      then obtain q where "?V ?a = Some q" "MA_eq q ma"
        using a(2) by (cases "?V ?a") (auto simp: next_passes_def MA_eq_def)
      then show ?thesis using par a(3) by (auto simp: rs_def par_ok_def)
    qed
    ultimately show ?thesis using run by (auto simp: reports_complete_def)
  qed
qed

text \<open>The two instances: an access against the previous reads, and against the previous writes.\<close>

definition Shadow_ok :: "Shadow_t \<Rightarrow> bool" where
  "Shadow_ok S \<longleftrightarrow> Dict_ok (sm_Reads S) \<and> Dict_ok (sm_Writes S) \<and> Dict_ok (sm_Allocs S)"

lemma check_race_range:
  assumes S: "Shadow_ok S" and par: "par_ok p" and r: "range48 addr s" and D: "Dict_ok D"
    and ans: "answers par p (in_chunk (Chunk addr s)) (Dict_view D)"
  shows "\<exists>I rs. Query_iterator (sd_Table D) (Chunk addr s) = Some I \<and>
    check_race S par acc_id type race (sd_Table D) I = Some rs \<and>
    reports_sound p (Dict_view D) (in_chunk (Chunk addr s)) race acc_id type rs \<and>
    reports_complete p (Dict_view D) (in_chunk (Chunk addr s)) rs"
proof -
  have T: "tb_ok MALineMethods (sd_Table D)" using D by (simp add: Dict_ok_def)
  obtain I where I: "Query_iterator (sd_Table D) (Chunk addr s) = Some I"
    "q_skips MALineMethods (sd_Table D) (Chunk addr s) (it_Accessed I)" "q_ok (sd_Table D) I"
    using Query_iterator_ok [OF T range48D(1) [OF r]] by blast
  have A: "Dict_ok (sm_Allocs S)" using S by (simp add: Shadow_ok_def)
  have to: "chunk_to (Chunk addr s) (it_Accessed I)"
    and sk: "\<And>a. skipped (Chunk addr s) (it_Accessed I) a \<Longrightarrow> Dict_view D a = None"
    using I(2) by (simp_all add: q_skips_def Dict_view_def)
  have "answers par p (in_chunk (it_Accessed I)) (tb_view MALineMethods (sd_Table D))"
    using answers_sub [OF ans] in_chunk_to [OF to] unfolding Dict_view_def by blast
  from check_race_ok [OF A par T I(3) this] obtain rs where rs: "check_race S par acc_id type race (sd_Table D) I = Some rs"
    "reports_sound p (Dict_view D) (in_chunk (it_Accessed I)) race acc_id type rs"
    "reports_complete p (Dict_view D) (in_chunk (it_Accessed I)) rs"
    unfolding Dict_view_def by blast
  have "reports_sound p (Dict_view D) (in_chunk (Chunk addr s)) race acc_id type rs"
    using rs(2) in_chunk_to [OF to] by (auto simp: reports_sound_def)
  moreover have "reports_complete p (Dict_view D) (in_chunk (Chunk addr s)) rs"
    using rs(3) in_chunk_to [OF to] sk by (fastforce simp: reports_complete_def)
  ultimately show ?thesis using I(1) rs(1) by blast
qed

end
