(* ===== verification/ShadowInsert.thy ===== *)
theory ShadowInsert
  imports ShadowCheck
begin

text \<open>
  \<open>insert\<close> and \<open>next\<close> of update iterators end, \<open>insert\<close> stores in the bytes that it passes and changes no
  others, and \<open>next\<close> passes only entries equal to the one it starts from.
\<close>

subsection \<open>Lines\<close>

text \<open>The new value of a byte comes from its old entry, or from an invalid one where there was none.\<close>

definition sets_from :: "'a DataMethods \<Rightarrow> ('a \<Rightarrow> 'a) \<Rightarrow> 'a option \<Rightarrow> 'a option \<Rightarrow> bool" where
  "sets_from M f old new \<longleftrightarrow>
     (\<exists>e. new = Some (f e) \<and> (case old of None \<Rightarrow> \<not> dm_isValid M e | Some d \<Rightarrow> e = d))"

lemma Line_set_entry_from:
  assumes "Line_ok M L" "Line_isMaterialized L" "b0 < 512" "i = b0 div 2 ^ ln_LgGrainsize L"
    and valid: "\<And>d. dm_isValid M (f d)"
  obtains L' where "Line_set_entry M f i L = Some L'" "Line_ok M L'" "Line_isMaterialized L'"
    "ln_LgGrainsize L' = ln_LgGrainsize L"
    "\<And>b. b < 512 \<Longrightarrow> if b div 2 ^ ln_LgGrainsize L = i then sets_from M f (Line_view M L b) (Line_view M L' b)
       else Line_view M L' b = Line_view M L b"
proof -
  let ?lg = "ln_LgGrainsize L"
  obtain d where d: "ln_Data L = Some d" using assms(2) by (auto simp: Line_isMaterialized_def)
  have lg: "?lg \<le> SD_LG_LINE_SIZE" "length d = 2 ^ (SD_LG_LINE_SIZE - ?lg)"
    using assms(1) d by (simp_all add: Line_ok_def)
  have i: "i < length d" using Line_idx_bound [OF assms(3) lg(1)] assms(4) lg(2) by simp
  obtain L' e where L': "Line_set_entry M f i L = Some L'" "Line_ok M L'" "Line_isMaterialized L'"
    "ln_LgGrainsize L' = ?lg"
    using Line_set_entry_ok [where f = f, OF assms(1-4) valid] by metis
  have "ln_Data L' = Some (d[i := f (d ! i)])"
    using L'(1) d i by (auto simp: Line_set_entry_def Line_at_def Line_put_def Line_incNumNonNullEls_def Let_def
        split: if_splits)
  then have "if b div 2 ^ ?lg = i then sets_from M f (Line_view M L b) (Line_view M L' b)
       else Line_view M L' b = Line_view M L b" for b
    using d i valid L'(4) by (auto simp: Line_view_def sets_from_def Let_def)
  then show ?thesis using that L' by blast
qed

text \<open>What an operation on a line leaves of the access when it may stop within the line.\<close>

definition line_part :: "Chunk_t \<Rightarrow> Chunk_t \<Rightarrow> bool" where
  "line_part c c' \<longleftrightarrow> chunk_to c c' \<and> unat (ck_addr c) < unat (ck_addr c') \<and>
     unat (ck_addr c') \<le> (unat (ck_addr c) div 512 + 1) * 512"

definition line_passed :: "Chunk_t \<Rightarrow> Chunk_t \<Rightarrow> nat \<Rightarrow> bool" where
  "line_passed c c' b \<longleftrightarrow> chunk_covers c b \<and>
     b < unat (ck_addr c) mod 512 + (unat (ck_addr c') - unat (ck_addr c))"

definition stores_passed ::
  "'a DataMethods \<Rightarrow> ('a \<Rightarrow> 'a) \<Rightarrow> Chunk_t \<Rightarrow> Chunk_t \<Rightarrow> 'a Line_t \<Rightarrow> 'a Line_t \<Rightarrow> bool" where
  "stores_passed M f c c' L L' \<longleftrightarrow> (\<forall>b < 512.
     if line_passed c c' b then sets_from M f (Line_view M L b) (Line_view M L' b)
     else Line_view M L' b = Line_view M L b)"

lemma aligned_part:
  assumes "chunk_aligned g c"
  shows "line_part c (Chunk_next g c)"
    and "line_passed c (Chunk_next g c) b \<longleftrightarrow> b div 2 ^ g = unat (ck_addr c) mod 512 div 2 ^ g"
proof -
  note st = chunk_aligned_step [OF assms]
  show "line_part c (Chunk_next g c)"
    using st line_end_eq [of "unat (ck_addr c)"] zero_less_power [of "2::nat" g] unfolding line_part_def chunk_to_def
    by (intro conjI) linarith+
  show "line_passed c (Chunk_next g c) b \<longleftrightarrow> b div 2 ^ g = unat (ck_addr c) mod 512 div 2 ^ g"
    unfolding chunk_aligned_idx [OF assms] using st by (auto simp: line_passed_def chunk_covers_def)
qed

lemma Line_at_in:
  assumes "Line_ok M L" "Line_isMaterialized L" "i < 2 ^ (SD_LG_LINE_SIZE - ln_LgGrainsize L)"
  shows "\<exists>e. Line_at i L = Some e"
  using assms by (auto simp: Line_ok_def Line_isMaterialized_def Line_at_def)

lemma Line_insert_loop_ok:
  assumes "Line_ok M L" "Line_isMaterialized L" "chunk_aligned (ln_LgGrainsize L) c"
    and valid: "\<And>d. dm_isValid M (f d)"
  shows "\<exists>L' c'. Line_insert_loop M f prev (ln_LgGrainsize L) L c = Some (L', c') \<and> Line_ok M L' \<and>
    line_part c c' \<and> stores_passed M f c c' L L'"
  using assms(1-3)
proof (induction "512 - unat (ck_addr c) mod 512" arbitrary: L c rule: less_induct)
  case less
  let ?g = "ln_LgGrainsize L" and ?m = "unat (ck_addr c) mod 512"
  let ?c = "Chunk_next ?g c"
  note st = chunk_aligned_step [OF less.prems(3)]
  note part = aligned_part [OF less.prems(3)]
  have idx: "Line_getIdx (sd_byte (ck_addr a)) K = unat (ck_addr a) mod 512 div 2 ^ ln_LgGrainsize K" for a and K :: "'a Line_t"
    by (simp only: Line_getIdx_byte)
  have "?m < 512" by simp
  from Line_set_entry_from [where f = f, OF less.prems(1,2) this idx valid] obtain L1 where
    L1: "Line_set_entry M f (Line_getIdx (sd_byte (ck_addr c)) L) L = Some L1" "Line_ok M L1"
      "Line_isMaterialized L1" "ln_LgGrainsize L1 = ?g" and
    v1: "\<And>b. b < 512 \<Longrightarrow> if b div 2 ^ ?g = Line_getIdx (sd_byte (ck_addr c)) L
       then sets_from M f (Line_view M L b) (Line_view M L1 b) else Line_view M L1 b = Line_view M L b"
    by blast
  have s1: "stores_passed M f c ?c L L1" unfolding stores_passed_def part(2) using v1 unfolding idx by blast
  show ?case
  proof (cases "Chunk_isEmpty ?c \<or> isLineStart (ck_addr ?c)")
    case True
    then have "Line_insert_loop M f prev ?g L c = Some (L1, ?c)"
      by (subst Line_insert_loop.simps) (simp add: L1(1) Let_def)
    then show ?thesis using L1(2) part(1) s1 by blast
  next
    case False
    then have ns: "\<not> Chunk_isEmpty ?c" "\<not> isLineStart (ck_addr ?c)" by simp_all
    note nx = chunk_aligned_next [OF less.prems(3) ns]
    have "unat (ck_addr ?c) mod 512 < 512" by simp
    then have "Line_getIdx (sd_byte (ck_addr ?c)) L1 < 2 ^ (SD_LG_LINE_SIZE - ?g)"
      unfolding idx L1(4) using Line_idx_bound less.prems(1) by (simp add: Line_ok_def)
    then obtain e where e: "Line_at (Line_getIdx (sd_byte (ck_addr ?c)) L1) L1 = Some e"
      using Line_at_in [OF L1(2,3)] L1(4) by metis
    have unfold: "Line_insert_loop M f prev ?g L c =
        (if \<not> dm_isValid M e \<or> (dm_isValid M prev \<and> dm_eq M prev e) then Line_insert_loop M f prev ?g L1 ?c
         else Some (L1, ?c))"
      using False by (subst Line_insert_loop.simps) (simp add: L1(1) e Let_def)
    show ?thesis
    proof (cases "\<not> dm_isValid M e \<or> (dm_isValid M prev \<and> dm_eq M prev e)")
      case False
      then have "Line_insert_loop M f prev ?g L c = Some (L1, ?c)" unfolding unfold by (rule if_not_P)
      then show ?thesis using L1(2) part(1) s1 by blast
    next
      case True
      have "\<exists>L' c'. Line_insert_loop M f prev (ln_LgGrainsize L1) L1 ?c = Some (L', c') \<and> Line_ok M L' \<and>
          line_part ?c c' \<and> stores_passed M f ?c c' L1 L'"
      proof (rule less.hyps)
        show "512 - unat (ck_addr ?c) mod 512 < 512 - ?m" unfolding nx(3) by (simp add: diff_less_mono2)
      qed (use L1 nx in auto)
      then obtain L' c' where L': "Line_insert_loop M f prev ?g L1 ?c = Some (L', c')" "Line_ok M L'"
        "line_part ?c c'" "stores_passed M f ?c c' L1 L'"
        unfolding L1(4) by blast
      have "chunk_to c c'" using chunk_to_trans [of c ?c c'] part(1) L'(3) ns(1) by (simp add: line_part_def)
      then have lp: "line_part c c'" using part(1) L'(3) nx(2) by (simp add: line_part_def)
      have "stores_passed M f c c' L L'"
        unfolding stores_passed_def
      proof (intro allI impI)
        fix b :: nat assume b: "b < 512"
        have cov: "line_passed c c' b \<longleftrightarrow> line_passed c ?c b \<or> line_passed ?c c' b"
          using st nx(3) L'(3) unfolding line_passed_def chunk_covers_def line_part_def by auto
        have dis: "\<not> (line_passed c ?c b \<and> line_passed ?c c' b)"
          using st nx(3) unfolding line_passed_def chunk_covers_def by auto
        show "if line_passed c c' b then sets_from M f (Line_view M L b) (Line_view M L' b)
          else Line_view M L' b = Line_view M L b"
          using L'(4) s1 b cov dis unfolding stores_passed_def by (metis (full_types))
      qed
      moreover have "Line_insert_loop M f prev ?g L c = Some (L', c')" using unfold True L'(1) by simp
      ultimately show ?thesis using L'(2) lp by blast
    qed
  qed
qed

lemma chunk_getLg_le: "Chunk_getLgGrainsize c = Some g \<Longrightarrow> g \<le> SD_LG_LINE_SIZE"
  by (auto simp: Chunk_getLgGrainsize_def Let_def bind_eq_Some_conv split: if_splits)

lemma Line_insert_ok:
  assumes "Line_ok M L" "\<not> dm_isValid M (dm_default M)" "\<And>d. dm_isValid M (f d)"
    "chunk_ok c" "ck_addr c \<noteq> 0" "\<not> Chunk_isEmpty c" "i < 2 ^ (SD_LG_LINE_SIZE - ln_LgGrainsize L)"
  shows "\<exists>L' c'. Line_insert M f i L c = Some (L', c') \<and> Line_ok M L' \<and>
    line_part c c' \<and> stores_passed M f c c' L L'"
proof -
  obtain lg where lg: "Chunk_getLgGrainsize c = Some lg" "chunk_aligned lg c"
    using chunk_getLg_aligned [OF assms(4-6)] by blast
  obtain L1 where L1: "Line_materialize_if M L = Some L1" "Line_ok M L1" "Line_isMaterialized L1"
    "ln_LgGrainsize L1 = ln_LgGrainsize L" "\<And>b. b < 512 \<Longrightarrow> Line_view M L1 b = Line_view M L b"
    using Line_materialize_if_ok [OF assms(1,2)] by metis
  show ?thesis
  proof (cases "lg = SD_LG_LINE_SIZE \<and> ln_LgGrainsize L1 = SD_LG_LINE_SIZE")
    case True
    have i0: "0 = (0::nat) div 2 ^ ln_LgGrainsize L1" and z: "(0::nat) < 512" by simp_all
    obtain L2 where L2: "Line_set_entry M f 0 L1 = Some L2" "Line_ok M L2"
      "\<And>b. b < 512 \<Longrightarrow> if b div 2 ^ ln_LgGrainsize L1 = 0 then sets_from M f (Line_view M L1 b) (Line_view M L2 b)
         else Line_view M L2 b = Line_view M L1 b"
      using Line_set_entry_from [where f = f, OF L1(2,3) z i0 assms(3)] by metis
    have al: "chunk_aligned 9 c" using lg(2) True by (simp add: SD_LG_LINE_SIZE_def)
    have "unat (ck_addr c) mod 512 = 0" using al by (simp add: chunk_aligned_def mod_eq_0_iff_dvd)
    then have "stores_passed M f c (Chunk_next 9 c) L L2"
      unfolding stores_passed_def aligned_part(2) [OF al]
      using L2(3) L1(5) True by (auto simp: SD_LG_LINE_SIZE_def)
    then show ?thesis
      using L1(1) L2(1,2) lg(1) True aligned_part(1) [OF al]
      by (simp add: Line_insert_def SD_LG_LINE_SIZE_def)
  next
    case False
    obtain L2 where L2: "Line_fit M lg L1 = Some (L2, ln_LgGrainsize L2)" "Line_ok M L2"
      "chunk_aligned (ln_LgGrainsize L2) c" "\<And>b. b < 512 \<Longrightarrow> Line_view M L2 b = Line_view M L1 b"
      using Line_fit_ok [OF L1(2) assms(2) lg(2)] by blast
    have fit: "Line_isMaterialized L2" "ln_LgGrainsize L2 \<le> ln_LgGrainsize L1"
      using L2(1) L1(3) by (auto simp: Line_fit_def Line_refine_def Line_isMaterialized_def Let_def
          split: if_splits option.splits)
    have "i < 2 ^ (SD_LG_LINE_SIZE - ln_LgGrainsize L2)"
    proof -
      have "(2::nat) ^ (SD_LG_LINE_SIZE - ln_LgGrainsize L) \<le> 2 ^ (SD_LG_LINE_SIZE - ln_LgGrainsize L2)"
        using fit(2) L1(4) by (intro power_increasing) simp_all
      then show ?thesis using assms(7) by linarith
    qed
    then obtain prev where prev: "Line_at i L2 = Some prev" using Line_at_in [OF L2(2) fit(1)] by blast
    obtain L3 c' where L3: "Line_insert_loop M f prev (ln_LgGrainsize L2) L2 c = Some (L3, c')" "Line_ok M L3"
      "line_part c c'" "stores_passed M f c c' L2 L3"
      using Line_insert_loop_ok [where f = f, OF L2(2) fit(1) L2(3) assms(3)] by blast
    have "Line_insert M f i L c = Some (L3, c')"
      using lg(1) L1(1) False L2(1) prev L3(1) by (auto simp: Line_insert_def)
    moreover have "stores_passed M f c c' L L3" using L3(4) L2(4) L1(5) unfolding stores_passed_def by metis
    ultimately show ?thesis using L3(2,3) by blast
  qed
qed


subsection \<open>Tables\<close>

lemma part_skipped:
  assumes "line_part c c'"
  shows "skipped c c' a \<longleftrightarrow> unat a div 512 = unat (ck_addr c) div 512 \<and> line_passed c c' (unat a mod 512)"
proof (cases "unat a div 512 = unat (ck_addr c) div 512")
  case True
  let ?s = "min (unat (ck_size c)) (unat (ck_addr c') - unat (ck_addr c))"
  have "skipped c c' a \<longleftrightarrow> unat (ck_addr c) \<le> unat a \<and> unat a < unat (ck_addr c) + ?s"
    using assms by (auto simp: skipped_def line_part_def)
  also have "\<dots> \<longleftrightarrow> line_passed c c' (unat a mod 512)"
    unfolding same_block_range [OF True] by (auto simp: line_passed_def chunk_covers_def min_def)
  finally show ?thesis using True by simp
next
  case False
  have "unat a div 512 = unat (ck_addr c) div 512" if "skipped c c' a"
  proof -
    have "unat (ck_addr c) \<le> unat a" "unat a < (unat (ck_addr c) div 512 + 1) * 512"
      using that assms unfolding skipped_def line_part_def by linarith+
    then show ?thesis using less_mult_imp_div_less [of "unat a"] div_le_mono [of "unat (ck_addr c)" "unat a" 512]
      by (metis Suc_eq_plus1 le_antisym less_Suc_eq_le)
  qed
  then show ?thesis using False by blast
qed

lemma part_next:
  assumes "line_part c c'" "chunk48 c"
  shows "\<not> isLineStart (ck_addr c') \<Longrightarrow> unat (ck_addr c') div 512 = unat (ck_addr c) div 512"
    and "\<not> isPageStart (ck_addr c') \<Longrightarrow> sd_page (ck_addr c') = sd_page (ck_addr c)"
proof -
  let ?a = "unat (ck_addr c)" and ?b = "unat (ck_addr c')"
  have r: "?a < ?b" "?b \<le> (?a div 512 + 1) * 512" using assms(1) by (simp_all add: line_part_def)
  show same: "?b div 512 = ?a div 512" if "\<not> isLineStart (ck_addr c')"
  proof -
    have "?b \<noteq> (?a div 512 + 1) * 512" using that by (metis dvd_triv_right isLineStart_iff)
    then have "?b div 512 < ?a div 512 + 1" using r(2) by (intro less_mult_imp_div_less) simp
    moreover have "?a div 512 \<le> ?b div 512" using r(1) by (simp add: div_le_mono)
    ultimately show ?thesis by simp
  qed
  show "sd_page (ck_addr c') = sd_page (ck_addr c)" if np: "\<not> isPageStart (ck_addr c')"
  proof (cases "isLineStart (ck_addr c')")
    case True
    then obtain k where k: "?b = 512 * k" by (auto simp: isLineStart_iff)
    have "?a div 512 < k" using r(1) k by (simp add: less_mult_imp_div_less mult.commute)
    moreover have "k \<le> ?a div 512 + 1" using r(2) k by simp
    ultimately have "?b = (?a div 512 + 1) * 512" using k by simp
    then have "ck_addr c' = ck_addr (Chunk_next 9 c)" unfolding word_unat_eq_iff
      using Chunk_next_unat(1) [OF chunk48_ok [OF assms(2)], of 9] by simp
    then show ?thesis using next_same_page [OF assms(2), of 9] np by simp
  next
    case False
    then show ?thesis using same_line(1) [OF same] by simp
  qed
qed

text \<open>No operation removes a page or changes what a page holds besides its lines.\<close>

definition pages_kept :: "('a, 'm) LPage_t_scheme \<Rightarrow> ('a, 'm) Table_t \<Rightarrow> ('a, 'm) Table_t \<Rightarrow> bool" where
  "pages_kept P0 T T' \<longleftrightarrow> (\<forall>p. case T p of
     Some P \<Rightarrow> \<exists>P'. T' p = Some P' \<and> LPage_t.more P' = LPage_t.more P
   | None \<Rightarrow> T' p = None \<or> (\<exists>P'. T' p = Some P' \<and> LPage_t.more P' = LPage_t.more P0))"

lemma pages_kept_refl [simp]: "pages_kept P0 T T"
  by (simp add: pages_kept_def split: option.splits)

lemma pages_kept_live: "pages_kept P0 T T' \<Longrightarrow> T p \<noteq> None \<Longrightarrow> T' p \<noteq> None"
  by (auto simp: pages_kept_def split: option.splits)

lemma pages_kept_trans:
  assumes "pages_kept P0 T T1" "pages_kept P0 T1 T2"
  shows "pages_kept P0 T T2"
  unfolding pages_kept_def
proof
  fix p
  have h: "case T p of Some P \<Rightarrow> \<exists>P'. T1 p = Some P' \<and> LPage_t.more P' = LPage_t.more P
     | None \<Rightarrow> T1 p = None \<or> (\<exists>P'. T1 p = Some P' \<and> LPage_t.more P' = LPage_t.more P0)"
    "case T1 p of Some P \<Rightarrow> \<exists>P'. T2 p = Some P' \<and> LPage_t.more P' = LPage_t.more P
     | None \<Rightarrow> T2 p = None \<or> (\<exists>P'. T2 p = Some P' \<and> LPage_t.more P' = LPage_t.more P0)"
    using assms by (simp_all add: pages_kept_def)
  then show "case T p of Some P \<Rightarrow> \<exists>P'. T2 p = Some P' \<and> LPage_t.more P' = LPage_t.more P
     | None \<Rightarrow> T2 p = None \<or> (\<exists>P'. T2 p = Some P' \<and> LPage_t.more P' = LPage_t.more P0)"
    by (cases "T p"; cases "T1 p") auto
qed

lemma store_line_kept: "store_line T lp L = Some T' \<Longrightarrow> pages_kept P0 T T'"
  by (auto simp: store_line_def pages_kept_def split: option.splits)

lemma u_ensurePage_kept: "u_ok T I \<Longrightarrow> u_ensurePage P0 T I = Some (T', I') \<Longrightarrow> pages_kept P0 T T'"
  by (auto simp: u_ensurePage_def u_ok_def setPage_def pages_kept_def bind_eq_Some_conv Let_def it_getAddress_def
      split: if_splits option.splits)

text \<open>The entry of an address, and an update iterator between two steps.  The code leaves the entry of the
  iterator behind when it moves to a page that is not there.\<close>

definition entry_of :: "('a, 'm) Table_t \<Rightarrow> u64 \<Rightarrow> Entry_t" where
  "entry_of T a = \<lparr>en_Address = a, en_Page = map_option (\<lambda>P. sd_page a) (T (sd_page a))\<rparr>"

definition entry_live :: "('a, 'm) Table_t \<Rightarrow> Entry_t \<Rightarrow> bool" where
  "entry_live T e \<longleftrightarrow> (\<forall>p. en_Page e = Some p \<longrightarrow> T p \<noteq> None)"

definition u_inv :: "('a, 'm) Table_t \<Rightarrow> Iter_t \<Rightarrow> bool" where
  "u_inv T I \<longleftrightarrow> entry_live T (it_Entry I) \<and>
     (it_isEnd I \<or> u_ok T I \<and> it_getAddress I \<noteq> 0 \<and> (it_Page I \<noteq> None \<longrightarrow> it_Entry I = entry_of T (it_getAddress I)))"

lemma entry_live_of: "entry_live T (entry_of T a)"
  by (auto simp: entry_live_def entry_of_def)

lemma entry_live_kept: "entry_live T e \<Longrightarrow> pages_kept P0 T T' \<Longrightarrow> entry_live T' e"
  using pages_kept_live unfolding entry_live_def by metis

lemma Entry_get_live:
  assumes "tb_ok M T" "entry_live T e"
  shows "\<exists>d. Entry_get M T e = Some d"
proof (cases "en_Page e")
  case (Some p)
  then obtain P where P: "T p = Some P" using assms(2) by (auto simp: entry_live_def)
  then have "Line_ok M (pg_lines P (sd_line (en_Address e)))" using assms(1) by (simp add: tb_ok_def)
  then show ?thesis using Some P by (simp add: Entry_get_def deref_line_def Line_get_view)
qed (simp add: Entry_get_def)

lemma u_advance_any:
  assumes "\<not> it_isEnd I" "chunk48 (it_Accessed I)"
    and page: "\<not> isPageStart (it_getAddress I) \<Longrightarrow>
      it_Page I = map_option (\<lambda>P. sd_page (it_getAddress I)) (T (sd_page (it_getAddress I)))"
    and line: "\<not> isLineStart (it_getAddress I) \<Longrightarrow>
      it_Line I = Some (sd_page (it_getAddress I), sd_line (it_getAddress I))"
  shows "\<exists>I'. u_advance T I = Some I' \<and> it_Accessed I' = it_Accessed I \<and> u_ok T I'"
proof (cases "isLineStart (it_getAddress I)")
  case True
  then show ?thesis using u_advance_ok [where I = I and T = T, OF assms(1,2) True page] by blast
next
  case False
  then have "\<not> isPageStart (it_getAddress I)" using pageStart_lineStart by blast
  then show ?thesis using False assms by (simp add: u_advance_def u_ok_def it_getAddress_def)
qed

definition inserts ::
  "'a DataMethods \<Rightarrow> ('a \<Rightarrow> 'a) \<Rightarrow> Chunk_t \<Rightarrow> Chunk_t \<Rightarrow> ('a, 'm) Table_t \<Rightarrow> ('a, 'm) Table_t \<Rightarrow> bool" where
  "inserts M f c c' T T' \<longleftrightarrow> (\<forall>a. if skipped c c' a then sets_from M f (tb_view M T a) (tb_view M T' a)
     else tb_view M T' a = tb_view M T a)"

lemma inserts_trans:
  assumes "chunk_to c c1" "chunk_to c1 c2" "\<not> Chunk_isEmpty c1" "inserts M f c c1 T T1" "inserts M f c1 c2 T1 T2"
  shows "inserts M f c c2 T T2"
  unfolding inserts_def
proof
  fix a
  have sk: "skipped c c2 a \<longleftrightarrow> skipped c c1 a \<or> skipped c1 c2 a" using skipped_trans [OF assms(1-3)] .
  have dis: "\<not> (skipped c c1 a \<and> skipped c1 c2 a)" by (auto simp: skipped_def)
  have h: "if skipped c c1 a then sets_from M f (tb_view M T a) (tb_view M T1 a) else tb_view M T1 a = tb_view M T a"
    "if skipped c1 c2 a then sets_from M f (tb_view M T1 a) (tb_view M T2 a) else tb_view M T2 a = tb_view M T1 a"
    using assms(4,5) by (simp_all add: inserts_def)
  show "if skipped c c2 a then sets_from M f (tb_view M T a) (tb_view M T2 a) else tb_view M T2 a = tb_view M T a"
    using h sk dis by (auto split: if_splits)
qed

lemma u_insert_loop_ok:
  assumes M: "\<not> dm_isValid M (dm_default M)" "\<And>d. dm_isValid M (f d)" "page_fresh M P0"
    and T: "tb_ok M T" and I: "u_ok T I" "it_getAddress I \<noteq> 0" "entry_live T (it_Entry I)"
  shows "\<exists>T' I'. u_insert_loop M P0 f prev T I = Some (T', I') \<and> tb_ok M T' \<and> u_inv T' I' \<and>
    chunk_to (it_Accessed I) (it_Accessed I') \<and> unat (it_getAddress I) < unat (it_getAddress I') \<and>
    pages_kept P0 T T' \<and> inserts M f (it_Accessed I) (it_Accessed I') T T'"
  using T I
proof (induction "unat (ck_size (it_Accessed I))" arbitrary: I T rule: less_induct)
  case less
  let ?c = "it_Accessed I" and ?a = "it_getAddress I"
  have c: "chunk48 ?c" "\<not> Chunk_isEmpty ?c" using less.prems(2) by (simp_all add: u_ok_def it_isEnd_def)
  obtain T0 J P where J: "u_ensurePage P0 T I = Some (T0, J)" "tb_ok M T0" "T0 (sd_page ?a) = Some P"
    "it_Accessed J = ?c" "it_Line J = Some (sd_page ?a, sd_line ?a)" "it_Page J = Some (sd_page ?a)"
    "it_Entry J = it_Entry I" "\<And>a. tb_view M T0 a = tb_view M T a"
    using u_ensurePage_ok [OF M(3) less.prems(1,2)] by blast
  have k0: "pages_kept P0 T T0" by (rule u_ensurePage_kept [OF less.prems(2) J(1)])
  obtain L where L: "tb_line T0 ?a = Some L" using J(3) tb_line_page by metis
  have Lok: "Line_ok M L" by (rule tb_line_ok [OF J(2) L])
  let ?i = "Line_getIdx (sd_byte (ck_addr ?c)) L"
  have i: "?i < 2 ^ (SD_LG_LINE_SIZE - ln_LgGrainsize L)"
    unfolding Line_getIdx_byte using Line_idx_bound Lok by (simp add: Line_ok_def)
  have a0: "ck_addr ?c \<noteq> 0" using less.prems(3) by (simp add: it_getAddress_def)
  obtain L' c' where L': "Line_insert M f ?i L ?c = Some (L', c')" "Line_ok M L'" "line_part ?c c'"
    "stores_passed M f ?c c' L L'"
    using Line_insert_ok [where f = f, OF Lok M(1,2) chunk48_ok [OF c(1)] a0 c(2) i] by blast
  obtain T1 where T1: "store_line T0 (it_Line J) L' = Some T1" "tb_ok M T1"
    "\<And>p. T1 p = None \<longleftrightarrow> T0 p = None"
    "\<And>b. tb_view M T1 b = (if unat b div 512 = unat ?a div 512
       then Line_view M L' (unat b mod 512) else tb_view M T0 b)"
    using store_line_ok [OF J(2,3) L'(2)] J(5) by auto
  have k1: "pages_kept P0 T T1" by (rule pages_kept_trans [OF k0 store_line_kept [OF T1(1)]])
  have ins: "inserts M f ?c c' T T1"
    unfolding inserts_def
  proof
    fix b
    show "if skipped ?c c' b then sets_from M f (tb_view M T b) (tb_view M T1 b) else tb_view M T1 b = tb_view M T b"
    proof (cases "unat b div 512 = unat ?a div 512")
      case True
      then have "tb_view M T0 b = Line_view M L (unat b mod 512)"
        using tb_line_same [OF True, of T0] L by (simp add: tb_view_def)
      then show ?thesis
        using T1(4) [of b] True part_skipped [OF L'(3), of b] L'(4) J(8) [of b]
        by (auto simp: stores_passed_def it_getAddress_def)
    next
      case False
      then show ?thesis using T1(4) [of b] J(8) [of b] part_skipped [OF L'(3), of b] by (simp add: it_getAddress_def)
    qed
  qed
  have to: "chunk_to ?c c'" "unat ?a < unat (ck_addr c')" using L'(3) by (simp_all add: line_part_def it_getAddress_def)
  define N where "N = J\<lparr>it_Accessed := c'\<rparr>"
  have ln: "entry_live T1 (it_Entry N)" using entry_live_kept [OF less.prems(4) k1] J(7) by (simp add: N_def)
  show ?case
  proof (cases "Chunk_isEmpty c'")
    case True
    then have "u_insert_loop M P0 f prev T I = Some (T1, N)"
      using J(1,4,5) L L'(1) T1(1) by (subst u_insert_loop.simps) (simp add: tb_line_def N_def Let_def)
    moreover have "u_inv T1 N" using True ln by (simp add: u_inv_def it_isEnd_def N_def)
    ultimately show ?thesis using T1(2) to k1 ins by (auto simp: N_def it_getAddress_def)
  next
    case False
    have c'48: "chunk48 c'" using to(1) chunk_to_48 c(1) False by blast
    note pn = part_next [OF L'(3) c(1)]
    have "T1 (sd_page ?a) \<noteq> None" using T1(3) J(3) by simp
    then have page: "\<not> isPageStart (it_getAddress N) \<Longrightarrow>
        it_Page N = map_option (\<lambda>P. sd_page (it_getAddress N)) (T1 (sd_page (it_getAddress N)))"
      using pn(2) J(6) by (auto simp: N_def it_getAddress_def)
    have line: "\<not> isLineStart (it_getAddress N) \<Longrightarrow> it_Line N = Some (sd_page (it_getAddress N), sd_line (it_getAddress N))"
      using same_line [OF pn(1)] J(5) by (simp add: N_def it_getAddress_def)
    have Nne: "\<not> it_isEnd N" "chunk48 (it_Accessed N)" using False c'48 by (simp_all add: N_def it_isEnd_def)
    obtain K where K: "u_advance T1 N = Some K" "it_Accessed K = c'" "u_ok T1 K"
      using u_advance_any [where I = N and T = T1, OF Nne page line] by (auto simp: N_def)
    define K' where "K' = K\<lparr>it_Entry := entry_of T1 (ck_addr c')\<rparr>"
    have ea: "Entry_at T1 (ck_addr c') = Some (entry_of T1 (ck_addr c'))"
      using Entry_at_48 [OF c'48 False] by (simp add: entry_of_def)
    have eg: "Entry_get M T1 (entry_of T1 (ck_addr c')) = Some (tb_view M T1 (ck_addr c'))"
      using Entry_get_view [OF T1(2)] by (simp add: entry_of_def)
    have uk: "u_ok T1 K'" using K(3) by (simp add: u_ok_def K'_def it_isEnd_def it_getAddress_def)
    have a': "it_getAddress K' \<noteq> 0" using to(2) K(2) by (auto simp: K'_def it_getAddress_def simp flip: unat_eq_zero)
    have lk: "entry_live T1 (it_Entry K')" by (simp add: K'_def entry_live_of)
    define more where "more \<longleftrightarrow> (case tb_view M T1 (ck_addr c') of None \<Rightarrow> True
       | Some d \<Rightarrow> dm_isValid M prev \<and> dm_eq M prev d)"
    have step: "u_insert_loop M P0 f prev T I =
        (if more then u_insert_loop M P0 f prev T1 K' else Some (T1, K'))"
      using J(1,4,5) L L'(1) T1(1) False K(1) ea eg
      by (subst u_insert_loop.simps) (simp add: tb_line_def Let_def more_def K'_def N_def split: option.split)
    show ?thesis
    proof (cases more)
      case False
      have "u_inv T1 K'" using uk a' lk by (simp add: u_inv_def K'_def K(2) it_getAddress_def)
      then show ?thesis using step False T1(2) to k1 ins K(2) by (auto simp: K'_def it_getAddress_def)
    next
      case True
      have Kc: "it_Accessed K' = c'" by (simp add: K'_def K(2))
      have "unat (ck_size c') < unat (ck_size ?c)" using to chunk_to_size_less c(2) by (simp add: it_getAddress_def)
      then obtain T' I' where r: "u_insert_loop M P0 f prev T1 K' = Some (T', I')" "tb_ok M T'" "u_inv T' I'"
        "chunk_to c' (it_Accessed I')" "unat (it_getAddress K') < unat (it_getAddress I')"
        "pages_kept P0 T1 T'" "inserts M f c' (it_Accessed I') T1 T'"
        using less.hyps [of K' T1, OF _ T1(2) uk a' lk] unfolding Kc by blast
      have "chunk_to ?c (it_Accessed I')" by (rule chunk_to_trans [OF to(1) r(4) \<open>\<not> Chunk_isEmpty c'\<close>])
      moreover have "inserts M f ?c (it_Accessed I') T T'"
        by (rule inserts_trans [OF to(1) r(4) \<open>\<not> Chunk_isEmpty c'\<close> ins r(7)])
      moreover have "unat ?a < unat (it_getAddress I')" using to(2) r(5) Kc by (simp add: it_getAddress_def)
      ultimately show ?thesis using step True r pages_kept_trans [OF k1 r(6)] by auto
    qed
  qed
qed

lemma u_insert_ok:
  assumes M: "\<not> dm_isValid M (dm_default M)" "\<And>d. dm_isValid M (f d)" "page_fresh M P0"
    and T: "tb_ok M T" and I: "u_inv T I" "\<not> it_isEnd I"
  shows "\<exists>T' I'. u_insert M P0 f T I = Some (T', I') \<and> tb_ok M T' \<and> u_inv T' I' \<and>
    chunk_to (it_Accessed I) (it_Accessed I') \<and> unat (it_getAddress I) < unat (it_getAddress I') \<and>
    pages_kept P0 T T' \<and> inserts M f (it_Accessed I) (it_Accessed I') T T'"
proof -
  have J: "u_ok T I" "it_getAddress I \<noteq> 0" "entry_live T (it_Entry I)" using I by (simp_all add: u_inv_def)
  obtain d where "Entry_get M T (it_Entry I) = Some d" using Entry_get_live [OF T J(3)] by blast
  then show ?thesis using u_insert_loop_ok [OF M T J] by (simp add: u_insert_def)
qed


subsection \<open>\<open>next\<close>\<close>

definition next_equal :: "'a DataMethods \<Rightarrow> ('a, 'm) Table_t \<Rightarrow> 'a \<Rightarrow> u64 \<Rightarrow> bool" where
  "next_equal M T q a \<longleftrightarrow> (\<exists>e. tb_view M T a = Some e \<and> (e = q \<or> dm_eq M q e))"

lemma u_ok_line:
  assumes "u_ok T I" "T (sd_page (it_getAddress I)) \<noteq> None"
  shows "\<exists>L. deref_line T (it_Line I) = Some L \<and> tb_line T (it_getAddress I) = Some L"
  using assms by (auto simp: u_ok_def tb_line_def deref_line_def)

lemma u_get_ok:
  assumes "tb_ok M T" "u_inv T I" "\<not> it_isEnd I"
  shows "u_get M T I = Some (tb_view M T (it_getAddress I))"
proof (cases "T (sd_page (it_getAddress I))")
  case None
  then show ?thesis using assms by (simp add: u_get_def u_inv_def u_ok_def tb_view_page_None)
next
  case (Some P)
  then obtain L where L: "deref_line T (it_Line I) = Some L" "tb_line T (it_getAddress I) = Some L"
    using u_ok_line assms(2,3) by (metis option.distinct(1) u_inv_def)
  then show ?thesis using Some assms Line_get_view [OF tb_line_ok [OF assms(1) L(2)], of "it_getAddress I"]
    by (auto simp: u_get_def u_inv_def u_ok_def tb_view_def it_getAddress_def)
qed

lemma u_next_loop_ok:
  assumes "tb_ok M T" "u_ok T I" "entry_live T (it_Entry I)" "next_equal M T q (it_getAddress I)"
  shows "\<exists>I'. u_next_loop M T (Some q) I = Some I' \<and> u_inv T I' \<and>
    chunk_to (it_Accessed I) (it_Accessed I') \<and> unat (it_getAddress I) < unat (it_getAddress I') \<and>
    (\<forall>a. skipped (it_Accessed I) (it_Accessed I') a \<longrightarrow> next_equal M T q a)"
  using assms(2-4)
proof (induction "unat (ck_size (it_Accessed I))" arbitrary: I rule: less_induct)
  case less
  let ?c = "it_Accessed I" and ?a = "it_getAddress I"
  have c: "chunk48 ?c" "\<not> Chunk_isEmpty ?c" using less.prems(1) by (simp_all add: u_ok_def it_isEnd_def)
  have Pn: "T (sd_page ?a) \<noteq> None"
    using less.prems(3) tb_view_page_None [of T ?a M] unfolding next_equal_def by force
  then obtain L where L: "deref_line T (it_Line I) = Some L" "tb_line T ?a = Some L"
    using u_ok_line [OF less.prems(1)] by blast
  let ?g = "ln_LgGrainsize L"
  have g: "?g \<le> 9" using tb_line_ok [OF assms(1) L(2)] by (simp add: Line_ok_def SD_LG_LINE_SIZE_def)
  then have g30: "?g \<le> 30" by simp
  let ?A = "Chunk_next ?g ?c"
  note nx = Chunk_next_to [OF c(1) g30]
  have lt: "unat ?a < unat (ck_addr ?A)" using nx(2) by (simp add: it_getAddress_def)
  have same: "next_equal M T q a" if "skipped ?c ?A a" for a
  proof -
    have "unat a div 2 ^ ?g = unat ?a div 2 ^ ?g"
      using skipped_next_grain [OF c(1) g30 that] by (simp add: it_getAddress_def)
    from tb_view_same_entry [OF assms(1) L(2) this] show ?thesis using less.prems(3) by (simp add: next_equal_def)
  qed
  define N where "N = I\<lparr>it_Accessed := ?A\<rparr>"
  show ?case
  proof (cases "Chunk_isEmpty ?A")
    case True
    then have "u_next_loop M T (Some q) I = Some N"
      using L(1) by (subst u_next_loop.simps) (simp add: Let_def N_def)
    moreover have "u_inv T N" using True less.prems(2) by (simp add: u_inv_def it_isEnd_def N_def)
    ultimately show ?thesis using nx(1) lt same by (auto simp: N_def it_getAddress_def)
  next
    case False
    have A48: "chunk48 ?A" using chunk_to_48 [OF nx(1) c(1) False] .
    have Nne: "\<not> it_isEnd N" "chunk48 (it_Accessed N)" using False A48 by (simp_all add: N_def it_isEnd_def)
    have Pg: "it_Page I = Some (sd_page ?a)" "it_Line I = Some (sd_page ?a, sd_line ?a)"
      using less.prems(1) Pn by (auto simp: u_ok_def)
    have page: "\<not> isPageStart (it_getAddress N) \<Longrightarrow>
        it_Page N = map_option (\<lambda>P. sd_page (it_getAddress N)) (T (sd_page (it_getAddress N)))"
      using next_same_page [OF c(1) g30] Pg(1) Pn by (auto simp: N_def it_getAddress_def)
    have line: "\<not> isLineStart (it_getAddress N) \<Longrightarrow> it_Line N = Some (sd_page (it_getAddress N), sd_line (it_getAddress N))"
      using same_line [OF next_same_line [OF c(1) g]] Pg(2) by (simp add: N_def it_getAddress_def)
    define N1 where "N1 = N\<lparr>it_Page := map_option (\<lambda>P. sd_page (it_getAddress N)) (T (sd_page (it_getAddress N)))\<rparr>"
    have s1: "(if isPageStart (ck_addr ?A) then u_nextPage T N else Some N) = Some N1"
      using u_nextPage_48 [OF Nne(2,1), of T] page by (auto simp: N1_def N_def it_getAddress_def)
    have A0: "ck_addr ?A \<noteq> 0" using lt by (auto simp flip: unat_eq_zero)
    show ?thesis
    proof (cases "T (sd_page (ck_addr ?A))")
      case None
      have ls: "isLineStart (ck_addr ?A)"
        using None page line Pg same_line(1) [OF next_same_line [OF c(1) g]] Pn
        by (metis it_getAddress_def)
      have "u_next_loop M T (Some q) I = Some (N1\<lparr>it_Line := None\<rparr>)"
      proof -
        have "u_nextLine N1 = Some (False, N1\<lparr>it_Line := None\<rparr>)"
          using None False by (simp add: u_nextLine_def N1_def N_def it_isEnd_def it_getAddress_def)
        then show ?thesis using L(1) False s1 ls
          by (subst u_next_loop.simps) (cases "isPageStart (ck_addr ?A)"; simp add: Let_def N_def [symmetric])
      qed
      moreover have "u_inv T (N1\<lparr>it_Line := None\<rparr>)"
        using None less.prems(2) Nne A0 by (simp add: u_inv_def u_ok_def N1_def N_def it_isEnd_def it_getAddress_def)
      ultimately show ?thesis using nx(1) lt same by (auto simp: N1_def N_def it_getAddress_def)
    next
      case (Some P)
      define K where "K = N1\<lparr>it_Line := Some (sd_page (ck_addr ?A), sd_line (ck_addr ?A)),
        it_Entry := entry_of T (ck_addr ?A)\<rparr>"
      define N2 where "N2 = N1\<lparr>it_Line := Some (sd_page (ck_addr ?A), sd_line (ck_addr ?A))\<rparr>"
      have s2: "(if isLineStart (ck_addr ?A) then u_nextLine N1 else Some (True, N1)) = Some (True, N2)"
        using line Some False
        by (auto simp: u_nextLine_def it_at_line_def N2_def N1_def N_def it_isEnd_def it_getAddress_def)
      have ea: "Entry_at T (ck_addr ?A) = Some (entry_of T (ck_addr ?A))"
        using Entry_at_48 [OF A48 False] by (simp add: entry_of_def)
      have eg: "Entry_get M T (entry_of T (ck_addr ?A)) = Some (tb_view M T (ck_addr ?A))"
        using Entry_get_view [OF assms(1)] by (simp add: entry_of_def)
      have K: "it_Accessed K = ?A" "u_ok T K" "u_inv T K"
        using Some Nne A0 entry_live_of [of T]
        by (simp_all add: K_def N1_def N_def u_inv_def u_ok_def it_isEnd_def it_getAddress_def)
      define more where "more \<longleftrightarrow> (\<exists>d. tb_view M T (ck_addr ?A) = Some d \<and> dm_eq M q d)"
      have step: "u_next_loop M T (Some q) I = (if more then u_next_loop M T (Some q) K else Some K)"
        using L(1) False s1 s2 ea eg
        by (subst u_next_loop.simps)
           (cases "isPageStart (ck_addr ?A)"; cases "isLineStart (ck_addr ?A)"; cases "tb_view M T (ck_addr ?A)";
             simp add: Let_def N_def [symmetric] more_def K_def N2_def)
      show ?thesis
      proof (cases more)
        case False
        then show ?thesis using step K nx(1) lt same by (auto simp: it_getAddress_def)
      next
        case True
        have sz: "unat (ck_size ?A) < unat (ck_size ?c)" using chunk_to_size_less [OF nx c(2)] .
        have "next_equal M T q (it_getAddress K)" using True K(1) by (auto simp: more_def next_equal_def it_getAddress_def)
        moreover have "entry_live T (it_Entry K)" using K(3) by (simp add: u_inv_def)
        ultimately obtain I' where r: "u_next_loop M T (Some q) K = Some I'" "u_inv T I'" "chunk_to ?A (it_Accessed I')"
          "unat (it_getAddress K) < unat (it_getAddress I')"
          "\<And>a. skipped ?A (it_Accessed I') a \<Longrightarrow> next_equal M T q a"
          using less.hyps [of K] K(1,2) sz by auto
        have "next_equal M T q a" if "skipped ?c (it_Accessed I') a" for a
          using skipped_trans [OF nx(1) r(3) False] that same r(5) by blast
        then show ?thesis
          using step True r chunk_to_trans [OF nx(1) r(3) False] lt K(1) by (auto simp: it_getAddress_def)
      qed
    qed
  qed
qed

lemma u_next_ok:
  assumes "tb_ok M T" "u_inv T I" "\<not> it_isEnd I" "tb_view M T (it_getAddress I) = Some q"
  shows "\<exists>I'. u_next M T I = Some I' \<and> u_inv T I' \<and>
    chunk_to (it_Accessed I) (it_Accessed I') \<and> unat (it_getAddress I) < unat (it_getAddress I') \<and>
    (\<forall>a. skipped (it_Accessed I) (it_Accessed I') a \<longrightarrow> next_equal M T q a)"
proof -
  have Pn: "T (sd_page (it_getAddress I)) \<noteq> None" using assms(4) tb_view_page_None [of T _ M] by fastforce
  have I: "u_ok T I" "entry_live T (it_Entry I)" "it_Entry I = entry_of T (it_getAddress I)"
    "it_Page I \<noteq> None" "it_Line I \<noteq> None"
    using assms(2,3) Pn by (auto simp: u_inv_def u_ok_def)
  have "Entry_get M T (it_Entry I) = Some (Some q)"
    using Entry_get_view [OF assms(1), of "it_getAddress I"] assms(4) unfolding I(3) entry_of_def by simp
  then have "u_next M T I = u_next_loop M T (Some q) I" using assms(3) I(4,5) by (auto simp: u_next_def)
  then show ?thesis using u_next_loop_ok [OF assms(1) I(1,2)] assms(4) by (simp add: next_equal_def)
qed

lemma Update_iterator_inv:
  assumes "range48 addr s"
  shows "\<exists>I. Update_iterator T (Chunk addr s) = Some I \<and> it_Accessed I = Chunk addr s \<and> u_inv T I"
proof -
  obtain I where I: "Update_iterator T (Chunk addr s) = Some I" "it_Accessed I = Chunk addr s" "u_ok T I"
    "it_Entry I = entry_of T addr"
    using Update_iterator_ok [OF range48D(1,2) [OF assms], of T] by (auto simp: entry_of_def)
  then show ?thesis using range48D(3) [OF assms] entry_live_of [of T addr]
    by (auto simp: u_inv_def it_getAddress_def)
qed

end
