(* ===== verification/ShadowOccupancy.thy ===== *)
theory ShadowOccupancy
  imports ShadowCheck
begin

text \<open>
  The occupancy bits of the shadow memory: \<open>setOccupied\<close> marks exactly the bytes of its range and
  answers whether one of them was not marked before; \<open>clearOccupied\<close> forgets all marks, because every
  word with a mark is among the touched words.
\<close>

subsection \<open>Words and bits\<close>

lemma occupancy_consts:
  "OCCUPANCY_WORD_SIZE = 64" "OCCUPANCY_BIT_MASK = mask 6"
  "OCCUPANCY_WORD_IDX = NOT (mask 6) XOR NOT (mask 30)"
  by (simp_all add: OCCUPANCY_WORD_SIZE_def OCCUPANCY_BIT_MASK_def OCCUPANCY_WORD_IDX_def OCCUPANCY_WORD_MASK_def
      LG_OCCUPANCY_WORD_SIZE_def LG_OCCUPANCY_PAGE_SIZE_def SD_LG_PAGE_SIZE_def SD_LG_LINE_SIZE_def mask_eq_exp_minus_1)

lemma occupancyWord_take: "occupancyWord a = take_bit 24 (drop_bit 6 a)"
  unfolding occupancyWord_def occupancy_consts LG_OCCUPANCY_WORD_SIZE_def
  by (rule bit_eqI) (auto simp: bit_simps)

lemma occupancyWord_unat: "unat (occupancyWord a) = unat a div 64 mod 2 ^ 24"
  by (simp only: occupancyWord_take unsigned_take_bit_eq unat_drop_bit_eq)
     (simp add: take_bit_eq_mod drop_bit_eq_div)

lemma occupancyWordStartBit_unat: "unat (occupancyWordStartBit a) = unat a mod 64"
  by (simp only: occupancyWordStartBit_def occupancy_consts take_bit_eq_mask [symmetric] unsigned_take_bit_eq)
     (simp add: take_bit_eq_mod)

lemma nextOccupancyWord_next: "nextOccupancyWord c = Chunk_next 6 c"
  by (simp add: nextOccupancyWord_def Chunk_next_def LG_OCCUPANCY_WORD_SIZE_def)

lemma occupancy_word_eq:
  assumes "sd_page a = sd_page b"
  shows "occupancyWord a = occupancyWord b \<longleftrightarrow> unat a div 64 = unat b div 64"
proof -
  have d: "x div 64 = x div 2 ^ 30 * 2 ^ 24 + x div 64 mod 2 ^ 24" for x :: nat
  proof -
    have "x div 2 ^ 30 = x div 64 div 2 ^ 24" by (simp only: div_mult2_eq [symmetric]) simp
    then show ?thesis using div_mult_mod_eq [of "x div 64" "2 ^ 24"] by simp
  qed
  have p: "unat a div 2 ^ 30 = unat b div 2 ^ 30" using assms by (simp only: sd_page_unat [symmetric])
  show ?thesis
  proof
    assume "occupancyWord a = occupancyWord b"
    then have "unat a div 64 mod 2 ^ 24 = unat b div 64 mod 2 ^ 24"
      by (simp only: occupancyWord_unat [symmetric])
    then show "unat a div 64 = unat b div 64" using d [of "unat a"] d [of "unat b"] p by argo
  next
    assume "unat a div 64 = unat b div 64"
    then show "occupancyWord a = occupancyWord b" by (simp only: word_unat_eq_iff occupancyWord_unat)
  qed
qed

lemma bit_occupancy_mask:
  assumes "n < 64"
  shows "bit (occupancy_mask c) n \<longleftrightarrow>
    unat (ck_addr c) mod 64 \<le> n \<and> n < unat (ck_addr c) mod 64 + unat (ck_size c)"
proof (cases "ck_size c \<ge> OCCUPANCY_WORD_SIZE")
  case True
  then have "64 \<le> unat (ck_size c)" by (simp add: occupancy_consts word_le_nat_alt)
  then show ?thesis
    using True assms by (auto simp: occupancy_mask_def occupancyWordStartBit_unat bit_simps)
next
  case False
  then have s: "unat (ck_size c) < 64" by (simp add: occupancy_consts word_le_nat_alt)
  have "push_bit (unat (ck_size c)) 1 - 1 = (mask (unat (ck_size c)) :: u64)"
    by (simp add: mask_eq_exp_minus_1 push_bit_eq_mult)
  then have "occupancy_mask c = push_bit (unat (ck_addr c) mod 64) (mask (unat (ck_size c)))"
    using False by (simp only: occupancy_mask_def occupancyWordStartBit_unat if_False)
  then show ?thesis using assms s by (auto simp: bit_simps)
qed

subsection \<open>One page\<close>

definition occ_bit :: "Page_t \<Rightarrow> u64 \<Rightarrow> bool" where
  "occ_bit P a \<longleftrightarrow> bit (pg_occupancy P (occupancyWord a)) (unat a mod 64)"

text \<open>What a step over the page establishes; \<open>pg\<close> is the index of the page.\<close>

definition occ_step :: "u64 \<Rightarrow> Page_t \<Rightarrow> Chunk_t \<Rightarrow> u64 list \<Rightarrow> Page_t \<Rightarrow> Chunk_t \<Rightarrow> u64 list \<Rightarrow> bool" where
  "occ_step pg P c TW P' c' TW' \<longleftrightarrow>
     chunk_to c c' \<and> pg_lines P' = pg_lines P \<and>
     (\<forall>a. skipped c c' a \<longrightarrow> sd_page a = pg) \<and>
     (\<forall>a. sd_page a = pg \<longrightarrow> (occ_bit P' a \<longleftrightarrow> occ_bit P a \<or> skipped c c' a)) \<and>
     (\<exists>ts. TW' = TW @ ts \<and> (\<forall>t \<in> set ts. sd_page t = pg) \<and>
        (\<forall>w. pg_occupancy P' w \<noteq> 0 \<longrightarrow> pg_occupancy P w \<noteq> 0 \<or> (\<exists>t \<in> set ts. occupancyWord t = w)))"

lemma occ_step_trans:
  assumes "occ_step pg P c TW P1 c1 TW1" "occ_step pg P1 c1 TW1 P2 c2 TW2" "\<not> Chunk_isEmpty c1"
  shows "occ_step pg P c TW P2 c2 TW2"
proof -
  have ch: "chunk_to c c1" "chunk_to c1 c2" using assms by (simp_all add: occ_step_def)
  note sk = skipped_trans [OF ch assms(3)]
  obtain ts where ts: "TW1 = TW @ ts" "\<forall>t \<in> set ts. sd_page t = pg"
    "\<forall>w. pg_occupancy P1 w \<noteq> 0 \<longrightarrow> pg_occupancy P w \<noteq> 0 \<or> (\<exists>t \<in> set ts. occupancyWord t = w)"
    using assms(1) unfolding occ_step_def by blast
  obtain us where us: "TW2 = TW1 @ us" "\<forall>t \<in> set us. sd_page t = pg"
    "\<forall>w. pg_occupancy P2 w \<noteq> 0 \<longrightarrow> pg_occupancy P1 w \<noteq> 0 \<or> (\<exists>t \<in> set us. occupancyWord t = w)"
    using assms(2) unfolding occ_step_def by blast
  have "TW2 = TW @ (ts @ us) \<and> (\<forall>t \<in> set (ts @ us). sd_page t = pg) \<and>
      (\<forall>w. pg_occupancy P2 w \<noteq> 0 \<longrightarrow> pg_occupancy P w \<noteq> 0 \<or> (\<exists>t \<in> set (ts @ us). occupancyWord t = w))"
    using ts us by (metis (no_types, lifting) UnCI UnE append.assoc set_append)
  then have "\<exists>ts. TW2 = TW @ ts \<and> (\<forall>t \<in> set ts. sd_page t = pg) \<and>
      (\<forall>w. pg_occupancy P2 w \<noteq> 0 \<longrightarrow> pg_occupancy P w \<noteq> 0 \<or> (\<exists>t \<in> set ts. occupancyWord t = w))"
    by blast
  then show ?thesis
    using assms(1,2) chunk_to_trans [OF ch assms(3)] sk unfolding occ_step_def by auto
qed

lemma occ_step_one:
  assumes c: "chunk48 c" "\<not> Chunk_isEmpty c"
    and P': "P' = P\<lparr>pg_occupancy := (pg_occupancy P)(occupancyWord (ck_addr c) :=
      pg_occupancy P (occupancyWord (ck_addr c)) OR occupancy_mask c)\<rparr>"
    and TW': "TW' = (if 0 = pg_occupancy P (occupancyWord (ck_addr c)) then TW @ [ck_addr c] else TW)"
  shows "occ_step (sd_page (ck_addr c)) P c TW P' (Chunk_next 6 c) TW'"
    and "NOT (pg_occupancy P (occupancyWord (ck_addr c))) AND occupancy_mask c \<noteq> 0 \<longleftrightarrow>
      (\<exists>a. skipped c (Chunk_next 6 c) a \<and> \<not> occ_bit P a)"
proof -
  let ?a = "ck_addr c" and ?c = "Chunk_next 6 c"
  let ?w = "occupancyWord ?a"
  have to: "chunk_to c ?c" using Chunk_next_to(1) [OF c(1)] by simp
  have n: "unat (ck_addr ?c) = (unat ?a div 64 + 1) * 64"
    using Chunk_next_unat(1) [OF chunk48_ok [OF c(1)], of 6] by simp
  have word: "unat a div 64 = unat ?a div 64" if "skipped c ?c a" for a
    using skipped_next_grain [OF c(1) _ that] by simp
  have page: "sd_page a = sd_page ?a" if "unat a div 64 = unat ?a div 64" for a
  proof -
    have "x div 2 ^ 30 = x div 64 div 2 ^ 24" for x :: nat by (simp only: div_mult2_eq [symmetric]) simp
    then show ?thesis using that by (simp only: word_unat_eq_iff sd_page_unat)
  qed
  have sk: "skipped c ?c a \<longleftrightarrow> bit (occupancy_mask c) (unat a mod 64)" if "unat a div 64 = unat ?a div 64" for a
  proof -
    have "unat a < (unat ?a div 64 + 1) * 64" using next_grain_gt [of "unat a" 6] that by simp
    then show ?thesis
      using same_block_range [OF that] bit_occupancy_mask [of "unat a mod 64" c]
      unfolding skipped_def n by auto
  qed
  have bits: "occ_bit P' a \<longleftrightarrow> occ_bit P a \<or> skipped c ?c a" if "sd_page a = sd_page ?a" for a
  proof (cases "unat a div 64 = unat ?a div 64")
    case True
    then have "occupancyWord a = ?w" using occupancy_word_eq [OF that] by simp
    then show ?thesis using sk [OF True] by (simp add: occ_bit_def P' bit_simps)
  next
    case False
    then have "occupancyWord a \<noteq> ?w" "\<not> skipped c ?c a" using occupancy_word_eq [OF that] word by auto
    then show ?thesis by (simp add: occ_bit_def P')
  qed
  have "\<exists>ts. TW' = TW @ ts \<and> (\<forall>t \<in> set ts. sd_page t = sd_page ?a) \<and>
      (\<forall>w. pg_occupancy P' w \<noteq> 0 \<longrightarrow> pg_occupancy P w \<noteq> 0 \<or> (\<exists>t \<in> set ts. occupancyWord t = w))"
    by (cases "0 = pg_occupancy P ?w") (auto simp: TW' P')
  moreover have "pg_lines P' = pg_lines P" by (simp add: P')
  ultimately show "occ_step (sd_page ?a) P c TW P' ?c TW'"
    using to bits page word unfolding occ_step_def by blast
  have "NOT (pg_occupancy P ?w) AND occupancy_mask c \<noteq> 0 \<longleftrightarrow>
      (\<exists>n < 64. \<not> bit (pg_occupancy P ?w) n \<and> bit (occupancy_mask c) n)"
    using bit_word_imp_less [of "occupancy_mask c"] by (auto simp: bit_eq_iff bit_simps)
  also have "\<dots> \<longleftrightarrow> (\<exists>a. skipped c ?c a \<and> \<not> occ_bit P a)"
  proof
    assume "\<exists>n < 64. \<not> bit (pg_occupancy P ?w) n \<and> bit (occupancy_mask c) n"
    then obtain n where n: "n < 64" "\<not> bit (pg_occupancy P ?w) n" "bit (occupancy_mask c) n" by blast
    define x where "x = unat ?a div 64 * 64 + n"
    have "x < 2 ^ 64"
    proof -
      have "unat ?a div 64 * 64 \<le> unat ?a" by simp
      then show ?thesis using c n(1) by (simp add: x_def chunk48_def Chunk_isEmpty_unat)
    qed
    then have u: "unat (of_nat x :: u64) = x" by (simp add: unat_of_nat)
    have x: "x div 64 = unat ?a div 64" "x mod 64 = n" using n(1) by (simp_all add: x_def)
    have "skipped c ?c (of_nat x)" using sk [of "of_nat x"] x n(3) by (simp add: u)
    moreover have "occupancyWord (of_nat x) = ?w"
      using occupancy_word_eq [OF page [of "of_nat x"]] x by (simp add: u)
    ultimately show "\<exists>a. skipped c ?c a \<and> \<not> occ_bit P a"
      using n(2) x(2) by (intro exI [of _ "of_nat x"]) (simp add: occ_bit_def u)
  next
    assume "\<exists>a. skipped c ?c a \<and> \<not> occ_bit P a"
    then obtain a where a: "skipped c ?c a" "\<not> occ_bit P a" by blast
    have w: "unat a div 64 = unat ?a div 64" using word [OF a(1)] .
    then have "occupancyWord a = ?w" using occupancy_word_eq [OF page [OF w]] by simp
    then show "\<exists>n < 64. \<not> bit (pg_occupancy P ?w) n \<and> bit (occupancy_mask c) n"
      using a sk [OF w] by (intro exI [of _ "unat a mod 64"]) (simp add: occ_bit_def)
  qed
  finally show "NOT (pg_occupancy P ?w) AND occupancy_mask c \<noteq> 0 \<longleftrightarrow>
      (\<exists>a. skipped c ?c a \<and> \<not> occ_bit P a)" .
qed


lemma Page_setOccupied_ok:
  assumes "chunk48 c" "\<not> Chunk_isEmpty c"
  shows "\<exists>found' P' c' TW'. Page_setOccupied found P c TW = Some (found', P', c', TW') \<and>
    occ_step (sd_page (ck_addr c)) P c TW P' c' TW' \<and> unat (ck_addr c) < unat (ck_addr c') \<and>
    (found' \<longleftrightarrow> found \<or> (\<exists>a. skipped c c' a \<and> \<not> occ_bit P a))"
  using assms
proof (induction "unat (ck_size c)" arbitrary: c found P TW rule: less_induct)
  case less
  let ?a = "ck_addr c" and ?c = "Chunk_next 6 c"
  let ?cur = "pg_occupancy P (occupancyWord ?a)"
  define P1 where "P1 = P\<lparr>pg_occupancy := (pg_occupancy P)(occupancyWord ?a := ?cur OR occupancy_mask c)\<rparr>"
  define TW1 where "TW1 = (if 0 = ?cur then TW @ [?a] else TW)"
  define found1 where "found1 = (if NOT ?cur AND occupancy_mask c \<noteq> 0 then True else found)"
  note one = occ_step_one [OF less.prems P1_def TW1_def]
  note nx = Chunk_next_to [OF less.prems(1), of 6, simplified]
  have f1: "found1 \<longleftrightarrow> found \<or> (\<exists>a. skipped c ?c a \<and> \<not> occ_bit P a)"
    unfolding found1_def one(2) by auto
  have unfold: "Page_setOccupied found P c TW =
      (if isPageStart (ck_addr ?c) then Some (found1, P1, ?c, TW1) else Page_setOccupied found1 P1 ?c TW1)"
    using less.prems(2) by (subst Page_setOccupied.simps)
      (simp add: Let_def P1_def TW1_def found1_def nextOccupancyWord_next)
  show ?case
  proof (cases "isPageStart (ck_addr ?c) \<or> Chunk_isEmpty ?c")
    case True
    have "Page_setOccupied found1 P1 ?c TW1 = Some (found1, P1, ?c, TW1)" if "Chunk_isEmpty ?c"
      using that by (subst Page_setOccupied.simps) simp
    then have "Page_setOccupied found P c TW = Some (found1, P1, ?c, TW1)"
      using unfold True by auto
    then show ?thesis using one(1) f1 nx(2) by blast
  next
    case False
    then have ne: "\<not> Chunk_isEmpty ?c" by simp
    have pg: "sd_page (ck_addr ?c) = sd_page ?a"
      using next_same_page [OF less.prems(1), of 6] False by simp
    have "unat (ck_size ?c) < unat (ck_size c)" using chunk_to_size_less [OF nx less.prems(2)] .
    note ih = less.hyps [OF this chunk_to_48 [OF nx(1) less.prems(1) ne] ne, unfolded pg]
    obtain found' P' c' TW' where r:
      "Page_setOccupied found1 P1 ?c TW1 = Some (found', P', c', TW')"
      "occ_step (sd_page ?a) P1 ?c TW1 P' c' TW'" "unat (ck_addr ?c) < unat (ck_addr c')"
      "found' \<longleftrightarrow> found1 \<or> (\<exists>a. skipped ?c c' a \<and> \<not> occ_bit P1 a)"
      using ih [of found1 P1 TW1] by (elim exE conjE) (rule that)
    have to: "chunk_to ?c c'" using r(2) by (simp add: occ_step_def)
    have "occ_bit P1 a \<longleftrightarrow> occ_bit P a" if "skipped ?c c' a" for a
    proof -
      have "sd_page a = sd_page ?a" using that r(2) by (simp add: occ_step_def)
      moreover have "\<not> skipped c ?c a" using that by (auto simp: skipped_def)
      ultimately show ?thesis using one(1) by (simp add: occ_step_def)
    qed
    then have "found' \<longleftrightarrow> found \<or> (\<exists>a. skipped c c' a \<and> \<not> occ_bit P a)"
      using r(4) f1 skipped_trans [OF nx(1) to ne] by metis
    moreover have "occ_step (sd_page ?a) P c TW P' c' TW'" by (rule occ_step_trans [OF one(1) r(2) ne])
    moreover have "Page_setOccupied found P c TW = Some (found', P', c', TW')"
      using unfold False r(1) by simp
    moreover have "unat ?a < unat (ck_addr c')" using nx(2) r(3) by linarith
    ultimately show ?thesis by blast
  qed
qed

subsection \<open>The dictionary\<close>

text \<open>The mark of an address, and the invariant that every word with a mark is touched.\<close>

definition Dict_occ :: "Dict_t \<Rightarrow> u64 \<Rightarrow> bool" where
  "Dict_occ D a \<longleftrightarrow> (case sd_Table D (sd_page a) of None \<Rightarrow> False | Some P \<Rightarrow> occ_bit P a)"

definition occ_inv :: "Dict_t \<Rightarrow> bool" where
  "occ_inv D \<longleftrightarrow>
     (\<forall>p P w. sd_Table D p = Some P \<and> pg_occupancy P w \<noteq> 0 \<longrightarrow>
        (\<exists>t \<in> set (sd_TouchedWords D). sd_page t = p \<and> occupancyWord t = w)) \<and>
     (\<forall>t \<in> set (sd_TouchedWords D). \<exists>P. sd_Table D (sd_page t) = Some P \<and> unat (sd_page t) < 2 ^ SD_LG_TABLE_SIZE)"

lemma Dict_new_occ: "occ_inv Dict_new" "\<not> Dict_occ Dict_new a"
  by (simp_all add: occ_inv_def Dict_new_def Dict_occ_def)

lemma occ_bit_fresh: "\<not> occ_bit Page_new a"
  by (simp add: occ_bit_def Page_new_def)

lemma Dict_ensurePage_ok:
  assumes "chunk48 c" "\<not> Chunk_isEmpty c" "occ_inv D"
  shows "\<exists>fresh P D'. Dict_ensurePage (ck_addr c) D = Some (fresh, P, D') \<and>
    sd_Table D' (sd_page (ck_addr c)) = Some P \<and> occ_inv D' \<and> (\<forall>a. Dict_occ D' a = Dict_occ D a) \<and>
    (fresh \<longrightarrow> (\<forall>a. \<not> occ_bit P a)) \<and> unat (sd_page (ck_addr c)) < 2 ^ SD_LG_TABLE_SIZE \<and>
    sd_TouchedWords D' = sd_TouchedWords D \<and> (\<forall>a. Dict_view D' a = Dict_view D a) \<and>
    sd_LockerTable D' = sd_LockerTable D"
proof -
  let ?p = "sd_page (ck_addr c)"
  have g: "getPage (sd_Table D) ?p = Some (sd_Table D ?p)" and b: "unat ?p < 2 ^ SD_LG_TABLE_SIZE"
    using page_ptr_48 [OF assms(1,2), of "sd_Table D"] by (auto simp: page_ptr_def getPage_def split: if_splits)
  show ?thesis
  proof (cases "sd_Table D ?p")
    case (Some P)
    then show ?thesis using g b assms(3) by (auto simp: Dict_ensurePage_def)
  next
    case None
    let ?D = "D\<lparr>sd_AllocatedPages := sd_AllocatedPages D @ [?p], sd_Table := (sd_Table D)(?p := Some Page_new)\<rparr>"
    have "Dict_occ ?D a = Dict_occ D a" for a
      using None occ_bit_fresh by (cases "sd_page a = ?p") (auto simp: Dict_occ_def)
    moreover have "Dict_view ?D a = Dict_view D a" for a
      using None page_fresh_new(1)
      by (cases "sd_page a = ?p") (auto simp: Dict_view_def tb_view_def tb_line_def deref_line_def page_fresh_def)
    moreover have "occ_inv ?D"
      using assms(3) None by (auto simp: occ_inv_def Page_new_def)
    ultimately show ?thesis
      using g b None occ_bit_fresh by (auto simp: Dict_ensurePage_def)
  qed
qed

lemma Dict_setOccupied_loop_ok:
  assumes "chunk48 c" "occ_inv D"
  shows "\<exists>D'. Dict_setOccupied_loop found c D =
      Some (found \<or> (\<exists>a. in_chunk c a \<and> \<not> Dict_occ D a), D') \<and>
    occ_inv D' \<and> (\<forall>a. Dict_occ D' a \<longleftrightarrow> Dict_occ D a \<or> in_chunk c a) \<and>
    (\<forall>a. Dict_view D' a = Dict_view D a) \<and> sd_LockerTable D' = sd_LockerTable D"
  using assms
proof (induction "unat (ck_size c)" arbitrary: c found D rule: less_induct)
  case less
  show ?case
  proof (cases "Chunk_isEmpty c")
    case True
    then show ?thesis using less.prems in_chunk_empty by (subst Dict_setOccupied_loop.simps) simp
  next
    case False
    let ?p = "sd_page (ck_addr c)"
    obtain fresh P D1 where D1: "Dict_ensurePage (ck_addr c) D = Some (fresh, P, D1)"
      "sd_Table D1 ?p = Some P" "occ_inv D1" "\<And>a. Dict_occ D1 a = Dict_occ D a"
      "fresh \<Longrightarrow> (\<forall>a. \<not> occ_bit P a)" "unat ?p < 2 ^ SD_LG_TABLE_SIZE"
      "sd_TouchedWords D1 = sd_TouchedWords D" "\<And>a. Dict_view D1 a = Dict_view D a"
      "sd_LockerTable D1 = sd_LockerTable D"
      using Dict_ensurePage_ok [OF less.prems(1) False less.prems(2)] by blast
    obtain f P' c' TW' where s: "Page_setOccupied False P c (sd_TouchedWords D1) = Some (f, P', c', TW')"
      "occ_step ?p P c (sd_TouchedWords D1) P' c' TW'" "unat (ck_addr c) < unat (ck_addr c')"
      "f \<longleftrightarrow> (\<exists>a. skipped c c' a \<and> \<not> occ_bit P a)"
      using Page_setOccupied_ok [OF less.prems(1) False, of False P "sd_TouchedWords D1"] by auto
    define D2 where "D2 = D1\<lparr>sd_Table := (sd_Table D1)(?p := Some P'), sd_TouchedWords := TW'\<rparr>"
    have to: "chunk_to c c'" and lines: "pg_lines P' = pg_lines P"
      and sk: "\<And>a. skipped c c' a \<Longrightarrow> sd_page a = ?p"
      and bits: "\<And>a. sd_page a = ?p \<Longrightarrow> (occ_bit P' a \<longleftrightarrow> occ_bit P a \<or> skipped c c' a)"
      using s(2) unfolding occ_step_def by blast+
    obtain ts where ts: "TW' = sd_TouchedWords D1 @ ts" "\<forall>t \<in> set ts. sd_page t = ?p"
      "\<forall>w. pg_occupancy P' w \<noteq> 0 \<longrightarrow> pg_occupancy P w \<noteq> 0 \<or> (\<exists>t \<in> set ts. occupancyWord t = w)"
      using s(2) unfolding occ_step_def by blast
    have occP: "Dict_occ D a = occ_bit P a" if "sd_page a = ?p" for a
      using D1(2) D1(4) [of a, symmetric] that by (simp add: Dict_occ_def)
    have occ2: "Dict_occ D2 a \<longleftrightarrow> Dict_occ D a \<or> skipped c c' a" for a
    proof (cases "sd_page a = ?p")
      case True
      then show ?thesis using bits [OF True] occP [OF True] by (simp add: D2_def Dict_occ_def)
    next
      case False
      then show ?thesis using sk D1(4) [of a] by (auto simp: D2_def Dict_occ_def)
    qed
    have view2: "Dict_view D2 a = Dict_view D a" for a
      using D1(2) D1(8) [of a] lines
      by (auto simp: D2_def Dict_view_def tb_view_def tb_line_def deref_line_def)
    have inv2: "occ_inv D2"
      unfolding occ_inv_def
    proof (intro conjI allI impI ballI)
      fix p Q w assume Q: "sd_Table D2 p = Some Q \<and> pg_occupancy Q w \<noteq> 0"
      show "\<exists>t \<in> set (sd_TouchedWords D2). sd_page t = p \<and> occupancyWord t = w"
        using Q ts D1(2,3) by (cases "p = ?p") (fastforce simp: D2_def occ_inv_def)+
    next
      fix t assume t: "t \<in> set (sd_TouchedWords D2)"
      show "\<exists>P. sd_Table D2 (sd_page t) = Some P \<and> unat (sd_page t) < 2 ^ SD_LG_TABLE_SIZE"
        using t ts D1(2,3,6) by (auto simp: D2_def occ_inv_def)
    qed
    have "unat (ck_size c') < unat (ck_size c)" using chunk_to_size_less [OF to s(3) False] .
    have step: "Dict_setOccupied_loop found c D = Dict_setOccupied_loop (found \<or> fresh \<or> f) c' D2"
      using False D1(1) s(1) by (subst Dict_setOccupied_loop.simps) (simp add: D2_def)
    have all: "in_chunk c a \<longleftrightarrow> skipped c c' a \<or> in_chunk c' a" for a by (rule in_chunk_to [OF to])
    have cin: "skipped c c' (ck_addr c)" using False s(3) by (simp add: skipped_def Chunk_isEmpty_unat)
    have ff: "fresh \<or> f \<longleftrightarrow> (\<exists>a. skipped c c' a \<and> \<not> Dict_occ D a)"
      using D1(5) s(4) occP sk cin by metis
    have dis: "in_chunk c' a \<Longrightarrow> \<not> skipped c c' a" for a by (auto simp: in_chunk_def skipped_def)
    show ?thesis
    proof (cases "Chunk_isEmpty c'")
      case True
      then have e: "Dict_setOccupied_loop (found \<or> fresh \<or> f) c' D2 = Some (found \<or> fresh \<or> f, D2)"
        by (subst Dict_setOccupied_loop.simps) simp
      have "in_chunk c a \<longleftrightarrow> skipped c c' a" for a using all in_chunk_empty [OF True] by blast
      then show ?thesis using step e ff occ2 inv2 view2 D1(9) by (auto simp: D2_def)
    next
      case ne: False
      have "chunk48 c'" using chunk_to_48 [OF to less.prems(1) ne] .
      then obtain D' where D': "Dict_setOccupied_loop (found \<or> fresh \<or> f) c' D2 =
          Some ((found \<or> fresh \<or> f) \<or> (\<exists>a. in_chunk c' a \<and> \<not> Dict_occ D2 a), D')" "occ_inv D'"
        "\<And>a. Dict_occ D' a \<longleftrightarrow> Dict_occ D2 a \<or> in_chunk c' a" "\<And>a. Dict_view D' a = Dict_view D2 a"
        "sd_LockerTable D' = sd_LockerTable D2"
        using less.hyps [OF \<open>unat (ck_size c') < unat (ck_size c)\<close> _ inv2, of "found \<or> fresh \<or> f"] by blast
      have "(found \<or> fresh \<or> f) \<or> (\<exists>a. in_chunk c' a \<and> \<not> Dict_occ D2 a) \<longleftrightarrow>
          found \<or> (\<exists>a. in_chunk c a \<and> \<not> Dict_occ D a)"
        using ff all dis occ2 by metis
      moreover have "Dict_occ D' a \<longleftrightarrow> Dict_occ D a \<or> in_chunk c a" for a
        using D'(3) occ2 all by blast
      ultimately show ?thesis using step D'(1,2,4,5) view2 D1(9) by (simp add: D2_def)
    qed
  qed
qed

lemma clearOccupied_words_ok:
  assumes "\<forall>t \<in> set ws. \<exists>P. T (sd_page t) = Some P \<and> unat (sd_page t) < 2 ^ SD_LG_TABLE_SIZE"
  shows "\<exists>T'. clearOccupied_words ws T = Some T' \<and> (\<forall>p. T p = None \<longleftrightarrow> T' p = None) \<and>
    (\<forall>p P'. T' p = Some P' \<longrightarrow> (\<exists>P. T p = Some P \<and> pg_lines P' = pg_lines P \<and>
       (\<forall>w. pg_occupancy P' w =
          (if \<exists>t \<in> set ws. sd_page t = p \<and> occupancyWord t = w then 0 else pg_occupancy P w))))"
  using assms
proof (induction ws arbitrary: T)
  case Nil
  then show ?case by simp
next
  case (Cons v ws)
  obtain P where P: "T (sd_page v) = Some P" "unat (sd_page v) < 2 ^ SD_LG_TABLE_SIZE"
    using Cons.prems by auto
  define T1 where "T1 = T(sd_page v := Some (Page_clear v P))"
  have "\<forall>t \<in> set ws. \<exists>P. T1 (sd_page t) = Some P \<and> unat (sd_page t) < 2 ^ SD_LG_TABLE_SIZE"
    using Cons.prems by (auto simp: T1_def)
  from Cons.IH [OF this] obtain T' where T': "clearOccupied_words ws T1 = Some T'"
    "\<forall>p. T1 p = None \<longleftrightarrow> T' p = None"
    "\<And>p P'. T' p = Some P' \<Longrightarrow> \<exists>P. T1 p = Some P \<and> pg_lines P' = pg_lines P \<and>
       (\<forall>w. pg_occupancy P' w =
          (if \<exists>t \<in> set ws. sd_page t = p \<and> occupancyWord t = w then 0 else pg_occupancy P w))"
    by blast
  have run: "clearOccupied_words (v # ws) T = Some T'"
    using P T'(1) by (simp add: getPage_def T1_def)
  have dom: "T p = None \<longleftrightarrow> T' p = None" for p
  proof -
    have "T p = None \<longleftrightarrow> T1 p = None" using P(1) by (simp add: T1_def)
    then show ?thesis using T'(2) by simp
  qed
  have "\<exists>P. T p = Some P \<and> pg_lines P' = pg_lines P \<and> (\<forall>w. pg_occupancy P' w =
      (if \<exists>t \<in> set (v # ws). sd_page t = p \<and> occupancyWord t = w then 0 else pg_occupancy P w))"
    if p: "T' p = Some P'" for p P'
  proof -
    obtain P1 where P1: "T1 p = Some P1" "pg_lines P' = pg_lines P1"
      "\<forall>w. pg_occupancy P' w =
        (if \<exists>t \<in> set ws. sd_page t = p \<and> occupancyWord t = w then 0 else pg_occupancy P1 w)"
      using T'(3) [OF p] by blast
    show ?thesis
    proof (cases "p = sd_page v")
      case True
      then have "P1 = Page_clear v P" using P1(1) by (simp add: T1_def)
      then have "pg_lines P' = pg_lines P" "pg_occupancy P' w =
          (if \<exists>t \<in> set (v # ws). sd_page t = p \<and> occupancyWord t = w then 0 else pg_occupancy P w)" for w
        using P1(2) P1(3) [rule_format, of w] True by (auto simp: Page_clear_def)
      then show ?thesis using P(1) True by blast
    next
      case False
      then have "T p = Some P1" using P1(1) by (simp add: T1_def)
      moreover have "(\<exists>t \<in> set (v # ws). sd_page t = p \<and> occupancyWord t = w) \<longleftrightarrow>
          (\<exists>t \<in> set ws. sd_page t = p \<and> occupancyWord t = w)" for w
        using False by auto
      ultimately show ?thesis using P1(2,3) by simp
    qed
  qed
  then show ?case using run dom by blast
qed

lemma Dict_clearOccupied_ok:
  assumes "occ_inv D"
  shows "\<exists>D'. Dict_clearOccupied D = Some D' \<and> (\<forall>a. \<not> Dict_occ D' a) \<and> occ_inv D' \<and>
    (\<forall>a. Dict_view D' a = Dict_view D a)"
proof -
  have "\<forall>t \<in> set (sd_TouchedWords D). \<exists>P. sd_Table D (sd_page t) = Some P \<and> unat (sd_page t) < 2 ^ SD_LG_TABLE_SIZE"
    using assms by (simp add: occ_inv_def)
  from clearOccupied_words_ok [OF this] obtain T' where
    T': "clearOccupied_words (sd_TouchedWords D) (sd_Table D) = Some T'"
    "\<And>p. sd_Table D p = None \<longleftrightarrow> T' p = None" and
    P': "\<And>p P'. T' p = Some P' \<Longrightarrow> \<exists>P. sd_Table D p = Some P \<and> pg_lines P' = pg_lines P \<and>
       (\<forall>w. pg_occupancy P' w = (if \<exists>t \<in> set (sd_TouchedWords D). sd_page t = p \<and> occupancyWord t = w
          then 0 else pg_occupancy P w))"
    by blast
  let ?D = "D\<lparr>sd_Table := T', sd_TouchedWords := []\<rparr>"
  have zero: "pg_occupancy Q w = 0" if Q: "T' p = Some Q" for p Q w
    using P' [OF Q] assms unfolding occ_inv_def by (metis (no_types, lifting))
  have "Dict_view ?D a = Dict_view D a" for a
    using T'(2) [of "sd_page a"] P' [of "sd_page a"]
    by (cases "T' (sd_page a)") (auto simp: Dict_view_def tb_view_def tb_line_def deref_line_def)
  moreover have "\<not> Dict_occ ?D a" for a
    using zero by (auto simp: Dict_occ_def occ_bit_def split: option.splits)
  moreover have "occ_inv ?D" using zero by (auto simp: occ_inv_def)
  ultimately show ?thesis using T'(1) by (simp add: Dict_clearOccupied_def)
qed

end
