(* ===== verification/ShadowAccess.thy ===== *)
theory ShadowAccess
  imports ShadowInsert ShadowOccupancy
begin

text \<open>
  Recording an access in the shadow memory: \<open>update\<close>, \<open>check_and_update_write\<close> and the fast paths end, they
  change only bytes of the access, a byte keeps its previous access only if that is in parallel, and the
  races reported are those of bytes whose previous access is in parallel.
\<close>

subsection \<open>Recording\<close>

text \<open>The access of a byte after an access to \<open>Q\<close> has been recorded by the set function \<open>f\<close>.\<close>

definition updates_on ::
  "(MemoryAccess_t \<Rightarrow> bool) \<Rightarrow> (MemoryAccess_t \<Rightarrow> MemoryAccess_t) \<Rightarrow> (u64 \<Rightarrow> bool) \<Rightarrow>
   (u64 \<Rightarrow> MemoryAccess_t option) \<Rightarrow> (u64 \<Rightarrow> MemoryAccess_t option) \<Rightarrow> bool" where
  "updates_on p f Q V V' \<longleftrightarrow> (\<forall>a.
     if Q a then sets_from MALineMethods f (V a) (V' a) \<or> (V' a = V a \<and> (\<exists>ma. V a = Some ma \<and> p ma))
     else V' a = V a)"

lemma updates_on_join:
  assumes "updates_on p f Q V V1" "updates_on p f R V1 V2" "\<And>a. \<not> (Q a \<and> R a)" "\<And>a. P a \<longleftrightarrow> Q a \<or> R a"
  shows "updates_on p f P V V2"
  unfolding updates_on_def
proof
  fix a
  have h: "if Q a then sets_from MALineMethods f (V a) (V1 a) \<or> (V1 a = V a \<and> (\<exists>ma. V a = Some ma \<and> p ma)) else V1 a = V a"
    "if R a then sets_from MALineMethods f (V1 a) (V2 a) \<or> (V2 a = V1 a \<and> (\<exists>ma. V1 a = Some ma \<and> p ma)) else V2 a = V1 a"
    using assms(1,2) by (simp_all add: updates_on_def)
  show "if P a then sets_from MALineMethods f (V a) (V2 a) \<or> (V2 a = V a \<and> (\<exists>ma. V a = Some ma \<and> p ma)) else V2 a = V a"
    using h assms(3) [of a] assms(4) [of a] by (auto split: if_splits)
qed

lemma updates_on_insert:
  "inserts MALineMethods f c c' T T' \<Longrightarrow>
    updates_on p f (skipped c c') (tb_view MALineMethods T) (tb_view MALineMethods T')"
  unfolding inserts_def updates_on_def by (metis (full_types))

lemma updates_on_none: "updates_on p f (\<lambda>a. False) V V"
  by (simp add: updates_on_def)

lemma skipped_in_chunk:
  assumes "chunk_to c c'"
  shows "\<not> (skipped c c' a \<and> in_chunk c' a)" "in_chunk c a \<longleftrightarrow> skipped c c' a \<or> in_chunk c' a"
proof -
  show "\<not> (skipped c c' a \<and> in_chunk c' a)" unfolding skipped_def in_chunk_def by linarith
  show "in_chunk c a \<longleftrightarrow> skipped c c' a \<or> in_chunk c' a" by (rule in_chunk_to [OF assms])
qed

text \<open>One step: over accesses in parallel, or recording the new access.\<close>

lemma access_next:
  assumes "tb_ok MALineMethods T" "u_inv T I" "\<not> it_isEnd I" "par_ok p"
    "tb_view MALineMethods T (it_getAddress I) = Some PA" "p PA"
  shows "\<exists>I'. u_next MALineMethods T I = Some I' \<and> u_inv T I' \<and>
    chunk_to (it_Accessed I) (it_Accessed I') \<and> unat (it_getAddress I) < unat (it_getAddress I') \<and>
    (\<forall>a. skipped (it_Accessed I) (it_Accessed I') a \<longrightarrow>
       (\<exists>ma. tb_view MALineMethods T a = Some ma \<and> p ma \<and> MA_eq PA ma))"
proof -
  have e: "\<exists>ma. tb_view MALineMethods T a = Some ma \<and> p ma \<and> MA_eq PA ma" if ne: "next_equal MALineMethods T PA a" for a
  proof -
    obtain ma where ma: "tb_view MALineMethods T a = Some ma" "ma = PA \<or> MA_eq PA ma"
      using ne unfolding next_equal_def by auto
    then have "MA_eq PA ma" by (auto simp: MA_eq_def)
    moreover have "p ma" using assms(4,6) \<open>MA_eq PA ma\<close> unfolding par_ok_def by blast
    ultimately show ?thesis using ma(1) by blast
  qed
  obtain J where J: "u_next MALineMethods T I = Some J" "u_inv T J" "chunk_to (it_Accessed I) (it_Accessed J)"
    "unat (it_getAddress I) < unat (it_getAddress J)"
    "\<And>a. skipped (it_Accessed I) (it_Accessed J) a \<Longrightarrow> next_equal MALineMethods T PA a"
    using u_next_ok [OF assms(1-3,5)] by blast
  then show ?thesis using e by blast
qed

lemma u_inv_size:
  assumes "u_inv T I" "\<not> it_isEnd I" "chunk_to (it_Accessed I) (it_Accessed I')"
    "unat (it_getAddress I) < unat (it_getAddress I')"
  shows "unat (ck_size (it_Accessed I')) < unat (ck_size (it_Accessed I))"
  using chunk_to_size_less [OF assms(3)] assms(2,4) by (simp add: it_isEnd_def it_getAddress_def)

lemma it_end_in_chunk: "it_isEnd I \<Longrightarrow> in_chunk (it_Accessed I) = (\<lambda>a. False)"
  using in_chunk_empty by (auto simp: it_isEnd_def)

lemma update_ok:
  assumes f: "ds \<noteq> 0" and par: "par_ok p" and T: "tb_ok MALineMethods T" and I: "u_inv T I"
    and ans: "answers par p (in_chunk (it_Accessed I)) (tb_view MALineMethods T)"
  shows "\<exists>T'. update par ds version acc_id type T I = Some T' \<and> tb_ok MALineMethods T' \<and> pages_kept Page_new T T' \<and>
    updates_on p (MASetFn ds version acc_id type) (in_chunk (it_Accessed I))
      (tb_view MALineMethods T) (tb_view MALineMethods T')"
  using T I ans
proof (induction "unat (ck_size (it_Accessed I))" arbitrary: I T rule: less_induct)
  case less
  let ?f = "MASetFn ds version acc_id type" and ?V = "tb_view MALineMethods"
  have v: "\<And>d. dm_isValid MALineMethods (?f d)" using MASetFn_valid f by simp
  show ?case
  proof (cases "it_isEnd I")
    case True
    then show ?thesis
      using less.prems(1) updates_on_none by (subst update.simps) (simp add: it_end_in_chunk)
  next
    case False
    note g = u_get_ok [OF less.prems(1,2) False]
    have ina: "in_chunk (it_Accessed I) (it_getAddress I)"
      using less.prems(2) False by (simp add: in_chunk_def it_getAddress_def it_isEnd_def Chunk_isEmpty_unat)
    have ask: "in_parallel par PA = Some (p PA)" if "?V T (it_getAddress I) = Some PA" for PA
      using answersD [OF less.prems(3) ina that] tb_view_valid [OF that] by (simp add: in_parallel_def)
    show ?thesis
    proof (cases "\<exists>PA. ?V T (it_getAddress I) = Some PA \<and> p PA")
      case True
      then obtain PA where PA: "?V T (it_getAddress I) = Some PA" "p PA" by blast
      obtain J where J: "u_next MALineMethods T I = Some J" "u_inv T J" "chunk_to (it_Accessed I) (it_Accessed J)"
        "unat (it_getAddress I) < unat (it_getAddress J)"
        "\<And>a. skipped (it_Accessed I) (it_Accessed J) a \<Longrightarrow> \<exists>ma. ?V T a = Some ma \<and> p ma \<and> MA_eq PA ma"
        using access_next [OF less.prems(1,2) False par PA] by blast
      have step: "update par ds version acc_id type T I = update par ds version acc_id type T J"
        using False g PA J(1) ask [OF PA(1)] by (subst update.simps) simp
      have u1: "updates_on p ?f (skipped (it_Accessed I) (it_Accessed J)) (?V T) (?V T)"
        using J(5) by (auto simp: updates_on_def)
      obtain T' where r: "update par ds version acc_id type T J = Some T'" "tb_ok MALineMethods T'"
        "pages_kept Page_new T T'" "updates_on p ?f (in_chunk (it_Accessed J)) (?V T) (?V T')"
        using less.hyps [OF u_inv_size [OF less.prems(2) False J(3,4)] less.prems(1) J(2) answers_sub [OF less.prems(3)]]
          skipped_in_chunk(2) [OF J(3)] by blast
      show ?thesis using step r updates_on_join [OF u1 r(4) skipped_in_chunk [OF J(3)]] by auto
    next
      case nopar: False
      obtain T1 J where J: "u_insert MALineMethods Page_new ?f T I = Some (T1, J)" "tb_ok MALineMethods T1" "u_inv T1 J"
        "chunk_to (it_Accessed I) (it_Accessed J)" "unat (it_getAddress I) < unat (it_getAddress J)"
        "pages_kept Page_new T T1" "inserts MALineMethods ?f (it_Accessed I) (it_Accessed J) T T1"
        using u_insert_ok [where f = ?f, OF MALine_valid(1) v page_fresh_new(1) less.prems(1,2) False] by blast
      have step: "update par ds version acc_id type T I = update par ds version acc_id type T1 J"
        using False g nopar J(1) ask by (subst update.simps) (auto split: option.split)
      have ans1: "answers par p (in_chunk (it_Accessed J)) (?V T1)"
      proof (rule answers_sub [OF less.prems(3)])
        fix a assume a: "in_chunk (it_Accessed J) a"
        then show "in_chunk (it_Accessed I) a" using skipped_in_chunk(2) [OF J(4)] by blast
        have "\<not> skipped (it_Accessed I) (it_Accessed J) a" using a skipped_in_chunk(1) [OF J(4)] by blast
        then show "?V T1 a = ?V T a" using J(7) unfolding inserts_def by metis
      qed
      obtain T' where r: "update par ds version acc_id type T1 J = Some T'" "tb_ok MALineMethods T'"
        "pages_kept Page_new T1 T'" "updates_on p ?f (in_chunk (it_Accessed J)) (?V T1) (?V T')"
        using less.hyps [OF u_inv_size [OF less.prems(2) False J(4,5)] J(2,3) ans1] by blast
      show ?thesis
        using step r updates_on_join [OF updates_on_insert [OF J(7)] r(4) skipped_in_chunk [OF J(4)]]
          pages_kept_trans [OF J(6) r(3)] by auto
    qed
  qed
qed

text \<open>The combined check and update of writes.  A byte whose previous write is in parallel is covered by a
  report of the same function and version, unless an insertion that started at an earlier byte of the
  access, whose previous write is not in parallel, has recorded the new write over it.\<close>

definition overwritten ::
  "(MemoryAccess_t \<Rightarrow> bool) \<Rightarrow> (MemoryAccess_t \<Rightarrow> MemoryAccess_t) \<Rightarrow> (u64 \<Rightarrow> bool) \<Rightarrow>
   (u64 \<Rightarrow> MemoryAccess_t option) \<Rightarrow> (u64 \<Rightarrow> MemoryAccess_t option) \<Rightarrow> u64 \<Rightarrow> bool" where
  "overwritten p f Q V V' a \<longleftrightarrow> sets_from MALineMethods f (V a) (V' a) \<and>
     (\<exists>x. Q x \<and> unat x < unat a \<and> \<not> (\<exists>mx. V x = Some mx \<and> p mx))"

definition writes_missed ::
  "(MemoryAccess_t \<Rightarrow> bool) \<Rightarrow> (MemoryAccess_t \<Rightarrow> MemoryAccess_t) \<Rightarrow> (u64 \<Rightarrow> bool) \<Rightarrow>
   (u64 \<Rightarrow> MemoryAccess_t option) \<Rightarrow> (u64 \<Rightarrow> MemoryAccess_t option) \<Rightarrow> Report_t list \<Rightarrow> bool" where
  "writes_missed p f Q V V' rs \<longleftrightarrow> (\<forall>a ma. Q a \<and> V a = Some ma \<and> p ma \<longrightarrow>
     (\<exists>r \<in> set rs. MA_eq (rp_prev r) ma) \<or> overwritten p f Q V V' a)"

lemma check_and_update_write_loop_ok:
  assumes f: "ds \<noteq> 0" and par: "par_ok p" and A: "Dict_ok (sm_Allocs S)"
    and T: "tb_ok MALineMethods T" and I: "u_inv T I"
    and ans: "answers par p (in_chunk (it_Accessed I)) (tb_view MALineMethods T)"
  shows "\<exists>T' rs. check_and_update_write_loop S par ds version acc_id type T I = Some (T', rs) \<and>
    tb_ok MALineMethods T' \<and> pages_kept Page_new T T' \<and>
    updates_on p (MASetFn ds version acc_id type) (in_chunk (it_Accessed I))
      (tb_view MALineMethods T) (tb_view MALineMethods T') \<and>
    reports_sound p (tb_view MALineMethods T) (in_chunk (it_Accessed I)) WW_RACE acc_id type rs \<and>
    writes_missed p (MASetFn ds version acc_id type) (in_chunk (it_Accessed I))
      (tb_view MALineMethods T) (tb_view MALineMethods T') rs"
  using T I ans
proof (induction "unat (ck_size (it_Accessed I))" arbitrary: I T rule: less_induct)
  case less
  let ?f = "MASetFn ds version acc_id type" and ?V = "tb_view MALineMethods" and ?c = "it_Accessed I"
  have v: "\<And>d. dm_isValid MALineMethods (?f d)" using MASetFn_valid f by simp
  show ?case
  proof (cases "it_isEnd I")
    case True
    then show ?thesis
      using less.prems(1) updates_on_none
      by (subst check_and_update_write_loop.simps)
         (simp add: it_end_in_chunk reports_sound_def writes_missed_def)
  next
    case False
    note g = u_get_ok [OF less.prems(1,2) False]
    have c: "chunk48 ?c" "\<not> Chunk_isEmpty ?c" using less.prems(2) False by (simp_all add: u_inv_def u_ok_def it_isEnd_def)
    have ina: "in_chunk ?c (it_getAddress I)" using c(2) by (simp add: in_chunk_def it_getAddress_def Chunk_isEmpty_unat)
    have ask: "in_parallel par PA = Some (p PA)" if "?V T (it_getAddress I) = Some PA" for PA
      using answersD [OF less.prems(3) ina that] tb_view_valid [OF that] by (simp add: in_parallel_def)
    show ?thesis
    proof (cases "\<exists>PA. ?V T (it_getAddress I) = Some PA \<and> p PA")
      case True
      then obtain PA where PA: "?V T (it_getAddress I) = Some PA" "p PA" by blast
      obtain J where J: "u_next MALineMethods T I = Some J" "u_inv T J" "chunk_to ?c (it_Accessed J)"
        "unat (it_getAddress I) < unat (it_getAddress J)"
        "\<And>a. skipped ?c (it_Accessed J) a \<Longrightarrow> \<exists>ma. ?V T a = Some ma \<and> p ma \<and> MA_eq PA ma"
        using access_next [OF less.prems(1,2) False par PA] by blast
      let ?a = "it_getAddress I"
      define r where "r = \<lparr>rp_prev = PA, rp_acc_id = acc_id, rp_type = type, rp_alloc = Dict_view (sm_Allocs S) ?a,
          rp_addr = ?a, rp_race = WW_RACE\<rparr>"
      have "chunk48 (Chunk ?a 1)" using chunk48_one [OF c] by (simp add: it_getAddress_def)
      note mk = mk_report_ok [OF A this, of acc_id type PA WW_RACE, folded r_def]
      have u1: "updates_on p ?f (skipped ?c (it_Accessed J)) (?V T) (?V T)"
        using J(5) by (auto simp: updates_on_def)
      obtain T' rs where R: "check_and_update_write_loop S par ds version acc_id type T J = Some (T', rs)"
        "tb_ok MALineMethods T'" "pages_kept Page_new T T'" "updates_on p ?f (in_chunk (it_Accessed J)) (?V T) (?V T')"
        "reports_sound p (?V T) (in_chunk (it_Accessed J)) WW_RACE acc_id type rs"
        "writes_missed p ?f (in_chunk (it_Accessed J)) (?V T) (?V T') rs"
        using less.hyps [OF u_inv_size [OF less.prems(2) False J(3,4)] less.prems(1) J(2) answers_sub [OF less.prems(3)]]
          skipped_in_chunk(2) [OF J(3)] by blast
      have step: "check_and_update_write_loop S par ds version acc_id type T I = Some (T', r # rs)"
        using False g PA J(1) mk R(1) ask [OF PA(1)]
        by (subst check_and_update_write_loop.simps) simp
      have snd: "reports_sound p (?V T) (in_chunk ?c) WW_RACE acc_id type (r # rs)"
        using R(5) ina PA skipped_in_chunk(2) [OF J(3)] by (auto simp: reports_sound_def r_def)
      have mis: "writes_missed p ?f (in_chunk ?c) (?V T) (?V T') (r # rs)"
        unfolding writes_missed_def
      proof (intro allI impI)
        fix a ma assume h: "in_chunk ?c a \<and> ?V T a = Some ma \<and> p ma"
        show "(\<exists>x \<in> set (r # rs). MA_eq (rp_prev x) ma) \<or> overwritten p ?f (in_chunk ?c) (?V T) (?V T') a"
        proof (cases "skipped ?c (it_Accessed J) a")
          case True
          then show ?thesis using J(5) [OF True] h by (auto simp: r_def)
        next
          case False
          then have "in_chunk (it_Accessed J) a" using h skipped_in_chunk(2) [OF J(3)] by blast
          then have "(\<exists>x \<in> set rs. MA_eq (rp_prev x) ma) \<or> overwritten p ?f (in_chunk (it_Accessed J)) (?V T) (?V T') a"
            using R(6) h unfolding writes_missed_def by blast
          then show ?thesis using skipped_in_chunk(2) [OF J(3)] unfolding overwritten_def by auto
        qed
      qed
      show ?thesis using step R(2,3) snd mis updates_on_join [OF u1 R(4) skipped_in_chunk [OF J(3)]] by auto
    next
      case nopar: False
      obtain T1 J where J: "u_insert MALineMethods Page_new ?f T I = Some (T1, J)" "tb_ok MALineMethods T1" "u_inv T1 J"
        "chunk_to ?c (it_Accessed J)" "unat (it_getAddress I) < unat (it_getAddress J)"
        "pages_kept Page_new T T1" "inserts MALineMethods ?f ?c (it_Accessed J) T T1"
        using u_insert_ok [where f = ?f, OF MALine_valid(1) v page_fresh_new(1) less.prems(1,2) False] by blast
      note ic = skipped_in_chunk [OF J(4)]
      have same: "?V T1 a = ?V T a" if "in_chunk (it_Accessed J) a" for a
        using J(7) ic(1) [of a] that by (auto simp: inserts_def)
      have ans1: "answers par p (in_chunk (it_Accessed J)) (?V T1)"
        by (rule answers_sub [OF less.prems(3)]) (use same ic(2) in auto)
      obtain T' rs where R: "check_and_update_write_loop S par ds version acc_id type T1 J = Some (T', rs)"
        "tb_ok MALineMethods T'" "pages_kept Page_new T1 T'" "updates_on p ?f (in_chunk (it_Accessed J)) (?V T1) (?V T')"
        "reports_sound p (?V T1) (in_chunk (it_Accessed J)) WW_RACE acc_id type rs"
        "writes_missed p ?f (in_chunk (it_Accessed J)) (?V T1) (?V T') rs"
        using less.hyps [OF u_inv_size [OF less.prems(2) False J(4,5)] J(2,3) ans1] by blast
      have step: "check_and_update_write_loop S par ds version acc_id type T I = Some (T', rs)"
        using False g nopar J(1) R(1) ask by (subst check_and_update_write_loop.simps) (auto split: option.split)
      have up: "updates_on p ?f (in_chunk ?c) (?V T) (?V T')"
        by (rule updates_on_join [OF updates_on_insert [OF J(7)] R(4) ic])
      have snd: "reports_sound p (?V T) (in_chunk ?c) WW_RACE acc_id type rs"
        using R(5) ic(2) same by (auto simp: reports_sound_def)
      have mis: "writes_missed p ?f (in_chunk ?c) (?V T) (?V T') rs"
        unfolding writes_missed_def
      proof (intro allI impI)
        fix a ma assume h: "in_chunk ?c a \<and> ?V T a = Some ma \<and> p ma"
        show "(\<exists>x \<in> set rs. MA_eq (rp_prev x) ma) \<or> overwritten p ?f (in_chunk ?c) (?V T) (?V T') a"
        proof (cases "skipped ?c (it_Accessed J) a")
          case True
          then have "sets_from MALineMethods ?f (?V T a) (?V T1 a)" using J(7) by (auto simp: inserts_def)
          moreover have "?V T' a = ?V T1 a" using R(4) ic(1) [of a] True by (auto simp: updates_on_def)
          moreover have "unat (it_getAddress I) < unat a"
          proof -
            have "a \<noteq> it_getAddress I" using nopar h by auto
            then show ?thesis using True by (auto simp: skipped_def it_getAddress_def word_unat_eq_iff le_less)
          qed
          ultimately show ?thesis using ina nopar unfolding overwritten_def by auto
        next
          case False
          then have a: "in_chunk (it_Accessed J) a" using h ic(2) by blast
          then have "(\<exists>x \<in> set rs. MA_eq (rp_prev x) ma) \<or> overwritten p ?f (in_chunk (it_Accessed J)) (?V T1) (?V T') a"
            using R(6) h same unfolding writes_missed_def by metis
          then show ?thesis using a same ic(2) unfolding overwritten_def by metis
        qed
      qed
      show ?thesis using step R(2) pages_kept_trans [OF J(6) R(3)] up snd mis by blast
    qed
  qed
qed


subsection \<open>Dictionaries\<close>

text \<open>A change of the lines of a dictionary only.\<close>

definition dict_step :: "Dict_t \<Rightarrow> Dict_t \<Rightarrow> bool" where
  "dict_step D D' \<longleftrightarrow> (\<exists>T'. D' = D\<lparr>sd_Table := T'\<rparr> \<and> tb_ok MALineMethods T' \<and> pages_kept Page_new (sd_Table D) T')"

lemma more_occupancy: "LPage_t.more P = LPage_t.more (Q :: Page_t) \<Longrightarrow> pg_occupancy P = pg_occupancy Q"
  by (cases P; cases Q) simp

lemma pages_kept_occupancy:
  assumes "pages_kept Page_new T T'"
  shows "T p = Some P \<Longrightarrow> \<exists>P'. T' p = Some P' \<and> pg_occupancy P' = pg_occupancy P"
    and "T' p = Some P' \<Longrightarrow> pg_occupancy P' w \<noteq> 0 \<Longrightarrow> \<exists>P. T p = Some P \<and> pg_occupancy P' = pg_occupancy P"
proof -
  have k: "case T p of Some P \<Rightarrow> \<exists>P'. T' p = Some P' \<and> LPage_t.more P' = LPage_t.more P
     | None \<Rightarrow> T' p = None \<or> (\<exists>P'. T' p = Some P' \<and> LPage_t.more P' = LPage_t.more Page_new)"
    using assms unfolding pages_kept_def by blast
  show "T p = Some P \<Longrightarrow> \<exists>P'. T' p = Some P' \<and> pg_occupancy P' = pg_occupancy P"
  proof -
    assume "T p = Some P"
    then obtain P' where "T' p = Some P'" "LPage_t.more P' = LPage_t.more P" using k by auto
    then show ?thesis using more_occupancy [of P' P] by blast
  qed
  show "T' p = Some P' \<Longrightarrow> pg_occupancy P' w \<noteq> 0 \<Longrightarrow> \<exists>P. T p = Some P \<and> pg_occupancy P' = pg_occupancy P"
  proof (cases "T p")
    case None
    assume h: "T' p = Some P'" "pg_occupancy P' w \<noteq> 0"
    then have "LPage_t.more P' = LPage_t.more Page_new" using k None by auto
    then show ?thesis using more_occupancy [of P' Page_new] h(2) by (simp add: Page_new_def)
  next
    case (Some P)
    assume h: "T' p = Some P'"
    then have "LPage_t.more P' = LPage_t.more P" using k Some by auto
    then show ?thesis using Some more_occupancy [of P' P] by blast
  qed
qed

lemma dict_stepD:
  assumes "dict_step D D'" "Dict_ok D"
  shows "Dict_ok D'" "Dict_lockers D' = Dict_lockers D" "occ_inv D \<Longrightarrow> occ_inv D'" "Dict_occ D' a = Dict_occ D a"
    "sd_Table D p \<noteq> None \<Longrightarrow> sd_Table D' p \<noteq> None"
proof -
  obtain T' where T': "D' = D\<lparr>sd_Table := T'\<rparr>" "tb_ok MALineMethods T'" "pages_kept Page_new (sd_Table D) T'"
    using assms(1) unfolding dict_step_def by blast
  note occ = pages_kept_occupancy [OF T'(3)]
  show "Dict_ok D'" "Dict_lockers D' = Dict_lockers D"
    using assms(2) T'(1,2) by (simp_all add: Dict_ok_def Dict_lockers_def)
  show "sd_Table D p \<noteq> None \<Longrightarrow> sd_Table D' p \<noteq> None" using pages_kept_live [OF T'(3)] T'(1) by simp
  show "occ_inv D'" if o: "occ_inv D"
    unfolding occ_inv_def
  proof (intro conjI allI impI ballI)
    fix p P w assume h: "sd_Table D' p = Some P \<and> pg_occupancy P w \<noteq> 0"
    then obtain Q where "sd_Table D p = Some Q" "pg_occupancy P = pg_occupancy Q"
      using occ(2) [of p P w] T'(1) by auto
    then show "\<exists>t \<in> set (sd_TouchedWords D'). sd_page t = p \<and> occupancyWord t = w"
      using o h T'(1) unfolding occ_inv_def by auto
  next
    fix t assume "t \<in> set (sd_TouchedWords D')"
    then obtain P where "sd_Table D (sd_page t) = Some P" "unat (sd_page t) < 2 ^ SD_LG_TABLE_SIZE"
      using o T'(1) by (auto simp: occ_inv_def)
    then show "\<exists>P. sd_Table D' (sd_page t) = Some P \<and> unat (sd_page t) < 2 ^ SD_LG_TABLE_SIZE"
      using occ(1) [of "sd_page t" P] T'(1) by auto
  qed
  show "Dict_occ D' a = Dict_occ D a"
  proof (cases "sd_Table D (sd_page a)")
    case (Some P)
    then obtain P' where "T' (sd_page a) = Some P'" "pg_occupancy P' = pg_occupancy P" using occ(1) by blast
    then show ?thesis using Some T'(1) by (simp add: Dict_occ_def occ_bit_def)
  next
    case None
    have "\<not> occ_bit P' a" if "T' (sd_page a) = Some P'" for P'
    proof
      assume "occ_bit P' a"
      then have "pg_occupancy P' (occupancyWord a) \<noteq> 0" unfolding occ_bit_def by auto
      then show False using occ(2) [OF that] None by auto
    qed
    then show ?thesis using None T'(1) by (auto simp: Dict_occ_def split: option.split)
  qed
qed

lemma dict_step_refl: "Dict_ok D \<Longrightarrow> dict_step D D"
  unfolding dict_step_def by (intro exI [of _ "sd_Table D"]) (simp add: Dict_ok_def)

lemma dict_step_trans: "dict_step D D1 \<Longrightarrow> dict_step D1 D2 \<Longrightarrow> dict_step D D2"
  unfolding dict_step_def using pages_kept_trans by fastforce

text \<open>The slow paths of reads and writes.\<close>

lemma update_with_read_ok:
  assumes "Dict_ok (sm_Reads S)" "range48 addr s" "ds \<noteq> 0" "par_ok p"
    and ans: "answers par p (in_chunk (Chunk addr s)) (Dict_view (sm_Reads S))"
  shows "\<exists>R. update_with_read par ds version acc_id type addr s S = Some (S\<lparr>sm_Reads := R\<rparr>) \<and> dict_step (sm_Reads S) R \<and>
    updates_on p (MASetFn ds version acc_id type) (in_chunk (Chunk addr s)) (Dict_view (sm_Reads S)) (Dict_view R)"
proof -
  let ?D = "sm_Reads S"
  have T: "tb_ok MALineMethods (sd_Table ?D)" using assms(1) by (simp add: Dict_ok_def)
  obtain I where I: "Update_iterator (sd_Table ?D) (Chunk addr s) = Some I" "it_Accessed I = Chunk addr s"
    "u_inv (sd_Table ?D) I"
    using Update_iterator_inv [OF assms(2)] by blast
  obtain T' where T': "update par ds version acc_id type (sd_Table ?D) I = Some T'" "tb_ok MALineMethods T'"
    "pages_kept Page_new (sd_Table ?D) T'" "updates_on p (MASetFn ds version acc_id type) (in_chunk (Chunk addr s))
      (tb_view MALineMethods (sd_Table ?D)) (tb_view MALineMethods T')"
    using update_ok [OF assms(3,4) T I(3), unfolded I(2)] ans unfolding Dict_view_def by blast
  have "update_with_read par ds version acc_id type addr s S = Some (S\<lparr>sm_Reads := ?D\<lparr>sd_Table := T'\<rparr>\<rparr>)"
    using I(1) T'(1) by (simp add: update_with_read_def Let_def)
  moreover have "dict_step ?D (?D\<lparr>sd_Table := T'\<rparr>)" using T'(2,3) unfolding dict_step_def by blast
  ultimately show ?thesis using T'(4) by (fastforce simp: Dict_view_def)
qed

lemma check_and_update_write_ok:
  assumes S: "Shadow_ok S" and r: "range48 addr s" and f: "ds \<noteq> 0" and par: "par_ok p"
    and ans: "answers par p (in_chunk (Chunk addr s)) (Dict_view (sm_Writes S))"
  shows "\<exists>W rs. check_and_update_write par ds version acc_id type addr s S = Some (S\<lparr>sm_Writes := W\<rparr>, rs) \<and>
    dict_step (sm_Writes S) W \<and>
    updates_on p (MASetFn ds version acc_id type) (in_chunk (Chunk addr s)) (Dict_view (sm_Writes S)) (Dict_view W) \<and>
    reports_sound p (Dict_view (sm_Writes S)) (in_chunk (Chunk addr s)) WW_RACE acc_id type rs \<and>
    writes_missed p (MASetFn ds version acc_id type) (in_chunk (Chunk addr s)) (Dict_view (sm_Writes S)) (Dict_view W) rs"
proof -
  let ?D = "sm_Writes S" and ?f = "MASetFn ds version acc_id type" and ?V = "tb_view MALineMethods" and ?Q = "in_chunk (Chunk addr s)"
  have T: "tb_ok MALineMethods (sd_Table ?D)" and A: "Dict_ok (sm_Allocs S)"
    using S by (simp_all add: Dict_ok_def Shadow_ok_def)
  obtain I where I: "Update_iterator (sd_Table ?D) (Chunk addr s) = Some I" "it_Accessed I = Chunk addr s"
    "u_inv (sd_Table ?D) I"
    using Update_iterator_inv [OF r] by blast
  obtain T' rs where T': "check_and_update_write_loop S par ds version acc_id type (sd_Table ?D) I = Some (T', rs)"
    "tb_ok MALineMethods T'" "pages_kept Page_new (sd_Table ?D) T'" "updates_on p ?f ?Q (?V (sd_Table ?D)) (?V T')"
    "reports_sound p (?V (sd_Table ?D)) ?Q WW_RACE acc_id type rs"
    "writes_missed p ?f ?Q (?V (sd_Table ?D)) (?V T') rs"
    using check_and_update_write_loop_ok [OF f par A T I(3), unfolded I(2)] ans unfolding Dict_view_def by blast
  have "check_and_update_write par ds version acc_id type addr s S = Some (S\<lparr>sm_Writes := ?D\<lparr>sd_Table := T'\<rparr>\<rparr>, rs)"
    using I(1) T'(1) by (simp add: check_and_update_write_def Let_def)
  moreover have "dict_step ?D (?D\<lparr>sd_Table := T'\<rparr>)" using T'(2,3) unfolding dict_step_def by blast
  moreover have "Dict_view (?D\<lparr>sd_Table := T'\<rparr>) = ?V T'" by (simp add: Dict_view_def)
  ultimately show ?thesis using T'(4-6) unfolding Dict_view_def by (metis Dict_view_def)
qed

lemma check_race_prev_ok:
  assumes "Shadow_ok S" "range48 addr s" "par_ok p"
  shows "answers par p (in_chunk (Chunk addr s)) (Dict_view (sm_Writes S)) \<Longrightarrow>
      \<exists>rs. check_race_with_prev_write True par acc_id type addr s S = Some rs \<and>
      reports_sound p (Dict_view (sm_Writes S)) (in_chunk (Chunk addr s)) WR_RACE acc_id type rs \<and>
      reports_complete p (Dict_view (sm_Writes S)) (in_chunk (Chunk addr s)) rs"
    and "answers par p (in_chunk (Chunk addr s)) (Dict_view (sm_Reads S)) \<Longrightarrow>
      \<exists>rs. check_race_with_prev_read par acc_id type addr s S = Some rs \<and>
      reports_sound p (Dict_view (sm_Reads S)) (in_chunk (Chunk addr s)) RW_RACE acc_id type rs \<and>
      reports_complete p (Dict_view (sm_Reads S)) (in_chunk (Chunk addr s)) rs"
proof -
  have D: "Dict_ok (sm_Writes S)" "Dict_ok (sm_Reads S)" using assms(1) by (simp_all add: Shadow_ok_def)
  show "\<exists>rs. check_race_with_prev_write True par acc_id type addr s S = Some rs \<and>
      reports_sound p (Dict_view (sm_Writes S)) (in_chunk (Chunk addr s)) WR_RACE acc_id type rs \<and>
      reports_complete p (Dict_view (sm_Writes S)) (in_chunk (Chunk addr s)) rs"
    if "answers par p (in_chunk (Chunk addr s)) (Dict_view (sm_Writes S))"
    using check_race_range [OF assms(1,3,2) D(1) that, of acc_id type WR_RACE]
    by (auto simp: check_race_with_prev_write_def race_type_def)
  show "\<exists>rs. check_race_with_prev_read par acc_id type addr s S = Some rs \<and>
      reports_sound p (Dict_view (sm_Reads S)) (in_chunk (Chunk addr s)) RW_RACE acc_id type rs \<and>
      reports_complete p (Dict_view (sm_Reads S)) (in_chunk (Chunk addr s)) rs"
    if "answers par p (in_chunk (Chunk addr s)) (Dict_view (sm_Reads S))"
    using check_race_range [OF assms(1,3,2) D(2) that, of acc_id type RW_RACE]
    by (auto simp: check_race_with_prev_read_def race_type_def)
qed


subsection \<open>The fast paths\<close>

text \<open>An access that covers exactly one entry of a line.\<close>

definition one_entry :: "u64 \<Rightarrow> u64 \<Rightarrow> nat \<Rightarrow> bool" where
  "one_entry addr s g \<longleftrightarrow> unat s = 2 ^ g \<and> 2 ^ g dvd unat addr"

text \<open>The accesses that are sent to the fast paths: not larger than their alignment, which is a power of two
  of at most 512.\<close>

definition fast_access :: "u64 \<Rightarrow> u64 \<Rightarrow> bool" where
  "fast_access addr s \<longleftrightarrow> range48 addr s \<and> (\<exists>k \<le> 9. unat s \<le> 2 ^ k \<and> 2 ^ k dvd unat addr)"

lemma fast_one_entry:
  assumes "fast_access addr s" "ln_LgGrainsize L \<le> 9" "\<not> grain_differs L s"
  shows "one_entry addr s (ln_LgGrainsize L)"
proof -
  let ?g = "ln_LgGrainsize L"
  obtain k where k: "k \<le> 9" "unat s \<le> 2 ^ k" "2 ^ k dvd unat addr" using assms(1) by (auto simp: fast_access_def)
  have "(2::nat) ^ k \<le> 2 ^ 9" using k(1) by (intro power_increasing) simp_all
  then have s: "unat s \<le> 512" using k(2) by simp
  have g: "(2::nat) ^ ?g \<le> 2 ^ 9" using assms(2) by (intro power_increasing) simp_all
  have u: "unat (ucast s :: u32) = unat s" using s by (simp add: unsigned_ucast_eq take_bit_nat_eq_self)
  have p: "unat (push_bit ?g (1 :: u32)) = 2 ^ ?g"
  proof -
    have "push_bit ?g (1 :: u32) = of_nat (2 ^ ?g)" by (simp add: push_bit_eq_mult)
    then have "unat (push_bit ?g (1 :: u32)) = take_bit 32 (2 ^ ?g)" by (simp only: unat_of_nat len_of_numeral_defs) (simp add: take_bit_nat_def)
    also have "\<dots> = 2 ^ ?g" by (rule take_bit_nat_eq_self) (rule le_less_trans [OF g], simp)
    finally show ?thesis .
  qed
  have "unat s = 2 ^ ?g" using assms(3) u p by (simp add: grain_differs_def)
  then have "?g \<le> k" using k(2) by simp
  then have "2 ^ ?g dvd unat addr" using k(3) power_le_dvd by blast
  then show ?thesis using \<open>unat s = 2 ^ ?g\<close> by (simp add: one_entry_def)
qed

lemma one_entry_range:
  assumes "one_entry addr s g"
  shows "in_chunk (Chunk addr s) a \<longleftrightarrow> unat a div 2 ^ g = unat addr div 2 ^ g"
proof -
  obtain q where q: "unat addr = 2 ^ g * q" using assms by (auto simp: one_entry_def)
  have d: "unat addr div 2 ^ g = q" using q by simp
  show ?thesis
    unfolding d using assms q div_nat_eqI [of "2 ^ g" q "unat a"]
    by (auto simp: in_chunk_def one_entry_def algebra_simps dividend_less_times_div)
qed

lemma one_entry_view:
  assumes "tb_ok M T" "tb_line T addr = Some L" "one_entry addr s (ln_LgGrainsize L)" "in_chunk (Chunk addr s) a"
  shows "tb_view M T a = tb_view M T addr"
  using tb_view_same_entry [OF assms(1,2)] one_entry_range [OF assms(3)] assms(4) by blast

lemma getLine_ok:
  assumes "range48 addr s"
  shows "getLine addr D = Some (tb_line (sd_Table D) addr)"
  using page_ptr_48 [OF range48D(1,2) [OF assms], of "sd_Table D"]
  by (auto simp: getLine_def tb_line_def deref_line_def page_ptr_def getPage_def split: option.splits if_splits)

lemma tb_line_grain: "tb_ok M T \<Longrightarrow> tb_line T a = Some L \<Longrightarrow> ln_LgGrainsize L \<le> 9"
  using tb_line_ok [of M T a L] by (simp add: Line_ok_def SD_LG_LINE_SIZE_def)

lemma lgMemSize_some: "s \<noteq> 0 \<Longrightarrow> \<exists>g. lgMemSize s = Some g"
  by (simp add: lgMemSize_def ctzl_def)

text \<open>Storing a line in its dictionary.\<close>

lemma put_line_ok:
  assumes D: "Dict_ok D" and P: "sd_Table D (sd_page addr) \<noteq> None" and L: "Line_ok MALineMethods L"
  shows "\<exists>D'. put_line addr L D = Some D' \<and> dict_step D D' \<and> tb_line (sd_Table D') addr = Some L \<and>
    (\<forall>b. Dict_view D' b = (if unat b div 512 = unat addr div 512
       then Line_view MALineMethods L (unat b mod 512) else Dict_view D b))"
proof -
  have T: "tb_ok MALineMethods (sd_Table D)" using D by (simp add: Dict_ok_def)
  obtain P where P: "sd_Table D (sd_page addr) = Some P" using P by blast
  obtain T' where T': "store_line (sd_Table D) (Some (sd_page addr, sd_line addr)) L = Some T'" "tb_ok MALineMethods T'"
    "\<And>b. tb_view MALineMethods T' b = (if unat b div 512 = unat addr div 512
       then Line_view MALineMethods L (unat b mod 512) else tb_view MALineMethods (sd_Table D) b)"
    using store_line_ok [OF T P L] by blast
  have "dict_step D (D\<lparr>sd_Table := T'\<rparr>)" using T'(2) store_line_kept [OF T'(1)] unfolding dict_step_def by blast
  moreover have "tb_line T' addr = Some L"
    using T'(1) P by (auto simp: store_line_def tb_line_def deref_line_def)
  ultimately show ?thesis using T'(1,3) by (simp add: put_line_def Dict_view_def)
qed

lemma getLineMustExist_ok:
  assumes D: "Dict_ok D" and P: "sd_Table D (sd_page addr) \<noteq> None" and r: "range48 addr s"
  shows "\<exists>L D'. getLineMustExist addr s D = Some (L, D') \<and> dict_step D D' \<and> tb_line (sd_Table D') addr = Some L \<and>
    Dict_view D' = Dict_view D"
proof -
  have T: "tb_ok MALineMethods (sd_Table D)" using D by (simp add: Dict_ok_def)
  have s: "s \<noteq> 0" using r by (simp add: range48_def)
  obtain g where g: "lgMemSize s = Some g" using lgMemSize_some [OF s] by blast
  obtain L where L: "tb_line (sd_Table D) addr = Some L" using P tb_line_page by fastforce
  show ?thesis
  proof (cases "ln_LgGrainsize L > g")
    case True
    obtain L' where L': "Line_refine MALineMethods g L = Some L'" "Line_ok MALineMethods L'"
      "\<And>b. b < 512 \<Longrightarrow> Line_view MALineMethods L' b = Line_view MALineMethods L b"
      using Line_refine_ok [OF tb_line_ok [OF T L] True MALine_valid(1)] by metis
    obtain D' where D': "put_line addr L' D = Some D'" "dict_step D D'" "tb_line (sd_Table D') addr = Some L'"
      "\<And>b. Dict_view D' b = (if unat b div 512 = unat addr div 512
       then Line_view MALineMethods L' (unat b mod 512) else Dict_view D b)"
      using put_line_ok [OF D P L'(2)] by blast
    have "Dict_view D' b = Dict_view D b" for b
    proof (cases "unat b div 512 = unat addr div 512")
      case True
      then have "tb_line (sd_Table D) b = Some L" using tb_line_same L by metis
      then show ?thesis using D'(4) [of b] True L'(3) [of "unat b mod 512"] by (simp add: Dict_view_def tb_view_def)
    qed (simp add: D'(4))
    moreover have "getLineMustExist addr s D = Some (L', D')"
    proof -
      obtain T' where "store_line (sd_Table D) (Some (sd_page addr, sd_line addr)) L' = Some T'" "D' = D\<lparr>sd_Table := T'\<rparr>"
        using D'(1) by (auto simp: put_line_def)
      then show ?thesis using g L L'(1) True getLine_ok [OF r, of D] by (simp add: getLineMustExist_def)
    qed
    ultimately show ?thesis using D'(2,3) by blast
  next
    case False
    then have "getLineMustExist addr s D = Some (L, D)" using g L getLine_ok [OF r, of D] by (simp add: getLineMustExist_def)
    then show ?thesis using L dict_step_refl [OF D] by blast
  qed
qed

lemma fast_check_ok:
  assumes A: "Dict_ok (sm_Allocs S)" and T: "tb_ok MALineMethods T" and L: "tb_line T addr = Some L"
    and ne: "\<not> Line_isEmpty L" and one: "one_entry addr s (ln_LgGrainsize L)" and r: "range48 addr s"
    and ans: "answers par p (in_chunk (Chunk addr s)) (tb_view MALineMethods T)"
  shows "\<exists>rs. fast_check S par acc_id type addr race L = Some rs \<and>
    reports_sound p (tb_view MALineMethods T) (in_chunk (Chunk addr s)) race acc_id type rs \<and>
    reports_complete p (tb_view MALineMethods T) (in_chunk (Chunk addr s)) rs"
proof -
  have "Line_ok MALineMethods L" by (rule tb_line_ok [OF T L])
  then obtain d where d: "ln_Data L = Some d" "length d = 2 ^ (SD_LG_LINE_SIZE - ln_LgGrainsize L)" "ln_LgGrainsize L \<le> SD_LG_LINE_SIZE"
    using ne by (auto simp: Line_ok_def Line_isEmpty_def split: option.splits)
  let ?i = "unat addr mod 512 div 2 ^ ln_LgGrainsize L"
  have i: "?i < length d" using Line_idx_bound d(2,3) by simp
  then have at: "Line_at (Line_getIdx (sd_byte addr) L) L = Some (d ! ?i)"
    using d(1) by (simp add: Line_at_def Line_getIdx_byte)
  have v: "tb_view MALineMethods T addr = (if MA_isValid (d ! ?i) then Some (d ! ?i) else None)"
    using L d(1) by (simp add: tb_view_def Line_view_def Let_def)
  have same: "tb_view MALineMethods T a = tb_view MALineMethods T addr" if "in_chunk (Chunk addr s) a" for a
    using one_entry_view [OF T L one that] .
  have ina: "in_chunk (Chunk addr s) addr" unfolding one_entry_range [OF one] ..
  have c1: "chunk48 (Chunk addr 1)" using chunk48_one [OF range48D(1,2) [OF r]] by simp
  note mk = mk_report_ok [OF A c1, of acc_id type "d ! ?i" race]
  have ask: "in_parallel par (d ! ?i) = Some (MA_isValid (d ! ?i) \<and> p (d ! ?i))"
    using answersD [OF ans ina, of "d ! ?i"] v by (simp add: in_parallel_def)
  show ?thesis
  proof (cases "MA_isValid (d ! ?i) \<and> p (d ! ?i)")
    case True
    then have "fast_check S par acc_id type addr race L = Some [\<lparr>rp_prev = d ! ?i, rp_acc_id = acc_id, rp_type = type,
        rp_alloc = Dict_view (sm_Allocs S) addr, rp_addr = addr, rp_race = race\<rparr>]"
      using at mk ask by (simp add: fast_check_def)
    moreover have "MA_eq (d ! ?i) ma" if "in_chunk (Chunk addr s) a" "tb_view MALineMethods T a = Some ma" for a ma
      using same [OF that(1)] that(2) v True by (simp add: MA_eq_def)
    ultimately show ?thesis using True v ina unfolding reports_sound_def reports_complete_def by auto
  next
    case False
    then have "fast_check S par acc_id type addr race L = Some []" using at ask by (auto simp: fast_check_def)
    moreover have "\<not> p ma" if "in_chunk (Chunk addr s) a" "tb_view MALineMethods T a = Some ma" for a ma
      using same [OF that(1)] that(2) v False by (auto split: if_splits)
    ultimately show ?thesis unfolding reports_sound_def reports_complete_def by auto
  qed
qed

text \<open>Recording in one entry.\<close>

lemma fast_update_ok:
  fixes addr :: u64
  assumes L: "Line_ok MALineMethods L" and f: "ds \<noteq> 0"
  defines "V \<equiv> Line_view MALineMethods L (unat addr mod 512)"
  assumes ans: "\<And>ma. V = Some ma \<Longrightarrow> par ma = Some (p ma)"
  shows "\<exists>L'. fast_update par ds version acc_id type addr L =
      Some (L', if (\<exists>ma. V = Some ma \<and> p ma) then V else None) \<and> Line_ok MALineMethods L' \<and>
    (\<forall>b < 512. if b div 2 ^ ln_LgGrainsize L = unat addr mod 512 div 2 ^ ln_LgGrainsize L \<and> \<not> (\<exists>ma. V = Some ma \<and> p ma)
       then sets_from MALineMethods (MASetFn ds version acc_id type) (Line_view MALineMethods L b) (Line_view MALineMethods L' b)
       else Line_view MALineMethods L' b = Line_view MALineMethods L b)"
proof -
  let ?f = "MASetFn ds version acc_id type" and ?M = MALineMethods and ?g = "ln_LgGrainsize L"
  let ?b = "unat addr mod 512"
  have v: "\<And>d. dm_isValid ?M (?f d)" using MASetFn_valid f by simp
  obtain L1 where L1: "Line_materialize_if ?M L = Some L1" "Line_ok ?M L1" "Line_isMaterialized L1"
    "ln_LgGrainsize L1 = ?g" "\<And>b. b < 512 \<Longrightarrow> Line_view ?M L1 b = Line_view ?M L b"
    using Line_materialize_if_ok [OF L MALine_valid(1)] by metis
  obtain d where d: "ln_Data L1 = Some d" "length d = 2 ^ (SD_LG_LINE_SIZE - ?g)" "?g \<le> SD_LG_LINE_SIZE"
    using L1(2,3,4) by (auto simp: Line_ok_def Line_isMaterialized_def)
  let ?i = "?b div 2 ^ ?g"
  have i: "?i < length d" using Line_idx_bound d(2,3) by simp
  have idx: "Line_getIdx (sd_byte addr) L1 = ?i" by (simp only: Line_getIdx_byte L1(4))
  have at: "Line_at ?i L1 = Some (d ! ?i)" using d(1) i by (simp add: Line_at_def)
  have V: "V = (if MA_isValid (d ! ?i) then Some (d ! ?i) else None)"
    using L1(5) [of ?b] d(1) L1(4) by (simp add: V_def Line_view_def Let_def)
  have b512: "?b < 512" by simp
  have ie: "?i = ?b div 2 ^ ln_LgGrainsize L1" by (simp add: L1(4))
  obtain L2 where L2: "Line_set_entry ?M ?f ?i L1 = Some L2" "Line_ok ?M L2"
    "\<And>b. b < 512 \<Longrightarrow> if b div 2 ^ ln_LgGrainsize L1 = ?i then sets_from ?M ?f (Line_view ?M L1 b) (Line_view ?M L2 b)
       else Line_view ?M L2 b = Line_view ?M L1 b"
    using Line_set_entry_from [where f = ?f, OF L1(2,3) b512 ie v] by metis
  show ?thesis
  proof (cases "\<exists>ma. V = Some ma \<and> p ma")
    case True
    then have "fast_update par ds version acc_id type addr L = Some (L1, V)"
      using L1(1) at idx V ans by (auto simp: fast_update_def Let_def split: if_splits)
    then show ?thesis using True L1(2,5) by auto
  next
    case False
    have "fast_update par ds version acc_id type addr L = Some (L2, None)"
      using False L1(1) at idx V L2(1) ans by (auto simp: fast_update_def Line_set_entry_def Let_def split: if_splits)
    moreover have "if b div 2 ^ ?g = ?i then sets_from ?M ?f (Line_view ?M L b) (Line_view ?M L2 b)
        else Line_view ?M L2 b = Line_view ?M L b" if "b < 512" for b
      using L2(3) [OF that] unfolding L1(4) L1(5) [OF that] .
    ultimately show ?thesis using False L2(2) by auto
  qed
qed


text \<open>What the checks of a read and of a write achieve, whatever path they take.\<close>

definition read_checked ::
  "(MemoryAccess_t \<Rightarrow> bool) \<Rightarrow> (MemoryAccess_t \<Rightarrow> MemoryAccess_t) \<Rightarrow> (u64 \<Rightarrow> bool) \<Rightarrow> csi_id_t \<Rightarrow> MAType_t \<Rightarrow>
   Shadow_t \<Rightarrow> Shadow_t \<Rightarrow> Report_t list \<Rightarrow> bool" where
  "read_checked p f Q acc_id type S S' rs \<longleftrightarrow>
     sm_Writes S' = sm_Writes S \<and> sm_Allocs S' = sm_Allocs S \<and> dict_step (sm_Reads S) (sm_Reads S') \<and>
     updates_on p f Q (Dict_view (sm_Reads S)) (Dict_view (sm_Reads S')) \<and>
     reports_sound p (Dict_view (sm_Writes S)) Q WR_RACE acc_id type rs \<and>
     reports_complete p (Dict_view (sm_Writes S)) Q rs"

definition write_checked ::
  "(MemoryAccess_t \<Rightarrow> bool) \<Rightarrow> (MemoryAccess_t \<Rightarrow> MemoryAccess_t) \<Rightarrow> (u64 \<Rightarrow> bool) \<Rightarrow> csi_id_t \<Rightarrow> MAType_t \<Rightarrow>
   Shadow_t \<Rightarrow> Shadow_t \<Rightarrow> Report_t list \<Rightarrow> bool" where
  "write_checked p f Q acc_id type S S' rs \<longleftrightarrow>
     sm_Reads S' = sm_Reads S \<and> sm_Allocs S' = sm_Allocs S \<and> dict_step (sm_Writes S) (sm_Writes S') \<and>
     updates_on p f Q (Dict_view (sm_Writes S)) (Dict_view (sm_Writes S')) \<and>
     (\<exists>rr ww. set rs = set rr \<union> set ww \<and>
        reports_sound p (Dict_view (sm_Reads S)) Q RW_RACE acc_id type rr \<and>
        reports_complete p (Dict_view (sm_Reads S)) Q rr \<and>
        reports_sound p (Dict_view (sm_Writes S)) Q WW_RACE acc_id type ww \<and>
        writes_missed p f Q (Dict_view (sm_Writes S)) (Dict_view (sm_Writes S')) ww)"

lemma reports_sound_append:
  "reports_sound p V Q race acc_id type (xs @ ys) \<longleftrightarrow>
     reports_sound p V Q race acc_id type xs \<and> reports_sound p V Q race acc_id type ys"
  by (auto simp: reports_sound_def)

lemma reports_complete_append:
  "reports_complete p V Q xs \<or> reports_complete p V Q ys \<Longrightarrow> reports_complete p V Q (xs @ ys)"
  unfolding reports_complete_def by auto

lemma reports_sound_Nil: "reports_sound p V Q race acc_id type []"
  by (simp add: reports_sound_def)

text \<open>Both fast paths first check against the other dictionary, fully when its grainsize differs, later
  against the one entry otherwise.\<close>

definition other_check ::
  "bool \<Rightarrow> query \<Rightarrow> csi_id_t \<Rightarrow> MAType_t \<Rightarrow> u64 \<Rightarrow> u64 \<Rightarrow> Shadow_t \<Rightarrow> (bool \<times> Report_t list) option" where
  "other_check is_read par acc_id type addr s S =
     (let line = tb_line (sd_Table (if is_read then sm_Writes S else sm_Reads S)) addr;
          need = (case line of None \<Rightarrow> False | Some L \<Rightarrow> \<not> Line_isEmpty L)
      in case line of
           Some L \<Rightarrow>
             if need \<and> grain_differs L s
             then map_option (\<lambda>rs. (False, rs))
               (if is_read then check_race_with_prev_write True par acc_id type addr s S
                else check_race_with_prev_read par acc_id type addr s S)
             else Some (need, [])
         | None \<Rightarrow> Some (need, []))"

lemma fast_same_line:
  assumes "fast_access addr s" "in_chunk (Chunk addr s) a"
  shows "unat a div 512 = unat addr div 512"
proof -
  obtain k where k: "k \<le> 9" "unat s \<le> 2 ^ k" "2 ^ k dvd unat addr" using assms(1) by (auto simp: fast_access_def)
  obtain q where q: "unat addr = 2 ^ k * q" using k(3) by blast
  have "2 ^ k * q \<le> unat a" "unat a < 2 ^ k * Suc q" using assms(2) k(2) q by (simp_all add: in_chunk_def)
  then have "unat a div 2 ^ k = q" by (rule div_nat_eqI)
  moreover have "unat addr div 2 ^ k = q" using q by simp
  ultimately have "unat a div 2 ^ k = unat addr div 2 ^ k" by simp
  then show ?thesis by (rule same_grain_line(1) [OF _ k(1)])
qed

lemma other_check_ok:
  fixes is_read :: bool
  assumes S: "Shadow_ok S" and fa: "fast_access addr s" and par: "par_ok p"
    and S': "Dict_ok (sm_Allocs S')"
  defines "D \<equiv> if is_read then sm_Writes S else sm_Reads S" and "race \<equiv> if is_read then WR_RACE else RW_RACE"
  assumes ans: "answers par p (in_chunk (Chunk addr s)) (Dict_view D)"
  shows "\<exists>need rs1 rs2. other_check is_read par acc_id type addr s S = Some (need, rs1) \<and>
    (case tb_line (sd_Table D) addr of
       Some L \<Rightarrow> if need then fast_check S' par acc_id type addr race L else Some []
     | None \<Rightarrow> Some []) = Some rs2 \<and>
    reports_sound p (Dict_view D) (in_chunk (Chunk addr s)) race acc_id type (rs1 @ rs2) \<and>
    reports_complete p (Dict_view D) (in_chunk (Chunk addr s)) (rs1 @ rs2)"
proof -
  have r: "range48 addr s" using fa by (simp add: fast_access_def)
  have D: "Dict_ok D" using S by (simp add: D_def Shadow_ok_def)
  then have T: "tb_ok MALineMethods (sd_Table D)" by (simp add: Dict_ok_def)
  let ?Q = "in_chunk (Chunk addr s)"
  have line: "tb_line (sd_Table D) a = tb_line (sd_Table D) addr" if "?Q a" for a
    by (rule tb_line_same [OF fast_same_line [OF fa that]])
  have quiet: ?thesis if n: "other_check is_read par acc_id type addr s S = Some (False, [])"
    and v: "\<forall>a. ?Q a \<longrightarrow> Dict_view D a = None"
  proof -
    have e: "reports_sound p (Dict_view D) ?Q race acc_id type ([] @ [])" "reports_complete p (Dict_view D) ?Q ([] @ [])"
      using v by (fastforce simp: reports_sound_def reports_complete_def)+
    show ?thesis
      by (rule exI [of _ False], rule exI, rule exI [of _ "[]"], rule conjI [OF n]) (simp add: e [simplified] split: option.split)
  qed
  show ?thesis
  proof (cases "tb_line (sd_Table D) addr")
    case None
    have "other_check is_read par acc_id type addr s S = Some (False, [])"
      using None by (simp add: other_check_def D_def Let_def)
    moreover have "\<forall>a. ?Q a \<longrightarrow> Dict_view D a = None"
      using line None by (simp add: Dict_view_def tb_view_def)
    ultimately show ?thesis using quiet by blast
  next
    case (Some L)
    have Lok: "Line_ok MALineMethods L" by (rule tb_line_ok [OF T Some])
    show ?thesis
    proof (cases "Line_isEmpty L")
      case True
      have "other_check is_read par acc_id type addr s S = Some (False, [])"
        using Some True by (simp add: other_check_def D_def Let_def)
      moreover have "\<forall>a. ?Q a \<longrightarrow> Dict_view D a = None"
        using tb_view_line_empty [OF T _ True] line Some by (simp add: Dict_view_def)
      ultimately show ?thesis using quiet by blast
    next
      case ne: False
      show ?thesis
      proof (cases "grain_differs L s")
        case True
        obtain rs where rs: "(if is_read then check_race_with_prev_write True par acc_id type addr s S
                else check_race_with_prev_read par acc_id type addr s S) = Some rs"
          "reports_sound p (Dict_view D) ?Q race acc_id type rs" "reports_complete p (Dict_view D) ?Q rs"
          using check_race_prev_ok [OF S r par, of par acc_id type] ans unfolding D_def race_def by (cases is_read) auto
        have "other_check is_read par acc_id type addr s S = Some (False, rs)"
          using Some True ne rs(1) by (cases is_read) (simp_all add: other_check_def D_def Let_def)
        then show ?thesis using Some rs(2,3) by (intro exI [of _ False]) simp
      next
        case False
        have one: "one_entry addr s (ln_LgGrainsize L)"
          by (rule fast_one_entry [OF fa tb_line_grain [OF T Some] False])
        obtain rs where rs: "fast_check S' par acc_id type addr race L = Some rs"
          "reports_sound p (Dict_view D) ?Q race acc_id type rs" "reports_complete p (Dict_view D) ?Q rs"
          using fast_check_ok [OF S' T Some ne one r] ans unfolding Dict_view_def by blast
        have "other_check is_read par acc_id type addr s S = Some (True, [])"
          using Some False ne by (simp add: other_check_def D_def Let_def)
        then show ?thesis using Some rs by (intro exI [of _ True]) simp
      qed
    qed
  qed
qed

text \<open>Recording on the fast path.\<close>

lemma fast_record_ok:
  assumes D: "Dict_ok D" and L: "tb_line (sd_Table D) addr = Some L" and f: "ds \<noteq> 0"
    and one: "one_entry addr s (ln_LgGrainsize L)" and ans: "answers par p (in_chunk (Chunk addr s)) (Dict_view D)"
  shows "\<exists>L' D'. fast_update par ds version acc_id type addr L =
      Some (L', if (\<exists>ma. Dict_view D addr = Some ma \<and> p ma) then Dict_view D addr else None) \<and>
    put_line addr L' D = Some D' \<and> dict_step D D' \<and>
    updates_on p (MASetFn ds version acc_id type) (in_chunk (Chunk addr s)) (Dict_view D) (Dict_view D')"
proof -
  let ?f = "MASetFn ds version acc_id type" and ?M = MALineMethods and ?Q = "in_chunk (Chunk addr s)"
  have T: "tb_ok ?M (sd_Table D)" using D by (simp add: Dict_ok_def)
  have Lok: "Line_ok ?M L" by (rule tb_line_ok [OF T L])
  have P: "sd_Table D (sd_page addr) \<noteq> None" using L by (auto simp: tb_line_def deref_line_def)
  have V: "Line_view ?M L (unat addr mod 512) = Dict_view D addr" using L by (simp add: Dict_view_def tb_view_def)
  have ina: "?Q addr" unfolding one_entry_range [OF one] ..
  obtain L' where L': "fast_update par ds version acc_id type addr L =
      Some (L', if (\<exists>ma. Dict_view D addr = Some ma \<and> p ma) then Dict_view D addr else None)" "Line_ok ?M L'"
    "\<And>b. b < 512 \<Longrightarrow> if b div 2 ^ ln_LgGrainsize L = unat addr mod 512 div 2 ^ ln_LgGrainsize L \<and>
         \<not> (\<exists>ma. Dict_view D addr = Some ma \<and> p ma)
       then sets_from ?M ?f (Line_view ?M L b) (Line_view ?M L' b) else Line_view ?M L' b = Line_view ?M L b"
    using fast_update_ok [OF Lok f, where addr = addr and par = par and p = p and version = version and acc_id = acc_id and type = type]
      answersD [OF ans] ina unfolding V by blast
  obtain D' where D': "put_line addr L' D = Some D'" "dict_step D D'"
    "\<And>b. Dict_view D' b = (if unat b div 512 = unat addr div 512 then Line_view ?M L' (unat b mod 512) else Dict_view D b)"
    using put_line_ok [OF D P L'(2)] by blast
  have g9: "ln_LgGrainsize L \<le> 9" by (rule tb_line_grain [OF T L])
  have "if ?Q a then sets_from ?M ?f (Dict_view D a) (Dict_view D' a) \<or>
        (Dict_view D' a = Dict_view D a \<and> (\<exists>ma. Dict_view D a = Some ma \<and> p ma))
      else Dict_view D' a = Dict_view D a" for a
  proof (cases "unat a div 512 = unat addr div 512")
    case True
    have va: "Dict_view D a = Line_view ?M L (unat a mod 512)"
      using tb_line_same [OF True, of "sd_Table D"] L by (simp add: Dict_view_def tb_view_def)
    have v': "Dict_view D' a = Line_view ?M L' (unat a mod 512)" using D'(3) [of a] True by simp
    have q: "?Q a \<longleftrightarrow> unat a mod 512 div 2 ^ ln_LgGrainsize L = unat addr mod 512 div 2 ^ ln_LgGrainsize L"
    proof
      assume "?Q a"
      then show "unat a mod 512 div 2 ^ ln_LgGrainsize L = unat addr mod 512 div 2 ^ ln_LgGrainsize L"
        using one_entry_range [OF one] same_grain_line(2) [OF _ g9] by blast
    next
      have p: "x div 2 ^ g = x div 512 * 2 ^ (9 - g) + x mod 512 div 2 ^ g" if "g \<le> 9" for x g :: nat
      proof -
        have e: "(512::nat) = 2 ^ (9 - g) * 2 ^ g" using that by (simp flip: power_add)
        have "x = x div 512 * 2 ^ (9 - g) * 2 ^ g + x mod 512" unfolding mult.assoc e [symmetric] by simp
        then have "x div 2 ^ g = (x div 512 * 2 ^ (9 - g) * 2 ^ g + x mod 512) div 2 ^ g" by simp
        then show ?thesis by simp
      qed
      assume "unat a mod 512 div 2 ^ ln_LgGrainsize L = unat addr mod 512 div 2 ^ ln_LgGrainsize L"
      then have "unat a div 2 ^ ln_LgGrainsize L = unat addr div 2 ^ ln_LgGrainsize L"
        using p [OF g9, of "unat a"] p [OF g9, of "unat addr"] True by presburger
      then show "?Q a" unfolding one_entry_range [OF one] .
    qed
    have same: "?Q a \<Longrightarrow> Dict_view D a = Dict_view D addr"
      using one_entry_view [OF T L one] by (simp add: Dict_view_def)
    have "unat a mod 512 < 512" by simp
    note e = L'(3) [OF this, folded va v' q]
    show ?thesis
    proof (cases "?Q a \<and> \<not> (\<exists>ma. Dict_view D addr = Some ma \<and> p ma)")
      case True
      then show ?thesis using e by simp
    next
      case False
      then have "Dict_view D' a = Dict_view D a" using e by (simp only: if_False)
      moreover have "\<exists>ma. Dict_view D a = Some ma \<and> p ma" if "?Q a"
        unfolding same [OF that] using False that by blast
      ultimately show ?thesis by simp
    qed
  next
    case False
    have "\<not> ?Q a"
    proof
      assume "?Q a"
      then have "unat a div 2 ^ ln_LgGrainsize L = unat addr div 2 ^ ln_LgGrainsize L"
        unfolding one_entry_range [OF one] .
      then show False using same_grain_line(1) [OF _ g9] False by blast
    qed
    then show ?thesis using D'(3) [of a] False by simp
  qed
  then show ?thesis using L'(1) D'(1,2) unfolding updates_on_def by blast
qed


lemma dict_step_view_line:
  assumes "Dict_ok D" "dict_step D D'" "tb_line (sd_Table D') addr = Some L" "grain_differs L s \<or> fast_access addr s"
  shows "grain_differs L s \<or> one_entry addr s (ln_LgGrainsize L)"
proof -
  have "tb_ok MALineMethods (sd_Table D')" using dict_stepD(1) [OF assms(2,1)] by (simp add: Dict_ok_def)
  then show ?thesis using fast_one_entry [OF _ tb_line_grain [OF _ assms(3)]] assms(4) by blast
qed

lemma check_read_fast_eq:
  assumes "range48 addr s"
  shows "check_read_fast par ds version acc_id type addr s S =
     do {
       (need, rs1) \<leftarrow> other_check True par acc_id type addr s S;
       (read_line, R) \<leftarrow> getLineMustExist addr s (sm_Reads S);
       S1 \<leftarrow>
         (if grain_differs read_line s then update_with_read par ds version acc_id type addr s (S\<lparr>sm_Reads := R\<rparr>)
          else do {
            (read_line, _) \<leftarrow> fast_update par ds version acc_id type addr read_line;
            R' \<leftarrow> put_line addr read_line (sm_Reads (S\<lparr>sm_Reads := R\<rparr>));
            Some (S\<lparr>sm_Reads := R\<rparr>\<lparr>sm_Reads := R'\<rparr>)
          });
       rs2 \<leftarrow> (case tb_line (sd_Table (sm_Writes S)) addr of
            Some L \<Rightarrow> if need then fast_check S1 par acc_id type addr WR_RACE L else Some []
          | None \<Rightarrow> Some []);
       Some (S1, rs1 @ rs2)
     }"
  by (simp add: check_read_fast_def other_check_def getLine_ok [OF assms] Let_def cong: if_cong)

lemma check_write_fast_eq:
  assumes "range48 addr s"
  shows "check_write_fast par ds version acc_id type addr s S =
     do {
       (need, rs1) \<leftarrow> other_check False par acc_id type addr s S;
       (write_line, W) \<leftarrow> getLineMustExist addr s (sm_Writes S);
       (S1, rs2) \<leftarrow>
         (if grain_differs write_line s then check_and_update_write par ds version acc_id type addr s (S\<lparr>sm_Writes := W\<rparr>)
          else do {
            (write_line, prev) \<leftarrow> fast_update par ds version acc_id type addr write_line;
            rs \<leftarrow> (case prev of
                Some ma \<Rightarrow> map_option (\<lambda>r. [r]) (mk_report (S\<lparr>sm_Writes := W\<rparr>) acc_id type ma addr WW_RACE)
              | None \<Rightarrow> Some []);
            W' \<leftarrow> put_line addr write_line (sm_Writes (S\<lparr>sm_Writes := W\<rparr>));
            Some (S\<lparr>sm_Writes := W\<rparr>\<lparr>sm_Writes := W'\<rparr>, rs)
          });
       rs3 \<leftarrow> (case tb_line (sd_Table (sm_Reads S)) addr of
            Some L \<Rightarrow> if need then fast_check S1 par acc_id type addr RW_RACE L else Some []
          | None \<Rightarrow> Some []);
       Some (S1, rs1 @ rs2 @ rs3)
     }"
  by (simp add: check_write_fast_def other_check_def getLine_ok [OF assms] Let_def)

lemma check_read_fast_ok:
  assumes S: "Shadow_ok S" and fa: "fast_access addr s" and f: "ds \<noteq> 0" and par: "par_ok p"
    and P: "sd_Table (sm_Reads S) (sd_page addr) \<noteq> None"
    and ans: "answers par p (in_chunk (Chunk addr s)) (Dict_view (sm_Reads S))"
      "answers par p (in_chunk (Chunk addr s)) (Dict_view (sm_Writes S))"
  shows "\<exists>S' rs. check_read_fast par ds version acc_id type addr s S = Some (S', rs) \<and>
    read_checked p (MASetFn ds version acc_id type) (in_chunk (Chunk addr s)) acc_id type S S' rs"
proof -
  let ?f = "MASetFn ds version acc_id type" and ?Q = "in_chunk (Chunk addr s)"
  have r: "range48 addr s" using fa by (simp add: fast_access_def)
  have R: "Dict_ok (sm_Reads S)" and A: "Dict_ok (sm_Allocs S)" using S by (simp_all add: Shadow_ok_def)
  obtain L R1 where L: "getLineMustExist addr s (sm_Reads S) = Some (L, R1)" "dict_step (sm_Reads S) R1"
    "tb_line (sd_Table R1) addr = Some L" "Dict_view R1 = Dict_view (sm_Reads S)"
    using getLineMustExist_ok [OF R P r] by blast
  have R1: "Dict_ok R1" by (rule dict_stepD(1) [OF L(2) R])
  let ?S1 = "S\<lparr>sm_Reads := R1\<rparr>"
  obtain R2 where R2: "(if grain_differs L s then update_with_read par ds version acc_id type addr s ?S1
      else do {
        (read_line, _) \<leftarrow> fast_update par ds version acc_id type addr L;
        R \<leftarrow> put_line addr read_line (sm_Reads ?S1);
        Some (?S1\<lparr>sm_Reads := R\<rparr>)
      }) = Some (S\<lparr>sm_Reads := R2\<rparr>)" "dict_step R1 R2" "updates_on p ?f ?Q (Dict_view R1) (Dict_view R2)"
  proof (cases "grain_differs L s")
    case True
    then show ?thesis
      using update_with_read_ok [where S = ?S1 and addr = addr and s = s and ds = ds and par = par and p = p
          and version = version and acc_id = acc_id and type = type] R1 r f par ans(1) L(4) that by auto
  next
    case False
    then have "one_entry addr s (ln_LgGrainsize L)" using dict_step_view_line [OF R L(2,3)] fa by blast
    from fast_record_ok [OF R1 L(3) f this, of par p version acc_id type] ans(1) L(4) show ?thesis using False that by fastforce
  qed
  let ?S2 = "S\<lparr>sm_Reads := R2\<rparr>"
  have "Dict_ok (sm_Allocs ?S2)" using A by simp
  from other_check_ok [OF S fa par this, where par = par and is_read = True and acc_id = acc_id and type = type, unfolded if_True,
      OF ans(2)]
  obtain need rs1 rs2 where oc: "other_check True par acc_id type addr s S = Some (need, rs1)"
    "(case tb_line (sd_Table (sm_Writes S)) addr of
       Some L \<Rightarrow> if need then fast_check ?S2 par acc_id type addr WR_RACE L else Some [] | None \<Rightarrow> Some []) = Some rs2"
    "reports_sound p (Dict_view (sm_Writes S)) ?Q WR_RACE acc_id type (rs1 @ rs2)"
    "reports_complete p (Dict_view (sm_Writes S)) ?Q (rs1 @ rs2)"
    by blast
  have "check_read_fast par ds version acc_id type addr s S = Some (?S2, rs1 @ rs2)"
    using oc(1,2) L(1) R2(1) unfolding check_read_fast_eq [OF r] by (simp only: bind.bind_lunit prod.case)
  moreover have "read_checked p ?f ?Q acc_id type S ?S2 (rs1 @ rs2)"
    using oc(3,4) R2(3) dict_step_trans [OF L(2) R2(2)] by (simp add: read_checked_def L(4))
  ultimately show ?thesis by blast
qed

lemma check_write_fast_ok:
  assumes S: "Shadow_ok S" and fa: "fast_access addr s" and f: "ds \<noteq> 0" and par: "par_ok p"
    and P: "sd_Table (sm_Writes S) (sd_page addr) \<noteq> None"
    and ans: "answers par p (in_chunk (Chunk addr s)) (Dict_view (sm_Reads S))"
      "answers par p (in_chunk (Chunk addr s)) (Dict_view (sm_Writes S))"
  shows "\<exists>S' rs. check_write_fast par ds version acc_id type addr s S = Some (S', rs) \<and>
    write_checked p (MASetFn ds version acc_id type) (in_chunk (Chunk addr s)) acc_id type S S' rs"
proof -
  let ?f = "MASetFn ds version acc_id type" and ?Q = "in_chunk (Chunk addr s)"
  have r: "range48 addr s" using fa by (simp add: fast_access_def)
  have W: "Dict_ok (sm_Writes S)" and A: "Dict_ok (sm_Allocs S)" using S by (simp_all add: Shadow_ok_def)
  obtain L W1 where L: "getLineMustExist addr s (sm_Writes S) = Some (L, W1)" "dict_step (sm_Writes S) W1"
    "tb_line (sd_Table W1) addr = Some L" "Dict_view W1 = Dict_view (sm_Writes S)"
    using getLineMustExist_ok [OF W P r] by blast
  have W1: "Dict_ok W1" by (rule dict_stepD(1) [OF L(2) W])
  let ?S1 = "S\<lparr>sm_Writes := W1\<rparr>"
  have S1: "Shadow_ok ?S1" using S W1 by (simp add: Shadow_ok_def)
  obtain W2 ww where W2: "(if grain_differs L s then check_and_update_write par ds version acc_id type addr s ?S1
      else do {
        (write_line, prev) \<leftarrow> fast_update par ds version acc_id type addr L;
        rs \<leftarrow> (case prev of Some ma \<Rightarrow> map_option (\<lambda>r. [r]) (mk_report ?S1 acc_id type ma addr WW_RACE) | None \<Rightarrow> Some []);
        W \<leftarrow> put_line addr write_line (sm_Writes ?S1);
        Some (?S1\<lparr>sm_Writes := W\<rparr>, rs)
      }) = Some (S\<lparr>sm_Writes := W2\<rparr>, ww)" "dict_step W1 W2" "updates_on p ?f ?Q (Dict_view W1) (Dict_view W2)"
    "reports_sound p (Dict_view W1) ?Q WW_RACE acc_id type ww"
    "writes_missed p ?f ?Q (Dict_view W1) (Dict_view W2) ww"
  proof (cases "grain_differs L s")
    case True
    have "answers par p ?Q (Dict_view (sm_Writes ?S1))" using ans(2) L(4) by simp
    from check_and_update_write_ok [OF S1 r f par this, of version acc_id type] True that show ?thesis by auto
  next
    case False
    then have one: "one_entry addr s (ln_LgGrainsize L)" using dict_step_view_line [OF W L(2,3)] fa by blast
    let ?v = "Dict_view W1 addr"
    obtain L' W2 where u: "fast_update par ds version acc_id type addr L =
        Some (L', if (\<exists>ma. ?v = Some ma \<and> p ma) then ?v else None)"
      "put_line addr L' W1 = Some W2" "dict_step W1 W2" "updates_on p ?f ?Q (Dict_view W1) (Dict_view W2)"
      using fast_record_ok [OF W1 L(3) f one, of par p version acc_id type] ans(2) L(4) by auto
    have T1: "tb_ok MALineMethods (sd_Table W1)" using W1 by (simp add: Dict_ok_def)
    have same: "Dict_view W1 a = ?v" if "?Q a" for a
      using one_entry_view [OF T1 L(3) one that] by (simp add: Dict_view_def)
    have ina: "?Q addr" unfolding one_entry_range [OF one] ..
    show ?thesis
    proof (cases "\<exists>ma. ?v = Some ma \<and> p ma")
      case True
      then obtain ma where ma: "?v = Some ma" "p ma" by blast
      have c1: "chunk48 (Chunk addr 1)" using chunk48_one [OF range48D(1,2) [OF r]] by simp
      have A1: "Dict_ok (sm_Allocs ?S1)" using A by simp
      define rp where "rp = \<lparr>rp_prev = ma, rp_acc_id = acc_id, rp_type = type, rp_alloc = Dict_view (sm_Allocs ?S1) addr,
        rp_addr = addr, rp_race = WW_RACE\<rparr>"
      note mk = mk_report_ok [OF A1 c1, of acc_id type ma WW_RACE, folded rp_def]
      have snd: "reports_sound p (Dict_view W1) ?Q WW_RACE acc_id type [rp]"
        using ma ina by (simp add: reports_sound_def rp_def)
      have mis: "writes_missed p ?f ?Q (Dict_view W1) (Dict_view W2) [rp]"
        unfolding writes_missed_def using same ma by (fastforce simp: rp_def MA_eq_def)
      show ?thesis by (rule that [OF _ u(3,4) snd mis]) (use False u(1,2) ma mk in simp)
    next
      case none: False
      have snd: "reports_sound p (Dict_view W1) ?Q WW_RACE acc_id type []" by (rule reports_sound_Nil)
      have mis: "writes_missed p ?f ?Q (Dict_view W1) (Dict_view W2) []"
        unfolding writes_missed_def using same none by metis
      show ?thesis by (rule that [OF _ u(3,4) snd mis]) (use False u(1,2) none in auto)
    qed
  qed
  let ?S2 = "S\<lparr>sm_Writes := W2\<rparr>"
  have "Dict_ok (sm_Allocs ?S2)" using A by simp
  from other_check_ok [OF S fa par this, where par = par and is_read = False and acc_id = acc_id and type = type, unfolded if_False,
      OF ans(1)]
  obtain need rs1 rs3 where oc: "other_check False par acc_id type addr s S = Some (need, rs1)"
    "(case tb_line (sd_Table (sm_Reads S)) addr of
       Some L \<Rightarrow> if need then fast_check ?S2 par acc_id type addr RW_RACE L else Some [] | None \<Rightarrow> Some []) = Some rs3"
    "reports_sound p (Dict_view (sm_Reads S)) ?Q RW_RACE acc_id type (rs1 @ rs3)"
    "reports_complete p (Dict_view (sm_Reads S)) ?Q (rs1 @ rs3)"
    by blast
  have "check_write_fast par ds version acc_id type addr s S = Some (?S2, rs1 @ ww @ rs3)"
    using oc(1,2) L(1) W2(1) unfolding check_write_fast_eq [OF r] by (simp only: bind.bind_lunit prod.case)
  moreover have "write_checked p ?f ?Q acc_id type S ?S2 (rs1 @ ww @ rs3)"
  proof -
    have "set (rs1 @ ww @ rs3) = set (rs1 @ rs3) \<union> set ww" by auto
    then have "\<exists>rr xs. set (rs1 @ ww @ rs3) = set rr \<union> set xs \<and>
        reports_sound p (Dict_view (sm_Reads S)) ?Q RW_RACE acc_id type rr \<and>
        reports_complete p (Dict_view (sm_Reads S)) ?Q rr \<and>
        reports_sound p (Dict_view (sm_Writes S)) ?Q WW_RACE acc_id type xs \<and>
        writes_missed p ?f ?Q (Dict_view (sm_Writes S)) (Dict_view W2) xs"
      using oc(3,4) W2(4,5) unfolding L(4) by blast
    then show ?thesis using W2(3) dict_step_trans [OF L(2) W2(2)] unfolding write_checked_def by (simp add: L(4))
  qed
  ultimately show ?thesis by blast
qed

text \<open>The slow paths.\<close>

lemma slow_read_ok:
  assumes S: "Shadow_ok S" and r: "range48 addr s" and f: "ds \<noteq> 0" and par: "par_ok p"
    and ans: "answers par p (in_chunk (Chunk addr s)) (Dict_view (sm_Reads S))"
      "answers par p (in_chunk (Chunk addr s)) (Dict_view (sm_Writes S))"
  shows "\<exists>S' rs. update_with_read par ds version acc_id type addr s S = Some S' \<and>
    check_race_with_prev_write True par acc_id type addr s S' = Some rs \<and>
    read_checked p (MASetFn ds version acc_id type) (in_chunk (Chunk addr s)) acc_id type S S' rs"
proof -
  have R: "Dict_ok (sm_Reads S)" using S by (simp add: Shadow_ok_def)
  obtain R1 where R1: "update_with_read par ds version acc_id type addr s S = Some (S\<lparr>sm_Reads := R1\<rparr>)"
    "dict_step (sm_Reads S) R1"
    "updates_on p (MASetFn ds version acc_id type) (in_chunk (Chunk addr s)) (Dict_view (sm_Reads S)) (Dict_view R1)"
    using update_with_read_ok [OF R r f par ans(1)] by blast
  have "Shadow_ok (S\<lparr>sm_Reads := R1\<rparr>)" using S dict_stepD(1) [OF R1(2) R] by (simp add: Shadow_ok_def)
  from check_race_prev_ok(1) [OF this r par, of par acc_id type] show ?thesis
    using R1 ans(2) by (auto simp: read_checked_def)
qed

lemma slow_write_ok:
  assumes S: "Shadow_ok S" and r: "range48 addr s" and f: "ds \<noteq> 0" and par: "par_ok p"
    and ans: "answers par p (in_chunk (Chunk addr s)) (Dict_view (sm_Reads S))"
      "answers par p (in_chunk (Chunk addr s)) (Dict_view (sm_Writes S))"
  shows "\<exists>S' ww rr. check_and_update_write par ds version acc_id type addr s S = Some (S', ww) \<and>
    check_race_with_prev_read par acc_id type addr s S' = Some rr \<and>
    write_checked p (MASetFn ds version acc_id type) (in_chunk (Chunk addr s)) acc_id type S S' (ww @ rr)"
proof -
  have W: "Dict_ok (sm_Writes S)" using S by (simp add: Shadow_ok_def)
  obtain W1 ww where W1: "check_and_update_write par ds version acc_id type addr s S = Some (S\<lparr>sm_Writes := W1\<rparr>, ww)"
    "dict_step (sm_Writes S) W1"
    "updates_on p (MASetFn ds version acc_id type) (in_chunk (Chunk addr s)) (Dict_view (sm_Writes S)) (Dict_view W1)"
    "reports_sound p (Dict_view (sm_Writes S)) (in_chunk (Chunk addr s)) WW_RACE acc_id type ww"
    "writes_missed p (MASetFn ds version acc_id type) (in_chunk (Chunk addr s)) (Dict_view (sm_Writes S)) (Dict_view W1) ww"
    using check_and_update_write_ok [OF S r f par ans(2)] by blast
  have "Shadow_ok (S\<lparr>sm_Writes := W1\<rparr>)" using S dict_stepD(1) [OF W1(2) W] by (simp add: Shadow_ok_def)
  from check_race_prev_ok(2) [OF this r par, of par acc_id type] ans(1) obtain rr where
    rr: "check_race_with_prev_read par acc_id type addr s (S\<lparr>sm_Writes := W1\<rparr>) = Some rr"
    "reports_sound p (Dict_view (sm_Reads S)) (in_chunk (Chunk addr s)) RW_RACE acc_id type rr"
    "reports_complete p (Dict_view (sm_Reads S)) (in_chunk (Chunk addr s)) rr" by auto
  have "write_checked p (MASetFn ds version acc_id type) (in_chunk (Chunk addr s)) acc_id type S
      (S\<lparr>sm_Writes := W1\<rparr>) (ww @ rr)"
    unfolding write_checked_def
    by (intro conjI exI [of _ rr] exI [of _ ww]) (use W1(2-5) rr(2,3) in auto)
  then show ?thesis using W1(1) rr(1) by blast
qed

end
