(* ===== verification/BagSets.thy ===== *)
theory BagSets
  imports SPBags
begin

text \<open>
  The bags of \<open>cilksan/spbag.h\<close> as sets of disjoint-set nodes.  \<open>sp_tidy S ext X k\<close> is the invariant
  between the operations of the tool: every bag outside the set \<open>X\<close> of emptied bags owns its set, every
  node that the shadow memory refers to (\<open>ext\<close>) has its home in such a bag, and no rank exceeds \<open>k\<close>.
  \<open>bag_mem\<close> is the abstraction: the referenced nodes of a bag.  The lemmas state each operation on
  bags as an operation on these sets.
\<close>

subsection \<open>Ranks grow by at most one with each union\<close>

definition ds_within :: "u64 set \<Rightarrow> nat \<Rightarrow> 'd ds_heap \<Rightarrow> bool" where
  "ds_within D k h \<longleftrightarrow> (\<forall>a n. h a = Some n \<longrightarrow> a \<in> D \<and> unat (ds_rank n) \<le> k)"

lemma ds_within_ranks: "ds_within D k h \<Longrightarrow> k < 2 ^ 64 - 1 \<Longrightarrow> ds_ranks_ok h"
proof -
  assume a: "ds_within D k h" "k < 2 ^ 64 - 1"
  have "ds_rank n < - 1" if "h x = Some n" for x n
  proof -
    have u: "unat (- 1 :: u64) = 2 ^ 64 - 1"
      by (simp add: unsigned_minus_1_eq_mask mask_eq_exp_minus_1)
    have "unat (ds_rank n) < 2 ^ 64 - 1"
      using a that unfolding ds_within_def by (meson le_less_trans)
    then show ?thesis by (simp only: word_less_nat_alt u)
  qed
  then show ?thesis by (simp add: ds_ranks_ok_def)
qed

lemma ds_within_refines: "ds_refines h h' \<Longrightarrow> ds_within D k h \<Longrightarrow> ds_within D k h'"
  unfolding ds_within_def by (metis ds_refinesD)

lemma ds_within_upd:
  "ds_within D k h \<Longrightarrow> a \<in> D \<Longrightarrow> unat (ds_rank n) \<le> k \<Longrightarrow> ds_within D k (h(a \<mapsto> n))"
  by (simp add: ds_within_def)

lemma root_set_parent_rank:
  "root_set_parent a p h = Some h' \<Longrightarrow> ds_within D k h \<Longrightarrow> ds_within D k h'"
  by (auto simp: root_set_parent_def ds_inc_ref_count_def ds_within_def split: option.splits if_splits)

lemma ds_link_rank:
  assumes "ds_link a b h = Some (r, h')" "ds_within D k h"
  shows "ds_within D (Suc k) h'"
proof -
  have mono: "ds_within D (Suc k) g" if "ds_within D k g" for g :: "'a ds_heap"
    using that unfolding ds_within_def by (meson le_SucI)
  obtain m n where mn: "h a = Some m" "h b = Some n"
    using assms(1) by (auto simp: ds_link_def split: option.splits)
  show ?thesis
  proof (cases "ds_rank m > ds_rank n")
    case True
    then have "root_set_parent b a h = Some h'"
      using assms(1) mn by (auto simp: ds_link_def split: option.splits)
    then show ?thesis using root_set_parent_rank assms(2) mono by blast
  next
    case False
    then obtain g where g: "root_set_parent a b h = Some g"
      using assms(1) mn by (auto simp: ds_link_def split: option.splits)
    have gk: "ds_within D k g" using root_set_parent_rank [OF g assms(2)] .
    show ?thesis
    proof (cases "ds_rank m = ds_rank n")
      case True
      then obtain n' where n': "g b = Some n'" "h' = g(b \<mapsto> n'\<lparr>ds_rank := ds_rank n' + 1\<rparr>)"
        using assms(1) mn False g by (auto simp: ds_link_def split: option.splits)
      have "unat (ds_rank n' + 1) \<le> Suc (unat (ds_rank n'))" by (simp add: unat_word_ariths)
      also have "\<dots> \<le> Suc k" using gk n'(1) by (simp add: ds_within_def)
      finally have "unat (ds_rank n' + 1) \<le> Suc k" .
      moreover have "b \<in> D" using gk n'(1) by (simp add: ds_within_def)
      ultimately show ?thesis using mono [OF gk] n'(2) by (simp add: ds_within_upd)
    next
      case neq: False
      then show ?thesis using assms(1) mn False g mono [OF gk] by (simp add: ds_link_def)
    qed
  qed
qed

lemma ds_combine_rank:
  assumes inv: "ds_inv h ext" and a: "0 < ext a" and b: "0 < ext b"
    and L: "DSList_wf L" "DSList_elems L = []"
    and c: "ds_combine a b h L = Some (r, h', L')" and k: "ds_within D k h"
  shows "ds_within D (Suc k) h'"
proof -
  obtain r1 h1 L1 where f1: "find_set a h L = Some (r1, h1, L1)" "ds_inv h1 ext" "ds_refines h h1"
    "DSList_wf L1" "DSList_elems L1 = []"
    using find_set_ok [OF inv a L] by blast
  obtain r2 h2 L2 where f2: "find_set b h1 L1 = Some (r2, h2, L2)" "ds_refines h1 h2"
    using find_set_ok [OF f1(2) b f1(4,5)] by blast
  have "ds_within D k h2" using ds_within_refines [OF f2(2)] ds_within_refines [OF f1(3) k] by blast
  moreover have "\<exists>q. ds_link r1 r2 h2 = Some (q, h')"
    using c f1(1) f2(1) by (auto simp: ds_combine_def split: if_splits)
  ultimately show ?thesis using ds_link_rank by blast
qed

lemma spbag_combine_rank:
  assumes inv: "sp_inv S ext" and ne: "this \<noteq> that"
    and B: "sp_bags S this = Some B" "sp_owns S this"
    and C: "sp_bags S that = Some C" "sp_owns S that" "bag_ds C \<noteq> 0"
    and c: "spbag_combine this that S = Some S'" and k: "ds_within D k (sp_ds S)" "k < 2 ^ 64 - 1"
  shows "ds_within D (Suc k) (sp_ds S')"
proof -
  note I = sp_invD [OF inv]
  have mono: "ds_within D (Suc k) g" if "ds_within D k g" for g :: "'a ds_heap"
    using that unfolding ds_within_def by (meson le_SucI)
  obtain nc where nc: "sp_ds S (bag_ds C) = Some nc" using C by (auto simp: sp_owns_def)
  show ?thesis
  proof (cases "bag_ds B = 0")
    case True
    have "spbag_set_ds this (bag_ds C) S = Some S'"
      using c B C(1,3) True by (simp add: spbag_combine_def spbag_set_ds_def)
    then have "ds_sub (sp_ds S) (sp_ds S')" using spbag_set_ds_ok [OF inv B(1) nc] by auto
    then show ?thesis using ds_within_refines [OF ds_sub_refines k(1)] mono by blast
  next
    case False
    obtain r h L where cc: "ds_combine (bag_ds B) (bag_ds C) (sp_ds S) (sp_list S) = Some (r, h, L)"
      and s: "spbag_set_ds this r (S\<lparr>sp_ds := h, sp_list := L\<rparr>) = Some S'"
      using c B C(1,3) False by (auto simp: spbag_combine_def bind_eq_Some_conv)
    have "ds_within D (Suc k) h"
      using ds_combine_rank [OF I(1) sp_inv_bag_live(1) [OF inv B(1) False]
          sp_inv_bag_live(1) [OF inv C(1,3)] I(2,3) cc k(1)] .
    moreover have "ds_sub h (sp_ds S')"
    proof -
      let ?S = "S\<lparr>sp_ds := h, sp_list := L\<rparr>"
      obtain nb where nb: "sp_ds S (bag_ds B) = Some nb" "ds_par nb = None"
        "ds_parent_or_bag nb = bag_tag this B" using B False by (auto simp: sp_owns_def)
      obtain nc where nc: "sp_ds S (bag_ds C) = Some nc" "ds_par nc = None"
        "ds_parent_or_bag nc = bag_tag that C" using C by (auto simp: sp_owns_def)
      have reps: "ds_rep (sp_ds S) (bag_ds B) (bag_ds B)" "ds_rep (sp_ds S) (bag_ds C) (bag_ds C)"
        using nb nc by (blast intro: ds_rep.root)+
      have dne: "bag_ds B \<noteq> bag_ds C"
        using nb nc ne bag_tag_inj I(4) [OF B(1)] I(4) [OF C(1)] by auto
      have hinv: "ds_inv h (bag_ext ext (sp_bags S))" "DSList_wf L" "DSList_elems L = []"
        using ds_combine_ok [OF I(1) sp_inv_bag_live(1) [OF inv B(1) False]
          sp_inv_bag_live(1) [OF inv C(1,3)] reps dne ds_within_ranks [OF k] I(2,3)] cc by auto
      have inv1: "sp_inv ?S ext" using inv hinv by (auto simp: sp_inv_def)
      have "h (bag_ds B) \<noteq> None" using sp_inv_bag_live(2) [OF inv1, of this B] B False by simp
      then have "h r \<noteq> None"
        using s B by (auto simp: spbag_set_ds_def sp_inc_ref_def ds_inc_ref_count_def bind_eq_Some_conv
            split: if_splits option.splits)
      then show ?thesis using spbag_set_ds_ok [OF inv1, of this B r] B s by auto
    qed
    ultimately show ?thesis using ds_within_refines [OF ds_sub_refines] by blast
  qed
qed

subsection \<open>The home of a node\<close>

definition bag_home :: "'d sp_state \<Rightarrow> u64 \<Rightarrow> u64 \<Rightarrow> bool" where
  "bag_home S x b \<longleftrightarrow>
     (\<exists>B. sp_bags S b = Some B \<and> bag_ds B \<noteq> 0 \<and> ds_rep (sp_ds S) x (bag_ds B))"

definition bag_mem :: "'d sp_state \<Rightarrow> (u64 \<Rightarrow> nat) \<Rightarrow> u64 \<Rightarrow> u64 set" where
  "bag_mem S ext b = {x. 0 < ext x \<and> bag_home S x b}"

text \<open>The next addresses of the allocators are free, aligned, below \<open>2 ^ 48\<close> and all different.\<close>

definition addrs48 :: "u64 set" where "addrs48 = {a. take_bit 48 a = a}"

definition sp_supply :: "'d sp_state \<Rightarrow> bool" where
  "sp_supply S \<longleftrightarrow>
     distinct (sp_new S) \<and> (\<forall>a \<in> set (sp_new S). a \<noteq> 0 \<and> aligned4 a \<and> a \<in> addrs48 \<and> sp_bags S a = None)"

definition sp_tidy :: "'d sp_state \<Rightarrow> (u64 \<Rightarrow> nat) \<Rightarrow> u64 set \<Rightarrow> nat \<Rightarrow> bool" where
  "sp_tidy S ext X k \<longleftrightarrow>
     sp_inv S ext \<and> ds_within (addrs48 - set (sp_new S)) k (sp_ds S) \<and> sp_supply S \<and>
     X \<subseteq> dom (sp_bags S) \<and> (\<forall>b. sp_bags S b \<noteq> None \<longrightarrow> b \<notin> X \<longrightarrow> sp_owns S b) \<and>
     (\<forall>x. 0 < ext x \<longrightarrow> (\<exists>b. b \<notin> X \<and> bag_home S x b))"

lemma sp_tidyD:
  assumes "sp_tidy S ext X k"
  shows "sp_inv S ext" "ds_within (addrs48 - set (sp_new S)) k (sp_ds S)" "X \<subseteq> dom (sp_bags S)"
    "sp_bags S b = Some B \<Longrightarrow> b \<notin> X \<Longrightarrow> sp_owns S b"
    "0 < ext x \<Longrightarrow> \<exists>b. b \<notin> X \<and> bag_home S x b" "sp_supply S"
  using assms by (auto simp: sp_tidy_def)

lemma sp_tidy_fresh:
  assumes "sp_tidy S ext X k" "a \<in> set (sp_new S)"
  shows "a \<noteq> 0" "aligned4 a" "sp_bags S a = None" "sp_ds S a = None"
  using sp_tidyD(2,6) [OF assms(1)] assms(2) unfolding sp_supply_def ds_within_def
  by (blast, blast, blast, metis DiffD2 option.exhaust_sel)

lemma bag_mem_iff: "x \<in> bag_mem S ext b \<longleftrightarrow> 0 < ext x \<and> bag_home S x b"
  by (simp add: bag_mem_def)

lemma bag_home_None: "sp_bags S b = None \<Longrightarrow> \<not> bag_home S x b"
  by (simp add: bag_home_def)

lemma bag_home_empty: "sp_bags S b = Some B \<Longrightarrow> bag_ds B = 0 \<Longrightarrow> \<not> bag_home S x b"
  by (simp add: bag_home_def)

lemma bag_mem_dead [simp]: "sp_bags S b = None \<Longrightarrow> bag_mem S ext b = {}"
  by (simp add: bag_mem_def bag_home_None)

lemma bag_home_in:
  assumes "sp_owns S b" "bag_home S x b" "sp_bags S b = Some B"
  shows "sp_in S x (bag_tag b B)"
proof -
  have B: "bag_ds B \<noteq> 0" "ds_rep (sp_ds S) x (bag_ds B)" using assms by (auto simp: bag_home_def)
  then obtain n where "sp_ds S (bag_ds B) = Some n" "ds_parent_or_bag n = bag_tag b B"
    using assms by (auto simp: sp_owns_def)
  then show ?thesis using sp_in_rep [OF B(2)] by blast
qed

lemma bag_home_unique:
  assumes inv: "sp_inv S ext" and b: "sp_owns S b" "bag_home S x b" and c: "sp_owns S c" "bag_home S x c"
  shows "b = c"
proof -
  obtain B C where B: "sp_bags S b = Some B" and C: "sp_bags S c = Some C"
    using b c by (auto simp: bag_home_def)
  have "bag_tag b B = bag_tag c C"
    using sp_in_fun bag_home_in [OF b B] bag_home_in [OF c C] .
  then show ?thesis using bag_tag_inj sp_invD(4) [OF inv B] sp_invD(4) [OF inv C] by blast
qed

lemma ext_live: "sp_inv S ext \<Longrightarrow> 0 < ext x \<Longrightarrow> sp_ds S x \<noteq> None"
  using ds_inv_ext_live [OF sp_invD(1), of S ext x] by (auto simp: bag_ext_def)

text \<open>Changes that only free nodes or compress paths, and delete bags that are not needed.\<close>

lemma sp_tidy_refines:
  assumes t: "sp_tidy S ext X k" and inv': "sp_inv S' ext'" and ref: "ds_refines (sp_ds S) (sp_ds S')"
    and bags: "\<And>c C. sp_bags S' c = Some C \<Longrightarrow> sp_bags S c = Some C" and new: "sp_new S' = sp_new S"
    and X: "X \<inter> dom (sp_bags S') \<subseteq> X'" "X' \<subseteq> dom (sp_bags S')"
    and home: "\<And>x. 0 < ext' x \<Longrightarrow> \<exists>b. b \<notin> X' \<and> sp_bags S' b \<noteq> None \<and> bag_home S x b"
  shows "sp_tidy S' ext' X' k"
    "sp_bags S' c \<noteq> None \<Longrightarrow> bag_mem S' ext' c = {x. 0 < ext' x \<and> bag_home S x c}"
proof -
  note T = sp_tidyD [OF t]
  have rep: "ds_rep (sp_ds S') x r \<longleftrightarrow> ds_rep (sp_ds S) x r" if "0 < ext' x" for x r
    using ds_rep_refines_iff [OF sp_invD(1) [OF T(1)] sp_invD(1) [OF inv'] ref ext_live [OF inv' that]] .
  have home_iff: "bag_home S' x c \<longleftrightarrow> bag_home S x c" if "0 < ext' x" "sp_bags S' c \<noteq> None" for x c
    using that bags [of c] rep by (auto simp: bag_home_def)
  have owns: "sp_owns S' c" if c: "sp_bags S' c = Some C" "c \<notin> X'" for c C
  proof (cases "bag_ds C = 0")
    case True
    then show ?thesis using c by (simp add: sp_owns_def)
  next
    case False
    have cS: "sp_bags S c = Some C" using bags [OF c(1)] .
    have "c \<notin> X" using X(1) c by auto
    then obtain n where n: "sp_ds S (bag_ds C) = Some n" "ds_par n = None"
      "ds_parent_or_bag n = bag_tag c C"
      using T(4) [OF cS] cS False by (auto simp: sp_owns_def)
    obtain n' where n': "sp_ds S' (bag_ds C) = Some n'" using sp_inv_bag_live(2) [OF inv' c(1) False] by blast
    have "ds_par n' = None" "ds_parent_or_bag n' = ds_parent_or_bag n"
      using ds_refinesD [OF ref n'] n by (metis option.inject)+
    then show ?thesis using c n' n by (auto simp: sp_owns_def)
  qed
  have "ds_within (addrs48 - set (sp_new S')) k (sp_ds S')" using ds_within_refines [OF ref T(2)] new by simp
  moreover have "sp_supply S'"
    using T(6) bags new unfolding sp_supply_def by (metis option.exhaust_sel option.distinct(1))
  moreover have "\<exists>b. b \<notin> X' \<and> bag_home S' x b" if "0 < ext' x" for x
    using home [OF that] home_iff [OF that] by blast
  ultimately show "sp_tidy S' ext' X' k" using inv' X(2) owns by (auto simp: sp_tidy_def)
  show "bag_mem S' ext' c = {x. 0 < ext' x \<and> bag_home S x c}" if "sp_bags S' c \<noteq> None"
    using home_iff that by (auto simp: bag_mem_def)
qed

subsection \<open>Deleting a bag, and the union of two bags\<close>

lemma spbag_delete_tidy:
  assumes t: "sp_tidy S ext X k" and b: "sp_bags S b = Some B" and e: "b \<in> X \<or> bag_mem S ext b = {}"
  shows "\<exists>S'. spbag_delete b S = Some S' \<and> sp_tidy S' ext (X - {b}) k \<and>
    sp_bags S' = (sp_bags S)(b := None) \<and> sp_new S' = sp_new S \<and>
    (\<forall>c. c \<noteq> b \<longrightarrow> bag_mem S' ext c = bag_mem S ext c)"
proof -
  note T = sp_tidyD [OF t]
  obtain S' where S': "spbag_delete b S = Some S'" "sp_inv S' ext" "ds_sub (sp_ds S) (sp_ds S')"
    "sp_bags S' = (sp_bags S)(b := None)" "sp_new S' = sp_new S"
    using spbag_delete_ok [OF T(1) b] by blast
  note R = sp_tidy_refines [OF t S'(2) ds_sub_refines [OF S'(3)] _ S'(5), of "X - {b}"]
  have home: "\<exists>c. c \<notin> X - {b} \<and> sp_bags S' c \<noteq> None \<and> bag_home S x c" if x: "0 < ext x" for x
  proof -
    obtain c where c: "c \<notin> X" "bag_home S x c" using T(5) [OF x] by blast
    have "c \<noteq> b" using c e x by (metis bag_mem_iff empty_iff)
    then show ?thesis using c S'(4) by (auto simp: bag_home_def)
  qed
  have "sp_tidy S' ext (X - {b}) k"
    by (rule R(1)) (use S'(4) T(3) home in \<open>auto split: if_splits\<close>)
  moreover have "bag_mem S' ext c = bag_mem S ext c" if "c \<noteq> b" for c
  proof (cases "sp_bags S c")
    case None
    then show ?thesis using S'(4) that by simp
  next
    case (Some C)
    have "bag_mem S' ext c = {x. 0 < ext x \<and> bag_home S x c}"
      by (rule R(2)) (use S'(4) T(3) home that Some in \<open>auto split: if_splits\<close>)
    then show ?thesis by (simp add: bag_mem_def)
  qed
  ultimately show ?thesis using S' by blast
qed

text \<open>Union.\<close>

lemma sp_merged_tidy:
  assumes t: "sp_tidy S ext X k" and ne: "this \<noteq> that" and X: "this \<notin> X" "that \<notin> X"
    and B: "sp_bags S this = Some B" and C: "sp_bags S that = Some C" "bag_ds C \<noteq> 0"
    and inv': "sp_inv S' ext" and m: "sp_merged this B C S S'" and rank: "ds_within (addrs48 - set (sp_new S)) (Suc k) (sp_ds S')"
  shows "sp_tidy S' ext (insert that X) (Suc k)"
    "bag_mem S' ext this = bag_mem S ext this \<union> bag_mem S ext that"
    "\<And>c. c \<noteq> this \<Longrightarrow> c \<noteq> that \<Longrightarrow> c \<notin> X \<Longrightarrow> bag_mem S' ext c = bag_mem S ext c"
proof -
  note T = sp_tidyD [OF t]
  have oB: "sp_owns S this" and oC: "sp_owns S that" using T(4) B C X by blast+
  obtain r where bags: "sp_bags S' = (sp_bags S)(this \<mapsto> B\<lparr>bag_ds := r\<rparr>)"
    and toR: "\<And>x s. sp_ds S' x \<noteq> None \<Longrightarrow> ds_rep (sp_ds S) x s \<Longrightarrow> s \<in> {bag_ds B, bag_ds C} \<Longrightarrow>
      ds_rep (sp_ds S') x r"
    using m unfolding sp_merged_def by blast
  have own: "sp_owns S' this" using m by (simp add: sp_merged_def)
  have keep: "ds_rep (sp_ds S') x s" "sp_in S' x (ds_parent_or_bag n)"
    if "sp_ds S' x \<noteq> None" "ds_rep (sp_ds S) x s" "sp_ds S s = Some n" "s \<notin> {bag_ds B, bag_ds C}" for x s n
  proof -
    have "sp_in S' x (if s \<in> {bag_ds B, bag_ds C} then bag_tag this B else ds_parent_or_bag n) \<and>
        (s \<notin> {bag_ds B, bag_ds C} \<longrightarrow> ds_rep (sp_ds S') x s)"
      using m that unfolding sp_merged_def by blast
    then show "ds_rep (sp_ds S') x s" "sp_in S' x (ds_parent_or_bag n)" using that(4) by simp_all
  qed
  have tag: "bag_tag this (B\<lparr>bag_ds := r\<rparr>) = bag_tag this B" by (simp add: bag_tag_def is_SBag_def)
  text \<open>Where a referenced node goes.\<close>
  have this_iff: "bag_home S' x this \<longleftrightarrow> bag_home S x this \<or> bag_home S x that" if x: "0 < ext x" for x
  proof -
    have lx: "sp_ds S' x \<noteq> None" by (rule ext_live [OF inv' x])
    obtain b D where b: "b \<notin> X" "bag_home S x b" "sp_bags S b = Some D" "bag_ds D \<noteq> 0"
      "ds_rep (sp_ds S) x (bag_ds D)" using T(5) [OF x] by (auto simp: bag_home_def)
    have ob: "sp_owns S b" using T(4) [OF b(3,1)] .
    obtain n where n: "sp_ds S (bag_ds D) = Some n" "ds_parent_or_bag n = bag_tag b D"
      using ob b(3,4) by (auto simp: sp_owns_def)
    show ?thesis
    proof (cases "b = this \<or> b = that")
      case True
      then have "bag_ds D \<in> {bag_ds B, bag_ds C}" using b(3) B C by auto
      then have r: "ds_rep (sp_ds S') x r" using toR [OF lx b(5)] by blast
      then have "r \<noteq> 0" using ds_rep_root ds_inv_node(1) [OF sp_invD(1) [OF inv']] by blast
      then have "bag_home S' x this" using r bags by (simp add: bag_home_def)
      then show ?thesis using True b(2) by blast
    next
      case False
      have other: "bag_ds D \<noteq> bag_ds E" if E: "sp_bags S c = Some E" "sp_owns S c" "c \<noteq> b" for c E
        using bag_home_unique [OF T(1) ob b(2) E(2)] E b(4,5) by (auto simp: bag_home_def)
      have nin: "bag_ds D \<notin> {bag_ds B, bag_ds C}"
        using other [OF B oB] other [OF C(1) oC] False by blast
      have "\<not> bag_home S' x this"
      proof
        assume h: "bag_home S' x this"
        have "sp_bags S' this = Some (B\<lparr>bag_ds := r\<rparr>)" using bags by simp
        then have "sp_in S' x (bag_tag this B)" using bag_home_in [OF own h] tag by simp
        then have "bag_tag this B = bag_tag b D"
          using sp_in_fun keep(2) [OF lx b(5) n(1) nin] n(2) by metis
        then show False
          using bag_tag_inj sp_invD(4) [OF T(1) B] sp_invD(4) [OF T(1) b(3)] False by blast
      qed
      moreover have "\<not> bag_home S x this" "\<not> bag_home S x that"
        using bag_home_unique [OF T(1) ob b(2)] oB oC False by blast+
      ultimately show ?thesis by blast
    qed
  qed
  have owns: "sp_owns S' c" if c: "sp_bags S' c \<noteq> None" "c \<noteq> that" "c \<notin> X" for c
  proof (cases "c = this")
    case False
    then have "sp_owns S c" using c bags T(4) by auto
    then show ?thesis using sp_merged_owns [OF T(1) inv' m B oB C(1) oC _ c(2) False C(2)] by blast
  qed (use own in simp)
  have kept: "bag_home S' x c" if x: "0 < ext x" and c: "c \<noteq> this" "c \<noteq> that" "c \<notin> X"
    and h: "bag_home S x c" for x c
  proof -
    obtain D where D: "sp_bags S c = Some D" "bag_ds D \<noteq> 0" "ds_rep (sp_ds S) x (bag_ds D)"
      using h by (auto simp: bag_home_def)
    have oc: "sp_owns S c" using T(4) [OF D(1) c(3)] .
    obtain n where n: "sp_ds S (bag_ds D) = Some n" using oc D by (auto simp: sp_owns_def)
    have nin: "bag_ds D \<notin> {bag_ds B, bag_ds C}"
      using bag_home_unique [OF T(1) oc h oB] bag_home_unique [OF T(1) oc h oC] B C D c
      by (auto simp: bag_home_def)
    then show ?thesis using keep(1) [OF ext_live [OF inv' x] D(3) n nin] bags D c
      by (auto simp: bag_home_def)
  qed
  have new_home: "\<exists>b. b \<noteq> that \<and> b \<notin> X \<and> bag_home S' x b \<and> (b \<noteq> this \<longrightarrow> bag_home S x b)"
    if x: "0 < ext x" for x
  proof -
    obtain b where b: "b \<notin> X" "bag_home S x b" using T(5) [OF x] by blast
    show ?thesis
    proof (cases "b = this \<or> b = that")
      case True
      then have "bag_home S' x this" using this_iff [OF x] b by blast
      then show ?thesis using ne X by blast
    next
      case False
      then show ?thesis using kept [OF x _ _ b] b by blast
    qed
  qed
  have other_iff: "bag_home S' x c \<longleftrightarrow> bag_home S x c"
    if x: "0 < ext x" and c: "c \<noteq> this" "c \<noteq> that" "c \<notin> X" for x c
  proof
    assume h: "bag_home S' x c"
    obtain b where b: "b \<noteq> that" "b \<notin> X" "bag_home S' x b" "b \<noteq> this \<longrightarrow> bag_home S x b"
      using new_home [OF x] by blast
    have "sp_owns S' b" "sp_owns S' c" using owns b c h bag_home_None [of S'] by blast+
    then have "b = c" using bag_home_unique [OF inv'] b(3) h by blast
    then show "bag_home S x c" using b(4) c by blast
  qed (use kept [OF x c] in blast)
  show "bag_mem S' ext this = bag_mem S ext this \<union> bag_mem S ext that"
    using this_iff by (auto simp: bag_mem_def)
  show "\<And>c. c \<noteq> this \<Longrightarrow> c \<noteq> that \<Longrightarrow> c \<notin> X \<Longrightarrow> bag_mem S' ext c = bag_mem S ext c"
    using other_iff by (auto simp: bag_mem_def)
  show "sp_tidy S' ext (insert that X) (Suc k)"
    unfolding sp_tidy_def
  proof (intro conjI allI impI)
    have new: "sp_new S' = sp_new S" using m by (simp add: sp_merged_def)
    show "ds_within (addrs48 - set (sp_new S')) (Suc k) (sp_ds S')" using rank new by simp
    show "sp_supply S'" using T(6) B bags new by (auto simp: sp_supply_def)
    show "insert that X \<subseteq> dom (sp_bags S')" using T(3) C(1) bags by auto
    show "sp_owns S' b" if "sp_bags S' b \<noteq> None" "b \<notin> insert that X" for b using owns that by blast
    show "\<exists>b. b \<notin> insert that X \<and> bag_home S' x b" if "0 < ext x" for x using new_home [OF that] by blast
  qed (rule inv')
qed

text \<open>Both \<open>combine\<close> methods, in one statement; an empty bag changes nothing.\<close>

lemma ds_set_pob_rank: "ds_set_pob a p h = Some h' \<Longrightarrow> ds_within D k h \<Longrightarrow> ds_within D k h'"
  by (auto simp: ds_set_pob_def ds_within_def split: option.splits if_splits)

definition moves_all :: "u64 \<Rightarrow> u64 \<Rightarrow> u64 set \<Rightarrow> (u64 \<Rightarrow> nat) \<Rightarrow> 'd sp_state \<Rightarrow> 'd sp_state \<Rightarrow> bool" where
  "moves_all this that X ext S S' \<longleftrightarrow>
     (\<exists>B r. sp_bags S this = Some B \<and> (bag_ds B \<noteq> 0 \<longrightarrow> r \<noteq> 0) \<and> sp_bags S' = (sp_bags S)(this \<mapsto> B\<lparr>bag_ds := r\<rparr>)) \<and>
     sp_new S' = sp_new S \<and>
     bag_mem S' ext this = bag_mem S ext this \<union> bag_mem S ext that \<and>
     (\<forall>c. c \<noteq> this \<longrightarrow> c \<noteq> that \<longrightarrow> c \<notin> X \<longrightarrow> bag_mem S' ext c = bag_mem S ext c)"

lemma moves_none:
  assumes t: "sp_tidy S ext X k" and B: "sp_bags S this = Some B" and C: "sp_bags S that = Some C" "bag_ds C = 0"
  shows "sp_tidy S ext (insert that X) (Suc k)" "moves_all this that X ext S S"
proof -
  have nh: "\<not> bag_home S x that" for x by (rule bag_home_empty [OF C])
  have rank: "ds_within (addrs48 - set (sp_new S)) (Suc k) (sp_ds S)"
    using sp_tidyD(2) [OF t] unfolding ds_within_def by (meson le_SucI)
  have "\<exists>b. b \<notin> insert that X \<and> bag_home S x b" if "0 < ext x" for x
    using sp_tidyD(5) [OF t that] nh by (metis insertE)
  then show "sp_tidy S ext (insert that X) (Suc k)"
    using t C(1) rank by (simp add: sp_tidy_def domI)
  have "bag_mem S ext that = {}" using bag_home_empty [OF C] by (simp add: bag_mem_def)
  then show "moves_all this that X ext S S"
    unfolding moves_all_def using B by (intro conjI exI [of _ B] exI [of _ "bag_ds B"]) auto
qed

lemma moves_some:
  assumes t: "sp_tidy S ext X k" and ne: "this \<noteq> that" and X: "this \<notin> X" "that \<notin> X"
    and B: "sp_bags S this = Some B" and C: "sp_bags S that = Some C" "bag_ds C \<noteq> 0"
    and inv': "sp_inv S' ext" and m: "sp_merged this B C S S'" and rank: "ds_within (addrs48 - set (sp_new S)) (Suc k) (sp_ds S')"
  shows "sp_tidy S' ext (insert that X) (Suc k) \<and> moves_all this that X ext S S'"
proof -
  note M = sp_merged_tidy [OF assms]
  obtain r where bags: "sp_bags S' = (sp_bags S)(this \<mapsto> B\<lparr>bag_ds := r\<rparr>)"
    and toR: "\<And>x s. sp_ds S' x \<noteq> None \<Longrightarrow> ds_rep (sp_ds S) x s \<Longrightarrow> s = bag_ds C \<Longrightarrow>
      ds_rep (sp_ds S') x r"
    using m unfolding sp_merged_def by blast
  have "sp_owns S that" using sp_tidyD(4) [OF t C(1) X(2)] .
  then have "ds_rep (sp_ds S) (bag_ds C) (bag_ds C)"
    using C by (auto simp: sp_owns_def intro: ds_rep.root)
  moreover have "sp_ds S' (bag_ds C) \<noteq> None"
    using sp_inv_bag_live(2) [OF inv', of that C] bags C ne by auto
  ultimately have "ds_rep (sp_ds S') (bag_ds C) r" using toR by blast
  then have "r \<noteq> 0" using ds_rep_root ds_inv_node(1) [OF sp_invD(1) [OF inv']] by blast
  moreover have "sp_new S' = sp_new S" using m by (simp add: sp_merged_def)
  ultimately have "moves_all this that X ext S S'"
    unfolding moves_all_def using M(2,3) B bags by blast
  then show ?thesis using M(1) by blast
qed

lemma PBag_combine_tidy:
  assumes t: "sp_tidy S ext X k" and k: "k < 2 ^ 64 - 1" and ne: "this \<noteq> that"
    and X: "this \<notin> X" "that \<notin> X"
    and B: "sp_bags S this = Some B" "is_PBag B" and C: "sp_bags S that = Some C"
  shows "\<exists>S'. PBag_combine this that S = Some S' \<and> sp_tidy S' ext (insert that X) (Suc k) \<and>
    moves_all this that X ext S S'"
proof (cases "bag_ds C = 0")
  case True
  then have "PBag_combine this that S = Some S" using B C by (simp add: PBag_combine_def spbag_combine_def)
  then show ?thesis using moves_none [OF t B(1) C True] by blast
next
  case False
  note T = sp_tidyD [OF t]
  have o: "sp_owns S this" "sp_owns S that" using T(4) B(1) C X by blast+
  obtain S' where S': "PBag_combine this that S = Some S'" "sp_inv S' ext" "sp_merged this B C S S'"
    using PBag_combine_ok [OF T(1) ne B(1) o(1) B(2) C o(2) False ds_within_ranks [OF T(2) k]] by blast
  obtain S1 where S1: "spbag_combine this that S = Some S1"
    "sp_ds S' = sp_ds S1 \<or> (\<exists>a p. ds_set_pob a p (sp_ds S1) = Some (sp_ds S'))"
    using S'(1) unfolding PBag_combine_def ds_set_pbag_def
    by (fastforce simp: bind_eq_Some_conv map_option_case split: if_splits option.splits)
  have "ds_within (addrs48 - set (sp_new S)) (Suc k) (sp_ds S1)"
    using spbag_combine_rank [OF T(1) ne B(1) o(1) C o(2) False S1(1) T(2) k] .
  then have "ds_within (addrs48 - set (sp_new S)) (Suc k) (sp_ds S')" using S1(2) ds_set_pob_rank by metis
  then show ?thesis using moves_some [OF t ne X B(1) C False S'(2,3)] S'(1) by blast
qed

lemma SBag_combine_tidy:
  assumes t: "sp_tidy S ext X k" and k: "k < 2 ^ 64 - 1" and ne: "this \<noteq> that"
    and X: "this \<notin> X" "that \<notin> X"
    and B: "sp_bags S this = Some B" "is_SBag B" and C: "sp_bags S that = Some C"
  shows "\<exists>S'. SBag_combine this that S = Some S' \<and> sp_tidy S' ext (insert that X) (Suc k) \<and>
    moves_all this that X ext S S'"
proof (cases "bag_ds C = 0")
  case True
  then have "SBag_combine this that S = Some S" using B C by (simp add: SBag_combine_def spbag_combine_def)
  then show ?thesis using moves_none [OF t B(1) C True] by blast
next
  case False
  note T = sp_tidyD [OF t]
  have o: "sp_owns S this" "sp_owns S that" using T(4) B(1) C X by blast+
  obtain S' where S': "SBag_combine this that S = Some S'" "sp_inv S' ext" "sp_merged this B C S S'"
    using SBag_combine_ok [OF T(1) ne B(1) o(1) B(2) C o(2) False ds_within_ranks [OF T(2) k]] by blast
  obtain S1 where S1: "spbag_combine this that S = Some S1"
    "sp_ds S' = sp_ds S1 \<or> (\<exists>a p. ds_set_pob a p (sp_ds S1) = Some (sp_ds S'))"
    using S'(1) unfolding SBag_combine_def ds_set_sbag_def
    by (fastforce simp: bind_eq_Some_conv map_option_case split: if_splits option.splits)
  have "ds_within (addrs48 - set (sp_new S)) (Suc k) (sp_ds S1)"
    using spbag_combine_rank [OF T(1) ne B(1) o(1) C o(2) False S1(1) T(2) k] .
  then have "ds_within (addrs48 - set (sp_new S)) (Suc k) (sp_ds S')" using S1(2) ds_set_pob_rank by metis
  then show ?thesis using moves_some [OF t ne X B(1) C False S'(2,3)] S'(1) by blast
qed

text \<open>New bags are empty.\<close>

lemma createNewPBag_tidy:
  assumes t: "sp_tidy S ext X k" and ne: "sp_new S \<noteq> []"
  shows "\<exists>b S'. createNewPBag S = Some (b, S') \<and> sp_tidy S' ext X k \<and> sp_bags S b = None \<and> b \<noteq> 0 \<and>
    sp_bags S' = (sp_bags S)(b \<mapsto> SPBag_init PBag) \<and> sp_new S' = tl (sp_new S) \<and>
    (\<forall>c. bag_mem S' ext c = bag_mem S ext c)"
proof -
  note T = sp_tidyD [OF t]
  obtain b L where L: "sp_new S = b # L" using ne by (cases "sp_new S") auto
  have fresh: "b \<noteq> 0" "aligned4 b" "sp_bags S b = None" "sp_ds S b = None"
    using sp_tidy_fresh [OF t, of b] L by simp_all
  let ?S = "sp_put_bag b (SPBag_init PBag) (S\<lparr>sp_new := L\<rparr>)"
  have c: "createNewPBag S = Some (b, ?S)"
    using fresh L by (simp add: createNewPBag_def sp_alloc_def)
  note N = createNewPBag_ok [OF T(1) c]
  have home: "bag_home ?S x d \<longleftrightarrow> bag_home S x d" for x d
    using N(2,3,4) by (auto simp: bag_home_def SPBag_init_def)
  have bX: "b \<notin> X" using T(3) N(2) by auto
  have new: "sp_new ?S = L" by (simp add: sp_put_bag_def)
  have owns: "sp_owns ?S d" if "sp_bags ?S d \<noteq> None" "d \<notin> X" for d
    using that N(3-5) T(4) [of d] by (cases "d = b") (auto simp: sp_owns_def)
  have "ds_within (addrs48 - set L) k (sp_ds ?S)" using T(2) L N(4) by (auto simp: ds_within_def)
  moreover have "sp_supply ?S" using T(6) L N(3) new by (auto simp: sp_supply_def)
  moreover have "X \<subseteq> dom (sp_bags ?S)" using T(3) N(3) by auto
  moreover have "\<exists>d. d \<notin> X \<and> bag_home ?S x d" if "0 < ext x" for x using T(5) [OF that] home by blast
  ultimately have "sp_tidy ?S ext X k" using N(1) owns new unfolding sp_tidy_def by simp
  moreover have "bag_mem ?S ext e = bag_mem S ext e" for e using home by (simp add: bag_mem_def)
  ultimately show ?thesis using c N(2,3) fresh new L by auto
qed

lemma createNewSBag_ok:
  assumes inv: "sp_inv S ext" and c: "createNewSBag d S = Some (b, S')"
  shows "\<exists>a n. sp_inv S' ext \<and> sp_bags S b = None \<and> b \<noteq> 0 \<and> sp_ds S a = None \<and> a \<noteq> 0 \<and>
    sp_bags S' = (sp_bags S)(b \<mapsto> (SPBag_init SBag)\<lparr>bag_ds := a\<rparr>) \<and> sp_ds S' = (sp_ds S)(a \<mapsto> n) \<and>
    ds_rank n = 0 \<and> ds_par n = None \<and> ds_parent_or_bag n = pob_setSBag b \<and> ds_data n = d \<and>
    sp_new S = b # a # sp_new S'"
proof -
  note I = sp_invD [OF inv]
  obtain S1 a S2 h where S1: "sp_alloc S = Some (b, S1)"
    and S2: "sp_alloc (sp_put_bag b (SPBag_init SBag) S1) = Some (a, S2)"
    and h: "ds_new a (pob_setSBag b) d (sp_ds S2) = Some h"
    and S': "spbag_set_ds b a (S2\<lparr>sp_ds := h\<rparr>) = Some S'"
    using c by (auto simp: createNewSBag_def bind_eq_Some_conv)
  note A = sp_alloc_ok [OF S1] and A2 = sp_alloc_ok [OF S2]
  let ?n = "\<lparr>ds_parent_or_bag = pob_setSBag b, ds_data = d, ds_rank = 0, ds_ref_count = 0\<rparr>"
  let ?n1 = "?n\<lparr>ds_ref_count := 1\<rparr>"
  let ?B = "(SPBag_init SBag)\<lparr>bag_ds := a\<rparr>"
  have ds2: "sp_ds S2 = sp_ds S" and bags2: "sp_bags S2 = (sp_bags S)(b \<mapsto> SPBag_init SBag)"
    and l2: "sp_list S2 = sp_list S"
    using A A2 by (simp_all add: sp_put_bag_def)
  have aN: "sp_ds S a = None" "a \<noteq> 0" "aligned4 a" using A2 A by (simp_all add: sp_put_bag_def)
  have hd: "h = (sp_ds S)(a \<mapsto> ?n)" using h ds2 by (auto simp: ds_new_def split: if_splits)
  have ds': "sp_ds S' = (sp_ds S)(a \<mapsto> ?n1)" and bags': "sp_bags S' = (sp_bags S)(b \<mapsto> ?B)"
    and l': "sp_list S' = sp_list S" and new': "sp_new S = b # a # sp_new S'"
    using A(8) A2(8) S' bags2 l2 aN(2) hd
    by (auto simp: spbag_set_ds_def SPBag_init_def sp_inc_ref_def ds_inc_ref_count_def sp_put_bag_def)
  have par: "ds_par ?n = None" "ds_par ?n1 = None" "ds_parent_or_bag ?n1 = pob_setSBag b"
    using pob_setSBag_roundtrip(1) [OF A(2)] by (simp_all add: ds_par_def ds_isRoot_def)
  have "rc_inv ds_par ds_ref_count ((sp_ds S)(a \<mapsto> ?n)) (bag_ext ext (sp_bags S))"
    by (rule djs.inv_new [OF ds_invD [OF I(1)] aN(1)]) (simp_all add: par)
  from djs.inv_inc [OF this, of a ?n]
  have rc: "rc_inv ds_par ds_ref_count (sp_ds S') (ext_inc (Some a) (bag_ext ext (sp_bags S)))"
    by (simp add: ds' ds_set_rc_def)
  have ext: "bag_ext ext (sp_bags S') = ext_inc (Some a) (bag_ext ext (sp_bags S))"
    using bag_ext_put_None [of "sp_bags S" b ext ?B] A(4) aN(2) bags' by (simp add: opt_ptr_def)
  have "ds_inv (sp_ds S') (bag_ext ext (sp_bags S'))"
    unfolding ds_inv_def ext
  proof (intro conjI allI impI)
    fix x m assume x: "sp_ds S' x = Some m"
    then have old: "x \<noteq> a \<Longrightarrow> sp_ds S x = Some m" by (simp add: ds')
    have new: "m = ?n1" if "x = a" using x that by (simp add: ds')
    show "x \<noteq> 0" "aligned4 x" "0 < ds_ref_count m"
      using ds_inv_node [OF I(1) old] new aN by (cases "x = a"; auto)+
    fix q i assume q: "ds_par m = Some q" "sp_ds S' q = Some i"
    have xa: "x \<noteq> a" using new par q(1) by auto
    obtain j where j: "sp_ds S q = Some j" using ds_inv_par [OF I(1) old [OF xa] q(1)] by blast
    then have "q \<noteq> a" using aN(1) by auto
    then show "ds_rank m < ds_rank i" using ds_inv_rank [OF I(1) old [OF xa] q(1) j] q(2) j ds' by simp
  qed (rule rc)
  then have "sp_inv S' ext"
    using inv l' A(1,2) bags' by (auto simp: sp_inv_def split: if_splits)
  then show ?thesis using A(1,4) aN ds' bags' par new' by (intro exI [of _ a] exI [of _ ?n1]) simp
qed

lemma createNewSBag_tidy:
  assumes t: "sp_tidy S ext X k" and ne: "2 \<le> length (sp_new S)"
  shows "\<exists>b S' B. createNewSBag d S = Some (b, S') \<and> sp_tidy S' ext X k \<and> sp_bags S b = None \<and> b \<noteq> 0 \<and>
    sp_bags S' = (sp_bags S)(b \<mapsto> B) \<and> is_SBag B \<and> bag_ds B \<noteq> 0 \<and> SBag_get_version B = 0 \<and>
    sp_ds S (bag_ds B) = None \<and> sp_new S' = drop 2 (sp_new S) \<and> bag_mem S' ext b = {} \<and>
    (\<forall>c. bag_mem S' ext c = bag_mem S ext c)"
proof -
  note T = sp_tidyD [OF t]
  obtain b0 a0 L where L: "sp_new S = b0 # a0 # L"
    using ne by (metis One_nat_def Suc_1 Suc_le_length_iff)
  have fresh: "b0 \<noteq> 0" "aligned4 b0" "sp_bags S b0 = None" "sp_ds S b0 = None"
    "a0 \<noteq> 0" "aligned4 a0" "sp_bags S a0 = None" "sp_ds S a0 = None" "a0 \<noteq> b0"
    using sp_tidy_fresh [OF t, of b0] sp_tidy_fresh [OF t, of a0] T(6) L by (auto simp: sp_supply_def)
  have "createNewSBag d S \<noteq> None"
    using fresh L by (simp add: createNewSBag_def sp_alloc_def sp_put_bag_def ds_new_def spbag_set_ds_def
        SPBag_init_def sp_inc_ref_def ds_inc_ref_count_def)
  then obtain b S' where c: "createNewSBag d S = Some (b, S')" by auto
  obtain a n where N: "sp_inv S' ext" "sp_bags S b = None" "b \<noteq> 0" "sp_ds S a = None" "a \<noteq> 0"
    "sp_bags S' = (sp_bags S)(b \<mapsto> (SPBag_init SBag)\<lparr>bag_ds := a\<rparr>)" "sp_ds S' = (sp_ds S)(a \<mapsto> n)"
    "ds_rank n = 0" "ds_par n = None" "ds_parent_or_bag n = pob_setSBag b" and new: "sp_new S = b # a # sp_new S'"
    using createNewSBag_ok [OF T(1) c] by blast
  let ?B = "(SPBag_init SBag)\<lparr>bag_ds := a\<rparr>"
  have SB: "is_SBag ?B" by (simp add: is_SBag_bit SPBag_init_def)
  have up: "ds_rep (sp_ds S') x r" if "ds_rep (sp_ds S) x r" for x r
    using that
  proof (induction rule: ds_rep.induct)
    case (root y m)
    then have "y \<noteq> a" using N(4) by auto
    then show ?case using root N(7) by (intro ds_rep.root [of _ _ m]) auto
  next
    case (step y m q r)
    then have "y \<noteq> a" using N(4) by auto
    then show ?case using step N(7) by (intro ds_rep.step [of _ y m q r]) auto
  qed
  have rep_a: "ds_rep (sp_ds S') a a" using N(7,9) by (auto intro: ds_rep.root)
  have rep_iff: "ds_rep (sp_ds S') x r \<longleftrightarrow> ds_rep (sp_ds S) x r" if x: "sp_ds S x \<noteq> None" for x r
  proof -
    obtain t where "ds_rep (sp_ds S) x t" using ds_rep_ex [OF sp_invD(1) [OF T(1)]] x by blast
    then show ?thesis using up ds_rep_fun by blast
  qed
  have not_a: "\<not> ds_rep (sp_ds S) x a" for x using ds_rep_root N(4) by fastforce
  have bagsa: "bag_ds D \<noteq> a" if "sp_bags S e = Some D" for e D
    using sp_inv_bag_live(2) [OF T(1) that] N(4,5) by fastforce
  have home: "bag_home S' x e \<longleftrightarrow> bag_home S x e" if x: "0 < ext x" for x e
  proof -
    note lx = ext_live [OF T(1) x]
    show ?thesis using N(2,6) rep_iff [OF lx] not_a by (auto simp: bag_home_def)
  qed
  have "b \<notin> X" using T(3) N(2) by auto
  have owns: "sp_owns S' e" if e: "sp_bags S' e \<noteq> None" "e \<notin> X" for e
  proof (cases "e = b")
    case True
    then show ?thesis using N SB by (simp add: sp_owns_def bag_tag_def)
  next
    case False
    then obtain D where D: "sp_bags S e = Some D" using e(1) N(6) by auto
    then show ?thesis using T(4) [OF D e(2)] N(6,7) False bagsa [OF D] by (auto simp: sp_owns_def)
  qed
  have "ds_within (addrs48 - set (sp_new S')) k (sp_ds S')"
    using T(2,6) N(7,8) new by (auto simp: ds_within_def sp_supply_def)
  moreover have "sp_supply S'" using T(6) N(6) new by (auto simp: sp_supply_def)
  moreover have "X \<subseteq> dom (sp_bags S')" using T(3) N(6) by auto
  moreover have "\<exists>e. e \<notin> X \<and> bag_home S' x e" if "0 < ext x" for x using T(5) [OF that] home [OF that] by blast
  ultimately have "sp_tidy S' ext X k" using N(1) owns unfolding sp_tidy_def by blast
  moreover have mem: "bag_mem S' ext e = bag_mem S ext e" for e using home by (auto simp: bag_mem_def)
  moreover have "bag_mem S' ext b = {}" using mem N(2) by simp
  moreover have "SBag_get_version ?B = 0" by (simp add: SBag_get_version_eq SPBag_init_def)
  moreover have "sp_new S' = drop 2 (sp_new S)" by (simp add: new)
  ultimately show ?thesis using c N SB by (intro exI [of _ b] exI [of _ S'] exI [of _ ?B]) simp
qed

subsection \<open>Versions and references\<close>

text \<open>A new payload of the same kind, as the version of an iteration bag changes.\<close>

lemma put_payload_tidy:
  assumes t: "sp_tidy S ext X k" and B: "sp_bags S b = Some B" and s: "is_SBag (B\<lparr>bag_payload := p\<rparr>) = is_SBag B"
  shows "sp_tidy (sp_put_bag b (B\<lparr>bag_payload := p\<rparr>) S) ext X k"
    "bag_mem (sp_put_bag b (B\<lparr>bag_payload := p\<rparr>) S) ext c = bag_mem S ext c"
proof -
  note T = sp_tidyD [OF t]
  let ?B = "B\<lparr>bag_payload := p\<rparr>"
  let ?S = "sp_put_bag b ?B S"
  have home: "bag_home ?S x d \<longleftrightarrow> bag_home S x d" for x d
    using B by (auto simp: bag_home_def sp_put_bag_def)
  have tag: "bag_tag b ?B = bag_tag b B" using s by (simp add: bag_tag_def)
  have owns: "sp_owns ?S d \<longleftrightarrow> sp_owns S d" for d
    using B tag by (auto simp: sp_owns_def sp_put_bag_def)
  have "bag_refs (sp_bags ?S) a = bag_refs (sp_bags S) a" for a
  proof -
    have "{c. \<exists>C. sp_bags ?S c = Some C \<and> bag_ds C = a} = {c. \<exists>C. sp_bags S c = Some C \<and> bag_ds C = a}"
      using B by (auto simp: sp_put_bag_def split: if_splits)
    then show ?thesis unfolding bag_refs_def by (simp only:)
  qed
  then have "bag_ext ext (sp_bags ?S) = bag_ext ext (sp_bags S)" by (simp add: bag_ext_def fun_eq_iff)
  then have "sp_inv ?S ext" using T(1) B by (auto simp: sp_inv_def sp_put_bag_def)
  moreover have "sp_ds ?S = sp_ds S" "sp_new ?S = sp_new S" "dom (sp_bags ?S) = dom (sp_bags S)"
    using B by (auto simp: sp_put_bag_def)
  moreover from this have "sp_supply ?S" using T(6) unfolding sp_supply_def by (metis domIff)
  moreover have "sp_bags ?S d \<noteq> None \<longleftrightarrow> sp_bags S d \<noteq> None" for d using B by (simp add: sp_put_bag_def)
  ultimately show "sp_tidy ?S ext X k"
    using t unfolding sp_tidy_def owns home by simp
  show "bag_mem ?S ext c = bag_mem S ext c" using home by (simp add: bag_mem_def)
qed

text \<open>Recording an access takes a reference to the node of a bag; forgetting one releases it.\<close>

lemma sp_inc_ref_tidy:
  assumes t: "sp_tidy S ext X k" and B: "sp_bags S b = Some B" "bag_ds B \<noteq> 0" "b \<notin> X"
  shows "\<exists>S'. sp_inc_ref (bag_ds B) S = Some S' \<and> sp_tidy S' (ext_inc (Some (bag_ds B)) ext) X k \<and>
    sp_bags S' = sp_bags S \<and> sp_new S' = sp_new S \<and>
    (\<forall>c. c \<notin> X \<longrightarrow> bag_mem S' (ext_inc (Some (bag_ds B)) ext) c =
       (if c = b then insert (bag_ds B) (bag_mem S ext b) else bag_mem S ext c))"
proof -
  note T = sp_tidyD [OF t]
  let ?e = "ext_inc (Some (bag_ds B)) ext"
  obtain n where n: "sp_ds S (bag_ds B) = Some n" using sp_inv_bag_live(2) [OF T(1) B(1,2)] by blast
  obtain h where h: "ds_inc_ref_count (bag_ds B) 1 (sp_ds S) = Some h"
    "ds_inv h (ext_inc (Some (bag_ds B)) (bag_ext ext (sp_bags S)))" "ds_sub (sp_ds S) h"
    using ds_inc_ref_count_ok [OF sp_invD(1) [OF T(1)] n] by blast
  let ?S = "S\<lparr>sp_ds := h\<rparr>"
  have "bag_ext ?e (sp_bags S) = ext_inc (Some (bag_ds B)) (bag_ext ext (sp_bags S))"
    by (rule bag_ext_inc)
  then have inv: "sp_inv ?S ?e"
    using T(1) h(2) unfolding sp_inv_def by (simp del: ext_inc_simps)
  have home_b: "bag_home S (bag_ds B) b"
  proof -
    have "ds_par n = None" using T(4) [OF B(1,3)] B n by (auto simp: sp_owns_def)
    then show ?thesis using B n by (auto simp: bag_home_def intro: ds_rep.root)
  qed
  have pos: "0 < ?e x \<longleftrightarrow> 0 < ext x \<or> x = bag_ds B" for x by (simp add: ext_inc_apply)
  have home: "\<exists>c. c \<notin> X \<and> sp_bags ?S c \<noteq> None \<and> bag_home S x c" if "0 < ?e x" for x
    using that pos T(5) [of x] home_b B by (auto simp: bag_home_def)
  have sub: "ds_refines (sp_ds S) (sp_ds ?S)" using ds_sub_refines [OF h(3)] by simp
  have "sp_tidy ?S ?e X k" by (rule sp_tidy_refines(1) [OF t inv sub]) (use home T(3) in \<open>simp_all add: Int_absorb2\<close>)
  moreover have "bag_mem ?S ?e c = (if c = b then insert (bag_ds B) (bag_mem S ext b) else bag_mem S ext c)"
    if c: "c \<notin> X" for c
  proof (cases "sp_bags S c")
    case None
    then have "c \<noteq> b" using B by auto
    then show ?thesis using None by simp
  next
    case (Some C)
    have "bag_mem ?S ?e c = {x. (0 < ext x \<or> x = bag_ds B) \<and> bag_home S x c}"
      unfolding pos [symmetric]
      by (rule sp_tidy_refines(2) [OF t inv sub, where X' = X]) (use home Some T(3) in \<open>simp_all add: Int_absorb2\<close>)
    moreover have "bag_home S (bag_ds B) c \<longleftrightarrow> c = b"
      using bag_home_unique [OF T(1) _ home_b T(4) [OF Some c]] T(4) [OF B(1,3)] home_b by blast
    ultimately show ?thesis by (auto simp: bag_mem_def)
  qed
  ultimately show ?thesis using h(1) by (simp add: sp_inc_ref_def)
qed

lemma sp_dec_ref_tidy:
  assumes t: "sp_tidy S ext X k" and a: "0 < ext a"
  shows "\<exists>S'. sp_dec_ref a S = Some S' \<and> sp_tidy S' (ext_dec (Some a) ext) X k \<and>
    sp_bags S' = sp_bags S \<and> sp_new S' = sp_new S \<and>
    (\<forall>c. bag_mem S' (ext_dec (Some a) ext) c = bag_mem S ext c - (if ext a = 1 then {a} else {}))"
proof -
  note T = sp_tidyD [OF t]
  let ?e = "ext_dec (Some a) ext"
  have a': "0 < bag_ext ext (sp_bags S) a" using a by (simp add: bag_ext_def)
  obtain h where h: "ds_dec_ref_count a 1 (sp_ds S) = Some h"
    "ds_inv h (ext_dec (Some a) (bag_ext ext (sp_bags S)))" "ds_sub (sp_ds S) h"
    using ds_dec_ref_count_ok [OF refl sp_invD(1) [OF T(1)] a'] by blast
  let ?S = "S\<lparr>sp_ds := h\<rparr>"
  have "bag_ext ?e (sp_bags S) = ext_dec (Some a) (bag_ext ext (sp_bags S))"
    by (rule bag_ext_dec) (rule a)
  then have inv: "sp_inv ?S ?e"
    using T(1) h(2) unfolding sp_inv_def by (simp del: ext_dec_simps)
  have pos: "0 < ?e x \<longleftrightarrow> 0 < ext x \<and> \<not> (x = a \<and> ext a = 1)" for x using a by auto
  have home: "\<exists>c. c \<notin> X \<and> sp_bags ?S c \<noteq> None \<and> bag_home S x c" if "0 < ?e x" for x
    using that pos T(5) [of x] by (auto simp: bag_home_def)
  have sub: "ds_refines (sp_ds S) (sp_ds ?S)" using ds_sub_refines [OF h(3)] by simp
  have "sp_tidy ?S ?e X k" by (rule sp_tidy_refines(1) [OF t inv sub]) (use home T(3) in \<open>simp_all add: Int_absorb2\<close>)
  moreover have "bag_mem ?S ?e c = bag_mem S ext c - (if ext a = 1 then {a} else {})" for c
  proof (cases "sp_bags S c")
    case (Some C)
    have "bag_mem ?S ?e c = {x. (0 < ext x \<and> \<not> (x = a \<and> ext a = 1)) \<and> bag_home S x c}"
      unfolding pos [symmetric]
      by (rule sp_tidy_refines(2) [OF t inv sub, where X' = X]) (use home Some T(3) in \<open>simp_all add: Int_absorb2\<close>)
    then show ?thesis by (auto simp: bag_mem_def)
  qed simp
  ultimately show ?thesis using h(1) by (simp add: sp_dec_ref_def)
qed

end
