(* ===== verification/ControlState.thy ===== *)
theory ControlState
  imports Cilksan BagSets "HOL-Library.Multiset"
begin

text \<open>
  The invariant of the control flow of the tool.  \<open>stack_rel\<close> relates the stack of frames to the list of
  its entries, the head first.  \<open>ctl\<close> says that the frames of the list own exactly the bags that exist,
  each at one place, an S-bag where the frame has an S-bag and a P-bag where it has a P-bag.  The lemmas
  of this theory state the operations on bags and frames that the handlers are made of as changes of the
  sets \<open>cmem\<close> of referenced nodes in each bag.
\<close>

subsection \<open>The stack of frames\<close>

text \<open>\<open>stack_rel P stk xs\<close>: the stack holds \<open>xs\<close>, the head first, and \<open>P\<close> holds of every cell above the
  head, which the next push uncovers.\<close>

definition stack_rel :: "('a \<Rightarrow> bool) \<Rightarrow> 'a Stack_t \<Rightarrow> 'a list \<Rightarrow> bool" where
  "stack_rel P stk xs \<longleftrightarrow>
     Stack_wf stk \<and> rev (Stack_contents stk) = xs \<and>
     (\<forall>j. unat (stk_head stk) < j \<longrightarrow> j < length (stk_stack stk) \<longrightarrow> P (stk_stack stk ! j))"

lemma stack_rel_length: "stack_rel P stk xs \<Longrightarrow> length xs = Suc (unat (stk_head stk))"
  using length_Stack_contents by (auto simp: stack_rel_def)

lemma stack_rel_ancestor:
  assumes r: "stack_rel P stk xs" and i: "unat i < length xs"
  shows "Stack_ancestor i stk = Some (xs ! unat i)"
  using Stack_ancestor_nth [of stk i] assms stack_rel_length [OF r] by (auto simp: stack_rel_def)

lemma stack_rel_put:
  assumes r: "stack_rel P stk xs" and i: "unat i < length xs"
  shows "stack_rel P (stk\<lparr>stk_stack := (stk_stack stk)[unat (stk_head stk - i) := x]\<rparr>) (xs[unat i := x])"
proof -
  let ?h = "unat (stk_head stk)"
  have len: "length xs = Suc ?h" using stack_rel_length [OF r] .
  have wf: "Stack_wf stk" and xs: "xs = rev (Stack_contents stk)" using r by (auto simp: stack_rel_def)
  have h: "?h < length (stk_stack stk)" using wf by (auto simp: Stack_wf_def)
  have le: "i \<le> stk_head stk" using i len by (simp add: word_le_nat_alt)
  have sub: "unat (stk_head stk - i) = ?h - unat i" using le by (rule unat_sub)
  have "Stack_wf (stk\<lparr>stk_stack := (stk_stack stk)[unat (stk_head stk - i) := x]\<rparr>)"
    using wf by (simp add: Stack_wf_def)
  moreover have "Stack_contents (stk\<lparr>stk_stack := (stk_stack stk)[?h - unat i := x]\<rparr>) =
      (Stack_contents stk)[?h - unat i := x]"
    by (simp add: Stack_contents_def take_update_swap)
  moreover have "rev ((Stack_contents stk)[?h - unat i := x]) = xs[unat i := x]"
    using len i xs h by (simp add: Stack_contents_def rev_update)
  ultimately show ?thesis using r sub by (auto simp: stack_rel_def nth_list_update)
qed

lemma stack_rel_push:
  assumes r: "stack_rel P stk xs" and room: "Stack_room stk" and d: "P d"
  shows "\<exists>c. P c \<and> stack_rel P (Stack_push d stk) (c # xs)"
proof -
  let ?s = "Stack_push d stk"
  have wf: "Stack_wf stk" and xs: "xs = rev (Stack_contents stk)" using r by (auto simp: stack_rel_def)
  note p = Stack_push_contents [OF wf room, of d]
  let ?h = "unat (stk_head ?s)"
  have h: "?h < length (stk_stack ?s)" using p(1) by (auto simp: Stack_wf_def)
  have c: "Stack_contents ?s = Stack_contents stk @ [stk_stack ?s ! ?h]"
    using h p(3) by (simp add: Stack_contents_def take_Suc_conv_app_nth)
  have above: "P (stk_stack ?s ! j)" if j: "unat (stk_head stk) < j" "j < length (stk_stack ?s)" for j
  proof -
    have "stk_stack ?s ! j = d \<or> (stk_stack ?s ! j = stk_stack stk ! j \<and> j < length (stk_stack stk))"
      using j wf by (auto simp: Stack_defs Stack_wf_def nth_append split: if_splits)
    then show ?thesis using d j r by (auto simp: stack_rel_def)
  qed
  have "stack_rel P ?s (stk_stack ?s ! ?h # xs)"
    using p(1,2) c xs above by (auto simp: stack_rel_def)
  moreover have "P (stk_stack ?s ! ?h)" using above [of ?h] p(2) h by simp
  ultimately show ?thesis by blast
qed

lemma stack_rel_pop:
  assumes r: "stack_rel P stk (c # xs)" and ne: "xs \<noteq> []" and c: "P c" and d: "P d"
  shows "stack_rel P (Stack_pop d stk) xs"
proof -
  let ?h = "unat (stk_head stk)" and ?s = "Stack_pop d stk"
  have wf: "Stack_wf stk" and xs: "c # xs = rev (Stack_contents stk)" using r by (auto simp: stack_rel_def)
  have len: "length xs = ?h" using stack_rel_length [OF r] by simp
  then have pos: "0 < ?h" using ne by (cases ?h) auto
  note p = Stack_pop_wf_contents [OF wf pos, of d]
  have cont: "Stack_contents stk = rev xs @ [c]" using xs by (metis rev.simps(2) rev_rev_ident)
  then have xs': "rev (Stack_contents ?s) = xs" using p(2) by simp
  have h': "unat (stk_head ?s) = ?h - 1"
    using length_Stack_contents [OF p(1)] xs' len by (metis diff_Suc_1 length_rev)
  have hc: "stk_stack stk ! ?h = c"
  proof -
    have "?h < length (stk_stack stk)" using wf by (auto simp: Stack_wf_def)
    then have "Stack_contents stk ! ?h = stk_stack stk ! ?h" by (simp add: Stack_contents_def)
    then show ?thesis using cont len by (simp add: nth_append)
  qed
  have above: "P (stk_stack ?s ! j)" if j: "?h - 1 < j" "j < length (stk_stack ?s)" for j
  proof -
    have "stk_stack ?s ! j = d \<or> (stk_stack ?s ! j = stk_stack stk ! j \<and> j < length (stk_stack stk))"
      using j wf pos
      by (auto simp: Stack_defs Stack_wf_def nth_append word_less_nat_alt unat_div split: if_splits)
    moreover have "P (stk_stack stk ! j)" if "j < length (stk_stack stk)"
      using hc c j r that by (cases "j = ?h") (auto simp: stack_rel_def)
    ultimately show ?thesis using d by auto
  qed
  then show ?thesis using p(1) xs' h' by (auto simp: stack_rel_def)
qed

subsection \<open>Bags and the frames that own them\<close>

definition pbags_of :: "FrameData_t \<Rightarrow> u64 list" where
  "pbags_of f = (case Pbags f of None \<Rightarrow> [] | Some ps \<Rightarrow> ps)"

definition frame_ptrs :: "FrameData_t \<Rightarrow> u64 multiset" where
  "frame_ptrs f = filter_mset (\<lambda>p. p \<noteq> 0) (mset (Sbag f # Iterbag f # pbags_of f))"

definition owned :: "FrameData_t list \<Rightarrow> u64 multiset" where
  "owned fs = (\<Sum>f\<leftarrow>fs. frame_ptrs f)"

lemma owned_simps [simp]: "owned [] = {#}" "owned (f # fs) = frame_ptrs f + owned fs"
  by (simp_all add: owned_def)

definition s_kind :: "'d sp_state \<Rightarrow> u64 \<Rightarrow> bool" where
  "s_kind B b \<longleftrightarrow> (\<forall>C. sp_bags B b = Some C \<longrightarrow> is_SBag C \<and> bag_ds C \<noteq> 0)"

definition p_kind :: "'d sp_state \<Rightarrow> u64 \<Rightarrow> bool" where
  "p_kind B b \<longleftrightarrow> (\<forall>C. sp_bags B b = Some C \<longrightarrow> is_PBag C)"

definition kinds_ok :: "'d sp_state \<Rightarrow> FrameData_t \<Rightarrow> bool" where
  "kinds_ok B f \<longleftrightarrow> s_kind B (Sbag f) \<and> s_kind B (Iterbag f) \<and> (\<forall>p \<in> set (pbags_of f). p_kind B p)"

definition ctl :: "'d sp_state \<Rightarrow> (u64 \<Rightarrow> nat) \<Rightarrow> nat \<Rightarrow> u64 set \<Rightarrow> FrameData_t list \<Rightarrow> bool" where
  "ctl B ext k X fs \<longleftrightarrow>
     sp_tidy B ext X k \<and> finite (dom (sp_bags B)) \<and> owned fs = mset_set (dom (sp_bags B)) \<and>
     (\<forall>f \<in> set fs. kinds_ok B f)"

text \<open>The referenced nodes of a bag; none when the bag was emptied into another.\<close>

definition cmem :: "'d sp_state \<Rightarrow> (u64 \<Rightarrow> nat) \<Rightarrow> u64 set \<Rightarrow> u64 \<Rightarrow> u64 set" where
  "cmem B ext X b = (if b \<in> X then {} else bag_mem B ext b)"

lemma ctlD:
  assumes "ctl B ext k X fs"
  shows "sp_tidy B ext X k" "finite (dom (sp_bags B))" "owned fs = mset_set (dom (sp_bags B))"
    "f \<in> set fs \<Longrightarrow> kinds_ok B f"
  using assms by (auto simp: ctl_def)

lemma ctl_bag_nonzero: "ctl B ext k X fs \<Longrightarrow> sp_bags B b \<noteq> None \<Longrightarrow> b \<noteq> 0"
  using sp_invD(4) [OF sp_tidyD(1) [OF ctlD(1)]] by blast

lemma cmem_0 [simp]: "ctl B ext k X fs \<Longrightarrow> cmem B ext X 0 = {}"
  using ctl_bag_nonzero [of B ext k X fs 0] by (cases "sp_bags B 0") (simp_all add: cmem_def)

lemma frame_ptrs_mem:
  "b \<in># frame_ptrs f \<longleftrightarrow> b \<noteq> 0 \<and> (b = Sbag f \<or> b = Iterbag f \<or> b \<in> set (pbags_of f))"
  by (auto simp: frame_ptrs_def)

lemma owned_mem: "b \<in># owned fs \<longleftrightarrow> (\<exists>f \<in> set fs. b \<in># frame_ptrs f)"
  by (induction fs) auto

lemma ctl_owned: "ctl B ext k X fs \<Longrightarrow> b \<in># owned fs \<longleftrightarrow> sp_bags B b \<noteq> None"
  by (auto simp: ctl_def)

lemma ctl_owned_count: "ctl B ext k X fs \<Longrightarrow> count (owned fs) b \<le> 1"
  by (cases "b \<in> dom (sp_bags B)") (auto simp: ctl_def count_mset_set)

text \<open>Union of two bags.\<close>

lemma moves_all_kinds:
  assumes "sp_bags B this = Some D" "sp_bags B' = (sp_bags B)(this \<mapsto> D\<lparr>bag_ds := r\<rparr>)"
    "bag_ds D \<noteq> 0 \<longrightarrow> r \<noteq> 0"
  shows "kinds_ok B f \<Longrightarrow> kinds_ok B' f"
proof -
  have s: "is_SBag (D\<lparr>bag_ds := r\<rparr>) = is_SBag D" "is_PBag (D\<lparr>bag_ds := r\<rparr>) = is_PBag D"
    by (simp_all add: is_SBag_def is_PBag_def)
  have "s_kind B b \<Longrightarrow> s_kind B' b" "p_kind B b \<Longrightarrow> p_kind B' b" for b
    using assms s by (auto simp: s_kind_def p_kind_def)
  then show "kinds_ok B f \<Longrightarrow> kinds_ok B' f" by (auto simp: kinds_ok_def)
qed

definition payloads :: "'d sp_state \<Rightarrow> u64 \<Rightarrow> u64 option" where
  "payloads B b = map_option bag_payload (sp_bags B b)"

text \<open>\<open>cjoin p q\<close>: the bags after all of \<open>q\<close> moved into \<open>p\<close>.\<close>

definition cjoin :: "u64 \<Rightarrow> u64 \<Rightarrow> (u64 \<Rightarrow> u64 set) \<Rightarrow> u64 \<Rightarrow> u64 set" where
  "cjoin p q m b = (if b = p then m p \<union> m q else if b = q then {} else m b)"

lemma ctl_moves:
  assumes c: "ctl B ext k X fs" and t: "sp_tidy B' ext (insert q X) (Suc k)" and m: "moves_all p q X ext B B'"
    and ne: "p \<noteq> q" and X: "p \<notin> X" "q \<notin> X"
  shows "ctl B' ext (Suc k) (insert q X) fs" "cmem B' ext (insert q X) = cjoin p q (cmem B ext X)"
    "payloads B' = payloads B" "sp_new B' = sp_new B"
proof -
  note C = ctlD [OF c]
  obtain D r where D: "sp_bags B p = Some D" "bag_ds D \<noteq> 0 \<longrightarrow> r \<noteq> 0"
    "sp_bags B' = (sp_bags B)(p \<mapsto> D\<lparr>bag_ds := r\<rparr>)"
    using m unfolding moves_all_def by blast
  have dom: "dom (sp_bags B') = dom (sp_bags B)" using D by auto
  show "ctl B' ext (Suc k) (insert q X) fs"
    unfolding ctl_def dom using t C moves_all_kinds [OF D(1,3,2)] by blast
  show "payloads B' = payloads B" using D by (auto simp: payloads_def fun_eq_iff)
  show "sp_new B' = sp_new B" using m by (simp add: moves_all_def)
  show "cmem B' ext (insert q X) = cjoin p q (cmem B ext X)"
    using m ne X unfolding moves_all_def by (auto simp: cmem_def cjoin_def fun_eq_iff)
qed

lemma ctl_PBag_combine:
  assumes c: "ctl B ext k X fs" and k: "k < 2 ^ 64 - 1" and ne: "p \<noteq> q" and X: "p \<notin> X" "q \<notin> X"
    and p: "p \<in># owned fs" "p_kind B p" and q: "q \<in># owned fs"
  shows "\<exists>B'. PBag_combine p q B = Some B' \<and> ctl B' ext (Suc k) (insert q X) fs \<and>
    cmem B' ext (insert q X) = cjoin p q (cmem B ext X) \<and> payloads B' = payloads B \<and> sp_new B' = sp_new B"
proof -
  obtain D E where D: "sp_bags B p = Some D" "sp_bags B q = Some E"
    using p(1) q ctl_owned [OF c] by blast
  have "is_PBag D" using p(2) D(1) by (simp add: p_kind_def)
  then obtain B' where "PBag_combine p q B = Some B'" "sp_tidy B' ext (insert q X) (Suc k)"
    "moves_all p q X ext B B'"
    using PBag_combine_tidy [OF ctlD(1) [OF c] k ne X D(1) _ D(2)] by blast
  then show ?thesis using ctl_moves [OF c _ _ ne X] by blast
qed

lemma ctl_SBag_combine:
  assumes c: "ctl B ext k X fs" and k: "k < 2 ^ 64 - 1" and ne: "p \<noteq> q" and X: "p \<notin> X" "q \<notin> X"
    and p: "p \<in># owned fs" "s_kind B p" and q: "q \<in># owned fs"
  shows "\<exists>B'. SBag_combine p q B = Some B' \<and> ctl B' ext (Suc k) (insert q X) fs \<and>
    cmem B' ext (insert q X) = cjoin p q (cmem B ext X) \<and> payloads B' = payloads B \<and> sp_new B' = sp_new B"
proof -
  obtain D E where D: "sp_bags B p = Some D" "sp_bags B q = Some E"
    using p(1) q ctl_owned [OF c] by blast
  have "is_SBag D" using p(2) D(1) by (simp add: s_kind_def)
  then obtain B' where "SBag_combine p q B = Some B'" "sp_tidy B' ext (insert q X) (Suc k)"
    "moves_all p q X ext B B'"
    using SBag_combine_tidy [OF ctlD(1) [OF c] k ne X D(1) _ D(2)] by blast
  then show ?thesis using ctl_moves [OF c _ _ ne X] by blast
qed

text \<open>Deleting an empty bag that a frame gives up.\<close>

definition kept_ptrs :: "FrameData_t list \<Rightarrow> FrameData_t list \<Rightarrow> bool" where
  "kept_ptrs fs fs' \<longleftrightarrow> (\<forall>f' \<in> set fs'. \<exists>f \<in> set fs. Sbag f' \<in> {0, Sbag f} \<and>
     Iterbag f' \<in> {0, Iterbag f} \<and> set (pbags_of f') \<subseteq> insert 0 (set (pbags_of f)))"

lemma kinds_0: "ctl B ext k X fs \<Longrightarrow> s_kind B 0" "ctl B ext k X fs \<Longrightarrow> p_kind B 0"
  using ctl_bag_nonzero [of B ext k X fs 0] by (auto simp: s_kind_def p_kind_def)

lemma ctl_delete:
  assumes c: "ctl B ext k X fs" and b: "b \<in># owned fs" and e: "cmem B ext X b = {}"
    and fs': "owned fs' = owned fs - {#b#}" "kept_ptrs fs fs'"
  shows "\<exists>B'. spbag_delete b B = Some B' \<and> ctl B' ext k (X - {b}) fs' \<and>
    (\<forall>c. cmem B' ext (X - {b}) c = cmem B ext X c) \<and>
    (\<forall>c. c \<noteq> b \<longrightarrow> payloads B' c = payloads B c) \<and> sp_new B' = sp_new B"
proof -
  note C = ctlD [OF c]
  obtain D where D: "sp_bags B b = Some D" using b ctl_owned [OF c] by blast
  have "b \<in> X \<or> bag_mem B ext b = {}" using e by (auto simp: cmem_def split: if_splits)
  then obtain B' where B': "spbag_delete b B = Some B'" "sp_tidy B' ext (X - {b}) k"
    "sp_bags B' = (sp_bags B)(b := None)" "sp_new B' = sp_new B"
    "\<forall>c. c \<noteq> b \<longrightarrow> bag_mem B' ext c = bag_mem B ext c"
    using spbag_delete_tidy [OF C(1) D] by blast
  have dom: "dom (sp_bags B') = dom (sp_bags B) - {b}" using B'(3) by auto
  have kinds: "s_kind B a \<Longrightarrow> s_kind B' a" "p_kind B a \<Longrightarrow> p_kind B' a" for a
    using B'(3) by (auto simp: s_kind_def p_kind_def split: if_splits)
  have "kinds_ok B' f'" if f': "f' \<in> set fs'" for f'
  proof -
    obtain f where f: "f \<in> set fs" "Sbag f' \<in> {0, Sbag f}" "Iterbag f' \<in> {0, Iterbag f}"
      "set (pbags_of f') \<subseteq> insert 0 (set (pbags_of f))"
      using fs'(2) f' unfolding kept_ptrs_def by blast
    have "kinds_ok B f'" using C(4) [OF f(1)] f(2-4) kinds_0 [OF c] by (auto simp: kinds_ok_def)
    then show ?thesis using kinds by (auto simp: kinds_ok_def)
  qed
  moreover have "owned fs' = mset_set (dom (sp_bags B'))"
    using fs'(1) C(2,3) D dom by (simp add: mset_set_Diff domI)
  ultimately have "ctl B' ext k (X - {b}) fs'" using B'(2) C(2) dom by (simp add: ctl_def)
  moreover have "cmem B' ext (X - {b}) a = cmem B ext X a" for a
    using B'(5) e B'(3) by (auto simp: cmem_def split: if_splits)
  moreover have "a \<noteq> b \<longrightarrow> payloads B' a = payloads B a" for a using B'(3) by (simp add: payloads_def)
  ultimately show ?thesis using B'(1,4) by blast
qed

text \<open>New bags, which no frame has yet: the frames \<open>fs'\<close> that also own it satisfy the invariant again.\<close>

definition fresh_bag :: "u64 \<Rightarrow> 'd sp_state \<Rightarrow> 'd sp_state \<Rightarrow> bool" where
  "fresh_bag b B B' \<longleftrightarrow> b \<noteq> 0 \<and> sp_bags B b = None \<and>
     (\<forall>c. c \<noteq> b \<longrightarrow> payloads B' c = payloads B c \<and> s_kind B' c = s_kind B c \<and> p_kind B' c = p_kind B c)"

lemma ctl_createNewPBag:
  assumes c: "ctl B ext k X fs" and ne: "sp_new B \<noteq> []"
  shows "\<exists>b B'. createNewPBag B = Some (b, B') \<and> fresh_bag b B B' \<and> p_kind B' b \<and>
    sp_new B' = tl (sp_new B) \<and> cmem B' ext X = cmem B ext X \<and> cmem B' ext X b = {} \<and>
    (\<forall>fs'. owned fs' = add_mset b (owned fs) \<longrightarrow> (\<forall>f \<in> set fs'. kinds_ok B' f) \<longrightarrow> ctl B' ext k X fs')"
proof -
  note C = ctlD [OF c]
  obtain b B' where B': "createNewPBag B = Some (b, B')" "sp_tidy B' ext X k" "sp_bags B b = None" "b \<noteq> 0"
    "sp_bags B' = (sp_bags B)(b \<mapsto> SPBag_init PBag)" "sp_new B' = tl (sp_new B)"
    "\<forall>c. bag_mem B' ext c = bag_mem B ext c"
    using createNewPBag_tidy [OF C(1) ne] by blast
  have PB: "is_PBag (SPBag_init PBag)"
    by (simp add: is_PBag_def SPBag_init_def BAG_TYPE_MASK_def BAG_TYPE_SHIFT_def push_bit_eq_mult)
  have dom: "dom (sp_bags B') = insert b (dom (sp_bags B))" using B'(5) by auto
  have m: "cmem B' ext X = cmem B ext X" using B'(7) by (simp add: cmem_def fun_eq_iff)
  have "fresh_bag b B B'" using B'(3-5) by (simp add: fresh_bag_def payloads_def s_kind_def p_kind_def)
  moreover have "ctl B' ext k X fs'" if o: "owned fs' = add_mset b (owned fs)" "\<forall>f \<in> set fs'. kinds_ok B' f" for fs'
  proof -
    have "owned fs' = mset_set (dom (sp_bags B'))"
      using o(1) C(2,3) B'(3) dom by (simp add: mset_set.insert domIff)
    then show ?thesis using B'(2) C(2) dom o(2) by (simp add: ctl_def)
  qed
  moreover have "p_kind B' b" using PB B'(5) by (simp add: p_kind_def)
  moreover have "cmem B' ext X b = {}" using m B'(3) by (simp add: cmem_def)
  ultimately show ?thesis using B'(1,6) m by blast
qed

lemma ctl_createNewSBag:
  assumes c: "ctl B ext k X fs" and ne: "2 \<le> length (sp_new B)"
  shows "\<exists>b B'. createNewSBag d B = Some (b, B') \<and> fresh_bag b B B' \<and> s_kind B' b \<and>
    (\<exists>D. sp_bags B' b = Some D \<and> SBag_get_version D = 0) \<and>
    sp_new B' = drop 2 (sp_new B) \<and> cmem B' ext X = cmem B ext X \<and> cmem B' ext X b = {} \<and>
    (\<forall>fs'. owned fs' = add_mset b (owned fs) \<longrightarrow> (\<forall>f \<in> set fs'. kinds_ok B' f) \<longrightarrow> ctl B' ext k X fs')"
proof -
  note C = ctlD [OF c]
  obtain b B' D where B': "createNewSBag d B = Some (b, B')" "sp_tidy B' ext X k" "sp_bags B b = None" "b \<noteq> 0"
    "sp_bags B' = (sp_bags B)(b \<mapsto> D)" "is_SBag D" "bag_ds D \<noteq> 0" "SBag_get_version D = 0"
    "sp_new B' = drop 2 (sp_new B)" "\<forall>c. bag_mem B' ext c = bag_mem B ext c"
    using createNewSBag_tidy [OF C(1) ne, of d] by blast
  have dom: "dom (sp_bags B') = insert b (dom (sp_bags B))" using B'(5) by auto
  have m: "cmem B' ext X = cmem B ext X" using B'(10) by (simp add: cmem_def fun_eq_iff)
  have "fresh_bag b B B'" using B'(3-5) by (simp add: fresh_bag_def payloads_def s_kind_def p_kind_def)
  moreover have "ctl B' ext k X fs'" if o: "owned fs' = add_mset b (owned fs)" "\<forall>f \<in> set fs'. kinds_ok B' f" for fs'
  proof -
    have "owned fs' = mset_set (dom (sp_bags B'))"
      using o(1) C(2,3) B'(3) dom by (simp add: mset_set.insert domIff)
    then show ?thesis using B'(2) C(2) dom o(2) by (simp add: ctl_def)
  qed
  moreover have "s_kind B' b" using B'(5-7) by (simp add: s_kind_def)
  moreover have "cmem B' ext X b = {}" using m B'(3) by (simp add: cmem_def)
  moreover have "\<exists>D. sp_bags B' b = Some D \<and> SBag_get_version D = 0" using B'(5,8) by simp
  ultimately show ?thesis using B'(1,9) m by blast
qed

text \<open>The next version of an iteration bag.\<close>

lemma ctl_put_payload:
  assumes c: "ctl B ext k X fs" and D: "sp_bags B b = Some D" "is_SBag D" "is_SBag (D\<lparr>bag_payload := p\<rparr>)"
  shows "ctl (sp_put_bag b (D\<lparr>bag_payload := p\<rparr>) B) ext k X fs"
    "cmem (sp_put_bag b (D\<lparr>bag_payload := p\<rparr>) B) ext X = cmem B ext X"
    "sp_new (sp_put_bag b (D\<lparr>bag_payload := p\<rparr>) B) = sp_new B"
proof -
  note C = ctlD [OF c]
  let ?B = "sp_put_bag b (D\<lparr>bag_payload := p\<rparr>) B"
  note T = put_payload_tidy [OF C(1) D(1), of p]
  have dom: "dom (sp_bags ?B) = dom (sp_bags B)" using D(1) by (auto simp: sp_put_bag_def)
  have np: "\<not> is_PBag D" using D(2) by (simp add: is_PBag_bit is_SBag_bit)
  have "s_kind B a \<Longrightarrow> s_kind ?B a" "p_kind B a \<Longrightarrow> p_kind ?B a" for a
    using D np by (auto simp: s_kind_def p_kind_def sp_put_bag_def)
  then have "kinds_ok ?B f" if "f \<in> set fs" for f using C(4) [OF that] by (auto simp: kinds_ok_def)
  then show "ctl ?B ext k X fs" using T(1) C(2,3) D dom by (simp add: ctl_def)
  show "cmem ?B ext X = cmem B ext X" using T(2) D by (simp add: cmem_def fun_eq_iff)
qed (simp add: sp_put_bag_def)

subsection \<open>The operations that the handlers are made of\<close>

lemma ctl_perm: "mset fs = mset fs' \<Longrightarrow> ctl B ext k X fs \<longleftrightarrow> ctl B ext k X fs'"
proof -
  assume m: "mset fs = mset fs'"
  have "owned fs = owned fs'" using m unfolding owned_def by (metis mset_map sum_mset_sum_list)
  moreover have "set fs = set fs'" using m by (metis set_mset_mset)
  ultimately show ?thesis by (simp add: ctl_def)
qed

lemma ctl_mono: "ctl B ext k X fs \<Longrightarrow> k \<le> k' \<Longrightarrow> ctl B ext k' X fs"
  unfolding ctl_def sp_tidy_def ds_within_def by (meson le_trans)

definition cjoins :: "u64 \<Rightarrow> u64 list \<Rightarrow> (u64 \<Rightarrow> u64 set) \<Rightarrow> u64 \<Rightarrow> u64 set" where
  "cjoins p qs m b = (if b = p then m p \<union> (\<Union>q \<in> set qs. m q) else if b \<in> set qs then {} else m b)"

lemma ctl_combine_pbags:
  assumes "ctl B ext k X fs" "k + length qs < 2 ^ 64 - 1" "p \<noteq> 0" "p \<notin> X" "p \<in># owned fs" "p_kind B p"
    "\<forall>q \<in> set qs. q \<noteq> 0 \<longrightarrow> q \<noteq> p \<and> q \<notin> X \<and> q \<in># owned fs" "distinct (filter (\<lambda>q. q \<noteq> 0) qs)"
  shows "\<exists>B'. combine_pbags p qs B = Some B' \<and>
    ctl B' ext (k + length qs) (X \<union> (set qs - {0})) fs \<and>
    cmem B' ext (X \<union> (set qs - {0})) = cjoins p qs (cmem B ext X) \<and>
    payloads B' = payloads B \<and> sp_new B' = sp_new B"
  using assms
proof (induction qs arbitrary: B k X)
  case Nil
  then show ?case by (simp add: cjoins_def fun_eq_iff)
next
  case (Cons q qs)
  note c = Cons.prems(1)
  show ?case
  proof (cases "q = 0")
    case True
    have c': "ctl B ext (Suc k) X fs" using ctl_mono [OF c] by simp
    obtain B' where B': "combine_pbags p qs B = Some B'"
      "ctl B' ext (Suc k + length qs) (X \<union> (set qs - {0})) fs"
      "cmem B' ext (X \<union> (set qs - {0})) = cjoins p qs (cmem B ext X)"
      "payloads B' = payloads B" "sp_new B' = sp_new B"
      using Cons.IH [OF c'] Cons.prems True by auto
    have "cjoins p qs (cmem B ext X) = cjoins p (q # qs) (cmem B ext X)"
      using True cmem_0 [OF c] Cons.prems(3) by (auto simp: cjoins_def fun_eq_iff)
    moreover have "set (q # qs) - {0} = set qs - {0}" using True by auto
    ultimately show ?thesis using B' True by simp
  next
    case False
    have q: "q \<noteq> p" "q \<notin> X" "q \<in># owned fs" using Cons.prems(7) False by auto
    have k: "k < 2 ^ 64 - 1" using Cons.prems(2) by simp
    obtain B1 where B1: "PBag_combine p q B = Some B1" "ctl B1 ext (Suc k) (insert q X) fs"
      "cmem B1 ext (insert q X) = cjoin p q (cmem B ext X)" "payloads B1 = payloads B" "sp_new B1 = sp_new B"
      using ctl_PBag_combine [OF c k _ Cons.prems(4) q(2) Cons.prems(5,6) q(3)] q(1) by blast
    have nin: "q \<notin> set qs" using Cons.prems(8) False by simp
    obtain D where D: "sp_bags B p = Some D" using Cons.prems(5) ctl_owned [OF c] by blast
    obtain D1 where D1: "sp_bags B1 p = Some D1" using Cons.prems(5) ctl_owned [OF B1(2)] by blast
    have "bag_payload D1 = bag_payload D" using B1(4) D D1 by (simp add: payloads_def fun_eq_iff) (metis option.inject option.map(2))
    then have pk: "p_kind B1 p" using Cons.prems(6) D D1 by (simp add: p_kind_def is_PBag_def)
    obtain B' where B': "combine_pbags p qs B1 = Some B'"
      "ctl B' ext (Suc k + length qs) (insert q X \<union> (set qs - {0})) fs"
      "cmem B' ext (insert q X \<union> (set qs - {0})) = cjoins p qs (cmem B1 ext (insert q X))"
      "payloads B' = payloads B1" "sp_new B' = sp_new B1"
    proof -
      have "Suc k + length qs < 2 ^ 64 - 1" using Cons.prems(2) by simp
      moreover have "p \<notin> insert q X" using q(1) Cons.prems(4) by simp
      moreover have "\<forall>r \<in> set qs. r \<noteq> 0 \<longrightarrow> r \<noteq> p \<and> r \<notin> insert q X \<and> r \<in># owned fs"
        using Cons.prems(7) nin by auto
      moreover have "distinct (filter (\<lambda>q. q \<noteq> 0) qs)" using Cons.prems(8) False by simp
      ultimately show ?thesis
        using Cons.IH [OF B1(2) _ Cons.prems(3) _ Cons.prems(5) pk] that by blast
    qed
    have "cjoins p qs (cjoin p q (cmem B ext X)) = cjoins p (q # qs) (cmem B ext X)"
      using q(1) nin Cons.prems(7) cmem_0 [OF c] False
      by (auto simp: cjoins_def cjoin_def fun_eq_iff split: if_splits)
    moreover have "X \<union> (set (q # qs) - {0}) = insert q X \<union> (set qs - {0})" using False by auto
    ultimately show ?thesis using B' B1 False by simp
  qed
qed

lemma combine_all_pbags_eq: "0 \<notin> set qs \<Longrightarrow> combine_all_pbags p qs B = combine_pbags p qs B"
  by (induction qs arbitrary: B) auto

text \<open>A frame that gives up a bag, at the head of the list.\<close>

lemma pbags_of_upd [simp]:
  "pbags_of (f\<lparr>Sbag := b\<rparr>) = pbags_of f" "pbags_of (f\<lparr>Iterbag := b\<rparr>) = pbags_of f"
  "pbags_of (f\<lparr>Sbag_used := u\<rparr>) = pbags_of f" "pbags_of (f\<lparr>Iterbag_used := u\<rparr>) = pbags_of f"
  "pbags_of (f\<lparr>num_Pbags := n\<rparr>) = pbags_of f" "pbags_of (f\<lparr>frame_data := e\<rparr>) = pbags_of f"
  "pbags_of (f\<lparr>InContin := c\<rparr>) = pbags_of f" "pbags_of (f\<lparr>ParentContin := d\<rparr>) = pbags_of f"
  "pbags_of (f\<lparr>reducer_views := v\<rparr>) = pbags_of f" "pbags_of (f\<lparr>Pbags := Some ps\<rparr>) = ps"
  "pbags_of (f\<lparr>Pbags := None\<rparr>) = []"
  by (simp_all add: pbags_of_def)

lemma ctl_delete_if:
  assumes c: "ctl B ext k X (f # fs)" and b: "b \<noteq> 0 \<longrightarrow> b \<in># frame_ptrs f" and e: "cmem B ext X b = {}"
    and f': "b \<noteq> 0 \<longrightarrow> frame_ptrs f' = frame_ptrs f - {#b#}" "b = 0 \<longrightarrow> frame_ptrs f' = frame_ptrs f"
      "kept_ptrs [f] [f']"
  shows "\<exists>B'. delete_if b B = Some B' \<and> ctl B' ext k (X - {b}) (f' # fs) \<and>
    cmem B' ext (X - {b}) = cmem B ext X \<and> (\<forall>c. c \<noteq> b \<longrightarrow> payloads B' c = payloads B c) \<and>
    sp_new B' = sp_new B"
proof (cases "b = 0")
  case True
  have "0 \<notin> X" using sp_tidyD(3) [OF ctlD(1) [OF c]] ctl_bag_nonzero [OF c, of 0] by blast
  then have X: "X - {b} = X" using True by simp
  have "kinds_ok B f'"
    using ctlD(4) [OF c, of f] f'(3) kinds_0 [OF c] by (auto simp: kept_ptrs_def kinds_ok_def)
  moreover have "owned (f' # fs) = owned (f # fs)" using f' True by simp
  ultimately have "ctl B ext k X (f' # fs)" using c by (simp add: ctl_def)
  then show ?thesis using True X by (simp add: delete_if_def)
next
  case False
  have o: "b \<in># owned (f # fs)" using b False by simp
  have "kept_ptrs (f # fs) (f' # fs)" using f'(3) by (auto simp: kept_ptrs_def)
  moreover have "owned (f' # fs) = owned (f # fs) - {#b#}" using f' False b by simp
  ultimately show ?thesis
    using ctl_delete [OF c o e] False by (auto simp: delete_if_def fun_eq_iff)
qed

lemma ctl_set_sbag_0:
  assumes c: "ctl B ext k X (f # fs)" and e: "cmem B ext X (Sbag f) = {}"
  shows "\<exists>B'. set_sbag 0 f B = Some (f\<lparr>Sbag := 0, Sbag_used := False\<rparr>, B') \<and>
    ctl B' ext k (X - {Sbag f}) (f\<lparr>Sbag := 0, Sbag_used := False\<rparr> # fs) \<and>
    cmem B' ext (X - {Sbag f}) = cmem B ext X \<and> (\<forall>c. c \<noteq> Sbag f \<longrightarrow> payloads B' c = payloads B c) \<and>
    sp_new B' = sp_new B"
proof -
  let ?f = "f\<lparr>Sbag := 0, Sbag_used := False\<rparr>"
  have "Sbag f \<noteq> 0 \<longrightarrow> frame_ptrs ?f = frame_ptrs f - {#Sbag f#}" "Sbag f = 0 \<longrightarrow> frame_ptrs ?f = frame_ptrs f"
    "kept_ptrs [f] [?f]" "Sbag f \<noteq> 0 \<longrightarrow> Sbag f \<in># frame_ptrs f"
    by (auto simp: frame_ptrs_def kept_ptrs_def)
  then show ?thesis using ctl_delete_if [OF c _ e, of ?f] by (fastforce simp: set_sbag_def)
qed

lemma ctl_set_iterbag_0:
  assumes c: "ctl B ext k X (f # fs)" and e: "cmem B ext X (Iterbag f) = {}"
  shows "\<exists>B'. set_iterbag 0 f B = Some (f\<lparr>Iterbag := 0, Iterbag_used := False\<rparr>, B') \<and>
    ctl B' ext k (X - {Iterbag f}) (f\<lparr>Iterbag := 0, Iterbag_used := False\<rparr> # fs) \<and>
    cmem B' ext (X - {Iterbag f}) = cmem B ext X \<and> (\<forall>c. c \<noteq> Iterbag f \<longrightarrow> payloads B' c = payloads B c) \<and>
    sp_new B' = sp_new B"
proof -
  let ?f = "f\<lparr>Iterbag := 0, Iterbag_used := False\<rparr>"
  have "Iterbag f \<noteq> 0 \<longrightarrow> frame_ptrs ?f = frame_ptrs f - {#Iterbag f#}"
    "Iterbag f = 0 \<longrightarrow> frame_ptrs ?f = frame_ptrs f"
    "kept_ptrs [f] [?f]" "Iterbag f \<noteq> 0 \<longrightarrow> Iterbag f \<in># frame_ptrs f"
    by (auto simp: frame_ptrs_def kept_ptrs_def)
  then show ?thesis using ctl_delete_if [OF c _ e, of ?f] by (fastforce simp: set_iterbag_def)
qed

lemma frame_ptrs_set_pbag:
  assumes "Pbags f = Some ps" "i < length ps"
  shows "ps ! i \<noteq> 0 \<longrightarrow> frame_ptrs (f\<lparr>Pbags := Some (ps[i := 0])\<rparr>) = frame_ptrs f - {#ps ! i#}"
    "ps ! i = 0 \<longrightarrow> frame_ptrs (f\<lparr>Pbags := Some (ps[i := b])\<rparr>) =
      (if b = 0 then frame_ptrs f else add_mset b (frame_ptrs f))"
    "ps ! i \<noteq> 0 \<longrightarrow> ps ! i \<in># frame_ptrs f"
proof -
  have m: "mset (ps[i := b]) = add_mset b (mset ps - {#ps ! i#})" for b using assms(2) by (rule mset_update)
  have e: "ps ! i \<in># mset ps" using assms(2) by simp
  have p: "pbags_of f = ps" using assms(1) by (simp add: pbags_of_def)
  show "ps ! i \<noteq> 0 \<longrightarrow> ps ! i \<in># frame_ptrs f" using e p by (simp add: frame_ptrs_def)
  obtain M where M: "mset ps = add_mset (ps ! i) M" using e by (metis mset_add)
  show "ps ! i \<noteq> 0 \<longrightarrow> frame_ptrs (f\<lparr>Pbags := Some (ps[i := 0])\<rparr>) = frame_ptrs f - {#ps ! i#}"
    using m [of 0] M p by (simp add: frame_ptrs_def)
  show "ps ! i = 0 \<longrightarrow> frame_ptrs (f\<lparr>Pbags := Some (ps[i := b])\<rparr>) =
      (if b = 0 then frame_ptrs f else add_mset b (frame_ptrs f))"
    using m [of b] M p by (simp add: frame_ptrs_def)
qed

lemma ctl_set_pbag_0:
  assumes c: "ctl B ext k X (f # fs)" and p: "Pbags f = Some ps" "i < length ps" "unat (num_Pbags f) = length ps"
    and e: "cmem B ext X (ps ! i) = {}"
  shows "\<exists>B'. set_pbag i 0 f B = Some (f\<lparr>Pbags := Some (ps[i := 0])\<rparr>, B') \<and>
    ctl B' ext k (X - {ps ! i}) (f\<lparr>Pbags := Some (ps[i := 0])\<rparr> # fs) \<and>
    cmem B' ext (X - {ps ! i}) = cmem B ext X \<and> (\<forall>c. c \<noteq> ps ! i \<longrightarrow> payloads B' c = payloads B c) \<and>
    sp_new B' = sp_new B"
proof -
  let ?f = "f\<lparr>Pbags := Some (ps[i := 0])\<rparr>"
  have "pbags_of f = ps" using p(1) by (simp add: pbags_of_def)
  then have k: "kept_ptrs [f] [?f]"
    using p(2) set_update_subset_insert [of ps i 0] by (auto simp: kept_ptrs_def)
  have "ps ! i = 0 \<longrightarrow> frame_ptrs ?f = frame_ptrs f" using frame_ptrs_set_pbag(2) [OF p(1,2), of 0] by simp
  then obtain B' where "delete_if (ps ! i) B = Some B'" "ctl B' ext k (X - {ps ! i}) (?f # fs)"
    "cmem B' ext (X - {ps ! i}) = cmem B ext X" "\<forall>c. c \<noteq> ps ! i \<longrightarrow> payloads B' c = payloads B c"
    "sp_new B' = sp_new B"
    using ctl_delete_if [OF c frame_ptrs_set_pbag(3) [OF p(1,2)] e frame_ptrs_set_pbag(1) [OF p(1,2)] _ k] by blast
  then show ?thesis using p by (simp add: set_pbag_def arr_get_def)
qed

text \<open>Clearing the whole array.\<close>

lemma ctl_clear_pbags_loop:
  assumes "ctl B ext k X (f # fs)" "Pbags f = Some ps" "unat (num_Pbags f) = length ps" "i + n = length ps"
    "\<forall>p \<in> set (drop i ps). cmem B ext X p = {}"
  shows "\<exists>f' B'. clear_pbags_loop n i f B = Some (f', B') \<and>
    f' = f\<lparr>Pbags := Some (take i ps @ replicate n 0)\<rparr> \<and>
    ctl B' ext k (X - set (drop i ps)) (f' # fs) \<and>
    cmem B' ext (X - set (drop i ps)) = cmem B ext X \<and>
    (\<forall>c. c \<notin> set (drop i ps) \<longrightarrow> payloads B' c = payloads B c) \<and> sp_new B' = sp_new B"
  using assms
proof (induction n arbitrary: i f B X ps)
  case 0
  then show ?case by simp
next
  case (Suc n)
  have i: "i < length ps" using Suc.prems(4) by simp
  have d: "drop i ps = ps ! i # drop (Suc i) ps" using i by (simp add: Cons_nth_drop_Suc)
  let ?ps = "ps[i := 0]" and ?f = "f\<lparr>Pbags := Some (ps[i := 0])\<rparr>"
  obtain B1 where B1: "set_pbag i 0 f B = Some (?f, B1)" "ctl B1 ext k (X - {ps ! i}) (?f # fs)"
    "cmem B1 ext (X - {ps ! i}) = cmem B ext X" "\<forall>c. c \<noteq> ps ! i \<longrightarrow> payloads B1 c = payloads B c"
    "sp_new B1 = sp_new B"
    using ctl_set_pbag_0 [OF Suc.prems(1,2) i Suc.prems(3)] Suc.prems(5) d by auto
  have dr: "drop (Suc i) ?ps = drop (Suc i) ps" by simp
  have pre: "Pbags ?f = Some ?ps" "unat (num_Pbags ?f) = length ?ps" "Suc i + n = length ?ps"
    "\<forall>p \<in> set (drop (Suc i) ?ps). cmem B1 ext (X - {ps ! i}) p = {}"
    using Suc.prems(3-5) B1(3) d by auto
  obtain f' B' where r: "clear_pbags_loop n (Suc i) ?f B1 = Some (f', B')"
    "f' = ?f\<lparr>Pbags := Some (take (Suc i) ?ps @ replicate n 0)\<rparr>"
    "ctl B' ext k (X - {ps ! i} - set (drop (Suc i) ?ps)) (f' # fs)"
    "cmem B' ext (X - {ps ! i} - set (drop (Suc i) ?ps)) = cmem B1 ext (X - {ps ! i})"
    "\<forall>c. c \<notin> set (drop (Suc i) ?ps) \<longrightarrow> payloads B' c = payloads B1 c" "sp_new B' = sp_new B1"
    using Suc.IH [OF B1(2) pre] by blast
  have X: "X - {ps ! i} - set (drop (Suc i) ?ps) = X - set (drop i ps)" using d dr by auto
  have "take (Suc i) ?ps @ replicate n 0 = take i ps @ replicate (Suc n) 0"
    using i by (simp add: take_Suc_conv_app_nth)
  then have f': "f' = f\<lparr>Pbags := Some (take i ps @ replicate (Suc n) 0)\<rparr>" using r(2) by simp
  show ?case
  proof (intro exI conjI)
    show "clear_pbags_loop (Suc n) i f B = Some (f', B')" using B1(1) r(1) by simp
    show "ctl B' ext k (X - set (drop i ps)) (f' # fs)" using r(3) X by simp
    show "cmem B' ext (X - set (drop i ps)) = cmem B ext X" using r(4) X B1(3) by simp
    show "\<forall>c. c \<notin> set (drop i ps) \<longrightarrow> payloads B' c = payloads B c" using r(5) B1(4) d dr by simp
  qed (use f' r(6) B1(5) in simp_all)
qed

text \<open>A frame whose array holds only null pointers owns the same bags without it.\<close>

lemma ctl_same_ptrs:
  assumes "ctl B ext k X (f # fs)" "frame_ptrs f' = frame_ptrs f" "kept_ptrs [f] [f']"
  shows "ctl B ext k X (f' # fs)"
proof -
  have "kinds_ok B f'"
    using ctlD(4) [OF assms(1), of f] assms(3) kinds_0 [OF assms(1)] by (auto simp: kept_ptrs_def kinds_ok_def)
  then show ?thesis using assms(1,2) by (simp add: ctl_def)
qed

lemma ctl_clear_pbag_array:
  assumes c: "ctl B ext k X (f # fs)" and n: "unat (num_Pbags f) = length (pbags_of f)"
    and e: "\<forall>p \<in> set (pbags_of f). cmem B ext X p = {}"
  shows "\<exists>f' B'. clear_pbag_array f B = Some (f', B') \<and> f' = f\<lparr>Pbags := None, num_Pbags := 0\<rparr> \<and>
    ctl B' ext k (X - set (pbags_of f)) (f' # fs) \<and>
    cmem B' ext (X - set (pbags_of f)) = cmem B ext X \<and>
    (\<forall>c. c \<notin> set (pbags_of f) \<longrightarrow> payloads B' c = payloads B c) \<and> sp_new B' = sp_new B"
proof (cases "Pbags f")
  case None
  then have p: "pbags_of f = []" by (simp add: pbags_of_def)
  then have "num_Pbags f = 0" using n by (simp add: unsigned_eq_0_iff)
  then have "f = f\<lparr>Pbags := None, num_Pbags := 0\<rparr>" using None by simp
  then show ?thesis using c p None by (auto simp: clear_pbag_array_def)
next
  case (Some ps)
  then have p: "pbags_of f = ps" by (simp add: pbags_of_def)
  let ?f = "f\<lparr>Pbags := Some (replicate (length ps) 0)\<rparr>" and ?f' = "f\<lparr>Pbags := None, num_Pbags := 0\<rparr>"
  obtain B' where r: "clear_pbags_loop (length ps) 0 f B = Some (?f, B')"
    "ctl B' ext k (X - set ps) (?f # fs)" "cmem B' ext (X - set ps) = cmem B ext X"
    "\<forall>c. c \<notin> set ps \<longrightarrow> payloads B' c = payloads B c" "sp_new B' = sp_new B"
    using ctl_clear_pbags_loop [OF c Some, of 0 "length ps"] n e p by auto
  have "frame_ptrs ?f' = frame_ptrs ?f" "kept_ptrs [?f] [?f']"
    by (auto simp: frame_ptrs_def kept_ptrs_def pbags_of_def)
  then have "ctl B' ext k (X - set ps) (?f' # fs)" using ctl_same_ptrs [OF r(2)] by blast
  moreover have "clear_pbag_array f B = Some (?f', B')"
    using r(1) Some n p by (simp add: clear_pbag_array_def)
  ultimately show ?thesis using r(3-5) p by blast
qed

text \<open>New bags in the place of empty ones.\<close>

lemma ctl_take_new:
  assumes own: "\<forall>fs'. owned fs' = add_mset b (owned (f # fs)) \<longrightarrow> (\<forall>g \<in> set fs'. kinds_ok B g) \<longrightarrow> ctl B ext k X fs'"
    and c0: "ctl B0 ext k X (f # fs)" and fr: "fresh_bag b B0 B" and sk: "s_kind B b"
  shows "ctl B ext k X (f # FrameData_default\<lparr>Sbag := b\<rparr> # fs)" "b \<notin> X" "b \<notin># frame_ptrs f"
    "g \<in> set (f # fs) \<Longrightarrow> kinds_ok B g"
proof -
  have b: "b \<noteq> 0" "sp_bags B0 b = None" using fr by (simp_all add: fresh_bag_def)
  have no: "b \<notin># owned (f # fs)" using b(2) ctl_owned [OF c0, of b] by simp
  then show "b \<notin># frame_ptrs f" by simp
  show "b \<notin> X" using sp_tidyD(3) [OF ctlD(1) [OF c0]] b(2) by blast
  have k: "kinds_ok B g" if "g \<in> set (f # fs)" for g
  proof -
    have "s_kind B0 c \<Longrightarrow> c = 0 \<or> c \<noteq> b \<Longrightarrow> s_kind B c" "p_kind B0 c \<Longrightarrow> c = 0 \<or> c \<noteq> b \<Longrightarrow> p_kind B c" for c
      using fr by (auto simp: fresh_bag_def)
    moreover have "c = 0 \<or> c \<noteq> b" if "c = Sbag g \<or> c = Iterbag g \<or> c \<in> set (pbags_of g)" for c
      using no \<open>g \<in> set (f # fs)\<close> that frame_ptrs_mem [of b g] owned_mem [of b "f # fs"] by blast
    ultimately show ?thesis using ctlD(4) [OF c0 that] unfolding kinds_ok_def by blast
  qed
  then show "g \<in> set (f # fs) \<Longrightarrow> kinds_ok B g" .
  let ?g = "FrameData_default\<lparr>Sbag := b\<rparr>"
  have z: "s_kind B 0" "p_kind B 0"
  proof -
    have "0 \<noteq> b" using b by simp
    then show "s_kind B 0" "p_kind B 0" using fr kinds_0 [OF c0] by (auto simp: fresh_bag_def)
  qed
  have "kinds_ok B ?g" using sk z by (simp add: kinds_ok_def FrameData_default_def pbags_of_def)
  moreover have "owned (f # ?g # fs) = add_mset b (owned (f # fs))"
    using b(1) by (simp add: frame_ptrs_def FrameData_default_def pbags_of_def)
  ultimately show "ctl B ext k X (f # ?g # fs)" using own k by simp
qed

lemma ctl_new_sbag:
  assumes c: "ctl B ext k X (f # fs)" and ne: "2 \<le> length (sp_new B)" and e: "cmem B ext X (Sbag f) = {}"
  shows "\<exists>b B1 B2. createNewSBag d B = Some (b, B1) \<and>
    set_sbag b f B1 = Some (f\<lparr>Sbag := b, Sbag_used := False\<rparr>, B2) \<and> b \<noteq> 0 \<and>
    ctl B2 ext k (X - {Sbag f}) (f\<lparr>Sbag := b, Sbag_used := False\<rparr> # fs) \<and>
    cmem B2 ext (X - {Sbag f}) = cmem B ext X \<and> cmem B ext X b = {} \<and>
    (\<forall>c. c \<noteq> b \<longrightarrow> c \<noteq> Sbag f \<longrightarrow> payloads B2 c = payloads B c) \<and> sp_new B2 = drop 2 (sp_new B)"
proof -
  obtain b B1 where B1: "createNewSBag d B = Some (b, B1)" "fresh_bag b B B1" "s_kind B1 b"
    "sp_new B1 = drop 2 (sp_new B)" "cmem B1 ext X = cmem B ext X" "cmem B1 ext X b = {}"
    "\<forall>fs'. owned fs' = add_mset b (owned (f # fs)) \<longrightarrow> (\<forall>g \<in> set fs'. kinds_ok B1 g) \<longrightarrow> ctl B1 ext k X fs'"
    using ctl_createNewSBag [OF c ne, of d] by blast
  let ?g = "FrameData_default\<lparr>Sbag := b\<rparr>" and ?f0 = "f\<lparr>Sbag := 0, Sbag_used := False\<rparr>"
    and ?f' = "f\<lparr>Sbag := b, Sbag_used := False\<rparr>"
  note N = ctl_take_new [OF B1(7) c B1(2,3)]
  have e1: "cmem B1 ext X (Sbag f) = {}" using e B1(5) by simp
  obtain B2 where B2: "set_sbag 0 f B1 = Some (?f0, B2)" "ctl B2 ext k (X - {Sbag f}) (?f0 # ?g # fs)"
    "cmem B2 ext (X - {Sbag f}) = cmem B1 ext X" "\<forall>c. c \<noteq> Sbag f \<longrightarrow> payloads B2 c = payloads B1 c"
    "sp_new B2 = sp_new B1"
    using ctl_set_sbag_0 [OF N(1) e1] by blast
  have b0: "b \<noteq> 0" using B1(2) by (simp add: fresh_bag_def)
  have k2: "kinds_ok B2 ?g" "kinds_ok B2 ?f0" using ctlD(4) [OF B2(2)] by simp_all
  then have "kinds_ok B2 ?f'" by (simp add: kinds_ok_def)
  moreover have "owned (?f' # fs) = owned (?f0 # ?g # fs)"
    using b0 by (simp add: frame_ptrs_def FrameData_default_def pbags_of_def)
  ultimately have "ctl B2 ext k (X - {Sbag f}) (?f' # fs)"
    using B2(2) by (simp add: ctl_def add.assoc)
  moreover have "set_sbag b f B1 = Some (?f', B2)"
    using B2(1) by (auto simp: set_sbag_def bind_eq_Some_conv)
  moreover have "\<forall>c. c \<noteq> b \<longrightarrow> c \<noteq> Sbag f \<longrightarrow> payloads B2 c = payloads B c"
    using B2(4) B1(2) by (simp add: fresh_bag_def)
  ultimately show ?thesis using B1(1,4,5,6) B2(3,5) b0 by auto
qed

lemma ctl_new_iterbag:
  assumes c: "ctl B ext k X (f # fs)" and ne: "2 \<le> length (sp_new B)" and e: "cmem B ext X (Iterbag f) = {}"
    and l: "is_loop_frame f" and s: "Sbag f \<noteq> 0" "Sbag f \<noteq> Iterbag f"
  shows "\<exists>b B2. create_iterbag f B = Some (f\<lparr>Iterbag := b, Iterbag_used := False\<rparr>, B2) \<and> b \<noteq> 0 \<and>
    ctl B2 ext k (X - {Iterbag f}) (f\<lparr>Iterbag := b, Iterbag_used := False\<rparr> # fs) \<and>
    cmem B2 ext (X - {Iterbag f}) = cmem B ext X \<and> cmem B ext X b = {} \<and>
    (\<exists>D. sp_bags B2 b = Some D \<and> SBag_get_version D = 0) \<and>
    (\<forall>c. c \<noteq> b \<longrightarrow> c \<noteq> Iterbag f \<longrightarrow> payloads B2 c = payloads B c) \<and> sp_new B2 = drop 2 (sp_new B)"
proof -
  have "Sbag f \<in># owned (f # fs)" using s by (simp add: frame_ptrs_mem)
  then obtain D where D: "sp_bags B (Sbag f) = Some D" using ctl_owned [OF c] by blast
  have "bag_ds D \<noteq> 0" using ctlD(4) [OF c, of f] D by (simp add: kinds_ok_def s_kind_def)
  then obtain n where n: "sp_ds B (bag_ds D) = Some n"
    using sp_inv_bag_live(2) [OF sp_tidyD(1) [OF ctlD(1) [OF c]] D] by blast
  then obtain d where d: "ds_get_data (bag_ds D) (sp_ds B) = Some d" by (simp add: ds_get_data_def)
  obtain b B1 where B1: "createNewSBag d B = Some (b, B1)" "fresh_bag b B B1" "s_kind B1 b"
    "\<exists>D. sp_bags B1 b = Some D \<and> SBag_get_version D = 0"
    "sp_new B1 = drop 2 (sp_new B)" "cmem B1 ext X = cmem B ext X" "cmem B1 ext X b = {}"
    "\<forall>fs'. owned fs' = add_mset b (owned (f # fs)) \<longrightarrow> (\<forall>g \<in> set fs'. kinds_ok B1 g) \<longrightarrow> ctl B1 ext k X fs'"
    using ctl_createNewSBag [OF c ne, of d] by blast
  let ?g = "FrameData_default\<lparr>Sbag := b\<rparr>" and ?f0 = "f\<lparr>Iterbag := 0, Iterbag_used := False\<rparr>"
    and ?f' = "f\<lparr>Iterbag := b, Iterbag_used := False\<rparr>"
  note N = ctl_take_new [OF B1(8) c B1(2,3)]
  have e1: "cmem B1 ext X (Iterbag f) = {}" using e B1(6) by simp
  obtain B2 where B2: "set_iterbag 0 f B1 = Some (?f0, B2)" "ctl B2 ext k (X - {Iterbag f}) (?f0 # ?g # fs)"
    "cmem B2 ext (X - {Iterbag f}) = cmem B1 ext X" "\<forall>c. c \<noteq> Iterbag f \<longrightarrow> payloads B2 c = payloads B1 c"
    "sp_new B2 = sp_new B1"
    using ctl_set_iterbag_0 [OF N(1) e1] by blast
  have b0: "b \<noteq> 0" using B1(2) by (simp add: fresh_bag_def)
  have bi: "b \<noteq> Iterbag f" using N(3) b0 by (simp add: frame_ptrs_mem)
  have k2: "kinds_ok B2 ?g" "kinds_ok B2 ?f0" using ctlD(4) [OF B2(2)] by simp_all
  then have "kinds_ok B2 ?f'" by (simp add: kinds_ok_def)
  moreover have "owned (?f' # fs) = owned (?f0 # ?g # fs)"
    using b0 by (simp add: frame_ptrs_def FrameData_default_def pbags_of_def)
  ultimately have "ctl B2 ext k (X - {Iterbag f}) (?f' # fs)"
    using B2(2) by (simp add: ctl_def add.assoc)
  moreover have "set_iterbag b f B1 = Some (?f', B2)"
    using B2(1) by (auto simp: set_iterbag_def bind_eq_Some_conv)
  then have "create_iterbag f B = Some (?f', B2)"
    using l D d B1(1) by (simp add: create_iterbag_def)
  moreover have "\<forall>c. c \<noteq> b \<longrightarrow> c \<noteq> Iterbag f \<longrightarrow> payloads B2 c = payloads B c"
    using B2(4) B1(2) by (simp add: fresh_bag_def)
  moreover have "\<exists>D. sp_bags B2 b = Some D \<and> SBag_get_version D = 0"
  proof -
    obtain E where E: "sp_bags B1 b = Some E" "SBag_get_version E = 0" using B1(4) by blast
    have "payloads B2 b = payloads B1 b" using B2(4) bi by blast
    then obtain E2 where "sp_bags B2 b = Some E2" "bag_payload E2 = bag_payload E"
      using E(1) by (auto simp: payloads_def)
    then show ?thesis using E(2) by (simp add: SBag_get_version_eq)
  qed
  ultimately show ?thesis using B1(5,6,7) B2(3,5) b0 by auto
qed

lemma ctl_new_pbag:
  assumes c: "ctl B ext k X (f # fs)" and ne: "sp_new B \<noteq> []"
    and p: "Pbags f = Some ps" "i < length ps" "unat (num_Pbags f) = length ps" "ps ! i = 0"
  shows "\<exists>b B1. createNewPBag B = Some (b, B1) \<and> set_pbag i b f B1 = Some (f\<lparr>Pbags := Some (ps[i := b])\<rparr>, B1) \<and>
    b \<noteq> 0 \<and> ctl B1 ext k X (f\<lparr>Pbags := Some (ps[i := b])\<rparr> # fs) \<and>
    cmem B1 ext X = cmem B ext X \<and> cmem B ext X b = {} \<and> b \<notin> X \<and> p_kind B1 b \<and> b \<notin># owned (f # fs) \<and>
    (\<forall>c. c \<noteq> b \<longrightarrow> payloads B1 c = payloads B c) \<and> sp_new B1 = tl (sp_new B)"
proof -
  obtain b B1 where B1: "createNewPBag B = Some (b, B1)" "fresh_bag b B B1" "p_kind B1 b"
    "sp_new B1 = tl (sp_new B)" "cmem B1 ext X = cmem B ext X" "cmem B1 ext X b = {}"
    "\<forall>fs'. owned fs' = add_mset b (owned (f # fs)) \<longrightarrow> (\<forall>g \<in> set fs'. kinds_ok B1 g) \<longrightarrow> ctl B1 ext k X fs'"
    using ctl_createNewPBag [OF c ne] by blast
  let ?f = "f\<lparr>Pbags := Some (ps[i := b])\<rparr>"
  have b: "b \<noteq> 0" "sp_bags B b = None" using B1(2) by (simp_all add: fresh_bag_def)
  have no: "b \<notin># owned (f # fs)" using b(2) ctl_owned [OF c, of b] by simp
  have bX: "b \<notin> X" using sp_tidyD(3) [OF ctlD(1) [OF c]] b(2) by blast
  have kin: "kinds_ok B1 g" if g: "g \<in> set (f # fs)" for g
  proof -
    have "s_kind B a \<Longrightarrow> a = 0 \<or> a \<noteq> b \<Longrightarrow> s_kind B1 a" "p_kind B a \<Longrightarrow> a = 0 \<or> a \<noteq> b \<Longrightarrow> p_kind B1 a" for a
      using B1(2) by (auto simp: fresh_bag_def)
    moreover have "a = 0 \<or> a \<noteq> b" if "a = Sbag g \<or> a = Iterbag g \<or> a \<in> set (pbags_of g)" for a
      using no g that frame_ptrs_mem [of b g] owned_mem [of b "f # fs"] by blast
    ultimately show ?thesis using ctlD(4) [OF c g] unfolding kinds_ok_def by blast
  qed
  have "kinds_ok B1 ?f"
  proof -
    have "set (ps[i := b]) \<subseteq> insert b (set ps)" by (rule set_update_subset_insert)
    moreover have "kinds_ok B1 f" using kin by simp
    moreover have "pbags_of f = ps" using p(1) by (simp add: pbags_of_def)
    ultimately show ?thesis using B1(3) by (auto simp: kinds_ok_def)
  qed
  moreover have "owned (?f # fs) = add_mset b (owned (f # fs))"
    using frame_ptrs_set_pbag(2) [OF p(1,2), of b] p(4) b(1) by simp
  ultimately have "ctl B1 ext k X (?f # fs)" using B1(7) kin by simp
  moreover have "set_pbag i b f B1 = Some (?f, B1)"
    using p by (simp add: set_pbag_def arr_get_def delete_if_def)
  moreover have "\<forall>c. c \<noteq> b \<longrightarrow> payloads B1 c = payloads B c" using B1(2) by (simp add: fresh_bag_def)
  ultimately show ?thesis using B1(1,3,4,5,6) b(1) bX no by auto
qed

text \<open>A frame at any place of the list.\<close>

lemma ctl_at:
  assumes "i < length fs"
  obtains rest where "\<And>g B ext k X. ctl B ext k X (fs[i := g]) \<longleftrightarrow> ctl B ext k X (g # rest)"
    "\<And>B ext k X. ctl B ext k X fs \<longleftrightarrow> ctl B ext k X (fs ! i # rest)"
    "\<And>g. owned (fs[i := g]) = frame_ptrs g + owned rest" "owned fs = frame_ptrs (fs ! i) + owned rest"
    "set rest \<subseteq> set fs"
proof -
  let ?rest = "take i fs @ drop (Suc i) fs"
  have m: "mset (fs[i := g]) = mset (g # ?rest)" for g
    using assms by (simp add: upd_conv_take_nth_drop)
  have m0: "mset fs = mset (fs ! i # ?rest)" using m [of "fs ! i"] by simp
  have o: "mset gs = mset hs \<Longrightarrow> owned gs = owned hs" for gs hs
    unfolding owned_def by (metis mset_map sum_mset_sum_list)
  have "owned (fs[i := g]) = frame_ptrs g + owned ?rest" "owned fs = frame_ptrs (fs ! i) + owned ?rest" for g
    using o [OF m [of g]] o [OF m0] by simp_all
  moreover have "set ?rest \<subseteq> set fs" by (auto dest: in_set_takeD in_set_dropD)
  ultimately show ?thesis using that [of ?rest] ctl_perm [OF m] ctl_perm [OF m0] by blast
qed

subsection \<open>The tool and its frames\<close>

text \<open>A frame above the head: \<open>reset\<close> left nothing in it.\<close>

definition clean_frame :: "FrameData_t \<Rightarrow> bool" where
  "clean_frame f \<longleftrightarrow> Sbag f = 0 \<and> Iterbag f = 0 \<and> Pbags f = None \<and> num_Pbags f = 0 \<and> InContin f = 0 \<and>
     reducer_views f = 0 \<and> \<not> Iterbag_used f"

definition cs_at :: "'m cilksan \<Rightarrow> FrameData_t list \<Rightarrow> CallID_t list sp_state \<Rightarrow> bool" where
  "cs_at S fs B \<longleftrightarrow> stack_rel clean_frame (cs_frame_stack S) fs \<and> cs_sp S = B"

text \<open>Only frames and bags differ.\<close>

definition cs_only :: "'m cilksan \<Rightarrow> 'm cilksan \<Rightarrow> bool" where
  "cs_only S S' \<longleftrightarrow> S' = S\<lparr>cs_sp := cs_sp S', cs_frame_stack := cs_frame_stack S'\<rparr>"

lemma cs_only_refl [simp]: "cs_only S S" by (simp add: cs_only_def)

lemma cs_only_trans: "cs_only S S' \<Longrightarrow> cs_only S' S'' \<Longrightarrow> cs_only S S''"
  unfolding cs_only_def by (cases S; cases S'; cases S'') simp

lemma cs_only_put [simp]: "cs_only S (cs_put_frame i f (S\<lparr>cs_sp := B\<rparr>))" "cs_only S (cs_put_frame i f S)"
  "cs_only S (S\<lparr>cs_sp := B\<rparr>)"
  by (simp_all add: cs_only_def cs_put_frame_def)

lemma cs_at_length: "cs_at S fs B \<Longrightarrow> 0 < length fs"
  using stack_rel_length by (fastforce simp: cs_at_def)

lemma cs_at_ancestor: "cs_at S fs B \<Longrightarrow> unat i < length fs \<Longrightarrow> cs_ancestor i S = Some (fs ! unat i)"
  using stack_rel_ancestor by (auto simp: cs_at_def cs_ancestor_def)

lemma cs_at_put:
  assumes "cs_at S fs B" "unat i < length fs"
  shows "cs_at (cs_put_frame i f (S\<lparr>cs_sp := B'\<rparr>)) (fs[unat i := f]) B'"
    "cs_at (cs_put_frame i f S) (fs[unat i := f]) B" "cs_at (S\<lparr>cs_sp := B'\<rparr>) fs B'"
  using assms stack_rel_put [of clean_frame "cs_frame_stack S" fs i f]
  by (simp_all add: cs_at_def cs_put_frame_def)

lemma on_frame_at:
  assumes "cs_at S fs B" "unat i < length fs" "act (fs ! unat i) B = Some (f, B')"
  shows "\<exists>S'. on_frame i act S = Some S' \<and> cs_at S' (fs[unat i := f]) B' \<and> cs_only S S'"
proof -
  have "cs_sp S = B" using assms(1) by (simp add: cs_at_def)
  then have "on_frame i act S = Some (cs_put_frame i f (S\<lparr>cs_sp := B'\<rparr>))"
    using assms(3) cs_at_ancestor [OF assms(1,2)] by (simp add: on_frame_def)
  then show ?thesis using cs_at_put(1) [OF assms(1,2)] by auto
qed

lemma on_bags_at:
  assumes "cs_at S fs B" "act B = Some B'"
  shows "\<exists>S'. on_bags act S = Some S' \<and> cs_at S' fs B' \<and> cs_only S S'"
  using assms by (auto simp: on_bags_def cs_at_def)

lemma ensure_pbag_at:
  assumes at: "cs_at S fs B" and c: "ctl B ext k X fs" and i: "unat i < length fs" "f = fs ! unat i"
    and p: "Pbags f = Some ps" "idx < length ps" "unat (num_Pbags f) = length ps" and ne: "sp_new B \<noteq> []"
    and X: "ps ! idx \<notin> X"
  shows "\<exists>b S' B'. ensure_pbag i idx S = Some (b, S') \<and>
    cs_at S' (fs[unat i := f\<lparr>Pbags := Some (ps[idx := b])\<rparr>]) B' \<and> cs_only S S' \<and>
    ctl B' ext k X (fs[unat i := f\<lparr>Pbags := Some (ps[idx := b])\<rparr>]) \<and>
    b \<noteq> 0 \<and> b \<notin> X \<and> p_kind B' b \<and> cmem B' ext X = cmem B ext X \<and> cmem B ext X b = cmem B ext X (ps ! idx) \<and>
    (\<forall>c. c \<noteq> b \<longrightarrow> payloads B' c = payloads B c) \<and> length (sp_new B) \<le> length (sp_new B') + 1 \<and>
    (b = ps ! idx \<or> ps ! idx = 0 \<and> b \<notin># owned fs)"
proof -
  have anc: "cs_ancestor i S = Some f" using cs_at_ancestor [OF at i(1)] i(2) by simp
  obtain rest where r: "\<And>g (B :: CallID_t list sp_state) ext k X.
      ctl B ext k X (fs[unat i := g]) \<longleftrightarrow> ctl B ext k X (g # rest)"
    "\<And>(B :: CallID_t list sp_state) ext k X. ctl B ext k X fs \<longleftrightarrow> ctl B ext k X (f # rest)"
    "owned fs = frame_ptrs f + owned rest"
    using ctl_at [OF i(1)] i(2) by metis
  have sp: "cs_sp S = B" using at by (simp add: cs_at_def)
  show ?thesis
  proof (cases "ps ! idx = 0")
    case True
    have c': "ctl B ext k X (f # rest)" using c r by simp
    obtain b B1 where B1: "createNewPBag B = Some (b, B1)"
      "set_pbag idx b f B1 = Some (f\<lparr>Pbags := Some (ps[idx := b])\<rparr>, B1)" "b \<noteq> 0"
      "ctl B1 ext k X (f\<lparr>Pbags := Some (ps[idx := b])\<rparr> # rest)" "cmem B1 ext X = cmem B ext X"
      "cmem B ext X b = {}" "b \<notin> X" "p_kind B1 b" "b \<notin># owned (f # rest)"
      "\<forall>c. c \<noteq> b \<longrightarrow> payloads B1 c = payloads B c" "sp_new B1 = tl (sp_new B)"
      using ctl_new_pbag [OF c' ne p True] by blast
    have at1: "cs_at (S\<lparr>cs_sp := B1\<rparr>) fs B1" using at by (simp add: cs_at_def)
    have g1: "set_pbag idx b (fs ! unat i) B1 = Some (f\<lparr>Pbags := Some (ps[idx := b])\<rparr>, B1)"
      using B1(2) i(2) by simp
    obtain S' where S': "on_frame i (set_pbag idx b) (S\<lparr>cs_sp := B1\<rparr>) = Some S'"
      "cs_at S' (fs[unat i := f\<lparr>Pbags := Some (ps[idx := b])\<rparr>]) B1" "cs_only (S\<lparr>cs_sp := B1\<rparr>) S'"
      using on_frame_at [where act = "set_pbag idx b", OF at1 i(1) g1] by blast
    have "ensure_pbag i idx S = Some (b, S')"
      using anc p True sp B1(1) S'(1) by (simp add: ensure_pbag_def arr_get_def)
    moreover have "cs_only S S'" using S'(3) cs_only_trans [OF cs_only_put(3)] by blast
    moreover have "cmem B ext X b = cmem B ext X (ps ! idx)" using B1(6) True cmem_0 [OF c] by simp
    moreover have "length (sp_new B) \<le> length (sp_new B1) + 1" using B1(11) by simp
    ultimately show ?thesis using S'(2) B1 r(1,3) True by auto
  next
    case False
    let ?b = "ps ! idx"
    have "f\<lparr>Pbags := Some (ps[idx := ?b])\<rparr> = f" using p(1) by simp
    then have upd: "fs[unat i := f\<lparr>Pbags := Some (ps[idx := ?b])\<rparr>] = fs" using i(2) by simp
    have "ensure_pbag i idx S = Some (?b, S)" using anc p False by (simp add: ensure_pbag_def arr_get_def)
    moreover have "p_kind B ?b"
    proof -
      have "f \<in> set fs" using i by simp
      moreover have "?b \<in> set (pbags_of f)" using p by (simp add: pbags_of_def)
      ultimately show ?thesis using ctlD(4) [OF c] by (auto simp: kinds_ok_def)
    qed
    ultimately show ?thesis using at c upd False X by (intro exI [of _ ?b] exI [of _ S] exI [of _ B]) simp
  qed
qed

text \<open>No bag has two places.\<close>

lemma ctl_disjoint:
  assumes "ctl B ext k X (f # fs)" "b \<in># frame_ptrs f"
  shows "b \<notin># owned fs"
proof
  assume "b \<in># owned fs"
  then have "1 \<le> count (owned fs) b" "1 \<le> count (frame_ptrs f) b"
    using assms(2) by (simp_all only: One_nat_def Suc_le_eq count_greater_zero_iff)
  then show False using ctl_owned_count [OF assms(1), of b] by (simp only: owned_simps plus_multiset.rep_eq)
qed

lemma distinct_if_count_le_1:
  assumes "\<And>a. count_list xs a \<le> 1"
  shows "distinct xs"
  using assms
proof (induction xs)
  case (Cons x xs)
  have "count_list xs a \<le> 1" for a using Cons.prems [of a] by (simp split: if_splits)
  moreover have "count_list xs x = 0" using Cons.prems [of x] by simp
  ultimately show ?case using Cons.IH by (simp add: count_list_0_iff)
qed simp

lemma ctl_distinct:
  assumes c: "ctl B ext k X fs" and f: "f \<in> set fs"
  shows "distinct (filter (\<lambda>p. p \<noteq> 0) (Sbag f # Iterbag f # pbags_of f))"
proof -
  obtain i where i: "i < length fs" "fs ! i = f" using f by (auto simp: in_set_conv_nth)
  obtain rest where o: "owned fs = frame_ptrs f + owned rest"
    using ctl_at [OF i(1)] i(2) by metis
  let ?l = "filter (\<lambda>p. p \<noteq> 0) (Sbag f # Iterbag f # pbags_of f)"
  have m: "mset ?l = frame_ptrs f" by (simp only: frame_ptrs_def mset_filter)
  have "count (mset ?l) a \<le> 1" for a using ctl_owned_count [OF c, of a] o m by simp
  then have "count_list ?l a \<le> 1" for a by (simp only: count_mset)
  then show ?thesis by (metis distinct_if_count_le_1)
qed

lemma ctl_pbag_kind: "ctl B ext k X fs \<Longrightarrow> f \<in> set fs \<Longrightarrow> p \<in> set (pbags_of f) \<Longrightarrow> p_kind B p"
  using ctlD(4) [of B ext k X fs f] by (auto simp: kinds_ok_def)

lemma ctl_sbag_kind: "ctl B ext k X fs \<Longrightarrow> f \<in> set fs \<Longrightarrow> s_kind B (Sbag f)"
  "ctl B ext k X fs \<Longrightarrow> f \<in> set fs \<Longrightarrow> s_kind B (Iterbag f)"
  using ctlD(4) [of B ext k X fs f] by (auto simp: kinds_ok_def)

lemma owned_ptr: "f \<in> set fs \<Longrightarrow> b \<noteq> 0 \<Longrightarrow> b = Sbag f \<or> b = Iterbag f \<or> b \<in> set (pbags_of f) \<Longrightarrow> b \<in># owned fs"
  using frame_ptrs_mem owned_mem by blast

definition frame_ok :: "(u64 \<Rightarrow> u64 set) \<Rightarrow> FrameData_t \<Rightarrow> bool" where
  "frame_ok m f \<longleftrightarrow> Sbag f \<noteq> 0 \<and> unat (num_Pbags f) = length (pbags_of f) \<and>
     (\<not> Sbag_used f \<longrightarrow> m (Sbag f) = {}) \<and> (\<not> Iterbag_used f \<longrightarrow> m (Iterbag f) = {}) \<and>
     reducer_views f = 0"

definition loop_ok :: "FrameData_t \<Rightarrow> bool" where
  "loop_ok f \<longleftrightarrow> (is_loop_frame f \<longleftrightarrow> Iterbag f \<noteq> 0) \<and>
     (is_loop_frame f \<longrightarrow> pbags_of f \<noteq> [] \<and> isDetacher (frame_data f))"

lemma frame_ok_pbags: "frame_ok m f \<Longrightarrow> frame_pbags f = Some (pbags_of f)"
  by (auto simp: frame_ok_def frame_pbags_def pbags_of_def split: option.splits)

text \<open>Combining a bag whose frame may not have used it.\<close>

lemma combine_used_at:
  assumes at: "cs_at S fs B" and c: "ctl B ext k {} fs" and k: "k < 2 ^ 64 - 1" and ne: "p \<noteq> q"
    and p: "p \<in># owned fs" "p_kind B p" and q: "q \<in># owned fs" and u: "\<not> used \<longrightarrow> cmem B ext {} q = {}"
  shows "\<exists>S' B' X. (if used then on_bags (PBag_combine p q) S else Some S) = Some S' \<and> cs_at S' fs B' \<and>
    cs_only S S' \<and> X \<subseteq> {q} \<and> ctl B' ext (Suc k) X fs \<and>
    cmem B' ext X = cjoin p q (cmem B ext {}) \<and> payloads B' = payloads B \<and> sp_new B' = sp_new B"
proof (cases used)
  case True
  obtain B' where B': "PBag_combine p q B = Some B'" "ctl B' ext (Suc k) {q} fs"
    "cmem B' ext {q} = cjoin p q (cmem B ext {})" "payloads B' = payloads B" "sp_new B' = sp_new B"
    using ctl_PBag_combine [OF c k ne _ _ p q] by auto
  obtain S' where "on_bags (PBag_combine p q) S = Some S'" "cs_at S' fs B'" "cs_only S S'"
    using on_bags_at [where act = "PBag_combine p q", OF at B'(1)] by blast
  then show ?thesis using True B' by (intro exI [of _ S'] exI [of _ B'] exI [of _ "{q}"]) simp
next
  case False
  then have "cmem B ext {} = cjoin p q (cmem B ext {})" using u by (auto simp: cjoin_def fun_eq_iff)
  moreover have "ctl B ext (Suc k) {} fs" using ctl_mono [OF c] by simp
  ultimately show ?thesis using at False by (intro exI [of _ S] exI [of _ B] exI [of _ "{}"]) simp
qed

text \<open>The end of the merge: the child gives up its bags, which are empty.\<close>

definition bare :: "FrameData_t \<Rightarrow> FrameData_t" where
  "bare f = f\<lparr>Sbag := 0, Sbag_used := False, Pbags := None, num_Pbags := 0\<rparr>"

lemma give_up_at:
  assumes at: "cs_at S (c # fs) B" and c: "ctl B ext k X (c # fs)" and n: "unat (num_Pbags c) = length (pbags_of c)"
    and e: "cmem B ext X (Sbag c) = {}" "\<forall>q \<in> set (pbags_of c). cmem B ext X q = {}"
  shows "\<exists>S' B'. (case on_frame 0 (set_sbag 0) S of None \<Rightarrow> None | Some S \<Rightarrow> on_frame 0 clear_pbag_array S) = Some S' \<and>
    cs_at S' (bare c # fs) B' \<and> cs_only S S' \<and>
    ctl B' ext k (X - {Sbag c} - set (pbags_of c)) (bare c # fs) \<and>
    cmem B' ext (X - {Sbag c} - set (pbags_of c)) = cmem B ext X \<and>
    (\<forall>b. b \<noteq> Sbag c \<longrightarrow> b \<notin> set (pbags_of c) \<longrightarrow> payloads B' b = payloads B b) \<and> sp_new B' = sp_new B"
proof -
  let ?c = "c\<lparr>Sbag := 0, Sbag_used := False\<rparr>"
  obtain B1 where B1: "set_sbag 0 c B = Some (?c, B1)" "ctl B1 ext k (X - {Sbag c}) (?c # fs)"
    "cmem B1 ext (X - {Sbag c}) = cmem B ext X" "\<forall>b. b \<noteq> Sbag c \<longrightarrow> payloads B1 b = payloads B b"
    "sp_new B1 = sp_new B"
    using ctl_set_sbag_0 [OF c e(1)] by blast
  have z: "unat (0 :: u32) < length (c # fs)" by simp
  have a1: "set_sbag 0 ((c # fs) ! unat (0 :: u32)) B = Some (?c, B1)" using B1(1) by simp
  obtain S1 where S1: "on_frame 0 (set_sbag 0) S = Some S1" "cs_at S1 (?c # fs) B1" "cs_only S S1"
    using on_frame_at [where act = "set_sbag 0", OF at z a1] by auto
  have p: "pbags_of ?c = pbags_of c" by simp
  obtain B2 where B2: "clear_pbag_array ?c B1 = Some (bare c, B2)"
    "ctl B2 ext k (X - {Sbag c} - set (pbags_of c)) (bare c # fs)"
    "cmem B2 ext (X - {Sbag c} - set (pbags_of c)) = cmem B1 ext (X - {Sbag c})"
    "\<forall>b. b \<notin> set (pbags_of c) \<longrightarrow> payloads B2 b = payloads B1 b" "sp_new B2 = sp_new B1"
    using ctl_clear_pbag_array [OF B1(2)] n e(2) B1(3) unfolding p bare_def by auto
  have z1: "unat (0 :: u32) < length (?c # fs)" by simp
  have a2: "clear_pbag_array ((?c # fs) ! unat (0 :: u32)) B1 = Some (bare c, B2)" using B2(1) by simp
  obtain S2 where S2: "on_frame 0 clear_pbag_array S1 = Some S2" "cs_at S2 (bare c # fs) B2" "cs_only S1 S2"
    using on_frame_at [where act = clear_pbag_array, OF S1(2) z1 a2] by auto
  have "cs_only S S2" using cs_only_trans [OF S1(3) S2(3)] .
  then show ?thesis using S1(1) S2(1,2) B2 B1(3-5) by auto
qed

end
