(* ===== verification/ControlFlow.thy ===== *)
theory ControlFlow
  imports ControlState ShadowOccupancy
begin

text \<open>
  The handlers of control-flow events on the frames and bags: what each does to the sets of referenced
  nodes.
\<close>

subsection \<open>Returning from a child\<close>

lemma cs_at_only: "cs_at S fs B \<Longrightarrow> cs_sp S = B" by (simp add: cs_at_def)

text \<open>What a returning child leaves: \<open>c\<close> is bare, and its sets are in the parent.\<close>

lemma merge_detach_at:
  assumes at: "cs_at S (c # p # fs) B" and ctl: "ctl B ext k {} (c # p # fs)"
    and okc: "frame_ok (cmem B ext {}) c" and p: "Sbag p \<noteq> 0" "Pbags p = Some ps" "unat r < length ps"
      "unat (num_Pbags p) = length ps"
    and ne: "sp_new B \<noteq> []" and k: "k + length (pbags_of c) + 1 < 2 ^ 64 - 1"
  shows "\<exists>S' B' b. merge_bag_from_returning_child True r S = Some S' \<and> cs_only S S' \<and> b \<noteq> 0 \<and>
    cs_at S' (bare c # p\<lparr>Pbags := Some (ps[unat r := b])\<rparr> # fs) B' \<and>
    ctl B' ext (k + length (pbags_of c) + 1) {} (bare c # p\<lparr>Pbags := Some (ps[unat r := b])\<rparr> # fs) \<and>
    cmem B' ext {} = cjoins b (pbags_of c) (cjoin b (Sbag c) (cmem B ext {})) \<and>
    cmem B ext {} b = cmem B ext {} (ps ! unat r) \<and> (b = ps ! unat r \<or> ps ! unat r = 0 \<and> b \<notin># owned (c # p # fs)) \<and>
    length (sp_new B) \<le> length (sp_new B') + 1 \<and>
    (\<forall>a. a \<noteq> b \<longrightarrow> a \<noteq> Sbag c \<longrightarrow> a \<notin> set (pbags_of c) \<longrightarrow> payloads B' a = payloads B a)"
proof -
  let ?qs = "pbags_of c" and ?m = "cmem B ext {}"
  have z: "unat (0 :: u32) = 0" "unat (1 :: u32) = 1" by simp_all
  have anc: "cs_ancestor 1 S = Some p" "cs_ancestor 0 S = Some c"
    using cs_at_ancestor [OF at, of 1] cs_at_ancestor [OF at, of 0] by simp_all
  have one: "unat (1 :: u32) < length (c # p # fs)" "p = (c # p # fs) ! unat (1 :: u32)" by simp_all
  obtain b S1 B1 where E: "ensure_pbag 1 (unat r) S = Some (b, S1)"
    "cs_at S1 (c # p\<lparr>Pbags := Some (ps[unat r := b])\<rparr> # fs) B1" "cs_only S S1"
    "ctl B1 ext k {} (c # p\<lparr>Pbags := Some (ps[unat r := b])\<rparr> # fs)"
    "b \<noteq> 0" "p_kind B1 b" "cmem B1 ext {} = ?m" "?m b = ?m (ps ! unat r)"
    "\<forall>a. a \<noteq> b \<longrightarrow> payloads B1 a = payloads B a" "length (sp_new B) \<le> length (sp_new B1) + 1"
    "b = ps ! unat r \<or> ps ! unat r = 0 \<and> b \<notin># owned (c # p # fs)"
    using ensure_pbag_at [OF at ctl one p(2-4) ne] by auto
  let ?p = "p\<lparr>Pbags := Some (ps[unat r := b])\<rparr>"
  let ?fs = "c # ?p # fs"
  have bo: "b \<in># owned (?p # fs)"
    using owned_ptr [of ?p "?p # fs" b] E(5) p(3) by (simp add: set_update_memI)
  then have bfs: "b \<in># owned ?fs" by simp
  have bc: "b \<notin># frame_ptrs c" using ctl_disjoint [OF E(4), of b] bo by blast
  have Sc: "Sbag c \<noteq> 0" "unat (num_Pbags c) = length ?qs" "\<not> Sbag_used c \<longrightarrow> ?m (Sbag c) = {}"
    using okc by (simp_all add: frame_ok_def)
  have bne: "b \<noteq> Sbag c" "b \<notin> set ?qs" using bc E(5) by (auto simp: frame_ptrs_mem)
  have So: "Sbag c \<in># owned ?fs" using owned_ptr [of c ?fs "Sbag c"] Sc(1) by simp
  have used0: "\<not> Sbag_used c \<longrightarrow> cmem B1 ext {} (Sbag c) = {}" using Sc(3) E(7) by simp
  have k1: "k < 2 ^ 64 - 1" using k by simp
  obtain S2 B2 X where C: "(if Sbag_used c then on_bags (PBag_combine b (Sbag c)) S1 else Some S1) = Some S2"
    "cs_at S2 ?fs B2" "cs_only S1 S2" "X \<subseteq> {Sbag c}" "ctl B2 ext (Suc k) X ?fs"
    "cmem B2 ext X = cjoin b (Sbag c) (cmem B1 ext {})" "payloads B2 = payloads B1" "sp_new B2 = sp_new B1"
    using combine_used_at [OF E(2,4) k1 bne(1) bfs E(6) So used0] by blast
  have dist: "distinct (filter (\<lambda>q. q \<noteq> 0) ?qs)" "Sbag c \<notin> set ?qs"
    using ctl_distinct [OF C(5), of c] Sc(1) by (auto split: if_splits)
  have bX: "b \<notin> X" using C(4) bne(1) by auto
  have pk2: "p_kind B2 b"
    using ctl_pbag_kind [OF C(5), of ?p b] p(3) by (simp add: set_update_memI)
  have qs: "\<forall>q \<in> set ?qs. q \<noteq> 0 \<longrightarrow> q \<noteq> b \<and> q \<notin> X \<and> q \<in># owned ?fs"
    using bne(2) C(4) dist(2) owned_ptr [of c ?fs] by auto
  have k2: "Suc k + length ?qs < 2 ^ 64 - 1" using k by simp
  obtain B3 where D: "combine_pbags b ?qs B2 = Some B3"
    "ctl B3 ext (Suc k + length ?qs) (X \<union> (set ?qs - {0})) ?fs"
    "cmem B3 ext (X \<union> (set ?qs - {0})) = cjoins b ?qs (cmem B2 ext X)" "payloads B3 = payloads B2"
    "sp_new B3 = sp_new B2"
    using ctl_combine_pbags [OF C(5) k2 E(5) bX bfs pk2 qs dist(1)] by blast
  obtain S3 where S3: "on_bags (combine_pbags b ?qs) S2 = Some S3" "cs_at S3 ?fs B3" "cs_only S2 S3"
    using on_bags_at [where act = "combine_pbags b ?qs", OF C(2) D(1)] by blast
  let ?X = "X \<union> (set ?qs - {0})"
  have e1: "cmem B3 ext ?X (Sbag c) = {}"
    using D(3) C(6) bne dist(2) by (auto simp: cjoins_def cjoin_def)
  have e2: "\<forall>q \<in> set ?qs. cmem B3 ext ?X q = {}"
    using D(3) bne(2) by (auto simp: cjoins_def)
  obtain S4 B4 where G: "(case on_frame 0 (set_sbag 0) S3 of None \<Rightarrow> None | Some S \<Rightarrow> on_frame 0 clear_pbag_array S) = Some S4"
    "cs_at S4 (bare c # ?p # fs) B4" "cs_only S3 S4"
    "ctl B4 ext (Suc k + length ?qs) (?X - {Sbag c} - set ?qs) (bare c # ?p # fs)"
    "cmem B4 ext (?X - {Sbag c} - set ?qs) = cmem B3 ext ?X"
    "\<forall>a. a \<noteq> Sbag c \<longrightarrow> a \<notin> set ?qs \<longrightarrow> payloads B4 a = payloads B3 a" "sp_new B4 = sp_new B3"
    using give_up_at [OF S3(2) D(2) Sc(2) e1 e2] by blast
  have X0: "?X - {Sbag c} - set ?qs = {}" using C(4) by auto
  have run: "merge_bag_from_returning_child True r S = Some S4"
    using anc p(1) Sc(1) E(1) C(1) S3(1) G(1) frame_ok_pbags [OF okc]
    by (simp add: merge_bag_from_returning_child_def split: option.splits)
  have "cs_only S S4" using cs_only_trans E(3) C(3) S3(3) G(3) by blast
  moreover have "cmem B4 ext {} = cjoins b ?qs (cjoin b (Sbag c) ?m)" using G(5) X0 D(3) C(6) E(7) by simp
  moreover have "ctl B4 ext (k + length ?qs + 1) {} (bare c # ?p # fs)" using G(4) X0 by simp
  moreover have "length (sp_new B) \<le> length (sp_new B4) + 1" using E(10) C(8) D(5) G(7) by simp
  moreover have "\<forall>a. a \<noteq> b \<longrightarrow> a \<noteq> Sbag c \<longrightarrow> a \<notin> set ?qs \<longrightarrow> payloads B4 a = payloads B a"
    using G(6) D(4) C(7) E(9) by simp
  ultimately show ?thesis using run G(2) E(5,8,11) by blast
qed

lemma combine_used_call_at:
  assumes at: "cs_at S (c # p # fs) B" and ctl: "ctl B ext k {} (c # p # fs)"
    and okc: "frame_ok (cmem B ext {}) c" and p: "Sbag p \<noteq> 0" and k: "k < 2 ^ 64 - 1"
  shows "\<exists>S' B' X p'. (if Sbag_used c
      then do {
        S \<leftarrow> on_bags (SBag_combine (Sbag p) (Sbag c)) S;
        q \<leftarrow> cs_ancestor 1 S;
        Some (cs_put_frame 1 (q\<lparr>Sbag_used := True\<rparr>) S)
      }
      else Some S) = Some S' \<and>
    p' = (if Sbag_used c then p\<lparr>Sbag_used := True\<rparr> else p) \<and>
    cs_at S' (c # p' # fs) B' \<and> cs_only S S' \<and> X \<subseteq> {Sbag c} \<and> ctl B' ext (Suc k) X (c # p' # fs) \<and>
    cmem B' ext X = cjoin (Sbag p) (Sbag c) (cmem B ext {}) \<and> payloads B' = payloads B \<and> sp_new B' = sp_new B"
proof (cases "Sbag_used c")
  case True
  let ?fs = "c # p # fs" and ?p = "p\<lparr>Sbag_used := True\<rparr>"
  have Sc: "Sbag c \<noteq> 0" using okc by (simp add: frame_ok_def)
  have po: "Sbag p \<in># owned (p # fs)" using owned_ptr [of p "p # fs" "Sbag p"] p by simp
  then have ne: "Sbag p \<noteq> Sbag c"
    using ctl_disjoint [OF ctl, of "Sbag p"] Sc frame_ptrs_mem [of "Sbag c" c] by auto
  have o: "Sbag p \<in># owned ?fs" "Sbag c \<in># owned ?fs" using po owned_ptr [of c ?fs "Sbag c"] Sc by simp_all
  obtain B' where B': "SBag_combine (Sbag p) (Sbag c) B = Some B'" "ctl B' ext (Suc k) {Sbag c} ?fs"
    "cmem B' ext {Sbag c} = cjoin (Sbag p) (Sbag c) (cmem B ext {})" "payloads B' = payloads B" "sp_new B' = sp_new B"
    using ctl_SBag_combine [OF ctl k ne _ _ o(1) ctl_sbag_kind(1) [OF ctl, of p] o(2)] by auto
  obtain S1 where S1: "on_bags (SBag_combine (Sbag p) (Sbag c)) S = Some S1" "cs_at S1 ?fs B'" "cs_only S S1"
    using on_bags_at [where act = "SBag_combine (Sbag p) (Sbag c)", OF at B'(1)] by blast
  have anc: "cs_ancestor 1 S1 = Some p" using cs_at_ancestor [OF S1(2), of 1] by simp
  let ?S = "cs_put_frame 1 ?p S1"
  have "cs_at ?S (?fs[unat (1 :: u32) := ?p]) B'" by (rule cs_at_put(2) [OF S1(2)]) simp
  then have at': "cs_at ?S (c # ?p # fs) B'" by simp
  have "ctl B' ext (Suc k) {Sbag c} (?p # c # fs)"
  proof (rule ctl_same_ptrs)
    show "ctl B' ext (Suc k) {Sbag c} (p # c # fs)"
      by (rule ctl_perm [THEN iffD1, OF _ B'(2)]) simp
  qed (auto simp: frame_ptrs_def kept_ptrs_def)
  then have "ctl B' ext (Suc k) {Sbag c} (c # ?p # fs)"
    by (rule ctl_perm [THEN iffD1, rotated]) simp
  moreover have "cs_only S ?S" using cs_only_trans [OF S1(3)] by simp
  ultimately show ?thesis using True S1(1) anc at' B'(3-5)
    by (intro exI [of _ ?S] exI [of _ B'] exI [of _ "{Sbag c}"] exI [of _ ?p]) simp
next
  case False
  then have "cmem B ext {} (Sbag c) = {}" using okc by (simp add: frame_ok_def)
  then have "cmem B ext {} = cjoin (Sbag p) (Sbag c) (cmem B ext {})" by (auto simp: cjoin_def fun_eq_iff)
  moreover have "ctl B ext (Suc k) {} (c # p # fs)" using ctl_mono [OF ctl] by simp
  ultimately show ?thesis using at False
    by (intro exI [of _ S] exI [of _ B] exI [of _ "{}"] exI [of _ p]) simp
qed

lemma payloads_0: "ctl B ext k X fs \<Longrightarrow> payloads B 0 = None"
  using ctl_bag_nonzero [of B ext k X fs 0] by (cases "sp_bags B 0") (simp_all add: payloads_def)

text \<open>A called child that has synced all its regions, as every Cilk function does before it returns.\<close>

lemma merge_call_synced_at:
  assumes at: "cs_at S (c # p # fs) B" and ctl: "ctl B ext k {} (c # p # fs)"
    and okc: "frame_ok (cmem B ext {}) c" and p: "Sbag p \<noteq> 0" and k: "k < 2 ^ 64 - 1"
    and z: "\<forall>q \<in> set (pbags_of c). q = 0"
  shows "\<exists>S' B' p'. merge_bag_from_returning_child False r S = Some S' \<and> cs_only S S' \<and>
    p' = (if Sbag_used c then p\<lparr>Sbag_used := True\<rparr> else p) \<and>
    cs_at S' (bare c # p' # fs) B' \<and> ctl B' ext (k + 1) {} (bare c # p' # fs) \<and>
    cmem B' ext {} = cjoin (Sbag p) (Sbag c) (cmem B ext {}) \<and> sp_new B' = sp_new B \<and>
    (\<forall>a. a \<noteq> Sbag c \<longrightarrow> payloads B' a = payloads B a)"
proof -
  let ?qs = "pbags_of c" and ?m = "cmem B ext {}"
  have anc: "cs_ancestor 1 S = Some p" "cs_ancestor 0 S = Some c"
    using cs_at_ancestor [OF at, of 1] cs_at_ancestor [OF at, of 0] by simp_all
  have Sc: "Sbag c \<noteq> 0" "unat (num_Pbags c) = length ?qs" using okc by (simp_all add: frame_ok_def)
  obtain S1 B1 X p' where C: "(if Sbag_used c
      then do {
        S \<leftarrow> on_bags (SBag_combine (Sbag p) (Sbag c)) S;
        q \<leftarrow> cs_ancestor 1 S;
        Some (cs_put_frame 1 (q\<lparr>Sbag_used := True\<rparr>) S)
      }
      else Some S) = Some S1"
    "p' = (if Sbag_used c then p\<lparr>Sbag_used := True\<rparr> else p)" "cs_at S1 (c # p' # fs) B1" "cs_only S S1"
    "X \<subseteq> {Sbag c}" "ctl B1 ext (Suc k) X (c # p' # fs)" "cmem B1 ext X = cjoin (Sbag p) (Sbag c) ?m"
    "payloads B1 = payloads B" "sp_new B1 = sp_new B"
    using combine_used_call_at [OF at ctl okc p k] by blast
  have "Sbag c \<notin># owned (p # fs)" by (rule ctl_disjoint [OF ctl]) (simp add: frame_ptrs_mem Sc)
  moreover have "Sbag p \<in># owned (p # fs)" using owned_ptr [of p "p # fs" "Sbag p"] p by simp
  ultimately have ne: "Sbag p \<noteq> Sbag c" by metis
  have e1: "cmem B1 ext X (Sbag c) = {}" using C(7) ne by (simp add: cjoin_def)
  have e2: "\<forall>q \<in> set ?qs. cmem B1 ext X q = {}" using z cmem_0 [OF C(6)] by auto
  obtain S4 B4 where G: "(case on_frame 0 (set_sbag 0) S1 of None \<Rightarrow> None | Some S \<Rightarrow> on_frame 0 clear_pbag_array S) = Some S4"
    "cs_at S4 (bare c # p' # fs) B4" "cs_only S1 S4"
    "ctl B4 ext (Suc k) (X - {Sbag c} - set ?qs) (bare c # p' # fs)"
    "cmem B4 ext (X - {Sbag c} - set ?qs) = cmem B1 ext X"
    "\<forall>a. a \<noteq> Sbag c \<longrightarrow> a \<notin> set ?qs \<longrightarrow> payloads B4 a = payloads B1 a" "sp_new B4 = sp_new B1"
    using give_up_at [OF C(3,6) Sc(2) e1 e2] by blast
  have X0: "X - {Sbag c} - set ?qs = {}" using C(5) by auto
  have nz: "\<not> list_ex (\<lambda>q. q \<noteq> 0) ?qs" using z by (simp add: list_ex_iff)
  have run: "merge_bag_from_returning_child False r S = Some S4"
    using anc p Sc(1) C(1) G(1) frame_ok_pbags [OF okc] nz
    by (simp add: merge_bag_from_returning_child_def split: option.splits)
  have pay: "payloads B4 a = payloads B a" if "a \<noteq> Sbag c" for a
  proof (cases "a = 0")
    case True
    have "payloads B4 0 = None" "payloads B 0 = None"
      by (rule payloads_0 [OF G(4)], rule payloads_0 [OF ctl])
    then show ?thesis using True by simp
  next
    case False
    then show ?thesis using G(6) C(8) z that by auto
  qed
  have "cs_only S S4" using cs_only_trans C(4) G(3) by blast
  then show ?thesis using run G(2,4,5,7) X0 C(2,7,9) pay by auto
qed

text \<open>Leaving the frame.\<close>

lemma exit_at:
  assumes at: "cs_at S (bare c # fs) B" and ctl: "ctl B ext k X (bare c # fs)" and ne: "fs \<noteq> []"
    and c: "Iterbag c = 0" "reducer_views c = 0"
  shows "\<exists>S'. exit_function S = Some S' \<and> cs_at S' fs B \<and> cs_only S S' \<and> ctl B ext k X fs"
proof -
  let ?c = "(bare c)\<lparr>Iterbag_used := False, InContin := 0, ParentContin := 0\<rparr>"
  have r: "frame_reset ((bare c # fs) ! unat (0 :: u32)) B = Some (?c, B)"
    using c by (simp add: frame_reset_def bare_def set_sbag_def delete_if_def clear_pbag_array_def
        set_iterbag_def set_parent_continuation_def)
  have z: "unat (0 :: u32) < length (bare c # fs)" by simp
  obtain S1 where S1: "on_frame 0 frame_reset S = Some S1" "cs_at S1 (?c # fs) B" "cs_only S S1"
    using on_frame_at [where act = frame_reset, OF at z r] by auto
  let ?S = "S1\<lparr>cs_frame_stack := Stack_pop FrameData_default (cs_frame_stack S1)\<rparr>"
  have "clean_frame ?c" "clean_frame FrameData_default"
    using c by (simp_all add: clean_frame_def bare_def FrameData_default_def)
  then have "cs_at ?S fs B"
    using S1(2) ne stack_rel_pop [of clean_frame "cs_frame_stack S1" ?c fs FrameData_default]
    by (simp add: cs_at_def)
  moreover have "cs_only S ?S" using S1(3) cs_only_trans [of S S1 ?S] by (simp add: cs_only_def)
  moreover have "ctl B ext k X fs"
  proof -
    have "frame_ptrs (bare c) = {#}" using c by (simp add: frame_ptrs_def bare_def)
    then show ?thesis using ctl by (simp add: ctl_def)
  qed
  ultimately show ?thesis using S1(1) by (simp add: exit_function_def)
qed

lemma leave_size:
  assumes at: "cs_at S (c # p # fs) B"
  shows "Stack_size (cs_frame_stack S) > 1"
proof -
  let ?h = "stk_head (cs_frame_stack S)"
  have r: "stack_rel clean_frame (cs_frame_stack S) (c # p # fs)" using at by (simp add: cs_at_def)
  have "Suc (unat ?h) = length (c # p # fs)" using stack_rel_length [OF r] by simp
  moreover have "unat ?h < unat (stk_capacity (cs_frame_stack S))" using r by (auto simp: stack_rel_def Stack_wf_def)
  ultimately show ?thesis using unat_Suc_word [of ?h] by (simp add: Stack_size_def word_less_nat_alt)
qed

text \<open>The three ways to leave a frame.\<close>

lemma do_leave_detach_at:
  assumes at: "cs_at S (c # p # fs) B" and ctl: "ctl B ext k {} (c # p # fs)"
    and okc: "frame_ok (cmem B ext {}) c" and d: "isDetacher (frame_data c)" and i: "Iterbag c = 0"
    and p: "Sbag p \<noteq> 0" "Pbags p = Some ps" "unat r < length ps" "unat (num_Pbags p) = length ps"
    and ne: "sp_new B \<noteq> []" and k: "k + length (pbags_of c) + 1 < 2 ^ 64 - 1"
  shows "\<exists>S' B' b. do_leave r S = Some S' \<and> cs_only S S' \<and> b \<noteq> 0 \<and>
    cs_at S' (p\<lparr>Pbags := Some (ps[unat r := b])\<rparr> # fs) B' \<and>
    ctl B' ext (k + length (pbags_of c) + 1) {} (p\<lparr>Pbags := Some (ps[unat r := b])\<rparr> # fs) \<and>
    cmem B' ext {} = cjoins b (pbags_of c) (cjoin b (Sbag c) (cmem B ext {})) \<and>
    cmem B ext {} b = cmem B ext {} (ps ! unat r) \<and>
    (b = ps ! unat r \<or> ps ! unat r = 0 \<and> b \<notin># owned (c # p # fs)) \<and>
    length (sp_new B) \<le> length (sp_new B') + 1 \<and>
    (\<forall>a. a \<noteq> b \<longrightarrow> a \<noteq> Sbag c \<longrightarrow> a \<notin> set (pbags_of c) \<longrightarrow> payloads B' a = payloads B a)"
proof -
  have anc: "cs_ancestor 0 S = Some c" using cs_at_ancestor [OF at, of 0] by simp
  obtain S1 B' b where M: "merge_bag_from_returning_child True r S = Some S1" "cs_only S S1" "b \<noteq> 0"
    "cs_at S1 (bare c # p\<lparr>Pbags := Some (ps[unat r := b])\<rparr> # fs) B'"
    "ctl B' ext (k + length (pbags_of c) + 1) {} (bare c # p\<lparr>Pbags := Some (ps[unat r := b])\<rparr> # fs)"
    "cmem B' ext {} = cjoins b (pbags_of c) (cjoin b (Sbag c) (cmem B ext {}))"
    "cmem B ext {} b = cmem B ext {} (ps ! unat r)"
    "b = ps ! unat r \<or> ps ! unat r = 0 \<and> b \<notin># owned (c # p # fs)"
    "length (sp_new B) \<le> length (sp_new B') + 1"
    "\<forall>a. a \<noteq> b \<longrightarrow> a \<noteq> Sbag c \<longrightarrow> a \<notin> set (pbags_of c) \<longrightarrow> payloads B' a = payloads B a"
    using merge_detach_at [OF at ctl okc p ne k] by blast
  obtain S' where S': "exit_function S1 = Some S'" "cs_at S' (p\<lparr>Pbags := Some (ps[unat r := b])\<rparr> # fs) B'"
    "cs_only S1 S'" "ctl B' ext (k + length (pbags_of c) + 1) {} (p\<lparr>Pbags := Some (ps[unat r := b])\<rparr> # fs)"
    using exit_at [OF M(4,5) _ i] okc by (auto simp: frame_ok_def)
  have "do_leave r S = Some S'"
    using anc d leave_size [OF at] M(1) S'(1) by (simp add: do_leave_def return_from_detach_def)
  moreover have "cs_only S S'" using cs_only_trans [OF M(2) S'(3)] .
  ultimately show ?thesis using S'(2,4) M(3,6-10) by blast
qed

lemma do_leave_call_at:
  assumes at: "cs_at S (c # p # fs) B" and ctl: "ctl B ext k {} (c # p # fs)"
    and okc: "frame_ok (cmem B ext {}) c" and d: "\<not> isDetacher (frame_data c)" and i: "Iterbag c = 0"
    and p: "Sbag p \<noteq> 0" and k: "k < 2 ^ 64 - 1" and z: "\<forall>q \<in> set (pbags_of c). q = 0"
  shows "\<exists>S' B' p'. do_leave r S = Some S' \<and> cs_only S S' \<and>
    p' = (if Sbag_used c then p\<lparr>Sbag_used := True\<rparr> else p) \<and>
    cs_at S' (p' # fs) B' \<and> ctl B' ext (k + 1) {} (p' # fs) \<and>
    cmem B' ext {} = cjoin (Sbag p) (Sbag c) (cmem B ext {}) \<and> sp_new B' = sp_new B \<and>
    (\<forall>a. a \<noteq> Sbag c \<longrightarrow> payloads B' a = payloads B a)"
proof -
  have anc: "cs_ancestor 0 S = Some c" using cs_at_ancestor [OF at, of 0] by simp
  obtain S1 B' p' where M: "merge_bag_from_returning_child False r S = Some S1" "cs_only S S1"
    "p' = (if Sbag_used c then p\<lparr>Sbag_used := True\<rparr> else p)"
    "cs_at S1 (bare c # p' # fs) B'" "ctl B' ext (k + 1) {} (bare c # p' # fs)"
    "cmem B' ext {} = cjoin (Sbag p) (Sbag c) (cmem B ext {})" "sp_new B' = sp_new B"
    "\<forall>a. a \<noteq> Sbag c \<longrightarrow> payloads B' a = payloads B a"
    using merge_call_synced_at [OF at ctl okc p k z] by blast
  obtain S' where S': "exit_function S1 = Some S'" "cs_at S' (p' # fs) B'" "cs_only S1 S'"
    "ctl B' ext (k + 1) {} (p' # fs)"
    using exit_at [OF M(4,5) _ i] okc by (auto simp: frame_ok_def)
  have "do_leave r S = Some S'"
    using anc d leave_size [OF at] M(1) S'(1) by (simp add: do_leave_def leave_cilk_function_def)
  moreover have "cs_only S S'" using cs_only_trans [OF M(2) S'(3)] .
  ultimately show ?thesis using S'(2,4) M(3,6-8) by blast
qed

text \<open>A new frame.\<close>

lemma start_new_function_at:
  assumes at: "cs_at S fs B" and ctl: "ctl B ext k X fs" and room: "Stack_room (cs_frame_stack S)"
    and ne: "2 \<le> length (sp_new B)"
  shows "\<exists>S' B' c b. start_new_function n S = Some S' \<and> cs_only (S\<lparr>cs_frame_id := cs_frame_id S + 1\<rparr>) S' \<and>
    cs_at S' (c # fs) B' \<and> ctl B' ext k X (c # fs) \<and> cmem B' ext X = cmem B ext X \<and>
    Sbag c = b \<and> b \<noteq> 0 \<and> cmem B ext X b = {} \<and> pbags_of c = replicate (unat n) 0 \<and>
    unat (num_Pbags c) = unat n \<and> \<not> Sbag_used c \<and> \<not> Iterbag_used c \<and> Iterbag c = 0 \<and> InContin c = 0 \<and>
    reducer_views c = 0 \<and> (unat n = 0 \<longrightarrow> Pbags c = None) \<and> sp_new B' = drop 2 (sp_new B) \<and>
    (\<forall>a. a \<noteq> b \<longrightarrow> payloads B' a = payloads B a) \<and> b \<notin># owned fs"
proof -
  let ?S1 = "S\<lparr>cs_frame_id := cs_frame_id S + 1,
      cs_frame_stack := Stack_push FrameData_default (cs_frame_stack S)\<rparr>"
  have "clean_frame FrameData_default" by (simp add: clean_frame_def FrameData_default_def)
  then obtain c0 where c0: "clean_frame c0" "stack_rel clean_frame (cs_frame_stack ?S1) (c0 # fs)"
    using at room stack_rel_push [of clean_frame "cs_frame_stack S" fs FrameData_default]
    by (auto simp: cs_at_def)
  have at1: "cs_at ?S1 (c0 # fs) B" using at c0(2) by (simp add: cs_at_def)
  have c0f: "Sbag c0 = 0" "Iterbag c0 = 0" "Pbags c0 = None" "num_Pbags c0 = 0" "InContin c0 = 0"
    "reducer_views c0 = 0" "\<not> Iterbag_used c0" "pbags_of c0 = []"
    using c0(1) by (simp_all add: clean_frame_def pbags_of_def)
  have ctl0: "ctl B ext k X (c0 # fs)"
    using ctl kinds_0 [OF ctl] c0f by (simp add: ctl_def kinds_ok_def frame_ptrs_def)
  obtain q fs' where fs: "fs = q # fs'" using cs_at_length [OF at] by (cases fs) auto
  have anc1: "cs_ancestor 1 ?S1 = Some q" "cs_ancestor 0 ?S1 = Some c0"
    using cs_at_ancestor [OF at1, of 1] cs_at_ancestor [OF at1, of 0] fs by simp_all
  have sp1: "cs_sp ?S1 = B" using at by (simp add: cs_at_def)
  have e0: "cmem B ext X (Sbag c0) = {}" using c0f cmem_0 [OF ctl] by simp
  obtain b B1 B2 where N: "createNewSBag (cs_call_stack S) B = Some (b, B1)"
    "set_sbag b c0 B1 = Some (c0\<lparr>Sbag := b, Sbag_used := False\<rparr>, B2)" "b \<noteq> 0"
    "ctl B2 ext k (X - {Sbag c0}) (c0\<lparr>Sbag := b, Sbag_used := False\<rparr> # fs)"
    "cmem B2 ext (X - {Sbag c0}) = cmem B ext X" "cmem B ext X b = {}"
    "\<forall>c. c \<noteq> b \<longrightarrow> c \<noteq> Sbag c0 \<longrightarrow> payloads B2 c = payloads B c" "sp_new B2 = drop 2 (sp_new B)"
    using ctl_new_sbag [OF ctl0 ne e0] by blast
  have X0: "X - {Sbag c0} = X"
    using c0f sp_tidyD(3) [OF ctlD(1) [OF ctl]] ctl_bag_nonzero [OF ctl, of 0] by auto
  let ?c1 = "c0\<lparr>Sbag := b, Sbag_used := False\<rparr>"
  have at1': "cs_at (?S1\<lparr>cs_sp := B1\<rparr>) (c0 # fs) B1" using at1 by (simp add: cs_at_def)
  have i1: "init_new_function b ((c0 # fs) ! unat (0 :: u32)) B1 = Some (?c1, B2)"
    using N(2) c0f by (simp add: init_new_function_def)
  have z: "unat (0 :: u32) < length (g # fs)" for g by simp
  obtain S2 where S2: "on_frame 0 (init_new_function b) (?S1\<lparr>cs_sp := B1\<rparr>) = Some S2"
    "cs_at S2 (?c1 # fs) B2" "cs_only (?S1\<lparr>cs_sp := B1\<rparr>) S2"
    using on_frame_at [where act = "init_new_function b", OF at1' z i1] by auto
  have anc2: "cs_ancestor 0 S2 = Some ?c1" using cs_at_ancestor [OF S2(2), of 0] by simp
  define pc where "pc = (if in_continuation q then 1 else if ParentContin q > 0 then ParentContin q + 1 else 0)"
  let ?c2 = "?c1\<lparr>ParentContin := pc\<rparr>"
  let ?S3 = "cs_put_frame 0 ?c2 S2"
  have pce: "(if in_continuation q then set_parent_continuation 1 ?c1
      else if ParentContin q > 0 then set_parent_continuation (ParentContin q + 1) ?c1
      else set_parent_continuation 0 ?c1) = ?c2"
    by (simp add: pc_def set_parent_continuation_def)
  have at3: "cs_at ?S3 (?c2 # fs) B2" using cs_at_put(2) [OF S2(2) z, of ?c2] by simp
  have okc: "\<not> (in_continuation ?c2 \<or> reducer_views ?c2 \<noteq> 0)" using c0f by (simp add: in_continuation_def)
  have ctl2: "ctl B2 ext k X (?c2 # fs)"
    by (rule ctl_same_ptrs [OF N(4) [unfolded X0]]) (auto simp: frame_ptrs_def kept_ptrs_def)
  have only: "cs_only (S\<lparr>cs_frame_id := cs_frame_id S + 1\<rparr>) ?S3"
  proof (rule cs_only_trans)
    show "cs_only (S\<lparr>cs_frame_id := cs_frame_id S + 1\<rparr>) (?S1\<lparr>cs_sp := B1\<rparr>)" by (simp add: cs_only_def)
    show "cs_only (?S1\<lparr>cs_sp := B1\<rparr>) ?S3" using cs_only_trans [OF S2(3)] by simp
  qed
  have run: "start_new_function n S = (if n > 0 then on_frame 0 (make_pbag_array n) ?S3 else Some ?S3)"
    using anc1 c0f sp1 N(1) S2(1) anc2 okc unfolding pce [symmetric]
    by (simp add: start_new_function_def Let_def)
  have pay: "\<forall>a. a \<noteq> b \<longrightarrow> payloads B2 a = payloads B a"
  proof (intro allI impI)
    fix a assume a: "a \<noteq> b"
    show "payloads B2 a = payloads B a"
      using a N(7) c0f(1) payloads_0 [OF N(4)] payloads_0 [OF ctl] by (cases "a = 0") auto
  qed
  have bo: "b \<notin># owned fs"
    using ctl_disjoint [OF ctl2, of b] N(3) by (simp add: frame_ptrs_mem)
  show ?thesis
  proof (cases "n > 0")
    case True
    let ?c3 = "?c2\<lparr>Pbags := Some (replicate (unat n) 0), num_Pbags := n\<rparr>"
    have m: "make_pbag_array n ((?c2 # fs) ! unat (0 :: u32)) B2 = Some (?c3, B2)"
      using c0f by (simp add: make_pbag_array_def clear_pbag_array_def)
    obtain S4 where S4: "on_frame 0 (make_pbag_array n) ?S3 = Some S4" "cs_at S4 (?c3 # fs) B2" "cs_only ?S3 S4"
      using on_frame_at [where act = "make_pbag_array n", OF at3 z m] by auto
    have "frame_ptrs ?c3 = frame_ptrs ?c2" using c0f by (simp add: frame_ptrs_def pbags_of_def)
    then have "ctl B2 ext k X (?c3 # fs)"
      by (rule ctl_same_ptrs [OF ctl2]) (auto simp: kept_ptrs_def pbags_of_def)
    moreover have "unat n \<noteq> 0" using True by (simp add: word_gt_0 unsigned_eq_0_iff)
    ultimately show ?thesis
      using run True S4(1,2) cs_only_trans [OF only S4(3)] N(3,5,6,8) X0 c0f pay bo
      by (intro exI [of _ S4] exI [of _ B2] exI [of _ ?c3] exI [of _ b]) (simp add: pbags_of_def)
  next
    case False
    then have "n = 0" by (simp add: word_gt_0)
    then show ?thesis
      using run at3 ctl2 only N(3,5,6,8) X0 c0f pay bo
      by (intro exI [of _ ?S3] exI [of _ B2] exI [of _ ?c2] exI [of _ b]) (simp add: pbags_of_def)
  qed
qed

end
