(* ===== verification/SPSpec.thy ===== *)
theory SPSpec
  imports Main
begin

text \<open>
  The abstract SP-bags machine: a stack of frames, the head first, each with the set of nodes that are in
  its S-bag, in the P-bag of each sync region (none while the region has no P-bag) and in the iteration
  bag of a loop.  Every control-flow event moves whole sets.
\<close>

record 'x aframe =
  a_S :: "'x set"
  a_P :: "'x set option list"
  a_I :: "'x set"
  a_ver :: nat
  a_loop :: bool
  a_detach :: bool

definition pset :: "'x set option \<Rightarrow> 'x set" where
  "pset P = (case P of None \<Rightarrow> {} | Some X \<Rightarrow> X)"

lemma pset_simps [simp]: "pset None = {}" "pset (Some X) = X"
  by (simp_all add: pset_def)

definition VERSIONS :: nat where "VERSIONS = 65536"

definition a_new :: "nat \<Rightarrow> bool \<Rightarrow> 'x aframe" where
  "a_new n d = \<lparr>a_S = {}, a_P = replicate n None, a_I = {}, a_ver = 0, a_loop = False, a_detach = d\<rparr>"

text \<open>Nodes \<open>X\<close> join the P-bag of region \<open>r\<close>.\<close>

definition a_join :: "nat \<Rightarrow> 'x set \<Rightarrow> 'x aframe \<Rightarrow> 'x aframe" where
  "a_join r X f = f\<lparr>a_P := (a_P f)[r := Some (pset (a_P f ! r) \<union> X)]\<rparr>"

definition a_PP :: "'x aframe \<Rightarrow> 'x set" where
  "a_PP f = (\<Union>P \<in> set (a_P f). pset P)"

definition a_enter :: "nat \<Rightarrow> bool \<Rightarrow> 'x aframe list \<Rightarrow> 'x aframe list" where
  "a_enter n d fs = a_new n d # fs"

definition a_loop_enter :: "nat \<Rightarrow> 'x aframe list \<Rightarrow> 'x aframe list" where
  "a_loop_enter n fs = (a_new n True)\<lparr>a_loop := True\<rparr> # fs"

fun a_leave :: "nat \<Rightarrow> 'x aframe list \<Rightarrow> 'x aframe list" where
  "a_leave r (c # p # fs) =
     (if a_detach c then a_join r (a_S c \<union> a_PP c) p # fs else p\<lparr>a_S := a_S p \<union> a_S c\<rparr> # fs)"
| "a_leave r fs = fs"

fun a_sync :: "nat \<Rightarrow> 'x aframe list \<Rightarrow> 'x aframe list" where
  "a_sync r (f # fs) = f\<lparr>a_S := a_S f \<union> pset (a_P f ! r), a_P := (a_P f)[r := None]\<rparr> # fs"
| "a_sync r [] = []"

fun a_iter_end :: "'x aframe list \<Rightarrow> 'x aframe list" where
  "a_iter_end (f # fs) =
     (let wrap = (Suc (a_ver f) = VERSIONS)
      in (a_join 0 (a_S f \<union> (if wrap then a_I f else {})) f)
           \<lparr>a_S := {}, a_I := (if wrap then {} else a_I f), a_ver := (if wrap then 0 else Suc (a_ver f))\<rparr> # fs)"
| "a_iter_end [] = []"

fun a_loop_end :: "nat \<Rightarrow> 'x aframe list \<Rightarrow> 'x aframe list" where
  "a_loop_end r (f # fs) = a_leave r ((a_join 0 (a_I f) f)\<lparr>a_I := {}\<rparr> # fs)"
| "a_loop_end r [] = []"

text \<open>Recording an access: the node goes to the S-bag of the frame, or to the iteration bag of a loop.\<close>

fun a_access :: "'x \<Rightarrow> 'x aframe list \<Rightarrow> 'x aframe list" where
  "a_access x (f # fs) =
     (if a_loop f then f\<lparr>a_I := insert x (a_I f)\<rparr> else f\<lparr>a_S := insert x (a_S f)\<rparr>) # fs"
| "a_access x [] = []"

text \<open>The shadow memory drops its last reference to a node.\<close>

definition a_drop_frame :: "'x \<Rightarrow> 'x aframe \<Rightarrow> 'x aframe" where
  "a_drop_frame x f = f\<lparr>a_S := a_S f - {x}, a_P := map (map_option (\<lambda>X. X - {x})) (a_P f), a_I := a_I f - {x}\<rparr>"

definition a_drop :: "'x \<Rightarrow> 'x aframe list \<Rightarrow> 'x aframe list" where
  "a_drop x fs = map (a_drop_frame x) fs"

text \<open>The query: is node \<open>x\<close>, recorded with version \<open>v\<close>, in parallel with the current strand?\<close>

definition a_par :: "'x \<Rightarrow> nat \<Rightarrow> 'x aframe list \<Rightarrow> bool" where
  "a_par x v fs \<longleftrightarrow>
     (\<exists>f \<in> set fs. x \<in> a_PP f) \<or>
     (case fs of [] \<Rightarrow> False | f # _ \<Rightarrow> a_loop f \<and> x \<in> a_I f \<and> v < a_ver f)"

end
