(* ===== verification/ToolRefine.thy ===== *)
theory ToolRefine
  imports ControlFlow SPSpec
begin

text \<open>The sets and the version that a frame stands for.\<close>

definition ver_of :: "'d sp_state \<Rightarrow> u64 \<Rightarrow> nat" where
  "ver_of B b = (case payloads B b of None \<Rightarrow> 0 | Some p \<Rightarrow> unat (ucast p :: version_t))"

definition abs_frame :: "(u64 \<Rightarrow> u64 set) \<Rightarrow> (u64 \<Rightarrow> nat) \<Rightarrow> FrameData_t \<Rightarrow> u64 aframe" where
  "abs_frame m v f =
     \<lparr>a_S = m (Sbag f), a_P = map (\<lambda>p. if p = 0 then None else Some (m p)) (pbags_of f),
      a_I = m (Iterbag f), a_ver = v (Iterbag f), a_loop = is_loop_frame f, a_detach = isDetacher (frame_data f)\<rparr>"

definition occ_ok :: "Shadow_t \<Rightarrow> bool" where
  "occ_ok sh \<longleftrightarrow> occ_inv (sm_Reads sh) \<and> occ_inv (sm_Writes sh)"

definition tool_ok :: "'m cilksan \<Rightarrow> (u64 \<Rightarrow> nat) \<Rightarrow> nat \<Rightarrow> FrameData_t list \<Rightarrow> bool" where
  "tool_ok S ext k fs \<longleftrightarrow>
     cs_at S fs (cs_sp S) \<and> ctl (cs_sp S) ext k {} fs \<and> occ_ok (cs_shadow S) \<and>
     (\<forall>f \<in> set fs. frame_ok (cmem (cs_sp S) ext {}) f \<and> loop_ok f)"

definition tool_abs :: "'m cilksan \<Rightarrow> (u64 \<Rightarrow> nat) \<Rightarrow> FrameData_t list \<Rightarrow> u64 aframe list" where
  "tool_abs S ext fs = map (abs_frame (cmem (cs_sp S) ext {}) (ver_of (cs_sp S))) fs"

lemma tool_okD:
  assumes "tool_ok S ext k fs"
  shows "cs_at S fs (cs_sp S)" "ctl (cs_sp S) ext k {} fs" "occ_ok (cs_shadow S)"
    "f \<in> set fs \<Longrightarrow> frame_ok (cmem (cs_sp S) ext {}) f" "f \<in> set fs \<Longrightarrow> loop_ok f"
  using assms by (auto simp: tool_ok_def)

text \<open>The same, but for the loop conditions of the topmost frame, which is about to leave.\<close>

definition tool_ok_but :: "'m cilksan \<Rightarrow> (u64 \<Rightarrow> nat) \<Rightarrow> nat \<Rightarrow> FrameData_t \<Rightarrow> FrameData_t list \<Rightarrow> bool" where
  "tool_ok_but S ext k c fs \<longleftrightarrow>
     cs_at S (c # fs) (cs_sp S) \<and> ctl (cs_sp S) ext k {} (c # fs) \<and> occ_ok (cs_shadow S) \<and>
     (\<forall>f \<in> set (c # fs). frame_ok (cmem (cs_sp S) ext {}) f) \<and> (\<forall>f \<in> set fs. loop_ok f)"

lemma tool_ok_butD:
  assumes "tool_ok_but S ext k c fs"
  shows "cs_at S (c # fs) (cs_sp S)" "ctl (cs_sp S) ext k {} (c # fs)" "occ_ok (cs_shadow S)"
    "f \<in> set (c # fs) \<Longrightarrow> frame_ok (cmem (cs_sp S) ext {}) f" "f \<in> set fs \<Longrightarrow> loop_ok f"
  using assms by (auto simp: tool_ok_but_def)

lemma tool_ok_but: "tool_ok S ext k (c # fs) \<longleftrightarrow> tool_ok_but S ext k c fs \<and> loop_ok c"
  by (auto simp: tool_ok_def tool_ok_but_def)

text \<open>A frame depends only on the sets and versions of its own bags.\<close>

lemma abs_frame_cong:
  assumes "\<And>b. b \<noteq> 0 \<Longrightarrow> b \<in># frame_ptrs f \<Longrightarrow> m b = m' b \<and> v b = v' b" "m 0 = m' 0" "v 0 = v' 0"
  shows "abs_frame m v f = abs_frame m' v' f" "frame_ok m f = frame_ok m' f"
proof -
  have e: "m b = m' b \<and> v b = v' b" if b: "b = Sbag f \<or> b = Iterbag f \<or> b \<in> set (pbags_of f)" for b
  proof (cases "b = 0")
    case False
    then have "b \<in># frame_ptrs f" unfolding frame_ptrs_mem using b by blast
    then show ?thesis using assms(1) False by blast
  qed (use assms(2,3) in simp)
  have s: "m (Sbag f) = m' (Sbag f)" and i: "m (Iterbag f) = m' (Iterbag f)" "v (Iterbag f) = v' (Iterbag f)"
    using e [of "Sbag f"] e [of "Iterbag f"] by simp_all
  have p: "map (\<lambda>p. if p = 0 then None else Some (m p)) (pbags_of f) =
      map (\<lambda>p. if p = 0 then None else Some (m' p)) (pbags_of f)"
    using e by (intro map_cong refl) simp
  show "abs_frame m v f = abs_frame m' v' f" unfolding abs_frame_def p s i ..
  show "frame_ok m f = frame_ok m' f" unfolding frame_ok_def s i ..
qed

lemma abs_frames_cong:
  assumes "\<And>b. b \<noteq> 0 \<Longrightarrow> b \<in># owned fs \<Longrightarrow> m b = m' b \<and> v b = v' b" "m 0 = m' 0" "v 0 = v' 0"
  shows "map (abs_frame m v) fs = map (abs_frame m' v') fs" "f \<in> set fs \<Longrightarrow> frame_ok m f = frame_ok m' f"
proof -
  have e: "m b = m' b \<and> v b = v' b" if "f \<in> set fs" "b \<noteq> 0" "b \<in># frame_ptrs f" for f b
    using assms(1) that owned_mem by blast
  note c = abs_frame_cong [of _ m m' v v', OF e assms(2,3)]
  show "map (abs_frame m v) fs = map (abs_frame m' v') fs" by (rule map_cong [OF refl c(1)])
  show "f \<in> set fs \<Longrightarrow> frame_ok m f = frame_ok m' f" by (rule c(2))
qed

lemma ver_of_0: "ctl B ext k X fs \<Longrightarrow> ver_of B 0 = 0"
  using payloads_0 [of B ext k X fs] by (simp add: ver_of_def)

text \<open>The end of a strand changes the statistics and the occupancy bits only.\<close>

lemma end_strand_at:
  assumes "occ_ok (cs_shadow S)"
  shows "\<exists>S'. end_strand S = Some S' \<and> cs_frame_stack S' = cs_frame_stack S \<and> cs_sp S' = cs_sp S \<and>
    occ_ok (cs_shadow S') \<and> cs_start_new_loop S' = cs_start_new_loop S \<and> cs_call_stack S' = cs_call_stack S"
proof -
  obtain R where R: "Dict_clearOccupied (sm_Reads (cs_shadow S)) = Some R" "occ_inv R"
    using Dict_clearOccupied_ok assms unfolding occ_ok_def by blast
  obtain W where W: "Dict_clearOccupied (sm_Writes (cs_shadow S)) = Some W" "occ_inv W"
    using Dict_clearOccupied_ok assms unfolding occ_ok_def by blast
  show ?thesis using R W
    by (simp add: end_strand_def on_shadow_def Shadow_clearOccupied_def occ_ok_def)
qed

lemma reduce_none_at:
  assumes "cs_at S (f # fs) B" "reducer_views f = 0"
  shows "reduce_local_views U S = Some S"
  using cs_at_ancestor [OF assms(1), of 0] assms(2) by (simp add: reduce_local_views_def)


subsection \<open>How frames change\<close>

text \<open>A set of nodes joins a P-bag, which may be a new one.\<close>

lemma abs_join:
  assumes p: "Pbags p = Some ps" "r < length ps" and b: "b \<noteq> 0" "m' b = m (ps ! r) \<union> Y" and z: "m 0 = {}"
    and s: "m' (Sbag p) = m (Sbag p)" "m' (Iterbag p) = m (Iterbag p)" "v' (Iterbag p) = v (Iterbag p)"
    and q: "\<And>j. j < length ps \<Longrightarrow> j \<noteq> r \<Longrightarrow> ps ! j \<noteq> 0 \<Longrightarrow> m' (ps ! j) = m (ps ! j)"
  shows "abs_frame m' v' (p\<lparr>Pbags := Some (ps[r := b])\<rparr>) = a_join r Y (abs_frame m v p)"
proof -
  let ?P = "\<lambda>m ps. map (\<lambda>p. if p = 0 then None else Some (m p)) ps"
  have ps: "pbags_of p = ps" using p(1) by (simp add: pbags_of_def)
  have r: "pset (?P m ps ! r) = m (ps ! r)" using p(2) z by simp
  have "?P m' (ps[r := b]) = (?P m ps)[r := Some (m (ps ! r) \<union> Y)]"
    by (rule nth_equalityI) (use p(2) b q in \<open>auto simp: nth_list_update\<close>)
  then show ?thesis using r s ps by (simp add: abs_frame_def a_join_def is_loop_frame_def)
qed

lemma abs_PP: "m 0 = {} \<Longrightarrow> a_PP (abs_frame m v f) = (\<Union>q \<in> set (pbags_of f). m q)"
  by (auto simp: a_PP_def abs_frame_def split: if_splits)

lemma abs_frame_simps [simp]:
  "a_S (abs_frame m v f) = m (Sbag f)" "a_I (abs_frame m v f) = m (Iterbag f)"
  "a_ver (abs_frame m v f) = v (Iterbag f)" "a_loop (abs_frame m v f) = is_loop_frame f"
  "a_detach (abs_frame m v f) = isDetacher (frame_data f)"
  "length (a_P (abs_frame m v f)) = length (pbags_of f)"
  by (simp_all add: abs_frame_def)


subsection \<open>Entering a function\<close>

lemma set_frame_data_at:
  assumes at: "cs_at S (c # fs) B"
  shows "\<exists>S'. set_frame_data e S = Some S' \<and> cs_at S' (c\<lparr>frame_data := e\<rparr> # fs) B \<and> cs_only S S'"
  using cs_at_ancestor [OF at, of 0] cs_at_put(2) [OF at, of 0 "c\<lparr>frame_data := e\<rparr>"]
  by (simp add: set_frame_data_def)

lemma ctl_same_head:
  assumes "ctl B ext k X (f # fs)" "Sbag f' = Sbag f" "Iterbag f' = Iterbag f" "pbags_of f' = pbags_of f"
  shows "ctl B ext k X (f' # fs)"
  by (rule ctl_same_ptrs [OF assms(1)]) (use assms in \<open>auto simp: frame_ptrs_def kept_ptrs_def\<close>)

lemma cs_only_shadow: "cs_only S S' \<Longrightarrow> cs_shadow S' = cs_shadow S"
  "cs_only S S' \<Longrightarrow> cs_start_new_loop S' = cs_start_new_loop S"
  "cs_only S S' \<Longrightarrow> cs_call_stack S' = cs_call_stack S"
  by (metis cs_only_def cilksan.ext_inject cilksan.surjective cilksan.update_convs)+

lemma enter_at:
  assumes ok: "tool_ok S ext k fs" and room: "Stack_room (cs_frame_stack S)"
    and ne: "2 \<le> length (sp_new (cs_sp S))" and e: "\<not> isLoopFrame e"
  shows "\<exists>S' c. do { S \<leftarrow> enter_cilk_function n S; set_frame_data e S } = Some S' \<and> tool_ok S' ext k (c # fs) \<and>
    tool_abs S' ext (c # fs) = a_enter (unat n) (isDetacher e) (tool_abs S ext fs) \<and>
    frame_data c = e \<and> length (pbags_of c) = unat n \<and> Iterbag c = 0 \<and>
    sp_new (cs_sp S') = drop 2 (sp_new (cs_sp S)) \<and> cs_start_new_loop S' = cs_start_new_loop S"
proof -
  note T = tool_okD [OF ok]
  let ?m = "cmem (cs_sp S) ext {}"
  obtain S1 B' c0 b where N: "start_new_function n S = Some S1" "cs_only (S\<lparr>cs_frame_id := cs_frame_id S + 1\<rparr>) S1"
    "cs_at S1 (c0 # fs) B'" "ctl B' ext k {} (c0 # fs)" "cmem B' ext {} = ?m"
    "Sbag c0 = b" "b \<noteq> 0" "?m b = {}" "pbags_of c0 = replicate (unat n) 0"
    "unat (num_Pbags c0) = unat n" "\<not> Sbag_used c0" "\<not> Iterbag_used c0" "Iterbag c0 = 0"
    "reducer_views c0 = 0" "sp_new B' = drop 2 (sp_new (cs_sp S))"
    "\<forall>a. a \<noteq> b \<longrightarrow> payloads B' a = payloads (cs_sp S) a" "b \<notin># owned fs"
    using start_new_function_at [OF T(1,2) room ne, of n] by blast
  let ?c = "c0\<lparr>frame_data := e\<rparr>"
  obtain S2 where S2: "set_frame_data e S1 = Some S2" "cs_at S2 (?c # fs) B'" "cs_only S1 S2"
    using set_frame_data_at [OF N(3), of e] by blast
  have sp: "cs_sp S2 = B'" using S2(2) by (simp add: cs_at_def)
  have only: "cs_only (S\<lparr>cs_frame_id := cs_frame_id S + 1\<rparr>) S2" using cs_only_trans [OF N(2) S2(3)] .
  have c2: "ctl B' ext k {} (?c # fs)" by (rule ctl_same_head [OF N(4)]) simp_all
  have m0: "?m 0 = {}" by (rule cmem_0 [OF T(2)])
  have v: "\<And>a. a \<noteq> 0 \<Longrightarrow> a \<in># owned fs \<Longrightarrow> ?m a = ?m a \<and> ver_of B' a = ver_of (cs_sp S) a"
    using N(16,17) unfolding ver_of_def by metis
  have v0: "ver_of B' 0 = ver_of (cs_sp S) 0" "ver_of B' 0 = 0"
    using ver_of_0 [OF c2] ver_of_0 [OF T(2)] by simp_all
  have "tool_abs S2 ext (?c # fs) = a_enter (unat n) (isDetacher e) (tool_abs S ext fs)"
    using abs_frames_cong(1) [where m = ?m and m' = ?m, OF v refl v0(1)] N(5-9,13) e m0 v0(2) sp
    by (simp add: tool_abs_def a_enter_def a_new_def abs_frame_def is_loop_frame_def map_replicate_const)
  moreover have "frame_ok ?m ?c" using N(7-12,14) N(6) m0 N(13) by (simp add: frame_ok_def)
  moreover have "loop_ok ?c" using e N(13) by (simp add: loop_ok_def is_loop_frame_def)
  ultimately show ?thesis
    using N(1) S2(1,2) c2 sp N(5) T(3-5) only N(9,13,15) cs_only_shadow [OF only]
    by (intro exI [of _ S2] exI [of _ ?c]) (auto simp: tool_ok_def enter_cilk_function_def)
qed

lemma entry_types: "\<not> isLoopFrame SPAWNER_SHADOW_FRAME" "\<not> isDetacher SPAWNER_SHADOW_FRAME"
  "\<not> isLoopFrame DETACHER_SHADOW_FRAME" "isDetacher DETACHER_SHADOW_FRAME"
  by code_simp+

lemma do_enter_ok:
  assumes "tool_ok S ext k fs" "Stack_room (cs_frame_stack S)" "2 \<le> length (sp_new (cs_sp S))"
  shows "\<exists>S' c. do_enter n S = Some S' \<and> tool_ok S' ext k (c # fs) \<and>
    tool_abs S' ext (c # fs) = a_enter (unat n) False (tool_abs S ext fs)"
  using enter_at [OF assms entry_types(1), of n] entry_types(2) unfolding do_enter_def by auto

lemma do_enter_helper_ok:
  assumes "tool_ok S ext k fs" "Stack_room (cs_frame_stack S)" "2 \<le> length (sp_new (cs_sp S))"
  shows "\<exists>S' c. do_enter_helper n S = Some S' \<and> tool_ok S' ext k (c # fs) \<and>
    tool_abs S' ext (c # fs) = a_enter (unat n) True (tool_abs S ext fs) \<and>
    frame_data c = DETACHER_SHADOW_FRAME \<and> length (pbags_of c) = unat n \<and> Iterbag c = 0 \<and>
    sp_new (cs_sp S') = drop 2 (sp_new (cs_sp S)) \<and> cs_start_new_loop S' = cs_start_new_loop S"
  using enter_at [OF assms entry_types(3), of n] entry_types(4) unfolding do_enter_helper_def by simp

text \<open>The first iteration of a loop.\<close>

lemma ver_of_bag: "sp_bags B b = Some D \<Longrightarrow> ver_of B b = unat (SBag_get_version D)"
  by (simp add: ver_of_def payloads_def SBag_get_version_eq)

lemma do_loop_start_ok:
  assumes ok: "tool_ok S ext k fs" and room: "Stack_room (cs_frame_stack S)"
    and ne: "4 \<le> length (sp_new (cs_sp S))" and l: "cs_start_new_loop S"
  shows "\<exists>S' c. do_loop_iteration_begin n S = Some S' \<and> tool_ok S' ext k (c # fs) \<and>
    tool_abs S' ext (c # fs) = a_loop_enter (unat (if n > 0 then n else 1)) (tool_abs S ext fs)"
proof -
  let ?n = "if n > 0 then n else 1" and ?m = "cmem (cs_sp S) ext {}"
  have ne2: "2 \<le> length (sp_new (cs_sp S))" using ne by simp
  obtain S1 c where S1: "do_enter_helper ?n S = Some S1" "tool_ok S1 ext k (c # fs)"
    "tool_abs S1 ext (c # fs) = a_enter (unat ?n) True (tool_abs S ext fs)"
    "frame_data c = DETACHER_SHADOW_FRAME" "length (pbags_of c) = unat ?n" "Iterbag c = 0"
    "sp_new (cs_sp S1) = drop 2 (sp_new (cs_sp S))" "cs_start_new_loop S1 = cs_start_new_loop S"
    using do_enter_helper_ok [OF ok room ne2, of ?n] by blast
  note T = tool_okD [OF S1(2)]
  let ?B = "cs_sp S1" and ?e = "setLoopFrame (frame_data c)"
  let ?c1 = "c\<lparr>frame_data := ?e\<rparr>"
  have anc: "cs_ancestor 0 S1 = Some c" using cs_at_ancestor [OF T(1), of 0] by simp
  obtain S2 where S2: "set_frame_data ?e S1 = Some S2" "cs_at S2 (?c1 # fs) ?B" "cs_only S1 S2"
    using set_frame_data_at [OF T(1), of ?e] by blast
  have c1: "ctl ?B ext k {} (?c1 # fs)" by (rule ctl_same_head [OF T(2)]) simp_all
  have lf: "is_loop_frame ?c1" by (simp add: is_loop_frame_def isLoopFrame_setLoopFrame)
  have fc: "frame_ok (cmem ?B ext {}) c" using T(4) by simp
  have z: "cmem ?B ext {} 0 = {}" by (rule cmem_0 [OF c1])
  have e0: "cmem ?B ext {} (Iterbag ?c1) = {}" using S1(6) z by simp
  have s: "Sbag ?c1 \<noteq> 0" "Sbag ?c1 \<noteq> Iterbag ?c1" using fc S1(6) by (simp_all add: frame_ok_def)
  have new: "2 \<le> length (sp_new ?B)" using S1(7) ne by simp
  obtain b B2 where N: "create_iterbag ?c1 ?B = Some (?c1\<lparr>Iterbag := b, Iterbag_used := False\<rparr>, B2)" "b \<noteq> 0"
    "ctl B2 ext k ({} - {Iterbag ?c1}) (?c1\<lparr>Iterbag := b, Iterbag_used := False\<rparr> # fs)"
    "cmem B2 ext ({} - {Iterbag ?c1}) = cmem ?B ext {}" "cmem ?B ext {} b = {}"
    "\<exists>D. sp_bags B2 b = Some D \<and> SBag_get_version D = 0"
    "\<forall>a. a \<noteq> b \<longrightarrow> a \<noteq> Iterbag ?c1 \<longrightarrow> payloads B2 a = payloads ?B a" "sp_new B2 = drop 2 (sp_new ?B)"
    using ctl_new_iterbag [OF c1 new e0 lf s] by blast
  let ?c = "?c1\<lparr>Iterbag := b, Iterbag_used := False\<rparr>"
  have "create_iterbag ((?c1 # fs) ! unat (0 :: u32)) ?B = Some (?c, B2)" using N(1) by simp
  then obtain S3 where S3: "on_frame 0 create_iterbag S2 = Some S3" "cs_at S3 (?c # fs) B2" "cs_only S2 S3"
    using on_frame_at [where act = create_iterbag, OF S2(2), of 0] by auto
  have only: "cs_only S1 S3" using cs_only_trans [OF S2(3) S3(3)] .
  have sh: "occ_ok (cs_shadow S3)" using T(3) cs_only_shadow [OF only] by simp
  obtain S4 where S4: "end_strand S3 = Some S4" "cs_frame_stack S4 = cs_frame_stack S3" "cs_sp S4 = cs_sp S3"
    "occ_ok (cs_shadow S4)"
    using end_strand_at [OF sh] by blast
  let ?S = "S4\<lparr>cs_start_new_loop := False\<rparr>"
  have run: "do_loop_iteration_begin n S = Some ?S"
    using l S1(1) anc S2(1) S3(1) S4(1) by (simp add: do_loop_iteration_begin_def do_detach_def)
  have at: "cs_at ?S (?c # fs) B2" using S3(2) S4(2,3) by (simp add: cs_at_def)
  have sp: "cs_sp ?S = B2" using at by (simp add: cs_at_def)
  have c2: "ctl B2 ext k {} (?c # fs)" and m2: "cmem B2 ext {} = cmem ?B ext {}" using N(3,4) by simp_all
  have vb: "ver_of B2 b = 0" using N(6) by (auto simp: ver_of_bag)
  have bo: "b \<notin># owned fs" using ctl_disjoint [OF c2, of b] N(2) by (simp add: frame_ptrs_mem)
  have v: "\<And>a. a \<noteq> 0 \<Longrightarrow> a \<in># owned fs \<Longrightarrow> cmem B2 ext {} a = cmem ?B ext {} a \<and> ver_of B2 a = ver_of ?B a"
  proof -
    fix a assume a: "a \<noteq> 0" "a \<in># owned fs"
    then have "a \<noteq> b" "a \<noteq> Iterbag ?c1" using bo S1(6) by auto
    then have "payloads B2 a = payloads ?B a" using N(7) by blast
    then show "cmem B2 ext {} a = cmem ?B ext {} a \<and> ver_of B2 a = ver_of ?B a" using m2 by (simp add: ver_of_def)
  qed
  have v0: "ver_of B2 0 = ver_of ?B 0" using ver_of_0 [OF c2] ver_of_0 [OF c1] by simp
  have z2: "cmem B2 ext {} 0 = cmem ?B ext {} 0" using m2 by simp
  note cong = abs_frames_cong [where m = "cmem B2 ext {}" and m' = "cmem ?B ext {}", OF v z2 v0]
  have a0: "abs_frame (cmem ?B ext {}) (ver_of ?B) c = a_new (unat ?n) True"
    "map (abs_frame (cmem ?B ext {}) (ver_of ?B)) fs = tool_abs S ext fs"
    using S1(3) by (simp_all add: tool_abs_def a_enter_def)
  have "abs_frame (cmem B2 ext {}) (ver_of B2) ?c = (a_new (unat ?n) True)\<lparr>a_loop := True\<rparr>"
    using a0(1) lf m2 N(5) vb isLoopFrame_setLoopFrame
    by (simp add: abs_frame_def a_new_def is_loop_frame_def)
  then have "tool_abs ?S ext (?c # fs) = a_loop_enter (unat ?n) (tool_abs S ext fs)"
    using cong(1) a0(2) sp by (simp add: tool_abs_def a_loop_enter_def)
  moreover have "frame_ok (cmem B2 ext {}) ?c" using fc m2 N(5) by (simp add: frame_ok_def)
  moreover have "loop_ok ?c"
  proof -
    have "unat ?n \<noteq> 0" by (simp add: unsigned_eq_0_iff word_gt_0)
    then have "pbags_of c \<noteq> []" using S1(5) by auto
    then show ?thesis using lf N(2) S1(4) entry_types(4) isLoopFrame_setLoopFrame
      by (simp add: loop_ok_def is_loop_frame_def)
  qed
  ultimately show ?thesis
    using run at c2 sp S4(4) T(4,5) cong(2)
    by (intro exI [of _ ?S] exI [of _ ?c]) (auto simp: tool_ok_def)
qed

subsection \<open>Leaving a function\<close>

lemma distinct_filter_nth:
  assumes "distinct (filter P xs)" "i < length xs" "j < length xs" "i \<noteq> j" "P (xs ! i)"
  shows "xs ! i \<noteq> xs ! j"
  using assms
proof (induction xs arbitrary: i j)
  case (Cons x xs)
  show ?case
  proof (cases i)
    case 0
    then have "x \<notin> set xs" "xs ! (j - 1) \<in> set xs" "j = Suc (j - 1)" using Cons.prems by auto
    then show ?thesis using 0 by (metis nth_Cons_0 nth_Cons_Suc)
  next
    case (Suc a)
    show ?thesis
    proof (cases j)
      case 0
      have "xs ! a \<in> set xs" using Cons.prems(2) Suc by simp
      then show ?thesis using Suc 0 Cons.prems(1,5) by (auto split: if_splits)
    next
      case (Suc b)
      then show ?thesis using \<open>i = Suc a\<close> Cons.IH [of a b] Cons.prems by (auto split: if_splits)
    qed
  qed
qed simp

text \<open>Nodes join a P-bag \<open>b\<close> of the topmost frame \<open>p\<close>, and all other bags of the frames stay as they are.\<close>

lemma head_join:
  assumes c': "ctl B' ext k' {} (p\<lparr>Pbags := Some (ps[r := b])\<rparr> # fs)"
    and p: "Pbags p = Some ps" "r < length ps" and b: "b \<noteq> 0" and mb: "cmem B' ext {} b = m (ps ! r) \<union> Y"
    and z: "m 0 = {}" "v 0 = 0" and okp: "frame_ok m p"
    and keep: "\<And>a. a \<noteq> 0 \<Longrightarrow> a \<noteq> b \<Longrightarrow> a \<in># owned (p # fs) \<Longrightarrow> cmem B' ext {} a = m a \<and> ver_of B' a = v a"
  shows "abs_frame (cmem B' ext {}) (ver_of B') (p\<lparr>Pbags := Some (ps[r := b])\<rparr>) = a_join r Y (abs_frame m v p)"
    "map (abs_frame (cmem B' ext {}) (ver_of B')) fs = map (abs_frame m v) fs"
    "frame_ok (cmem B' ext {}) (p\<lparr>Pbags := Some (ps[r := b])\<rparr>)"
    "g \<in> set fs \<Longrightarrow> frame_ok (cmem B' ext {}) g = frame_ok m g"
proof -
  let ?p = "p\<lparr>Pbags := Some (ps[r := b])\<rparr>" and ?m' = "cmem B' ext {}" and ?v' = "ver_of B'"
  have pl: "pbags_of p = ps" using p(1) by (simp add: pbags_of_def)
  have own: "b \<in># frame_ptrs ?p" using b p(2) by (simp add: frame_ptrs_mem set_update_memI)
  have z': "?m' 0 = m 0" "?v' 0 = v 0" using cmem_0 [OF c'] ver_of_0 [OF c'] z by simp_all
  have d: "distinct (filter (\<lambda>p. p \<noteq> 0) (Sbag p # Iterbag p # ps[r := b]))"
    using ctl_distinct [OF c', of ?p] by simp
  have bp: "a \<noteq> b" if a: "a \<noteq> 0" "a = Sbag p \<or> a = Iterbag p" for a
    using d a b set_update_memI [OF p(2), of b] by (auto split: if_splits)
  have s: "?m' (Sbag p) = m (Sbag p)"
    using keep [of "Sbag p"] bp [of "Sbag p"] owned_ptr [of p "p # fs" "Sbag p"] okp by (simp add: frame_ok_def)
  have it: "?m' (Iterbag p) = m (Iterbag p) \<and> ?v' (Iterbag p) = v (Iterbag p)"
    using keep [of "Iterbag p"] bp [of "Iterbag p"] owned_ptr [of p "p # fs" "Iterbag p"] z'
    by (cases "Iterbag p = 0") simp_all
  have q: "?m' (ps ! j) = m (ps ! j)" if j: "j < length ps" "j \<noteq> r" "ps ! j \<noteq> 0" for j
  proof -
    have "distinct (filter (\<lambda>p. p \<noteq> 0) (ps[r := b]))" using d by (auto split: if_splits)
    then have "ps ! j \<noteq> b" using distinct_filter_nth [of _ "ps[r := b]" j r] j p(2) by auto
    then show ?thesis using keep [of "ps ! j"] owned_ptr [of p "p # fs" "ps ! j"] j pl by simp
  qed
  show "abs_frame ?m' ?v' ?p = a_join r Y (abs_frame m v p)"
    using abs_join [where m' = ?m' and v' = ?v' and m = m and v = v, OF p b mb z(1) s] it q by blast
  show "frame_ok ?m' ?p" using okp s it pl by (simp add: frame_ok_def)
  have e: "?m' a = m a \<and> ?v' a = v a" if "a \<noteq> 0" "a \<in># owned fs" for a
    using keep [of a] ctl_disjoint [OF c' own] that by auto
  note cong = abs_frames_cong [where m = ?m' and m' = m and v = ?v' and v' = v, OF e z']
  show "map (abs_frame ?m' ?v') fs = map (abs_frame m v) fs" by (rule cong(1))
  show "g \<in> set fs \<Longrightarrow> frame_ok ?m' g = frame_ok m g" by (rule cong(2))
qed

lemma ver_of_eq: "payloads B' a = payloads B a \<Longrightarrow> ver_of B' a = ver_of B a"
  by (simp add: ver_of_def)

lemma do_leave_detach_ok:
  assumes ok: "tool_ok_but S ext k c (p # fs)" and d: "isDetacher (frame_data c)" and i: "Iterbag c = 0"
    and r: "unat r < length (pbags_of p)" and ne: "sp_new (cs_sp S) \<noteq> []"
    and k: "k + length (pbags_of c) + 1 < 2 ^ 64 - 1"
  shows "\<exists>S' p'. do_leave r S = Some S' \<and> tool_ok S' ext (k + length (pbags_of c) + 1) (p' # fs) \<and>
    tool_abs S' ext (p' # fs) = a_leave (unat r) (tool_abs S ext (c # p # fs)) \<and>
    length (pbags_of p') = length (pbags_of p)"
proof -
  note T = tool_ok_butD [OF ok]
  let ?B = "cs_sp S" and ?m = "cmem (cs_sp S) ext {}" and ?v = "ver_of (cs_sp S)"
  have okc: "frame_ok ?m c" and okp: "frame_ok ?m p" and lp: "loop_ok p" using T(4,5) by simp_all
  obtain ps where ps: "Pbags p = Some ps" using r by (cases "Pbags p") (simp_all add: pbags_of_def)
  have pl: "pbags_of p = ps" using ps by (simp add: pbags_of_def)
  have n: "Sbag p \<noteq> 0" "unat (num_Pbags p) = length ps" using okp pl by (simp_all add: frame_ok_def)
  have rl: "unat r < length ps" using r pl by simp
  obtain S' B' b where L: "do_leave r S = Some S'" "cs_only S S'" "b \<noteq> 0"
    "cs_at S' (p\<lparr>Pbags := Some (ps[unat r := b])\<rparr> # fs) B'"
    "ctl B' ext (k + length (pbags_of c) + 1) {} (p\<lparr>Pbags := Some (ps[unat r := b])\<rparr> # fs)"
    "cmem B' ext {} = cjoins b (pbags_of c) (cjoin b (Sbag c) ?m)" "?m b = ?m (ps ! unat r)"
    "b = ps ! unat r \<or> ps ! unat r = 0 \<and> b \<notin># owned (c # p # fs)"
    "\<forall>a. a \<noteq> b \<longrightarrow> a \<noteq> Sbag c \<longrightarrow> a \<notin> set (pbags_of c) \<longrightarrow> payloads B' a = payloads ?B a"
    using do_leave_detach_at [OF T(1,2) okc d i n(1) ps rl n(2) ne k] by blast
  let ?p = "p\<lparr>Pbags := Some (ps[unat r := b])\<rparr>" and ?m' = "cmem B' ext {}" and ?v' = "ver_of B'"
    and ?Y = "?m (Sbag c) \<union> (\<Union>q \<in> set (pbags_of c). ?m q)"
  have z: "?m 0 = {}" "?v 0 = 0" using cmem_0 [OF T(2)] ver_of_0 [OF T(2)] by simp_all
  have dis: "a \<noteq> Sbag c \<and> a \<notin> set (pbags_of c)" if "a \<noteq> 0" "a \<in># owned (p # fs)" for a
    using ctl_disjoint [OF T(2), of a] that frame_ptrs_mem [of a c] by blast
  have keep: "?m' a = ?m a \<and> ?v' a = ?v a" if "a \<noteq> 0" "a \<noteq> b" "a \<in># owned (p # fs)" for a
    using dis [OF that(1,3)] L(6,9) that(2) by (auto simp: cjoins_def cjoin_def intro: ver_of_eq)
  have bc: "b \<noteq> Sbag c \<and> b \<notin> set (pbags_of c)"
  proof (cases "b = ps ! unat r")
    case True
    then show ?thesis using dis [OF L(3)] owned_ptr [of p "p # fs" b] L(3) rl pl by simp
  next
    case False
    then show ?thesis using L(3,8) owned_ptr [of c "c # p # fs" b] by auto
  qed
  have dc: "Sbag c \<notin> set (pbags_of c)"
    using ctl_distinct [OF T(2), of c] okc by (auto simp: frame_ok_def split: if_splits)
  have mb: "?m' b = ?m (ps ! unat r) \<union> ?Y" using L(6,7) bc dc by (auto simp: cjoins_def cjoin_def)
  note J = head_join [where m = ?m and v = ?v, OF L(5) ps rl L(3) mb z okp keep]
  have abs: "map (abs_frame ?m' ?v') (?p # fs) = a_leave (unat r) (tool_abs S ext (c # p # fs))"
    using J(1,2) d abs_PP [where m = ?m, OF z(1)] by (simp add: tool_abs_def)
  have "loop_ok ?p" using lp pl by (auto simp: loop_ok_def is_loop_frame_def)
  moreover have "cs_sp S' = B'" using L(4) by (simp add: cs_at_def)
  ultimately show ?thesis
    using L(1,4,5) abs J(3,4) T(3-5) cs_only_shadow(1) [OF L(2)] pl
    by (intro exI [of _ S'] exI [of _ ?p]) (auto simp: tool_ok_def tool_abs_def)
qed

text \<open>Nodes join the S-bag of the topmost frame.\<close>

lemma head_sbag:
  assumes c': "ctl B' ext k' {} (f' # fs)"
    and f': "Sbag f' = Sbag p" "Iterbag f' = Iterbag p" "frame_data f' = frame_data p" "reducer_views f' = 0"
      "Iterbag_used f' = Iterbag_used p" "unat (num_Pbags f') = length (pbags_of f')"
    and mS: "cmem B' ext {} (Sbag p) = m (Sbag p) \<union> Y" and u: "\<not> Sbag_used f' \<longrightarrow> \<not> Sbag_used p \<and> Y = {}"
    and z: "m 0 = {}" "v 0 = 0" and okp: "frame_ok m p"
    and keep: "\<And>a. a \<noteq> 0 \<Longrightarrow> a \<noteq> Sbag p \<Longrightarrow> a \<in># owned (f' # fs) \<Longrightarrow> cmem B' ext {} a = m a \<and> ver_of B' a = v a"
  shows "abs_frame (cmem B' ext {}) (ver_of B') f' = (abs_frame m v p)
      \<lparr>a_S := m (Sbag p) \<union> Y, a_P := map (\<lambda>q. if q = 0 then None else Some (m q)) (pbags_of f')\<rparr>"
    "map (abs_frame (cmem B' ext {}) (ver_of B')) fs = map (abs_frame m v) fs"
    "frame_ok (cmem B' ext {}) f'"
    "g \<in> set fs \<Longrightarrow> frame_ok (cmem B' ext {}) g = frame_ok m g"
proof -
  let ?m' = "cmem B' ext {}" and ?v' = "ver_of B'"
  have Sp: "Sbag p \<noteq> 0" using okp by (simp add: frame_ok_def)
  have own: "Sbag p \<in># frame_ptrs f'" using Sp f' by (simp add: frame_ptrs_mem)
  have z': "?m' 0 = m 0" "?v' 0 = v 0" using cmem_0 [OF c'] ver_of_0 [OF c'] z by simp_all
  have d: "distinct (filter (\<lambda>p. p \<noteq> 0) (Sbag p # Iterbag p # pbags_of f'))"
    using ctl_distinct [OF c', of f'] f' by simp
  have q: "?m' q = m q" if "q \<in> set (pbags_of f')" "q \<noteq> 0" for q
    using keep [of q] d that Sp owned_ptr [of f' "f' # fs" q] by (auto split: if_splits)
  have it: "?m' (Iterbag p) = m (Iterbag p) \<and> ?v' (Iterbag p) = v (Iterbag p)"
    using keep [of "Iterbag p"] d Sp owned_ptr [of f' "f' # fs" "Iterbag p"] z' f'(2)
    by (cases "Iterbag p = 0") (auto split: if_splits)
  have P: "map (\<lambda>q. if q = 0 then None else Some (?m' q)) (pbags_of f') =
      map (\<lambda>q. if q = 0 then None else Some (m q)) (pbags_of f')"
    using q by (intro map_cong refl) simp
  show "abs_frame ?m' ?v' f' = (abs_frame m v p)
      \<lparr>a_S := m (Sbag p) \<union> Y, a_P := map (\<lambda>q. if q = 0 then None else Some (m q)) (pbags_of f')\<rparr>"
    using P it mS f' by (simp add: abs_frame_def is_loop_frame_def)
  show "frame_ok ?m' f'" using okp f' mS it u Sp by (auto simp: frame_ok_def)
  have e: "?m' a = m a \<and> ?v' a = v a" if "a \<noteq> 0" "a \<in># owned fs" for a
    using keep [of a] ctl_disjoint [OF c' own] that by auto
  note cong = abs_frames_cong [where m = ?m' and m' = m and v = ?v' and v' = v, OF e z']
  show "map (abs_frame ?m' ?v') fs = map (abs_frame m v) fs" by (rule cong(1))
  show "g \<in> set fs \<Longrightarrow> frame_ok ?m' g = frame_ok m g" by (rule cong(2))
qed

lemma do_leave_call_ok:
  assumes ok: "tool_ok S ext k (c # p # fs)" and d: "\<not> isDetacher (frame_data c)" and i: "Iterbag c = 0"
    and k: "k < 2 ^ 64 - 1" and q0: "\<forall>q \<in> set (pbags_of c). q = 0"
  shows "\<exists>S' p'. do_leave r S = Some S' \<and> tool_ok S' ext (k + 1) (p' # fs) \<and>
    tool_abs S' ext (p' # fs) = a_leave (unat r) (tool_abs S ext (c # p # fs)) \<and>
    length (pbags_of p') = length (pbags_of p)"
proof -
  note T = tool_okD [OF ok]
  let ?B = "cs_sp S" and ?m = "cmem (cs_sp S) ext {}" and ?v = "ver_of (cs_sp S)"
  have okc: "frame_ok ?m c" and okp: "frame_ok ?m p" and lp: "loop_ok p" using T(4,5) by simp_all
  have Sp: "Sbag p \<noteq> 0" "Sbag c \<noteq> 0" using okp okc by (simp_all add: frame_ok_def)
  obtain S' B' p' where L: "do_leave r S = Some S'" "cs_only S S'"
    "p' = (if Sbag_used c then p\<lparr>Sbag_used := True\<rparr> else p)" "cs_at S' (p' # fs) B'"
    "ctl B' ext (k + 1) {} (p' # fs)" "cmem B' ext {} = cjoin (Sbag p) (Sbag c) ?m"
    "\<forall>a. a \<noteq> Sbag c \<longrightarrow> payloads B' a = payloads ?B a"
    using do_leave_call_at [OF T(1,2) okc d i Sp(1) k q0] by blast
  have p': "Sbag p' = Sbag p" "Iterbag p' = Iterbag p" "frame_data p' = frame_data p" "reducer_views p' = 0"
    "Iterbag_used p' = Iterbag_used p" "pbags_of p' = pbags_of p" "num_Pbags p' = num_Pbags p"
    "\<not> Sbag_used p' \<longrightarrow> \<not> Sbag_used p \<and> ?m (Sbag c) = {}"
    using okp okc L(3) by (auto simp: frame_ok_def)
  have np: "unat (num_Pbags p') = length (pbags_of p')" using okp p' by (simp add: frame_ok_def)
  have z: "?m 0 = {}" "?v 0 = 0" using cmem_0 [OF T(2)] ver_of_0 [OF T(2)] by simp_all
  have dis: "a \<noteq> Sbag c" if "a \<noteq> 0" "a \<in># owned (p # fs)" for a
    using ctl_disjoint [OF T(2), of a] that frame_ptrs_mem [of a c] by blast
  have ow: "owned (p' # fs) = owned (p # fs)" using p' by (simp add: frame_ptrs_def)
  have ne: "Sbag p \<noteq> Sbag c" using dis [OF Sp(1)] owned_ptr [of p "p # fs" "Sbag p"] Sp by simp
  have mS: "cmem B' ext {} (Sbag p) = ?m (Sbag p) \<union> ?m (Sbag c)" using L(6) by (simp add: cjoin_def)
  have keep: "cmem B' ext {} a = ?m a \<and> ver_of B' a = ?v a"
    if "a \<noteq> 0" "a \<noteq> Sbag p" "a \<in># owned (p' # fs)" for a
    using dis [OF that(1)] that(2,3) ow L(6,7) by (auto simp: cjoin_def intro: ver_of_eq)
  note J = head_sbag [where m = ?m and v = ?v, OF L(5) p'(1-5) np mS p'(8) z okp keep]
  have "a_P (abs_frame ?m ?v p) = map (\<lambda>q. if q = 0 then None else Some (?m q)) (pbags_of p')"
    using p'(6) by (simp add: abs_frame_def)
  then have abs: "map (abs_frame (cmem B' ext {}) (ver_of B')) (p' # fs) = a_leave (unat r) (tool_abs S ext (c # p # fs))"
    using J(1,2) d by (simp add: tool_abs_def)
  have "loop_ok p'" using lp p' by (auto simp: loop_ok_def is_loop_frame_def)
  moreover have "cs_sp S' = B'" using L(4) by (simp add: cs_at_def)
  ultimately show ?thesis
    using L(1,4,5) abs J(3,4) T(3-5) cs_only_shadow(1) [OF L(2)] p'(6)
    by (intro exI [of _ S'] exI [of _ p']) (auto simp: tool_ok_def tool_abs_def)
qed

subsection \<open>Syncs\<close>

lemma complete_sync_at:
  assumes at: "cs_at S (f # fs) B" and ctl: "ctl B ext k {} (f # fs)" and okf: "frame_ok (cmem B ext {}) f"
    and ps: "Pbags f = Some ps" "unat r < length ps" and k: "k < 2 ^ 64 - 1"
  shows "\<exists>S' B' f'. complete_sync r S = Some S' \<and> cs_only S S' \<and> cs_at S' (f' # fs) B' \<and> ctl B' ext (k + 1) {} (f' # fs) \<and>
    f' = (if ps ! unat r = 0 then f else f\<lparr>Sbag_used := True, Pbags := Some (ps[unat r := 0])\<rparr>) \<and>
    cmem B' ext {} = (if ps ! unat r = 0 then cmem B ext {} else cjoin (Sbag f) (ps ! unat r) (cmem B ext {})) \<and>
    (\<forall>a. a \<noteq> ps ! unat r \<longrightarrow> payloads B' a = payloads B a) \<and> sp_new B' = sp_new B"
proof -
  let ?p = "ps ! unat r" and ?m = "cmem B ext {}"
  have anc: "cs_ancestor 0 S = Some f" using cs_at_ancestor [OF at, of 0] by simp
  have pl: "pbags_of f = ps" using ps by (simp add: pbags_of_def)
  have n: "unat (num_Pbags f) = length ps" and Sf: "Sbag f \<noteq> 0" using okf pl by (simp_all add: frame_ok_def)
  have lt: "r < num_Pbags f" using ps(2) n by (simp add: word_less_nat_alt)
  show ?thesis
  proof (cases "?p = 0")
    case True
    then have "complete_sync r S = Some S" using anc ps lt by (simp add: complete_sync_def arr_get_def)
    then show ?thesis using True at ctl_mono [OF ctl, of "k + 1"] by auto
  next
    case False
    have o: "Sbag f \<in># owned (f # fs)" "?p \<in># owned (f # fs)"
      using owned_ptr [of f "f # fs"] Sf False pl ps(2) by simp_all
    have ne: "Sbag f \<noteq> ?p" using ctl_distinct [OF ctl, of f] Sf pl nth_mem [OF ps(2)] by (auto split: if_splits)
    obtain B1 where B1: "SBag_combine (Sbag f) ?p B = Some B1" "ctl B1 ext (Suc k) {?p} (f # fs)"
      "cmem B1 ext {?p} = cjoin (Sbag f) ?p ?m" "payloads B1 = payloads B" "sp_new B1 = sp_new B"
      using ctl_SBag_combine [OF ctl k ne _ _ o(1) ctl_sbag_kind(1) [OF ctl, of f] o(2)] by auto
    obtain S1 where S1: "on_bags (SBag_combine (Sbag f) ?p) S = Some S1" "cs_at S1 (f # fs) B1" "cs_only S S1"
      using on_bags_at [where act = "SBag_combine (Sbag f) ?p", OF at B1(1)] by blast
    let ?f1 = "f\<lparr>Sbag_used := True\<rparr>" and ?S1 = "cs_put_frame 0 (f\<lparr>Sbag_used := True\<rparr>) S1"
    have at1: "cs_at ?S1 (?f1 # fs) B1" using cs_at_put(2) [OF S1(2), of 0 ?f1] by simp
    have c1: "ctl B1 ext (Suc k) {?p} (?f1 # fs)" by (rule ctl_same_head [OF B1(2)]) simp_all
    have e1: "cmem B1 ext {?p} ?p = {}" by (simp add: cmem_def)
    have p1: "Pbags ?f1 = Some ps" "unat (num_Pbags ?f1) = length ps" using ps n by simp_all
    let ?f = "f\<lparr>Sbag_used := True, Pbags := Some (ps[unat r := 0])\<rparr>"
    obtain B2 where B2: "set_pbag (unat r) 0 ?f1 B1 = Some (?f, B2)" "ctl B2 ext (Suc k) ({?p} - {?p}) (?f # fs)"
      "cmem B2 ext ({?p} - {?p}) = cmem B1 ext {?p}" "\<forall>c. c \<noteq> ?p \<longrightarrow> payloads B2 c = payloads B1 c"
      "sp_new B2 = sp_new B1"
      using ctl_set_pbag_0 [OF c1 p1(1) ps(2) p1(2) e1] by auto
    have "set_pbag (unat r) 0 ((?f1 # fs) ! unat (0 :: u32)) B1 = Some (?f, B2)" using B2(1) by simp
    then obtain S2 where S2: "on_frame 0 (set_pbag (unat r) 0) ?S1 = Some S2" "cs_at S2 (?f # fs) B2" "cs_only ?S1 S2"
      using on_frame_at [where act = "set_pbag (unat r) 0", OF at1, of 0] by auto
    have "complete_sync r S = Some S2"
      using anc ps lt False S1(1) S2(1) by (simp add: complete_sync_def arr_get_def)
    moreover have "cs_only S S2" using cs_only_trans [OF S1(3)] cs_only_trans [OF _ S2(3)] cs_only_put(2) by blast
    ultimately show ?thesis using S2(2) B2 B1(3-5) False
      by (intro exI [of _ S2] exI [of _ B2] exI [of _ ?f]) simp
  qed
qed

lemma put_contin_at:
  assumes "cs_at S (f # fs) B" "ctl B ext k X (f # fs)"
  shows "cs_at (cs_put_frame 0 (f\<lparr>InContin := i\<rparr>) S) (f\<lparr>InContin := i\<rparr> # fs) B"
    "ctl B ext k X (f\<lparr>InContin := i\<rparr> # fs)" "abs_frame m v (f\<lparr>InContin := i\<rparr>) = abs_frame m v f"
    "frame_ok m (f\<lparr>InContin := i\<rparr>) = frame_ok m f" "loop_ok (f\<lparr>InContin := i\<rparr>) = loop_ok f"
  using cs_at_put(2) [OF assms(1), of 0 "f\<lparr>InContin := i\<rparr>"] ctl_same_head [OF assms(2), of "f\<lparr>InContin := i\<rparr>"]
  by (simp_all add: abs_frame_def is_loop_frame_def frame_ok_def loop_ok_def)

lemma cs_shadow_put [simp]: "cs_shadow (cs_put_frame i f S) = cs_shadow S" "cs_sp (cs_put_frame i f S) = cs_sp S"
  "cs_start_new_loop (cs_put_frame i f S) = cs_start_new_loop S"
  by (simp_all add: cs_put_frame_def)

lemma do_sync_ok:
  assumes ok: "tool_ok S ext k (f # fs)" and r: "unat r < length (pbags_of f)" "unat r < 7" and k: "k < 2 ^ 64 - 1"
  shows "\<exists>S' f'. do_sync U r S = Some S' \<and> tool_ok S' ext (k + 1) (f' # fs) \<and>
    tool_abs S' ext (f' # fs) = a_sync (unat r) (tool_abs S ext (f # fs)) \<and>
    length (pbags_of f') = length (pbags_of f) \<and> cs_start_new_loop S' = cs_start_new_loop S"
proof -
  note T = tool_okD [OF ok]
  let ?B = "cs_sp S" and ?m = "cmem (cs_sp S) ext {}" and ?v = "ver_of (cs_sp S)"
  have okf: "frame_ok ?m f" and lf: "loop_ok f" using T(4,5) by simp_all
  obtain ps where ps: "Pbags f = Some ps" using r by (cases "Pbags f") (simp_all add: pbags_of_def)
  have pl: "pbags_of f = ps" using ps by (simp add: pbags_of_def)
  obtain S1 where S1: "end_strand S = Some S1" "cs_frame_stack S1 = cs_frame_stack S" "cs_sp S1 = ?B"
    "occ_ok (cs_shadow S1)" "cs_start_new_loop S1 = cs_start_new_loop S"
    using end_strand_at [OF T(3)] by blast
  have at1: "cs_at S1 (f # fs) ?B" using T(1) S1(2,3) by (simp add: cs_at_def)
  have red: "reduce_local_views U S1 = Some S1"
    using reduce_none_at [OF at1] okf by (simp add: frame_ok_def)
  obtain S2 B' f' where C: "complete_sync r S1 = Some S2" "cs_only S1 S2" "cs_at S2 (f' # fs) B'"
    "ctl B' ext (k + 1) {} (f' # fs)"
    "f' = (if ps ! unat r = 0 then f else f\<lparr>Sbag_used := True, Pbags := Some (ps[unat r := 0])\<rparr>)"
    "cmem B' ext {} = (if ps ! unat r = 0 then ?m else cjoin (Sbag f) (ps ! unat r) ?m)"
    "\<forall>a. a \<noteq> ps ! unat r \<longrightarrow> payloads B' a = payloads ?B a"
    using complete_sync_at [OF at1 T(2) okf ps _ k] r(1) pl by blast
  let ?f = "f'\<lparr>InContin := InContin f' AND NOT (push_bit (unat r) 2)\<rparr>" and ?m' = "cmem B' ext {}" and ?v' = "ver_of B'"
  have anc: "cs_ancestor 0 S2 = Some f'" using cs_at_ancestor [OF C(3), of 0] by simp
  have run: "do_sync U r S = Some (cs_put_frame 0 ?f S2)"
    using S1(1) red C(1) anc r(2) by (simp add: do_sync_def exit_continuation_def)
  note P = put_contin_at [where i = "InContin f' AND NOT (push_bit (unat r) 2)", OF C(3,4)]
  have z: "?m 0 = {}" "?v 0 = 0" "?v' 0 = 0"
    using cmem_0 [OF T(2)] ver_of_0 [OF T(2)] ver_of_0 [OF C(4)] by simp_all
  have lf': "loop_ok f'" "pbags_of f' = ps[unat r := 0]"
    using lf C(5) pl r(1) list_update_id [of ps "unat r"]
    by (auto simp: loop_ok_def is_loop_frame_def simp del: list_update_id)
  have p': "Sbag f' = Sbag f" "Iterbag f' = Iterbag f" "frame_data f' = frame_data f" "reducer_views f' = 0"
    "Iterbag_used f' = Iterbag_used f" "unat (num_Pbags f') = length (pbags_of f')"
    using okf C(5) pl lf'(2) by (simp_all add: frame_ok_def)
  have u: "\<not> Sbag_used f' \<longrightarrow> \<not> Sbag_used f \<and> ?m (ps ! unat r) = {}" using C(5) z by (auto split: if_splits)
  have nm: "a \<noteq> ps ! unat r" if "a \<noteq> 0" "a \<in># owned (f' # fs)" for a
  proof (cases "ps ! unat r = 0")
    case False
    have "count (owned (f # fs)) a \<le> 1" by (rule ctl_owned_count [OF T(2)])
    moreover have "owned (f' # fs) = owned (f # fs) - {#ps ! unat r#}"
      using False frame_ptrs_set_pbag(1,3) [OF ps, of "unat r"] r(1) pl C(5) by (simp add: frame_ptrs_def)
    ultimately show ?thesis using that(2) by (auto simp: in_diff_count)
  qed (use that in simp)
  have ne: "Sbag f \<noteq> ps ! unat r" using nm [of "Sbag f"] owned_ptr [of f' "f' # fs" "Sbag f"] okf p' by (simp add: frame_ok_def)
  have mS: "?m' (Sbag f) = ?m (Sbag f) \<union> ?m (ps ! unat r)" using C(6) z by (auto simp: cjoin_def)
  have keep: "?m' a = ?m a \<and> ?v' a = ?v a" if "a \<noteq> 0" "a \<noteq> Sbag f" "a \<in># owned (f' # fs)" for a
    using nm [OF that(1,3)] that(2) C(6,7) by (auto simp: cjoin_def intro: ver_of_eq)
  note J = head_sbag [where m = ?m and v = ?v, OF C(4) p' mS u z(1,2) okf keep]
  have "map (abs_frame ?m' ?v') (?f # fs) = a_sync (unat r) (tool_abs S ext (f # fs))"
    using J(1,2) P(3) lf'(2) pl r(1) z(1) by (simp add: tool_abs_def abs_frame_def map_update)
  moreover have "cs_sp S2 = B'" using C(3) by (simp add: cs_at_def)
  ultimately show ?thesis
    using run P(1,2,4,5) J(3,4) T(4,5) S1(4,5) cs_only_shadow(1,2) [OF C(2)] lf' pl
    by (intro exI [of _ "cs_put_frame 0 ?f S2"] exI [of _ ?f]) (auto simp: tool_ok_def tool_abs_def)
qed

subsection \<open>Loop iterations\<close>

text \<open>A change of the topmost abstract frame.\<close>

fun a_head :: "('x aframe \<Rightarrow> 'x aframe) \<Rightarrow> 'x aframe list \<Rightarrow> 'x aframe list" where
  "a_head g (f # fs) = g f # fs"
| "a_head g [] = []"

lemma tool_abs_Cons: "tool_abs S ext (f # fs) =
    abs_frame (cmem (cs_sp S) ext {}) (ver_of (cs_sp S)) f # map (abs_frame (cmem (cs_sp S) ext {}) (ver_of (cs_sp S))) fs"
  by (simp add: tool_abs_def)

lemma ensure_pbag_ok:
  assumes ok: "tool_ok S ext k (f # fs)" and r: "r < length (pbags_of f)" and ne: "sp_new (cs_sp S) \<noteq> []"
  shows "\<exists>b S' f'. ensure_pbag 0 r S = Some (b, S') \<and> tool_ok S' ext k (f' # fs) \<and>
    tool_abs S' ext (f' # fs) = a_head (a_join r {}) (tool_abs S ext (f # fs)) \<and>
    f' = f\<lparr>Pbags := Some ((pbags_of f)[r := b])\<rparr> \<and> b \<noteq> 0 \<and> cs_only S S' \<and>
    length (sp_new (cs_sp S)) \<le> length (sp_new (cs_sp S')) + 1"
proof -
  note T = tool_okD [OF ok]
  let ?B = "cs_sp S" and ?m = "cmem (cs_sp S) ext {}" and ?v = "ver_of (cs_sp S)"
  have okf: "frame_ok ?m f" and lf: "loop_ok f" using T(4,5) by simp_all
  obtain ps where ps: "Pbags f = Some ps" using r by (cases "Pbags f") (simp_all add: pbags_of_def)
  have pl: "pbags_of f = ps" using ps by (simp add: pbags_of_def)
  have rl: "r < length ps" "unat (num_Pbags f) = length ps" using r okf pl by (simp_all add: frame_ok_def)
  have i: "unat (0 :: u32) < length (f # fs)" "f = (f # fs) ! unat (0 :: u32)" by simp_all
  have nX: "ps ! r \<notin> {}" by simp
  obtain b S' B' where E: "ensure_pbag 0 r S = Some (b, S')"
    "cs_at S' ((f # fs)[unat (0 :: u32) := f\<lparr>Pbags := Some (ps[r := b])\<rparr>]) B'" "cs_only S S'"
    "ctl B' ext k {} ((f # fs)[unat (0 :: u32) := f\<lparr>Pbags := Some (ps[r := b])\<rparr>])"
    "b \<noteq> 0" "cmem B' ext {} = ?m" "?m b = ?m (ps ! r)"
    "\<forall>c. c \<noteq> b \<longrightarrow> payloads B' c = payloads ?B c" "length (sp_new ?B) \<le> length (sp_new B') + 1"
    using ensure_pbag_at [OF T(1,2) i ps rl ne nX] by blast
  let ?f = "f\<lparr>Pbags := Some (ps[r := b])\<rparr>"
  have at: "cs_at S' (?f # fs) B'" and c': "ctl B' ext k {} (?f # fs)" using E(2,4) by simp_all
  have sp: "cs_sp S' = B'" using at by (simp add: cs_at_def)
  have z: "?m 0 = {}" "?v 0 = 0" using cmem_0 [OF T(2)] ver_of_0 [OF T(2)] by simp_all
  have mb: "cmem B' ext {} b = ?m (ps ! r) \<union> {}" using E(6,7) by simp
  have keep: "cmem B' ext {} a = ?m a \<and> ver_of B' a = ?v a" if "a \<noteq> b" for a
    using E(6,8) ver_of_eq [of B' a ?B] that by simp
  note J = head_join [where m = ?m and v = ?v, OF c' ps rl(1) E(5) mb z okf keep]
  have "loop_ok ?f" using lf pl by (auto simp: loop_ok_def is_loop_frame_def)
  then have "tool_ok S' ext k (?f # fs)"
    using at c' sp J(3,4) T(3-5) cs_only_shadow(1) [OF E(3)] by (simp add: tool_ok_def)
  moreover have "tool_abs S' ext (?f # fs) = a_head (a_join r {}) (tool_abs S ext (f # fs))"
    using J(1,2) sp by (simp add: tool_abs_Cons)
  ultimately show ?thesis using E(1,3,5,9) sp pl by blast
qed

text \<open>The S-bag of a loop frame goes to its P-bag, and a new one takes its place.\<close>

lemma iter_sbag_at:
  assumes at: "cs_at S (f # fs) B" and ctl: "ctl B ext k {} (f # fs)" and okf: "frame_ok (cmem B ext {}) f"
    and p: "p \<in> set (pbags_of f)" "p \<noteq> 0" and ne: "2 \<le> length (sp_new B)" and k: "k < 2 ^ 64 - 1"
  shows "\<exists>S' B' s. (if Sbag_used f
      then do {
        S \<leftarrow> on_bags (PBag_combine p (Sbag f)) S;
        (b, B) \<leftarrow> createNewSBag (cs_call_stack S) (cs_sp S);
        on_frame 0 (set_sbag b) (S\<lparr>cs_sp := B\<rparr>)
      }
      else Some S) = Some S' \<and> cs_only S S' \<and> s \<noteq> 0 \<and>
    cs_at S' (f\<lparr>Sbag := s, Sbag_used := False\<rparr> # fs) B' \<and>
    ctl B' ext (k + 1) {} (f\<lparr>Sbag := s, Sbag_used := False\<rparr> # fs) \<and>
    cmem B' ext {} = cjoin p (Sbag f) (cmem B ext {}) \<and> cmem B' ext {} s = {} \<and>
    (\<forall>a. a \<noteq> s \<longrightarrow> a \<noteq> Sbag f \<longrightarrow> payloads B' a = payloads B a) \<and>
    length (sp_new B) \<le> length (sp_new B') + 2"
proof (cases "Sbag_used f")
  case True
  have Sf: "Sbag f \<noteq> 0" using okf by (simp add: frame_ok_def)
  have ne1: "p \<noteq> Sbag f" using ctl_distinct [OF ctl, of f] Sf p by (auto split: if_splits)
  have o: "p \<in># owned (f # fs)" "Sbag f \<in># owned (f # fs)"
    using owned_ptr [of f "f # fs" p] owned_ptr [of f "f # fs" "Sbag f"] Sf p by simp_all
  have pk: "p_kind B p" using ctl_pbag_kind [OF ctl, of f p] p by simp
  obtain B1 where B1: "PBag_combine p (Sbag f) B = Some B1" "ctl B1 ext (Suc k) {Sbag f} (f # fs)"
    "cmem B1 ext {Sbag f} = cjoin p (Sbag f) (cmem B ext {})" "payloads B1 = payloads B" "sp_new B1 = sp_new B"
    using ctl_PBag_combine [OF ctl k ne1 _ _ o(1) pk o(2)] by auto
  obtain S1 where S1: "on_bags (PBag_combine p (Sbag f)) S = Some S1" "cs_at S1 (f # fs) B1" "cs_only S S1"
    using on_bags_at [where act = "PBag_combine p (Sbag f)", OF at B1(1)] by blast
  have sp1: "cs_sp S1 = B1" using S1(2) by (simp add: cs_at_def)
  have new: "2 \<le> length (sp_new B1)" and e: "cmem B1 ext {Sbag f} (Sbag f) = {}"
    using ne B1(5) by (simp_all add: cmem_def)
  obtain s B2 B3 where N: "createNewSBag (cs_call_stack S1) B1 = Some (s, B2)"
    "set_sbag s f B2 = Some (f\<lparr>Sbag := s, Sbag_used := False\<rparr>, B3)" "s \<noteq> 0"
    "ctl B3 ext (Suc k) ({Sbag f} - {Sbag f}) (f\<lparr>Sbag := s, Sbag_used := False\<rparr> # fs)"
    "cmem B3 ext ({Sbag f} - {Sbag f}) = cmem B1 ext {Sbag f}" "cmem B1 ext {Sbag f} s = {}"
    "\<forall>a. a \<noteq> s \<longrightarrow> a \<noteq> Sbag f \<longrightarrow> payloads B3 a = payloads B1 a" "sp_new B3 = drop 2 (sp_new B1)"
    using ctl_new_sbag [OF B1(2) new e, of "cs_call_stack S1"] by blast
  have at1: "cs_at (S1\<lparr>cs_sp := B2\<rparr>) (f # fs) B2" using S1(2) by (simp add: cs_at_def)
  have "set_sbag s ((f # fs) ! unat (0 :: u32)) B2 = Some (f\<lparr>Sbag := s, Sbag_used := False\<rparr>, B3)"
    using N(2) by simp
  then obtain S2 where S2: "on_frame 0 (set_sbag s) (S1\<lparr>cs_sp := B2\<rparr>) = Some S2"
    "cs_at S2 (f\<lparr>Sbag := s, Sbag_used := False\<rparr> # fs) B3" "cs_only (S1\<lparr>cs_sp := B2\<rparr>) S2"
    using on_frame_at [where act = "set_sbag s", OF at1, of 0] by auto
  have "cs_only S S2" using cs_only_trans [OF S1(3)] cs_only_trans [OF _ S2(3)] cs_only_put(3) by blast
  then show ?thesis using True S1(1) sp1 N S2(1,2) B1(3-5)
    by (intro exI [of _ S2] exI [of _ B3] exI [of _ s]) simp
next
  case False
  have same: "f\<lparr>Sbag := Sbag f, Sbag_used := False\<rparr> = f" by (rule FrameData_t.equality) (simp_all add: False)
  have "cmem B ext {} = cjoin p (Sbag f) (cmem B ext {})"
    using okf False by (auto simp: frame_ok_def cjoin_def fun_eq_iff)
  moreover have "Sbag f \<noteq> 0" using okf by (simp add: frame_ok_def)
  moreover have "cmem B ext {} (Sbag f) = {}" using okf False by (simp add: frame_ok_def)
  ultimately show ?thesis using False at ctl_mono [OF ctl, of "k + 1"]
    by (intro exI [of _ S] exI [of _ B] exI [of _ "Sbag f"]) (simp only: same, simp)
qed

lemma frame_of_pbags: "r < length (pbags_of f) \<Longrightarrow> f\<lparr>Pbags := Some ((pbags_of f)[r := pbags_of f ! r])\<rparr> = f"
  by (cases "Pbags f") (simp_all add: pbags_of_def)

lemma iter_sbag_ok:
  assumes ok: "tool_ok S ext k (f # fs)" and r: "r < length (pbags_of f)" and p: "p = pbags_of f ! r" "p \<noteq> 0"
    and ne: "2 \<le> length (sp_new (cs_sp S))" and k: "k < 2 ^ 64 - 1"
  shows "\<exists>S' s. (if Sbag_used f
      then do {
        S \<leftarrow> on_bags (PBag_combine p (Sbag f)) S;
        (b, B) \<leftarrow> createNewSBag (cs_call_stack S) (cs_sp S);
        on_frame 0 (set_sbag b) (S\<lparr>cs_sp := B\<rparr>)
      }
      else Some S) = Some S' \<and> cs_only S S' \<and>
    tool_ok S' ext (k + 1) (f\<lparr>Sbag := s, Sbag_used := False\<rparr> # fs) \<and>
    tool_abs S' ext (f\<lparr>Sbag := s, Sbag_used := False\<rparr> # fs) =
      a_head (\<lambda>f. (a_join r (a_S f) f)\<lparr>a_S := {}\<rparr>) (tool_abs S ext (f # fs)) \<and>
    length (sp_new (cs_sp S)) \<le> length (sp_new (cs_sp S')) + 2"
proof -
  note T = tool_okD [OF ok]
  let ?B = "cs_sp S" and ?m = "cmem (cs_sp S) ext {}" and ?v = "ver_of (cs_sp S)"
  have okf: "frame_ok ?m f" and lf: "loop_ok f" using T(4,5) by simp_all
  have pin: "p \<in> set (pbags_of f)" using r p(1) by simp
  have Sf: "Sbag f \<noteq> 0" using okf by (simp add: frame_ok_def)
  let ?f = "\<lambda>s. f\<lparr>Sbag := s, Sbag_used := False\<rparr>"
  obtain S' B' s where I: "(if Sbag_used f
      then do {
        S \<leftarrow> on_bags (PBag_combine p (Sbag f)) S;
        (b, B) \<leftarrow> createNewSBag (cs_call_stack S) (cs_sp S);
        on_frame 0 (set_sbag b) (S\<lparr>cs_sp := B\<rparr>)
      }
      else Some S) = Some S'" "cs_only S S'" "s \<noteq> 0" "cs_at S' (?f s # fs) B'" "ctl B' ext (k + 1) {} (?f s # fs)"
    "cmem B' ext {} = cjoin p (Sbag f) ?m" "\<forall>a. a \<noteq> s \<longrightarrow> a \<noteq> Sbag f \<longrightarrow> payloads B' a = payloads ?B a"
    "length (sp_new ?B) \<le> length (sp_new B') + 2" "cmem B' ext {} s = {}"
    using iter_sbag_at [OF T(1,2) okf pin p(2) ne k] by blast
  let ?ps = "pbags_of f" and ?mz = "?m(s := {})" and ?vz = "?v(s := ver_of B' s)"
  have fe: "(?f s)\<lparr>Pbags := Some (?ps[r := p])\<rparr> = ?f s" "Pbags (?f s) = Some ?ps"
    using frame_of_pbags [of r "?f s"] r p(1) by (simp, cases "Pbags f") (simp_all add: pbags_of_def)
  have z: "?m 0 = {}" "?v 0 = 0" using cmem_0 [OF T(2)] ver_of_0 [OF T(2)] by simp_all
  have z0: "?mz 0 = {}" "?vz 0 = 0" using z I(3) by simp_all
  have d: "distinct (filter (\<lambda>p. p \<noteq> 0) (s # Iterbag f # ?ps))"
    using ctl_distinct [OF I(5), of "?f s"] by simp
  have ns: "a \<noteq> s" if "a = Iterbag f \<or> a \<in> set ?ps" "a \<noteq> 0" for a
    using d that I(3) by (auto split: if_splits)
  have nf: "a \<noteq> Sbag f" if "a = Iterbag f \<or> a \<in> set ?ps" "a \<noteq> 0" for a
    using ctl_distinct [OF T(2), of f] that Sf by (auto split: if_splits)
  have mb: "cmem B' ext {} p = ?mz (?ps ! r) \<union> ?m (Sbag f)"
    using I(6) p ns [of p] pin by (simp add: cjoin_def)
  have okp: "frame_ok ?mz (?f s)" using okf I(3) by (auto simp: frame_ok_def)
  have keep: "cmem B' ext {} a = ?mz a \<and> ver_of B' a = ?vz a"
    if a: "a \<noteq> 0" "a \<noteq> p" "a \<in># owned (?f s # fs)" for a
  proof (cases "a = s")
    case False
    have "Sbag f \<notin># owned fs" by (rule ctl_disjoint [OF T(2)]) (simp add: frame_ptrs_mem Sf)
    then have "a \<noteq> Sbag f" using a False nf [of a] by (auto simp: frame_ptrs_mem)
    then show ?thesis using False I(6,7) a(2) by (auto simp: cjoin_def intro: ver_of_eq)
  qed (use I(9) in simp)
  have c': "ctl B' ext (k + 1) {} ((?f s)\<lparr>Pbags := Some (?ps[r := p])\<rparr> # fs)" using I(5) fe(1) by simp
  note J = head_join [where m = ?mz and v = ?vz, OF c' fe(2) r p(2) mb z0 okp keep, unfolded fe(1)]
  have below: "?mz a = ?m a \<and> ?vz a = ?v a" if "a \<in># owned fs" for a
    using ctl_disjoint [OF I(5), of s] that I(3) by (auto simp: frame_ptrs_mem)
  note cong = abs_frames_cong [where m = ?mz and m' = ?m and v = ?vz and v' = ?v and fs = fs]
  have rest: "map (abs_frame ?mz ?vz) fs = map (abs_frame ?m ?v) fs"
    "g \<in> set fs \<Longrightarrow> frame_ok ?mz g = frame_ok ?m g" for g
    using cong below z z0 by simp_all
  have sp: "cs_sp S' = B'" using I(4) by (simp add: cs_at_def)
  have "loop_ok (?f s)" using lf by (simp add: loop_ok_def is_loop_frame_def)
  then have ok': "tool_ok S' ext (k + 1) (?f s # fs)"
    using I(4,5) sp J(3,4) rest(2) T(3-5) cs_only_shadow(1) [OF I(2)] by (simp add: tool_ok_def)
  have P: "map (\<lambda>q. if q = 0 then None else Some (?mz q)) ?ps = map (\<lambda>q. if q = 0 then None else Some (?m q)) ?ps"
    using ns by (intro map_cong refl) auto
  have it: "?mz (Iterbag f) = ?m (Iterbag f)" "?vz (Iterbag f) = ?v (Iterbag f)"
    using ns [of "Iterbag f"] I(3) by (cases "Iterbag f = 0", auto)+
  have "abs_frame ?mz ?vz (?f s) = (abs_frame ?m ?v f)\<lparr>a_S := {}\<rparr>"
    using P it by (simp add: abs_frame_def is_loop_frame_def)
  then have "tool_abs S' ext (?f s # fs) = a_head (\<lambda>f. (a_join r (a_S f) f)\<lparr>a_S := {}\<rparr>) (tool_abs S ext (f # fs))"
    using J(1,2) rest(1) sp by (simp add: tool_abs_Cons a_join_def)
  then show ?thesis using I(1,2,8) ok' sp by blast
qed

lemma inc_version_at:
  assumes ctl: "ctl B ext k {} (f # fs)" and i: "Iterbag f \<noteq> 0"
  shows "\<exists>ok B'. frame_inc_version f B = Some (ok, B') \<and> ctl B' ext k {} (f # fs) \<and>
    cmem B' ext {} = cmem B ext {} \<and> sp_new B' = sp_new B \<and>
    (ok \<longleftrightarrow> Suc (ver_of B (Iterbag f)) \<noteq> VERSIONS) \<and>
    ver_of B' (Iterbag f) = (if ok then Suc (ver_of B (Iterbag f)) else 0) \<and>
    (\<forall>a. a \<noteq> Iterbag f \<longrightarrow> payloads B' a = payloads B a)"
proof -
  have "Iterbag f \<in># owned (f # fs)" using owned_ptr [of f "f # fs" "Iterbag f"] i by simp
  then obtain D where D: "sp_bags B (Iterbag f) = Some D" using ctl_owned [OF ctl] by blast
  have sD: "is_SBag D" using ctl_sbag_kind(2) [OF ctl, of f] D by (simp add: s_kind_def)
  define p where "p = (bag_payload D AND NOT VERSION_MASK) OR ucast ((ucast (getAvailablePayload D AND VERSION_MASK) :: version_t) + 1)"
  let ?B = "sp_put_bag (Iterbag f) (D\<lparr>bag_payload := p\<rparr>) B" and ?v = "SBag_get_version D"
  have inc: "snd (SBag_inc_version D) = D\<lparr>bag_payload := p\<rparr>" by (simp add: SBag_inc_version_def p_def Let_def)
  note I = SBag_inc_version_ok [of D, unfolded inc]
  have sp: "is_SBag (D\<lparr>bag_payload := p\<rparr>)" using I(3) sD by simp
  have run: "frame_inc_version f B = Some (?v \<noteq> - 1, ?B)"
    using i D inc I(2) by (simp add: frame_inc_version_def prod.case_eq_if)
  have m: "unat (- 1 :: version_t) = 65535" by (simp add: unsigned_minus_1_eq_mask mask_eq_exp_minus_1)
  have v: "ver_of B (Iterbag f) = unat ?v" by (rule ver_of_bag) (rule D)
  have wrap: "?v \<noteq> - 1 \<longleftrightarrow> Suc (unat ?v) \<noteq> VERSIONS"
  proof -
    have "?v = - 1 \<longleftrightarrow> unat ?v = unat (- 1 :: version_t)" by (metis word_unat_eq_iff)
    then show ?thesis by (simp add: m VERSIONS_def)
  qed
  have "sp_bags ?B (Iterbag f) = Some (D\<lparr>bag_payload := p\<rparr>)" by (simp add: sp_put_bag_def)
  then have "ver_of ?B (Iterbag f) = unat (SBag_get_version (D\<lparr>bag_payload := p\<rparr>))" by (rule ver_of_bag)
  moreover have "unat (?v + 1) = (if ?v \<noteq> - 1 then Suc (unat ?v) else 0)"
  proof (cases "?v = - 1")
    case False
    have "unat ?v < 65536" using unsigned_less [of ?v] by simp
    then have "Suc (unat ?v) < 65536" using wrap False by (auto simp: VERSIONS_def)
    then show ?thesis using False by (simp add: unat_word_ariths)
  qed simp
  ultimately have "ver_of ?B (Iterbag f) = (if ?v \<noteq> - 1 then Suc (ver_of B (Iterbag f)) else 0)"
    using I(1) v by simp
  moreover have "payloads ?B a = payloads B a" if "a \<noteq> Iterbag f" for a
    using that by (simp add: payloads_def sp_put_bag_def)
  ultimately show ?thesis
    using run wrap v ctl_put_payload [OF ctl D sD sp]
    by (intro exI [of _ "?v \<noteq> - 1"] exI [of _ ?B]) simp
qed

text \<open>The iteration bag of the wrapped-around version goes to the P-bag.\<close>

lemma iter_wrap_at:
  assumes at: "cs_at S (f # fs) B" and ctl: "ctl B ext k {} (f # fs)" and okf: "frame_ok (cmem B ext {}) f"
    and l: "is_loop_frame f" "Iterbag f \<noteq> 0"
    and p: "p \<in> set (pbags_of f)" "p \<noteq> 0" and ne: "2 \<le> length (sp_new B)" and k: "k < 2 ^ 64 - 1"
    and v0: "ver_of B (Iterbag f) = 0"
  shows "\<exists>S' B' s. (if Iterbag_used f
      then do { S \<leftarrow> on_bags (PBag_combine p (Iterbag f)) S; on_frame 0 create_iterbag S }
      else Some S) = Some S' \<and> cs_only S S' \<and> s \<noteq> 0 \<and>
    cs_at S' (f\<lparr>Iterbag := s, Iterbag_used := False\<rparr> # fs) B' \<and>
    ctl B' ext (k + 1) {} (f\<lparr>Iterbag := s, Iterbag_used := False\<rparr> # fs) \<and>
    cmem B' ext {} = cjoin p (Iterbag f) (cmem B ext {}) \<and> cmem B' ext {} s = {} \<and> ver_of B' s = 0 \<and>
    (\<forall>a. a \<noteq> s \<longrightarrow> a \<noteq> Iterbag f \<longrightarrow> payloads B' a = payloads B a) \<and>
    length (sp_new B) \<le> length (sp_new B') + 2"
proof (cases "Iterbag_used f")
  case True
  have Sf: "Sbag f \<noteq> 0" using okf by (simp add: frame_ok_def)
  have ne1: "p \<noteq> Iterbag f" "Sbag f \<noteq> Iterbag f"
    using ctl_distinct [OF ctl, of f] Sf p l(2) by (auto split: if_splits)
  have o: "p \<in># owned (f # fs)" "Iterbag f \<in># owned (f # fs)"
    using owned_ptr [of f "f # fs" p] owned_ptr [of f "f # fs" "Iterbag f"] l p by simp_all
  have pk: "p_kind B p" using ctl_pbag_kind [OF ctl, of f p] p by simp
  obtain B1 where B1: "PBag_combine p (Iterbag f) B = Some B1" "ctl B1 ext (Suc k) {Iterbag f} (f # fs)"
    "cmem B1 ext {Iterbag f} = cjoin p (Iterbag f) (cmem B ext {})" "payloads B1 = payloads B" "sp_new B1 = sp_new B"
    using ctl_PBag_combine [OF ctl k ne1(1) _ _ o(1) pk o(2)] by auto
  obtain S1 where S1: "on_bags (PBag_combine p (Iterbag f)) S = Some S1" "cs_at S1 (f # fs) B1" "cs_only S S1"
    using on_bags_at [where act = "PBag_combine p (Iterbag f)", OF at B1(1)] by blast
  have new: "2 \<le> length (sp_new B1)" and e: "cmem B1 ext {Iterbag f} (Iterbag f) = {}"
    using ne B1(5) by (simp_all add: cmem_def)
  let ?f = "\<lambda>s. f\<lparr>Iterbag := s, Iterbag_used := False\<rparr>"
  obtain s B2 where N: "create_iterbag f B1 = Some (?f s, B2)" "s \<noteq> 0"
    "ctl B2 ext (Suc k) ({Iterbag f} - {Iterbag f}) (?f s # fs)"
    "cmem B2 ext ({Iterbag f} - {Iterbag f}) = cmem B1 ext {Iterbag f}" "cmem B1 ext {Iterbag f} s = {}"
    "\<exists>D. sp_bags B2 s = Some D \<and> SBag_get_version D = 0"
    "\<forall>a. a \<noteq> s \<longrightarrow> a \<noteq> Iterbag f \<longrightarrow> payloads B2 a = payloads B1 a" "sp_new B2 = drop 2 (sp_new B1)"
    using ctl_new_iterbag [OF B1(2) new e l(1) Sf ne1(2)] by blast
  have "create_iterbag ((f # fs) ! unat (0 :: u32)) B1 = Some (?f s, B2)" using N(1) by simp
  then obtain S2 where S2: "on_frame 0 create_iterbag S1 = Some S2" "cs_at S2 (?f s # fs) B2" "cs_only S1 S2"
    using on_frame_at [where act = create_iterbag, OF S1(2), of 0] by auto
  have vs: "ver_of B2 s = 0" using N(6) by (auto simp: ver_of_bag)
  have "cs_only S S2" using cs_only_trans [OF S1(3) S2(3)] .
  then show ?thesis using True S1(1) N S2(1,2) B1(3-5) vs
    by (intro exI [of _ S2] exI [of _ B2] exI [of _ s]) simp
next
  case False
  have same: "f\<lparr>Iterbag := Iterbag f, Iterbag_used := False\<rparr> = f" by (rule FrameData_t.equality) (simp_all add: False)
  have "cmem B ext {} = cjoin p (Iterbag f) (cmem B ext {})"
    using okf False by (auto simp: frame_ok_def cjoin_def fun_eq_iff)
  moreover have "cmem B ext {} (Iterbag f) = {}" using okf False by (simp add: frame_ok_def)
  ultimately show ?thesis using False at ctl_mono [OF ctl, of "k + 1"] l v0
    by (intro exI [of _ S] exI [of _ B] exI [of _ "Iterbag f"]) (simp only: same, simp)
qed

definition a_iter_version :: "nat \<Rightarrow> 'x aframe \<Rightarrow> 'x aframe" where
  "a_iter_version r f =
     (if Suc (a_ver f) = VERSIONS then (a_join r (a_I f) f)\<lparr>a_I := {}, a_ver := 0\<rparr>
      else f\<lparr>a_ver := Suc (a_ver f)\<rparr>)"

lemma iter_wrap_ok:
  assumes at: "cs_at S (f # fs) B" and ctl: "ctl B ext k {} (f # fs)"
    and sh: "occ_ok (cs_shadow S)" and T: "\<forall>g \<in> set (f # fs). frame_ok (cmem B ext {}) g \<and> loop_ok g"
    and l: "is_loop_frame f" and r: "r < length (pbags_of f)" and p: "p = pbags_of f ! r" "p \<noteq> 0"
    and ne: "2 \<le> length (sp_new B)" and k: "k < 2 ^ 64 - 1" and v0: "ver_of B (Iterbag f) = 0"
  shows "\<exists>S' f'. (if Iterbag_used f
      then do { S \<leftarrow> on_bags (PBag_combine p (Iterbag f)) S; on_frame 0 create_iterbag S }
      else Some S) = Some S' \<and> cs_only S S' \<and> tool_ok S' ext (k + 1) (f' # fs) \<and>
    tool_abs S' ext (f' # fs) =
      (a_join r (cmem B ext {} (Iterbag f)) (abs_frame (cmem B ext {}) (ver_of B) f))\<lparr>a_I := {}, a_ver := 0\<rparr> #
      map (abs_frame (cmem B ext {}) (ver_of B)) fs \<and>
    length (sp_new B) \<le> length (sp_new (cs_sp S')) + 2 \<and> pbags_of f' = pbags_of f"
proof -
  let ?m = "cmem B ext {}" and ?v = "ver_of B" and ?f = "\<lambda>s. f\<lparr>Iterbag := s, Iterbag_used := False\<rparr>"
  have okf: "frame_ok ?m f" and lf: "loop_ok f" using T by simp_all
  have pin: "p \<in> set (pbags_of f)" using r p(1) by simp
  have If: "Iterbag f \<noteq> 0" using lf l by (simp add: loop_ok_def)
  obtain S' B' s where I: "(if Iterbag_used f
      then do { S \<leftarrow> on_bags (PBag_combine p (Iterbag f)) S; on_frame 0 create_iterbag S }
      else Some S) = Some S'" "cs_only S S'" "s \<noteq> 0" "cs_at S' (?f s # fs) B'" "ctl B' ext (k + 1) {} (?f s # fs)"
    "cmem B' ext {} = cjoin p (Iterbag f) ?m" "cmem B' ext {} s = {}" "ver_of B' s = 0"
    "\<forall>a. a \<noteq> s \<longrightarrow> a \<noteq> Iterbag f \<longrightarrow> payloads B' a = payloads B a"
    "length (sp_new B) \<le> length (sp_new B') + 2"
    using iter_wrap_at [OF at ctl okf l If pin p(2) ne k v0] by blast
  let ?ps = "pbags_of f" and ?mz = "?m(s := {})" and ?vz = "?v(s := 0)"
  have fe: "(?f s)\<lparr>Pbags := Some (?ps[r := p])\<rparr> = ?f s" "Pbags (?f s) = Some ?ps"
    using frame_of_pbags [of r "?f s"] r p(1) by (simp, cases "Pbags f") (simp_all add: pbags_of_def)
  have z: "?m 0 = {}" "?v 0 = 0" using cmem_0 [OF ctl] ver_of_0 [OF ctl] by simp_all
  have z0: "?mz 0 = {}" "?vz 0 = 0" using z I(3) by simp_all
  have d: "distinct (filter (\<lambda>p. p \<noteq> 0) (Sbag f # s # ?ps))"
    using ctl_distinct [OF I(5), of "?f s"] by simp
  have ns: "a \<noteq> s" if "a = Sbag f \<or> a \<in> set ?ps" "a \<noteq> 0" for a
    using d that I(3) by (auto split: if_splits)
  have nf: "a \<noteq> Iterbag f" if "a = Sbag f \<or> a \<in> set ?ps" "a \<noteq> 0" for a
    using ctl_distinct [OF ctl, of f] that If by (auto split: if_splits)
  have mb: "cmem B' ext {} p = ?mz (?ps ! r) \<union> ?m (Iterbag f)"
    using I(6) p ns [of p] pin by (simp add: cjoin_def)
  have okp: "frame_ok ?mz (?f s)" using okf I(3) ns [of "Sbag f"] by (auto simp: frame_ok_def)
  have keep: "cmem B' ext {} a = ?mz a \<and> ver_of B' a = ?vz a"
    if a: "a \<noteq> 0" "a \<noteq> p" "a \<in># owned (?f s # fs)" for a
  proof (cases "a = s")
    case False
    have "Iterbag f \<notin># owned fs" by (rule ctl_disjoint [OF ctl]) (simp add: frame_ptrs_mem If)
    then have "a \<noteq> Iterbag f" using a False nf [of a] by (auto simp: frame_ptrs_mem)
    then show ?thesis using False I(6,9) a(2) by (auto simp: cjoin_def intro: ver_of_eq)
  qed (use I(7,8) in simp)
  have c': "ctl B' ext (k + 1) {} ((?f s)\<lparr>Pbags := Some (?ps[r := p])\<rparr> # fs)" using I(5) fe(1) by simp
  note J = head_join [where m = ?mz and v = ?vz, OF c' fe(2) r p(2) mb z0 okp keep, unfolded fe(1)]
  have below: "?mz a = ?m a \<and> ?vz a = ?v a" if "a \<in># owned fs" for a
    using ctl_disjoint [OF I(5), of s] that I(3) by (auto simp: frame_ptrs_mem)
  note cong = abs_frames_cong [where m = ?mz and m' = ?m and v = ?vz and v' = ?v and fs = fs]
  have rest: "map (abs_frame ?mz ?vz) fs = map (abs_frame ?m ?v) fs"
    "g \<in> set fs \<Longrightarrow> frame_ok ?mz g = frame_ok ?m g" for g
    using cong below z z0 by simp_all
  have sp: "cs_sp S' = B'" using I(4) by (simp add: cs_at_def)
  have "loop_ok (?f s)" using lf I(3) l by (simp add: loop_ok_def is_loop_frame_def)
  then have ok': "tool_ok S' ext (k + 1) (?f s # fs)"
    using I(4,5) sp J(3,4) rest(2) T sh cs_only_shadow(1) [OF I(2)] by (simp add: tool_ok_def)
  have P: "map (\<lambda>q. if q = 0 then None else Some (?mz q)) ?ps = map (\<lambda>q. if q = 0 then None else Some (?m q)) ?ps"
    using ns by (intro map_cong refl) auto
  have s: "?mz (Sbag f) = ?m (Sbag f)" using ns [of "Sbag f"] okf by (auto simp: frame_ok_def)
  have "abs_frame ?mz ?vz (?f s) = (abs_frame ?m ?v f)\<lparr>a_I := {}, a_ver := 0\<rparr>"
    using P s by (simp add: abs_frame_def is_loop_frame_def)
  then have "tool_abs S' ext (?f s # fs) = (a_join r (?m (Iterbag f)) (abs_frame ?m ?v f))\<lparr>a_I := {}, a_ver := 0\<rparr> #
      map (abs_frame ?m ?v) fs"
    using J(1,2) rest(1) sp by (simp add: tool_abs_Cons a_join_def)
  moreover have "pbags_of (?f s) = pbags_of f" by simp
  ultimately show ?thesis using I(1,2,10) ok' sp by blast
qed

lemma iter_version_ok:
  assumes ok: "tool_ok S ext k (f # fs)" and l: "is_loop_frame f"
    and r: "r < length (pbags_of f)" and p: "p = pbags_of f ! r" "p \<noteq> 0"
    and ne: "2 \<le> length (sp_new (cs_sp S))" and k: "k < 2 ^ 64 - 1"
  shows "\<exists>S' f'. do {
      (ok, B) \<leftarrow> frame_inc_version f (cs_sp S);
      let S = S\<lparr>cs_sp := B\<rparr>;
      if \<not> ok \<and> Iterbag_used f
      then do { S \<leftarrow> on_bags (PBag_combine p (Iterbag f)) S; on_frame 0 create_iterbag S }
      else Some S
    } = Some S' \<and> tool_ok S' ext (k + 1) (f' # fs) \<and>
    tool_abs S' ext (f' # fs) = a_head (a_iter_version r) (tool_abs S ext (f # fs)) \<and>
    length (sp_new (cs_sp S)) \<le> length (sp_new (cs_sp S')) + 2 \<and> cs_only S S' \<and> pbags_of f' = pbags_of f"
proof -
  note T = tool_okD [OF ok]
  let ?B = "cs_sp S" and ?m = "cmem (cs_sp S) ext {}" and ?v = "ver_of (cs_sp S)"
  have lf: "loop_ok f" using T(5) by simp
  then have If: "Iterbag f \<noteq> 0" using l by (simp add: loop_ok_def)
  obtain w B' where V: "frame_inc_version f ?B = Some (w, B')" "ctl B' ext k {} (f # fs)"
    "cmem B' ext {} = ?m" "sp_new B' = sp_new ?B" "w \<longleftrightarrow> Suc (?v (Iterbag f)) \<noteq> VERSIONS"
    "ver_of B' (Iterbag f) = (if w then Suc (?v (Iterbag f)) else 0)"
    "\<forall>a. a \<noteq> Iterbag f \<longrightarrow> payloads B' a = payloads ?B a"
    using inc_version_at [OF T(2) If] by blast
  let ?S = "S\<lparr>cs_sp := B'\<rparr>"
  have at: "cs_at ?S (f # fs) B'" using T(1) by (simp add: cs_at_def)
  have If': "Iterbag f \<notin># owned fs" by (rule ctl_disjoint [OF T(2)]) (simp add: frame_ptrs_mem If)
  have vs: "ver_of B' a = ?v a" if "a \<noteq> Iterbag f" for a using V(7) that by (auto intro: ver_of_eq)
  have below: "ver_of B' a = ?v a" if "a \<in># owned fs" for a
    using vs [of a] If' that by auto
  have v0: "ver_of B' 0 = ?v 0" using vs [of 0] If by auto
  have rest: "map (abs_frame ?m (ver_of B')) fs = map (abs_frame ?m ?v) fs"
    using abs_frames_cong(1) [where m = ?m and m' = ?m and v = "ver_of B'" and v' = ?v] below v0 by blast
  show ?thesis
  proof (cases w)
    case True
    have "tool_ok ?S ext (k + 1) (f # fs)"
      using at ctl_mono [OF V(2), of "k + 1"] V(3) T(3-5) by (simp add: tool_ok_def)
    moreover have "tool_abs ?S ext (f # fs) = a_head (a_iter_version r) (tool_abs S ext (f # fs))"
      using V(3,5,6) rest True by (simp add: tool_abs_Cons a_iter_version_def abs_frame_def)
    ultimately show ?thesis using V(1,4) True by (intro exI [of _ ?S] exI [of _ f]) simp
  next
    case False
    have v1: "ver_of B' (Iterbag f) = 0" using V(6) False by simp
    have sh: "occ_ok (cs_shadow ?S)" using T(3) by simp
    have T': "\<forall>g \<in> set (f # fs). frame_ok (cmem B' ext {}) g \<and> loop_ok g" using V(3) T(4,5) by simp
    have ne': "2 \<le> length (sp_new B')" using ne V(4) by simp
    obtain S' f' where W: "(if Iterbag_used f
      then do { S \<leftarrow> on_bags (PBag_combine p (Iterbag f)) ?S; on_frame 0 create_iterbag S }
      else Some ?S) = Some S'" "cs_only ?S S'" "tool_ok S' ext (k + 1) (f' # fs)"
      "tool_abs S' ext (f' # fs) =
        (a_join r (cmem B' ext {} (Iterbag f)) (abs_frame (cmem B' ext {}) (ver_of B') f))\<lparr>a_I := {}, a_ver := 0\<rparr> #
        map (abs_frame (cmem B' ext {}) (ver_of B')) fs"
      "length (sp_new B') \<le> length (sp_new (cs_sp S')) + 2" "pbags_of f' = pbags_of f"
      using iter_wrap_ok [OF at V(2) sh T' l r p ne' k v1] by blast
    have abs: "tool_abs S' ext (f' # fs) = a_head (a_iter_version r) (tool_abs S ext (f # fs))"
      using W(4) V(3,5) rest False by (simp add: tool_abs_Cons a_iter_version_def abs_frame_def a_join_def)
    have only: "cs_only S S'" using cs_only_trans [OF cs_only_put(3) W(2)] .
    have run: "do {
      (ok, B) \<leftarrow> frame_inc_version f (cs_sp S);
      let S = S\<lparr>cs_sp := B\<rparr>;
      if \<not> ok \<and> Iterbag_used f
      then do { S \<leftarrow> on_bags (PBag_combine p (Iterbag f)) S; on_frame 0 create_iterbag S }
      else Some S
    } = Some S'" using V(1) False W(1) by simp
    show ?thesis using run W(3,5,6) abs only V(4) by (intro exI [of _ S'] exI [of _ f']) simp
  qed
qed

lemma a_iter_end_stages:
  assumes "0 < length (a_P f)"
  shows "a_head (a_iter_version 0) (a_head (\<lambda>f. (a_join 0 (a_S f) f)\<lparr>a_S := {}\<rparr>) (a_head (a_join 0 {}) (f # fs))) =
    a_iter_end (f # fs)"
  using assms by (simp add: a_join_def a_iter_version_def Let_def Un_assoc)

lemma do_loop_iteration_end_ok:
  assumes ok: "tool_ok S ext k (f # fs)" and l: "is_loop_frame f"
    and ne: "5 \<le> length (sp_new (cs_sp S))" and k: "k + 2 < 2 ^ 64 - 1"
  shows "\<exists>S' f'. do_loop_iteration_end U S = Some S' \<and> tool_ok S' ext (k + 2) (f' # fs) \<and>
    tool_abs S' ext (f' # fs) = a_iter_end (tool_abs S ext (f # fs)) \<and>
    length (pbags_of f') = length (pbags_of f)"
proof -
  note T = tool_okD [OF ok]
  let ?B = "cs_sp S" and ?i = "InContin f AND NOT 1"
  have lf: "loop_ok f" and okf: "frame_ok (cmem ?B ext {}) f" using T(4,5) by simp_all
  obtain S1 where S1: "end_strand S = Some S1" "cs_frame_stack S1 = cs_frame_stack S" "cs_sp S1 = ?B"
    "occ_ok (cs_shadow S1)"
    using end_strand_at [OF T(3)] by blast
  have red: "reduce_local_views U S = Some S" using reduce_none_at [OF T(1)] okf by (simp add: frame_ok_def)
  have at1: "cs_at S1 (f # fs) ?B" using T(1) S1(2,3) by (simp add: cs_at_def)
  have anc1: "cs_ancestor 0 S1 = Some f" using cs_at_ancestor [OF at1, of 0] by simp
  let ?f = "f\<lparr>InContin := ?i\<rparr>" and ?S = "cs_put_frame 0 (f\<lparr>InContin := ?i\<rparr>) S1"
  note P = put_contin_at [where i = ?i, OF at1 T(2)]
  have ok1: "tool_ok ?S ext k (?f # fs)" using P T(4,5) S1(3,4) by (simp add: tool_ok_def)
  have abs1: "tool_abs ?S ext (?f # fs) = tool_abs S ext (f # fs)" using P(3) S1(3) by (simp add: tool_abs_Cons)
  have r: "0 < length (pbags_of ?f)" using lf l by (simp add: loop_ok_def)
  have new: "sp_new (cs_sp ?S) \<noteq> []" using ne S1(3) by auto
  have anc: "cs_ancestor 0 ?S = Some ?f" using cs_at_ancestor [OF P(1), of 0] by simp
  obtain b S2 f2 where E: "ensure_pbag 0 0 ?S = Some (b, S2)" "tool_ok S2 ext k (f2 # fs)"
    "tool_abs S2 ext (f2 # fs) = a_head (a_join 0 {}) (tool_abs ?S ext (?f # fs))"
    "f2 = ?f\<lparr>Pbags := Some ((pbags_of ?f)[0 := b])\<rparr>" "b \<noteq> 0"
    "length (sp_new (cs_sp ?S)) \<le> length (sp_new (cs_sp S2)) + 1"
    using ensure_pbag_ok [OF ok1 r new] by blast
  have p2: "pbags_of f2 = (pbags_of f)[0 := b]" using E(4) by simp
  have r2: "0 < length (pbags_of f2)" "b = pbags_of f2 ! 0" using p2 r by simp_all
  have ne2: "2 \<le> length (sp_new (cs_sp S2))" and k2: "k < 2 ^ 64 - 1" using E(6) ne S1(3) k by simp_all
  have anc2: "cs_ancestor 0 S2 = Some f2" using cs_at_ancestor [OF tool_okD(1) [OF E(2)], of 0] by simp
  let ?f3 = "\<lambda>s. f2\<lparr>Sbag := s, Sbag_used := False\<rparr>"
  obtain S3 s where I: "(if Sbag_used f2
      then do {
        S \<leftarrow> on_bags (PBag_combine b (Sbag f2)) S2;
        (b, B) \<leftarrow> createNewSBag (cs_call_stack S) (cs_sp S);
        on_frame 0 (set_sbag b) (S\<lparr>cs_sp := B\<rparr>)
      }
      else Some S2) = Some S3" "tool_ok S3 ext (k + 1) (?f3 s # fs)"
    "tool_abs S3 ext (?f3 s # fs) = a_head (\<lambda>f. (a_join 0 (a_S f) f)\<lparr>a_S := {}\<rparr>) (tool_abs S2 ext (f2 # fs))"
    "length (sp_new (cs_sp S2)) \<le> length (sp_new (cs_sp S3)) + 2"
    using iter_sbag_ok [OF E(2) r2(1,2) E(5) ne2 k2] by blast
  have anc3: "cs_ancestor 0 S3 = Some (?f3 s)" using cs_at_ancestor [OF tool_okD(1) [OF I(2)], of 0] by simp
  have l3: "is_loop_frame (?f3 s)" using l E(4) by (simp add: is_loop_frame_def)
  have r3: "0 < length (pbags_of (?f3 s))" "b = pbags_of (?f3 s) ! 0" using r2 by simp_all
  have ne3: "2 \<le> length (sp_new (cs_sp S3))" and k3: "k + 1 < 2 ^ 64 - 1" using I(4) E(6) ne S1(3) k by simp_all
  obtain S4 f4 where V: "do {
      (ok, B) \<leftarrow> frame_inc_version (?f3 s) (cs_sp S3);
      let S = S3\<lparr>cs_sp := B\<rparr>;
      if \<not> ok \<and> Iterbag_used (?f3 s)
      then do { S \<leftarrow> on_bags (PBag_combine b (Iterbag (?f3 s))) S; on_frame 0 create_iterbag S }
      else Some S
    } = Some S4" "tool_ok S4 ext (k + 1 + 1) (f4 # fs)"
    "tool_abs S4 ext (f4 # fs) = a_head (a_iter_version 0) (tool_abs S3 ext (?f3 s # fs))"
    "pbags_of f4 = pbags_of (?f3 s)"
    using iter_version_ok [OF I(2) l3 r3(1,2) E(5) ne3 k3] by blast
  have loop: "in_loop ?S = Some True" using anc l by (simp add: in_loop_def is_loop_frame_def)
  have run: "do_loop_iteration_end U S = Some S4"
    using red S1(1) anc1 loop E(1) anc2 I(1) anc3 V(1)
    by (simp add: do_loop_iteration_end_def exit_loop_continuation_def Let_def split: option.splits prod.splits)
  have "0 < length (a_P (abs_frame (cmem ?B ext {}) (ver_of ?B) f))" using r by simp
  then have "tool_abs S4 ext (f4 # fs) = a_iter_end (tool_abs S ext (f # fs))"
    using a_iter_end_stages unfolding V(3) I(3) E(3) abs1 by (simp only: tool_abs_Cons)
  then show ?thesis using run V(2,4) p2 by (intro exI [of _ S4] exI [of _ f4]) simp
qed

text \<open>The end of a loop: the iteration bag goes to the P-bag, and the loop frame leaves.\<close>

lemma drop_iterbag_ok:
  assumes ok: "tool_ok S ext k (f # fs)" and l: "is_loop_frame f"
    and r: "r < length (pbags_of f)" and p: "p = pbags_of f ! r" "p \<noteq> 0" and k: "k < 2 ^ 64 - 1"
  shows "\<exists>S'. do {
      S \<leftarrow> (if Iterbag_used f then on_bags (PBag_combine p (Iterbag f)) S else Some S);
      on_frame 0 (set_iterbag 0) S
    } = Some S' \<and> tool_ok_but S' ext (k + 1) (f\<lparr>Iterbag := 0, Iterbag_used := False\<rparr>) fs \<and>
    tool_abs S' ext (f\<lparr>Iterbag := 0, Iterbag_used := False\<rparr> # fs) =
      a_head (\<lambda>f. (a_join r (a_I f) f)\<lparr>a_I := {}, a_ver := 0\<rparr>) (tool_abs S ext (f # fs)) \<and>
    sp_new (cs_sp S') = sp_new (cs_sp S)"
proof -
  note T = tool_okD [OF ok]
  let ?B = "cs_sp S" and ?m = "cmem (cs_sp S) ext {}" and ?v = "ver_of (cs_sp S)"
    and ?f = "f\<lparr>Iterbag := 0, Iterbag_used := False\<rparr>" and ?ps = "pbags_of f"
  have lf: "loop_ok f" and okf: "frame_ok ?m f" using T(4,5) by simp_all
  have If: "Iterbag f \<noteq> 0" using lf l by (simp add: loop_ok_def)
  have pin: "p \<in> set ?ps" using r p(1) by simp
  have ne: "p \<noteq> Iterbag f" using ctl_distinct [OF T(2), of f] If p(2) pin by (auto split: if_splits)
  have o: "p \<in># owned (f # fs)" "Iterbag f \<in># owned (f # fs)"
    using owned_ptr [of f "f # fs" p] owned_ptr [of f "f # fs" "Iterbag f"] If p(2) pin by simp_all
  have pk: "p_kind ?B p" using ctl_pbag_kind [OF T(2), of f p] pin by simp
  have u: "\<not> Iterbag_used f \<longrightarrow> ?m (Iterbag f) = {}" using okf by (simp add: frame_ok_def)
  obtain S1 B1 X where C: "(if Iterbag_used f then on_bags (PBag_combine p (Iterbag f)) S else Some S) = Some S1"
    "cs_at S1 (f # fs) B1" "cs_only S S1" "X \<subseteq> {Iterbag f}" "ctl B1 ext (Suc k) X (f # fs)"
    "cmem B1 ext X = cjoin p (Iterbag f) ?m" "payloads B1 = payloads ?B" "sp_new B1 = sp_new ?B"
    using combine_used_at [OF T(1,2) k ne o(1) pk o(2) u] by blast
  have e: "cmem B1 ext X (Iterbag f) = {}" using C(6) ne by (simp add: cjoin_def)
  obtain B2 where D: "set_iterbag 0 f B1 = Some (?f, B2)" "ctl B2 ext (Suc k) (X - {Iterbag f}) (?f # fs)"
    "cmem B2 ext (X - {Iterbag f}) = cmem B1 ext X" "\<forall>c. c \<noteq> Iterbag f \<longrightarrow> payloads B2 c = payloads B1 c"
    "sp_new B2 = sp_new B1"
    using ctl_set_iterbag_0 [OF C(5) e] by blast
  have "set_iterbag 0 ((f # fs) ! unat (0 :: u32)) B1 = Some (?f, B2)" using D(1) by simp
  then obtain S2 where S2: "on_frame 0 (set_iterbag 0) S1 = Some S2" "cs_at S2 (?f # fs) B2" "cs_only S1 S2"
    using on_frame_at [where act = "set_iterbag 0", OF C(2), of 0] by auto
  have X0: "X - {Iterbag f} = {}" using C(4) by auto
  have c2: "ctl B2 ext (k + 1) {} (?f # fs)" and m2: "cmem B2 ext {} = cjoin p (Iterbag f) ?m"
    using D(2,3) C(6) X0 by simp_all
  have only: "cs_only S S2" using cs_only_trans [OF C(3) S2(3)] .
  have sp: "cs_sp S2 = B2" using S2(2) by (simp add: cs_at_def)
  have z: "?m 0 = {}" "?v 0 = 0" using cmem_0 [OF T(2)] ver_of_0 [OF T(2)] by simp_all
  have fe: "?f\<lparr>Pbags := Some (?ps[r := p])\<rparr> = ?f" "Pbags ?f = Some ?ps"
    using frame_of_pbags [of r ?f] r p(1) by (simp, cases "Pbags f") (simp_all add: pbags_of_def)
  have mb: "cmem B2 ext {} p = ?m (?ps ! r) \<union> ?m (Iterbag f)" using m2 p(1) by (simp add: cjoin_def)
  have okp: "frame_ok ?m ?f" using okf z(1) by (simp add: frame_ok_def)
  have If': "Iterbag f \<notin># owned fs" by (rule ctl_disjoint [OF T(2)]) (simp add: frame_ptrs_mem If)
  have nf: "a \<noteq> Iterbag f" if "a = Sbag f \<or> a \<in> set ?ps" "a \<noteq> 0" for a
    using ctl_distinct [OF T(2), of f] that If by (auto split: if_splits)
  have keep: "cmem B2 ext {} a = ?m a \<and> ver_of B2 a = ?v a"
    if a: "a \<noteq> 0" "a \<noteq> p" "a \<in># owned (?f # fs)" for a
  proof -
    have "a \<noteq> Iterbag f" using a If' nf [of a] by (auto simp: frame_ptrs_mem)
    then show ?thesis using m2 D(4) C(7) a(2) by (auto simp: cjoin_def intro: ver_of_eq)
  qed
  have c': "ctl B2 ext (k + 1) {} (?f\<lparr>Pbags := Some (?ps[r := p])\<rparr> # fs)" using c2 fe(1) by simp
  note J = head_join [where m = ?m and v = ?v, OF c' fe(2) r p(2) mb z okp keep, unfolded fe(1)]
  have "tool_ok_but S2 ext (k + 1) ?f fs"
    using S2(2) c2 sp J(3,4) T(3-5) cs_only_shadow(1) [OF only] by (simp add: tool_ok_but_def)
  moreover have "abs_frame ?m ?v ?f = (abs_frame ?m ?v f)\<lparr>a_I := {}, a_ver := 0\<rparr>"
    using z by (simp add: abs_frame_def is_loop_frame_def)
  then have "tool_abs S2 ext (?f # fs) =
      a_head (\<lambda>f. (a_join r (a_I f) f)\<lparr>a_I := {}, a_ver := 0\<rparr>) (tool_abs S ext (f # fs))"
    using J(1,2) sp by (simp add: tool_abs_Cons a_join_def)
  ultimately show ?thesis using C(1,8) S2(1) D(5) sp by simp
qed

lemma a_loop_end_stages:
  assumes "0 < length (a_P f)" "a_detach f"
  shows "a_leave r (a_head (\<lambda>f. (a_join 0 (a_I f) f)\<lparr>a_I := {}, a_ver := 0\<rparr>) (a_head (a_join 0 {}) (f # p # fs))) =
    a_loop_end r (f # p # fs)"
  using assms by (simp add: a_join_def a_PP_def)

lemma do_loop_end_ok:
  assumes ok: "tool_ok S ext k (f # p # fs)" and l: "is_loop_frame f"
    and r: "unat r < length (pbags_of p)" and ne: "2 \<le> length (sp_new (cs_sp S))"
    and k: "k + length (pbags_of f) + 2 < 2 ^ 64 - 1"
  shows "\<exists>S' p'. do_loop_end r S = Some S' \<and> tool_ok S' ext (k + length (pbags_of f) + 2) (p' # fs) \<and>
    tool_abs S' ext (p' # fs) = a_loop_end (unat r) (tool_abs S ext (f # p # fs)) \<and>
    length (pbags_of p') = length (pbags_of p)"
proof -
  note T = tool_okD [OF ok]
  have lf: "loop_ok f" using T(5) by simp
  have r0: "0 < length (pbags_of f)" and d: "isDetacher (frame_data f)" using lf l by (simp_all add: loop_ok_def)
  have anc: "cs_ancestor 0 S = Some f" using cs_at_ancestor [OF T(1), of 0] by simp
  have new: "sp_new (cs_sp S) \<noteq> []" using ne by auto
  obtain b S1 f1 where E: "ensure_pbag 0 0 S = Some (b, S1)" "tool_ok S1 ext k (f1 # p # fs)"
    "tool_abs S1 ext (f1 # p # fs) = a_head (a_join 0 {}) (tool_abs S ext (f # p # fs))"
    "f1 = f\<lparr>Pbags := Some ((pbags_of f)[0 := b])\<rparr>" "b \<noteq> 0"
    "length (sp_new (cs_sp S)) \<le> length (sp_new (cs_sp S1)) + 1"
    using ensure_pbag_ok [OF ok r0 new] by blast
  have anc1: "cs_ancestor 0 S1 = Some f1" using cs_at_ancestor [OF tool_okD(1) [OF E(2)], of 0] by simp
  have l1: "is_loop_frame f1" "pbags_of f1 = (pbags_of f)[0 := b]" using E(4) l by (simp_all add: is_loop_frame_def)
  have r1: "0 < length (pbags_of f1)" "b = pbags_of f1 ! 0" using l1 r0 by simp_all
  have k1: "k < 2 ^ 64 - 1" using k by simp
  let ?c = "f1\<lparr>Iterbag := 0, Iterbag_used := False\<rparr>"
  obtain S2 where D: "do {
      S \<leftarrow> (if Iterbag_used f1 then on_bags (PBag_combine b (Iterbag f1)) S1 else Some S1);
      on_frame 0 (set_iterbag 0) S
    } = Some S2" "tool_ok_but S2 ext (k + 1) ?c (p # fs)"
    "tool_abs S2 ext (?c # p # fs) =
      a_head (\<lambda>f. (a_join 0 (a_I f) f)\<lparr>a_I := {}, a_ver := 0\<rparr>) (tool_abs S1 ext (f1 # p # fs))"
    "sp_new (cs_sp S2) = sp_new (cs_sp S1)"
    using drop_iterbag_ok [OF E(2) l1(1) r1 E(5) k1] by blast
  have c: "isDetacher (frame_data ?c)" "Iterbag ?c = 0" "length (pbags_of ?c) = length (pbags_of f)"
    using E(4) d by simp_all
  have ne2: "sp_new (cs_sp S2) \<noteq> []" and k2: "k + 1 + length (pbags_of ?c) + 1 < 2 ^ 64 - 1"
    using D(4) E(6) ne k c(3) by auto
  obtain S3 p' where L: "do_leave r S2 = Some S3"
    "tool_ok S3 ext (k + 1 + length (pbags_of ?c) + 1) (p' # fs)"
    "tool_abs S3 ext (p' # fs) = a_leave (unat r) (tool_abs S2 ext (?c # p # fs))"
    "length (pbags_of p') = length (pbags_of p)"
    using do_leave_detach_ok [OF D(2) c(1,2) r ne2 k2] by blast
  have loop: "in_loop S = Some True" using anc l by (simp add: in_loop_def is_loop_frame_def)
  have run: "do_loop_end r S = Some S3"
  proof -
    obtain S4 where "(if Iterbag_used f1 then on_bags (PBag_combine b (Iterbag f1)) S1 else Some S1) = Some S4"
      "on_frame 0 (set_iterbag 0) S4 = Some S2"
      using D(1) unfolding bind_eq_Some_conv by blast
    then show ?thesis using loop E(1) anc1 L(1) by (simp add: do_loop_end_def)
  qed
  have "tool_abs S3 ext (p' # fs) = a_loop_end (unat r) (tool_abs S ext (f # p # fs))"
    using a_loop_end_stages [of "abs_frame (cmem (cs_sp S) ext {}) (ver_of (cs_sp S)) f"] r0 d
    unfolding L(3) D(3) E(3) by (simp add: tool_abs_Cons)
  moreover have "k + 1 + length (pbags_of ?c) + 1 = k + length (pbags_of f) + 2" using c(3) by simp
  ultimately show ?thesis using run L(2,4) by metis
qed

subsection \<open>Strands and continuations\<close>

lemma end_strand_ok:
  assumes ok: "tool_ok S ext k fs"
  shows "\<exists>S'. end_strand S = Some S' \<and> tool_ok S' ext k fs \<and> tool_abs S' ext fs = tool_abs S ext fs \<and>
    cs_sp S' = cs_sp S \<and> cs_start_new_loop S' = cs_start_new_loop S"
proof -
  note T = tool_okD [OF ok]
  obtain S1 where S1: "end_strand S = Some S1" "cs_frame_stack S1 = cs_frame_stack S" "cs_sp S1 = cs_sp S"
    "occ_ok (cs_shadow S1)" "cs_start_new_loop S1 = cs_start_new_loop S"
    using end_strand_at [OF T(3)] by blast
  then show ?thesis using T by (simp add: tool_ok_def tool_abs_def cs_at_def)
qed

lemma put_contin_ok:
  assumes ok: "tool_ok S ext k (f # fs)"
  shows "tool_ok (cs_put_frame 0 (f\<lparr>InContin := i\<rparr>) S) ext k (f\<lparr>InContin := i\<rparr> # fs)"
    "tool_abs (cs_put_frame 0 (f\<lparr>InContin := i\<rparr>) S) ext (f\<lparr>InContin := i\<rparr> # fs) = tool_abs S ext (f # fs)"
  using put_contin_at [where i = i, OF tool_okD(1,2) [OF ok]] tool_okD(3-5) [OF ok]
  by (simp_all add: tool_ok_def tool_abs_Cons)

lemma do_detach_ok:
  "tool_ok S ext k fs \<Longrightarrow> \<exists>S'. do_detach S = Some S' \<and> tool_ok S' ext k fs \<and> tool_abs S' ext fs = tool_abs S ext fs"
  using end_strand_ok unfolding do_detach_def by blast

lemma do_detach_continue_ok:
  assumes ok: "tool_ok S ext k (f # fs)" and r: "unat r < 7"
  shows "\<exists>S' f'. do_detach_continue U r S = Some S' \<and> tool_ok S' ext k (f' # fs) \<and>
    tool_abs S' ext (f' # fs) = tool_abs S ext (f # fs)"
proof -
  have red: "reduce_local_views U S = Some S"
    using reduce_none_at [OF tool_okD(1) [OF ok]] tool_okD(4) [OF ok, of f] by (simp add: frame_ok_def)
  obtain S1 where S1: "end_strand S = Some S1" "tool_ok S1 ext k (f # fs)" "tool_abs S1 ext (f # fs) = tool_abs S ext (f # fs)"
    using end_strand_ok [OF ok] by blast
  have anc: "cs_ancestor 0 S1 = Some f" using cs_at_ancestor [OF tool_okD(1) [OF S1(2)], of 0] by simp
  show ?thesis
    using red S1(1,3) anc r put_contin_ok [OF S1(2)]
    by (simp add: do_detach_continue_def enter_continuation_def) blast
qed

lemma do_loop_next_ok:
  assumes ok: "tool_ok S ext k (f # fs)" and l: "is_loop_frame f" and n: "\<not> cs_start_new_loop S"
  shows "\<exists>S' f'. do_loop_iteration_begin m S = Some S' \<and> tool_ok S' ext k (f' # fs) \<and>
    tool_abs S' ext (f' # fs) = tool_abs S ext (f # fs)"
proof -
  have anc: "cs_ancestor 0 S = Some f" using cs_at_ancestor [OF tool_okD(1) [OF ok], of 0] by simp
  obtain S1 where S1: "end_strand S = Some S1" "tool_ok S1 ext k (f # fs)" "tool_abs S1 ext (f # fs) = tool_abs S ext (f # fs)"
    using end_strand_ok [OF ok] by blast
  have anc1: "cs_ancestor 0 S1 = Some f" using cs_at_ancestor [OF tool_okD(1) [OF S1(2)], of 0] by simp
  show ?thesis
    using n l anc S1(1,3) anc1 put_contin_ok [OF S1(2)]
    by (simp add: do_loop_iteration_begin_def in_loop_def is_loop_frame_def enter_loop_continuation_def) blast
qed

lemma do_loop_begin_ok:
  "tool_ok S ext k fs \<Longrightarrow> tool_ok (do_loop_begin S) ext k fs \<and> tool_abs (do_loop_begin S) ext fs = tool_abs S ext fs"
  by (simp add: do_loop_begin_def tool_ok_def tool_abs_def cs_at_def)

subsection \<open>Accesses\<close>

text \<open>Only reference counts and the shape of the trees change.\<close>

lemma ctl_same_bags:
  assumes c: "ctl B ext k X fs" and t: "sp_tidy B' ext' X k" and b: "sp_bags B' = sp_bags B"
  shows "ctl B' ext' k X fs" "payloads B' = payloads B"
proof -
  have "s_kind B' = s_kind B" "p_kind B' = p_kind B" using b by (simp_all add: s_kind_def p_kind_def fun_eq_iff)
  then show "ctl B' ext' k X fs" using c t b by (simp add: ctl_def kinds_ok_def)
  show "payloads B' = payloads B" using b by (simp add: payloads_def fun_eq_iff)
qed

lemma ver_of_payloads: "payloads B' = payloads B \<Longrightarrow> ver_of B' = ver_of B"
  by (simp add: ver_of_def fun_eq_iff)

lemma cs_at_sp: "cs_at S fs B \<Longrightarrow> cs_at (S\<lparr>cs_sp := B'\<rparr>) fs B'"
  by (simp add: cs_at_def)

text \<open>The bag for accesses of the topmost frame.\<close>

definition access_bag :: "FrameData_t \<Rightarrow> u64" where
  "access_bag f = (if is_loop_frame f then Iterbag f else Sbag f)"

definition access_used :: "FrameData_t \<Rightarrow> FrameData_t" where
  "access_used f = (if is_loop_frame f then f\<lparr>Iterbag_used := True\<rparr> else f\<lparr>Sbag_used := True\<rparr>)"

lemma getSbagForAccess_eq: "getSbagForAccess f = (access_bag f, access_used f)"
  by (simp add: getSbagForAccess_def access_bag_def access_used_def)

lemma access_used_simps [simp]:
  "Sbag (access_used f) = Sbag f" "Iterbag (access_used f) = Iterbag f" "pbags_of (access_used f) = pbags_of f"
  "frame_data (access_used f) = frame_data f" "num_Pbags (access_used f) = num_Pbags f"
  "reducer_views (access_used f) = reducer_views f" "is_loop_frame (access_used f) = is_loop_frame f"
  "frame_ptrs (access_used f) = frame_ptrs f" "abs_frame m v (access_used f) = abs_frame m v f"
  "loop_ok (access_used f) = loop_ok f"
  by (simp_all add: access_used_def frame_ptrs_def is_loop_frame_def abs_frame_def loop_ok_def)

lemma head_access:
  assumes c: "ctl B ext k {} (f # fs)" and okf: "frame_ok m f" and lf: "loop_ok f"
    and z: "m 0 = {}"
  defines "b \<equiv> access_bag f"
  shows "b \<noteq> 0" "b \<in># owned (f # fs)"
    "map (abs_frame (m(b := insert x (m b))) v) (f # fs) = a_access x (map (abs_frame m v) (f # fs))"
    "frame_ok (m(b := insert x (m b))) (access_used f)"
    "g \<in> set fs \<Longrightarrow> frame_ok (m(b := insert x (m b))) g = frame_ok m g"
proof -
  let ?m = "m(b := insert x (m b))"
  have Sf: "Sbag f \<noteq> 0" using okf by (simp add: frame_ok_def)
  show b0: "b \<noteq> 0" using Sf lf by (simp add: b_def access_bag_def loop_ok_def)
  have bf: "b = Sbag f \<or> b = Iterbag f" by (simp add: b_def access_bag_def)
  show "b \<in># owned (f # fs)" using owned_ptr [of f "f # fs" b] b0 bf by auto
  have d: "distinct (filter (\<lambda>p. p \<noteq> 0) (Sbag f # Iterbag f # pbags_of f))" using ctl_distinct [OF c, of f] by simp
  have SI: "Sbag f \<noteq> Iterbag f" using d Sf by (auto split: if_splits)
  have np: "b \<notin> set (pbags_of f)" using d b0 bf by (auto split: if_splits)
  have "b \<in># frame_ptrs f" unfolding frame_ptrs_mem using b0 bf by blast
  then have bo: "b \<notin># owned fs" by (rule ctl_disjoint [OF c])
  have e: "?m a = m a \<and> v a = v a" if "a \<noteq> 0" "a \<in># owned fs" for a using bo that by auto
  have z': "?m 0 = m 0" using b0 by simp
  note cong = abs_frames_cong [where m = ?m and m' = m and v = v and v' = v, OF e z' refl]
  have "abs_frame ?m v f # map (abs_frame m v) fs = a_access x (abs_frame m v f # map (abs_frame m v) fs)"
    using SI np by (auto simp: abs_frame_def b_def access_bag_def split: if_splits)
  then show "map (abs_frame ?m v) (f # fs) = a_access x (map (abs_frame m v) (f # fs))"
    using cong(1) by simp
  show "frame_ok ?m (access_used f)"
    using okf SI by (auto simp: frame_ok_def access_used_def b_def access_bag_def is_loop_frame_def)
  show "g \<in> set fs \<Longrightarrow> frame_ok ?m g = frame_ok m g" by (rule cong(2))
qed

lemma ctl_home:
  assumes c: "ctl B ext k {} fs" and x: "0 < ext x"
  shows "\<exists>b D. sp_bags B b = Some D \<and> sp_owns B b \<and> bag_home B x b \<and> (\<forall>a. x \<in> cmem B ext {} a \<longleftrightarrow> a = b)"
proof -
  note C = sp_tidyD [OF ctlD(1) [OF c]]
  obtain b where b: "bag_home B x b" using C(5) [OF x] by blast
  then obtain D where D: "sp_bags B b = Some D" by (auto simp: bag_home_def)
  have o: "sp_owns B b" using C(4) [OF D] by simp
  have "a = b" if a: "x \<in> cmem B ext {} a" for a
  proof -
    have h: "bag_home B x a" using a by (simp add: cmem_def bag_mem_def)
    then obtain E where "sp_bags B a = Some E" by (auto simp: bag_home_def)
    then have "sp_owns B a" using C(4) by simp
    then show ?thesis using bag_home_unique [OF C(1)] h o b by blast
  qed
  moreover have "x \<in> cmem B ext {} b" using b x by (simp add: cmem_def bag_mem_def)
  ultimately show ?thesis using D o b by blast
qed

lemma access_ok:
  assumes ok: "tool_ok S ext k (f # fs)"
  shows "\<exists>x v S1 S'. access_node S = Some (x, v, S1) \<and> on_bags (sp_inc_ref x) S1 = Some S' \<and>
    tool_ok S' (ext_inc (Some x) ext) k (access_used f # fs) \<and>
    tool_abs S' (ext_inc (Some x) ext) (access_used f # fs) = a_access x (tool_abs S ext (f # fs)) \<and>
    unat v = ver_of (cs_sp S) (access_bag f) \<and> (0 < ext x \<longrightarrow> x \<in> cmem (cs_sp S) ext {} (access_bag f)) \<and>
    (\<forall>a. a \<noteq> access_bag f \<longrightarrow> x \<notin> cmem (cs_sp S) ext {} a)"
proof -
  note T = tool_okD [OF ok]
  let ?B = "cs_sp S" and ?m = "cmem (cs_sp S) ext {}" and ?v = "ver_of (cs_sp S)" and ?b = "access_bag f"
  have okf: "frame_ok ?m f" and lf: "loop_ok f" using T(4,5) by simp_all
  have z: "?m 0 = {}" by (rule cmem_0 [OF T(2)])
  note H = head_access [OF T(2) okf lf z]
  obtain D where D: "sp_bags ?B ?b = Some D" using ctl_owned [OF T(2), of ?b] H(2) by blast
  have x0: "bag_ds D \<noteq> 0"
    using ctl_sbag_kind [OF T(2), of f] D by (auto simp: s_kind_def access_bag_def split: if_splits)
  let ?x = "bag_ds D" and ?e = "ext_inc (Some (bag_ds D)) ext"
  obtain B' where I: "sp_inc_ref ?x ?B = Some B'" "sp_tidy B' ?e {} k" "sp_bags B' = sp_bags ?B"
    "\<And>c. bag_mem B' ?e c = (if c = ?b then insert ?x (bag_mem ?B ext ?b) else bag_mem ?B ext c)"
    using sp_inc_ref_tidy [OF ctlD(1) [OF T(2)] D x0] by auto
  let ?f = "access_used f" and ?S1 = "cs_put_frame 0 (access_used f) S"
  let ?S = "?S1\<lparr>cs_sp := B'\<rparr>"
  have anc: "cs_ancestor 0 S = Some f" using cs_at_ancestor [OF T(1), of 0] by simp
  have an: "access_node S = Some (?x, SBag_get_version D, ?S1)"
    using anc D by (simp add: access_node_def getSbagForAccess_eq)
  have inc: "on_bags (sp_inc_ref ?x) ?S1 = Some ?S" using I(1) by (simp add: on_bags_def)
  have at: "cs_at ?S (?f # fs) B'"
    using cs_at_sp [OF cs_at_put(2) [OF T(1), of 0 ?f], of B'] by simp
  have m': "cmem B' ?e {} = ?m(?b := insert ?x (?m ?b))" using I(4) by (simp add: cmem_def fun_eq_iff)
  have c1: "ctl ?B ext k {} (?f # fs)" by (rule ctl_same_head [OF T(2)]) simp_all
  note C = ctl_same_bags [OF c1 I(2,3)]
  have "tool_ok ?S ?e k (?f # fs)"
    using at C(1) T(3-5) H(4,5) m' lf by (simp add: tool_ok_def)
  moreover have "tool_abs ?S ?e (?f # fs) = a_access ?x (tool_abs S ext (f # fs))"
    using H(3) [of ?x ?v] m' ver_of_payloads [OF C(2)] by (simp add: tool_abs_def)
  moreover have "unat (SBag_get_version D) = ?v ?b" using ver_of_bag [OF D] by simp
  moreover have out: "\<forall>a. a \<noteq> ?b \<longrightarrow> ?x \<notin> ?m a"
  proof (intro allI impI)
    fix a assume a: "a \<noteq> ?b"
    obtain c where c: "\<And>a. ?x \<in> cmem B' ?e {} a \<longleftrightarrow> a = c"
      using ctl_home [OF C(1), of ?x] by (auto simp: ext_inc_apply)
    have "?x \<in> cmem B' ?e {} ?b" using m' by simp
    then have "c = ?b" using c by simp
    moreover have "?x \<in> cmem B' ?e {} a \<longleftrightarrow> ?x \<in> ?m a" using m' a by simp
    ultimately show "?x \<notin> ?m a" using c [of a] a by simp
  qed
  moreover have "0 < ext ?x \<longrightarrow> ?x \<in> ?m ?b" using out ctl_home [OF T(2), of ?x] by metis
  ultimately show ?thesis using an inc
    by (intro exI [of _ ?x] exI [of _ "SBag_get_version D"] exI [of _ ?S1] exI [of _ ?S] conjI)
qed

lemma drop_ok:
  assumes ok: "tool_ok S ext k fs" and x: "0 < ext x"
  shows "\<exists>S'. on_bags (sp_dec_ref x) S = Some S' \<and> tool_ok S' (ext_dec (Some x) ext) k fs \<and>
    tool_abs S' (ext_dec (Some x) ext) fs = (if ext x = 1 then a_drop x (tool_abs S ext fs) else tool_abs S ext fs)"
proof -
  note T = tool_okD [OF ok]
  let ?B = "cs_sp S" and ?m = "cmem (cs_sp S) ext {}" and ?v = "ver_of (cs_sp S)" and ?e = "ext_dec (Some x) ext"
  let ?Z = "if ext x = 1 then {x} else {}"
  obtain B' where D: "sp_dec_ref x ?B = Some B'" "sp_tidy B' ?e {} k" "sp_bags B' = sp_bags ?B"
    "\<And>c. bag_mem B' ?e c = bag_mem ?B ext c - ?Z"
    using sp_dec_ref_tidy [OF ctlD(1) [OF T(2)] x] by auto
  let ?S = "S\<lparr>cs_sp := B'\<rparr>"
  note C = ctl_same_bags [OF T(2) D(2,3)]
  have m': "cmem B' ?e {} = (\<lambda>c. ?m c - ?Z)" using D(4) by (simp add: cmem_def fun_eq_iff)
  have fr: "frame_ok (\<lambda>c. ?m c - ?Z) f" if "f \<in> set fs" for f
    using T(4) [OF that] by (simp add: frame_ok_def)
  have at: "cs_at ?S fs B'" using cs_at_sp [OF T(1)] .
  have "tool_ok ?S ?e k fs"
    using at C(1) T(3,5) fr m' by (simp add: tool_ok_def)
  moreover have "tool_abs ?S ?e fs = (if ext x = 1 then a_drop x (tool_abs S ext fs) else tool_abs S ext fs)"
    using m' ver_of_payloads [OF C(2)]
    by (auto simp: tool_abs_def a_drop_def a_drop_frame_def abs_frame_def)
  ultimately show ?thesis using D(1) by (simp add: on_bags_def)
qed

subsection \<open>The query\<close>

lemma query_ok:
  assumes ok: "tool_ok S ext k (f # fs)" and x: "0 < ext (getFuncFromVerFunc ma)"
  shows "\<exists>S'. access_in_parallel ma S =
      Some (a_par (getFuncFromVerFunc ma) (unat (getVersionFromVerFunc ma)) (tool_abs S ext (f # fs)), S') \<and>
    tool_ok S' ext k (f # fs) \<and> tool_abs S' ext (f # fs) = tool_abs S ext (f # fs)"
proof -
  note T = tool_okD [OF ok]
  let ?B = "cs_sp S" and ?m = "cmem (cs_sp S) ext {}" and ?x = "getFuncFromVerFunc ma" and ?fs = "f # fs"
  note C = sp_tidyD [OF ctlD(1) [OF T(2)]]
  obtain b D where b: "sp_bags ?B b = Some D" "sp_owns ?B b" "bag_home ?B ?x b" "\<And>a. ?x \<in> ?m a \<longleftrightarrow> a = b"
    using ctl_home [OF T(2) x] by blast
  have s: "sp_in ?B ?x (bag_tag b D)" by (rule bag_home_in [OF b(2,3,1)])
  have live: "0 < bag_ext ext (sp_bags ?B) ?x" using x by (simp add: bag_ext_def)
  let ?par = "is_PBag D \<or> (is_loop_frame f \<and> b = Iterbag f \<and> getVersionFromVerFunc ma < SBag_get_version D)"
  obtain B' where Q: "previousAccessInParallel ma f ?B = Some (?par, B')" "sp_inv B' ext"
    "sp_same_sets ?B B'" "ds_refines (sp_ds ?B) (sp_ds B')"
    using previousAccessInParallel_refines [OF C(1) live b(1) s] by blast
  have same: "sp_bags B' = sp_bags ?B" "sp_new B' = sp_new ?B" using Q(3) by (simp_all add: sp_same_sets_def)
  have home: "\<exists>c. c \<notin> {} \<and> sp_bags B' c \<noteq> None \<and> bag_home ?B y c" if "0 < ext y" for y
    using C(5) [OF that] same by (auto simp: bag_home_def)
  have tidy: "sp_tidy B' ext {} k"
    by (rule sp_tidy_refines(1) [OF ctlD(1) [OF T(2)] Q(2,4)]) (use same home in simp_all)
  have mem: "cmem B' ext {} = ?m"
  proof (rule ext)
    fix c
    show "cmem B' ext {} c = ?m c"
    proof (cases "sp_bags B' c")
      case None
      then show ?thesis using same by (simp add: cmem_def)
    next
      case (Some E)
      have "bag_mem B' ext c = {x. 0 < ext x \<and> bag_home ?B x c}"
        by (rule sp_tidy_refines(2) [OF ctlD(1) [OF T(2)] Q(2,4), where X' = "{}"]) (use same home Some in simp_all)
      then show ?thesis by (simp add: cmem_def bag_mem_def)
    qed
  qed
  note K = ctl_same_bags [OF T(2) tidy same(1)]
  have bo: "b \<in># owned ?fs" and b0: "b \<noteq> 0"
    using ctl_owned [OF T(2), of b] ctl_bag_nonzero [OF T(2), of b] b(1) by simp_all
  have PB: "is_PBag D \<longleftrightarrow> (\<exists>g \<in> set ?fs. b \<in> set (pbags_of g))"
  proof
    assume P: "is_PBag D"
    obtain g where g: "g \<in> set ?fs" "b = Sbag g \<or> b = Iterbag g \<or> b \<in> set (pbags_of g)"
      using bo owned_mem [of b ?fs] frame_ptrs_mem by blast
    have "\<not> is_SBag D" using P by (simp add: is_PBag_bit is_SBag_bit)
    then have "b \<noteq> Sbag g" "b \<noteq> Iterbag g"
      using ctl_sbag_kind [OF T(2) g(1)] b(1) by (auto simp: s_kind_def)
    then show "\<exists>g \<in> set ?fs. b \<in> set (pbags_of g)" using g by blast
  next
    assume "\<exists>g \<in> set ?fs. b \<in> set (pbags_of g)"
    then obtain g where "g \<in> set ?fs" "b \<in> set (pbags_of g)" by blast
    then show "is_PBag D" using ctl_pbag_kind [OF T(2)] b(1) by (auto simp: p_kind_def)
  qed
  have z: "?m 0 = {}" by (rule cmem_0 [OF T(2)])
  have "(\<exists>g \<in> set (tool_abs S ext ?fs). ?x \<in> a_PP g) \<longleftrightarrow> (\<exists>g \<in> set ?fs. b \<in> set (pbags_of g))"
    using abs_PP [where m = ?m, OF z] b(4) by (simp only: tool_abs_def set_map bex_simps) auto
  moreover have "b = Iterbag f \<Longrightarrow> unat (SBag_get_version D) = ver_of ?B (Iterbag f)" using ver_of_bag [OF b(1)] by simp
  ultimately have par: "?par \<longleftrightarrow> a_par ?x (unat (getVersionFromVerFunc ma)) (tool_abs S ext ?fs)"
    using PB b(4) [of "Iterbag f"] by (auto simp: a_par_def tool_abs_Cons word_less_nat_alt)
  have anc: "cs_ancestor 0 S = Some f" using cs_at_ancestor [OF T(1), of 0] by simp
  let ?S = "S\<lparr>cs_sp := B'\<rparr>"
  have "access_in_parallel ma S = Some (?par, ?S)" using anc Q(1) by (simp add: access_in_parallel_def)
  moreover have "tool_ok ?S ext k ?fs" using cs_at_sp [OF T(1)] K(1) T(3-5) mem by (simp add: tool_ok_def)
  moreover have "tool_abs ?S ext ?fs = tool_abs S ext ?fs"
    using mem ver_of_payloads [OF K(2)] by (simp add: tool_abs_def)
  ultimately show ?thesis using par by auto
qed

end
