(* ===== verification/SPDag.thy ===== *)
theory SPDag
  imports SPSpec
begin

text \<open>
  Series and parallel accesses of a fork-join program, and the proof of how the abstract SP-bags machine
  tells them apart.  \<open>d_step\<close> follows the dag of the program itself: for each frame, the accesses that
  precede the current strand (\<open>d_cur\<close>), for each sync region the accesses of the children that a sync will
  join (\<open>d_pend\<close>; none when nothing is outstanding), and for a loop the accesses of the iterations that have
  ended (\<open>d_iters\<close>).  A child starts with the accesses of its parent, a call gives its accesses to the
  caller, a spawned child leaves them pending, a sync adds those of the children of its region, and every
  iteration of a loop starts again from the accesses that precede the loop.

  The tool uses one P-bag, that of region 0 of the frame of a loop, for two purposes: for the iterations
  that have ended, and for the children that the body spawns in region 0.  A sync of region 0 in the body
  of a loop joins the children only, but in the tool it moves both to the S-bag: until the iteration ends,
  what is in that bag of older iterations is taken to be in series.  \<open>d_synced\<close> says that this has
  happened in the current iteration, and \<open>lost\<close> are the accesses that the tool may then take to be in
  series although they are not.
\<close>

record 'x dframe =
  d_cur :: "'x set"
  d_pend :: "'x set option list"
  d_loop :: bool
  d_detach :: bool
  d_iters :: "'x set"
  d_synced :: bool

datatype 'x event =
  E_enter nat bool
| E_loop nat
| E_leave nat
| E_sync nat
| E_iter_end
| E_loop_end nat
| E_strand
| E_access 'x
| E_forget 'x

definition d_new :: "nat \<Rightarrow> bool \<Rightarrow> bool \<Rightarrow> 'x dframe \<Rightarrow> 'x dframe" where
  "d_new n l d p = \<lparr>d_cur = d_cur p, d_pend = replicate n None, d_loop = l, d_detach = d,
     d_iters = {}, d_synced = False\<rparr>"

definition d_join :: "nat \<Rightarrow> 'x set \<Rightarrow> 'x dframe \<Rightarrow> 'x dframe" where
  "d_join r X d = d\<lparr>d_pend := (d_pend d)[r := Some (pset (d_pend d ! r) \<union> X)]\<rparr>"

definition d_all :: "'x dframe \<Rightarrow> 'x set" where
  "d_all d = d_cur d \<union> d_iters d \<union> (\<Union>P \<in> set (d_pend d). pset P)"

definition d_drop :: "'x \<Rightarrow> 'x dframe \<Rightarrow> 'x dframe" where
  "d_drop x d = d\<lparr>d_cur := d_cur d - {x}, d_pend := map (map_option (\<lambda>X. X - {x})) (d_pend d),
     d_iters := d_iters d - {x}\<rparr>"

text \<open>A sync of region \<open>r\<close>, and the end of an iteration: its accesses join those of the older iterations, and
  the next iteration starts from \<open>C\<close>, what precedes the loop.\<close>

definition d_sync :: "nat \<Rightarrow> 'x dframe \<Rightarrow> 'x dframe" where
  "d_sync r d = d\<lparr>d_cur := d_cur d \<union> pset (d_pend d ! r), d_pend := (d_pend d)[r := None],
     d_synced := (d_synced d \<or> d_loop d \<and> r = 0)\<rparr>"

definition d_next :: "'x set \<Rightarrow> 'x dframe \<Rightarrow> 'x dframe" where
  "d_next C d = d\<lparr>d_cur := C, d_pend := (d_pend d)[0 := None],
     d_iters := d_iters d \<union> d_cur d \<union> pset (d_pend d ! 0), d_synced := False\<rparr>"

fun d_step :: "'x event \<Rightarrow> 'x dframe list \<Rightarrow> 'x dframe list" where
  "d_step (E_enter n dt) (p # ds) = d_new n False dt p # p # ds"
| "d_step (E_loop n) (p # ds) = d_new n True True p # p # ds"
| "d_step (E_leave r) (c # p # ds) =
     (if d_detach c then d_join r (d_all c) p # ds else p\<lparr>d_cur := d_cur c\<rparr> # ds)"
| "d_step (E_loop_end r) (c # p # ds) = d_join r (d_all c) p # ds"
| "d_step (E_sync r) (d # ds) = d_sync r d # ds"
| "d_step E_iter_end (d # p # ds) = d_next (d_cur p) d # p # ds"
| "d_step (E_access x) (d # ds) = d\<lparr>d_cur := insert x (d_cur d)\<rparr> # ds"
| "d_step (E_forget x) ds = map (d_drop x) ds"
| "d_step _ ds = ds"

text \<open>
  The discipline of the programs: a called function is synced when it returns, the regions that are named
  exist, and the sync regions of the body of a loop other than region 0 are synced at the end of an
  iteration (what is outstanding in region 0 then joins the accesses of the iterations).
\<close>

fun d_guard :: "'x event \<Rightarrow> 'x dframe list \<Rightarrow> bool" where
  "d_guard (E_enter n dt) (p # ds) = True"
| "d_guard (E_loop n) (p # ds) = (0 < n)"
| "d_guard (E_leave r) (c # p # ds) =
     (\<not> d_loop c \<and> (if d_detach c then r < length (d_pend p) else \<forall>P \<in> set (d_pend c). P = None))"
| "d_guard (E_loop_end r) (c # p # ds) = (d_loop c \<and> r < length (d_pend p))"
| "d_guard (E_sync r) (d # ds) = (r < length (d_pend d))"
| "d_guard E_iter_end (d # p # ds) = (d_loop d \<and> (\<forall>r \<in> set [1..<length (d_pend d)]. d_pend d ! r = None))"
| "d_guard (E_access x) (d # ds) = True"
| "d_guard (E_forget x) ds = True"
| "d_guard E_strand ds = True"
| "d_guard _ _ = False"

text \<open>The abstract SP-bags machine on the same events.\<close>

fun a_step :: "'x event \<Rightarrow> 'x aframe list \<Rightarrow> 'x aframe list" where
  "a_step (E_enter n dt) fs = a_enter n dt fs"
| "a_step (E_loop n) fs = a_loop_enter n fs"
| "a_step (E_leave r) fs = a_leave r fs"
| "a_step (E_sync r) fs = a_sync r fs"
| "a_step E_iter_end fs = a_iter_end fs"
| "a_step (E_loop_end r) fs = a_loop_end r fs"
| "a_step E_strand fs = fs"
| "a_step (E_access x) fs = a_access x fs"
| "a_step (E_forget x) fs = a_drop x fs"

subsection \<open>How the bags describe the dag\<close>

text \<open>\<open>v\<close> gives the version that was recorded with an access.\<close>

definition older :: "('x \<Rightarrow> nat) \<Rightarrow> 'x aframe \<Rightarrow> 'x set" where
  "older v f = {x \<in> a_I f. v x < a_ver f}"

definition same :: "('x \<Rightarrow> nat) \<Rightarrow> 'x aframe \<Rightarrow> 'x set" where
  "same v f = {x \<in> a_I f. v x = a_ver f}"

fun serial :: "('x \<Rightarrow> nat) \<Rightarrow> 'x aframe list \<Rightarrow> 'x set" where
  "serial v [] = {}"
| "serial v (f # fs) = a_S f \<union> same v f \<union> serial v fs"

text \<open>Accesses of older iterations, once region 0 has been synced in the current one.\<close>

definition lost1 :: "'x dframe \<Rightarrow> 'x set" where
  "lost1 d = (if d_synced d then d_iters d else {})"

definition lost :: "'x dframe list \<Rightarrow> 'x set" where
  "lost D = (\<Union>d \<in> set D. lost1 d)"

lemma lost_simps [simp]: "lost [] = {}" "lost (d # D) = lost1 d \<union> lost D"
  by (simp_all add: lost_def)

text \<open>
  The bags of a frame and the frame of the dag; \<open>C\<close> is what the bags of this and the enclosing frames take
  to be in series.  The P-bag of region 0 of a loop holds older iterations too.
\<close>

abbreviation iter_region :: "'x aframe \<Rightarrow> nat \<Rightarrow> bool" where
  "iter_region f r \<equiv> a_loop f \<and> r = 0"

definition pend_rel :: "'x set \<Rightarrow> 'x aframe \<Rightarrow> 'x dframe \<Rightarrow> nat \<Rightarrow> bool" where
  "pend_rel C f d r \<longleftrightarrow> pset (d_pend d ! r) \<subseteq> pset (a_P f ! r) \<union> C \<and>
     pset (a_P f ! r) \<subseteq> pset (d_pend d ! r) \<union> (if iter_region f r then d_iters d else {}) \<and>
     (\<not> iter_region f r \<longrightarrow> (a_P f ! r = None \<longleftrightarrow> d_pend d ! r = None))"

definition iters_rel :: "('x \<Rightarrow> nat) \<Rightarrow> 'x set \<Rightarrow> 'x aframe \<Rightarrow> 'x dframe \<Rightarrow> bool" where
  "iters_rel v C f d \<longleftrightarrow> (if a_loop f
     then older v f \<subseteq> d_iters d \<and> d_iters d \<subseteq> pset (a_P f ! 0) \<union> older v f \<union> C
     else a_I f = {} \<and> d_iters d = {} \<and> \<not> d_synced d)"

definition frame_rel :: "('x \<Rightarrow> nat) \<Rightarrow> 'x set \<Rightarrow> 'x aframe \<Rightarrow> 'x dframe \<Rightarrow> bool" where
  "frame_rel v C f d \<longleftrightarrow>
     a_S f \<union> same v f \<subseteq> d_cur d \<union> lost1 d \<and> d_cur d \<subseteq> C \<and>
     d_loop d = a_loop f \<and> d_detach d = a_detach f \<and> length (d_pend d) = length (a_P f) \<and>
     (\<forall>r < length (a_P f). pend_rel C f d r) \<and> iters_rel v C f d \<and>
     (\<forall>x \<in> a_I f. v x \<le> a_ver f) \<and> a_ver f < VERSIONS \<and>
     (a_loop f \<longrightarrow> a_detach f \<and> a_P f \<noteq> [])"

fun dag_rel :: "('x \<Rightarrow> nat) \<Rightarrow> 'x aframe list \<Rightarrow> 'x dframe list \<Rightarrow> bool" where
  "dag_rel v (f # fs) (d # ds) =
     (frame_rel v (serial v (f # fs)) f d \<and> (a_loop f \<longrightarrow> fs \<noteq> []) \<and>
      (ds \<noteq> [] \<longrightarrow> d_cur (hd ds) \<subseteq> d_cur d) \<and> dag_rel v fs ds)"
| "dag_rel v [] [] = True"
| "dag_rel v _ _ = False"

lemma dag_rel_Cons: "dag_rel v fs (d # ds) \<longleftrightarrow> (\<exists>f fs'. fs = f # fs' \<and>
    frame_rel v (serial v (f # fs')) f d \<and> (a_loop f \<longrightarrow> fs' \<noteq> []) \<and>
    (ds \<noteq> [] \<longrightarrow> d_cur (hd ds) \<subseteq> d_cur d) \<and> dag_rel v fs' ds)"
  by (cases fs) simp_all

lemma frame_relD:
  assumes "frame_rel v C f d"
  shows "a_S f \<union> same v f \<subseteq> d_cur d \<union> lost1 d" "d_cur d \<subseteq> C"
    "d_loop d = a_loop f" "d_detach d = a_detach f" "length (d_pend d) = length (a_P f)"
    "r < length (a_P f) \<Longrightarrow> pend_rel C f d r" "iters_rel v C f d"
    "x \<in> a_I f \<Longrightarrow> v x \<le> a_ver f" "a_ver f < VERSIONS"
    "a_loop f \<Longrightarrow> a_detach f" "a_loop f \<Longrightarrow> a_P f \<noteq> []"
  using assms by (auto simp: frame_rel_def)

lemma frame_rel_plain:
  assumes "frame_rel v C f d" "\<not> a_loop f"
  shows "a_I f = {}" "d_iters d = {}" "\<not> d_synced d" "lost1 d = {}" "older v f = {}" "same v f = {}"
  using frame_relD(7) [OF assms(1)] assms(2) by (simp_all add: iters_rel_def lost1_def older_def same_def)

lemma frame_rel_loop:
  assumes "frame_rel v C f d" "a_loop f"
  shows "older v f \<subseteq> d_iters d" "d_iters d \<subseteq> pset (a_P f ! 0) \<union> older v f \<union> C"
  using frame_relD(7) [OF assms(1)] assms(2) by (simp_all add: iters_rel_def)

lemma frame_rel_none:
  assumes "frame_rel v C f d" "r < length (a_P f)" "\<not> iter_region f r"
  shows "a_P f ! r = None \<longleftrightarrow> d_pend d ! r = None"
  using frame_relD(6) [OF assms(1,2)] assms(3) by (auto simp: pend_rel_def)

lemma frame_rel_pends:
  assumes "frame_rel v C f d"
  shows "a_PP f \<subseteq> (\<Union>P \<in> set (d_pend d). pset P) \<union> d_iters d" "(\<Union>P \<in> set (d_pend d). pset P) \<subseteq> a_PP f \<union> C"
proof -
  have n: "(\<Union>P \<in> set Ps. pset P) = (\<Union>r < length Ps. pset (Ps ! r))" for Ps :: "'a set option list"
    unfolding set_conv_nth by blast
  note D = frame_relD(5) [OF assms] frame_relD(6) [OF assms]
  have E: "pset (a_P f ! r) \<subseteq> pset (d_pend d ! r) \<union> d_iters d" "pset (d_pend d ! r) \<subseteq> pset (a_P f ! r) \<union> C"
    if "r < length (a_P f)" for r
    using D(2) [OF that] by (auto simp: pend_rel_def split: if_splits)
  show "a_PP f \<subseteq> (\<Union>P \<in> set (d_pend d). pset P) \<union> d_iters d"
    unfolding a_PP_def n D(1) using E(1) by blast
  show "(\<Union>P \<in> set (d_pend d). pset P) \<subseteq> a_PP f \<union> C"
    unfolding a_PP_def n D(1) using E(2) by blast
qed

lemma older_upd [simp]:
  "older v (a_join r Y f) = older v f" "older v (f\<lparr>a_S := T\<rparr>) = older v f" "older v (f\<lparr>a_P := Ps\<rparr>) = older v f"
  "same v (a_join r Y f) = same v f" "same v (f\<lparr>a_S := T\<rparr>) = same v f" "same v (f\<lparr>a_P := Ps\<rparr>) = same v f"
  by (simp_all add: older_def same_def a_join_def)

lemma lost1_upd [simp]:
  "lost1 (d_join r X d) = lost1 d" "lost1 (d\<lparr>d_cur := K\<rparr>) = lost1 d"
  by (simp_all add: lost1_def d_join_def)

lemma bag_split:
  assumes "\<forall>x \<in> a_I f. v x \<le> a_ver f"
  shows "a_I f = same v f \<union> older v f"
  using assms by (auto simp: same_def older_def le_less)

lemma dag_step_enter:
  assumes "dag_rel v (p # fs) (q # ds)"
  shows "dag_rel v (a_enter n dt (p # fs)) (d_step (E_enter n dt) (q # ds))"
    "0 < n \<Longrightarrow> dag_rel v (a_loop_enter n (p # fs)) (d_step (E_loop n) (q # ds))"
  using assms by (auto simp: a_enter_def a_loop_enter_def a_new_def d_new_def frame_rel_def pend_rel_def
      iters_rel_def older_def same_def VERSIONS_def lost1_def)

text \<open>Accesses join a pending set of a frame.\<close>

lemma frame_rel_join:
  assumes R: "frame_rel v C p q" and r: "r < length (a_P p)" and X: "Y \<subseteq> X" "X \<subseteq> Y \<union> C"
  shows "frame_rel v C (a_join r Y p) (d_join r X q)"
proof -
  note D = frame_relD [OF R]
  have "pend_rel C (a_join r Y p) (d_join r X q) s" if s: "s < length (a_P p)" for s
  proof (cases "s = r")
    case True
    note P = D(6) [OF r, unfolded pend_rel_def]
    have "pset (d_pend q ! r) \<union> X \<subseteq> pset (a_P p ! r) \<union> Y \<union> C" using P X(2) by blast
    moreover have "pset (a_P p ! r) \<union> Y \<subseteq> pset (d_pend q ! r) \<union> X \<union> (if iter_region p r then d_iters q else {})"
      using P X(1) by auto
    ultimately show ?thesis using True r D(5) by (auto simp: pend_rel_def d_join_def a_join_def split: if_splits)
  next
    case False
    then show ?thesis using D(6) [OF s] by (auto simp: pend_rel_def d_join_def a_join_def split: if_splits)
  qed
  moreover have "iters_rel v C (a_join r Y p) (d_join r X q)"
    using D(7) r by (auto simp: iters_rel_def a_join_def d_join_def nth_list_update older_def split: if_splits)
  ultimately show ?thesis using D by (simp add: frame_rel_def) (simp add: a_join_def d_join_def)
qed

text \<open>What precedes the current strand of a frame grows.\<close>

lemma frame_rel_grow:
  assumes R: "frame_rel v C p q" and C: "C \<subseteq> C'" and K: "d_cur q \<subseteq> K" "K \<subseteq> C'" and T: "T \<subseteq> K \<union> lost1 q"
  shows "frame_rel v C' (p\<lparr>a_S := a_S p \<union> T\<rparr>) (q\<lparr>d_cur := K\<rparr>)"
proof -
  note D = frame_relD [OF R]
  have "pend_rel C' (p\<lparr>a_S := a_S p \<union> T\<rparr>) (q\<lparr>d_cur := K\<rparr>) r" if "r < length (a_P p)" for r
    using D(6) [OF that] C by (auto simp: pend_rel_def)
  moreover have "iters_rel v C' (p\<lparr>a_S := a_S p \<union> T\<rparr>) (q\<lparr>d_cur := K\<rparr>)"
    using D(7) C by (auto simp: iters_rel_def older_def split: if_splits)
  moreover have "a_S p \<union> T \<union> same v p \<subseteq> K \<union> lost1 q" using D(1) K(1) T by blast
  ultimately show ?thesis using D(2-5,8-) K(2) by (simp add: frame_rel_def)
qed

text \<open>Everything of a frame and its children, up to what precedes the parent.\<close>

lemma frame_rel_all:
  assumes R: "frame_rel v (a_S c \<union> same v c \<union> C) c d"
  shows "a_S c \<union> a_PP c \<union> a_I c \<subseteq> d_all d" "d_all d \<subseteq> a_S c \<union> a_PP c \<union> a_I c \<union> C"
proof -
  note D = frame_relD [OF R] and P = frame_rel_pends [OF R]
  have I: "a_I c = same v c \<union> older v c" by (rule bag_split) (use D(8) in blast)
  have O: "older v c \<subseteq> d_iters d" "d_iters d \<subseteq> a_PP c \<union> older v c \<union> (a_S c \<union> same v c \<union> C)"
  proof -
    have z: "pset (a_P c ! 0) \<subseteq> a_PP c" if "a_loop c" using D(11) [OF that] by (cases "a_P c") (auto simp: a_PP_def)
    show "older v c \<subseteq> d_iters d" using frame_rel_loop(1) [OF R] frame_rel_plain(5) [OF R] by blast
    show "d_iters d \<subseteq> a_PP c \<union> older v c \<union> (a_S c \<union> same v c \<union> C)"
      using frame_rel_loop(2) [OF R] frame_rel_plain(2) [OF R] z by (cases "a_loop c") blast+
  qed
  have S: "a_S c \<union> same v c \<subseteq> d_cur d \<union> d_iters d" using D(1) by (auto simp: lost1_def split: if_splits)
  show "a_S c \<union> a_PP c \<union> a_I c \<subseteq> d_all d" using S O(1) P(1) unfolding d_all_def I by blast
  show "d_all d \<subseteq> a_S c \<union> a_PP c \<union> a_I c \<union> C" using D(2) O(2) P(2) unfolding d_all_def I by blast
qed


lemma dag_step_leave:
  assumes "dag_rel v (c # p # fs) (d # q # ds)" "d_guard (E_leave r) (d # q # ds)"
  shows "dag_rel v (a_leave r (c # p # fs)) (d_step (E_leave r) (d # q # ds))"
proof -
  let ?C = "serial v (p # fs)"
  have R: "frame_rel v (a_S c \<union> same v c \<union> ?C) c d" "frame_rel v ?C p q" "a_loop p \<longrightarrow> fs \<noteq> []" "dag_rel v fs ds"
    "d_cur q \<subseteq> d_cur d" "ds \<noteq> [] \<longrightarrow> d_cur (hd ds) \<subseteq> d_cur q"
    using assms(1) by simp_all
  note D = frame_relD [OF R(1)]
  have l: "\<not> a_loop c" using D(3) assms(2) by simp
  note N = frame_rel_plain [OF R(1) l]
  show ?thesis
  proof (cases "d_detach d")
    case True
    have r: "r < length (a_P p)" using assms(2) True frame_relD(5) [OF R(2)] by simp
    have "frame_rel v ?C (a_join r (a_S c \<union> a_PP c) p) (d_join r (d_all d) q)"
      using frame_rel_join [OF R(2) r] frame_rel_all [OF R(1)] N(1) by simp
    moreover have "serial v (a_join r (a_S c \<union> a_PP c) p # fs) = ?C" by (simp add: a_join_def same_def)
    ultimately show ?thesis using R(3,4,6) True D(4) by (simp add: a_join_def) (simp add: d_join_def)
  next
    case False
    have C: "a_S c \<union> same v c \<union> ?C = serial v (p\<lparr>a_S := a_S p \<union> a_S c\<rparr> # fs)" using N(6) by auto
    have "frame_rel v (serial v (p\<lparr>a_S := a_S p \<union> a_S c\<rparr> # fs)) (p\<lparr>a_S := a_S p \<union> a_S c\<rparr>) (q\<lparr>d_cur := d_cur d\<rparr>)"
      unfolding C [symmetric] by (rule frame_rel_grow [OF R(2)]) (use R(5) D(1,2) N(4) in auto)
    then show ?thesis using R(3-6) False D(4) by auto
  qed
qed

lemma dag_step_loop_end:
  assumes "dag_rel v (c # p # fs) (d # q # ds)" "d_guard (E_loop_end r) (d # q # ds)"
  shows "dag_rel v (a_loop_end r (c # p # fs)) (d_step (E_loop_end r) (d # q # ds))"
proof -
  let ?C = "serial v (p # fs)"
  have R: "frame_rel v (a_S c \<union> same v c \<union> ?C) c d" "frame_rel v ?C p q" "a_loop p \<longrightarrow> fs \<noteq> []" "dag_rel v fs ds"
    "ds \<noteq> [] \<longrightarrow> d_cur (hd ds) \<subseteq> d_cur q"
    using assms(1) by simp_all
  note D = frame_relD [OF R(1)]
  have l: "a_detach c" "0 < length (a_P c)" using D(3,10,11) assms(2) by simp_all
  have r: "r < length (a_P p)" using assms(2) frame_relD(5) [OF R(2)] by simp
  let ?Y = "a_S c \<union> a_PP c \<union> a_I c"
  have "frame_rel v ?C (a_join r ?Y p) (d_join r (d_all d) q)"
    by (rule frame_rel_join [OF R(2) r]) (use frame_rel_all [OF R(1)] in auto)
  moreover have "serial v (a_join r ?Y p # fs) = ?C" by (simp add: a_join_def same_def)
  moreover have "a_PP (a_join 0 (a_I c) c) = a_PP c \<union> a_I c"
  proof -
    obtain P Ps where "a_P c = P # Ps" using l(2) by (cases "a_P c") auto
    then show ?thesis by (auto simp: a_PP_def a_join_def)
  qed
  then have "a_loop_end r (c # p # fs) = a_join r ?Y p # fs"
    using l(1) by (simp add: a_join_def a_PP_def Un_assoc)
  ultimately show ?thesis using R(3-5) by (simp add: a_join_def) (simp add: d_join_def)
qed

lemma dag_step_sync:
  assumes "dag_rel v (f # fs) (d # ds)" "d_guard (E_sync r) (d # ds)"
  shows "dag_rel v (a_sync r (f # fs)) (d_step (E_sync r) (d # ds))"
proof -
  let ?C = "serial v (f # fs)" and ?f = "f\<lparr>a_S := a_S f \<union> pset (a_P f ! r), a_P := (a_P f)[r := None]\<rparr>"
  let ?C' = "?C \<union> pset (a_P f ! r)"
  have R: "frame_rel v ?C f d" "a_loop f \<longrightarrow> fs \<noteq> []" "dag_rel v fs ds" "ds \<noteq> [] \<longrightarrow> d_cur (hd ds) \<subseteq> d_cur d"
    using assms(1) by simp_all
  note D = frame_relD [OF R(1)]
  have r: "r < length (a_P f)" using assms(2) D(5) by simp
  note P = D(6) [OF r, unfolded pend_rel_def]
  have upd: "older v ?f = older v f" "same v ?f = same v f" by (simp_all add: older_def same_def)
  then have C': "?C' = serial v (?f # fs)" by auto
  have "pend_rel ?C' ?f (d_sync r d) s" if s: "s < length (a_P f)" for s
    using D(6) [OF s] D(5) r by (auto simp: pend_rel_def d_sync_def nth_list_update split: if_splits)
  moreover have "iters_rel v ?C' ?f (d_sync r d)"
  proof (cases "a_loop f")
    case True
    note L = frame_rel_loop [OF R(1) True]
    have "d_iters d \<subseteq> pset (a_P ?f ! 0) \<union> older v f \<union> ?C'" using L(2) r by (cases "r = 0") auto
    then show ?thesis using True L(1) by (simp add: iters_rel_def d_sync_def upd(1))
  next
    case False
    then show ?thesis using frame_rel_plain [OF R(1)] D(3) by (simp add: iters_rel_def d_sync_def)
  qed
  moreover have "a_S ?f \<union> same v ?f \<subseteq> d_cur (d_sync r d) \<union> lost1 (d_sync r d)"
    using D(1) P D(3) unfolding upd(2) by (auto simp: d_sync_def lost1_def split: if_splits)
  moreover have "d_cur (d_sync r d) \<subseteq> ?C'" using D(2) P by (auto simp: d_sync_def)
  ultimately have "frame_rel v ?C' ?f (d_sync r d)"
    using D(3-5,8-) by (simp add: frame_rel_def) (simp add: d_sync_def)
  then show ?thesis using C' R(2-4) by (auto simp: d_sync_def)
qed


lemma dag_step_iter_end:
  assumes "dag_rel v (f # fs) (d # q # ds)" "d_guard E_iter_end (d # q # ds)"
  shows "dag_rel v (a_iter_end (f # fs)) (d_step E_iter_end (d # q # ds))"
proof -
  let ?C = "serial v fs" and ?w = "Suc (a_ver f) = VERSIONS" and ?d = "d_next (d_cur q) d"
  let ?f = "(a_join 0 (a_S f \<union> (if ?w then a_I f else {})) f)
      \<lparr>a_S := {}, a_I := (if ?w then {} else a_I f), a_ver := (if ?w then 0 else Suc (a_ver f))\<rparr>"
  have R: "frame_rel v (a_S f \<union> same v f \<union> ?C) f d" "fs \<noteq> []" "dag_rel v fs (q # ds)" "d_cur q \<subseteq> d_cur d"
    using assms(1) by (cases fs; auto)+
  note D = frame_relD [OF R(1)]
  have l: "a_loop f" "0 < length (a_P f)" using assms(2) D(3,11) by simp_all
  note L = frame_rel_loop [OF R(1) l(1)]
  obtain p fs' where fs: "fs = p # fs'" using R(2) by (cases fs) auto
  have q: "d_cur q \<subseteq> ?C" using R(3) fs frame_relD(2) by fastforce
  have I: "a_I f = same v f \<union> older v f" by (rule bag_split) (use D(8) in blast)
  have same: "same v ?f = {}" using D(8) by (force simp: same_def)
  have old: "older v ?f = (if ?w then {} else a_I f)" using D(8) by (auto simp: older_def less_Suc_eq_le)
  have P0: "pset (a_P ?f ! 0) = pset (a_P f ! 0) \<union> a_S f \<union> (if ?w then a_I f else {})"
    using l(2) by (auto simp: a_join_def)
  have Z: "pset (a_P f ! 0) \<subseteq> pset (d_pend d ! 0) \<union> d_iters d" "pset (d_pend d ! 0) \<subseteq> pset (a_P f ! 0) \<union> (a_S f \<union> same v f \<union> ?C)"
    using D(6) [OF l(2)] l(1) by (simp_all add: pend_rel_def)
  have S: "a_S f \<union> same v f \<subseteq> d_cur d \<union> d_iters d" using D(1) by (auto simp: lost1_def split: if_splits)
  have it: "d_iters ?d = d_iters d \<union> d_cur d \<union> pset (d_pend d ! 0)" by (simp add: d_next_def)
  have "iters_rel v ?C ?f ?d"
  proof -
    have "older v ?f \<subseteq> d_iters ?d" using S L(1) I unfolding old it by auto
    moreover have "d_iters ?d \<subseteq> pset (a_P ?f ! 0) \<union> older v ?f \<union> ?C"
      using L(2) D(2) Z(2) I unfolding P0 old it by auto
    ultimately show ?thesis using l(1) by (simp add: iters_rel_def a_join_def)
  qed
  moreover have "pend_rel ?C ?f ?d s" if s: "s < length (a_P f)" for s
  proof (cases "s = 0")
    case True
    have "pset (a_P ?f ! 0) \<subseteq> d_iters ?d" using Z(1) S L(1) I unfolding P0 it by auto
    then show ?thesis using True l D(5) by (simp add: pend_rel_def d_next_def a_join_def)
  next
    case False
    then have n: "d_pend d ! s = None" using assms(2) s D(5) by simp
    then have "a_P f ! s = None" using frame_rel_none [OF R(1) s] False by simp
    then show ?thesis using n False by (simp add: pend_rel_def a_join_def d_next_def)
  qed
  moreover have "serial v (?f # fs) = ?C" using same by simp
  moreover have "a_S ?f \<union> same v ?f \<subseteq> d_cur ?d \<union> lost1 ?d" using same by simp
  moreover have "\<forall>x \<in> a_I ?f. v x \<le> a_ver ?f" using D(8) by (auto simp: le_SucI)
  moreover have "a_ver ?f < VERSIONS" using D(9) by (auto simp: VERSIONS_def)
  moreover have "d_cur ?d \<subseteq> ?C" using q by (simp add: d_next_def)
  moreover have "d_loop ?d = a_loop ?f \<and> d_detach ?d = a_detach ?f \<and> length (d_pend ?d) = length (a_P ?f) \<and>
      (a_loop ?f \<longrightarrow> a_detach ?f \<and> a_P ?f \<noteq> []) \<and> length (a_P ?f) = length (a_P f)"
    using D(3-5,10) l by (simp add: a_join_def d_next_def)
  ultimately have "frame_rel v (serial v (?f # fs)) ?f ?d" unfolding frame_rel_def by simp
  then show ?thesis using R(2,3) by (simp add: Let_def d_next_def)
qed

lemma dag_step_access:
  assumes "dag_rel v (f # fs) (d # ds)" "a_loop f \<longrightarrow> v x = a_ver f"
  shows "dag_rel v (a_access x (f # fs)) (d_step (E_access x) (d # ds))"
proof -
  have R: "frame_rel v (serial v (f # fs)) f d" "a_loop f \<longrightarrow> fs \<noteq> []" "dag_rel v fs ds"
    "ds \<noteq> [] \<longrightarrow> d_cur (hd ds) \<subseteq> d_cur d" using assms(1) by simp_all
  note D = frame_relD [OF R(1)]
  let ?C = "insert x (serial v (f # fs))" and ?d = "d\<lparr>d_cur := insert x (d_cur d)\<rparr>"
  show ?thesis
  proof (cases "a_loop f")
    case True
    let ?f = "f\<lparr>a_I := insert x (a_I f)\<rparr>"
    have vx: "v x = a_ver f" using True assms(2) by simp
    have o: "older v ?f = older v f" "same v ?f = insert x (same v f)" using vx by (auto simp: older_def same_def)
    then have C: "serial v (?f # fs) = ?C" by simp
    have "pend_rel ?C ?f ?d s" if s: "s < length (a_P f)" for s
      using D(6) [OF s] by (auto simp: pend_rel_def)
    moreover have "iters_rel v ?C ?f ?d" using frame_rel_loop [OF R(1) True] True by (auto simp: iters_rel_def o(1))
    moreover have "a_S f \<union> insert x (same v f) \<subseteq> insert x (d_cur d) \<union> lost1 d" using D(1) by blast
    ultimately have "frame_rel v ?C ?f ?d" using D(2-5,8-) True vx by (auto simp: frame_rel_def o(2))
    then show ?thesis using True R(2-4) C by auto
  next
    case False
    have C: "serial v (f\<lparr>a_S := a_S f \<union> {x}\<rparr> # fs) = ?C" by (auto simp: same_def)
    have "frame_rel v ?C (f\<lparr>a_S := a_S f \<union> {x}\<rparr>) ?d"
      by (rule frame_rel_grow [OF R(1)]) (use D(2) in auto)
    then show ?thesis using False R(2-4) C by auto
  qed
qed

lemma pset_minus: "pset (map_option (\<lambda>X. X - {x}) P) = pset P - {x}"
  by (cases P) simp_all

lemma dag_step_forget: "dag_rel v fs ds \<Longrightarrow> dag_rel v (a_drop x fs) (map (d_drop x) ds)"
proof (induction v fs ds rule: dag_rel.induct)
  case (1 v f fs d ds)
  have R: "frame_rel v (serial v (f # fs)) f d" "a_loop f \<longrightarrow> fs \<noteq> []" "ds \<noteq> [] \<longrightarrow> d_cur (hd ds) \<subseteq> d_cur d"
    using 1(2) by simp_all
  have o: "older v (a_drop_frame x g) = older v g - {x}" "same v (a_drop_frame x g) = same v g - {x}" for g
    by (auto simp: a_drop_frame_def older_def same_def)
  have ser: "serial v (map (a_drop_frame x) gs) = serial v gs - {x}" for gs
    by (induction gs) (simp_all add: o(2), (auto simp: a_drop_frame_def))
  let ?f = "a_drop_frame x f" and ?d = "d_drop x d" and ?C = "serial v (f # fs) - {x}"
  note D = frame_relD [OF R(1)]
  have p: "pset (a_P ?f ! r) = pset (a_P f ! r) - {x}" "a_P ?f ! r = None \<longleftrightarrow> a_P f ! r = None" if "r < length (a_P f)" for r
    using that by (simp_all add: a_drop_frame_def pset_minus)
  have q: "pset (d_pend ?d ! r) = pset (d_pend d ! r) - {x}" "d_pend ?d ! r = None \<longleftrightarrow> d_pend d ! r = None"
    if "r < length (a_P f)" for r
    using that D(5) by (simp_all add: d_drop_def pset_minus)
  have "pend_rel ?C ?f ?d r" if r: "r < length (a_P f)" for r
    using D(6) [OF r] unfolding pend_rel_def p [OF r] q [OF r]
    by (auto simp: a_drop_frame_def d_drop_def split: if_splits)
  moreover have "iters_rel v ?C ?f ?d"
  proof (cases "a_loop f")
    case True
    have "0 < length (a_P f)" using D(11) [OF True] by simp
    from frame_rel_loop [OF R(1) True] p(1) [OF this] True show ?thesis
      unfolding iters_rel_def o by (auto simp: a_drop_frame_def d_drop_def)
  next
    case False
    then show ?thesis using frame_rel_plain [OF R(1) False] by (simp add: iters_rel_def a_drop_frame_def d_drop_def)
  qed
  moreover have "a_S ?f \<union> same v ?f \<subseteq> d_cur ?d \<union> lost1 ?d"
    using D(1) unfolding o by (auto simp: a_drop_frame_def d_drop_def lost1_def)
  ultimately have "frame_rel v ?C ?f ?d"
    using D(2-5,8-) by (simp add: frame_rel_def) (auto simp: d_drop_def a_drop_frame_def)
  moreover have "?C = serial v (map (a_drop_frame x) (f # fs))" using ser by metis
  moreover have "map (d_drop x) ds \<noteq> [] \<longrightarrow> d_cur (hd (map (d_drop x) ds)) \<subseteq> d_cur ?d"
    using R(3) by (cases ds) (auto simp: d_drop_def)
  ultimately show ?case using 1 R(2) by (simp add: a_drop_def) (simp add: a_drop_frame_def)
qed (simp_all add: a_drop_def)

fun_cases d_guard_enterE: "d_guard (E_enter n dt) ds"
fun_cases d_guard_loopE: "d_guard (E_loop n) ds"
fun_cases d_guard_leaveE: "d_guard (E_leave r) ds"
fun_cases d_guard_loop_endE: "d_guard (E_loop_end r) ds"
fun_cases d_guard_syncE: "d_guard (E_sync r) ds"
fun_cases d_guard_iter_endE: "d_guard E_iter_end ds"
fun_cases d_guard_accessE: "d_guard (E_access x) ds"

lemma dag_step:
  assumes "dag_rel v fs ds" "d_guard e ds" "\<And>x f gs. e = E_access x \<Longrightarrow> fs = f # gs \<Longrightarrow> a_loop f \<Longrightarrow> v x = a_ver f"
  shows "dag_rel v (a_step e fs) (d_step e ds)"
proof (cases e)
  case (E_enter n dt)
  obtain p ds' where ds: "ds = p # ds'" using assms(2) unfolding E_enter by (elim d_guard_enterE)
  then obtain f fs' where "fs = f # fs'" using assms(1) by (auto simp: dag_rel_Cons)
  then show ?thesis using assms(1) dag_step_enter(1) unfolding ds E_enter a_step.simps by blast
next
  case (E_loop n)
  obtain p ds' where ds: "ds = p # ds'" "0 < n" using assms(2) unfolding E_loop by (elim d_guard_loopE)
  then obtain f fs' where "fs = f # fs'" using assms(1) by (auto simp: dag_rel_Cons)
  then show ?thesis using assms(1) dag_step_enter(2) ds(2) unfolding ds(1) E_loop a_step.simps by blast
next
  case (E_leave r)
  obtain c p ds' where ds: "ds = c # p # ds'" using assms(2) unfolding E_leave by (elim d_guard_leaveE)
  then obtain f g fs' where "fs = f # g # fs'" using assms(1) by (auto simp: dag_rel_Cons)
  then show ?thesis using assms(1,2) dag_step_leave unfolding ds E_leave a_step.simps by blast
next
  case (E_sync r)
  obtain p ds' where ds: "ds = p # ds'" using assms(2) unfolding E_sync by (elim d_guard_syncE)
  then obtain f fs' where "fs = f # fs'" using assms(1) by (auto simp: dag_rel_Cons)
  then show ?thesis using assms(1,2) dag_step_sync unfolding ds E_sync a_step.simps by blast
next
  case E_iter_end
  obtain c p ds' where ds: "ds = c # p # ds'" using assms(2) unfolding E_iter_end by (elim d_guard_iter_endE)
  then obtain f fs' where "fs = f # fs'" using assms(1) by (auto simp: dag_rel_Cons)
  then show ?thesis using assms(1,2) dag_step_iter_end unfolding ds E_iter_end a_step.simps by blast
next
  case (E_loop_end r)
  obtain c p ds' where ds: "ds = c # p # ds'" using assms(2) unfolding E_loop_end by (elim d_guard_loop_endE)
  then obtain f g fs' where "fs = f # g # fs'" using assms(1) by (auto simp: dag_rel_Cons)
  then show ?thesis using assms(1,2) dag_step_loop_end unfolding ds E_loop_end a_step.simps by blast
next
  case (E_access x)
  obtain p ds' where ds: "ds = p # ds'" using assms(2) unfolding E_access by (elim d_guard_accessE)
  then obtain f fs' where fs: "fs = f # fs'" using assms(1) by (auto simp: dag_rel_Cons)
  then have "a_loop f \<longrightarrow> v x = a_ver f" using assms(3) E_access by blast
  then show ?thesis using dag_step_access [OF assms(1) [unfolded ds fs], of x] unfolding ds fs E_access a_step.simps by simp
qed (use assms in \<open>simp_all add: dag_step_forget\<close>)


subsection \<open>Each access has one place\<close>

definition a_occ :: "'x \<Rightarrow> 'x aframe \<Rightarrow> nat" where
  "a_occ x f = of_bool (x \<in> a_S f) + of_bool (x \<in> a_I f) + (\<Sum>P\<leftarrow>a_P f. of_bool (x \<in> pset P))"

definition a_count :: "'x \<Rightarrow> 'x aframe list \<Rightarrow> nat" where
  "a_count x fs = (\<Sum>f\<leftarrow>fs. a_occ x f)"

definition a_once :: "'x aframe list \<Rightarrow> bool" where
  "a_once fs \<longleftrightarrow> (\<forall>x. a_count x fs \<le> 1)"

definition a_tokens :: "'x aframe list \<Rightarrow> 'x set" where
  "a_tokens fs = (\<Union>f \<in> set fs. a_S f \<union> a_I f \<union> a_PP f)"

lemma a_count_Cons [simp]: "a_count x (f # fs) = a_occ x f + a_count x fs" "a_count x [] = 0"
  by (simp_all add: a_count_def)

lemma a_tokens_Cons [simp]: "a_tokens (f # fs) = a_S f \<union> a_I f \<union> a_PP f \<union> a_tokens fs" "a_tokens [] = {}"
  by (simp_all add: a_tokens_def)

lemma sum_list_of_bool_pos: "0 < (\<Sum>y\<leftarrow>ys. of_bool (Q y) :: nat) \<longleftrightarrow> (\<exists>y \<in> set ys. Q y)"
  by (induction ys) auto

lemma a_occ_0: "a_occ x f = 0 \<longleftrightarrow> x \<notin> a_S f \<union> a_I f \<union> a_PP f"
  using sum_list_of_bool_pos [of "\<lambda>P. x \<in> pset P" "a_P f"] by (auto simp: a_occ_def a_PP_def)

lemma a_count_0: "a_count x fs = 0 \<longleftrightarrow> x \<notin> a_tokens fs"
  by (induction fs) (auto simp: a_occ_0)

text \<open>The sum over the P-bags when one of them changes.\<close>

lemma sum_list_upd:
  fixes g :: "'a \<Rightarrow> nat"
  assumes "r < length xs"
  shows "(\<Sum>x\<leftarrow>xs[r := y]. g x) + g (xs ! r) = (\<Sum>x\<leftarrow>xs. g x) + g y"
  using assms by (induction xs arbitrary: r) (auto split: nat.split)

lemma a_PP_occ: "of_bool (x \<in> a_PP f) \<le> (\<Sum>P\<leftarrow>a_P f. of_bool (x \<in> pset P) :: nat)"
  using sum_list_of_bool_pos [of "\<lambda>P. x \<in> pset P" "a_P f"] by (auto simp: a_PP_def Suc_le_eq)

lemma a_occ_join:
  "r < length (a_P f) \<Longrightarrow> a_occ x (a_join r Y f) \<le> a_occ x f + of_bool (x \<in> Y)"
  using sum_list_upd [of r "a_P f" "\<lambda>P. of_bool (x \<in> pset P)" "Some (pset (a_P f ! r) \<union> Y)"]
  by (auto simp: a_occ_def a_join_def split: if_splits)

lemma a_PP_join: "r < length (a_P f) \<Longrightarrow> a_PP (a_join r Y f) = a_PP f \<union> Y"
proof -
  assume r: "r < length (a_P f)"
  have "(\<Union>s < length (a_P f). pset ((a_P f)[r := Some (pset (a_P f ! r) \<union> Y)] ! s)) =
      (\<Union>s < length (a_P f). pset (a_P f ! s)) \<union> Y"
    using r by (auto simp: nth_list_update split: if_splits)
  moreover have "(\<Union>P \<in> set Ps. pset P) = (\<Union>s < length Ps. pset (Ps ! s))" for Ps :: "'a set option list"
    unfolding set_conv_nth by blast
  ultimately show ?thesis by (simp add: a_PP_def a_join_def)
qed


lemma a_occ_ge: "of_bool (x \<in> a_S f \<union> a_I f \<union> a_PP f) \<le> a_occ x f"
  using a_occ_0 [of x f] by (cases "a_occ x f") auto

lemma a_loop_end_join:
  assumes "a_detach c" "0 < length (a_P c)"
  shows "a_loop_end r (c # p # fs) = a_join r (a_S c \<union> a_PP c \<union> a_I c) p # fs"
  using assms a_PP_join [of 0 c "a_I c"] by (simp add: a_join_def a_PP_def Un_assoc)

lemma a_sync_PP:
  assumes "r < length (a_P f)"
  shows "a_PP (f\<lparr>a_S := T, a_P := (a_P f)[r := None]\<rparr>) \<union> pset (a_P f ! r) = a_PP f"
proof -
  have "(\<Union>s < length (a_P f). pset ((a_P f)[r := None] ! s)) \<union> pset (a_P f ! r) = (\<Union>s < length (a_P f). pset (a_P f ! s))"
    using assms by (auto simp: nth_list_update split: if_splits)
  moreover have "(\<Union>P \<in> set Ps. pset P) = (\<Union>s < length Ps. pset (Ps ! s))" for Ps :: "'a set option list"
    unfolding set_conv_nth by blast
  ultimately show ?thesis by (simp add: a_PP_def)
qed

lemma a_count_leave:
  assumes "r < length (a_P p)"
  shows "a_count x (a_leave r (c # p # fs)) \<le> a_count x (c # p # fs)"
    "a_count x (a_join r (a_S c \<union> a_PP c \<union> a_I c) p # fs) \<le> a_count x (c # p # fs)"
proof -
  have "of_bool (x \<in> a_S c \<union> a_PP c) \<le> a_occ x c" "of_bool (x \<in> a_S c \<union> a_PP c \<union> a_I c) \<le> a_occ x c"
    using a_occ_ge [of x c] by (auto split: if_splits)
  moreover have "a_occ x (p\<lparr>a_S := a_S p \<union> a_S c\<rparr>) \<le> a_occ x p + of_bool (x \<in> a_S c \<union> a_PP c)"
    by (auto simp: a_occ_def)
  ultimately show "a_count x (a_leave r (c # p # fs)) \<le> a_count x (c # p # fs)"
    "a_count x (a_join r (a_S c \<union> a_PP c \<union> a_I c) p # fs) \<le> a_count x (c # p # fs)"
    using a_occ_join [OF assms, of x "a_S c \<union> a_PP c"] a_occ_join [OF assms, of x "a_S c \<union> a_PP c \<union> a_I c"] by auto
qed

lemma a_count_call: "a_count x (p\<lparr>a_S := a_S p \<union> a_S c\<rparr> # fs) \<le> a_count x (c # p # fs)"
  by (auto simp: a_occ_def)

lemma a_count_sync:
  assumes "r < length (a_P f)"
  shows "a_count x (a_sync r (f # fs)) \<le> a_count x (f # fs)"
  using sum_list_upd [OF assms, of "\<lambda>P. of_bool (x \<in> pset P)" None] by (auto simp: a_occ_def)

lemma a_count_iter_end:
  assumes "0 < length (a_P f)"
  shows "a_count x (a_iter_end (f # fs)) \<le> a_count x (f # fs)"
  using sum_list_upd [OF assms, of "\<lambda>P. of_bool (x \<in> pset P)" "Some (pset (a_P f ! 0) \<union> a_S f)"]
    sum_list_upd [OF assms, of "\<lambda>P. of_bool (x \<in> pset P)" "Some (pset (a_P f ! 0) \<union> (a_S f \<union> a_I f))"]
  by (auto simp: a_occ_def a_join_def Let_def split: if_splits)

lemma a_iter_end_tokens:
  assumes "0 < length (a_P f)"
  shows "a_tokens (a_iter_end (f # fs)) = a_tokens (f # fs)"
proof -
  have PP: "a_PP (g\<lparr>a_S := A, a_I := B, a_ver := n\<rparr>) = a_PP g" for g :: "'a aframe" and A B n by (simp add: a_PP_def)
  show ?thesis using a_PP_join [OF assms, of "a_S f"] a_PP_join [OF assms, of "a_S f \<union> a_I f"]
    by (auto simp: Let_def PP)
qed

lemma a_count_drop: "a_count y (a_drop x fs) = (if y = x then 0 else a_count y fs)"
  "a_tokens (a_drop x fs) = a_tokens fs - {x}"
proof -
  have "a_occ y (a_drop_frame x f) = (if y = x then 0 else a_occ y f)" for f
    by (auto simp: a_occ_def a_drop_frame_def pset_minus comp_def)
  then show "a_count y (a_drop x fs) = (if y = x then 0 else a_count y fs)"
    by (induction fs) (simp_all add: a_drop_def)
  have "a_PP (a_drop_frame x f) = a_PP f - {x}" for f by (auto simp: a_PP_def a_drop_frame_def pset_minus)
  then show "a_tokens (a_drop x fs) = a_tokens fs - {x}"
    by (induction fs) (auto simp: a_drop_def a_drop_frame_def)
qed


fun event_tokens :: "'x event \<Rightarrow> 'x set \<Rightarrow> 'x set" where
  "event_tokens (E_access x) X = insert x X"
| "event_tokens (E_forget x) X = X - {x}"
| "event_tokens _ X = X"

lemma a_new_count: "a_occ x (a_new n d) = 0" "a_occ x ((a_new n d)\<lparr>a_loop := l\<rparr>) = 0"
  "a_S (a_new n d) = {}" "a_I (a_new n d) = {}" "a_PP (a_new n d) = {}" "a_PP ((a_new n d)\<lparr>a_loop := l\<rparr>) = {}"
  by (simp_all add: a_occ_def a_new_def a_PP_def)

lemma once_by_count:
  assumes "\<And>x. a_count x fs' \<le> a_count x fs" "a_once fs"
  shows "a_once fs'"
  using assms le_trans unfolding a_once_def by blast

lemma a_step_once:
  assumes R: "dag_rel v fs ds" and g: "d_guard e ds" and once: "a_once fs" and new: "\<And>x. e = E_access x \<Longrightarrow> x \<notin> a_tokens fs"
  shows "a_once (a_step e fs) \<and> a_tokens (a_step e fs) = event_tokens e (a_tokens fs)"
proof (cases e)
  case (E_enter n dt)
  then show ?thesis using once by (simp add: a_enter_def a_once_def a_new_count)
next
  case (E_loop n)
  then show ?thesis using once by (simp add: a_loop_enter_def a_once_def a_new_count)
next
  case (E_leave r)
  obtain c p ds' where ds: "ds = c # p # ds'" using g unfolding E_leave by (elim d_guard_leaveE)
  then obtain f h fs' where fs: "fs = f # h # fs'" using R by (auto simp: dag_rel_Cons)
  note D = frame_relD [of v "serial v fs" f c]
  have fr: "frame_rel v (serial v fs) f c" "frame_rel v (serial v (h # fs')) h p" using R ds fs by simp_all
  have l: "\<not> a_loop f" using g E_leave ds D(3) [OF fr(1)] by simp
  then have I: "a_I f = {}" by (rule frame_rel_plain(1) [OF fr(1)])
  show ?thesis
  proof (cases "a_detach f")
    case True
    have r: "r < length (a_P h)" using g E_leave ds True D(4) [OF fr(1)] frame_relD(5) [OF fr(2)] by simp
    have "a_once (a_step e fs)"
      by (rule once_by_count [OF _ once]) (use a_count_leave(1) [OF r] E_leave fs in simp)
    moreover have "a_S (a_join r Y h) = a_S h" "a_I (a_join r Y h) = a_I h" for Y by (simp_all add: a_join_def)
    ultimately show ?thesis using E_leave fs True I a_PP_join [OF r] by auto
  next
    case False
    have "\<forall>P \<in> set (d_pend c). P = None" using g E_leave ds False D(4) [OF fr(1)] by simp
    then have "a_P f ! r = None" if r: "r < length (a_P f)" for r
    proof -
      have "d_pend c ! r \<in> set (d_pend c)" using r D(5) [OF fr(1)] by simp
      then have "d_pend c ! r = None" using \<open>\<forall>P \<in> set (d_pend c). P = None\<close> by blast
      then show ?thesis using frame_rel_none [OF fr(1) r] l by blast
    qed
    note none = this
    have "pset P = {}" if P: "P \<in> set (a_P f)" for P
    proof -
      obtain r where "r < length (a_P f)" "P = a_P f ! r" using P unfolding in_set_conv_nth by auto
      then show ?thesis using none [of r] by simp
    qed
    then have PP: "a_PP f = {}" by (simp add: a_PP_def)
    have "a_once (a_step e fs)"
      by (rule once_by_count [OF _ once]) (use a_count_call E_leave fs False in simp)
    then show ?thesis using E_leave fs False I PP by (auto simp: a_PP_def)
  qed
next
  case (E_sync r)
  obtain p ds' where ds: "ds = p # ds'" using g unfolding E_sync by (elim d_guard_syncE)
  then obtain f fs' where fs: "fs = f # fs'" using R by (auto simp: dag_rel_Cons)
  have "frame_rel v (serial v fs) f p" using R ds fs by simp
  then have r: "r < length (a_P f)" using g E_sync ds frame_relD(5) by fastforce
  have "a_once (a_step e fs)"
    by (rule once_by_count [OF _ once]) (use a_count_sync [OF r] E_sync fs in simp)
  then show ?thesis using E_sync fs a_sync_PP [OF r, of "a_S f \<union> pset (a_P f ! r)"] by auto
next
  case E_iter_end
  obtain c p ds' where ds: "ds = c # p # ds'" using g unfolding E_iter_end by (elim d_guard_iter_endE)
  then obtain f fs' where fs: "fs = f # fs'" using R by (auto simp: dag_rel_Cons)
  have fr: "frame_rel v (serial v fs) f c" using R ds fs by simp
  then have r: "0 < length (a_P f)" using g E_iter_end ds frame_relD(3,11) by fastforce
  have "a_once (a_step e fs)"
    by (rule once_by_count [OF _ once]) (use a_count_iter_end [OF r] E_iter_end fs in simp)
  then show ?thesis using E_iter_end fs a_iter_end_tokens [OF r] by simp
next
  case (E_loop_end r)
  obtain c p ds' where ds: "ds = c # p # ds'" using g unfolding E_loop_end by (elim d_guard_loop_endE)
  then obtain f h fs' where fs: "fs = f # h # fs'" using R by (auto simp: dag_rel_Cons)
  have fr: "frame_rel v (serial v fs) f c" "frame_rel v (serial v (h # fs')) h p" using R ds fs by simp_all
  have l: "a_detach f" "0 < length (a_P f)" and r: "r < length (a_P h)"
    using g E_loop_end ds frame_relD(3,10,11) [OF fr(1)] frame_relD(5) [OF fr(2)] by simp_all
  have e: "a_step e fs = a_join r (a_S f \<union> a_PP f \<union> a_I f) h # fs'"
    using a_loop_end_join [OF l] E_loop_end fs by simp
  have "a_once (a_step e fs)"
    by (rule once_by_count [OF _ once]) (use a_count_leave(2) [OF r] e fs in simp)
  moreover have "a_S (a_join r Y h) = a_S h" "a_I (a_join r Y h) = a_I h" for Y by (simp_all add: a_join_def)
  ultimately show ?thesis using e E_loop_end fs a_PP_join [OF r] by auto
next
  case (E_access x)
  obtain p ds' where ds: "ds = p # ds'" using g unfolding E_access by (elim d_guard_accessE)
  then obtain f fs' where fs: "fs = f # fs'" using R by (auto simp: dag_rel_Cons)
  have x: "a_count x fs = 0" using new [OF E_access] by (simp add: a_count_0)
  have le: "a_count y (a_access x fs) \<le> (if y = x then 1 else a_count y fs)" for y
    using x fs by (auto simp: a_occ_def)
  have "a_count y (a_access x fs) \<le> 1" for y
  proof (cases "y = x")
    case False
    have "a_count y fs \<le> 1" using once unfolding a_once_def by blast
    then show ?thesis using le [of y] False by simp
  qed (use le [of y] in simp)
  then have "a_once (a_access x fs)" by (simp add: a_once_def)
  then show ?thesis using E_access fs by (auto simp: a_PP_def)
next
  case (E_forget x)
  then show ?thesis using once by (simp add: a_once_def a_count_drop)
qed (use once in simp)

text \<open>What the bags say of an access: it is taken to be in series, or it is in a P-bag, or in the iteration
  bag of some loop frame with an older version.  What precedes the current strand is taken to be in series,
  and so is nothing else but what is lost.\<close>

lemma serial_or_parallel:
  assumes R: "dag_rel v fs ds" and once: "a_once fs" and x: "x \<in> a_tokens fs"
  shows "x \<in> serial v fs \<longleftrightarrow> \<not> (\<exists>g \<in> set fs. x \<in> a_PP g \<or> x \<in> older v g)"
proof -
  have ver: "dag_rel v gs es \<Longrightarrow> g \<in> set gs \<Longrightarrow> y \<in> a_I g \<Longrightarrow> v y \<le> a_ver g" for gs es g y
    by (induction v gs es rule: dag_rel.induct) (auto dest: frame_relD(8))
  define s where "s g = (of_bool (x \<in> a_S g \<union> same v g) :: nat)" for g
  define p where "p g = (of_bool (x \<in> a_PP g \<union> older v g) :: nat)" for g
  have sp: "s g + p g \<le> a_occ x g" for g
    using a_PP_occ [of x g] by (auto simp: s_def p_def a_occ_def same_def older_def)
  have le: "(\<Sum>g\<leftarrow>gs. s g) + (\<Sum>g\<leftarrow>gs. p g) \<le> a_count x gs" for gs
  proof (induction gs)
    case (Cons g gs)
    then show ?case using sp [of g] by simp
  qed simp
  have S: "0 < (\<Sum>g\<leftarrow>gs. s g) \<longleftrightarrow> x \<in> serial v gs" for gs
    by (induction gs) (auto simp: s_def)
  have P: "0 < (\<Sum>g\<leftarrow>gs. p g) \<longleftrightarrow> (\<exists>g \<in> set gs. x \<in> a_PP g \<or> x \<in> older v g)" for gs
    by (induction gs) (auto simp: p_def)
  have "x \<in> serial v fs \<or> (\<exists>g \<in> set fs. x \<in> a_PP g \<or> x \<in> older v g)"
  proof -
    obtain g where g: "g \<in> set fs" "x \<in> a_S g \<union> a_I g \<union> a_PP g" using x by (auto simp: a_tokens_def)
    have "g \<in> set gs \<Longrightarrow> x \<in> a_S g \<union> same v g \<Longrightarrow> x \<in> serial v gs" for gs by (induction gs) auto
    moreover have "x \<in> a_I g \<Longrightarrow> x \<in> same v g \<union> older v g"
      using ver [OF R g(1)] by (auto simp: same_def older_def le_less)
    ultimately show ?thesis using g by blast
  qed
  moreover have "a_count x fs \<le> 1" using once unfolding a_once_def by blast
  then have "\<not> (x \<in> serial v fs \<and> (\<exists>g \<in> set fs. x \<in> a_PP g \<or> x \<in> older v g))"
    using le [of fs] S [of fs] P [of fs] by linarith
  ultimately show ?thesis by blast
qed

lemma serial_bounds:
  assumes "dag_rel v fs (d # ds)"
  shows "d_cur d \<subseteq> serial v fs" "serial v fs \<subseteq> d_cur d \<union> lost (d # ds)"
proof -
  show "d_cur d \<subseteq> serial v fs" using assms frame_relD(2) by (fastforce simp: dag_rel_Cons simp del: serial.simps)
  have "serial v fs \<subseteq> d_cur (hd D) \<union> lost D" if "dag_rel v fs D" "D \<noteq> []" for D :: "'a dframe list"
    using that
  proof (induction v fs D rule: dag_rel.induct)
    case (1 v f fs d ds)
    then have "frame_rel v (serial v (f # fs)) f d" by simp
    note F = frame_relD(1) [OF this]
    have "serial v fs \<subseteq> d_cur d \<union> lost ds"
    proof (cases ds)
      case Nil
      then show ?thesis using 1(2) by (cases fs) simp_all
    next
      case (Cons e es)
      then have "d_cur e \<subseteq> d_cur d" "dag_rel v fs ds" using 1(2) by simp_all
      then show ?thesis using 1(1) Cons by fastforce
    qed
    then show ?case using F by auto
  qed simp_all
  from this [of "d # ds"] assms show "serial v fs \<subseteq> d_cur d \<union> lost (d # ds)" by simp
qed

text \<open>Only loops lose accesses.\<close>

lemma lost_plain:
  assumes "dag_rel v fs D" "\<forall>d \<in> set D. \<not> d_loop d"
  shows "lost D = {}"
  using assms
proof (induction v fs D rule: dag_rel.induct)
  case (1 v f fs d ds)
  have R: "frame_rel v (serial v (f # fs)) f d" using 1(2) by simp
  have "\<not> a_loop f" using frame_relD(3) [OF R] 1(3) by simp
  then have "lost1 d = {}" using frame_rel_plain(4) [OF R] by blast
  then show ?case using 1 by simp
qed simp_all

end
