(* ===== verification/Entries.thy ===== *)
theory Entries
  imports RefCount SPDag
begin

subsection \<open>Recorded accesses\<close>

text \<open>
  An access that the shadow memory holds has a number \<open>t\<close>; the map gives the function node and the version
  that were recorded with it.
\<close>

type_synonym entries = "nat \<rightharpoonup> u64 \<times> nat"

definition refs :: "entries \<Rightarrow> u64 \<Rightarrow> nat" where
  "refs E x = card {t. \<exists>v. E t = Some (x, v)}"

definition vers :: "entries \<Rightarrow> nat \<Rightarrow> nat" where
  "vers E t = (case E t of None \<Rightarrow> 0 | Some (x, v) \<Rightarrow> v)"

text \<open>The accesses of a set of nodes, and of the sets of a frame.\<close>

definition pre :: "entries \<Rightarrow> u64 set \<Rightarrow> nat set" where
  "pre E X = {t. \<exists>x v. E t = Some (x, v) \<and> x \<in> X}"

definition pull :: "entries \<Rightarrow> u64 aframe \<Rightarrow> nat aframe" where
  "pull E f = \<lparr>a_S = pre E (a_S f), a_P = map (map_option (pre E)) (a_P f), a_I = pre E (a_I f),
     a_ver = a_ver f, a_loop = a_loop f, a_detach = a_detach f\<rparr>"

lemma pull_simps [simp]:
  "a_S (pull E f) = pre E (a_S f)" "a_P (pull E f) = map (map_option (pre E)) (a_P f)"
  "a_I (pull E f) = pre E (a_I f)" "a_ver (pull E f) = a_ver f" "a_loop (pull E f) = a_loop f"
  "a_detach (pull E f) = a_detach f"
  by (simp_all add: pull_def)

lemma pre_simps [simp]: "pre E {} = {}" "pre E (X \<union> Y) = pre E X \<union> pre E Y"
  by (auto simp: pre_def)

lemma pset_pre [simp]: "pset (map_option (pre E) P) = pre E (pset P)"
  by (cases P) simp_all

lemma pull_PP [simp]: "a_PP (pull E f) = pre E (a_PP f)"
  unfolding a_PP_def by (auto simp: pre_def)

lemma aframe_eqI:
  assumes "a_S f = a_S g" "a_P f = a_P g" "a_I f = a_I g" "a_ver f = a_ver g" "a_loop f = a_loop g" "a_detach f = a_detach g"
  shows "f = (g :: 'x aframe)"
  by (rule aframe.equality) (use assms in simp_all)

lemma pull_new [simp]: "pull E (a_new n d) = a_new n d" "pull E ((a_new n d)\<lparr>a_loop := l\<rparr>) = (a_new n d)\<lparr>a_loop := l\<rparr>"
  by (rule aframe_eqI; simp add: a_new_def)+

lemma pull_join [simp]: "pull E (a_join r X f) = a_join r (pre E X) (pull E f)"
proof (rule aframe_eqI)
  show "a_P (pull E (a_join r X f)) = a_P (a_join r (pre E X) (pull E f))"
    by (cases "r < length (a_P f)") (simp_all add: a_join_def map_update list_update_beyond)
qed (simp_all add: a_join_def)

lemma pull_upd [simp]:
  "pull E (f\<lparr>a_S := X\<rparr>) = (pull E f)\<lparr>a_S := pre E X\<rparr>" "pull E (f\<lparr>a_I := X\<rparr>) = (pull E f)\<lparr>a_I := pre E X\<rparr>"
  "pull E (f\<lparr>a_ver := n\<rparr>) = (pull E f)\<lparr>a_ver := n\<rparr>"
  by (rule aframe_eqI; simp)+

lemma pull_leave: "map (pull E) (a_leave r fs) = a_leave r (map (pull E) fs)"
  by (cases "(r, fs)" rule: a_leave.cases) simp_all

text \<open>Events that move whole sets.\<close>

fun moves_sets :: "'x event \<Rightarrow> 'x aframe list \<Rightarrow> bool" where
  "moves_sets (E_access x) fs = False"
| "moves_sets (E_forget x) fs = False"
| "moves_sets (E_sync r) (f # fs) = (r < length (a_P f))"
| "moves_sets _ fs = True"

fun control_event :: "nat event \<Rightarrow> u64 event" where
  "control_event (E_enter n d) = E_enter n d"
| "control_event (E_loop n) = E_loop n"
| "control_event (E_leave r) = E_leave r"
| "control_event (E_sync r) = E_sync r"
| "control_event E_iter_end = E_iter_end"
| "control_event (E_loop_end r) = E_loop_end r"
| "control_event _ = E_strand"

lemma pull_step:
  assumes "moves_sets e (map (pull E) fs)"
  shows "map (pull E) (a_step (control_event e) fs) = a_step e (map (pull E) fs)"
proof (cases e)
  case (E_leave r)
  then show ?thesis by (simp add: pull_leave)
next
  case (E_sync r)
  show ?thesis
  proof (cases fs)
    case (Cons f gs)
    have r: "r < length (a_P f)" using assms E_sync Cons by simp
    have "pull E (f\<lparr>a_S := a_S f \<union> pset (a_P f ! r), a_P := (a_P f)[r := None]\<rparr>) =
        (pull E f)\<lparr>a_S := pre E (a_S f) \<union> pre E (pset (a_P f ! r)), a_P := (map (map_option (pre E)) (a_P f))[r := None]\<rparr>"
      by (rule aframe_eqI) (simp_all add: map_update)
    then show ?thesis using E_sync Cons r by simp
  qed (use E_sync in simp)
next
  case E_iter_end
  then show ?thesis by (cases fs) (simp_all add: Let_def)
next
  case (E_loop_end r)
  then show ?thesis by (cases fs) (simp_all add: pull_leave)
qed (use assms in \<open>simp_all add: a_enter_def a_loop_enter_def\<close>)

text \<open>A new access.\<close>

lemma refs_upd:
  assumes fin: "finite (dom E)" and t: "E t = None"
  shows "refs (E(t \<mapsto> (x, v))) = ext_inc (Some x) (refs E)"
proof
  fix y
  have "finite {t. \<exists>v. E t = Some (y, v)}" by (rule finite_subset [OF _ fin]) auto
  moreover have "{s. \<exists>w. (E(t \<mapsto> (x, v))) s = Some (y, w)} =
      (if y = x then insert t {s. \<exists>w. E s = Some (y, w)} else {s. \<exists>w. E s = Some (y, w)})"
    using t by auto
  ultimately show "refs (E(t \<mapsto> (x, v))) y = ext_inc (Some x) (refs E) y" using t by (auto simp: refs_def)
qed

lemma refs_drop:
  assumes fin: "finite (dom E)" and t: "E t = Some (x, v)"
  shows "refs (E(t := None)) = ext_dec (Some x) (refs E)" "0 < refs E x"
    "refs E x = 1 \<longleftrightarrow> (\<forall>s w. E s = Some (x, w) \<longrightarrow> s = t)"
proof -
  let ?T = "\<lambda>y. {s. \<exists>w. E s = Some (y, w)}"
  have f: "finite (?T y)" for y by (rule finite_subset [OF _ fin]) auto
  have m: "t \<in> ?T x" using t by auto
  show "refs (E(t := None)) = ext_dec (Some x) (refs E)"
  proof
    fix y
    have "{s. \<exists>w. (E(t := None)) s = Some (y, w)} = (if y = x then ?T x - {t} else ?T y)"
      using t by auto
    then show "refs (E(t := None)) y = ext_dec (Some x) (refs E) y"
      using m f by (auto simp: refs_def)
  qed
  show "0 < refs E x" using m f [of x] by (auto simp: refs_def card_gt_0_iff)
  have "refs E x = 1 \<longleftrightarrow> ?T x = {t}"
  proof
    assume "refs E x = 1"
    then obtain s where "?T x = {s}" unfolding refs_def by (rule card_1_singletonE)
    then show "?T x = {t}" using m by simp
  qed (simp add: refs_def)
  also have "\<dots> \<longleftrightarrow> (\<forall>s w. E s = Some (x, w) \<longrightarrow> s = t)" using t by auto
  finally show "refs E x = 1 \<longleftrightarrow> (\<forall>s w. E s = Some (x, w) \<longrightarrow> s = t)" .
qed

lemma pre_none: "finite (dom E) \<Longrightarrow> refs E x = 0 \<Longrightarrow> E t \<noteq> Some (x, v)"
  using refs_drop(2) by fastforce

lemma pre_new:
  assumes "E t = None"
  shows "x \<notin> X \<Longrightarrow> pre (E(t \<mapsto> (x, v))) X = pre E X" "x \<in> X \<Longrightarrow> pre (E(t \<mapsto> (x, v))) X = insert t (pre E X)"
  using assms by (auto simp: pre_def)

lemma pre_new_opt:
  assumes "E t = None" "x \<notin> pset P"
  shows "map_option (pre (E(t \<mapsto> (x, v)))) P = map_option (pre E) P"
  using assms by (cases P) (simp_all add: pre_new(1))

lemma pre_insert_dead: "finite (dom E) \<Longrightarrow> refs E x = 0 \<Longrightarrow> pre E (insert x X) = pre E X"
  using pre_none by (auto simp: pre_def)

lemma pull_new_other:
  assumes "E t = None" "x \<notin> a_S f" "x \<notin> a_I f" "x \<notin> a_PP f"
  shows "pull (E(t \<mapsto> (x, v))) f = pull E f"
proof (rule aframe_eqI)
  have "map_option (pre (E(t \<mapsto> (x, v)))) P = map_option (pre E) P" if P: "P \<in> set (a_P f)" for P
    by (rule pre_new_opt [where E = E, OF assms(1)]) (use P assms(4) in \<open>auto simp: a_PP_def\<close>)
  then show "a_P (pull (E(t \<mapsto> (x, v))) f) = a_P (pull E f)" by simp
qed (use assms in \<open>simp_all add: pre_new(1)\<close>)

text \<open>The access goes to the bag \<open>X\<close> of the topmost frame, and its node is in no other set.\<close>

lemma pull_access:
  assumes fin: "finite (dom E)" and t: "E t = None" and X: "X = (if a_loop f then a_I f else a_S f)"
    and live: "0 < refs E x \<longrightarrow> x \<in> X" and out: "x \<notin> (if a_loop f then a_S f else a_I f)" "x \<notin> a_PP f"
    "x \<notin> a_tokens fs"
  shows "map (pull (E(t \<mapsto> (x, v)))) (a_access x (f # fs)) = a_access t (map (pull E) (f # fs))"
proof -
  let ?E = "E(t \<mapsto> (x, v))"
  have rest: "map (pull ?E) fs = map (pull E) fs"
    using out(3) by (auto simp: a_tokens_def intro!: pull_new_other [where E = E, OF t])
  have in_X: "pre ?E (insert x X) = insert t (pre E X)"
    using pre_new(2) [where E = E, OF t, of x "insert x X"] live pre_insert_dead [OF fin, of x X]
    by (cases "x \<in> X") (auto simp: insert_absorb)
  have P: "map (map_option (pre ?E)) (a_P f) = map (map_option (pre E)) (a_P f)"
  proof (rule map_cong [OF refl])
    fix P assume "P \<in> set (a_P f)"
    then show "map_option (pre ?E) P = map_option (pre E) P"
      using out(2) by (intro pre_new_opt [where E = E, OF t]) (auto simp: a_PP_def)
  qed
  show ?thesis
  proof (cases "a_loop f")
    case True
    have "pull ?E (f\<lparr>a_I := insert x (a_I f)\<rparr>) = (pull E f)\<lparr>a_I := insert t (pre E (a_I f))\<rparr>"
      by (rule aframe_eqI) (use True X in_X P out(1) pre_new(1) [where E = E, OF t] in simp_all)
    then show ?thesis using True rest by simp
  next
    case False
    have "pull ?E (f\<lparr>a_S := insert x (a_S f)\<rparr>) = (pull E f)\<lparr>a_S := insert t (pre E (a_S f))\<rparr>"
      by (rule aframe_eqI) (use False X in_X P out(1) pre_new(1) [where E = E, OF t] in simp_all)
    then show ?thesis using False rest by simp
  qed
qed

text \<open>An access is forgotten.\<close>

lemma pre_drop:
  assumes "E t = Some (x, v)"
  shows "pre (E(t := None)) X = pre E X - {t}"
    "(\<forall>s w. E s = Some (x, w) \<longrightarrow> s = t) \<Longrightarrow> pre (E(t := None)) (X - {x}) = pre E X - {t}"
  using assms by (auto simp: pre_def split: if_splits)

lemma pull_forget:
  assumes fin: "finite (dom E)" and t: "E t = Some (x, v)"
  shows "map (pull (E(t := None))) (if refs E x = 1 then a_drop x fs else fs) = a_drop t (map (pull E) fs)"
proof -
  let ?E = "E(t := None)"
  note D = pre_drop(1) [where E = E, OF t]
  have a: "pull ?E f = a_drop_frame t (pull E f)" for f
    by (rule aframe_eqI) (auto simp: a_drop_frame_def D option.map_comp comp_def intro!: map_option_cong)
  have b: "pull ?E (a_drop_frame x f) = a_drop_frame t (pull E f)" if u: "refs E x = 1" for f
  proof -
    have U: "\<forall>s w. E s = Some (x, w) \<longrightarrow> s = t" using refs_drop(3) [OF fin t] u by blast
    show ?thesis
      by (rule aframe_eqI) (auto simp: a_drop_frame_def pre_drop(2) [where E = E, OF t U] option.map_comp comp_def
          intro!: map_option_cong)
  qed
  show ?thesis using a b by (simp add: a_drop_def)
qed

text \<open>The version of an access matters only where the access is.\<close>

lemma dag_rel_cong:
  assumes "\<And>x. x \<in> a_tokens fs \<Longrightarrow> v x = w x"
  shows "dag_rel v fs ds \<longleftrightarrow> dag_rel w fs ds"
  using assms
proof (induction fs arbitrary: ds)
  case Nil
  then show ?case by (cases ds) simp_all
next
  case (Cons f fs)
  have e: "same v f = same w f" "older v f = older w f" using Cons(2) by (auto simp: same_def older_def)
  have "serial v gs = serial w gs" if "a_tokens gs \<subseteq> a_tokens (f # fs)" for gs
    using that by (induction gs) (use Cons(2) in \<open>auto simp: same_def\<close>)
  then have s: "serial v (f # fs) = serial w (f # fs)" by blast
  have le: "(\<forall>x \<in> a_I f. v x \<le> n) \<longleftrightarrow> (\<forall>x \<in> a_I f. w x \<le> n)" for n using Cons(2) by auto
  have "frame_rel v C f d \<longleftrightarrow> frame_rel w C f d" for C d
    using e le unfolding frame_rel_def iters_rel_def by simp
  then show ?case using s Cons(1) [of "tl ds"] Cons(2) by (cases ds) (simp_all del: serial.simps)
qed

end
