(* ===== verification/ToolSteps.thy ===== *)
theory ToolSteps
  imports ToolRefine Entries
begin

text \<open>
  The tool as a transition system over control-flow events and recorded accesses, and the simulation
  between its states, the abstract SP-bags machine and the series-parallel relation of the program.
\<close>

datatype action =
  Enter u32
| EnterHelper u32
| Detach
| DetachContinue u32
| LoopBegin
| IterationBegin u32
| IterationEnd
| LoopEnd u32
| Sync u32
| Leave u32
| Record nat
| Forget nat
| Query nat MemoryAccess_t
| Supply "u64 list"

text \<open>
  What the tool does.  \<open>Record\<close> and \<open>Forget\<close> are what storing and dropping an access does to the bags:
  its function node gains or loses a reference.  \<open>Supply\<close> is not an event of the program: it says which
  addresses the allocators will return next.
\<close>

fun tool_act :: "'m user_code \<Rightarrow> action \<Rightarrow> 'm cilksan \<Rightarrow> entries \<Rightarrow> ('m cilksan \<times> entries) option" where
  "tool_act U (Enter n) S E = map_option (\<lambda>S. (S, E)) (do_enter n S)"
| "tool_act U (EnterHelper n) S E = map_option (\<lambda>S. (S, E)) (do_enter_helper n S)"
| "tool_act U Detach S E = map_option (\<lambda>S. (S, E)) (do_detach S)"
| "tool_act U (DetachContinue r) S E = map_option (\<lambda>S. (S, E)) (do_detach_continue U r S)"
| "tool_act U LoopBegin S E = Some (do_loop_begin S, E)"
| "tool_act U (IterationBegin n) S E = map_option (\<lambda>S. (S, E)) (do_loop_iteration_begin n S)"
| "tool_act U IterationEnd S E = map_option (\<lambda>S. (S, E)) (do_loop_iteration_end U S)"
| "tool_act U (LoopEnd r) S E = map_option (\<lambda>S. (S, E)) (do_loop_end r S)"
| "tool_act U (Sync r) S E = map_option (\<lambda>S. (S, E)) (do_sync U r S)"
| "tool_act U (Leave r) S E = map_option (\<lambda>S. (S, E)) (do_leave r S)"
| "tool_act U (Record t) S E =
     do { (x, v, S) \<leftarrow> access_node S; S \<leftarrow> on_bags (sp_inc_ref x) S; Some (S, E(t \<mapsto> (x, unat v))) }"
| "tool_act U (Forget t) S E =
     do { (x, v) \<leftarrow> E t; S \<leftarrow> on_bags (sp_dec_ref x) S; Some (S, E(t := None)) }"
| "tool_act U (Query t ma) S E = do { (par, S) \<leftarrow> access_in_parallel ma S; Some (S, E) }"
| "tool_act U (Supply new) S E = Some (S\<lparr>cs_sp := (cs_sp S)\<lparr>sp_new := new\<rparr>\<rparr>, E)"

text \<open>The event of the program; the flag tells whether a loop is about to start.\<close>

fun event_of :: "action \<Rightarrow> bool \<Rightarrow> nat event" where
  "event_of (Enter n) l = E_enter (unat n) False"
| "event_of (EnterHelper n) l = E_enter (unat n) True"
| "event_of (IterationBegin n) l = (if l then E_loop (unat (if n > 0 then n else 1)) else E_strand)"
| "event_of IterationEnd l = E_iter_end"
| "event_of (LoopEnd r) l = E_loop_end (unat r)"
| "event_of (Sync r) l = E_sync (unat r)"
| "event_of (Leave r) l = E_leave (unat r)"
| "event_of (Record t) l = E_access t"
| "event_of (Forget t) l = E_forget t"
| "event_of _ l = E_strand"

text \<open>
  What the program and the allocators must respect: the discipline of \<open>d_guard\<close>, sync regions that fit the
  bits of \<open>InContin\<close>, a stack below its limit of \<open>2 ^ 31\<close> frames, as many free addresses as the handler
  takes (below \<open>2 ^ 48\<close>), and queries about accesses that are recorded.
\<close>

definition free_addr :: "'d sp_state \<Rightarrow> u64 \<Rightarrow> bool" where
  "free_addr B a \<longleftrightarrow> a \<noteq> 0 \<and> aligned4 a \<and> ptr48 a \<and> sp_bags B a = None \<and> sp_ds B a = None"

fun act_ok :: "action \<Rightarrow> 'm cilksan \<Rightarrow> entries \<Rightarrow> nat dframe list \<Rightarrow> bool" where
  "act_ok (Enter n) S E D \<longleftrightarrow> Stack_room (cs_frame_stack S) \<and> 2 \<le> length (sp_new (cs_sp S))"
| "act_ok (EnterHelper n) S E D \<longleftrightarrow> Stack_room (cs_frame_stack S) \<and> 2 \<le> length (sp_new (cs_sp S))"
| "act_ok Detach S E D \<longleftrightarrow> True"
| "act_ok (DetachContinue r) S E D \<longleftrightarrow> unat r < 7"
| "act_ok LoopBegin S E D \<longleftrightarrow> True"
| "act_ok (IterationBegin n) S E D \<longleftrightarrow>
     (if cs_start_new_loop S then Stack_room (cs_frame_stack S) \<and> 4 \<le> length (sp_new (cs_sp S))
      else d_loop (hd D))"
| "act_ok IterationEnd S E D \<longleftrightarrow> 5 \<le> length (sp_new (cs_sp S))"
| "act_ok (LoopEnd r) S E D \<longleftrightarrow> 2 \<le> length (sp_new (cs_sp S))"
| "act_ok (Sync r) S E D \<longleftrightarrow> unat r < 7"
| "act_ok (Leave r) S E D \<longleftrightarrow> sp_new (cs_sp S) \<noteq> []"
| "act_ok (Record t) S E D \<longleftrightarrow> E t = None"
| "act_ok (Forget t) S E D \<longleftrightarrow> E t \<noteq> None"
| "act_ok (Query t ma) S E D \<longleftrightarrow>
     E t = Some (getFuncFromVerFunc ma, unat (getVersionFromVerFunc ma))"
| "act_ok (Supply new) S E D \<longleftrightarrow> distinct new \<and> list_all (free_addr (cs_sp S)) new"

text \<open>How much the ranks of the disjoint sets can grow.\<close>

fun rank_cost :: "action \<Rightarrow> nat dframe list \<Rightarrow> nat" where
  "rank_cost IterationEnd D = 2"
| "rank_cost (Sync r) D = 1"
| "rank_cost (Leave r) D = length (d_pend (hd D)) + 1"
| "rank_cost (LoopEnd r) D = length (d_pend (hd D)) + 2"
| "rank_cost _ D = 0"

definition step_ok :: "action \<Rightarrow> nat \<Rightarrow> 'm cilksan \<Rightarrow> entries \<Rightarrow> nat dframe list \<Rightarrow> bool" where
  "step_ok a k S E D \<longleftrightarrow>
     act_ok a S E D \<and> d_guard (event_of a (cs_start_new_loop S)) D \<and> k + rank_cost a D < 2 ^ 64 - 1"

subsection \<open>The simulation\<close>

definition entry_abs :: "'m cilksan \<Rightarrow> entries \<Rightarrow> FrameData_t list \<Rightarrow> nat aframe list" where
  "entry_abs S E fs = map (pull E) (tool_abs S (refs E) fs)"

definition tool_sim ::
  "'m cilksan \<Rightarrow> entries \<Rightarrow> nat \<Rightarrow> FrameData_t list \<Rightarrow> nat dframe list \<Rightarrow> bool" where
  "tool_sim S E k fs D \<longleftrightarrow>
     finite (dom E) \<and> tool_ok S (refs E) k fs \<and> dag_rel (vers E) (entry_abs S E fs) D \<and>
     a_once (entry_abs S E fs) \<and> a_tokens (entry_abs S E fs) = dom E"

lemma tool_simD:
  assumes "tool_sim S E k fs D"
  shows "finite (dom E)" "tool_ok S (refs E) k fs" "dag_rel (vers E) (entry_abs S E fs) D"
    "a_once (entry_abs S E fs)" "a_tokens (entry_abs S E fs) = dom E"
  using assms by (simp_all add: tool_sim_def)

lemma entry_abs_Cons: "entry_abs S E (f # fs) =
    pull E (abs_frame (cmem (cs_sp S) (refs E) {}) (ver_of (cs_sp S)) f) # entry_abs S E fs"
  by (simp add: entry_abs_def tool_abs_def)

lemma length_entry_abs: "length (entry_abs S E fs) = length fs"
  by (simp add: entry_abs_def tool_abs_def)

text \<open>What a frame of the dag tells about the frame of the tool.\<close>

definition shapes :: "FrameData_t \<Rightarrow> 'x dframe \<Rightarrow> bool" where
  "shapes f d \<longleftrightarrow> is_loop_frame f = d_loop d \<and> isDetacher (frame_data f) = d_detach d \<and>
     length (pbags_of f) = length (d_pend d) \<and>
     (\<forall>r < length (d_pend d). \<not> (d_loop d \<and> r = 0) \<longrightarrow> (d_pend d ! r = None \<longleftrightarrow> pbags_of f ! r = 0))"

lemma sim_frames:
  assumes "dag_rel v (entry_abs S E fs) D"
  shows "list_all2 shapes fs D"
  using assms
proof (induction fs arbitrary: D)
  case Nil
  then show ?case by (cases D) (simp_all add: entry_abs_def tool_abs_def)
next
  case (Cons f fs)
  let ?a = "pull E (abs_frame (cmem (cs_sp S) (refs E) {}) (ver_of (cs_sp S)) f)"
  obtain d D' where D: "D = d # D'" using Cons(2) by (cases D) (simp_all add: entry_abs_Cons)
  have R: "frame_rel v (serial v (entry_abs S E (f # fs))) ?a d" "dag_rel v (entry_abs S E fs) D'"
    using Cons(2) D by (simp_all add: entry_abs_Cons)
  note F = frame_relD [OF R(1)]
  have P: "a_P ?a = map (map_option (pre E) \<circ> (\<lambda>p. if p = 0 then None else Some (cmem (cs_sp S) (refs E) {} p))) (pbags_of f)"
    by (simp add: abs_frame_def)
  have len: "length (pbags_of f) = length (d_pend d)" using F(5) P by simp
  have l: "is_loop_frame f = d_loop d" using F(3) by simp
  have "d_pend d ! r = None \<longleftrightarrow> pbags_of f ! r = 0" if r: "r < length (d_pend d)" "\<not> (d_loop d \<and> r = 0)" for r
    using frame_rel_none [OF R(1), of r] r len l by (simp add: abs_frame_def split: if_splits)
  then have "shapes f d" using len l F(4) by (simp add: shapes_def)
  then show ?case using Cons(1) [OF R(2)] D by simp
qed

lemma sim_Cons:
  assumes "tool_sim S E k fs (d # D)"
  shows "\<exists>f fs'. fs = f # fs' \<and> shapes f d \<and> list_all2 shapes fs' D"
  using sim_frames [OF tool_simD(3) [OF assms]] by (auto simp: list_all2_Cons2)

subsection \<open>Control-flow events\<close>

fun is_control :: "'x event \<Rightarrow> bool" where
  "is_control (E_access x) = False"
| "is_control (E_forget x) = False"
| "is_control _ = True"

lemma guard_moves:
  assumes "dag_rel v fs D" "d_guard e D" "is_control e"
  shows "moves_sets e fs"
proof (cases e)
  case (E_sync r)
  then obtain d D' where D: "D = d # D'" using assms(2) by (cases D) auto
  then obtain f fs' where fs: "fs = f # fs'" using assms(1) by (auto simp: dag_rel_Cons)
  have "frame_rel v (serial v fs) f d" using assms(1) D fs by simp
  then have "length (d_pend d) = length (a_P f)" by (rule frame_relD(5))
  then show ?thesis using E_sync assms(2) D fs by simp
qed (use assms(3) in simp_all)

lemma sim_control:
  assumes sim: "tool_sim S E k fs D" and g: "d_guard e D" "is_control e" and ok: "tool_ok S' (refs E) k' fs'"
    and a: "tool_abs S' (refs E) fs' = a_step (control_event e) (tool_abs S (refs E) fs)"
  shows "tool_sim S' E k' fs' (d_step e D)" "entry_abs S' E fs' = a_step e (entry_abs S E fs)"
proof -
  note T = tool_simD [OF sim]
  show e: "entry_abs S' E fs' = a_step e (entry_abs S E fs)"
    using pull_step [OF guard_moves [OF T(3) g, unfolded entry_abs_def]] a by (simp add: entry_abs_def)
  have "dag_rel (vers E) (a_step e (entry_abs S E fs)) (d_step e D)"
    by (rule dag_step [OF T(3) g(1)]) (use g(2) in auto)
  moreover have "a_once (a_step e (entry_abs S E fs)) \<and>
      a_tokens (a_step e (entry_abs S E fs)) = event_tokens e (a_tokens (entry_abs S E fs))"
    by (rule a_step_once [OF T(3) g(1) T(4)]) (use g(2) in auto)
  moreover have "event_tokens e X = X" for X using g(2) by (cases e) simp_all
  ultimately show "tool_sim S' E k' fs' (d_step e D)" using e T(1,5) ok by (simp add: tool_sim_def)
qed


lemma dag_rel_heads: "dag_rel v fs (d # D) \<Longrightarrow> fs \<noteq> []"
  by (auto simp: dag_rel_Cons)

lemma d_guard_ne: "d_guard e D \<Longrightarrow> is_control e \<Longrightarrow> e \<noteq> E_strand \<Longrightarrow> D \<noteq> []"
  by (cases "(e, D)" rule: d_guard.cases) simp_all

definition steps_to ::
  "'m user_code \<Rightarrow> action \<Rightarrow> nat \<Rightarrow> 'm cilksan \<Rightarrow> entries \<Rightarrow> FrameData_t list \<Rightarrow> nat dframe list \<Rightarrow> bool" where
  "steps_to U a k S E fs D \<longleftrightarrow>
     (\<exists>S' E' fs'. tool_act U a S E = Some (S', E') \<and>
        tool_sim S' E' (k + rank_cost a D) fs' (d_step (event_of a (cs_start_new_loop S)) D) \<and>
        entry_abs S' E' fs' = a_step (event_of a (cs_start_new_loop S)) (entry_abs S E fs))"

lemma steps_to_control:
  assumes sim: "tool_sim S E k fs D" and g: "d_guard (event_of a (cs_start_new_loop S)) D"
    "is_control (event_of a (cs_start_new_loop S))"
    and act: "tool_act U a S E = Some (S', E)" and ok: "tool_ok S' (refs E) (k + rank_cost a D) fs'"
    and abs: "tool_abs S' (refs E) fs' =
      a_step (control_event (event_of a (cs_start_new_loop S))) (tool_abs S (refs E) fs)"
  shows "steps_to U a k S E fs D"
  using sim_control [OF sim g ok abs] act unfolding steps_to_def by blast

lemma step_enter:
  assumes sim: "tool_sim S E k fs D" and ok: "step_ok (Enter n) k S E D"
  shows "steps_to U (Enter n) k S E fs D"
proof -
  note T = tool_simD [OF sim]
  have g: "Stack_room (cs_frame_stack S)" "2 \<le> length (sp_new (cs_sp S))" using ok by (simp_all add: step_ok_def)
  obtain S' c where H: "do_enter n S = Some S'" "tool_ok S' (refs E) k (c # fs)"
    "tool_abs S' (refs E) (c # fs) = a_enter (unat n) False (tool_abs S (refs E) fs)"
    using do_enter_ok [OF T(2) g] by blast
  show ?thesis by (rule steps_to_control [OF sim]) (use H ok in \<open>simp_all add: step_ok_def\<close>)
qed

lemma step_enter_helper:
  assumes sim: "tool_sim S E k fs D" and ok: "step_ok (EnterHelper n) k S E D"
  shows "steps_to U (EnterHelper n) k S E fs D"
proof -
  note T = tool_simD [OF sim]
  have g: "Stack_room (cs_frame_stack S)" "2 \<le> length (sp_new (cs_sp S))" using ok by (simp_all add: step_ok_def)
  obtain S' c where H: "do_enter_helper n S = Some S'" "tool_ok S' (refs E) k (c # fs)"
    "tool_abs S' (refs E) (c # fs) = a_enter (unat n) True (tool_abs S (refs E) fs)"
    using do_enter_helper_ok [OF T(2) g] by blast
  show ?thesis by (rule steps_to_control [OF sim]) (use H ok in \<open>simp_all add: step_ok_def\<close>)
qed

lemma step_detach:
  assumes sim: "tool_sim S E k fs D" and ok: "step_ok Detach k S E D"
  shows "steps_to U Detach k S E fs D"
proof -
  obtain S' where H: "do_detach S = Some S'" "tool_ok S' (refs E) k fs" "tool_abs S' (refs E) fs = tool_abs S (refs E) fs"
    using do_detach_ok [OF tool_simD(2) [OF sim]] by blast
  show ?thesis by (rule steps_to_control [where S' = S' and fs' = "fs", OF sim]) (use H in simp_all)
qed

lemma step_detach_continue:
  assumes sim: "tool_sim S E k fs D" and ok: "step_ok (DetachContinue r) k S E D"
  shows "steps_to U (DetachContinue r) k S E fs D"
proof -
  have "fs \<noteq> []" using cs_at_length [OF tool_okD(1) [OF tool_simD(2) [OF sim]]] by auto
  then obtain f gs where fs: "fs = f # gs" by (cases fs) auto
  have r: "unat r < 7" using ok by (simp add: step_ok_def)
  obtain S' f' where H: "do_detach_continue U r S = Some S'" "tool_ok S' (refs E) k (f' # gs)"
    "tool_abs S' (refs E) (f' # gs) = tool_abs S (refs E) fs"
    using do_detach_continue_ok [OF tool_simD(2) [OF sim, unfolded fs] r] fs by blast
  show ?thesis by (rule steps_to_control [where S' = S' and fs' = "f' # gs", OF sim]) (use H in simp_all)
qed

lemma step_loop_begin:
  assumes sim: "tool_sim S E k fs D"
  shows "steps_to U LoopBegin k S E fs D"
  by (rule steps_to_control [where S' = "do_loop_begin S" and fs' = "fs", OF sim]) (use do_loop_begin_ok [OF tool_simD(2) [OF sim]] in simp_all)

lemma step_iteration_begin:
  assumes sim: "tool_sim S E k fs D" and ok: "step_ok (IterationBegin n) k S E D"
  shows "steps_to U (IterationBegin n) k S E fs D"
proof (cases "cs_start_new_loop S")
  case True
  have g: "Stack_room (cs_frame_stack S)" "4 \<le> length (sp_new (cs_sp S))" using ok True by (simp_all add: step_ok_def)
  obtain S' c where H: "do_loop_iteration_begin n S = Some S'" "tool_ok S' (refs E) k (c # fs)"
    "tool_abs S' (refs E) (c # fs) = a_loop_enter (unat (if n > 0 then n else 1)) (tool_abs S (refs E) fs)"
    using do_loop_start_ok [OF tool_simD(2) [OF sim] g True] by blast
  show ?thesis by (rule steps_to_control [OF sim]) (use H ok True in \<open>simp_all add: step_ok_def\<close>)
next
  case False
  have ne: "D \<noteq> []"
  proof
    assume "D = []"
    then have "entry_abs S E fs = []" using tool_simD(3) [OF sim] by (cases "entry_abs S E fs") auto
    then have "fs = []" using length_entry_abs [of S E fs] by simp
    then show False using cs_at_length [OF tool_okD(1) [OF tool_simD(2) [OF sim]]] by simp
  qed
  then obtain d D' where D: "D = d # D'" by (cases D) auto
  obtain f gs where fs: "fs = f # gs" "shapes f d" using sim_Cons [OF sim [unfolded D]] by blast
  have l: "is_loop_frame f" using fs(2) ok False D by (simp add: shapes_def step_ok_def)
  obtain S' f' where H: "do_loop_iteration_begin n S = Some S'" "tool_ok S' (refs E) k (f' # gs)"
    "tool_abs S' (refs E) (f' # gs) = tool_abs S (refs E) fs"
    using do_loop_next_ok [OF tool_simD(2) [OF sim, unfolded fs(1)] l False] fs(1) by blast
  show ?thesis by (rule steps_to_control [where S' = S' and fs' = "f' # gs", OF sim]) (use H False in simp_all)
qed

lemma step_iteration_end:
  assumes sim: "tool_sim S E k fs D" and ok: "step_ok IterationEnd k S E D"
  shows "steps_to U IterationEnd k S E fs D"
proof -
  have g: "d_guard E_iter_end D" "5 \<le> length (sp_new (cs_sp S))" "k + 2 < 2 ^ 64 - 1" using ok by (simp_all add: step_ok_def)
  obtain d D' where D: "D = d # D'" "d_loop d" using g(1) by (cases "(E_iter_end :: nat event, D)" rule: d_guard.cases) auto
  obtain f gs where fs: "fs = f # gs" "shapes f d" using sim_Cons [OF sim [unfolded D(1)]] by blast
  have l: "is_loop_frame f" using fs(2) D(2) by (simp add: shapes_def)
  obtain S' f' where H: "do_loop_iteration_end U S = Some S'" "tool_ok S' (refs E) (k + 2) (f' # gs)"
    "tool_abs S' (refs E) (f' # gs) = a_iter_end (tool_abs S (refs E) fs)"
    using do_loop_iteration_end_ok [OF tool_simD(2) [OF sim, unfolded fs(1)] l g(2,3)] fs(1) by blast
  show ?thesis by (rule steps_to_control [OF sim]) (use H g(1) in simp_all)
qed

lemma step_sync:
  assumes sim: "tool_sim S E k fs D" and ok: "step_ok (Sync r) k S E D"
  shows "steps_to U (Sync r) k S E fs D"
proof -
  have g: "d_guard (E_sync (unat r)) D" "unat r < 7" "k < 2 ^ 64 - 1" using ok by (simp_all add: step_ok_def)
  obtain d D' where D: "D = d # D'" "unat r < length (d_pend d)" using g(1) by (elim d_guard_syncE) auto
  obtain f gs where fs: "fs = f # gs" "shapes f d" using sim_Cons [OF sim [unfolded D(1)]] by blast
  have r: "unat r < length (pbags_of f)" using fs(2) D(2) by (simp add: shapes_def)
  obtain S' f' where H: "do_sync U r S = Some S'" "tool_ok S' (refs E) (k + 1) (f' # gs)"
    "tool_abs S' (refs E) (f' # gs) = a_sync (unat r) (tool_abs S (refs E) fs)"
    using do_sync_ok [OF tool_simD(2) [OF sim, unfolded fs(1)] r g(2,3)] fs(1) by blast
  show ?thesis by (rule steps_to_control [OF sim]) (use H g(1) in simp_all)
qed

lemma step_loop_end:
  assumes sim: "tool_sim S E k fs D" and ok: "step_ok (LoopEnd r) k S E D"
  shows "steps_to U (LoopEnd r) k S E fs D"
proof -
  have g: "d_guard (E_loop_end (unat r)) D" "2 \<le> length (sp_new (cs_sp S))" using ok by (simp_all add: step_ok_def)
  obtain d p D' where D: "D = d # p # D'" "d_loop d" "unat r < length (d_pend p)"
    using g(1) by (cases "(E_loop_end (unat r) :: nat event, D)" rule: d_guard.cases) auto
  obtain f q gs where fs: "fs = f # q # gs" "shapes f d" "shapes q p"
    using sim_Cons [OF sim [unfolded D(1)]] by (auto simp: list_all2_Cons2)
  have l: "is_loop_frame f" "unat r < length (pbags_of q)" "length (d_pend d) = length (pbags_of f)"
    using fs(2,3) D(2,3) by (simp_all add: shapes_def)
  have k: "k + length (pbags_of f) + 2 < 2 ^ 64 - 1" using ok l(3) D(1) by (simp add: step_ok_def)
  obtain S' p' where H: "do_loop_end r S = Some S'" "tool_ok S' (refs E) (k + length (pbags_of f) + 2) (p' # gs)"
    "tool_abs S' (refs E) (p' # gs) = a_loop_end (unat r) (tool_abs S (refs E) fs)"
    using do_loop_end_ok [OF tool_simD(2) [OF sim, unfolded fs(1)] l(1,2) g(2) k] fs(1) by blast
  show ?thesis by (rule steps_to_control [OF sim]) (use H g(1) l(3) D(1) in \<open>simp_all add: add.assoc\<close>)
qed

lemma tool_ok_mono: "tool_ok S ext k fs \<Longrightarrow> k \<le> k' \<Longrightarrow> tool_ok S ext k' fs"
  using ctl_mono by (auto simp: tool_ok_def)

lemma step_leave:
  assumes sim: "tool_sim S E k fs D" and ok: "step_ok (Leave r) k S E D"
  shows "steps_to U (Leave r) k S E fs D"
proof -
  have g: "d_guard (E_leave (unat r)) D" "sp_new (cs_sp S) \<noteq> []" using ok by (simp_all add: step_ok_def)
  obtain c p D' where D: "D = c # p # D'" "\<not> d_loop c"
    "if d_detach c then unat r < length (d_pend p) else \<forall>P \<in> set (d_pend c). P = None"
    using g(1) by (elim d_guard_leaveE) auto
  obtain f q gs where fs: "fs = f # q # gs" "shapes f c" "shapes q p"
    using sim_Cons [OF sim [unfolded D(1)]] by (auto simp: list_all2_Cons2)
  note T = tool_simD(2) [OF sim, unfolded fs(1)]
  have lo: "loop_ok f" using tool_okD(5) [OF T] by simp
  have i: "Iterbag f = 0" using lo fs(2) D(2) by (simp add: loop_ok_def shapes_def)
  have len: "length (d_pend c) = length (pbags_of f)" using fs(2) by (simp add: shapes_def)
  have k: "k + length (pbags_of f) + 1 < 2 ^ 64 - 1" using ok len D(1) by (simp add: step_ok_def)
  show ?thesis
  proof (cases "d_detach c")
    case True
    have d: "isDetacher (frame_data f)" "unat r < length (pbags_of q)" using True fs(2,3) D(3) by (simp_all add: shapes_def)
    have T': "tool_ok_but S (refs E) k f (q # gs)" using T by (simp add: tool_ok_but)
    obtain S' p' where H: "do_leave r S = Some S'" "tool_ok S' (refs E) (k + length (pbags_of f) + 1) (p' # gs)"
      "tool_abs S' (refs E) (p' # gs) = a_leave (unat r) (tool_abs S (refs E) fs)"
      using do_leave_detach_ok [OF T' d(1) i d(2) g(2) k] fs(1) by blast
    show ?thesis by (rule steps_to_control [OF sim]) (use H g(1) len D(1) in \<open>simp_all add: add.assoc\<close>)
  next
    case False
    have d: "\<not> isDetacher (frame_data f)" using False fs(2) by (simp add: shapes_def)
    have none: "\<forall>P \<in> set (d_pend c). P = None" using D(3) False by simp
    have q0: "\<forall>q \<in> set (pbags_of f). q = 0"
    proof
      fix q assume "q \<in> set (pbags_of f)"
      then obtain j where j: "j < length (pbags_of f)" "q = pbags_of f ! j" by (auto simp: in_set_conv_nth)
      have "d_pend c ! j \<in> set (d_pend c)" using j(1) len by simp
      then have "d_pend c ! j = None" using none by blast
      then show "q = 0" using fs(2) j len D(2) by (simp add: shapes_def)
    qed
    have k1: "k < 2 ^ 64 - 1" using k by simp
    obtain S' p' where H: "do_leave r S = Some S'" "tool_ok S' (refs E) (k + 1) (p' # gs)"
      "tool_abs S' (refs E) (p' # gs) = a_leave (unat r) (tool_abs S (refs E) fs)"
      using do_leave_call_ok [OF T d i k1 q0] fs(1) by blast
    have "tool_ok S' (refs E) (k + rank_cost (Leave r) D) (p' # gs)"
      by (rule tool_ok_mono [OF H(2)]) simp
    then show ?thesis by (intro steps_to_control [OF sim]) (use H(1,3) g(1) in simp_all)
  qed
qed


subsection \<open>Accesses\<close>

lemma head_other_bags:
  assumes c: "ctl B ext k {} (f # fs)" and x: "\<forall>a. a \<noteq> access_bag f \<longrightarrow> x \<notin> cmem B ext {} a" and okf: "loop_ok f"
    "frame_ok (cmem B ext {}) f"
  shows "x \<notin> (if is_loop_frame f then cmem B ext {} (Sbag f) else cmem B ext {} (Iterbag f))"
    "x \<notin> a_PP (abs_frame (cmem B ext {}) v f)" "x \<notin> a_tokens (map (abs_frame (cmem B ext {}) v) fs)"
proof -
  let ?m = "cmem B ext {}" and ?b = "access_bag f"
  have z: "?m 0 = {}" by (rule cmem_0 [OF c])
  have S0: "Sbag f \<noteq> 0" using okf(2) by (simp add: frame_ok_def)
  have b0: "?b \<noteq> 0" using okf(1) S0 by (simp add: access_bag_def loop_ok_def)
  have D: "Sbag f \<noteq> Iterbag f" "?b \<notin> set (pbags_of f)"
    using ctl_distinct [OF c, of f] S0 b0 by (auto simp: access_bag_def frame_ptrs_mem split: if_splits)
  show "x \<notin> (if is_loop_frame f then ?m (Sbag f) else ?m (Iterbag f))"
    using x D(1) by (auto simp: access_bag_def)
  show "x \<notin> a_PP (abs_frame ?m v f)" using x D(2) by (force simp: abs_PP [where m = ?m, OF z])
  have "x \<notin> ?m q" if q: "q \<in># owned fs" for q
  proof -
    have "q \<notin># frame_ptrs f" using ctl_disjoint [OF c] q by blast
    moreover have "?b \<in># frame_ptrs f" using b0 by (simp add: frame_ptrs_mem access_bag_def)
    ultimately show ?thesis using x by metis
  qed
  then have o: "x \<notin> ?m q" if "g \<in> set fs" "q = Sbag g \<or> q = Iterbag g \<or> q \<in> set (pbags_of g)" for g q
    using that z owned_ptr [OF that(1), of q] by (cases "q = 0") auto
  show "x \<notin> a_tokens (map (abs_frame ?m v) fs)"
  proof
    assume "x \<in> a_tokens (map (abs_frame ?m v) fs)"
    then obtain g where g: "g \<in> set fs" "x \<in> ?m (Sbag g) \<union> ?m (Iterbag g) \<union> (\<Union>q \<in> set (pbags_of g). ?m q)"
      by (auto simp: a_tokens_def abs_PP [where m = ?m, OF z])
    then show False using o [OF g(1)] by blast
  qed
qed


lemma step_record:
  assumes sim: "tool_sim S E k fs D" and ok: "step_ok (Record t) k S E D"
  shows "steps_to U (Record t) k S E fs D"
proof -
  note T = tool_simD [OF sim]
  have t: "E t = None" and g: "d_guard (E_access t) D" using ok by (simp_all add: step_ok_def)
  obtain d D' where D: "D = d # D'" using g by (elim d_guard_accessE)
  obtain f gs where fs: "fs = f # gs" "shapes f d" using sim_Cons [OF sim [unfolded D(1)]] by blast
  note K = tool_okD [OF T(2) [unfolded fs(1)]]
  let ?B = "cs_sp S" and ?F = "abs_frame (cmem (cs_sp S) (refs E) {}) (ver_of (cs_sp S))"
  have okf: "loop_ok f" "frame_ok (cmem ?B (refs E) {}) f" using K(4,5) by simp_all
  obtain x v S1 S' where A: "access_node S = Some (x, v, S1)" "on_bags (sp_inc_ref x) S1 = Some S'"
    "tool_ok S' (ext_inc (Some x) (refs E)) k (access_used f # gs)"
    "tool_abs S' (ext_inc (Some x) (refs E)) (access_used f # gs) = a_access x (tool_abs S (refs E) (f # gs))"
    "unat v = ver_of ?B (access_bag f)" "0 < refs E x \<longrightarrow> x \<in> cmem ?B (refs E) {} (access_bag f)"
    "\<forall>a. a \<noteq> access_bag f \<longrightarrow> x \<notin> cmem ?B (refs E) {} a"
    by (rule exE [OF access_ok [OF T(2) [unfolded fs(1)]]], elim exE conjE, rule that; assumption)
  let ?E = "E(t \<mapsto> (x, unat v))"
  have r: "refs ?E = ext_inc (Some x) (refs E)" by (rule refs_upd [OF T(1) t])
  have ta: "tool_abs S (refs E) (f # gs) = ?F f # map ?F gs" by (simp add: tool_abs_def)
  note O = head_other_bags [OF K(2) A(7) okf]
  have abs: "entry_abs S' ?E (access_used f # gs) = a_access t (entry_abs S E fs)"
    unfolding entry_abs_def r A(4) ta fs(1)
  proof (rule pull_access [OF T(1) t refl])
    show "0 < refs E x \<longrightarrow> x \<in> (if a_loop (?F f) then a_I (?F f) else a_S (?F f))"
      using A(6) by (simp add: access_bag_def abs_frame_def split: if_splits)
    show "x \<notin> (if a_loop (?F f) then a_S (?F f) else a_I (?F f))" using O(1) by (simp add: abs_frame_def split: if_splits)
  qed (rule O(2), rule O(3))
  have toks: "t \<notin> a_tokens (entry_abs S E fs)" using T(5) t by auto
  have same: "dag_rel (vers ?E) (entry_abs S E fs) D"
    by (rule dag_rel_cong [THEN iffD1, OF _ T(3)]) (use toks in \<open>auto simp: vers_def\<close>)
  have "dag_rel (vers ?E) (a_step (E_access t) (entry_abs S E fs)) (d_step (E_access t) D)"
  proof (rule dag_step [OF same g])
    fix y h hs assume e: "E_access t = E_access y" "entry_abs S E fs = h # hs" "a_loop h"
    have "h = pull E (?F f)" using e(2) fs(1) by (simp add: entry_abs_Cons)
    then show "vers ?E y = a_ver h" using e(1,3) A(5) by (simp add: vers_def abs_frame_def access_bag_def)
  qed
  moreover have "a_once (a_step (E_access t) (entry_abs S E fs)) \<and>
      a_tokens (a_step (E_access t) (entry_abs S E fs)) = event_tokens (E_access t) (a_tokens (entry_abs S E fs))"
    by (rule a_step_once [OF T(3) g T(4)]) (use toks in simp)
  ultimately have "tool_sim S' ?E k (access_used f # gs) (d_step (E_access t) D)"
    using A(3) r abs T(1,5) by (simp add: tool_sim_def)
  moreover have "tool_act U (Record t) S E = Some (S', ?E)" using A(1,2) by simp
  ultimately show ?thesis using abs unfolding steps_to_def by auto
qed

lemma step_forget:
  assumes sim: "tool_sim S E k fs D" and ok: "step_ok (Forget t) k S E D"
  shows "steps_to U (Forget t) k S E fs D"
proof -
  note T = tool_simD [OF sim]
  obtain x v where t: "E t = Some (x, v)" using ok by (auto simp: step_ok_def)
  have g: "d_guard (E_forget t) D" by simp
  let ?E = "E(t := None)"
  note r = refs_drop [OF T(1) t]
  obtain S' where A: "on_bags (sp_dec_ref x) S = Some S'" "tool_ok S' (ext_dec (Some x) (refs E)) k fs"
    "tool_abs S' (ext_dec (Some x) (refs E)) fs =
       (if refs E x = 1 then a_drop x (tool_abs S (refs E) fs) else tool_abs S (refs E) fs)"
    using drop_ok [OF T(2) r(2)] by blast
  have abs: "entry_abs S' ?E fs = a_drop t (entry_abs S E fs)"
    unfolding entry_abs_def r(1) A(3) by (rule pull_forget [OF T(1) t])
  have dr: "dag_rel (vers E) (a_step (E_forget t) (entry_abs S E fs)) (d_step (E_forget t) D)"
    by (rule dag_step [OF T(3) g]) simp
  have once: "a_once (a_step (E_forget t) (entry_abs S E fs)) \<and>
      a_tokens (a_step (E_forget t) (entry_abs S E fs)) = event_tokens (E_forget t) (a_tokens (entry_abs S E fs))"
    by (rule a_step_once [OF T(3) g T(4)]) simp
  have toks: "a_tokens (a_drop t (entry_abs S E fs)) = dom E - {t}" using once T(5) by simp
  have "dag_rel (vers ?E) (a_drop t (entry_abs S E fs)) (d_step (E_forget t) D)"
    by (rule dag_rel_cong [THEN iffD1]) (use dr toks in \<open>auto simp: vers_def\<close>)
  then have "tool_sim S' ?E k fs (d_step (E_forget t) D)"
    unfolding tool_sim_def r(1) abs toks using A(2) T(1) once by simp
  moreover have "tool_act U (Forget t) S E = Some (S', ?E)" using A(1) t by simp
  ultimately show ?thesis using abs unfolding steps_to_def by auto
qed

text \<open>The query changes nothing of the abstract state, and answers by it.\<close>

lemma sim_ne: "tool_sim S E k fs D \<Longrightarrow> fs \<noteq> []"
  using cs_at_length [OF tool_okD(1) [OF tool_simD(2)]] by blast

lemma query_step:
  assumes sim: "tool_sim S E k fs D" and t: "E t = Some (getFuncFromVerFunc ma, unat (getVersionFromVerFunc ma))"
  shows "\<exists>S'. access_in_parallel ma S = Some (a_par t (vers E t) (entry_abs S E fs), S') \<and> tool_sim S' E k fs D \<and>
    entry_abs S' E fs = entry_abs S E fs"
proof -
  note T = tool_simD [OF sim]
  let ?x = "getFuncFromVerFunc ma" and ?v = "unat (getVersionFromVerFunc ma)"
  obtain f gs where fs: "fs = f # gs" using sim_ne [OF sim] by (cases fs) auto
  obtain S' where Q: "access_in_parallel ma S = Some (a_par ?x ?v (tool_abs S (refs E) fs), S')"
    "tool_ok S' (refs E) k fs" "tool_abs S' (refs E) fs = tool_abs S (refs E) fs"
    using query_ok [OF T(2) [unfolded fs] refs_drop(2) [OF T(1) t]] fs by blast
  have m: "t \<in> pre E X \<longleftrightarrow> ?x \<in> X" for X using t by (simp add: pre_def)
  have "a_par t (vers E t) (map (pull E) F) \<longleftrightarrow> a_par ?x ?v F" for F
    using t m by (cases F) (simp_all add: a_par_def vers_def)
  then have "a_par t (vers E t) (entry_abs S E fs) \<longleftrightarrow> a_par ?x ?v (tool_abs S (refs E) fs)"
    by (simp add: entry_abs_def)
  moreover have e: "entry_abs S' E fs = entry_abs S E fs" using Q(3) by (simp add: entry_abs_def)
  ultimately show ?thesis using Q(1,2) T by (simp add: tool_sim_def)
qed

lemma step_query:
  assumes sim: "tool_sim S E k fs D" and ok: "step_ok (Query t ma) k S E D"
  shows "steps_to U (Query t ma) k S E fs D"
proof -
  have t: "E t = Some (getFuncFromVerFunc ma, unat (getVersionFromVerFunc ma))"
    using ok by (simp add: step_ok_def)
  show ?thesis using query_step [OF sim t] by (auto simp: steps_to_def)
qed

lemma step_supply:
  assumes sim: "tool_sim S E k fs D" and ok: "step_ok (Supply new) k S E D"
  shows "steps_to U (Supply new) k S E fs D"
proof -
  note T = tool_simD [OF sim]
  let ?B = "(cs_sp S)\<lparr>sp_new := new\<rparr>" and ?S = "S\<lparr>cs_sp := (cs_sp S)\<lparr>sp_new := new\<rparr>\<rparr>"
  have n: "distinct new" "\<forall>a \<in> set new. free_addr (cs_sp S) a" using ok by (simp_all add: step_ok_def list_all_iff)
  note K = tool_okD [OF T(2)]
  have t: "sp_tidy (cs_sp S) (refs E) {} k" using ctlD(1) [OF K(2)] .
  have "sp_tidy ?B (refs E) {} k"
    using t n unfolding sp_tidy_def
    by (auto simp: sp_inv_def sp_supply_def sp_owns_def bag_home_def ds_within_def free_addr_def
          addrs48_def ptr48_def)
  then have c: "ctl ?B (refs E) k {} fs" using ctl_same_bags(1) [OF K(2), of ?B] by simp
  have m: "cmem ?B (refs E) {} = cmem (cs_sp S) (refs E) {}"
    by (simp add: cmem_def bag_mem_def bag_home_def fun_eq_iff)
  have v: "ver_of ?B = ver_of (cs_sp S)" by (simp add: ver_of_def payloads_def fun_eq_iff)
  have ok': "tool_ok ?S (refs E) k fs" using cs_at_sp [OF K(1)] c m K(3-5) by (simp add: tool_ok_def)
  have e: "tool_abs ?S (refs E) fs = tool_abs S (refs E) fs" using m v by (simp add: tool_abs_def)
  show ?thesis by (rule steps_to_control [where S' = ?S and fs' = fs, OF sim]) (use ok' e in simp_all)
qed

theorem tool_step:
  assumes sim: "tool_sim S E k fs D" and ok: "step_ok a k S E D"
  shows "steps_to U a k S E fs D"
proof (cases a)
  case LoopBegin
  then show ?thesis using step_loop_begin [OF sim] by simp
qed (use ok in \<open>auto intro: step_enter step_enter_helper step_detach step_detach_continue
    step_iteration_begin step_iteration_end step_loop_end step_sync step_leave step_record step_forget
    step_query step_supply sim\<close>)


subsection \<open>Runs\<close>

definition no_entries :: entries where "no_entries = (\<lambda>t. None)"

definition start_dag :: "nat dframe list" where
  "start_dag = [\<lparr>d_cur = {}, d_pend = [], d_loop = False, d_detach = False, d_iters = {}, d_synced = False\<rparr>]"

definition fresh_supply :: "u64 list \<Rightarrow> bool" where
  "fresh_supply new \<longleftrightarrow> distinct new \<and> list_all (\<lambda>a. a \<noteq> 0 \<and> aligned4 a \<and> ptr48 a) new \<and> 2 \<le> length new"

text \<open>\<open>k\<close> bounds the ranks of the disjoint sets.\<close>

inductive tool_reach :: "'m user_code \<Rightarrow> nat \<Rightarrow> 'm cilksan \<Rightarrow> entries \<Rightarrow> nat dframe list \<Rightarrow> bool"
  for U :: "'m user_code" where
  start: "fresh_supply new \<Longrightarrow> cilksan_init new R g stats atomics low high = Some S \<Longrightarrow>
    tool_reach U 0 S no_entries start_dag"
| step: "tool_reach U k S E D \<Longrightarrow> step_ok a k S E D \<Longrightarrow> tool_act U a S E = Some (S', E') \<Longrightarrow>
    tool_reach U (k + rank_cost a D) S' E' (d_step (event_of a (cs_start_new_loop S)) D)"

text \<open>A run of given actions; the last \<open>k\<close> bounds the earlier ones.\<close>

fun tool_run ::
  "'m user_code \<Rightarrow> action list \<Rightarrow> nat \<times> 'm cilksan \<times> entries \<times> nat dframe list \<Rightarrow>
     (nat \<times> 'm cilksan \<times> entries \<times> nat dframe list) option" where
  "tool_run U [] s = Some s"
| "tool_run U (a # as) (k, S, E, D) =
     (if act_ok a S E D \<and> d_guard (event_of a (cs_start_new_loop S)) D
      then do {
        (S', E') \<leftarrow> tool_act U a S E;
        tool_run U as (k + rank_cost a D, S', E', d_step (event_of a (cs_start_new_loop S)) D)
      }
      else None)"

lemma tool_run_le: "tool_run U as (k, S, E, D) = Some (k', S', E', D') \<Longrightarrow> k \<le> k'"
proof (induction as arbitrary: k S E D)
  case (Cons a as)
  then show ?case by (fastforce simp: bind_eq_Some_conv split: if_splits)
qed simp

lemma tool_run_reach:
  assumes "tool_run U as (k, S, E, D) = Some (k', S', E', D')" "tool_reach U k S E D" "k' < 2 ^ 64 - 1"
  shows "tool_reach U k' S' E' D'"
  using assms
proof (induction as arbitrary: k S E D)
  case (Cons a as)
  then obtain S1 E1 where a: "act_ok a S E D" "d_guard (event_of a (cs_start_new_loop S)) D"
    "tool_act U a S E = Some (S1, E1)"
    "tool_run U as (k + rank_cost a D, S1, E1, d_step (event_of a (cs_start_new_loop S)) D) = Some (k', S', E', D')"
    by (auto simp: bind_eq_Some_conv split: if_splits)
  have "step_ok a k S E D" using a(1,2) tool_run_le [OF a(4)] Cons(4) by (simp add: step_ok_def)
  from tool_reach.step [OF Cons(3) this a(3)] show ?case by (rule Cons(1) [OF a(4) _ Cons(4)])
qed simp

text \<open>For evaluation: the limit of the stack as a comparison of words.\<close>

lemma Stack_room_word [code]: "Stack_room s \<longleftrightarrow> stk_head s < 2147483647"
  by (simp add: Stack_room_def word_less_nat_alt)

lemma empty_tidy:
  assumes "fresh_supply new"
  shows "sp_tidy (\<lparr>sp_ds = Map.empty, sp_bags = Map.empty, sp_list = DSList_new, sp_new = new\<rparr> :: 'd sp_state)
    (\<lambda>_. 0) {} 0"
proof -
  let ?B = "\<lparr>sp_ds = Map.empty, sp_bags = Map.empty, sp_list = DSList_new, sp_new = new\<rparr> :: 'd sp_state"
  have "bag_ext (\<lambda>_. 0) (sp_bags ?B) = (\<lambda>_. 0)" by (simp add: bag_ext_def bag_refs_def fun_eq_iff)
  then have "ds_inv (sp_ds ?B) (bag_ext (\<lambda>_. 0) (sp_bags ?B))" by (simp add: ds_inv_def rc_inv_def rc_kids_def)
  then have "sp_inv ?B (\<lambda>_. 0)" using DSList_wf_new by (simp add: sp_inv_def)
  then show ?thesis using assms
    by (auto simp: sp_tidy_def ds_within_def sp_supply_def fresh_supply_def list_all_iff addrs48_def ptr48_def)
qed

lemma init_sim:
  assumes new: "fresh_supply new" and init: "cilksan_init new R g stats atomics low high = Some S"
  shows "\<exists>f. tool_sim S no_entries 0 [f] start_dag"
proof -
  let ?f = FrameData_default and ?z = "\<lambda>_ :: u64. 0 :: nat"
  let ?B = "\<lparr>sp_ds = Map.empty, sp_bags = Map.empty, sp_list = DSList_new, sp_new = new\<rparr> :: CallID_t list sp_state"
  have r: "refs no_entries = ?z" by (simp add: refs_def no_entries_def fun_eq_iff)
  have m: "cmem B ?z X = (\<lambda>_. {})" for B :: "CallID_t list sp_state" and X
    by (simp add: cmem_def bag_mem_def fun_eq_iff)
  have c: "ctl ?B ?z 0 {} [?f]"
    using empty_tidy [OF new] by (simp add: ctl_def kinds_ok_def s_kind_def p_kind_def frame_ptrs_def
        FrameData_default_def pbags_of_def)
  have ne: "2 \<le> length (sp_new ?B)" using new by (simp add: fresh_supply_def)
  have e: "cmem ?B ?z {} (Sbag ?f) = {}" by (simp add: m)
  obtain b B1 B2 where N: "createNewSBag [] ?B = Some (b, B1)"
    "set_sbag b ?f B1 = Some (?f\<lparr>Sbag := b, Sbag_used := False\<rparr>, B2)" "b \<noteq> 0"
    "ctl B2 ?z 0 ({} - {Sbag ?f}) [?f\<lparr>Sbag := b, Sbag_used := False\<rparr>]"
    using ctl_new_sbag [OF c ne e, of "[]"] by blast
  let ?f' = "?f\<lparr>Sbag := b, Sbag_used := False\<rparr>"
  define S1 :: "'a cilksan" where "S1 = \<lparr>cs_frame_id = 0, cs_frame_stack = Stack_new FrameData_default, cs_call_stack = [],
                cs_sp_stack = Stack_new 0, cs_start_new_loop = False, cs_check_atomics = atomics,
                cs_lockset_empty = True, cs_lockset = LockSet_new g, cs_shadow = Shadow_new, cs_malloc_sizes = AddrMap_new,
                cs_sp = B1, cs_rv = R, cs_stats = stats_init stats, cs_reports = [], cs_stack_low = low, cs_stack_high = high\<rparr>"
  have at: "cs_at S1 [?f] B1"
    using Stack_new_wf [of ?f] Stack_contents_new [of ?f]
    by (auto simp: S1_def cs_at_def stack_rel_def Stack_new_def clean_frame_def FrameData_default_def)
  have i0: "unat (0 :: u32) < length [?f]" by simp
  obtain S2 where S2: "on_frame 0 (set_sbag b) S1 = Some S2" "cs_at S2 ([?f][unat (0 :: u32) := ?f']) B2" "cs_only S1 S2"
    using on_frame_at [where act = "set_sbag b", OF at i0] N(2) by auto
  have "cilksan_init new R g stats atomics low high = on_frame 0 (set_sbag b) S1"
    using N(1) by (simp add: cilksan_init_def S1_def)
  then have S: "S = S2" using init S2(1) by simp
  have at2: "cs_at S [?f'] (cs_sp S)" "cs_sp S = B2" using S2(2) S by (simp_all add: cs_at_def)
  have "cs_shadow S = Shadow_new" using cs_only_shadow [OF S2(3)] S by (simp add: S1_def)
  then have "occ_ok (cs_shadow S)" using Dict_new_occ by (simp add: occ_ok_def Shadow_new_def)
  then have ok: "tool_ok S (refs no_entries) 0 [?f']"
    using at2 N(3,4) r m
    by (simp add: tool_ok_def frame_ok_def loop_ok_def FrameData_default_def pbags_of_def is_loop_frame_def eft_defs)
  have abs: "entry_abs S no_entries [?f'] =
      [\<lparr>a_S = {}, a_P = [], a_I = {}, a_ver = ver_of B2 0, a_loop = False, a_detach = False\<rparr>]"
    using r m at2(2) by (simp add: entry_abs_def tool_abs_def pull_def abs_frame_def FrameData_default_def pbags_of_def
        is_loop_frame_def eft_defs)
  have v0: "ver_of B2 0 = 0" using ver_of_0 [OF N(4)] by simp
  have "tool_sim S no_entries 0 [?f'] start_dag"
    using ok abs v0 by (simp add: tool_sim_def start_dag_def frame_rel_def iters_rel_def lost1_def same_def VERSIONS_def
        no_entries_def a_once_def a_occ_def a_PP_def)
  then show ?thesis by blast
qed

lemma reach_sim: "tool_reach U k S E D \<Longrightarrow> \<exists>fs. tool_sim S E k fs D"
proof (induction rule: tool_reach.induct)
  case (start new R g stats atomics low high S)
  then show ?case using init_sim by blast
next
  case (step k S E D a S' E')
  then obtain fs where "tool_sim S E k fs D" by blast
  then show ?case using tool_step [of S E k fs D a U] step(2,3) by (auto simp: steps_to_def)
qed

lemma reach_progress:
  assumes "tool_reach U k S E D" "step_ok a k S E D"
  shows "\<exists>S' E'. tool_act U a S E = Some (S', E')"
  using reach_sim [OF assms(1)] tool_step assms(2) unfolding steps_to_def by blast

text \<open>The answer of a query.\<close>

lemma older_par:
  assumes R: "dag_rel v (f # fs) D"
  shows "a_par x (v x) (f # fs) \<longleftrightarrow> (\<exists>g \<in> set (f # fs). x \<in> a_PP g) \<or> x \<in> older v f"
proof -
  obtain d D' where "D = d # D'" using R by (cases D) auto
  then have "frame_rel v (serial v (f # fs)) f d" using R by simp
  from frame_rel_plain(1) [OF this] have "\<not> a_loop f \<Longrightarrow> a_I f = {}" .
  then show ?thesis by (auto simp: a_par_def older_def)
qed

lemma loops_below:
  assumes "dag_rel v fs D" "\<forall>d \<in> set D. \<not> d_loop d" "g \<in> set fs"
  shows "older v g = {}"
  using assms
proof (induction v fs D rule: dag_rel.induct)
  case (1 v f fs d ds)
  have R: "frame_rel v (serial v (f # fs)) f d" using 1(2) by simp
  have "\<not> a_loop f" using frame_relD(3) [OF R] 1(3) by simp
  then have "older v f = {}" using frame_rel_plain(5) [OF R] by blast
  then show ?case using 1 by auto
qed simp_all

text \<open>A yes means that the access does not precede the current strand; outside of enclosing loops the
  answer is yes exactly then, but for the older iterations of the loop on top once its body has synced
  region 0.\<close>

definition answer_ok :: "bool \<Rightarrow> nat \<Rightarrow> nat dframe \<Rightarrow> nat dframe list \<Rightarrow> bool" where
  "answer_ok par t d D \<longleftrightarrow> (par \<longrightarrow> t \<notin> d_cur d) \<and>
     ((\<forall>e \<in> set D. \<not> d_loop e) \<longrightarrow> t \<notin> d_cur d \<longrightarrow> \<not> (d_synced d \<and> t \<in> d_iters d) \<longrightarrow> par)"

lemma sim_answer:
  assumes sim: "tool_sim S E k fs (d # D)"
    and t: "E t = Some (getFuncFromVerFunc ma, unat (getVersionFromVerFunc ma))"
  shows "\<exists>S'. access_in_parallel ma S = Some (a_par t (vers E t) (entry_abs S E fs), S')"
    "answer_ok (a_par t (vers E t) (entry_abs S E fs)) t d D"
proof -
  note T = tool_simD [OF sim]
  show "\<exists>S'. access_in_parallel ma S = Some (a_par t (vers E t) (entry_abs S E fs), S')"
    using query_step [OF sim t] by blast
  obtain f gs where fs: "entry_abs S E fs = f # gs" using T(3) by (auto simp: dag_rel_Cons)
  have tok: "t \<in> a_tokens (entry_abs S E fs)" using T(5) t by auto
  note P = older_par [OF T(3) [unfolded fs], of t] and SP = serial_or_parallel [OF T(3,4) tok]
  have R: "dag_rel (vers E) gs D" using T(3) fs by simp
  note B = serial_bounds [OF T(3)]
  have "t \<notin> d_cur d" if "a_par t (vers E t) (entry_abs S E fs)" using that SP P B(1) fs by auto
  moreover have "a_par t (vers E t) (entry_abs S E fs)"
    if "\<forall>e \<in> set D. \<not> d_loop e" "t \<notin> d_cur d" "\<not> (d_synced d \<and> t \<in> d_iters d)"
  proof -
    have "t \<notin> serial (vers E) (entry_abs S E fs)" using that lost_plain [OF R] B(2) by (auto simp: lost1_def split: if_splits)
    moreover have "older (vers E) g = {}" if "g \<in> set gs" for g using loops_below [OF R] that \<open>\<forall>e \<in> set D. \<not> d_loop e\<close> by blast
    ultimately show ?thesis using SP P fs by auto
  qed
  ultimately show "answer_ok (a_par t (vers E t) (entry_abs S E fs)) t d D" by (simp add: answer_ok_def)
qed

lemma sim_query:
  assumes sim: "tool_sim S E k fs (d # D)"
    and t: "E t = Some (getFuncFromVerFunc ma, unat (getVersionFromVerFunc ma))"
  shows "\<exists>par S'. access_in_parallel ma S = Some (par, S') \<and> answer_ok par t d D"
  using sim_answer [where E = E and t = t, OF sim t] by blast

lemma reach_query:
  assumes reach: "tool_reach U k S E (d # D)"
    and t: "E t = Some (getFuncFromVerFunc ma, unat (getVersionFromVerFunc ma))"
  shows "\<exists>par S'. access_in_parallel ma S = Some (par, S') \<and> answer_ok par t d D"
proof -
  obtain fs where "tool_sim S E k fs (d # D)" using reach_sim [OF reach] by blast
  then show ?thesis by (rule sim_query [where E = E and t = t]) (rule t)
qed

end
