(* ===== verification/MemSteps.thy ===== *)
theory MemSteps
  imports CilksanMem ShadowAccess ToolSteps
begin

text \<open>
  The handlers of reads and writes in the states of a run: they return, they keep the simulation of the
  control flow, and what they record and report.
\<close>

subsection \<open>The bag of an access\<close>

text \<open>The simulation is about the frames, the bags and the words of the occupancy only.\<close>

lemma tool_sim_cong:
  assumes "tool_sim S E k fs D" "cs_frame_stack S' = cs_frame_stack S" "cs_sp S' = cs_sp S" "occ_ok (cs_shadow S')"
  shows "tool_sim S' E k fs D"
  using assms by (simp add: tool_sim_def tool_ok_def cs_at_def entry_abs_def tool_abs_def)

text \<open>Nodes have addresses below \<open>2 ^ 48\<close>, as the allocators return only such.\<close>

lemma sim_node48: "tool_sim S E k fs D \<Longrightarrow> sp_ds (cs_sp S) x \<noteq> None \<Longrightarrow> ptr48 x"
  using sp_tidyD(2) [OF ctlD(1) [OF tool_okD(2) [OF tool_simD(2)]]]
  by (force simp: ds_within_def addrs48_def ptr48_def)

lemma cs_put_frame_again: "cs_put_frame i f (cs_put_frame i f S) = cs_put_frame i f S"
  by (simp add: cs_put_frame_def)

text \<open>\<open>access_node\<close> marks the bag as used.\<close>

lemma access_used_again [simp]: "access_used (access_used f) = access_used f"
  by (simp add: access_used_def is_loop_frame_def)

lemma access_bag_used [simp]: "access_bag (access_used f) = access_bag f"
  by (simp add: access_bag_def)

definition marks :: "'m cilksan \<Rightarrow> 'm cilksan \<Rightarrow> bool" where
  "marks S S1 \<longleftrightarrow> S1 = S\<lparr>cs_frame_stack := cs_frame_stack S1\<rparr> \<and> cs_par S1 = cs_par S"

lemma check_parallel_iter_cong:
  assumes "is_loop_frame f' = is_loop_frame f" "Iterbag f' = Iterbag f"
  shows "check_parallel_iter b v f' B = check_parallel_iter b v f B"
  using assms by (simp add: check_parallel_iter_def)

lemma previousAccessInParallel_cong:
  assumes "is_loop_frame f' = is_loop_frame f" "Iterbag f' = Iterbag f"
  shows "previousAccessInParallel ma f' B = previousAccessInParallel ma f B"
  unfolding previousAccessInParallel_def check_parallel_iter_cong [OF assms] ..

lemma access_marks:
  assumes sim: "tool_sim S E k fs D"
  shows "\<exists>x v S1 fs'. access_node S = Some (x, v, S1) \<and> access_node S1 = Some (x, v, S1) \<and> x \<noteq> 0 \<and>
    sp_ds (cs_sp S) x \<noteq> None \<and> marks S S1 \<and> tool_sim S1 E k fs' D"
proof -
  note T = tool_simD [OF sim]
  note K = tool_okD [OF T(2)]
  obtain f gs where fs: "fs = f # gs" using sim_ne [OF sim] by (cases fs) auto
  let ?B = "cs_sp S" and ?m = "cmem (cs_sp S) (refs E) {}" and ?b = "access_bag f" and ?f = "access_used f"
  let ?S1 = "cs_put_frame 0 ?f S"
  have okf: "frame_ok ?m f" and lf: "loop_ok f" using K(4,5) fs by simp_all
  note H = head_access [OF K(2) [unfolded fs] okf lf cmem_0 [OF K(2)]]
  obtain b where b: "sp_bags ?B ?b = Some b" using ctl_owned [OF K(2) [unfolded fs], of ?b] H(2) by blast
  have x0: "bag_ds b \<noteq> 0"
    using ctl_sbag_kind [OF K(2) [unfolded fs], of f] b by (auto simp: s_kind_def access_bag_def split: if_splits)
  have live: "sp_ds ?B (bag_ds b) \<noteq> None"
    using sp_inv_bag_live(2) [OF sp_tidyD(1) [OF ctlD(1) [OF K(2)]] b x0] by simp
  have anc: "cs_ancestor 0 S = Some f" using cs_at_ancestor [OF K(1), of 0] fs by simp
  have at: "cs_at ?S1 (?f # gs) ?B" using cs_at_put(2) [OF K(1), of 0 ?f] fs by simp
  have anc1: "cs_ancestor 0 ?S1 = Some ?f" using cs_at_ancestor [OF at, of 0] by simp
  have sp1: "cs_sp ?S1 = ?B" by (simp add: cs_put_frame_def)
  have an: "access_node S = Some (bag_ds b, SBag_get_version b, ?S1)"
    using anc b by (simp add: access_node_def getSbagForAccess_eq)
  have an1: "access_node ?S1 = Some (bag_ds b, SBag_get_version b, ?S1)"
    using anc1 b sp1 by (simp add: access_node_def getSbagForAccess_eq cs_put_frame_again)
  have "cs_par ?S1 ma = cs_par S ma" for ma
    using anc anc1 sp1 previousAccessInParallel_cong [of ?f f ma ?B]
    by (simp add: cs_par_def access_in_parallel_def split: option.splits bind_splits)
  then have m: "marks S ?S1" by (auto simp: marks_def cs_put_frame_def)
  have "frame_ok ?m ?f" using okf by (auto simp: frame_ok_def access_used_def is_loop_frame_def)
  then have ok: "tool_ok ?S1 (refs E) k (?f # gs)"
    using at sp1 K(3-5) lf ctl_same_head [OF K(2) [unfolded fs], of ?f] fs by (auto simp: tool_ok_def cs_put_frame_def)
  have e: "entry_abs ?S1 E (?f # gs) = entry_abs S E fs" using fs sp1 by (simp add: entry_abs_def tool_abs_def)
  have "tool_sim ?S1 E k (?f # gs) D" using sim ok by (simp add: tool_sim_def e)
  then show ?thesis using an an1 x0 live m by blast
qed

subsection \<open>Asking for all accesses that are recorded\<close>

text \<open>An access that a query answers with yes, and one that a query answers at all.\<close>

definition cs_yes :: "'m cilksan \<Rightarrow> MemoryAccess_t \<Rightarrow> bool" where
  "cs_yes S ma \<longleftrightarrow> cs_par S ma = Some True"

lemma cs_yes_ok: "par_ok (cs_yes S)"
  by (auto simp: par_ok_def cs_yes_def cs_par_def access_in_parallel_def previousAccessInParallel_def MA_eq_def)

lemma cs_par_cong: "cs_frame_stack S' = cs_frame_stack S \<Longrightarrow> cs_sp S' = cs_sp S \<Longrightarrow> cs_par S' = cs_par S"
  by (rule ext) (simp add: cs_par_def access_in_parallel_def cs_ancestor_def split: option.splits bind_splits)

lemma cs_yes_cong: "cs_par S' = cs_par S \<Longrightarrow> cs_yes S' = cs_yes S"
  by (rule ext) (simp add: cs_yes_def)

lemma sim_par:
  assumes sim: "tool_sim S E k fs (d # D)"
    and t: "E t = Some (getFuncFromVerFunc ma, unat (getVersionFromVerFunc ma))"
  shows "\<exists>par. cs_par S ma = Some par \<and> answer_ok par t d D"
proof -
  obtain par S' where "access_in_parallel ma S = Some (par, S')" "answer_ok par t d D"
    using sim_query [where E = E and t = t and ma = ma, OF sim] t by blast
  then show ?thesis by (simp add: cs_par_def)
qed

subsection \<open>The log of accesses\<close>

text \<open>The program's accesses by their numbers: whether it is a read, its address and its size.\<close>

type_synonym access_log = "nat \<rightharpoonup> bool \<times> u64 \<times> u64"

definition covers :: "access_log \<Rightarrow> nat \<Rightarrow> bool \<Rightarrow> u64 \<Rightarrow> bool" where
  "covers L t is_read a \<longleftrightarrow> (\<exists>addr s. L t = Some (is_read, addr, s) \<and> in_chunk (Chunk addr s) a)"

text \<open>Every byte that shows an access shows one of the log, with the function and version it was made with.\<close>

definition recorded :: "entries \<Rightarrow> access_log \<Rightarrow> bool \<Rightarrow> (u64 \<Rightarrow> MemoryAccess_t option) \<Rightarrow> bool" where
  "recorded E L is_read V \<longleftrightarrow> (\<forall>a ma. V a = Some ma \<longrightarrow>
     (\<exists>t. E t = Some (getFuncFromVerFunc ma, unat (getVersionFromVerFunc ma)) \<and> covers L t is_read a))"

text \<open>So every recorded access has an answer.\<close>

lemma sim_answers:
  assumes sim: "tool_sim S E k fs D" and V: "recorded E L rd V"
  shows "answers (cs_par S) (cs_yes S) Q V"
  unfolding answers_def
proof (intro allI impI)
  fix a ma assume a: "Q a \<and> V a = Some ma"
  obtain d D' where D: "D = d # D'"
    using tool_simD(3) [OF sim] sim_ne [OF sim] by (cases D; cases fs) (auto simp: entry_abs_def tool_abs_def)
  obtain t where "E t = Some (getFuncFromVerFunc ma, unat (getVersionFromVerFunc ma))"
    using V a unfolding recorded_def by blast
  from sim_par [where E = E and t = t, OF sim [unfolded D] this] obtain par where "cs_par S ma = Some par" by blast
  then show "cs_par S ma = Some (cs_yes S ma)" by (simp add: cs_yes_def)
qed

lemma MASetFn_ver_func:
  assumes "ptr48 x"
  shows "getFuncFromVerFunc (MASetFn x v acc_id type ma) = x"
    "getVersionFromVerFunc (MASetFn x v acc_id type ma) =
       (if getFuncFromVerFunc ma = x then getVersionFromVerFunc ma else v)"
  using ver_func_roundtrip [OF assms, of v]
  by (auto simp: MASetFn_def getFuncFromVerFunc_def getVersionFromVerFunc_def)

lemma recorded_updates:
  fixes addr s :: u64
  assumes V: "recorded E L is_read V" and u: "updates_on par (MASetFn x v acc_id type) Q V V'"
    and x: "ptr48 x" "x \<noteq> 0" and t: "E t = None"
  defines "E' \<equiv> E(t \<mapsto> (x, unat v))" and "L' \<equiv> L(t \<mapsto> (is_read, addr, s))"
  assumes Q: "\<And>a. Q a \<Longrightarrow> in_chunk (Chunk addr s) a"
  shows "recorded E' L' is_read V'"
  unfolding recorded_def
proof (intro allI impI)
  fix a ma assume a: "V' a = Some ma"
  have keep: "\<exists>t'. E' t' = Some (getFuncFromVerFunc mb, unat (getVersionFromVerFunc mb)) \<and> covers L' t' is_read a"
    if mb: "V a = Some mb" for mb
  proof -
    obtain t' where t': "E t' = Some (getFuncFromVerFunc mb, unat (getVersionFromVerFunc mb))" "covers L t' is_read a"
      using V mb unfolding recorded_def by blast
    then have "t' \<noteq> t" using t by auto
    then show ?thesis using t' by (auto simp: E'_def L'_def covers_def)
  qed
  show "\<exists>t'. E' t' = Some (getFuncFromVerFunc ma, unat (getVersionFromVerFunc ma)) \<and> covers L' t' is_read a"
  proof (cases "V' a = V a")
    case True
    then show ?thesis using keep a by simp
  next
    case False
    then have q: "Q a" and s: "sets_from MALineMethods (MASetFn x v acc_id type) (V a) (V' a)"
      using u unfolding updates_on_def by metis+
    obtain e where e: "ma = MASetFn x v acc_id type e"
      "case V a of None \<Rightarrow> \<not> dm_isValid MALineMethods e | Some d \<Rightarrow> e = d"
      using s a unfolding sets_from_def by auto
    note f = MASetFn_ver_func [OF x(1), of v acc_id type e, folded e(1)]
    show ?thesis
    proof (cases "getFuncFromVerFunc e = x")
      case True
      have "haveVerFunc e" using True x(2) by (auto simp: haveVerFunc_def getFuncFromVerFunc_def)
      then have "V a = Some e" using e(2) by (auto simp: MALineMethods_def MA_isValid_def split: option.splits)
      then show ?thesis using keep [of e] f True by simp
    next
      case False
      then have "E' t = Some (getFuncFromVerFunc ma, unat (getVersionFromVerFunc ma))" using f by (simp add: E'_def)
      moreover have "covers L' t is_read a" using Q [OF q] by (simp add: covers_def L'_def)
      ultimately show ?thesis by blast
    qed
  qed
qed

subsection \<open>The occupancy\<close>

text \<open>The operations on the occupancy may add pages, and keep the lines of the pages there are.\<close>

definition lines_from :: "(u64 \<Rightarrow> Page_t option) \<Rightarrow> (u64 \<Rightarrow> Page_t option) \<Rightarrow> bool" where
  "lines_from T T' \<longleftrightarrow> (\<forall>p. (T p \<noteq> None \<longrightarrow> T' p \<noteq> None) \<and>
     (\<forall>P'. T' p = Some P' \<longrightarrow> pg_lines P' = pg_lines (case T p of Some P \<Rightarrow> P | None \<Rightarrow> Page_new)))"

lemma lines_from_refl: "lines_from T T"
  by (simp add: lines_from_def)

lemma lines_from_trans: "lines_from T T1 \<Longrightarrow> lines_from T1 T2 \<Longrightarrow> lines_from T T2"
proof -
  assume h: "lines_from T T1" "lines_from T1 T2"
  have "T2 p \<noteq> None" if "T p \<noteq> None" for p using h that by (simp add: lines_from_def)
  moreover have "pg_lines Q = pg_lines (case T p of Some P \<Rightarrow> P | None \<Rightarrow> Page_new)" if q: "T2 p = Some Q" for p Q
  proof (cases "T1 p")
    case None
    then have "T p = None" using h(1) by (auto simp: lines_from_def)
    then show ?thesis using h(2) q None by (simp add: lines_from_def)
  next
    case (Some P)
    then show ?thesis using h q by (simp add: lines_from_def)
  qed
  ultimately show ?thesis by (simp add: lines_from_def)
qed

lemma lines_from_upd:
  "pg_lines P = pg_lines (case T p of Some P \<Rightarrow> P | None \<Rightarrow> Page_new) \<Longrightarrow> lines_from T (T(p := Some P))"
  by (simp add: lines_from_def)

lemma lines_from_ok:
  assumes "lines_from T T'"
  shows "tb_ok MALineMethods T \<Longrightarrow> tb_ok MALineMethods T'" "tb_view MALineMethods T' = tb_view MALineMethods T"
proof -
  have new: "Line_ok MALineMethods (pg_lines Page_new l)" "Line_view MALineMethods (pg_lines Page_new l) b = None" for l b
    using page_fresh_new(1) by (auto simp: page_fresh_def)
  show "tb_ok MALineMethods T'" if T: "tb_ok MALineMethods T"
    using assms T new(1) unfolding tb_ok_def lines_from_def by (auto split: option.splits)
  show "tb_view MALineMethods T' = tb_view MALineMethods T"
  proof
    fix a
    show "tb_view MALineMethods T' a = tb_view MALineMethods T a"
      using assms new(2) unfolding lines_from_def tb_view_def tb_line_def deref_line_def
      by (cases "T (sd_page a)"; cases "T' (sd_page a)") auto
  qed
qed

definition dict_occ :: "Dict_t \<Rightarrow> Dict_t \<Rightarrow> bool" where
  "dict_occ D D' \<longleftrightarrow> lines_from (sd_Table D) (sd_Table D') \<and> sd_LockerTable D' = sd_LockerTable D \<and>
     sd_LockerTableUsed D' = sd_LockerTableUsed D"

lemma dict_occ_refl: "dict_occ D D"
  by (simp add: dict_occ_def lines_from_refl)

lemma dict_occ_trans: "dict_occ D D1 \<Longrightarrow> dict_occ D1 D2 \<Longrightarrow> dict_occ D D2"
  unfolding dict_occ_def using lines_from_trans by metis

lemma dict_occD:
  assumes "dict_occ D D'"
  shows "Dict_ok D \<Longrightarrow> Dict_ok D'" "Dict_view D' = Dict_view D"
  using assms lines_from_ok by (auto simp: dict_occ_def Dict_ok_def Dict_view_def)

lemma Dict_ensurePage_occ:
  assumes e: "Dict_ensurePage addr D = Some (fresh, P, D')"
  shows "dict_occ D D'" "sd_Table D' (sd_page addr) = Some P"
proof -
  have g: "getPage (sd_Table D) (sd_page addr) = Some (sd_Table D (sd_page addr))"
    using e by (auto simp: Dict_ensurePage_def getPage_def split: if_splits)
  have "dict_occ D D' \<and> sd_Table D' (sd_page addr) = Some P"
  proof (cases "sd_Table D (sd_page addr)")
    case None
    then have "P = Page_new" "D' = D\<lparr>sd_AllocatedPages := sd_AllocatedPages D @ [sd_page addr],
        sd_Table := (sd_Table D)(sd_page addr := Some Page_new)\<rparr>" using e g by (simp_all add: Dict_ensurePage_def)
    moreover have "lines_from (sd_Table D) ((sd_Table D)(sd_page addr := Some Page_new))"
      using None by (intro lines_from_upd) simp
    ultimately show ?thesis by (simp add: dict_occ_def)
  next
    case (Some Q)
    then show ?thesis using e g by (simp add: Dict_ensurePage_def dict_occ_refl)
  qed
  then show "dict_occ D D'" "sd_Table D' (sd_page addr) = Some P" by simp_all
qed

lemma Page_setOccupied_lines:
  assumes "Page_setOccupied found P c TW = Some r"
  shows "pg_lines (fst (snd r)) = pg_lines P"
proof -
  have "(\<lambda>(((found, P), c), TW) r. pg_lines (fst (snd r)) = pg_lines P) (((found, P), c), TW) r"
  proof (rule Page_setOccupied.raw_induct [OF _ assms])
    fix rec found P c TW r
    assume h: "\<And>found P c TW r. rec found P c TW = Some r \<Longrightarrow>
        (\<lambda>(((found, P), c), TW) r. pg_lines (fst (snd r)) = pg_lines P) (((found, P), c), TW) (r :: bool \<times> Page_t \<times> Chunk_t \<times> u64 list)"
      and e: "(if Chunk_isEmpty c then Some (found, P, c, TW)
        else let addr = ck_addr c; mask = occupancy_mask c; current = pg_occupancy P (occupancyWord addr);
                 TW = (if 0 = current then TW @ [addr] else TW);
                 found = (if NOT current AND mask \<noteq> 0 then True else found);
                 P = P\<lparr>pg_occupancy := (pg_occupancy P)(occupancyWord addr := current OR mask)\<rparr>;
                 c = nextOccupancyWord c
             in if isPageStart (ck_addr c) then Some (found, P, c, TW) else rec found P c TW) = Some r"
    show "(\<lambda>(((found, P), c), TW) r. pg_lines (fst (snd r)) = pg_lines P) (((found, P), c), TW) r"
      using e by (auto simp: Let_def dest!: h split: if_splits)
  qed
  then show ?thesis by simp
qed

lemma Dict_setOccupied_loop_occ:
  assumes "Dict_setOccupied_loop found c D = Some r"
  shows "dict_occ D (snd r)"
proof (rule Dict_setOccupied_loop.raw_induct [where P = "\<lambda>found c D r. dict_occ D (snd r)", OF _ assms])
  fix rec found c D r
  assume h: "\<And>found c D r. rec found c D = Some r \<Longrightarrow> dict_occ D (snd (r :: bool \<times> Dict_t))"
    and e: "(if Chunk_isEmpty c then Some (found, D)
      else do {
        (fresh, P, D) \<leftarrow> Dict_ensurePage (ck_addr c) D;
        (f, P, c', TW) \<leftarrow> Page_setOccupied False P c (sd_TouchedWords D);
        rec (found \<or> fresh \<or> f) c'
          (D\<lparr>sd_Table := (sd_Table D)(sd_page (ck_addr c) := Some P), sd_TouchedWords := TW\<rparr>)
      }) = Some r"
  show "dict_occ D (snd r)"
  proof (cases "Chunk_isEmpty c")
    case True
    then show ?thesis using e by (auto simp: dict_occ_refl)
  next
    case False
    then obtain fresh P D1 f P' c' TW where E: "Dict_ensurePage (ck_addr c) D = Some (fresh, P, D1)"
      "Page_setOccupied False P c (sd_TouchedWords D1) = Some (f, P', c', TW)" and
      R: "rec (found \<or> fresh \<or> f) c'
        (D1\<lparr>sd_Table := (sd_Table D1)(sd_page (ck_addr c) := Some P'), sd_TouchedWords := TW\<rparr>) = Some r"
      using e by (auto simp: bind_eq_Some_conv)
    note P = Dict_ensurePage_occ [OF E(1)]
    have "lines_from (sd_Table D1) ((sd_Table D1)(sd_page (ck_addr c) := Some P'))"
      using Page_setOccupied_lines [OF E(2)] P(2) by (intro lines_from_upd) simp
    then have "dict_occ D1 (D1\<lparr>sd_Table := (sd_Table D1)(sd_page (ck_addr c) := Some P'), sd_TouchedWords := TW\<rparr>)"
      by (simp add: dict_occ_def)
    then show ?thesis using dict_occ_trans [OF P(1)] dict_occ_trans h [OF R] by blast
  qed
qed

lemma clearOccupied_lines: "clearOccupied_words ws T = Some T' \<Longrightarrow> lines_from T T'"
proof (induction ws arbitrary: T)
  case Nil
  then show ?case by (simp add: lines_from_refl)
next
  case (Cons w ws)
  then obtain P where P: "T (sd_page w) = Some P" and
    R: "clearOccupied_words ws (T(sd_page w := Some (Page_clear w P))) = Some T'"
    by (auto simp: bind_eq_Some_conv getPage_def split: if_splits)
  have "lines_from T (T(sd_page w := Some (Page_clear w P)))"
    using P by (intro lines_from_upd) (simp add: Page_clear_def)
  then show ?case using lines_from_trans Cons.IH [OF R] by blast
qed

lemma Dict_clearOccupied_occ: "Dict_clearOccupied D = Some D' \<Longrightarrow> dict_occ D D'"
  by (auto simp: Dict_clearOccupied_def dict_occ_def clearOccupied_lines)

definition shadow_occ :: "Shadow_t \<Rightarrow> Shadow_t \<Rightarrow> bool" where
  "shadow_occ sh sh' \<longleftrightarrow> dict_occ (sm_Reads sh) (sm_Reads sh') \<and> dict_occ (sm_Writes sh) (sm_Writes sh') \<and>
     sm_Allocs sh' = sm_Allocs sh"

lemma shadow_occ_refl: "shadow_occ sh sh"
  by (simp add: shadow_occ_def dict_occ_refl)

lemma shadow_occ_trans: "shadow_occ sh sh1 \<Longrightarrow> shadow_occ sh1 sh2 \<Longrightarrow> shadow_occ sh sh2"
  unfolding shadow_occ_def using dict_occ_trans by metis

definition sm_dict :: "bool \<Rightarrow> Shadow_t \<Rightarrow> Dict_t" where
  "sm_dict is_read sh = (if is_read then sm_Reads sh else sm_Writes sh)"

lemma shadow_occD:
  assumes "shadow_occ sh sh'"
  shows "Shadow_ok sh \<Longrightarrow> Shadow_ok sh'" "Dict_view (sm_dict rd sh') = Dict_view (sm_dict rd sh)"
    "sm_Allocs sh' = sm_Allocs sh"
  using assms dict_occD by (auto simp: shadow_occ_def Shadow_ok_def sm_dict_def)

lemma Shadow_clearOccupied_occ: "Shadow_clearOccupied sh = Some sh' \<Longrightarrow> shadow_occ sh sh'"
  using Dict_clearOccupied_occ by (auto simp: Shadow_clearOccupied_def shadow_occ_def bind_eq_Some_conv)

lemma Shadow_setOccupied_ok:
  assumes o: "occ_ok sh" and r: "range48 addr s"
  shows "\<exists>sh'. Shadow_setOccupied rd addr s sh =
      Some (\<exists>a. in_chunk (Chunk addr s) a \<and> \<not> Dict_occ (sm_dict rd sh) a, sh') \<and>
    shadow_occ sh sh' \<and> occ_ok sh'"
proof -
  have "occ_inv (sm_dict rd sh)" using o by (simp add: occ_ok_def sm_dict_def)
  from Dict_setOccupied_loop_ok [OF range48D(1) [OF r] this, of False] obtain D' where
    D': "Dict_setOccupied_loop False (Chunk addr s) (sm_dict rd sh) =
      Some (\<exists>a. in_chunk (Chunk addr s) a \<and> \<not> Dict_occ (sm_dict rd sh) a, D')" "occ_inv D'" by auto
  then show ?thesis using Dict_setOccupied_loop_occ [OF D'(1)] o
    by (auto simp: Shadow_setOccupied_def Dict_setOccupied_def sm_dict_def shadow_occ_def occ_ok_def dict_occ_refl)
qed

lemma Shadow_setOccupiedFast_ok:
  assumes o: "occ_ok sh" and r: "range48 addr s"
  shows "\<exists>sh'. Shadow_setOccupiedFast rd addr s sh = Some (True, sh') \<and>
    shadow_occ sh sh' \<and> occ_ok sh' \<and> sd_Table (sm_dict rd sh') (sd_page addr) \<noteq> None"
proof -
  have "occ_inv (sm_dict rd sh)" using o by (simp add: occ_ok_def sm_dict_def)
  from Dict_ensurePage_ok [OF range48D(1,2) [OF r] this] obtain fresh P D' where
    D': "Dict_ensurePage addr (sm_dict rd sh) = Some (fresh, P, D')" "sd_Table D' (sd_page addr) = Some P" "occ_inv D'"
    by auto
  have "D'\<lparr>sd_Table := (sd_Table D')(sd_page addr := Some P), sd_TouchedWords := sd_TouchedWords D'\<rparr> = D'"
    using D'(2) by (simp add: fun_upd_idem)
  then have "Dict_setOccupiedFast addr s (sm_dict rd sh) = Some (True, D')"
    using D'(1) by (simp add: Dict_setOccupiedFast_def Page_setOccupiedFast_def)
  then show ?thesis using Dict_ensurePage_occ(1) [OF D'(1)] D'(2,3) o
    by (auto simp: Shadow_setOccupiedFast_def sm_dict_def shadow_occ_def occ_ok_def dict_occ_refl)
qed

subsection \<open>Reads and writes\<close>

definition access_checked ::
  "bool \<Rightarrow> (MemoryAccess_t \<Rightarrow> bool) \<Rightarrow> (MemoryAccess_t \<Rightarrow> MemoryAccess_t) \<Rightarrow> (u64 \<Rightarrow> bool) \<Rightarrow> csi_id_t \<Rightarrow>
   MAType_t \<Rightarrow> Shadow_t \<Rightarrow> Shadow_t \<Rightarrow> Report_t list \<Rightarrow> bool" where
  "access_checked rd par f Q acc_id type sh sh' rs \<longleftrightarrow>
     (if rd then read_checked par f Q acc_id type sh sh' rs else write_checked par f Q acc_id type sh sh' rs)"

lemma access_checked_ok:
  assumes "access_checked rd par f Q acc_id type sh sh' rs" "Shadow_ok sh"
  shows "Shadow_ok sh'" "occ_ok sh \<Longrightarrow> occ_ok sh'"
    "updates_on par f Q (Dict_view (sm_dict rd sh)) (Dict_view (sm_dict rd sh'))"
    "Dict_view (sm_dict (\<not> rd) sh') = Dict_view (sm_dict (\<not> rd) sh)"
proof -
  have "Dict_ok (sm_Reads sh)" "Dict_ok (sm_Writes sh)" using assms(2) by (simp_all add: Shadow_ok_def)
  note d = dict_stepD [OF _ this(1)] dict_stepD [OF _ this(2)]
  show "Shadow_ok sh'" "occ_ok sh \<Longrightarrow> occ_ok sh'"
    using assms d by (auto simp: access_checked_def read_checked_def write_checked_def Shadow_ok_def occ_ok_def split: if_splits)
  show "updates_on par f Q (Dict_view (sm_dict rd sh)) (Dict_view (sm_dict rd sh'))"
    "Dict_view (sm_dict (\<not> rd) sh') = Dict_view (sm_dict (\<not> rd) sh)"
    using assms(1) by (auto simp: access_checked_def read_checked_def write_checked_def sm_dict_def split: if_splits)
qed

text \<open>What a checked access does to the state: the bag may be marked as used.\<close>

definition accessed ::
  "bool \<Rightarrow> csi_id_t \<Rightarrow> MAType_t \<Rightarrow> u64 \<Rightarrow> u64 \<Rightarrow> 'm cilksan \<Rightarrow> 'm cilksan \<Rightarrow> Report_t list \<Rightarrow> bool" where
  "accessed rd acc_id type addr s S S' rs \<longleftrightarrow> (\<exists>x v S1 S0 sh'.
     access_node S = Some (x, v, S1) \<and> (S0 = S \<or> S0 = S1) \<and> S' = add_reports rs (S0\<lparr>cs_shadow := sh'\<rparr>) \<and>
     access_checked rd (cs_yes S) (MASetFn x v acc_id type) (in_chunk (Chunk addr s)) acc_id type (cs_shadow S) sh' rs)"

lemma marksD:
  assumes "marks S S1"
  shows "cs_shadow S1 = cs_shadow S" "cs_par S1 = cs_par S" "S1 = S\<lparr>cs_frame_stack := cs_frame_stack S1\<rparr>"
    "cs_reports S1 = cs_reports S"
proof -
  show "cs_par S1 = cs_par S" "S1 = S\<lparr>cs_frame_stack := cs_frame_stack S1\<rparr>" using assms by (simp_all only: marks_def)
  then show "cs_shadow S1 = cs_shadow S" "cs_reports S1 = cs_reports S" by (metis cilksan.ext_inject cilksan.surjective cilksan.update_convs(2))+
qed

lemma slow_path_ok:
  assumes sim: "tool_sim S E k fs D" and sh: "Shadow_ok (cs_shadow S)" and r: "range48 addr s"
    and ans: "\<And>rd. answers (cs_par S) (cs_yes S) (in_chunk (Chunk addr s)) (Dict_view (sm_dict rd (cs_shadow S)))"
  shows "\<exists>S' rs. (if rd then check_races_and_update_with_read acc_id type addr s S
      else check_races_and_update_with_write acc_id type addr s S) = Some S' \<and> accessed rd acc_id type addr s S S' rs"
proof -
  obtain x v S1 where A: "access_node S = Some (x, v, S1)" "x \<noteq> 0" "marks S S1"
    using access_marks [OF sim] by blast
  note m = marksD [OF A(3)]
  note ans = ans [of True, unfolded sm_dict_def if_True] ans [of False, unfolded sm_dict_def if_False]
  show ?thesis
  proof (cases rd)
    case True
    obtain sh' rs where c: "update_with_read (cs_par S) x v acc_id type addr s (cs_shadow S) = Some sh'"
      "check_race_with_prev_write True (cs_par S) acc_id type addr s sh' = Some rs"
      "read_checked (cs_yes S) (MASetFn x v acc_id type) (in_chunk (Chunk addr s)) acc_id type (cs_shadow S) sh' rs"
      using slow_read_ok [OF sh r A(2) cs_yes_ok ans] by blast
    have "check_races_and_update_with_read acc_id type addr s S = Some (add_reports rs (S1\<lparr>cs_shadow := sh'\<rparr>))"
      using A(1) c(1,2) m by (simp add: check_races_and_update_with_read_def)
    then show ?thesis using True A(1) c(3) by (fastforce simp: accessed_def access_checked_def)
  next
    case False
    obtain sh' ww rr where c: "check_and_update_write (cs_par S) x v acc_id type addr s (cs_shadow S) = Some (sh', ww)"
      "check_race_with_prev_read (cs_par S) acc_id type addr s sh' = Some rr"
      "write_checked (cs_yes S) (MASetFn x v acc_id type) (in_chunk (Chunk addr s)) acc_id type (cs_shadow S) sh' (ww @ rr)"
      using slow_write_ok [OF sh r A(2) cs_yes_ok ans] by blast
    have "check_races_and_update_with_write acc_id type addr s S = Some (add_reports (ww @ rr) (S1\<lparr>cs_shadow := sh'\<rparr>))"
      using A(1) c(1,2) m by (simp add: check_races_and_update_with_write_def)
    then show ?thesis using False A(1) c(3) by (fastforce simp: accessed_def access_checked_def)
  qed
qed

lemma fast_path_ok:
  assumes sim: "tool_sim S E k fs D" and sh: "Shadow_ok (cs_shadow S)" and fa: "fast_access addr s"
    and P: "sd_Table (sm_dict rd (cs_shadow S)) (sd_page addr) \<noteq> None"
    and ans: "\<And>rd. answers (cs_par S) (cs_yes S) (in_chunk (Chunk addr s)) (Dict_view (sm_dict rd (cs_shadow S)))"
  shows "\<exists>S' rs. check_races_and_update_fast rd acc_id type addr s S = Some S' \<and> accessed rd acc_id type addr s S S' rs"
proof -
  obtain x v S1 where A: "access_node S = Some (x, v, S1)" "x \<noteq> 0" "marks S S1"
    using access_marks [OF sim] by blast
  note ans = ans [of True, unfolded sm_dict_def if_True] ans [of False, unfolded sm_dict_def if_False]
  obtain sh' rs where c: "(if rd then check_read_fast (cs_par S) x v acc_id type addr s (cs_shadow S)
      else check_write_fast (cs_par S) x v acc_id type addr s (cs_shadow S)) = Some (sh', rs)"
    "access_checked rd (cs_yes S) (MASetFn x v acc_id type) (in_chunk (Chunk addr s)) acc_id type (cs_shadow S) sh' rs"
  proof (cases rd)
    case True
    then show ?thesis using P that
        check_read_fast_ok [OF sh fa A(2) cs_yes_ok _ ans, where version = v and acc_id = acc_id and type = type]
      by (auto simp: access_checked_def sm_dict_def)
  next
    case False
    then show ?thesis using P that
        check_write_fast_ok [OF sh fa A(2) cs_yes_ok _ ans, where version = v and acc_id = acc_id and type = type]
      by (auto simp: access_checked_def sm_dict_def)
  qed
  let ?S0 = "if fast_stores (cs_par S) addr s (if rd then sm_Reads (cs_shadow S) else sm_Writes (cs_shadow S)) then S1 else S"
  have "check_races_and_update_fast rd acc_id type addr s S = Some (add_reports rs (?S0\<lparr>cs_shadow := sh'\<rparr>))"
    using A(1) c(1) by (simp add: check_races_and_update_fast_def Let_def)
  moreover have "accessed rd acc_id type addr s S (add_reports rs (?S0\<lparr>cs_shadow := sh'\<rparr>)) rs"
    unfolding accessed_def
    by (rule exI [of _ x], rule exI [of _ v], rule exI [of _ S1], rule exI [of _ ?S0], rule exI [of _ sh'])
      (simp add: A(1) c(2))
  ultimately show ?thesis by blast
qed

text \<open>The state that the simulation is about, without the words of the occupancy.\<close>

definition same_tool :: "'m cilksan \<Rightarrow> 'm cilksan \<Rightarrow> bool" where
  "same_tool S S' \<longleftrightarrow> cs_frame_stack S' = cs_frame_stack S \<and> cs_sp S' = cs_sp S \<and> cs_reports S' = cs_reports S \<and>
     cs_call_stack S' = cs_call_stack S \<and> cs_lockset_empty S' = cs_lockset_empty S \<and>
     cs_start_new_loop S' = cs_start_new_loop S"

text \<open>An access below the bounds of the current frame on the stack of the program lowers them.\<close>

definition sp_lowered :: "u64 \<Rightarrow> u64 Stack_t \<Rightarrow> u64 Stack_t \<Rightarrow> bool" where
  "sp_lowered addr s s' \<longleftrightarrow> s' = s \<or> (\<exists>low. Stack_back s = Some low \<and> addr < low \<and> s' = Stack_set_head addr s)"

definition do_access ::
  "bool \<Rightarrow> MAType_t \<Rightarrow> csi_id_t \<Rightarrow> u64 \<Rightarrow> u64 \<Rightarrow> u32 \<Rightarrow> 'm cilksan \<Rightarrow> 'm cilksan option" where
  "do_access rd type acc_id addr s alignment S =
     (if rd then do_read type acc_id addr s alignment S else do_write type acc_id addr s alignment S)"

lemma do_access_eq: "do_access rd type acc_id addr s alignment S =
    do { S \<leftarrow> access_prologue rd addr s S; record_mem_helper rd type acc_id addr s alignment S }"
  by (simp add: do_access_def do_read_def do_write_def)

lemma access_prologue_ok:
  assumes "Stack_wf (cs_sp_stack S)"
  shows "\<exists>S'. access_prologue rd addr s S = Some S' \<and> same_tool S S' \<and> cs_shadow S' = cs_shadow S \<and>
    Stack_wf (cs_sp_stack S') \<and> sp_lowered addr (cs_sp_stack S) (cs_sp_stack S')"
proof -
  have "cs_sp_stack (collect_stat rd s S) = cs_sp_stack S" by (simp add: collect_stat_def)
  then obtain low where "Stack_back (cs_sp_stack (collect_stat rd s S)) = Some low"
    using Stack_back_last [OF assms] by simp
  then show ?thesis using assms Stack_set_head_wf
    by (auto simp: access_prologue_def advance_stack_frame_def same_tool_def sp_lowered_def collect_stat_def Let_def)
qed

text \<open>What the compiler guarantees of an access: its range is below \<open>2 ^ 48\<close>, and it is aligned as it says.\<close>

definition access_ok :: "u64 \<Rightarrow> u64 \<Rightarrow> u32 \<Rightarrow> bool" where
  "access_ok addr s alignment \<longleftrightarrow> (s = 0 \<or> range48 addr s) \<and>
     (alignment = 0 \<or> (\<exists>k. unat alignment = 2 ^ k \<and> 2 ^ k dvd unat addr))"

definition goes_fast :: "u64 \<Rightarrow> u32 \<Rightarrow> bool" where
  "goes_fast s alignment \<longleftrightarrow> alignment \<noteq> 0 \<and> s \<le> ucast alignment \<and> alignment \<le> push_bit LG_SMALL_ACCESS_SIZE 1"

lemma record_mem_helper_eq:
  "record_mem_helper rd type acc_id addr s alignment S =
     (if s = 0 then Some S
      else if goes_fast s alignment
      then do {
        (found, sh) \<leftarrow> Shadow_setOccupiedFast rd addr s (cs_shadow S);
        if found then check_races_and_update_fast rd acc_id type addr s (S\<lparr>cs_shadow := sh\<rparr>)
        else Some (S\<lparr>cs_shadow := sh\<rparr>)
      }
      else check_races_and_update rd acc_id type addr s S)"
  by (simp only: record_mem_helper_def goes_fast_def Let_def)

lemma fast_accessI:
  assumes "access_ok addr s alignment" "s \<noteq> 0" "goes_fast s alignment"
  shows "fast_access addr s"
proof -
  obtain k where k: "unat alignment = 2 ^ k" "2 ^ k dvd unat addr"
    using assms(1,3) by (auto simp: access_ok_def goes_fast_def)
  have "(push_bit LG_SMALL_ACCESS_SIZE 1 :: u32) = 512" by (simp add: LG_SMALL_ACCESS_SIZE_def SD_LG_LINE_SIZE_def push_bit_eq_mult)
  then have "(2 :: nat) ^ k \<le> 2 ^ 9" using assms(3) k(1) by (simp add: goes_fast_def word_le_nat_alt)
  then have k9: "k \<le> 9" using power_le_imp_le_exp [of 2 k 9] by simp
  then have "unat (ucast alignment :: u64) = 2 ^ k"
    using k(1) by (simp add: unsigned_ucast_eq take_bit_nat_eq_self_iff)
  then have "unat s \<le> 2 ^ k" using assms(3) by (simp add: goes_fast_def word_le_nat_alt)
  then show ?thesis using assms(1,2) k(2) k9 by (auto simp: fast_access_def access_ok_def)
qed

text \<open>The two outcomes: nothing to do, as the bytes have been checked in this strand, or a check.\<close>

definition access_skips :: "bool \<Rightarrow> u64 \<Rightarrow> u64 \<Rightarrow> u32 \<Rightarrow> Shadow_t \<Rightarrow> bool" where
  "access_skips rd addr s alignment sh \<longleftrightarrow>
     s = 0 \<or> (\<not> goes_fast s alignment \<and> (\<forall>a. in_chunk (Chunk addr s) a \<longrightarrow> Dict_occ (sm_dict rd sh) a))"

lemma do_access_ok:
  assumes sim: "tool_sim S E k fs D" and sh: "Shadow_ok (cs_shadow S)" and st: "Stack_wf (cs_sp_stack S)"
    and ok: "access_ok addr s alignment"
    and V: "\<And>rd. recorded E L rd (Dict_view (sm_dict rd (cs_shadow S)))"
  shows "\<exists>S1 S'. same_tool S S1 \<and> shadow_occ (cs_shadow S) (cs_shadow S1) \<and> occ_ok (cs_shadow S1) \<and>
    Stack_wf (cs_sp_stack S1) \<and> sp_lowered addr (cs_sp_stack S) (cs_sp_stack S1) \<and>
    do_access rd type acc_id addr s alignment S = Some S' \<and>
    (if access_skips rd addr s alignment (cs_shadow S) then S' = S1
     else s \<noteq> 0 \<and> (\<exists>rs. accessed rd acc_id type addr s S1 S' rs))"
proof -
  have o: "occ_ok (cs_shadow S)" using tool_okD(3) [OF tool_simD(2) [OF sim]] .
  obtain S0 where S0: "access_prologue rd addr s S = Some S0" "same_tool S S0" "cs_shadow S0 = cs_shadow S"
    "Stack_wf (cs_sp_stack S0)" "sp_lowered addr (cs_sp_stack S) (cs_sp_stack S0)" using access_prologue_ok [OF st] by blast
  have sim1: "tool_sim S1 E k fs D" if "same_tool S S1" "occ_ok (cs_shadow S1)" for S1
    by (rule tool_sim_cong [OF sim]) (use that in \<open>simp_all add: same_tool_def\<close>)
  have ans: "answers (cs_par S1) (cs_yes S1) Q (Dict_view (sm_dict rd (cs_shadow S1)))"
    if "same_tool S S1" "occ_ok (cs_shadow S1)" "shadow_occ (cs_shadow S) (cs_shadow S1)" for S1 Q rd
    using sim_answers [OF sim1 [OF that(1,2)], of L rd] V [of rd] shadow_occD(2) [OF that(3)] by simp
  show ?thesis
  proof (cases "s = 0")
    case True
    then show ?thesis using S0 o shadow_occ_refl
      by (auto simp: do_access_eq record_mem_helper_def access_skips_def)
  next
    case s0: False
    then have r: "range48 addr s" using ok by (simp add: access_ok_def)
    show ?thesis
    proof (cases "goes_fast s alignment")
      case True
      obtain sh' where f: "Shadow_setOccupiedFast rd addr s (cs_shadow S) = Some (True, sh')"
        "shadow_occ (cs_shadow S) sh'" "occ_ok sh'" "sd_Table (sm_dict rd sh') (sd_page addr) \<noteq> None"
        using Shadow_setOccupiedFast_ok [OF o r] by blast
      define S1 where "S1 = S0\<lparr>cs_shadow := sh'\<rparr>"
      have S1: "same_tool S S1" "cs_shadow S1 = sh'" "Stack_wf (cs_sp_stack S1)" "sp_lowered addr (cs_sp_stack S) (cs_sp_stack S1)"
        using S0 by (simp_all add: S1_def same_tool_def)
      have "Shadow_ok (cs_shadow S1)" using shadow_occD(1) [OF f(2) sh] S1(2) by simp
      from fast_path_ok [OF sim1 [OF S1(1)] this fast_accessI [OF ok s0 True] _ ans [OF S1(1)], where rd = rd and acc_id = acc_id and type = type]
      obtain S' rs where c: "check_races_and_update_fast rd acc_id type addr s S1 = Some S'"
        "accessed rd acc_id type addr s S1 S' rs" using f S1(2) by auto
      have "do_access rd type acc_id addr s alignment S = Some S'"
        using S0(1,3) s0 True f(1) c(1) by (simp add: do_access_eq record_mem_helper_eq S1_def)
      then show ?thesis using S1 f(2,3) c(2) s0 True by (auto simp: access_skips_def)
    next
      case False
      define new where "new \<longleftrightarrow> (\<exists>a. in_chunk (Chunk addr s) a \<and> \<not> Dict_occ (sm_dict rd (cs_shadow S)) a)"
      obtain sh' where f: "Shadow_setOccupied rd addr s (cs_shadow S) = Some (new, sh')"
        "shadow_occ (cs_shadow S) sh'" "occ_ok sh'" using Shadow_setOccupied_ok [OF o r] unfolding new_def by blast
      define S1 where "S1 = S0\<lparr>cs_shadow := sh'\<rparr>"
      have S1: "same_tool S S1" "cs_shadow S1 = sh'" "Stack_wf (cs_sp_stack S1)" "sp_lowered addr (cs_sp_stack S) (cs_sp_stack S1)"
        using S0 by (simp_all add: S1_def same_tool_def)
      have "Shadow_ok (cs_shadow S1)" using shadow_occD(1) [OF f(2) sh] S1(2) by simp
      from slow_path_ok [OF sim1 [OF S1(1)] this r ans [OF S1(1)], where rd = rd and acc_id = acc_id and type = type]
      obtain S' rs where c: "(if rd then check_races_and_update_with_read acc_id type addr s S1
          else check_races_and_update_with_write acc_id type addr s S1) = Some S'"
        "accessed rd acc_id type addr s S1 S' rs" using f S1(2) by auto
      have e: "do_access rd type acc_id addr s alignment S = (if \<not> new then Some S1
          else if rd then check_races_and_update_with_read acc_id type addr s S1
          else check_races_and_update_with_write acc_id type addr s S1)"
        using S0(1,3) s0 False f(1)
        by (cases rd) (simp_all add: do_access_eq record_mem_helper_eq check_races_and_update_def S1_def Let_def)
      show ?thesis
      proof (cases new)
        case True
        then have "\<not> access_skips rd addr s alignment (cs_shadow S)" using s0 by (auto simp: access_skips_def new_def)
        then show ?thesis using e c True S1 f(2,3) s0 by auto
      next
        case nn: False
        then have "access_skips rd addr s alignment (cs_shadow S)" using False by (auto simp: access_skips_def new_def)
        then show ?thesis using e nn S1 f(2,3) by auto
      qed
    qed
  qed
qed

end
