(* ===== verification/ToolSafety.thy ===== *)
theory ToolSafety
  imports ToolSteps
begin

text \<open>
  What the development shows of the tool as a whole, for every run of control-flow events and accesses:
  no handler fails, each step is a step of the abstract SP-bags machine, and the answers about parallel
  accesses agree with the series-parallel relation of the program.
\<close>

subsection \<open>Concrete runs\<close>

declare find_set_climb.simps [code] find_hash_loop.simps [code] insert_shift.simps [code] insert_probe.simps [code]
  tomb_run.simps [code] u_clear.simps [code] u_next_loop.simps [code] q_nextPage_loop.simps [code]
  q_nextLine_loop.simps [code] Line_clear_loop.simps [code]

definition ex_user :: "nat user_code" where
  "ex_user = \<lparr>uc_reduce = (\<lambda>f l r m. m), uc_identity = (\<lambda>f v m. m), uc_malloc = (\<lambda>s m. (4096, m)), uc_free = (\<lambda>p m. m)\<rparr>"

definition ex_supply :: "u64 list" where
  "ex_supply = map (\<lambda>i. 64 * of_nat i) [1..<40]"

definition ex_init :: "nat cilksan option" where
  "ex_init = cilksan_init ex_supply \<lparr>rv_tables = Map.empty, rv_mem = 0, rv_new = []\<rparr> (\<lambda>_. 0) False False 0 0"

definition ex_run :: "action list \<Rightarrow> (nat \<times> nat cilksan \<times> entries \<times> nat dframe list) option" where
  "ex_run as = (case ex_init of None \<Rightarrow> None | Some S \<Rightarrow> tool_run ex_user as (0, S, no_entries, start_dag))"

lemma ex_supply_fresh: "fresh_supply ex_supply"
  by code_simp

lemma ex_run_reach: "ex_run as = Some (k, S, E, D) \<Longrightarrow> k < 2 ^ 64 - 1 \<Longrightarrow> tool_reach ex_user k S E D"
proof -
  assume r: "ex_run as = Some (k, S, E, D)" and k: "k < 2 ^ 64 - 1"
  obtain S0 where S0: "ex_init = Some S0" "tool_run ex_user as (0, S0, no_entries, start_dag) = Some (k, S, E, D)"
    using r by (auto simp: ex_run_def split: option.splits)
  from tool_run_reach [OF S0(2) _ k] tool_reach.start [OF ex_supply_fresh S0(1) [unfolded ex_init_def]]
  show ?thesis by blast
qed

text \<open>What is looked at after a run.\<close>

definition ex_view :: "nat list \<Rightarrow> MemoryAccess_t \<Rightarrow> nat \<times> nat cilksan \<times> entries \<times> nat dframe list \<Rightarrow>
    nat \<times> (u64 \<times> nat) option list \<times> (nat list \<times> nat \<times> bool \<times> bool \<times> bool) list \<times> bool option" where
  "ex_view ts ma = (\<lambda>(k, S, E, D).
     (k, map E ts, map (\<lambda>d. (filter (\<lambda>t. t \<in> d_cur d) ts, length (d_pend d), d_loop d, d_detach d, d_synced d)) D,
      map_option fst (access_in_parallel ma S)))"

definition ex_ma :: "u64 \<Rightarrow> version_t \<Rightarrow> MemoryAccess_t" where
  "ex_ma x v = \<lparr>ver_func = makeVerFunc x v, ver_acc_id = 7\<rparr>"

text \<open>A child is spawned, makes access 0 and returns; its parent continues.\<close>

lemma ex_spawn_run:
  "map_option (ex_view [0] (ex_ma 384 0))
     (ex_run [Enter 1, EnterHelper 0, Detach, Record 0, Leave 0, DetachContinue 0]) =
   Some (1, [Some (384, 0)], [([], 1, False, False, False), ([], 0, False, False, False)], Some True)"
  by code_simp

lemma ex_spawn:
  obtains S E d D where "tool_reach ex_user 1 S E (d # D)" "E 0 = Some (384, 0)" "length (d_pend d) = 1"
    "\<not> d_loop d" "\<forall>e \<in> set D. \<not> d_loop e" "0 \<notin> d_cur d" "\<not> d_synced d"
proof -
  obtain k S E D where r: "ex_run [Enter 1, EnterHelper 0, Detach, Record 0, Leave 0, DetachContinue 0] = Some (k, S, E, D)"
    "ex_view [0] (ex_ma 384 0) (k, S, E, D) =
      (1, [Some (384, 0)], [([], 1, False, False, False), ([], 0, False, False, False)], Some True)"
    using ex_spawn_run by (auto simp: map_option_eq_Some)
  then have "k = 1" "E 0 = Some (384, 0)" "list_all (\<lambda>d. \<not> d_loop d \<and> 0 \<notin> d_cur d \<and> \<not> d_synced d) D" "map (\<lambda>d. length (d_pend d)) D = [1, 0]"
    by (auto simp: ex_view_def split: if_splits)
  moreover obtain d D' where "D = d # D'" using calculation(4) by (cases D) auto
  moreover have "tool_reach ex_user 1 S E D" using ex_run_reach [OF r(1)] calculation(1) by simp
  ultimately show ?thesis using that by (auto simp: list_all_iff)
qed

lemma ex_ma_get: "getFuncFromVerFunc (ex_ma 384 0) = 384" "getVersionFromVerFunc (ex_ma 384 0) = 0"
  "getFuncFromVerFunc (ex_ma 512 0) = 512" "getVersionFromVerFunc (ex_ma 512 0) = 0"
  "getFuncFromVerFunc (ex_ma 640 0) = 640" "getVersionFromVerFunc (ex_ma 640 0) = 0"
  by code_simp+

text \<open>
  C2.  Progress: in every run that starts at cilksan_init, every handler of the next event
  returns: no assertion fails, no null or freed pointer is dereferenced and no array is read out
  of bounds. The run respects step_ok: the events nest and a function has synced when it returns
  (d_guard), the sync regions exist and are below 7, the stack has less than 2 ^ 31 frames, the
  allocators return fresh addresses below 2 ^ 48, and the ranks of the disjoint sets have room
  below 2 ^ 64 - 1 (k bounds them). Reference counts are integers without a bound in the model.
\<close>

theorem handlers_never_fail:
  assumes "tool_reach U k S E D" "step_ok a k S E D"
  shows "\<exists>S' E'. tool_act U a S E = Some (S', E')"
  by (rule reach_progress [OF assms])

lemma handlers_never_fail_witness:
  "\<exists>S E D. tool_reach ex_user 1 S E D \<and> (\<exists>S' E'. tool_act ex_user (Sync 0) S E = Some (S', E'))"
proof -
  obtain S E d D where r: "tool_reach ex_user 1 S E (d # D)" "length (d_pend d) = 1"
    by (rule ex_spawn) blast
  have "step_ok (Sync 0) 1 S E (d # D)" using r(2) by (simp add: step_ok_def)
  then show ?thesis using r(1) handlers_never_fail [OF r(1), of "Sync 0"] by blast
qed

text \<open>
  C1.  In every run of the tool, asking whether a recorded access is in parallel with the
  current strand ends with an answer. A yes means that the access does not precede the current
  strand in the series-parallel relation of the program (computed apart from the bags by
  d_step). A no means that it does, with two exceptions: inside a function or loop that the body
  of a parallel loop has called or started, and, at the body itself, for the older iterations
  once region 0 has been synced in this iteration. Runs include bodies of loops that spawn and
  sync in any region, region 0 too; as step_ok says, a function has synced when it returns, and
  an iteration its regions above 0 when it ends.
\<close>

theorem parallel_answers_agree_with_dag:
  assumes "tool_reach U k S E (d # D)" "E t = Some (getFuncFromVerFunc ma, unat (getVersionFromVerFunc ma))"
  shows "\<exists>par S'. access_in_parallel ma S = Some (par, S') \<and> (par \<longrightarrow> t \<notin> d_cur d) \<and>
    ((\<forall>e \<in> set D. \<not> d_loop e) \<longrightarrow> t \<notin> d_cur d \<longrightarrow> \<not> (d_synced d \<and> t \<in> d_iters d) \<longrightarrow> par)"
  using reach_query [OF assms] unfolding answer_ok_def .

lemma parallel_answers_witness:
  "\<exists>S E D S'. tool_reach ex_user 1 S E D \<and> E 0 = Some (384, 0) \<and> access_in_parallel (ex_ma 384 0) S = Some (True, S')"
proof -
  obtain S E d D where r: "tool_reach ex_user 1 S E (d # D)" "E 0 = Some (384, 0)" "\<forall>e \<in> set D. \<not> d_loop e"
    "0 \<notin> d_cur d" "\<not> d_synced d"
    by (rule ex_spawn) blast
  have "E 0 = Some (getFuncFromVerFunc (ex_ma 384 0), unat (getVersionFromVerFunc (ex_ma 384 0)))"
    using r(2) by (simp add: ex_ma_get)
  from parallel_answers_agree_with_dag [OF r(1) this] r(3-5)
  obtain S' where "access_in_parallel (ex_ma 384 0) S = Some (True, S')" by auto
  then show ?thesis using r(1,2) by blast
qed

text \<open>
  C3.  Each event of the tool, over frames, bags, disjoint sets and reference counts, is the
  step of the abstract SP-bags machine that moves whole sets of recorded accesses, and the
  simulation relation holds again. The event respects step_ok: it nests with the earlier ones, a
  function has synced when it returns, it names an existing sync region (region 0 of a loop
  included), there are frames, addresses and ranks left.
\<close>

theorem tool_refines_sp_bags:
  assumes "tool_sim S E k fs D" "step_ok a k S E D"
  shows "\<exists>S' E' fs'. tool_act U a S E = Some (S', E') \<and>
    tool_sim S' E' (k + rank_cost a D) fs' (d_step (event_of a (cs_start_new_loop S)) D) \<and>
    entry_abs S' E' fs' = a_step (event_of a (cs_start_new_loop S)) (entry_abs S E fs)"
  using tool_step [OF assms] unfolding steps_to_def .

lemma tool_refines_sp_bags_witness:
  "\<exists>S E fs D S' E' fs'. tool_sim S E 1 fs D \<and> tool_act ex_user (Sync 0) S E = Some (S', E') \<and>
     entry_abs S' E' fs' = a_sync 0 (entry_abs S E fs)"
proof -
  obtain S E d D where r: "tool_reach ex_user 1 S E (d # D)" "length (d_pend d) = 1"
    by (rule ex_spawn) blast
  obtain fs where sim: "tool_sim S E 1 fs (d # D)" using reach_sim [OF r(1)] by blast
  have "step_ok (Sync 0) 1 S E (d # D)" using r(2) by (simp add: step_ok_def)
  from tool_refines_sp_bags [OF sim this, of ex_user] obtain S' E' fs' where
    "tool_act ex_user (Sync 0) S E = Some (S', E')" "entry_abs S' E' fs' = a_sync 0 (entry_abs S E fs)" by auto
  then show ?thesis using sim by blast
qed

subsection \<open>Races between iterations that are missed\<close>

text \<open>The first step of a run.\<close>

lemma run_step:
  assumes sim: "tool_sim S E k fs D" and r: "tool_run U (a # as) (k, S, E, D) = Some (k', S', E', D')" "k' < 2 ^ 64 - 1"
  obtains S1 E1 fs1 where "tool_act U a S E = Some (S1, E1)"
    "tool_run U as (k + rank_cost a D, S1, E1, d_step (event_of a (cs_start_new_loop S)) D) = Some (k', S', E', D')"
    "tool_sim S1 E1 (k + rank_cost a D) fs1 (d_step (event_of a (cs_start_new_loop S)) D)"
    "entry_abs S1 E1 fs1 = a_step (event_of a (cs_start_new_loop S)) (entry_abs S E fs)"
    "d_guard (event_of a (cs_start_new_loop S)) D"
proof -
  obtain S1 E1 where a: "act_ok a S E D" "d_guard (event_of a (cs_start_new_loop S)) D"
    "tool_act U a S E = Some (S1, E1)"
    "tool_run U as (k + rank_cost a D, S1, E1, d_step (event_of a (cs_start_new_loop S)) D) = Some (k', S', E', D')"
    using r(1) by (auto simp: bind_eq_Some_conv split: if_splits)
  have "step_ok a k S E D" using a(1,2) tool_run_le [OF a(4)] r(2) by (simp add: step_ok_def)
  then have "steps_to U a k S E fs D" by (rule tool_step [OF sim])
  then show ?thesis using a that unfolding steps_to_def by auto
qed

text \<open>An access is in one place only.\<close>

lemma once_place:
  fixes fs :: "'a aframe list"
  assumes "a_once fs" "g \<in> set fs" "x \<in> a_S g \<union> a_I g" "h \<in> set fs"
  shows "x \<notin> a_PP h" "x \<in> a_S g \<Longrightarrow> x \<notin> a_I h"
proof -
  let ?n = "\<lambda>Q gs. \<Sum>f\<leftarrow>gs. (of_bool (Q f) :: nat)"
  have o: "of_bool (x \<in> a_S f) + of_bool (x \<in> a_I f) + of_bool (x \<in> a_PP f) \<le> a_occ x f" for f :: "'a aframe"
    using a_PP_occ [of x f] by (simp add: a_occ_def)
  have "?n (\<lambda>f. x \<in> a_S f) gs + ?n (\<lambda>f. x \<in> a_I f) gs + ?n (\<lambda>f. x \<in> a_PP f) gs \<le> a_count x gs" for gs :: "'a aframe list"
  proof (induction gs)
    case (Cons f gs)
    then show ?case using o [of f] by simp
  qed simp
  then have le: "?n (\<lambda>f. x \<in> a_S f) fs + ?n (\<lambda>f. x \<in> a_I f) fs + ?n (\<lambda>f. x \<in> a_PP f) fs \<le> 1"
    using assms(1) unfolding a_once_def by (meson le_trans)
  have pos: "0 < ?n Q fs" if "f \<in> set fs" "Q f" for Q and f :: "'a aframe"
    using sum_list_of_bool_pos [of Q fs] that by blast
  show "x \<notin> a_PP h"
    using le pos [of h "\<lambda>f. x \<in> a_PP f"] pos [of g "\<lambda>f. x \<in> a_S f"] pos [of g "\<lambda>f. x \<in> a_I f"] assms(2-4) by force
  show "x \<in> a_S g \<Longrightarrow> x \<notin> a_I h"
    using le pos [of h "\<lambda>f. x \<in> a_I f"] pos [of g "\<lambda>f. x \<in> a_S f"] assms(2,4) by force
qed

lemma sim_unique:
  assumes sim: "tool_sim S E k fs (d # D)" and e: "entry_abs S E fs = f # gs" and x: "x \<in> d_cur d" "x \<in> a_I f"
  shows "vers E x = a_ver f"
proof -
  note T = tool_simD [OF sim, unfolded e]
  have "x \<notin> older (vers E) f"
    using serial_bounds(1) [OF T(3)] serial_or_parallel [OF T(3,4), of x] x by auto
  moreover have "vers E x \<le> a_ver f" using T(3) frame_relD(8) x(2) by fastforce
  ultimately show ?thesis using x(2) by (auto simp: older_def)
qed

text \<open>The next iteration of a loop has begun, and no loop inside of it.\<close>

lemma iteration_next:
  assumes sim: "tool_sim S E k fs (d # D)" and e: "entry_abs S E fs = f # gs"
    and r: "tool_run U [IterationEnd, IterationBegin m] (k, S, E, d # D) = Some (k', S', E', d' # D')" "k' < 2 ^ 64 - 1"
    and D: "length D' = length D"
  obtains fs' where "tool_sim S' E' k' fs' (d' # D')" "E' = E" "a_loop f" "a_P f \<noteq> []" "d_pend d' ! 0 = None"
    "entry_abs S' E' fs' = a_iter_end (f # gs)"
proof -
  obtain S1 E1 fs1 where R: "tool_act U IterationEnd S E = Some (S1, E1)"
    "tool_run U [IterationBegin m] (k + rank_cost IterationEnd (d # D), S1, E1, d_step E_iter_end (d # D)) =
       Some (k', S', E', d' # D')"
    "tool_sim S1 E1 (k + rank_cost IterationEnd (d # D)) fs1 (d_step E_iter_end (d # D))"
    "entry_abs S1 E1 fs1 = a_step E_iter_end (f # gs)" "d_guard E_iter_end (d # D)"
    by (rule run_step [OF sim r]) (simp del: tool_run.simps tool_act.simps add: e)
  obtain p D0 where D0: "D = p # D0" "d_loop d" using R(5) by (cases D) auto
  have F: "a_loop f" "a_P f \<noteq> []" "d_pend d \<noteq> []"
  proof -
    have "frame_rel (vers E) (serial (vers E) (f # gs)) f d" using tool_simD(3) [OF sim] e by simp
    from frame_relD(3,5,11) [OF this] D0(2) show "a_loop f" "a_P f \<noteq> []" "d_pend d \<noteq> []" by auto
  qed
  let ?e = "event_of (IterationBegin m) (cs_start_new_loop S1)" and ?D = "d_step E_iter_end (d # D)"
  obtain S2 E2 fs2 where Q: "tool_act U (IterationBegin m) S1 E1 = Some (S2, E2)"
    "tool_run U [] (k + rank_cost IterationEnd (d # D) + rank_cost (IterationBegin m) ?D, S2, E2, d_step ?e ?D) =
       Some (k', S', E', d' # D')"
    "tool_sim S2 E2 (k + rank_cost IterationEnd (d # D) + rank_cost (IterationBegin m) ?D) fs2 (d_step ?e ?D)"
    "entry_abs S2 E2 fs2 = a_step ?e (entry_abs S1 E1 fs1)"
    by (rule run_step [OF R(3,2) r(2)]) (rule that; assumption)
  have fin: "S2 = S'" "E2 = E'" "k + rank_cost IterationEnd (d # D) + rank_cost (IterationBegin m) ?D = k'"
    "d_step ?e ?D = d' # D'" using Q(2) by simp_all
  have "E1 = E" "E2 = E1" using R(1) Q(1) by auto
  moreover have n: "\<not> cs_start_new_loop S1" using fin(4) D D0(1) by auto
  then have "entry_abs S2 E2 fs2 = a_iter_end (f # gs)" using Q(4) R(4) by simp
  moreover have "d_pend d' ! 0 = None" using fin(4) n D0(1) F(3) by (auto simp: d_next_def)
  ultimately show ?thesis using Q(3) F unfolding fin by (intro that [of fs2]) simp_all
qed

text \<open>A run in three phases, for the witnesses: what is known of access 0, and how many frames there are.\<close>

definition ex_glance :: "nat \<times> nat cilksan \<times> entries \<times> nat dframe list \<Rightarrow> nat \<times> (u64 \<times> nat) option \<times> nat" where
  "ex_glance = (\<lambda>(k, S, E, D). (k, E 0, length D))"

definition ex_phases :: "action list \<Rightarrow> action list \<Rightarrow> action list \<Rightarrow> (nat \<times> (u64 \<times> nat) option \<times> nat) list option" where
  "ex_phases as bs cs =
     do {
       s \<leftarrow> ex_run as;
       s1 \<leftarrow> tool_run ex_user bs s;
       s2 \<leftarrow> tool_run ex_user cs s1;
       Some (map ex_glance [s, s1, s2])
     }"

lemma ex_phases:
  assumes "ex_phases as bs cs = Some [(k, e, Suc n), (k1, e1, Suc n1), (k2, e2, Suc n2)]" "k < 2 ^ 64 - 1"
  obtains S E d D S1 E1 d1 D1 S2 E2 d2 D2 where "tool_reach ex_user k S E (d # D)"
    "tool_run ex_user bs (k, S, E, d # D) = Some (k1, S1, E1, d1 # D1)"
    "tool_run ex_user cs (k1, S1, E1, d1 # D1) = Some (k2, S2, E2, d2 # D2)"
    "E 0 = e" "E1 0 = e1" "E2 0 = e2" "length D = n" "length D1 = n1" "length D2 = n2"
proof -
  obtain S E D S1 E1 D1 S2 E2 D2 where r: "ex_run as = Some (k, S, E, D)" "tool_run ex_user bs (k, S, E, D) = Some (k1, S1, E1, D1)"
    "tool_run ex_user cs (k1, S1, E1, D1) = Some (k2, S2, E2, D2)"
    and v: "E 0 = e" "E1 0 = e1" "E2 0 = e2" "length D = Suc n" "length D1 = Suc n1" "length D2 = Suc n2"
    using assms(1) by (auto simp: ex_phases_def ex_glance_def bind_eq_Some_conv)
  have "tool_reach ex_user k S E D" by (rule ex_run_reach [OF r(1) assms(2)])
  moreover obtain d D' d1 D1' d2 D2' where "D = d # D'" "D1 = d1 # D1'" "D2 = d2 # D2'"
    using v(4-6) by (auto simp: length_Suc_conv)
  ultimately show ?thesis using that r(2,3) v by simp
qed

lemma ex_iteration_phases:
  "ex_phases [Enter 1, LoopBegin, IterationBegin 1] [Record 0, IterationEnd, IterationBegin 1] [Enter 1] =
   Some [(0, None, Suc 2), (2, Some (512, 0), Suc 2), (2, Some (512, 0), Suc 3)]"
  by code_simp

lemma ex_sync_phases:
  "ex_phases [Enter 1, LoopBegin, IterationBegin 1] [Enter 1, Record 0, Leave 0, IterationEnd, IterationBegin 1] [Sync 0] =
   Some [(0, None, Suc 2), (4, Some (640, 0), Suc 2), (5, Some (640, 0), Suc 2)]"
  by code_simp

text \<open>
  C4.  An access that the body of a parallel loop makes is taken to be in parallel by the body
  of the next iteration, but in series by any function that this body calls, although it
  precedes neither: check_parallel_iter looks only at the topmost frame, so that the race is
  missed (unless the version counter of the loop has just wrapped around, when the accesses move
  to the P-bag).
\<close>

theorem loop_race_missed_in_callee:
  assumes reach: "tool_reach U k S E (d # D)"
    and next_iteration: "tool_run U [Record t, IterationEnd, IterationBegin m] (k, S, E, d # D) = Some (k1, S1, E1, d1 # D1)"
      "length D1 = length D"
    and call: "tool_run U [Enter n] (k1, S1, E1, d1 # D1) = Some (k2, S2, E2, D2)" "k2 < 2 ^ 64 - 1"
    and t: "E1 t = Some (getFuncFromVerFunc ma, unat (getVersionFromVerFunc ma))" "unat (getVersionFromVerFunc ma) < 65535"
  shows "t \<notin> d_cur d1 \<and> map_option fst (access_in_parallel ma S1) = Some True \<and>
    t \<notin> d_cur (hd D2) \<and> map_option fst (access_in_parallel ma S2) = Some False"
proof -
  obtain fs where sim: "tool_sim S E k fs (d # D)" using reach_sim [OF reach] by blast
  have k1: "k1 < 2 ^ 64 - 1" using tool_run_le [OF call(1)] call(2) by simp
  obtain f gs where e: "entry_abs S E fs = f # gs" using tool_simD(3) [OF sim] by (auto simp: dag_rel_Cons)
  obtain Sa Ea fsa where A: "tool_act U (Record t) S E = Some (Sa, Ea)"
    "tool_run U [IterationEnd, IterationBegin m] (k, Sa, Ea, d\<lparr>d_cur := insert t (d_cur d)\<rparr> # D) = Some (k1, S1, E1, d1 # D1)"
    "tool_sim Sa Ea k fsa (d\<lparr>d_cur := insert t (d_cur d)\<rparr> # D)" "entry_abs Sa Ea fsa = a_access t (f # gs)"
    by (rule run_step [OF sim next_iteration(1) k1]) (simp del: tool_run.simps tool_act.simps add: e)
  let ?f = "if a_loop f then f\<lparr>a_I := insert t (a_I f)\<rparr> else f\<lparr>a_S := insert t (a_S f)\<rparr>"
  have ea: "entry_abs Sa Ea fsa = ?f # gs" using A(4) by simp
  obtain fs1 where B: "tool_sim S1 E1 k1 fs1 (d1 # D1)" "E1 = Ea" "a_loop ?f" "entry_abs S1 E1 fs1 = a_iter_end (?f # gs)"
    by (rule iteration_next [OF A(3) ea A(2) k1 next_iteration(2)]) blast
  have l: "a_loop f" using B(3) by (simp split: if_splits)
  have v: "vers E1 t = a_ver f" using sim_unique [OF A(3) ea, of t] l B(2) by simp
  then have "a_ver f < 65535" using t by (simp add: vers_def)
  then obtain h where h: "entry_abs S1 E1 fs1 = h # gs" "a_loop h" "t \<in> a_I h" "a_ver h = Suc (a_ver f)"
    using B(4) l by (simp add: Let_def VERSIONS_def a_join_def)
  have p1: "a_par t (vers E1 t) (entry_abs S1 E1 fs1)" using h v by (simp add: a_par_def)
  obtain Sb Eb fsb where C: "tool_act U (Enter n) S1 E1 = Some (Sb, Eb)"
    "tool_run U [] (k1, Sb, Eb, d_step (E_enter (unat n) False) (d1 # D1)) = Some (k2, S2, E2, D2)"
    "tool_sim Sb Eb k1 fsb (d_step (E_enter (unat n) False) (d1 # D1))"
    "entry_abs Sb Eb fsb = a_enter (unat n) False (entry_abs S1 E1 fs1)"
    by (rule run_step [OF B(1) call]) (simp del: tool_run.simps tool_act.simps d_step.simps)
  have "Eb = E1" using C(1) by auto
  then have D2: "tool_sim S2 E1 k1 fsb (d_new (unat n) False False d1 # d1 # D1)" "D2 = d_new (unat n) False False d1 # d1 # D1"
    "entry_abs S2 E1 fsb = a_new (unat n) False # h # gs"
    using C(2-4) h(1) by (auto simp: a_enter_def)
  have "t \<notin> a_PP g" if "g \<in> set (a_new (unat n) False # h # gs)" for g
    by (rule once_place(1) [OF tool_simD(4) [OF D2(1), unfolded D2(3)], where g = h]) (use h(3) that in auto)
  then have p2: "\<not> a_par t (vers E1 t) (entry_abs S2 E1 fsb)"
    unfolding D2(3) by (auto simp: a_par_def a_new_def)
  obtain R1 R2 where "access_in_parallel ma S1 = Some (True, R1)" "access_in_parallel ma S2 = Some (False, R2)"
    using sim_answer(1) [where E = E1 and t = t, OF B(1) t(1)] sim_answer(1) [where E = E1 and t = t, OF D2(1) t(1)] p1 p2 by auto
  moreover have "t \<notin> d_cur d1" using sim_answer(2) [where E = E1 and t = t, OF B(1) t(1)] p1 by (simp add: answer_ok_def)
  ultimately show ?thesis using D2(2) by (simp add: d_new_def)
qed

text \<open>A function that the body of a loop calls makes an access and returns.\<close>

lemma call_access:
  assumes sim: "tool_sim S E k fs (d # D)" and e: "entry_abs S E fs = f # gs"
    and r: "tool_run U (Enter n # Record t # Leave r # as) (k, S, E, d # D) = Some (k', S', E', D')" "k' < 2 ^ 64 - 1"
  obtains S1 E1 k1 fs1 d1 where "tool_run U as (k1, S1, E1, d1 # D) = Some (k', S', E', D')"
    "tool_sim S1 E1 k1 fs1 (d1 # D)" "entry_abs S1 E1 fs1 = f\<lparr>a_S := insert t (a_S f)\<rparr> # gs"
proof -
  obtain Sa Ea fsa where A: "tool_run U (Record t # Leave r # as) (k, Sa, Ea, d_new (unat n) False False d # d # D) = Some (k', S', E', D')"
    "tool_sim Sa Ea k fsa (d_new (unat n) False False d # d # D)" "entry_abs Sa Ea fsa = a_new (unat n) False # f # gs"
    by (rule run_step [OF sim r]) (simp del: tool_run.simps tool_act.simps add: e a_enter_def)
  let ?c = "(a_new (unat n) False)\<lparr>a_S := {t}\<rparr>" and ?d = "(d_new (unat n) False False d)\<lparr>d_cur := insert t (d_cur d)\<rparr>"
  obtain Sb Eb fsb where B: "tool_run U (Leave r # as) (k, Sb, Eb, ?d # d # D) = Some (k', S', E', D')"
    "tool_sim Sb Eb k fsb (?d # d # D)" "entry_abs Sb Eb fsb = ?c # f # gs"
    by (rule run_step [OF A(2,1) r(2)]) (simp del: tool_run.simps tool_act.simps add: A(3) a_new_def d_new_def)
  obtain Sc Ec fsc where C: "tool_run U as (k + rank_cost (Leave r) (?d # d # D), Sc, Ec, d\<lparr>d_cur := insert t (d_cur d)\<rparr> # D) = Some (k', S', E', D')"
    "tool_sim Sc Ec (k + rank_cost (Leave r) (?d # d # D)) fsc (d\<lparr>d_cur := insert t (d_cur d)\<rparr> # D)"
    "entry_abs Sc Ec fsc = f\<lparr>a_S := a_S f \<union> {t}\<rparr> # gs"
    by (rule run_step [OF B(2,1) r(2)]) (simp del: tool_run.simps tool_act.simps rank_cost.simps add: B(3) a_new_def d_new_def)
  then show ?thesis using that by simp
qed

lemma loop_race_missed_witness:
  "\<exists>S1 E1 d1 D1 S2 E2 d2 D2. tool_run ex_user [Enter 1] (2, S1, E1, d1 # D1) = Some (2, S2, E2, d2 # D2) \<and>
     E1 0 = Some (512, 0) \<and> 0 \<notin> d_cur d2 \<and> map_option fst (access_in_parallel (ex_ma 512 0) S2) = Some False"
proof -
  obtain S E d D S1 E1 d1 D1 S2 E2 d2 D2 where r: "tool_reach ex_user 0 S E (d # D)"
    "tool_run ex_user [Record 0, IterationEnd, IterationBegin 1] (0, S, E, d # D) = Some (2, S1, E1, d1 # D1)"
    "tool_run ex_user [Enter 1] (2, S1, E1, d1 # D1) = Some (2, S2, E2, d2 # D2)"
    "E1 0 = Some (512, 0)" "length D = 2" "length D1 = 2"
    by (rule ex_phases [OF ex_iteration_phases]) (simp_all del: tool_run.simps)
  have t: "E1 0 = Some (getFuncFromVerFunc (ex_ma 512 0), unat (getVersionFromVerFunc (ex_ma 512 0)))"
    "unat (getVersionFromVerFunc (ex_ma 512 0)) < 65535" using r(4) by (simp_all add: ex_ma_get)
  have "length D1 = length D" "(2 :: nat) < 2 ^ 64 - 1" using r(5,6) by simp_all
  from loop_race_missed_in_callee [OF r(1,2) this(1) r(3) this(2) t]
  have "0 \<notin> d_cur d2" "map_option fst (access_in_parallel (ex_ma 512 0) S2) = Some False" by simp_all
  then show ?thesis using r(3,4) by blast
qed

text \<open>
  C29.  An access that a function called by the body of a parallel loop makes is taken to be in
  parallel by the body of the next iteration until this body syncs region 0, for which the tool
  uses the same P-bag as for the iterations: from then on it is taken to be in series, although
  it does not precede the current strand, and the races with it are missed.
\<close>

theorem sync_hides_older_iterations:
  assumes reach: "tool_reach U k S E (d # D)"
    and next_iteration: "tool_run U [Enter n, Record t, Leave r, IterationEnd, IterationBegin m] (k, S, E, d # D) =
        Some (k1, S1, E1, d1 # D1)" "length D1 = length D"
    and sync: "tool_run U [Sync 0] (k1, S1, E1, d1 # D1) = Some (k2, S2, E2, d2 # D2)" "k2 < 2 ^ 64 - 1"
    and t: "E1 t = Some (getFuncFromVerFunc ma, unat (getVersionFromVerFunc ma))"
  shows "t \<notin> d_cur d1 \<and> map_option fst (access_in_parallel ma S1) = Some True \<and>
    t \<notin> d_cur d2 \<and> map_option fst (access_in_parallel ma S2) = Some False"
proof -
  obtain fs where sim: "tool_sim S E k fs (d # D)" using reach_sim [OF reach] by blast
  have k1: "k1 < 2 ^ 64 - 1" using tool_run_le [OF sync(1)] sync(2) by simp
  obtain f gs where e: "entry_abs S E fs = f # gs" using tool_simD(3) [OF sim] by (auto simp: dag_rel_Cons)
  let ?f = "f\<lparr>a_S := insert t (a_S f)\<rparr>"
  obtain Sa Ea ka fsa da where A: "tool_run U [IterationEnd, IterationBegin m] (ka, Sa, Ea, da # D) = Some (k1, S1, E1, d1 # D1)"
    "tool_sim Sa Ea ka fsa (da # D)" "entry_abs Sa Ea fsa = ?f # gs"
    by (rule call_access [OF sim e next_iteration(1) k1])
  obtain fs1 where B: "tool_sim S1 E1 k1 fs1 (d1 # D1)" "a_P ?f \<noteq> []" "entry_abs S1 E1 fs1 = a_iter_end (?f # gs)"
    "d_pend d1 ! 0 = None"
    by (rule iteration_next [OF A(2,3,1) k1 next_iteration(2)]) blast
  obtain h where h: "entry_abs S1 E1 fs1 = h # gs" "t \<in> pset (a_P h ! 0)" "a_P h \<noteq> []"
    using B(2,3) by (simp add: Let_def a_join_def)
  have "t \<in> a_PP h" using h(2,3) by (cases "a_P h") (auto simp: a_PP_def)
  then have p1: "a_par t (vers E1 t) (entry_abs S1 E1 fs1)" using h(1) by (simp add: a_par_def)
  obtain Sb Eb fsb where C: "tool_act U (Sync 0) S1 E1 = Some (Sb, Eb)"
    "tool_run U [] (k1 + rank_cost (Sync 0) (d1 # D1), Sb, Eb, d_step (E_sync 0) (d1 # D1)) = Some (k2, S2, E2, d2 # D2)"
    "tool_sim Sb Eb (k1 + rank_cost (Sync 0) (d1 # D1)) fsb (d_step (E_sync 0) (d1 # D1))"
    "entry_abs Sb Eb fsb = a_sync 0 (h # gs)"
    by (rule run_step [OF B(1) sync]) (simp del: tool_run.simps tool_act.simps d_step.simps rank_cost.simps add: h(1))
  have D2: "Sb = S2" "Eb = E2" "d_step (E_sync 0) (d1 # D1) = d2 # D2" "k1 + rank_cost (Sync 0) (d1 # D1) = k2"
    using C(2) by simp_all
  have E2: "E2 = E1" using C(1) D2(2) by auto
  note sim2 = C(3) [unfolded D2 E2]
  let ?h = "h\<lparr>a_S := a_S h \<union> pset (a_P h ! 0), a_P := (a_P h)[0 := None]\<rparr>"
  have e2: "entry_abs S2 E1 fsb = ?h # gs" using C(4) unfolding D2 E2 by simp
  have place: "t \<notin> a_PP g \<and> t \<notin> a_I g" if "g \<in> set (?h # gs)" for g
    using once_place [OF tool_simD(4) [OF sim2, unfolded e2], where g = ?h and x = t and h = g] h(2) that by auto
  have "t \<notin> a_I h" using place [of ?h] by simp
  with place have p2: "\<not> a_par t (vers E1 t) (entry_abs S2 E1 fsb)" unfolding e2 a_par_def by auto
  obtain R1 R2 where "access_in_parallel ma S1 = Some (True, R1)" "access_in_parallel ma S2 = Some (False, R2)"
    using sim_answer(1) [where E = E1 and t = t, OF B(1) t] sim_answer(1) [where E = E1 and t = t, OF sim2 t] p1 p2 by auto
  moreover have n1: "t \<notin> d_cur d1" using sim_answer(2) [where E = E1 and t = t, OF B(1) t] p1 by (simp add: answer_ok_def)
  moreover have "d_cur d2 = d_cur d1" using D2(3) B(4) by (auto simp: d_sync_def)
  ultimately show ?thesis by simp
qed
lemma sync_hides_witness:
  "\<exists>S1 E1 d1 D1 S2 E2 d2 D2. tool_run ex_user [Sync 0] (4, S1, E1, d1 # D1) = Some (5, S2, E2, d2 # D2) \<and>
     E1 0 = Some (640, 0) \<and> 0 \<notin> d_cur d2 \<and> map_option fst (access_in_parallel (ex_ma 640 0) S1) = Some True \<and>
     map_option fst (access_in_parallel (ex_ma 640 0) S2) = Some False"
proof -
  obtain S E d D S1 E1 d1 D1 S2 E2 d2 D2 where r: "tool_reach ex_user 0 S E (d # D)"
    "tool_run ex_user [Enter 1, Record 0, Leave 0, IterationEnd, IterationBegin 1] (0, S, E, d # D) = Some (4, S1, E1, d1 # D1)"
    "tool_run ex_user [Sync 0] (4, S1, E1, d1 # D1) = Some (5, S2, E2, d2 # D2)"
    "E1 0 = Some (640, 0)" "length D = 2" "length D1 = 2"
    by (rule ex_phases [OF ex_sync_phases]) (simp_all del: tool_run.simps)
  have t: "E1 0 = Some (getFuncFromVerFunc (ex_ma 640 0), unat (getVersionFromVerFunc (ex_ma 640 0)))"
    using r(4) by (simp add: ex_ma_get)
  have "length D1 = length D" "(5 :: nat) < 2 ^ 64 - 1" using r(5,6) by simp_all
  from sync_hides_older_iterations [OF r(1,2) this(1) r(3) this(2) t]
  have "0 \<notin> d_cur d2" "map_option fst (access_in_parallel (ex_ma 640 0) S1) = Some True"
    "map_option fst (access_in_parallel (ex_ma 640 0) S2) = Some False" by simp_all
  then show ?thesis using r(3,4) by blast
qed

end
