(* ===== verification/MemRuns.thy ===== *)
theory MemRuns
  imports MemSteps ToolSafety
begin

text \<open>
  Runs of the tool with the handlers of reads and writes: control-flow events leave the recorded accesses
  and the reports alone, and every recorded access is one that the program made.
\<close>

subsection \<open>Control-flow events\<close>

text \<open>What a handler leaves alone: a part of the state that is the same whenever it returns.\<close>

definition part_kept :: "('m cilksan \<Rightarrow> 'p) \<Rightarrow> 'm cilksan \<Rightarrow> 'm cilksan option \<Rightarrow> bool" where
  "part_kept p S r \<longleftrightarrow> (\<forall>S'. r = Some S' \<longrightarrow> p S' = p S)"

definition part_kept_with :: "('m cilksan \<Rightarrow> 'p) \<Rightarrow> 'm cilksan \<Rightarrow> ('a \<times> 'm cilksan) option \<Rightarrow> bool" where
  "part_kept_with p S r \<longleftrightarrow> (\<forall>x S'. r = Some (x, S') \<longrightarrow> p S' = p S)"

lemma part_keptD: "part_kept p S r \<Longrightarrow> r = Some S' \<Longrightarrow> p S' = p S"
  by (simp add: part_kept_def)

lemma part_bind_with:
  assumes "part_kept_with p S m" "\<And>x S1. p S1 = p S \<Longrightarrow> part_kept p S1 (f x S1)"
  shows "part_kept p S (m \<bind> (\<lambda>(x, S1). f x S1))"
  unfolding part_kept_def
proof (intro allI impI)
  fix S' assume "m \<bind> (\<lambda>(x, S1). f x S1) = Some S'"
  then obtain x S1 where m: "m = Some (x, S1)" "f x S1 = Some S'" by (auto simp: bind_eq_Some_conv)
  have "p S1 = p S" using assms(1) m(1) unfolding part_kept_with_def by blast
  then show "p S' = p S" using part_keptD [OF assms(2) m(2)] by simp
qed

lemma part_bind:
  assumes "part_kept p S m" "\<And>S1. p S1 = p S \<Longrightarrow> part_kept p S1 (f S1)"
  shows "part_kept p S (m \<bind> f)"
  unfolding part_kept_def
proof (intro allI impI)
  fix S' assume "m \<bind> f = Some S'"
  then obtain S1 where m: "m = Some S1" "f S1 = Some S'" by (auto simp: bind_eq_Some_conv)
  have "p S1 = p S" using part_keptD [OF assms(1) m(1)] .
  then show "p S' = p S" using part_keptD [OF assms(2) m(2)] by simp
qed

lemma part_bind_pair: "(\<And>x y. part_kept p S (f x y)) \<Longrightarrow> part_kept p S (m \<bind> (\<lambda>(x, y). f x y))"
  by (cases m) (auto simp: part_kept_def)

lemma part_bind_pure: "(\<And>x. part_kept p S (f x)) \<Longrightarrow> part_kept p S (m \<bind> f)"
  by (cases m) (auto simp: part_kept_def)

lemma part_if: "(P \<Longrightarrow> part_kept p S a) \<Longrightarrow> (\<not> P \<Longrightarrow> part_kept p S b) \<Longrightarrow> part_kept p S (if P then a else b)"
  by simp

lemma part_Some: "p S' = p S \<Longrightarrow> part_kept p S (Some S')" "part_kept p S None"
  by (simp_all add: part_kept_def)

lemma part_with_pure: "(\<And>x. part_kept_with p S (f x)) \<Longrightarrow> part_kept_with p S (m \<bind> f)"
  by (cases m) (auto simp: part_kept_with_def)

lemma part_with_pair: "(\<And>x y. part_kept_with p S (f x y)) \<Longrightarrow> part_kept_with p S (m \<bind> (\<lambda>(x, y). f x y))"
  by (cases m) (auto simp: part_kept_with_def)

lemma part_with_bind:
  assumes "part_kept p S m" "\<And>S1. p S1 = p S \<Longrightarrow> part_kept_with p S1 (f S1)"
  shows "part_kept_with p S (m \<bind> f)"
  unfolding part_kept_with_def
proof (intro allI impI)
  fix x S' assume "m \<bind> f = Some (x, S')"
  then obtain S1 where m: "m = Some S1" "f S1 = Some (x, S')" by (auto simp: bind_eq_Some_conv)
  have e: "p S1 = p S" using part_keptD [OF assms(1) m(1)] .
  then have "p S' = p S1" using assms(2) m(2) unfolding part_kept_with_def by blast
  then show "p S' = p S" using e by simp
qed

lemma part_with_if:
  "(P \<Longrightarrow> part_kept_with p S a) \<Longrightarrow> (\<not> P \<Longrightarrow> part_kept_with p S b) \<Longrightarrow> part_kept_with p S (if P then a else b)"
  by simp

lemma part_with_Some: "p S' = p S \<Longrightarrow> part_kept_with p S (Some (x, S'))" "part_kept_with p S None"
  by (simp_all add: part_kept_with_def)

lemmas part_rules = part_with_bind part_with_pair part_with_pure part_with_if part_with_Some
  part_bind_with part_bind part_bind_pair part_bind_pure part_if part_Some

text \<open>The handlers of control flow keep every part that frames, bags and frame numbers do not belong to.\<close>

locale frame_blind =
  fixes part :: "'m cilksan \<Rightarrow> 'p"
  assumes part_put [simp]: "part (cs_put_frame i f S) = part S"
    and part_bags [simp]: "part (S\<lparr>cs_sp := B\<rparr>) = part S"
    and part_id [simp]: "part (S\<lparr>cs_frame_id := n\<rparr>) = part S"
    and part_frames [simp]: "part (S\<lparr>cs_frame_stack := F\<rparr>) = part S"
begin

lemma on_frame_part: "part S1 = part S \<Longrightarrow> part_kept part S (on_frame i act S1)"
  by (auto simp: on_frame_def bind_eq_Some_conv part_kept_def)

lemma on_bags_part: "part S1 = part S \<Longrightarrow> part_kept part S (on_bags act S1)"
  by (auto simp: on_bags_def part_kept_def)

lemma set_frame_data_part: "part S1 = part S \<Longrightarrow> part_kept part S (set_frame_data e S1)"
  by (auto simp: set_frame_data_def part_kept_def)

lemma ensure_pbag_part: "part S1 = part S \<Longrightarrow> part_kept_with part S (ensure_pbag i idx S1)"
  unfolding ensure_pbag_def by (rule on_frame_part part_rules | simp)+

lemmas part_ops = on_frame_part on_bags_part set_frame_data_part ensure_pbag_part

lemma merge_bag_part: "part S1 = part S \<Longrightarrow> part_kept part S (merge_bag_from_returning_child d r S1)"
  unfolding merge_bag_from_returning_child_def
  by (rule part_ops part_rules | simp)+

lemma exit_function_part: "part S1 = part S \<Longrightarrow> part_kept part S (exit_function S1)"
  unfolding exit_function_def by (rule part_ops part_rules | simp)+

lemma start_new_function_part: "part S1 = part S \<Longrightarrow> part_kept part S (start_new_function n S1)"
  unfolding start_new_function_def Let_def
  by (rule part_ops part_rules | simp)+

lemma complete_sync_part: "part S1 = part S \<Longrightarrow> part_kept part S (complete_sync r S1)"
  unfolding complete_sync_def Let_def by (rule part_ops part_rules | simp)+

lemmas part_handlers = merge_bag_part exit_function_part start_new_function_part complete_sync_part part_ops

lemma do_leave_part: "part S1 = part S \<Longrightarrow> part_kept part S (do_leave r S1)"
  unfolding do_leave_def return_from_detach_def leave_cilk_function_def
  by (rule part_handlers part_rules | simp)+

lemma do_enter_part:
  "part S1 = part S \<Longrightarrow> part_kept part S (do_enter n S1)"
  "part S1 = part S \<Longrightarrow> part_kept part S (do_enter_helper n S1)"
  unfolding do_enter_def do_enter_helper_def enter_cilk_function_def
  by (rule part_handlers part_rules | simp)+

lemma do_loop_end_part: "part S1 = part S \<Longrightarrow> part_kept part S (do_loop_end r S1)"
  unfolding do_loop_end_def by (rule do_leave_part part_handlers part_rules | simp)+

end

text \<open>The part of the state that belongs to memory accesses, and what else the handlers leave alone.\<close>

definition tool_part :: "'m cilksan \<Rightarrow> CallID_t list \<times> bool \<times> u64 \<times> u64" where
  "tool_part S = (cs_call_stack S, cs_lockset_empty S, cs_stack_low S, cs_stack_high S)"

definition mem_part :: "'m cilksan \<Rightarrow> Shadow_t \<times> Report_t list \<times> u64 Stack_t \<times> CallID_t list \<times> bool \<times> u64 \<times> u64" where
  "mem_part S = (cs_shadow S, cs_reports S, cs_sp_stack S, tool_part S)"

lemma tool_part_simps [simp]:
  "tool_part (cs_put_frame i f S) = tool_part S" "tool_part (S\<lparr>cs_sp := B\<rparr>) = tool_part S"
  "tool_part (S\<lparr>cs_frame_id := n\<rparr>) = tool_part S" "tool_part (S\<lparr>cs_frame_stack := F\<rparr>) = tool_part S"
  "tool_part (S\<lparr>cs_start_new_loop := b\<rparr>) = tool_part S" "tool_part (S\<lparr>cs_shadow := sh\<rparr>) = tool_part S"
  "tool_part (S\<lparr>cs_stats := st\<rparr>) = tool_part S"
  by (simp_all add: tool_part_def cs_put_frame_def)

lemma mem_part_loop [simp]: "mem_part (S\<lparr>cs_start_new_loop := b\<rparr>) = mem_part S"
  by (simp add: mem_part_def)

interpretation mem: frame_blind mem_part
  by unfold_locales (simp_all add: mem_part_def cs_put_frame_def)

interpretation loop: frame_blind cs_start_new_loop
  by unfold_locales (simp_all add: cs_put_frame_def)

lemmas mem_part_simps = mem.part_put mem.part_bags mem.part_id mem.part_frames mem_part_loop

text \<open>The end of a strand forgets the marks of its accesses; nothing else of this part changes.\<close>

definition keeps :: "'m cilksan \<Rightarrow> 'm cilksan \<Rightarrow> bool" where
  "keeps S S' \<longleftrightarrow> shadow_occ (cs_shadow S) (cs_shadow S') \<and> cs_reports S' = cs_reports S \<and>
     cs_sp_stack S' = cs_sp_stack S \<and> tool_part S' = tool_part S"

lemma keeps_part: "mem_part S1 = mem_part S \<Longrightarrow> mem_part S' = mem_part S2 \<Longrightarrow> keeps S1 S2 \<Longrightarrow> keeps S S'"
  by (simp add: keeps_def mem_part_def)

lemma keeps_same: "mem_part S' = mem_part S \<Longrightarrow> keeps S S'"
  by (simp add: keeps_def mem_part_def shadow_occ_refl)

lemma end_strand_keeps: "end_strand S = Some S' \<Longrightarrow> keeps S S'"
  by (auto simp: end_strand_def on_shadow_def keeps_def dest: Shadow_clearOccupied_occ)

text \<open>An event that ends the strand, and does other things before and after.\<close>

lemma keeps_end_strand:
  assumes "m \<bind> (\<lambda>S1. end_strand S1 \<bind> f) = Some S'" "part_kept mem_part S m" "\<And>S2. part_kept mem_part S2 (f S2)"
  shows "keeps S S'"
proof -
  obtain S1 S2 where h: "m = Some S1" "end_strand S1 = Some S2" "f S2 = Some S'"
    using assms(1) by (auto simp: bind_eq_Some_conv)
  show ?thesis
    by (rule keeps_part [OF part_keptD [OF assms(2) h(1)] part_keptD [OF assms(3) h(3)] end_strand_keeps [OF h(2)]])
qed

lemma keeps_strand:
  assumes "end_strand S \<bind> f = Some S'" "\<And>S2. part_kept mem_part S2 (f S2)"
  shows "keeps S S'"
  by (rule keeps_end_strand [where m = "Some S" and f = f]) (use assms in \<open>simp_all add: part_Some\<close>)

lemma do_detach_continue_keeps:
  assumes "do_detach_continue U r S = Some S'" "reduce_local_views U S = Some S"
  shows "keeps S S'"
  by (rule keeps_strand [OF assms(1) [unfolded do_detach_continue_def assms(2) bind.bind_lunit]])
    (rule part_rules refl | simp)+

lemma do_loop_iteration_end_keeps:
  assumes "do_loop_iteration_end U S = Some S'" "reduce_local_views U S = Some S"
  shows "keeps S S'"
  by (rule keeps_strand [OF assms(1) [unfolded do_loop_iteration_end_def assms(2) bind.bind_lunit Let_def]])
    (rule part_rules mem.part_ops refl | simp)+

lemma do_loop_iteration_begin_keeps:
  assumes "do_loop_iteration_begin n S = Some S'"
  shows "keeps S S'"
proof (cases "cs_start_new_loop S")
  case True
  have "(do {
        S \<leftarrow> do_enter_helper (if n > 0 then n else 1) S;
        func \<leftarrow> cs_ancestor 0 S;
        S \<leftarrow> set_frame_data (setLoopFrame (frame_data func)) S;
        on_frame 0 create_iterbag S
      }) \<bind> (\<lambda>S1. end_strand S1 \<bind> (\<lambda>S. Some (S\<lparr>cs_start_new_loop := False\<rparr>))) = Some S'"
    using assms True by (simp add: do_loop_iteration_begin_def do_detach_def)
  then show ?thesis
    by (rule keeps_end_strand) (rule mem.do_enter_part part_rules mem.part_ops refl | simp)+
next
  case False
  have "end_strand S \<bind>
      (\<lambda>S. do { f \<leftarrow> cs_ancestor 0 S; Some (cs_put_frame 0 (enter_loop_continuation f) S) }) = Some S'"
    using assms False by (auto simp: do_loop_iteration_begin_def bind_eq_Some_conv split: if_splits)
  then show ?thesis by (rule keeps_strand) (rule part_rules refl | simp)+
qed

lemma do_sync_keeps:
  assumes "do_sync U r S = Some S'" and red: "\<And>S1. end_strand S = Some S1 \<Longrightarrow> reduce_local_views U S1 = Some S1"
  shows "keeps S S'"
proof -
  obtain S1 where h: "end_strand S = Some S1" using assms(1) by (auto simp: do_sync_def bind_eq_Some_conv)
  have "end_strand S \<bind> (\<lambda>S. do {
      S \<leftarrow> complete_sync r S; f \<leftarrow> cs_ancestor 0 S; f \<leftarrow> exit_continuation (unat r) f; Some (cs_put_frame 0 f S) }) = Some S'"
    using assms(1) red [OF h] h by (simp add: do_sync_def)
  then show ?thesis by (rule keeps_strand) (rule part_rules mem.part_handlers refl | simp)+
qed

text \<open>In a run there are no reducer views to merge.\<close>

lemma sim_reduce:
  assumes sim: "tool_sim S E k fs D" and S1: "cs_frame_stack S1 = cs_frame_stack S" "cs_sp S1 = cs_sp S"
  shows "reduce_local_views U S1 = Some S1"
proof -
  note T = tool_okD [OF tool_simD(2) [OF sim]]
  obtain f gs where fs: "fs = f # gs" using sim_ne [OF sim] by (cases fs) auto
  have "cs_at S1 (f # gs) (cs_sp S)" using T(1) S1 fs by (simp add: cs_at_def)
  moreover have "reducer_views f = 0" using T(4) fs by (auto simp: frame_ok_def)
  ultimately show ?thesis by (rule reduce_none_at)
qed

theorem act_keeps:
  assumes sim: "tool_sim S E k fs D" and act: "tool_act U a S E = Some (S', E')"
  shows "keeps S S'"
proof -
  have red: "reduce_local_views U S = Some S" by (rule sim_reduce [OF sim]) simp_all
  have same: "keeps S S'" if "part_kept mem_part S r" "r = Some S'" for r :: "'a cilksan option"
    using keeps_same part_keptD [OF that] by blast
  have red1: "reduce_local_views U S1 = Some S1" if "end_strand S = Some S1" for S1
    by (rule sim_reduce [OF sim]) (use that in \<open>auto simp: end_strand_def on_shadow_def\<close>)
  show ?thesis
  proof (cases a)
    case (Enter n)
    then show ?thesis using act same [OF mem.do_enter_part(1) [OF refl]] by auto
  next
    case (EnterHelper n)
    then show ?thesis using act same [OF mem.do_enter_part(2) [OF refl]] by auto
  next
    case Detach
    then show ?thesis using act end_strand_keeps by (auto simp: do_detach_def)
  next
    case (DetachContinue r)
    then show ?thesis using act do_detach_continue_keeps [OF _ red] by auto
  next
    case LoopBegin
    then show ?thesis using act by (auto simp: do_loop_begin_def intro!: keeps_same)
  next
    case (IterationBegin n)
    then show ?thesis using act do_loop_iteration_begin_keeps by auto
  next
    case IterationEnd
    then show ?thesis using act do_loop_iteration_end_keeps [OF _ red] by auto
  next
    case (LoopEnd r)
    then show ?thesis using act same [OF mem.do_loop_end_part [OF refl]] by auto
  next
    case (Sync r)
    then show ?thesis using act do_sync_keeps [OF _ red1] by auto
  next
    case (Leave r)
    then show ?thesis using act same [OF mem.do_leave_part [OF refl]] by auto
  next
    case (Record t)
    then show ?thesis using act
      by (auto simp: access_node_def getSbagForAccess_eq bind_eq_Some_conv on_bags_def intro!: keeps_same)
  next
    case (Forget t)
    then show ?thesis using act by (auto simp: bind_eq_Some_conv on_bags_def intro!: keeps_same)
  next
    case (Query t ma)
    then show ?thesis using act by (auto simp: access_in_parallel_def bind_eq_Some_conv intro!: keeps_same)
  next
    case (Supply new)
    then show ?thesis using act by (auto intro!: keeps_same)
  qed
qed

subsection \<open>The invariant\<close>

definition mem_inv :: "'m cilksan \<Rightarrow> entries \<Rightarrow> access_log \<Rightarrow> bool" where
  "mem_inv S E L \<longleftrightarrow> Shadow_ok (cs_shadow S) \<and> Stack_wf (cs_sp_stack S) \<and>
     (\<forall>rd. recorded E L rd (Dict_view (sm_dict rd (cs_shadow S))))"

lemma mem_invD:
  assumes "mem_inv S E L"
  shows "Shadow_ok (cs_shadow S)" "Stack_wf (cs_sp_stack S)" "recorded E L rd (Dict_view (sm_dict rd (cs_shadow S)))"
  using assms by (simp_all add: mem_inv_def)

lemma mem_inv_occ:
  assumes "mem_inv S E L" "shadow_occ (cs_shadow S) (cs_shadow S')" "Stack_wf (cs_sp_stack S')"
  shows "mem_inv S' E L"
  using assms shadow_occD [OF assms(2)] by (simp add: mem_inv_def)

lemma recorded_grow:
  assumes "recorded E L rd V" "E t = None"
  shows "recorded (E(t \<mapsto> p)) (L(t \<mapsto> q)) rd V"
  unfolding recorded_def
proof (intro allI impI)
  fix a ma assume "V a = Some ma"
  then obtain t' where "E t' = Some (getFuncFromVerFunc ma, unat (getVersionFromVerFunc ma))" "covers L t' rd a"
    using assms(1) unfolding recorded_def by blast
  moreover from this have "t' \<noteq> t" using assms(2) by auto
  ultimately show "\<exists>t'. (E(t \<mapsto> p)) t' = Some (getFuncFromVerFunc ma, unat (getVersionFromVerFunc ma)) \<and>
      covers (L(t \<mapsto> q)) t' rd a" by (auto simp: covers_def)
qed

lemma accessed_reports: "accessed rd acc_id type addr s S S' rs \<Longrightarrow> tool_sim S E k fs D \<Longrightarrow>
    cs_reports S' = cs_reports S @ rs \<and> cs_sp_stack S' = cs_sp_stack S \<and> cs_call_stack S' = cs_call_stack S \<and>
    cs_lockset_empty S' = cs_lockset_empty S \<and> cs_start_new_loop S' = cs_start_new_loop S"
proof -
  assume a: "accessed rd acc_id type addr s S S' rs" and sim: "tool_sim S E k fs D"
  obtain x v S1 S0 sh' where h: "access_node S = Some (x, v, S1)" "S0 = S \<or> S0 = S1"
    "S' = add_reports rs (S0\<lparr>cs_shadow := sh'\<rparr>)" using a unfolding accessed_def by blast
  have "marks S S1" using access_marks [OF sim] h(1) by auto
  then have "S1 = S\<lparr>cs_frame_stack := cs_frame_stack S1\<rparr>" unfolding marks_def by blast
  then obtain F where "S1 = S\<lparr>cs_frame_stack := F\<rparr>" by blast
  then show ?thesis using h(2,3) by (auto simp: add_reports_def)
qed

text \<open>A checked access: the simulation holds again, and another look at the bag of the access gives the
  same function and version.\<close>

lemma accessed_sim:
  assumes a: "accessed rd acc_id type addr s S S' rs" and sim: "tool_sim S E k fs D"
    and ok: "Shadow_ok (cs_shadow S)"
  shows "\<exists>fs'. tool_sim S' E k fs' D"
    "\<exists>x v S2. access_node S' = Some (x, v, S2) \<and> x \<noteq> 0 \<and> sp_ds (cs_sp S') x \<noteq> None \<and>
       access_checked rd (cs_yes S) (MASetFn x v acc_id type) (in_chunk (Chunk addr s)) acc_id type
         (cs_shadow S) (cs_shadow S') rs"
proof -
  obtain x v S1 S0 sh' where h: "access_node S = Some (x, v, S1)" "S0 = S \<or> S0 = S1"
    "S' = add_reports rs (S0\<lparr>cs_shadow := sh'\<rparr>)"
    "access_checked rd (cs_yes S) (MASetFn x v acc_id type) (in_chunk (Chunk addr s)) acc_id type (cs_shadow S) sh' rs"
    using a unfolding accessed_def by blast
  obtain fs' where m: "access_node S1 = Some (x, v, S1)" "x \<noteq> 0" "sp_ds (cs_sp S) x \<noteq> None" "marks S S1"
    "tool_sim S1 E k fs' D" using access_marks [OF sim] h(1) by auto
  have o: "occ_ok (cs_shadow S)" using tool_okD(3) [OF tool_simD(2) [OF sim]] .
  have sp1: "cs_sp S1 = cs_sp S"
    using m(4) unfolding marks_def by (metis cilksan.ext_inject cilksan.surjective cilksan.update_convs(2))
  have s': "cs_frame_stack S' = cs_frame_stack S0" "cs_sp S' = cs_sp S0" "cs_shadow S' = sh'"
    by (simp_all add: h(3) add_reports_def)
  have o': "occ_ok (cs_shadow S')" using access_checked_ok(2) [OF h(4) ok o] s'(3) by simp
  obtain fs0 where S0: "tool_sim S0 E k fs0 D" using h(2) sim m(5) by blast
  show "\<exists>fs'. tool_sim S' E k fs' D" using tool_sim_cong [OF S0 s'(1,2) o'] by blast
  have "\<exists>S2. access_node S0 = Some (x, v, S2)" using h(1,2) m(1) by blast
  then have "\<exists>S2. access_node S' = Some (x, v, S2)"
    using s'(1,2) by (auto simp: access_node_def cs_ancestor_def bind_eq_Some_conv getSbagForAccess_eq)
  moreover have "sp_ds (cs_sp S') x \<noteq> None" using m(3) s'(2) h(2) sp1 by auto
  ultimately show "\<exists>x v S2. access_node S' = Some (x, v, S2) \<and> x \<noteq> 0 \<and> sp_ds (cs_sp S') x \<noteq> None \<and>
      access_checked rd (cs_yes S) (MASetFn x v acc_id type) (in_chunk (Chunk addr s)) acc_id type
        (cs_shadow S) (cs_shadow S') rs" using h(4) s'(3) m(2) by blast
qed

subsection \<open>Allocations and stack frames\<close>

lemma u_clear_kept:
  assumes "u_clear M T I = Some r"
  shows "pages_kept P0 T (fst r)"
proof (rule u_clear.raw_induct [where P = "\<lambda>M T I r. pages_kept P0 T (fst r)", OF _ assms])
  fix rec M T I r
  assume h: "\<And>M T I r. rec M T I = Some r \<Longrightarrow> pages_kept P0 T (fst (r :: ('a, 'b) Table_t \<times> Iter_t))"
    and e: "(do {
       (ok, I) \<leftarrow> u_nextNonNullPage T I;
       if \<not> ok then Some (T, I)
       else do {
         (ok, I) \<leftarrow> u_nextNonNullLine T I;
         if \<not> ok then Some (T, I)
         else do {
           L \<leftarrow> deref_line T (it_Line I);
           (L, A) \<leftarrow> Line_clear M L (it_Accessed I);
           T \<leftarrow> store_line T (it_Line I) L;
           let I = I\<lparr>it_Accessed := A\<rparr>;
           if Chunk_isEmpty A then Some (T, I) else rec M T I
         }
       }
     }) = Some r"
  show "pages_kept P0 T (fst r)"
    using e by (auto simp: bind_eq_Some_conv Let_def split: if_splits
        dest!: h store_line_kept [where ?P0.0 = P0] intro: pages_kept_trans)
qed

lemma occ_inv_cong:
  assumes "sd_Table D' = sd_Table D" "sd_TouchedWords D' = sd_TouchedWords D"
  shows "occ_inv D \<longleftrightarrow> occ_inv D'"
  unfolding occ_inv_def assms ..

lemma Dict_clear_occ:
  assumes D: "Dict_ok D" "occ_inv D" and r: "range48 addr s"
  shows "\<exists>D'. Dict_clear addr s D = Some D' \<and> Dict_ok D' \<and> occ_inv D' \<and>
    (\<forall>a. Dict_view D' a = (if in_chunk (Chunk addr s) a then None else Dict_view D a))"
proof -
  obtain D' where D': "Dict_clear addr s D = Some D'" "Dict_ok D'"
    "\<forall>a. Dict_view D' a = (if in_chunk (Chunk addr s) a then None else Dict_view D a)"
    using Dict_clear_ok [OF D(1) r] by blast
  then obtain I T I' where T: "u_clear MALineMethods (sd_Table D) I = Some (T, I')" "sd_Table D' = T"
    "sd_TouchedWords D' = sd_TouchedWords D"
    by (fastforce simp: Dict_clear_def bind_eq_Some_conv Let_def split: if_splits)
  have "pages_kept Page_new (sd_Table D) T" using u_clear_kept [OF T(1), of Page_new] by simp
  then have "dict_step D (D\<lparr>sd_Table := T\<rparr>)" using D'(2) T(2) by (auto simp: dict_step_def Dict_ok_def)
  then have "occ_inv (D\<lparr>sd_Table := T\<rparr>)" using dict_stepD(3) D by blast
  then have "occ_inv D'" by (rule occ_inv_cong [THEN iffD1, rotated 2]) (simp_all add: T(2,3))
  then show ?thesis using D' by blast
qed

text \<open>Handlers that forget accesses, record allocations, and enter and leave the frames of the stack.\<close>

datatype mem_event =
  ClearShadow u64 u64
| ClearAlloc u64 u64
| RecordAlloc u64 u64 csi_id_t
| PushFrame u64 u64
| PopFrame

fun mem_event_act :: "mem_event \<Rightarrow> 'm cilksan \<Rightarrow> 'm cilksan option" where
  "mem_event_act (ClearShadow start s) S = clear_shadow_memory start s S"
| "mem_event_act (ClearAlloc start s) S = clear_alloc start s S"
| "mem_event_act (RecordAlloc start s i) S = record_alloc start s i S"
| "mem_event_act (PushFrame bp sp) S = Some (push_stack_frame bp sp S)"
| "mem_event_act PopFrame S = pop_stack_frame S"

text \<open>What they rely on: addresses below \<open>2 ^ 48\<close>, and frames that are popped after they were pushed, with
  the stack growing downwards.\<close>

definition range_ok :: "u64 \<Rightarrow> u64 \<Rightarrow> bool" where "range_ok start s \<longleftrightarrow> s = 0 \<or> range48 start s"

fun mem_event_ok :: "mem_event \<Rightarrow> 'm cilksan \<Rightarrow> bool" where
  "mem_event_ok (ClearShadow start s) S \<longleftrightarrow> range_ok start s"
| "mem_event_ok (ClearAlloc start s) S \<longleftrightarrow> range_ok start s"
| "mem_event_ok (RecordAlloc start s i) S \<longleftrightarrow> range_ok start s"
| "mem_event_ok (PushFrame bp sp) S \<longleftrightarrow>
     Stack_room (cs_sp_stack S) \<and> Stack_room (Stack_push_back 0 bp (cs_sp_stack S))"
| "mem_event_ok PopFrame S \<longleftrightarrow>
     (case rev (Stack_contents (cs_sp_stack S)) of
        low # high # _ # _ \<Rightarrow> low \<le> high \<and> range_ok low (high - low)
      | _ \<Rightarrow> False)"

text \<open>The frames and the reports stay, and nothing is recorded in the shadow memories.\<close>

definition mem_quiet :: "'m cilksan \<Rightarrow> 'm cilksan \<Rightarrow> bool" where
  "mem_quiet S S' \<longleftrightarrow> cs_sp S' = cs_sp S \<and> cs_reports S' = cs_reports S \<and>
     (Shadow_ok (cs_shadow S) \<longrightarrow> occ_ok (cs_shadow S) \<longrightarrow> Shadow_ok (cs_shadow S') \<and> occ_ok (cs_shadow S') \<and>
        (\<forall>rd a. Dict_view (sm_dict rd (cs_shadow S')) a \<in> {None, Dict_view (sm_dict rd (cs_shadow S)) a}))"

lemma mem_quiet_trans: "mem_quiet S S1 \<Longrightarrow> mem_quiet S1 S2 \<Longrightarrow> mem_quiet S S2"
  unfolding mem_quiet_def by (metis insert_iff singletonD)

lemma clear_shadow_quiet:
  assumes "Shadow_ok (cs_shadow S)" "occ_ok (cs_shadow S)" "range_ok start s"
  shows "\<exists>S'. clear_shadow_memory start s S = Some S' \<and> mem_quiet S S' \<and> cs_frame_stack S' = cs_frame_stack S \<and>
    cs_sp_stack S' = cs_sp_stack S"
proof (cases "s = 0")
  case True
  then show ?thesis by (simp add: clear_shadow_memory_def mem_quiet_def)
next
  case False
  then have r: "range48 start s" using assms(3) by (simp add: range_ok_def)
  let ?R = "sm_Reads (cs_shadow S)" and ?W = "sm_Writes (cs_shadow S)"
  have "Dict_ok ?R" "occ_inv ?R" "Dict_ok ?W" "occ_inv ?W" using assms(1,2) by (simp_all add: Shadow_ok_def occ_ok_def)
  with Dict_clear_occ [OF _ _ r, of ?R] Dict_clear_occ [OF _ _ r, of ?W] obtain R W where
    RW: "Dict_clear start s ?R = Some R" "Dict_ok R" "occ_inv R" "Dict_clear start s ?W = Some W" "Dict_ok W" "occ_inv W"
    "\<forall>a. Dict_view R a = (if in_chunk (Chunk start s) a then None else Dict_view ?R a)"
    "\<forall>a. Dict_view W a = (if in_chunk (Chunk start s) a then None else Dict_view ?W a)" by auto
  then have "mem_quiet S (S\<lparr>cs_shadow := (cs_shadow S)\<lparr>sm_Reads := R, sm_Writes := W\<rparr>\<rparr>)"
    unfolding mem_quiet_def by (simp add: Shadow_ok_def occ_ok_def sm_dict_def)
  then show ?thesis using RW(1,4) False
    by (simp add: clear_shadow_memory_def on_shadow_def Shadow_clear_def)
qed

lemma clear_alloc_quiet:
  assumes "Shadow_ok (cs_shadow S)" "range_ok start s"
  shows "\<exists>S'. clear_alloc start s S = Some S' \<and> mem_quiet S S' \<and> cs_frame_stack S' = cs_frame_stack S \<and>
    cs_sp_stack S' = cs_sp_stack S"
proof (cases "s = 0")
  case True
  then show ?thesis by (simp add: clear_alloc_def mem_quiet_def)
next
  case False
  then have r: "range48 start s" using assms(2) by (simp add: range_ok_def)
  obtain A where "Dict_clear start s (sm_Allocs (cs_shadow S)) = Some A" "Dict_ok A"
    using Dict_clear_ok [OF _ r] assms(1) unfolding Shadow_ok_def by blast
  then show ?thesis using False
    by (auto simp: clear_alloc_def on_shadow_def Shadow_clear_alloc_def mem_quiet_def Shadow_ok_def occ_ok_def sm_dict_def)
qed

lemma mem_event_step:
  assumes sim: "tool_sim S E k fs D" and inv: "mem_inv S E L" and ok: "mem_event_ok e S"
  shows "\<exists>S' fs'. mem_event_act e S = Some S' \<and> tool_sim S' E k fs' D \<and> mem_inv S' E L \<and> cs_reports S' = cs_reports S"
proof -
  note I = mem_invD [OF inv]
  have o: "occ_ok (cs_shadow S)" using tool_okD(3) [OF tool_simD(2) [OF sim]] .
  have quiet: "mem_inv S' E L \<and> occ_ok (cs_shadow S')" if q: "mem_quiet S S'" and st: "Stack_wf (cs_sp_stack S')" for S'
  proof -
    have v: "Dict_view (sm_dict rd (cs_shadow S')) a \<in> {None, Dict_view (sm_dict rd (cs_shadow S)) a}" for rd a
      using q I(1) o unfolding mem_quiet_def by blast
    have "recorded E L rd (Dict_view (sm_dict rd (cs_shadow S')))" for rd
      using I(3) [of rd] v [of rd] unfolding recorded_def by (metis insertE option.distinct(1) singletonD)
    then show ?thesis using q I(1) o st unfolding mem_quiet_def mem_inv_def by blast
  qed
  have fin: ?thesis if "mem_event_act e S = Some S'" "mem_quiet S S'" "Stack_wf (cs_sp_stack S')"
    "cs_frame_stack S' = cs_frame_stack S" for S'
  proof -
    have "tool_sim S' E k fs D" by (rule tool_sim_cong [OF sim that(4)]) (use that quiet in \<open>auto simp: mem_quiet_def\<close>)
    then show ?thesis using that quiet by (auto simp: mem_quiet_def)
  qed
  show ?thesis
  proof (cases e)
    case (ClearShadow start s)
    then show ?thesis using clear_shadow_quiet [OF I(1) o, of start s] ok fin I(2) by auto
  next
    case (ClearAlloc start s)
    then show ?thesis using clear_alloc_quiet [OF I(1), of start s] ok fin I(2) by auto
  next
    case (PushFrame bp sp)
    have "Stack_wf (Stack_push_back 0 sp (Stack_push_back 0 bp (cs_sp_stack S)))"
      using I(2) ok PushFrame by (simp add: Stack_push_back_def Stack_set_head_wf Stack_push_contents)
    then show ?thesis using PushFrame fin [of "push_stack_frame bp sp S"]
      by (simp add: push_stack_frame_def mem_quiet_def)
  next
    case PopFrame
    let ?s = "cs_sp_stack S"
    obtain low high y ys where c: "rev (Stack_contents ?s) = low # high # y # ys" and
      r: "low \<le> high" "range_ok low (high - low)"
      using ok PopFrame by (auto split: list.splits)
    then have c': "Stack_contents ?s = rev ys @ [y, high, low]" by (simp add: rev_eq_Cons_iff)
    let ?s1 = "Stack_pop 0 ?s" let ?s2 = "Stack_pop 0 ?s1"
    have h: "0 < unat (stk_head ?s)" using length_Stack_contents [OF I(2)] c' by simp
    note p1 = Stack_pop_wf_contents [OF I(2) h, of 0]
    have c1: "Stack_contents ?s1 = rev ys @ [y, high]" using p1(2) c' by (simp add: butlast_append)
    have "0 < unat (stk_head ?s1)" using length_Stack_contents [OF p1(1)] c1 by simp
    note p2 = Stack_pop_wf_contents [OF p1(1) this, of 0]
    let ?S2 = "S\<lparr>cs_sp_stack := ?s2\<rparr>"
    obtain S3 where S3: "clear_shadow_memory low (high - low) ?S2 = Some S3" "mem_quiet ?S2 S3"
      "cs_frame_stack S3 = cs_frame_stack ?S2" "cs_sp_stack S3 = cs_sp_stack ?S2"
      using clear_shadow_quiet [of ?S2] I(1) o r(2) by auto
    have "Shadow_ok (cs_shadow S3)" using S3(2) I(1) o by (simp add: mem_quiet_def)
    from clear_alloc_quiet [OF this r(2)] obtain S4 where S4: "clear_alloc low (high - low) S3 = Some S4" "mem_quiet S3 S4"
      "cs_frame_stack S4 = cs_frame_stack S3" "cs_sp_stack S4 = cs_sp_stack S3" by blast
    have "mem_quiet S ?S2" by (simp add: mem_quiet_def)
    then have q: "mem_quiet S S4" using mem_quiet_trans S3(2) S4(2) by blast
    have "pop_stack_frame S = Some S4"
      using Stack_back_last [OF I(2)] Stack_back_last [OF p1(1)] c' c1 r(1) S3(1) S4(1)
      by (simp add: pop_stack_frame_def Let_def)
    then show ?thesis using PopFrame fin [OF _ q] p2(1) S3(3,4) S4(3,4) by simp
  next
    case (RecordAlloc start s i)
    obtain x v S1 fs' where A: "access_node S = Some (x, v, S1)" "x \<noteq> 0" "sp_ds (cs_sp S) x \<noteq> None"
      "marks S S1" "tool_sim S1 E k fs' D" using access_marks [OF sim] by blast
    note m = marksD [OF A(4)]
    show ?thesis
    proof (cases "s = 0")
      case True
      then show ?thesis using RecordAlloc fin [of S] I(2) by (simp add: record_alloc_def mem_quiet_def)
    next
      case False
      have "range48 start s" using ok RecordAlloc False by (auto simp: range_ok_def)
      moreover have "ptr48 x" using sim_node48 [OF sim A(3)] .
      ultimately obtain A' where A': "Dict_set start s x v i ALLOC (sm_Allocs (cs_shadow S)) = Some A'" "Dict_ok A'"
        using Dict_set_ok [OF _ _ A(2), of "sm_Allocs (cs_shadow S)" start s v i ALLOC] I(1)
        by (auto simp: Shadow_ok_def)
      let ?S' = "S1\<lparr>cs_shadow := (cs_shadow S)\<lparr>sm_Allocs := A'\<rparr>\<rparr>"
      have a: "mem_event_act e S = Some ?S'"
        using RecordAlloc A(1) A'(1) m(1) False by (simp add: record_alloc_def on_shadow_def Shadow_record_alloc_def)
      have f: "cs_sp S1 = cs_sp S" "cs_sp_stack S1 = cs_sp_stack S" by (subst m(3); simp)+
      have q: "mem_quiet S ?S'" using f m(4) A'(2)
        by (simp add: mem_quiet_def Shadow_ok_def occ_ok_def sm_dict_def)
      then have "mem_inv ?S' E L" "occ_ok (cs_shadow ?S')" using quiet [OF q] f(2) I(2) by simp_all
      moreover from this have "tool_sim ?S' E k fs' D" by (intro tool_sim_cong [OF A(5)]) simp_all
      ultimately show ?thesis using a q by (auto simp: mem_quiet_def)
    qed
  qed
qed

subsection \<open>Runs\<close>

text \<open>
  A run of the program with its accesses.  What an access records is a new number \<open>t\<close> with a reference to
  the function node, and the log says what access it was; an access that records nothing needs no number.
  A number may be dropped when every byte shows an access that is still there without it.
\<close>

fun control_ok :: "action \<Rightarrow> 'm cilksan \<Rightarrow> entries \<Rightarrow> access_log \<Rightarrow> bool" where
  "control_ok (Record t) S E L \<longleftrightarrow> False"
| "control_ok (Forget t) S E L \<longleftrightarrow> (\<forall>rd. recorded (E(t := None)) L rd (Dict_view (sm_dict rd (cs_shadow S))))"
| "control_ok _ S E L \<longleftrightarrow> True"

inductive mem_reach ::
  "'m user_code \<Rightarrow> nat \<Rightarrow> 'm cilksan \<Rightarrow> entries \<Rightarrow> access_log \<Rightarrow> nat dframe list \<Rightarrow> bool"
  for U :: "'m user_code" where
  mem_start: "fresh_supply new \<Longrightarrow> cilksan_init new R g stats atomics low high = Some S \<Longrightarrow>
    mem_reach U 0 S no_entries Map.empty start_dag"
| mem_control: "mem_reach U k S E L D \<Longrightarrow> step_ok a k S E D \<Longrightarrow> control_ok a S E L \<Longrightarrow>
    tool_act U a S E = Some (S', E') \<Longrightarrow>
    mem_reach U (k + rank_cost a D) S' E' L (d_step (event_of a (cs_start_new_loop S)) D)"
| mem_other: "mem_reach U k S E L D \<Longrightarrow> mem_event_ok e S \<Longrightarrow> mem_event_act e S = Some S' \<Longrightarrow> mem_reach U k S' E L D"
| mem_unrecorded: "mem_reach U k S E L D \<Longrightarrow> access_ok addr s alignment \<Longrightarrow>
    do_access rd type acc_id addr s alignment S = Some S' \<Longrightarrow>
    \<forall>rd. Dict_view (sm_dict rd (cs_shadow S')) = Dict_view (sm_dict rd (cs_shadow S)) \<Longrightarrow> mem_reach U k S' E L D"
| mem_access: "mem_reach U k S E L D \<Longrightarrow> access_ok addr s alignment \<Longrightarrow> E t = None \<Longrightarrow>
    do_access rd type acc_id addr s alignment S = Some S1 \<Longrightarrow> tool_act U (Record t) S1 E = Some (S', E') \<Longrightarrow>
    mem_reach U k S' E' (L(t \<mapsto> (rd, addr, s))) (d_step (E_access t) D)"

definition mem_sim :: "nat \<Rightarrow> 'm cilksan \<Rightarrow> entries \<Rightarrow> access_log \<Rightarrow> nat dframe list \<Rightarrow> bool" where
  "mem_sim k S E L D \<longleftrightarrow> (\<exists>fs. tool_sim S E k fs D) \<and> mem_inv S E L \<and> k < 2 ^ 64 - 1"

lemma Dict_new_view: "Dict_view Dict_new a = None"
  by (simp add: Dict_view_def tb_view_def tb_line_def deref_line_def Dict_new_def)

lemma init_mem_inv:
  assumes "cilksan_init new R g stats atomics low high = Some S"
  shows "mem_inv S no_entries Map.empty"
proof -
  have p: "cs_shadow S = Shadow_new" "cs_sp_stack S = Stack_new 0"
    using assms by (auto simp: cilksan_init_def bind_eq_Some_conv on_frame_def cs_put_frame_def)
  have "Shadow_ok Shadow_new" using Dict_new_ok by (simp add: Shadow_ok_def Shadow_new_def)
  then show ?thesis using p Stack_new_wf [of 0]
    by (simp add: mem_inv_def recorded_def sm_dict_def Shadow_new_def Dict_new_view)
qed

lemma act_entries:
  "tool_act U a S E = Some (S', E') \<Longrightarrow>
    E' = E \<or> (\<exists>t p. a = Record t \<and> E' = E(t \<mapsto> p)) \<or> (\<exists>t. a = Forget t \<and> E' = E(t := None))"
  by (cases a) (auto simp: bind_eq_Some_conv)

lemma mem_sim_control:
  assumes s: "mem_sim k S E L D" and ok: "step_ok a k S E D" "control_ok a S E L"
  shows "\<exists>S' E'. tool_act U a S E = Some (S', E') \<and>
    mem_sim (k + rank_cost a D) S' E' L (d_step (event_of a (cs_start_new_loop S)) D)"
proof -
  obtain fs where sim: "tool_sim S E k fs D" and inv: "mem_inv S E L" using s unfolding mem_sim_def by blast
  obtain S' E' fs' where act: "tool_act U a S E = Some (S', E')" and
    sim': "tool_sim S' E' (k + rank_cost a D) fs' (d_step (event_of a (cs_start_new_loop S)) D)"
    using tool_step [OF sim ok(1)] unfolding steps_to_def by blast
  have K: "keeps S S'" by (rule act_keeps [OF sim act])
  have i1: "mem_inv S' E L" by (rule mem_inv_occ [OF inv]) (use K mem_invD(2) [OF inv] in \<open>simp_all add: keeps_def\<close>)
  have v: "Dict_view (sm_dict rd (cs_shadow S')) = Dict_view (sm_dict rd (cs_shadow S))" for rd
    using K shadow_occD(2) by (simp add: keeps_def)
  have "mem_inv S' E' L"
    using act_entries [OF act]
  proof (elim disjE exE conjE)
    fix t assume f: "a = Forget t" "E' = E(t := None)"
    then have "recorded E' L rd (Dict_view (sm_dict rd (cs_shadow S')))" for rd
      using ok(2) by (simp add: v)
    then show ?thesis using mem_invD(1,2) [OF i1] by (simp add: mem_inv_def)
  qed (use i1 ok(2) in simp_all)
  then show ?thesis using act sim' ok(1) unfolding mem_sim_def step_ok_def by blast
qed

text \<open>An access: what the handler does, and recording it.\<close>

definition aside :: "u64 \<Rightarrow> 'm cilksan \<Rightarrow> 'm cilksan \<Rightarrow> bool" where
  "aside addr S S' \<longleftrightarrow> sp_lowered addr (cs_sp_stack S) (cs_sp_stack S') \<and> cs_call_stack S' = cs_call_stack S \<and>
     cs_lockset_empty S' = cs_lockset_empty S \<and> cs_start_new_loop S' = cs_start_new_loop S"

lemma mem_sim_do_access:
  assumes s: "mem_sim k S E L D" and ok: "access_ok addr s alignment"
  shows "\<exists>S1. do_access rd type acc_id addr s alignment S = Some S1 \<and> (\<exists>fs. tool_sim S1 E k fs D) \<and>
    Shadow_ok (cs_shadow S1) \<and> Stack_wf (cs_sp_stack S1) \<and> aside addr S S1 \<and>
    Dict_view (sm_dict (\<not> rd) (cs_shadow S1)) = Dict_view (sm_dict (\<not> rd) (cs_shadow S)) \<and>
    (Dict_view (sm_dict rd (cs_shadow S1)) = Dict_view (sm_dict rd (cs_shadow S)) \<or>
     (\<exists>x v S2 par. access_node S1 = Some (x, v, S2) \<and> x \<noteq> 0 \<and> sp_ds (cs_sp S1) x \<noteq> None \<and>
        updates_on par (MASetFn x v acc_id type) (in_chunk (Chunk addr s))
          (Dict_view (sm_dict rd (cs_shadow S))) (Dict_view (sm_dict rd (cs_shadow S1)))))"
proof -
  obtain fs where sim: "tool_sim S E k fs D" and inv: "mem_inv S E L" using s unfolding mem_sim_def by blast
  note I = mem_invD [OF inv]
  obtain S0 S1 where A: "same_tool S S0" "shadow_occ (cs_shadow S) (cs_shadow S0)" "occ_ok (cs_shadow S0)"
    "Stack_wf (cs_sp_stack S0)" "do_access rd type acc_id addr s alignment S = Some S1"
    "if access_skips rd addr s alignment (cs_shadow S) then S1 = S0
     else s \<noteq> 0 \<and> (\<exists>rs. accessed rd acc_id type addr s S0 S1 rs)" "sp_lowered addr (cs_sp_stack S) (cs_sp_stack S0)"
    using do_access_ok [OF sim I(1,2) ok I(3)] by blast
  have as0: "aside addr S S0" using A(1,7) by (simp add: aside_def same_tool_def)
  have sim0: "tool_sim S0 E k fs D"
    by (rule tool_sim_cong [OF sim]) (use A(1,3) in \<open>simp_all add: same_tool_def\<close>)
  have sh0: "Shadow_ok (cs_shadow S0)" using shadow_occD(1) [OF A(2) I(1)] .
  have v0: "Dict_view (sm_dict r (cs_shadow S0)) = Dict_view (sm_dict r (cs_shadow S))" for r
    using shadow_occD(2) [OF A(2)] .
  show ?thesis
  proof (cases "access_skips rd addr s alignment (cs_shadow S)")
    case True
    then show ?thesis using A(4-6) sim0 sh0 v0 as0 by auto
  next
    case False
    then obtain rs where a: "accessed rd acc_id type addr s S0 S1 rs" using A(6) by auto
    note B = accessed_sim [OF a sim0 sh0]
    obtain x v S2 where x: "access_node S1 = Some (x, v, S2)" "x \<noteq> 0" "sp_ds (cs_sp S1) x \<noteq> None"
      "access_checked rd (cs_yes S0) (MASetFn x v acc_id type) (in_chunk (Chunk addr s)) acc_id type
         (cs_shadow S0) (cs_shadow S1) rs" using B(2) by blast
    note C = access_checked_ok [OF x(4) sh0]
    have "aside addr S S1" using as0 accessed_reports [OF a sim0] by (simp add: aside_def)
    then show ?thesis using A(4,5) B(1) C(1,3,4) v0 x(1-3) accessed_reports [OF a sim0] by auto
  qed
qed

lemma mem_sim_unrecorded:
  assumes s: "mem_sim k S E L D" and ok: "access_ok addr s alignment"
    and a: "do_access rd type acc_id addr s alignment S = Some S'"
    and v: "\<forall>rd. Dict_view (sm_dict rd (cs_shadow S')) = Dict_view (sm_dict rd (cs_shadow S))"
  shows "mem_sim k S' E L D"
  using mem_sim_do_access [OF s ok, of rd type acc_id] s a v by (auto simp: mem_sim_def mem_inv_def)

lemma mem_sim_access:
  assumes s: "mem_sim k S E L D" and ok: "access_ok addr s alignment" and t: "E t = None"
    and a: "do_access rd type acc_id addr s alignment S = Some S1" and r: "tool_act U (Record t) S1 E = Some (S', E')"
  shows "mem_sim k S' E' (L(t \<mapsto> (rd, addr, s))) (d_step (E_access t) D)"
proof -
  obtain fs where sim: "tool_sim S1 E k fs D" and sh: "Shadow_ok (cs_shadow S1)" and st: "Stack_wf (cs_sp_stack S1)" and
    o: "Dict_view (sm_dict (\<not> rd) (cs_shadow S1)) = Dict_view (sm_dict (\<not> rd) (cs_shadow S))" and
    u: "Dict_view (sm_dict rd (cs_shadow S1)) = Dict_view (sm_dict rd (cs_shadow S)) \<or>
     (\<exists>x v S2 par. access_node S1 = Some (x, v, S2) \<and> x \<noteq> 0 \<and> sp_ds (cs_sp S1) x \<noteq> None \<and>
        updates_on par (MASetFn x v acc_id type) (in_chunk (Chunk addr s))
          (Dict_view (sm_dict rd (cs_shadow S))) (Dict_view (sm_dict rd (cs_shadow S1))))"
    using mem_sim_do_access [OF s ok, of rd type acc_id] a by auto
  have rec0: "recorded E L r (Dict_view (sm_dict r (cs_shadow S)))" for r
    using s mem_invD(3) unfolding mem_sim_def by blast
  obtain x v S2 where x: "access_node S1 = Some (x, v, S2)" "E' = E(t \<mapsto> (x, unat v))"
    using r by (auto simp: bind_eq_Some_conv)
  have k: "k < 2 ^ 64 - 1" using s by (simp add: mem_sim_def)
  have "D \<noteq> []" using sim_frames [OF tool_simD(3) [OF sim]] sim_ne [OF sim] by auto
  then have "step_ok (Record t) k S1 E D" using t k by (cases D) (simp_all add: step_ok_def)
  from tool_step [OF sim this] r have sim': "\<exists>fs'. tool_sim S' E' k fs' (d_step (E_access t) D)"
    unfolding steps_to_def by auto
  have K: "keeps S1 S'" by (rule act_keeps [OF sim r])
  have v': "Dict_view (sm_dict r (cs_shadow S')) = Dict_view (sm_dict r (cs_shadow S1))" for r
    using K shadow_occD(2) by (simp add: keeps_def)
  let ?L = "L(t \<mapsto> (rd, addr, s))"
  have "recorded E' ?L rd (Dict_view (sm_dict rd (cs_shadow S1)))"
    using u
  proof (elim disjE exE conjE)
    assume "Dict_view (sm_dict rd (cs_shadow S1)) = Dict_view (sm_dict rd (cs_shadow S))"
    then show ?thesis using recorded_grow [OF rec0 t] x(2) by simp
  next
    fix y w S3 par
    assume y: "access_node S1 = Some (y, w, S3)" "y \<noteq> 0" "sp_ds (cs_sp S1) y \<noteq> None"
      and up: "updates_on par (MASetFn y w acc_id type) (in_chunk (Chunk addr s))
        (Dict_view (sm_dict rd (cs_shadow S))) (Dict_view (sm_dict rd (cs_shadow S1)))"
    have "y = x" "w = v" "ptr48 x" using x(1) y sim_node48 [OF sim] by auto
    then show ?thesis using recorded_updates [OF rec0 up _ y(2) t] x(2) by simp
  qed
  moreover have "recorded E' ?L (\<not> rd) (Dict_view (sm_dict (\<not> rd) (cs_shadow S1)))"
    using recorded_grow [OF rec0 t] x(2) o by simp
  ultimately have "recorded E' ?L r (Dict_view (sm_dict r (cs_shadow S')))" for r
    by (cases "r = rd") (auto simp: v')
  then have "mem_inv S' E' ?L"
    using K sh st shadow_occD(1) by (auto simp: mem_inv_def keeps_def)
  then show ?thesis using sim' k by (simp add: mem_sim_def)
qed

lemma mem_reach_sim: "mem_reach U k S E L D \<Longrightarrow> mem_sim k S E L D"
proof (induction rule: mem_reach.induct)
  case (mem_start new R g stats atomics low high S)
  then show ?case using init_sim init_mem_inv by (fastforce simp: mem_sim_def)
next
  case (mem_control k S E L D a S' E')
  from mem_sim_control [OF mem_control.IH mem_control.hyps(2,3), of U] show ?case
    using mem_control.hyps(4) by auto
next
  case (mem_other k S E L D e S')
  then show ?case using mem_event_step unfolding mem_sim_def by (metis option.inject)
next
  case (mem_unrecorded k S E L D addr s alignment rd type acc_id S')
  then show ?case using mem_sim_unrecorded by blast
next
  case (mem_access k S E L D addr s alignment S1 t rd type acc_id S' E')
  then show ?case using mem_sim_access by blast
qed

end
