(* ===== verification/SPOrder.thy ===== *)
theory SPOrder
  imports SPDag
begin

text \<open>
  More on the dag of a program: the dag of some of its accesses is that of all of them, restricted; an
  access is never lost; and an access that is made while nothing is outstanding precedes all that follows.
\<close>

subsection \<open>Restricting a dag to some of the accesses\<close>

definition d_res :: "'x set \<Rightarrow> 'x dframe \<Rightarrow> 'x dframe" where
  "d_res X d = d\<lparr>d_cur := d_cur d \<inter> X, d_pend := map (map_option (\<lambda>P. P \<inter> X)) (d_pend d),
     d_iters := d_iters d \<inter> X\<rparr>"

lemma d_res_simps [simp]:
  "d_cur (d_res X d) = d_cur d \<inter> X" "length (d_pend (d_res X d)) = length (d_pend d)"
  "d_loop (d_res X d) = d_loop d" "d_detach (d_res X d) = d_detach d" "d_iters (d_res X d) = d_iters d \<inter> X"
  "d_synced (d_res X d) = d_synced d"
  by (simp_all add: d_res_def)

lemma d_res_none: "(\<forall>P \<in> set (d_pend (d_res X d)). P = None) \<longleftrightarrow> (\<forall>P \<in> set (d_pend d). P = None)"
  by (simp add: d_res_def)

lemma d_res_guard: "d_guard e (map (d_res X) Z) \<longleftrightarrow> d_guard e Z"
proof (cases Z)
  case Nil
  then show ?thesis by (cases e) simp_all
next
  case (Cons c ds)
  then show ?thesis by (cases e; cases ds) (auto simp: d_res_none, (auto simp: d_res_def)+)
qed

lemma pset_res: "pset (map_option (\<lambda>P. P \<inter> X) P) = pset P \<inter> X"
  by (cases P) auto

lemma d_res_new: "d_new n l d (d_res X p) = d_res X (d_new n l d p)"
  by (simp add: d_new_def d_res_def)

lemma d_res_all: "d_all (d_res X d) = d_all d \<inter> X"
  by (auto simp: d_all_def d_res_def pset_res)

lemma d_res_join:
  assumes "r < length (d_pend d)"
  shows "d_join r (Y \<inter> X) (d_res X d) = d_res X (d_join r Y d)"
  using assms by (simp add: d_join_def d_res_def map_update pset_res Int_Un_distrib2 Un_commute)

lemma d_res_sync: "r < length (d_pend d) \<Longrightarrow> d_sync r (d_res X d) = d_res X (d_sync r d)"
  by (simp add: d_sync_def d_res_def map_update pset_res Int_Un_distrib2)

lemma d_res_next: "d_pend d \<noteq> [] \<Longrightarrow> d_next (C \<inter> X) (d_res X d) = d_res X (d_next C d)"
  by (simp add: d_next_def d_res_def map_update pset_res Int_Un_distrib2)

lemma d_res_cur: "(d_res X d)\<lparr>d_cur := C \<inter> X\<rparr> = d_res X (d\<lparr>d_cur := C\<rparr>)"
  by (simp add: d_res_def)

text \<open>A loop has the sync region of its iterations, and only a loop has iterations.\<close>

definition loops_ok :: "'x dframe list \<Rightarrow> bool" where
  "loops_ok Z \<longleftrightarrow> (\<forall>d \<in> set Z. if d_loop d then d_pend d \<noteq> [] else d_iters d = {})"

text \<open>The events of control flow.\<close>

fun moves :: "'x event \<Rightarrow> bool" where
  "moves (E_access x) = False"
| "moves (E_forget x) = False"
| "moves _ = True"

lemma d_res_step:
  assumes "d_guard e Z" "moves e" "loops_ok Z"
  shows "d_step e (map (d_res X) Z) = map (d_res X) (d_step e Z)"
proof (cases Z)
  case Nil
  then show ?thesis using assms by (cases e) simp_all
next
  case (Cons c ds)
  show ?thesis
  proof (cases e)
    case (E_leave r)
    then show ?thesis using assms Cons
      by (cases ds) (auto simp: d_res_all d_res_join d_res_cur)
  next
    case (E_loop_end r)
    then show ?thesis using assms Cons
      by (cases ds) (auto simp: d_res_all d_res_join)
  next
    case (E_sync r)
    then show ?thesis using assms Cons d_res_sync [of r c X] by simp
  next
    case E_iter_end
    then show ?thesis using assms Cons by (cases ds) (auto simp: d_res_next loops_ok_def)
  qed (use assms Cons in \<open>auto simp: d_res_new\<close>)
qed

subsection \<open>All accesses of a dag\<close>

definition d_tokens :: "'x dframe list \<Rightarrow> 'x set" where
  "d_tokens Z = (\<Union>d \<in> set Z. d_all d)"

lemma d_tokens_simps [simp]: "d_tokens [] = {}" "d_tokens (d # Z) = d_all d \<union> d_tokens Z"
  by (simp_all add: d_tokens_def)

lemma d_res_cong: "d_all d \<inter> X = d_all d \<inter> Y \<Longrightarrow> d_res X d = d_res Y d"
proof -
  assume a: "d_all d \<inter> X = d_all d \<inter> Y"
  have "map_option (\<lambda>P. P \<inter> X) P = map_option (\<lambda>P. P \<inter> Y) P" if "P \<in> set (d_pend d)" for P
  proof -
    have "pset P \<subseteq> d_all d" using that by (auto simp: d_all_def)
    then have "pset P \<inter> X = pset P \<inter> Y" using a by blast
    then show ?thesis by (cases P) simp_all
  qed
  moreover have "d_cur d \<inter> X = d_cur d \<inter> Y" "d_iters d \<inter> X = d_iters d \<inter> Y" using a by (auto simp: d_all_def)
  ultimately show ?thesis by (simp add: d_res_def)
qed

lemma d_res_access:
  assumes "x \<notin> d_tokens Z"
  shows "d_step (E_access x) (map (d_res X) Z) = map (d_res (insert x X)) (d_step (E_access x) Z)"
proof -
  have c: "d_res (insert x X) d = d_res X d" if "d \<in> set Z" for d
    by (rule d_res_cong) (use assms that in \<open>auto simp: d_tokens_def\<close>)
  show ?thesis
  proof (cases Z)
    case (Cons d ds)
    have "d_res (insert x X) (d\<lparr>d_cur := insert x (d_cur d)\<rparr>) = (d_res (insert x X) d)\<lparr>d_cur := insert x (d_cur d \<inter> X)\<rparr>"
      by (auto simp: d_res_def)
    then show ?thesis using Cons c by simp
  qed simp
qed

lemma d_res_skip: "x \<notin> X \<Longrightarrow> map (d_res X) (d_step (E_access x) Z) = map (d_res X) Z"
  by (cases Z) (auto simp: d_res_def)

lemma d_res_forget: "map (d_drop x) (map (d_res X) Z) = map (d_res (X - {x})) Z"
  by (auto simp: d_drop_def d_res_def option.map_comp comp_def Int_Diff)

text \<open>The strands of the frames on the stack precede each other.\<close>

fun chain :: "'x dframe list \<Rightarrow> bool" where
  "chain (c # p # ds) \<longleftrightarrow> d_cur p \<subseteq> d_cur c \<and> chain (p # ds)"
| "chain _ \<longleftrightarrow> True"

definition dag_ok :: "'x set \<Rightarrow> 'x dframe list \<Rightarrow> bool" where
  "dag_ok T Z \<longleftrightarrow> chain Z \<and> loops_ok Z \<and> d_tokens Z = T \<and> Z \<noteq> []"

lemma pends_nth: "(\<Union>P \<in> set Ps. pset P) = (\<Union>i < length Ps. pset (Ps ! i))"
  by (auto simp: in_set_conv_nth) (metis nth_mem)

lemma pends_join:
  assumes "r < length (d_pend d)"
  shows "(\<Union>P \<in> set (d_pend (d_join r Y d)). pset P) = (\<Union>P \<in> set (d_pend d). pset P) \<union> Y"
proof -
  have "pset (d_pend (d_join r Y d) ! i) = (if i = r then pset (d_pend d ! i) \<union> Y else pset (d_pend d ! i))" for i
    using assms by (simp add: d_join_def)
  moreover have "length (d_pend (d_join r Y d)) = length (d_pend d)" by (simp add: d_join_def)
  ultimately show ?thesis unfolding pends_nth using assms by (auto split: if_splits)
qed

lemma d_all_join: "r < length (d_pend d) \<Longrightarrow> d_all (d_join r Y d) = d_all d \<union> Y"
  unfolding d_all_def pends_join by (auto simp: d_join_def)

lemma d_all_nth: "d_all d = d_cur d \<union> d_iters d \<union> (\<Union>i < length (d_pend d). pset (d_pend d ! i))"
  by (simp add: d_all_def pends_nth)

lemma pend_reset:
  assumes "r < length Ps"
  shows "(\<Union>P \<in> set (Ps[r := None]). pset P) \<union> pset (Ps ! r) = (\<Union>P \<in> set Ps. pset P)"
  using assms by (auto simp: pends_nth nth_list_update split: if_splits)

lemma d_all_sync: "r < length (d_pend d) \<Longrightarrow> d_all (d_sync r d) = d_all d"
  using pend_reset [of r "d_pend d"] unfolding d_all_def d_sync_def by auto

lemma d_all_next: "d_pend d \<noteq> [] \<Longrightarrow> d_all (d_next C d) = d_all d \<union> C"
  using pend_reset [of 0 "d_pend d"] unfolding d_all_def d_next_def by auto

lemma d_all_synced: "\<forall>P \<in> set (d_pend d). P = None \<Longrightarrow> d_iters d = {} \<Longrightarrow> d_all d = d_cur d"
  by (auto simp: d_all_def)

lemma chain_head: "chain (c # ds) \<Longrightarrow> d_cur c \<subseteq> d_cur c' \<Longrightarrow> chain (c' # ds)"
  by (cases ds) auto

lemma chain_tl: "chain (c # ds) \<Longrightarrow> chain ds"
  by (cases ds) auto

text \<open>A program loses no access.\<close>

lemma dag_ok_moves:
  assumes "dag_ok T Z" "d_guard e Z" "moves e"
  shows "dag_ok T (d_step e Z)"
proof -
  obtain c ds where Z: "Z = c # ds" using assms(1) by (cases Z) (auto simp: dag_ok_def)
  have ch: "chain (c # ds)" and lo: "loops_ok (c # ds)" and tk: "d_tokens (c # ds) = T"
    using assms(1) by (simp_all add: dag_ok_def Z)
  have head: "dag_ok T (c' # ds)"
    if "d_cur c \<subseteq> d_cur c'" "d_all c' = d_all c" "d_loop c' = d_loop c" "length (d_pend c') = length (d_pend c)"
      "d_iters c' = d_iters c" for c'
    using that ch lo tk chain_head [of c ds c'] by (auto simp: dag_ok_def loops_ok_def)
  have below: "dag_ok T (p' # es)"
    if "ds = p # es" "d_cur p \<subseteq> d_cur p'" "d_all p' = d_all p \<union> d_all c" "d_loop p' = d_loop p"
      "length (d_pend p') = length (d_pend p)" "d_iters p' = d_iters p" for p p' es
    using that ch lo tk chain_head [of p es p'] by (auto simp: dag_ok_def loops_ok_def)
  show ?thesis
  proof (cases e)
    case (E_enter n dt)
    then show ?thesis using assms Z by (auto simp: dag_ok_def d_new_def loops_ok_def d_all_def)
  next
    case (E_loop n)
    then show ?thesis using assms Z by (auto simp: dag_ok_def d_new_def loops_ok_def d_all_def)
  next
    case (E_leave r)
    then obtain p es where ds: "ds = p # es" using assms(2) Z by (cases ds) auto
    show ?thesis
    proof (cases "d_detach c")
      case True
      have r: "r < length (d_pend p)" using assms(2) Z ds E_leave True by simp
      have "dag_ok T (d_join r (d_all c) p # es)"
        by (rule below [OF ds]) (use d_all_join [OF r] in \<open>simp_all add: d_join_def\<close>)
      then show ?thesis using Z ds E_leave True by simp
    next
      case False
      have s: "d_all c = d_cur c"
        by (rule d_all_synced) (use assms(2) lo Z ds E_leave False in \<open>auto simp: loops_ok_def\<close>)
      have "d_cur p \<subseteq> d_cur c" using ch ds by simp
      then have "dag_ok T (p\<lparr>d_cur := d_cur c\<rparr> # es)"
        by (intro below [OF ds]) (use s in \<open>auto simp: d_all_def\<close>)
      then show ?thesis using Z ds E_leave False by simp
    qed
  next
    case (E_sync r)
    then show ?thesis using assms(2) Z head [OF _ d_all_sync, of r] by (simp add: d_sync_def)
  next
    case E_iter_end
    then obtain p es where ds: "ds = p # es" using assms(2) Z by (cases ds) auto
    have r: "d_pend c \<noteq> []" "d_loop c" using lo assms(2) Z ds E_iter_end by (auto simp: loops_ok_def split: if_splits)
    let ?c = "d_next (d_cur p) c"
    have "d_all ?c = d_all c \<union> d_cur p" by (rule d_all_next [OF r(1)])
    moreover have "d_cur p \<subseteq> d_all p" by (auto simp: d_all_def)
    moreover have "chain (?c # p # es)" "loops_ok (?c # p # es)"
      using ch lo ds r by (simp_all add: loops_ok_def d_next_def)
    ultimately have "dag_ok T (?c # p # es)" using tk ds by (auto simp: dag_ok_def)
    then show ?thesis using Z ds E_iter_end by simp
  next
    case (E_loop_end r)
    then obtain p es where ds: "ds = p # es" using assms(2) Z by (cases ds) auto
    have r: "r < length (d_pend p)" using assms(2) Z ds E_loop_end by simp
    have "dag_ok T (d_join r (d_all c) p # es)"
      by (rule below [OF ds]) (use d_all_join [OF r] in \<open>simp_all add: d_join_def\<close>)
    then show ?thesis using Z ds E_loop_end by simp
  qed (use assms Z in simp_all)
qed

lemma dag_ok_access:
  assumes "dag_ok T Z"
  shows "dag_ok (insert x T) (d_step (E_access x) Z)"
proof -
  obtain c ds where Z: "Z = c # ds" using assms by (cases Z) (auto simp: dag_ok_def)
  have "chain (c\<lparr>d_cur := insert x (d_cur c)\<rparr> # ds)"
    by (rule chain_head [where c = c]) (use assms Z in \<open>auto simp: dag_ok_def\<close>)
  then show ?thesis using assms Z by (auto simp: dag_ok_def loops_ok_def d_all_def)
qed

subsection \<open>Nothing is outstanding\<close>

definition quiet_frame :: "'x dframe \<Rightarrow> bool" where
  "quiet_frame d \<longleftrightarrow> \<not> d_loop d \<and> \<not> d_detach d \<and> (\<forall>P \<in> set (d_pend d). P = None)"

lemma quiet_all:
  assumes "dag_ok T Z" "\<forall>d \<in> set Z. quiet_frame d"
  shows "T = d_cur (hd Z)"
proof -
  have "d_tokens Z = d_cur (hd Z)" if "chain Z" "Z \<noteq> []" "loops_ok Z" "\<forall>d \<in> set Z. quiet_frame d"
    using that
  proof (induction Z rule: chain.induct)
    case (1 c p ds)
    then show ?case using d_all_synced [of c] by (auto simp: quiet_frame_def loops_ok_def)
  qed (simp_all add: quiet_frame_def d_all_synced loops_ok_def)
  then show ?thesis using assms by (auto simp: dag_ok_def)
qed

text \<open>An access that precedes all that is still to come: it precedes the current strand of every frame down
  to one below which there is no spawned task and no loop.\<close>

definition plain_frame :: "'x dframe \<Rightarrow> bool" where
  "plain_frame d \<longleftrightarrow> \<not> d_loop d \<and> \<not> d_detach d"

fun settled :: "'x \<Rightarrow> 'x dframe list \<Rightarrow> bool" where
  "settled t (d # ds) \<longleftrightarrow> t \<in> d_cur d \<and> ((\<forall>e \<in> set (d # ds). plain_frame e) \<or> settled t ds)"
| "settled t [] \<longleftrightarrow> False"

lemma settled_head:
  "settled t (d # ds) \<Longrightarrow> d_cur d \<subseteq> d_cur d' \<Longrightarrow> d_loop d' = d_loop d \<Longrightarrow> d_detach d' = d_detach d \<Longrightarrow> settled t (d' # ds)"
  by (auto simp: plain_frame_def)

lemma settled_moves:
  assumes "settled t Z" "d_guard e Z"
    "moves e"
  shows "settled t (d_step e Z)"
proof -
  obtain c ds where Z: "Z = c # ds" using assms(1) by (cases Z) auto
  note c = assms(1) [unfolded Z]
  show ?thesis
  proof (cases e)
    case (E_enter n dt)
    then show ?thesis using c Z by (auto simp: d_new_def plain_frame_def)
  next
    case (E_loop n)
    then show ?thesis using c Z by (auto simp: d_new_def plain_frame_def)
  next
    case (E_leave r)
    then obtain p es where ds: "ds = p # es" using assms(2) Z by (cases ds) auto
    show ?thesis
    proof (cases "d_detach c")
      case True
      then have "settled t (p # es)" using c ds by (auto simp: plain_frame_def)
      then show ?thesis using Z ds E_leave True settled_head [of t p es "d_join r (d_all c) p"] by (simp add: d_join_def)
    next
      case False
      then show ?thesis using c Z ds E_leave by (auto simp: plain_frame_def)
    qed
  next
    case (E_sync r)
    then show ?thesis using c Z settled_head [of t c ds "d_sync r c"] by (auto simp: d_sync_def)
  next
    case E_iter_end
    then obtain p es where ds: "ds = p # es" "d_loop c" using assms(2) Z by (cases ds) auto
    then have "settled t (p # es)" using c by (auto simp: plain_frame_def)
    then show ?thesis using Z ds E_iter_end by (auto simp: d_next_def)
  next
    case (E_loop_end r)
    then obtain p es where ds: "ds = p # es" "d_loop c" using assms(2) Z by (cases ds) auto
    then have "settled t (p # es)" using c by (auto simp: plain_frame_def)
    then show ?thesis using Z ds E_loop_end settled_head [of t p es "d_join r (d_all c) p"] by (simp add: d_join_def)
  qed (use assms Z in simp_all)
qed

lemma settled_access: "settled t Z \<Longrightarrow> settled t (d_step (E_access x) Z)"
  using settled_head by (cases Z) (auto simp: plain_frame_def)

lemma quiet_settled: "Z \<noteq> [] \<Longrightarrow> \<forall>d \<in> set Z. quiet_frame d \<Longrightarrow> settled t (d_step (E_access t) Z)"
  by (cases Z) (auto simp: quiet_frame_def plain_frame_def)

lemma settled_cur: "settled t Z \<Longrightarrow> t \<in> d_cur (hd Z)"
  by (cases Z) auto

end
