(* ===== verification/DriverState.thy ===== *)
theory DriverState
  imports Driver MemRuns SPOrder
begin

text \<open>
  The state of the driver in a run of hooks: what its stacks hold is determined by the calls, tasks and
  loops that are open.  The topmost entry of \<open>parallel_execution\<close> tells whether a spawned task may be
  outstanding.
\<close>

subsection \<open>What a stack holds, the head first\<close>

definition holds :: "'a Stack_t \<Rightarrow> 'a list \<Rightarrow> bool" where
  "holds s xs \<longleftrightarrow> Stack_wf s \<and> rev (Stack_contents s) = xs"

definition shallow :: "'a Stack_t \<Rightarrow> bool" where
  "shallow s \<longleftrightarrow> unat (stk_head s) + 2 < 2 ^ 31"

lemma holds_length: "holds s xs \<Longrightarrow> length xs = Suc (unat (stk_head s))"
  using length_Stack_contents [of s] by (auto simp: holds_def)

lemma holds_new: "holds (Stack_new d) [d]"
  by (simp add: holds_def Stack_new_wf Stack_contents_new)

lemma holds_push:
  assumes "holds s xs" "unat (stk_head s) + 1 < 2 ^ 31"
  shows "holds (Stack_push_back d v s) (v # xs)"
  using assms stk.inv_push [of s d v] stk.contents_push [of s d v] by (auto simp: holds_def Stack_room_def)

lemma holds_pop:
  assumes "holds s (x # y # xs)"
  shows "holds (Stack_pop d s) (y # xs)"
proof -
  have wf: "Stack_wf s" and c: "rev (Stack_contents s) = x # y # xs" using assms by (simp_all add: holds_def)
  have "Stack_contents s = rev (x # y # xs)" using c by (metis rev_rev_ident)
  then have l: "1 < length (Stack_contents s)" "Stack_contents s = rev (y # xs) @ [x]" by simp_all
  show ?thesis using stk.inv_pop [OF wf l(1), of d] stk.contents_pop [OF wf l(1), of d] l(2)
    by (simp add: holds_def butlast_append)
qed

lemma holds_back: "holds s (x # xs) \<Longrightarrow> Stack_back s = Some x"
  using Stack_back_last [of s] by (auto simp: holds_def rev_swap)

lemma holds_set: "holds s (x # xs) \<Longrightarrow> holds (Stack_set_head v s) (v # xs)"
  using Stack_set_head_wf [of s v] Stack_set_head_contents [of s v] by (auto simp: holds_def rev_swap butlast_append)

lemma holds_from_back: "holds s (x # y # xs) \<Longrightarrow> Stack_from_back 1 s = Some y"
proof -
  assume h: "holds s (x # y # xs)"
  then have wf: "Stack_wf s" and c: "Stack_contents s = rev xs @ [y, x]"
    by (auto simp: holds_def rev_swap)
  have len: "unat (stk_head s) = Suc (length xs)" using holds_length [OF h] by simp
  then have i: "unat (stk_head s - 1) = length xs" using unat_minus_one_word [of "stk_head s"] by simp
  have "length (Stack_contents s) \<le> length (stk_stack s)" by (simp add: Stack_contents_def)
  then have l: "length xs < length (stk_stack s)" using c by simp
  have "Stack_contents s ! length xs = stk_stack s ! length xs" using len by (simp add: Stack_contents_def)
  then show ?thesis using l i c by (simp add: Stack_from_back_def nth_append)
qed

lemma holds_inj: "holds s xs \<Longrightarrow> holds s ys \<Longrightarrow> xs = ys"
  by (simp add: holds_def)

lemma shallow_push: "shallow s \<Longrightarrow> unat (stk_head s) + 1 < 2 ^ 31"
  by (simp add: shallow_def)

text \<open>Two pushes in a row, as \<open>push_pe\<close> and \<open>push_stack_frame\<close> make them.\<close>

lemma holds_push2:
  assumes "holds s xs" "shallow s"
  shows "holds (Stack_push_back d w (Stack_push_back d v s)) (w # v # xs)"
proof -
  have h: "holds (Stack_push_back d v s) (v # xs)" by (rule holds_push [OF assms(1) shallow_push [OF assms(2)]])
  have "unat (stk_head (Stack_push_back d v s)) = Suc (unat (stk_head s))"
    using holds_length [OF h] holds_length [OF assms(1)] by simp
  then show ?thesis using holds_push [OF h] assms(2) by (simp add: shallow_def)
qed

subsection \<open>Open activations\<close>

text \<open>Calls between their two hooks, bodies of functions (\<open>A_func True\<close>: the tool has no frame for it), spawns,
  bodies of tasks, loops (\<open>A_loop i True\<close>: the first iteration has begun), iterations, and the point between
  the end of a loop and the sync that follows it.\<close>

datatype activation =
  A_call csi_id_t u32
| A_func bool
| A_spawn csi_id_t
| A_task
| A_loop csi_id_t bool
| A_loop_spawn
| A_iter
| A_loop_sync u32

fun in_body :: "activation list \<Rightarrow> bool" where
  "in_body (A_func s # A) = True"
| "in_body (A_task # A) = True"
| "in_body (A_iter # A) = True"
| "in_body A = False"

fun may_call :: "activation list \<Rightarrow> bool" where
  "may_call [] = True"
| "may_call (A_call i n # A) = True"
| "may_call A = in_body A"

fun owns_frame :: "activation list \<Rightarrow> bool" where
  "owns_frame (A_func s # A) = (\<not> s)"
| "owns_frame (A_task # A) = True"
| "owns_frame (A_iter # A) = True"
| "owns_frame A = False"

text \<open>Between the start of a loop and its first iteration.\<close>

fun loop_waits :: "activation list \<Rightarrow> bool" where
  "loop_waits (A_loop i b # A) = (\<not> b)"
| "loop_waits (A_loop_spawn # A) = loop_waits A"
| "loop_waits A = False"

fun pe_ok :: "u8 list \<Rightarrow> activation list \<Rightarrow> 'x dframe list \<Rightarrow> bool" where
  "pe_ok ps [] D \<longleftrightarrow> (\<exists>g d. ps = [0, g] \<and> D = [d] \<and> quiet_frame d)"
| "pe_ok ps (A_call i n # A) D \<longleftrightarrow> in_body A \<and> pe_ok ps A D"
| "pe_ok ps (A_spawn i # A) D \<longleftrightarrow> hd ps \<noteq> 0 \<and> owns_frame A \<and> pe_ok ps A D"
| "pe_ok ps (A_loop_spawn # A) D \<longleftrightarrow> hd ps \<noteq> 0 \<and> (\<exists>i b A'. A = A_loop i b # A') \<and> pe_ok ps A D"
| "pe_ok ps (A_iter # A) D \<longleftrightarrow> hd ps \<noteq> 0 \<and> (\<exists>i A'. A = A_loop i True # A') \<and> pe_ok ps A D"
| "pe_ok ps (A_func s # A) D \<longleftrightarrow> may_call A \<and>
     (\<exists>c b qs. ps = c # b # qs \<and> qs \<noteq> [] \<and> b = hd qs \<and>
        (if s then c = b \<and> pe_ok qs A D
         else \<exists>d E. D = d # E \<and> \<not> d_loop d \<and> \<not> d_detach d \<and> (c = 0 \<longrightarrow> b = 0 \<and> quiet_frame d) \<and> pe_ok qs A E))"
| "pe_ok ps (A_task # A) D \<longleftrightarrow> (\<exists>i A'. A = A_spawn i # A') \<and>
     (\<exists>c b qs d E. ps = c # b # qs \<and> qs \<noteq> [] \<and> c \<noteq> 0 \<and> b \<noteq> 0 \<and> D = d # E \<and> \<not> d_loop d \<and> d_detach d \<and> pe_ok qs A E)"
| "pe_ok ps (A_loop i b # A) D \<longleftrightarrow> owns_frame A \<and>
     (\<exists>c p qs. ps = c # p # qs \<and> qs \<noteq> [] \<and> p = hd qs \<and>
        (if b then c \<noteq> 0 \<and> (\<exists>d E. D = d # E \<and> d_loop d \<and> pe_ok qs A E)
         else (c = 0 \<longrightarrow> p = 0) \<and> pe_ok qs A D))"
| "pe_ok ps (A_loop_sync r # A) D \<longleftrightarrow> owns_frame A \<and>
     (\<exists>d e E. D = d # E \<and> d_loop e = d_loop d \<and> d_detach e = d_detach d \<and>
        (d_pend e)[unat r := None] = (d_pend d)[unat r := None] \<and> pe_ok ps A (e # E))"

fun sp_ok :: "u64 list \<Rightarrow> activation list \<Rightarrow> bool" where
  "sp_ok xs [] \<longleftrightarrow> length xs = 1"
| "sp_ok xs (A_func s # A) \<longleftrightarrow> (\<exists>lo hi ys. xs = lo # hi # ys \<and> lo \<noteq> 0 \<and> lo \<le> hi \<and> unat hi < 2 ^ 48 \<and> sp_ok ys A)"
| "sp_ok xs (A_task # A) \<longleftrightarrow> (\<exists>lo hi ys. xs = lo # hi # ys \<and> lo \<noteq> 0 \<and> lo \<le> hi \<and> unat hi < 2 ^ 48 \<and> sp_ok ys A)"
| "sp_ok xs (A_iter # A) \<longleftrightarrow> (\<exists>lo hi ys. xs = lo # hi # ys \<and> lo \<noteq> 0 \<and> lo \<le> hi \<and> unat hi < 2 ^ 48 \<and> sp_ok ys A)"
| "sp_ok xs (a # A) \<longleftrightarrow> sp_ok xs A"

fun act_calls :: "activation list \<Rightarrow> CallID_t list" where
  "act_calls [] = []"
| "act_calls (A_call i n # A) = CallID_make CALL i # act_calls A"
| "act_calls (A_spawn i # A) = CallID_make SPAWN i # act_calls A"
| "act_calls (A_loop i b # A) = CallID_make LOOP i # act_calls A"
| "act_calls (a # A) = act_calls A"

fun act_skips :: "activation list \<Rightarrow> bool list" where
  "act_skips [] = []"
| "act_skips (A_func s # A) = s # act_skips A"
| "act_skips (a # A) = act_skips A"

fun act_stacks :: "activation list \<Rightarrow> nat" where
  "act_stacks [] = 0"
| "act_stacks (A_func s # A) = Suc (act_stacks A)"
| "act_stacks (A_task # A) = Suc (act_stacks A)"
| "act_stacks (A_iter # A) = Suc (act_stacks A)"
| "act_stacks (a # A) = act_stacks A"

fun act_counts :: "activation list \<Rightarrow> u32 list" where
  "act_counts [] = [0]"
| "act_counts (A_call i n # A) = n # act_counts A"
| "act_counts (a # A) = act_counts A"

definition act_MAAPs :: "activation list \<Rightarrow> nat" where
  "act_MAAPs A = sum_list (map unat (act_counts A))"

lemma in_body_calls: "in_body A \<Longrightarrow> may_call A" "may_call A \<Longrightarrow> \<not> loop_waits A"
  "owns_frame A \<Longrightarrow> in_body A"
  by (cases A rule: may_call.cases; simp)+

text \<open>While the topmost entry is 0 nothing is outstanding, but for a loop that has just ended.\<close>

lemma pe_ne: "pe_ok ps A D \<Longrightarrow> ps \<noteq> []"
  by (induction ps A D rule: pe_ok.induct) auto

lemma pe_quiet:
  assumes "pe_ok ps A D" "hd ps = 0" "may_call A"
  shows "\<forall>d \<in> set D. quiet_frame d"
  using assms
proof (induction ps A D rule: pe_ok.induct)
  case (6 ps s A D)
  then obtain c b qs where ps: "ps = c # b # qs" "b = hd qs" by auto
  show ?case
  proof (cases s)
    case True
    then show ?thesis using 6 ps by (auto split: if_splits)
  next
    case False
    then obtain d E where D: "D = d # E" "c = 0 \<longrightarrow> b = 0 \<and> quiet_frame d" "pe_ok qs A E"
      using 6(3) ps by auto
    then show ?thesis using 6 ps False by auto
  qed
next
  case (8 ps i b A D)
  then show ?case by (auto split: if_splits)
next
  case (2 ps i n A D)
  then show ?case using in_body_calls(1) by auto
qed auto

text \<open>The head may be set to 1 where a task is spawned.\<close>

lemma pe_set:
  assumes "pe_ok (c # ps) A D" "owns_frame A \<or> (\<exists>i b A'. A = A_loop i b # A')"
  shows "pe_ok (1 # ps) A D"
  using assms by (cases A rule: owns_frame.cases) auto

text \<open>Only the shapes of frames matter; an event may make a frame quiet.\<close>

definition same_shape :: "'x dframe \<Rightarrow> 'y dframe \<Rightarrow> bool" where
  "same_shape d e \<longleftrightarrow> d_loop d = d_loop e \<and> d_detach d = d_detach e \<and> (quiet_frame d \<longrightarrow> quiet_frame e)"

lemma same_shape_refl [simp]: "same_shape d d"
  by (simp add: same_shape_def)

fun loop_ended :: "activation list \<Rightarrow> bool" where
  "loop_ended (A_loop_sync r # A) = True"
| "loop_ended A = False"

lemma not_ended: "may_call A \<Longrightarrow> \<not> loop_ended A" "owns_frame A \<Longrightarrow> \<not> loop_ended A"
  by (cases A rule: loop_ended.cases; simp)+

lemma pe_mono:
  "pe_ok ps A D \<Longrightarrow> \<not> loop_ended A \<Longrightarrow> list_all2 same_shape D E \<Longrightarrow> pe_ok ps A E"
proof (induction ps A D arbitrary: E rule: pe_ok.induct)
  case (1 ps D)
  then show ?case by (auto simp: list_all2_Cons1 same_shape_def)
next
  case (6 ps s A D)
  then obtain c b qs where ps: "ps = c # b # qs" "qs \<noteq> []" "b = hd qs" by auto
  show ?case
  proof (cases s)
    case True
    then show ?thesis using 6 ps not_ended(1) by auto
  next
    case False
    then obtain d ds where D: "D = d # ds" "\<not> d_loop d" "\<not> d_detach d" "c = 0 \<longrightarrow> b = 0 \<and> quiet_frame d" "pe_ok qs A ds"
      using 6(3) ps by auto
    then obtain e es where E: "E = e # es" "same_shape d e" "list_all2 same_shape ds es"
      using 6(5) by (auto simp: list_all2_Cons1)
    have "pe_ok qs A es" by (rule 6(2)) (use False ps D E not_ended(1) 6(3) in auto)
    then show ?thesis using 6(3) ps False D E(1,2) by (auto simp: same_shape_def)
  qed
next
  case (7 ps A D)
  then obtain c b qs d ds where h: "ps = c # b # qs" "qs \<noteq> []" "c \<noteq> 0" "b \<noteq> 0" "D = d # ds" "\<not> d_loop d" "d_detach d"
    "pe_ok qs A ds" "\<exists>i A'. A = A_spawn i # A'" by auto
  then obtain e es where E: "E = e # es" "same_shape d e" "list_all2 same_shape ds es"
    using 7(4) by (auto simp: list_all2_Cons1)
  have "pe_ok qs A es" by (rule 7(1)) (use h E in auto)
  then show ?case using h E by (auto simp: same_shape_def)
next
  case (8 ps i b A D)
  then obtain c qs where ps: "ps = c # hd qs # qs" "qs \<noteq> []" "owns_frame A" by auto
  show ?case
  proof (cases b)
    case True
    then obtain d ds where D: "D = d # ds" "d_loop d" "c \<noteq> 0" "pe_ok qs A ds" using 8(3) ps by auto
    then obtain e es where E: "E = e # es" "same_shape d e" "list_all2 same_shape ds es"
      using 8(5) by (auto simp: list_all2_Cons1)
    have "pe_ok qs A es" by (rule 8(1)) (use True ps D(4) E(3) not_ended(2) in auto)
    moreover have "d_loop e" using E(2) D(2) by (simp add: same_shape_def)
    ultimately show ?thesis using True ps D(3) E(1) by simp
  next
    case False
    then show ?thesis using 8 ps not_ended(2) by auto
  qed
next
  case (2 ps i n A D)
  then show ?case using not_ended(1) in_body_calls(1) by auto
next
  case (3 ps i A D)
  then show ?case using not_ended(2) by auto
qed auto

lemma same_shapes_refl: "list_all2 same_shape D D"
  by (simp add: list.rel_refl)

text \<open>A sync may also return to the state of the entry of the function, when nothing is outstanding.\<close>

lemma pe_sync:
  assumes "pe_ok (c # b # qs) A (d # D)" "owns_frame A" "\<not> d_loop d" "\<forall>P \<in> set (d_pend d). P = None"
  shows "pe_ok (b # b # qs) A (d # D)"
  using assms by (cases A rule: owns_frame.cases) (auto simp: quiet_frame_def)

lemma pe_owner:
  assumes "pe_ok ps A D" "owns_frame A"
  shows "\<exists>c b qs d E. ps = c # b # qs \<and> D = d # E"
  using assms by (cases A rule: owns_frame.cases) auto

lemma pe_frames: "pe_ok ps A D \<Longrightarrow> D \<noteq> []"
  by (induction ps A D rule: pe_ok.induct) (auto split: if_splits)

lemma pe_length: "pe_ok ps A D \<Longrightarrow> in_body A \<Longrightarrow> 3 \<le> length ps"
proof (cases A rule: in_body.cases)
  case (1 s B)
  then show "pe_ok ps A D \<Longrightarrow> in_body A \<Longrightarrow> 3 \<le> length ps" by (auto simp: neq_Nil_conv)
next
  case (2 B)
  then show "pe_ok ps A D \<Longrightarrow> in_body A \<Longrightarrow> 3 \<le> length ps" by (auto simp: neq_Nil_conv)
next
  case (3 B)
  then show "pe_ok ps A D \<Longrightarrow> in_body A \<Longrightarrow> 3 \<le> length ps" by (auto simp: neq_Nil_conv)
qed auto

subsection \<open>The dag of all accesses\<close>

text \<open>\<open>E\<close>: the numbers that are recorded, \<open>F\<close>: all accesses of the program, \<open>K\<close>: those that were skipped
  because nothing was outstanding.\<close>

definition dag_part :: "entries \<Rightarrow> access_log \<Rightarrow> nat set \<Rightarrow> nat dframe list \<Rightarrow> nat dframe list \<Rightarrow> bool" where
  "dag_part E F K D Z \<longleftrightarrow> dag_ok (dom F) Z \<and> D = map (d_res (dom E)) Z \<and> dom E \<subseteq> dom F \<and>
     K \<subseteq> dom F \<and> (\<forall>t \<in> K. settled t Z)"

lemma dag_part_moves:
  assumes "dag_part E F K D Z" "d_guard e D" "moves e"
  shows "dag_part E F K (d_step e D) (d_step e Z)"
proof -
  have Z: "dag_ok (dom F) Z" "D = map (d_res (dom E)) Z" using assms(1) by (simp_all add: dag_part_def)
  have g: "d_guard e Z" using assms(2) Z(2) by (simp add: d_res_guard)
  have "loops_ok Z" using Z(1) by (simp add: dag_ok_def)
  then show ?thesis using assms g dag_ok_moves [OF Z(1) g] d_res_step [OF g, of "dom E"] settled_moves [OF _ g]
    by (simp add: dag_part_def)
qed

lemma dag_part_access:
  assumes "dag_part E F K D Z" "F t = None" "dom E' = insert t (dom E)"
  shows "dag_part E' (F(t \<mapsto> a)) K (d_step (E_access t) D) (d_step (E_access t) Z)"
proof -
  have Z: "dag_ok (dom F) Z" "D = map (d_res (dom E)) Z" using assms(1) by (simp_all add: dag_part_def)
  have "t \<notin> d_tokens Z" using Z(1) assms(2) by (auto simp: dag_ok_def)
  from d_res_access [OF this] show ?thesis
    using assms dag_ok_access [OF Z(1), of t] settled_access [of _ Z t] by (auto simp: dag_part_def)
qed

lemma dag_part_unrecorded:
  assumes "dag_part E F K D Z" "F t = None"
  shows "dag_part E (F(t \<mapsto> a)) K D (d_step (E_access t) Z)"
proof -
  have Z: "dag_ok (dom F) Z" "D = map (d_res (dom E)) Z" "t \<notin> dom E" using assms by (auto simp: dag_part_def)
  show ?thesis using assms dag_ok_access [OF Z(1), of t] settled_access [of _ Z t] d_res_skip [OF Z(3), of Z]
    by (auto simp: dag_part_def)
qed

lemma dag_part_skipped:
  assumes "dag_part E F K D Z" "F t = None" "\<forall>d \<in> set D. quiet_frame d"
  shows "dag_part E (F(t \<mapsto> a)) (insert t K) D (d_step (E_access t) Z)"
proof -
  have "quiet_frame (d_res X d) \<longleftrightarrow> quiet_frame d" for X and d :: "nat dframe"
    by (simp only: quiet_frame_def d_res_simps d_res_none)
  then have "\<forall>d \<in> set Z. quiet_frame d" "Z \<noteq> []" using assms(1,3) by (auto simp: dag_part_def dag_ok_def)
  then show ?thesis using dag_part_unrecorded [OF assms(1,2), of a] quiet_settled [of Z t] by (auto simp: dag_part_def)
qed

lemma dag_part_forget:
  assumes "dag_part E F K D Z"
  shows "dag_part (E(t := None)) F K (d_step (E_forget t) D) Z"
  using assms d_res_forget [of t "dom E" Z] by (auto simp: dag_part_def)

end
