(* ===== verification/MemSafety.thy ===== *)
theory MemSafety
  imports MemRuns
begin

text \<open>
  The theorems on the accesses of a run: they never fail, the races that are reported are races of the
  program, and the races with what is recorded are reported.
\<close>

subsection \<open>What the reports say\<close>

text \<open>The kind of race between a previous access and the current one.\<close>

fun race_between :: "bool \<Rightarrow> bool \<Rightarrow> RaceType_t" where
  "race_between False True = WR_RACE"
| "race_between True False = RW_RACE"
| "race_between False False = WW_RACE"
| "race_between True True = undefined"

lemma access_checked_sound:
  assumes "access_checked rd par f Q acc_id type sh sh' rs" "r \<in> set rs"
  shows "\<exists>rd'. \<not> (rd \<and> rd') \<and> Q (rp_addr r) \<and> Dict_view (sm_dict rd' sh) (rp_addr r) = Some (rp_prev r) \<and>
    par (rp_prev r) \<and> rp_race r = race_between rd' rd \<and> rp_acc_id r = acc_id \<and> rp_type r = type"
proof (cases rd)
  case True
  then show ?thesis using assms
    by (intro exI [of _ False]) (auto simp: access_checked_def read_checked_def reports_sound_def sm_dict_def)
next
  case False
  then obtain rr ww where w: "set rs = set rr \<union> set ww"
    "reports_sound par (Dict_view (sm_Reads sh)) Q RW_RACE acc_id type rr"
    "reports_sound par (Dict_view (sm_Writes sh)) Q WW_RACE acc_id type ww"
    using assms(1) by (auto simp: access_checked_def write_checked_def)
  show ?thesis
  proof (cases "r \<in> set rr")
    case True
    then show ?thesis using w(2) False
      by (intro exI [of _ True]) (auto simp: reports_sound_def sm_dict_def)
  next
    case no: False
    then have "r \<in> set ww" using w(1) assms(2) by auto
    then show ?thesis using w(3) False
      by (intro exI [of _ False]) (auto simp: reports_sound_def sm_dict_def)
  qed
qed


text \<open>A checked access of a run, before the state is given up: what it checked, and against what.\<close>

lemma sim_checked:
  assumes s: "mem_sim k S E L D" and ok: "access_ok addr s alignment"
    and a: "do_access rd type acc_id addr s alignment S = Some S'"
  shows "if access_skips rd addr s alignment (cs_shadow S) then cs_reports S' = cs_reports S
    else \<exists>x v S2 sh rs. cs_reports S' = cs_reports S @ rs \<and> Shadow_ok sh \<and> access_node S' = Some (x, v, S2) \<and>
      (\<forall>r. Dict_view (sm_dict r sh) = Dict_view (sm_dict r (cs_shadow S))) \<and>
      access_checked rd (cs_yes S) (MASetFn x v acc_id type) (in_chunk (Chunk addr s)) acc_id type sh (cs_shadow S') rs"
proof -
  obtain fs where sim: "tool_sim S E k fs D" and inv: "mem_inv S E L" using s unfolding mem_sim_def by blast
  note I = mem_invD [OF inv]
  obtain S0 where A: "same_tool S S0" "shadow_occ (cs_shadow S) (cs_shadow S0)" "occ_ok (cs_shadow S0)"
    "if access_skips rd addr s alignment (cs_shadow S) then S' = S0
     else s \<noteq> 0 \<and> (\<exists>rs. accessed rd acc_id type addr s S0 S' rs)"
    using do_access_ok [OF sim I(1,2) ok I(3), where rd = rd and type = type and acc_id = acc_id] a by auto
  have sim0: "tool_sim S0 E k fs D"
    by (rule tool_sim_cong [OF sim]) (use A(1,3) in \<open>simp_all add: same_tool_def\<close>)
  have par: "cs_yes S0 = cs_yes S" by (rule cs_yes_cong [OF cs_par_cong]) (use A(1) in \<open>simp_all add: same_tool_def\<close>)
  show ?thesis
  proof (cases "access_skips rd addr s alignment (cs_shadow S)")
    case True
    then show ?thesis using A(1,4) by (simp add: same_tool_def)
  next
    case False
    then obtain rs where ac: "accessed rd acc_id type addr s S0 S' rs" using A(4) by auto
    obtain x v S2 where x: "access_node S' = Some (x, v, S2)" "access_checked rd (cs_yes S0) (MASetFn x v acc_id type) (in_chunk (Chunk addr s)) acc_id type
         (cs_shadow S0) (cs_shadow S') rs"
      using accessed_sim(2) [OF ac sim0 shadow_occD(1) [OF A(2) I(1)]] by blast
    have "cs_reports S' = cs_reports S @ rs" using accessed_reports [OF ac sim0] A(1) by (simp add: same_tool_def)
    then show ?thesis using False x par shadow_occD(1) [OF A(2) I(1)] shadow_occD(2) [OF A(2)] by auto
  qed
qed

lemmas reach_checked = sim_checked [OF mem_reach_sim]

text \<open>What an access reports, in a state that represents the dag of the program.\<close>

lemma sim_reports_races:
  assumes s: "mem_sim k S E L (d # D)" and ok: "access_ok addr s alignment"
    and a: "do_access rd type acc_id addr s alignment S = Some S'"
  shows "\<exists>rs. cs_reports S' = cs_reports S @ rs \<and> (\<forall>r \<in> set rs.
    in_chunk (Chunk addr s) (rp_addr r) \<and> rp_acc_id r = acc_id \<and> rp_type r = type \<and>
    (\<exists>t rd'. covers L t rd' (rp_addr r) \<and> \<not> (rd \<and> rd') \<and> rp_race r = race_between rd' rd \<and> t \<notin> d_cur d \<and>
       E t = Some (getFuncFromVerFunc (rp_prev r), unat (getVersionFromVerFunc (rp_prev r)))))"
proof (cases "access_skips rd addr s alignment (cs_shadow S)")
  case True
  then show ?thesis using sim_checked [OF s ok a] by (intro exI [of _ "[]"]) simp
next
  case False
  then obtain x v sh rs where c: "cs_reports S' = cs_reports S @ rs"
    "\<And>r. Dict_view (sm_dict r sh) = Dict_view (sm_dict r (cs_shadow S))"
    "access_checked rd (cs_yes S) (MASetFn x v acc_id type) (in_chunk (Chunk addr s)) acc_id type sh (cs_shadow S') rs"
    using sim_checked [OF s ok a] by auto
  obtain fs where sim: "tool_sim S E k fs (d # D)" and inv: "mem_inv S E L"
    using s unfolding mem_sim_def by blast
  show ?thesis
  proof (intro exI [of _ rs] conjI ballI c(1))
    fix r assume r: "r \<in> set rs"
    obtain rd' where q: "\<not> (rd \<and> rd')" "in_chunk (Chunk addr s) (rp_addr r)"
      "Dict_view (sm_dict rd' (cs_shadow S)) (rp_addr r) = Some (rp_prev r)" "cs_yes S (rp_prev r)"
      "rp_race r = race_between rd' rd" "rp_acc_id r = acc_id" "rp_type r = type"
      using access_checked_sound [OF c(3) r] c(2) by auto
    then show "in_chunk (Chunk addr s) (rp_addr r)" "rp_acc_id r = acc_id" "rp_type r = type" by simp_all
    obtain t where t: "E t = Some (getFuncFromVerFunc (rp_prev r), unat (getVersionFromVerFunc (rp_prev r)))"
      "covers L t rd' (rp_addr r)" using mem_invD(3) [OF inv] q(3) unfolding recorded_def by blast
    have "t \<notin> d_cur d" using sim_par [where E = E and t = t, OF sim t(1)] q(4) by (auto simp: cs_yes_def answer_ok_def)
    then show "\<exists>t rd'. covers L t rd' (rp_addr r) \<and> \<not> (rd \<and> rd') \<and> rp_race r = race_between rd' rd \<and> t \<notin> d_cur d \<and>
        E t = Some (getFuncFromVerFunc (rp_prev r), unat (getVersionFromVerFunc (rp_prev r)))"
      using t q(1,5) by blast
  qed
qed

subsection \<open>A concrete run\<close>

text \<open>Control-flow events only.\<close>

fun plain_act :: "action \<Rightarrow> bool" where
  "plain_act (Record t) = False"
| "plain_act (Forget t) = False"
| "plain_act _ = True"

lemma tool_run_mem_reach:
  assumes "tool_run U as (k, S, E, D) = Some (k', S', E', D')" "mem_reach U k S E L D" "k' < 2 ^ 64 - 1"
    "\<forall>a \<in> set as. plain_act a"
  shows "mem_reach U k' S' E' L D'"
  using assms
proof (induction as arbitrary: k S E D)
  case (Cons a as)
  then obtain S1 E1 where a: "act_ok a S E D" "d_guard (event_of a (cs_start_new_loop S)) D"
    "tool_act U a S E = Some (S1, E1)"
    "tool_run U as (k + rank_cost a D, S1, E1, d_step (event_of a (cs_start_new_loop S)) D) = Some (k', S', E', D')"
    by (auto simp: bind_eq_Some_conv split: if_splits)
  have ok: "step_ok a k S E D" using a(1,2) tool_run_le [OF a(4)] Cons.prems(3) by (simp add: step_ok_def)
  have "control_ok a S E L" using Cons.prems(4) by (cases a) simp_all
  from Cons.IH [OF a(4) mem_control [OF Cons.prems(2) ok this a(3)] Cons.prems(3)] show ?case using Cons.prems(4) by simp
qed simp

lemma tool_run_entries:
  "tool_run U as (k, S, E, D) = Some (k', S', E', D') \<Longrightarrow> \<forall>a \<in> set as. plain_act a \<Longrightarrow> E' = E"
proof (induction as arbitrary: k S E D)
  case (Cons a as)
  then obtain S1 E1 where a: "tool_act U a S E = Some (S1, E1)"
    "tool_run U as (k + rank_cost a D, S1, E1, d_step (event_of a (cs_start_new_loop S)) D) = Some (k', S', E', D')"
    by (auto simp: bind_eq_Some_conv split: if_splits)
  have "E1 = E" using act_entries [OF a(1)] Cons.prems(2) by auto
  then show ?case using Cons.IH [OF a(2)] Cons.prems(2) by simp
qed simp

text \<open>A function spawns a child, which is about to write.\<close>

definition ex_child_view :: "nat \<times> nat cilksan \<times> entries \<times> nat dframe list \<Rightarrow> nat \<times> bool \<times> (bool \<times> nat \<times> bool \<times> bool \<times> bool) list" where
  "ex_child_view = (\<lambda>(k, S, E, D).
     (k, sp_new (cs_sp S) \<noteq> [], map (\<lambda>d. (0 \<in> d_cur d, length (d_pend d), d_loop d, d_detach d, d_synced d)) D))"

lemma ex_child_run:
  "map_option ex_child_view (ex_run [Enter 1, EnterHelper 0, Detach]) =
   Some (0, True, [(False, 0, False, True, False), (False, 1, False, False, False), (False, 0, False, False, False)])"
  by code_simp

lemma ex_child:
  obtains S d f g where "mem_reach ex_user 0 S no_entries Map.empty [d, f, g]" "sp_new (cs_sp S) \<noteq> []"
    "d_pend d = []" "\<not> d_loop d" "d_detach d" "length (d_pend f) = 1" "\<not> d_loop f" "0 \<notin> d_cur f" "\<not> d_loop g" "\<not> d_synced f"
proof -
  obtain S0 where S0: "ex_init = Some S0" using ex_child_run by (cases ex_init) (simp_all add: ex_run_def)
  obtain k S E D where r: "ex_run [Enter 1, EnterHelper 0, Detach] = Some (k, S, E, D)"
    "ex_child_view (k, S, E, D) = (0, True, [(False, 0, False, True, False), (False, 1, False, False, False), (False, 0, False, False, False)])"
    using ex_child_run by (auto simp: map_option_eq_Some)
  have run: "tool_run ex_user [Enter 1, EnterHelper 0, Detach] (0, S0, no_entries, start_dag) = Some (k, S, E, D)"
    using r(1) unfolding ex_run_def S0 option.case .
  have E: "E = no_entries" by (rule tool_run_entries [OF run]) simp
  have k: "k = 0" and v: "sp_new (cs_sp S) \<noteq> []"
    "map (\<lambda>d. (0 \<in> d_cur d, length (d_pend d), d_loop d, d_detach d, d_synced d)) D =
      [(False, 0, False, True, False), (False, 1, False, False, False), (False, 0, False, False, False)]"
    using r(2) by (simp_all add: ex_child_view_def)
  have start: "mem_reach ex_user 0 S0 no_entries Map.empty start_dag"
    using mem_start [OF ex_supply_fresh] S0 by (simp add: ex_init_def)
  have "mem_reach ex_user 0 S no_entries Map.empty D"
    using tool_run_mem_reach [OF run start] k E by simp
  moreover obtain d f g where "D = [d, f, g]" using v(2) by (auto simp: map_eq_Cons_conv)
  ultimately show ?thesis using that v by auto
qed

lemma mem_reach_plain:
  assumes "mem_reach U k S E L D" "step_ok a k S E D" "plain_act a"
  shows "\<exists>S'. mem_reach U (k + rank_cost a D) S' E L (d_step (event_of a (cs_start_new_loop S)) D) \<and>
    (\<forall>rd. Dict_view (sm_dict rd (cs_shadow S')) = Dict_view (sm_dict rd (cs_shadow S)))"
proof -
  have c: "control_ok a S E L" using assms(3) by (cases a) simp_all
  have s: "mem_sim k S E L D" by (rule mem_reach_sim [OF assms(1)])
  obtain fs where sim: "tool_sim S E k fs D" using s unfolding mem_sim_def by blast
  obtain S' E' where act: "tool_act U a S E = Some (S', E')" using mem_sim_control [OF s assms(2) c] by blast
  have "E' = E" using act_entries [OF act] assms(3) by auto
  moreover have "keeps S S'" by (rule act_keeps [OF sim act])
  ultimately show ?thesis using mem_control [OF assms(1,2) c act] shadow_occD(2) by (auto simp: keeps_def)
qed

text \<open>Accesses leave the supply of addresses alone.\<close>

lemma do_access_supply:
  assumes s: "mem_sim k S E L D" and ok: "access_ok addr s alignment"
    and a: "do_access rd type acc_id addr s alignment S = Some S1" and r: "tool_act U (Record t) S1 E = Some (S', E')"
  shows "sp_new (cs_sp S') = sp_new (cs_sp S)"
proof -
  obtain fs where sim: "tool_sim S E k fs D" and inv: "mem_inv S E L"
    using s unfolding mem_sim_def by blast
  note I = mem_invD [OF inv]
  obtain S0 where A: "same_tool S S0" "occ_ok (cs_shadow S0)"
    "if access_skips rd addr s alignment (cs_shadow S) then S1 = S0
     else s \<noteq> 0 \<and> (\<exists>rs. accessed rd acc_id type addr s S0 S1 rs)"
    using do_access_ok [OF sim I(1,2) ok I(3), where rd = rd and type = type and acc_id = acc_id] a by auto
  have sim0: "tool_sim S0 E k fs D"
    by (rule tool_sim_cong [OF sim]) (use A(1,2) in \<open>simp_all add: same_tool_def\<close>)
  have "cs_sp S1 = cs_sp S0"
  proof (cases "S1 = S0")
    case False
    then obtain rs where "accessed rd acc_id type addr s S0 S1 rs" using A(3) by (auto split: if_splits)
    then obtain x v S2 S3 sh where h: "access_node S0 = Some (x, v, S2)" "S3 = S0 \<or> S3 = S2"
      "S1 = add_reports rs (S3\<lparr>cs_shadow := sh\<rparr>)" unfolding accessed_def by blast
    have "marks S0 S2" using access_marks [OF sim0] h(1) by auto
    then have "cs_sp S2 = cs_sp S0" using marksD(3) by (metis cilksan.ext_inject cilksan.surjective cilksan.update_convs(2))
    then show ?thesis using h(2,3) by (auto simp: add_reports_def)
  qed simp
  moreover have "sp_new (cs_sp S') = sp_new (cs_sp S1)"
    using r by (auto simp: bind_eq_Some_conv access_node_def getSbagForAccess_eq on_bags_def sp_inc_ref_def cs_put_frame_def
        split: option.splits)
  ultimately show ?thesis using A(1) by (simp add: same_tool_def)
qed

lemma ex_access_ok: "access_ok 4096 8 8" "goes_fast 8 8"
proof -
  have "unat (8 :: u32) = 2 ^ 3 \<and> 2 ^ 3 dvd unat (4096 :: u64)" by simp
  then show "access_ok 4096 8 8"
    unfolding access_ok_def by (auto simp: range48_def chunk48_def intro!: exI [of _ 3])
  show "goes_fast 8 8" by (simp add: goes_fast_def LG_SMALL_ACCESS_SIZE_def SD_LG_LINE_SIZE_def push_bit_eq_mult)
qed

lemma ex_range: "in_chunk (Chunk 4096 8) 4096"
  by (simp add: in_chunk_def)

text \<open>The child has written and returned, and its parent continues.\<close>

lemma ex_written:
  obtains k S E L d D ma where "mem_reach ex_user k S E L (d # D)" "0 \<notin> d_cur d" "\<forall>e \<in> set D. \<not> d_loop e" "\<not> d_synced d"
    "L 0 = Some (False, 4096, 8)" "Dict_view (sm_dict False (cs_shadow S)) 4096 = Some ma"
    "E 0 = Some (getFuncFromVerFunc ma, unat (getVersionFromVerFunc ma))"
proof -
  obtain S d f g where R: "mem_reach ex_user 0 S no_entries Map.empty [d, f, g]" "sp_new (cs_sp S) \<noteq> []"
    "d_pend d = []" "\<not> d_loop d" "d_detach d" "length (d_pend f) = 1" "\<not> d_loop f" "0 \<notin> d_cur f" "\<not> d_loop g" "\<not> d_synced f"
    by (rule ex_child)
  have sim: "mem_sim 0 S no_entries Map.empty [d, f, g]" by (rule mem_reach_sim [OF R(1)])
  obtain S1 where S1: "do_access False RW 7 4096 8 8 S = Some S1" "\<exists>fs. tool_sim S1 no_entries 0 fs [d, f, g]"
    using mem_sim_do_access [OF sim ex_access_ok(1), of False RW 7] by blast
  obtain fs where s1: "tool_sim S1 no_entries 0 fs [d, f, g]" using S1(2) by blast
  have "step_ok (Record 0) 0 S1 no_entries [d, f, g]" by (simp add: step_ok_def no_entries_def)
  then obtain S2 E where S2: "tool_act ex_user (Record 0) S1 no_entries = Some (S2, E)"
    using tool_step [OF s1, of "Record 0" ex_user] unfolding steps_to_def by blast
  let ?L = "Map.empty(0 \<mapsto> (False, 4096 :: u64, 8 :: u64))" and ?d = "d\<lparr>d_cur := insert 0 (d_cur d)\<rparr>"
  have R2: "mem_reach ex_user 0 S2 E ?L [?d, f, g]"
    using mem_access [OF R(1) ex_access_ok(1) _ S1(1) S2] by (simp add: no_entries_def)
  obtain ma where ma: "Dict_view (sm_dict False (cs_shadow S2)) 4096 = Some ma"
  proof -
    have "\<not> access_skips False 4096 8 8 (cs_shadow S)" using ex_access_ok(2) by (simp add: access_skips_def)
    then obtain x v sh rs where c: "Shadow_ok sh" "\<And>r. Dict_view (sm_dict r sh) = Dict_view (sm_dict r (cs_shadow S))"
      "access_checked False (cs_yes S) (MASetFn x v 7 RW) (in_chunk (Chunk 4096 8)) 7 RW sh (cs_shadow S1) rs"
      using reach_checked [OF R(1) ex_access_ok(1) S1(1)] by auto
    have "recorded no_entries Map.empty False (Dict_view (sm_dict False (cs_shadow S)))"
      using sim mem_invD(3) unfolding mem_sim_def by blast
    then have none: "Dict_view (sm_dict False sh) 4096 = None"
      by (cases "Dict_view (sm_dict False (cs_shadow S)) 4096") (auto simp: c(2) recorded_def no_entries_def)
    have "updates_on (cs_yes S) (MASetFn x v 7 RW) (in_chunk (Chunk 4096 8))
        (Dict_view (sm_dict False sh)) (Dict_view (sm_dict False (cs_shadow S1)))"
      by (rule access_checked_ok(3) [OF c(3,1)])
    from this [unfolded updates_on_def, rule_format, of 4096] none ex_range
    have "Dict_view (sm_dict False (cs_shadow S1)) 4096 \<noteq> None" by (auto simp: sets_from_def)
    moreover have "keeps S1 S2" by (rule act_keeps [OF s1 S2])
    ultimately show ?thesis using that shadow_occD(2) by (auto simp: keeps_def)
  qed
  have E0: "E 0 = Some (getFuncFromVerFunc ma, unat (getVersionFromVerFunc ma))"
  proof -
    have "recorded E ?L False (Dict_view (sm_dict False (cs_shadow S2)))"
      using mem_reach_sim [OF R2] mem_invD(3) unfolding mem_sim_def by blast
    then obtain t where "E t = Some (getFuncFromVerFunc ma, unat (getVersionFromVerFunc ma))" "covers ?L t False 4096"
      using ma unfolding recorded_def by blast
    then show ?thesis by (auto simp: covers_def split: if_splits)
  qed
  have "sp_new (cs_sp S2) \<noteq> []" using do_access_supply [OF sim ex_access_ok(1) S1(1) S2] R(2) by simp
  then have "step_ok (Leave 0) 0 S2 E [?d, f, g]" using R(3-6) by (simp add: step_ok_def)
  from mem_reach_plain [OF R2 this] obtain S3 where S3: "mem_reach ex_user 1 S3 E ?L [d_join 0 (d_all ?d) f, g]"
    "Dict_view (sm_dict False (cs_shadow S3)) = Dict_view (sm_dict False (cs_shadow S2))"
    using R(3-5) by auto
  have "step_ok (DetachContinue 0) 1 S3 E [d_join 0 (d_all ?d) f, g]" by (simp add: step_ok_def)
  from mem_reach_plain [OF S3(1) this] obtain S4 where S4: "mem_reach ex_user 1 S4 E ?L [d_join 0 (d_all ?d) f, g]"
    "Dict_view (sm_dict False (cs_shadow S4)) = Dict_view (sm_dict False (cs_shadow S3))" by auto
  show ?thesis
    by (rule that [OF S4(1)]) (use R(8-10) S3(2) S4(2) ma E0 in \<open>simp_all add: d_join_def\<close>)
qed

subsection \<open>The theorems\<close>

text \<open>
  C7.  Reads and writes always return: in every run (of nested control-flow events as step_ok
  says, and of accesses), the handler of an access with a valid range and a truthful alignment
  ends, whatever is recorded in the shadow memory. Every query about a recorded access ends with
  an answer (a query that fails, because find_set does not end or a node is null or freed, makes
  the handler fail), no null pointer is dereferenced and no table is read out of bounds.
\<close>

theorem accesses_never_fail:
  assumes "mem_reach U k S E L D" "access_ok addr s alignment"
  shows "\<exists>S'. do_access rd type acc_id addr s alignment S = Some S'"
  using mem_sim_do_access [OF mem_reach_sim [OF assms(1)] assms(2)] by blast

lemma accesses_never_fail_witness:
  "\<exists>k S E L d D S'. mem_reach ex_user k S E L (d # D) \<and> L 0 = Some (False, 4096, 8) \<and>
     do_access True RW 9 4096 8 8 S = Some S'"
proof -
  obtain k S E L d D where r: "mem_reach ex_user k S E L (d # D)" "L 0 = Some (False, 4096, 8)"
    by (rule ex_written) blast
  show ?thesis using accesses_never_fail [OF r(1) ex_access_ok(1)] r by blast
qed

text \<open>
  C5.  No false races: in every run of the tool, with control-flow events and accesses of any
  sizes on the fast and the slow path, every race that an access reports is of a byte of this
  access, with an earlier access of the program that covers this byte, conflicts with it (one of
  the two writes) and does not precede the current strand in the series-parallel order. Loops
  whose bodies spawn and sync are included (step_ok: a function has synced when it returns, an
  iteration its regions above 0 when it ends); no locks are held and there are no reducers.
\<close>

theorem no_false_races:
  assumes reach: "mem_reach U k S E L (d # D)" and ok: "access_ok addr s alignment"
    and a: "do_access rd type acc_id addr s alignment S = Some S'"
  shows "\<exists>rs. cs_reports S' = cs_reports S @ rs \<and> (\<forall>r \<in> set rs.
    in_chunk (Chunk addr s) (rp_addr r) \<and> rp_acc_id r = acc_id \<and> rp_type r = type \<and>
    (\<exists>t rd'. covers L t rd' (rp_addr r) \<and> \<not> (rd \<and> rd') \<and> rp_race r = race_between rd' rd \<and> t \<notin> d_cur d \<and>
       E t = Some (getFuncFromVerFunc (rp_prev r), unat (getVersionFromVerFunc (rp_prev r)))))"
  by (rule sim_reports_races [OF mem_reach_sim [OF reach] ok a])

lemma no_false_races_witness:
  "\<exists>k S E L d D S' rs. mem_reach ex_user k S E L (d # D) \<and> do_access True RW 9 4096 8 8 S = Some S' \<and>
     cs_reports S' = cs_reports S @ rs \<and> (\<forall>r \<in> set rs. \<exists>t. covers L t False (rp_addr r) \<and> t \<notin> d_cur d)"
proof -
  obtain k S E L d D where r: "mem_reach ex_user k S E L (d # D)" by (rule ex_written) blast
  obtain S' where a: "do_access True RW 9 4096 8 8 S = Some S'"
    using mem_sim_do_access [OF mem_reach_sim [OF r] ex_access_ok(1)] by blast
  show ?thesis using no_false_races [OF r ex_access_ok(1) a] r a by fastforce
qed



end
