(* ===== verification/DriverSteps.thy ===== *)
theory DriverSteps
  imports DriverState MemSafety
begin

text \<open>
  What the hooks do to the tool and to the stacks of the driver, piece by piece.
\<close>

subsection \<open>The tool\<close>

definition synced :: "'x dframe \<Rightarrow> bool" where
  "synced d \<longleftrightarrow> \<not> d_loop d \<and> (\<forall>P \<in> set (d_pend d). P = None)"

lemma sim_synced:
  assumes "tool_sim S E k fs (d # D)"
  shows "is_local_synced S = Some (synced d)" "handle_loop S = Some (d_loop d \<or> cs_start_new_loop S)"
proof -
  obtain f gs where fs: "fs = f # gs" using sim_ne [OF assms] by (cases fs) auto
  note T = tool_okD [OF tool_simD(2) [OF assms]]
  have anc: "cs_ancestor 0 S = Some f" using cs_at_ancestor [OF T(1), of 0] fs by simp
  have sh: "shapes f d" using sim_frames [OF tool_simD(3) [OF assms]] fs by simp
  have "frame_pbags f = Some (pbags_of f)" by (rule frame_ok_pbags [OF T(4)]) (simp add: fs)
  moreover have "list_all (\<lambda>p. p = 0) (pbags_of f) \<longleftrightarrow> (\<forall>P \<in> set (d_pend d). P = None)" if "\<not> d_loop d"
    using that sh unfolding shapes_def by (auto simp: list_all_length all_set_conv_all_nth)
  ultimately show "is_local_synced S = Some (synced d)" "handle_loop S = Some (d_loop d \<or> cs_start_new_loop S)"
    using sh anc by (simp_all add: is_local_synced_def handle_loop_def in_loop_def synced_def shapes_def is_loop_frame_def)
qed

lemma act_loop_flag:
  assumes sim: "tool_sim S E k fs D" and act: "tool_act U a S E = Some (S', E')"
  shows "cs_start_new_loop S' =
    (case a of LoopBegin \<Rightarrow> True | IterationBegin n \<Rightarrow> False | _ \<Rightarrow> cs_start_new_loop S)"
proof -
  have red: "reduce_local_views U S = Some S" by (rule sim_reduce [OF sim]) simp_all
  have red1: "reduce_local_views U S1 = Some S1" if "end_strand S = Some S1" for S1
    by (rule sim_reduce [OF sim]) (use that in \<open>auto simp: end_strand_def on_shadow_def\<close>)
  have strand: "part_kept cs_start_new_loop S1 (end_strand S2)" if "cs_start_new_loop S2 = cs_start_new_loop S1"
    for S1 S2 :: "'a cilksan"
    using that by (auto simp: part_kept_def end_strand_def on_shadow_def)
  show ?thesis
  proof (cases a)
    case (Enter n)
    then show ?thesis using act part_keptD [OF loop.do_enter_part(1) [OF refl]] by auto
  next
    case (EnterHelper n)
    then show ?thesis using act part_keptD [OF loop.do_enter_part(2) [OF refl]] by auto
  next
    case Detach
    then show ?thesis using act part_keptD [OF strand [OF refl]] by (auto simp: do_detach_def)
  next
    case (DetachContinue r)
    have "part_kept cs_start_new_loop S (do_detach_continue U r S)"
      unfolding do_detach_continue_def red bind.bind_lunit by (rule strand part_rules refl | simp)+
    then show ?thesis using act DetachContinue part_keptD by auto
  next
    case (IterationBegin n)
    then show ?thesis using act
      by (auto simp: do_loop_iteration_begin_def bind_eq_Some_conv cs_put_frame_def
          dest!: part_keptD [OF strand [OF refl]] split: if_splits)
  next
    case IterationEnd
    have "part_kept cs_start_new_loop S (do_loop_iteration_end U S)"
      unfolding do_loop_iteration_end_def red bind.bind_lunit Let_def
      by (rule strand part_rules loop.part_ops refl | simp)+
    then show ?thesis using act IterationEnd part_keptD by auto
  next
    case (LoopEnd r)
    then show ?thesis using act part_keptD [OF loop.do_loop_end_part [OF refl]] by auto
  next
    case (Sync r)
    then obtain S1 where S1: "end_strand S = Some S1" using act by (auto simp: do_sync_def bind_eq_Some_conv)
    have "part_kept cs_start_new_loop S1 (do { S \<leftarrow> complete_sync r S1; f \<leftarrow> cs_ancestor 0 S;
        f \<leftarrow> exit_continuation (unat r) f; Some (cs_put_frame 0 f S) })"
      by (rule strand part_rules loop.part_handlers refl | simp)+
    then have "part_kept cs_start_new_loop S1 (do_sync U r S)"
      unfolding do_sync_def S1 bind.bind_lunit red1 [OF S1] .
    then show ?thesis using act Sync part_keptD [of cs_start_new_loop] part_keptD [OF strand [OF refl] S1] by fastforce
  next
    case (Leave r)
    then show ?thesis using act part_keptD [OF loop.do_leave_part [OF refl]] by auto
  qed (use act in \<open>auto simp: do_loop_begin_def access_node_def access_in_parallel_def getSbagForAccess_eq
      bind_eq_Some_conv on_bags_def cs_put_frame_def\<close>)
qed

text \<open>The tool in a run of hooks: \<open>cs\<close> is its call stack, \<open>w\<close> whether a loop waits for its first iteration,
  and \<open>xs\<close> the bounds of the frames on the stack of the program.\<close>

definition tool_st :: "nat \<Rightarrow> 'm cilksan \<Rightarrow> entries \<Rightarrow> access_log \<Rightarrow> nat dframe list \<Rightarrow> CallID_t list \<Rightarrow> bool \<Rightarrow> u64 list \<Rightarrow> bool" where
  "tool_st k S E L D cs w xs \<longleftrightarrow>
     mem_sim k S E L D \<and> cs_lockset_empty S \<and> cs_call_stack S = cs \<and> cs_start_new_loop S = w \<and> holds (cs_sp_stack S) xs"

lemma tool_stD:
  assumes "tool_st k S E L D cs w xs"
  shows "mem_sim k S E L D" "cs_lockset_empty S" "cs_call_stack S = cs" "cs_start_new_loop S = w" "holds (cs_sp_stack S) xs"
  using assms by (simp_all add: tool_st_def)

lemma mem_sim_cong:
  assumes "mem_sim k S E L D" "cs_frame_stack S' = cs_frame_stack S" "cs_sp S' = cs_sp S" "cs_shadow S' = cs_shadow S"
    "Stack_wf (cs_sp_stack S')"
  shows "mem_sim k S' E L D"
proof -
  obtain fs where sim: "tool_sim S E k fs D" and inv: "mem_inv S E L" using assms(1) unfolding mem_sim_def by blast
  have "tool_sim S' E k fs D"
    by (rule tool_sim_cong [OF sim assms(2,3)]) (use tool_okD(3) [OF tool_simD(2) [OF sim]] assms(4) in simp)
  moreover have "mem_inv S' E L" using inv assms(4,5) by (simp add: mem_inv_def)
  ultimately show ?thesis using assms(1) unfolding mem_sim_def by blast
qed

lemma tool_st_cong:
  assumes "tool_st k S E L D cs w xs" "cs_frame_stack S' = cs_frame_stack S" "cs_sp S' = cs_sp S"
    "cs_shadow S' = cs_shadow S" "cs_lockset_empty S' = cs_lockset_empty S" "cs_start_new_loop S' = cs_start_new_loop S"
    "holds (cs_sp_stack S') ys"
  shows "tool_st k S' E L D (cs_call_stack S') w ys"
proof -
  note T = tool_stD [OF assms(1)]
  have "mem_sim k S' E L D" by (rule mem_sim_cong [OF T(1) assms(2-4)]) (use assms(7) in \<open>simp add: holds_def\<close>)
  then show ?thesis using T assms by (simp add: tool_st_def)
qed

fun loop_flag :: "action \<Rightarrow> bool \<Rightarrow> bool" where
  "loop_flag LoopBegin w = True"
| "loop_flag (IterationBegin n) w = False"
| "loop_flag a w = w"

lemma tool_st_act:
  assumes st: "tool_st k S E L D cs w xs" and ok: "step_ok a k S E D" and p: "plain_act a"
  shows "\<exists>S'. tool_act U a S E = Some (S', E) \<and>
    tool_st (k + rank_cost a D) S' E L (d_step (event_of a w) D) cs (loop_flag a w) xs \<and>
    tool_part S' = tool_part S \<and> cs_reports S' = cs_reports S"
proof -
  note T = tool_stD [OF st]
  have c: "control_ok a S E L" using p by (cases a) simp_all
  obtain S' E' where act: "tool_act U a S E = Some (S', E')"
    and sim: "mem_sim (k + rank_cost a D) S' E' L (d_step (event_of a w) D)"
    using mem_sim_control [OF T(1) ok c] T(4) by blast
  obtain fs where s: "tool_sim S E k fs D" using T(1) unfolding mem_sim_def by blast
  have E: "E' = E" using act_entries [OF act] p by auto
  have K: "keeps S S'" by (rule act_keeps [OF s act])
  have "cs_start_new_loop S' = loop_flag a w" using act_loop_flag [OF s act] T(4) by (cases a) simp_all
  then show ?thesis using act sim E K T by (auto simp: tool_st_def keeps_def tool_part_def)
qed

lemma plain_moves: "plain_act a \<Longrightarrow> moves (event_of a w)"
  by (cases a) simp_all

lemma tool_st_push_frame:
  assumes "tool_st k S E L D cs w xs" "shallow (cs_sp_stack S)"
  shows "tool_st k (push_stack_frame bp sp S) E L D cs w (sp # bp # xs)"
proof -
  note T = tool_stD [OF assms(1)]
  have "tool_st k (push_stack_frame bp sp S) E L D (cs_call_stack (push_stack_frame bp sp S)) w (sp # bp # xs)"
    by (rule tool_st_cong [OF assms(1)])
      (use holds_push2 [OF T(5) assms(2)] in \<open>simp_all add: push_stack_frame_def\<close>)
  then show ?thesis using T(3) by (simp add: push_stack_frame_def)
qed

lemma clear_frame:
  "clear_shadow_memory start s S = Some S' \<Longrightarrow> \<exists>sh. S' = S\<lparr>cs_shadow := sh\<rparr>"
  "clear_alloc start s S = Some S' \<Longrightarrow> \<exists>sh. S' = S\<lparr>cs_shadow := sh\<rparr>"
  by (auto simp: clear_shadow_memory_def clear_alloc_def on_shadow_def split: if_splits intro: exI [of _ "cs_shadow S"])

lemma tool_st_pop_frame:
  assumes st: "tool_st k S E L D cs w (lo # hi # x # xs)" and b: "lo \<noteq> 0" "lo \<le> hi" "unat hi < 2 ^ 48"
  shows "\<exists>S'. pop_stack_frame S = Some S' \<and> tool_st k S' E L D cs w (x # xs) \<and> cs_reports S' = cs_reports S"
proof -
  note T = tool_stD [OF st]
  obtain fs where sim: "tool_sim S E k fs D" and inv: "mem_inv S E L" using T(1) unfolding mem_sim_def by blast
  have sub: "unat (hi - lo) = unat hi - unat lo" by (rule unat_sub [OF b(2)])
  have le: "unat lo \<le> unat hi" using b(2) by (simp add: word_le_nat_alt)
  have r: "range_ok lo (hi - lo)"
    using b sub le by (auto simp: range_ok_def range48_def chunk48_def)
  have c: "rev (Stack_contents (cs_sp_stack S)) = lo # hi # x # xs" using T(5) by (simp add: holds_def)
  have "mem_event_ok PopFrame S" using c b(2) r by simp
  from mem_event_step [OF sim inv this] obtain S' fs' where S': "pop_stack_frame S = Some S'"
    "tool_sim S' E k fs' D" "mem_inv S' E L" "cs_reports S' = cs_reports S" by auto
  let ?s2 = "Stack_pop 0 (Stack_pop 0 (cs_sp_stack S))"
  have h: "holds ?s2 (x # xs)" by (intro holds_pop [OF holds_pop [OF T(5)]])
  obtain S1 where S1: "clear_shadow_memory lo (hi - lo) (S\<lparr>cs_sp_stack := ?s2\<rparr>) = Some S1"
    "clear_alloc lo (hi - lo) S1 = Some S'"
    using S'(1) holds_back [OF T(5)] holds_back [OF holds_pop [OF T(5)]] b(2)
    by (auto simp: pop_stack_frame_def Let_def bind_eq_Some_conv)
  obtain sh sh' where "S' = S\<lparr>cs_sp_stack := ?s2, cs_shadow := sh, cs_shadow := sh'\<rparr>"
    using clear_frame(1) [OF S1(1)] clear_frame(2) [OF S1(2)] by blast
  then have "cs_lockset_empty S' = cs_lockset_empty S" "cs_call_stack S' = cs_call_stack S"
    "cs_start_new_loop S' = cs_start_new_loop S" "cs_sp_stack S' = ?s2" by simp_all
  then show ?thesis using S' T h unfolding tool_st_def mem_sim_def by auto
qed

lemma tool_st_call: "tool_st k S E L D cs w xs \<Longrightarrow> tool_st k (record_call_id i ty S) E L D (CallID_make ty i # cs) w xs"
  using tool_st_cong [of k S E L D cs w xs "record_call_id i ty S" xs] tool_stD [of k S E L D cs w xs]
  by (simp add: record_call_id_def)

lemma tool_st_return:
  assumes "tool_st k S E L D (CallID_make ty i # cs) w xs"
  shows "\<exists>S'. record_call_return_id i ty S = Some S' \<and> tool_st k S' E L D cs w xs"
  using tool_st_cong [of k S E L D _ w xs "S\<lparr>cs_call_stack := cs\<rparr>" xs] tool_stD [OF assms] assms
  by (simp add: record_call_return_id_def)

lemma tool_st_bounds:
  "tool_st k S E L D cs w xs \<Longrightarrow> tool_st k (S\<lparr>cs_stack_low := l, cs_stack_high := h\<rparr>) E L D cs w xs"
  using tool_st_cong [of k S E L D cs w xs "S\<lparr>cs_stack_low := l, cs_stack_high := h\<rparr>" xs] tool_stD [of k S E L D cs w xs]
  by simp

lemma tool_st_synced:
  assumes "tool_st k S E L (d # D) cs w xs"
  shows "is_local_synced S = Some (synced d)" "handle_loop S = Some (d_loop d \<or> w)"
proof -
  obtain fs where "tool_sim S E k fs (d # D)" using tool_stD(1) [OF assms] unfolding mem_sim_def by blast
  from sim_synced [OF this] tool_stD(4) [OF assms]
  show "is_local_synced S = Some (synced d)" "handle_loop S = Some (d_loop d \<or> w)" by simp_all
qed

text \<open>The guard of a handler does not see the stacks of calls and of the program.\<close>

lemma step_ok_cong:
  assumes "step_ok a k S E D" "cs_frame_stack S' = cs_frame_stack S" "cs_sp S' = cs_sp S"
    "cs_start_new_loop S' = cs_start_new_loop S"
  shows "step_ok a k S' E D"
  using assms by (cases a) (simp_all add: step_ok_def)

end
