(* ===== verification/DriverRuns.thy ===== *)
theory DriverRuns
  imports DriverSteps
begin

text \<open>
  Runs of the hooks: \<open>hook_reach U H G\<close> says that the driver is in state \<open>H\<close> after the hooks of some program,
  and \<open>G\<close> keeps what the program has done.  Hooks come properly nested, as the compiler inserts them.
\<close>

subsection \<open>Hooks and what the program has done\<close>

datatype hook =
  FuncEntry csi_id_t u64 u64 func_prop_t
| FuncExit csi_id_t csi_id_t
| BeforeCall csi_id_t csi_id_t u32
| AfterCall csi_id_t csi_id_t u32
| SetMAAP MAAP_t csi_id_t
| DetachHook csi_id_t u32 bool
| TaskHook csi_id_t csi_id_t u64 u64 task_prop_t
| TaskExit csi_id_t csi_id_t csi_id_t u32 bool
| DetachCont csi_id_t csi_id_t u32 bool
| BeforeLoop csi_id_t
| AfterLoop csi_id_t u32
| SyncHook csi_id_t u32

fun run_hook :: "'m user_code \<Rightarrow> hook_env \<Rightarrow> hook \<Rightarrow> 'm driver \<Rightarrow> 'm driver option" where
  "run_hook U env (FuncEntry i bp sp p) H = csan_func_entry env i bp sp p H"
| "run_hook U env (FuncExit e i) H = csan_func_exit e i H"
| "run_hook U env (BeforeCall i f n) H = csan_before_call env i f n H"
| "run_hook U env (AfterCall i f n) H = csan_after_call i f n H"
| "run_hook U env (SetMAAP m i) H = Some (csan_set_MAAP m i H)"
| "run_hook U env (DetachHook i r l) H = csan_detach env i r l H"
| "run_hook U env (TaskHook t i bp sp p) H = csan_task t i bp sp p H"
| "run_hook U env (TaskExit e t i r l) H = csan_task_exit U e t i r l H"
| "run_hook U env (DetachCont c i r l) H =
     csan_detach_continue U c i r \<lparr>dp_is_unwind = False, dp_for_tapir_loop_body = l\<rparr> H"
| "run_hook U env (BeforeLoop i) H = csan_before_loop env i True H"
| "run_hook U env (AfterLoop i r) H = csan_after_loop i r True H"
| "run_hook U env (SyncHook i r) H = csan_sync U i r H"

text \<open>
  The program so far: \<open>g_A\<close> are the open activations; the accesses that are recorded have numbers in \<open>g_E\<close>
  and \<open>g_L\<close>, all accesses in \<open>g_F\<close>; \<open>g_D\<close> and \<open>g_Z\<close> are the dags of the recorded and of all accesses;
  \<open>g_K\<close> are the accesses that were skipped because the execution was serial; \<open>g_k\<close> bounds ranks.
\<close>

record ghost =
  g_k :: nat
  g_E :: entries
  g_L :: access_log
  g_D :: "nat dframe list"
  g_F :: access_log
  g_Z :: "nat dframe list"
  g_K :: "nat set"
  g_A :: "activation list"

definition ghost_act :: "action \<Rightarrow> ghost \<Rightarrow> ghost" where
  "ghost_act a G =
     (let e = event_of a (loop_waits (g_A G))
      in G\<lparr>g_k := g_k G + rank_cost a (g_D G), g_D := d_step e (g_D G), g_Z := d_step e (g_Z G)\<rparr>)"

text \<open>The tool has no frame for a function that cannot spawn and is called where nothing is outstanding.\<close>

definition skips_frame :: "func_prop_t \<Rightarrow> ghost \<Rightarrow> bool" where
  "skips_frame p G \<longleftrightarrow> \<not> fp_may_spawn p \<and> synced (hd (g_D G))"

fun hook_ghost :: "hook \<Rightarrow> ghost \<Rightarrow> ghost" where
  "hook_ghost (FuncEntry i bp sp p) G =
     (if skips_frame p G then G\<lparr>g_A := A_func True # g_A G\<rparr>
      else (ghost_act (Enter (ucast (fp_num_sync_reg p))) G)\<lparr>g_A := A_func False # g_A G\<rparr>)"
| "hook_ghost (FuncExit e i) G =
     (if hd (g_A G) = A_func True then G else ghost_act (Leave 0) G)\<lparr>g_A := tl (g_A G)\<rparr>"
| "hook_ghost (BeforeCall i f n) G = G\<lparr>g_A := A_call i n # g_A G\<rparr>"
| "hook_ghost (AfterCall i f n) G = G\<lparr>g_A := tl (g_A G)\<rparr>"
| "hook_ghost (SetMAAP m i) G = G"
| "hook_ghost (DetachHook i r l) G = G\<lparr>g_A := (if l then A_loop_spawn else A_spawn i) # g_A G\<rparr>"
| "hook_ghost (TaskHook t i bp sp p) G =
     (if tp_is_tapir_loop_body p
      then (ghost_act (IterationBegin (ucast (tp_num_sync_reg p))) G)\<lparr>g_A :=
        (case g_A G of A_loop_spawn # A_loop j b # A \<Rightarrow> A_iter # A_loop j True # A | A \<Rightarrow> A)\<rparr>
      else (ghost_act (EnterHelper (ucast (tp_num_sync_reg p))) G)\<lparr>g_A := A_task # g_A G\<rparr>)"
| "hook_ghost (TaskExit e t i r l) G =
     (if l then ghost_act IterationEnd G else ghost_act (Leave r) G)\<lparr>g_A := tl (g_A G)\<rparr>"
| "hook_ghost (DetachCont c i r l) G =
     (if l then G else (ghost_act (DetachContinue r) G)\<lparr>g_A := tl (g_A G)\<rparr>)"
| "hook_ghost (BeforeLoop i) G = (ghost_act LoopBegin G)\<lparr>g_A := A_loop i False # g_A G\<rparr>"
| "hook_ghost (AfterLoop i r) G = (ghost_act (LoopEnd r) G)\<lparr>g_A := A_loop_sync r # tl (g_A G)\<rparr>"
| "hook_ghost (SyncHook i r) G =
     (ghost_act (Sync r) G)\<lparr>g_A := (if loop_ended (g_A G) then tl (g_A G) else g_A G)\<rparr>"

text \<open>The stacks are far from \<open>2 ^ 31\<close> entries.\<close>

definition all_shallow :: "'m driver \<Rightarrow> bool" where
  "all_shallow H \<longleftrightarrow> shallow (parallel_execution H) \<and> shallow (spbags_frame_skipped H) \<and> shallow (switched_stack H) \<and>
     shallow (MAAPs H) \<and> shallow (MAAP_counts H) \<and> shallow (cs_sp_stack (dr_cs H))"

definition stack_addr :: "u64 \<Rightarrow> bool" where
  "stack_addr a \<longleftrightarrow> a \<noteq> 0 \<and> unat a < 2 ^ 48"

text \<open>How the compiler nests the hooks, and what the handlers of the tool rely on (\<open>step_ok\<close>).  A parallel
  loop is synced right after its end: in between, the driver takes the execution for serial again.\<close>

definition guard_act :: "action \<Rightarrow> 'm driver \<Rightarrow> ghost \<Rightarrow> bool" where
  "guard_act a H G \<longleftrightarrow> step_ok a (g_k G) (dr_cs H) (g_E G) (g_D G)"

fun hook_ok :: "hook \<Rightarrow> 'm driver \<Rightarrow> ghost \<Rightarrow> bool" where
  "hook_ok (FuncEntry i bp sp p) H G \<longleftrightarrow> all_shallow H \<and> stack_addr bp \<and> stack_addr sp \<and>
     may_call (g_A G) \<and>
     (skips_frame p G \<or> guard_act (Enter (ucast (fp_num_sync_reg p))) H G)"
| "hook_ok (FuncExit e i) H G \<longleftrightarrow>
     (\<exists>s A. g_A G = A_func s # A \<and> (s \<or> guard_act (Leave 0) H G))"
| "hook_ok (BeforeCall i f n) H G \<longleftrightarrow> all_shallow H \<and> in_body (g_A G) \<and> unat i < length (call_pc (pcs H)) \<and>
     act_MAAPs (g_A G) + unat n \<le> unat (stk_head (MAAPs H))"
| "hook_ok (AfterCall i f n) H G \<longleftrightarrow> (\<exists>A. g_A G = A_call i n # A)"
| "hook_ok (SetMAAP m i) H G \<longleftrightarrow> all_shallow H \<and> in_body (g_A G)"
| "hook_ok (DetachHook i r l) H G \<longleftrightarrow> unat i < length (spawn_pc (pcs H)) \<and>
     (if l then \<exists>j b A. g_A G = A_loop j b # A else owns_frame (g_A G))"
| "hook_ok (TaskHook t i bp sp p) H G \<longleftrightarrow> all_shallow H \<and> stack_addr bp \<and> stack_addr sp \<and> sp \<le> bp \<and>
     (if tp_is_tapir_loop_body p
      then (\<exists>j b A. g_A G = A_loop_spawn # A_loop j b # A) \<and> guard_act (IterationBegin (ucast (tp_num_sync_reg p))) H G
      else (\<exists>A. g_A G = A_spawn i # A) \<and> guard_act (EnterHelper (ucast (tp_num_sync_reg p))) H G)"
| "hook_ok (TaskExit e t i r l) H G \<longleftrightarrow>
     (if l then (\<exists>A. g_A G = A_iter # A) \<and> guard_act IterationEnd H G
      else (\<exists>A. g_A G = A_task # A) \<and> guard_act (Leave r) H G)"
| "hook_ok (DetachCont c i r l) H G \<longleftrightarrow>
     (l \<or> (\<exists>A. g_A G = A_spawn i # A) \<and> guard_act (DetachContinue r) H G)"
| "hook_ok (BeforeLoop i) H G \<longleftrightarrow> all_shallow H \<and> owns_frame (g_A G) \<and> unat i < length (loop_pc (pcs H))"
| "hook_ok (AfterLoop i r) H G \<longleftrightarrow> (\<exists>A. g_A G = A_loop i True # A) \<and> guard_act (LoopEnd r) H G"
| "hook_ok (SyncHook i r) H G \<longleftrightarrow>
     (owns_frame (g_A G) \<or> (\<exists>A. g_A G = A_loop_sync r # A)) \<and> guard_act (Sync r) H G"

subsection \<open>The invariant\<close>

definition driver_flags :: "'m driver \<Rightarrow> bool" where
  "driver_flags H \<longleftrightarrow> CILKSAN_INITIALIZED H \<and> \<not> first_call H \<and> should_check H"

definition driver_stacks :: "'m driver \<Rightarrow> activation list \<Rightarrow> nat dframe list \<Rightarrow> bool" where
  "driver_stacks H A D \<longleftrightarrow>
     (\<exists>ps. holds (parallel_execution H) ps \<and> pe_ok ps A D) \<and>
     (\<exists>g. holds (spbags_frame_skipped H) (act_skips A @ [g])) \<and>
     (\<exists>xs. holds (switched_stack H) xs \<and> length xs = Suc (act_stacks A)) \<and>
     (\<exists>g. holds (MAAP_counts H) (act_counts A @ [g])) \<and>
     (\<exists>xs. holds (MAAPs H) xs \<and> act_MAAPs A < length xs)"

definition tool_runs :: "'m cilksan \<Rightarrow> ghost \<Rightarrow> bool" where
  "tool_runs S G \<longleftrightarrow> (\<exists>xs. tool_st (g_k G) S (g_E G) (g_L G) (g_D G) (act_calls (g_A G)) (loop_waits (g_A G)) xs \<and>
     sp_ok xs (g_A G))"

definition driver_ok :: "'m driver \<Rightarrow> ghost \<Rightarrow> bool" where
  "driver_ok H G \<longleftrightarrow> driver_flags H \<and> driver_stacks H (g_A G) (g_D G) \<and> tool_runs (dr_cs H) G \<and>
     dag_part (g_E G) (g_F G) (g_K G) (g_D G) (g_Z G) \<and> g_L G \<subseteq>\<^sub>m g_F G"

lemma driver_okD:
  assumes "driver_ok H G"
  shows "driver_flags H" "driver_stacks H (g_A G) (g_D G)" "tool_runs (dr_cs H) G"
    "dag_part (g_E G) (g_F G) (g_K G) (g_D G) (g_Z G)" "g_L G \<subseteq>\<^sub>m g_F G"
  using assms by (simp_all add: driver_ok_def)

lemma dag_part_ghost:
  assumes "dag_part (g_E G) (g_F G) (g_K G) (g_D G) (g_Z G)" "guard_act a H G" "plain_act a"
    "cs_start_new_loop (dr_cs H) = loop_waits (g_A G)"
  shows "dag_part (g_E G) (g_F G) (g_K G) (g_D (ghost_act a G)) (g_Z (ghost_act a G))"
  using dag_part_moves [OF assms(1) _ plain_moves [OF assms(3)]] assms(2,4)
  by (simp add: ghost_act_def Let_def guard_act_def step_ok_def)

lemma ghost_act_simps [simp]:
  "g_E (ghost_act a G) = g_E G" "g_L (ghost_act a G) = g_L G" "g_F (ghost_act a G) = g_F G"
  "g_K (ghost_act a G) = g_K G" "g_A (ghost_act a G) = g_A G"
  "g_D (ghost_act a G) = d_step (event_of a (loop_waits (g_A G))) (g_D G)"
  "g_k (ghost_act a G) = g_k G + rank_cost a (g_D G)"
  by (simp_all add: ghost_act_def Let_def)

subsection \<open>The pieces of the hooks\<close>

lemma push_pe_ok:
  assumes "holds (parallel_execution H) (c # ps)" "shallow (parallel_execution H)"
  shows "\<exists>s. push_pe H = Some (H\<lparr>parallel_execution := s\<rparr>) \<and> holds s (c # c # c # ps)"
  using holds_push2 [OF assms, of 0 c c] holds_back [OF assms(1)]
  by (intro exI [of _ "Stack_push_back 0 c (Stack_push_back 0 c (parallel_execution H))"]) (simp add: push_pe_def)

lemma pop_pe_ok:
  assumes "holds (parallel_execution H) (a # b # c # ps)"
  shows "\<exists>s. pop_pe H = H\<lparr>parallel_execution := s\<rparr> \<and> holds s (c # ps)"
  using holds_pop [OF holds_pop [OF assms]]
  by (intro exI [of _ "Stack_pop 0 (Stack_pop 0 (parallel_execution H))"]) (simp add: pop_pe_def)

definition bounds_moved :: "'m driver \<Rightarrow> 'm driver \<Rightarrow> bool" where
  "bounds_moved H H' \<longleftrightarrow> (\<exists>b l h ul uh. H' = H\<lparr>switched_stack := Stack_push_back 0 b (switched_stack H),
     dr_cs := (dr_cs H)\<lparr>cs_stack_low := l, cs_stack_high := h\<rparr>, uncilkified_low := ul, uncilkified_high := uh\<rparr>)"

lemma bounds_movedI:
  "H' = H\<lparr>switched_stack := Stack_push_back 0 b (switched_stack H),
     dr_cs := (dr_cs H)\<lparr>cs_stack_low := l, cs_stack_high := h\<rparr>, uncilkified_low := ul, uncilkified_high := uh\<rparr> \<Longrightarrow>
   bounds_moved H H'"
  unfolding bounds_moved_def by blast

lemma bounds_same:
  "bounds_moved H (H\<lparr>switched_stack := Stack_push_back 0 b (switched_stack H)\<rparr>)"
  "bounds_moved H (H\<lparr>dr_cs := (dr_cs H)\<lparr>cs_stack_low := l\<rparr>, switched_stack := Stack_push_back 0 b (switched_stack H)\<rparr>)"
  "bounds_moved H (H\<lparr>dr_cs := (dr_cs H)\<lparr>cs_stack_high := h\<rparr>, switched_stack := Stack_push_back 0 b (switched_stack H)\<rparr>)"
  "bounds_moved H (H\<lparr>dr_cs := (dr_cs H)\<lparr>cs_stack_high := h, cs_stack_low := l\<rparr>,
     switched_stack := Stack_push_back 0 b (switched_stack H)\<rparr>)"
  by (rule bounds_movedI [where b = b and l = "cs_stack_low (dr_cs H)" and h = "cs_stack_high (dr_cs H)"
        and ul = "uncilkified_low H" and uh = "uncilkified_high H"], simp)
    (rule bounds_movedI [where b = b and l = l and h = "cs_stack_high (dr_cs H)"
        and ul = "uncilkified_low H" and uh = "uncilkified_high H"], simp,
     rule bounds_movedI [where b = b and l = "cs_stack_low (dr_cs H)" and h = h
        and ul = "uncilkified_low H" and uh = "uncilkified_high H"], simp,
     rule bounds_movedI [where b = b and l = l and h = h
        and ul = "uncilkified_low H" and uh = "uncilkified_high H"], simp)

lemma bounds_switch: "bounds_moved H (push_switched b (handle_stack_switch bp sp H))"
  by (rule bounds_movedI [where b = b and l = sp and h = "if bp - sp > DEFAULT_STACK_SIZE then sp else bp"
        and ul = "cs_stack_low (dr_cs H)" and uh = "cs_stack_high (dr_cs H)"])
    (simp add: push_switched_def handle_stack_switch_def Let_def)

text \<open>A base pointer below the stack pointer looks like a switch of stacks, so that the bounds of a frame are
  in order.\<close>

lemma func_stack_ok:
  assumes "stack_addr bp" "stack_addr sp"
  shows "\<exists>bp' H'. func_stack bp sp H = (bp', H') \<and> bounds_moved H H' \<and> sp \<le> bp' \<and> stack_addr bp'"
proof -
  have big: "bp - sp > DEFAULT_STACK_SIZE" if "\<not> sp \<le> bp"
  proof -
    have lt: "unat bp < unat sp" using that by (simp add: word_le_nat_alt)
    have "unat (bp - sp) = 2 ^ 64 + unat bp - unat sp"
      using lt by (simp add: unat_sub_if_size word_size word_le_nat_alt)
    moreover have "unat sp < 2 ^ 48" using assms(2) by (simp add: stack_addr_def)
    ultimately have "2 ^ 63 < unat (bp - sp)" by simp
    moreover have "unat DEFAULT_STACK_SIZE = 2 ^ 21" by (simp add: DEFAULT_STACK_SIZE_def)
    ultimately show ?thesis by (simp add: word_less_nat_alt)
  qed
  show ?thesis
  proof (cases "bp - sp > DEFAULT_STACK_SIZE")
    case True
    then show ?thesis using assms bounds_switch by (auto simp: func_stack_def Let_def)
  next
    case False
    then have le: "sp \<le> bp" using big by blast
    then show ?thesis using assms False bounds_switch
      by (auto simp: func_stack_def Let_def push_switched_def bounds_same)
  qed
qed

lemma task_stack_ok:
  assumes "stack_addr bp" "stack_addr sp" "sp \<le> bp"
  shows "\<exists>bp' H'. task_stack bp sp H = (bp', H') \<and> bounds_moved H H' \<and> sp \<le> bp' \<and> stack_addr bp'"
  using assms bounds_switch [of H 1 bp sp]
  by (auto simp: task_stack_def Let_def push_switched_def bounds_same)

lemma leave_stack_ok:
  assumes "holds (switched_stack H) (x # y # xs)"
  shows "\<exists>s l h. leave_stack H =
      Some (H\<lparr>switched_stack := s, dr_cs := (dr_cs H)\<lparr>cs_stack_low := l, cs_stack_high := h\<rparr>\<rparr>) \<and> holds s (y # xs)"
proof (cases "x = 0")
  case True
  then show ?thesis using holds_back [OF assms] holds_pop [OF assms, of 0]
    by (intro exI [of _ "Stack_pop 0 (switched_stack H)"] exI [of _ "cs_stack_low (dr_cs H)"]
        exI [of _ "cs_stack_high (dr_cs H)"]) (simp add: leave_stack_def Let_def)
next
  case False
  then show ?thesis using holds_back [OF assms] holds_pop [OF assms, of 0]
    by (intro exI [of _ "Stack_pop 0 (switched_stack H)"] exI [of _ "uncilkified_low H"]
        exI [of _ "uncilkified_high H"]) (simp add: leave_stack_def Let_def)
qed

lemma pop_MAAPs_ok:
  assumes "holds (MAAPs H) xs" "n < length xs"
  shows "\<exists>s. pop_MAAPs n H = H\<lparr>MAAPs := s\<rparr> \<and> holds s (drop n xs)"
  using assms
proof (induction n arbitrary: H xs)
  case 0
  then show ?case by (auto intro: exI [of _ "MAAPs H"])
next
  case (Suc n)
  then obtain x y ys where xs: "xs = x # y # ys" by (cases xs; cases "tl xs") auto
  let ?H = "H\<lparr>MAAPs := Stack_pop (0, 0) (MAAPs H)\<rparr>"
  have "holds (MAAPs ?H) (y # ys)" using holds_pop [of "MAAPs H" x y ys "(0, 0)"] Suc.prems(1) xs by simp
  from Suc.IH [OF this] Suc.prems(2) xs show ?case by simp
qed

lemma record_pc_ok: "unat i < length t \<Longrightarrow> \<exists>t'. record_pc i pc t = Some t' \<and> length t' = length t"
  by (simp add: record_pc_def)

end
