(* ===== verification/DriverHooks.thy ===== *)
theory DriverHooks
  imports DriverRuns
begin

text \<open>
  Every hook that the program may call returns and keeps the invariant.
\<close>

subsection \<open>Functions\<close>

lemma all_shallowD:
  assumes "all_shallow H"
  shows "shallow (parallel_execution H)" "shallow (spbags_frame_skipped H)" "shallow (switched_stack H)"
    "shallow (MAAPs H)" "shallow (MAAP_counts H)" "shallow (cs_sp_stack (dr_cs H))"
  using assms by (simp_all add: all_shallow_def)

lemma driver_stacksE:
  assumes "driver_stacks H A D"
  obtains ps gs ws gc ms where "holds (parallel_execution H) ps" "pe_ok ps A D"
    "holds (spbags_frame_skipped H) (act_skips A @ [gs])"
    "holds (switched_stack H) ws" "length ws = Suc (act_stacks A)"
    "holds (MAAP_counts H) (act_counts A @ [gc])" "holds (MAAPs H) ms" "act_MAAPs A < length ms"
  using assms unfolding driver_stacks_def by blast

lemma driver_stacksI:
  assumes "holds (parallel_execution H) ps" "pe_ok ps A D"
    "holds (spbags_frame_skipped H) (act_skips A @ [gs])"
    "holds (switched_stack H) ws" "length ws = Suc (act_stacks A)"
    "holds (MAAP_counts H) (act_counts A @ [gc])" "holds (MAAPs H) ms" "act_MAAPs A < length ms"
  shows "driver_stacks H A D"
  using assms unfolding driver_stacks_def by blast

lemma new_quiet: "quiet_frame (d_new n False False p)" "same_shape d (d\<lparr>d_cur := X\<rparr>)"
  by (simp_all add: quiet_frame_def d_new_def same_shape_def)

lemma step_ok_frame: "step_ok a k (push_stack_frame bp sp S) E D \<longleftrightarrow> step_ok a k S E D"
  by (auto intro: step_ok_cong simp: push_stack_frame_def)

lemma hook_func_entry:
  assumes inv: "driver_ok H G" and ok: "hook_ok (FuncEntry i bp sp p) H G"
  shows "\<exists>H'. run_hook U env (FuncEntry i bp sp p) H = Some H' \<and> driver_ok H' (hook_ghost (FuncEntry i bp sp p) G)"
proof -
  note I = driver_okD [OF inv]
  have sh: "all_shallow H" and ad: "stack_addr bp" "stack_addr sp" using ok by simp_all
  note sh = all_shallowD [OF sh]
  have mc: "may_call (g_A G)" using ok by simp
  then have lw: "\<not> loop_waits (g_A G)" by (rule in_body_calls(2))
  obtain ps gs ws gc ms where K: "holds (parallel_execution H) ps" "pe_ok ps (g_A G) (g_D G)"
    "holds (spbags_frame_skipped H) (act_skips (g_A G) @ [gs])"
    "holds (switched_stack H) ws" "length ws = Suc (act_stacks (g_A G))"
    "holds (MAAP_counts H) (act_counts (g_A G) @ [gc])" "holds (MAAPs H) ms" "act_MAAPs (g_A G) < length ms"
    using driver_stacksE [OF I(2)] by blast
  obtain xs where T: "tool_st (g_k G) (dr_cs H) (g_E G) (g_L G) (g_D G) (act_calls (g_A G)) False xs" "sp_ok xs (g_A G)"
    using I(3) lw unfolding tool_runs_def by auto
  obtain d D where D: "g_D G = d # D" using pe_frames [OF K(2)] by (cases "g_D G") auto
  obtain c qs where ps: "ps = c # qs" using pe_ne [OF K(2)] by (cases ps) auto
  obtain bp' H1 where F: "func_stack bp sp H = (bp', H1)" "bounds_moved H H1" "sp \<le> bp'" "stack_addr bp'"
    using func_stack_ok [OF ad] by blast
  obtain b l h ul uh where H1: "H1 = H\<lparr>switched_stack := Stack_push_back 0 b (switched_stack H),
     dr_cs := (dr_cs H)\<lparr>cs_stack_low := l, cs_stack_high := h\<rparr>, uncilkified_low := ul, uncilkified_high := uh\<rparr>"
    using F(2) unfolding bounds_moved_def by blast
  have "holds (parallel_execution H1) (c # qs)" "shallow (parallel_execution H1)" using K(1) ps sh(1) H1 by simp_all
  from push_pe_ok [OF this] obtain s where P: "push_pe H1 = Some (H1\<lparr>parallel_execution := s\<rparr>)" "holds s (c # c # c # qs)"
    by blast
  have f1: "spbags_frame_skipped H1 = spbags_frame_skipped H" by (simp add: H1)
  let ?S = "push_stack_frame bp' sp (dr_cs H1)"
  let ?H2 = "H1\<lparr>parallel_execution := s, dr_cs := ?S\<rparr>"
  have T1: "tool_st (g_k G) (dr_cs H1) (g_E G) (g_L G) (d # D) (act_calls (g_A G)) False xs"
    using tool_st_bounds [OF T(1)] D H1 by simp
  have T2: "tool_st (g_k G) ?S (g_E G) (g_L G) (d # D) (act_calls (g_A G)) False (sp # bp' # xs)"
    by (rule tool_st_push_frame [OF T1]) (use sh(6) H1 in simp)
  have sp2: "sp_ok (sp # bp' # xs) (A_func sk # g_A G)" for sk
    using T(2) F(3,4) ad(2) by (simp add: stack_addr_def)
  have sw: "holds (Stack_push_back 0 b (switched_stack H)) (b # ws)" by (rule holds_push [OF K(4) shallow_push [OF sh(3)]])
  have sk: "holds (Stack_push_back False v (spbags_frame_skipped H)) (v # act_skips (g_A G) @ [gs])" for v
    by (rule holds_push [OF K(3) shallow_push [OF sh(2)]])
  have syn: "is_local_synced ?S = Some (synced d)" by (rule tool_st_synced(1) [OF T2])
  have fl: "driver_flags H" by (rule I(1))
  then have st: "start_tool env H = Some H" "CILKSAN_INITIALIZED H" "should_check H"
    by (simp_all add: driver_flags_def start_tool_def)
  let ?H3 = "?H2\<lparr>spbags_frame_skipped := Stack_push_back False (skips_frame p G) (spbags_frame_skipped H)\<rparr>"
  have run: "run_hook U env (FuncEntry i bp sp p) H =
      (if skips_frame p G then Some (enable_instrumentation ?H3)
       else map_option enable_instrumentation (on_tool (do_enter (ucast (fp_num_sync_reg p))) ?H3))"
    using st F(1) P(1) f1 syn D
    by (cases "fp_may_spawn p") (simp_all add: csan_func_entry_def Let_def map_conv_bind_option comp_def skips_frame_def)
  show ?thesis
  proof (cases "skips_frame p G")
    case True
    have "driver_stacks (enable_instrumentation ?H3) (A_func True # g_A G) (g_D G)"
      by (rule driver_stacksI [where ps = "c # c # c # qs" and gs = gs and ws = "b # ws" and gc = gc and ms = ms])
        (use K P(2) sw sk [of True] H1 True mc ps in \<open>simp_all add: enable_instrumentation_def act_MAAPs_def\<close>)
    moreover have "tool_runs (dr_cs (enable_instrumentation ?H3)) (G\<lparr>g_A := A_func True # g_A G\<rparr>)"
      using T2 sp2 D by (auto simp: tool_runs_def enable_instrumentation_def)
    moreover have "driver_flags (enable_instrumentation ?H3)"
      using fl H1 by (simp add: driver_flags_def enable_instrumentation_def should_check_def)
    ultimately show ?thesis using run True I(4,5) by (simp add: driver_ok_def)
  next
    case False
    let ?a = "Enter (ucast (fp_num_sync_reg p))"
    have g: "guard_act ?a H G" using ok False by simp
    have so: "step_ok ?a (g_k G) ?S (g_E G) (d # D)"
      by (rule step_ok_cong [OF g [unfolded guard_act_def D]]) (simp_all add: H1 push_stack_frame_def)
    obtain S' where S': "do_enter (ucast (fp_num_sync_reg p)) ?S = Some S'"
      "tool_st (g_k G) S' (g_E G) (g_L G) (d_step (event_of ?a False) (d # D)) (act_calls (g_A G)) False (sp # bp' # xs)"
      using tool_st_act [OF T2 so, of U] by auto
    let ?H4 = "enable_instrumentation (?H3\<lparr>dr_cs := S'\<rparr>)"
    have D': "d_step (event_of ?a False) (d # D) = d_new (unat (ucast (fp_num_sync_reg p) :: u32)) False False d # d # D" by simp
    have "driver_stacks ?H4 (A_func False # g_A G) (d_step (event_of ?a False) (d # D))"
      by (rule driver_stacksI [where ps = "c # c # c # qs" and gs = gs and ws = "b # ws" and gc = gc and ms = ms])
        (use K P(2) sw sk [of False] H1 False mc ps D new_quiet(1) in
          \<open>simp_all add: enable_instrumentation_def act_MAAPs_def D' quiet_frame_def d_new_def\<close>)
    moreover have "tool_runs (dr_cs ?H4) ((ghost_act ?a G)\<lparr>g_A := A_func False # g_A G\<rparr>)"
      using S'(2) sp2 D lw by (auto simp: tool_runs_def enable_instrumentation_def)
    moreover have "driver_flags ?H4"
      using fl H1 by (simp add: driver_flags_def enable_instrumentation_def should_check_def)
    moreover have "dag_part (g_E G) (g_F G) (g_K G) (g_D (ghost_act ?a G)) (g_Z (ghost_act ?a G))"
      by (rule dag_part_ghost [OF I(4) g]) (use tool_stD(4) [OF T(1)] lw in simp_all)
    ultimately show ?thesis using run False S'(1) I(5) D lw by (simp add: driver_ok_def on_tool_def)
  qed
qed

lemma driver_okE:
  assumes "driver_ok H G"
  obtains ps gs ws gc ms xs where "holds (parallel_execution H) ps" "pe_ok ps (g_A G) (g_D G)"
    "holds (spbags_frame_skipped H) (act_skips (g_A G) @ [gs])"
    "holds (switched_stack H) ws" "length ws = Suc (act_stacks (g_A G))"
    "holds (MAAP_counts H) (act_counts (g_A G) @ [gc])" "holds (MAAPs H) ms" "act_MAAPs (g_A G) < length ms"
    "tool_st (g_k G) (dr_cs H) (g_E G) (g_L G) (g_D G) (act_calls (g_A G)) (loop_waits (g_A G)) xs" "sp_ok xs (g_A G)"
    "CILKSAN_INITIALIZED H" "should_check H" "driver_flags H"
  using driver_okD [OF assms] driver_stacksE [of H "g_A G" "g_D G"] unfolding tool_runs_def driver_flags_def
  by metis

lemma sp_ne: "sp_ok xs A \<Longrightarrow> xs \<noteq> []"
  by (induction xs A rule: sp_ok.induct) auto

lemma holds_pop_app: "holds s (x # ys @ [g]) \<Longrightarrow> holds (Stack_pop d s) (ys @ [g])"
  by (cases ys) (auto intro: holds_pop)

lemma holds_pop_ne: "holds s (x # ys) \<Longrightarrow> ys \<noteq> [] \<Longrightarrow> holds (Stack_pop d s) ys"
  by (cases ys) (auto intro: holds_pop)

lemma leave_stack_ne:
  assumes "holds (switched_stack H) (x # xs)" "xs \<noteq> []"
  shows "\<exists>s l h. leave_stack H =
      Some (H\<lparr>switched_stack := s, dr_cs := (dr_cs H)\<lparr>cs_stack_low := l, cs_stack_high := h\<rparr>\<rparr>) \<and> holds s xs"
  using assms leave_stack_ok by (cases xs) auto

lemma pop_pe_ne:
  assumes "holds (parallel_execution H) (a # b # qs)" "qs \<noteq> []"
  shows "\<exists>s. pop_pe H = H\<lparr>parallel_execution := s\<rparr> \<and> holds s qs"
  using assms pop_pe_ok by (cases qs) auto

text \<open>The end of a function or task: its frame on the stack of the program is given up.\<close>

lemma leave_frame:
  assumes st: "tool_st k (dr_cs H) E L D cs w (lo # hi # ys)" and b: "lo \<noteq> 0" "lo \<le> hi" "unat hi < 2 ^ 48" "ys \<noteq> []"
    and sw: "holds (switched_stack H) (x # ws)" "ws \<noteq> []"
  shows "\<exists>s S'. on_tool pop_stack_frame H \<bind> leave_stack = Some (H\<lparr>switched_stack := s, dr_cs := S'\<rparr>) \<and>
    holds s ws \<and> tool_st k S' E L D cs w ys"
proof -
  obtain y yt where ys: "ys = y # yt" using b(4) by (cases ys) auto
  obtain S1 where S1: "pop_stack_frame (dr_cs H) = Some S1" "tool_st k S1 E L D cs w ys"
    using tool_st_pop_frame [of k "dr_cs H" E L D cs w lo hi y yt] st b ys by auto
  have "holds (switched_stack (H\<lparr>dr_cs := S1\<rparr>)) (x # ws)" using sw(1) by simp
  from leave_stack_ne [OF this sw(2)] obtain s l h where
    l: "leave_stack (H\<lparr>dr_cs := S1\<rparr>) = Some (H\<lparr>switched_stack := s, dr_cs := S1\<lparr>cs_stack_low := l, cs_stack_high := h\<rparr>\<rparr>)"
    "holds s ws" by auto
  then show ?thesis using S1 tool_st_bounds [OF S1(2), where l = l and h = h]
    by (intro exI [of _ s] exI [of _ "S1\<lparr>cs_stack_low := l, cs_stack_high := h\<rparr>"]) (simp add: on_tool_def)
qed

lemma hook_func_exit:
  assumes inv: "driver_ok H G" and ok: "hook_ok (FuncExit e i) H G"
  shows "\<exists>H'. run_hook U env (FuncExit e i) H = Some H' \<and> driver_ok H' (hook_ghost (FuncExit e i) G)"
proof -
  note I = driver_okD [OF inv]
  obtain ps gs ws gc ms xs where K: "holds (parallel_execution H) ps" "pe_ok ps (g_A G) (g_D G)"
    "holds (spbags_frame_skipped H) (act_skips (g_A G) @ [gs])"
    "holds (switched_stack H) ws" "length ws = Suc (act_stacks (g_A G))"
    "holds (MAAP_counts H) (act_counts (g_A G) @ [gc])" "holds (MAAPs H) ms" "act_MAAPs (g_A G) < length ms"
    and T: "tool_st (g_k G) (dr_cs H) (g_E G) (g_L G) (g_D G) (act_calls (g_A G)) (loop_waits (g_A G)) xs" "sp_ok xs (g_A G)"
    and F: "CILKSAN_INITIALIZED H" "should_check H" "driver_flags H" by (rule driver_okE [OF inv])
  obtain s A where A: "g_A G = A_func s # A" "s \<or> guard_act (Leave 0) H G" using ok by auto
  obtain c b qs where ps: "ps = c # b # qs" "qs \<noteq> []" "may_call A"
    "if s then pe_ok qs A (g_D G) else \<exists>d E. g_D G = d # E \<and> \<not> d_detach d \<and> pe_ok qs A E"
    using K(2) A(1) by (auto split: if_splits)
  obtain lo hi ys where xs: "xs = lo # hi # ys" "lo \<noteq> 0" "lo \<le> hi" "unat hi < 2 ^ 48" "sp_ok ys A"
    using T(2) A(1) by auto
  obtain x wt where ws: "ws = x # wt" "wt \<noteq> []" "length wt = Suc (act_stacks A)"
    using K(5) A(1) by (cases ws; cases "tl ws") auto
  have sk: "Stack_back (spbags_frame_skipped H) = Some s" "holds (Stack_pop False (spbags_frame_skipped H)) (act_skips A @ [gs])"
    using K(3) A(1) holds_back holds_pop_app by fastforce+
  let ?G = "hook_ghost (FuncExit e i) G"
  obtain S1 where S1: "(if \<not> s then do_leave 0 (dr_cs H) else Some (dr_cs H)) = Some S1"
    "tool_st (g_k ?G) S1 (g_E G) (g_L G) (g_D ?G) (act_calls A) False xs"
    "pe_ok qs A (g_D ?G)" "dag_part (g_E G) (g_F G) (g_K G) (g_D ?G) (g_Z ?G)"
  proof (cases s)
    case True
    then show ?thesis using that [of "dr_cs H"] T(1) A(1) ps(4) I(4) by simp
  next
    case False
    then obtain d E where D: "g_D G = d # E" "\<not> d_detach d" "pe_ok qs A E" using ps(4) by auto
    obtain q Q where E: "E = q # Q" using pe_frames [OF D(3)] by (cases E) auto
    have g: "guard_act (Leave 0) H G" using A(2) False by simp
    obtain S' where S': "do_leave 0 (dr_cs H) = Some S'"
      "tool_st (g_k G + rank_cost (Leave 0) (g_D G)) S' (g_E G) (g_L G) (d_step (E_leave 0) (g_D G)) (act_calls A) False xs"
      using tool_st_act [OF T(1) g [unfolded guard_act_def], of U] A(1) by auto
    have "dag_part (g_E G) (g_F G) (g_K G) (g_D (ghost_act (Leave 0) G)) (g_Z (ghost_act (Leave 0) G))"
      by (rule dag_part_ghost [OF I(4) g]) (use tool_stD(4) [OF T(1)] in simp_all)
    moreover have "pe_ok qs A (q\<lparr>d_cur := d_cur d\<rparr> # Q)"
      by (rule pe_mono [OF D(3) not_ended(1) [OF ps(3)]]) (simp add: E new_quiet(2) same_shapes_refl)
    then have "pe_ok qs A (d_step (E_leave 0) (g_D G))" using D(1,2) E by simp
    ultimately show ?thesis using that [of S'] S' A(1) False by simp
  qed
  let ?H1 = "H\<lparr>dr_cs := S1, spbags_frame_skipped := Stack_pop False (spbags_frame_skipped H)\<rparr>"
  have "holds (parallel_execution ?H1) (c # b # qs)" using K(1) ps(1) by simp
  from pop_pe_ne [OF this ps(2)] obtain s2 where P: "pop_pe ?H1 = ?H1\<lparr>parallel_execution := s2\<rparr>" "holds s2 qs" by blast
  let ?H2 = "?H1\<lparr>parallel_execution := s2\<rparr>"
  have "\<exists>s S'. on_tool pop_stack_frame ?H2 \<bind> leave_stack = Some (?H2\<lparr>switched_stack := s, dr_cs := S'\<rparr>) \<and>
    holds s wt \<and> tool_st (g_k ?G) S' (g_E G) (g_L G) (g_D ?G) (act_calls A) False ys"
    by (rule leave_frame [where lo = lo and hi = hi and x = x])
      (use S1(2) xs sp_ne [OF xs(5)] K(4) ws in simp_all)
  then obtain s3 S' where L: "on_tool pop_stack_frame ?H2 \<bind> leave_stack = Some (?H2\<lparr>switched_stack := s3, dr_cs := S'\<rparr>)"
    "holds s3 wt" "tool_st (g_k ?G) S' (g_E G) (g_L G) (g_D ?G) (act_calls A) False ys" by blast
  have st1: "(if \<not> s then on_tool (do_leave 0) H else Some H) = Some (H\<lparr>dr_cs := S1\<rparr>)"
    using S1(1) by (cases s) (simp_all add: on_tool_def)
  have run: "run_hook U env (FuncExit e i) H = Some (?H2\<lparr>switched_stack := s3, dr_cs := S'\<rparr>)"
    using F sk(1) st1 P(1) L(1) by (simp add: csan_func_exit_def Let_def)
  have "driver_stacks (?H2\<lparr>switched_stack := s3, dr_cs := S'\<rparr>) A (g_D ?G)"
    by (rule driver_stacksI [where ps = qs and gs = gs and ws = wt and gc = gc and ms = ms])
      (use K P(2) sk(2) L(2) ws S1(3) A(1) in \<open>simp_all add: act_MAAPs_def\<close>)
  moreover have "tool_runs S' ?G" using L(3) xs(5) A(1) in_body_calls(2) [OF ps(3)] by (auto simp: tool_runs_def)
  moreover have "driver_flags (?H2\<lparr>switched_stack := s3, dr_cs := S'\<rparr>)"
    using F(3) by (simp add: driver_flags_def should_check_def)
  ultimately show ?thesis using run S1(4) I(5) A(1) by (cases s) (simp_all add: driver_ok_def)
qed

subsection \<open>Calls and their pointer arguments\<close>

lemma hook_before_call:
  assumes inv: "driver_ok H G" and ok: "hook_ok (BeforeCall i f n) H G"
  shows "\<exists>H'. run_hook U env (BeforeCall i f n) H = Some H' \<and> driver_ok H' (hook_ghost (BeforeCall i f n) G)"
proof -
  note I = driver_okD [OF inv]
  obtain ps gs ws gc ms xs where K: "holds (parallel_execution H) ps" "pe_ok ps (g_A G) (g_D G)"
    "holds (spbags_frame_skipped H) (act_skips (g_A G) @ [gs])"
    "holds (switched_stack H) ws" "length ws = Suc (act_stacks (g_A G))"
    "holds (MAAP_counts H) (act_counts (g_A G) @ [gc])" "holds (MAAPs H) ms" "act_MAAPs (g_A G) < length ms"
    and T: "tool_st (g_k G) (dr_cs H) (g_E G) (g_L G) (g_D G) (act_calls (g_A G)) (loop_waits (g_A G)) xs" "sp_ok xs (g_A G)"
    and F: "CILKSAN_INITIALIZED H" "should_check H" "driver_flags H" by (rule driver_okE [OF inv])
  have b: "in_body (g_A G)" "all_shallow H" using ok by simp_all
  have lw: "\<not> loop_waits (g_A G)" using b(1) in_body_calls(1,2) by blast
  obtain t where t: "record_pc i (he_pc env) (call_pc (pcs H)) = Some t" using ok record_pc_ok by fastforce
  let ?c = "Stack_push_back 0 n (MAAP_counts H)" and ?A = "A_call i n # g_A G"
  have c: "holds ?c (n # act_counts (g_A G) @ [gc])"
    by (rule holds_push [OF K(6) shallow_push [OF all_shallowD(5) [OF b(2)]]])
  have "length ms = Suc (unat (stk_head (MAAPs H)))" by (rule holds_length [OF K(7)])
  then have m: "act_MAAPs ?A < length ms" using ok by (simp add: act_MAAPs_def)
  let ?H = "H\<lparr>pcs := (pcs H)\<lparr>call_pc := t\<rparr>, MAAP_counts := ?c, dr_cs := record_call_id i CALL (dr_cs H)\<rparr>"
  have "run_hook U env (BeforeCall i f n) H = Some ?H" using F t by (simp add: csan_before_call_def Let_def)
  moreover have "driver_stacks ?H ?A (g_D G)"
    by (rule driver_stacksI [where ps = ps and gs = gs and ws = ws and gc = gc and ms = ms])
      (use K c m b(1) in simp_all)
  moreover have "tool_runs (dr_cs ?H) (G\<lparr>g_A := ?A\<rparr>)"
    using tool_st_call [OF T(1), of i CALL] T(2) lw by (auto simp: tool_runs_def)
  moreover have "driver_flags ?H" using F(3) by (simp add: driver_flags_def should_check_def)
  ultimately show ?thesis using I(4,5) by (simp add: driver_ok_def)
qed

lemma hook_after_call:
  assumes inv: "driver_ok H G" and ok: "hook_ok (AfterCall i f n) H G"
  shows "\<exists>H'. run_hook U env (AfterCall i f n) H = Some H' \<and> driver_ok H' (hook_ghost (AfterCall i f n) G)"
proof -
  note I = driver_okD [OF inv]
  obtain ps gs ws gc ms xs where K: "holds (parallel_execution H) ps" "pe_ok ps (g_A G) (g_D G)"
    "holds (spbags_frame_skipped H) (act_skips (g_A G) @ [gs])"
    "holds (switched_stack H) ws" "length ws = Suc (act_stacks (g_A G))"
    "holds (MAAP_counts H) (act_counts (g_A G) @ [gc])" "holds (MAAPs H) ms" "act_MAAPs (g_A G) < length ms"
    and T: "tool_st (g_k G) (dr_cs H) (g_E G) (g_L G) (g_D G) (act_calls (g_A G)) (loop_waits (g_A G)) xs" "sp_ok xs (g_A G)"
    and F: "CILKSAN_INITIALIZED H" "should_check H" "driver_flags H" by (rule driver_okE [OF inv])
  obtain A where A: "g_A G = A_call i n # A" using ok by auto
  have m: "unat n < length ms" "act_MAAPs A < length (drop (unat n) ms)" using K(8) A by (simp_all add: act_MAAPs_def)
  obtain s where s: "pop_MAAPs (unat n) H = H\<lparr>MAAPs := s\<rparr>" "holds s (drop (unat n) ms)"
    using pop_MAAPs_ok [OF K(7) m(1)] by blast
  have c: "Stack_back (MAAP_counts H) = Some n" "holds (Stack_pop 0 (MAAP_counts H)) (act_counts A @ [gc])"
    using K(6) A holds_back holds_pop_app by fastforce+
  obtain S' where S': "record_call_return_id i CALL (dr_cs H) = Some S'"
    "tool_st (g_k G) S' (g_E G) (g_L G) (g_D G) (act_calls A) False xs"
    using tool_st_return [of _ _ _ _ _ CALL i "act_calls A"] T(1) A by fastforce
  let ?H = "H\<lparr>MAAPs := s, MAAP_counts := Stack_pop 0 (MAAP_counts H), dr_cs := S'\<rparr>"
  have "run_hook U env (AfterCall i f n) H = Some ?H"
    using F c(1) s(1) S'(1) by (simp add: csan_after_call_def Let_def on_tool_def)
  moreover have "\<not> loop_waits A" using K(2) A in_body_calls(1,2) by auto
  moreover have "driver_stacks ?H A (g_D G)"
    by (rule driver_stacksI [where ps = ps and gs = gs and ws = ws and gc = gc and ms = "drop (unat n) ms"])
      (use K c(2) s(2) m A in simp_all)
  moreover have "driver_flags ?H" using F(3) by (simp add: driver_flags_def should_check_def)
  ultimately show ?thesis using I(4,5) S'(2) T(2) A by (auto simp: driver_ok_def tool_runs_def)
qed

lemma hook_set_MAAP:
  assumes inv: "driver_ok H G" and ok: "hook_ok (SetMAAP m i) H G"
  shows "\<exists>H'. run_hook U env (SetMAAP m i) H = Some H' \<and> driver_ok H' (hook_ghost (SetMAAP m i) G)"
proof -
  note I = driver_okD [OF inv]
  obtain ps gs ws gc ms where K: "holds (parallel_execution H) ps" "pe_ok ps (g_A G) (g_D G)"
    "holds (spbags_frame_skipped H) (act_skips (g_A G) @ [gs])"
    "holds (switched_stack H) ws" "length ws = Suc (act_stacks (g_A G))"
    "holds (MAAP_counts H) (act_counts (g_A G) @ [gc])" "holds (MAAPs H) ms" "act_MAAPs (g_A G) < length ms"
    by (rule driver_stacksE [OF I(2)])
  let ?H = "H\<lparr>MAAPs := Stack_push_back (0, 0) (i, m) (MAAPs H)\<rparr>"
  have s: "holds (MAAPs ?H) ((i, m) # ms)"
    using holds_push [OF K(7) shallow_push [OF all_shallowD(4)]] ok by simp
  have "driver_stacks ?H (g_A G) (g_D G)"
    by (rule driver_stacksI [where ps = ps and gs = gs and ws = ws and gc = gc and ms = "(i, m) # ms"])
      (use K s in simp_all)
  moreover have "driver_flags ?H" using I(1) by (simp add: driver_flags_def should_check_def)
  moreover have "run_hook U env (SetMAAP m i) H = Some ?H" using I(1) by (simp add: driver_flags_def csan_set_MAAP_def)
  ultimately show ?thesis using I(3-5) by (simp add: driver_ok_def)
qed

subsection \<open>Tasks\<close>

lemma pe_busy:
  assumes "pe_ok ps A (q # Q)" "owns_frame A" "hd ps \<noteq> 0" "d_loop q' = d_loop q" "d_detach q' = d_detach q"
  shows "pe_ok ps A (q' # Q)"
  using assms by (cases A rule: owns_frame.cases) auto

lemma hook_detach:
  assumes inv: "driver_ok H G" and ok: "hook_ok (DetachHook i r l) H G"
  shows "\<exists>H'. run_hook U env (DetachHook i r l) H = Some H' \<and> driver_ok H' (hook_ghost (DetachHook i r l) G)"
proof -
  note I = driver_okD [OF inv]
  obtain ps gs ws gc ms xs where K: "holds (parallel_execution H) ps" "pe_ok ps (g_A G) (g_D G)"
    "holds (spbags_frame_skipped H) (act_skips (g_A G) @ [gs])"
    "holds (switched_stack H) ws" "length ws = Suc (act_stacks (g_A G))"
    "holds (MAAP_counts H) (act_counts (g_A G) @ [gc])" "holds (MAAPs H) ms" "act_MAAPs (g_A G) < length ms"
    and T: "tool_st (g_k G) (dr_cs H) (g_E G) (g_L G) (g_D G) (act_calls (g_A G)) (loop_waits (g_A G)) xs" "sp_ok xs (g_A G)"
    and F: "CILKSAN_INITIALIZED H" "should_check H" "driver_flags H" by (rule driver_okE [OF inv])
  obtain t where t: "record_pc i (he_pc env) (spawn_pc (pcs H)) = Some t" using ok record_pc_ok by fastforce
  obtain c qs where ps: "ps = c # qs" using pe_ne [OF K(2)] by (cases ps) auto
  have ctx: "if l then \<exists>j b A. g_A G = A_loop j b # A else owns_frame (g_A G)" using ok by simp
  then have "owns_frame (g_A G) \<or> (\<exists>i b A'. g_A G = A_loop i b # A')" by (cases l) auto
  from pe_set [OF K(2) [unfolded ps] this] have pe: "pe_ok (1 # qs) (g_A G) (g_D G)" .
  let ?p = "Stack_set_head 1 (parallel_execution H)"
  have p: "holds ?p (1 # qs)" using holds_set K(1) ps by fastforce
  let ?S = "if l then dr_cs H else record_call_id i SPAWN (dr_cs H)"
  let ?H = "H\<lparr>pcs := (pcs H)\<lparr>spawn_pc := t\<rparr>, parallel_execution := ?p, dr_cs := ?S\<rparr>"
  let ?A = "(if l then A_loop_spawn else A_spawn i) # g_A G"
  have run: "run_hook U env (DetachHook i r l) H = Some ?H" using F t by (simp add: csan_detach_def set_pe_def Let_def)
  have lw: "loop_waits ?A = loop_waits (g_A G)" using ctx in_body_calls by (cases l) auto
  have "driver_stacks ?H ?A (g_D G)"
    by (rule driver_stacksI [where ps = "1 # qs" and gs = gs and ws = ws and gc = gc and ms = ms])
      (use K p pe ctx in \<open>auto simp: act_MAAPs_def split: if_splits\<close>)
  moreover have "tool_runs (dr_cs ?H) (G\<lparr>g_A := ?A\<rparr>)"
    using T tool_st_call [OF T(1), of i SPAWN] lw by (cases l) (auto simp: tool_runs_def)
  moreover have "driver_flags ?H" using F(3) by (simp add: driver_flags_def should_check_def)
  ultimately show ?thesis using run I(4,5) by (simp add: driver_ok_def)
qed

lemma hook_task:
  assumes inv: "driver_ok H G" and ok: "hook_ok (TaskHook t i bp sp p) H G"
  shows "\<exists>H'. run_hook U env (TaskHook t i bp sp p) H = Some H' \<and> driver_ok H' (hook_ghost (TaskHook t i bp sp p) G)"
proof -
  note I = driver_okD [OF inv]
  obtain ps gs ws gc ms xs where K: "holds (parallel_execution H) ps" "pe_ok ps (g_A G) (g_D G)"
    "holds (spbags_frame_skipped H) (act_skips (g_A G) @ [gs])"
    "holds (switched_stack H) ws" "length ws = Suc (act_stacks (g_A G))"
    "holds (MAAP_counts H) (act_counts (g_A G) @ [gc])" "holds (MAAPs H) ms" "act_MAAPs (g_A G) < length ms"
    and T: "tool_st (g_k G) (dr_cs H) (g_E G) (g_L G) (g_D G) (act_calls (g_A G)) (loop_waits (g_A G)) xs" "sp_ok xs (g_A G)"
    and F: "CILKSAN_INITIALIZED H" "should_check H" "driver_flags H" by (rule driver_okE [OF inv])
  have ad: "stack_addr bp" "stack_addr sp" "sp \<le> bp" and sh: "all_shallow H" using ok by simp_all
  note sh = all_shallowD [OF sh]
  obtain bp' H1 where B: "task_stack bp sp H = (bp', H1)" "bounds_moved H H1" "sp \<le> bp'" "stack_addr bp'"
    using task_stack_ok [OF ad] by blast
  obtain b l h ul uh where H1: "H1 = H\<lparr>switched_stack := Stack_push_back 0 b (switched_stack H),
     dr_cs := (dr_cs H)\<lparr>cs_stack_low := l, cs_stack_high := h\<rparr>, uncilkified_low := ul, uncilkified_high := uh\<rparr>"
    using B(2) unfolding bounds_moved_def by blast
  obtain d D where D: "g_D G = d # D" using pe_frames [OF K(2)] by (cases "g_D G") auto
  obtain c qs where ps: "ps = c # qs" using pe_ne [OF K(2)] by (cases ps) auto
  let ?S = "push_stack_frame bp' sp (dr_cs H1)" and ?w = "loop_waits (g_A G)"
  have T1: "tool_st (g_k G) (dr_cs H1) (g_E G) (g_L G) (g_D G) (act_calls (g_A G)) ?w xs"
    using tool_st_bounds [OF T(1)] H1 by simp
  have T2: "tool_st (g_k G) ?S (g_E G) (g_L G) (g_D G) (act_calls (g_A G)) ?w (sp # bp' # xs)"
    by (rule tool_st_push_frame [OF T1]) (use sh(6) H1 in simp)
  have spb: "sp \<noteq> 0" "sp \<le> bp'" "unat bp' < 2 ^ 48" using B(3,4) ad(2) by (simp_all add: stack_addr_def)
  have sw: "holds (Stack_push_back 0 b (switched_stack H)) (b # ws)" by (rule holds_push [OF K(4) shallow_push [OF sh(3)]])
  have hl: "handle_loop ?S = Some (d_loop d \<or> ?w)" by (rule tool_st_synced(2)) (use T2 D in simp)
  have so: "step_ok a (g_k G) ?S (g_E G) (g_D G)" if "guard_act a H G" for a
    by (rule step_ok_cong [OF that [unfolded guard_act_def]]) (simp_all add: H1 push_stack_frame_def)
  have wf: "cs_start_new_loop (dr_cs H) = ?w" by (rule tool_stD(4) [OF T(1)])
  show ?thesis
  proof (cases "tp_is_tapir_loop_body p")
    case True
    let ?n = "ucast (tp_num_sync_reg p) :: u32"
    let ?a = "IterationBegin ?n"
    obtain j lb A where A: "g_A G = A_loop_spawn # A_loop j lb # A" and g: "guard_act ?a H G" using ok True by auto
    have w: "?w = (\<not> lb)" using A by simp
    have pe: "c \<noteq> 0" "pe_ok ps (A_loop j lb # A) (g_D G)" using K(2) A ps by auto
    obtain S' where S': "do_loop_iteration_begin ?n ?S = Some S'"
      "tool_st (g_k G) S' (g_E G) (g_L G) (d_step (event_of ?a ?w) (g_D G)) (act_calls (g_A G)) False (sp # bp' # xs)"
      using tool_st_act [OF T2 so [OF g], of U] by auto
    let ?H = "H1\<lparr>dr_cs := S'\<rparr>" and ?A = "A_iter # A_loop j True # A"
    have lp: "d_loop d \<or> ?w" using pe(2) D w by (cases lb) auto
    have run: "run_hook U env (TaskHook t i bp sp p) H = Some ?H"
      using F B(1) True hl lp S'(1) by (simp add: csan_task_def on_tool_def Let_def)
    have "pe_ok ps ?A (d_step (event_of ?a ?w) (g_D G))"
      using pe D w ps by (cases lb) (auto simp: d_new_def)
    then have "driver_stacks ?H ?A (d_step (event_of ?a ?w) (g_D G))"
      by (intro driver_stacksI [where ps = ps and gs = gs and ws = "b # ws" and gc = gc and ms = ms])
        (use K sw H1 A in \<open>simp_all add: act_MAAPs_def\<close>)
    moreover have "tool_runs (dr_cs ?H) ((ghost_act ?a G)\<lparr>g_A := ?A\<rparr>)"
      using S'(2) T(2) spb A by (auto simp: tool_runs_def)
    moreover have "driver_flags ?H" using F(3) H1 by (simp add: driver_flags_def should_check_def)
    moreover have "dag_part (g_E G) (g_F G) (g_K G) (g_D (ghost_act ?a G)) (g_Z (ghost_act ?a G))"
      by (rule dag_part_ghost [OF I(4) g _ wf]) simp
    ultimately show ?thesis using run True I(5) A by (simp add: driver_ok_def)
  next
    case False
    let ?n = "ucast (tp_num_sync_reg p) :: u32"
    let ?a = "EnterHelper ?n"
    obtain A where A: "g_A G = A_spawn i # A" and g: "guard_act ?a H G" using ok False by auto
    have pe: "c \<noteq> 0" "owns_frame A" "pe_ok ps A (g_D G)" using K(2) A ps by auto
    have w: "\<not> ?w" using A by simp
    have "holds (parallel_execution (H1\<lparr>dr_cs := ?S\<rparr>)) (c # qs)" "shallow (parallel_execution (H1\<lparr>dr_cs := ?S\<rparr>))"
      using K(1) ps sh(1) H1 by simp_all
    from push_pe_ok [OF this] obtain s where P: "push_pe (H1\<lparr>dr_cs := ?S\<rparr>) = Some (H1\<lparr>dr_cs := ?S, parallel_execution := s\<rparr>)"
      "holds s (c # c # c # qs)" by auto
    obtain S1 where S1: "do_enter_helper ?n ?S = Some S1"
      "tool_st (g_k G) S1 (g_E G) (g_L G) (d_step (event_of ?a False) (g_D G)) (act_calls (g_A G)) False (sp # bp' # xs)"
      using tool_st_act [OF T2 so [OF g], of U] w by auto
    have k: "g_k G < 2 ^ 64 - 1" using g by (simp add: guard_act_def step_ok_def)
    have "step_ok Detach (g_k G) S1 (g_E G) (d_step (event_of ?a False) (g_D G))" using k by (simp add: step_ok_def)
    from tool_st_act [OF S1(2) this, of U] obtain S' where S': "do_detach S1 = Some S'"
      "tool_st (g_k G) S' (g_E G) (g_L G) (d_step (event_of ?a False) (g_D G)) (act_calls (g_A G)) False (sp # bp' # xs)"
      by auto
    let ?H = "H1\<lparr>parallel_execution := s, dr_cs := S'\<rparr>" and ?A = "A_task # g_A G"
    have run: "run_hook U env (TaskHook t i bp sp p) H = Some ?H"
      using F B(1) False P(1) S1(1) S'(1) by (simp add: csan_task_def on_tool_def Let_def)
    have "pe_ok (c # c # ps) ?A (d_step (event_of ?a False) (g_D G))"
      using pe D A ps by (auto simp: d_new_def)
    then have "driver_stacks ?H ?A (d_step (event_of ?a False) (g_D G))"
      by (intro driver_stacksI [where ps = "c # c # ps" and gs = gs and ws = "b # ws" and gc = gc and ms = ms])
        (use K sw H1 P(2) ps in \<open>simp_all add: act_MAAPs_def\<close>)
    moreover have "tool_runs (dr_cs ?H) ((ghost_act ?a G)\<lparr>g_A := ?A\<rparr>)"
      using S'(2) T(2) spb w by (auto simp: tool_runs_def)
    moreover have "driver_flags ?H" using F(3) H1 by (simp add: driver_flags_def should_check_def)
    moreover have "dag_part (g_E G) (g_F G) (g_K G) (g_D (ghost_act ?a G)) (g_Z (ghost_act ?a G))"
      by (rule dag_part_ghost [OF I(4) g _ wf]) simp
    ultimately show ?thesis using run False I(5) w by (simp add: driver_ok_def)
  qed
qed

end
