(* ===== verification/DriverTasks.thy ===== *)
theory DriverTasks
  imports DriverHooks
begin

text \<open>
  The hooks at the end of a task, at the continuation of a spawn, around parallel loops and at syncs.
\<close>

subsection \<open>The end of a task\<close>

lemma hook_task_exit_loop:
  assumes inv: "driver_ok H G" and ok: "hook_ok (TaskExit e t i r True) H G"
  shows "\<exists>H'. run_hook U env (TaskExit e t i r True) H = Some H' \<and> driver_ok H' (hook_ghost (TaskExit e t i r True) G)"
proof -
  note I = driver_okD [OF inv]
  obtain ps gs ws gc ms xs where K: "holds (parallel_execution H) ps" "pe_ok ps (g_A G) (g_D G)"
    "holds (spbags_frame_skipped H) (act_skips (g_A G) @ [gs])"
    "holds (switched_stack H) ws" "length ws = Suc (act_stacks (g_A G))"
    "holds (MAAP_counts H) (act_counts (g_A G) @ [gc])" "holds (MAAPs H) ms" "act_MAAPs (g_A G) < length ms"
    and T: "tool_st (g_k G) (dr_cs H) (g_E G) (g_L G) (g_D G) (act_calls (g_A G)) (loop_waits (g_A G)) xs" "sp_ok xs (g_A G)"
    and F: "CILKSAN_INITIALIZED H" "should_check H" "driver_flags H" by (rule driver_okE [OF inv])
  obtain A where A: "g_A G = A_iter # A" and g: "guard_act IterationEnd H G" using ok by auto
  obtain j A0 where A0: "A = A_loop j True # A0" and pe: "pe_ok ps A (g_D G)" using K(2) A by auto
  obtain d E where D: "g_D G = d # E" "d_loop d" using pe A0 by auto
  obtain q Q where E: "E = q # Q" using pe A0 D pe_frames by (cases E) auto
  obtain lo hi ys where xs: "xs = lo # hi # ys" "lo \<noteq> 0" "lo \<le> hi" "unat hi < 2 ^ 48" "sp_ok ys A"
    using T(2) A by auto
  obtain x wt where ws: "ws = x # wt" "wt \<noteq> []" "length wt = Suc (act_stacks A)"
    using K(5) A by (cases ws; cases "tl ws") auto
  let ?D = "d_step E_iter_end (g_D G)"
  have w: "\<not> loop_waits (g_A G)" using A by simp
  have hl: "handle_loop (dr_cs H) = Some True" using tool_st_synced(2) T(1) D by fastforce
  obtain S1 where S1: "do_loop_iteration_end U (dr_cs H) = Some S1"
    "tool_st (g_k G + rank_cost IterationEnd (g_D G)) S1 (g_E G) (g_L G) ?D (act_calls A) False xs"
    using tool_st_act [OF T(1) g [unfolded guard_act_def], of U] A by auto
  have P: "pe_ok ps A ?D" using pe A0 D E by (auto simp: d_next_def)
  have "tool_st (g_k G + rank_cost IterationEnd (g_D G)) (dr_cs (H\<lparr>dr_cs := S1\<rparr>)) (g_E G) (g_L G) ?D (act_calls A) False (lo # hi # ys)"
    "holds (switched_stack (H\<lparr>dr_cs := S1\<rparr>)) (x # wt)" using S1(2) xs(1) K(4) ws(1) by simp_all
  from leave_frame [OF this(1) xs(2-4) sp_ne [OF xs(5)] this(2) ws(2)] obtain s S' where
    L: "on_tool pop_stack_frame (H\<lparr>dr_cs := S1\<rparr>) \<bind> leave_stack = Some (H\<lparr>switched_stack := s, dr_cs := S'\<rparr>)" "holds s wt"
    "tool_st (g_k G + rank_cost IterationEnd (g_D G)) S' (g_E G) (g_L G) ?D (act_calls A) False ys" by auto
  let ?H = "H\<lparr>switched_stack := s, dr_cs := S'\<rparr>"
  have run: "run_hook U env (TaskExit e t i r True) H = Some ?H"
    using F hl S1(1) L(1) by (simp add: csan_task_exit_def on_tool_def)
  have "driver_stacks ?H A ?D"
    by (rule driver_stacksI [where ps = ps and gs = gs and ws = wt and gc = gc and ms = ms])
      (use K P L(2) ws A in \<open>simp_all add: act_MAAPs_def\<close>)
  moreover have "tool_runs (dr_cs ?H) ((ghost_act IterationEnd G)\<lparr>g_A := A\<rparr>)"
    using L(3) xs(5) A A0 by (auto simp: tool_runs_def)
  moreover have "driver_flags ?H" using F(3) by (simp add: driver_flags_def should_check_def)
  moreover have "dag_part (g_E G) (g_F G) (g_K G) (g_D (ghost_act IterationEnd G)) (g_Z (ghost_act IterationEnd G))"
    by (rule dag_part_ghost [OF I(4) g _ tool_stD(4) [OF T(1)]]) simp
  ultimately show ?thesis using run I(5) A by (simp add: driver_ok_def)
qed

lemma hook_task_exit_task:
  assumes inv: "driver_ok H G" and ok: "hook_ok (TaskExit e t i r False) H G"
  shows "\<exists>H'. run_hook U env (TaskExit e t i r False) H = Some H' \<and> driver_ok H' (hook_ghost (TaskExit e t i r False) G)"
proof -
  note I = driver_okD [OF inv]
  obtain ps gs ws gc ms xs where K: "holds (parallel_execution H) ps" "pe_ok ps (g_A G) (g_D G)"
    "holds (spbags_frame_skipped H) (act_skips (g_A G) @ [gs])"
    "holds (switched_stack H) ws" "length ws = Suc (act_stacks (g_A G))"
    "holds (MAAP_counts H) (act_counts (g_A G) @ [gc])" "holds (MAAPs H) ms" "act_MAAPs (g_A G) < length ms"
    and T: "tool_st (g_k G) (dr_cs H) (g_E G) (g_L G) (g_D G) (act_calls (g_A G)) (loop_waits (g_A G)) xs" "sp_ok xs (g_A G)"
    and F: "CILKSAN_INITIALIZED H" "should_check H" "driver_flags H" by (rule driver_okE [OF inv])
  obtain A where A: "g_A G = A_task # A" and g: "guard_act (Leave r) H G" using ok by auto
  obtain j A0 c b qs d E where A0: "A = A_spawn j # A0" and ps: "ps = c # b # qs" "qs \<noteq> []"
    and D: "g_D G = d # E" "d_detach d" and pe: "pe_ok qs A E" using K(2) A by auto
  have own: "hd qs \<noteq> 0" "owns_frame A0" "pe_ok qs A0 E" using pe A0 by simp_all
  obtain q Q where E: "E = q # Q" using pe_frames [OF pe] by (cases E) auto
  obtain lo hi ys where xs: "xs = lo # hi # ys" "lo \<noteq> 0" "lo \<le> hi" "unat hi < 2 ^ 48" "sp_ok ys A"
    using T(2) A by auto
  obtain x wt where ws: "ws = x # wt" "wt \<noteq> []" "length wt = Suc (act_stacks A)"
    using K(5) A by (cases ws; cases "tl ws") auto
  let ?D = "d_step (event_of (Leave r) False) (g_D G)" and ?k = "g_k G + rank_cost (Leave r) (g_D G)"
  have w: "\<not> loop_waits (g_A G)" "\<not> loop_waits A" using A A0 by simp_all
  obtain S1 where S1: "do_leave r (dr_cs H) = Some S1"
    "tool_st ?k S1 (g_E G) (g_L G) ?D (act_calls A) False xs"
    using tool_st_act [OF T(1) g [unfolded guard_act_def], of U] A by auto
  have "pe_ok qs A0 (d_join (unat r) (d_all d) q # Q)"
    by (rule pe_busy [OF own(3) [unfolded E] own(2,1)]) (simp_all add: d_join_def)
  then have P: "pe_ok qs A ?D" using own A0 D E by simp
  have "holds (parallel_execution (H\<lparr>dr_cs := S1\<rparr>)) (c # b # qs)" using K(1) ps(1) by simp
  from pop_pe_ne [OF this ps(2)] obtain p where p: "pop_pe (H\<lparr>dr_cs := S1\<rparr>) = H\<lparr>dr_cs := S1, parallel_execution := p\<rparr>"
    "holds p qs" by auto
  let ?H1 = "H\<lparr>dr_cs := S1, parallel_execution := p\<rparr>"
  have "tool_st ?k (dr_cs ?H1) (g_E G) (g_L G) ?D (act_calls A) False (lo # hi # ys)"
    "holds (switched_stack ?H1) (x # wt)" using S1(2) xs(1) K(4) ws(1) by simp_all
  from leave_frame [OF this(1) xs(2-4) sp_ne [OF xs(5)] this(2) ws(2)] obtain s S' where
    L: "on_tool pop_stack_frame ?H1 \<bind> leave_stack = Some (?H1\<lparr>switched_stack := s, dr_cs := S'\<rparr>)" "holds s wt"
    "tool_st ?k S' (g_E G) (g_L G) ?D (act_calls A) False ys" by blast
  let ?H = "?H1\<lparr>switched_stack := s, dr_cs := S'\<rparr>"
  have run: "run_hook U env (TaskExit e t i r False) H = Some ?H"
    using F S1(1) L(1) p(1) by (simp add: csan_task_exit_def on_tool_def)
  have "driver_stacks ?H A ?D"
    by (rule driver_stacksI [where ps = qs and gs = gs and ws = wt and gc = gc and ms = ms])
      (use K P p(2) L(2) ws A in \<open>simp_all add: act_MAAPs_def\<close>)
  moreover have "tool_runs (dr_cs ?H) ((ghost_act (Leave r) G)\<lparr>g_A := A\<rparr>)"
    using L(3) xs(5) w by (auto simp: tool_runs_def)
  moreover have "driver_flags ?H" using F(3) by (simp add: driver_flags_def should_check_def)
  moreover have "dag_part (g_E G) (g_F G) (g_K G) (g_D (ghost_act (Leave r) G)) (g_Z (ghost_act (Leave r) G))"
    by (rule dag_part_ghost [OF I(4) g _ tool_stD(4) [OF T(1)]]) simp
  ultimately show ?thesis using run I(5) A w by (simp add: driver_ok_def)
qed

lemma hook_task_exit:
  assumes "driver_ok H G" "hook_ok (TaskExit e t i r l) H G"
  shows "\<exists>H'. run_hook U env (TaskExit e t i r l) H = Some H' \<and> driver_ok H' (hook_ghost (TaskExit e t i r l) G)"
proof (cases l)
  case True
  then have l: "l = True" by simp
  show ?thesis using assms unfolding l by (rule hook_task_exit_loop)
next
  case False
  then have l: "l = False" by simp
  show ?thesis using assms unfolding l by (rule hook_task_exit_task)
qed

subsection \<open>The continuation of a spawn\<close>

lemma hook_detach_cont:
  assumes inv: "driver_ok H G" and ok: "hook_ok (DetachCont c i r l) H G"
  shows "\<exists>H'. run_hook U env (DetachCont c i r l) H = Some H' \<and> driver_ok H' (hook_ghost (DetachCont c i r l) G)"
proof (cases l)
  case True
  then show ?thesis using inv by (simp add: csan_detach_continue_def)
next
  case False
  note I = driver_okD [OF inv]
  obtain ps gs ws gc ms xs where K: "holds (parallel_execution H) ps" "pe_ok ps (g_A G) (g_D G)"
    "holds (spbags_frame_skipped H) (act_skips (g_A G) @ [gs])"
    "holds (switched_stack H) ws" "length ws = Suc (act_stacks (g_A G))"
    "holds (MAAP_counts H) (act_counts (g_A G) @ [gc])" "holds (MAAPs H) ms" "act_MAAPs (g_A G) < length ms"
    and T: "tool_st (g_k G) (dr_cs H) (g_E G) (g_L G) (g_D G) (act_calls (g_A G)) (loop_waits (g_A G)) xs" "sp_ok xs (g_A G)"
    and F: "CILKSAN_INITIALIZED H" "should_check H" "driver_flags H" by (rule driver_okE [OF inv])
  let ?a = "DetachContinue r"
  obtain A where A: "g_A G = A_spawn i # A" and g: "guard_act ?a H G" using ok False by auto
  have w: "\<not> loop_waits A" using K(2) A in_body_calls by auto
  have "tool_st (g_k G) (dr_cs H) (g_E G) (g_L G) (g_D G) (CallID_make SPAWN i # act_calls A) False xs"
    using T(1) A by simp
  from tool_st_return [OF this] obtain S1 where S1: "record_call_return_id i SPAWN (dr_cs H) = Some S1"
    "tool_st (g_k G) S1 (g_E G) (g_L G) (g_D G) (act_calls A) False xs" by blast
  have "step_ok ?a (g_k G) S1 (g_E G) (g_D G)"
    by (rule step_ok_cong [OF g [unfolded guard_act_def]])
      (use S1(1) in \<open>auto simp: record_call_return_id_def split: if_splits list.splits\<close>)
  from tool_st_act [OF S1(2) this, of U] obtain S' where S': "do_detach_continue U r S1 = Some S'"
    "tool_st (g_k G + rank_cost ?a (g_D G)) S' (g_E G) (g_L G) (g_D G) (act_calls A) False xs" by auto
  let ?H = "H\<lparr>dr_cs := S'\<rparr>"
  have run: "run_hook U env (DetachCont c i r l) H = Some ?H"
    using F False S1(1) S'(1) by (simp add: csan_detach_continue_def on_tool_def)
  have "driver_stacks ?H A (g_D G)"
    by (rule driver_stacksI [where ps = ps and gs = gs and ws = ws and gc = gc and ms = ms])
      (use K A in \<open>simp_all add: act_MAAPs_def\<close>)
  moreover have "tool_runs (dr_cs ?H) ((ghost_act ?a G)\<lparr>g_A := A\<rparr>)"
    using S'(2) T(2) A w by (auto simp: tool_runs_def)
  moreover have "driver_flags ?H" using F(3) by (simp add: driver_flags_def should_check_def)
  moreover have "dag_part (g_E G) (g_F G) (g_K G) (g_D (ghost_act ?a G)) (g_Z (ghost_act ?a G))"
    by (rule dag_part_ghost [OF I(4) g _ tool_stD(4) [OF T(1)]]) simp
  ultimately show ?thesis using run False I(5) A by (simp add: driver_ok_def)
qed

subsection \<open>Parallel loops\<close>

lemma hook_before_loop:
  assumes inv: "driver_ok H G" and ok: "hook_ok (BeforeLoop i) H G"
  shows "\<exists>H'. run_hook U env (BeforeLoop i) H = Some H' \<and> driver_ok H' (hook_ghost (BeforeLoop i) G)"
proof -
  note I = driver_okD [OF inv]
  obtain ps gs ws gc ms xs where K: "holds (parallel_execution H) ps" "pe_ok ps (g_A G) (g_D G)"
    "holds (spbags_frame_skipped H) (act_skips (g_A G) @ [gs])"
    "holds (switched_stack H) ws" "length ws = Suc (act_stacks (g_A G))"
    "holds (MAAP_counts H) (act_counts (g_A G) @ [gc])" "holds (MAAPs H) ms" "act_MAAPs (g_A G) < length ms"
    and T: "tool_st (g_k G) (dr_cs H) (g_E G) (g_L G) (g_D G) (act_calls (g_A G)) (loop_waits (g_A G)) xs" "sp_ok xs (g_A G)"
    and F: "CILKSAN_INITIALIZED H" "should_check H" "driver_flags H" by (rule driver_okE [OF inv])
  have own: "owns_frame (g_A G)" "all_shallow H" using ok by simp_all
  obtain c b qs where ps: "ps = c # b # qs" using pe_owner [OF K(2) own(1)] by blast
  obtain t where t: "record_pc i (he_pc env) (loop_pc (pcs H)) = Some t" using ok record_pc_ok by fastforce
  let ?H1 = "H\<lparr>pcs := (pcs H)\<lparr>loop_pc := t\<rparr>, dr_cs := record_call_id i LOOP (dr_cs H)\<rparr>"
  have "holds (parallel_execution ?H1) (c # b # qs)" "shallow (parallel_execution ?H1)"
    using K(1) ps all_shallowD(1) [OF own(2)] by simp_all
  from push_pe_ok [OF this] obtain s where P: "push_pe ?H1 = Some (?H1\<lparr>parallel_execution := s\<rparr>)"
    "holds s (c # c # c # b # qs)" by blast
  have T1: "tool_st (g_k G) (record_call_id i LOOP (dr_cs H)) (g_E G) (g_L G) (g_D G)
      (CallID_make LOOP i # act_calls (g_A G)) (loop_waits (g_A G)) xs" by (rule tool_st_call [OF T(1)])
  have g: "guard_act LoopBegin H G"
    using tool_stD(1) [OF T(1)] by (simp add: guard_act_def step_ok_def mem_sim_def)
  have "step_ok LoopBegin (g_k G) (record_call_id i LOOP (dr_cs H)) (g_E G) (g_D G)"
    by (rule step_ok_cong [OF g [unfolded guard_act_def]]) (simp_all add: record_call_id_def)
  from tool_st_act [OF T1 this, of U] obtain S' where S': "do_loop_begin (record_call_id i LOOP (dr_cs H)) = S'"
    "tool_st (g_k G) S' (g_E G) (g_L G) (g_D G) (CallID_make LOOP i # act_calls (g_A G)) True xs" by auto
  let ?H = "?H1\<lparr>parallel_execution := s, dr_cs := S'\<rparr>" and ?A = "A_loop i False # g_A G"
  have run: "run_hook U env (BeforeLoop i) H = Some ?H"
    using F t P(1) S'(1) by (simp add: csan_before_loop_def Let_def)
  have "driver_stacks ?H ?A (g_D G)"
    by (rule driver_stacksI [where ps = "c # c # ps" and gs = gs and ws = ws and gc = gc and ms = ms])
      (use K own(1) P(2) ps in \<open>simp_all add: act_MAAPs_def\<close>)
  moreover have "tool_runs (dr_cs ?H) ((ghost_act LoopBegin G)\<lparr>g_A := ?A\<rparr>)"
    using S'(2) T(2) by (auto simp: tool_runs_def)
  moreover have "driver_flags ?H" using F(3) by (simp add: driver_flags_def should_check_def)
  moreover have "dag_part (g_E G) (g_F G) (g_K G) (g_D (ghost_act LoopBegin G)) (g_Z (ghost_act LoopBegin G))"
    by (rule dag_part_ghost [OF I(4) g _ tool_stD(4) [OF T(1)]]) simp
  ultimately show ?thesis using run I(5) by (simp add: driver_ok_def)
qed

lemma hook_after_loop:
  assumes inv: "driver_ok H G" and ok: "hook_ok (AfterLoop i r) H G"
  shows "\<exists>H'. run_hook U env (AfterLoop i r) H = Some H' \<and> driver_ok H' (hook_ghost (AfterLoop i r) G)"
proof -
  note I = driver_okD [OF inv]
  obtain ps gs ws gc ms xs where K: "holds (parallel_execution H) ps" "pe_ok ps (g_A G) (g_D G)"
    "holds (spbags_frame_skipped H) (act_skips (g_A G) @ [gs])"
    "holds (switched_stack H) ws" "length ws = Suc (act_stacks (g_A G))"
    "holds (MAAP_counts H) (act_counts (g_A G) @ [gc])" "holds (MAAPs H) ms" "act_MAAPs (g_A G) < length ms"
    and T: "tool_st (g_k G) (dr_cs H) (g_E G) (g_L G) (g_D G) (act_calls (g_A G)) (loop_waits (g_A G)) xs" "sp_ok xs (g_A G)"
    and F: "CILKSAN_INITIALIZED H" "should_check H" "driver_flags H" by (rule driver_okE [OF inv])
  let ?a = "LoopEnd r"
  obtain A where A: "g_A G = A_loop i True # A" and g: "guard_act ?a H G" using ok by auto
  obtain c p qs d E where ps: "ps = c # p # qs" "qs \<noteq> []" and D: "g_D G = d # E" "pe_ok qs A E" and own: "owns_frame A"
    using K(2) A by auto
  obtain q Q where E: "E = q # Q" using pe_frames [OF D(2)] by (cases E) auto
  let ?D = "d_step (event_of ?a False) (g_D G)" and ?k = "g_k G + rank_cost ?a (g_D G)"
  have w: "\<not> loop_waits (g_A G)" using A by simp
  obtain S1 where S1: "do_loop_end r (dr_cs H) = Some S1"
    "tool_st ?k S1 (g_E G) (g_L G) ?D (CallID_make LOOP i # act_calls A) False xs"
    using tool_st_act [OF T(1) g [unfolded guard_act_def], of U] A by auto
  obtain S' where S': "record_call_return_id i LOOP S1 = Some S'" "tool_st ?k S' (g_E G) (g_L G) ?D (act_calls A) False xs"
    using tool_st_return [OF S1(2)] by blast
  have "holds (parallel_execution (H\<lparr>dr_cs := S1\<rparr>)) (c # p # qs)" using K(1) ps(1) by simp
  from pop_pe_ne [OF this ps(2)] obtain s where P: "pop_pe (H\<lparr>dr_cs := S1\<rparr>) = H\<lparr>dr_cs := S1, parallel_execution := s\<rparr>"
    "holds s qs" by auto
  let ?H = "H\<lparr>parallel_execution := s, dr_cs := S'\<rparr>" and ?A = "A_loop_sync r # A"
  have run: "run_hook U env (AfterLoop i r) H = Some ?H"
    using F S1(1) S'(1) P(1) by (simp add: csan_after_loop_def on_tool_def Let_def)
  have "pe_ok qs ?A (d_join (unat r) (d_all d) q # Q)"
    using own D(2) E by (auto simp: d_join_def)
  then have "pe_ok qs ?A ?D" using D(1) E by simp
  then have "driver_stacks ?H ?A ?D"
    by (intro driver_stacksI [where ps = qs and gs = gs and ws = ws and gc = gc and ms = ms])
      (use K P(2) A in \<open>simp_all add: act_MAAPs_def\<close>)
  moreover have "tool_runs (dr_cs ?H) ((ghost_act ?a G)\<lparr>g_A := ?A\<rparr>)"
    using S'(2) T(2) A by (auto simp: tool_runs_def)
  moreover have "driver_flags ?H" using F(3) by (simp add: driver_flags_def should_check_def)
  moreover have "dag_part (g_E G) (g_F G) (g_K G) (g_D (ghost_act ?a G)) (g_Z (ghost_act ?a G))"
    by (rule dag_part_ghost [OF I(4) g _ tool_stD(4) [OF T(1)]]) simp
  ultimately show ?thesis using run I(5) A by (simp add: driver_ok_def)
qed

subsection \<open>Syncs\<close>

lemma pe_after_sync:
  assumes "pe_ok ps A (d # E)" "owns_frame A"
    "(d_pend e)[r := None] = (d_pend d)[r := None]" "d_loop e = d_loop d" "d_detach e = d_detach d"
  shows "pe_ok ps A (d_sync r e # E)"
proof (rule pe_mono [OF assms(1) not_ended(2) [OF assms(2)]])
  have "set ((d_pend d)[r := None]) \<subseteq> insert None (set (d_pend d))" by (rule set_update_subset_insert)
  then have "same_shape d (d_sync r e)"
    using assms(3-5) by (auto simp: same_shape_def quiet_frame_def d_sync_def)
  then show "list_all2 same_shape (d # E) (d_sync r e # E)"
    by (simp add: same_shapes_refl)
qed

text \<open>When nothing is outstanding after a sync, the driver is back at the state of the entry of the function.\<close>

lemma hook_sync:
  assumes inv: "driver_ok H G" and ok: "hook_ok (SyncHook i r) H G"
  shows "\<exists>H'. run_hook U env (SyncHook i r) H = Some H' \<and> driver_ok H' (hook_ghost (SyncHook i r) G)"
proof -
  note I = driver_okD [OF inv]
  obtain ps gs ws gc ms xs where K: "holds (parallel_execution H) ps" "pe_ok ps (g_A G) (g_D G)"
    "holds (spbags_frame_skipped H) (act_skips (g_A G) @ [gs])"
    "holds (switched_stack H) ws" "length ws = Suc (act_stacks (g_A G))"
    "holds (MAAP_counts H) (act_counts (g_A G) @ [gc])" "holds (MAAPs H) ms" "act_MAAPs (g_A G) < length ms"
    and T: "tool_st (g_k G) (dr_cs H) (g_E G) (g_L G) (g_D G) (act_calls (g_A G)) (loop_waits (g_A G)) xs" "sp_ok xs (g_A G)"
    and F: "CILKSAN_INITIALIZED H" "should_check H" "driver_flags H" by (rule driver_okE [OF inv])
  let ?a = "Sync r" and ?A = "if loop_ended (g_A G) then tl (g_A G) else g_A G"
  have g: "guard_act ?a H G" and ctx: "owns_frame (g_A G) \<or> g_A G = A_loop_sync r # tl (g_A G)" using ok by auto
  have own: "owns_frame ?A" using ctx K(2) by (cases "g_A G" rule: loop_ended.cases) auto
  have same: "act_calls ?A = act_calls (g_A G)" "act_skips ?A = act_skips (g_A G)" "act_stacks ?A = act_stacks (g_A G)"
    "act_counts ?A = act_counts (g_A G)" "loop_waits ?A = loop_waits (g_A G)" "sp_ok xs ?A = sp_ok xs (g_A G)"
    using own in_body_calls by (cases "g_A G" rule: loop_ended.cases; auto)+
  obtain d E where D: "g_D G = d # E" using pe_frames [OF K(2)] by (cases "g_D G") auto
  obtain e where e: "pe_ok ps ?A (e # E)" "(d_pend d)[unat r := None] = (d_pend e)[unat r := None]"
    "d_loop d = d_loop e" "d_detach d = d_detach e"
  proof (cases "loop_ended (g_A G)")
    case True
    then have "g_A G = A_loop_sync r # tl (g_A G)" using ctx not_ended(2) by blast
    then have "pe_ok ps (A_loop_sync r # tl (g_A G)) (d # E)" using K(2) D by simp
    then show ?thesis using that True by auto
  next
    case False
    then show ?thesis using that [of d] K(2) D by simp
  qed
  let ?d = "d_sync (unat r) d"
  have P: "pe_ok ps ?A (?d # E)" by (rule pe_after_sync [OF e(1) own e(2-4)])
  obtain c b qs where ps: "ps = c # b # qs" using pe_owner [OF P own] by blast
  obtain S' where S': "do_sync U r (dr_cs H) = Some S'"
    "tool_st (g_k G + rank_cost ?a (g_D G)) S' (g_E G) (g_L G) (?d # E) (act_calls (g_A G)) (loop_waits (g_A G)) xs"
    using tool_st_act [OF T(1) g [unfolded guard_act_def], of U] D by auto
  have syn: "is_local_synced S' = Some (synced ?d)" by (rule tool_st_synced(1) [OF S'(2)])
  let ?s = "if synced ?d then Stack_set_head b (parallel_execution H) else parallel_execution H"
  let ?H = "H\<lparr>dr_cs := S', parallel_execution := ?s\<rparr>"
  have "holds (parallel_execution H) (c # b # qs)" using K(1) ps by simp
  note h = this holds_from_back [OF this] holds_set [OF this, of b]
  have run: "run_hook U env (SyncHook i r) H = Some ?H"
    using F S'(1) syn h(2) by (simp add: csan_sync_def on_tool_def set_pe_def)
  have "\<exists>ps'. holds ?s ps' \<and> pe_ok ps' ?A (?d # E)"
  proof (cases "synced ?d")
    case True
    then have "pe_ok (b # b # qs) ?A (?d # E)" using pe_sync [OF P [unfolded ps] own] by (simp add: synced_def)
    then show ?thesis using True h(3) by auto
  next
    case False
    then show ?thesis using K(1) P by auto
  qed
  then obtain ps' where ps': "holds ?s ps'" "pe_ok ps' ?A (?d # E)" by blast
  have "driver_stacks ?H ?A (?d # E)"
    by (rule driver_stacksI [where ps = ps' and gs = gs and ws = ws and gc = gc and ms = ms])
      (use K ps' same in \<open>simp_all add: act_MAAPs_def\<close>)
  moreover have "tool_runs (dr_cs ?H) ((ghost_act ?a G)\<lparr>g_A := ?A\<rparr>)"
    using S'(2) T(2) same D by (auto simp: tool_runs_def)
  moreover have "driver_flags ?H" using F(3) by (simp add: driver_flags_def should_check_def)
  moreover have "dag_part (g_E G) (g_F G) (g_K G) (g_D (ghost_act ?a G)) (g_Z (ghost_act ?a G))"
    by (rule dag_part_ghost [OF I(4) g _ tool_stD(4) [OF T(1)]]) simp
  ultimately show ?thesis using run I(5) D by (simp add: driver_ok_def)
qed

subsection \<open>All hooks\<close>

lemma hook_keeps:
  assumes "driver_ok H G" "hook_ok h H G"
  shows "\<exists>H'. run_hook U env h H = Some H' \<and> driver_ok H' (hook_ghost h G)"
proof (cases h)
  case (FuncEntry i bp sp p)
  show ?thesis using assms unfolding FuncEntry by (rule hook_func_entry)
next
  case (FuncExit e i)
  show ?thesis using assms unfolding FuncExit by (rule hook_func_exit)
next
  case (BeforeCall i f n)
  show ?thesis using assms unfolding BeforeCall by (rule hook_before_call)
next
  case (AfterCall i f n)
  show ?thesis using assms unfolding AfterCall by (rule hook_after_call)
next
  case (SetMAAP m i)
  show ?thesis using assms unfolding SetMAAP by (rule hook_set_MAAP)
next
  case (DetachHook i r l)
  show ?thesis using assms unfolding DetachHook by (rule hook_detach)
next
  case (TaskHook t i bp sp p)
  show ?thesis using assms unfolding TaskHook by (rule hook_task)
next
  case (TaskExit e t i r l)
  show ?thesis using assms unfolding TaskExit by (rule hook_task_exit)
next
  case (DetachCont c i r l)
  show ?thesis using assms unfolding DetachCont by (rule hook_detach_cont)
next
  case (BeforeLoop i)
  show ?thesis using assms unfolding BeforeLoop by (rule hook_before_loop)
next
  case (AfterLoop i r)
  show ?thesis using assms unfolding AfterLoop by (rule hook_after_loop)
next
  case (SyncHook i r)
  show ?thesis using assms unfolding SyncHook by (rule hook_sync)
qed

end
