(* ===== verification/DriverAccess.thy ===== *)
theory DriverAccess
  imports DriverTasks
begin

text \<open>
  The hooks of loads and stores in a run: an access is checked when the execution may be parallel, and
  skipped otherwise.
\<close>

subsection \<open>The tool\<close>

lemma sp_ok_lower: "sp_ok (x # xs) A \<Longrightarrow> y \<noteq> 0 \<Longrightarrow> y \<le> x \<Longrightarrow> sp_ok (y # xs) A"
proof (induction "x # xs" A rule: sp_ok.induct)
  case (2 s A)
  then show ?case by auto
next
  case (3 A)
  then show ?case by auto
next
  case (4 A)
  then show ?case by auto
qed auto

lemma holds_lowered:
  assumes "sp_lowered addr s s'" "holds s xs" "sp_ok xs A" "addr \<noteq> 0"
  shows "\<exists>ys. holds s' ys \<and> sp_ok ys A"
proof (cases "s' = s")
  case True
  then show ?thesis using assms by blast
next
  case False
  then obtain low where low: "Stack_back s = Some low" "addr < low" "s' = Stack_set_head addr s"
    using assms(1) by (auto simp: sp_lowered_def)
  obtain x ys where xs: "xs = x # ys" using sp_ne [OF assms(3)] by (cases xs) auto
  have "x = low" using holds_back assms(2) low(1) xs by fastforce
  then show ?thesis using holds_set [of s x ys addr] sp_ok_lower [of x ys A addr] assms(2-4) low(2,3) xs by auto
qed

definition tool_in :: "nat \<Rightarrow> 'm cilksan \<Rightarrow> entries \<Rightarrow> access_log \<Rightarrow> nat dframe list \<Rightarrow> activation list \<Rightarrow> bool" where
  "tool_in k S E L D A \<longleftrightarrow> (\<exists>xs. tool_st k S E L D (act_calls A) (loop_waits A) xs \<and> sp_ok xs A)"

lemma tool_runs_in: "tool_runs S G \<longleftrightarrow> tool_in (g_k G) S (g_E G) (g_L G) (g_D G) (g_A G)"
  by (simp add: tool_runs_def tool_in_def)

lemma tool_in_do_access:
  assumes st: "tool_in k S E L D A" and ok: "access_ok addr s al" and a: "addr \<noteq> 0"
  shows "\<exists>S1. do_access rd ty i addr s al S = Some S1 \<and>
    (\<forall>S' E' L' D'. mem_sim k S' E' L' D' \<and> cs_sp_stack S' = cs_sp_stack S1 \<and> cs_call_stack S' = cs_call_stack S1 \<and>
       cs_lockset_empty S' = cs_lockset_empty S1 \<and> cs_start_new_loop S' = cs_start_new_loop S1 \<longrightarrow>
       tool_in k S' E' L' D' A)"
proof -
  obtain xs where xs: "tool_st k S E L D (act_calls A) (loop_waits A) xs" "sp_ok xs A" using st by (auto simp: tool_in_def)
  note T = tool_stD [OF xs(1)]
  obtain S1 where S1: "do_access rd ty i addr s al S = Some S1" "aside addr S S1"
    using mem_sim_do_access [OF T(1) ok, of rd ty i] by blast
  obtain ys where ys: "holds (cs_sp_stack S1) ys" "sp_ok ys A"
    using holds_lowered [OF _ T(5) xs(2) a] S1(2) by (auto simp: aside_def)
  have "tool_in k S' E' L' D' A"
    if h: "mem_sim k S' E' L' D'" "cs_sp_stack S' = cs_sp_stack S1" "cs_call_stack S' = cs_call_stack S1"
      "cs_lockset_empty S' = cs_lockset_empty S1" "cs_start_new_loop S' = cs_start_new_loop S1" for S' E' L' D'
  proof -
    have "tool_st k S' E' L' D' (act_calls A) (loop_waits A) ys"
      using h S1(2) T ys(1) by (simp add: tool_st_def aside_def)
    then show ?thesis using ys(2) by (auto simp: tool_in_def)
  qed
  then show ?thesis using S1(1) by blast
qed

lemma tool_in_unrecorded:
  assumes st: "tool_in k S E L D A" and ok: "access_ok addr s al" and a: "addr \<noteq> 0"
    and acc: "do_access rd ty i addr s al S = Some S'"
    and v: "\<forall>rd. Dict_view (sm_dict rd (cs_shadow S')) = Dict_view (sm_dict rd (cs_shadow S))"
  shows "tool_in k S' E L D A"
proof -
  have "mem_sim k S E L D" using st by (auto simp: tool_in_def tool_st_def)
  from mem_sim_unrecorded [OF this ok acc v] tool_in_do_access [OF st ok a, of rd ty i] acc show ?thesis by auto
qed

lemma tool_in_access:
  assumes st: "tool_in k S E L D A" and ok: "access_ok addr s al" and a: "addr \<noteq> 0" and t: "E t = None"
    and acc: "do_access rd ty i addr s al S = Some S1" and r: "tool_act U (Record t) S1 E = Some (S', E')"
  shows "tool_in k S' E' (L(t \<mapsto> (rd, addr, s))) (d_step (E_access t) D) A"
proof -
  have m: "mem_sim k S E L D" using st by (auto simp: tool_in_def tool_st_def)
  have M: "mem_sim k S' E' (L(t \<mapsto> (rd, addr, s))) (d_step (E_access t) D)"
    by (rule mem_sim_access [OF m ok t acc r])
  obtain fs where sim: "tool_sim S1 E k fs D" using mem_sim_do_access [OF m ok, of rd ty i] acc by auto
  have "cs_start_new_loop S' = cs_start_new_loop S1" using act_loop_flag [OF sim r] by simp
  moreover have "keeps S1 S'" by (rule act_keeps [OF sim r])
  ultimately show ?thesis
    using M tool_in_do_access [OF st ok a, of rd ty i] acc by (auto simp: keeps_def tool_part_def)
qed

subsection \<open>The hooks\<close>

text \<open>The size of an access, as the hooks for small and for large accesses are given it.\<close>

fun access_bytes :: "u32 + u64 \<Rightarrow> u64" where
  "access_bytes (Inl s) = scast s"
| "access_bytes (Inr s) = s"

fun run_access ::
  "hook_env \<Rightarrow> bool \<Rightarrow> csi_id_t \<Rightarrow> u64 \<Rightarrow> u32 + u64 \<Rightarrow> access_prop_t \<Rightarrow> 'm driver \<Rightarrow> 'm driver option" where
  "run_access env True i addr (Inl s) p H = csan_load env i addr s p H"
| "run_access env True i addr (Inr s) p H = csan_large_load env i addr s p H"
| "run_access env False i addr (Inl s) p H = csan_store env i addr s p H"
| "run_access env False i addr (Inr s) p H = csan_large_store env i addr s p H"

definition access_allowed ::
  "bool \<Rightarrow> csi_id_t \<Rightarrow> u64 \<Rightarrow> u32 + u64 \<Rightarrow> access_prop_t \<Rightarrow> 'm driver \<Rightarrow> ghost \<Rightarrow> bool" where
  "access_allowed rd i addr s p H G \<longleftrightarrow> in_body (g_A G) \<and> \<not> ap_is_atomic p \<and> \<not> ap_is_thread_local p \<and> addr \<noteq> 0 \<and>
     access_ok addr (access_bytes s) (ucast (ap_alignment p)) \<and>
     unat i < length (if rd then load_pc (pcs H) else store_pc (pcs H))"

lemma driver_okI:
  assumes "driver_flags H" "driver_stacks H (g_A G) (g_D G)" "tool_runs (dr_cs H) G"
    "dag_part (g_E G) (g_F G) (g_K G) (g_D G) (g_Z G)" "g_L G \<subseteq>\<^sub>m g_F G"
  shows "driver_ok H G"
  using assms by (simp add: driver_ok_def)

lemma driver_flags_cong:
  assumes "driver_flags H" "CILKSAN_INITIALIZED H' = CILKSAN_INITIALIZED H" "first_call H' = first_call H"
    "instrumentation H' = instrumentation H" "checking_disabled H' = checking_disabled H"
  shows "driver_flags H'"
  using assms by (simp add: driver_flags_def should_check_def)

lemma driver_stacks_cong:
  assumes "driver_stacks H A D" "parallel_execution H' = parallel_execution H"
    "spbags_frame_skipped H' = spbags_frame_skipped H" "switched_stack H' = switched_stack H"
    "MAAP_counts H' = MAAP_counts H" "MAAPs H' = MAAPs H"
  shows "driver_stacks H' A D"
  using assms by (simp add: driver_stacks_def)

text \<open>What an access does: nothing while the execution is serial; else the tool checks it.\<close>

lemma driver_parallel:
  assumes "driver_ok H G"
  obtains ps where "pe_ok ps (g_A G) (g_D G)" "is_execution_parallel H = Some (hd ps \<noteq> 0)"
proof -
  obtain ps where ps: "holds (parallel_execution H) ps" "pe_ok ps (g_A G) (g_D G)"
    using driver_okD(2) [OF assms] unfolding driver_stacks_def by blast
  obtain c qs where c: "ps = c # qs" using pe_ne [OF ps(2)] by (cases ps) auto
  have "Stack_back (parallel_execution H) = Some c" using holds_back ps(1) c by fastforce
  then show ?thesis using that [OF ps(2)] c by (simp add: is_execution_parallel_def)
qed

lemma run_access_eq:
  assumes inv: "driver_ok H G" and ok: "access_allowed rd i addr s p H G"
  shows "is_execution_parallel H = Some False \<Longrightarrow> run_access env rd i addr s p H = Some H"
    "is_execution_parallel H = Some True \<Longrightarrow> \<exists>T. length (load_pc T) = length (load_pc (pcs H)) \<and>
      length (store_pc T) = length (store_pc (pcs H)) \<and> run_access env rd i addr s p H =
      map_option (\<lambda>S. H\<lparr>pcs := T, dr_cs := S\<rparr>)
        (do_access rd RW (access_id env i H) addr (access_bytes s) (ucast (ap_alignment p)) (dr_cs H))"
proof -
  have F: "CILKSAN_INITIALIZED H" "should_check H" using driver_okD(1) [OF inv] by (simp_all add: driver_flags_def)
  have l: "\<not> locks_held (dr_cs H)"
    using driver_okD(3) [OF inv] by (auto simp: tool_runs_def tool_st_def locks_held_def)
  have a: "\<not> ap_is_atomic p" "\<not> ap_is_thread_local p" "rd \<Longrightarrow> unat i < length (load_pc (pcs H))"
    "\<not> rd \<Longrightarrow> unat i < length (store_pc (pcs H))" using ok by (auto simp: access_allowed_def)
  note defs = csan_load_def csan_large_load_def csan_store_def csan_large_store_def
  show "run_access env rd i addr s p H = Some H" if "is_execution_parallel H = Some False"
    using F that by (cases rd; cases s) (simp_all add: defs)
  assume par: "is_execution_parallel H = Some True"
  show "\<exists>T. length (load_pc T) = length (load_pc (pcs H)) \<and> length (store_pc T) = length (store_pc (pcs H)) \<and>
      run_access env rd i addr s p H = map_option (\<lambda>S. H\<lparr>pcs := T, dr_cs := S\<rparr>)
        (do_access rd RW (access_id env i H) addr (access_bytes s) (ucast (ap_alignment p)) (dr_cs H))"
  proof (cases rd)
    case True
    obtain t where t: "record_pc i (he_pc env) (load_pc (pcs H)) = Some t" "length t = length (load_pc (pcs H))"
      using record_pc_ok [OF a(3) [OF True]] by blast
    show ?thesis
      by (rule exI [of _ "(pcs H)\<lparr>load_pc := t\<rparr>"], cases s)
        (use F par t l a(1,2) True in \<open>simp_all add: defs on_tool_def do_access_def access_id_def Let_def\<close>)
  next
    case False
    obtain t where t: "record_pc i (he_pc env) (store_pc (pcs H)) = Some t" "length t = length (store_pc (pcs H))"
      using record_pc_ok [OF a(4) [OF False]] by blast
    show ?thesis
      by (rule exI [of _ "(pcs H)\<lparr>store_pc := t\<rparr>"], cases s)
        (use F par t l a(1,2) False in \<open>simp_all add: defs on_tool_def do_access_def access_id_def Let_def\<close>)
  qed
qed

lemma access_returns:
  assumes inv: "driver_ok H G" and ok: "access_allowed rd i addr s p H G"
  shows "\<exists>H'. run_access env rd i addr s p H = Some H'"
proof -
  obtain ps where ps: "pe_ok ps (g_A G) (g_D G)" "is_execution_parallel H = Some (hd ps \<noteq> 0)"
    by (rule driver_parallel [OF inv])
  from ps(2) consider "is_execution_parallel H = Some False" | "is_execution_parallel H = Some True" by fastforce
  then show ?thesis
  proof cases
    case 1
    then show ?thesis using run_access_eq(1) [OF inv ok] by blast
  next
    case 2
    have "access_ok addr (access_bytes s) (ucast (ap_alignment p))" "addr \<noteq> 0" using ok by (simp_all add: access_allowed_def)
    from tool_in_do_access [OF driver_okD(3) [OF inv, unfolded tool_runs_in] this, of rd RW "access_id env i H"]
    obtain S1 where S1: "do_access rd RW (access_id env i H) addr (access_bytes s) (ucast (ap_alignment p)) (dr_cs H) = Some S1"
      by blast
    obtain T where "run_access env rd i addr s p H = map_option (\<lambda>S. H\<lparr>pcs := T, dr_cs := S\<rparr>)
        (do_access rd RW (access_id env i H) addr (access_bytes s) (ucast (ap_alignment p)) (dr_cs H))"
      using run_access_eq(2) [OF inv ok 2] by blast
    then show ?thesis by (simp add: S1)
  qed
qed

text \<open>What the program has done after an access: skipped, checked without recording it, and recorded.\<close>

definition ghost_any :: "nat \<Rightarrow> bool \<times> u64 \<times> u64 \<Rightarrow> ghost \<Rightarrow> ghost" where
  "ghost_any t a G = G\<lparr>g_F := (g_F G)(t \<mapsto> a), g_Z := d_step (E_access t) (g_Z G)\<rparr>"

definition ghost_skipped :: "nat \<Rightarrow> bool \<times> u64 \<times> u64 \<Rightarrow> ghost \<Rightarrow> ghost" where
  "ghost_skipped t a G = (ghost_any t a G)\<lparr>g_K := insert t (g_K G)\<rparr>"

definition ghost_recorded :: "nat \<Rightarrow> bool \<times> u64 \<times> u64 \<Rightarrow> entries \<Rightarrow> ghost \<Rightarrow> ghost" where
  "ghost_recorded t a E G = (ghost_any t a G)\<lparr>g_E := E, g_L := (g_L G)(t \<mapsto> a), g_D := d_step (E_access t) (g_D G)\<rparr>"

lemmas ghost_defs = ghost_any_def ghost_skipped_def ghost_recorded_def

lemma map_le_fresh: "L \<subseteq>\<^sub>m F \<Longrightarrow> F t = None \<Longrightarrow> L \<subseteq>\<^sub>m F(t \<mapsto> a)"
  unfolding map_le_def by (metis domIff fun_upd_apply)

lemma skipped_keeps:
  assumes inv: "driver_ok H G" and b: "in_body (g_A G)" and t: "g_F G t = None" and ser: "is_execution_parallel H = Some False"
  shows "driver_ok H (ghost_skipped t a G)"
proof -
  note I = driver_okD [OF inv]
  obtain ps where ps: "pe_ok ps (g_A G) (g_D G)" "is_execution_parallel H = Some (hd ps \<noteq> 0)"
    by (rule driver_parallel [OF inv])
  have "hd ps = 0" using ps(2) ser by simp
  then have "\<forall>d \<in> set (g_D G). quiet_frame d" by (rule pe_quiet [OF ps(1) _ in_body_calls(1) [OF b]])
  from dag_part_skipped [OF I(4) t this] map_le_fresh [OF I(5) t] I(1-3) show ?thesis
    by (simp add: driver_ok_def ghost_defs tool_runs_def)
qed

lemma access_H:
  assumes inv: "driver_ok H G" and ok: "access_allowed rd i addr s p H G" and par: "is_execution_parallel H = Some True"
    and run: "run_access env rd i addr s p H = Some H'"
  obtains T S where "do_access rd RW (access_id env i H) addr (access_bytes s) (ucast (ap_alignment p)) (dr_cs H) = Some S"
    "H' = H\<lparr>pcs := T, dr_cs := S\<rparr>"
    "length (load_pc T) = length (load_pc (pcs H))" "length (store_pc T) = length (store_pc (pcs H))"
proof -
  obtain T where T: "run_access env rd i addr s p H = map_option (\<lambda>S. H\<lparr>pcs := T, dr_cs := S\<rparr>)
      (do_access rd RW (access_id env i H) addr (access_bytes s) (ucast (ap_alignment p)) (dr_cs H))"
    and l: "length (load_pc T) = length (load_pc (pcs H))" "length (store_pc T) = length (store_pc (pcs H))"
    using run_access_eq(2) [OF inv ok par] by blast
  from trans [OF T [symmetric] run] show ?thesis using that l by (auto simp: map_option_eq_Some)
qed

lemma checked_keeps:
  assumes inv: "driver_ok H G" and H': "H' = H\<lparr>pcs := T, dr_cs := S'\<rparr>"
  shows "driver_flags H'" "driver_stacks H' (g_A G) (g_D G)"
  using driver_flags_cong [OF driver_okD(1) [OF inv], of H'] driver_stacks_cong [OF driver_okD(2) [OF inv], of H'] H'
  by simp_all

lemma access_keeps_stacks:
  assumes inv: "driver_ok H G" and ok: "access_allowed rd i addr s p H G"
  shows "\<exists>H'. run_access env rd i addr s p H = Some H' \<and> driver_stacks H' (g_A G) (g_D G)"
proof -
  obtain H' where run: "run_access env rd i addr s p H = Some H'" using access_returns [OF inv ok] by blast
  obtain ps where "pe_ok ps (g_A G) (g_D G)" "is_execution_parallel H = Some (hd ps \<noteq> 0)"
    by (rule driver_parallel [OF inv])
  then consider "is_execution_parallel H = Some False" | "is_execution_parallel H = Some True" by fastforce
  then have "driver_stacks H' (g_A G) (g_D G)"
  proof cases
    case 1
    then have "H' = H" using run_access_eq(1) [OF inv ok 1, of env] run by simp
    then show ?thesis using driver_okD(2) [OF inv] by simp
  next
    case 2
    obtain T S where "H' = H\<lparr>pcs := T, dr_cs := S\<rparr>" by (rule access_H [OF inv ok 2 run])
    then show ?thesis by (rule checked_keeps(2) [OF inv])
  qed
  then show ?thesis using run by blast
qed

lemma unrecorded_keeps:
  assumes inv: "driver_ok H G" and ok: "access_allowed rd i addr s p H G" and par: "is_execution_parallel H = Some True"
    and run: "run_access env rd i addr s p H = Some H'" and t: "g_F G t = None"
    and v: "\<forall>rd. Dict_view (sm_dict rd (cs_shadow (dr_cs H'))) = Dict_view (sm_dict rd (cs_shadow (dr_cs H)))"
  shows "driver_ok H' (ghost_any t a G)"
proof -
  note I = driver_okD [OF inv]
  obtain T S where A: "do_access rd RW (access_id env i H) addr (access_bytes s) (ucast (ap_alignment p)) (dr_cs H) = Some S"
    "H' = H\<lparr>pcs := T, dr_cs := S\<rparr>" by (rule access_H [OF inv ok par run])
  have S: "dr_cs H' = S" by (simp add: A(2))
  have o: "access_ok addr (access_bytes s) (ucast (ap_alignment p))" "addr \<noteq> 0" using ok by (simp_all add: access_allowed_def)
  have "tool_runs (dr_cs H') G"
    using tool_in_unrecorded [OF I(3) [unfolded tool_runs_in] o(1,2) A(1) v [unfolded S]] by (simp add: tool_runs_in S)
  then show ?thesis using checked_keeps [OF inv A(2)] dag_part_unrecorded [OF I(4) t] map_le_fresh [OF I(5) t]
    by (simp add: driver_ok_def ghost_defs tool_runs_def)
qed

lemma pe_access: "pe_ok ps A D \<Longrightarrow> in_body A \<Longrightarrow> pe_ok ps A (d_step (E_access t) D)"
proof (rule pe_mono [where D = D])
  assume "in_body A"
  then show "\<not> loop_ended A" using in_body_calls(1) not_ended(1) by blast
  show "list_all2 same_shape D (d_step (E_access t) D)"
    by (cases D) (simp_all add: new_quiet(2) same_shapes_refl)
qed

lemma recorded_keeps:
  assumes inv: "driver_ok H G" and ok: "access_allowed rd i addr s p H G" and par: "is_execution_parallel H = Some True"
    and run: "run_access env rd i addr s p H = Some H'" and t: "g_F G t = None"
    and r: "tool_act U (Record t) (dr_cs H') (g_E G) = Some (S', E')"
  shows "driver_ok (H'\<lparr>dr_cs := S'\<rparr>) (ghost_recorded t (rd, addr, access_bytes s) E' G)"
proof -
  note I = driver_okD [OF inv]
  obtain T S where A: "do_access rd RW (access_id env i H) addr (access_bytes s) (ucast (ap_alignment p)) (dr_cs H) = Some S"
    "H' = H\<lparr>pcs := T, dr_cs := S\<rparr>" by (rule access_H [OF inv ok par run])
  have S: "dr_cs H' = S" by (simp add: A(2))
  have o: "access_ok addr (access_bytes s) (ucast (ap_alignment p))" "addr \<noteq> 0" "in_body (g_A G)"
    using ok by (simp_all add: access_allowed_def)
  have "dom (g_E G) \<subseteq> dom (g_F G)" using I(4) by (simp only: dag_part_def)
  then have E: "g_E G t = None" "dom E' = insert t (dom (g_E G))"
    using t r by (auto simp: bind_eq_Some_conv)
  have e: "H'\<lparr>dr_cs := S'\<rparr> = H\<lparr>pcs := T, dr_cs := S'\<rparr>" by (simp add: A(2))
  note F = checked_keeps [OF inv e]
  let ?G = "ghost_recorded t (rd, addr, access_bytes s) E' G"
  show ?thesis
  proof (rule driver_okI)
    show "driver_flags (H'\<lparr>dr_cs := S'\<rparr>)" by (rule F(1))
    have "driver_stacks (H'\<lparr>dr_cs := S'\<rparr>) (g_A G) (d_step (E_access t) (g_D G))"
      using F(2) pe_access [where D = "g_D G" and t = t, OF _ o(3)] unfolding driver_stacks_def by blast
    then show "driver_stacks (H'\<lparr>dr_cs := S'\<rparr>) (g_A ?G) (g_D ?G)" by (simp add: ghost_defs)
    have "tool_in (g_k G) S' E' ((g_L G)(t \<mapsto> (rd, addr, access_bytes s))) (d_step (E_access t) (g_D G)) (g_A G)"
      by (rule tool_in_access [OF I(3) [unfolded tool_runs_in] o(1,2) E(1) A(1) r [unfolded S]])
    then show "tool_runs (dr_cs (H'\<lparr>dr_cs := S'\<rparr>)) ?G" by (simp add: ghost_defs tool_runs_in)
    show "dag_part (g_E ?G) (g_F ?G) (g_K ?G) (g_D ?G) (g_Z ?G)"
      using dag_part_access [OF I(4) t E(2), of "(rd, addr, access_bytes s)"] by (simp add: ghost_defs)
    show "g_L ?G \<subseteq>\<^sub>m g_F ?G"
      using map_le_upd [OF I(5), of t "Some (rd, addr, access_bytes s)"] by (simp add: ghost_defs)
  qed
qed

end
