(* ===== verification/DriverSafety.thy ===== *)
theory DriverSafety
  imports DriverAccess
begin

text \<open>
  The theorems on the hooks: no hook fails, accesses that are skipped because the execution is serial are in
  no race, and every race that a hook reports is a race of the program.
\<close>

subsection \<open>The start\<close>

definition ghost_start :: ghost where
  "ghost_start = \<lparr>g_k = 0, g_E = no_entries, g_L = Map.empty, g_D = start_dag, g_F = Map.empty, g_Z = start_dag,
     g_K = {}, g_A = []\<rparr>"

text \<open>The driver before the first function is entered, with its tables of program counters and whether it
  runs under the replay debugger.\<close>

definition driver_begin ::
  "u64 list \<Rightarrow> 'm rv_state \<Rightarrow> (nat \<Rightarrow> LockID_t) \<Rightarrow> u64 \<Rightarrow> u64 \<Rightarrow> pc_tables \<Rightarrow> bool \<Rightarrow> 'm driver" where
  "driver_begin new R g low high T rr = (driver_new (cilksan_new new R g low high))\<lparr>pcs := T, is_running_under_rr := rr\<rparr>"

text \<open>The hook of the first function starts the tool and goes on.\<close>

lemma first_hook:
  assumes "CILKSAN_INITIALIZED H" "start_tool env H = Some H'"
  shows "csan_func_entry env i bp sp p H = csan_func_entry env i bp sp p H'"
  using assms
  by (auto simp: csan_func_entry_def start_tool_def on_tool_def enable_instrumentation_def bind_eq_Some_conv Let_def
      split: if_splits)

definition stats_on :: "string option \<Rightarrow> bool" where
  "stats_on e \<longleftrightarrow> (\<exists>v. e = Some v \<and> v \<noteq> ''0'')"

lemma CilkSanImpl_init_eq:
  "CilkSanImpl_init stats_var atomics_var (cilksan_new new R g low high) =
   cilksan_init new R g (stats_on stats_var) (case atomics_var of Some v \<Rightarrow> v \<noteq> ''0'' | None \<Rightarrow> True) low high"
proof -
  have "Stack_size (Stack_new FrameData_default) = 1" by (simp add: Stack_size_def Stack_new_def)
  then show ?thesis
    by (cases stats_var; cases atomics_var)
      (simp_all add: CilkSanImpl_init_def cilksan_new_def cilksan_init_def stats_on_def stats_init_def Let_def)
qed

lemma start_ok:
  assumes "fresh_supply new" "start_tool env (driver_begin new R g low high T rr) = Some H"
  shows "driver_ok H ghost_start"
proof -
  let ?H0 = "driver_begin new R g low high T rr"
  let ?S0 = "cilksan_new new R g low high"
  obtain S where S: "CilkSanImpl_init (he_stats_var env) (he_atomics_var env) ?S0 = Some S"
    and H: "H = (enable_instrumentation (?H0\<lparr>first_call := False, dr_cs := S\<rparr>))\<lparr>parallel_execution := Stack_push_back 0 0 (Stack_new 0),
      MAAP_counts := Stack_push_back 0 0 (Stack_new 0)\<rparr>"
    using assms(2)
    by (auto simp: start_tool_def on_tool_def driver_begin_def driver_new_def enable_instrumentation_def bind_eq_Some_conv Let_def)
  note init = S [unfolded CilkSanImpl_init_eq]
  have sim: "mem_sim 0 S no_entries Map.empty start_dag"
    using init_sim [OF assms(1) init] init_mem_inv [OF init] by (auto simp: mem_sim_def)
  have f: "cs_lockset_empty S" "cs_call_stack S = []" "\<not> cs_start_new_loop S" "cs_sp_stack S = Stack_new 0"
    using init by (auto simp: cilksan_init_def bind_eq_Some_conv on_frame_def cs_put_frame_def Let_def)
  have st: "tool_st 0 S no_entries Map.empty start_dag [] False [0]"
    using sim f holds_new [of "0 :: u64"] by (simp add: tool_st_def)
  have room: "unat (stk_head (Stack_new (d :: 'x))) + 1 < 2 ^ 31" for d by (simp add: Stack_new_def)
  have "driver_stacks H [] start_dag"
    by (rule driver_stacksI [where ps = "[0, 0]" and gs = False and ws = "[0]" and gc = 0 and ms = "[(0, 0)]"])
      (use holds_push [OF holds_new room] holds_new in
        \<open>simp_all add: H enable_instrumentation_def driver_begin_def driver_new_def start_dag_def quiet_frame_def d_new_def act_MAAPs_def\<close>)
  moreover have "driver_flags H"
    by (simp add: H driver_flags_def should_check_def enable_instrumentation_def driver_begin_def driver_new_def)
  moreover have "tool_runs (dr_cs H) ghost_start"
    using st by (auto simp: tool_runs_def ghost_start_def H enable_instrumentation_def)
  moreover have "dag_part no_entries Map.empty {} start_dag start_dag"
    by (simp add: dag_part_def dag_ok_def start_dag_def no_entries_def loops_ok_def d_all_def d_res_def)
  ultimately show ?thesis by (simp add: driver_ok_def ghost_start_def)
qed

subsection \<open>Runs\<close>

text \<open>What happens to the tool besides hooks: the allocators have new addresses, and a number whose access no
  byte shows any more is dropped.\<close>

fun env_act :: "action \<Rightarrow> bool" where
  "env_act (Forget t) = True"
| "env_act (Supply new) = True"
| "env_act _ = False"

definition ghost_env :: "action \<Rightarrow> entries \<Rightarrow> ghost \<Rightarrow> ghost" where
  "ghost_env a E G = G\<lparr>g_E := E, g_D := d_step (event_of a False) (g_D G)\<rparr>"

text \<open>\<open>hook_reach U H G\<close>: a program whose hooks are properly nested can take the driver to \<open>H\<close>, having done \<open>G\<close>.
  An access has a number \<open>t\<close>; it is skipped, or checked, and then its record may be kept or not.\<close>

inductive hook_reach :: "'m user_code \<Rightarrow> 'm driver \<Rightarrow> ghost \<Rightarrow> bool" for U :: "'m user_code" where
  hook_start: "fresh_supply new \<Longrightarrow> start_tool env (driver_begin new R g low high T rr) = Some H \<Longrightarrow>
    hook_reach U H ghost_start"
| hook_run: "hook_reach U H G \<Longrightarrow> hook_ok h H G \<Longrightarrow> run_hook U env h H = Some H' \<Longrightarrow> hook_reach U H' (hook_ghost h G)"
| hook_env: "hook_reach U H G \<Longrightarrow> env_act a \<Longrightarrow> \<not> loop_ended (g_A G) \<Longrightarrow> guard_act a H G \<Longrightarrow>
    control_ok a (dr_cs H) (g_E G) (g_L G) \<Longrightarrow> tool_act U a (dr_cs H) (g_E G) = Some (S', E') \<Longrightarrow>
    hook_reach U (H\<lparr>dr_cs := S'\<rparr>) (ghost_env a E' G)"
| hook_skipped: "hook_reach U H G \<Longrightarrow> access_allowed rd i addr s p H G \<Longrightarrow> g_F G t = None \<Longrightarrow>
    is_execution_parallel H = Some False \<Longrightarrow> run_access env rd i addr s p H = Some H' \<Longrightarrow>
    hook_reach U H' (ghost_skipped t (rd, addr, access_bytes s) G)"
| hook_unrecorded: "hook_reach U H G \<Longrightarrow> access_allowed rd i addr s p H G \<Longrightarrow> g_F G t = None \<Longrightarrow>
    is_execution_parallel H = Some True \<Longrightarrow> run_access env rd i addr s p H = Some H' \<Longrightarrow>
    \<forall>rd. Dict_view (sm_dict rd (cs_shadow (dr_cs H'))) = Dict_view (sm_dict rd (cs_shadow (dr_cs H))) \<Longrightarrow>
    hook_reach U H' (ghost_any t (rd, addr, access_bytes s) G)"
| hook_recorded: "hook_reach U H G \<Longrightarrow> access_allowed rd i addr s p H G \<Longrightarrow> g_F G t = None \<Longrightarrow>
    is_execution_parallel H = Some True \<Longrightarrow> run_access env rd i addr s p H = Some H' \<Longrightarrow>
    tool_act U (Record t) (dr_cs H') (g_E G) = Some (S', E') \<Longrightarrow>
    hook_reach U (H'\<lparr>dr_cs := S'\<rparr>) (ghost_recorded t (rd, addr, access_bytes s) E' G)"

lemma env_flag: "env_act a \<Longrightarrow> event_of a w = event_of a w'" "env_act a \<Longrightarrow> rank_cost a D = 0"
  by (cases a; simp)+

lemma env_keeps:
  assumes inv: "driver_ok H G" and e: "env_act a" "\<not> loop_ended (g_A G)" "guard_act a H G"
    "control_ok a (dr_cs H) (g_E G) (g_L G)" and act: "tool_act U a (dr_cs H) (g_E G) = Some (S', E')"
  shows "driver_ok (H\<lparr>dr_cs := S'\<rparr>) (ghost_env a E' G)"
proof -
  note I = driver_okD [OF inv]
  let ?D = "d_step (event_of a False) (g_D G)"
  obtain xs where xs: "tool_st (g_k G) (dr_cs H) (g_E G) (g_L G) (g_D G) (act_calls (g_A G)) (loop_waits (g_A G)) xs" "sp_ok xs (g_A G)"
    using I(3) unfolding tool_runs_def by blast
  note T = tool_stD [OF xs(1)]
  obtain fs where sim: "tool_sim (dr_cs H) (g_E G) (g_k G) fs (g_D G)" using T(1) unfolding mem_sim_def by blast
  have M: "mem_sim (g_k G) S' E' (g_L G) ?D"
    using mem_sim_control [OF T(1) e(3) [unfolded guard_act_def] e(4), of U] act
      env_flag(1) [OF e(1), of "cs_start_new_loop (dr_cs H)" False] env_flag(2) [OF e(1)] by auto
  have K: "keeps (dr_cs H) S'" by (rule act_keeps [OF sim act])
  have "cs_start_new_loop S' = cs_start_new_loop (dr_cs H)" using act_loop_flag [OF sim act] e(1) by (cases a) simp_all
  then have st: "tool_st (g_k G) S' E' (g_L G) ?D (act_calls (g_A G)) (loop_waits (g_A G)) xs"
    using M K T by (simp add: tool_st_def keeps_def tool_part_def)
  have sh: "list_all2 same_shape (g_D G) ?D"
  proof (cases a)
    case (Forget t)
    have "same_shape d (d_drop t d)" for d :: "nat dframe"
      by (auto simp: same_shape_def quiet_frame_def d_drop_def)
    then show ?thesis using Forget by (simp add: list_all2_map2 list.rel_refl)
  qed (use e(1) in \<open>simp_all add: same_shapes_refl\<close>)
  have stacks: "driver_stacks (H\<lparr>dr_cs := S'\<rparr>) (g_A G) ?D"
    using I(2) pe_mono [OF _ e(2) sh] unfolding driver_stacks_def by simp blast
  have dag: "dag_part E' (g_F G) (g_K G) ?D (g_Z G)"
  proof (cases a)
    case (Forget t)
    then show ?thesis using act dag_part_forget [OF I(4), of t] by (auto simp: bind_eq_Some_conv)
  qed (use e(1) act I(4) in auto)
  have fl: "driver_flags (H\<lparr>dr_cs := S'\<rparr>)" by (rule driver_flags_cong [OF I(1)]) simp_all
  show ?thesis
    by (rule driver_okI) (use fl stacks st xs(2) dag I(5) in \<open>auto simp: ghost_env_def tool_runs_def\<close>)
qed

lemma hook_reach_ok: "hook_reach U H G \<Longrightarrow> driver_ok H G"
proof (induction rule: hook_reach.induct)
  case (hook_start new env R g low high T rr H)
  then show ?case by (rule start_ok)
next
  case (hook_run H G h env H')
  from hook_keeps [OF hook_run.IH hook_run.hyps(2), of U env] hook_run.hyps(3) show ?case by simp
next
  case (hook_env H G a S' E')
  from env_keeps [OF hook_env.IH hook_env.hyps(2-6)] show ?case .
next
  case (hook_skipped H G rd i addr s p t env H')
  have "H' = H" using run_access_eq(1) [OF hook_skipped.IH hook_skipped.hyps(2,4), of env] hook_skipped.hyps(5) by simp
  moreover have "in_body (g_A G)" using hook_skipped.hyps(2) by (simp add: access_allowed_def)
  ultimately show ?case using skipped_keeps [OF hook_skipped.IH _ hook_skipped.hyps(3,4)] by simp
next
  case (hook_unrecorded H G rd i addr s p t env H')
  from unrecorded_keeps [OF hook_unrecorded.IH hook_unrecorded.hyps(2,4,5,3,6)] show ?case .
next
  case (hook_recorded H G rd i addr s p t env H' S' E')
  from recorded_keeps [OF hook_recorded.IH hook_recorded.hyps(2,4,5,3,6)] show ?case .
qed

subsection \<open>Example runs\<close>

text \<open>The states that a list of hooks goes through.\<close>

fun run_hooks :: "'m user_code \<Rightarrow> hook_env \<Rightarrow> hook list \<Rightarrow> 'm driver \<times> ghost \<Rightarrow> ('m driver \<times> ghost) list" where
  "run_hooks U env [] (H, G) = [(H, G)]"
| "run_hooks U env (h # hs) (H, G) =
     (H, G) # (case run_hook U env h H of None \<Rightarrow> [] | Some H' \<Rightarrow> run_hooks U env hs (H', hook_ghost h G))"

lemma run_hooks_Cons:
  assumes "run_hooks U env (h # hs) X = X0 # X1 # Xs"
  shows "run_hook U env h (fst X0) = Some (fst X1)" "snd X1 = hook_ghost h (snd X0)" "run_hooks U env hs X1 = X1 # Xs" "X = X0"
proof -
  obtain H G where X: "X = (H, G)" by (cases X)
  obtain H' where H': "run_hook U env h H = Some H'" "run_hooks U env hs (H', hook_ghost h G) = X1 # Xs" "X0 = (H, G)"
    using assms X by (auto split: option.splits)
  have "X1 = (H', hook_ghost h G)" using H'(2) by (cases hs) auto
  then show "run_hook U env h (fst X0) = Some (fst X1)" "snd X1 = hook_ghost h (snd X0)" "run_hooks U env hs X1 = X1 # Xs" "X = X0"
    using H' X by simp_all
qed

definition ex_env :: hook_env where
  "ex_env = \<lparr>he_pc = 1, he_rr_time = 0, he_stats_var = None, he_atomics_var = None, he_locks = (\<lambda>_. 0), he_sizes = (\<lambda>_. 0)\<rparr>"

definition ex_pcs :: pc_tables where
  "ex_pcs = \<lparr>call_pc = [0], spawn_pc = [0], loop_pc = [0], load_pc = [0], store_pc = [0], alloca_pc = [0],
     allocfn_pc = [0], allocfn_prop = [0], free_pc = [0]\<rparr>"

definition ex_driver :: "(nat driver \<times> ghost) option" where
  "ex_driver = map_option (\<lambda>H. (H, ghost_start)) (start_tool ex_env
     (driver_begin ex_supply \<lparr>rv_tables = Map.empty, rv_mem = 0, rv_new = []\<rparr> (\<lambda>_. 0) 0 0 ex_pcs False))"

definition ex_main :: hook where
  "ex_main = FuncEntry 0 2097152 2093056 \<lparr>fp_num_sync_reg = 1, fp_may_spawn = True\<rparr>"

definition ex_task :: hook where
  "ex_task = TaskHook 0 0 2093056 2088960 \<lparr>tp_is_tapir_loop_body = False, tp_num_sync_reg = 0\<rparr>"

definition ex_heads :: "nat driver \<Rightarrow> u32 list" where
  "ex_heads H = [stk_head (parallel_execution H), stk_head (spbags_frame_skipped H), stk_head (switched_stack H),
     stk_head (MAAPs H), stk_head (MAAP_counts H), stk_head (cs_sp_stack (dr_cs H)), stk_head (cs_frame_stack (dr_cs H))]"

definition ex_small :: "nat driver \<times> ghost \<Rightarrow> bool" where
  "ex_small = (\<lambda>(H, G). list_all (\<lambda>h. h < 100) (ex_heads H) \<and> 2 \<le> length (sp_new (cs_sp (dr_cs H))) \<and>
     g_k G = 0 \<and> g_D G \<noteq> [] \<and> g_F G 0 = None \<and> length (load_pc (pcs H)) = 1 \<and> length (store_pc (pcs H)) = 1 \<and> length (spawn_pc (pcs H)) = 1)"

definition ex_view :: "nat driver \<times> ghost \<Rightarrow> activation list \<times> bool \<times> bool option \<times> (bool \<times> nat \<times> bool \<times> bool) list" where
  "ex_view = (\<lambda>(H, G). (g_A G, ex_small (H, G), is_execution_parallel H,
     map (\<lambda>d. (0 \<in> d_cur d, length (d_pend d), d_loop d, d_detach d)) (g_D G)))"

definition ex_states :: "(nat driver \<times> ghost) list" where
  "ex_states = (case ex_driver of None \<Rightarrow> []
     | Some X \<Rightarrow> run_hooks ex_user ex_env [ex_main, DetachHook 0 0 False, ex_task] X)"

text \<open>A function is entered, spawns, and the task is entered.\<close>

lemma ex_states_view:
  "map ex_view ex_states = 
   [([], True, Some False, [(False, 0, False, False)]),
    ([A_func False], True, Some False, [(False, 1, False, False), (False, 0, False, False)]),
    ([A_spawn 0, A_func False], True, Some True, [(False, 1, False, False), (False, 0, False, False)]),
    ([A_task, A_spawn 0, A_func False], True, Some True,
      [(False, 0, False, True), (False, 1, False, False), (False, 0, False, False)])]"
  by code_simp

lemma ex_small_ok:
  assumes "ex_small (H, G)"
  shows "all_shallow H" "Stack_room (cs_frame_stack (dr_cs H))" "2 \<le> length (sp_new (cs_sp (dr_cs H)))" "g_k G = 0" "g_D G \<noteq> []"
    "g_F G 0 = None"
    "length (load_pc (pcs H)) = 1" "length (store_pc (pcs H)) = 1" "length (spawn_pc (pcs H)) = 1"
proof -
  have l: "unat h < 100" if "h \<in> set (ex_heads H)" for h
    using assms that by (simp add: ex_small_def list_all_iff word_less_nat_alt)
  then have "unat h + 2 < 2 ^ 31" if "h \<in> set (ex_heads H)" for h
    using l [OF that] by simp
  then show "all_shallow H" by (simp only: all_shallow_def shallow_def ex_heads_def list.set(2) insertI1 insertI2 simp_thms)
  show "Stack_room (cs_frame_stack (dr_cs H))"
    using l [of "stk_head (cs_frame_stack (dr_cs H))"] by (simp add: Stack_room_def ex_heads_def)
  show "g_D G \<noteq> []" using assms by (simp add: ex_small_def)
qed (use assms in \<open>auto simp: ex_small_def\<close>)

lemma ex_guard:
  assumes "ex_small (H, G)"
  shows "guard_act (Enter n) H G" "guard_act (EnterHelper n) H G"
  using ex_small_ok [OF assms] by (cases "g_D G"; simp add: guard_act_def step_ok_def)+

lemma ex_reached:
  obtains H1 G1 H G where "hook_reach ex_user H1 G1" "g_A G1 = [A_func False]" "is_execution_parallel H1 = Some False"
    "ex_small (H1, G1)" "hook_reach ex_user H G" "g_A G = [A_task, A_spawn 0, A_func False]"
    "is_execution_parallel H = Some True" "ex_small (H, G)"
    "map (\<lambda>d. (0 \<in> d_cur d, length (d_pend d), d_loop d, d_detach d)) (g_D G) =
      [(False, 0, False, True), (False, 1, False, False), (False, 0, False, False)]"
proof -
  let ?hs = "[ex_main, DetachHook 0 0 False, ex_task]"
  obtain H0 G0 H1 G1 H2 G2 H3 G3 where X: "ex_states = [(H0, G0), (H1, G1), (H2, G2), (H3, G3)]"
    and v: "ex_view (H0, G0) = ([], True, Some False, [(False, 0, False, False)])"
      "ex_view (H1, G1) = ([A_func False], True, Some False, [(False, 1, False, False), (False, 0, False, False)])"
      "ex_view (H2, G2) = ([A_spawn 0, A_func False], True, Some True, [(False, 1, False, False), (False, 0, False, False)])"
      "ex_view (H3, G3) = ([A_task, A_spawn 0, A_func False], True, Some True,
        [(False, 0, False, True), (False, 1, False, False), (False, 0, False, False)])"
    using ex_states_view unfolding map_eq_Cons_conv by fastforce
  obtain Y where "ex_driver = Some Y" "run_hooks ex_user ex_env ?hs Y = [(H0, G0), (H1, G1), (H2, G2), (H3, G3)]"
    using X by (auto simp: ex_states_def split: option.splits)
  note h1 = run_hooks_Cons [OF this(2)]
  note h2 = run_hooks_Cons [OF h1(3)]
  note h3 = run_hooks_Cons [OF h2(3)]
  have "G0 = ghost_start" "start_tool ex_env (driver_begin ex_supply \<lparr>rv_tables = Map.empty, rv_mem = 0, rv_new = []\<rparr>
      (\<lambda>_. 0) 0 0 ex_pcs False) = Some H0"
    using \<open>ex_driver = Some Y\<close> h1(4) by (auto simp: ex_driver_def)
  then have R0: "hook_reach ex_user H0 G0" using hook_start [OF ex_supply_fresh] by simp
  have s: "ex_small (H0, G0)" "ex_small (H1, G1)" "ex_small (H2, G2)" "ex_small (H3, G3)"
    and A: "g_A G0 = []" "g_A G1 = [A_func False]" "g_A G2 = [A_spawn 0, A_func False]"
      "g_A G3 = [A_task, A_spawn 0, A_func False]" using v by (simp_all add: ex_view_def)
  have "hook_ok ex_main H0 G0"
    using ex_small_ok [OF s(1)] ex_guard(1) [OF s(1)] A(1) by (simp add: ex_main_def stack_addr_def)
  from hook_run [OF R0 this, of ex_env H1] have R1: "hook_reach ex_user H1 G1" using h1(1,2) by (simp only: fst_conv snd_conv)
  have "hook_ok (DetachHook 0 0 False) H1 G1" using ex_small_ok(9) [OF s(2)] A(2) by simp
  from hook_run [OF R1 this, of ex_env H2] have R2: "hook_reach ex_user H2 G2" using h2(1,2) by (simp only: fst_conv snd_conv)
  have "hook_ok ex_task H2 G2"
    using ex_small_ok [OF s(3)] ex_guard(2) [OF s(3)] A(3) by (simp add: ex_task_def stack_addr_def)
  from hook_run [OF R2 this, of ex_env H3] have "hook_reach ex_user H3 G3" using h3(1,2) by (simp only: fst_conv snd_conv)
  then show ?thesis using that [OF R1 A(2) _ s(2) _ A(4) _ s(4)] v by (simp add: ex_view_def)
qed

definition ex_prop :: access_prop_t where
  "ex_prop = \<lparr>ap_alignment = 8, ap_is_atomic = False, ap_is_thread_local = False\<rparr>"

lemma ex_allowed:
  assumes "length (load_pc (pcs H)) = 1" "length (store_pc (pcs H)) = 1" "in_body (g_A G)"
  shows "access_allowed rd 0 4096 (Inl 8) ex_prop H G"
proof -
  have "access_ok 4096 (access_bytes (Inl 8)) (ucast (8 :: u8))" using ex_access_ok(1) by simp
  then show ?thesis using assms by (auto simp: access_allowed_def ex_prop_def)
qed

text \<open>The hooks of control flow leave the tables of accesses alone.\<close>

lemma pcs_kept:
  "on_tool act H = Some H' \<Longrightarrow> pcs H' = pcs H" "leave_stack H = Some H' \<Longrightarrow> pcs H' = pcs H" "pcs (pop_pe H) = pcs H"
  by (auto simp: on_tool_def leave_stack_def pop_pe_def bind_eq_Some_conv Let_def)

lemma exit_tables:
  "run_hook U env (TaskExit e t i r False) H = Some H' \<Longrightarrow> pcs H' = pcs H"
  "run_hook U env (DetachCont c i r False) H = Some H' \<Longrightarrow> pcs H' = pcs H"
proof -
  assume "run_hook U env (TaskExit e t i r False) H = Some H'"
  then have "H' = H \<or> (\<exists>H1 H2. on_tool (do_leave r) H = Some H1 \<and> on_tool pop_stack_frame (pop_pe H1) = Some H2 \<and> leave_stack H2 = Some H')"
    by (simp add: csan_task_exit_def bind_eq_Some_conv split: if_splits) blast
  then show "pcs H' = pcs H" by (auto simp: pcs_kept(3) dest!: pcs_kept(1,2))
next
  assume "run_hook U env (DetachCont c i r False) H = Some H'"
  then have "H' = H \<or> (\<exists>H1. on_tool (record_call_return_id i SPAWN) H = Some H1 \<and> on_tool (do_detach_continue U r) H1 = Some H')"
    by (simp add: csan_detach_continue_def bind_eq_Some_conv split: if_splits)
  then show "pcs H' = pcs H" by (auto dest!: pcs_kept(1))
qed

text \<open>The task has written and returned, and its parent continues.\<close>

lemma ex_written_hooks:
  obtains H G where "hook_reach ex_user H G" "g_A G = [A_func False]" "is_execution_parallel H = Some True"
    "access_allowed True 0 4096 (Inl 8) ex_prop H G" "g_F G 0 = Some (False, 4096, 8)" "0 \<notin> d_cur (hd (g_Z G))"
proof -
  obtain H G where R: "hook_reach ex_user H G" and A: "g_A G = [A_task, A_spawn 0, A_func False]"
    and par: "is_execution_parallel H = Some True" and sm: "ex_small (H, G)"
    and v: "map (\<lambda>d. (0 \<in> d_cur d, length (d_pend d), d_loop d, d_detach d)) (g_D G) =
      [(False, 0, False, True), (False, 1, False, False), (False, 0, False, False)]"
    by (rule ex_reached)
  note sm = ex_small_ok [OF sm]
  obtain d f q where D: "g_D G = [d, f, q]" and dv: "\<not> d_loop d" "d_detach d" "length (d_pend f) = 1" "0 \<notin> d_cur f" "d_pend d = []"
    using v by (auto simp: map_eq_Cons_conv)
  note inv = hook_reach_ok [OF R]
  note I = driver_okD [OF inv]
  have al: "access_allowed False 0 4096 (Inl 8) ex_prop H G" by (rule ex_allowed) (use sm A in simp_all)
  obtain H1 where H1: "run_access ex_env False 0 4096 (Inl 8) ex_prop H = Some H1"
    using access_returns [OF inv al] by blast
  obtain T S where S: "do_access False RW (access_id ex_env 0 H) 4096 (access_bytes (Inl 8)) (ucast (ap_alignment ex_prop)) (dr_cs H) = Some S"
    "H1 = H\<lparr>pcs := T, dr_cs := S\<rparr>" "length (load_pc T) = length (load_pc (pcs H))" "length (store_pc T) = length (store_pc (pcs H))"
    by (rule access_H [OF inv al par H1])
  have ao: "access_ok 4096 (access_bytes (Inl 8)) (ucast (ap_alignment ex_prop))" using al by (simp add: access_allowed_def)
  obtain xs where "tool_st (g_k G) (dr_cs H) (g_E G) (g_L G) (g_D G) (act_calls (g_A G)) (loop_waits (g_A G)) xs"
    using I(3) unfolding tool_runs_def by blast
  note sim = tool_stD(1) [OF this]
  have E0: "g_E G 0 = None" using I(4) sm(6) by (auto simp: dag_part_def)
  obtain fs where fs: "tool_sim S (g_E G) (g_k G) fs (g_D G)" using mem_sim_do_access [OF sim ao, of False RW "access_id ex_env 0 H"] S(1) by auto
  have "step_ok (Record 0) (g_k G) S (g_E G) (g_D G)" using E0 D sm(4) by (simp add: step_ok_def)
  then obtain S2 E where S2: "tool_act ex_user (Record 0) S (g_E G) = Some (S2, E)"
    using tool_step [OF fs, of "Record 0" ex_user] unfolding steps_to_def by blast
  have s1: "dr_cs H1 = S" by (simp add: S(2))
  let ?a = "(False, 4096 :: u64, access_bytes (Inl 8))"
  define H2 G2 where "H2 = H1\<lparr>dr_cs := S2\<rparr>" and "G2 = ghost_recorded 0 ?a E G"
  have R2: "hook_reach ex_user H2 G2"
    unfolding H2_def G2_def by (rule hook_recorded [OF R al sm(6) par H1]) (simp only: s1 S2)
  have "sp_new (cs_sp S2) = sp_new (cs_sp (dr_cs H))" by (rule do_access_supply [OF sim ao S(1) S2])
  then have sup: "sp_new (cs_sp (dr_cs H2)) \<noteq> []" using sm(3) by (auto simp: H2_def)
  let ?d = "d\<lparr>d_cur := insert 0 (d_cur d)\<rparr>"
  have G2: "g_A G2 = g_A G" "g_k G2 = 0" "g_D G2 = [?d, f, q]" "g_F G2 0 = Some (False, 4096, 8)"
    using D sm(4) by (simp_all add: G2_def ghost_defs)
  have "guard_act (Leave 0) H2 G2" using sup G2(2,3) dv by (simp add: guard_act_def step_ok_def)
  then have ok: "hook_ok (TaskExit 0 0 0 0 False) H2 G2" using G2(1) A by simp
  obtain H3 where H3: "run_hook ex_user ex_env (TaskExit 0 0 0 0 False) H2 = Some H3"
    using hook_keeps [OF hook_reach_ok [OF R2] ok] by blast
  define G3 where "G3 = hook_ghost (TaskExit 0 0 0 0 False) G2"
  have R3: "hook_reach ex_user H3 G3" unfolding G3_def by (rule hook_run [OF R2 ok H3])
  have G3: "g_A G3 = [A_spawn 0, A_func False]" "g_k G3 = length (d_pend d) + 1" "g_D G3 = [d_join 0 (d_all ?d) f, q]"
    "g_F G3 0 = Some (False, 4096, 8)" using G2 A dv by (simp_all add: G3_def)
  have "guard_act (DetachContinue 0) H3 G3" using G3(2) dv(5) by (simp add: guard_act_def step_ok_def)
  then have ok3: "hook_ok (DetachCont 0 0 0 False) H3 G3" using G3(1) by simp
  obtain H4 where H4: "run_hook ex_user ex_env (DetachCont 0 0 0 False) H3 = Some H4"
    using hook_keeps [OF hook_reach_ok [OF R3] ok3] by blast
  define G4 where "G4 = hook_ghost (DetachCont 0 0 0 False) G3"
  have R4: "hook_reach ex_user H4 G4" unfolding G4_def by (rule hook_run [OF R3 ok3 H4])
  have G4: "g_A G4 = [A_func False]" "g_D G4 = [d_join 0 (d_all ?d) f, q]" "g_F G4 0 = Some (False, 4096, 8)"
    using G3 by (simp_all add: G4_def)
  have "pcs H4 = T" using exit_tables(1) [OF H3] exit_tables(2) [OF H4] by (simp add: H2_def S(2))
  then have al4: "access_allowed True 0 4096 (Inl 8) ex_prop H4 G4" by (intro ex_allowed) (use S(3,4) sm G4(1) in simp_all)
  note inv4 = hook_reach_ok [OF R4]
  obtain ps where ps: "pe_ok ps (g_A G4) (g_D G4)" "is_execution_parallel H4 = Some (hd ps \<noteq> 0)"
    by (rule driver_parallel [OF inv4])
  have "d_join 0 (d_all ?d) f \<in> set (g_D G4)" by (simp add: G4(2))
  moreover have "\<not> quiet_frame (d_join 0 (d_all ?d) f)"
    using dv(3) by (cases "d_pend f") (auto simp: quiet_frame_def d_join_def)
  ultimately have "hd ps \<noteq> 0" using pe_quiet [OF ps(1)] G4(1) by auto
  then have par4: "is_execution_parallel H4 = Some True" using ps(2) by simp
  have dag: "dag_part (g_E G4) (g_F G4) (g_K G4) (g_D G4) (g_Z G4)" by (rule driver_okD(4) [OF inv4])
  have "g_E G4 0 \<noteq> None" using S2 by (auto simp: G4_def G3_def G2_def ghost_defs bind_eq_Some_conv)
  moreover have "0 \<notin> d_cur (hd (g_D G4))" using dv(4) by (simp add: G4(2) d_join_def)
  ultimately have "0 \<notin> d_cur (hd (g_Z G4))"
    using dag by (cases "g_Z G4") (auto simp: dag_part_def dag_ok_def)
  with R4 G4(1,3) par4 al4 show ?thesis using that by blast
qed

subsection \<open>The theorems\<close>

lemma zframe:
  assumes "driver_ok H G"
  obtains z Z where "g_Z G = z # Z" "g_D G = d_res (dom (g_E G)) z # map (d_res (dom (g_E G))) Z"
  using driver_okD(4) [OF assms] by (cases "g_Z G") (auto simp: dag_part_def dag_ok_def)

lemma quiet_res: "\<forall>d \<in> set (map (d_res X) Z). quiet_frame d \<Longrightarrow> \<forall>d \<in> set Z. quiet_frame d"
  by (simp add: quiet_frame_def d_res_none)

text \<open>
  C10.  The hooks always return: in every run of properly nested hooks, each hook of control
  flow and of loads and stores that may come next ends, and afterwards the stacks of the driver
  (parallel execution, skipped frames, stack switches, pointer arguments) match the activations
  that are then open (driver_stacks); no stack is empty when it is read, no query about a
  recorded access fails, no assertion fails and no table is read out of bounds. The hooks nest
  as hook_ok says: calls, tasks, loops and iterations are properly nested, a function has synced
  when it returns and an iteration its regions above 0 when it ends, bodies of loops may spawn
  and sync in region 0 too, a parallel loop is synced right after its end; no locks, no atomic
  accesses, no unwinding.
\<close>

theorem hooks_never_fail:
  assumes "hook_reach U H G"
  shows "(hook_ok h H G \<longrightarrow> (\<exists>H'. run_hook U env h H = Some H' \<and>
      driver_stacks H' (g_A (hook_ghost h G)) (g_D (hook_ghost h G)))) \<and>
    (access_allowed rd i addr s p H G \<longrightarrow> (\<exists>H'. run_access env rd i addr s p H = Some H' \<and>
      driver_stacks H' (g_A G) (g_D G)))"
  using hook_keeps [OF hook_reach_ok [OF assms]] driver_okD(2) access_keeps_stacks [OF hook_reach_ok [OF assms]]
  by blast

lemma hooks_never_fail_witness:
  "\<exists>H G H'. hook_reach ex_user H G \<and> g_F G 0 = Some (False, 4096, 8) \<and> run_access ex_env True 0 4096 (Inl 8) ex_prop H = Some H' \<and>
     driver_stacks H' [A_func False] (g_D G)"
proof -
  obtain H G where r: "hook_reach ex_user H G" "g_A G = [A_func False]" "access_allowed True 0 4096 (Inl 8) ex_prop H G"
    "g_F G 0 = Some (False, 4096, 8)" by (rule ex_written_hooks)
  show ?thesis using hooks_never_fail [OF r(1), THEN conjunct2, rule_format, OF r(3), of ex_env] r(1,2,4) by auto
qed

text \<open>
  C9.  Skipping accesses in serial code is sound: every access that a hook skipped because the
  execution was not parallel precedes, from then on, everything the program does; and while a
  body runs in an execution that is not parallel, all accesses made so far precede the current
  strand, so that the access that is skipped is in no race. The hooks nest as hook_ok says:
  calls, tasks, loops and iterations are properly nested, a function has synced when it returns
  and an iteration its regions above 0 when it ends, bodies of loops may spawn and sync in
  region 0 too, a parallel loop is synced right after its end; no locks, no atomic accesses, no
  unwinding.
\<close>

theorem serial_accesses_race_free:
  assumes "hook_reach U H G"
  shows "(\<forall>t \<in> g_K G. t \<in> d_cur (hd (g_Z G))) \<and>
    (is_execution_parallel H = Some False \<and> in_body (g_A G) \<longrightarrow> dom (g_F G) = d_cur (hd (g_Z G)))"
proof -
  have inv: "driver_ok H G" by (rule hook_reach_ok [OF assms])
  note dag = driver_okD(4) [OF inv]
  have "dom (g_F G) = d_cur (hd (g_Z G))" if s: "is_execution_parallel H = Some False" "in_body (g_A G)"
  proof -
    obtain ps where ps: "pe_ok ps (g_A G) (g_D G)" "is_execution_parallel H = Some (hd ps \<noteq> 0)"
      by (rule driver_parallel [OF inv])
    have "\<forall>d \<in> set (g_D G). quiet_frame d"
      by (rule pe_quiet [OF ps(1) _ in_body_calls(1) [OF s(2)]]) (use ps(2) s(1) in simp)
    then have q: "list_all quiet_frame (g_D G)" by (simp only: list_all_iff)
    have d: "g_D G = map (d_res (dom (g_E G))) (g_Z G)" "dag_ok (dom (g_F G)) (g_Z G)"
      using dag by (simp_all only: dag_part_def)
    have "\<forall>d \<in> set (map (d_res (dom (g_E G))) (g_Z G)). quiet_frame d"
      using q unfolding d(1) by (simp only: list_all_iff)
    from quiet_all [OF d(2) quiet_res [OF this]] show ?thesis .
  qed
  moreover have "t \<in> d_cur (hd (g_Z G))" if "t \<in> g_K G" for t
  proof -
    have "settled t (g_Z G)" using dag that by (simp add: dag_part_def)
    then show ?thesis by (rule settled_cur)
  qed
  ultimately show ?thesis by (intro conjI ballI impI) simp_all
qed

lemma serial_accesses_race_free_witness:
  "\<exists>H G. hook_reach ex_user H G \<and> 0 \<in> g_K G \<and> 0 \<in> d_cur (hd (g_Z G))"
proof -
  obtain H G where r: "hook_reach ex_user H G" "g_A G = [A_func False]" "is_execution_parallel H = Some False" "ex_small (H, G)"
    by (rule ex_reached)
  note sm = ex_small_ok [OF r(4)]
  have al: "access_allowed True 0 4096 (Inl 8) ex_prop H G" by (rule ex_allowed) (use sm r(2) in simp_all)
  have run: "run_access ex_env True 0 4096 (Inl 8) ex_prop H = Some H"
    by (rule run_access_eq(1) [OF hook_reach_ok [OF r(1)] al r(3)])
  let ?G = "ghost_skipped 0 (True, 4096, access_bytes (Inl 8)) G"
  have reach: "hook_reach ex_user H ?G" by (rule hook_skipped [OF r(1) al sm(6) r(3) run])
  have "0 \<in> g_K ?G" by (simp add: ghost_defs)
  then show ?thesis using serial_accesses_race_free [OF reach] reach by blast
qed

text \<open>
  C8.  No false races at the hooks: in every run of properly nested hooks (functions with and
  without frames, calls, spawned tasks, parallel loops, syncs, stack switches), every race that
  the hook of a load or store reports is of a byte of this access, with an earlier access of the
  program that covers the byte, conflicts with it and does not precede the current strand in the
  dag of all accesses, those that were skipped or not recorded included; it is never one of the
  skipped accesses. The hooks nest as hook_ok says: calls, tasks, loops and iterations are
  properly nested, a function has synced when it returns and an iteration its regions above 0
  when it ends, bodies of loops may spawn and sync in region 0 too, a parallel loop is synced
  right after its end; no locks, no atomic accesses, no unwinding.
\<close>

theorem hook_races_are_real:
  assumes reach: "hook_reach U H G" and ok: "access_allowed rd i addr s p H G"
    and run: "run_access env rd i addr s p H = Some H'"
  shows "\<exists>rs. cs_reports (dr_cs H') = cs_reports (dr_cs H) @ rs \<and> (\<forall>r \<in> set rs.
    in_chunk (Chunk addr (access_bytes s)) (rp_addr r) \<and>
    (\<exists>t rd'. covers (g_F G) t rd' (rp_addr r) \<and> \<not> (rd \<and> rd') \<and> rp_race r = race_between rd' rd \<and>
       t \<notin> d_cur (hd (g_Z G)) \<and> t \<notin> g_K G))"
proof -
  have inv: "driver_ok H G" by (rule hook_reach_ok [OF reach])
  note I = driver_okD [OF inv]
  obtain ps where "pe_ok ps (g_A G) (g_D G)" "is_execution_parallel H = Some (hd ps \<noteq> 0)" by (rule driver_parallel [OF inv])
  then consider "is_execution_parallel H = Some False" | "is_execution_parallel H = Some True" by fastforce
  then show ?thesis
  proof cases
    case 1
    then show ?thesis using run_access_eq(1) [OF inv ok 1, of env] run by (intro exI [of _ "[]"]) simp
  next
    case 2
    obtain T S where S: "do_access rd RW (access_id env i H) addr (access_bytes s) (ucast (ap_alignment p)) (dr_cs H) = Some S"
      "H' = H\<lparr>pcs := T, dr_cs := S\<rparr>" by (rule access_H [OF inv ok 2 run])
    obtain z Z where Z: "g_Z G = z # Z" "g_D G = d_res (dom (g_E G)) z # map (d_res (dom (g_E G))) Z" by (rule zframe [OF inv])
    have sim: "mem_sim (g_k G) (dr_cs H) (g_E G) (g_L G) (d_res (dom (g_E G)) z # map (d_res (dom (g_E G))) Z)"
      using I(3) Z(2) by (auto simp: tool_runs_def tool_st_def)
    have ao: "access_ok addr (access_bytes s) (ucast (ap_alignment p))" using ok by (simp add: access_allowed_def)
    from sim_reports_races [OF sim ao S(1)] obtain rs where rs: "cs_reports S = cs_reports (dr_cs H) @ rs"
      "\<And>r. r \<in> set rs \<Longrightarrow> in_chunk (Chunk addr (access_bytes s)) (rp_addr r) \<and>
        (\<exists>t rd'. covers (g_L G) t rd' (rp_addr r) \<and> \<not> (rd \<and> rd') \<and> rp_race r = race_between rd' rd \<and>
          t \<notin> d_cur (d_res (dom (g_E G)) z) \<and> g_E G t \<noteq> None)" by blast
    have settled: "t \<in> d_cur (hd (g_Z G))" if "t \<in> g_K G" for t
    proof -
      have "settled t (g_Z G)" using I(4) that by (simp add: dag_part_def)
      then show ?thesis by (rule settled_cur)
    qed
    have "covers (g_F G) t rd' a" if "covers (g_L G) t rd' a" for t rd' a
      using that I(5) by (auto simp: covers_def map_le_def dom_def)
    note logged = this
    have "\<exists>t rd'. covers (g_F G) t rd' (rp_addr r) \<and> \<not> (rd \<and> rd') \<and> rp_race r = race_between rd' rd \<and>
       t \<notin> d_cur (hd (g_Z G)) \<and> t \<notin> g_K G" if r: "r \<in> set rs" for r
    proof -
      obtain t rd' where t: "covers (g_L G) t rd' (rp_addr r)" "\<not> (rd \<and> rd')" "rp_race r = race_between rd' rd"
        "t \<notin> d_cur (d_res (dom (g_E G)) z)" "g_E G t \<noteq> None" using rs(2) [OF r] by blast
      have "t \<notin> d_cur (hd (g_Z G))" using t(4,5) Z(1) by (simp add: domIff)
      then show ?thesis using logged [OF t(1)] t(2,3) settled by blast
    qed
    then show ?thesis using rs S(2) by auto
  qed
qed

lemma hook_races_are_real_witness:
  "\<exists>H G H' rs. hook_reach ex_user H G \<and> g_F G 0 = Some (False, 4096, 8) \<and> 0 \<notin> d_cur (hd (g_Z G)) \<and>
     run_access ex_env True 0 4096 (Inl 8) ex_prop H = Some H' \<and> cs_reports (dr_cs H') = cs_reports (dr_cs H) @ rs \<and>
     (\<forall>r \<in> set rs. \<exists>t. covers (g_F G) t False (rp_addr r) \<and> t \<notin> d_cur (hd (g_Z G)))"
proof -
  obtain H G where r: "hook_reach ex_user H G" "access_allowed True 0 4096 (Inl 8) ex_prop H G" "g_F G 0 = Some (False, 4096, 8)"
    "0 \<notin> d_cur (hd (g_Z G))" by (rule ex_written_hooks)
  obtain H' where run: "run_access ex_env True 0 4096 (Inl 8) ex_prop H = Some H'"
    using access_returns [OF hook_reach_ok [OF r(1)] r(2)] by blast
  show ?thesis using hook_races_are_real [OF r(1,2) run] r run by fastforce
qed

end
