(* ===== verification/LineWord.thy ===== *)
theory LineWord
  imports Prelude
begin

text \<open>
  The packed word of a shadow-memory line (\<open>AbstractLine_t::DataPtr\<close>): 48 bits of array
  pointer, 12 bits that count the valid entries and 4 bits of grainsize.  Each accessor of the
  code is shown to read or change its own field only, under the bounds that the line keeps (a
  line has at most 512 entries, a grainsize is at most 9, a user-space pointer has 48 bits).
  The theory \<open>ShadowLine\<close> models lines with the three fields apart.
\<close>

definition DataMask :: u64 where "DataMask = push_bit 48 1 - 1"
definition NumNonNullElsRShift :: nat where "NumNonNullElsRShift = 48"
definition LgNumNonNullEls :: nat where "LgNumNonNullEls = 12"
definition LgGrainsizeRShift :: nat where "LgGrainsizeRShift = 48 + LgNumNonNullEls"
definition NumNonNullMask :: u64 where "NumNonNullMask = push_bit LgNumNonNullEls 1 - 1"
definition GrainsizeMask :: u64 where "GrainsizeMask = push_bit (16 - LgNumNonNullEls) 1 - 1"

lemmas lw_consts = DataMask_def NumNonNullElsRShift_def LgNumNonNullEls_def LgGrainsizeRShift_def
  NumNonNullMask_def GrainsizeMask_def

definition lw_getData :: "u64 \<Rightarrow> u64" where
  "lw_getData DataPtr = DataPtr AND DataMask"

definition lw_setData :: "u64 \<Rightarrow> u64 \<Rightarrow> u64" where
  "lw_setData newData DataPtr = (DataPtr AND NOT DataMask) OR (newData AND DataMask)"

definition lw_setLgGrainsize :: "u32 \<Rightarrow> u64 \<Rightarrow> u64" where
  "lw_setLgGrainsize newLgGrainsize DataPtr =
     (DataPtr AND NOT (push_bit LgGrainsizeRShift GrainsizeMask)) OR
     push_bit LgGrainsizeRShift (ucast newLgGrainsize)"

definition lw_scaleNumNonNullEls :: "u32 \<Rightarrow> u64 \<Rightarrow> u64" where
  "lw_scaleNumNonNullEls replFactor DataPtr =
     (DataPtr AND NOT (push_bit NumNonNullElsRShift NumNonNullMask)) OR
     ((DataPtr AND push_bit NumNonNullElsRShift NumNonNullMask) * scast replFactor)"

definition lw_getLgGrainsize :: "u64 \<Rightarrow> u32" where
  "lw_getLgGrainsize DataPtr = ucast (drop_bit LgGrainsizeRShift DataPtr AND GrainsizeMask)"

definition lw_getNumNonNullEls :: "u64 \<Rightarrow> u32" where
  "lw_getNumNonNullEls DataPtr = ucast (drop_bit NumNonNullElsRShift DataPtr AND NumNonNullMask)"

definition lw_noNonNullEls :: "u64 \<Rightarrow> bool" where
  "lw_noNonNullEls DataPtr \<longleftrightarrow> 0 = DataPtr AND push_bit NumNonNullElsRShift NumNonNullMask"

definition lw_zeroNumNonNullEls :: "u64 \<Rightarrow> u64" where
  "lw_zeroNumNonNullEls DataPtr = DataPtr AND NOT (push_bit NumNonNullElsRShift NumNonNullMask)"

definition lw_incNumNonNullEls :: "u64 \<Rightarrow> u64" where
  "lw_incNumNonNullEls DataPtr = DataPtr + push_bit NumNonNullElsRShift 1"

definition lw_decNumNonNullEls :: "u64 \<Rightarrow> u64 option" where
  "lw_decNumNonNullEls DataPtr =
     (if lw_noNonNullEls DataPtr then None else Some (DataPtr - push_bit NumNonNullElsRShift 1))"

definition lw_isMaterialized :: "u64 \<Rightarrow> bool" where
  "lw_isMaterialized DataPtr \<longleftrightarrow> 0 \<noteq> lw_getData DataPtr"

subsection \<open>The three fields\<close>

definition lw_data :: "u64 \<Rightarrow> nat" where "lw_data w = unat w mod 2 ^ 48"
definition lw_count :: "u64 \<Rightarrow> nat" where "lw_count w = unat w div 2 ^ 48 mod 2 ^ 12"
definition lw_lg :: "u64 \<Rightarrow> nat" where "lw_lg w = unat w div 2 ^ 60"

text \<open>The abstraction of the packed word.\<close>

definition lw_fields :: "u64 \<Rightarrow> nat \<times> nat \<times> nat" where
  "lw_fields w = (lw_data w, lw_count w, lw_lg w)"

lemma split_arith:
  "(a::nat) = 2 ^ 48 * q + r \<Longrightarrow> q = 2 ^ 12 * x + y \<Longrightarrow> a = r + 2 ^ 48 * y + 2 ^ 60 * x"
  by simp

lemma lw_split: "unat w = lw_data w + 2 ^ 48 * lw_count w + 2 ^ 60 * lw_lg w"
proof -
  define q where "q = unat w div 2 ^ 48"
  have "unat w div 2 ^ 60 = q div 2 ^ 12"
    unfolding q_def by (simp only: div_mult2_eq [symmetric]) simp
  moreover have "unat w = 2 ^ 48 * q + unat w mod 2 ^ 48" by (simp add: q_def)
  moreover have "q = 2 ^ 12 * (q div 2 ^ 12) + q mod 2 ^ 12" by simp
  ultimately show ?thesis
    unfolding lw_data_def lw_count_def lw_lg_def q_def [symmetric]
    using split_arith [of "unat w" q] by metis
qed

lemma lw_bounds: "lw_data w < 2 ^ 48" "lw_count w < 2 ^ 12" "lw_lg w < 2 ^ 4"
  using unsigned_less [of w, where 'a = nat] by (simp_all add: lw_data_def lw_count_def lw_lg_def)

lemma lw_fieldsI:
  assumes "unat w = d + 2 ^ 48 * c + 2 ^ 60 * g" "d < 2 ^ 48" "c < 2 ^ 12"
  shows "lw_fields w = (d, c, g)"
proof -
  have "unat w div 2 ^ 48 = c + 2 ^ 12 * g"
    using assms by (simp add: div_nat_eqI)
  moreover have "unat w mod 2 ^ 48 = d"
  proof -
    have "unat w = d + 2 ^ 48 * (c + 2 ^ 12 * g)" by (simp add: assms(1))
    then show ?thesis using assms(2) by (simp only: mod_mult_self2 mod_less)
  qed
  moreover have "unat w div 2 ^ 60 = g"
    using assms by (simp add: div_nat_eqI)
  ultimately show ?thesis using assms(3) by (simp add: lw_fields_def lw_data_def lw_count_def lw_lg_def)
qed


subsection \<open>Each accessor changes its own field\<close>

lemma lw_masks:
  "DataMask = mask 48" "push_bit NumNonNullElsRShift NumNonNullMask = push_bit 48 (mask 12)"
  "push_bit LgGrainsizeRShift GrainsizeMask = push_bit 60 (mask 4)"
  "NumNonNullMask = mask 12" "GrainsizeMask = mask 4"
  by (simp_all add: lw_consts mask_eq_exp_minus_1)

lemma lw_bit_eqI:
  assumes "take_bit 48 v = take_bit 48 w" "take_bit 12 (drop_bit 48 v) = take_bit 12 (drop_bit 48 w)"
  shows "lw_data v = lw_data w" "lw_count v = lw_count w"
proof -
  show "lw_data v = lw_data w"
    using arg_cong [OF assms(1), of unat]
    by (simp only: unsigned_take_bit_eq lw_data_def) (simp only: take_bit_eq_mod)
  show "lw_count v = lw_count w"
    using arg_cong [OF assms(2), of unat]
    by (simp only: unsigned_take_bit_eq unat_drop_bit_eq lw_count_def)
       (simp only: take_bit_eq_mod drop_bit_eq_div)
qed

lemma lw_lg_drop: "lw_lg w = unat (drop_bit 60 w)"
  by (simp only: unat_drop_bit_eq lw_lg_def) (simp only: drop_bit_eq_div)

lemma lw_count_take: "lw_count w = unat (take_bit 12 (drop_bit 48 w))"
  by (simp only: unsigned_take_bit_eq unat_drop_bit_eq lw_count_def) (simp only: take_bit_eq_mod drop_bit_eq_div)

lemma lw_data_take: "lw_data w = unat (take_bit 48 w)"
  by (simp only: unsigned_take_bit_eq lw_data_def) (simp only: take_bit_eq_mod)

lemma lw_getData_ok: "unat (lw_getData w) = lw_data w"
  by (simp only: lw_getData_def lw_masks lw_data_take take_bit_eq_mask [symmetric])

lemma lw_shifts: "LgGrainsizeRShift = 60" "NumNonNullElsRShift = 48"
  by (simp_all add: lw_consts)

lemma unat_ucast_small: "unat (x :: u64) < 2 ^ 32 \<Longrightarrow> unat (ucast x :: u32) = unat x"
  by (simp only: unsigned_ucast_eq take_bit_eq_mod) simp

lemma lw_getLgGrainsize_ok: "unat (lw_getLgGrainsize w) = lw_lg w"
proof -
  have "drop_bit 60 w AND mask 4 = drop_bit 60 w"
    by (rule bit_eqI) (auto simp: bit_simps dest: bit_word_imp_less)
  then have "lw_getLgGrainsize w = ucast (drop_bit 60 w)"
    by (simp only: lw_getLgGrainsize_def lw_masks lw_shifts)
  moreover have "unat (drop_bit 60 w) < 2 ^ 32"
    using lw_bounds(3) [of w] by (simp only: lw_lg_drop [symmetric]) simp
  ultimately show ?thesis by (simp only: unat_ucast_small lw_lg_drop)
qed

lemma lw_getNumNonNullEls_ok: "unat (lw_getNumNonNullEls w) = lw_count w"
proof -
  have "lw_getNumNonNullEls w = ucast (take_bit 12 (drop_bit 48 w))"
    by (simp only: lw_getNumNonNullEls_def lw_masks lw_shifts take_bit_eq_mask)
  moreover have "unat (take_bit 12 (drop_bit 48 w)) < 2 ^ 32"
    using lw_bounds(2) [of w] by (simp only: lw_count_take [symmetric]) simp
  ultimately show ?thesis by (simp only: unat_ucast_small lw_count_take)
qed

lemma lw_count_field: "(w :: u64) AND push_bit 48 (mask 12) = push_bit 48 (take_bit 12 (drop_bit 48 w))"
  by (rule bit_eqI) (auto simp: bit_simps dest: bit_word_imp_less)

lemma lw_field_unat: "unat (w AND push_bit 48 (mask 12)) = 2 ^ 48 * lw_count w"
proof -
  have "unat (w AND push_bit 48 (mask 12)) = take_bit 64 (push_bit 48 (lw_count w))"
    unfolding lw_count_field lw_count_take by (simp only: unsigned_push_bit_eq) simp
  then show ?thesis
    using lw_bounds(2) [of w] by (simp only: take_bit_eq_mod push_bit_eq_mult) simp
qed

lemma lw_noNonNullEls_ok: "lw_noNonNullEls w \<longleftrightarrow> lw_count w = 0"
  unfolding lw_noNonNullEls_def lw_masks lw_shifts
  using lw_field_unat [of w] by (metis mult_eq_0_iff power_not_zero unat_eq_zero zero_neq_numeral)

lemma lw_setData_ok:
  assumes "unat p < 2 ^ 48"
  shows "lw_fields (lw_setData p w) = (unat p, lw_count w, lw_lg w)"
proof -
  have e: "take_bit 48 (lw_setData p w) = take_bit 48 p"
    "take_bit 12 (drop_bit 48 (lw_setData p w)) = take_bit 12 (drop_bit 48 w)"
    "drop_bit 60 (lw_setData p w) = drop_bit 60 w"
    by (rule bit_eqI, auto simp: lw_setData_def lw_masks bit_simps dest: bit_word_imp_less)+
  have "lw_data p = unat p" using assms by (simp add: lw_data_def)
  then show ?thesis
    by (simp add: lw_fields_def lw_data_take e(1)) (simp only: lw_data_take lw_count_take lw_lg_drop e)
qed

lemma lw_zeroNumNonNullEls_ok: "lw_fields (lw_zeroNumNonNullEls w) = (lw_data w, 0, lw_lg w)"
proof -
  have e: "take_bit 48 (lw_zeroNumNonNullEls w) = take_bit 48 w"
    "take_bit 12 (drop_bit 48 (lw_zeroNumNonNullEls w)) = 0"
    "drop_bit 60 (lw_zeroNumNonNullEls w) = drop_bit 60 w"
    by (rule bit_eqI, auto simp: lw_zeroNumNonNullEls_def lw_masks lw_shifts bit_simps
        dest: bit_word_imp_less)+
  show ?thesis by (simp only: lw_fields_def lw_data_take lw_count_take lw_lg_drop e unsigned_0)
qed

lemma lw_setLgGrainsize_ok:
  assumes "unat g < 16"
  shows "lw_fields (lw_setLgGrainsize g w) = (lw_data w, lw_count w, unat g)"
proof -
  have e: "take_bit 48 (lw_setLgGrainsize g w) = take_bit 48 w"
    "take_bit 12 (drop_bit 48 (lw_setLgGrainsize g w)) = take_bit 12 (drop_bit 48 w)"
    by (rule bit_eqI, auto simp: lw_setLgGrainsize_def lw_masks lw_shifts bit_simps)+
  have "take_bit 4 g = g"
    using assms by (simp add: word_unat_eq_iff unsigned_take_bit_eq take_bit_nat_eq_self)
  then have "bit g n \<longleftrightarrow> n < 4 \<and> bit g n" for n by (metis bit_take_bit_iff)
  then have "drop_bit 60 (lw_setLgGrainsize g w) = ucast g"
    by (intro bit_eqI)
       (auto simp: lw_setLgGrainsize_def lw_masks lw_shifts bit_simps dest: bit_word_imp_less)
  moreover have "unat (ucast g :: u64) = unat g" using assms by (simp add: unsigned_ucast_eq take_bit_nat_eq_self)
  ultimately show ?thesis
    by (simp only: lw_fields_def lw_data_take lw_count_take lw_lg_drop e)
qed

lemma lw_incNumNonNullEls_ok:
  assumes "lw_count w < 2 ^ 12 - 1"
  shows "lw_fields (lw_incNumNonNullEls w) = (lw_data w, lw_count w + 1, lw_lg w)"
proof (rule lw_fieldsI)
  have "unat (lw_incNumNonNullEls w) = unat w + 2 ^ 48"
    using lw_split [of w] assms lw_bounds [of w]
    by (simp add: lw_incNumNonNullEls_def lw_shifts unat_word_ariths)
  then show "unat (lw_incNumNonNullEls w) = lw_data w + 2 ^ 48 * (lw_count w + 1) + 2 ^ 60 * lw_lg w"
    using lw_split [of w] by simp
qed (use assms lw_bounds [of w] in auto)

lemma lw_decNumNonNullEls_ok:
  "lw_decNumNonNullEls w = None \<longleftrightarrow> lw_count w = 0"
  "lw_decNumNonNullEls w = Some v \<Longrightarrow> lw_fields v = (lw_data w, lw_count w - 1, lw_lg w)"
proof -
  show "lw_decNumNonNullEls w = None \<longleftrightarrow> lw_count w = 0"
    by (simp add: lw_decNumNonNullEls_def lw_noNonNullEls_ok)
  assume "lw_decNumNonNullEls w = Some v"
  then have c: "lw_count w \<noteq> 0" and v: "v = w - push_bit 48 1"
    by (auto simp: lw_decNumNonNullEls_def lw_noNonNullEls_ok lw_shifts split: if_splits)
  show "lw_fields v = (lw_data w, lw_count w - 1, lw_lg w)"
  proof (rule lw_fieldsI)
    have "unat v = unat w - 2 ^ 48"
      using lw_split [of w] c by (simp add: v unat_sub_if_size)
    then show "unat v = lw_data w + 2 ^ 48 * (lw_count w - 1) + 2 ^ 60 * lw_lg w"
      using lw_split [of w] c by (cases "lw_count w") simp_all
  qed (use lw_bounds [of w] in auto)
qed

lemma lw_scaleNumNonNullEls_ok:
  assumes "unat r < 2 ^ 31" "lw_count w * unat r < 2 ^ 12"
  shows "lw_fields (lw_scaleNumNonNullEls r w) = (lw_data w, lw_count w * unat r, lw_lg w)"
proof -
  let ?p = "(w AND push_bit 48 (mask 12)) * scast r" and ?k = "lw_count w * unat r"
  define q :: u64 where "q = of_nat ?k"
  have q: "unat q = ?k" using assms(2) unfolding q_def by (simp only: unat_of_nat) simp
  have "take_bit 31 r = r"
    using assms(1) by (simp add: word_unat_eq_iff unsigned_take_bit_eq take_bit_nat_eq_self)
  then have nb: "n < 31" if "bit r n" for n using that by (metis bit_take_bit_iff)
  then have "(scast r :: u64) = ucast r"
    by (intro bit_eqI) (auto simp: bit_simps min_def dest: nb split: if_splits)
  then have r: "unat (scast r :: u64) = unat r"
    using assms(1) by (simp add: unsigned_ucast_eq take_bit_nat_eq_self)
  have "unat ?p = 2 ^ 48 * ?k"
    using assms(2) by (simp only: unat_word_ariths lw_field_unat r) simp
  moreover have "unat (push_bit 48 q) = take_bit 64 (push_bit 48 ?k)"
    by (simp only: unsigned_push_bit_eq q) simp
  then have "unat (push_bit 48 q) = 2 ^ 48 * ?k"
    using assms(2) by (simp only: take_bit_eq_mod push_bit_eq_mult) simp
  ultimately have p: "?p = push_bit 48 q" by (simp only: word_unat_eq_iff)
  have t: "take_bit 12 q = q"
    unfolding word_unat_eq_iff unsigned_take_bit_eq q
    using assms(2) by (simp add: take_bit_nat_eq_self)
  then have qb: "n < 12" if "bit q n" for n using that by (metis bit_take_bit_iff)
  have d: "lw_scaleNumNonNullEls r w = (w AND NOT (push_bit 48 (mask 12))) OR push_bit 48 q"
    by (simp only: lw_scaleNumNonNullEls_def lw_masks lw_shifts p)
  have e: "take_bit 48 (lw_scaleNumNonNullEls r w) = take_bit 48 w"
    "take_bit 12 (drop_bit 48 (lw_scaleNumNonNullEls r w)) = q"
    "drop_bit 60 (lw_scaleNumNonNullEls r w) = drop_bit 60 w"
    unfolding d
    by (rule bit_eqI, auto simp: bit_simps dest: bit_word_imp_less qb)+
  show ?thesis by (simp only: lw_fields_def lw_data_take lw_count_take lw_lg_drop e q)
qed

end
