(* ===== verification/LockHooks.thy ===== *)
theory LockHooks
  imports Driver
begin

text \<open>
  The interposers of locking routines (\<open>cilksan/locking.cpp\<close>): the registry that maps the addresses of
  mutexes to lock ids, and the hooks that tell the tool which locks are held.  What the wrapped routine
  returns and whether the program runs on Cilk workers are arguments; the warnings about unknown locks are
  left out.
\<close>

record lock_table =
  next_lock_id :: LockID_t
  lock_ids :: "LockID_t AddrMap_t"

text \<open>Lock id 0 stands for atomic operations.\<close>

definition lock_table_new :: lock_table where
  "lock_table_new = \<lparr>next_lock_id = atomic_lock_id + 1, lock_ids = AddrMap_new\<rparr>"

subsection \<open>The registry\<close>

text \<open>\<open>g\<close>: the values of the bytes of a new page, which are not initialised.\<close>

definition new_lock :: "(u64 \<Rightarrow> LockID_t) \<Rightarrow> u64 \<Rightarrow> lock_table \<Rightarrow> lock_table option" where
  "new_lock g mutex K =
     map_option (\<lambda>M. \<lparr>next_lock_id = next_lock_id K + 1, lock_ids = M\<rparr>)
       (AddrMap_insert g mutex (next_lock_id K) (lock_ids K))"

definition drop_lock :: "u64 \<Rightarrow> lock_table \<Rightarrow> lock_table option" where
  "drop_lock mutex K = map_option (\<lambda>M. K\<lparr>lock_ids := M\<rparr>) (AddrMap_remove mutex (lock_ids K))"

definition cilksan_register_lock_explicit ::
  "(u64 \<Rightarrow> LockID_t) \<Rightarrow> u64 \<Rightarrow> 'm driver \<Rightarrow> lock_table \<Rightarrow> lock_table option" where
  "cilksan_register_lock_explicit g mutex H K =
     (if CILKSAN_INITIALIZED H
      then do { c \<leftarrow> AddrMap_contains (lock_ids K) mutex; if \<not> c then new_lock g mutex K else Some K }
      else Some K)"

definition cilksan_unregister_lock_explicit :: "u64 \<Rightarrow> 'm driver \<Rightarrow> lock_table \<Rightarrow> lock_table option" where
  "cilksan_unregister_lock_explicit mutex H K =
     (if CILKSAN_INITIALIZED H
      then do { c \<leftarrow> AddrMap_contains (lock_ids K) mutex; if c then drop_lock mutex K else Some K }
      else Some K)"

definition csan_pthread_mutex_init :: "(u64 \<Rightarrow> LockID_t) \<Rightarrow> u64 \<Rightarrow> 'm driver \<Rightarrow> lock_table \<Rightarrow> lock_table option" where
  "csan_pthread_mutex_init g mutex H K = (if CILKSAN_INITIALIZED H then new_lock g mutex K else Some K)"

definition csan_pthread_mutex_destroy :: "u64 \<Rightarrow> 'm driver \<Rightarrow> lock_table \<Rightarrow> lock_table option" where
  "csan_pthread_mutex_destroy mutex H K =
     (if CILKSAN_INITIALIZED H
      then do { c \<leftarrow> AddrMap_contains (lock_ids K) mutex; if c then drop_lock mutex K else Some K }
      else Some K)"

definition csan_mtx_init :: "(u64 \<Rightarrow> LockID_t) \<Rightarrow> u64 \<Rightarrow> 'm driver \<Rightarrow> lock_table \<Rightarrow> lock_table option" where
  "csan_mtx_init g mutex H K = (if CILKSAN_INITIALIZED H then new_lock g mutex K else Some K)"

definition csan_mtx_destroy :: "u64 \<Rightarrow> 'm driver \<Rightarrow> lock_table \<Rightarrow> lock_table option" where
  "csan_mtx_destroy mutex H K =
     (if CILKSAN_INITIALIZED H
      then do { c \<leftarrow> AddrMap_contains (lock_ids K) mutex; if c then drop_lock mutex K else Some K }
      else Some K)"

subsection \<open>Acquiring and releasing\<close>

definition acquire_known :: "hook_env \<Rightarrow> u64 \<Rightarrow> lock_table \<Rightarrow> 'm driver \<Rightarrow> 'm driver option" where
  "acquire_known env mutex K H =
     do {
       lock_id \<leftarrow> AddrMap_get (lock_ids K) mutex;
       Some (case lock_id of
           Some i \<Rightarrow> H\<lparr>dr_cs := do_acquire_lock (he_locks env) i (dr_cs H)\<rparr>
         | None \<Rightarrow> H)
     }"

definition release_known :: "u64 \<Rightarrow> lock_table \<Rightarrow> 'm driver \<Rightarrow> 'm driver option" where
  "release_known mutex K H =
     do {
       lock_id \<leftarrow> AddrMap_get (lock_ids K) mutex;
       (case lock_id of Some i \<Rightarrow> on_tool (do_release_lock i) H | None \<Rightarrow> Some H)
     }"

text \<open>\<open>CILKSAN_INITIALIZED && is_execution_parallel()\<close>.\<close>

definition initialized_parallel :: "'m driver \<Rightarrow> bool option" where
  "initialized_parallel H = (if CILKSAN_INITIALIZED H then is_execution_parallel H else Some False)"

definition cilksan_acquire_lock :: "hook_env \<Rightarrow> u64 \<Rightarrow> lock_table \<Rightarrow> 'm driver \<Rightarrow> 'm driver option" where
  "cilksan_acquire_lock env mutex K H =
     do { p \<leftarrow> initialized_parallel H; if p then acquire_known env mutex K H else Some H }"

definition cilksan_release_lock :: "u64 \<Rightarrow> lock_table \<Rightarrow> 'm driver \<Rightarrow> 'm driver option" where
  "cilksan_release_lock mutex K H =
     do { p \<leftarrow> initialized_parallel H; if p then release_known mutex K H else Some H }"

definition cilksan_begin_atomic :: "hook_env \<Rightarrow> 'm driver \<Rightarrow> 'm driver option" where
  "cilksan_begin_atomic env H =
     do {
       p \<leftarrow> initialized_parallel H;
       Some (if p then H\<lparr>dr_cs := do_acquire_lock (he_locks env) atomic_lock_id (dr_cs H)\<rparr> else H)
     }"

definition cilksan_end_atomic :: "'m driver \<Rightarrow> 'm driver option" where
  "cilksan_end_atomic H =
     do { p \<leftarrow> initialized_parallel H; if p then on_tool (do_release_lock atomic_lock_id) H else Some H }"

text \<open>The locking routines also register a lock that they do not know; \<open>result\<close> 0 is success.\<close>

definition lock_hook ::
  "hook_env \<Rightarrow> (u64 \<Rightarrow> LockID_t) \<Rightarrow> bool \<Rightarrow> u32 \<Rightarrow> u64 \<Rightarrow> lock_table \<times> 'm driver \<Rightarrow> (lock_table \<times> 'm driver) option" where
  "lock_hook env g on_workers result mutex = (\<lambda>(K, H).
     do {
       p \<leftarrow> (if CILKSAN_INITIALIZED H \<and> on_workers then is_execution_parallel H else Some False);
       if p \<and> result = 0
       then do {
         c \<leftarrow> AddrMap_contains (lock_ids K) mutex;
         K \<leftarrow> (if \<not> c then new_lock g mutex K else Some K);
         H \<leftarrow> acquire_known env mutex K H;
         Some (K, H)
       }
       else Some (K, H)
     })"

definition unlock_hook :: "bool \<Rightarrow> u32 \<Rightarrow> u64 \<Rightarrow> lock_table \<times> 'm driver \<Rightarrow> (lock_table \<times> 'm driver) option" where
  "unlock_hook on_workers result mutex = (\<lambda>(K, H).
     do {
       p \<leftarrow> (if CILKSAN_INITIALIZED H \<and> on_workers then is_execution_parallel H else Some False);
       if p \<and> result = 0 then do { H \<leftarrow> release_known mutex K H; Some (K, H) } else Some (K, H)
     })"

definition csan_pthread_mutex_lock where "csan_pthread_mutex_lock = lock_hook"
definition csan_pthread_mutex_trylock where "csan_pthread_mutex_trylock = lock_hook"
definition csan_pthread_mutex_unlock where "csan_pthread_mutex_unlock = unlock_hook"
definition csan_mtx_lock where "csan_mtx_lock = lock_hook"
definition csan_mtx_trylock where "csan_mtx_trylock = lock_hook"
definition csan_mtx_unlock where "csan_mtx_unlock = unlock_hook"

text \<open>This one does not register a lock that is not known.\<close>

definition csan_mtx_timedlock ::
  "hook_env \<Rightarrow> bool \<Rightarrow> u32 \<Rightarrow> u64 \<Rightarrow> lock_table \<times> 'm driver \<Rightarrow> (lock_table \<times> 'm driver) option" where
  "csan_mtx_timedlock env on_workers result mutex = (\<lambda>(K, H).
     do {
       p \<leftarrow> (if CILKSAN_INITIALIZED H \<and> on_workers then is_execution_parallel H else Some False);
       if p \<and> result = 0 then do { H \<leftarrow> acquire_known env mutex K H; Some (K, H) } else Some (K, H)
     })"

subsection \<open>Run-once routines and guards\<close>

text \<open>\<open>run\<close>: the hooks that the routine of the program calls, if it is called at all.\<close>

definition csan_pthread_once :: "('m driver \<Rightarrow> 'm driver option) \<Rightarrow> 'm driver \<Rightarrow> 'm driver option" where
  "csan_pthread_once run H = do { H \<leftarrow> disable_checking H; H \<leftarrow> run H; enable_checking H }"

definition csan_call_once :: "('m driver \<Rightarrow> 'm driver option) \<Rightarrow> 'm driver \<Rightarrow> 'm driver option" where
  "csan_call_once run H = do { H \<leftarrow> disable_checking H; H \<leftarrow> run H; enable_checking H }"

definition guard_hook :: "u32 \<Rightarrow> 'm driver \<Rightarrow> 'm driver" where
  "guard_hook MAAP_count H = (if \<not> CILKSAN_INITIALIZED H then H else pop_MAAPs (unat MAAP_count) H)"

definition csan_cxa_guard_abort where "csan_cxa_guard_abort = guard_hook"
definition csan_cxa_guard_acquire where "csan_cxa_guard_acquire = guard_hook"
definition csan_cxa_guard_release where "csan_cxa_guard_release = guard_hook"

end
