(* ===== verification/ReducerHooks.thy ===== *)
theory ReducerHooks
  imports Driver
begin

text \<open>
  The hooks of reducer hyperobjects (\<open>cilksan/reducers.cpp\<close>): registering a reducer, looking a view up and
  unregistering.
\<close>

text \<open>The read of the leftmost view that two of the hooks stand for.\<close>

definition read_leftmost :: "hook_env \<Rightarrow> csi_id_t \<Rightarrow> u64 \<Rightarrow> 'm driver \<Rightarrow> 'm driver option" where
  "read_leftmost env call_id key H =
     do {
       par \<leftarrow> is_execution_parallel H;
       if \<not> par then Some H else check_read_bytes env call_id MAAP_Ref key 1 H
     }"

definition reducer_register ::
  "hook_env \<Rightarrow> csi_id_t \<Rightarrow> u32 \<Rightarrow> u64 \<Rightarrow> u64 \<Rightarrow> 'm driver \<Rightarrow> 'm driver option" where
  "reducer_register env call_id MAAP_count key reduce_ptr H =
     do {
       let H = pop_MAAPs (unat MAAP_count) H;
       st \<leftarrow> stealable (dr_cs H);
       H \<leftarrow>
         (if st
          then do {
            (t, S) \<leftarrow> cs_get_or_create_reducer_views (dr_cs H);
            (_, R) \<leftarrow> rv_insert t key key reduce_ptr (cs_rv S);
            Some (H\<lparr>dr_cs := S\<lparr>cs_rv := R\<rparr>\<rparr>)
          }
          else Some H);
       read_leftmost env call_id key H
     }"

definition csan_llvm_reducer_register_i32 ::
  "hook_env \<Rightarrow> csi_id_t \<Rightarrow> u32 \<Rightarrow> u64 \<Rightarrow> u64 \<Rightarrow> 'm driver \<Rightarrow> 'm driver option" where
  "csan_llvm_reducer_register_i32 env call_id MAAP_count key reduce_ptr =
     START_HOOK env call_id (reducer_register env call_id MAAP_count key reduce_ptr)"

definition csan_llvm_reducer_register_i64 ::
  "hook_env \<Rightarrow> csi_id_t \<Rightarrow> u32 \<Rightarrow> u64 \<Rightarrow> u64 \<Rightarrow> 'm driver \<Rightarrow> 'm driver option" where
  "csan_llvm_reducer_register_i64 env call_id MAAP_count key reduce_ptr =
     START_HOOK env call_id (reducer_register env call_id MAAP_count key reduce_ptr)"

text \<open>A table that the current strand does not have is the null pointer.\<close>

definition reducer_unregister :: "hook_env \<Rightarrow> csi_id_t \<Rightarrow> u32 \<Rightarrow> u64 \<Rightarrow> 'm driver \<Rightarrow> 'm driver option" where
  "reducer_unregister env call_id MAAP_count key H =
     do {
       let H = pop_MAAPs (unat MAAP_count) H;
       t \<leftarrow> cs_get_reducer_views (dr_cs H);
       H \<leftarrow>
         (if t \<noteq> 0
          then map_option (\<lambda>R. H\<lparr>dr_cs := (dr_cs H)\<lparr>cs_rv := R\<rparr>\<rparr>) (rv_remove t key (cs_rv (dr_cs H)))
          else Some H);
       read_leftmost env call_id key H
     }"

definition csan_llvm_reducer_unregister ::
  "hook_env \<Rightarrow> csi_id_t \<Rightarrow> u32 \<Rightarrow> u64 \<Rightarrow> 'm driver \<Rightarrow> 'm driver option" where
  "csan_llvm_reducer_unregister env call_id MAAP_count key =
     START_HOOK env call_id (reducer_unregister env call_id MAAP_count key)"

definition csan_llvm_hyper_lookup ::
  "'m user_code \<Rightarrow> hook_env \<Rightarrow> csi_id_t \<Rightarrow> u32 \<Rightarrow> u64 \<Rightarrow> u64 \<Rightarrow> u64 \<Rightarrow> u64 \<Rightarrow> u64 \<Rightarrow> 'm driver \<Rightarrow> (u64 \<times> 'm driver) option" where
  "csan_llvm_hyper_lookup U env call_id MAAP_count view key s identity_fn reduce_fn H =
     (if \<not> CILKSAN_INITIALIZED H \<or> \<not> should_check H then Some (view, H)
      else do {
        tab \<leftarrow> record_pc call_id (he_pc env) (call_pc (pcs H));
        let H = pop_MAAPs (unat MAAP_count) (H\<lparr>pcs := (pcs H)\<lparr>call_pc := tab\<rparr>\<rparr>);
        par \<leftarrow> is_execution_parallel H;
        if \<not> par then Some (view, H)
        else do {
          st \<leftarrow> stealable (dr_cs H);
          if st
          then do {
            (t, S) \<leftarrow> cs_get_or_create_reducer_views (dr_cs H);
            new_view \<leftarrow> reducer_lookup t key (cs_rv S);
            if new_view \<noteq> 0 then Some (new_view, H\<lparr>dr_cs := S\<rparr>)
            else do {
              (v, S) \<leftarrow> create_reducer_view U (he_sizes env) t key s identity_fn reduce_fn S;
              Some (v, H\<lparr>dr_cs := S\<rparr>)
            }
          }
          else Some (view, H)
        }
      })"

definition csan_llvm_hyper_lookup_i64 ::
  "'m user_code \<Rightarrow> hook_env \<Rightarrow> csi_id_t \<Rightarrow> u32 \<Rightarrow> u64 \<Rightarrow> u64 \<Rightarrow> u64 \<Rightarrow> u64 \<Rightarrow> u64 \<Rightarrow> 'm driver \<Rightarrow> (u64 \<times> 'm driver) option" where
  "csan_llvm_hyper_lookup_i64 U env call_id MAAP_count view key s identity_fn reduce_fn H =
     csan_llvm_hyper_lookup U env call_id MAAP_count view key s identity_fn reduce_fn H"

end
