(* ===== verification/Cilkscale.thy ===== *)
theory Cilkscale
  imports Prelude "HOL-Library.Monad_Syntax"
begin

text \<open>
  Cilkscale (\<open>cilkscale/cilkscale.cpp\<close>, \<open>shadow_stack.h\<close>, \<open>cilkscale_timer.h\<close>): the tool that measures the
  work and the span of a program.  A time (\<open>duration_t\<close>) is a signed 64-bit integer, so an addition out
  of its range is undefined and \<^term>\<open>None\<close> here; a reading of the clock is not negative, so that the
  difference of two readings is in range.  The three builds (\<open>CSCALETIMER\<close>) are an argument.  Every hook
  that reads the clock takes the reading as an argument.
\<close>

subsection \<open>Times\<close>

datatype cscale_timer = RDTSC | CLOCK | INST

definition dur_ok :: "int \<Rightarrow> bool" where
  "dur_ok c \<longleftrightarrow> - (2 ^ 63) \<le> c \<and> c < 2 ^ 63"

definition dur_plus :: "int \<Rightarrow> int \<Rightarrow> int option" where
  "dur_plus a b = (if dur_ok (a + b) then Some (a + b) else None)"

definition dur_minus :: "int \<Rightarrow> int \<Rightarrow> int option" where
  "dur_minus a b = (if dur_ok (a - b) then Some (a - b) else None)"

definition timer_gettime :: "cscale_timer \<Rightarrow> int \<Rightarrow> int" where
  "timer_gettime cfg now = (case cfg of RDTSC \<Rightarrow> now | CLOCK \<Rightarrow> now | INST \<Rightarrow> 0)"

definition timer_elapsed :: "cscale_timer \<Rightarrow> int \<Rightarrow> int \<Rightarrow> int" where
  "timer_elapsed cfg stop start = (case cfg of INST \<Rightarrow> 0 | CLOCK \<Rightarrow> stop - start | RDTSC \<Rightarrow> stop - start)"

definition timer_burden :: "cscale_timer \<Rightarrow> int" where
  "timer_burden cfg = (case cfg of RDTSC \<Rightarrow> 15000 | CLOCK \<Rightarrow> 6250 | INST \<Rightarrow> 6250)"

subsection \<open>The shadow stack\<close>

datatype frame_type = FT_NONE | FT_MAIN | FT_SPAWNER | FT_HELPER

record shadow_stack_frame_t =
  achild_work :: int
  contin_work :: int
  lchild_span :: int
  contin_span :: int
  lchild_bspan :: int
  contin_bspan :: int
  ssf_type :: frame_type

definition ssf_init :: "frame_type \<Rightarrow> shadow_stack_frame_t" where
  "ssf_init t =
     \<lparr>achild_work = 0, contin_work = 0, lchild_span = 0, contin_span = 0, lchild_bspan = 0, contin_bspan = 0,
      ssf_type = t\<rparr>"

record shadow_stack_t =
  ss_start :: int
  ss_stop :: int
  ss_frames :: "shadow_stack_frame_t list"
  ss_capacity :: nat
  ss_bot :: nat

definition DEFAULT_STACK_SIZE :: nat where "DEFAULT_STACK_SIZE = 64"

text \<open>The timers are not initialised by the constructor: \<open>t0\<close> and \<open>t1\<close>.\<close>

definition shadow_stack_new :: "int \<Rightarrow> int \<Rightarrow> frame_type \<Rightarrow> shadow_stack_t" where
  "shadow_stack_new t0 t1 type =
     \<lparr>ss_start = t0, ss_stop = t1,
      ss_frames = (replicate DEFAULT_STACK_SIZE (ssf_init FT_NONE))[0 := ssf_init type],
      ss_capacity = DEFAULT_STACK_SIZE, ss_bot = 0\<rparr>"

definition shadow_stack_copy :: "int \<Rightarrow> int \<Rightarrow> shadow_stack_t \<Rightarrow> shadow_stack_t option" where
  "shadow_stack_copy t0 t1 copy =
     (if ss_bot copy < length (ss_frames copy) \<and> ss_bot copy < ss_capacity copy
      then Some \<lparr>ss_start = t0, ss_stop = t1,
                 ss_frames = take (Suc (ss_bot copy)) (ss_frames copy) @
                   replicate (ss_capacity copy - Suc (ss_bot copy)) (ssf_init FT_NONE),
                 ss_capacity = ss_capacity copy, ss_bot = ss_bot copy\<rparr>
      else None)"

definition peek_bot :: "shadow_stack_t \<Rightarrow> shadow_stack_frame_t option" where
  "peek_bot ss = arr_get (ss_frames ss) (ss_bot ss)"

definition on_bot ::
  "(shadow_stack_frame_t \<Rightarrow> shadow_stack_frame_t option) \<Rightarrow> shadow_stack_t \<Rightarrow> shadow_stack_t option" where
  "on_bot act ss =
     do {
       f \<leftarrow> peek_bot ss;
       f \<leftarrow> act f;
       fs \<leftarrow> arr_set (ss_frames ss) (ss_bot ss) f;
       Some (ss\<lparr>ss_frames := fs\<rparr>)
     }"

text \<open>The capacity is an \<open>int32_t\<close>.\<close>

definition ss_push :: "frame_type \<Rightarrow> shadow_stack_t \<Rightarrow> shadow_stack_t option" where
  "ss_push type ss =
     do {
       let ss = ss\<lparr>ss_bot := Suc (ss_bot ss)\<rparr>;
       ss \<leftarrow> (if ss_bot ss \<ge> ss_capacity ss
              then (if 2 * ss_capacity ss < 2 ^ 31
                    then Some (ss\<lparr>ss_capacity := 2 * ss_capacity ss,
                        ss_frames := take (ss_capacity ss) (ss_frames ss) @
                          replicate (ss_capacity ss) (ssf_init FT_NONE)\<rparr>)
                    else None)
              else Some ss);
       fs \<leftarrow> arr_set (ss_frames ss) (ss_bot ss) (ssf_init type);
       Some (ss\<lparr>ss_frames := fs\<rparr>)
     }"

definition ss_pop :: "shadow_stack_t \<Rightarrow> (shadow_stack_frame_t \<times> shadow_stack_t) option" where
  "ss_pop ss =
     (if ss_bot ss > 0
      then do { f \<leftarrow> peek_bot ss; Some (f, ss\<lparr>ss_bot := ss_bot ss - 1\<rparr>) }
      else None)"

definition ss_identity :: "int \<Rightarrow> int \<Rightarrow> shadow_stack_t" where
  "ss_identity t0 t1 = shadow_stack_new t0 t1 FT_SPAWNER"

text \<open>The update of the left frame by the right one.\<close>

definition ssf_reduce :: "shadow_stack_frame_t \<Rightarrow> shadow_stack_frame_t \<Rightarrow> shadow_stack_frame_t option" where
  "ssf_reduce l r =
     do {
       w \<leftarrow> dur_plus (contin_work l) (contin_work r);
       a \<leftarrow> dur_plus (achild_work l) (achild_work r);
       s \<leftarrow> dur_plus (contin_span l) (lchild_span r);
       let ls = (if s > lchild_span l then s else lchild_span l);
       cs \<leftarrow> dur_plus (contin_span l) (contin_span r);
       b \<leftarrow> dur_plus (contin_bspan l) (lchild_bspan r);
       let lb = (if b > lchild_bspan l then b else lchild_bspan l);
       cb \<leftarrow> dur_plus (contin_bspan l) (contin_bspan r);
       Some (l\<lparr>contin_work := w, achild_work := a, lchild_span := ls, contin_span := cs,
              lchild_bspan := lb, contin_bspan := cb\<rparr>)
     }"

definition ss_reduce :: "shadow_stack_t \<Rightarrow> shadow_stack_t \<Rightarrow> shadow_stack_t option" where
  "ss_reduce left right =
     do {
       r \<leftarrow> peek_bot right;
       if ssf_type r \<noteq> FT_SPAWNER \<or> ss_bot right \<noteq> 0 then None
       else on_bot (\<lambda>l. ssf_reduce l r) left
     }"

definition ss_elapsed_time :: "cscale_timer \<Rightarrow> shadow_stack_t \<Rightarrow> int" where
  "ss_elapsed_time cfg ss = timer_elapsed cfg (ss_stop ss) (ss_start ss)"

subsection \<open>The tool\<close>

text \<open>\<open>csc_out\<close> lists the results that are printed: work, span and burdened span.\<close>

record cilkscale =
  csc_tool :: "shadow_stack_t option"
  csc_initialized :: bool
  csc_out :: "(string \<times> int \<times> int \<times> int) list"

definition on_tool :: "(shadow_stack_t \<Rightarrow> shadow_stack_t option) \<Rightarrow> cilkscale \<Rightarrow> cilkscale option" where
  "on_tool act T = do { ss \<leftarrow> csc_tool T; ss \<leftarrow> act ss; Some (T\<lparr>csc_tool := Some ss\<rparr>) }"

definition start_gettime :: "cscale_timer \<Rightarrow> int \<Rightarrow> shadow_stack_t \<Rightarrow> shadow_stack_t" where
  "start_gettime cfg now ss = ss\<lparr>ss_start := timer_gettime cfg now\<rparr>"

definition stop_gettime :: "cscale_timer \<Rightarrow> int \<Rightarrow> shadow_stack_t \<Rightarrow> shadow_stack_t" where
  "stop_gettime cfg now ss = ss\<lparr>ss_stop := timer_gettime cfg now\<rparr>"

text \<open>The same time is added to the work and both spans.\<close>

definition add_time :: "int \<Rightarrow> shadow_stack_frame_t \<Rightarrow> shadow_stack_frame_t option" where
  "add_time t f =
     do {
       w \<leftarrow> dur_plus (contin_work f) t;
       s \<leftarrow> dur_plus (contin_span f) t;
       b \<leftarrow> dur_plus (contin_bspan f) t;
       Some (f\<lparr>contin_work := w, contin_span := s, contin_bspan := b\<rparr>)
     }"

text \<open>The end of a strand: stop the timer and add the elapsed time to the bottom frame.\<close>

definition end_of_strand :: "cscale_timer \<Rightarrow> int \<Rightarrow> shadow_stack_t \<Rightarrow> shadow_stack_t option" where
  "end_of_strand cfg now ss =
     (let ss = stop_gettime cfg now ss in on_bot (add_time (ss_elapsed_time cfg ss)) ss)"

definition cilkscale_create :: "cscale_timer \<Rightarrow> int \<Rightarrow> int \<Rightarrow> int \<Rightarrow> cilkscale" where
  "cilkscale_create cfg now t0 t1 =
     \<lparr>csc_tool = Some (start_gettime cfg now (shadow_stack_new t0 t1 FT_MAIN)), csc_initialized = False, csc_out = []\<rparr>"

definition csi_init :: "cilkscale \<Rightarrow> cilkscale" where
  "csi_init T = T\<lparr>csc_initialized := True\<rparr>"

definition printAnalysis :: "cilkscale \<Rightarrow> cilkscale option" where
  "printAnalysis T =
     do {
       ss \<leftarrow> csc_tool T;
       f \<leftarrow> peek_bot ss;
       if \<not> csc_initialized T \<or> ssf_type f = FT_NONE then None
       else Some (T\<lparr>csc_out := csc_out T @ [('''', contin_work f, contin_span f, contin_bspan f)]\<rparr>)
     }"

definition cilkscale_destructor :: "cscale_timer \<Rightarrow> int \<Rightarrow> cilkscale \<Rightarrow> cilkscale option" where
  "cilkscale_destructor cfg now T = do { T \<leftarrow> on_tool (end_of_strand cfg now) T; printAnalysis T }"

definition destroyTool :: "cscale_timer \<Rightarrow> int \<Rightarrow> cilkscale \<Rightarrow> cilkscale option" where
  "destroyTool cfg now T =
     do {
       T \<leftarrow> (if csc_tool T \<noteq> None
             then do { T \<leftarrow> cilkscale_destructor cfg now T; Some (T\<lparr>csc_tool := None\<rparr>) }
             else Some T);
       Some (T\<lparr>csc_initialized := False\<rparr>)
     }"

subsection \<open>The hooks\<close>

text \<open>\<open>ir_cost\<close> is the number of instructions of the basic block; only the \<open>INST\<close> build counts them.\<close>

definition get_bb_time :: "cscale_timer \<Rightarrow> int \<Rightarrow> shadow_stack_frame_t \<Rightarrow> shadow_stack_frame_t option" where
  "get_bb_time cfg ir_cost f = (case cfg of INST \<Rightarrow> add_time ir_cost f | RDTSC \<Rightarrow> Some f | CLOCK \<Rightarrow> Some f)"

definition csi_bb_entry :: "cscale_timer \<Rightarrow> int \<Rightarrow> cilkscale \<Rightarrow> cilkscale option" where
  "csi_bb_entry cfg ir_cost T =
     (if \<not> csc_initialized T then Some T else on_tool (on_bot (get_bb_time cfg ir_cost)) T)"

text \<open>A frame that goes on from the values of its parent.\<close>

definition contin_of :: "shadow_stack_frame_t \<Rightarrow> shadow_stack_frame_t \<Rightarrow> shadow_stack_frame_t" where
  "contin_of p c = c\<lparr>contin_work := contin_work p, contin_span := contin_span p, contin_bspan := contin_bspan p\<rparr>"

definition csi_func_entry :: "cscale_timer \<Rightarrow> int \<Rightarrow> bool \<Rightarrow> cilkscale \<Rightarrow> cilkscale option" where
  "csi_func_entry cfg now may_spawn T =
     (if \<not> csc_initialized T \<or> \<not> may_spawn then Some T
      else on_tool (\<lambda>ss. do {
        ss \<leftarrow> end_of_strand cfg now ss;
        p \<leftarrow> peek_bot ss;
        ss \<leftarrow> ss_push FT_SPAWNER ss;
        ss \<leftarrow> on_bot (\<lambda>c. Some (contin_of p c)) ss;
        Some (ss\<lparr>ss_start := ss_stop ss\<rparr>)
      }) T)"

definition csi_func_exit :: "cscale_timer \<Rightarrow> int \<Rightarrow> bool \<Rightarrow> cilkscale \<Rightarrow> cilkscale option" where
  "csi_func_exit cfg now may_spawn T =
     (if \<not> csc_initialized T \<or> \<not> may_spawn then Some T
      else on_tool (\<lambda>ss. do {
        let ss = stop_gettime cfg now ss;
        f \<leftarrow> peek_bot ss;
        if lchild_span f \<noteq> 0 \<or> achild_work f \<noteq> 0 then None
        else do {
          (c, ss) \<leftarrow> ss_pop ss;
          c \<leftarrow> add_time (ss_elapsed_time cfg ss) c;
          ss \<leftarrow> on_bot (\<lambda>p. Some (contin_of c p)) ss;
          Some (ss\<lparr>ss_start := ss_stop ss\<rparr>)
        }
      }) T)"

definition csi_detach :: "cscale_timer \<Rightarrow> int \<Rightarrow> cilkscale \<Rightarrow> cilkscale option" where
  "csi_detach cfg now T = on_tool (end_of_strand cfg now) T"

definition csi_task :: "cscale_timer \<Rightarrow> int \<Rightarrow> cilkscale \<Rightarrow> cilkscale option" where
  "csi_task cfg now T =
     on_tool (\<lambda>ss. do {
       p \<leftarrow> peek_bot ss;
       ss \<leftarrow> ss_push FT_HELPER ss;
       ss \<leftarrow> on_bot (\<lambda>c. Some (contin_of p c)) ss;
       Some (start_gettime cfg now ss)
     }) T"

text \<open>A task that ends: the update of the parent.\<close>

definition child_returns :: "cscale_timer \<Rightarrow> shadow_stack_frame_t \<Rightarrow> shadow_stack_frame_t \<Rightarrow> shadow_stack_frame_t option" where
  "child_returns cfg c p =
     do {
       w \<leftarrow> dur_minus (contin_work c) (contin_work p);
       a \<leftarrow> dur_plus (achild_work p) w;
       let ls = (if contin_span c > lchild_span p then contin_span c else lchild_span p);
       b \<leftarrow> dur_plus (contin_bspan c) (timer_burden cfg);
       let lb = (if b > lchild_bspan p then b else lchild_bspan p);
       Some (p\<lparr>achild_work := a, lchild_span := ls, lchild_bspan := lb\<rparr>)
     }"

definition csi_task_exit :: "cscale_timer \<Rightarrow> int \<Rightarrow> cilkscale \<Rightarrow> cilkscale option" where
  "csi_task_exit cfg now T =
     on_tool (\<lambda>ss. do {
       ss \<leftarrow> end_of_strand cfg now ss;
       f \<leftarrow> peek_bot ss;
       if lchild_span f \<noteq> 0 then None
       else do { (c, ss) \<leftarrow> ss_pop ss; on_bot (child_returns cfg c) ss }
     }) T"

text \<open>The children are joined.\<close>

definition join_children :: "shadow_stack_frame_t \<Rightarrow> shadow_stack_frame_t option" where
  "join_children f =
     do {
       w \<leftarrow> dur_plus (contin_work f) (achild_work f);
       Some (f\<lparr>contin_work := w, achild_work := 0,
              contin_span := (if lchild_span f > contin_span f then lchild_span f else contin_span f),
              lchild_span := 0,
              contin_bspan := (if lchild_bspan f > contin_bspan f then lchild_bspan f else contin_bspan f),
              lchild_bspan := 0\<rparr>)
     }"

definition csi_detach_continue :: "cscale_timer \<Rightarrow> int \<Rightarrow> bool \<Rightarrow> cilkscale \<Rightarrow> cilkscale option" where
  "csi_detach_continue cfg now is_unwind T =
     on_tool (\<lambda>ss. do {
       ss \<leftarrow> on_bot (\<lambda>f.
         if is_unwind then join_children f
         else map_option (\<lambda>b. f\<lparr>contin_bspan := b\<rparr>) (dur_plus (contin_bspan f) (timer_burden cfg))) ss;
       Some (start_gettime cfg now ss)
     }) T"

definition csi_before_sync :: "cscale_timer \<Rightarrow> int \<Rightarrow> cilkscale \<Rightarrow> cilkscale option" where
  "csi_before_sync cfg now T = on_tool (end_of_strand cfg now) T"

definition csi_after_sync :: "cscale_timer \<Rightarrow> int \<Rightarrow> cilkscale \<Rightarrow> cilkscale option" where
  "csi_after_sync cfg now T =
     on_tool (\<lambda>ss. do { ss \<leftarrow> on_bot join_children ss; Some (start_gettime cfg now ss) }) T"

subsection \<open>Probes\<close>

record wsp_t =
  wsp_work :: int
  wsp_span :: int
  wsp_bspan :: int

definition wsp_getworkspan :: "cscale_timer \<Rightarrow> int \<Rightarrow> cilkscale \<Rightarrow> (wsp_t \<times> cilkscale) option" where
  "wsp_getworkspan cfg now T =
     do {
       T \<leftarrow> on_tool (end_of_strand cfg now) T;
       ss \<leftarrow> csc_tool T;
       f \<leftarrow> peek_bot ss;
       let r = \<lparr>wsp_work = contin_work f, wsp_span = contin_span f, wsp_bspan = contin_bspan f\<rparr>;
       Some (r, T\<lparr>csc_tool := Some (ss\<lparr>ss_start := ss_stop ss\<rparr>)\<rparr>)
     }"

definition wsp_add :: "wsp_t \<Rightarrow> wsp_t \<Rightarrow> wsp_t option" where
  "wsp_add l r =
     do {
       w \<leftarrow> dur_plus (wsp_work l) (wsp_work r);
       s \<leftarrow> dur_plus (wsp_span l) (wsp_span r);
       b \<leftarrow> dur_plus (wsp_bspan l) (wsp_bspan r);
       Some \<lparr>wsp_work = w, wsp_span = s, wsp_bspan = b\<rparr>
     }"

definition wsp_sub :: "wsp_t \<Rightarrow> wsp_t \<Rightarrow> wsp_t option" where
  "wsp_sub l r =
     do {
       w \<leftarrow> dur_minus (wsp_work l) (wsp_work r);
       s \<leftarrow> dur_minus (wsp_span l) (wsp_span r);
       b \<leftarrow> dur_minus (wsp_bspan l) (wsp_bspan r);
       Some \<lparr>wsp_work = w, wsp_span = s, wsp_bspan = b\<rparr>
     }"

definition wsp_dump :: "cscale_timer \<Rightarrow> int \<Rightarrow> int \<Rightarrow> wsp_t \<Rightarrow> string \<Rightarrow> cilkscale \<Rightarrow> cilkscale option" where
  "wsp_dump cfg now now' wsp tag T =
     do {
       T \<leftarrow> on_tool (end_of_strand cfg now) T;
       let T = T\<lparr>csc_out := csc_out T @ [(tag, wsp_work wsp, wsp_span wsp, wsp_bspan wsp)]\<rparr>;
       on_tool (\<lambda>ss. Some (start_gettime cfg now' ss)) T
     }"

end
