(* ===== verification/WorkSpan.thy ===== *)
theory WorkSpan
  imports Cilkscale
begin

text \<open>
  Work and span of fork-join programs, and the proof that Cilkscale measures them: a program is a list of
  statements, its hooks are run on the tool, and its cost is that of the series-parallel tree of its
  strands.
\<close>

subsection \<open>Programs and their costs\<close>

datatype stmt = Strand nat | Call "stmt list" | Spawn "stmt list" | Sync

datatype sp_tree = Leaf nat | Ser sp_tree sp_tree | Par sp_tree sp_tree

primrec work :: "sp_tree \<Rightarrow> int" where
  "work (Leaf t) = int t"
| "work (Ser a b) = work a + work b"
| "work (Par a b) = work a + work b"

primrec span :: "sp_tree \<Rightarrow> int" where
  "span (Leaf t) = int t"
| "span (Ser a b) = span a + span b"
| "span (Par a b) = max (span a) (span b)"

text \<open>Every spawn costs the burden, on both of its sides.\<close>

primrec bspan :: "int \<Rightarrow> sp_tree \<Rightarrow> int" where
  "bspan u (Leaf t) = int t"
| "bspan u (Ser a b) = bspan u a + bspan u b"
| "bspan u (Par a b) = u + max (bspan u a) (bspan u b)"

text \<open>A spawned task runs in parallel with the statements up to the next sync.\<close>

abbreviation (input) region :: "stmt list \<Rightarrow> stmt list" where
  "region ss \<equiv> takeWhile (\<lambda>s. s \<noteq> Sync) ss"

abbreviation (input) after :: "stmt list \<Rightarrow> stmt list" where
  "after ss \<equiv> dropWhile (\<lambda>s. s \<noteq> Sync) ss"

lemma size_region: "size_list f (takeWhile P ss) \<le> size_list f ss" "size_list f (dropWhile P ss) \<le> size_list f ss"
  by (induction ss) auto

function tree :: "stmt list \<Rightarrow> sp_tree" where
  "tree [] = Leaf 0"
| "tree (Strand t # ss) = Ser (Leaf t) (tree ss)"
| "tree (Call b # ss) = Ser (tree b) (tree ss)"
| "tree (Sync # ss) = tree ss"
| "tree (Spawn b # ss) = Ser (Par (tree b) (tree (region ss))) (tree (after ss))"
  by pat_completeness auto
termination
  by (relation "measure (size_list size)") (auto simp: le_imp_less_Suc trans_le_add1 size_region less_Suc_eq_le
      intro: le_trans [OF size_region(1)] le_trans [OF size_region(2)])

lemma takeWhile_region: "takeWhile P (takeWhile P xs) = takeWhile P xs" "dropWhile P (takeWhile P xs) = []"
  by (induction xs) auto

subsection \<open>What the hooks do to a frame\<close>

abbreviation join_frame :: "shadow_stack_frame_t \<Rightarrow> shadow_stack_frame_t" where
  "join_frame f \<equiv> f\<lparr>contin_work := contin_work f + achild_work f, achild_work := 0,
     contin_span := max (lchild_span f) (contin_span f), lchild_span := 0,
     contin_bspan := max (lchild_bspan f) (contin_bspan f), lchild_bspan := 0\<rparr>"

definition bump :: "int \<Rightarrow> shadow_stack_frame_t \<Rightarrow> shadow_stack_frame_t" where
  "bump t f = f\<lparr>contin_work := contin_work f + t, contin_span := contin_span f + t, contin_bspan := contin_bspan f + t\<rparr>"

definition child_of :: "frame_type \<Rightarrow> shadow_stack_frame_t \<Rightarrow> shadow_stack_frame_t" where
  "child_of t p = contin_of p (ssf_init t)"

fun eff :: "int \<Rightarrow> stmt \<Rightarrow> shadow_stack_frame_t \<Rightarrow> shadow_stack_frame_t"
  and effs :: "int \<Rightarrow> stmt list \<Rightarrow> shadow_stack_frame_t \<Rightarrow> shadow_stack_frame_t" where
  "eff u (Strand t) f = bump (int t) f"
| "eff u (Call b) f = contin_of (join_frame (effs u b (child_of FT_SPAWNER f))) f"
| "eff u (Spawn b) f =
     (let c = join_frame (effs u b (child_of FT_HELPER f))
      in f\<lparr>achild_work := achild_work f + (contin_work c - contin_work f),
           lchild_span := max (lchild_span f) (contin_span c),
           lchild_bspan := max (lchild_bspan f) (contin_bspan c + u),
           contin_bspan := contin_bspan f + u\<rparr>)"
| "eff u Sync f = join_frame f"
| "effs u [] f = f"
| "effs u (s # ss) f = effs u ss (eff u s f)"

definition nonneg :: "shadow_stack_frame_t \<Rightarrow> bool" where
  "nonneg f \<longleftrightarrow> 0 \<le> achild_work f \<and> 0 \<le> contin_work f \<and> 0 \<le> lchild_span f \<and> 0 \<le> contin_span f \<and>
     0 \<le> lchild_bspan f \<and> 0 \<le> contin_bspan f"

lemma costs_nonneg: "0 \<le> work t" "0 \<le> span t" "0 \<le> u \<Longrightarrow> 0 \<le> bspan u t"
  by (induction t) auto

lemma tree_split:
  "work (tree ss) = work (tree (region ss)) + work (tree (after ss))"
  "span (tree ss) = span (tree (region ss)) + span (tree (after ss))"
  "bspan u (tree ss) = bspan u (tree (region ss)) + bspan u (tree (after ss))"
proof -
  have "work (tree ss) = work (tree (region ss)) + work (tree (after ss)) \<and>
    span (tree ss) = span (tree (region ss)) + span (tree (after ss)) \<and>
    bspan u (tree ss) = bspan u (tree (region ss)) + bspan u (tree (after ss))"
  proof (induction ss)
    case (Cons s ss)
    show ?case using Cons by (cases s) (auto simp: takeWhile_region)
  qed simp
  then show "work (tree ss) = work (tree (region ss)) + work (tree (after ss))"
    "span (tree ss) = span (tree (region ss)) + span (tree (after ss))"
    "bspan u (tree ss) = bspan u (tree (region ss)) + bspan u (tree (after ss))" by blast+
qed

text \<open>The effect of a list of statements on a frame, by the costs of its tree.\<close>

definition effect_ok :: "int \<Rightarrow> stmt list \<Rightarrow> shadow_stack_frame_t \<Rightarrow> shadow_stack_frame_t \<Rightarrow> bool" where
  "effect_ok u ss f g \<longleftrightarrow>
     nonneg g \<and> contin_work g + achild_work g = contin_work f + achild_work f + work (tree ss) \<and>
     contin_work f \<le> contin_work g \<and> contin_span f \<le> contin_span g \<and> contin_bspan f \<le> contin_bspan g \<and>
     max (lchild_span g) (contin_span g) =
       max (lchild_span f) (contin_span f + span (tree (region ss))) + span (tree (after ss)) \<and>
     max (lchild_bspan g) (contin_bspan g) =
       max (lchild_bspan f) (contin_bspan f + bspan u (tree (region ss))) + bspan u (tree (after ss))"

definition cost_ok :: "int \<Rightarrow> stmt list \<Rightarrow> bool" where
  "cost_ok u ss \<longleftrightarrow> (\<forall>f. nonneg f \<longrightarrow> effect_ok u ss f (effs u ss f))"

lemma cost_okD: "cost_ok u ss \<Longrightarrow> nonneg f \<Longrightarrow> effect_ok u ss f (effs u ss f)"
  by (simp add: cost_ok_def)

text \<open>A body that starts from the values of its parent and ends with a sync.\<close>

lemma body_cost:
  fixes t :: frame_type
  assumes ok: "cost_ok u b" and f: "nonneg f" and u: "0 \<le> u"
  defines "c \<equiv> join_frame (effs u b (child_of t f))"
  shows "contin_work c = contin_work f + work (tree b)" "contin_span c = contin_span f + span (tree b)"
    "contin_bspan c = contin_bspan f + bspan u (tree b)"
proof -
  have n: "nonneg (child_of t f)" using f by (simp add: nonneg_def child_of_def contin_of_def ssf_init_def)
  note D = cost_okD [OF ok n, unfolded effect_ok_def]
  show "contin_work c = contin_work f + work (tree b)"
    using D by (simp add: c_def child_of_def contin_of_def ssf_init_def)
  show "contin_span c = contin_span f + span (tree b)"
    using D f costs_nonneg(2) [of "tree (region b)"] tree_split(2) [of b]
    by (simp add: c_def child_of_def contin_of_def ssf_init_def nonneg_def)
  show "contin_bspan c = contin_bspan f + bspan u (tree b)"
    using D f costs_nonneg(3) [OF u, of "tree (region b)"] tree_split(3) [of u b]
    by (simp add: c_def child_of_def contin_of_def ssf_init_def nonneg_def)
qed

fun body_of :: "stmt \<Rightarrow> stmt list option" where
  "body_of (Call b) = Some b"
| "body_of (Spawn b) = Some b"
| "body_of _ = None"

lemma cost_step:
  assumes u: "0 \<le> u" and b: "\<And>b. body_of s = Some b \<Longrightarrow> cost_ok u b" and ok: "cost_ok u ss"
  shows "cost_ok u (s # ss)"
  unfolding cost_ok_def
proof (intro allI impI)
  fix f assume f: "nonneg f"
  note P = costs_nonneg(3) [OF u] costs_nonneg(1,2)
  show "effect_ok u (s # ss) f (effs u (s # ss) f)"
  proof (cases s)
    case (Strand t)
    have n: "nonneg (bump (int t) f)" using f by (simp add: nonneg_def bump_def)
    define g where "g = effs u ss (bump (int t) f)"
    have D: "effect_ok u ss (bump (int t) f) g" unfolding g_def by (rule cost_okD [OF ok n])
    have g: "effs u (s # ss) f = g" using Strand by (simp add: g_def)
    show ?thesis unfolding g using D Strand by (simp add: effect_ok_def bump_def algebra_simps)
  next
    case (Call b)
    note C = body_cost [OF assms(2) f u, of b FT_SPAWNER]
    let ?f = "eff u s f"
    have F: "contin_work ?f = contin_work f + work (tree b)" "contin_span ?f = contin_span f + span (tree b)"
      "contin_bspan ?f = contin_bspan f + bspan u (tree b)" "achild_work ?f = achild_work f"
      "lchild_span ?f = lchild_span f" "lchild_bspan ?f = lchild_bspan f"
      using C Call by (simp_all add: contin_of_def)
    have n: "nonneg ?f" using f F P [of "tree b"] by (simp add: nonneg_def)
    define g where "g = effs u ss ?f"
    have D: "effect_ok u ss ?f g" unfolding g_def by (rule cost_okD [OF ok n])
    have g: "effs u (s # ss) f = g" by (simp add: g_def)
    have t: "tree (region (s # ss)) = Ser (tree b) (tree (region ss))" "tree (after (s # ss)) = tree (after ss)"
      "tree (s # ss) = Ser (tree b) (tree ss)"
      using Call by simp_all
    show ?thesis unfolding g using D P [of "tree b"] unfolding effect_ok_def F t by (simp add: algebra_simps)
  next
    case (Spawn b)
    note C = body_cost [OF assms(2) f u, of b FT_HELPER]
    let ?f = "eff u s f"
    have F: "contin_work ?f = contin_work f" "contin_span ?f = contin_span f"
      "contin_bspan ?f = contin_bspan f + u" "achild_work ?f = achild_work f + work (tree b)"
      "lchild_span ?f = max (lchild_span f) (contin_span f + span (tree b))"
      "lchild_bspan ?f = max (lchild_bspan f) (contin_bspan f + bspan u (tree b) + u)"
      using C Spawn by (simp_all add: Let_def)
    have n: "nonneg ?f" using f P [of "tree b"] u unfolding nonneg_def F by (simp add: le_max_iff_disj)
    define g where "g = effs u ss ?f"
    have D: "effect_ok u ss ?f g" unfolding g_def by (rule cost_okD [OF ok n])
    have g: "effs u (s # ss) f = g" by (simp add: g_def)
    have w: "work (tree ss) = work (tree (region ss)) + work (tree (after ss))" by (rule tree_split)
    have t: "tree (region (s # ss)) = Ser (Par (tree b) (tree (region ss))) (Leaf 0)" "tree (after (s # ss)) = tree (after ss)"
      "tree (s # ss) = Ser (Par (tree b) (tree (region ss))) (tree (after ss))"
      using Spawn by (simp_all add: takeWhile_region)
    show ?thesis unfolding g using D u w unfolding effect_ok_def F t
      by (simp add: max_add_distrib_right max.assoc add.assoc add.commute [of u])
  next
    case Sync
    let ?f = "eff u s f"
    have F: "contin_work ?f = contin_work f + achild_work f" "contin_span ?f = max (lchild_span f) (contin_span f)"
      "contin_bspan ?f = max (lchild_bspan f) (contin_bspan f)" "achild_work ?f = 0" "lchild_span ?f = 0" "lchild_bspan ?f = 0"
      using Sync by simp_all
    have n: "nonneg ?f" using f unfolding nonneg_def F by (simp add: le_max_iff_disj)
    define g where "g = effs u ss ?f"
    have D: "effect_ok u ss ?f g" unfolding g_def by (rule cost_okD [OF ok n])
    have g: "effs u (s # ss) f = g" by (simp add: g_def)
    have t: "tree (region (s # ss)) = Leaf 0" "tree (after (s # ss)) = tree ss" "tree (s # ss) = tree ss"
      using Sync by simp_all
    note W = tree_split(2) [of ss] tree_split(3) [of u ss]
    have z: "max 0 (max x y + c) = max x y + c" if "0 \<le> x" "0 \<le> c" for x y c :: int using that by simp
    show ?thesis unfolding g using D W f P [of "tree (region ss)"] unfolding effect_ok_def F t nonneg_def by (simp add: z)
  qed
qed

lemma bodies_cost: "0 \<le> u \<Longrightarrow> body_of s = Some b \<Longrightarrow> cost_ok u b"
proof (induction s arbitrary: b)
  case (Call ss)
  have "cost_ok u ts" if "set ts \<subseteq> set ss" for ts
    using that
  proof (induction ts)
    case (Cons t ts)
    show ?case by (rule cost_step) (use Cons Call in auto)
  qed (simp add: cost_ok_def effect_ok_def)
  then show ?case using Call by simp
next
  case (Spawn ss)
  have "cost_ok u ts" if "set ts \<subseteq> set ss" for ts
    using that
  proof (induction ts)
    case (Cons t ts)
    show ?case by (rule cost_step) (use Cons Spawn in auto)
  qed (simp add: cost_ok_def effect_ok_def)
  then show ?case using Spawn by simp
qed simp_all

lemma effs_cost: "0 \<le> u \<Longrightarrow> cost_ok u ss"
  using bodies_cost [of u "Call ss"] by simp


subsection \<open>The shadow stack as a list of frames\<close>

definition ss_wf :: "shadow_stack_t \<Rightarrow> bool" where
  "ss_wf ss \<longleftrightarrow> length (ss_frames ss) = ss_capacity ss \<and> ss_bot ss < ss_capacity ss"

text \<open>The bottom frame first.\<close>

definition ss_list :: "shadow_stack_t \<Rightarrow> shadow_stack_frame_t list" where
  "ss_list ss = rev (take (Suc (ss_bot ss)) (ss_frames ss))"

lemma ss_list_Cons: "ss_wf ss \<Longrightarrow> ss_list ss = ss_frames ss ! ss_bot ss # rev (take (ss_bot ss) (ss_frames ss))"
  by (simp add: ss_wf_def ss_list_def take_Suc_snoc)

lemma ss_bot_length: "ss_wf ss \<Longrightarrow> length (ss_list ss) = Suc (ss_bot ss)"
  by (simp add: ss_wf_def ss_list_def)

lemma peek_bot_list: "ss_wf ss \<Longrightarrow> ss_list ss = f # fs \<Longrightarrow> peek_bot ss = Some f"
  by (simp add: ss_list_Cons) (simp add: ss_wf_def peek_bot_def)

lemma on_bot_list:
  assumes "ss_wf ss" "ss_list ss = f # fs" "act f = Some g"
  shows "\<exists>ss'. on_bot act ss = Some ss' \<and> ss_wf ss' \<and> ss_list ss' = g # fs \<and> ss_start ss' = ss_start ss \<and>
    ss_stop ss' = ss_stop ss"
proof -
  have b: "ss_bot ss < length (ss_frames ss)" using assms(1) by (simp add: ss_wf_def)
  have "on_bot act ss = Some (ss\<lparr>ss_frames := (ss_frames ss)[ss_bot ss := g]\<rparr>)"
    using peek_bot_list [OF assms(1,2)] assms(3) b by (simp add: on_bot_def)
  then show ?thesis using assms(1,2) b by (auto simp: ss_wf_def ss_list_def take_Suc_snoc)
qed

lemma ss_push_list:
  assumes wf: "ss_wf ss" and l: "ss_list ss = fs" and room: "length fs < 2 ^ 30"
  shows "\<exists>ss'. ss_push t ss = Some ss' \<and> ss_wf ss' \<and> ss_list ss' = ssf_init t # fs \<and> ss_start ss' = ss_start ss \<and>
    ss_stop ss' = ss_stop ss"
proof -
  have b: "ss_bot ss < ss_capacity ss" "length (ss_frames ss) = ss_capacity ss" using wf by (simp_all add: ss_wf_def)
  have n: "length fs = Suc (ss_bot ss)" using ss_bot_length [OF wf] l by simp
  show ?thesis
  proof (cases "Suc (ss_bot ss) < ss_capacity ss")
    case True
    then show ?thesis using b l by (auto simp: ss_push_def ss_wf_def ss_list_def take_Suc_snoc)
  next
    case False
    then have c: "ss_capacity ss = Suc (ss_bot ss)" "2 * ss_capacity ss < 2 ^ 31" using b n room by simp_all
    then show ?thesis using b l by (auto simp: ss_push_def ss_wf_def ss_list_def take_Suc_snoc nth_append list_update_append)
  qed
qed

lemma ss_pop_list:
  assumes "ss_wf ss" "ss_list ss = f # g # fs"
  shows "\<exists>ss'. ss_pop ss = Some (f, ss') \<and> ss_wf ss' \<and> ss_list ss' = g # fs \<and> ss_start ss' = ss_start ss \<and>
    ss_stop ss' = ss_stop ss"
proof -
  have n: "ss_bot ss = Suc (length fs)" using ss_bot_length [OF assms(1)] assms(2) by simp
  then show ?thesis using assms peek_bot_list [OF assms] ss_list_Cons [OF assms(1)]
    by (simp add: ss_pop_def ss_wf_def ss_list_def)
qed


subsection \<open>Running the hooks\<close>

text \<open>
  The hooks of a program, at the times of a clock: a strand of length \<open>t\<close> advances the clock by \<open>t\<close> (the
  \<open>INST\<close> build counts its instructions instead), and \<open>ov c\<close> is the time that the runtime takes at time \<open>c\<close>
  between the end of a strand and the start of the next one, which is not measured.
\<close>

definition run_sync :: "cscale_timer \<Rightarrow> (int \<Rightarrow> nat) \<Rightarrow> int \<times> cilkscale \<Rightarrow> (int \<times> cilkscale) option" where
  "run_sync cfg ov = (\<lambda>(c, T). do {
     T \<leftarrow> csi_before_sync cfg c T;
     T \<leftarrow> csi_after_sync cfg (c + int (ov c)) T;
     Some (c + int (ov c), T)
   })"

fun run_stmt :: "cscale_timer \<Rightarrow> (int \<Rightarrow> nat) \<Rightarrow> stmt \<Rightarrow> int \<times> cilkscale \<Rightarrow> (int \<times> cilkscale) option"
  and run_body :: "cscale_timer \<Rightarrow> (int \<Rightarrow> nat) \<Rightarrow> stmt list \<Rightarrow> int \<times> cilkscale \<Rightarrow> (int \<times> cilkscale) option" where
  "run_stmt cfg ov (Strand t) (c, T) = do { T \<leftarrow> csi_bb_entry cfg (int t) T; Some (c + int t, T) }"
| "run_stmt cfg ov (Call b) (c, T) =
     do {
       T \<leftarrow> csi_func_entry cfg c True T;
       (c, T) \<leftarrow> run_body cfg ov b (c, T);
       (c, T) \<leftarrow> run_sync cfg ov (c, T);
       T \<leftarrow> csi_func_exit cfg c True T;
       Some (c, T)
     }"
| "run_stmt cfg ov (Spawn b) (c, T) =
     do {
       T \<leftarrow> csi_detach cfg c T;
       let c = c + int (ov c);
       T \<leftarrow> csi_task cfg c T;
       (c, T) \<leftarrow> run_body cfg ov b (c, T);
       (c, T) \<leftarrow> run_sync cfg ov (c, T);
       T \<leftarrow> csi_task_exit cfg c T;
       let c = c + int (ov c);
       T \<leftarrow> csi_detach_continue cfg c False T;
       Some (c, T)
     }"
| "run_stmt cfg ov Sync (c, T) = run_sync cfg ov (c, T)"
| "run_body cfg ov [] s = Some s"
| "run_body cfg ov (s # ss) x = do { x \<leftarrow> run_stmt cfg ov s x; run_body cfg ov ss x }"

subsection \<open>The hooks do what the effects say\<close>

text \<open>The frame at time \<open>c\<close>, with the time of the strand that is running.\<close>

definition strand_time :: "cscale_timer \<Rightarrow> int \<Rightarrow> shadow_stack_t \<Rightarrow> int" where
  "strand_time cfg c ss = timer_elapsed cfg (timer_gettime cfg c) (ss_start ss)"

definition tool_at :: "cscale_timer \<Rightarrow> cilkscale \<Rightarrow> int \<Rightarrow> shadow_stack_frame_t \<Rightarrow> shadow_stack_frame_t list \<Rightarrow> bool" where
  "tool_at cfg T c F fs \<longleftrightarrow> csc_initialized T \<and>
     (\<exists>ss f. csc_tool T = Some ss \<and> ss_wf ss \<and> ss_list ss = f # fs \<and> F = bump (strand_time cfg c ss) f)"

definition in_range :: "shadow_stack_frame_t \<Rightarrow> bool" where
  "in_range F \<longleftrightarrow> dur_ok (contin_work F) \<and> dur_ok (contin_span F) \<and> dur_ok (contin_bspan F)"

lemma bump_simps [simp]: "bump 0 f = f" "bump a (bump b f) = bump (a + b) f"
  by (simp_all add: bump_def algebra_simps)

lemma add_time_bump: "in_range (bump t f) \<Longrightarrow> add_time t f = Some (bump t f)"
  by (simp add: add_time_def dur_plus_def bump_def in_range_def)

lemma strand_time_start: "ss_start ss = timer_gettime cfg c \<Longrightarrow> strand_time cfg c ss = 0"
  by (cases cfg) (simp_all add: strand_time_def timer_elapsed_def timer_gettime_def)

lemma end_of_strand_list:
  assumes "ss_wf ss" "ss_list ss = f # fs" "in_range (bump (strand_time cfg c ss) f)"
  shows "\<exists>ss'. end_of_strand cfg c ss = Some ss' \<and> ss_wf ss' \<and> ss_list ss' = bump (strand_time cfg c ss) f # fs \<and>
    ss_start ss' = ss_start ss \<and> ss_stop ss' = timer_gettime cfg c"
proof -
  let ?ss = "stop_gettime cfg c ss"
  have wf: "ss_wf ?ss" "ss_list ?ss = f # fs" using assms(1,2) by (simp_all add: ss_wf_def ss_list_def stop_gettime_def)
  have t: "ss_elapsed_time cfg ?ss = strand_time cfg c ss"
    by (simp add: ss_elapsed_time_def strand_time_def stop_gettime_def)
  show ?thesis
    using on_bot_list [OF wf, of "add_time (strand_time cfg c ss)", OF add_time_bump [OF assms(3)]] t
    by (auto simp: end_of_strand_def Let_def stop_gettime_def)
qed

text \<open>A strand ends: the frame of the stack is the current one.\<close>

lemma strand_end_at:
  assumes at: "tool_at cfg T c F fs" and r: "in_range F"
  shows "\<exists>ss. on_tool (end_of_strand cfg c) T = Some (T\<lparr>csc_tool := Some ss\<rparr>) \<and> ss_wf ss \<and> ss_list ss = F # fs"
  using at r end_of_strand_list by (fastforce simp: tool_at_def on_tool_def)

text \<open>The next strand starts.\<close>

lemma tool_at_start:
  assumes "csc_initialized T" "ss_wf ss" "ss_list ss = f # fs"
  shows "tool_at cfg (T\<lparr>csc_tool := Some (start_gettime cfg c ss)\<rparr>) c f fs"
  using assms strand_time_start [of "start_gettime cfg c ss" cfg c]
  by (auto simp: tool_at_def start_gettime_def ss_wf_def ss_list_def)

lemma sync_at:
  assumes at: "tool_at cfg T c F fs" and r: "in_range F" "dur_ok (contin_work F + achild_work F)"
  shows "\<exists>T'. run_sync cfg ov (c, T) = Some (c + int (ov c), T') \<and>
    tool_at cfg T' (c + int (ov c)) (join_frame F) fs \<and> csc_out T' = csc_out T"
proof -
  have i: "csc_initialized T" using at by (simp add: tool_at_def)
  obtain ss where s: "on_tool (end_of_strand cfg c) T = Some (T\<lparr>csc_tool := Some ss\<rparr>)" "ss_wf ss" "ss_list ss = F # fs"
    using strand_end_at [OF at r(1)] by blast
  have "join_children F = Some (join_frame F)" using r(2) by (auto simp: join_children_def dur_plus_def max_def)
  then obtain ss' where s': "on_bot join_children ss = Some ss'" "ss_wf ss'" "ss_list ss' = join_frame F # fs"
    using on_bot_list [OF s(2,3)] by blast
  have "run_sync cfg ov (c, T) = Some (c + int (ov c), T\<lparr>csc_tool := Some (start_gettime cfg (c + int (ov c)) ss')\<rparr>)"
  proof -
    have "csi_before_sync cfg c T = Some (T\<lparr>csc_tool := Some ss\<rparr>)" using s(1) by (simp add: csi_before_sync_def)
    moreover have "csi_after_sync cfg (c + int (ov c)) (T\<lparr>csc_tool := Some ss\<rparr>) =
        Some (T\<lparr>csc_tool := Some (start_gettime cfg (c + int (ov c)) ss')\<rparr>)"
      using s'(1) by (simp add: csi_after_sync_def on_tool_def)
    ultimately show ?thesis by (simp add: run_sync_def)
  qed
  then show ?thesis using tool_at_start [OF i s'(2,3)] by auto
qed

lemma func_entry_at:
  assumes at: "tool_at cfg T c F fs" and r: "in_range F" and room: "Suc (length fs) < 2 ^ 30"
  shows "\<exists>T'. csi_func_entry cfg c True T = Some T' \<and> tool_at cfg T' c (child_of FT_SPAWNER F) (F # fs) \<and>
    csc_out T' = csc_out T"
proof -
  have i: "csc_initialized T" using at by (simp add: tool_at_def)
  obtain ss0 f where T: "csc_tool T = Some ss0" "ss_wf ss0" "ss_list ss0 = f # fs" "F = bump (strand_time cfg c ss0) f"
    using at by (auto simp: tool_at_def)
  obtain ss where s: "end_of_strand cfg c ss0 = Some ss" "ss_wf ss" "ss_list ss = F # fs" "ss_stop ss = timer_gettime cfg c"
    using end_of_strand_list [OF T(2,3)] r T(4) by blast
  obtain s1 where s1: "ss_push FT_SPAWNER ss = Some s1" "ss_wf s1" "ss_list s1 = ssf_init FT_SPAWNER # F # fs"
    "ss_stop s1 = timer_gettime cfg c"
    using ss_push_list [OF s(2,3), of FT_SPAWNER] room s(4) by auto
  obtain s2 where s2: "on_bot (\<lambda>c. Some (contin_of F c)) s1 = Some s2" "ss_wf s2"
    "ss_list s2 = child_of FT_SPAWNER F # F # fs" "ss_stop s2 = timer_gettime cfg c"
    using on_bot_list [OF s1(2,3), of "\<lambda>c. Some (contin_of F c)"] s1(4) by (auto simp: child_of_def)
  let ?T = "T\<lparr>csc_tool := Some (s2\<lparr>ss_start := ss_stop s2\<rparr>)\<rparr>"
  have "csi_func_entry cfg c True T = Some ?T"
    using i T(1) s(1) s1(1) s2(1) peek_bot_list [OF s(2,3)] by (simp add: csi_func_entry_def on_tool_def)
  moreover have "tool_at cfg ?T c (child_of FT_SPAWNER F) (F # fs)"
    using tool_at_start [OF i s2(2,3), of cfg c] s2(4) by (simp add: start_gettime_def)
  ultimately show ?thesis by auto
qed

lemma func_exit_at:
  assumes at: "tool_at cfg T c C (P # fs)" and r: "in_range C" and z: "lchild_span C = 0" "achild_work C = 0"
  shows "\<exists>T'. csi_func_exit cfg c True T = Some T' \<and> tool_at cfg T' c (contin_of C P) fs \<and> csc_out T' = csc_out T"
proof -
  have i: "csc_initialized T" using at by (simp add: tool_at_def)
  obtain ss f where T: "csc_tool T = Some ss" "ss_wf ss" "ss_list ss = f # P # fs" "C = bump (strand_time cfg c ss) f"
    using at by (auto simp: tool_at_def)
  let ?ss = "stop_gettime cfg c ss"
  have wf: "ss_wf ?ss" "ss_list ?ss = f # P # fs" using T(2,3) by (simp_all add: ss_wf_def ss_list_def stop_gettime_def)
  obtain s1 where s1: "ss_pop ?ss = Some (f, s1)" "ss_wf s1" "ss_list s1 = P # fs" "ss_start s1 = ss_start ss"
    "ss_stop s1 = timer_gettime cfg c"
    using ss_pop_list [OF wf] by (auto simp: stop_gettime_def)
  have "ss_elapsed_time cfg s1 = strand_time cfg c ss" using s1(4,5) by (simp add: ss_elapsed_time_def strand_time_def)
  then have a: "add_time (ss_elapsed_time cfg s1) f = Some C" using add_time_bump r T(4) by simp
  obtain s2 where s2: "on_bot (\<lambda>p. Some (contin_of C p)) s1 = Some s2" "ss_wf s2" "ss_list s2 = contin_of C P # fs"
    "ss_stop s2 = timer_gettime cfg c"
    using on_bot_list [OF s1(2,3), of "\<lambda>p. Some (contin_of C p)"] s1(5) by auto
  let ?T = "T\<lparr>csc_tool := Some (s2\<lparr>ss_start := ss_stop s2\<rparr>)\<rparr>"
  have "lchild_span f = 0" "achild_work f = 0" using z T(4) by (simp_all add: bump_def)
  then have "csi_func_exit cfg c True T = Some ?T"
    using i T(1) s1(1) s2(1) a peek_bot_list [OF wf] by (simp add: csi_func_exit_def on_tool_def)
  moreover have "tool_at cfg ?T c (contin_of C P) fs"
    using tool_at_start [OF i s2(2,3), of cfg c] s2(4) by (simp add: start_gettime_def)
  ultimately show ?thesis by auto
qed


text \<open>A spawned task starts and ends.\<close>

lemma spawn_at:
  assumes at: "tool_at cfg T c F fs" and r: "in_range F" and room: "Suc (length fs) < 2 ^ 30"
  shows "\<exists>T1 T'. csi_detach cfg c T = Some T1 \<and> csi_task cfg c' T1 = Some T' \<and>
    tool_at cfg T' c' (child_of FT_HELPER F) (F # fs) \<and> csc_out T' = csc_out T"
proof -
  have i: "csc_initialized T" using at by (simp add: tool_at_def)
  obtain ss where s: "on_tool (end_of_strand cfg c) T = Some (T\<lparr>csc_tool := Some ss\<rparr>)" "ss_wf ss" "ss_list ss = F # fs"
    using strand_end_at [OF at r] by blast
  obtain s1 where s1: "ss_push FT_HELPER ss = Some s1" "ss_wf s1" "ss_list s1 = ssf_init FT_HELPER # F # fs"
    using ss_push_list [OF s(2,3), of FT_HELPER] room by auto
  obtain s2 where s2: "on_bot (\<lambda>c. Some (contin_of F c)) s1 = Some s2" "ss_wf s2"
    "ss_list s2 = child_of FT_HELPER F # F # fs"
    using on_bot_list [OF s1(2,3), of "\<lambda>c. Some (contin_of F c)"] by (auto simp: child_of_def)
  have "csi_detach cfg c T = Some (T\<lparr>csc_tool := Some ss\<rparr>)" using s(1) by (simp add: csi_detach_def)
  moreover have "csi_task cfg c' (T\<lparr>csc_tool := Some ss\<rparr>) = Some (T\<lparr>csc_tool := Some (start_gettime cfg c' s2)\<rparr>)"
    using s1(1) s2(1) peek_bot_list [OF s(2,3)] by (simp add: csi_task_def on_tool_def)
  ultimately show ?thesis using tool_at_start [OF i s2(2,3)] by auto
qed

lemma task_exit_at:
  assumes at: "tool_at cfg T c C (P # fs)" and r: "in_range C" and z: "lchild_span C = 0"
    and d: "dur_ok (contin_work C - contin_work P)" "dur_ok (achild_work P + (contin_work C - contin_work P))"
      "dur_ok (contin_bspan C + timer_burden cfg)" "dur_ok (contin_bspan P + timer_burden cfg)"
  shows "\<exists>T1 T'. csi_task_exit cfg c T = Some T1 \<and> csi_detach_continue cfg c' False T1 = Some T' \<and>
    tool_at cfg T' c' (P\<lparr>achild_work := achild_work P + (contin_work C - contin_work P),
           lchild_span := max (lchild_span P) (contin_span C),
           lchild_bspan := max (lchild_bspan P) (contin_bspan C + timer_burden cfg),
           contin_bspan := contin_bspan P + timer_burden cfg\<rparr>) fs \<and> csc_out T' = csc_out T"
proof -
  have i: "csc_initialized T" using at by (simp add: tool_at_def)
  obtain s0 where s0: "csc_tool T = Some s0" using at by (auto simp: tool_at_def)
  obtain ss where s: "on_tool (end_of_strand cfg c) T = Some (T\<lparr>csc_tool := Some ss\<rparr>)" "ss_wf ss" "ss_list ss = C # P # fs"
    using strand_end_at [OF at r] by blast
  have e: "end_of_strand cfg c s0 = Some ss" using s(1) s0 by (auto simp: on_tool_def bind_eq_Some_conv dest: arg_cong [where f = csc_tool])
  obtain s1 where s1: "ss_pop ss = Some (C, s1)" "ss_wf s1" "ss_list s1 = P # fs" using ss_pop_list [OF s(2,3)] by blast
  let ?Q = "P\<lparr>achild_work := achild_work P + (contin_work C - contin_work P),
    lchild_span := max (lchild_span P) (contin_span C), lchild_bspan := max (lchild_bspan P) (contin_bspan C + timer_burden cfg)\<rparr>"
  have "child_returns cfg C P = Some ?Q" using d by (auto simp: child_returns_def dur_minus_def dur_plus_def max_def Let_def)
  then obtain s2 where s2: "on_bot (child_returns cfg C) s1 = Some s2" "ss_wf s2" "ss_list s2 = ?Q # fs"
    using on_bot_list [OF s1(2,3)] by blast
  let ?act = "\<lambda>f. map_option (\<lambda>b. f\<lparr>contin_bspan := b\<rparr>) (dur_plus (contin_bspan f) (timer_burden cfg))"
  let ?R = "?Q\<lparr>contin_bspan := contin_bspan P + timer_burden cfg\<rparr>"
  have "?act ?Q = Some ?R" using d(4) by (simp add: dur_plus_def)
  from on_bot_list [where act = ?act, OF s2(2,3) this]
  obtain s3 where s3: "on_bot ?act s2 = Some s3" "ss_wf s3" "ss_list s3 = ?R # fs" by blast
  have "csi_task_exit cfg c T = Some (T\<lparr>csc_tool := Some s2\<rparr>)"
    using s0 e s1(1) s2(1) z peek_bot_list [OF s(2,3)] by (simp add: csi_task_exit_def on_tool_def)
  moreover have "csi_detach_continue cfg c' False (T\<lparr>csc_tool := Some s2\<rparr>) =
      Some (T\<lparr>csc_tool := Some (start_gettime cfg c' s3)\<rparr>)"
    using s3(1) by (simp add: csi_detach_continue_def on_tool_def)
  moreover have "tool_at cfg (T\<lparr>csc_tool := Some (start_gettime cfg c' s3)\<rparr>) c' ?R fs"
    by (rule tool_at_start [OF i s3(2,3)])
  ultimately show ?thesis by auto
qed

lemma strand_at:
  assumes at: "tool_at cfg T c F fs" and r: "in_range (bump (int t) F)"
  shows "\<exists>T'. run_stmt cfg ov (Strand t) (c, T) = Some (c + int t, T') \<and>
    tool_at cfg T' (c + int t) (bump (int t) F) fs \<and> csc_out T' = csc_out T"
proof -
  have i: "csc_initialized T" using at by (simp add: tool_at_def)
  obtain ss f where T: "csc_tool T = Some ss" "ss_wf ss" "ss_list ss = f # fs" "F = bump (strand_time cfg c ss) f"
    using at by (auto simp: tool_at_def)
  have st: "strand_time cfg c ss' = (if cfg = INST then 0 else c - ss_start ss')" for c ss'
    by (cases cfg) (simp_all add: strand_time_def timer_elapsed_def timer_gettime_def)
  let ?g = "if cfg = INST then bump (int t) f else f"
  have "get_bb_time cfg (int t) f = Some ?g"
    using add_time_bump r T(4) st by (cases cfg) (simp_all add: get_bb_time_def)
  then obtain s1 where s1: "on_bot (get_bb_time cfg (int t)) ss = Some s1" "ss_wf s1" "ss_list s1 = ?g # fs"
    "ss_start s1 = ss_start ss"
    using on_bot_list [OF T(2,3)] by blast
  have "bump (strand_time cfg (c + int t) s1) ?g = bump (int t) F"
    using s1(4) T(4) st by (simp add: algebra_simps)
  then have "tool_at cfg (T\<lparr>csc_tool := Some s1\<rparr>) (c + int t) (bump (int t) F) fs"
    using i s1(2,3) by (fastforce simp: tool_at_def)
  moreover have "csi_bb_entry cfg (int t) T = Some (T\<lparr>csc_tool := Some s1\<rparr>)"
    using i T(1) s1(1) by (simp add: csi_bb_entry_def on_tool_def)
  ultimately show ?thesis by simp
qed


subsection \<open>Bounds\<close>

fun stmt_cost :: "int \<Rightarrow> stmt \<Rightarrow> int" and costs :: "int \<Rightarrow> stmt list \<Rightarrow> int" where
  "stmt_cost u (Strand t) = int t"
| "stmt_cost u (Call b) = costs u b"
| "stmt_cost u (Spawn b) = costs u b + u"
| "stmt_cost u Sync = 0"
| "costs u [] = 0"
| "costs u (s # ss) = stmt_cost u s + costs u ss"

fun stmt_depth :: "stmt \<Rightarrow> nat" and depths :: "stmt list \<Rightarrow> nat" where
  "stmt_depth (Strand t) = 0"
| "stmt_depth (Call b) = Suc (depths b)"
| "stmt_depth (Spawn b) = Suc (depths b)"
| "stmt_depth Sync = 0"
| "depths [] = 0"
| "depths (s # ss) = max (stmt_depth s) (depths ss)"

lemma span_work: "span t \<le> work t"
  using costs_nonneg(1) by (induction t) (auto simp: add_mono add_increasing add_increasing2)

lemma costs_split: "costs u ss = costs u (region ss) + costs u (after ss)"
  by (induction ss) auto

lemma tree_costs:
  assumes u: "0 \<le> u"
  shows "0 \<le> costs u ss \<and> work (tree ss) \<le> costs u ss \<and> bspan u (tree ss) \<le> costs u ss"
proof (induction ss rule: tree.induct)
  case (5 b ss)
  have "work (tree ss) = work (tree (region ss)) + work (tree (after ss))" by (rule tree_split)
  then show ?case using 5 u costs_split [of u ss] by (simp add: max_def)
qed simp_all

definition fits :: "int \<Rightarrow> shadow_stack_frame_t \<Rightarrow> bool" where
  "fits n f \<longleftrightarrow> nonneg f \<and> contin_work f + achild_work f + n < 2 ^ 63 \<and>
     max (lchild_span f) (contin_span f) + n < 2 ^ 63 \<and> max (lchild_bspan f) (contin_bspan f) + n < 2 ^ 63"

lemma fits_mono: "fits n f \<Longrightarrow> m \<le> n \<Longrightarrow> fits m f"
  by (auto simp: fits_def)

lemma fits_in_range: "fits n f \<Longrightarrow> 0 \<le> n \<Longrightarrow> in_range f \<and> dur_ok (contin_work f + achild_work f)"
  by (auto simp: fits_def in_range_def dur_ok_def nonneg_def)

lemma fits_join: "fits n f \<Longrightarrow> fits n (join_frame f)"
  by (auto simp: fits_def nonneg_def le_max_iff_disj)

lemma fits_child: "fits n f \<Longrightarrow> fits n (child_of t f)"
  by (auto simp: fits_def nonneg_def child_of_def contin_of_def ssf_init_def)

lemma fits_effs:
  assumes u: "0 \<le> u" and f: "fits (costs u ss + n) f"
  shows "fits n (effs u ss f)"
proof -
  have n: "nonneg f" using f by (simp add: fits_def)
  note D = cost_okD [OF effs_cost [OF u] n, of ss, unfolded effect_ok_def]
  note T = tree_costs [OF u, of ss] tree_split(1,2) [of ss] tree_split(3) [of u ss] costs_nonneg(2) [of "tree (after ss)"]
    costs_nonneg(3) [OF u, of "tree (after ss)"] span_work [of "tree ss"]
    costs_nonneg(2) [of "tree (region ss)"] costs_nonneg(3) [OF u, of "tree (region ss)"]
  have "max (lchild_span f) (contin_span f + span (tree (region ss))) + span (tree (after ss)) \<le>
      max (lchild_span f) (contin_span f) + span (tree ss)" using T by simp
  moreover have "max (lchild_bspan f) (contin_bspan f + bspan u (tree (region ss))) + bspan u (tree (after ss)) \<le>
      max (lchild_bspan f) (contin_bspan f) + bspan u (tree ss)" using T by simp
  ultimately show ?thesis using D T f unfolding fits_def by linarith
qed

lemma fits_eff: "0 \<le> u \<Longrightarrow> fits (stmt_cost u s + n) f \<Longrightarrow> fits n (eff u s f)"
  using fits_effs [of u "[s]" n f] by simp


subsection \<open>A program runs and its effects are the costs\<close>

definition runs_ok :: "cscale_timer \<Rightarrow> (int \<Rightarrow> nat) \<Rightarrow> stmt list \<Rightarrow> bool" where
  "runs_ok cfg ov ss \<longleftrightarrow> (\<forall>c T F fs. tool_at cfg T c F fs \<longrightarrow> fits (costs (timer_burden cfg) ss) F \<longrightarrow>
     length fs + depths ss + 1 < 2 ^ 30 \<longrightarrow>
     (\<exists>c' T'. run_body cfg ov ss (c, T) = Some (c', T') \<and> tool_at cfg T' c' (effs (timer_burden cfg) ss F) fs \<and>
        csc_out T' = csc_out T))"

lemma burden_nonneg: "0 \<le> timer_burden cfg"
  by (cases cfg) (simp_all add: timer_burden_def)

text \<open>The body of a function or a task, with the sync at its end.\<close>

lemma closed_body_runs:
  assumes ok: "runs_ok cfg ov b" and at: "tool_at cfg T c (child_of t F) fs"
    and f: "fits (costs (timer_burden cfg) b) F" and room: "length fs + depths b + 1 < 2 ^ 30"
  defines "C \<equiv> join_frame (effs (timer_burden cfg) b (child_of t F))"
  shows "\<exists>c1 T1 c2 T2. run_body cfg ov b (c, T) = Some (c1, T1) \<and> run_sync cfg ov (c1, T1) = Some (c2, T2) \<and>
    tool_at cfg T2 c2 C fs \<and> csc_out T2 = csc_out T \<and> in_range C \<and> lchild_span C = 0 \<and> achild_work C = 0"
proof -
  note u = burden_nonneg [of cfg]
  have g: "fits (costs (timer_burden cfg) b) (child_of t F)" by (rule fits_child [OF f])
  obtain c1 T1 where R: "run_body cfg ov b (c, T) = Some (c1, T1)"
    "tool_at cfg T1 c1 (effs (timer_burden cfg) b (child_of t F)) fs" "csc_out T1 = csc_out T"
    using ok at g room unfolding runs_ok_def by blast
  have e: "fits 0 (effs (timer_burden cfg) b (child_of t F))" by (rule fits_effs [OF u]) (use g in simp)
  have "fits 0 C" unfolding C_def by (rule fits_join [OF e])
  then have "in_range C" using fits_in_range by simp
  moreover obtain T2 where "run_sync cfg ov (c1, T1) = Some (c1 + int (ov c1), T2)"
    "tool_at cfg T2 (c1 + int (ov c1)) C fs" "csc_out T2 = csc_out T1"
    using sync_at [OF R(2)] fits_in_range [OF e] unfolding C_def by auto
  ultimately show ?thesis using R(1,3) by (auto simp: C_def)
qed

lemma call_runs:
  assumes ok: "runs_ok cfg ov b" and at: "tool_at cfg T c F fs" and f: "fits (stmt_cost (timer_burden cfg) (Call b)) F"
    and room: "length fs + stmt_depth (Call b) + 1 < 2 ^ 30"
  shows "\<exists>c' T'. run_stmt cfg ov (Call b) (c, T) = Some (c', T') \<and> tool_at cfg T' c' (eff (timer_burden cfg) (Call b) F) fs \<and>
    csc_out T' = csc_out T"
proof -
  let ?u = "timer_burden cfg"
  have f': "fits (costs ?u b) F" using f by simp
  have c: "0 \<le> costs ?u b" using tree_costs [OF burden_nonneg [of cfg]] by blast
  obtain T0 where E: "csi_func_entry cfg c True T = Some T0" "tool_at cfg T0 c (child_of FT_SPAWNER F) (F # fs)" "csc_out T0 = csc_out T"
    using func_entry_at [OF at] fits_in_range [OF f' c] room by auto
  have "length (F # fs) + depths b + 1 < 2 ^ 30" using room by simp
  from closed_body_runs [OF ok E(2) f' this]
  obtain c1 T1 c2 T2 where B: "run_body cfg ov b (c, T0) = Some (c1, T1)" "run_sync cfg ov (c1, T1) = Some (c2, T2)"
    "tool_at cfg T2 c2 (join_frame (effs ?u b (child_of FT_SPAWNER F))) (F # fs)" "csc_out T2 = csc_out T0"
    "in_range (join_frame (effs ?u b (child_of FT_SPAWNER F)))" by blast
  obtain T3 where X: "csi_func_exit cfg c2 True T2 = Some T3"
    "tool_at cfg T3 c2 (contin_of (join_frame (effs ?u b (child_of FT_SPAWNER F))) F) fs" "csc_out T3 = csc_out T2"
    using func_exit_at [OF B(3,5)] by auto
  show ?thesis using E(1,3) B(1,2,4) X by simp
qed

lemma spawn_runs:
  assumes ok: "runs_ok cfg ov b" and at: "tool_at cfg T c F fs" and f: "fits (stmt_cost (timer_burden cfg) (Spawn b)) F"
    and room: "length fs + stmt_depth (Spawn b) + 1 < 2 ^ 30"
  shows "\<exists>c' T'. run_stmt cfg ov (Spawn b) (c, T) = Some (c', T') \<and> tool_at cfg T' c' (eff (timer_burden cfg) (Spawn b) F) fs \<and>
    csc_out T' = csc_out T"
proof -
  let ?u = "timer_burden cfg" and ?c0 = "c + int (ov c)"
  let ?C = "join_frame (effs (timer_burden cfg) b (child_of FT_HELPER F))"
  note u = burden_nonneg [of cfg]
  have fu: "fits (costs ?u b + ?u) F" using f by simp
  have f': "fits (costs ?u b) F" by (rule fits_mono [OF fu]) (use u in simp)
  have c: "0 \<le> costs ?u b" using tree_costs [OF u] by blast
  obtain T0 T1 where E: "csi_detach cfg c T = Some T0" "csi_task cfg ?c0 T0 = Some T1"
    "tool_at cfg T1 ?c0 (child_of FT_HELPER F) (F # fs)" "csc_out T1 = csc_out T"
    using spawn_at [OF at, of ?c0] fits_in_range [OF f' c] room by auto
  have "length (F # fs) + depths b + 1 < 2 ^ 30" using room by simp
  from closed_body_runs [OF ok E(3) f' this]
  obtain c1 T2 c2 T3 where B: "run_body cfg ov b (?c0, T1) = Some (c1, T2)" "run_sync cfg ov (c1, T2) = Some (c2, T3)"
    "tool_at cfg T3 c2 ?C (F # fs)" "csc_out T3 = csc_out T1" "in_range ?C" "lchild_span ?C = 0" by blast
  have F: "nonneg F" using f' by (simp add: fits_def)
  note C = body_cost [OF effs_cost [OF u] F u, of b FT_HELPER]
  note K = tree_costs [OF u, of b] costs_nonneg(1,2) [of "tree b"] costs_nonneg(3) [OF u, of "tree b"]
  have d: "dur_ok (contin_work ?C - contin_work F)" "dur_ok (achild_work F + (contin_work ?C - contin_work F))"
    "dur_ok (contin_bspan ?C + ?u)" "dur_ok (contin_bspan F + ?u)"
    unfolding C using K fu u by (auto simp: dur_ok_def fits_def nonneg_def)
  obtain T4 T5 where X: "csi_task_exit cfg c2 T3 = Some T4" "csi_detach_continue cfg (c2 + int (ov c2)) False T4 = Some T5"
    "tool_at cfg T5 (c2 + int (ov c2)) (F\<lparr>achild_work := achild_work F + (contin_work ?C - contin_work F),
           lchild_span := max (lchild_span F) (contin_span ?C),
           lchild_bspan := max (lchild_bspan F) (contin_bspan ?C + timer_burden cfg),
           contin_bspan := contin_bspan F + timer_burden cfg\<rparr>) fs" "csc_out T5 = csc_out T3"
    using task_exit_at [OF B(3,5,6) d, of "c2 + int (ov c2)"] by blast
  have "run_stmt cfg ov (Spawn b) (c, T) = Some (c2 + int (ov c2), T5)"
    using E(1,2) B(1,2) X(1,2) by (simp add: Let_def)
  then show ?thesis using X(3,4) B(4) E(4) by (simp add: Let_def)
qed

lemma stmt_runs:
  assumes ok: "\<And>b. body_of s = Some b \<Longrightarrow> runs_ok cfg ov b" and at: "tool_at cfg T c F fs"
    and f: "fits (stmt_cost (timer_burden cfg) s) F" and room: "length fs + stmt_depth s + 1 < 2 ^ 30"
  shows "\<exists>c' T'. run_stmt cfg ov s (c, T) = Some (c', T') \<and> tool_at cfg T' c' (eff (timer_burden cfg) s F) fs \<and>
    csc_out T' = csc_out T"
proof (cases s)
  case (Strand t)
  have "fits 0 (eff (timer_burden cfg) s F)" by (rule fits_eff [OF burden_nonneg]) (use f in simp)
  then have "in_range (bump (int t) F)" using fits_in_range [of 0] Strand by simp
  then show ?thesis using strand_at [OF at, of t ov] Strand by auto
next
  case (Call b)
  then show ?thesis using call_runs [OF ok at, of b] f room by simp
next
  case (Spawn b)
  then show ?thesis using spawn_runs [OF ok at, of b] f room by simp
next
  case Sync
  then show ?thesis using sync_at [OF at, of ov] fits_in_range [OF f] by auto
qed

lemma runs_step:
  assumes b: "\<And>b. body_of s = Some b \<Longrightarrow> runs_ok cfg ov b" and ok: "runs_ok cfg ov ss"
  shows "runs_ok cfg ov (s # ss)"
  unfolding runs_ok_def
proof (intro allI impI)
  fix c T F fs
  let ?u = "timer_burden cfg"
  assume at: "tool_at cfg T c F fs" and f: "fits (costs ?u (s # ss)) F" and room: "length fs + depths (s # ss) + 1 < 2 ^ 30"
  note u = burden_nonneg [of cfg]
  have c: "0 \<le> costs ?u ss" using tree_costs [OF u] by blast
  have fs1: "fits (stmt_cost ?u s) F" by (rule fits_mono [OF f]) (use c in simp)
  have rs: "length fs + stmt_depth s + 1 < 2 ^ 30" "length fs + depths ss + 1 < 2 ^ 30" using room by simp_all
  obtain c1 T1 where S: "run_stmt cfg ov s (c, T) = Some (c1, T1)" "tool_at cfg T1 c1 (eff ?u s F) fs" "csc_out T1 = csc_out T"
    using stmt_runs [OF b at fs1 rs(1)] by blast
  have "fits (costs ?u ss) (eff ?u s F)" by (rule fits_eff [OF u]) (use f in simp)
  then obtain c' T' where "run_body cfg ov ss (c1, T1) = Some (c', T')" "tool_at cfg T' c' (effs ?u ss (eff ?u s F)) fs"
    "csc_out T' = csc_out T1"
    using ok S(2) rs(2) unfolding runs_ok_def by blast
  then show "\<exists>c' T'. run_body cfg ov (s # ss) (c, T) = Some (c', T') \<and> tool_at cfg T' c' (effs ?u (s # ss) F) fs \<and>
      csc_out T' = csc_out T"
    using S(1,3) by simp
qed

lemma bodies_run: "body_of s = Some b \<Longrightarrow> runs_ok cfg ov b"
proof (induction s arbitrary: b)
  case (Call ss)
  have "runs_ok cfg ov ts" if "set ts \<subseteq> set ss" for ts
    using that
  proof (induction ts)
    case (Cons t ts)
    show ?case by (rule runs_step) (use Cons Call in auto)
  qed (simp add: runs_ok_def)
  then show ?case using Call by simp
next
  case (Spawn ss)
  have "runs_ok cfg ov ts" if "set ts \<subseteq> set ss" for ts
    using that
  proof (induction ts)
    case (Cons t ts)
    show ?case by (rule runs_step) (use Cons Spawn in auto)
  qed (simp add: runs_ok_def)
  then show ?case using Spawn by simp
qed simp_all

lemma program_runs: "runs_ok cfg ov ss"
  using bodies_run [of "Call ss"] by simp


subsection \<open>The whole program\<close>

definition run_program :: "cscale_timer \<Rightarrow> (int \<Rightarrow> nat) \<Rightarrow> int \<Rightarrow> stmt list \<Rightarrow> cilkscale option" where
  "run_program cfg ov c main =
     do {
       (c, T) \<leftarrow> run_stmt cfg ov (Call main) (c, csi_init (cilkscale_create cfg c 0 0));
       destroyTool cfg c T
     }"

lemma create_at: "tool_at cfg (csi_init (cilkscale_create cfg c t0 t1)) c (ssf_init FT_MAIN) []"
proof -
  let ?ss = "start_gettime cfg c (shadow_stack_new t0 t1 FT_MAIN)"
  have "ss_wf (shadow_stack_new t0 t1 FT_MAIN)" "ss_list (shadow_stack_new t0 t1 FT_MAIN) = [ssf_init FT_MAIN]"
    by (simp_all add: ss_wf_def ss_list_def shadow_stack_new_def DEFAULT_STACK_SIZE_def numeral_eq_Suc)
  then have w: "ss_wf ?ss" "ss_list ?ss = [ssf_init FT_MAIN]" by (simp_all add: ss_wf_def ss_list_def start_gettime_def)
  have "strand_time cfg c ?ss = 0" by (rule strand_time_start) (simp add: start_gettime_def)
  then show ?thesis using w by (simp add: tool_at_def csi_init_def cilkscale_create_def)
qed

lemma destroy_at:
  assumes at: "tool_at cfg T c F fs" and r: "in_range F" and t: "ssf_type F \<noteq> FT_NONE"
  shows "\<exists>T'. destroyTool cfg c T = Some T' \<and> csc_tool T' = None \<and>
    csc_out T' = csc_out T @ [([], contin_work F, contin_span F, contin_bspan F)]"
proof -
  have i: "csc_initialized T" using at by (simp add: tool_at_def)
  obtain ss0 where s0: "csc_tool T = Some ss0" using at by (auto simp: tool_at_def)
  obtain ss where s: "on_tool (end_of_strand cfg c) T = Some (T\<lparr>csc_tool := Some ss\<rparr>)" "ss_wf ss" "ss_list ss = F # fs"
    using strand_end_at [OF at r] by blast
  have "printAnalysis (T\<lparr>csc_tool := Some ss\<rparr>) =
      Some (T\<lparr>csc_tool := Some ss, csc_out := csc_out T @ [([], contin_work F, contin_span F, contin_bspan F)]\<rparr>)"
    using peek_bot_list [OF s(2,3)] i t by (simp add: printAnalysis_def)
  then have "cilkscale_destructor cfg c T =
      Some (T\<lparr>csc_tool := Some ss, csc_out := csc_out T @ [([], contin_work F, contin_span F, contin_bspan F)]\<rparr>)"
    using s(1) by (simp add: cilkscale_destructor_def)
  then show ?thesis using s0 by (simp add: destroyTool_def)
qed

lemma program_cost:
  assumes fit: "costs (timer_burden cfg) main < 2 ^ 63" and room: "depths main + 2 < 2 ^ 30"
  shows "\<exists>T. run_program cfg ov c main = Some T \<and>
    csc_out T = [([], work (tree main), span (tree main), bspan (timer_burden cfg) (tree main))]"
proof -
  let ?u = "timer_burden cfg" and ?F = "ssf_init FT_MAIN" and ?T = "csi_init (cilkscale_create cfg c 0 0)"
  note u = burden_nonneg [of cfg]
  have c: "0 \<le> costs ?u main" using tree_costs [OF u] by blast
  have f: "fits (stmt_cost ?u (Call main)) ?F" using fit c by (simp add: fits_def nonneg_def ssf_init_def)
  have r: "length ([] :: shadow_stack_frame_t list) + stmt_depth (Call main) + 1 < 2 ^ 30" using room by simp
  obtain c1 T1 where R: "run_stmt cfg ov (Call main) (c, ?T) = Some (c1, T1)"
    "tool_at cfg T1 c1 (eff ?u (Call main) ?F) []" "csc_out T1 = csc_out ?T"
    using call_runs [OF program_runs create_at f r] by blast
  have n: "nonneg ?F" by (simp add: nonneg_def ssf_init_def)
  note C = body_cost [OF effs_cost [OF u] n u, of main FT_SPAWNER]
  let ?G = "eff ?u (Call main) ?F"
  have G: "contin_work ?G = work (tree main)" "contin_span ?G = span (tree main)" "contin_bspan ?G = bspan ?u (tree main)"
    "ssf_type ?G = FT_MAIN"
    using C by (simp_all add: contin_of_def ssf_init_def)
  have "fits 0 ?G" by (rule fits_eff [OF u]) (use f in simp)
  then have "in_range ?G" using fits_in_range by simp
  then obtain T2 where "destroyTool cfg c1 T1 = Some T2"
    "csc_out T2 = csc_out T1 @ [([], contin_work ?G, contin_span ?G, contin_bspan ?G)]"
    using destroy_at [OF R(2)] G(4) by auto
  then show ?thesis using R(1,3) G by (simp add: run_program_def csi_init_def cilkscale_create_def del: eff.simps run_stmt.simps)
qed

subsection \<open>Stolen continuations\<close>

text \<open>
  In a parallel run the statements after a spawn may run on another worker, on a view that \<open>identity\<close>
  makes; the sync then reduces it into the view of the statements before.  After the sync, the frame is
  the one of the serial run.
\<close>

text \<open>Statements without a sync add to a frame.\<close>

definition zero_frame :: shadow_stack_frame_t where "zero_frame = ssf_init FT_SPAWNER"

fun is_spawn :: "stmt \<Rightarrow> bool" where
  "is_spawn (Spawn b) = True"
| "is_spawn _ = False"

definition shifted :: "bool \<Rightarrow> shadow_stack_frame_t \<Rightarrow> shadow_stack_frame_t \<Rightarrow> shadow_stack_frame_t \<Rightarrow> bool" where
  "shifted sp f z g \<longleftrightarrow>
     contin_work g = contin_work f + contin_work z \<and> achild_work g = achild_work f + achild_work z \<and>
     contin_span g = contin_span f + contin_span z \<and> contin_bspan g = contin_bspan f + contin_bspan z \<and>
     lchild_span g = (if sp then max (lchild_span f) (contin_span f + lchild_span z) else lchild_span f) \<and>
     lchild_bspan g = (if sp then max (lchild_bspan f) (contin_bspan f + lchild_bspan z) else lchild_bspan f) \<and>
     (\<not> sp \<longrightarrow> lchild_span z = 0 \<and> lchild_bspan z = 0) \<and> nonneg z \<and> ssf_type g = ssf_type f"

lemma shifted_stmt:
  assumes u: "0 \<le> u" and f: "nonneg f" and s: "s \<noteq> Sync"
  shows "shifted (is_spawn s) f (eff u s zero_frame) (eff u s f)"
proof -
  have z: "nonneg zero_frame" by (simp add: nonneg_def zero_frame_def ssf_init_def)
  note P = costs_nonneg(1,2) costs_nonneg(3) [OF u]
  show ?thesis
  proof (cases s)
    case (Strand t)
    then show ?thesis by (simp add: shifted_def bump_def zero_frame_def ssf_init_def nonneg_def)
  next
    case (Call b)
    note C = body_cost [OF effs_cost [OF u] f u, of b FT_SPAWNER] body_cost [OF effs_cost [OF u] z u, of b FT_SPAWNER]
    show ?thesis using C Call P [of "tree b"]
      by (simp add: shifted_def contin_of_def zero_frame_def ssf_init_def nonneg_def)
  next
    case (Spawn b)
    note C = body_cost [OF effs_cost [OF u] f u, of b FT_HELPER] body_cost [OF effs_cost [OF u] z u, of b FT_HELPER]
    show ?thesis using C Spawn P [of "tree b"] u
      by (simp add: shifted_def Let_def zero_frame_def ssf_init_def nonneg_def add.assoc)
  qed (use s in simp)
qed

lemma shifted_trans:
  assumes "shifted p f z f1" "shifted q f1 y g" "shifted q z y x" "nonneg f"
  shows "shifted (p \<or> q) f x g"
proof -
  have a: "nonneg x" using assms(1,3) by (auto simp: shifted_def nonneg_def)
  have l: "lchild_span g = (if p \<or> q then max (lchild_span f) (contin_span f + lchild_span x) else lchild_span f)"
    using assms by (cases p; cases q) (auto simp: shifted_def nonneg_def max_add_distrib_right add.assoc max.assoc)
  have b: "lchild_bspan g = (if p \<or> q then max (lchild_bspan f) (contin_bspan f + lchild_bspan x) else lchild_bspan f)"
    using assms by (cases p; cases q) (auto simp: shifted_def nonneg_def max_add_distrib_right add.assoc max.assoc)
  show ?thesis using assms a l b by (auto simp: shifted_def)
qed

lemma shifted_effs:
  assumes u: "0 \<le> u"
  shows "nonneg f \<Longrightarrow> Sync \<notin> set ss \<Longrightarrow> shifted (\<exists>s \<in> set ss. is_spawn s) f (effs u ss zero_frame) (effs u ss f)"
proof (induction ss arbitrary: f)
  case Nil
  then show ?case by (simp add: shifted_def zero_frame_def ssf_init_def nonneg_def)
next
  case (Cons s ss)
  have z: "nonneg zero_frame" by (simp add: nonneg_def zero_frame_def ssf_init_def)
  have n: "nonneg (eff u s h)" if "nonneg h" for h
    using cost_okD [OF effs_cost [OF u] that, of "[s]"] by (simp add: effect_ok_def)
  have "shifted (is_spawn s) f (eff u s zero_frame) (eff u s f)"
    by (rule shifted_stmt [OF u]) (use Cons(2,3) in auto)
  from shifted_trans [OF this Cons(1) [OF n [OF Cons(2)]] Cons(1) [OF n [OF z]] Cons(2)] Cons(3)
  show ?case by simp
qed

lemma gt_max: "(if s > l then s else l) = max l (s :: int)"
  by simp

lemma dur_plus_Some: "dur_plus a b = Some c \<longleftrightarrow> dur_ok (a + b) \<and> c = a + b"
  by (auto simp: dur_plus_def)

lemma ssf_reduce_frame:
  assumes "ssf_reduce f z = Some r"
  shows "r = f\<lparr>contin_work := contin_work f + contin_work z, achild_work := achild_work f + achild_work z,
      lchild_span := max (lchild_span f) (contin_span f + lchild_span z), contin_span := contin_span f + contin_span z,
      lchild_bspan := max (lchild_bspan f) (contin_bspan f + lchild_bspan z), contin_bspan := contin_bspan f + contin_bspan z\<rparr>"
  using assms by (simp add: ssf_reduce_def bind_eq_Some_conv dur_plus_Some Let_def gt_max del: max.absorb1 max.absorb2)

lemma join_shifted:
  assumes s: "shifted sp f z g" and f: "nonneg f" and r: "ssf_reduce f z = Some r"
  shows "join_frame r = join_frame g"
proof -
  have z: "nonneg z" using s by (simp add: shifted_def)
  have R: "contin_work r = contin_work f + contin_work z" "achild_work r = achild_work f + achild_work z"
    "contin_span r = contin_span f + contin_span z" "contin_bspan r = contin_bspan f + contin_bspan z"
    "lchild_span r = max (lchild_span f) (contin_span f + lchild_span z)"
    "lchild_bspan r = max (lchild_bspan f) (contin_bspan f + lchild_bspan z)" "ssf_type r = ssf_type f"
    using ssf_reduce_frame [OF r] by simp_all
  have "max (lchild_span r) (contin_span r) = max (lchild_span g) (contin_span g)"
    using R s z by (auto simp: shifted_def nonneg_def)
  moreover have "max (lchild_bspan r) (contin_bspan r) = max (lchild_bspan g) (contin_bspan g)"
    using R s z by (auto simp: shifted_def nonneg_def)
  moreover have "contin_work r + achild_work r = contin_work g + achild_work g" "ssf_type r = ssf_type g"
    using R s by (simp_all add: shifted_def)
  ultimately show ?thesis by - (rule shadow_stack_frame_t.equality, simp_all)
qed

definition frames_of :: "cilkscale \<Rightarrow> shadow_stack_frame_t list option" where
  "frames_of T = map_option ss_list (csc_tool T)"

text \<open>A stolen continuation: the hook of the continuation and the statements \<open>ss\<close> run on a view of their own,
  from time \<open>d\<close> on, and the sync after them reduces it into the view of what came before.\<close>

definition run_stolen :: "cscale_timer \<Rightarrow> (int \<Rightarrow> nat) \<Rightarrow> int \<Rightarrow> stmt list \<Rightarrow> cilkscale \<Rightarrow> cilkscale option" where
  "run_stolen cfg ov d ss T =
     do {
       V \<leftarrow> csi_detach_continue cfg d False \<lparr>csc_tool = Some (ss_identity 0 0), csc_initialized = True, csc_out = []\<rparr>;
       (d, V) \<leftarrow> run_body cfg ov ss (d, V);
       V \<leftarrow> csi_before_sync cfg d V;
       right \<leftarrow> csc_tool V;
       left \<leftarrow> csc_tool T;
       both \<leftarrow> ss_reduce left right;
       csi_after_sync cfg (d + int (ov d)) (T\<lparr>csc_tool := Some both\<rparr>)
     }"

lemma identity_view_list: "ss_wf (ss_identity 0 0)" "ss_list (ss_identity 0 0) = [zero_frame]"
  by (simp_all add: ss_wf_def ss_list_def ss_identity_def shadow_stack_new_def DEFAULT_STACK_SIZE_def zero_frame_def
      numeral_eq_Suc)

text \<open>The hook of the continuation of a spawn adds the burden and starts the clock.\<close>

definition burdened :: "int \<Rightarrow> shadow_stack_frame_t \<Rightarrow> shadow_stack_frame_t" where
  "burdened u f = f\<lparr>contin_bspan := contin_bspan f + u\<rparr>"

lemma fits_burdened: "0 \<le> u \<Longrightarrow> fits (u + n) f \<Longrightarrow> fits n (burdened u f)"
  by (auto simp: fits_def nonneg_def burdened_def)

lemma continue_at:
  assumes "csc_initialized T" "csc_tool T = Some ss" "ss_wf ss" "ss_list ss = f # fs"
    "dur_ok (contin_bspan f + timer_burden cfg)"
  shows "\<exists>T'. csi_detach_continue cfg c False T = Some T' \<and> tool_at cfg T' c (burdened (timer_burden cfg) f) fs"
proof -
  let ?act = "\<lambda>f. map_option (\<lambda>b. f\<lparr>contin_bspan := b\<rparr>) (dur_plus (contin_bspan f) (timer_burden cfg))"
  have "?act f = Some (burdened (timer_burden cfg) f)" using assms(5) by (simp add: dur_plus_def burdened_def)
  from on_bot_list [where act = ?act, OF assms(3,4) this]
  obtain s where s: "on_bot ?act ss = Some s" "ss_wf s" "ss_list s = burdened (timer_burden cfg) f # fs" by blast
  have "csi_detach_continue cfg c False T = Some (T\<lparr>csc_tool := Some (start_gettime cfg c s)\<rparr>)"
    using assms(2) s(1) by (simp add: csi_detach_continue_def on_tool_def)
  then show ?thesis using tool_at_start [OF assms(1) s(2,3)] by blast
qed

lemma shifted_burdened: "0 \<le> u \<Longrightarrow> nonneg f \<Longrightarrow> shifted False f (burdened u zero_frame) (burdened u f)"
  by (simp add: shifted_def burdened_def zero_frame_def ssf_init_def nonneg_def)

lemma nonneg_burdened: "0 \<le> u \<Longrightarrow> nonneg f \<Longrightarrow> nonneg (burdened u f)"
  by (simp add: nonneg_def burdened_def)

lemma sync_frames:
  assumes "run_sync cfg ov (c, T) = Some (c', T')" "tool_at cfg T c F fs"
    and r: "in_range F" "dur_ok (contin_work F + achild_work F)"
  shows "frames_of T' = Some (join_frame F # fs)"
proof -
  obtain ss where s: "on_tool (end_of_strand cfg c) T = Some (T\<lparr>csc_tool := Some ss\<rparr>)" "ss_wf ss" "ss_list ss = F # fs"
    using strand_end_at [OF assms(2) r(1)] by blast
  have "join_children F = Some (join_frame F)" using r(2) by (auto simp: join_children_def dur_plus_def max_def)
  then obtain ss' where s': "on_bot join_children ss = Some ss'" "ss_wf ss'" "ss_list ss' = join_frame F # fs"
    using on_bot_list [OF s(2,3)] by blast
  have b: "csi_before_sync cfg c T = Some (T\<lparr>csc_tool := Some ss\<rparr>)" using s(1) by (simp add: csi_before_sync_def)
  have "csi_after_sync cfg (c + int (ov c)) (T\<lparr>csc_tool := Some ss\<rparr>) =
      Some (T\<lparr>csc_tool := Some (start_gettime cfg (c + int (ov c)) ss')\<rparr>)"
    using s'(1) by (simp add: csi_after_sync_def on_tool_def)
  then have "T' = T\<lparr>csc_tool := Some (start_gettime cfg (c + int (ov c)) ss')\<rparr>"
    using assms(1) b by (auto simp: run_sync_def)
  then show ?thesis using s'(3) by (simp add: frames_of_def start_gettime_def ss_list_def)
qed

lemma reduce_fits:
  assumes f: "nonneg f" "fits 0 g" and s: "shifted sp f z g"
  shows "\<exists>r. ssf_reduce f z = Some r"
proof -
  have "nonneg z" using s by (simp add: shifted_def)
  moreover have "contin_span f + lchild_span z < 2 ^ 63 \<and> contin_bspan f + lchild_bspan z < 2 ^ 63"
    using s f by (auto simp: shifted_def fits_def nonneg_def split: if_splits)
  ultimately show ?thesis using s f
    by (auto simp: ssf_reduce_def dur_plus_def dur_ok_def shifted_def fits_def nonneg_def)
qed

lemma stolen_eq_serial:
  assumes T: "csc_initialized T" "csc_tool T = Some left" "ss_wf left" "ss_list left = F # fs"
    and nosync: "Sync \<notin> set ss" and f: "fits (timer_burden cfg + costs (timer_burden cfg) ss) F"
    and room: "length fs + depths ss + 1 < 2 ^ 30"
  shows "\<exists>T0 c1 T1 c2 T2 T3. csi_detach_continue cfg c False T = Some T0 \<and>
    run_body cfg ov ss (c, T0) = Some (c1, T1) \<and> run_sync cfg ov (c1, T1) = Some (c2, T2) \<and>
    run_stolen cfg ov' d ss T = Some T3 \<and> frames_of T3 = frames_of T2"
proof -
  let ?u = "timer_burden cfg"
  note u = burden_nonneg [of cfg]
  have n: "nonneg F" using f by (simp add: fits_def)
  have nz: "nonneg zero_frame" by (simp add: nonneg_def zero_frame_def ssf_init_def)
  let ?F = "burdened ?u F" and ?Z = "burdened ?u zero_frame"
  let ?g = "effs ?u ss ?F" and ?z = "effs ?u ss ?Z"
  have c: "0 \<le> costs ?u ss" using tree_costs [OF u] by blast
  have zf: "fits (?u + costs ?u ss) zero_frame"
    using f by (auto simp: fits_def nonneg_def zero_frame_def ssf_init_def)
  note fF = fits_burdened [OF u f] and fZ = fits_burdened [OF u zf]
  have ok: "dur_ok (contin_bspan F + ?u)" "dur_ok (contin_bspan zero_frame + ?u)"
    using f zf u c by (auto simp: fits_def nonneg_def dur_ok_def)
  have g: "fits 0 ?g" by (rule fits_effs [OF u]) (use fF in simp)
  have gr: "in_range ?g" "dur_ok (contin_work ?g + achild_work ?g)" using fits_in_range [OF g] by simp_all
  obtain T0 where T0: "csi_detach_continue cfg c False T = Some T0" "tool_at cfg T0 c ?F fs"
    using continue_at [OF T ok(1)] by blast
  obtain c1 T1 where S: "run_body cfg ov ss (c, T0) = Some (c1, T1)" "tool_at cfg T1 c1 ?g fs"
    using program_runs T0(2) fF room unfolding runs_ok_def by blast
  obtain T2 where S2: "run_sync cfg ov (c1, T1) = Some (c1 + int (ov c1), T2)" using sync_at [OF S(2) gr] by blast
  have F2: "frames_of T2 = Some (join_frame ?g # fs)" by (rule sync_frames [OF S2 S(2) gr])
  let ?sp = "False \<or> (\<exists>s \<in> set ss. is_spawn s)"
  note sE = shifted_effs [OF u nonneg_burdened [OF u n] nosync] shifted_effs [OF u nonneg_burdened [OF u nz] nosync]
  have sh: "shifted ?sp F ?z ?g" by (rule shifted_trans [OF shifted_burdened [OF u n] sE n])
  have shz: "shifted ?sp zero_frame ?z ?z"
    by (rule shifted_trans [OF shifted_burdened [OF u nz] sE(2,2) nz])
  let ?V = "\<lparr>csc_tool = Some (ss_identity 0 0), csc_initialized = True, csc_out = []\<rparr>"
  obtain V0 where V0: "csi_detach_continue cfg d False ?V = Some V0" "tool_at cfg V0 d ?Z []"
    using continue_at [OF _ _ identity_view_list ok(2), of ?V d] by auto
  have "length ([] :: shadow_stack_frame_t list) + depths ss + 1 < 2 ^ 30" using room by simp
  then obtain d1 V where V: "run_body cfg ov' ss (d, V0) = Some (d1, V)" "tool_at cfg V d1 ?z []"
    using program_runs V0(2) fZ unfolding runs_ok_def by blast
  have "fits 0 ?z" by (rule fits_effs [OF u]) (use fZ in simp)
  then have "in_range ?z" using fits_in_range by simp
  then obtain right where W: "csi_before_sync cfg d1 V = Some (V\<lparr>csc_tool := Some right\<rparr>)" "ss_wf right" "ss_list right = [?z]"
    using strand_end_at [OF V(2)] by (auto simp: csi_before_sync_def)
  obtain r where r: "ssf_reduce F ?z = Some r" using reduce_fits [OF n g sh] by blast
  have "ss_bot right = 0" using ss_bot_length [OF W(2)] W(3) by simp
  moreover have "ssf_type ?z = FT_SPAWNER"
    using shz by (simp add: shifted_def zero_frame_def ssf_init_def)
  moreover obtain both where B: "on_bot (\<lambda>l. ssf_reduce l ?z) left = Some both" "ss_wf both" "ss_list both = r # fs"
    using on_bot_list [OF T(3,4), of "\<lambda>l. ssf_reduce l ?z", OF r] by blast
  ultimately have red: "ss_reduce left right = Some both"
    using peek_bot_list [OF W(2,3)] by (simp add: ss_reduce_def)
  have j: "join_frame r = join_frame ?g" by (rule join_shifted [OF sh n r])
  have "contin_work r + achild_work r = contin_work ?g + achild_work ?g"
    using j by (auto dest: arg_cong [where f = contin_work])
  then have "join_children r = Some (join_frame r)" using gr(2) by (auto simp: join_children_def dur_plus_def max_def)
  then obtain s3 where s3: "on_bot join_children both = Some s3" "ss_list s3 = join_frame r # fs"
    using on_bot_list [OF B(2,3)] by blast
  have "csi_after_sync cfg (d1 + int (ov' d1)) (T\<lparr>csc_tool := Some both\<rparr>) =
      Some (T\<lparr>csc_tool := Some (start_gettime cfg (d1 + int (ov' d1)) s3)\<rparr>)"
    using s3(1) by (simp add: csi_after_sync_def on_tool_def)
  then have "run_stolen cfg ov' d ss T = Some (T\<lparr>csc_tool := Some (start_gettime cfg (d1 + int (ov' d1)) s3)\<rparr>)"
    using V0(1) V(1) W(1) T(2) red by (simp add: run_stolen_def)
  moreover have "frames_of (T\<lparr>csc_tool := Some (start_gettime cfg (d1 + int (ov' d1)) s3)\<rparr>) = Some (join_frame r # fs)"
    using s3(2) by (simp add: frames_of_def start_gettime_def ss_list_def)
  then have "frames_of (T\<lparr>csc_tool := Some (start_gettime cfg (d1 + int (ov' d1)) s3)\<rparr>) = frames_of T2"
    unfolding F2 j .
  ultimately show ?thesis using T0(1) S(1) S2 by blast
qed

subsection \<open>The properties\<close>

text \<open>
  C11.  Cilkscale measures what it should: running its hooks on any fork-join program (nested
  calls, spawns and syncs, whatever the times the runtime takes between strands) ends and prints
  the work, the span and the burdened span of the series-parallel tree of the program, and no
  64-bit sum overflows as long as the work with the burdens of all spawns is below 2^63, and the
  nesting of calls and spawns is below 2^30.
\<close>

theorem measures_work_and_span:
  assumes "costs (timer_burden cfg) main < 2 ^ 63" "depths main + 2 < 2 ^ 30"
  shows "\<exists>T. run_program cfg ov c main = Some T \<and>
    csc_out T = [([], work (tree main), span (tree main), bspan (timer_burden cfg) (tree main))]"
  by (rule program_cost [OF assms])

lemma measures_work_and_span_witness:
  "\<exists>T. run_program CLOCK (\<lambda>_. 7) 100 [Strand 3, Spawn [Strand 5], Strand 2, Sync, Strand 1] = Some T \<and>
     csc_out T = [([], 11, 9, 6259)]"
  using measures_work_and_span [of CLOCK "[Strand 3, Spawn [Strand 5], Strand 2, Sync, Strand 1]" "\<lambda>_. 7" 100]
  by (simp add: timer_burden_def)

text \<open>
  C12.  A parallel run of Cilkscale measures like a serial one: when the continuation of a spawn
  (its hook, which adds the burden and starts the clock, and the statements after it) runs on a
  view of its own (identity, at any times of another clock) that the sync reduces into the view
  of what came before, the shadow stack after the sync is that of the serial run. The durations
  with the burdens fit 63 bits.
\<close>

theorem stolen_continuation_as_serial:
  assumes "csc_initialized T" "csc_tool T = Some left" "ss_wf left" "ss_list left = F # fs"
    "Sync \<notin> set ss" "fits (timer_burden cfg + costs (timer_burden cfg) ss) F" "length fs + depths ss + 1 < 2 ^ 30"
  shows "\<exists>T0 c1 T1 c2 T2 T3. csi_detach_continue cfg c False T = Some T0 \<and>
    run_body cfg ov ss (c, T0) = Some (c1, T1) \<and> run_sync cfg ov (c1, T1) = Some (c2, T2) \<and>
    run_stolen cfg ov' d ss T = Some T3 \<and> frames_of T3 = frames_of T2"
  by (rule stolen_eq_serial [OF assms])

definition ex_parent :: cilkscale where
  "ex_parent = csi_init (cilkscale_create CLOCK 5 0 0)"

lemma stolen_continuation_witness:
  "\<exists>T0 c1 T1 c2 T2 T3. csi_detach_continue CLOCK 6 False ex_parent = Some T0 \<and>
    run_body CLOCK (\<lambda>_. 1) [Strand 2, Spawn [Strand 4], Strand 1] (6, T0) = Some (c1, T1) \<and>
    run_sync CLOCK (\<lambda>_. 1) (c1, T1) = Some (c2, T2) \<and>
    run_stolen CLOCK (\<lambda>_. 9) 77 [Strand 2, Spawn [Strand 4], Strand 1] ex_parent = Some T3 \<and> frames_of T3 = frames_of T2"
proof -
  let ?ss = "start_gettime CLOCK 5 (shadow_stack_new 0 0 FT_MAIN)"
  have l: "csc_initialized ex_parent" "csc_tool ex_parent = Some ?ss"
    by (simp_all add: ex_parent_def csi_init_def cilkscale_create_def)
  have w: "ss_wf ?ss" "ss_list ?ss = [ssf_init FT_MAIN]"
    by (simp_all add: ss_wf_def ss_list_def shadow_stack_new_def DEFAULT_STACK_SIZE_def start_gettime_def numeral_eq_Suc)
  have f: "fits (timer_burden CLOCK + costs (timer_burden CLOCK) [Strand 2, Spawn [Strand 4], Strand 1]) (ssf_init FT_MAIN)"
    by (simp add: fits_def nonneg_def ssf_init_def timer_burden_def)
  show ?thesis by (rule stolen_continuation_as_serial [OF l w _ f]) simp_all
qed

end
