(* ===== verification/Spec2Isabelle.thy ===== *)
theory Spec2Isabelle
  imports AddrMap CallStack CilksanMem Containers DisjointSet DriverSafety Frames Hypertable LineWord LockHooks LockSets
    MemoryAccess MemSafety RaceInfo ReducerHooks ShadowCheck ShadowAccess ShadowOccupancy ToolSafety WorkSpan
begin

text \<open>
  A model of the core of the OpenCilk productivity tools (under \<open>src/\<close>), with the theorems that
  make it correct.

  \<^bold>\<open>The program.\<close>  Cilksan (\<open>src/cilksan/\<close>) watches the execution of a Cilk program: the compiler
  inserts calls of hooks, the hooks call the tool, and the tool keeps (1) frames, each with an S-bag
  and P-bags of the functions that are in series and in parallel with the current strand, over a
  disjoint-set forest, (2) shadow memories that record the last reads, writes and allocations of
  every byte, and (3) a table of the distinct races found.

  \<^bold>\<open>Theories and sources.\<close>
  \<^item> \<open>Prelude\<close>: machine words, arrays, generic lemmas.
  \<^item> \<open>Containers\<close>: \<open>stack.h\<close>, \<open>vector.h\<close>.
  \<^item> \<open>LockSets\<close>: \<open>LockSet_t\<close> of \<open>locksets.h\<close> (its lockers are in \<open>ShadowMem\<close>).
  \<^item> \<open>AddrMap\<close>: \<open>addrmap.h\<close>.  \<open>Hypertable\<close>: \<open>hypertable.h\<close>.
  \<^item> \<open>RaceInfo\<close>: ids, locations and races of \<open>race_info.h\<close>, \<open>report_race\<close> of \<open>print_addr.cpp\<close>.
  \<^item> \<open>RefCount\<close>: reference counting in general; \<open>CallStack\<close> (\<open>race_info.h\<close>) and
    \<open>DisjointSet\<close> (\<open>disjointset.h\<close>) interpret it.
  \<^item> \<open>SPBags\<close>: \<open>spbag.h\<close>.  \<open>Frames\<close>: \<open>frame_data.h\<close>.  \<open>MemoryAccess\<close>: \<open>dictionary.h\<close>.
  \<^item> \<open>LineWord\<close>, \<open>ShadowLine\<close>, \<open>ShadowDict\<close>, \<open>ShadowMem\<close>: \<open>simple_shadow_mem.h\<close>, from the packed word
    of a line up to the checks for races; \<open>ShadowView\<close>, \<open>ShadowCheck\<close> and \<open>ShadowOccupancy\<close> prove them,
    \<open>ShadowInsert\<close> and \<open>ShadowAccess\<close> the recording of accesses on the slow and the fast path.
  \<^item> \<open>Stats\<close>: the statistics of \<open>cilksan_internal.h\<close>.  \<open>Reducers\<close>: tables of reducer views
    (\<open>reducers.cpp\<close>, \<open>hyperobject_base.h\<close>).
  \<^item> \<open>Cilksan\<close>: the tool, \<open>CilkSanImpl_t\<close> of \<open>cilksan.cpp\<close> and \<open>cilksan_internal.h\<close>: its state and the
    handlers of control-flow events.  \<open>CilksanMem\<close>: its handlers of memory events.
  \<^item> \<open>BagSets\<close>, \<open>ControlState\<close>, \<open>ControlFlow\<close>, \<open>ToolRefine\<close>: what the bags and the handlers do to the sets
    of functions; \<open>SPSpec\<close>: the abstract SP-bags machine; \<open>SPDag\<close>: the series-parallel relation of the
    program; \<open>Entries\<close>, \<open>ToolSteps\<close>: runs of the tool; \<open>ToolSafety\<close>: the theorems on them;
    \<open>MemSteps\<close>, \<open>MemRuns\<close>: runs with accesses; \<open>MemSafety\<close>: the theorems on them.
  \<^item> \<open>Driver\<close>: the hooks that the compiler inserts for Cilksan and the state around the tool (\<open>driver.cpp\<close>,
    \<open>driver.h\<close>, \<open>checking.h\<close>); \<open>LockHooks\<close>: \<open>locking.cpp\<close>; \<open>ReducerHooks\<close>: the hooks of \<open>reducers.cpp\<close>.
    \<open>SPOrder\<close>: more on the dag of a program; \<open>DriverState\<close>, \<open>DriverSteps\<close>, \<open>DriverRuns\<close>: what the stacks of the
    driver hold, and how hooks are nested; \<open>DriverHooks\<close>, \<open>DriverTasks\<close>, \<open>DriverAccess\<close>: each hook keeps this;
    \<open>DriverSafety\<close>: runs of hooks and the theorems on them.
  \<^item> \<open>Cilkscale\<close>: the hooks of \<open>src/cilkscale/\<close> (\<open>cilkscale.cpp\<close>, \<open>shadow_stack.h\<close>, \<open>cilkscale_timer.h\<close>);
    \<open>WorkSpan\<close>: they measure the work and the span of fork-join programs.

  \<^bold>\<open>Conventions.\<close>  Machine integers keep their width.  A pointer is an address in a heap (a partial
  map) that the state carries, and 0 is null; an iterator's pointer to a page or a line is its index.
  An access out of bounds, a dereference of a null or freed pointer and a violated assertion are
  \<^term>\<open>None\<close>, so a theorem that an operation returns \<^term>\<open>Some\<close> shows that these do not happen.
  Loops that are not structurally recursive are partial functions into \<^typ>\<open>'a option\<close>; the theorems
  on them show that they end.  Memory that \<open>new\<close> leaves uninitialised is an argument.

  \<^bold>\<open>What the lemmas show.\<close>  The abstract state of each component is a function of its concrete
  state: the list of a stack, the set of a lock set, the map of an address map, the chain of call
  ids of a call stack, the representative of a node and the bag of its set, the access that a
  dictionary shows at each byte (\<open>Dict_view\<close>), the set of marked bytes (\<open>Dict_occ\<close>).  Each operation
  is shown to keep the invariant of its component and to have the intended effect on the abstract
  state.  The locales \<open>stack_iface\<close>, \<open>map_iface\<close> and \<open>refcounted\<close> state what clients use, and are
  interpreted on the model.

  The tool is verified in three layers.  The handlers refine the abstract SP-bags machine, in which a
  frame is a triple of sets (S-bag, P-bags, iteration bag) and every event moves whole sets.  This
  machine is shown to describe the dag of the program (\<open>d_step\<close>: which accesses precede the current
  strand), for spawns, calls, syncs and parallel loops whose iterations are told apart by versions that
  wrap around.  Together, a query about a recorded access is answered as the dag says, with two exceptions, in
  both of which the code takes accesses of older iterations of a loop to be in series: when the frame of the
  loop is not the topmost one (\<open>loop_race_missed_in_callee\<close>), and once the body has synced region 0, as the
  tool keeps what the older iterations have called and spawned in the P-bag of this region
  (\<open>sync_hides_older_iterations\<close>; \<open>d_synced\<close>, \<open>d_iters\<close> and \<open>lost\<close> in \<open>SPDag\<close>).  A query has an answer or
  none (\<open>query\<close>): a check whose query has no answer, because a node is null or freed or \<open>find_set\<close> does not
  end, has no result.  The runs have no reducers (\<open>reducer_views\<close> is null).  Runs with accesses (\<open>mem_reach\<close>) keep a log of the accesses that the program
  made; every byte of the shadow memory shows one of the log, so that a race that is reported is one of
  the program (\<open>no_false_races\<close>), and a race with what is recorded is reported (\<open>recorded_races_found\<close>).
  Whole-program completeness does not hold of this code: see \<open>loop_race_missed_in_callee\<close>,
  \<open>sync_hides_older_iterations\<close> and \<open>insert_overwrites_after_refine\<close>.

  \<^bold>\<open>What the runs assume of the program.\<close>  \<open>d_guard\<close> and \<open>step_ok\<close> state it: the events nest; a sync, a spawn
  and the end of a loop name a sync region of their frame (any region, region 0 of the body of a loop too); a
  called function has synced all its regions when it returns, and the body of a loop its regions above 0 when
  an iteration ends (Cilk's implicit sync; what is outstanding in region 0 joins the iterations); region
  numbers are below 7, the width of \<open>InContin\<close>; the allocators return fresh addresses.  \<open>control_ok\<close>: an
  access is dropped only when no byte shows it.

  Runs of hooks (\<open>hook_reach\<close>) put the driver on top.  The compiler nests the hooks properly; the list of
  open activations (\<open>activation\<close>) then determines what every stack of the driver holds.  The topmost entry of
  \<open>parallel_execution\<close> is 0 only when nothing is outstanding in any open frame, so that the accesses that the
  hooks skip precede all that follows (\<open>serial_accesses_race_free\<close>); this is stated in the dag of all accesses,
  of which the tool sees the recorded part (\<open>dag_part\<close>).  A parallel loop is synced right after its end: the
  driver restores the entry of before the loop at its end, before the sync, so that in between an access would
  be skipped; \<open>hook_ok\<close> allows only the sync there.  The runs hold no locks, make no atomic accesses, and
  leave the detach with an unwind destination, allocations and frees aside.

  Cilkscale is verified against the tree of the program: the hooks print its work, span and burdened span
  as long as all durations fit 64-bit signed integers.

  \<^bold>\<open>Bounds.\<close>  Addresses are below \<open>2^48\<close>, the range of the two-level tables.  A line has at most 512
  entries and a grainsize of at most \<open>2^9\<close>.  The ranks of the forest are below \<open>2^64 - 1\<close>: a run counts
  the unions it can have made.  The stack of frames is below \<open>2^31\<close>, the limit of its 32-bit head.
  Reference counts (\<open>int64_t\<close> in the code), the capacity and the head of a vector, and the sizes of lock sets
  are integers without a bound: that a count does not overflow is not proved (a count is the number of the
  references, of which there are as many as nodes, bags and recorded bytes).  A union increments a rank modulo
  \<open>2^64\<close> like the code, hence the bound on the ranks.  The theorems on Cilkscale ask for a nesting below \<open>2^30\<close>.

  \<^bold>\<open>Where the model is coarser than the code.\<close>  \<open>MemoryAccess_t::set\<close> gives up and takes references to
  the nodes of functions; in the model the handlers of reads and writes store the access, and the references
  are taken and given up by the actions \<open>Record\<close> and \<open>Forget\<close> of a run, one for an access and not one for
  each entry of a line.  The set function of lockers (\<open>LockerSetFn\<close>) cannot fail in the model: a query
  without an answer counts as no there.  The type of a report keeps the ids and not the call stacks.

  \<^bold>\<open>Not modelled.\<close>  Output (the symbolizer and the printing of races), signals, environment
  variables other than the two that the tool reads at its start, the debugging builds, the mapping of pages by
  the operating system; the dynamic interposers under \<open>CILKSAN_DYNAMIC\<close>, which the code says are never
  used; the hooks for library functions (\<open>libhooks.cpp\<close>), each of which takes pointer arguments off the stack
  and checks ranges of bytes with the operations of \<open>Driver\<close>; the slab allocators, which are the addresses
  that an allocation returns; the tables of source locations, which are only printed; \<open>old/\<close>, which is not
  built.
\<close>

subsection \<open>Concrete inputs\<close>

text \<open>The states at which the witnesses apply the properties.\<close>

lemma range48_ex: "range48 4096 8" "range48 4100 8"
  by (simp_all add: range48_def chunk48_def Chunk_def)

text \<open>
  C13.  The check of an access against the previous writes is sound and complete: over any range
  of addresses it ends, every race it reports is of a byte of the range whose recorded write is
  in parallel, and for every byte whose recorded write is in parallel there is a report of a
  write by the same function and version.
\<close>

theorem write_race_check_sound_complete:
  assumes "Shadow_ok S" "par_ok p" "range48 addr s"
    and "\<And>a ma. in_chunk (Chunk addr s) a \<Longrightarrow> Dict_view (sm_Writes S) a = Some ma \<Longrightarrow> par ma = Some (p ma)"
  shows "\<exists>rs. check_race_with_prev_write is_read par acc_id type addr s S = Some rs \<and>
    reports_sound p (Dict_view (sm_Writes S)) (in_chunk (Chunk addr s)) (race_type False is_read) acc_id type rs \<and>
    reports_complete p (Dict_view (sm_Writes S)) (in_chunk (Chunk addr s)) rs"
proof -
  have "answers par p (in_chunk (Chunk addr s)) (Dict_view (sm_Writes S))" 
    unfolding answers_def using assms(4) by blast
  moreover have "Dict_ok (sm_Writes S)" using assms(1) by (simp add: Shadow_ok_def)
  ultimately obtain I rs where "Query_iterator (sd_Table (sm_Writes S)) (Chunk addr s) = Some I"
    "check_race S par acc_id type (race_type False is_read) (sd_Table (sm_Writes S)) I = Some rs"
    "reports_sound p (Dict_view (sm_Writes S)) (in_chunk (Chunk addr s)) (race_type False is_read) acc_id type rs"
    "reports_complete p (Dict_view (sm_Writes S)) (in_chunk (Chunk addr s)) rs"
    using check_race_range [OF assms(1-3), of "sm_Writes S" par acc_id type "race_type False is_read"] by blast
  then show ?thesis by (simp add: check_race_with_prev_write_def)
qed

lemma Shadow_new_ok: "Shadow_ok Shadow_new"
  by (simp add: Shadow_ok_def Shadow_new_def Dict_new_ok)

lemma write_race_check_witness:
  "\<exists>W rs. Dict_set 4096 8 64 3 7 RW Dict_new = Some W \<and>
    check_race_with_prev_write False (\<lambda>_. Some True) 9 RW 4100 8 (Shadow_new\<lparr>sm_Writes := W\<rparr>) = Some rs \<and>
    rs \<noteq> [] \<and> (\<forall>r \<in> set rs. 4100 \<le> unat (rp_addr r) \<and> unat (rp_addr r) < 4104 \<and> rp_race r = WW_RACE)"
proof -
  have p: "ptr48 64" by (simp add: ptr48_def)
  obtain W where W: "Dict_set 4096 8 64 3 7 RW Dict_new = Some W" "Dict_ok W"
    and v: "\<forall>a. if in_chunk (Chunk 4096 8) a then records 64 7 RW (Dict_view W a)
         else Dict_view W a = Dict_view Dict_new a"
    using Dict_set_ok [OF Dict_new_ok range48_ex(1), of 64 3 7 RW] p by auto
  have S: "Shadow_ok (Shadow_new\<lparr>sm_Writes := W\<rparr>)"
    using W(2) by (simp add: Shadow_ok_def Shadow_new_def Dict_new_ok)
  have par: "par_ok (\<lambda>_. True)" by (simp add: par_ok_def)
  obtain rs where rs: "check_race_with_prev_write False (\<lambda>_. Some True) 9 RW 4100 8 (Shadow_new\<lparr>sm_Writes := W\<rparr>) = Some rs"
    "reports_sound (\<lambda>_. True) (Dict_view W) (in_chunk (Chunk 4100 8)) (race_type False False) 9 RW rs"
    "reports_complete (\<lambda>_. True) (Dict_view W) (in_chunk (Chunk 4100 8)) rs"
    using write_race_check_sound_complete [OF S par range48_ex(2), of "\<lambda>_. Some True" False 9 RW] by auto
  have n: "Dict_view Dict_new a = None" for a
    by (simp add: Dict_view_def Dict_new_def tb_view_page_None)
  have "\<exists>ma. Dict_view W 4100 = Some ma"
    using v [rule_format, of 4100] by (auto simp: in_chunk_def Chunk_def records_def)
  then have "rs \<noteq> []"
    using rs(3) by (auto simp: reports_complete_def in_chunk_def Chunk_def)
  moreover have "in_chunk (Chunk 4096 8) (rp_addr r)" if "r \<in> set rs" for r
    using rs(2) that v [rule_format, of "rp_addr r"] n [of "rp_addr r"]
    by (auto simp: reports_sound_def split: if_splits)
  ultimately show ?thesis
    using W(1) rs(1,2) by (fastforce simp: reports_sound_def in_chunk_def Chunk_def race_type_def)
qed

text \<open>
  C16.  SimpleDictionary::set ends, and afterwards find returns, at every byte of the range, an
  access with the recorded function, id and type, and at every other byte what it returned
  before.
\<close>

theorem recorded_access_is_found:
  assumes "Dict_ok D" "range48 addr s" "func \<noteq> 0" "ptr48 func"
  shows "\<exists>D'. Dict_set addr s func version acc_id type D = Some D' \<and> Dict_ok D' \<and>
    (\<forall>a. unat a < 2 ^ 48 \<longrightarrow>
       (if in_chunk (Chunk addr s) a
        then \<exists>ma. Dict_find a D' = Some (Some ma) \<and> getFuncFromVerFunc ma = func \<and> ver_acc_id ma = makeTypedID acc_id type
        else Dict_find a D' = Dict_find a D))"
proof -
  obtain D' where D': "Dict_set addr s func version acc_id type D = Some D'" "Dict_ok D'"
    and v: "\<forall>a. if in_chunk (Chunk addr s) a then records func acc_id type (Dict_view D' a)
         else Dict_view D' a = Dict_view D a"
    using Dict_set_ok [OF assms] by metis
  have f: "Dict_find a E = Some (Dict_view E a)" if "unat a < 2 ^ 48" "Dict_ok E" for a E
    using Dict_find_ok [OF that(2), of a] that(1) by (simp add: chunk48_def Chunk_def)
  have v1: "in_chunk (Chunk addr s) a \<Longrightarrow> records func acc_id type (Dict_view D' a)"
    and v2: "\<not> in_chunk (Chunk addr s) a \<Longrightarrow> Dict_view D' a = Dict_view D a" for a
    using v by metis+
  show ?thesis
    using D' v1 v2 assms(1) f unfolding records_def by auto
qed

lemma recorded_access_is_found_witness:
  "\<exists>D ma. Dict_set 4096 8 64 3 7 RW Dict_new = Some D \<and> Dict_find 4100 D = Some (Some ma) \<and>
     getFuncFromVerFunc ma = 64 \<and> Dict_find 4104 D = Dict_find 4104 Dict_new"
proof -
  have "ptr48 64" by (simp add: ptr48_def)
  then obtain D where D: "Dict_set 4096 8 64 3 7 RW Dict_new = Some D"
    and f: "\<forall>a. unat a < 2 ^ 48 \<longrightarrow>
       (if in_chunk (Chunk 4096 8) a
        then \<exists>ma. Dict_find a D = Some (Some ma) \<and> getFuncFromVerFunc ma = 64 \<and> ver_acc_id ma = makeTypedID 7 RW
        else Dict_find a D = Dict_find a Dict_new)"
    using recorded_access_is_found [OF Dict_new_ok range48_ex(1), of 64 3 7 RW] by auto
  show ?thesis
    using D f [rule_format, of 4100] f [rule_format, of 4104] by (auto simp: in_chunk_def)
qed

text \<open>
  C17.  SimpleDictionary::clear ends and forgets the accesses and the lockers of exactly the
  bytes of its range, across lines and pages.
\<close>

theorem clear_forgets_range:
  assumes "Dict_ok D" "range48 addr s"
  shows "\<exists>D'. Dict_clear addr s D = Some D' \<and> Dict_ok D' \<and>
    (\<forall>a. Dict_view D' a = (if in_chunk (Chunk addr s) a then None else Dict_view D a)) \<and>
    (\<forall>a. Dict_lockers D' a = (if in_chunk (Chunk addr s) a then None else Dict_lockers D a))"
  using assms by (rule Dict_clear_ok)

lemma clear_forgets_range_witness:
  "\<exists>D D'. Dict_set 4096 8 64 3 7 RW Dict_new = Some D \<and> Dict_clear 4100 8 D = Some D' \<and>
     Dict_view D 4100 \<noteq> None \<and> Dict_view D' 4100 = None \<and> Dict_view D' 4099 \<noteq> None"
proof -
  have "ptr48 64" by (simp add: ptr48_def)
  then obtain D where D: "Dict_set 4096 8 64 3 7 RW Dict_new = Some D" "Dict_ok D"
    and f: "\<forall>a. if in_chunk (Chunk 4096 8) a then records 64 7 RW (Dict_view D a)
        else Dict_view D a = Dict_view Dict_new a"
    using Dict_set_ok [OF Dict_new_ok range48_ex(1), of 64 3 7 RW] by auto
  show ?thesis
    using D clear_forgets_range [OF D(2) range48_ex(2)] f [rule_format, of 4100] f [rule_format, of 4099]
    by (auto simp: in_chunk_def records_def)
qed

text \<open>
  C18.  setOccupied returns true exactly when some byte of its range was not marked in this
  strand, and marks exactly the bytes of its range; what is recorded of the accesses does not
  change.
\<close>

theorem setOccupied_answers_and_marks:
  assumes "chunk48 (Chunk addr s)" "occ_inv D"
  shows "\<exists>D'. Dict_setOccupied addr s D = Some (\<exists>a. in_chunk (Chunk addr s) a \<and> \<not> Dict_occ D a, D') \<and>
    occ_inv D' \<and> (\<forall>a. Dict_occ D' a \<longleftrightarrow> Dict_occ D a \<or> in_chunk (Chunk addr s) a) \<and>
    (\<forall>a. Dict_view D' a = Dict_view D a)"
  using Dict_setOccupied_loop_ok [OF assms, of False] by (auto simp: Dict_setOccupied_def)

lemma setOccupied_witness:
  "\<exists>D D'. Dict_setOccupied 4096 8 Dict_new = Some (True, D) \<and> Dict_setOccupied 4100 4 D = Some (False, D')"
proof -
  have c: "chunk48 (Chunk 4096 8)" "chunk48 (Chunk 4100 4)" by (simp_all add: chunk48_def Chunk_def)
  have n: "(\<exists>a. in_chunk (Chunk 4096 8) a \<and> \<not> Dict_occ Dict_new a) = True"
    by (auto simp: in_chunk_def Dict_new_occ(2) intro!: exI [of _ 4096])
  obtain D where D: "Dict_setOccupied 4096 8 Dict_new = Some (True, D)" "occ_inv D"
    "\<forall>a. Dict_occ D a \<longleftrightarrow> Dict_occ Dict_new a \<or> in_chunk (Chunk 4096 8) a"
    using setOccupied_answers_and_marks [OF c(1) Dict_new_occ(1)]
    unfolding n by blast
  have o: "(\<exists>a. in_chunk (Chunk 4100 4) a \<and> \<not> Dict_occ D a) = False"
    using D(3) by (auto simp: in_chunk_def)
  show ?thesis
    using D(1) setOccupied_answers_and_marks [OF c(2) D(2)] unfolding o by blast
qed

text \<open>
  C19.  clearOccupied leaves no byte marked: the list of touched words names every word that has
  a mark, an invariant that setOccupied keeps.
\<close>

theorem clearOccupied_forgets_all:
  assumes "occ_inv D"
  shows "\<exists>D'. Dict_clearOccupied D = Some D' \<and> (\<forall>a. \<not> Dict_occ D' a) \<and> occ_inv D' \<and>
    (\<forall>a. Dict_view D' a = Dict_view D a)"
  using assms by (rule Dict_clearOccupied_ok)

lemma clearOccupied_witness:
  "\<exists>D D'. Dict_setOccupied 4096 8 Dict_new = Some (True, D) \<and> Dict_occ D 4100 \<and>
     Dict_clearOccupied D = Some D' \<and> \<not> Dict_occ D' 4100"
proof -
  have c: "chunk48 (Chunk 4096 8)" by (simp_all add: chunk48_def Chunk_def)
  have n: "(\<exists>a. in_chunk (Chunk 4096 8) a \<and> \<not> Dict_occ Dict_new a) = True"
    by (auto simp: in_chunk_def Dict_new_occ(2) intro!: exI [of _ 4096])
  obtain D where D: "Dict_setOccupied 4096 8 Dict_new = Some (True, D)" "occ_inv D"
    "\<forall>a. Dict_occ D a \<longleftrightarrow> Dict_occ Dict_new a \<or> in_chunk (Chunk 4096 8) a"
    using Dict_setOccupied_loop_ok [OF c Dict_new_occ(1), of False]
    unfolding Dict_setOccupied_def n by auto
  then show ?thesis
    using clearOccupied_forgets_all [OF D(2)] by (auto simp: in_chunk_def)
qed

definition ex_sp :: "nat sp_state" where
  "ex_sp = \<lparr>sp_ds = [16 \<mapsto> \<lparr>ds_parent_or_bag = 9, ds_data = 11, ds_rank = 0, ds_ref_count = 1\<rparr>,
       32 \<mapsto> \<lparr>ds_parent_or_bag = 27, ds_data = 22, ds_rank = 0, ds_ref_count = 1\<rparr>],
     sp_bags = [8 \<mapsto> \<lparr>bag_ds = 16, bag_payload = 0\<rparr>, 24 \<mapsto> \<lparr>bag_ds = 32, bag_payload = push_bit 63 1\<rparr>],
     sp_list = DSList_new, sp_new = []\<rparr>"

lemma ex_sp_roots: "ds_par \<lparr>ds_parent_or_bag = 9, ds_data = d, ds_rank = k, ds_ref_count = c\<rparr> = None"
   "ds_par \<lparr>ds_parent_or_bag = 27, ds_data = d, ds_rank = k, ds_ref_count = c\<rparr> = None"
  by (simp_all add: ds_par_def ds_isRoot_def pob_defs tag_defs)

lemma ex_sp_no_kids: "rc_kids ds_par (sp_ds ex_sp) a = {}"
  by (auto simp: rc_kids_def ex_sp_def ex_sp_roots split: if_splits)

lemma ex_sp_refs: "bag_refs (sp_bags ex_sp) a = (if a = 16 \<or> a = 32 then 1 else 0)"
proof -
  have e: "{b. \<exists>B. sp_bags ex_sp b = Some B \<and> bag_ds B = a} = (if a = 16 then {8} else if a = 32 then {24} else {})"
    by (auto simp: ex_sp_def split: if_splits)
  show ?thesis by (simp only: bag_refs_def e) simp
qed

lemma ex_sp_inv: "sp_inv ex_sp (\<lambda>_. 0)"
proof -
  have "aligned4 (8 :: u64)" "aligned4 (16 :: u64)" "aligned4 (24 :: u64)" "aligned4 (32 :: u64)"
    by (simp_all add: aligned4_def)
  then show ?thesis
    unfolding sp_inv_def ds_inv_def rc_inv_def ex_sp_no_kids bag_ext_def ex_sp_refs
    by (auto simp: ex_sp_def ex_sp_roots DSList_wf_new split: if_splits)
qed

lemma sp_in_root: "sp_ds S a = Some n \<Longrightarrow> ds_par n = None \<Longrightarrow> sp_in S a (ds_parent_or_bag n)"
  unfolding sp_in_def by (metis ds_rep.root)

lemma ex_sp_in: "sp_in ex_sp 16 (pob_setSBag 8)" "sp_in ex_sp 32 (pob_setPBag 24)"
  using sp_in_root [of ex_sp 16] sp_in_root [of ex_sp 32]
  by (simp_all add: ex_sp_def ex_sp_roots pob_defs tag_defs)

lemma ex_sp_owns: "sp_owns ex_sp 8" "sp_owns ex_sp 24"
  by (simp_all add: sp_owns_def ex_sp_def ex_sp_roots bag_tag_def is_SBag_bit pob_defs tag_defs)

text \<open>
  C14.  previousAccessInParallel answers the question of the SP-bags algorithm: a recorded
  access is in parallel with the current one exactly when the set of its function belongs to a
  P-bag, or when it belongs to the iteration bag of the current loop frame with an older
  version. It changes no set (it only compresses paths).
\<close>

theorem previous_access_in_parallel_iff_pbag:
  assumes "sp_inv S ext" "0 < bag_ext ext (sp_bags S) (getFuncFromVerFunc ma)"
    "sp_bags S b = Some B" "sp_in S (getFuncFromVerFunc ma) (bag_tag b B)"
  shows "\<exists>S'. previousAccessInParallel ma f S =
      Some (is_PBag B \<or> (is_loop_frame f \<and> b = Iterbag f \<and> getVersionFromVerFunc ma < SBag_get_version B), S') \<and>
    sp_inv S' ext \<and> sp_same_sets S S'"
  using assms by (rule previousAccessInParallel_ok)

lemma previous_access_witness:
  "\<exists>S S'. previousAccessInParallel \<lparr>ver_func = 32, ver_acc_id = 5\<rparr> FrameData_default ex_sp = Some (True, S) \<and>
     previousAccessInParallel \<lparr>ver_func = 16, ver_acc_id = 5\<rparr> FrameData_default ex_sp = Some (False, S')"
proof -
  have f: "getFuncFromVerFunc \<lparr>ver_func = 32, ver_acc_id = 5\<rparr> = 32" "getFuncFromVerFunc \<lparr>ver_func = 16, ver_acc_id = 5\<rparr> = 16"
    by (simp_all add: getFuncFromVerFunc_def ma_masks mask_eq_exp_minus_1)
  have b: "sp_bags ex_sp 24 = Some \<lparr>bag_ds = 32, bag_payload = push_bit 63 1\<rparr>"
    "sp_bags ex_sp 8 = Some \<lparr>bag_ds = 16, bag_payload = 0\<rparr>" by (simp_all add: ex_sp_def)
  have t: "bag_tag 24 \<lparr>bag_ds = 32, bag_payload = push_bit 63 1\<rparr> = pob_setPBag 24" "bag_tag 8 \<lparr>bag_ds = 16, bag_payload = 0\<rparr> = pob_setSBag 8"
    "is_PBag \<lparr>bag_ds = 32, bag_payload = push_bit 63 1\<rparr>" "\<not> is_PBag \<lparr>bag_ds = 16, bag_payload = 0\<rparr>"
    by (simp_all add: bag_tag_def is_SBag_bit is_PBag_bit)
  have l: "\<not> is_loop_frame FrameData_default" by code_simp
  show ?thesis
    using previous_access_in_parallel_iff_pbag [OF ex_sp_inv _ b(1), of "\<lparr>ver_func = 32, ver_acc_id = 5\<rparr>" FrameData_default]
     previous_access_in_parallel_iff_pbag [OF ex_sp_inv _ b(2), of "\<lparr>ver_func = 16, ver_acc_id = 5\<rparr>" FrameData_default] ex_sp_in t l
    by (auto simp: f bag_ext_def ex_sp_refs)
qed

text \<open>
  C15.  PBag_t::combine moves every function of the other bag into this P-bag and leaves the
  functions of all other bags in theirs; the invariant of the heaps (reference counts, ranks,
  tags) is kept.
\<close>

theorem pbag_absorbs_bag:
  assumes "sp_inv S ext" "this \<noteq> that"
    and "sp_bags S this = Some B" "sp_owns S this" "is_PBag B"
    and "sp_bags S that = Some C" "sp_owns S that" "bag_ds C \<noteq> 0"
    and "ds_ranks_ok (sp_ds S)"
  shows "\<exists>S'. PBag_combine this that S = Some S' \<and> sp_inv S' ext \<and> sp_merged this B C S S'"
  using assms by (rule PBag_combine_ok)

lemma pbag_absorbs_bag_witness:
  "\<exists>S'. PBag_combine 24 8 ex_sp = Some S' \<and> sp_inv S' (\<lambda>_. 0) \<and>
     (sp_ds S' 16 \<noteq> None \<longrightarrow> sp_in S' 16 (pob_setPBag 24))"
proof -
  have b: "sp_bags ex_sp 24 = Some \<lparr>bag_ds = 32, bag_payload = push_bit 63 1\<rparr>"
    "sp_bags ex_sp 8 = Some \<lparr>bag_ds = 16, bag_payload = 0\<rparr>" by (simp_all add: ex_sp_def)
  have t: "bag_tag 24 \<lparr>bag_ds = 32, bag_payload = push_bit 63 1\<rparr> = pob_setPBag 24" 
    "is_PBag \<lparr>bag_ds = 32, bag_payload = push_bit 63 1\<rparr>"
    by (simp_all add: bag_tag_def is_SBag_bit is_PBag_bit)
  have r: "ds_ranks_ok (sp_ds ex_sp)" by (auto simp: ds_ranks_ok_def ex_sp_def word_gt_0 split: if_splits)
  have 16: "sp_ds ex_sp 16 = Some \<lparr>ds_parent_or_bag = 9, ds_data = 11, ds_rank = 0, ds_ref_count = 1\<rparr>"
    by (simp add: ex_sp_def)
  have rep: "ds_rep (sp_ds ex_sp) 16 16"
    using 16 by (rule ds_rep.root) (rule ex_sp_roots)
  show ?thesis
    using pbag_absorbs_bag [OF ex_sp_inv _ b(1) ex_sp_owns(2) t(2) b(2) ex_sp_owns(1) _ r] rep 16 t(1)
    unfolding sp_merged_def by fastforce
qed

definition ex_lock :: "u64 list \<Rightarrow> LockSet_t" where
  "ex_lock xs = fold (LockSet_insert (\<lambda>_. 0)) xs (LockSet_new (\<lambda>_. 0))"

lemma ex_lock_ok: "LockSet_wf (ex_lock xs) \<and> ls_set (ex_lock xs) = set xs"
proof -
  have "LockSet_wf L \<Longrightarrow> LockSet_wf (fold (LockSet_insert (\<lambda>_. 0)) xs L) \<and>
      ls_set (fold (LockSet_insert (\<lambda>_. 0)) xs L) = set xs \<union> ls_set L" for L
    by (induction xs arbitrary: L) (auto simp: LockSet_insert_wf LockSet_insert_set)
  from this [OF LockSet_new_wf(1)] show ?thesis by (simp add: ex_lock_def LockSet_new_wf(2))
qed

text \<open>
  C23.  The one-pass comparison LockSet_t::intersect returns: EMPTY when a lock set is empty,
  and otherwise the flags for a common lock and for each side whether its locks that are not in
  the other set all lie above the other set (the loop ends before it sees these).
\<close>

theorem lockset_intersect_result:
  assumes "LockSet_wf L" "LockSet_wf R"
  shows "LockSet_intersect L R =
    (if ls_set L = {} \<or> ls_set R = {} then EMPTY
     else result_of (ls_set L \<inter> ls_set R \<noteq> {})
            (in_or_above (ls_set L) (ls_set R)) (in_or_above (ls_set R) (ls_set L)))"
  using assms by (rule LockSet_intersect_result)

lemma lockset_intersect_witness:
  "LockSet_intersect (ex_lock [1, 2]) (ex_lock [2, 3]) = result_of True False False \<or>
   LockSet_intersect (ex_lock [1, 2]) (ex_lock [2, 3]) = result_of True False True"
  using lockset_intersect_result [of "ex_lock [1, 2]" "ex_lock [2, 3]"] ex_lock_ok
  by (auto simp: in_or_above_def)

text \<open>
  C24.  When all locks of a previous access are smaller than all locks of the current one, the
  lock sets are disjoint but intersect returns L_SUPERSET_OF_R and not EMPTY, so that
  dataRaceWithPreviousAccesses misses the data race.
\<close>

theorem disjoint_locksets_missed:
  assumes "LockSet_wf L" "LockSet_wf R" "ls_set L \<noteq> {}" "ls_set R \<noteq> {}"
    and "\<forall>x \<in> ls_set L. \<forall>y \<in> ls_set R. x < y"
  shows "ls_set L \<inter> ls_set R = {} \<and> LockSet_intersect L R = L_SUPERSET_OF_R \<and>
    dataRaceWithPreviousAccesses par R [\<lparr>lk_access = ma, lk_lockset = L\<rparr>] = map_option (\<lambda>_. False) (par ma)"
proof -
  have d: "ls_set L \<inter> ls_set R = {}" using assms(5) by fastforce
  have "\<not> in_or_above (ls_set L) (ls_set R)" "in_or_above (ls_set R) (ls_set L)"
    using assms(3-5) d by (force simp: in_or_above_def)+
  then have "LockSet_intersect L R = L_SUPERSET_OF_R"
    using LockSet_intersect_result [OF assms(1,2)] assms(3,4) d by (simp add: result_of_def)
  moreover have "L_SUPERSET_OF_R \<noteq> EMPTY" by (simp add: result_defs)
  ultimately show ?thesis using d by (cases "par ma") simp_all
qed

lemma disjoint_locksets_missed_witness:
  "dataRaceWithPreviousAccesses (\<lambda>_. Some True) (ex_lock [2]) [\<lparr>lk_access = MemoryAccess_default, lk_lockset = ex_lock [1]\<rparr>] = Some False"
  using disjoint_locksets_missed [of "ex_lock [1]" "ex_lock [2]" "\<lambda>_. Some True" MemoryAccess_default] ex_lock_ok by auto

text \<open>
  C33.  LockSet_t::insert keeps the array sorted and free of duplicates and inserts exactly the
  new lock, growing the array when it is full.
\<close>

theorem lockset_insert_refines_set:
  assumes "LockSet_wf ls"
  shows "LockSet_wf (LockSet_insert g x ls) \<and> ls_set (LockSet_insert g x ls) = insert x (ls_set ls)"
  using assms by (rule LockSet_insert_list)

lemma lockset_insert_witness:
  "ls_set (LockSet_insert (\<lambda>_. 0) 5 (LockSet_insert (\<lambda>_. 0) 9 (LockSet_new (\<lambda>_. 0)))) = {5, 9}"
  using lockset_insert_refines_set [OF LockSet_new_wf(1), of "\<lambda>_. 0" 9 "\<lambda>_. 0"]
    lockset_insert_refines_set [of "LockSet_insert (\<lambda>_. 0) 9 (LockSet_new (\<lambda>_. 0))" "\<lambda>_. 0" 5]
  by (simp add: LockSet_new_wf(2))

text \<open>
  C34.  Removing a lock that is not in the lock set prints the message and then removes another
  lock: the least one above it.
\<close>

theorem lockset_remove_absent_removes_next:
  assumes "LockSet_wf ls" "x \<notin> ls_set ls" "y \<in> ls_set ls" "x < y"
  shows "\<exists>r z. LockSet_remove x ls = Some (True, r) \<and> LockSet_wf r \<and> z \<in> ls_set ls \<and> x < z
    \<and> (\<forall>w \<in> ls_set ls. x < w \<longrightarrow> z \<le> w) \<and> ls_set r = ls_set ls - {z}"
  using assms by (rule LockSet_remove_absent)

lemma lockset_remove_absent_witness:
  "\<exists>r. LockSet_remove 3 (ex_lock [2, 5]) = Some (True, r) \<and> ls_set r = {2}"
  using lockset_remove_absent_removes_next [of "ex_lock [2, 5]" 3 5] ex_lock_ok [of "[2, 5]"]
  by fastforce

text \<open>
  C35.  The comparison operators of lock sets are the lexicographic order of the sorted arrays
  and the equality of the sets.
\<close>

theorem lockset_order_is_lexicographic:
  assumes "LockSet_wf L" "LockSet_wf R"
  shows "(LockSet_less L R \<longleftrightarrow> ord_class.lexordp (ls_list L) (ls_list R)) \<and>
    (LockSet_eq L R \<longleftrightarrow> ls_set L = ls_set R)"
  using LockSet_less_lex [OF assms] LockSet_eq_set [OF assms] by simp

lemma lockset_order_witness: "LockSet_eq (ex_lock [2, 5]) (ex_lock [5, 2])"
  using lockset_order_is_lexicographic [of "ex_lock [2, 5]" "ex_lock [5, 2]"] ex_lock_ok by auto

text \<open>
  C37.  Stack_t is a stack: push_back adds an element that back returns, and pop removes it,
  across the resizing of the array in both directions.
\<close>

theorem stack_push_pop:
  assumes "Stack_wf s" "Stack_room s"
  shows "Stack_contents (Stack_push_back d v s) = Stack_contents s @ [v] \<and>
    Stack_back (Stack_push_back d v s) = Some v \<and>
    Stack_contents (Stack_pop d (Stack_push_back d v s)) = Stack_contents s"
  using Stack_push_back_contents [OF assms, of d v] stk.top_push [OF assms, of d v] stk.pop_push_contents [OF assms, of d v]
  by simp

lemma stack_push_pop_witness:
  "Stack_contents (Stack_push_back 0 7 (Stack_new 1)) = [1 :: int, 7]"
proof -
  have "Stack_room (Stack_new (1 :: int))" by (simp add: Stack_room_def Stack_new_def)
  from stack_push_pop [OF Stack_new_wf this, of 0 7] show ?thesis by (simp add: Stack_contents_new)
qed

text \<open>
  C38.  Vector_t::push_back appends to the list of elements; isEmpty, however, returns true
  exactly when the vector has elements.
\<close>

theorem vector_isEmpty_inverted:
  assumes "Vector_wf v"
  shows "Vector_wf (Vector_push_back d x v) \<and> Vector_elems (Vector_push_back d x v) = Vector_elems v @ [x] \<and>
    (Vector_isEmpty v \<longleftrightarrow> Vector_elems v \<noteq> [])"
  using Vector_push_back_elems [OF assms, of d x] Vector_isEmpty_elems [OF assms] by simp

lemma vector_isEmpty_witness: "Vector_elems (Vector_push_back 0 (5 :: int) (Vector_new 0)) = [5]"
  using vector_isEmpty_inverted [OF Vector_new_elems [THEN conjunct1], of 0 "5 :: int" 0] by (simp add: Vector_new_elems)

text \<open>
  C36.  AddrMap_t is a partial map on the addresses below 2^48: insert and remove update it at
  exactly one address, and get and contains read it.
\<close>

theorem addrmap_refines_partial_map:
  assumes "addr_ok a"
  shows "(\<exists>T'. AddrMap_insert d a v T = Some T' \<and> AddrMap_lookup T' = (AddrMap_lookup T)(a := Some v)) \<and>
    (\<exists>T'. AddrMap_remove a T = Some T' \<and> AddrMap_lookup T' = (AddrMap_lookup T)(a := None)) \<and>
    AddrMap_get T a = Some (AddrMap_lookup T a) \<and> AddrMap_contains T a = Some (AddrMap_lookup T a \<noteq> None)"
  using AddrMap_insert_lookup [OF assms] AddrMap_remove_lookup [OF assms] AddrMap_get_lookup [OF assms]
    AddrMap_contains_lookup [OF assms] by metis

lemma addrmap_witness:
  "\<exists>T. AddrMap_insert (\<lambda>_. 0) 4096 (7 :: int) AddrMap_new = Some T \<and> AddrMap_get T 4096 = Some (Some 7)"
proof -
  have a: "addr_ok 4096" by (simp add: addr_ok_def AddrMap_page_def addr_consts)
  obtain T where T: "AddrMap_insert (\<lambda>_. 0) 4096 (7 :: int) AddrMap_new = Some T"
    "AddrMap_lookup T = (AddrMap_lookup AddrMap_new)(4096 \<mapsto> 7)"
    using addrmap_refines_partial_map [OF a, where d = "\<lambda>_. 0" and v = "7 :: int" and T = AddrMap_new] by blast
  then show ?thesis using addrmap_refines_partial_map [OF a, where T = T] by simp
qed

text \<open>A chain 16, 32, 48 to the root 64, with one outside reference to 16.\<close>

definition ex_chain :: "nat ds_heap" where
  "ex_chain = [16 \<mapsto> \<lparr>ds_parent_or_bag = 32, ds_data = 11, ds_rank = 0, ds_ref_count = 1\<rparr>,
     32 \<mapsto> \<lparr>ds_parent_or_bag = 48, ds_data = 22, ds_rank = 1, ds_ref_count = 1\<rparr>,
     48 \<mapsto> \<lparr>ds_parent_or_bag = 64, ds_data = 33, ds_rank = 2, ds_ref_count = 1\<rparr>,
     64 \<mapsto> \<lparr>ds_parent_or_bag = 9, ds_data = 44, ds_rank = 3, ds_ref_count = 1\<rparr>]"

definition ex_one :: "u64 \<Rightarrow> u64 \<Rightarrow> nat" where "ex_one x = (\<lambda>a. if a = x then 1 else 0)"

lemma ex_chain_par: "ds_par \<lparr>ds_parent_or_bag = p, ds_data = d, ds_rank = k, ds_ref_count = c\<rparr> =
    (if p AND 1 = 0 then Some p else None)"
  by (simp add: ds_par_def ds_isRoot_def pob_defs tag_defs)

lemma ex_chain_kids: "rc_kids ds_par ex_chain a =
    (if a = 32 then {16} else if a = 48 then {32} else if a = 64 then {48} else {})"
  by (auto simp: rc_kids_def ex_chain_def ex_chain_par split: if_splits)

lemma ex_chain_inv: "ds_inv ex_chain (ex_one 16)"
proof -
  have "aligned4 (16 :: u64)" "aligned4 (32 :: u64)" "aligned4 (48 :: u64)" "aligned4 (64 :: u64)"
    by (simp_all add: aligned4_def)
  then show ?thesis
    unfolding ds_inv_def rc_inv_def ex_chain_kids ex_one_def
    by (auto simp: ex_chain_def ex_chain_par word_less_nat_alt split: if_splits)
qed

lemma ex_chain_rep: "ds_rep ex_chain 16 64"
proof -
  have e: "ex_chain 64 \<noteq> None" "ds_par (the (ex_chain 64)) = None"
    "ex_chain 48 \<noteq> None" "ds_par (the (ex_chain 48)) = Some 64"
    "ex_chain 32 \<noteq> None" "ds_par (the (ex_chain 32)) = Some 48"
    "ex_chain 16 \<noteq> None" "ds_par (the (ex_chain 16)) = Some 32"
    by (simp_all add: ex_chain_def ds_par_def ds_isRoot_def pob_defs tag_defs)
  have "ds_rep ex_chain 64 64" using e(1,2) by (auto intro: ds_rep.root)
  then have "ds_rep ex_chain 48 64" using e(3,4) by (auto intro: ds_rep.step)
  then have "ds_rep ex_chain 32 64" using e(5,6) by (auto intro: ds_rep.step)
  then show ?thesis using e(7,8) by (auto intro: ds_rep.step)
qed

text \<open>
  C20.  find_set ends and returns the root of the node, whatever the depth of the tree; path
  compression keeps all representatives, bags and ranks, frees only nodes that nothing refers
  to, and leaves the work list empty.
\<close>

theorem find_set_returns_root:
  assumes "ds_inv h ext" "0 < ext a" "DSList_wf L" "DSList_elems L = []"
  shows "\<exists>r h' L'. find_set a h L = Some (r, h', L') \<and> ds_rep h a r \<and> ds_inv h' ext \<and>
    ds_refines h h' \<and> DSList_wf L' \<and> DSList_elems L' = []"
  using assms by (rule find_set_ok)

lemma find_set_witness:
  "\<exists>h' L'. find_set 16 ex_chain DSList_new = Some (64, h', L') \<and> ds_inv h' (ex_one 16)"
proof -
  have "0 < ex_one 16 16" by (simp add: ex_one_def)
  from find_set_returns_root [OF ex_chain_inv this DSList_wf_new] show ?thesis
    using ds_rep_fun [OF ex_chain_rep] by metis
qed

text \<open>
  C21.  Giving up a reference to a disjoint-set node frees the node and the chain of its
  ancestors exactly as far as nothing else refers to them: the counts of the remaining nodes are
  again the numbers of references.
\<close>

theorem dec_ref_count_frees_only_unreferenced:
  assumes "ds_inv h ext" "0 < ext a"
  shows "\<exists>h'. ds_dec_ref_count a 1 h = Some h' \<and> ds_inv h' (ext_dec (Some a) ext) \<and> ds_sub h h'"
  using assms ds_dec_ref_count_ok by blast

lemma dec_ref_count_witness:
  "\<exists>h'. ds_dec_ref_count 16 1 ex_chain = Some h' \<and> ds_inv h' (\<lambda>_. 0)"
proof -
  have e: "0 < ex_one 16 16" "ext_dec (Some 16) (ex_one 16) = (\<lambda>_. 0)" by (auto simp: ex_one_def)
  show ?thesis using dec_ref_count_frees_only_unreferenced [OF ex_chain_inv e(1)] unfolding e(2) by blast
qed

text \<open>An empty call stack with three addresses to allocate.\<close>
definition ex_cs :: call_stack_heap where
  "ex_cs = \<lparr>cs_nodes = Map.empty, cs_free_list = [], cs_os = [16, 32, 48]\<rparr>"

text \<open>
  C25.  call_stack_t::push adds one frame to the list of call ids, takes a free node, keeps the
  chains of all other live nodes and keeps every reference count equal to the number of
  references.
\<close>

theorem call_stack_push_pushes:
  assumes "cs_wf S ext" "tail = 0 \<or> 0 < ext tail" "cs_free_list S @ cs_os S \<noteq> []"
  shows "\<exists>a S'. call_stack_push i tail S = Some (a, S') \<and> a \<noteq> 0 \<and> cs_nodes S a = None \<and>
    cs_wf S' (ext_inc (Some a) (ext_dec (cs_ref tail) ext)) \<and> cs_keeps S S' \<and>
    (\<forall>ids. cs_chain (cs_nodes S) tail ids \<longrightarrow> cs_chain (cs_nodes S') a (i # ids))"
  using assms by (rule call_stack_push_ok)

text \<open>
  C26.  call_stack_t::pop removes the last frame of the list of call ids and frees a node only
  when nothing refers to it: the saved stacks of earlier accesses keep their frames.
\<close>

theorem call_stack_pop_pops:
  assumes "cs_wf S ext" "0 < ext tail" "cs_chain (cs_nodes S) tail (i # ids)"
  shows "\<exists>p S'. call_stack_pop tail S = Some (p, S') \<and>
    cs_wf S' (ext_dec (Some tail) (ext_inc (cs_ref p) ext)) \<and> cs_keeps S S' \<and>
    cs_chain (cs_nodes S') p ids"
  using assms by (rule call_stack_pop_ok)

lemma ex_cs_wf: "cs_wf ex_cs (\<lambda>_. 0)"
  unfolding cs_wf_def cs_inv_def rc_inv_def
  apply (auto simp: ex_cs_def rc_kids_def)
  done

lemma call_stack_push_witness:
  "\<exists>a S. call_stack_push CallID_default 0 ex_cs = Some (a, S) \<and> cs_chain (cs_nodes S) a [CallID_default]"
proof -
  have "cs_chain (cs_nodes ex_cs) 0 []" by simp
  then show ?thesis
    using call_stack_push_pushes [OF ex_cs_wf, of 0 CallID_default] by (auto simp: ex_cs_def)
qed

lemma call_stack_pop_witness:
  "\<exists>a S p S'. call_stack_push CallID_default 0 ex_cs = Some (a, S) \<and> call_stack_pop a S = Some (p, S') \<and>
     cs_chain (cs_nodes S') p []"
proof -
  have c: "cs_chain (cs_nodes ex_cs) 0 []" by simp
  obtain a S where S: "call_stack_push CallID_default 0 ex_cs = Some (a, S)"
    "cs_wf S (ext_inc (Some a) (ext_dec (cs_ref 0) (\<lambda>_. 0)))" "cs_chain (cs_nodes S) a [CallID_default]"
    using call_stack_push_ok [OF ex_cs_wf, of 0 CallID_default] c by (auto simp: ex_cs_def)
  then show ?thesis using call_stack_pop_pops [OF S(2) _ S(3)] by auto
qed

text \<open>
  C22.  report_race prints a race exactly when no equivalent race (the same pair of accesses in
  either order, with the same allocation) was printed before, although it only searches the
  races filed under the key it computes.
\<close>

theorem distinct_races_reported_once:
  assumes "RaceReport_wf R" "loc_ok f" "loc_ok s"
  shows "RaceReport_wf (report_race f s a x t R) \<and>
    (if \<exists>r' \<in> set (races_printed R). is_equivalent_race (RaceInfo_make f s a x t) r'
     then races_printed (report_race f s a x t R) = races_printed R
     else races_printed (report_race f s a x t R) = races_printed R @ [RaceInfo_make f s a x t])"
proof -
  have "races_printed (report_race f s a x t R) =
      (if \<exists>r' \<in> set (races_printed R). is_equivalent_race (RaceInfo_make f s a x t) r'
       then races_printed R else races_printed R @ [RaceInfo_make f s a x t])"
    unfolding report_race_found_iff [OF assms, of a x t, symmetric] report_race_def Let_def by simp
  then show ?thesis using report_race_wf [OF assms] by simp
qed

lemma distinct_races_witness:
  "length (races_printed
     (report_race (AccessLoc_t.make 5 RW 0) (AccessLoc_t.make 9 RW 0) AccessLoc_default 4096 RW_RACE
     (report_race (AccessLoc_t.make 9 RW 0) (AccessLoc_t.make 5 RW 0) AccessLoc_default 4100 WR_RACE RaceReport_new))) = 1"
proof -
  have l: "loc_ok (AccessLoc_t.make 5 RW 0)" "loc_ok (AccessLoc_t.make 9 RW 0)"
    by (simp_all add: loc_ok_def id_ok_def AccessLoc_t.make_def)
  let ?R = "report_race (AccessLoc_t.make 9 RW 0) (AccessLoc_t.make 5 RW 0) AccessLoc_default 4100 WR_RACE RaceReport_new"
  have R: "RaceReport_wf ?R" "races_printed ?R = [RaceInfo_make (AccessLoc_t.make 9 RW 0) (AccessLoc_t.make 5 RW 0) AccessLoc_default 4100 WR_RACE]"
    using distinct_races_reported_once [OF RaceReport_wf_new l(2,1), of AccessLoc_default 4100 WR_RACE]
    by (simp_all add: RaceReport_new_def)
  show ?thesis
    using distinct_races_reported_once [OF R(1) l, of AccessLoc_default 4096 RW_RACE] unfolding R(2)
    by (simp add: is_equivalent_race_def RaceInfo_make_def)
qed

text \<open>
  C30.  Each operation on the packed word of a line changes its own field only: the 48 bits of
  the pointer, the 12 bits of the count and the 4 bits of the grainsize do not carry into each
  other, and a count of zero is never decremented.
\<close>

theorem packed_word_ops:
  assumes "unat g < 16" "unat r < 2 ^ 31" "lw_count w * unat r < 2 ^ 12" "lw_count w < 2 ^ 12 - 1" "unat p < 2 ^ 48"
  shows "lw_fields (lw_setLgGrainsize g w) = (lw_data w, lw_count w, unat g) \<and>
    lw_fields (lw_scaleNumNonNullEls r w) = (lw_data w, lw_count w * unat r, lw_lg w) \<and>
    lw_fields (lw_incNumNonNullEls w) = (lw_data w, lw_count w + 1, lw_lg w) \<and>
    lw_fields (lw_zeroNumNonNullEls w) = (lw_data w, 0, lw_lg w) \<and>
    lw_fields (lw_setData p w) = (unat p, lw_count w, lw_lg w) \<and>
    (if lw_count w = 0 then lw_decNumNonNullEls w = None
     else \<exists>v. lw_decNumNonNullEls w = Some v \<and> lw_fields v = (lw_data w, lw_count w - 1, lw_lg w))"
proof -
  have "\<exists>v. lw_decNumNonNullEls w = Some v" if "lw_count w \<noteq> 0"
    using lw_decNumNonNullEls_ok(1) that by (metis not_None_eq)
  then show ?thesis
    using lw_setLgGrainsize_ok [OF assms(1)] lw_scaleNumNonNullEls_ok [OF assms(2,3)]
      lw_incNumNonNullEls_ok [OF assms(4)] lw_zeroNumNonNullEls_ok lw_setData_ok [OF assms(5)] lw_decNumNonNullEls_ok
    by (metis (no_types, lifting))
qed

lemma packed_word_witness:
  "lw_fields (lw_scaleNumNonNullEls 4 (lw_setLgGrainsize 3 0)) = (0, 0, 3) \<and>
   lw_fields (lw_incNumNonNullEls (lw_setLgGrainsize 3 0)) = (0, 1, 3)"
proof -
  have c: "lw_count 0 = 0" "lw_data 0 = 0" by (simp_all add: lw_count_def lw_data_def)
  then have a: "lw_fields (lw_setLgGrainsize 3 0) = (0, 0, 3)"
    using packed_word_ops [of 3 4 0 0] by simp
  then show ?thesis
    using packed_word_ops [of 3 4 "lw_setLgGrainsize 3 0" 0] by (simp add: lw_fields_def)
qed

text \<open>
  C27.  Refining a line to a smaller grainsize ends with every byte showing the same access as
  before, and with a count of valid entries that is again exact.
\<close>

theorem refine_keeps_view:
  assumes "Line_ok M L" "new < ln_LgGrainsize L" "\<not> dm_isValid M (dm_default M)"
  shows "\<exists>L'. Line_refine M new L = Some L' \<and> Line_ok M L' \<and> ln_LgGrainsize L' = new \<and>
    (\<forall>b < 512. Line_view M L' b = Line_view M L b)"
  using Line_refine_ok [OF assms] by metis

lemma refine_witness:
  "\<exists>L. Line_refine MALineMethods 3 Line_new = Some L \<and> ln_LgGrainsize L = 3 \<and> Line_view MALineMethods L 17 = None"
proof -
  have "3 < ln_LgGrainsize Line_new" by (simp add: Line_new_def sd_consts)
  from refine_keeps_view [OF Line_new_ok this MALine_valid(1)] show ?thesis by (auto simp: Line_new_view)
qed

text \<open>
  C28.  AbstractLine_t::set ends for every access that starts in the line, stores an entry at
  exactly the bytes of the access that are in the line, and leaves the rest of the access for
  the next line.
\<close>

theorem line_set_stores:
  assumes "Line_ok M L" "\<not> dm_isValid M (dm_default M)" "\<And>d. dm_isValid M (f d)"
    "chunk_ok c" "ck_addr c \<noteq> 0" "\<not> Chunk_isEmpty c"
  shows "\<exists>L' c'. Line_set M f L c = Some (L', c') \<and> Line_ok M L' \<and>
    chunk_after_line c c' \<and> stores_covered M f c L L'"
  using assms by (rule Line_set_ok)

lemma line_set_witness:
  "\<exists>L c. Line_set MALineMethods (MASetFn 64 3 7 RW) Line_new (Chunk 4096 8) = Some (L, c) \<and> Line_ok MALineMethods L \<and>
     Line_view MALineMethods L 4 \<noteq> None"
proof -
  have c: "chunk_ok (Chunk 4096 8)" "ck_addr (Chunk 4096 8) \<noteq> 0" "\<not> Chunk_isEmpty (Chunk 4096 8)"
    by (simp_all add: chunk_ok_def Chunk_def Chunk_isEmpty_def)
  have v: "dm_isValid MALineMethods (MASetFn 64 3 7 RW d)" for d
    using MASetFn_valid [of 64 3 7 RW d] by (simp add: MALineMethods_def)
  obtain L c' where L: "Line_set MALineMethods (MASetFn 64 3 7 RW) Line_new (Chunk 4096 8) = Some (L, c')"
    "Line_ok MALineMethods L" "stores_covered MALineMethods (MASetFn 64 3 7 RW) (Chunk 4096 8) Line_new L"
    using line_set_stores [where f = "MASetFn 64 3 7 RW", OF Line_new_ok MALine_valid(1) v c] by blast
  have "chunk_covers (Chunk 4096 8) 4" "(4 :: nat) < 512" by (simp_all add: chunk_covers_def Chunk_def)
  then have "Line_view MALineMethods L 4 \<noteq> None"
    using L(3) [unfolded stores_covered_def, rule_format, of 4] by auto
  then show ?thesis using L by blast
qed

text \<open>
  C31.  The function (48 bits), the version (16 bits), the id (44 bits) and the type (4 bits)
  packed into a MemoryAccess_t are read back unchanged.
\<close>

theorem memory_access_roundtrip:
  fixes v :: version_t
  assumes "ptr48 p" "id44 i" "take_bit 4 t = t"
  defines "ma \<equiv> \<lparr>ver_func = makeVerFunc p v, ver_acc_id = makeTypedID i t\<rparr>"
  shows "getFuncFromVerFunc ma = p \<and> getVersionFromVerFunc ma = v \<and> getAccID ma = i \<and> getAccType ma = t"
  using ver_func_roundtrip [OF assms(1), of v] typed_id_roundtrip [OF assms(2,3)]
  by (simp add: ma_def getFuncFromVerFunc_def getVersionFromVerFunc_def)

lemma memory_access_witness:
  "getAccType \<lparr>ver_func = makeVerFunc 64 3, ver_acc_id = makeTypedID 7 STACK_FREE\<rparr> = STACK_FREE"
proof -
  have "ptr48 64" "id44 7" "take_bit 4 STACK_FREE = STACK_FREE"
    by (simp_all add: ptr48_def id44_def STACK_FREE_def mask_eq_exp_minus_1)
  from memory_access_roundtrip [OF this, of 3] show ?thesis by simp
qed

text \<open>
  C32.  MemoryAccess_t::set stores the version only together with a new function: when the
  function is the one already recorded, the old version stays.
\<close>

theorem same_function_keeps_version:
  assumes "ptr48 func"
  shows "getVersionFromVerFunc (MASetFn func v2 i2 t2 (MASetFn func v1 i1 t1 MemoryAccess_default)) =
    (if func = 0 then 0 else v1)"
  using ver_func_roundtrip [OF assms]
  by (auto simp: MASetFn_def getFuncFromVerFunc_def getVersionFromVerFunc_def MemoryAccess_default_def)

lemma same_function_witness:
  "getVersionFromVerFunc (MASetFn 64 2 9 RW (MASetFn 64 1 7 RW MemoryAccess_default)) = 1"
  using same_function_keeps_version [of 64 2 9 RW 1 7 RW] by (simp add: ptr48_def)

declare Line_insert_loop.simps [code]

definition ex_line :: "MemoryAccess_t Line_t" where
  "ex_line = \<lparr>ln_LgGrainsize = 3, ln_NumNonNullEls = 3,
     ln_Data = Some ((replicate 64 MemoryAccess_default)[0 := \<lparr>ver_func = 64, ver_acc_id = 1\<rparr>,
       1 := \<lparr>ver_func = 128, ver_acc_id = 2\<rparr>, 2 := \<lparr>ver_func = 64, ver_acc_id = 1\<rparr>])\<rparr>"

text \<open>AbstractLine_t::insert takes the index of the previous entry before it refines the line: after the
  refinement the index names another entry, and insert overwrites an entry (at byte 16) that differs from the
  one it started from.\<close>

lemma insert_overwrites_after_refine:
  "do {(L, c) \<leftarrow> Line_insert MALineMethods (MASetFn 256 0 7 0) 1 ex_line (Chunk 524 12);
      Some (Line_view MALineMethods ex_line 16, Line_view MALineMethods L 16)} =
   Some (Some \<lparr>ver_func = 64, ver_acc_id = 1\<rparr>, Some \<lparr>ver_func = 256, ver_acc_id = 7\<rparr>)"
  by code_simp

text \<open>
  C39.  The bits of InContin are the set of the continuations that a frame is in (0 for a loop,
  s + 1 for sync region s): whatever the set is, enter_continuation and enter_loop_continuation
  add exactly theirs, exit_continuation and exit_loop_continuation remove exactly theirs, also
  when it is not in the set, and in_continuation says whether the set is not empty.
\<close>

theorem continuations_are_a_set:
  assumes "s < 7"
  shows "\<exists>f1 f2. enter_continuation s f = Some f1 \<and> contins f1 = insert (Suc s) (contins f) \<and>
    exit_continuation s f = Some f2 \<and> contins f2 = contins f - {Suc s} \<and>
    contins (enter_loop_continuation f) = insert 0 (contins f) \<and>
    contins (exit_loop_continuation f) = contins f - {0} \<and> (in_continuation f \<longleftrightarrow> contins f \<noteq> {})"
proof -
  obtain f1 f2 where "enter_continuation s f = Some f1" "exit_continuation s f = Some f2"
    using assms by (auto simp: enter_continuation_def exit_continuation_def)
  then show ?thesis using contins_enter contins_exit contins_loop in_continuation_contins by metis
qed

lemma continuations_witness:
  "\<exists>f f'. enter_continuation 2 FrameData_default = Some f \<and> contins f = {3} \<and>
     exit_continuation 4 f = Some f' \<and> contins f' = {3}"
proof -
  have e: "contins FrameData_default = {}" by (simp add: contins_def FrameData_default_def)
  obtain f where f: "enter_continuation 2 FrameData_default = Some f" "contins f = {3}"
    using continuations_are_a_set [of 2 FrameData_default] e by auto
  then show ?thesis using continuations_are_a_set [of 4 f] by auto
qed

text \<open>
  C40.  After any sequence of strands the statistics hold, for every access size, the largest
  number of checked reads of this size in one strand.
\<close>

theorem strand_maxima_are_kept:
  assumes "collect_stats s" "strand_num_reads_checked s = Map.empty" "\<forall>xs \<in> set strands. length xs < 2 ^ 64"
  shows "unat (size_count (max_num_reads_checked (fold strand_reads strands s)) k) =
    Max (insert (unat (size_count (max_num_reads_checked s) k)) ((\<lambda>xs. count_list xs k) ` set strands))"
  by (rule run_max_reads [OF assms])

lemma strand_maxima_witness:
  "unat (size_count (max_num_reads_checked (fold strand_reads [[4, 8, 4], [8], [4, 4, 4]] (stats_init True))) 4) = 3"
  using strand_maxima_are_kept [of "stats_init True" "[[4, 8, 4], [8], [4, 4, 4]]" 4]
  by (simp add: stats_init_def size_count_def)

end
